(* ===== verification/Prelude.thy ===== *)
theory Prelude
  imports Main "HOL-Library.Word" "HOL-Library.Multiset"
begin

text \<open>
  Shared vocabulary of the development.

  \<^item> Results. Every operation of the library that can throw returns a value of
    type \<open>'a result\<close>: \<open>Inr x\<close> is a normal return, \<open>Inl (Throw e)\<close> a
    \<open>VsagException\<close> with its \<open>ErrorType\<close> (\<open>include/vsag/errors.h\<close>), and
    \<open>Inl Std_out_of_range\<close>, \<open>Inl Std_length_error\<close>, \<open>Inl Std_invalid_argument\<close> and \<open>Inl Std_runtime_error\<close> those of the standard
    library, \<open>Inl Diverges\<close> a loop that never ends, and
    \<open>Inl UB\<close> an access for which C++ gives no meaning (an index outside the
    buffer, a read through a null pointer). Allocation is assumed to succeed.
  \<^item> Integers. Identifiers and sizes are natural numbers; where the source computes
    in a machine type the truncation is written out with \<open>u8\<close>, \<open>u16\<close>, \<open>u32\<close>
    or \<open>u64\<close>. Code that works on bits uses words.
  \<^item> Distances. A non-NaN IEEE float is represented by its ordinal: the magnitude
    bits with the sign bit as a sign. This map into \<open>int\<close> keeps \<open><\<close> and
    unary minus, the only operations of floats the modelled code applies itself;
    every other float operation is a parameter.
\<close>

unbundle bit_operations_syntax

section \<open>Errors and results\<close>

datatype error_type =
    UNKNOWN_ERROR
  | INTERNAL_ERROR
  | INVALID_ARGUMENT
  | WRONG_STATUS
  | BUILD_TWICE
  | INDEX_NOT_EMPTY
  | UNSUPPORTED_INDEX
  | UNSUPPORTED_INDEX_OPERATION
  | DIMENSION_NOT_EQUAL
  | INDEX_EMPTY
  | NO_ENOUGH_MEMORY
  | READ_ERROR
  | MISSING_FILE
  | INVALID_BINARY

datatype fault = Throw error_type | Std_out_of_range | Std_length_error | Std_invalid_argument | Std_runtime_error | UB | Diverges

type_synonym 'a result = "fault + 'a"

definition bindR :: "'a result \<Rightarrow> ('a \<Rightarrow> 'b result) \<Rightarrow> 'b result" where
  "bindR m f = (case m of Inl e \<Rightarrow> Inl e | Inr x \<Rightarrow> f x)"

lemma bindR_simps [simp]:
  "bindR (Inl e) f = Inl e"
  "bindR (Inr x) f = f x"
  by (simp_all add: bindR_def)

lemma bindR_Inr_iff: "bindR m f = Inr y \<longleftrightarrow> (\<exists>x. m = Inr x \<and> f x = Inr y)"
  by (cases m) auto

lemma bindR_Inl_iff: "bindR m f = Inl e \<longleftrightarrow> m = Inl e \<or> (\<exists>x. m = Inr x \<and> f x = Inl e)"
  by (cases m) auto

lemma bindR_cong [fundef_cong]:
  "m = m' \<Longrightarrow> (\<And>x. m' = Inr x \<Longrightarrow> f x = f' x) \<Longrightarrow> bindR m f = bindR m' f'"
  by (cases m') auto

text \<open>A loop over a list whose body may fail.\<close>

fun foldR :: "('a \<Rightarrow> 's \<Rightarrow> 's result) \<Rightarrow> 'a list \<Rightarrow> 's \<Rightarrow> 's result" where
  "foldR f [] s = Inr s"
| "foldR f (x # xs) s = bindR (f x s) (foldR f xs)"

text \<open>An invariant kept by a body that succeeds under it is kept by the loop, which succeeds.\<close>

lemma foldR_invariant:
  assumes "P s"
    and "\<And>x s. x \<in> set xs \<Longrightarrow> P s \<Longrightarrow> \<exists>s'. f x s = Inr s' \<and> P s'"
  shows "\<exists>s'. foldR f xs s = Inr s' \<and> P s'"
  using assms
proof (induction xs arbitrary: s)
  case Nil
  then show ?case by simp
next
  case (Cons x xs)
  then obtain s1 where s1: "f x s = Inr s1" "P s1" by (metis list.set_intros(1))
  have "\<exists>s'. foldR f xs s1 = Inr s' \<and> P s'"
    using Cons.prems(2) by (intro Cons.IH [OF s1(2)]) auto
  then show ?case using s1(1) by simp
qed

lemma foldR_append: "foldR f (xs @ ys) s = bindR (foldR f xs s) (foldR f ys)"
proof (induction xs arbitrary: s)
  case (Cons x xs)
  then show ?case by (cases "f x s") simp_all
qed simp

text \<open>A counted loop: the invariant may speak of the number of iterations done.\<close>

lemma foldR_upt_invariant:
  assumes "P 0 s"
    and "\<And>i s. i < n \<Longrightarrow> P i s \<Longrightarrow> \<exists>s'. f i s = Inr s' \<and> P (Suc i) s'"
  shows "\<exists>s'. foldR f [0..<n] s = Inr s' \<and> P n s'"
  using assms(2)
proof (induction n)
  case 0
  then show ?case using assms(1) by simp
next
  case (Suc n)
  then obtain t where t: "foldR f [0..<n] s = Inr t" "P n t" by (metis less_SucI)
  moreover obtain t' where "f n t = Inr t'" "P (Suc n) t'" using Suc.prems [of n t] t(2) by auto
  ultimately show ?case by (simp add: foldR_append)
qed

section \<open>Machine integers over the naturals\<close>

definition u8 :: "nat \<Rightarrow> nat" where "u8 n = n mod 2 ^ 8"
definition u16 :: "nat \<Rightarrow> nat" where "u16 n = n mod 2 ^ 16"
definition u32 :: "nat \<Rightarrow> nat" where "u32 n = n mod 2 ^ 32"
definition u64 :: "nat \<Rightarrow> nat" where "u64 n = n mod 2 ^ 64"

lemma u8_less [simp]: "n < 256 \<Longrightarrow> u8 n = n" by (simp add: u8_def)
lemma u16_less [simp]: "n < 65536 \<Longrightarrow> u16 n = n" by (simp add: u16_def)
lemma u32_less [simp]: "n < 4294967296 \<Longrightarrow> u32 n = n" by (simp add: u32_def)
lemma u64_less [simp]: "n < 18446744073709551616 \<Longrightarrow> u64 n = n" by (simp add: u64_def)

lemma u8_bound [simp]: "u8 n < 256" by (simp add: u8_def)
lemma u32_bound [simp]: "u32 n < 4294967296" by (simp add: u32_def)
lemma u64_bound [simp]: "u64 n < 18446744073709551616" by (simp add: u64_def)

text \<open>Unsigned 64-bit subtraction.\<close>

definition u64_sub :: "nat \<Rightarrow> nat \<Rightarrow> nat" where
  "u64_sub a b = u64 (a + (2 ^ 64 - u64 b))"

lemma u64_sub_le: "b \<le> a \<Longrightarrow> a < 2 ^ 64 \<Longrightarrow> u64_sub a b = a - b"
proof -
  assume "b \<le> a" "a < 2 ^ 64"
  then have "a + (2 ^ 64 - u64 b) = (a - b) + 2 ^ 64" by simp
  then show ?thesis using \<open>a < 2 ^ 64\<close> unfolding u64_sub_def u64_def
    by (metis less_imp_diff_less mod_add_self2 mod_less)
qed

lemma u64_sub_bound [simp]: "u64_sub a b < 18446744073709551616"
  by (simp add: u64_sub_def)

type_synonym inner_id = nat
type_synonym label = int
type_synonym dist = int

section \<open>Lists used as arrays\<close>

text \<open>\<open>std::vector::resize\<close>: cut, or extend with value-initialised elements.\<close>

definition vec_resize :: "nat \<Rightarrow> 'a \<Rightarrow> 'a list \<Rightarrow> 'a list" where
  "vec_resize n d xs = take n xs @ replicate (n - length xs) d"

lemma length_vec_resize [simp]: "length (vec_resize n d xs) = n"
  by (simp add: vec_resize_def)

lemma nth_vec_resize [simp]:
  "i < n \<Longrightarrow> vec_resize n d xs ! i = (if i < length xs then xs ! i else d)"
  by (auto simp: vec_resize_def nth_append)

lemma take_vec_resize: "m \<le> n \<Longrightarrow> m \<le> length xs \<Longrightarrow> take m (vec_resize n d xs) = take m xs"
  by (simp add: vec_resize_def)

text \<open>\<open>memcpy\<close> and \<open>memmove\<close> into a buffer: \<open>splice\<close> at a position.\<close>

definition blit :: "'a list \<Rightarrow> nat \<Rightarrow> 'a list \<Rightarrow> 'a list" where
  "blit buf pos src = take pos buf @ src @ drop (pos + length src) buf"

lemma length_blit [simp]:
  "pos + length src \<le> length buf \<Longrightarrow> length (blit buf pos src) = length buf"
  by (simp add: blit_def)

lemma nth_blit:
  assumes "pos + length src \<le> length buf" "i < length buf"
  shows "blit buf pos src ! i =
    (if pos \<le> i \<and> i < pos + length src then src ! (i - pos) else buf ! i)"
  using assms by (auto simp: blit_def nth_append min_def)

lemma take_drop_blit:
  "pos + length src \<le> length buf \<Longrightarrow> take (length src) (drop pos (blit buf pos src)) = src"
  by (simp add: blit_def)

section \<open>Multisets of lists\<close>

lemma distinct_submset: "mset xs \<subseteq># mset ys \<Longrightarrow> distinct ys \<Longrightarrow> distinct xs"
  by (metis distinct_append mset_append mset_eq_imp_distinct_iff subset_mset.le_iff_add ex_mset)

end
