(* ===== verification/Streams.thy ===== *)
theory Streams
  imports Prelude
begin

text \<open>
  \<open>src/storage/stream_writer.{h,cpp}\<close> and \<open>src/storage/stream_reader.{h,cpp}\<close>.

  A writer appends bytes; a reader delivers bytes from a cursor. Fixed-width objects are
  written as their bytes, least significant first (\<open>reinterpret_cast\<close> on the little-endian
  targets of the library). The interface \<open>byte_reader\<close> says what a client may rely on:
  \<open>Read\<close> either returns the next bytes of the stream and advances, or throws. It is
  provided by the reader over an \<open>istream\<close>, by the buffered reader and by the slice
  reader; the typed reads (\<open>ReadObj\<close>, \<open>ReadVector\<close>, \<open>ReadString\<close>) are verified
  once against it.
\<close>

type_synonym byte = "8 word"
type_synonym bytes = "byte list"

section \<open>Little-endian objects\<close>

lemma unat_byte_less: "unat (b :: byte) < 256"
  by (rule order.strict_trans2 [OF unsigned_less]) simp

fun le_bytes :: "nat \<Rightarrow> nat \<Rightarrow> bytes" where
  "le_bytes 0 v = []"
| "le_bytes (Suc k) v = of_nat (v mod 256) # le_bytes k (v div 256)"

fun le_val :: "bytes \<Rightarrow> nat" where
  "le_val [] = 0"
| "le_val (b # bs) = unat b + 256 * le_val bs"

lemma length_le_bytes [simp]: "length (le_bytes k v) = k"
  by (induction k arbitrary: v) auto

lemma le_val_le_bytes: "le_val (le_bytes k v) = v mod 256 ^ k"
proof (induction k arbitrary: v)
  case (Suc k)
  have "le_val (le_bytes (Suc k) v) = v mod 256 + 256 * (v div 256 mod 256 ^ k)"
    by (simp add: Suc unat_of_nat)
  also have "\<dots> = v mod 256 ^ Suc k"
    by (simp add: mod_mult2_eq)
  finally show ?case .
qed simp

lemma le_val_le_bytes_id [simp]: "v < 256 ^ k \<Longrightarrow> le_val (le_bytes k v) = v"
  by (simp add: le_val_le_bytes)

lemma le_val_bound: "le_val bs < 256 ^ length bs"
proof (induction bs)
  case (Cons b bs)
  have "unat b < 256" by (rule unat_byte_less)
  moreover have "256 * le_val bs + 256 \<le> 256 * 256 ^ length bs" using Cons by simp
  ultimately show ?case by (simp add: add.commute)
qed simp

lemma le_bytes_le_val: "length bs = k \<Longrightarrow> le_bytes k (le_val bs) = bs"
proof (induction bs arbitrary: k)
  case (Cons b bs)
  have "unat b < 256" by (rule unat_byte_less)
  with Cons show ?case by auto
qed simp

section \<open>Writers\<close>

text \<open>
  \<open>StreamWriter\<close>: the bytes written so far; \<open>GetCursor\<close> is their number. The three
  writers (into a buffer, an \<open>ostream\<close> or a callback) differ only in where the bytes go.
\<close>

record stream_writer =
  sw_out :: bytes
  sw_bytes_written :: nat

definition StreamWriter_new :: stream_writer where
  "StreamWriter_new = \<lparr>sw_out = [], sw_bytes_written = 0\<rparr>"

definition StreamWriter_Write :: "bytes \<Rightarrow> stream_writer \<Rightarrow> stream_writer" where
  "StreamWriter_Write data w =
     w\<lparr>sw_out := sw_out w @ data, sw_bytes_written := u64 (sw_bytes_written w + length data)\<rparr>"

definition WriteObj :: "nat \<Rightarrow> nat \<Rightarrow> stream_writer \<Rightarrow> stream_writer" where
  "WriteObj k val w = StreamWriter_Write (le_bytes k val) w"

definition WriteVector :: "nat \<Rightarrow> nat list \<Rightarrow> stream_writer \<Rightarrow> stream_writer" where
  "WriteVector k val w =
     (let w1 = WriteObj 8 (length val) w
      in if length val > 0 then StreamWriter_Write (concat (map (le_bytes k) val)) w1 else w1)"

definition WriteString :: "bytes \<Rightarrow> stream_writer \<Rightarrow> stream_writer" where
  "WriteString str w = StreamWriter_Write str (WriteObj 8 (length str) w)"

lemma sw_out_Write [simp]: "sw_out (StreamWriter_Write d w) = sw_out w @ d"
  by (simp add: StreamWriter_Write_def)

lemma sw_out_WriteObj [simp]: "sw_out (WriteObj k v w) = sw_out w @ le_bytes k v"
  by (simp add: WriteObj_def)

lemma sw_out_WriteVector [simp]:
  "sw_out (WriteVector k xs w) = sw_out w @ le_bytes 8 (length xs) @ concat (map (le_bytes k) xs)"
  by (simp add: WriteVector_def Let_def)

lemma sw_out_WriteString [simp]:
  "sw_out (WriteString s w) = sw_out w @ le_bytes 8 (length s) @ s"
  by (simp add: WriteString_def)

section \<open>Typed reads\<close>

text \<open>
  The static templates of \<open>StreamReader\<close>, over the virtual \<open>Read\<close> they call: \<open>rd n r\<close>
  returns \<open>n\<close> bytes and the reader after them.
\<close>

type_synonym 'r rd = "nat \<Rightarrow> 'r \<Rightarrow> (bytes \<times> 'r) result"

definition ReadObj :: "'r rd \<Rightarrow> nat \<Rightarrow> 'r \<Rightarrow> (nat \<times> 'r) result" where
  "ReadObj rd k r = bindR (rd k r) (\<lambda>(bs, r1). Inr (le_val bs, r1))"

text \<open>
  The elements of an array of \<open>n\<close> objects of \<open>k\<close> bytes; what the stream did not
  fill stays 0, as \<open>resize\<close> left it.
\<close>

fun decode_array :: "nat \<Rightarrow> nat \<Rightarrow> bytes \<Rightarrow> nat list" where
  "decode_array k 0 bs = []"
| "decode_array k (Suc n) bs = le_val (take k bs) # decode_array k n (drop k bs)"

definition ReadVector :: "'r rd \<Rightarrow> nat \<Rightarrow> 'r \<Rightarrow> (nat list \<times> 'r) result" where
  "ReadVector rd k r =
     bindR (ReadObj rd 8 r) (\<lambda>(n, r1).
     bindR (rd (u64 (n * k)) r1) (\<lambda>(bs, r2). Inr (decode_array k n bs, r2)))"

definition ReadString :: "'r rd \<Rightarrow> 'r \<Rightarrow> (bytes \<times> 'r) result" where
  "ReadString rd r = bindR (ReadObj rd 8 r) (\<lambda>(n, r1). rd n r1)"

lemma decode_array_concat:
  "(\<And>x. x \<in> set xs \<Longrightarrow> x < 256 ^ k) \<Longrightarrow>
    decode_array k (length xs) (concat (map (le_bytes k) xs)) = xs"
  by (induction xs) auto

lemma length_concat_le_bytes [simp]:
  "length (concat (map (le_bytes k) xs)) = length xs * k"
  by (induction xs) auto

text \<open>A counted loop whose body reads from the stream and updates a state.\<close>

fun read_loop :: "nat \<Rightarrow> ('s \<Rightarrow> 'r \<Rightarrow> ('s \<times> 'r) result) \<Rightarrow> 's \<Rightarrow> 'r \<Rightarrow> ('s \<times> 'r) result" where
  "read_loop 0 body s r = Inr (s, r)"
| "read_loop (Suc n) body s r = bindR (body s r) (\<lambda>(s1, r1). read_loop n body s1 r1)"

text \<open>
  A client that reads blocks of the given sizes one after the other, and what it may expect of a
  reader whose remaining bytes are known.
\<close>

fun read_blocks :: "'r rd \<Rightarrow> nat list \<Rightarrow> 'r \<Rightarrow> (bytes list \<times> 'r) result" where
  "read_blocks rd [] r = Inr ([], r)"
| "read_blocks rd (n # ns) r =
     bindR (rd n r) (\<lambda>(bs, r1).
     bindR (read_blocks rd ns r1) (\<lambda>(bss, r2). Inr (bs # bss, r2)))"

fun spec_blocks :: "nat list \<Rightarrow> bytes \<Rightarrow> bytes list result" where
  "spec_blocks [] bs = Inr []"
| "spec_blocks (n # ns) bs =
     (if n \<le> length bs
      then bindR (spec_blocks ns (drop n bs)) (\<lambda>bss. Inr (take n bs # bss))
      else Inl (Throw READ_ERROR))"

section \<open>The reader interface\<close>

text \<open>
  \<open>rest r\<close> are the bytes a reader still has to deliver; \<open>ok\<close> is the invariant of the
  reader. A read within the rest succeeds, delivers its first bytes and leaves the others.
\<close>

locale byte_reader =
  fixes rd :: "'r rd"
    and rest :: "'r \<Rightarrow> bytes"
    and ok :: "'r \<Rightarrow> bool"
  assumes read_ok: "ok r \<Longrightarrow> n \<le> length (rest r) \<Longrightarrow>
      \<exists>r'. rd n r = Inr (take n (rest r), r') \<and> rest r' = drop n (rest r) \<and> ok r'"
    and read_short: "ok r \<Longrightarrow> length (rest r) < n \<Longrightarrow> rd n r = Inl (Throw READ_ERROR)"
begin

text \<open>
  \<open>parses p x bs\<close>: on a reader that starts with \<open>bs\<close>, the parser \<open>p\<close> returns \<open>x\<close>
  and consumes exactly \<open>bs\<close>.
\<close>

definition parses :: "('r \<Rightarrow> ('a \<times> 'r) result) \<Rightarrow> 'a \<Rightarrow> bytes \<Rightarrow> bool" where
  "parses p x bs \<longleftrightarrow> (\<forall>r tail. ok r \<longrightarrow> rest r = bs @ tail \<longrightarrow>
     (\<exists>r'. p r = Inr (x, r') \<and> rest r' = tail \<and> ok r'))"

lemma parsesD:
  assumes "parses p x bs" "ok r" "rest r = bs @ tail"
  obtains r' where "p r = Inr (x, r')" "rest r' = tail" "ok r'"
  using assms unfolding parses_def by blast

lemma parses_read: "length bs = n \<Longrightarrow> parses (rd n) bs bs"
  unfolding parses_def by (metis append_eq_conv_conj length_append read_ok trans_le_add1 order_refl)

lemma parses_bind:
  assumes "parses p x bs" "parses (q x) y cs"
  shows "parses (\<lambda>r. bindR (p r) (\<lambda>(z, r1). q z r1)) y (bs @ cs)"
  using assms unfolding parses_def by (fastforce simp: bindR_def)

lemma parses_return: "parses (\<lambda>r. Inr (x, r)) x []"
  by (simp add: parses_def)

lemma parses_map:
  assumes "parses p x bs"
  shows "parses (\<lambda>r. bindR (p r) (\<lambda>(z, r1). Inr (f z, r1))) (f x) bs"
  using parses_bind [OF assms parses_return, of f] by simp

lemma parses_ReadObj: "v < 256 ^ k \<Longrightarrow> parses (ReadObj rd k) v (le_bytes k v)"
  using parses_map [OF parses_read, of "le_bytes k v" k le_val]
  unfolding ReadObj_def by simp

lemma parses_ReadVector:
  assumes "length xs < 2 ^ 64" "length xs * k < 2 ^ 64" "\<And>x. x \<in> set xs \<Longrightarrow> x < 256 ^ k"
  shows "parses (ReadVector rd k) xs (le_bytes 8 (length xs) @ concat (map (le_bytes k) xs))"
proof -
  have "parses (ReadObj rd 8) (length xs) (le_bytes 8 (length xs))"
    using assms(1) by (intro parses_ReadObj) simp
  moreover have "parses (\<lambda>r. bindR (rd (u64 (length xs * k)) r) (\<lambda>(bs, r1). Inr (decode_array k (length xs) bs, r1)))
      xs (concat (map (le_bytes k) xs))"
    using parses_map [OF parses_read, of "concat (map (le_bytes k) xs)" "length xs * k"
        "decode_array k (length xs)"] assms(2,3) by (simp add: decode_array_concat)
  ultimately show ?thesis
    unfolding ReadVector_def by (rule parses_bind)
qed

lemma parses_ReadString:
  assumes "length s < 2 ^ 64"
  shows "parses (ReadString rd) s (le_bytes 8 (length s) @ s)"
  unfolding ReadString_def
  by (rule parses_bind [OF parses_ReadObj parses_read]) (use assms in simp_all)

lemma parses_loop_rest:
  assumes "P xs s" "n = length xs"
    and "\<And>x zs s. P (x # zs) s \<Longrightarrow> parses (body s) (f x s) (enc x) \<and> P zs (f x s)"
  shows "parses (read_loop n body s) (fold f xs s) (concat (map enc xs))"
  using assms(1,2)
proof (induction xs arbitrary: s n)
  case Nil
  then show ?case by (simp add: parses_def)
next
  case (Cons x xs)
  then have step: "parses (body s) (f x s) (enc x)" "P xs (f x s)" using assms(3) by auto
  have "parses (read_loop (length xs) body (f x s)) (fold f xs (f x s)) (concat (map enc xs))"
    by (intro Cons.IH step refl)
  from parses_bind [OF step(1), of "read_loop (length xs) body", OF this] show ?case
    using Cons.prems(2) by (simp add: parses_def)
qed

lemma parses_loop:
  assumes "P s" "n = length xs"
    and "\<And>x s. x \<in> set xs \<Longrightarrow> P s \<Longrightarrow> parses (body s) (f x s) (enc x) \<and> P (f x s)"
  shows "parses (read_loop n body s) (fold f xs s) (concat (map enc xs))"
  by (rule parses_loop_rest [where P = "\<lambda>zs s. set zs \<subseteq> set xs \<and> P s"]) (use assms in auto)

text \<open>A parser never succeeds beyond the end: a short stream makes \<open>ReadObj\<close> throw.\<close>

lemma ReadObj_short: "ok r \<Longrightarrow> length (rest r) < k \<Longrightarrow> ReadObj rd k r = Inl (Throw READ_ERROR)"
  by (simp add: ReadObj_def read_short)

end

section \<open>Readers\<close>

subsection \<open>IOStreamReader\<close>

record io_stream_reader =
  io_content :: bytes
  io_cursor :: nat
  io_length :: nat
  io_count :: nat

text \<open>
  \<open>length_\<close> is what is left from the position of the stream at construction;
  \<open>Seek\<close> and \<open>GetCursor\<close> use absolute positions.
\<close>

definition IOStreamReader_new :: "bytes \<Rightarrow> nat \<Rightarrow> io_stream_reader" where
  "IOStreamReader_new content cur_pos =
     \<lparr>io_content = content, io_cursor = cur_pos, io_length = length content - cur_pos, io_count = 0\<rparr>"

definition IOStreamReader_Read :: "io_stream_reader rd" where
  "IOStreamReader_Read sz r =
     (if io_cursor r + sz \<le> length (io_content r)
      then Inr (take sz (drop (io_cursor r) (io_content r)),
                r\<lparr>io_cursor := io_cursor r + sz, io_count := io_count r + 1\<rparr>)
      else Inl (Throw READ_ERROR))"

definition IOStreamReader_Seek :: "nat \<Rightarrow> io_stream_reader \<Rightarrow> io_stream_reader" where
  "IOStreamReader_Seek cursor r = r\<lparr>io_cursor := cursor\<rparr>"

definition IOStreamReader_GetCursor :: "io_stream_reader \<Rightarrow> nat" where
  "IOStreamReader_GetCursor r = io_cursor r"

definition io_rest :: "io_stream_reader \<Rightarrow> bytes" where
  "io_rest r = drop (io_cursor r) (io_content r)"

definition io_ok :: "io_stream_reader \<Rightarrow> bool" where
  "io_ok r \<longleftrightarrow> io_cursor r \<le> length (io_content r)"

interpretation io: byte_reader IOStreamReader_Read io_rest io_ok
proof unfold_locales
  fix r n
  assume "io_ok r" "n \<le> length (io_rest r)"
  then show "\<exists>r'. IOStreamReader_Read n r = Inr (take n (io_rest r), r')
      \<and> io_rest r' = drop n (io_rest r) \<and> io_ok r'"
    by (auto simp: IOStreamReader_Read_def io_rest_def io_ok_def add.commute)
next
  fix r n
  assume "io_ok r" "length (io_rest r) < n"
  then show "IOStreamReader_Read n r = Inl (Throw READ_ERROR)"
    by (simp add: IOStreamReader_Read_def io_rest_def io_ok_def)
qed


subsection \<open>BufferStreamReader\<close>

record 'r buffer_stream_reader =
  bsr_reader_impl :: 'r
  bsr_buffer :: bytes
  bsr_buffer_cursor :: nat
  bsr_valid_size :: nat
  bsr_buffer_size :: nat
  bsr_max_size :: nat
  bsr_cursor :: nat

text \<open>
  The constructor; \<open>remaining\<close> is \<open>reader->Length() - reader->GetCursor()\<close>, used when
  \<open>max_size\<close> is the largest 64-bit value, and \<open>block_size_limit\<close> the option of
  that name. \<open>buffer_\<close> is null until the first read.
\<close>

definition BufferStreamReader_new :: "'r \<Rightarrow> nat \<Rightarrow> nat \<Rightarrow> nat \<Rightarrow> 'r buffer_stream_reader" where
  "BufferStreamReader_new reader remaining block_size_limit max_size =
     (let ms = (if max_size = 2 ^ 64 - 1 then remaining else max_size);
          bs = min ms block_size_limit
      in \<lparr>bsr_reader_impl = reader, bsr_buffer = [], bsr_buffer_cursor = bs, bsr_valid_size = bs,
          bsr_buffer_size = bs, bsr_max_size = ms, bsr_cursor = 0\<rparr>)"

text \<open>The loop of \<open>Read\<close>: \<open>acc\<close> are the bytes copied to \<open>data\<close> so far.\<close>

definition bsr_copy :: "nat \<Rightarrow> bytes \<Rightarrow> 'r buffer_stream_reader \<Rightarrow> (bytes \<times> 'r buffer_stream_reader) result" where
  "bsr_copy sz acc b =
     (let available_in_src = u64_sub (bsr_valid_size b) (bsr_buffer_cursor b)
      in if available_in_src > 0 then
           (let bytes_to_copy = min (sz - length acc) available_in_src
            in if bsr_buffer_cursor b + bytes_to_copy > length (bsr_buffer b) then Inl UB
               else Inr (acc @ take bytes_to_copy (drop (bsr_buffer_cursor b) (bsr_buffer b)),
                         b\<lparr>bsr_buffer_cursor := bsr_buffer_cursor b + bytes_to_copy\<rparr>))
         else Inr (acc, b))"

definition bsr_refill :: "'r rd \<Rightarrow> 'r buffer_stream_reader \<Rightarrow> 'r buffer_stream_reader result" where
  "bsr_refill rd b =
     (let v = min (u64_sub (bsr_max_size b) (bsr_cursor b)) (bsr_buffer_size b)
      in if v = 0 then Inl (Throw READ_ERROR)
         else bindR (rd v (bsr_reader_impl b)) (\<lambda>(bs, inner).
                Inr (b\<lparr>bsr_reader_impl := inner, bsr_buffer := blit (bsr_buffer b) 0 bs,
                       bsr_buffer_cursor := 0, bsr_valid_size := v,
                       bsr_cursor := u64 (bsr_cursor b + v)\<rparr>)))"

lemma bsr_copy_progress:
  assumes "bsr_copy sz acc b = Inr (acc1, b1)" "length acc < sz"
  shows "length acc \<le> length acc1"
    and "u64_sub (bsr_valid_size b) (bsr_buffer_cursor b) > 0 \<Longrightarrow> length acc < length acc1"
  using assms by (auto simp: bsr_copy_def Let_def split: if_splits)

lemma bsr_refill_available:
  assumes "bsr_refill rd b = Inr b1"
  shows "u64_sub (bsr_valid_size b1) (bsr_buffer_cursor b1) > 0"
proof -
  let ?v = "min (u64_sub (bsr_max_size b) (bsr_cursor b)) (bsr_buffer_size b)"
  have v: "bsr_valid_size b1 = ?v" "bsr_buffer_cursor b1 = 0" "?v > 0"
    using assms by (auto simp: bsr_refill_def Let_def bindR_Inr_iff split: if_splits)
  moreover have "?v < 2 ^ 64" by (simp add: min_less_iff_disj)
  ultimately show ?thesis by (simp add: u64_sub_le)
qed

function bsr_loop :: "'r rd \<Rightarrow> nat \<Rightarrow> bytes \<Rightarrow> 'r buffer_stream_reader \<Rightarrow> (bytes \<times> 'r buffer_stream_reader) result" where
  "bsr_loop rd sz acc b =
     (if length acc < sz then
        (case bsr_copy sz acc b of
           Inl e \<Rightarrow> Inl e
         | Inr (acc1, b1) \<Rightarrow>
             if length acc1 \<ge> sz then Inr (acc1, b1)
             else (case bsr_refill rd b1 of
                     Inl e \<Rightarrow> Inl e
                   | Inr b2 \<Rightarrow> bsr_loop rd sz acc1 b2))
      else Inr (acc, b))"
  by pat_completeness auto

text \<open>
  The loop ends: a round either copies a byte or finds the buffer empty, and then the refilled
  buffer is not empty in the next one.
\<close>

termination
proof (relation "measure (\<lambda>(rd, sz, acc, b). 2 * (sz - length acc) +
    (if u64_sub (bsr_valid_size b) (bsr_buffer_cursor b) > 0 then 0 else 1))", goal_cases)
  case 1
  then show ?case by simp
next
  case (2 rd sz acc b p acc1 b1 b2)
  have "bsr_copy sz acc b = Inr (acc1, b1)" using 2(2,3) by simp
  note progress = bsr_copy_progress [OF this 2(1)]
  from progress 2(4) bsr_refill_available [OF 2(5)] show ?case
    by (cases "u64_sub (bsr_valid_size b) (bsr_buffer_cursor b) > 0") auto
qed

declare bsr_loop.simps [simp del]

definition BufferStreamReader_Read :: "'r rd \<Rightarrow> 'r buffer_stream_reader rd" where
  "BufferStreamReader_Read rd sz b =
     (let b1 = (if bsr_buffer b = [] then b\<lparr>bsr_buffer := replicate (bsr_buffer_size b) 0\<rparr> else b)
      in bsr_loop rd sz [] b1)"

definition BufferStreamReader_Seek ::
  "(nat \<Rightarrow> 'r \<Rightarrow> 'r) \<Rightarrow> nat \<Rightarrow> 'r buffer_stream_reader \<Rightarrow> 'r buffer_stream_reader" where
  "BufferStreamReader_Seek seek cursor b =
     b\<lparr>bsr_reader_impl := seek cursor (bsr_reader_impl b),
       bsr_buffer_cursor := bsr_valid_size b, bsr_cursor := cursor\<rparr>"

definition BufferStreamReader_GetCursor :: "('r \<Rightarrow> nat) \<Rightarrow> 'r buffer_stream_reader \<Rightarrow> nat" where
  "BufferStreamReader_GetCursor get_cursor b =
     u64_sub (get_cursor (bsr_reader_impl b)) (u64_sub (bsr_valid_size b) (bsr_buffer_cursor b))"


definition buf_avail :: "'r buffer_stream_reader \<Rightarrow> bytes" where
  "buf_avail b = drop (bsr_buffer_cursor b) (take (bsr_valid_size b) (bsr_buffer b))"

definition buf_rest :: "('r \<Rightarrow> bytes) \<Rightarrow> 'r buffer_stream_reader \<Rightarrow> bytes" where
  "buf_rest rest b = buf_avail b @ take (bsr_max_size b - bsr_cursor b) (rest (bsr_reader_impl b))"

definition buf_ok :: "('r \<Rightarrow> bytes) \<Rightarrow> ('r \<Rightarrow> bool) \<Rightarrow> 'r buffer_stream_reader \<Rightarrow> bool" where
  "buf_ok rest ok b \<longleftrightarrow> ok (bsr_reader_impl b)
     \<and> bsr_buffer_cursor b \<le> bsr_valid_size b \<and> bsr_valid_size b \<le> bsr_buffer_size b
     \<and> bsr_buffer_size b < 2 ^ 64
     \<and> (length (bsr_buffer b) = bsr_buffer_size b
        \<or> bsr_buffer b = [] \<and> bsr_buffer_cursor b = bsr_valid_size b)
     \<and> bsr_cursor b \<le> bsr_max_size b \<and> bsr_max_size b < 2 ^ 64
     \<and> bsr_max_size b - bsr_cursor b \<le> length (rest (bsr_reader_impl b))
     \<and> (bsr_cursor b < bsr_max_size b \<longrightarrow> bsr_buffer_size b > 0)"

lemma buf_avail_length:
  assumes "buf_ok rest ok b"
  shows "u64_sub (bsr_valid_size b) (bsr_buffer_cursor b) = bsr_valid_size b - bsr_buffer_cursor b"
    and "length (buf_avail b) = bsr_valid_size b - bsr_buffer_cursor b"
  using assms by (auto simp: buf_ok_def buf_avail_def u64_sub_le)

lemma bsr_copy_correct:
  assumes "buf_ok rest ok b" "length acc \<le> sz"
  defines "n \<equiv> min (sz - length acc) (length (buf_avail b))"
  shows "bsr_copy sz acc b = Inr (acc @ take n (buf_avail b), b\<lparr>bsr_buffer_cursor := bsr_buffer_cursor b + n\<rparr>)"
    and "buf_ok rest ok (b\<lparr>bsr_buffer_cursor := bsr_buffer_cursor b + n\<rparr>)"
    and "buf_avail (b\<lparr>bsr_buffer_cursor := bsr_buffer_cursor b + n\<rparr>) = drop n (buf_avail b)"
proof -
  have n: "n \<le> bsr_valid_size b - bsr_buffer_cursor b"
    by (simp add: n_def buf_avail_length [OF assms(1)])
  show "buf_ok rest ok (b\<lparr>bsr_buffer_cursor := bsr_buffer_cursor b + n\<rparr>)"
    using assms(1) n by (auto simp: buf_ok_def)
  show "buf_avail (b\<lparr>bsr_buffer_cursor := bsr_buffer_cursor b + n\<rparr>) = drop n (buf_avail b)"
    by (simp add: buf_avail_def add.commute)
  show "bsr_copy sz acc b = Inr (acc @ take n (buf_avail b), b\<lparr>bsr_buffer_cursor := bsr_buffer_cursor b + n\<rparr>)"
  proof (cases "bsr_valid_size b - bsr_buffer_cursor b = 0")
    case True
    then have "n = 0" using n by simp
    with True show ?thesis
      by (simp add: bsr_copy_def buf_avail_length [OF assms(1)])
  next
    case False
    then have len: "length (bsr_buffer b) = bsr_buffer_size b" "bsr_valid_size b \<le> bsr_buffer_size b"
      using assms(1) by (auto simp: buf_ok_def)
    have fits: "bsr_buffer_cursor b + n \<le> bsr_valid_size b"
      using n False by linarith
    moreover have "take n (drop (bsr_buffer_cursor b) (bsr_buffer b)) = take n (buf_avail b)"
      using fits by (simp add: buf_avail_def drop_take min_def)
    ultimately show ?thesis
      using False len
      by (simp add: bsr_copy_def Let_def buf_avail_length [OF assms(1)] n_def [symmetric]
          n_def [unfolded buf_avail_length(2) [OF assms(1)], symmetric])
  qed
qed


context byte_reader
begin

lemma bsr_refill_correct:
  assumes "buf_ok rest ok b" "buf_avail b = []" "length (bsr_buffer b) = bsr_buffer_size b"
  shows "buf_rest rest b = [] \<Longrightarrow> bsr_refill rd b = Inl (Throw READ_ERROR)"
    and "buf_rest rest b \<noteq> [] \<Longrightarrow> \<exists>b'. bsr_refill rd b = Inr b' \<and> buf_ok rest ok b'
           \<and> buf_rest rest b' = buf_rest rest b \<and> length (bsr_buffer b') = bsr_buffer_size b'"
proof -
  let ?left = "bsr_max_size b - bsr_cursor b" and ?r = "rest (bsr_reader_impl b)"
  define v where "v = min ?left (bsr_buffer_size b)"
  have left: "u64_sub (bsr_max_size b) (bsr_cursor b) = ?left" "?left \<le> length ?r"
    using assms(1) by (simp_all add: buf_ok_def u64_sub_le)
  have rest: "buf_rest rest b = take ?left ?r" using assms(2) by (simp add: buf_rest_def)
  then have empty: "buf_rest rest b = [] \<longleftrightarrow> ?left = 0" using left(2) by auto
  have v0: "v = 0 \<longleftrightarrow> ?left = 0" using assms(1) by (auto simp: v_def buf_ok_def)
  show "bsr_refill rd b = Inl (Throw READ_ERROR)" if "buf_rest rest b = []"
    using that empty left(1) by (simp add: bsr_refill_def)
  show "\<exists>b'. bsr_refill rd b = Inr b' \<and> buf_ok rest ok b'
           \<and> buf_rest rest b' = buf_rest rest b \<and> length (bsr_buffer b') = bsr_buffer_size b'"
    if "buf_rest rest b \<noteq> []"
  proof -
    have "v \<noteq> 0" using that empty v0 by simp
    have "v \<le> length ?r" "ok (bsr_reader_impl b)"
      using assms(1) left(2) by (auto simp: v_def buf_ok_def)
    then obtain i where i: "rd v (bsr_reader_impl b) = Inr (take v ?r, i)" "rest i = drop v ?r" "ok i"
      using read_ok by blast
    let ?b = "b\<lparr>bsr_reader_impl := i, bsr_buffer := blit (bsr_buffer b) 0 (take v ?r),
                bsr_buffer_cursor := 0, bsr_valid_size := v, bsr_cursor := u64 (bsr_cursor b + v)\<rparr>"
    have cur: "u64 (bsr_cursor b + v) = bsr_cursor b + v" "bsr_cursor b + v \<le> bsr_max_size b"
      using assms(1) by (auto simp: v_def buf_ok_def)
    have blit: "length (blit (bsr_buffer b) 0 (take v ?r)) = bsr_buffer_size b"
      using assms(3) \<open>v \<le> length ?r\<close> by (simp add: v_def)
    have "bsr_refill rd b = Inr ?b"
      using \<open>v \<noteq> 0\<close> i(1) left(1) by (simp add: bsr_refill_def Let_def v_def)
    moreover have "bsr_max_size b - (bsr_cursor b + v) \<le> length ?r - v" "v \<le> bsr_buffer_size b"
      using left(2) by (auto simp: v_def)
    then have "buf_ok rest ok ?b"
      using assms(1) i cur blit by (auto simp: buf_ok_def)
    moreover have "take v ?r @ take (?left - v) (drop v ?r) = take ?left ?r"
      by (metis append_take_drop_id diff_add le_add_diff_inverse min.cobounded1 take_add v_def)
    then have "buf_rest rest ?b = buf_rest rest b"
      unfolding rest using \<open>v \<le> length ?r\<close> cur i(2)
      by (simp add: buf_rest_def buf_avail_def blit_def)
    ultimately show ?thesis using blit by (intro exI [of _ ?b]) simp
  qed
qed

lemma bsr_loop_correct:
  assumes "buf_ok rest ok b" "length (bsr_buffer b) = bsr_buffer_size b" "length acc \<le> sz"
  shows "(sz - length acc \<le> length (buf_rest rest b) \<longrightarrow>
      (\<exists>b'. bsr_loop rd sz acc b = Inr (acc @ take (sz - length acc) (buf_rest rest b), b')
         \<and> buf_rest rest b' = drop (sz - length acc) (buf_rest rest b) \<and> buf_ok rest ok b'))
    \<and> (length (buf_rest rest b) < sz - length acc \<longrightarrow> bsr_loop rd sz acc b = Inl (Throw READ_ERROR))"
    (is "?P acc b")
  using assms
proof (induction rd' \<equiv> rd sz acc b rule: bsr_loop.induct)
  case (1 sz acc b)
  define m where "m = min (sz - length acc) (length (buf_avail b))"
  define b1 where "b1 = b\<lparr>bsr_buffer_cursor := bsr_buffer_cursor b + m\<rparr>"
  note copy = bsr_copy_correct [OF "1.prems"(1,3), folded m_def, folded b1_def]
  have rest_b1: "buf_rest rest b = take m (buf_avail b) @ buf_rest rest b1"
    using copy(3) by (simp add: buf_rest_def b1_def)
  note unf = bsr_loop.simps [of rd sz acc b]
  consider (full) "length acc = sz" | (copied) "length acc < sz" "m = sz - length acc"
    | (more) "length acc < sz" "m < sz - length acc"
    using "1.prems"(3) unfolding m_def by linarith
  then show ?case
  proof cases
    case full
    then show ?thesis using "1.prems"(1) by (simp add: unf)
  next
    case copied
    then have m: "m \<le> length (buf_avail b)" by (simp add: m_def)
    have "bsr_loop rd sz acc b = Inr (acc @ take m (buf_avail b), b1)"
      using copied m copy(1) by (simp add: unf)
    then show ?thesis
      using copied m copy(2) rest_b1 by (auto simp: b1_def)
  next
    case more
    then have m: "m = length (buf_avail b)" by (simp add: m_def)
    have loop: "bsr_loop rd sz acc b =
        (case bsr_refill rd b1 of Inl e \<Rightarrow> Inl e | Inr b2 \<Rightarrow> bsr_loop rd sz (acc @ buf_avail b) b2)"
      using more m copy(1) by (auto simp: unf)
    have empty: "buf_avail b1 = []" using copy(3) m by simp
    have len1: "length (bsr_buffer b1) = bsr_buffer_size b1" using "1.prems"(2) by (simp add: b1_def)
    have rest: "buf_rest rest b = buf_avail b @ buf_rest rest b1" using rest_b1 m by simp
    show ?thesis
    proof (cases "buf_rest rest b1 = []")
      case True
      with bsr_refill_correct(1) [OF copy(2) empty len1] loop rest more m show ?thesis by simp
    next
      case False
      then obtain b2 where b2: "bsr_refill rd b1 = Inr b2" "buf_ok rest ok b2"
          "buf_rest rest b2 = buf_rest rest b1" "length (bsr_buffer b2) = bsr_buffer_size b2"
        using bsr_refill_correct(2) [OF copy(2) empty len1] by blast
      have "length (acc @ buf_avail b) \<le> sz" using more m by simp
      have IH: "(sz - length (acc @ buf_avail b) \<le> length (buf_rest rest b2) \<longrightarrow>
          (\<exists>b'. bsr_loop rd sz (acc @ buf_avail b) b2 = Inr ((acc @ buf_avail b)
              @ take (sz - length (acc @ buf_avail b)) (buf_rest rest b2), b')
             \<and> buf_rest rest b' = drop (sz - length (acc @ buf_avail b)) (buf_rest rest b2) \<and> buf_ok rest ok b'))
        \<and> (length (buf_rest rest b2) < sz - length (acc @ buf_avail b) \<longrightarrow>
            bsr_loop rd sz (acc @ buf_avail b) b2 = Inl (Throw READ_ERROR))"
        using "1.hyps" [OF more(1) copy(1) refl _ b2(1)] b2(2,4) more m by simp
      then show ?thesis
        unfolding loop rest using b2(1,3) more m by auto
    qed
  qed
qed

lemma BufferStreamReader_Read_correct:
  assumes "buf_ok rest ok b"
  shows "n \<le> length (buf_rest rest b) \<Longrightarrow>
      \<exists>b'. BufferStreamReader_Read rd n b = Inr (take n (buf_rest rest b), b')
        \<and> buf_rest rest b' = drop n (buf_rest rest b) \<and> buf_ok rest ok b'"
    and "length (buf_rest rest b) < n \<Longrightarrow> BufferStreamReader_Read rd n b = Inl (Throw READ_ERROR)"
proof -
  let ?b = "if bsr_buffer b = [] then b\<lparr>bsr_buffer := replicate (bsr_buffer_size b) 0\<rparr> else b"
  have "buf_ok rest ok ?b" "length (bsr_buffer ?b) = bsr_buffer_size ?b"
    using assms by (auto simp: buf_ok_def)
  from bsr_loop_correct [OF this, of "[]" n]
  have loop: "(n \<le> length (buf_rest rest ?b) \<longrightarrow>
      (\<exists>b'. bsr_loop rd n [] ?b = Inr (take n (buf_rest rest ?b), b')
         \<and> buf_rest rest b' = drop n (buf_rest rest ?b) \<and> buf_ok rest ok b'))
    \<and> (length (buf_rest rest ?b) < n \<longrightarrow> bsr_loop rd n [] ?b = Inl (Throw READ_ERROR))"
    by simp
  have same: "buf_rest rest ?b = buf_rest rest b"
    using assms by (auto simp: buf_rest_def buf_avail_def buf_ok_def)
  show "\<exists>b'. BufferStreamReader_Read rd n b = Inr (take n (buf_rest rest b), b')
        \<and> buf_rest rest b' = drop n (buf_rest rest b) \<and> buf_ok rest ok b'"
    if "n \<le> length (buf_rest rest b)"
    using loop that unfolding same BufferStreamReader_Read_def Let_def by blast
  show "BufferStreamReader_Read rd n b = Inl (Throw READ_ERROR)" if "length (buf_rest rest b) < n"
    using loop that unfolding same BufferStreamReader_Read_def Let_def by blast
qed

end

subsection \<open>SliceStreamReader\<close>

record 'r slice_stream_reader =
  ssr_reader_impl :: 'r
  ssr_begin :: nat
  ssr_length :: nat
  ssr_cursor :: nat

text \<open>The two constructors: from a given position, and from the current one.\<close>

definition SliceStreamReader_at ::
  "(nat \<Rightarrow> 'r \<Rightarrow> 'r) \<Rightarrow> 'r \<Rightarrow> nat \<Rightarrow> nat \<Rightarrow> 'r slice_stream_reader" where
  "SliceStreamReader_at seek reader b n =
     \<lparr>ssr_reader_impl = seek b reader, ssr_begin = b, ssr_length = n, ssr_cursor = 0\<rparr>"

definition SliceStreamReader_here ::
  "('r \<Rightarrow> nat) \<Rightarrow> 'r \<Rightarrow> nat \<Rightarrow> 'r slice_stream_reader" where
  "SliceStreamReader_here get_cursor reader n =
     \<lparr>ssr_reader_impl = reader, ssr_begin = get_cursor reader, ssr_length = n, ssr_cursor = 0\<rparr>"

definition SliceStreamReader_Read :: "'r rd \<Rightarrow> 'r slice_stream_reader rd" where
  "SliceStreamReader_Read rd sz s =
     (if u64 (ssr_cursor s + sz) > ssr_length s then Inl (Throw READ_ERROR)
      else bindR (rd sz (ssr_reader_impl s)) (\<lambda>(bs, inner).
             Inr (bs, s\<lparr>ssr_reader_impl := inner, ssr_cursor := u64 (ssr_cursor s + sz)\<rparr>)))"

definition SliceStreamReader_Seek ::
  "(nat \<Rightarrow> 'r \<Rightarrow> 'r) \<Rightarrow> nat \<Rightarrow> 'r slice_stream_reader \<Rightarrow> 'r slice_stream_reader result" where
  "SliceStreamReader_Seek seek cursor s =
     (if cursor > ssr_length s then Inl (Throw READ_ERROR)
      else Inr (s\<lparr>ssr_reader_impl := seek (u64 (ssr_begin s + cursor)) (ssr_reader_impl s),
                  ssr_cursor := cursor\<rparr>))"

definition slice_rest :: "('r \<Rightarrow> bytes) \<Rightarrow> 'r slice_stream_reader \<Rightarrow> bytes" where
  "slice_rest rest s = take (ssr_length s - ssr_cursor s) (rest (ssr_reader_impl s))"

definition slice_ok :: "('r \<Rightarrow> bytes) \<Rightarrow> ('r \<Rightarrow> bool) \<Rightarrow> 'r slice_stream_reader \<Rightarrow> bool" where
  "slice_ok rest ok s \<longleftrightarrow> ok (ssr_reader_impl s) \<and> ssr_cursor s \<le> ssr_length s
     \<and> ssr_length s - ssr_cursor s \<le> length (rest (ssr_reader_impl s))
     \<and> length (rest (ssr_reader_impl s)) + ssr_cursor s < 2 ^ 64"

context byte_reader
begin

lemma SliceStreamReader_Read_correct:
  assumes "slice_ok rest ok s"
  shows "n \<le> length (slice_rest rest s) \<Longrightarrow>
      \<exists>s'. SliceStreamReader_Read rd n s = Inr (take n (slice_rest rest s), s')
        \<and> slice_rest rest s' = drop n (slice_rest rest s) \<and> slice_ok rest ok s'"
    and "length (slice_rest rest s) < n \<Longrightarrow> SliceStreamReader_Read rd n s = Inl (Throw READ_ERROR)"
proof -
  let ?r = "rest (ssr_reader_impl s)"
  have len: "length (slice_rest rest s) = ssr_length s - ssr_cursor s"
    using assms by (simp add: slice_rest_def slice_ok_def)
  show "\<exists>s'. SliceStreamReader_Read rd n s = Inr (take n (slice_rest rest s), s')
        \<and> slice_rest rest s' = drop n (slice_rest rest s) \<and> slice_ok rest ok s'"
    if n: "n \<le> length (slice_rest rest s)"
  proof -
    have le: "n \<le> length ?r" "ssr_cursor s + n \<le> ssr_length s"
      using n assms len by (auto simp: slice_ok_def)
    then obtain i where i: "rd n (ssr_reader_impl s) = Inr (take n ?r, i)" "rest i = drop n ?r" "ok i"
      using read_ok assms by (auto simp: slice_ok_def)
    have u: "u64 (ssr_cursor s + n) = ssr_cursor s + n"
      using assms le by (auto simp: slice_ok_def)
    show ?thesis
      using le i u assms n len
      by (auto simp: SliceStreamReader_Read_def slice_rest_def slice_ok_def drop_take min_def)
  qed
  show "SliceStreamReader_Read rd n s = Inl (Throw READ_ERROR)"
    if n: "length (slice_rest rest s) < n"
  proof (cases "length ?r < n")
    case True
    then show ?thesis
      using read_short assms by (auto simp: SliceStreamReader_Read_def slice_ok_def)
  next
    case False
    then have "u64 (ssr_cursor s + n) = ssr_cursor s + n" "ssr_length s < ssr_cursor s + n"
      using assms n len by (auto simp: slice_ok_def)
    then show ?thesis by (simp add: SliceStreamReader_Read_def)
  qed
qed

text \<open>Reading a sequence of blocks: what a client sees depends on the remaining bytes only.\<close>

lemma read_blocks_rest:
  assumes "ok r"
  shows "(case read_blocks rd ns r of Inl e \<Rightarrow> Inl e | Inr (bss, r') \<Rightarrow> Inr bss)
       = spec_blocks ns (rest r)"
  using assms
proof (induction ns arbitrary: r)
  case (Cons n ns)
  show ?case
  proof (cases "n \<le> length (rest r)")
    case True
    then obtain r' where r': "rd n r = Inr (take n (rest r), r')" "rest r' = drop n (rest r)" "ok r'"
      using read_ok Cons.prems by blast
    with Cons.IH [OF r'(3), symmetric] True show ?thesis
      by (auto split: sum.splits)
  qed (use read_short Cons.prems in simp)
qed simp

end

interpretation bio: byte_reader "BufferStreamReader_Read IOStreamReader_Read"
    "buf_rest io_rest" "buf_ok io_rest io_ok"
  by unfold_locales
    (fact io.BufferStreamReader_Read_correct(1), fact io.BufferStreamReader_Read_correct(2))

interpretation sio: byte_reader "SliceStreamReader_Read IOStreamReader_Read"
    "slice_rest io_rest" "slice_ok io_rest io_ok"
  by unfold_locales
    (fact io.SliceStreamReader_Read_correct(1), fact io.SliceStreamReader_Read_correct(2))

section \<open>Properties\<close>


definition blocks_of :: "(bytes list \<times> 'r) result \<Rightarrow> bytes list result" where
  "blocks_of x = (case x of Inl e \<Rightarrow> Inl e | Inr (bss, r) \<Rightarrow> Inr bss)"



text \<open>
  A slice confines its client: reads within the slice return the bytes of the underlying
  stream from the slice's start, and no read delivers a byte from beyond the end of the slice.
\<close>

lemma SliceStreamReader_confines:
  assumes "cur + n \<le> length content" "length content < 2 ^ 64"
  shows "blocks_of (read_blocks (SliceStreamReader_Read IOStreamReader_Read) ns
      (SliceStreamReader_at IOStreamReader_Seek (IOStreamReader_new content 0) cur n))
    = spec_blocks ns (take n (drop cur content))"
proof -
  let ?s = "SliceStreamReader_at IOStreamReader_Seek (IOStreamReader_new content 0) cur n"
  have "slice_ok io_rest io_ok ?s" "slice_rest io_rest ?s = take n (drop cur content)"
    using assms by (auto simp: slice_ok_def slice_rest_def SliceStreamReader_at_def io_ok_def
        io_rest_def IOStreamReader_Seek_def IOStreamReader_new_def)
  then show ?thesis
    unfolding blocks_of_def using sio.read_blocks_rest by simp
qed

text \<open>
  On a stream that does not start at position 0 the default \<open>max_size\<close> is too small:
  \<open>Length()\<close> counts from the position at construction while \<open>GetCursor()\<close> is absolute, so
  their difference subtracts the start position twice. Here three bytes remain, a direct read
  returns them, and the buffered reader throws.
\<close>

lemma BufferStreamReader_offset_stream:
  "let r = IOStreamReader_new [1, 2, 3, 4] 1;
       b = BufferStreamReader_new r (u64_sub (io_length r) (IOStreamReader_GetCursor r)) 16 (2 ^ 64 - 1)
   in blocks_of (read_blocks IOStreamReader_Read [3] r) = Inr [[2, 3, 4]]
    \<and> blocks_of (read_blocks (BufferStreamReader_Read IOStreamReader_Read) [3] b) = Inl (Throw READ_ERROR)"
proof -
  let ?r = "IOStreamReader_new [1, 2, 3, 4] 1"
  let ?b = "BufferStreamReader_new ?r 2 16 (2 ^ 64 - 1)"
  have u: "u64_sub (io_length ?r) (IOStreamReader_GetCursor ?r) = 2"
    by (simp add: IOStreamReader_new_def IOStreamReader_GetCursor_def u64_sub_le)
  have "buf_ok io_rest io_ok ?b" "buf_rest io_rest ?b = [2, 3]"
    by (auto simp: io_ok_def IOStreamReader_new_def buf_ok_def io_rest_def buf_rest_def
        buf_avail_def BufferStreamReader_new_def Let_def)
  then have "blocks_of (read_blocks (BufferStreamReader_Read IOStreamReader_Read) [3] ?b)
      = Inl (Throw READ_ERROR)"
    unfolding blocks_of_def using bio.read_blocks_rest [of ?b "[3]"] by simp
  then show ?thesis
    unfolding Let_def u by (simp add: blocks_of_def IOStreamReader_Read_def IOStreamReader_new_def)
qed

end
