(* ===== verification/BasicIO.thy ===== *)
theory BasicIO
  imports Streams
begin

text \<open>
  \<open>src/io\<close>: the byte stores under the data cells. \<open>basic_io.h\<close> is the interface with the
  operations every store shares, \<open>memory_io.{h,cpp}\<close> one growing buffer,
  \<open>memory_block_io.{h,cpp}\<close> blocks of a power-of-two size. The interface is the locale \<open>byte_io\<close>,
  with \<open>loadable_io\<close> where a store is read from a stream and \<open>direct_io\<close> for what the data cells use;
  what all stores share (chunked serialization, multi-reads) is proved in the locales once.

  Sizes and offsets are 64-bit numbers; sums are truncated where the source adds. Bytes that are
  allocated and never written hold what the allocator returned: \<open>fresh\<close>, a parameter.
\<close>

unbundle bit_operations_syntax

section \<open>MemoryIO\<close>

record memory_io =
  mio_buffer :: bytes
  mio_size :: nat

definition MemoryIO_new :: "(nat \<Rightarrow> byte) \<Rightarrow> memory_io" where
  "MemoryIO_new fresh = \<lparr>mio_buffer = [fresh 0], mio_size = 0\<rparr>"

definition MemoryIO_check_and_realloc :: "(nat \<Rightarrow> byte) \<Rightarrow> nat \<Rightarrow> memory_io \<Rightarrow> memory_io" where
  "MemoryIO_check_and_realloc fresh n s =
     (if n \<le> mio_size s then s
      else s\<lparr>mio_buffer := take n (mio_buffer s) @ map fresh [length (mio_buffer s)..<n], mio_size := n\<rparr>)"

definition MemoryIO_WriteImpl :: "(nat \<Rightarrow> byte) \<Rightarrow> bytes \<Rightarrow> nat \<Rightarrow> memory_io \<Rightarrow> memory_io result" where
  "MemoryIO_WriteImpl fresh data offset s =
     (let s1 = MemoryIO_check_and_realloc fresh (u64 (length data + offset)) s
      in if offset + length data > length (mio_buffer s1) then Inl UB
         else Inr (s1\<lparr>mio_buffer := blit (mio_buffer s1) offset data\<rparr>))"

definition MemoryIO_ResizeImpl :: "(nat \<Rightarrow> byte) \<Rightarrow> nat \<Rightarrow> memory_io \<Rightarrow> memory_io" where
  "MemoryIO_ResizeImpl fresh n s =
     (if n \<le> mio_size s then s\<lparr>mio_size := n\<rparr>
      else (MemoryIO_check_and_realloc fresh n s)\<lparr>mio_size := n\<rparr>)"

text \<open>\<open>BasicIO::Shrink\<close> for a store without \<open>ShrinkImpl\<close>.\<close>

definition MemoryIO_Shrink :: "nat \<Rightarrow> memory_io \<Rightarrow> memory_io" where
  "MemoryIO_Shrink n s = (if n \<le> mio_size s then s\<lparr>mio_size := n\<rparr> else s)"

text \<open>A read returns \<open>None\<close> where the source returns false and leaves the buffer alone.\<close>

definition MemoryIO_ReadImpl :: "memory_io \<Rightarrow> nat \<Rightarrow> nat \<Rightarrow> bytes option result" where
  "MemoryIO_ReadImpl s n offset =
     (if u64 (n + offset) \<le> mio_size s then
        (if offset + n > length (mio_buffer s) then Inl UB
         else Inr (Some (take n (drop offset (mio_buffer s)))))
      else Inr None)"

text \<open>
  \<open>DirectReadImpl\<close>: the bytes behind the pointer it returns and whether they must be released;
  \<open>None\<close> is the null pointer.
\<close>

definition MemoryIO_DirectReadImpl :: "memory_io \<Rightarrow> nat \<Rightarrow> nat \<Rightarrow> (bytes \<times> bool) option result" where
  "MemoryIO_DirectReadImpl s n offset =
     (if u64 (n + offset) \<le> mio_size s then
        (if offset + n > length (mio_buffer s) then Inl UB
         else Inr (Some (take n (drop offset (mio_buffer s)), False)))
      else Inr None)"

section \<open>MemoryBlockIO\<close>

text \<open>\<open>NearestPowerOfTwo\<close>: the largest power of two that is not larger.\<close>

fun bit_length :: "nat \<Rightarrow> nat" where
  "bit_length v = (if v > 0 then Suc (bit_length (v div 2)) else 0)"

declare bit_length.simps [simp del]

definition NearestPowerOfTwo :: "nat \<Rightarrow> nat" where
  "NearestPowerOfTwo v =
     (if v = 0 then 0
      else if v AND (v - 1) = 0 then v
      else 2 ^ (bit_length v - 1))"

fun countr_zero_loop :: "nat \<Rightarrow> nat" where
  "countr_zero_loop x = (if x > 0 \<and> even x then Suc (countr_zero_loop (x div 2)) else 0)"

declare countr_zero_loop.simps [simp del]

definition countr_zero :: "nat \<Rightarrow> nat" where
  "countr_zero x = (if x = 0 then 64 else countr_zero_loop x)"

record memory_block_io =
  mbio_block_size :: nat
  mbio_blocks :: "bytes list"
  mbio_block_bit :: nat
  mbio_in_block_mask :: nat
  mbio_size :: nat

definition update_by_block_size :: "memory_block_io \<Rightarrow> memory_block_io" where
  "update_by_block_size s =
     s\<lparr>mbio_block_bit := countr_zero (mbio_block_size s), mbio_in_block_mask := u64_sub (mbio_block_size s) 1\<rparr>"

definition MemoryBlockIO_new :: "nat \<Rightarrow> memory_block_io" where
  "MemoryBlockIO_new block_size =
     update_by_block_size \<lparr>mbio_block_size = NearestPowerOfTwo block_size, mbio_blocks = [],
       mbio_block_bit = 27, mbio_in_block_mask = 2 ^ 27 - 1, mbio_size = 0\<rparr>"

definition MemoryBlockIO_check_and_realloc :: "(nat \<Rightarrow> byte) \<Rightarrow> nat \<Rightarrow> memory_block_io \<Rightarrow> memory_block_io" where
  "MemoryBlockIO_check_and_realloc fresh n s =
     (if n \<le> u64 (push_bit (mbio_block_bit s) (length (mbio_blocks s))) then s
      else
        let new_block_count = drop_bit (mbio_block_bit s) (u64 (n + mbio_block_size s - 1))
        in s\<lparr>mbio_blocks := mbio_blocks s @
               replicate (new_block_count - length (mbio_blocks s)) (map fresh [0..<mbio_block_size s])\<rparr>)"

text \<open>
  The two copy loops, over what is left to copy. A block size of 0 would make no progress.
\<close>

function block_write_loop :: "nat \<Rightarrow> bytes list \<Rightarrow> bytes \<Rightarrow> nat \<Rightarrow> nat \<Rightarrow> bytes list result" where
  "block_write_loop bs blocks data start_no start_off =
     (if data = [] then Inr blocks
      else if start_no \<ge> length blocks then Inl UB
      else
        let cur_length = min (length data) (bs - start_off)
        in if cur_length = 0 then Inl Diverges
           else block_write_loop bs
                  (blocks[start_no := blit (blocks ! start_no) start_off (take cur_length data)])
                  (drop cur_length data) (start_no + 1) 0)"
  by pat_completeness auto
termination
  by (relation "measure (\<lambda>(bs, blocks, data, no, off). length data)") auto

function block_read_loop :: "nat \<Rightarrow> bytes list \<Rightarrow> nat \<Rightarrow> nat \<Rightarrow> nat \<Rightarrow> bytes result" where
  "block_read_loop bs blocks n start_no start_off =
     (if n = 0 then Inr []
      else if start_no \<ge> length blocks then Inl UB
      else
        let cur_length = min n (bs - start_off)
        in if cur_length = 0 then Inl Diverges
           else bindR (block_read_loop bs blocks (n - cur_length) (start_no + 1) 0) (\<lambda>rest.
                  Inr (take cur_length (drop start_off (blocks ! start_no)) @ rest)))"
  by pat_completeness auto
termination
  by (relation "measure (\<lambda>(bs, blocks, n, no, off). n)") auto

declare block_write_loop.simps [simp del] block_read_loop.simps [simp del]

definition MemoryBlockIO_WriteImpl :: "(nat \<Rightarrow> byte) \<Rightarrow> bytes \<Rightarrow> nat \<Rightarrow> memory_block_io \<Rightarrow> memory_block_io result" where
  "MemoryBlockIO_WriteImpl fresh data offset s =
     (let s1 = MemoryBlockIO_check_and_realloc fresh (u64 (length data + offset)) s;
          start_no = drop_bit (mbio_block_bit s) offset;
          start_off = offset AND mbio_in_block_mask s
      in bindR (block_write_loop (mbio_block_size s) (mbio_blocks s1) data start_no start_off) (\<lambda>blocks.
           let s2 = s1\<lparr>mbio_blocks := blocks\<rparr>
           in Inr (if u64 (length data + offset) > mbio_size s2
                   then s2\<lparr>mbio_size := u64 (length data + offset)\<rparr> else s2)))"

definition MemoryBlockIO_ReadImpl :: "memory_block_io \<Rightarrow> nat \<Rightarrow> nat \<Rightarrow> bytes option result" where
  "MemoryBlockIO_ReadImpl s n offset =
     (if u64 (n + offset) \<le> mbio_size s then
        bindR (block_read_loop (mbio_block_size s) (mbio_blocks s) n
                 (drop_bit (mbio_block_bit s) offset) (offset AND mbio_in_block_mask s))
          (\<lambda>data. Inr (Some data))
      else Inr None)"

text \<open>A pointer into a block gives access to the rest of that block only.\<close>

definition MemoryBlockIO_DirectReadImpl :: "memory_block_io \<Rightarrow> nat \<Rightarrow> nat \<Rightarrow> (bytes \<times> bool) option result" where
  "MemoryBlockIO_DirectReadImpl s n offset =
     (if u64 (n + offset) \<le> mbio_size s then
        (if offset XOR u64 (n + offset) < mbio_block_size s then
           (let block_no = drop_bit (mbio_block_bit s) offset;
                block_off = offset AND mbio_in_block_mask s
            in if block_no \<ge> length (mbio_blocks s) then Inl UB
               else if block_off + n > length (mbio_blocks s ! block_no) then Inl UB
               else Inr (Some (take n (drop block_off (mbio_blocks s ! block_no)), False)))
         else bindR (MemoryBlockIO_ReadImpl s n offset) (\<lambda>d.
                Inr (map_option (\<lambda>data. (data, True)) d)))
      else Inr None)"

definition MemoryBlockIO_ResizeImpl :: "(nat \<Rightarrow> byte) \<Rightarrow> nat \<Rightarrow> memory_block_io \<Rightarrow> memory_block_io" where
  "MemoryBlockIO_ResizeImpl fresh n s =
     (if n \<le> mbio_size s then s\<lparr>mbio_size := n\<rparr>
      else (MemoryBlockIO_check_and_realloc fresh n s)\<lparr>mbio_size := n\<rparr>)"

definition MemoryBlockIO_ShrinkImpl :: "nat \<Rightarrow> memory_block_io \<Rightarrow> memory_block_io" where
  "MemoryBlockIO_ShrinkImpl n s =
     (if n \<ge> mbio_size s then s
      else
        let new_block_count = drop_bit (mbio_block_bit s) (u64 (n + mbio_block_size s - 1))
        in s\<lparr>mbio_blocks := take new_block_count (mbio_blocks s), mbio_size := n\<rparr>)"

section \<open>Operations every store shares\<close>

text \<open>\<open>MultiReadImpl\<close>: one buffer after the other; a failed read leaves its part alone (0 here).\<close>

fun MultiReadImpl :: "('s \<Rightarrow> nat \<Rightarrow> nat \<Rightarrow> bytes option result) \<Rightarrow> 's \<Rightarrow> (nat \<times> nat) list \<Rightarrow> (bytes \<times> bool) result" where
  "MultiReadImpl read s [] = Inr ([], True)"
| "MultiReadImpl read s ((n, offset) # reqs) =
     bindR (read s n offset) (\<lambda>d.
     bindR (MultiReadImpl read s reqs) (\<lambda>(rest, ret).
       Inr ((case d of Some data \<Rightarrow> data | None \<Rightarrow> replicate n 0) @ rest, d \<noteq> None \<and> ret)))"

definition SERIALIZE_BUFFER_SIZE :: nat where "SERIALIZE_BUFFER_SIZE = 1024 * 1024 * 2"

text \<open>
  The loop of \<open>Serialize\<close>, over the bytes left; a read that fails would leave the buffer as it
  is.
\<close>

function io_serialize_loop ::
  "nat \<Rightarrow> ('s \<Rightarrow> nat \<Rightarrow> nat \<Rightarrow> bytes option result) \<Rightarrow> 's \<Rightarrow> nat \<Rightarrow> nat \<Rightarrow> bytes \<Rightarrow> stream_writer \<Rightarrow> stream_writer result" where
  "io_serialize_loop chunk read s total_size offset buffer writer =
     (if offset < total_size \<and> chunk > 0 then
        let cur_size = min chunk (total_size - offset)
        in bindR (read s cur_size offset) (\<lambda>d.
             let buffer1 = (case d of Some data \<Rightarrow> blit buffer 0 data | None \<Rightarrow> buffer)
             in io_serialize_loop chunk read s total_size (offset + cur_size) buffer1
                  (StreamWriter_Write (take cur_size buffer1) writer))
      else Inr writer)"
  by pat_completeness auto
termination
  by (relation "measure (\<lambda>(c, rd, s, t, off, b, w). t - off)") auto

declare io_serialize_loop.simps [simp del]

definition BasicIO_Serialize ::
  "('s \<Rightarrow> nat \<Rightarrow> nat \<Rightarrow> bytes option result) \<Rightarrow> ('s \<Rightarrow> nat) \<Rightarrow> bytes \<Rightarrow> 's \<Rightarrow> stream_writer \<Rightarrow> stream_writer result" where
  "BasicIO_Serialize read size_of buffer s writer =
     io_serialize_loop SERIALIZE_BUFFER_SIZE read s (size_of s) 0 buffer (WriteObj 8 (size_of s) writer)"

function io_deserialize_loop ::
  "nat \<Rightarrow> 'r rd \<Rightarrow> (bytes \<Rightarrow> nat \<Rightarrow> 's \<Rightarrow> 's result) \<Rightarrow> nat \<Rightarrow> nat \<Rightarrow> 's \<Rightarrow> 'r \<Rightarrow> ('s \<times> 'r) result" where
  "io_deserialize_loop chunk rd write total_size offset s r =
     (if offset < total_size \<and> chunk > 0 then
        let cur_size = min chunk (total_size - offset)
        in bindR (rd cur_size r) (\<lambda>(data, r1).
           bindR (write data offset s) (\<lambda>s1.
             io_deserialize_loop chunk rd write total_size (offset + cur_size) s1 r1))
      else Inr (s, r))"
  by pat_completeness auto
termination
  by (relation "measure (\<lambda>(c, rd, w, t, off, s, r). t - off)") auto

declare io_deserialize_loop.simps [simp del]

text \<open>\<open>Deserialize\<close> of a store with \<open>SkipDeserialize = false\<close>, as all modelled stores are.\<close>

definition BasicIO_Deserialize ::
  "'r rd \<Rightarrow> (bytes \<Rightarrow> nat \<Rightarrow> 's \<Rightarrow> 's result) \<Rightarrow> 's \<Rightarrow> 'r \<Rightarrow> ('s \<times> 'r) result" where
  "BasicIO_Deserialize rd write s r =
     bindR (ReadObj rd 8 r) (\<lambda>(n, r1). io_deserialize_loop SERIALIZE_BUFFER_SIZE rd write n 0 s r1)"

section \<open>The interface\<close>

text \<open>The specification of a write, on the map of the bytes written so far.\<close>

definition spec_write :: "bytes \<times> nat \<Rightarrow> (nat \<rightharpoonup> byte) \<Rightarrow> (nat \<rightharpoonup> byte)" where
  "spec_write = (\<lambda>(data, offset) m i.
     if offset \<le> i \<and> i < offset + length data then Some (data ! (i - offset)) else m i)"

text \<open>
  \<open>content s i\<close> is the byte at \<open>i\<close>. A write below \<open>2 ^ 62\<close> succeeds, puts the data in
  place, keeps the other bytes below the old size and extends the size to cover it; a read within
  the size returns the bytes, a read beyond it fails.
\<close>

locale byte_io =
  fixes wr :: "bytes \<Rightarrow> nat \<Rightarrow> 's \<Rightarrow> 's result"
    and read :: "'s \<Rightarrow> nat \<Rightarrow> nat \<Rightarrow> bytes option result"
    and size_of :: "'s \<Rightarrow> nat"
    and content :: "'s \<Rightarrow> nat \<Rightarrow> byte"
    and inv :: "'s \<Rightarrow> bool"
    and limit :: nat
  assumes write_ok: "inv s \<Longrightarrow> data \<noteq> [] \<Longrightarrow> offset + length data \<le> limit \<Longrightarrow>
      \<exists>s'. wr data offset s = Inr s' \<and> inv s' \<and> size_of s' = max (size_of s) (offset + length data) \<and>
        (\<forall>i<length data. content s' (offset + i) = data ! i) \<and>
        (\<forall>i < size_of s. i < offset \<or> offset + length data \<le> i \<longrightarrow> content s' i = content s i)"
    and read_ok: "inv s \<Longrightarrow> 0 < n \<Longrightarrow> offset + n \<le> size_of s \<Longrightarrow>
      read s n offset = Inr (Some (map (content s) [offset..<offset + n]))"
    and read_short: "inv s \<Longrightarrow> 0 < n \<Longrightarrow> size_of s < offset + n \<Longrightarrow> offset + n \<le> limit \<Longrightarrow>
      read s n offset = Inr None"
    and size_bound: "inv s \<Longrightarrow> size_of s \<le> limit"
    and limit_le: "limit \<le> 2 ^ 62"
begin

definition bytes_of :: "'s \<Rightarrow> bytes" where
  "bytes_of s = map (content s) [0..< size_of s]"

lemma write_read:
  assumes "inv s" "data \<noteq> []" "offset + length data \<le> limit"
  shows "\<exists>s'. wr data offset s = Inr s' \<and> inv s' \<and> read s' (length data) offset = Inr (Some data)"
proof -
  obtain s' where s': "wr data offset s = Inr s'" "inv s'" "size_of s' = max (size_of s) (offset + length data)"
    "\<forall>i<length data. content s' (offset + i) = data ! i" using write_ok [OF assms] by blast
  have "map (content s') [offset..<offset + length data] = data"
    using s'(4) by (intro nth_equalityI) auto
  then show ?thesis using s' read_ok [of s' "length data" offset] assms(2) by auto
qed

text \<open>
  A sequence of writes, against the map of the bytes written: the size is the end of the farthest
  write, and every byte written last is there.
\<close>

lemma write_all:
  assumes "inv s" "\<forall>(data, offset)\<in>set ws. data \<noteq> [] \<and> offset + length data \<le> limit"
    and "\<forall>i\<in>dom spec. i < size_of s \<and> spec i = Some (content s i)"
  shows "\<exists>s'. foldR (\<lambda>(data, offset). wr data offset) ws s = Inr s' \<and> inv s' \<and>
    size_of s' = fold (\<lambda>(data, offset). max (offset + length data)) ws (size_of s) \<and>
    (\<forall>i\<in>dom (fold spec_write ws spec). i < size_of s' \<and> fold spec_write ws spec i = Some (content s' i))"
  using assms
proof (induction ws arbitrary: s spec)
  case (Cons w ws)
  obtain data offset where w: "w = (data, offset)" by fastforce
  have pre: "data \<noteq> []" "offset + length data \<le> limit" using Cons.prems(2) w by auto
  obtain s1 where s1: "wr data offset s = Inr s1" "inv s1" "size_of s1 = max (size_of s) (offset + length data)"
    "\<forall>i<length data. content s1 (offset + i) = data ! i"
    "\<forall>i. i < size_of s \<longrightarrow> i < offset \<or> offset + length data \<le> i \<longrightarrow> content s1 i = content s i"
    using write_ok [OF Cons.prems(1) pre] by blast
  have "i < size_of s1 \<and> spec_write w spec i = Some (content s1 i)" if "i \<in> dom (spec_write w spec)" for i
  proof (cases "offset \<le> i \<and> i < offset + length data")
    case True
    then obtain j where j: "i = offset + j" "j < length data" by (metis add_less_cancel_left le_Suc_ex)
    then show ?thesis using s1(3,4) w by (auto simp: spec_write_def)
  next
    case False
    then have "i \<in> dom spec" using that w by (auto simp: spec_write_def split: if_splits)
    then have i: "i < size_of s" "spec i = Some (content s i)" using Cons.prems(3) by blast+
    then have "content s1 i = content s i" using False s1(5) by auto
    moreover have "spec_write w spec i = spec i" using False w by (auto simp: spec_write_def)
    ultimately show ?thesis using i s1(3) by simp
  qed
  then have "\<forall>i\<in>dom (spec_write w spec). i < size_of s1 \<and> spec_write w spec i = Some (content s1 i)" by blast
  from Cons.IH [OF s1(2) _ this] show ?case using Cons.prems(2) s1(1,3) w by (simp add: max.commute)
qed simp

lemma read_sub:
  assumes "inv s" "0 < n" "offset + n \<le> size_of s"
  shows "read s n offset = Inr (Some (take n (drop offset (bytes_of s))))"
  using read_ok [OF assms] assms(3) by (simp add: bytes_of_def drop_map take_map)

lemma multi_read:
  assumes "inv s" "\<forall>(n, offset)\<in>set reqs. 0 < n \<and> offset + n \<le> size_of s"
  shows "MultiReadImpl read s reqs =
    Inr (concat (map (\<lambda>(n, offset). map (content s) [offset..<offset + n]) reqs), True)"
  using assms(2) by (induction reqs) (auto simp: read_ok [OF assms(1)])

lemma serialize_loop:
  assumes "inv s" "length buffer = chunk" "0 < chunk" "offset \<le> size_of s"
  shows "\<exists>w'. io_serialize_loop chunk read s (size_of s) offset buffer w = Inr w' \<and>
    sw_out w' = sw_out w @ map (content s) [offset..< size_of s]"
  using assms
proof (induction chunk rd' \<equiv> read s' \<equiv> s t \<equiv> "size_of s" offset buffer w rule: io_serialize_loop.induct)
  case (1 chunk offset buffer w)
  show ?case
  proof (cases "offset < size_of s")
    case False
    then show ?thesis using "1.prems" by (simp add: io_serialize_loop.simps)
  next
    case True
    define n where "n = min chunk (size_of s - offset)"
    define d where "d = map (content s) [offset..<offset + n]"
    have n: "0 < n" "offset + n \<le> size_of s" "n \<le> chunk" using True "1.prems"(3) by (auto simp: n_def)
    have rd: "read s n offset = Inr (Some d)" using read_ok [OF "1.prems"(1) n(1,2)] by (simp add: d_def)
    have buf: "length (blit buffer 0 d) = chunk" "take n (blit buffer 0 d) = d"
      using "1.prems"(2) n(3) by (simp_all add: d_def blit_def)
    obtain w' where w': "io_serialize_loop chunk read s (size_of s) (offset + n) (blit buffer 0 d) (StreamWriter_Write d w) = Inr w'"
      "sw_out w' = sw_out (StreamWriter_Write d w) @ map (content s) [offset + n..< size_of s]"
      using "1.hyps" [of n "Some d" "blit buffer 0 d"] True "1.prems" n buf rd n_def by auto
    have "[offset..< size_of s] = [offset..<offset + n] @ [offset + n..< size_of s]"
      using n(2) by (metis le_add1 le_add_diff_inverse upt_add_eq_append)
    then have "sw_out w' = sw_out w @ map (content s) [offset..< size_of s]" using w'(2) by (simp add: d_def)
    moreover have "io_serialize_loop chunk read s (size_of s) offset buffer w = Inr w'"
      using True "1.prems"(3) rd w'(1) buf(2)
      by (simp add: io_serialize_loop.simps [of chunk read s "size_of s" offset] Let_def flip: n_def)
    ultimately show ?thesis by blast
  qed
qed

lemma Serialize_ok:
  assumes "inv s" "length buffer = SERIALIZE_BUFFER_SIZE"
  shows "\<exists>w'. BasicIO_Serialize read size_of buffer s w = Inr w' \<and>
    sw_out w' = sw_out w @ le_bytes 8 (size_of s) @ bytes_of s"
  using serialize_loop [OF assms, of 0 "WriteObj 8 (size_of s) w"]
  by (auto simp: BasicIO_Serialize_def bytes_of_def SERIALIZE_BUFFER_SIZE_def)

end

text \<open>A store that is filled from a stream.\<close>

text \<open>
  A store that also gives direct access to its bytes and can be resized: what the data cells
  use of a store.
\<close>

locale direct_io = byte_io wr read size_of content inv limit
  for wr :: "bytes \<Rightarrow> nat \<Rightarrow> 's \<Rightarrow> 's result" and read size_of content inv limit +
  fixes dread :: "'s \<Rightarrow> nat \<Rightarrow> nat \<Rightarrow> (bytes \<times> bool) option result"
    and resize :: "nat \<Rightarrow> 's \<Rightarrow> 's"
    and shrink :: "nat \<Rightarrow> 's \<Rightarrow> 's"
  assumes dread_ok: "inv s \<Longrightarrow> 0 < n \<Longrightarrow> offset + n \<le> size_of s \<Longrightarrow>
      \<exists>need_release. dread s n offset = Inr (Some (map (content s) [offset..<offset + n], need_release))"
    and resize_ok: "inv s \<Longrightarrow> n \<le> limit \<Longrightarrow> inv (resize n s) \<and> size_of (resize n s) = n \<and>
      (\<forall>i<min n (size_of s). content (resize n s) i = content s i)"
    and shrink_ok: "inv s \<Longrightarrow> n \<le> limit \<Longrightarrow> inv (shrink n s) \<and> size_of (shrink n s) = min n (size_of s) \<and>
      (\<forall>i<min n (size_of s). content (shrink n s) i = content s i)"

locale loadable_io = byte_io wr read size_of content inv limit + byte_reader rd rest ok
  for wr :: "bytes \<Rightarrow> nat \<Rightarrow> 's \<Rightarrow> 's result" and read size_of content inv limit
    and rd :: "'r rd" and rest ok
begin

lemma deserialize_loop:
  assumes "inv s" "ok r" "rest r = drop offset bs @ tail" "offset \<le> length bs" "0 < chunk"
    and "length bs \<le> limit" "size_of s \<le> length bs" "offset \<le> size_of s"
    and "\<forall>i<offset. content s i = bs ! i"
  shows "\<exists>s' r'. io_deserialize_loop chunk rd wr (length bs) offset s r = Inr (s', r') \<and>
    rest r' = tail \<and> ok r' \<and> inv s' \<and> size_of s' = length bs \<and> (\<forall>i<length bs. content s' i = bs ! i)"
  using assms
proof (induction chunk rd' \<equiv> rd wr' \<equiv> wr t \<equiv> "length bs" offset s r rule: io_deserialize_loop.induct)
  case (1 chunk offset s r)
  show ?case
  proof (cases "offset < length bs")
    case False
    then show ?thesis using "1.prems" by (simp add: io_deserialize_loop.simps)
  next
    case True
    define n where "n = min chunk (length bs - offset)"
    define d where "d = take n (drop offset bs)"
    have n: "0 < n" "offset + n \<le> length bs" using True "1.prems"(5) by (auto simp: n_def)
    have d: "length d = n" "d \<noteq> []" "\<And>i. i < n \<Longrightarrow> d ! i = bs ! (offset + i)" using n by (auto simp: d_def)
    have "n \<le> length (rest r)" "take n (rest r) = d" "drop n (rest r) = drop (offset + n) bs @ tail"
      using "1.prems"(3) n by (auto simp: d_def add.commute)
    then obtain r1 where r1: "rd n r = Inr (d, r1)" "rest r1 = drop (offset + n) bs @ tail" "ok r1"
      using byte_reader.read_ok [OF byte_reader_axioms "1.prems"(2), of n] by auto
    obtain s1 where s1: "wr d offset s = Inr s1" "inv s1" "size_of s1 = max (size_of s) (offset + n)"
      "\<forall>i<n. content s1 (offset + i) = d ! i"
      "\<forall>i < size_of s. i < offset \<or> offset + n \<le> i \<longrightarrow> content s1 i = content s i"
      using write_ok [OF "1.prems"(1) d(2), of offset] "1.prems"(6) n(2) d(1) by auto
    have "content s1 i = bs ! i" if "i < offset + n" for i
    proof (cases "i < offset")
      case True
      then show ?thesis using s1(5) "1.prems"(8,9) by simp
    next
      case False
      then obtain j where "i = offset + j" using le_Suc_ex [of offset i] by auto
      then show ?thesis using s1(4) d(3) [of j] that by simp
    qed
    then obtain s' r' where "io_deserialize_loop chunk rd wr (length bs) (offset + n) s1 r1 = Inr (s', r')"
      "rest r' = tail" "ok r'" "inv s'" "size_of s' = length bs" "\<forall>i<length bs. content s' i = bs ! i"
      using "1.hyps" [of n "(d, r1)" d r1 s1] True "1.prems"(4-7) n r1 s1(1-3) n_def by auto
    moreover from this(1) have "io_deserialize_loop chunk rd wr (length bs) offset s r = Inr (s', r')"
      using True "1.prems"(5) r1(1) s1(1)
      by (simp add: io_deserialize_loop.simps [of chunk rd wr "length bs" offset s] Let_def flip: n_def)
    ultimately show ?thesis by blast
  qed
qed

lemma Deserialize_ok:
  assumes "inv s" "size_of s = 0" "ok r" "rest r = (le_bytes 8 (length bs) @ bs) @ tail" "length bs \<le> limit"
  shows "\<exists>s' r'. BasicIO_Deserialize rd wr s r = Inr (s', r') \<and> rest r' = tail \<and> ok r' \<and> inv s' \<and> bytes_of s' = bs"
proof -
  have "length bs < 256 ^ 8" using assms(5) limit_le by simp
  note p = parses_ReadObj [OF this]
  have "rest r = le_bytes 8 (length bs) @ (bs @ tail)" using assms(4) by simp
  from parsesD [OF p assms(3) this] obtain r1 where
    r1: "ReadObj rd 8 r = Inr (length bs, r1)" "rest r1 = drop 0 bs @ tail" "ok r1" by (metis drop0)
  obtain s' r' where "io_deserialize_loop SERIALIZE_BUFFER_SIZE rd wr (length bs) 0 s r1 = Inr (s', r')"
    "rest r' = tail" "ok r'" "inv s'" "size_of s' = length bs" "\<forall>i<length bs. content s' i = bs ! i"
    using deserialize_loop [OF assms(1) r1(3,2), of SERIALIZE_BUFFER_SIZE] assms(2,5)
    by (auto simp: SERIALIZE_BUFFER_SIZE_def)
  moreover from this(5,6) have "bytes_of s' = bs" by (auto simp: bytes_of_def intro!: nth_equalityI)
  ultimately show ?thesis using r1(1) by (simp add: BasicIO_Deserialize_def)
qed

end

section \<open>MemoryIO is a store\<close>

definition mio_inv :: "memory_io \<Rightarrow> bool" where
  "mio_inv s \<longleftrightarrow> mio_size s \<le> length (mio_buffer s) \<and> mio_size s \<le> 2 ^ 62"

lemma mio_realloc:
  fixes fresh
  assumes "mio_inv s" "n \<le> 2 ^ 62"
  defines "s' \<equiv> MemoryIO_check_and_realloc fresh n s"
  shows "mio_inv s'" "mio_size s' = max (mio_size s) n" "i < mio_size s \<Longrightarrow> mio_buffer s' ! i = mio_buffer s ! i"
proof -
  have "mio_inv s' \<and> mio_size s' = max (mio_size s) n \<and> (\<forall>i<mio_size s. mio_buffer s' ! i = mio_buffer s ! i)"
    using assms(1,2) unfolding s'_def MemoryIO_check_and_realloc_def
    by (cases "n \<le> length (mio_buffer s)") (auto simp: mio_inv_def nth_append max_def)
  then show "mio_inv s'" "mio_size s' = max (mio_size s) n" "i < mio_size s \<Longrightarrow> mio_buffer s' ! i = mio_buffer s ! i"
    by auto
qed

interpretation mem: byte_io "MemoryIO_WriteImpl fresh" MemoryIO_ReadImpl mio_size "\<lambda>s. (!) (mio_buffer s)" mio_inv "2 ^ 62"
  for fresh
proof (unfold_locales, goal_cases)
  case (1 s data offset)
  define s1 where "s1 = MemoryIO_check_and_realloc fresh (length data + offset) s"
  have u: "u64 (length data + offset) = length data + offset" using 1(3) by simp
  have n: "length data + offset \<le> 2 ^ 62" using 1(3) by (simp add: add.commute)
  have s1: "mio_inv s1" "mio_size s1 = max (mio_size s) (length data + offset)"
    "\<And>i. i < mio_size s \<Longrightarrow> mio_buffer s1 ! i = mio_buffer s ! i"
    using mio_realloc [where fresh = fresh, OF 1(1) n] by (auto simp: s1_def)
  have fit: "offset + length data \<le> length (mio_buffer s1)" using s1(1,2) by (auto simp: mio_inv_def)
  have "mio_size s \<le> length (mio_buffer s1)" using s1(1,2) by (auto simp: mio_inv_def)
  moreover have "MemoryIO_WriteImpl fresh data offset s = Inr (s1\<lparr>mio_buffer := blit (mio_buffer s1) offset data\<rparr>)"
    using u fit by (simp add: MemoryIO_WriteImpl_def Let_def s1_def)
  ultimately show ?case using s1 fit by (auto simp: mio_inv_def nth_blit add.commute)
next
  case (2 s n offset)
  then have "u64 (n + offset) = n + offset" by (simp add: mio_inv_def)
  moreover have "take n (drop offset (mio_buffer s)) = map ((!) (mio_buffer s)) [offset..<offset + n]"
    using 2 by (intro nth_equalityI) (auto simp: mio_inv_def)
  ultimately show ?case using 2 by (auto simp: MemoryIO_ReadImpl_def mio_inv_def add.commute)
next
  case (3 s n offset)
  then show ?case by (simp add: MemoryIO_ReadImpl_def add.commute)
qed (simp_all add: mio_inv_def)

section \<open>MemoryBlockIO is a store\<close>

lemma bit_length_pow: "0 < v \<Longrightarrow> 2 ^ (bit_length v - 1) \<le> v"
proof (induction v rule: bit_length.induct)
  case (1 v)
  show ?case
  proof (cases "v = 1")
    case True
    then show ?thesis by (simp add: bit_length.simps)
  next
    case False
    then have h: "0 < v div 2" using 1(2) by linarith
    then have "0 < bit_length (v div 2)" by (simp add: bit_length.simps [of "v div 2"])
    then have "2 ^ (bit_length v - 1) = 2 * 2 ^ (bit_length (v div 2) - 1)"
      using 1(2) by (simp add: bit_length.simps [of v] flip: power_Suc)
    also have "\<dots> \<le> 2 * (v div 2)" using 1(1) [OF 1(2)] h by simp
    also have "\<dots> \<le> v" by simp
    finally show ?thesis .
  qed
qed

text \<open>\<open>v & (v - 1) == 0\<close> holds for powers of two only.\<close>

lemma and_pred_zero: "0 < v \<Longrightarrow> v AND (v - 1) = 0 \<Longrightarrow> \<exists>k. v = 2 ^ k" for v :: nat
proof (induction v rule: less_induct)
  case (less v)
  show ?case
  proof (cases "even v")
    case True
    then obtain h where h: "v = 2 * h" by blast
    have "v div 2 = h" "(v - 1) div 2 = h - 1" using h by simp_all
    then have "(v AND (v - 1)) div 2 = h AND (h - 1)"
      using drop_bit_and [of 1 v "v - 1"] by (simp add: drop_bit_eq_div)
    then have "h AND (h - 1) = 0" using less(3) by simp
    then obtain k where "h = 2 ^ k" using less(1) [of h] less(2) h by auto
    then have "v = 2 ^ Suc k" using h by simp
    then show ?thesis by blast
  next
    case False
    show ?thesis
    proof (cases "v = 1")
      case True
      then show ?thesis by (metis power_0)
    next
      case f: False
      then have "1 \<le> v div 2" using less(2) by linarith
      obtain h where "v = 2 * h + 1" using False oddE by blast
      then have "(v - 1) div 2 = v div 2" by simp
      then have "(v AND (v - 1)) div 2 = v div 2"
        using drop_bit_and [of 1 v "v - 1"] by (simp add: drop_bit_eq_div)
      then show ?thesis using less(3) \<open>1 \<le> v div 2\<close> by simp
    qed
  qed
qed

lemma NearestPowerOfTwo_pow:
  assumes "0 < v"
  obtains k where "NearestPowerOfTwo v = 2 ^ k" "NearestPowerOfTwo v \<le> v"
  using and_pred_zero [OF assms] bit_length_pow [OF assms] assms
  by (cases "v AND (v - 1) = 0") (auto simp: NearestPowerOfTwo_def)

lemma countr_zero_pow: "countr_zero (2 ^ k) = k"
proof -
  have "countr_zero_loop (2 ^ k) = k"
  proof (induction k)
    case 0
    then show ?case by (subst countr_zero_loop.simps) simp
  next
    case (Suc k)
    then show ?case by (subst countr_zero_loop.simps) simp
  qed
  then show ?thesis by (simp add: countr_zero_def)
qed

definition mbio_inv :: "memory_block_io \<Rightarrow> bool" where
  "mbio_inv s \<longleftrightarrow> mbio_block_bit s \<le> 62 \<and> mbio_block_size s = 2 ^ mbio_block_bit s \<and>
     mbio_in_block_mask s = 2 ^ mbio_block_bit s - 1 \<and>
     (\<forall>b\<in>set (mbio_blocks s). length b = mbio_block_size s) \<and>
     length (mbio_blocks s) * mbio_block_size s \<le> 2 ^ 63 \<and>
     mbio_size s \<le> length (mbio_blocks s) * mbio_block_size s \<and> mbio_size s \<le> 2 ^ 62"

lemma mbio_invD:
  assumes "mbio_inv s"
  shows "mbio_size s \<le> length (mbio_blocks s) * mbio_block_size s" "mbio_size s \<le> 2 ^ 62"
    "mbio_block_size s \<le> 2 ^ 62" "\<forall>b\<in>set (mbio_blocks s). length b = mbio_block_size s"
proof -
  show "mbio_block_size s \<le> 2 ^ 62"
    using assms power_increasing [of "mbio_block_bit s" 62 "2 :: nat"] by (simp add: mbio_inv_def)
qed (use assms in \<open>auto simp only: mbio_inv_def\<close>)

lemma mbio_new:
  assumes "0 < bs" "bs \<le> 2 ^ 62"
  shows "mbio_inv (MemoryBlockIO_new bs)" "mbio_size (MemoryBlockIO_new bs) = 0"
proof -
  obtain k where k: "NearestPowerOfTwo bs = 2 ^ k" "NearestPowerOfTwo bs \<le> bs" by (rule NearestPowerOfTwo_pow [OF assms(1)])
  then have "(2 :: nat) ^ k \<le> 2 ^ 62" using assms(2) by linarith
  then have "k \<le> 62" by (simp only: power_increasing_iff)
  moreover have "u64_sub (2 ^ k) 1 = 2 ^ k - 1" using \<open>2 ^ k \<le> 2 ^ 62\<close> by (intro u64_sub_le) auto
  ultimately show "mbio_inv (MemoryBlockIO_new bs)" "mbio_size (MemoryBlockIO_new bs) = 0"
    by (simp_all add: mbio_inv_def MemoryBlockIO_new_def update_by_block_size_def k(1) countr_zero_pow)
qed

lemma mbio_position:
  assumes "mbio_inv s"
  shows "drop_bit (mbio_block_bit s) offset = offset div mbio_block_size s"
    "offset AND mbio_in_block_mask s = offset mod mbio_block_size s" "0 < mbio_block_size s"
proof -
  have "mbio_in_block_mask s = mask (mbio_block_bit s)"
    using assms by (simp add: mbio_inv_def mask_eq_exp_minus_1)
  then show "offset AND mbio_in_block_mask s = offset mod mbio_block_size s"
    using assms by (metis mbio_inv_def take_bit_eq_mask take_bit_eq_mod)
qed (use assms in \<open>auto simp: mbio_inv_def drop_bit_eq_div\<close>)

lemma length_concat_blocks: "\<forall>b\<in>set blocks. length b = bs \<Longrightarrow> length (concat blocks) = length blocks * bs"
  by (induction blocks) auto

lemma blit_Nil [simp]: "blit x p [] = x"
  by (simp add: blit_def)

lemma blit_append: "blit (b @ r) (length b + p) d = b @ blit r p d"
  by (simp add: blit_def)

lemma blit_within: "p + length d \<le> length b \<Longrightarrow> blit (b @ r) p d = blit b p d @ r"
  by (simp add: blit_def)

lemma blit_blit: "p + length a + length b \<le> length x \<Longrightarrow> blit (blit x p a) (p + length a) b = blit x p (a @ b)"
  by (simp add: blit_def ac_simps)

lemma concat_update_block:
  "no < length blocks \<Longrightarrow> \<forall>b\<in>set blocks. length b = bs \<Longrightarrow> off + length d \<le> bs \<Longrightarrow>
    concat (blocks[no := blit (blocks ! no) off d]) = blit (concat blocks) (no * bs + off) d"
proof (induction blocks arbitrary: no)
  case (Cons b blocks)
  show ?case
  proof (cases no)
    case 0
    then show ?thesis using Cons.prems by (simp add: blit_within)
  next
    case (Suc m)
    have "blit (b @ concat blocks) (length b + (m * bs + off)) d = b @ blit (concat blocks) (m * bs + off) d"
      by (rule blit_append)
    then show ?thesis using Cons Suc by (simp add: add.assoc)
  qed
qed simp

lemma concat_read_block:
  "no < length blocks \<Longrightarrow> \<forall>b\<in>set blocks. length b = bs \<Longrightarrow> off + n \<le> bs \<Longrightarrow>
    take n (drop off (blocks ! no)) = take n (drop (no * bs + off) (concat blocks))"
proof (induction blocks arbitrary: no)
  case (Cons b blocks)
  then show ?case by (cases no) (auto simp: add.assoc)
qed simp

lemma block_bound:
  assumes "no * bs + off + n \<le> m * bs" "0 < n" "off < bs"
  shows "no < (m :: nat)"
proof (rule ccontr)
  assume "\<not> no < m"
  then have "m * bs \<le> no * bs" by simp
  then show False using assms by linarith
qed

lemma block_write_loop_ok:
  assumes "\<forall>b\<in>set blocks. length b = bs" "off < bs" "no * bs + off + length data \<le> length blocks * bs"
  shows "\<exists>blocks'. block_write_loop bs blocks data no off = Inr blocks' \<and> (\<forall>b\<in>set blocks'. length b = bs) \<and>
    length blocks' = length blocks \<and> concat blocks' = blit (concat blocks) (no * bs + off) data"
  using assms
proof (induction bs blocks data no off rule: block_write_loop.induct)
  case (1 bs blocks data no off)
  show ?case
  proof (cases "data = []")
    case True
    then show ?thesis using "1.prems" by (simp add: block_write_loop.simps blit_def)
  next
    case False
    define n where "n = min (length data) (bs - off)"
    define blocks1 where "blocks1 = blocks[no := blit (blocks ! no) off (take n data)]"
    have no: "no < length blocks" using block_bound [OF "1.prems"(3)] False "1.prems"(2) by simp
    have n: "0 < n" "off + n \<le> bs" "n \<le> length data" using False "1.prems"(2) by (auto simp: n_def)
    have len1: "\<forall>b\<in>set blocks1. length b = bs"
      using "1.prems"(1) n no subsetD [OF set_update_subset_insert [of blocks no]] by (fastforce simp: blocks1_def)
    have c1: "concat blocks1 = blit (concat blocks) (no * bs + off) (take n data)"
      unfolding blocks1_def using "1.prems"(1) no n by (intro concat_update_block) auto
    have fit: "(no + 1) * bs + 0 + length (drop n data) \<le> length blocks1 * bs"
    proof (cases "n = length data")
      case True
      have "(no + 1) * bs \<le> length blocks * bs" using no by (intro mult_le_mono1) simp
      then show ?thesis using True by (simp add: blocks1_def)
    next
      case False
      then have "(no + 1) * bs + 0 + length (drop n data) = no * bs + off + length data"
        using "1.prems"(2) by (simp add: n_def)
      then show ?thesis using "1.prems"(3) by (simp add: blocks1_def)
    qed
    have "0 < bs" using "1.prems"(2) by simp
    have "\<exists>blocks'. block_write_loop bs blocks1 (drop n data) (no + 1) 0 = Inr blocks' \<and>
        (\<forall>b\<in>set blocks'. length b = bs) \<and> length blocks' = length blocks1 \<and>
        concat blocks' = blit (concat blocks1) ((no + 1) * bs + 0) (drop n data)"
      unfolding blocks1_def
      by (rule "1.IH" [OF False _ n_def])
        (use no n(1) len1 fit \<open>0 < bs\<close> in \<open>simp_all only: blocks1_def not_le not_less neq0_conv\<close>)
    then obtain blocks' where IH: "block_write_loop bs blocks1 (drop n data) (no + 1) 0 = Inr blocks'"
      "\<forall>b\<in>set blocks'. length b = bs" "length blocks' = length blocks1"
      "concat blocks' = blit (concat blocks1) ((no + 1) * bs + 0) (drop n data)" by blast
    have "block_write_loop bs blocks data no off = Inr blocks'"
      using False no n IH(1) by (simp add: block_write_loop.simps [of bs blocks data] Let_def blocks1_def flip: n_def)
    moreover have "concat blocks' = blit (concat blocks) (no * bs + off) data"
    proof (cases "n = length data")
      case True
      then show ?thesis using IH(4) c1 by simp
    next
      case f: False
      then have eq: "(no + 1) * bs + 0 = no * bs + off + length (take n data)" using "1.prems"(2) by (simp add: n_def)
      have "no * bs + off + length (take n data) + length (drop n data) \<le> length (concat blocks)"
        using "1.prems"(3) length_concat_blocks [OF "1.prems"(1)] by simp
      from blit_blit [OF this] show ?thesis unfolding IH(4) c1 eq by (simp only: append_take_drop_id)
    qed
    ultimately show ?thesis using IH(2,3) by (simp add: blocks1_def)
  qed
qed

lemma block_read_loop_ok:
  assumes "\<forall>b\<in>set blocks. length b = bs" "off < bs" "no * bs + off + n \<le> length blocks * bs"
  shows "block_read_loop bs blocks n no off = Inr (take n (drop (no * bs + off) (concat blocks)))"
  using assms
proof (induction bs blocks n no off rule: block_read_loop.induct)
  case (1 bs blocks n no off)
  show ?case
  proof (cases "n = 0")
    case True
    then show ?thesis by (simp add: block_read_loop.simps)
  next
    case False
    define k where "k = min n (bs - off)"
    have no: "no < length blocks" using block_bound [OF "1.prems"(3)] False "1.prems"(2) by simp
    have k: "0 < k" "off + k \<le> bs" "k \<le> n" using False "1.prems"(2) by (auto simp: k_def)
    have first: "take k (drop off (blocks ! no)) = take k (drop (no * bs + off) (concat blocks))"
      using "1.prems"(1) no k by (intro concat_read_block) auto
    have fit: "(no + 1) * bs + 0 + (n - k) \<le> length blocks * bs"
    proof (cases "k = n")
      case True
      have "(no + 1) * bs \<le> length blocks * bs" using no by (intro mult_le_mono1) simp
      then show ?thesis using True by simp
    next
      case False
      then have "(no + 1) * bs + 0 + (n - k) = no * bs + off + n" using "1.prems"(2) by (simp add: k_def)
      then show ?thesis using "1.prems"(3) by simp
    qed
    have "0 < bs" using "1.prems"(2) by simp
    then have IH: "block_read_loop bs blocks (n - k) (no + 1) 0 =
        Inr (take (n - k) (drop ((no + 1) * bs + 0) (concat blocks)))"
      using "1.IH" [of k] False no k "1.prems"(1) fit k_def by auto
    have tail: "take (n - k) (drop ((no + 1) * bs + 0) (concat blocks)) =
        take (n - k) (drop k (drop (no * bs + off) (concat blocks)))"
    proof (cases "k = n")
      case False
      then have "(no + 1) * bs + 0 = k + (no * bs + off)" using "1.prems"(2) by (simp add: k_def)
      then show ?thesis by (simp only: drop_drop)
    qed simp
    have "take n (drop (no * bs + off) (concat blocks)) = take k (drop (no * bs + off) (concat blocks)) @
        take (n - k) (drop k (drop (no * bs + off) (concat blocks)))"
      using k(3) by (metis le_add_diff_inverse take_add)
    then show ?thesis using False no k IH first tail
      by (simp add: block_read_loop.simps [of bs blocks n] Let_def flip: k_def)
  qed
qed

lemma round_up:
  fixes bs n :: nat
  assumes "0 < bs"
  shows "n \<le> (n + bs - 1) div bs * bs" "(n + bs - 1) div bs * bs \<le> n + bs - 1"
proof -
  have "(n + bs - 1) div bs * bs + (n + bs - 1) mod bs = n + bs - 1" by simp
  moreover have "(n + bs - 1) mod bs \<le> bs - 1" using assms by (metis Suc_pred' less_Suc_eq_le mod_less_divisor)
  ultimately show "n \<le> (n + bs - 1) div bs * bs" "(n + bs - 1) div bs * bs \<le> n + bs - 1" using assms by linarith+
qed

lemma mbio_realloc:
  fixes fresh
  assumes "mbio_inv s" "n \<le> 2 ^ 62"
  defines "s' \<equiv> MemoryBlockIO_check_and_realloc fresh n s"
  shows "mbio_inv s'" "mbio_size s' = mbio_size s" "mbio_block_size s' = mbio_block_size s"
    "mbio_block_bit s' = mbio_block_bit s" "mbio_in_block_mask s' = mbio_in_block_mask s"
    "n \<le> length (mbio_blocks s') * mbio_block_size s'" "\<exists>x. concat (mbio_blocks s') = concat (mbio_blocks s) @ x"
proof -
  define bs where "bs = mbio_block_size s"
  define L where "L = length (mbio_blocks s)"
  have bs: "bs = 2 ^ mbio_block_bit s" "0 < bs" "bs \<le> 2 ^ 62"
    using assms(1) mbio_position(3) [OF assms(1)] mbio_invD(3) [OF assms(1)] by (auto simp: mbio_inv_def bs_def)
  have Lb: "L * bs \<le> 2 ^ 63" using assms(1) unfolding mbio_inv_def bs_def L_def by blast
  have room: "u64 (push_bit (mbio_block_bit s) L) = L * bs"
    using Lb bs(1) by (simp add: push_bit_eq_mult)
  define c where "c = (n + bs - 1) div bs"
  have cnt: "drop_bit (mbio_block_bit s) (u64 (n + bs - 1)) = c"
    using assms(2) bs by (simp add: drop_bit_eq_div c_def)
  have c: "n \<le> c * bs" "c * bs \<le> n + bs - 1" using round_up [OF bs(2), of n] by (simp_all add: c_def)
  have "mbio_inv s' \<and> mbio_size s' = mbio_size s \<and> mbio_block_size s' = bs \<and>
      mbio_block_bit s' = mbio_block_bit s \<and> mbio_in_block_mask s' = mbio_in_block_mask s \<and>
      n \<le> length (mbio_blocks s') * bs \<and> (\<exists>x. concat (mbio_blocks s') = concat (mbio_blocks s) @ x)"
  proof (cases "n \<le> L * bs")
    case True
    then show ?thesis using assms(1) room by (simp add: s'_def MemoryBlockIO_check_and_realloc_def L_def bs_def)
  next
    case False
    then have "L * bs < c * bs" using c(1) by linarith
    then have "L < c" by simp
    define extra where "extra = replicate (c - L) (map fresh [0..<bs])"
    have s': "s' = s\<lparr>mbio_blocks := mbio_blocks s @ extra\<rparr>"
      using False room cnt by (simp add: s'_def MemoryBlockIO_check_and_realloc_def Let_def L_def bs_def extra_def)
    have len: "length (mbio_blocks s @ extra) = c" using \<open>L < c\<close> by (simp add: extra_def L_def)
    have "mbio_size s \<le> c * bs" using mbio_invD(1) [OF assms(1)] \<open>L * bs < c * bs\<close> unfolding bs_def L_def by linarith
    moreover have "c * bs \<le> 2 ^ 63" using c(2) assms(2) bs(3) by simp
    ultimately show ?thesis using assms(1) s' len c(1) unfolding mbio_inv_def
      by (auto simp: bs_def extra_def)
  qed
  then show "mbio_inv s'" "mbio_size s' = mbio_size s" "mbio_block_size s' = mbio_block_size s"
    "mbio_block_bit s' = mbio_block_bit s" "mbio_in_block_mask s' = mbio_in_block_mask s"
    "n \<le> length (mbio_blocks s') * mbio_block_size s'" "\<exists>x. concat (mbio_blocks s') = concat (mbio_blocks s) @ x"
    by (auto simp: bs_def)
qed

definition mbio_content :: "memory_block_io \<Rightarrow> nat \<Rightarrow> byte" where
  "mbio_content s i = concat (mbio_blocks s) ! i"

lemma mbio_Write:
  fixes fresh
  assumes "mbio_inv s" "offset + length data \<le> 2 ^ 62"
  shows "\<exists>s'. MemoryBlockIO_WriteImpl fresh data offset s = Inr s' \<and> mbio_inv s' \<and>
    mbio_size s' = max (mbio_size s) (offset + length data) \<and>
    (\<forall>i<length data. mbio_content s' (offset + i) = data ! i) \<and>
    (\<forall>i<mbio_size s. i < offset \<or> offset + length data \<le> i \<longrightarrow> mbio_content s' i = mbio_content s i)"
proof -
  have u: "u64 (length data + offset) = offset + length data" "length data + offset \<le> 2 ^ 62"
    using assms(2) by simp_all
  define s1 where "s1 = MemoryBlockIO_check_and_realloc fresh (length data + offset) s"
  note s1 = mbio_realloc [where fresh = fresh, OF assms(1) u(2), folded s1_def]
  define bs where "bs = mbio_block_size s"
  have pos: "drop_bit (mbio_block_bit s) offset = offset div bs" "offset AND mbio_in_block_mask s = offset mod bs" "0 < bs"
    using mbio_position [OF assms(1)] by (auto simp: bs_def)
  have len: "\<forall>b\<in>set (mbio_blocks s1). length b = bs" using s1(1,3) by (simp add: mbio_inv_def bs_def)
  have "offset div bs * bs + offset mod bs + length data \<le> length (mbio_blocks s1) * bs"
    using s1(3,6) by (simp add: bs_def)
  with block_write_loop_ok [OF len, of "offset mod bs" "offset div bs" data] pos(3)
  obtain blocks where b: "block_write_loop bs (mbio_blocks s1) data (offset div bs) (offset mod bs) = Inr blocks"
    "\<forall>b\<in>set blocks. length b = bs" "length blocks = length (mbio_blocks s1)"
    "concat blocks = blit (concat (mbio_blocks s1)) offset data" by auto
  define s2 where "s2 = s1\<lparr>mbio_blocks := blocks, mbio_size := max (mbio_size s) (offset + length data)\<rparr>"
  have "MemoryBlockIO_WriteImpl fresh data offset s = Inr s2"
    using u(1) b(1) pos s1(2)
    by (simp add: MemoryBlockIO_WriteImpl_def Let_def s2_def max_def add.commute [of "length data"] flip: s1_def bs_def)
      (simp add: s1_def add.commute)
  moreover have "mbio_inv s2" using s1(1,2,6) s1(3) b(2,3) assms by (auto simp: mbio_inv_def s2_def bs_def)
  moreover have fit: "offset + length data \<le> length (concat (mbio_blocks s1))" "mbio_size s \<le> length (concat (mbio_blocks s1))"
    using s1(1,2,6) s1(3) length_concat_blocks [OF len] by (auto simp: bs_def mbio_inv_def)
  moreover have "mbio_content s1 i = mbio_content s i" if "i < mbio_size s" for i
  proof -
    have "length (concat (mbio_blocks s)) = length (mbio_blocks s) * bs"
      using assms(1) by (intro length_concat_blocks) (simp add: mbio_inv_def bs_def)
    then have "i < length (concat (mbio_blocks s))" using mbio_invD(1) [OF assms(1)] that by (simp add: bs_def)
    then show ?thesis using s1(7) by (auto simp: mbio_content_def nth_append)
  qed
  ultimately show ?thesis by (auto simp: s2_def mbio_content_def b(4) nth_blit)
qed

lemma mbio_Read:
  assumes "mbio_inv s" "offset + n \<le> mbio_size s"
  shows "MemoryBlockIO_ReadImpl s n offset = Inr (Some (map (mbio_content s) [offset..<offset + n]))"
proof -
  define bs where "bs = mbio_block_size s"
  have pos: "drop_bit (mbio_block_bit s) offset = offset div bs" "offset AND mbio_in_block_mask s = offset mod bs" "0 < bs"
    using mbio_position [OF assms(1)] by (auto simp: bs_def)
  have len: "\<forall>b\<in>set (mbio_blocks s). length b = bs" using assms(1) by (simp add: mbio_inv_def bs_def)
  have room: "offset div bs * bs + offset mod bs + n \<le> length (mbio_blocks s) * bs"
    using mbio_invD(1) [OF assms(1)] assms(2) by (simp add: bs_def)
  from block_read_loop_ok [OF len _ room] pos(3)
  have "block_read_loop bs (mbio_blocks s) n (offset div bs) (offset mod bs) =
      Inr (take n (drop offset (concat (mbio_blocks s))))" by simp
  moreover have "take n (drop offset (concat (mbio_blocks s))) = map (mbio_content s) [offset..<offset + n]"
    using room length_concat_blocks [OF len]
    by (intro nth_equalityI) (auto simp: mbio_content_def)
  moreover have "u64 (n + offset) = n + offset" using mbio_invD(2) [OF assms(1)] assms(2) by simp
  ultimately show ?thesis using assms(2) pos
    by (simp add: MemoryBlockIO_ReadImpl_def add.commute flip: bs_def)
qed

interpretation block: byte_io "MemoryBlockIO_WriteImpl fresh" MemoryBlockIO_ReadImpl mbio_size mbio_content mbio_inv "2 ^ 62"
  for fresh
proof (unfold_locales, goal_cases)
  case (1 s data offset)
  then show ?case by (intro mbio_Write)
next
  case (2 s n offset)
  then show ?case by (intro mbio_Read)
next
  case (3 s n offset)
  then show ?case by (simp add: MemoryBlockIO_ReadImpl_def add.commute)
qed (simp_all add: mbio_inv_def)

lemma nat_xor_eq_0: "(x :: nat) XOR y = 0 \<longleftrightarrow> x = y"
  by (metis xor.assoc xor.left_neutral xor.right_neutral xor_self_eq)

lemma mbio_DirectRead:
  assumes "mbio_inv s" "0 < n" "offset + n \<le> mbio_size s"
  shows "\<exists>need_release. MemoryBlockIO_DirectReadImpl s n offset =
    Inr (Some (map (mbio_content s) [offset..<offset + n], need_release))"
proof (cases "offset XOR (offset + n) < mbio_block_size s")
  case False
  have "u64 (n + offset) = offset + n" using mbio_invD(2) [OF assms(1)] assms(3) by (simp add: add.commute)
  then show ?thesis using False assms mbio_Read [OF assms(1,3)]
    by (intro exI [of _ True]) (simp add: MemoryBlockIO_DirectReadImpl_def add.commute)
next
  case True
  define k where "k = mbio_block_bit s"
  define bs where "bs = mbio_block_size s"
  have bs: "bs = 2 ^ k" "0 < bs" using assms(1) by (auto simp: mbio_inv_def bs_def k_def)
  have "drop_bit k (offset XOR (offset + n)) = 0" using True bs by (simp add: drop_bit_eq_div bs_def)
  then have "drop_bit k offset XOR drop_bit k (offset + n) = 0" by (simp add: drop_bit_xor)
  then have same: "offset div bs = (offset + n) div bs" by (simp add: bs(1) drop_bit_eq_div nat_xor_eq_0)
  define no where "no = offset div bs"
  have e: "offset = no * bs + offset mod bs" "offset + n = no * bs + (offset + n) mod bs"
    using same by (simp_all add: no_def) (metis div_mult_mod_eq)
  moreover have "(offset + n) mod bs < bs" using bs(2) by simp
  ultimately have fit: "offset mod bs + n \<le> bs" by linarith
  have len: "\<forall>b\<in>set (mbio_blocks s). length b = bs" using mbio_invD(4) [OF assms(1)] by (simp add: bs_def)
  have room: "no * bs + offset mod bs + n \<le> length (mbio_blocks s) * bs"
    using mbio_invD(1) [OF assms(1)] assms(3) by (simp add: no_def bs_def)
  have no: "no < length (mbio_blocks s)" using block_bound [OF room assms(2)] bs(2) by simp
  have "take n (drop (offset mod bs) (mbio_blocks s ! no)) = take n (drop (no * bs + offset mod bs) (concat (mbio_blocks s)))"
    by (rule concat_read_block [OF no len fit])
  also have "\<dots> = map (mbio_content s) [offset..<offset + n]"
    using room length_concat_blocks [OF len] by (intro nth_equalityI) (auto simp: mbio_content_def no_def)
  finally have "take n (drop (offset mod bs) (mbio_blocks s ! no)) = map (mbio_content s) [offset..<offset + n]" .
  moreover have "u64 (n + offset) = offset + n" using mbio_invD(2) [OF assms(1)] assms(3) by (simp add: add.commute)
  moreover have "length (mbio_blocks s ! no) = bs" using len no by simp
  ultimately show ?thesis using True assms(3) no fit mbio_position(1,2) [OF assms(1), of offset]
    by (intro exI [of _ False]) (simp add: MemoryBlockIO_DirectReadImpl_def Let_def no_def bs_def)
qed

lemma mbio_shrink:
  assumes "mbio_inv s" "n < mbio_size s" "c = (n + mbio_block_size s - 1) div mbio_block_size s"
  defines "s' \<equiv> s\<lparr>mbio_blocks := take c (mbio_blocks s), mbio_size := n\<rparr>"
  shows "mbio_inv s'" "\<forall>i<n. mbio_content s' i = mbio_content s i"
proof -
  define bs where "bs = mbio_block_size s"
  have bs: "0 < bs" using mbio_position(3) [OF assms(1)] by (simp add: bs_def)
  have n: "n \<le> c * bs" using round_up(1) [OF bs, of n] by (simp add: bs_def assms(3))
  have room: "n \<le> length (mbio_blocks s) * bs" "mbio_size s \<le> 2 ^ 62"
    using mbio_invD(1,2) [OF assms(1)] assms(2) by (simp_all add: bs_def)
  have "n \<le> min (length (mbio_blocks s)) c * bs" using n room(1) by (simp add: min_def)
  moreover have "min (length (mbio_blocks s)) c * bs \<le> length (mbio_blocks s) * bs" by simp
  moreover have "length (mbio_blocks s) * bs \<le> 2 ^ 63" using assms(1) unfolding mbio_inv_def bs_def by blast
  ultimately have le: "n \<le> min (length (mbio_blocks s)) c * bs" "min (length (mbio_blocks s)) c * bs \<le> 2 ^ 63" by linarith+
  show "mbio_inv s'" using assms(1,2) le room(2) unfolding mbio_inv_def
    by (auto simp: s'_def bs_def dest: in_set_takeD)
  have "concat (mbio_blocks s) = concat (take c (mbio_blocks s)) @ concat (drop c (mbio_blocks s))"
    by (metis append_take_drop_id concat_append)
  moreover have "length (concat (take c (mbio_blocks s))) = min (length (mbio_blocks s)) c * bs"
    using length_concat_blocks [of "take c (mbio_blocks s)" bs] mbio_invD(4) [OF assms(1)]
    by (auto simp: bs_def dest: in_set_takeD)
  ultimately show "\<forall>i<n. mbio_content s' i = mbio_content s i"
    using le(1) by (simp add: mbio_content_def s'_def nth_append)
qed

lemma mbio_resize_shrink:
  assumes "mbio_inv s" "n \<le> 2 ^ 62"
  shows "mbio_inv (MemoryBlockIO_ResizeImpl fresh n s) \<and> mbio_size (MemoryBlockIO_ResizeImpl fresh n s) = n \<and>
    (\<forall>i<min n (mbio_size s). mbio_content (MemoryBlockIO_ResizeImpl fresh n s) i = mbio_content s i) \<and>
    mbio_inv (MemoryBlockIO_ShrinkImpl n s) \<and> mbio_size (MemoryBlockIO_ShrinkImpl n s) = min n (mbio_size s) \<and>
    (\<forall>i<min n (mbio_size s). mbio_content (MemoryBlockIO_ShrinkImpl n s) i = mbio_content s i)"
proof -
  let ?r = "MemoryBlockIO_ResizeImpl fresh n s" and ?s = "MemoryBlockIO_ShrinkImpl n s"
  have len: "length (concat (mbio_blocks s)) = length (mbio_blocks s) * mbio_block_size s"
    by (rule length_concat_blocks [OF mbio_invD(4) [OF assms(1)]])
  note inv = assms(1) [unfolded mbio_inv_def]
  have "mbio_inv ?r \<and> mbio_size ?r = n \<and> (\<forall>i<min n (mbio_size s). mbio_content ?r i = mbio_content s i)"
  proof (cases "n \<le> mbio_size s")
    case True
    then have "n \<le> length (mbio_blocks s) * mbio_block_size s" using mbio_invD(1) [OF assms(1)] by linarith
    then show ?thesis using True inv assms(2)
      by (auto simp: MemoryBlockIO_ResizeImpl_def mbio_inv_def mbio_content_def)
  next
    case False
    let ?s' = "MemoryBlockIO_check_and_realloc fresh n s"
    note re = mbio_realloc [OF assms, of fresh]
    obtain x where x: "concat (mbio_blocks ?s') = concat (mbio_blocks s) @ x" using re(7) by blast
    have "mbio_content ?s' i = mbio_content s i" if "i < mbio_size s" for i
      using that len mbio_invD(1) [OF assms(1)] x by (simp add: mbio_content_def nth_append)
    then show ?thesis using False re(1,6) assms(2)
      by (auto simp: MemoryBlockIO_ResizeImpl_def mbio_inv_def mbio_content_def)
  qed
  moreover have "mbio_inv ?s \<and> mbio_size ?s = min n (mbio_size s) \<and>
      (\<forall>i<min n (mbio_size s). mbio_content ?s i = mbio_content s i)"
  proof (cases "n \<ge> mbio_size s")
    case True
    then show ?thesis using assms(1) by (simp add: MemoryBlockIO_ShrinkImpl_def)
  next
    case False
    define c where "c = (n + mbio_block_size s - 1) div mbio_block_size s"
    have c: "drop_bit (mbio_block_bit s) (u64 (n + mbio_block_size s - 1)) = c"
      using assms(2) mbio_invD(3) [OF assms(1)] mbio_position(1) [OF assms(1)] by (simp add: c_def)
    show ?thesis using False mbio_shrink [OF assms(1) _ c_def] c
      by (simp add: MemoryBlockIO_ShrinkImpl_def Let_def)
  qed
  ultimately show ?thesis by blast
qed

lemma mio_resize:
  assumes "mio_inv s" "n \<le> 2 ^ 62"
  shows "mio_inv (MemoryIO_ResizeImpl fresh n s)" "mio_size (MemoryIO_ResizeImpl fresh n s) = n"
    "\<forall>i<min n (mio_size s). mio_buffer (MemoryIO_ResizeImpl fresh n s) ! i = mio_buffer s ! i"
  using assms mio_realloc [OF assms, where fresh = fresh] by (auto simp: MemoryIO_ResizeImpl_def mio_inv_def)

interpretation mem_direct: direct_io "MemoryIO_WriteImpl fresh" MemoryIO_ReadImpl mio_size "\<lambda>s. (!) (mio_buffer s)" mio_inv "2 ^ 62"
  MemoryIO_DirectReadImpl "MemoryIO_ResizeImpl fresh" MemoryIO_Shrink for fresh
proof (unfold_locales, goal_cases)
  case (1 s n offset)
  then have "u64 (n + offset) = n + offset" by (simp add: mio_inv_def)
  moreover have "take n (drop offset (mio_buffer s)) = map ((!) (mio_buffer s)) [offset..<offset + n]"
    using 1 by (intro nth_equalityI) (auto simp: mio_inv_def)
  ultimately show ?case using 1 by (auto simp: MemoryIO_DirectReadImpl_def mio_inv_def add.commute)
next
  case (2 s n)
  then show ?case using mio_resize [OF 2, of fresh] by blast
next
  case (3 s n)
  then show ?case by (auto simp: MemoryIO_Shrink_def mio_inv_def)
qed

interpretation block_direct: direct_io "MemoryBlockIO_WriteImpl fresh" MemoryBlockIO_ReadImpl mbio_size mbio_content mbio_inv "2 ^ 62"
  MemoryBlockIO_DirectReadImpl "MemoryBlockIO_ResizeImpl fresh" MemoryBlockIO_ShrinkImpl for fresh
proof (unfold_locales, goal_cases)
  case (1 s n offset)
  then show ?case by (rule mbio_DirectRead)
next
  case (2 s n)
  then show ?case using mbio_resize_shrink [OF 2, of fresh] by blast
next
  case (3 s n)
  then show ?case using mbio_resize_shrink [OF 3, of fresh] by blast
qed

interpretation mem_load: loadable_io "MemoryIO_WriteImpl fresh" MemoryIO_ReadImpl mio_size "\<lambda>s. (!) (mio_buffer s)" mio_inv "2 ^ 62"
  IOStreamReader_Read io_rest io_ok for fresh
  by unfold_locales

interpretation block_load: loadable_io "MemoryBlockIO_WriteImpl fresh" MemoryBlockIO_ReadImpl mbio_size mbio_content mbio_inv "2 ^ 62"
  IOStreamReader_Read io_rest io_ok for fresh
  by unfold_locales

section \<open>Properties\<close>

lemma mio_new: "mio_inv (MemoryIO_new fresh)" "mio_size (MemoryIO_new fresh) = 0"
  by (simp_all add: mio_inv_def MemoryIO_new_def)

text \<open>Reading a range all of whose bytes have been written.\<close>

lemma read_written:
  assumes "map f [offset..<offset + n] = ds" "\<forall>i. offset \<le> i \<and> i < offset + n \<longrightarrow> m i = Some (f i)"
  shows "map (the \<circ> m) [offset..<offset + n] = ds"
  using assms by (auto intro!: nth_equalityI)

text \<open>
  Claim C16. The two in-memory stores are interchangeable: after the same sequence of non-empty
  writes below \<open>2 ^ 62\<close>, whatever their block size and whatever fresh memory holds, both have the
  same size, and a read of a range that has been written returns, in both, the bytes written last,
  also where it spans several blocks; a read beyond the size fails in both.
\<close>

theorem memory_stores_agree:
  assumes "0 < bs" "bs \<le> 2 ^ 62" "\<forall>(data, offset)\<in>set ws. data \<noteq> [] \<and> offset + length data \<le> 2 ^ 62"
  defines "spec \<equiv> fold spec_write ws (\<lambda>i. None)"
  shows "\<exists>m b. foldR (\<lambda>(data, offset). MemoryIO_WriteImpl f1 data offset) ws (MemoryIO_new f1) = Inr m \<and>
    foldR (\<lambda>(data, offset). MemoryBlockIO_WriteImpl f2 data offset) ws (MemoryBlockIO_new bs) = Inr b \<and>
    mio_size m = mbio_size b \<and>
    (\<forall>n offset. 0 < n \<longrightarrow> (\<forall>i. offset \<le> i \<and> i < offset + n \<longrightarrow> i \<in> dom spec) \<longrightarrow>
       MemoryIO_ReadImpl m n offset = Inr (Some (map (the \<circ> spec) [offset..<offset + n])) \<and>
       MemoryBlockIO_ReadImpl b n offset = Inr (Some (map (the \<circ> spec) [offset..<offset + n]))) \<and>
    (\<forall>n offset. 0 < n \<longrightarrow> mio_size m < offset + n \<longrightarrow> offset + n \<le> 2 ^ 62 \<longrightarrow>
       MemoryIO_ReadImpl m n offset = Inr None \<and> MemoryBlockIO_ReadImpl b n offset = Inr None)"
proof -
  obtain m where m: "foldR (\<lambda>(data, offset). MemoryIO_WriteImpl f1 data offset) ws (MemoryIO_new f1) = Inr m"
    "mio_inv m" "mio_size m = fold (\<lambda>(data, offset). max (offset + length data)) ws 0"
    "\<forall>i\<in>dom spec. i < mio_size m \<and> spec i = Some (mio_buffer m ! i)"
    using mem.write_all [where fresh = f1, OF mio_new(1) [of f1] assms(3), of "\<lambda>i. None"] mio_new(2) [of f1] unfolding spec_def by auto
  obtain b where b: "foldR (\<lambda>(data, offset). MemoryBlockIO_WriteImpl f2 data offset) ws (MemoryBlockIO_new bs) = Inr b"
    "mbio_inv b" "mbio_size b = fold (\<lambda>(data, offset). max (offset + length data)) ws 0"
    "\<forall>i\<in>dom spec. i < mbio_size b \<and> spec i = Some (mbio_content b i)"
    using block.write_all [where fresh = f2, OF mbio_new(1) [OF assms(1,2)] assms(3), of "\<lambda>i. None"] mbio_new(2) [OF assms(1,2)]
    unfolding spec_def by auto
  have sz: "mio_size m = mbio_size b" using m(3) b(3) by simp
  have "MemoryIO_ReadImpl m n offset = Inr (Some (map (the \<circ> spec) [offset..<offset + n])) \<and>
       MemoryBlockIO_ReadImpl b n offset = Inr (Some (map (the \<circ> spec) [offset..<offset + n]))"
    if n: "0 < n" and w: "\<forall>i. offset \<le> i \<and> i < offset + n \<longrightarrow> i \<in> dom spec" for n offset
  proof -
    have "offset + n - 1 \<in> dom spec" using n w by auto
    then have "offset + n - 1 < mio_size m" "offset + n - 1 < mbio_size b" using m(4) b(4) by blast+
    then have le: "offset + n \<le> mio_size m" "offset + n \<le> mbio_size b" using n by linarith+
    have "\<forall>i. offset \<le> i \<and> i < offset + n \<longrightarrow> spec i = Some (mio_buffer m ! i)"
      "\<forall>i. offset \<le> i \<and> i < offset + n \<longrightarrow> spec i = Some (mbio_content b i)" using w m(4) b(4) by blast+
    then show ?thesis
      using mem.read_ok [OF m(2) n le(1)] block.read_ok [OF b(2) n le(2)]
        read_written [OF refl, of offset n spec "(!) (mio_buffer m)"]
        read_written [OF refl, of offset n spec "mbio_content b"] by simp
  qed
  then show ?thesis using m(1) b(1) sz mem.read_short [OF m(2)] block.read_short [OF b(2)] by auto
qed

theorem memory_stores_agree_witness:
  "\<exists>m b. foldR (\<lambda>(data, offset). MemoryIO_WriteImpl (\<lambda>_. 0) data offset) [([1, 2, 3, 4, 5], 2)] (MemoryIO_new (\<lambda>_. 0)) = Inr m \<and>
    foldR (\<lambda>(data, offset). MemoryBlockIO_WriteImpl (\<lambda>_. 7) data offset) [([1, 2, 3, 4, 5], 2)] (MemoryBlockIO_new 4) = Inr b \<and>
    MemoryIO_ReadImpl m 3 3 = Inr (Some [2, 3, 4]) \<and> MemoryBlockIO_ReadImpl b 3 3 = Inr (Some [2, 3, 4])"
proof -
  let ?ws = "[([1, 2, 3, 4, 5], 2)] :: (bytes \<times> nat) list"
  let ?spec = "fold spec_write ?ws (\<lambda>i. None)"
  obtain m b where mb:
    "foldR (\<lambda>(data, offset). MemoryIO_WriteImpl (\<lambda>_. 0) data offset) ?ws (MemoryIO_new (\<lambda>_. 0)) = Inr m"
    "foldR (\<lambda>(data, offset). MemoryBlockIO_WriteImpl (\<lambda>_. 7) data offset) ?ws (MemoryBlockIO_new 4) = Inr b"
    "\<forall>n offset. 0 < n \<longrightarrow> (\<forall>i. offset \<le> i \<and> i < offset + n \<longrightarrow> i \<in> dom ?spec) \<longrightarrow>
       MemoryIO_ReadImpl m n offset = Inr (Some (map (the \<circ> ?spec) [offset..<offset + n])) \<and>
       MemoryBlockIO_ReadImpl b n offset = Inr (Some (map (the \<circ> ?spec) [offset..<offset + n]))"
    using memory_stores_agree [of 4 ?ws "\<lambda>_. 0" "\<lambda>_. 7"] by auto
  have dom: "\<forall>i. 3 \<le> i \<and> i < 3 + 3 \<longrightarrow> i \<in> dom ?spec" by (auto simp: spec_write_def)
  have "map (the \<circ> ?spec) [3..<3 + 3] = [2, 3, 4]" by (simp add: spec_write_def upt_rec)
  with mb(3) [rule_format, of 3 3] dom show ?thesis using mb(1,2) by auto
qed

text \<open>
  Claim C32. What one store serializes in chunks, another one loads: a block store written out and
  read back into a plain memory store (or the other way round), through a buffer of any content,
  holds the same bytes, and the reader stops right after them.
\<close>

theorem BasicIO_serialize_roundtrip:
  assumes "mbio_inv b" "length buffer = SERIALIZE_BUFFER_SIZE"
  shows "\<exists>w m r w' b' r'.
    BasicIO_Serialize MemoryBlockIO_ReadImpl mbio_size buffer b StreamWriter_new = Inr w \<and>
    BasicIO_Deserialize IOStreamReader_Read (MemoryIO_WriteImpl f1) (MemoryIO_new f1) (IOStreamReader_new (sw_out w @ suffix) 0) = Inr (m, r) \<and>
    io_rest r = suffix \<and> mio_size m = mbio_size b \<and> (\<forall>i<mbio_size b. mio_buffer m ! i = mbio_content b i) \<and>
    BasicIO_Serialize MemoryIO_ReadImpl mio_size buffer m StreamWriter_new = Inr w' \<and> sw_out w' = sw_out w \<and>
    BasicIO_Deserialize IOStreamReader_Read (MemoryBlockIO_WriteImpl f2) (MemoryBlockIO_new 8) (IOStreamReader_new (sw_out w' @ suffix) 0) = Inr (b', r') \<and>
    mbio_size b' = mbio_size b \<and> (\<forall>i<mbio_size b. mbio_content b' i = mbio_content b i)"
proof -
  let ?bs = "block.bytes_of b"
  have len: "length ?bs = mbio_size b" "length ?bs \<le> 2 ^ 62"
    using block.size_bound [OF assms(1)] by (simp_all add: block.bytes_of_def)
  obtain w where w: "BasicIO_Serialize MemoryBlockIO_ReadImpl mbio_size buffer b StreamWriter_new = Inr w"
    "sw_out w = le_bytes 8 (length ?bs) @ ?bs"
    using block.Serialize_ok [OF assms, of StreamWriter_new] len(1) by (auto simp: StreamWriter_new_def)
  have r: "io_ok (IOStreamReader_new (sw_out w @ suffix) 0)"
    "io_rest (IOStreamReader_new (sw_out w @ suffix) 0) = (le_bytes 8 (length ?bs) @ ?bs) @ suffix"
    by (simp_all add: io_ok_def io_rest_def IOStreamReader_new_def w(2))
  obtain m r where m: "BasicIO_Deserialize IOStreamReader_Read (MemoryIO_WriteImpl f1) (MemoryIO_new f1)
      (IOStreamReader_new (sw_out w @ suffix) 0) = Inr (m, r)" "io_rest r = suffix" "mio_inv m" "mem.bytes_of m = ?bs"
    using mem_load.Deserialize_ok [where fresh = f1, OF mio_new [of f1] r len(2)] by auto
  have msz: "mio_size m = mbio_size b" using arg_cong [OF m(4), of length] len(1) by (simp add: mem.bytes_of_def)
  obtain w' where w': "BasicIO_Serialize MemoryIO_ReadImpl mio_size buffer m StreamWriter_new = Inr w'"
    "sw_out w' = sw_out w"
    using mem.Serialize_ok [OF m(3) assms(2), of StreamWriter_new] m(4) msz len(1) w(2) by (auto simp: StreamWriter_new_def)
  have new: "mbio_inv (MemoryBlockIO_new 8)" "mbio_size (MemoryBlockIO_new 8) = 0" using mbio_new [of 8] by auto
  obtain b' r' where b': "BasicIO_Deserialize IOStreamReader_Read (MemoryBlockIO_WriteImpl f2) (MemoryBlockIO_new 8)
      (IOStreamReader_new (sw_out w' @ suffix) 0) = Inr (b', r')" "mbio_inv b'" "block.bytes_of b' = ?bs"
    using block_load.Deserialize_ok [where fresh = f2, OF new r len(2)] unfolding w'(2) by auto
  have bsz: "mbio_size b' = mbio_size b" using arg_cong [OF b'(3), of length] len(1) by (simp add: block.bytes_of_def)
  have "mio_buffer m ! i = mbio_content b i" "mbio_content b' i = mbio_content b i" if "i < mbio_size b" for i
    using arg_cong [OF m(4), of "\<lambda>l. l ! i"] arg_cong [OF b'(3), of "\<lambda>l. l ! i"] that msz bsz
    by (simp_all add: mem.bytes_of_def block.bytes_of_def)
  then show ?thesis using w(1) m(1,2) msz w' b'(1) bsz by blast
qed

theorem BasicIO_serialize_roundtrip_witness:
  "\<exists>b w m r. MemoryBlockIO_WriteImpl (\<lambda>_. 0) [1, 2, 3, 4, 5] 0 (MemoryBlockIO_new 2) = Inr b \<and>
    BasicIO_Serialize MemoryBlockIO_ReadImpl mbio_size (replicate SERIALIZE_BUFFER_SIZE 0) b StreamWriter_new = Inr w \<and>
    BasicIO_Deserialize IOStreamReader_Read (MemoryIO_WriteImpl (\<lambda>_. 0)) (MemoryIO_new (\<lambda>_. 0))
      (IOStreamReader_new (sw_out w @ [9]) 0) = Inr (m, r) \<and> io_rest r = [9] \<and> mio_size m = 5"
proof -
  obtain b where b: "MemoryBlockIO_WriteImpl (\<lambda>_. 0) [1, 2, 3, 4, 5] 0 (MemoryBlockIO_new 2) = Inr b"
    "mbio_inv b" "mbio_size b = 5"
    using mbio_Write [OF mbio_new(1), of 2 0 "[1, 2, 3, 4, 5]" "\<lambda>_. 0"] mbio_new(2) [of 2] by auto
  then show ?thesis
    using BasicIO_serialize_roundtrip [OF b(2), of "replicate SERIALIZE_BUFFER_SIZE 0" "\<lambda>_. 0" "[9]" "\<lambda>_. 0"] by auto
qed

text \<open>
  The pointer that \<open>DirectReadImpl\<close> of the block store returns never leads out of its
  block: wherever the requested range lies within the store, the bytes behind the pointer are those
  of the range, taken from the block itself or from a copy.
\<close>

lemma MemoryBlockIO_DirectRead_safe:
  assumes "mbio_inv s" "0 < n" "offset + n \<le> mbio_size s"
  shows "\<exists>need_release. MemoryBlockIO_DirectReadImpl s n offset =
    Inr (Some (map (mbio_content s) [offset..<offset + n], need_release))"
  using assms by (rule mbio_DirectRead)

text \<open>
  Resizing and shrinking a block store: the size is what was asked for (shrinking never
  grows it), the bytes below both sizes stay, and the store remains usable.
\<close>

lemma MemoryBlockIO_resize_shrink:
  assumes "mbio_inv s" "n \<le> 2 ^ 62"
  shows "mbio_inv (MemoryBlockIO_ResizeImpl fresh n s) \<and> mbio_size (MemoryBlockIO_ResizeImpl fresh n s) = n \<and>
    (\<forall>i<min n (mbio_size s). mbio_content (MemoryBlockIO_ResizeImpl fresh n s) i = mbio_content s i) \<and>
    mbio_inv (MemoryBlockIO_ShrinkImpl n s) \<and> mbio_size (MemoryBlockIO_ShrinkImpl n s) = min n (mbio_size s) \<and>
    (\<forall>i<min n (mbio_size s). mbio_content (MemoryBlockIO_ShrinkImpl n s) i = mbio_content s i)"
  using assms by (rule mbio_resize_shrink)

end
