(* ===== verification/NonContinuousIO.thy ===== *)
theory NonContinuousIO
  imports BasicIO
begin

text \<open>
  \<open>src/io/noncontinuous_allocator.h\<close> and \<open>src/io/noncontinuous_io.h\<close>: a store spread over areas of
  another store. Several such stores share one allocator, which hands out areas that never overlap;
  each keeps a table of its areas with the cumulative size after each. The theory shows that over
  any inner store (the locale of \<open>BasicIO\<close>) the result is a store again, so that everything proved
  of stores holds of it, and that stores sharing an allocator stay apart.
\<close>

unbundle bit_operations_syntax

section \<open>NonContinuousAllocator\<close>

record NonContinuousArea =
  area_offset :: nat
  area_size :: nat

definition ALOGN_SIZE :: nat where "ALOGN_SIZE = 4096"

text \<open>The allocator is its \<open>last_offset_\<close>.\<close>

definition Require :: "nat \<Rightarrow> nat \<Rightarrow> NonContinuousArea \<times> nat" where
  "Require n last_offset =
     (let n = u64 (n + ALOGN_SIZE - 1) AND u64_sub (2 ^ 64 - 1) (ALOGN_SIZE - 1)
      in (\<lparr>area_offset = last_offset, area_size = n\<rparr>, u64 (last_offset + n)))"

section \<open>NonContinuousIO\<close>

type_synonym area_entry = "NonContinuousArea \<times> nat"

record 's non_continuous_io =
  nc_areas :: "area_entry list"
  nc_size :: nat
  nc_inner :: 's

definition NonContinuousIO_new :: "'s \<Rightarrow> 's non_continuous_io" where
  "NonContinuousIO_new inner = \<lparr>nc_areas = [], nc_size = 0, nc_inner = inner\<rparr>"

definition get_cur_max_size :: "'s non_continuous_io \<Rightarrow> nat" where
  "get_cur_max_size s = (if nc_areas s = [] then 0 else snd (last (nc_areas s)))"

text \<open>\<open>get_area\<close>: the iterator, as the rest of the table from the area found.\<close>

definition get_area :: "'s non_continuous_io \<Rightarrow> nat \<Rightarrow> area_entry list" where
  "get_area s offset = dropWhile (\<lambda>(area, post_size). \<not> offset < post_size) (nc_areas s)"

text \<open>The physical offset where an access begins, in the entry the iterator points to.\<close>

definition start_offset_of :: "nat \<Rightarrow> area_entry \<Rightarrow> nat" where
  "start_offset_of offset entry =
     u64 (area_offset (fst entry) + u64 (u64_sub offset (snd entry) + area_size (fst entry)))"

text \<open>How many of the \<open>n\<close> bytes left are in the current area.\<close>

definition area_part :: "nat \<Rightarrow> nat \<Rightarrow> NonContinuousArea \<Rightarrow> nat" where
  "area_part n start_offset area = min n (u64_sub (area_size area) (u64_sub start_offset (area_offset area)))"

definition next_start :: "area_entry list \<Rightarrow> nat \<Rightarrow> nat" where
  "next_start areas start_offset = (case areas of [] \<Rightarrow> start_offset | entry # _ \<Rightarrow> area_offset (fst entry))"

text \<open>The loop of \<open>WriteImpl\<close>; an iterator at the end of the table cannot be followed.\<close>

fun nc_write_loop ::
  "(bytes \<Rightarrow> nat \<Rightarrow> 's \<Rightarrow> 's result) \<Rightarrow> area_entry list \<Rightarrow> nat \<Rightarrow> bytes \<Rightarrow> 's \<Rightarrow> 's result" where
  "nc_write_loop inner_write [] start_offset data inner = (if data = [] then Inr inner else Inl UB)"
| "nc_write_loop inner_write (entry # areas) start_offset data inner =
     (if data = [] then Inr inner
      else
        let n = area_part (length data) start_offset (fst entry)
        in bindR (inner_write (take n data) start_offset inner)
             (nc_write_loop inner_write areas (next_start areas start_offset) (drop n data)))"

text \<open>
  The state of a write is the shared allocator and the store. First, one more area is required where
  the capacity is too small.
\<close>

definition nc_extend :: "nat \<Rightarrow> nat \<times> 's non_continuous_io \<Rightarrow> nat \<times> 's non_continuous_io" where
  "nc_extend need = (\<lambda>(last_offset, s).
     let capacity = get_cur_max_size s
     in if need > capacity then
          let (area, last_offset) = Require (u64_sub need capacity) last_offset
          in (last_offset, s\<lparr>nc_areas := nc_areas s @ [(area, u64 (capacity + area_size area))]\<rparr>)
        else (last_offset, s))"

definition NonContinuousIO_WriteImpl ::
  "(bytes \<Rightarrow> nat \<Rightarrow> 's \<Rightarrow> 's result) \<Rightarrow> bytes \<Rightarrow> nat \<Rightarrow> nat \<times> 's non_continuous_io \<Rightarrow>
     (nat \<times> 's non_continuous_io) result" where
  "NonContinuousIO_WriteImpl inner_write data offset st =
     (let (last_offset, s) = nc_extend (u64 (length data + offset)) st;
          start_area = get_area s offset
      in if start_area = [] then Inl UB
         else bindR (nc_write_loop inner_write start_area (start_offset_of offset (hd start_area)) data (nc_inner s))
           (\<lambda>inner. Inr (last_offset,
              s\<lparr>nc_inner := inner,
                nc_size := (if u64 (offset + length data) > nc_size s then u64 (offset + length data) else nc_size s)\<rparr>)))"

text \<open>The loop of \<open>ReadImpl\<close> collects the sizes and offsets of the parts.\<close>

fun nc_read_loop :: "area_entry list \<Rightarrow> nat \<Rightarrow> nat \<Rightarrow> (nat \<times> nat) list result" where
  "nc_read_loop [] start_offset n = (if n = 0 then Inr [] else Inl UB)"
| "nc_read_loop (entry # areas) start_offset n =
     (if n = 0 then Inr []
      else
        let k = area_part n start_offset (fst entry)
        in bindR (nc_read_loop areas (next_start areas start_offset) (n - k))
             (\<lambda>reqs. Inr ((k, start_offset) # reqs)))"

definition NonContinuousIO_ReadImpl ::
  "('s \<Rightarrow> nat \<Rightarrow> nat \<Rightarrow> bytes option result) \<Rightarrow> nat \<times> 's non_continuous_io \<Rightarrow> nat \<Rightarrow> nat \<Rightarrow> bytes option result" where
  "NonContinuousIO_ReadImpl inner_read st n offset =
     (let s = snd st
      in if \<not> u64 (n + offset) \<le> nc_size s then Inr None
         else
           let start_area = get_area s offset
           in if start_area = [] then Inl UB
              else bindR (nc_read_loop start_area (start_offset_of offset (hd start_area)) n) (\<lambda>reqs.
                bindR (MultiReadImpl inner_read (nc_inner s) reqs) (\<lambda>(data, ok).
                  Inr (if ok then Some data else None))))"

definition NonContinuousIO_DirectReadImpl ::
  "('s \<Rightarrow> nat \<Rightarrow> nat \<Rightarrow> bytes option result) \<Rightarrow> nat \<times> 's non_continuous_io \<Rightarrow> nat \<Rightarrow> nat \<Rightarrow>
     (bytes \<times> bool) option result" where
  "NonContinuousIO_DirectReadImpl inner_read st n offset =
     (if \<not> u64 (n + offset) \<le> nc_size (snd st) then Inr None
      else bindR (NonContinuousIO_ReadImpl inner_read st n offset) (\<lambda>d.
        Inr (map_option (\<lambda>data. (data, True)) d)))"

definition mapping_offset :: "'s non_continuous_io \<Rightarrow> nat \<Rightarrow> nat result" where
  "mapping_offset s offset =
     (case get_area s offset of
        [] \<Rightarrow> Inl UB
      | entry # _ \<Rightarrow>
          Inr (u64 (area_offset (fst entry) + u64_sub offset (u64_sub (snd entry) (area_size (fst entry))))))"

section \<open>The table as an address map\<close>

text \<open>The physical address of every logical offset.\<close>

definition addrs :: "area_entry list \<Rightarrow> nat list" where
  "addrs areas = concat (map (\<lambda>(area, _). [area_offset area..<area_offset area + area_size area]) areas)"

lemma addrs_simps [simp]:
  "addrs [] = []"
  "addrs (entry # areas) = [area_offset (fst entry)..<area_offset (fst entry) + area_size (fst entry)] @ addrs areas"
  "addrs (xs @ ys) = addrs xs @ addrs ys"
  by (auto simp: addrs_def split: prod.splits)

text \<open>The second components are the cumulative sizes; no area is empty.\<close>

fun posts_ok :: "nat \<Rightarrow> area_entry list \<Rightarrow> bool" where
  "posts_ok c [] = True"
| "posts_ok c (entry # areas) =
     (snd entry = c + area_size (fst entry) \<and> 0 < area_size (fst entry) \<and>
      posts_ok (c + area_size (fst entry)) areas)"

lemma posts_ok_append:
  "posts_ok c (xs @ ys) \<longleftrightarrow> posts_ok c xs \<and> posts_ok (c + length (addrs xs)) ys"
  by (induction xs arbitrary: c) (simp_all add: add.assoc)

lemma posts_ok_last: "posts_ok c areas \<Longrightarrow> areas \<noteq> [] \<Longrightarrow> snd (last areas) = c + length (addrs areas)"
  by (induction areas arbitrary: c) (auto simp: add.assoc)

lemma get_cur_max_size_eq: "posts_ok 0 (nc_areas s) \<Longrightarrow> get_cur_max_size s = length (addrs (nc_areas s))"
  using posts_ok_last [of 0 "nc_areas s"] by (simp add: get_cur_max_size_def)

text \<open>Where \<open>get_area\<close> stops, the rest of the table begins with the area of the offset.\<close>

lemma area_found:
  assumes "posts_ok c areas" "c \<le> offset" "offset < c + length (addrs areas)"
  shows "\<exists>entry rest. dropWhile (\<lambda>(area, post_size). \<not> offset < post_size) areas = entry # rest \<and>
    area_size (fst entry) \<le> snd entry \<and> snd entry - area_size (fst entry) \<le> offset \<and> offset < snd entry \<and>
    snd entry \<le> c + length (addrs areas) \<and>
    drop (offset - c) (addrs areas) = drop (offset - (snd entry - area_size (fst entry))) (addrs (entry # rest)) \<and>
    (\<exists>pre. areas = pre @ entry # rest)"
  using assms
proof (induction areas arbitrary: c)
  case (Cons entry areas)
  show ?case
  proof (cases "offset < snd entry")
    case True
    then show ?thesis using Cons.prems
      by (intro exI [of _ entry] exI [of _ areas]) (auto split: prod.splits)
  next
    case False
    obtain e r where er: "dropWhile (\<lambda>(area, post_size). \<not> offset < post_size) areas = e # r"
      "area_size (fst e) \<le> snd e" "snd e - area_size (fst e) \<le> offset" "offset < snd e"
      "snd e \<le> snd entry + length (addrs areas)"
      "drop (offset - snd entry) (addrs areas) = drop (offset - (snd e - area_size (fst e))) (addrs (e # r))"
      "\<exists>pre. areas = pre @ e # r"
      using Cons.IH [of "snd entry"] Cons.prems False by auto
    moreover have "drop (offset - c) (addrs (entry # areas)) = drop (offset - snd entry) (addrs areas)"
      using Cons.prems(1) False by simp
    moreover have "dropWhile (\<lambda>(area, post_size). \<not> offset < post_size) (entry # areas) = e # r"
      using False er(1) by (cases entry) simp
    moreover have "\<exists>pre. entry # areas = pre @ e # r" using er(7) by (metis append_Cons)
    moreover have "snd entry + length (addrs areas) = c + length (addrs (entry # areas))"
      using Cons.prems(1) by simp
    ultimately show ?thesis by (intro exI [of _ e] exI [of _ r]) simp
  qed
qed simp

lemma start_offset_eq:
  assumes "area_size a \<le> p" "p - area_size a \<le> offset" "offset < p" "p < 2 ^ 62" "area_offset a + area_size a < 2 ^ 63"
  shows "start_offset_of offset (a, p) = area_offset a + (offset - (p - area_size a))"
proof -
  define x where "x = offset + area_size a - p"
  have "u64_sub offset p + area_size a = x + 2 ^ 64"
    using assms unfolding u64_sub_def x_def by simp
  moreover have "u64 (x + 2 ^ 64) = x" using assms unfolding u64_def x_def by (subst mod_add_self2) simp
  ultimately have "u64 (u64_sub offset p + area_size a) = offset + area_size a - p" by (simp only: x_def)
  then show ?thesis using assms by (simp add: start_offset_of_def)
qed

lemma area_part_eq:
  assumes "area_offset a \<le> start" "start < area_offset a + area_size a" "area_offset a + area_size a < 2 ^ 63"
  shows "area_part n start a = min n (area_offset a + area_size a - start)"
  using assms u64_sub_le [of "area_offset a" start] u64_sub_le [of "start - area_offset a" "area_size a"]
  by (simp add: area_part_def)

lemma drop_first_area:
  "o1 \<le> start \<Longrightarrow> start \<le> o1 + n \<Longrightarrow> drop (start - o1) ([o1..<o1 + n] @ ys) = [start..<o1 + n] @ ys"
  by simp

text \<open>The parts a read asks for are, one after the other, the addresses of the range.\<close>

lemma nc_read_loop_ok:
  assumes "area_offset (fst entry) \<le> start" "start < area_offset (fst entry) + area_size (fst entry)"
    "\<forall>p\<in>set (addrs (entry # areas)). p < 2 ^ 62" "posts_ok c (entry # areas)"
    "0 < n" "n \<le> length (drop (start - area_offset (fst entry)) (addrs (entry # areas)))"
  shows "\<exists>reqs. nc_read_loop (entry # areas) start n = Inr reqs \<and> (\<forall>(k, p)\<in>set reqs. 0 < k) \<and>
    concat (map (\<lambda>(k, p). [p..<p + k]) reqs) = take n (drop (start - area_offset (fst entry)) (addrs (entry # areas)))"
  using assms
proof (induction areas arbitrary: entry start n c)
  case Nil
  define e where "e = area_offset (fst entry) + area_size (fst entry)"
  have "e - 1 < 2 ^ 62" using Nil.prems(1-3) by (auto simp: e_def)
  then have "area_part n start (fst entry) = min n (e - start)"
    using area_part_eq [OF Nil.prems(1,2), of n] by (simp add: e_def)
  moreover have "n \<le> e - start" using Nil.prems by (simp add: e_def)
  ultimately show ?case using Nil.prems(1,2,5) by (simp add: e_def take_upt)
next
  case (Cons e2 areas)
  define e where "e = area_offset (fst entry) + area_size (fst entry)"
  define k where "k = min n (e - start)"
  have "e - 1 < 2 ^ 62" using Cons.prems(1-3) by (auto simp: e_def)
  then have part: "area_part n start (fst entry) = k"
    using area_part_eq [OF Cons.prems(1,2), of n] by (simp add: e_def k_def)
  have A: "drop (start - area_offset (fst entry)) (addrs (entry # e2 # areas)) = [start..<e] @ addrs (e2 # areas)"
    using Cons.prems(1,2) by (simp add: e_def)
  have k: "0 < k" "start + k \<le> e" using Cons.prems(2,5) by (auto simp: k_def e_def)
  show ?case
  proof (cases "n - k = 0")
    case True
    then have "k = n" by (simp add: k_def)
    then show ?thesis using part k Cons.prems(5) A by (simp add: take_upt)
  next
    case False
    then have ke: "k = e - start" "start + k = e" "k < n" using k(2) by (auto simp: k_def)
    obtain reqs where reqs: "nc_read_loop (e2 # areas) (area_offset (fst e2)) (n - k) = Inr reqs"
      "\<forall>(k, p)\<in>set reqs. 0 < k" "concat (map (\<lambda>(k, p). [p..<p + k]) reqs) = take (n - k) (addrs (e2 # areas))"
    proof -
      have "n - k \<le> length (addrs (e2 # areas))"
        using Cons.prems(6) ke unfolding A by (simp del: addrs_simps)
      moreover have "0 < area_size (fst e2)" "posts_ok (c + area_size (fst entry)) (e2 # areas)"
        "\<forall>p\<in>set (addrs (e2 # areas)). p < 2 ^ 62" using Cons.prems(3,4) by auto
      ultimately show ?thesis
        using Cons.IH [of e2 "area_offset (fst e2)" "c + area_size (fst entry)" "n - k"] False that
        by (auto simp del: addrs_simps(2) nc_read_loop.simps posts_ok.simps)
    qed
    have "nc_read_loop (entry # e2 # areas) start n = Inr ((k, start) # reqs)"
      using part reqs(1) Cons.prems(5)
      by (simp add: next_start_def Let_def del: nc_read_loop.simps(2) add: nc_read_loop.simps(2) [of entry])
    moreover have "concat (map (\<lambda>(k, p). [p..<p + k]) ((k, start) # reqs)) = take n ([start..<e] @ addrs (e2 # areas))"
      using reqs(3) ke by simp
    ultimately show ?thesis using reqs(2) k(1) A by auto
  qed
qed

section \<open>The allocator\<close>

lemma and_not_mask_12: "x < 2 ^ 64 \<Longrightarrow> x AND (2 ^ 64 - 1 - 4095) = x div 4096 * (4096 :: nat)"
proof -
  assume x: "x < 2 ^ 64"
  have m: "(2 ^ 64 - 1 - 4095 :: nat) = push_bit 12 (mask 52)" by (simp add: push_bit_eq_mult mask_eq_exp_minus_1)
  have "x AND push_bit 12 (mask 52) = push_bit 12 (drop_bit 12 x)"
  proof (rule bit_eqI)
    fix n
    have "\<not> bit x n" if "64 \<le> n"
    proof -
      have "x < 2 ^ n" using x that power_increasing [of 64 n "2 :: nat"] by linarith
      then show ?thesis by (simp add: bit_iff_odd)
    qed
    then show "bit (x AND push_bit 12 (mask 52)) n = bit (push_bit 12 (drop_bit 12 x)) n"
      by (cases "64 \<le> n") (auto simp: bit_simps not_less)
  qed
  then show ?thesis using m by (simp add: push_bit_eq_mult drop_bit_eq_div)
qed

definition round_4k :: "nat \<Rightarrow> nat" where "round_4k n = (n + 4095) div 4096 * 4096"

lemma round_4k: "n \<le> round_4k n" "round_4k n \<le> n + 4095" "4096 dvd round_4k n"
  using round_up [of 4096 n] by (simp_all add: round_4k_def)

lemma round_4k_mono: "4096 dvd m \<Longrightarrow> n \<le> m \<Longrightarrow> round_4k n \<le> m"
  by (auto simp: round_4k_def elim!: dvdE)

lemma Require_eq:
  assumes "n \<le> 2 ^ 62" "lo + round_4k n \<le> 2 ^ 62"
  shows "Require n lo = (\<lparr>area_offset = lo, area_size = round_4k n\<rparr>, lo + round_4k n)"
proof -
  have "u64_sub (2 ^ 64 - 1) (ALOGN_SIZE - 1) = 2 ^ 64 - 1 - 4095"
    by (subst u64_sub_le) (simp_all add: ALOGN_SIZE_def)
  then have "u64 (n + ALOGN_SIZE - 1) AND u64_sub (2 ^ 64 - 1) (ALOGN_SIZE - 1) = round_4k n"
    using and_not_mask_12 [of "n + 4095"] assms(1) by (simp add: ALOGN_SIZE_def round_4k_def add.commute)
  then show ?thesis using assms(2) by (simp add: Require_def Let_def)
qed

section \<open>A store over a store\<close>

lemma sorted_le_last: "sorted_wrt (<) A \<Longrightarrow> p \<in> set A \<Longrightarrow> p \<le> last A" for p :: nat
  by (cases A rule: rev_cases) (auto simp: sorted_wrt_append)

locale nc_store = byte_io
begin

text \<open>The bytes \<open>data\<close> have been put at the addresses \<open>A\<close>, and nothing else has changed.\<close>

definition put_at :: "'a \<Rightarrow> nat list \<Rightarrow> bytes \<Rightarrow> 'a \<Rightarrow> bool" where
  "put_at s A data s' \<longleftrightarrow> inv s' \<and> size_of s' = max (size_of s) (Suc (last A)) \<and>
     sorted_wrt (<) A \<and> length A = length data \<and>
     (\<forall>k<length data. content s' (A ! k) = data ! k) \<and>
     (\<forall>p < size_of s. p \<notin> set A \<longrightarrow> content s' p = content s p)"

lemma put_at_write:
  assumes "inv s" "data \<noteq> []" "start + length data \<le> limit"
  shows "\<exists>s'. wr data start s = Inr s' \<and> put_at s [start..<start + length data] data s'"
proof -
  have "Suc (last [start..<start + length data]) = start + length data" using assms(2) by simp
  then show ?thesis using write_ok [OF assms] by (auto simp: put_at_def)
qed

lemma put_at_append:
  assumes "put_at s A d s1" "put_at s1 B d' s2" "\<forall>p\<in>set A. \<forall>q\<in>set B. p < q" "A \<noteq> []" "B \<noteq> []"
  shows "put_at s (A @ B) (d @ d') s2"
proof -
  note 1 = assms(1) [unfolded put_at_def] and 2 = assms(2) [unfolded put_at_def]
  have "last A < last B" using assms(3-5) by simp
  then have sz: "size_of s2 = max (size_of s) (Suc (last (A @ B)))" using 1 2 assms(5) by simp
  have "content s2 ((A @ B) ! k) = (d @ d') ! k" if "k < length (d @ d')" for k
  proof (cases "k < length d")
    case True
    then have k: "A ! k \<in> set A" using 1 by simp
    then have "A ! k \<notin> set B" using assms(3) by blast
    moreover have "A ! k < size_of s1" using sorted_le_last [OF _ k] 1 by simp
    ultimately show ?thesis using True 1 2 by (simp add: nth_append)
  next
    case False
    then show ?thesis using 1 2 that by (simp add: nth_append)
  qed
  moreover have "content s2 p = content s p" if "p < size_of s" "p \<notin> set (A @ B)" for p
    using that 1 2 by simp
  ultimately show ?thesis using 1 2 sz assms(3) by (auto simp: put_at_def sorted_wrt_append)
qed

lemma nc_write_loop_ok:
  assumes "inv inner" "area_offset (fst entry) \<le> start" "start < area_offset (fst entry) + area_size (fst entry)"
    "\<forall>p\<in>set (addrs (entry # areas)). p < limit" "posts_ok c (entry # areas)" "sorted_wrt (<) (addrs (entry # areas))"
    "data \<noteq> []" "length data \<le> length (drop (start - area_offset (fst entry)) (addrs (entry # areas)))"
  shows "\<exists>inner'. nc_write_loop wr (entry # areas) start data inner = Inr inner' \<and>
    put_at inner (take (length data) (drop (start - area_offset (fst entry)) (addrs (entry # areas)))) data inner'"
  using assms
proof (induction areas arbitrary: entry start data inner c)
  case Nil
  define e where "e = area_offset (fst entry) + area_size (fst entry)"
  have "e - 1 < limit" using Nil.prems(2-4) by (auto simp: e_def)
  then have e: "e \<le> limit" "e < 2 ^ 63" using limit_le Nil.prems(3) by (auto simp: e_def)
  have part: "area_part (length data) start (fst entry) = min (length data) (e - start)"
    using area_part_eq [OF Nil.prems(2,3), of "length data"] e(2) by (simp add: e_def)
  have A: "drop (start - area_offset (fst entry)) (addrs [entry]) = [start..<e]" using Nil.prems(2,3) by (simp add: e_def)
  have n: "length data \<le> e - start" "start < e" using Nil.prems(3,8) A by (simp_all add: e_def)
  then have tA: "take (length data) [start..<e] = [start..<start + length data]" by (simp add: take_upt)
  have "start + length data \<le> limit" using n e(1) by simp
  from put_at_write [OF Nil.prems(1,7) this] show ?case
    unfolding A tA using part n Nil.prems(7) by (auto simp: Let_def)
next
  case (Cons e2 areas)
  define e where "e = area_offset (fst entry) + area_size (fst entry)"
  define k where "k = min (length data) (e - start)"
  have "e - 1 \<in> set (addrs (entry # e2 # areas))"
    using Cons.prems(2,3) unfolding addrs_simps(2) [of entry] set_append e_def by force
  then have "e - 1 < limit" using Cons.prems(4) by blast
  then have e: "e \<le> limit" "e < 2 ^ 63" "start < e" using limit_le Cons.prems(3) by (auto simp: e_def)
  have part: "area_part (length data) start (fst entry) = k"
    using area_part_eq [OF Cons.prems(2,3), of "length data"] e(2) by (simp add: e_def k_def)
  have A: "drop (start - area_offset (fst entry)) (addrs (entry # e2 # areas)) = [start..<e] @ addrs (e2 # areas)"
    using Cons.prems(2,3) by (simp add: e_def)
  have k: "0 < k" "start + k \<le> e" "k \<le> length data" using e(3) Cons.prems(7) by (auto simp: k_def)
  have "take k data \<noteq> []" "start + length (take k data) \<le> limit" using k e(1) by auto
  from put_at_write [OF Cons.prems(1) this] obtain i1 where i1:
    "wr (take k data) start inner = Inr i1" "put_at inner [start..<start + k] (take k data) i1"
    using k(3) by auto
  have loop: "nc_write_loop wr (entry # e2 # areas) start data inner =
      nc_write_loop wr (e2 # areas) (area_offset (fst e2)) (drop k data) i1"
    using part i1(1) Cons.prems(7)
    by (simp add: next_start_def Let_def del: nc_write_loop.simps(2) add: nc_write_loop.simps(2) [of wr entry])
  show ?case
  proof (cases "length data \<le> k")
    case True
    then have kn: "k = length data" using k(3) by simp
    then have "take (length data) ([start..<e] @ addrs (e2 # areas)) = [start..<start + k]" using k by (simp add: take_upt)
    moreover have "nc_write_loop wr (e2 # areas) (area_offset (fst e2)) (drop k data) i1 = Inr i1" using kn by simp
    ultimately show ?thesis unfolding A loop using i1(2) kn by simp
  next
    case False
    then have ke: "start + k = e" "k < length data" using k(2) by (auto simp: k_def)
    define B where "B = take (length data - k) (addrs (e2 # areas))"
    have room: "length data - k \<le> length (addrs (e2 # areas))"
      using Cons.prems(8) ke(1) unfolding A length_append length_upt by linarith
    then have lenB: "length B = length data - k" unfolding B_def length_take by simp
    have posts: "posts_ok (c + area_size (fst entry)) (e2 # areas)" "area_offset (fst e2) < area_offset (fst e2) + area_size (fst e2)"
      using Cons.prems(5) by (simp_all only: posts_ok.simps less_add_same_cancel1)
    have lim: "\<forall>p\<in>set (addrs (e2 # areas)). p < limit" "sorted_wrt (<) (addrs (e2 # areas))"
      using Cons.prems(4,6) unfolding addrs_simps(2) [of entry] sorted_wrt_append set_append by blast+
    have ne: "drop k data \<noteq> []" "inv i1" using ke(2) i1(2) by (simp_all add: put_at_def)
    have "length (drop k data) \<le> length (drop (area_offset (fst e2) - area_offset (fst e2)) (addrs (e2 # areas)))"
      using room by (simp only: diff_self_eq_0 drop0 length_drop)
    from Cons.IH [OF ne(2) le_refl posts(2) lim(1) posts(1) lim(2) ne(1) this] obtain i2 where
      i2: "nc_write_loop wr (e2 # areas) (area_offset (fst e2)) (drop k data) i1 = Inr i2" "put_at i1 B (drop k data) i2"
      unfolding B_def by (auto simp only: diff_self_eq_0 drop0 length_drop)
    have "p < q" if "p \<in> set [start..<e]" "q \<in> set B" for p q
    proof -
      have "q \<in> set (addrs (e2 # areas))" using that(2) in_set_takeD unfolding B_def by fast
      moreover have "p \<in> set [area_offset (fst entry)..<e]" using that(1) Cons.prems(2) by auto
      ultimately show ?thesis using Cons.prems(6) unfolding addrs_simps(2) [of entry] sorted_wrt_append e_def by blast
    qed
    then have "\<forall>p\<in>set [start..<start + k]. \<forall>q\<in>set B. p < q" unfolding ke(1) by blast
    moreover have "[start..<start + k] \<noteq> []" "B \<noteq> []" using k(1) lenB ke(2) by auto
    ultimately have "put_at inner ([start..<e] @ B) (take k data @ drop k data) i2"
      using put_at_append [OF i1(2) i2(2)] unfolding ke(1) by blast
    moreover have "take (length data) ([start..<e] @ addrs (e2 # areas)) = [start..<e] @ B"
    proof -
      have "length [start..<e] = k" "take (length data) [start..<e] = [start..<e]" using ke by auto
      then show ?thesis by (simp only: take_append B_def)
    qed
    ultimately show ?thesis unfolding A loop i2(1) append_take_drop_id by simp
  qed
qed

text \<open>
  The invariant. Half of the addresses of the inner store are left to the other users of the
  allocator: what they have taken is \<open>last_offset\<close> minus the own capacity.
\<close>

definition nc_limit :: nat where "nc_limit = limit div 8192 * 4096"

definition nc_inv :: "nat \<times> 'a non_continuous_io \<Rightarrow> bool" where
  "nc_inv = (\<lambda>(last_offset, s).
     posts_ok 0 (nc_areas s) \<and> sorted_wrt (<) (addrs (nc_areas s)) \<and>
     (\<forall>p\<in>set (addrs (nc_areas s)). p < last_offset) \<and>
     4096 dvd length (addrs (nc_areas s)) \<and> length (addrs (nc_areas s)) \<le> nc_limit \<and>
     last_offset \<le> length (addrs (nc_areas s)) + nc_limit \<and>
     nc_size s \<le> length (addrs (nc_areas s)) \<and> inv (nc_inner s) \<and>
     (\<forall>i<nc_size s. addrs (nc_areas s) ! i < size_of (nc_inner s)))"

definition nc_content :: "nat \<times> 'a non_continuous_io \<Rightarrow> nat \<Rightarrow> byte" where
  "nc_content st i = content (nc_inner (snd st)) (addrs (nc_areas (snd st)) ! i)"

lemma nc_limit: "nc_limit + nc_limit \<le> limit" "4096 dvd nc_limit" "nc_limit \<le> 2 ^ 61"
proof -
  show "nc_limit + nc_limit \<le> limit" using div_mult_mod_eq [of limit 8192] unfolding nc_limit_def by linarith
  then show "nc_limit \<le> 2 ^ 61" using limit_le by simp
qed (simp add: nc_limit_def)

text \<open>The access begins at the address of the offset and goes on along the table.\<close>

lemma access_start:
  assumes "nc_inv (lo, s)" "offset < length (addrs (nc_areas s))"
  obtains entry rest c where "get_area s offset = entry # rest"
    "area_offset (fst entry) \<le> start_offset_of offset entry"
    "start_offset_of offset entry < area_offset (fst entry) + area_size (fst entry)"
    "drop offset (addrs (nc_areas s)) =
       drop (start_offset_of offset entry - area_offset (fst entry)) (addrs (entry # rest))"
    "posts_ok c (entry # rest)" "sorted_wrt (<) (addrs (entry # rest))" "\<forall>p\<in>set (addrs (entry # rest)). p < limit"
proof -
  note inv = assms(1) [unfolded nc_inv_def, simplified]
  obtain entry rest pre where e: "get_area s offset = entry # rest"
    "area_size (fst entry) \<le> snd entry" "snd entry - area_size (fst entry) \<le> offset" "offset < snd entry"
    "snd entry \<le> length (addrs (nc_areas s))"
    "drop offset (addrs (nc_areas s)) = drop (offset - (snd entry - area_size (fst entry))) (addrs (entry # rest))"
    "nc_areas s = pre @ entry # rest"
    using area_found [of 0 "nc_areas s" offset] inv assms(2) by (auto simp: get_area_def simp del: addrs_simps(2))
  have ok: "posts_ok (length (addrs pre)) (entry # rest)" "sorted_wrt (<) (addrs (entry # rest))"
    using inv e(7) posts_ok_append [of 0 pre "entry # rest"] by (simp_all add: sorted_wrt_append del: addrs_simps(2))
  have lim: "\<forall>p\<in>set (addrs (entry # rest)). p < limit"
  proof
    fix p
    assume "p \<in> set (addrs (entry # rest))"
    then have "p \<in> set (addrs (nc_areas s))" unfolding e(7) by simp
    then have "p < lo" using inv by blast
    then show "p < limit" using inv nc_limit(1) by linarith
  qed
  have "area_offset (fst entry) + area_size (fst entry) - 1 \<in> set (addrs (entry # rest))"
    using ok(1) by auto
  then have "area_offset (fst entry) + area_size (fst entry) \<le> 2 ^ 62" using lim limit_le by fastforce
  then have "start_offset_of offset entry = area_offset (fst entry) + (offset - (snd entry - area_size (fst entry)))"
    using start_offset_eq [OF e(2,3,4)] e(5) inv nc_limit(3) by (cases entry) simp
  then show thesis using that [OF e(1) _ _ _ ok lim] e(2-4,6) by simp
qed

lemma nc_read:
  assumes "nc_inv st" "0 < n" "offset + n \<le> nc_size (snd st)"
  shows "NonContinuousIO_ReadImpl read st n offset = Inr (Some (map (nc_content st) [offset..<offset + n]))"
proof -
  obtain lo s where st: "st = (lo, s)" by (cases st)
  note inv = assms(1) [unfolded nc_inv_def st, simplified]
  let ?P = "addrs (nc_areas s)"
  have le: "offset + n \<le> length ?P" using inv assms(3) st by simp
  obtain entry rest c where e: "get_area s offset = entry # rest"
    "area_offset (fst entry) \<le> start_offset_of offset entry"
    "start_offset_of offset entry < area_offset (fst entry) + area_size (fst entry)"
    "drop offset ?P = drop (start_offset_of offset entry - area_offset (fst entry)) (addrs (entry # rest))"
    "posts_ok c (entry # rest)" "sorted_wrt (<) (addrs (entry # rest))" "\<forall>p\<in>set (addrs (entry # rest)). p < limit"
  proof -
    have "nc_inv (lo, s)" "offset < length ?P" using assms(1,2) le st by simp_all
    then show thesis by (rule access_start) (rule that)
  qed
  have "\<forall>p\<in>set (addrs (entry # rest)). p < 2 ^ 62" using e(7) limit_le by (meson order_less_le_trans)
  moreover have "n \<le> length (drop offset ?P)" using le by simp
  ultimately obtain reqs where reqs: "nc_read_loop (entry # rest) (start_offset_of offset entry) n = Inr reqs"
    "\<forall>(k, p)\<in>set reqs. 0 < k" "concat (map (\<lambda>(k, p). [p..<p + k]) reqs) = take n (drop offset ?P)"
    using nc_read_loop_ok [OF e(2,3) _ e(5) assms(2)] unfolding e(4) by blast
  have "\<forall>i<nc_size s. ?P ! i < size_of (nc_inner s)" using inv by blast
  then have below: "p < size_of (nc_inner s)" if "p \<in> set (take n (drop offset ?P))" for p
    using that assms(3) le st by (auto simp: in_set_conv_nth)
  have "p + k \<le> size_of (nc_inner s)" if kp: "(k, p) \<in> set reqs" for k p
  proof -
    have "0 < k" using kp reqs(2) by blast
    then have "p + k - 1 \<in> set [p..<p + k]" by simp
    then have "p + k - 1 \<in> set (concat (map (\<lambda>(k, p). [p..<p + k]) reqs))" using kp unfolding set_concat set_map by blast
    then have "p + k - 1 < size_of (nc_inner s)" unfolding reqs(3) by (rule below)
    then show ?thesis using \<open>0 < k\<close> by linarith
  qed
  then have "\<forall>(k, p)\<in>set reqs. 0 < k \<and> p + k \<le> size_of (nc_inner s)" using reqs(2) by blast
  from multi_read [OF _ this] have "MultiReadImpl read (nc_inner s) reqs =
      Inr (concat (map (\<lambda>(k, p). map (content (nc_inner s)) [p..<p + k]) reqs), True)" using inv by simp
  moreover have "concat (map (\<lambda>(k, p). map (content (nc_inner s)) [p..<p + k]) reqs) =
      map (content (nc_inner s)) (concat (map (\<lambda>(k, p). [p..<p + k]) reqs))"
    by (simp add: map_concat comp_def case_prod_unfold)
  moreover have "map (content (nc_inner s)) (take n (drop offset ?P)) = map (nc_content st) [offset..<offset + n]"
    using le st by (intro nth_equalityI) (simp_all add: nc_content_def)
  moreover have "u64 (n + offset) = offset + n" using le inv nc_limit(3) by simp
  ultimately show ?thesis using assms(3) st e(1) reqs(1,3)
    by (simp add: NonContinuousIO_ReadImpl_def Let_def del: nc_read_loop.simps)
qed

lemma nc_extend_ok:
  assumes "nc_inv (lo, s)" "need \<le> nc_limit"
  obtains x s' where "nc_extend need (lo, s) = (lo + x, s')" "nc_inv (lo + x, s')" "nc_size s' = nc_size s"
    "nc_inner s' = nc_inner s" "addrs (nc_areas s') = addrs (nc_areas s) @ [lo..<lo + x]"
    "need \<le> length (addrs (nc_areas s'))"
proof (cases "need > length (addrs (nc_areas s))")
  case False
  note inv = assms(1) [unfolded nc_inv_def, simplified]
  have "get_cur_max_size s = length (addrs (nc_areas s))" using inv by (intro get_cur_max_size_eq) blast
  then show thesis using that [of 0 s] False assms(1) by (simp add: nc_extend_def)
next
  case True
  note inv = assms(1) [unfolded nc_inv_def, simplified]
  define cap where "cap = length (addrs (nc_areas s))"
  define r where "r = round_4k (need - cap)"
  define s' where "s' = s\<lparr>nc_areas := nc_areas s @ [(\<lparr>area_offset = lo, area_size = r\<rparr>, cap + r)]\<rparr>"
  have cap: "get_cur_max_size s = cap" using inv unfolding cap_def by (intro get_cur_max_size_eq) blast
  have d: "4096 dvd cap" "cap \<le> nc_limit" "lo \<le> cap + nc_limit" using inv by (simp_all add: cap_def)
  have "r \<le> nc_limit - cap" unfolding r_def using assms(2) d(1) nc_limit(2) by (intro round_4k_mono) auto
  then have r: "cap + r \<le> nc_limit" "need - cap \<le> r" "4096 dvd r" "lo + r \<le> 2 ^ 62" "0 < r"
    using d round_4k [of "need - cap"] nc_limit(1) limit_le True by (auto simp: r_def cap_def)
  have "u64_sub need cap = need - cap" using True assms(2) nc_limit(3) by (intro u64_sub_le) (auto simp: cap_def)
  moreover have "need - cap \<le> 2 ^ 62" using assms(2) nc_limit(3) by simp
  moreover have "u64 (cap + r) = cap + r" using r(1) nc_limit(3) by simp
  ultimately have eq: "nc_extend need (lo, s) = (lo + r, s')"
    using True cap Require_eq [of "need - cap" lo] r(4) by (simp add: nc_extend_def s'_def r_def cap_def Let_def)
  have addrs: "addrs (nc_areas s') = addrs (nc_areas s) @ [lo..<lo + r]" by (simp add: s'_def)
  have len: "length (addrs (nc_areas s')) = cap + r" unfolding addrs by (simp add: cap_def)
  have posts: "posts_ok 0 (nc_areas s')" using inv r(5) by (simp add: s'_def posts_ok_append cap_def)
  have sorted: "sorted_wrt (<) (addrs (nc_areas s'))" unfolding addrs using inv by (auto simp: sorted_wrt_append)
  have below: "\<forall>p\<in>set (addrs (nc_areas s')). p < lo + r" unfolding addrs using inv by auto
  have idx: "\<forall>i<nc_size s. addrs (nc_areas s') ! i < size_of (nc_inner s)" unfolding addrs using inv by (simp add: nth_append)
  have "nc_inv (lo + r, s')" unfolding nc_inv_def prod.case len
    using posts sorted below idx r d inv by (simp add: s'_def cap_def)
  then show thesis using that [of r s'] eq addrs len r(2) by (simp add: s'_def)
qed

lemma nc_write:
  assumes "nc_inv (lo, s)" "data \<noteq> []" "offset + length data \<le> nc_limit"
  defines "n \<equiv> length data"
  shows "\<exists>st'. NonContinuousIO_WriteImpl wr data offset (lo, s) = Inr st' \<and> nc_inv st' \<and>
    nc_size (snd st') = max (nc_size s) (offset + n) \<and>
    (\<exists>x. fst st' = lo + x \<and> addrs (nc_areas (snd st')) = addrs (nc_areas s) @ [lo..<lo + x]) \<and>
    (\<forall>i<n. nc_content st' (offset + i) = data ! i) \<and>
    (\<forall>i<nc_size s. i < offset \<or> offset + n \<le> i \<longrightarrow> nc_content st' i = nc_content (lo, s) i)"
proof -
  have u: "u64 (n + offset) = offset + n" "u64 (offset + n) = offset + n" using assms(3) nc_limit(3) by (simp_all add: n_def)
  have "offset + n \<le> nc_limit" using assms(3) by (simp add: n_def)
  then obtain x s' where ext: "nc_extend (offset + n) (lo, s) = (lo + x, s')" "nc_inv (lo + x, s')" "nc_size s' = nc_size s"
    "nc_inner s' = nc_inner s" "addrs (nc_areas s') = addrs (nc_areas s) @ [lo..<lo + x]" "offset + n \<le> length (addrs (nc_areas s'))"
    by (rule nc_extend_ok [OF assms(1)])
  define P where "P = addrs (nc_areas s')"
  note inv = ext(2) [unfolded nc_inv_def, simplified, folded P_def]
  have "0 < n" using assms(2) by (simp add: n_def)
  then have n: "0 < n" "offset < length P" using ext(6) unfolding P_def by linarith+
  obtain entry rest c where e: "get_area s' offset = entry # rest"
    "area_offset (fst entry) \<le> start_offset_of offset entry"
    "start_offset_of offset entry < area_offset (fst entry) + area_size (fst entry)"
    "drop offset P = drop (start_offset_of offset entry - area_offset (fst entry)) (addrs (entry # rest))"
    "posts_ok c (entry # rest)" "sorted_wrt (<) (addrs (entry # rest))" "\<forall>p\<in>set (addrs (entry # rest)). p < limit"
    using ext(2) n(2) unfolding P_def by (rule access_start)
  define A where "A = take n (drop offset P)"
  have "inv (nc_inner s)" using inv ext(4) by simp
  moreover have "n \<le> length (drop offset P)" using ext(6) by (simp add: P_def)
  ultimately obtain inner' where w: "nc_write_loop wr (entry # rest) (start_offset_of offset entry) data (nc_inner s) = Inr inner'"
    "put_at (nc_inner s) A data inner'"
    using nc_write_loop_ok [OF _ e(2,3,7,5,6) assms(2)] unfolding A_def e(4) n_def by blast
  note put = w(2) [unfolded put_at_def, folded n_def]
  define st' where "st' = (lo + x, s'\<lparr>nc_inner := inner', nc_size := max (nc_size s) (offset + n)\<rparr>)"
  have run: "NonContinuousIO_WriteImpl wr data offset (lo, s) = Inr st'"
    using u ext(1,3,4) e(1) w(1)
    by (simp add: NonContinuousIO_WriteImpl_def st'_def n_def max_def not_less del: nc_write_loop.simps)
  have A: "A ! i = P ! (offset + i)" if "i < n" for i using that ext(6) by (simp add: A_def P_def)
  have lenA: "length A = n" using put by blast
  then have last: "last A = P ! (offset + n - 1)" using A [of "n - 1"] n(1) by (subst last_conv_nth) auto
  have sorted: "sorted_wrt (<) P" using inv by blast
  have "P ! i < size_of inner'" if i: "i < max (nc_size s) (offset + n)" for i
  proof (cases "i < nc_size s")
    case True
    then show ?thesis using inv ext(3,4) put by auto
  next
    case False
    then have "i \<le> offset + n - 1" using i by auto
    moreover have "offset + n - 1 < length P" using ext(6) n(1) unfolding P_def by linarith
    ultimately have "P ! i \<le> last A" unfolding last
      using sorted_wrt_nth_less [OF sorted, of i "offset + n - 1"] by (cases "i = offset + n - 1") auto
    then show ?thesis using put by simp
  qed
  then have inv': "nc_inv st'"
    using inv put ext(3,6) unfolding nc_inv_def st'_def prod.case by (simp add: P_def [symmetric])
  have new: "nc_content st' (offset + i) = data ! i" if "i < n" for i
  proof -
    have "content inner' (A ! i) = data ! i" using put that by blast
    then show ?thesis unfolding A [OF that] by (simp add: nc_content_def st'_def P_def)
  qed
  have "nc_content st' i = nc_content (lo, s) i" if i: "i < nc_size s" "i < offset \<or> offset + n \<le> i" for i
  proof -
    have iP: "i < length P" using i(1) inv ext(3) by simp
    have "P ! i \<notin> set A"
    proof
      assume "P ! i \<in> set A"
      then obtain j where "j < n" "P ! i = P ! (offset + j)" using lenA A by (metis in_set_conv_nth)
      moreover have "offset + j < length P" using \<open>j < n\<close> ext(6) by (simp add: P_def)
      moreover have "distinct P" using sorted by (simp add: strict_sorted_iff)
      ultimately show False using i(2) iP nth_eq_iff_index_eq [of P i "offset + j"] by simp
    qed
    moreover have "P ! i < size_of (nc_inner s)" using inv i(1) ext(3,4) by simp
    ultimately have "content inner' (P ! i) = content (nc_inner s) (P ! i)" using put by blast
    moreover have "P ! i = addrs (nc_areas s) ! i"
      using i(1) ext(5) assms(1) unfolding nc_inv_def by (simp add: P_def nth_append)
    ultimately show ?thesis by (simp add: nc_content_def st'_def P_def)
  qed
  moreover have "\<exists>x. fst st' = lo + x \<and> addrs (nc_areas (snd st')) = addrs (nc_areas s) @ [lo..<lo + x]"
    using ext(5) by (auto simp: st'_def)
  moreover have "nc_size (snd st') = max (nc_size s) (offset + n)" by (simp add: st'_def)
  ultimately show ?thesis using run inv' new by blast
qed

end

text \<open>So a store over a store is a store.\<close>

sublocale nc_store \<subseteq> nc: byte_io "NonContinuousIO_WriteImpl wr" "NonContinuousIO_ReadImpl read" "\<lambda>st. nc_size (snd st)"
  nc_content nc_inv nc_limit
proof (unfold_locales, goal_cases)
  case (1 st data offset)
  then obtain st' where "NonContinuousIO_WriteImpl wr data offset st = Inr st'" "nc_inv st'"
    "nc_size (snd st') = max (nc_size (snd st)) (offset + length data)"
    "\<forall>i<length data. nc_content st' (offset + i) = data ! i"
    "\<forall>i<nc_size (snd st). i < offset \<or> offset + length data \<le> i \<longrightarrow> nc_content st' i = nc_content st i"
    using nc_write [of "fst st" "snd st" data offset] unfolding prod.collapse by blast
  then show ?case by blast
next
  case (2 st n offset)
  then show ?case by (rule nc_read)
next
  case (3 st n offset)
  then have "u64 (n + offset) = offset + n" using nc_limit(3) by simp
  then show ?case using 3(3) by (simp add: NonContinuousIO_ReadImpl_def Let_def)
next
  case (4 st)
  then show ?case by (auto simp: nc_inv_def)
next
  case 5
  then show ?case using nc_limit(3) by simp
qed

interpretation nc_mem: nc_store "MemoryIO_WriteImpl fresh" MemoryIO_ReadImpl mio_size "\<lambda>s. (!) (mio_buffer s)" mio_inv "2 ^ 62"
  for fresh
  by unfold_locales

interpretation nc_block: nc_store "MemoryBlockIO_WriteImpl fresh" MemoryBlockIO_ReadImpl mbio_size mbio_content mbio_inv "2 ^ 62"
  for fresh
  by unfold_locales

context nc_store
begin

lemma nc_new: "inv inner \<Longrightarrow> lo \<le> nc_limit \<Longrightarrow> nc_inv (lo, NonContinuousIO_new inner)"
  by (simp add: nc_inv_def NonContinuousIO_new_def)

lemma mapping_offset_ok:
  assumes "nc_inv (lo, s)" "offset < length (addrs (nc_areas s))"
  shows "mapping_offset s offset = Inr (addrs (nc_areas s) ! offset)"
proof -
  note inv = assms(1) [unfolded nc_inv_def, simplified]
  obtain entry rest pre where e: "get_area s offset = entry # rest"
    "area_size (fst entry) \<le> snd entry" "snd entry - area_size (fst entry) \<le> offset" "offset < snd entry"
    "snd entry \<le> length (addrs (nc_areas s))"
    "drop offset (addrs (nc_areas s)) = drop (offset - (snd entry - area_size (fst entry))) (addrs (entry # rest))"
    "nc_areas s = pre @ entry # rest"
    using area_found [of 0 "nc_areas s" offset] inv assms(2) by (auto simp: get_area_def simp del: addrs_simps(2))
  define j where "j = offset - (snd entry - area_size (fst entry))"
  have j: "j < area_size (fst entry)" using e(2-4) by (simp add: j_def)
  have "addrs (nc_areas s) ! offset = drop offset (addrs (nc_areas s)) ! 0" using assms(2) by simp
  also have "\<dots> = area_offset (fst entry) + j"
    unfolding e(6) j_def [symmetric] using j by (simp add: nth_append)
  finally have p: "addrs (nc_areas s) ! offset = area_offset (fst entry) + j" .
  have "snd entry < 2 ^ 64" "offset < 2 ^ 64" using e(4,5) inv nc_limit(3) by simp_all
  then have "u64_sub offset (u64_sub (snd entry) (area_size (fst entry))) = j"
    using e(2,3) by (simp add: u64_sub_le j_def)
  moreover have "addrs (nc_areas s) ! offset < 2 ^ 64"
  proof -
    have "addrs (nc_areas s) ! offset \<in> set (addrs (nc_areas s))" using assms(2) by simp
    then have "addrs (nc_areas s) ! offset < lo" using inv by blast
    then show ?thesis using inv nc_limit(3) by simp
  qed
  ultimately show ?thesis using e(1) p by (simp add: mapping_offset_def)
qed

text \<open>Two stores on one allocator.\<close>

definition nc_apart :: "nat \<times> 'a non_continuous_io \<times> 'a non_continuous_io \<Rightarrow> bool" where
  "nc_apart = (\<lambda>(lo, a, b). nc_inv (lo, a) \<and> nc_inv (lo, b) \<and>
     lo = length (addrs (nc_areas a)) + length (addrs (nc_areas b)) \<and>
     set (addrs (nc_areas a)) \<inter> set (addrs (nc_areas b)) = {})"

lemma nc_apart_step:
  assumes "nc_apart (lo, a, b)" "data \<noteq> []" "offset + length data \<le> nc_limit"
  shows "\<exists>lo' a'. NonContinuousIO_WriteImpl wr data offset (lo, a) = Inr (lo', a') \<and> nc_apart (lo', a', b)"
proof -
  note ap = assms(1) [unfolded nc_apart_def prod.case]
  obtain st' x where w: "NonContinuousIO_WriteImpl wr data offset (lo, a) = Inr st'" "nc_inv st'"
    "fst st' = lo + x" "addrs (nc_areas (snd st')) = addrs (nc_areas a) @ [lo..<lo + x]"
    using nc_write [of lo a data offset] ap assms(2,3) by blast
  obtain a' where st': "st' = (lo + x, a')" using w(3) by (cases st') auto
  have "nc_inv (lo + x, a')" "addrs (nc_areas a') = addrs (nc_areas a) @ [lo..<lo + x]" using w(2,4) st' by simp_all
  note inv' = this(1) and eq = this(2)
  have le: "length (addrs (nc_areas a')) \<le> nc_limit" "nc_inv (lo, b)"
  proof -
    show "length (addrs (nc_areas a')) \<le> nc_limit" using inv' unfolding nc_inv_def prod.case by blast
  qed (use ap in blast)
  have lo: "lo + x = length (addrs (nc_areas a')) + length (addrs (nc_areas b))" using ap eq by simp
  have "\<forall>p\<in>set (addrs (nc_areas b)). p < lo" using le(2) by (simp add: nc_inv_def)
  then have below: "\<forall>p\<in>set (addrs (nc_areas b)). p < lo + x" and "set [lo..<lo + x] \<inter> set (addrs (nc_areas b)) = {}" by fastforce+
  then have "set (addrs (nc_areas a')) \<inter> set (addrs (nc_areas b)) = {}" using ap unfolding eq by auto
  moreover have "nc_inv (lo + x, b)" using le below lo unfolding nc_inv_def by simp
  ultimately show ?thesis using w(1) st' inv' lo by (auto simp: nc_apart_def)
qed

end

section \<open>Properties\<close>

text \<open>A sequence of writes to two stores that share an allocator; the flag chooses the store.\<close>

definition shared_write ::
  "(bytes \<Rightarrow> nat \<Rightarrow> 's \<Rightarrow> 's result) \<Rightarrow> bool \<times> bytes \<times> nat \<Rightarrow>
     nat \<times> 's non_continuous_io \<times> 's non_continuous_io \<Rightarrow> (nat \<times> 's non_continuous_io \<times> 's non_continuous_io) result" where
  "shared_write inner_write = (\<lambda>(first, data, offset) (lo, a, b).
     if first then bindR (NonContinuousIO_WriteImpl inner_write data offset (lo, a)) (\<lambda>(lo, a). Inr (lo, a, b))
     else bindR (NonContinuousIO_WriteImpl inner_write data offset (lo, b)) (\<lambda>(lo, b). Inr (lo, a, b)))"

context nc_store
begin

lemma nc_apart_sym: "nc_apart (lo, a, b) \<Longrightarrow> nc_apart (lo, b, a)"
  by (auto simp: nc_apart_def)

lemma shared_writes:
  assumes "nc_apart st" "\<forall>(first, data, offset)\<in>set ops. data \<noteq> [] \<and> offset + length data \<le> nc_limit"
  shows "\<exists>st'. foldR (shared_write wr) ops st = Inr st' \<and> nc_apart st'"
proof (rule foldR_invariant [where P = nc_apart, OF assms(1)])
  fix op and st1 :: "nat \<times> 'a non_continuous_io \<times> 'a non_continuous_io"
  assume "op \<in> set ops" "nc_apart st1"
  moreover obtain first data offset lo a b where "op = (first, data, offset)" "st1 = (lo, a, b)" by (metis prod.exhaust)
  ultimately have st1: "nc_apart (lo, a, b)" "nc_apart (lo, b, a)" "data \<noteq> []" "offset + length data \<le> nc_limit"
    "op = (first, data, offset)" "st1 = (lo, a, b)" using assms(2) nc_apart_sym by auto
  show "\<exists>st'. shared_write wr op st1 = Inr st' \<and> nc_apart st'"
  proof (cases first)
    case True
    then show ?thesis using nc_apart_step [OF st1(1,3,4)] st1(5,6) by (auto simp: shared_write_def)
  next
    case False
    then show ?thesis using nc_apart_step [OF st1(2-4)] nc_apart_sym st1(5,6) by (fastforce simp: shared_write_def)
  qed
qed

lemma apart_mapping:
  assumes "nc_apart (lo, a, b)" "i < nc_size a" "j < nc_size b"
  shows "\<exists>p q. mapping_offset a i = Inr p \<and> mapping_offset b j = Inr q \<and> p \<noteq> q"
proof -
  note ap = assms(1) [unfolded nc_apart_def prod.case]
  have "i < length (addrs (nc_areas a))" "j < length (addrs (nc_areas b))"
    using ap assms(2,3) by (auto simp: nc_inv_def)
  moreover from this have "addrs (nc_areas a) ! i \<noteq> addrs (nc_areas b) ! j" using ap nth_mem by (metis IntI empty_iff)
  ultimately show ?thesis using ap mapping_offset_ok by blast
qed

end

lemma nc_block_limit: "nc_block.nc_limit = 2 ^ 61"
  unfolding nc_block.nc_limit_def by simp

text \<open>
  Claim C15. A non-continuous store over a block store behaves like one buffer: after any sequence of
  non-empty writes below \<open>2 ^ 61\<close> it has the size of a plain memory store with the same writes, a
  read of written bytes (over any number of areas and blocks) returns the bytes written last, and a
  read beyond the size fails. This holds whatever other stores have already taken from the
  allocator, up to \<open>2 ^ 61\<close> bytes.
\<close>

theorem NonContinuousIO_refines_bytes:
  assumes "mbio_inv inner" "lo \<le> 2 ^ 61"
    and "\<forall>(data, offset)\<in>set ws. data \<noteq> [] \<and> offset + length data \<le> 2 ^ 61"
  defines "spec \<equiv> fold spec_write ws (\<lambda>i. None)"
  shows "\<exists>lo' s. foldR (\<lambda>(data, offset). NonContinuousIO_WriteImpl (MemoryBlockIO_WriteImpl fresh) data offset) ws
      (lo, NonContinuousIO_new inner) = Inr (lo', s) \<and>
    nc_size s = fold (\<lambda>(data, offset). max (offset + length data)) ws 0 \<and>
    (\<forall>n offset. 0 < n \<longrightarrow> (\<forall>i. offset \<le> i \<and> i < offset + n \<longrightarrow> i \<in> dom spec) \<longrightarrow>
       NonContinuousIO_ReadImpl MemoryBlockIO_ReadImpl (lo', s) n offset =
         Inr (Some (map (the \<circ> spec) [offset..<offset + n]))) \<and>
    (\<forall>n offset. 0 < n \<longrightarrow> nc_size s < offset + n \<longrightarrow> offset + n \<le> 2 ^ 61 \<longrightarrow>
       NonContinuousIO_ReadImpl MemoryBlockIO_ReadImpl (lo', s) n offset = Inr None)"
proof -
  have new: "nc_block.nc_inv (lo, NonContinuousIO_new inner)"
    using nc_block.nc_new [OF assms(1), of lo] assms(2) nc_block_limit by simp
  have ws: "\<forall>(data, offset)\<in>set ws. data \<noteq> [] \<and> offset + length data \<le> nc_block.nc_limit"
    using assms(3) nc_block_limit by simp
  obtain lo' s where s: "foldR (\<lambda>(data, offset). NonContinuousIO_WriteImpl (MemoryBlockIO_WriteImpl fresh) data offset) ws
      (lo, NonContinuousIO_new inner) = Inr (lo', s)" "nc_block.nc_inv (lo', s)"
    "nc_size s = fold (\<lambda>(data, offset). max (offset + length data)) ws 0"
    "\<forall>i\<in>dom spec. i < nc_size s \<and> spec i = Some (nc_block.nc_content (lo', s) i)"
    using nc_block.nc.write_all [where fresh = fresh, OF new ws, of "\<lambda>i. None"]
    unfolding spec_def by (auto simp: NonContinuousIO_new_def)
  have "NonContinuousIO_ReadImpl MemoryBlockIO_ReadImpl (lo', s) n offset =
      Inr (Some (map (the \<circ> spec) [offset..<offset + n]))"
    if n: "0 < n" and w: "\<forall>i. offset \<le> i \<and> i < offset + n \<longrightarrow> i \<in> dom spec" for n offset
  proof -
    have "offset + n - 1 \<in> dom spec" using n w by auto
    then have "offset + n - 1 < nc_size s" using s(4) by blast
    then have le: "offset + n \<le> nc_size (snd (lo', s))" using n by simp
    have "\<forall>i. offset \<le> i \<and> i < offset + n \<longrightarrow> spec i = Some (nc_block.nc_content (lo', s) i)" using w s(4) by blast
    then show ?thesis using nc_block.nc.read_ok [OF s(2) n le] read_written [OF refl, of offset n spec "nc_block.nc_content (lo', s)"]
      by simp
  qed
  then show ?thesis using s(1,3) nc_block.nc.read_short [OF s(2)] nc_block_limit by auto
qed

theorem NonContinuousIO_refines_bytes_witness:
  "\<exists>lo' s. NonContinuousIO_WriteImpl (MemoryBlockIO_WriteImpl (\<lambda>_. 0)) [1, 2, 3] 5
      (4096, NonContinuousIO_new (MemoryBlockIO_new 8)) = Inr (lo', s) \<and>
    nc_size s = 8 \<and> NonContinuousIO_ReadImpl MemoryBlockIO_ReadImpl (lo', s) 2 6 = Inr (Some [2, 3])"
proof -
  let ?ws = "[([1, 2, 3], 5)] :: (bytes \<times> nat) list"
  let ?spec = "fold spec_write ?ws (\<lambda>i. None)"
  obtain lo' s where s: "foldR (\<lambda>(data, offset). NonContinuousIO_WriteImpl (MemoryBlockIO_WriteImpl (\<lambda>_. 0)) data offset) ?ws
      (4096, NonContinuousIO_new (MemoryBlockIO_new 8)) = Inr (lo', s)" "nc_size s = 8"
    "\<forall>n offset. 0 < n \<longrightarrow> (\<forall>i. offset \<le> i \<and> i < offset + n \<longrightarrow> i \<in> dom ?spec) \<longrightarrow>
       NonContinuousIO_ReadImpl MemoryBlockIO_ReadImpl (lo', s) n offset = Inr (Some (map (the \<circ> ?spec) [offset..<offset + n]))"
    using NonContinuousIO_refines_bytes [OF mbio_new(1), of 8 4096 ?ws "\<lambda>_. 0"] by auto
  have dom: "\<forall>i. 6 \<le> i \<and> i < 6 + 2 \<longrightarrow> i \<in> dom ?spec" by (auto simp: spec_write_def)
  have "map (the \<circ> ?spec) [6..<6 + 2] = [2, 3]" by (simp add: spec_write_def upt_rec)
  with s(3) [rule_format, of 2 6] dom have "NonContinuousIO_ReadImpl MemoryBlockIO_ReadImpl (lo', s) 2 6 = Inr (Some [2, 3])" by auto
  moreover have "NonContinuousIO_WriteImpl (MemoryBlockIO_WriteImpl (\<lambda>_. 0)) [1, 2, 3] 5
      (4096, NonContinuousIO_new (MemoryBlockIO_new 8)) = Inr (lo', s)" using s(1) by (auto simp: bindR_Inr_iff)
  ultimately show ?thesis using s(2) by blast
qed

text \<open>
  Claim C33. Stores that share an allocator never touch the same physical byte: after any interleaving
  of writes to two of them, every logical offset of the one and every logical offset of the other
  are mapped to different physical offsets.
\<close>

theorem NonContinuousIO_stores_apart:
  assumes "mio_inv i1" "mio_inv i2"
    and "\<forall>(first, data, offset)\<in>set ops. data \<noteq> [] \<and> offset + length data \<le> 2 ^ 61"
  shows "\<exists>lo a b. foldR (shared_write (MemoryIO_WriteImpl fresh)) ops
      (0, NonContinuousIO_new i1, NonContinuousIO_new i2) = Inr (lo, a, b) \<and>
    (\<forall>i j. i < nc_size a \<longrightarrow> j < nc_size b \<longrightarrow>
       (\<exists>p q. mapping_offset a i = Inr p \<and> mapping_offset b j = Inr q \<and> p \<noteq> q))"
proof -
  have "nc_mem.nc_apart (0, NonContinuousIO_new i1, NonContinuousIO_new i2)"
    using nc_mem.nc_new [OF assms(1), of 0] nc_mem.nc_new [OF assms(2), of 0]
    unfolding nc_mem.nc_apart_def by (simp add: NonContinuousIO_new_def)
  moreover have "\<forall>(first, data, offset)\<in>set ops. data \<noteq> [] \<and> offset + length data \<le> nc_mem.nc_limit"
    using assms(3) unfolding nc_mem.nc_limit_def by simp
  ultimately obtain st where "foldR (shared_write (MemoryIO_WriteImpl fresh)) ops
      (0, NonContinuousIO_new i1, NonContinuousIO_new i2) = Inr st" "nc_mem.nc_apart st"
    using nc_mem.shared_writes [where fresh = fresh] by blast
  then show ?thesis using nc_mem.apart_mapping by (cases st) blast
qed

theorem NonContinuousIO_stores_apart_witness:
  "\<exists>lo a b. foldR (shared_write (MemoryIO_WriteImpl (\<lambda>_. 0))) [(True, [1], 0), (False, [2, 3], 0), (True, [4], 4096)]
      (0, NonContinuousIO_new (MemoryIO_new (\<lambda>_. 0)), NonContinuousIO_new (MemoryIO_new (\<lambda>_. 0))) = Inr (lo, a, b) \<and>
    (\<forall>i j. i < nc_size a \<longrightarrow> j < nc_size b \<longrightarrow>
       (\<exists>p q. mapping_offset a i = Inr p \<and> mapping_offset b j = Inr q \<and> p \<noteq> q))"
  using NonContinuousIO_stores_apart [OF mio_new(1) mio_new(1),
    of "[(True, [1], 0), (False, [2, 3], 0), (True, [4], 4096)]" "\<lambda>_. 0" "\<lambda>_. 0" "\<lambda>_. 0"] by simp

text \<open>
  An access of length 0 to a fresh non-continuous store follows the end iterator of the
  empty area table, both when reading and when writing; the plain stores return normally.
\<close>

lemma NonContinuousIO_empty_access_UB:
  "NonContinuousIO_WriteImpl inner_write [] 0 (lo, NonContinuousIO_new inner) = Inl UB \<and>
   NonContinuousIO_ReadImpl inner_read (lo, NonContinuousIO_new inner) 0 0 = Inl UB \<and>
   MemoryIO_WriteImpl fresh [] 0 (MemoryIO_new fresh) = Inr (MemoryIO_new fresh) \<and>
   MemoryIO_ReadImpl (MemoryIO_new fresh) 0 0 = Inr (Some [])"
  by (simp add: NonContinuousIO_WriteImpl_def NonContinuousIO_ReadImpl_def NonContinuousIO_new_def nc_extend_def
      get_cur_max_size_def get_area_def MemoryIO_WriteImpl_def MemoryIO_check_and_realloc_def MemoryIO_ReadImpl_def
      MemoryIO_new_def blit_def)

end
