(* ===== verification/EliasFano.thy ===== *)
theory EliasFano
  imports Streams
begin

text \<open>
  \<open>src/impl/elias_fano_encoder.{h,cpp}\<close>: the compressed form of a sorted neighbour list. An
  element is split at \<open>low_bits_width\<close>; its low part is packed at a fixed width, which may
  cross a word boundary, and its high part is unary: bit \<open>i + high\<close> of the upper array is set
  for element \<open>i\<close>. Both arrays share one buffer of 64-bit words. The file proves that
  decoding returns the list that was encoded and that neither direction leaves the buffer.
\<close>

unbundle bit_operations_syntax

section \<open>State and operations\<close>

text \<open>The four counters are \<open>uint8_t\<close>; a null \<open>bits\<close> is the empty list.\<close>

record elias_fano =
  ef_bits :: "64 word list"
  ef_num_elements :: nat
  ef_low_bits_width :: nat
  ef_low_bits_size :: nat
  ef_high_bits_size :: nat

definition EliasFano_new :: elias_fano where
  "EliasFano_new = \<lparr>ef_bits = [], ef_num_elements = 0, ef_low_bits_width = 0,
     ef_low_bits_size = 0, ef_high_bits_size = 0\<rparr>"

definition EliasFano_Clear :: "elias_fano \<Rightarrow> elias_fano" where
  "EliasFano_Clear e = e\<lparr>ef_bits := [], ef_num_elements := 0, ef_low_bits_width := 0,
     ef_low_bits_size := 0, ef_high_bits_size := 0\<rparr>"

definition EliasFano_Size :: "elias_fano \<Rightarrow> nat" where
  "EliasFano_Size e = ef_num_elements e"

text \<open>Count of trailing zeros.\<close>

definition ctzll :: "64 word \<Rightarrow> nat" where
  "ctzll x = length (takeWhile (\<lambda>i. \<not> bit x i) [0..<64])"

definition set_high_bit :: "64 word list \<Rightarrow> nat \<Rightarrow> nat \<Rightarrow> 64 word list result" where
  "set_high_bit bits_array pos low_bits_size =
     (let i = low_bits_size + pos div 64
      in if i < length bits_array
         then Inr (bits_array[i := bits_array ! i OR push_bit (pos mod 64) 1])
         else Inl UB)"

definition set_low_bits :: "elias_fano \<Rightarrow> nat \<Rightarrow> nat \<Rightarrow> elias_fano result" where
  "set_low_bits e index val =
     (let w = ef_low_bits_width e; bits = ef_bits e in
      if w = 0 then Inr e
      else
        let bit_pos = index * w;
            word_pos = bit_pos div 64;
            shift = bit_pos mod 64;
            mask1 = push_bit shift (2 ^ w - 1)
        in if word_pos \<ge> length bits then Inl UB
           else
             let bits1 = bits[word_pos := (bits ! word_pos AND NOT mask1) OR push_bit shift (of_nat val)]
             in if shift + w > 64 \<and> word_pos + 1 < ef_low_bits_size e then
                  (let remaining_bits = shift + w - 64;
                       mask2 = 2 ^ remaining_bits - 1
                   in if word_pos + 1 \<ge> length bits1 then Inl UB
                      else Inr (e\<lparr>ef_bits := bits1[word_pos + 1 :=
                             (bits1 ! (word_pos + 1) AND NOT mask2) OR
                             of_nat (drop_bit (w - remaining_bits) val)]\<rparr>))
                else Inr (e\<lparr>ef_bits := bits1\<rparr>))"

definition get_low_bits :: "elias_fano \<Rightarrow> nat \<Rightarrow> nat result" where
  "get_low_bits e index =
     (let w = ef_low_bits_width e; bits = ef_bits e in
      if w = 0 then Inr 0
      else
        let bit_pos = index * w;
            word_pos = bit_pos div 64;
            shift = bit_pos mod 64
        in if word_pos \<ge> length bits then Inl UB
           else
             let v = drop_bit shift (bits ! word_pos) AND (2 ^ w - 1)
             in if shift + w > 64 \<and> word_pos + 1 < ef_low_bits_size e then
                  (let remaining_bits = shift + w - 64
                   in if word_pos + 1 \<ge> length bits then Inl UB
                      else Inr (u32 (unat (v OR push_bit (w - remaining_bits)
                             (bits ! (word_pos + 1) AND (2 ^ remaining_bits - 1))))))
                else Inr (u32 (unat v)))"

text \<open>
  \<open>std::floor(std::log2(static_cast<double>(universe) / num_elements))\<close>. With
  \<open>universe < 2 ^ 32\<close> and \<open>num_elements < 2 ^ 8\<close> the quotient is at least a factor
  \<open>1 - 2 ^ -40\<close> away from the next power of two, more than the rounding of the division and of
  \<open>log2\<close>, so the result is the exact integer logarithm. For \<open>universe < num_elements\<close> it is
  negative and its conversion to an unsigned integer is undefined.
\<close>

fun floor_log2 :: "nat \<Rightarrow> nat" where
  "floor_log2 n = (if n < 2 then 0 else Suc (floor_log2 (n div 2)))"

declare floor_log2.simps [simp del]

definition EliasFano_encode_one :: "nat \<Rightarrow> nat \<Rightarrow> elias_fano \<Rightarrow> elias_fano result" where
  "EliasFano_encode_one i x e =
     (let w = ef_low_bits_width e;
          high = drop_bit w x;
          low = x AND (2 ^ w - 1)
      in bindR (set_high_bit (ef_bits e) (i + high) (ef_low_bits_size e)) (\<lambda>bits.
         set_low_bits (e\<lparr>ef_bits := bits\<rparr>) i low))"

definition EliasFano_Encode :: "nat list \<Rightarrow> nat \<Rightarrow> elias_fano \<Rightarrow> elias_fano result" where
  "EliasFano_Encode values max_value e0 =
     (let e = EliasFano_Clear e0 in
      if values = [] then Inr e
      else if length values > 255 then Inl (Throw INVALID_ARGUMENT)
      else
        let n = length values;
            universe = u32 (max_value + 1)
        in if universe < n then Inl UB
           else
             let w = floor_log2 (universe div n);
                 high_bits_count = drop_bit w max_value + n + 1;
                 high_size = u8 ((high_bits_count + 63) div 64);
                 total_low_bits = n * w;
                 low_size = u8 (max 1 ((total_low_bits + 63) div 64))
             in foldR (\<lambda>i. EliasFano_encode_one i (values ! i)) [0..<n]
                  \<lparr>ef_bits = replicate (low_size + high_size) 0, ef_num_elements = n,
                   ef_low_bits_width = w, ef_low_bits_size = low_size, ef_high_bits_size = high_size\<rparr>)"

text \<open>
  \<open>DecompressAll\<close>: the inner loop takes the set bits of one word from the lowest up
  (\<open>word &= word - 1\<close>), the outer loop runs over the words of the upper array. \<open>acc\<close> holds
  the values found so far, so \<open>count\<close> is its length.
\<close>

lemma unat_clear_lowest: "word \<noteq> 0 \<Longrightarrow> unat (word AND (word - 1)) < unat (word :: 64 word)"
proof -
  assume "word \<noteq> 0"
  have "unat (word AND (word - 1)) \<le> unat (word - 1)"
    using word_and_le1 [of word "word - 1"] by (simp add: word_le_nat_alt)
  also have "\<dots> < unat word"
    using \<open>word \<noteq> 0\<close> by (simp add: unat_minus_one unat_gt_0)
  finally show ?thesis .
qed

function decompress_word :: "elias_fano \<Rightarrow> nat \<Rightarrow> 64 word \<Rightarrow> nat list \<Rightarrow> nat list result" where
  "decompress_word e i word acc =
     (if word \<noteq> 0 \<and> length acc < ef_num_elements e then
        let bit_no = ctzll word;
            high = u32 (u64_sub (i * 64 + bit_no) (length acc))
        in bindR (get_low_bits e (length acc)) (\<lambda>low.
             decompress_word e i (word AND (word - 1))
               (acc @ [u32 (push_bit (ef_low_bits_width e) high) OR low]))
      else Inr acc)"
  by pat_completeness auto
termination
  by (relation "measure (\<lambda>(e, i, word, acc). unat word)") (auto simp: unat_clear_lowest)

declare decompress_word.simps [simp del]

definition EliasFano_DecompressAll :: "elias_fano \<Rightarrow> nat list result" where
  "EliasFano_DecompressAll e =
     bindR (foldR (\<lambda>i acc.
         if length acc < ef_num_elements e then
           (if ef_low_bits_size e + i < length (ef_bits e)
            then decompress_word e i (ef_bits e ! (ef_low_bits_size e + i)) acc
            else Inl UB)
         else Inr acc) [0..<ef_high_bits_size e] [])
       (\<lambda>acc. Inr (vec_resize (ef_num_elements e) 0 acc))"

definition EliasFano_SizeInBytes :: "nat \<Rightarrow> elias_fano \<Rightarrow> nat" where
  "EliasFano_SizeInBytes sizeof_EliasFanoEncoder e =
     sizeof_EliasFanoEncoder + (ef_low_bits_size e + ef_high_bits_size e) * 8"


section \<open>The buffer as one string of bits\<close>

definition bitat :: "64 word list \<Rightarrow> nat \<Rightarrow> bool" where
  "bitat ws p = bit (ws ! (p div 64)) (p mod 64)"

lemma split64: "p = 64 * (p div 64) + p mod (64 :: nat)" "p mod 64 < (64 :: nat)"
  by simp_all

lemma bit_nat_less: "(v :: nat) < 2 ^ w \<Longrightarrow> bit v j \<Longrightarrow> j < w"
  by (metis bit_take_bit_iff take_bit_nat_eq_self_iff)

lemma bit_write_field:
  assumes "v < 2 ^ w" "k < 64"
  shows "bit ((x AND NOT (push_bit s (2 ^ w - 1))) OR push_bit s (of_nat v) :: 64 word) k \<longleftrightarrow>
    (if s \<le> k \<and> k < s + w then bit v (k - s) else bit x k)"
proof -
  have "(2 ^ w - 1 :: 64 word) = mask w" by (simp add: mask_eq_exp_minus_1)
  then show ?thesis using assms bit_nat_less [OF assms(1), of "k - s"]
    by (auto simp: bit_simps)
qed

lemma set_high_bit_ok:
  assumes "L + pos div 64 < length ws"
  shows "\<exists>ws'. set_high_bit ws pos L = Inr ws' \<and> length ws' = length ws \<and>
    (\<forall>p < 64 * length ws. bitat ws' p \<longleftrightarrow> bitat ws p \<or> p = 64 * L + pos)"
proof -
  define ws' where "ws' = ws[L + pos div 64 := ws ! (L + pos div 64) OR push_bit (pos mod 64) 1]"
  have "bitat ws' p \<longleftrightarrow> bitat ws p \<or> p = 64 * L + pos" for p
  proof (cases "p div 64 = L + pos div 64")
    case True
    then have "p = 64 * L + pos \<longleftrightarrow> p mod 64 = pos mod 64"
      using split64 [of p] split64 [of pos] by linarith
    then show ?thesis using True assms by (auto simp: bitat_def ws'_def bit_simps)
  next
    case False
    then have "p \<noteq> 64 * L + pos" by auto
    then show ?thesis using False by (simp add: bitat_def ws'_def)
  qed
  then show ?thesis using assms
    by (intro exI [of _ ws']) (simp add: set_high_bit_def Let_def ws'_def)
qed

lemma set_low_bits_ok:
  assumes "val < 2 ^ ef_low_bits_width e" "ef_low_bits_width e \<le> 32"
    and "Suc index * ef_low_bits_width e \<le> 64 * ef_low_bits_size e"
    and "ef_low_bits_size e \<le> length (ef_bits e)"
  shows "\<exists>ws'. set_low_bits e index val = Inr (e\<lparr>ef_bits := ws'\<rparr>) \<and> length ws' = length (ef_bits e) \<and>
    (\<forall>p < 64 * length (ef_bits e). bitat ws' p \<longleftrightarrow>
       (if index * ef_low_bits_width e \<le> p \<and> p < Suc index * ef_low_bits_width e
        then bit val (p - index * ef_low_bits_width e) else bitat (ef_bits e) p))"
proof (cases "ef_low_bits_width e = 0")
  case True
  then show ?thesis by (auto simp: set_low_bits_def intro!: exI [of _ "ef_bits e"])
next
  case False
  define w where "w = ef_low_bits_width e"
  define bp where "bp = index * w"
  define ws where "ws = ef_bits e"
  have w: "0 < w" "w \<le> 32" "val < 2 ^ w" using False assms by (auto simp: w_def)
  have end_le: "bp + w \<le> 64 * ef_low_bits_size e" using assms(3) by (simp add: bp_def w_def algebra_simps)
  have len: "ef_low_bits_size e \<le> length ws" using assms(4) by (simp add: ws_def)
  have "bp div 64 < ef_low_bits_size e" using w(1) end_le split64 [of bp] by linarith
  then have wp: "bp div 64 < length ws" using len by simp
  have cross: "bp div 64 + 1 < ef_low_bits_size e" if "bp mod 64 + w > 64"
    using that end_le split64 [of bp] by linarith
  define v1 where "v1 = (ws ! (bp div 64) AND NOT (push_bit (bp mod 64) (2 ^ w - 1))) OR
    push_bit (bp mod 64) (of_nat val)"
  define ws1 where "ws1 = ws[bp div 64 := v1]"
  have v1: "bit v1 k \<longleftrightarrow> (if bp mod 64 \<le> k \<and> k < bp mod 64 + w then bit val (k - bp mod 64)
      else bit (ws ! (bp div 64)) k)" if "k < 64" for k
    unfolding v1_def by (rule bit_write_field) (use w that in auto)
  show ?thesis
  proof (cases "bp mod 64 + w > 64")
    case True
    define r where "r = bp mod 64 + w - 64"
    have r: "0 < r" "r < w" "r \<le> 32" using True w by (auto simp: r_def)
    define v2 where "v2 = (ws1 ! (bp div 64 + 1) AND NOT (2 ^ r - 1)) OR of_nat (drop_bit (w - r) val)"
    define ws2 where "ws2 = ws1[bp div 64 + 1 := v2]"
    have "drop_bit (w - r) val < 2 ^ r"
      using w r by (simp add: drop_bit_eq_div div_less_iff_less_mult flip: power_add)
    from bit_write_field [OF this, of _ "ws1 ! (bp div 64 + 1)" 0]
    have v2: "bit v2 k \<longleftrightarrow> (if k < r then bit val (w - r + k) else bit (ws ! (bp div 64 + 1)) k)"
      if "k < 64" for k
      using that by (auto simp: v2_def bit_simps ws1_def)
    have "bitat ws2 p \<longleftrightarrow> (if bp \<le> p \<and> p < bp + w then bit val (p - bp) else bitat ws p)"
      if "p < 64 * length ws" for p
    proof -
      consider "p div 64 = bp div 64" | "p div 64 = bp div 64 + 1"
        | "p div 64 < bp div 64" | "p div 64 > bp div 64 + 1" by linarith
      then show ?thesis
      proof cases
        case 1
        have "p - bp = p mod 64 - bp mod 64" "bp \<le> p \<longleftrightarrow> bp mod 64 \<le> p mod 64"
          "p < bp + w" using 1 True split64 [of p] split64 [of bp] by linarith+
        then show ?thesis using 1 wp v1 [of "p mod 64"] True
          by (auto simp: bitat_def ws2_def ws1_def)
      next
        case 2
        have "p - bp = w - r + p mod 64" "bp \<le> p" "p < bp + w \<longleftrightarrow> p mod 64 < r"
          using 2 True w split64 [of p] split64 [of bp] unfolding r_def by linarith+
        then show ?thesis using 2 cross [OF True] len v2 [of "p mod 64"]
          by (auto simp: bitat_def ws2_def ws1_def)
      next
        case 3
        then have "\<not> bp \<le> p" using split64 [of p] split64 [of bp] by linarith
        then show ?thesis using 3 by (auto simp: bitat_def ws2_def ws1_def)
      next
        case 4
        then have "\<not> p < bp + w" using w split64 [of p] split64 [of bp] by linarith
        then show ?thesis using 4 by (auto simp: bitat_def ws2_def ws1_def)
      qed
    qed
    moreover have "set_low_bits e index val = Inr (e\<lparr>ef_bits := ws2\<rparr>)"
      using False True cross wp len
      by (simp add: set_low_bits_def Let_def ws2_def v2_def ws1_def v1_def r_def ws_def bp_def w_def)
    ultimately show ?thesis
      by (intro exI [of _ ws2]) (auto simp: ws2_def ws1_def ws_def bp_def w_def algebra_simps)
  next
    case False
    have "bitat ws1 p \<longleftrightarrow> (if bp \<le> p \<and> p < bp + w then bit val (p - bp) else bitat ws p)"
      if "p < 64 * length ws" for p
    proof (cases "p div 64 = bp div 64")
      case True
      have "p - bp = p mod 64 - bp mod 64" "bp \<le> p \<longleftrightarrow> bp mod 64 \<le> p mod 64"
        "p < bp + w \<longleftrightarrow> p mod 64 < bp mod 64 + w" using True split64 [of p] split64 [of bp] by linarith+
      then show ?thesis using True wp v1 [of "p mod 64"] by (auto simp: bitat_def ws1_def)
    next
      case f: False
      then have "\<not> (bp \<le> p \<and> p < bp + w)" using False split64 [of p] split64 [of bp] by linarith
      then show ?thesis using f by (auto simp: bitat_def ws1_def)
    qed
    moreover have "set_low_bits e index val = Inr (e\<lparr>ef_bits := ws1\<rparr>)"
      using False \<open>ef_low_bits_width e \<noteq> 0\<close> wp
      by (simp add: set_low_bits_def Let_def ws1_def v1_def ws_def bp_def w_def)
    ultimately show ?thesis
      by (intro exI [of _ ws1]) (auto simp: ws1_def ws_def bp_def w_def algebra_simps)
  qed
qed

lemma offset64: "a = 64 * q + r \<Longrightarrow> r < 64 \<Longrightarrow> a div 64 = q \<and> a mod 64 = (r :: nat)"
  by simp

lemma bit_u32: "bit (u32 n) k \<longleftrightarrow> k < 32 \<and> bit n k"
  unfolding u32_def take_bit_eq_mod [symmetric] by (simp only: bit_take_bit_iff)

lemma get_low_bits_ok:
  assumes "val < 2 ^ ef_low_bits_width e" "ef_low_bits_width e \<le> 32"
    and "Suc index * ef_low_bits_width e \<le> 64 * ef_low_bits_size e"
    and "ef_low_bits_size e \<le> length (ef_bits e)"
    and field: "\<And>k. k < ef_low_bits_width e \<Longrightarrow>
      bitat (ef_bits e) (index * ef_low_bits_width e + k) = bit val k"
  shows "get_low_bits e index = Inr val"
proof (cases "ef_low_bits_width e = 0")
  case True
  then show ?thesis using assms(1) by (simp add: get_low_bits_def)
next
  case False
  define w where "w = ef_low_bits_width e"
  define bp where "bp = index * w"
  define ws where "ws = ef_bits e"
  define v where "v = drop_bit (bp mod 64) (ws ! (bp div 64)) AND (2 ^ w - 1)"
  have w: "0 < w" "w \<le> 32" "val < 2 ^ w" using False assms by (auto simp: w_def)
  have end_le: "bp + w \<le> 64 * ef_low_bits_size e" using assms(3) by (simp add: bp_def w_def algebra_simps)
  have len: "ef_low_bits_size e \<le> length ws" using assms(4) by (simp add: ws_def)
  have "bp div 64 < ef_low_bits_size e" using w(1) end_le split64 [of bp] by linarith
  then have wp: "bp div 64 < length ws" using len by simp
  have cross: "bp div 64 + 1 < ef_low_bits_size e" if "bp mod 64 + w > 64"
    using that end_le split64 [of bp] by linarith
  have fld: "bitat ws (bp + k) = bit val k" if "k < w" for k
    using field that by (simp add: ws_def bp_def w_def)
  have lowest: "bit (ws ! (bp div 64)) (bp mod 64 + k) = bit val k" if "k < w" "bp mod 64 + k < 64" for k
  proof -
    have "bp + k = 64 * (bp div 64) + (bp mod 64 + k)" using split64 [of bp] by linarith
    then have "(bp + k) div 64 = bp div 64" "(bp + k) mod 64 = bp mod 64 + k"
      using offset64 [OF _ that(2)] by blast+
    then show ?thesis using fld [OF that(1)] by (simp add: bitat_def)
  qed
  have mask: "(2 ^ m - 1 :: 64 word) = mask m" for m by (simp add: mask_eq_exp_minus_1)
  have v: "bit v k \<longleftrightarrow> bp mod 64 + k < 64 \<and> bit val k" for k
    using lowest [of k] w bit_nat_less [OF w(3), of k] bit_imp_le_length [of "ws ! (bp div 64)" "bp mod 64 + k"]
    by (auto simp: v_def mask bit_simps)
  show ?thesis
  proof (cases "bp mod 64 + w > 64")
    case True
    define r where "r = bp mod 64 + w - 64"
    have r: "0 < r" "r < w" "w - r + bp mod 64 = 64" using True w split64(2) [of bp] unfolding r_def by linarith+
    have highest: "bit (ws ! (bp div 64 + 1)) k = bit val (w - r + k)" if "k < r" for k
    proof -
      have "bp + (d + k) = 64 * (q + 1) + k" if "bp = 64 * q + m" "d + m = 64" for d q m
        using that by simp
      from this [OF split64(1) r(3)] have "bp + (w - r + k) = 64 * (bp div 64 + 1) + k" .
      moreover have "k < 64" using that r w by simp
      ultimately have "(bp + (w - r + k)) div 64 = bp div 64 + 1" "(bp + (w - r + k)) mod 64 = k"
        using offset64 by blast+
      then show ?thesis using fld [of "w - r + k"] that r by (simp add: bitat_def)
    qed
    have "u32 (unat (v OR push_bit (w - r) (ws ! (bp div 64 + 1) AND (2 ^ r - 1)))) = val"
    proof (rule bit_eqI)
      fix k
      show "bit (u32 (unat (v OR push_bit (w - r) (ws ! (bp div 64 + 1) AND (2 ^ r - 1))))) k = bit val k"
      proof (cases "w - r \<le> k")
        case True
        then show ?thesis using highest [of "k - (w - r)"] r w bit_nat_less [OF w(3), of k] v [of k]
          by (auto simp: bit_u32 mask bit_simps)
      next
        case False
        then show ?thesis using r w v [of k] by (auto simp: bit_u32 mask bit_simps)
      qed
    qed
    then show ?thesis using False True cross wp len
      by (simp add: get_low_bits_def Let_def v_def r_def ws_def bp_def w_def)
  next
    case f: False
    have "u32 (unat v) = val"
      by (rule bit_eqI) (use v bit_nat_less [OF w(3)] w f in \<open>auto simp: bit_u32 bit_simps; fastforce\<close>)
    then show ?thesis using False f wp
      by (simp add: get_low_bits_def Let_def v_def ws_def bp_def w_def)
  qed
qed

text \<open>Clearing the lowest set bit.\<close>

lemma ctzll_props:
  assumes "x \<noteq> (0 :: 64 word)"
  shows "ctzll x < 64" "bit x (ctzll x)" "\<And>k. k < ctzll x \<Longrightarrow> \<not> bit x k"
proof -
  define l where "l = takeWhile (\<lambda>i. \<not> bit x i) [0..<64]"
  obtain k where k: "k < 64" "bit x k" using bit_eqI [of x 0] assms bit_imp_le_length [of x] by auto
  then have "l \<noteq> [0..<64]" unfolding l_def by (metis atLeastLessThan_iff set_upt takeWhile_eq_all_conv zero_le)
  moreover have "l = take (length l) [0..<64]" unfolding l_def by (rule takeWhile_eq_take)
  ultimately have lt: "length l < 64" by (metis leI length_upt minus_nat.diff_0 take_all)
  then show "ctzll x < 64" by (simp add: ctzll_def l_def)
  show "bit x (ctzll x)" using nth_length_takeWhile [of "\<lambda>i. \<not> bit x i" "[0..<64]"] lt
    by (simp add: ctzll_def l_def)
  show "\<not> bit x k" if "k < ctzll x" for k
    using nth_mem [of k l] that lt takeWhile_nth [of k "\<lambda>i. \<not> bit x i" "[0..<64]"]
    by (auto simp: ctzll_def l_def dest: set_takeWhileD)
qed

lemma bit_clear_lowest:
  assumes "x \<noteq> (0 :: 64 word)"
  shows "bit (x AND (x - 1)) k \<longleftrightarrow> bit x k \<and> k \<noteq> ctzll x"
proof -
  define p where "p = ctzll x"
  note p = ctzll_props [OF assms, folded p_def]
  define rest where "rest = x AND NOT (push_bit p 1)"
  have rest: "bit rest k \<longleftrightarrow> bit x k \<and> k \<noteq> p" for k
    using bit_imp_le_length [of x k] by (auto simp: rest_def bit_simps)
  have "rest AND push_bit p 1 = 0" "rest AND mask p = 0"
    using p(3) by (auto intro!: bit_word_eqI simp: rest bit_simps)
  then have "rest + push_bit p 1 = rest OR push_bit p 1" "rest + mask p = rest OR mask p"
    by (simp_all add: disjunctive_add_eq_or)
  moreover have "x = rest OR push_bit p 1"
    using p by (intro bit_word_eqI) (auto simp: rest bit_simps)
  ultimately have "x - 1 = rest OR mask p"
    by (metis add_diff_eq mask_eq_exp_minus_1 push_bit_of_1)
  then show ?thesis using p(3) bit_imp_le_length [of x k] by (auto simp: bit_simps rest p_def [symmetric])
qed

lemma filter_bits_Nil: "filter (bit (x :: 64 word)) [0..<64] = [] \<longleftrightarrow> x = 0"
  using bit_word_eqI [of x 0] by (auto simp: filter_empty_conv)

lemma filter_bits_Cons:
  assumes "x \<noteq> (0 :: 64 word)"
  shows "filter (bit x) [0..<64] = ctzll x # filter (bit (x AND (x - 1))) [0..<64]"
proof -
  define p where "p = ctzll x"
  note p = ctzll_props [OF assms, folded p_def]
  have "[0..<64] = [0..<p] @ p # [Suc p..<64]"
    using p(1) by (metis less_imp_le_nat upt_add_eq_append upt_conv_Cons le_add_diff_inverse zero_le)
  moreover have "filter (bit x) [0..<p] = []" "filter (bit (x AND (x - 1))) [0..<p] = []"
    using p(3) by (auto simp: filter_empty_conv bit_clear_lowest [OF assms])
  moreover have "filter (bit x) [Suc p..<64] = filter (bit (x AND (x - 1))) [Suc p..<64]"
    by (rule filter_cong) (auto simp: bit_clear_lowest [OF assms] p_def)
  moreover have "\<not> bit (x AND (x - 1)) p" "bit x p" using p by (auto simp: bit_clear_lowest [OF assms] p_def)
  ultimately show ?thesis unfolding p_def [symmetric] by simp
qed


section \<open>What an encoder holds\<close>

text \<open>Position of the unary mark of element \<open>j\<close>.\<close>

definition ef_mark :: "nat \<Rightarrow> nat list \<Rightarrow> nat \<Rightarrow> nat" where
  "ef_mark w xs j = j + drop_bit w (xs ! j)"

definition ef_holds :: "nat \<Rightarrow> nat list \<Rightarrow> elias_fano \<Rightarrow> bool" where
  "ef_holds n xs e \<longleftrightarrow> n \<le> length xs \<and>
     (let w = ef_low_bits_width e; L = ef_low_bits_size e; H = ef_high_bits_size e in
      length (ef_bits e) = L + H \<and>
      (\<forall>j<n. \<forall>k<w. bitat (ef_bits e) (j * w + k) = bit (xs ! j) k) \<and>
      (\<forall>p<64 * H. bitat (ef_bits e) (64 * L + p) \<longleftrightarrow> (\<exists>j<n. p = ef_mark w xs j)))"

definition ef_shape :: "nat list \<Rightarrow> elias_fano \<Rightarrow> bool" where
  "ef_shape xs e \<longleftrightarrow>
     ef_num_elements e = length xs \<and> length xs < 256 \<and> ef_low_bits_width e < 32 \<and>
     ef_low_bits_size e < 256 \<and> ef_high_bits_size e < 256 \<and>
     length xs * ef_low_bits_width e \<le> 64 * ef_low_bits_size e \<and>
     (\<forall>j<length xs. ef_mark (ef_low_bits_width e) xs j < 64 * ef_high_bits_size e)"

definition ef_repr :: "nat list \<Rightarrow> elias_fano \<Rightarrow> bool" where
  "ef_repr xs e \<longleftrightarrow> sorted xs \<and> (\<forall>x\<in>set xs. x < 2 ^ 32) \<and> ef_shape xs e \<and> ef_holds (length xs) xs e"

section \<open>Encoding\<close>

lemma floor_log2_le: "0 < n \<Longrightarrow> 2 ^ floor_log2 n \<le> n"
proof (induction n rule: floor_log2.induct)
  case (1 n)
  then show ?case
    by (cases "n < 2") (auto simp: floor_log2.simps [of n] dest!: mult_le_mono2 [where k = 2])
qed

lemma floor_log2_less: "n < 2 ^ Suc (floor_log2 n)"
proof (induction n rule: floor_log2.induct)
  case (1 n)
  then show ?case by (cases "n < 2") (auto simp: floor_log2.simps [of n])
qed

lemma shape_with_bits [simp]: "ef_shape xs (e\<lparr>ef_bits := ws\<rparr>) = ef_shape xs e"
  by (simp add: ef_shape_def)

lemma field_disjoint:
  assumes "j < i" "k < (w :: nat)"
  shows "j * w + k < i * w"
proof -
  have "j * w + k < Suc j * w" using assms(2) by simp
  also have "\<dots> \<le> i * w" using assms(1) by (intro mult_le_mono1) simp
  finally show ?thesis .
qed

lemma encode_one_ok:
  assumes sh: "ef_shape xs e" and h: "ef_holds i xs e" and i: "i < length xs"
  shows "\<exists>e'. EliasFano_encode_one i (xs ! i) e = Inr e' \<and> ef_shape xs e' \<and> ef_holds (Suc i) xs e'"
proof -
  define w where "w = ef_low_bits_width e"
  define L where "L = ef_low_bits_size e"
  define H where "H = ef_high_bits_size e"
  define x where "x = xs ! i"
  have len: "length (ef_bits e) = L + H" using h by (simp add: ef_holds_def Let_def L_def H_def)
  have mark: "ef_mark w xs i < 64 * H" and w: "w < 32"
    using sh i by (auto simp: ef_shape_def w_def H_def)
  have "L + ef_mark w xs i div 64 < length (ef_bits e)" using mark len by auto
  from set_high_bit_ok [OF this] obtain ws where
    ws: "set_high_bit (ef_bits e) (ef_mark w xs i) L = Inr ws" "length ws = L + H"
    "\<And>p. p < 64 * (L + H) \<Longrightarrow> bitat ws p \<longleftrightarrow> bitat (ef_bits e) p \<or> p = 64 * L + ef_mark w xs i"
    using len by auto
  have "Suc i * w \<le> length xs * w" using i by (intro mult_le_mono1) simp
  also have "\<dots> \<le> 64 * L" using sh by (simp add: ef_shape_def w_def L_def)
  finally have fits: "Suc i * w \<le> 64 * L" .
  define lo where "lo = x AND (2 ^ w - 1)"
  have "lo = take_bit w x" by (simp add: lo_def take_bit_eq_mask mask_eq_exp_minus_1)
  then have lo: "lo < 2 ^ w" "\<And>k. bit lo k \<longleftrightarrow> k < w \<and> bit x k"
    by (simp_all add: bit_take_bit_iff)
  have e1: "ef_low_bits_width (e\<lparr>ef_bits := ws\<rparr>) = w" "ef_low_bits_size (e\<lparr>ef_bits := ws\<rparr>) = L"
    "ef_bits (e\<lparr>ef_bits := ws\<rparr>) = ws" "e\<lparr>ef_bits := ws, ef_bits := zs\<rparr> = e\<lparr>ef_bits := zs\<rparr>" for zs
    by (simp_all add: w_def L_def)
  obtain ws' where
    ws': "set_low_bits (e\<lparr>ef_bits := ws\<rparr>) i lo = Inr (e\<lparr>ef_bits := ws'\<rparr>)"
    "length ws' = L + H"
    "\<And>p. p < 64 * (L + H) \<Longrightarrow> bitat ws' p \<longleftrightarrow>
       (if i * w \<le> p \<and> p < Suc i * w then bit lo (p - i * w) else bitat ws p)"
    using set_low_bits_ok [of lo "e\<lparr>ef_bits := ws\<rparr>" i, unfolded e1] ws(2) fits lo(1) w
    by (metis le_add1 less_imp_le_nat)
  have old: "bitat (ef_bits e) (j * w + k) = bit (xs ! j) k" if "j < i" "k < w" for j k
    using h that by (simp add: ef_holds_def Let_def w_def)
  have "bitat ws' (j * w + k) = bit (xs ! j) k" if "j < Suc i" "k < w" for j k
  proof (cases "j = i")
    case True
    then show ?thesis using ws'(3) [of "j * w + k"] that fits by (simp add: x_def lo)
  next
    case False
    then have "j < i" using that by simp
    from field_disjoint [OF this that(2)] show ?thesis
      using old [OF \<open>j < i\<close> that(2)] fits ws'(3) [of "j * w + k"] ws(3) [of "j * w + k"] by simp
  qed
  moreover have "bitat ws' (64 * L + p) \<longleftrightarrow> (\<exists>j<Suc i. p = ef_mark w xs j)" if "p < 64 * H" for p
  proof -
    have "bitat ws' (64 * L + p) \<longleftrightarrow> bitat (ef_bits e) (64 * L + p) \<or> p = ef_mark w xs i"
      using ws'(3) [of "64 * L + p"] ws(3) [of "64 * L + p"] that fits by simp
    also have "\<dots> \<longleftrightarrow> (\<exists>j<Suc i. p = ef_mark w xs j)"
      using h that by (auto simp: ef_holds_def Let_def w_def L_def H_def less_Suc_eq)
    finally show ?thesis .
  qed
  moreover have "EliasFano_encode_one i (xs ! i) e = Inr (e\<lparr>ef_bits := ws'\<rparr>)"
    using ws(1) ws'(1) by (simp add: EliasFano_encode_one_def Let_def x_def ef_mark_def w_def L_def lo_def)
  ultimately show ?thesis using i sh ws'(2)
    by (auto simp: ef_holds_def Let_def w_def L_def H_def)
qed

text \<open>The sizes that \<open>Encode\<close> computes fit their 8-bit fields and hold every mark.\<close>

lemma encode_sizes:
  fixes xs m w n
  defines "n \<equiv> length xs" and "w \<equiv> floor_log2 ((m + 1) div length xs)"
  assumes "0 < n" "n < 256" "n \<le> m + 1" "m + 1 < 2 ^ 32"
  shows "w < 32" "n * w \<le> 64 * u8 (max 1 ((n * w + 63) div 64))"
    "drop_bit w m + n + 1 \<le> 64 * u8 ((drop_bit w m + n + 1 + 63) div 64)"
proof -
  have "0 < (m + 1) div n" using assms by (simp add: div_greater_zero_iff)
  then have pw: "2 ^ w \<le> (m + 1) div n" unfolding w_def n_def by (rule floor_log2_le)
  also have "\<dots> \<le> m + 1" by (rule div_le_dividend)
  finally have "2 ^ w < (2 :: nat) ^ 32" using assms by simp
  then show w32: "w < 32" by (simp only: power_strict_increasing_iff)
  have "n * w < 256 * 32" using w32 assms(4) by (intro mult_strict_mono) auto
  then have "(n * w + 63) div 64 < 256" by auto
  then show "n * w \<le> 64 * u8 (max 1 ((n * w + 63) div 64))" by (auto simp: max_def)
  have "(m + 1) div n < 2 ^ Suc w" unfolding w_def n_def by (rule floor_log2_less)
  then have "m + 1 < 2 ^ Suc w * n" using assms(3) by (simp add: div_less_iff_less_mult)
  then have "m < (2 * n) * 2 ^ w" by (simp add: ac_simps)
  then have "drop_bit w m < 2 * n" by (simp add: drop_bit_eq_div div_less_iff_less_mult)
  then have "(drop_bit w m + n + 1 + 63) div 64 < 256" using assms(4) by auto
  then show "drop_bit w m + n + 1 \<le> 64 * u8 ((drop_bit w m + n + 1 + 63) div 64)" by simp
qed

lemma bitat_replicate: "p < 64 * n \<Longrightarrow> \<not> bitat (replicate n 0) p"
  by (simp add: bitat_def)

lemma Encode_repr:
  assumes "sorted xs" "\<forall>x\<in>set xs. x \<le> m" "length xs < 256" "length xs \<le> m + 1" "m + 1 < 2 ^ 32"
    and "xs \<noteq> []"
  shows "\<exists>e'. EliasFano_Encode xs m e = Inr e' \<and> ef_repr xs e'"
proof -
  define n where "n = length xs"
  define w where "w = floor_log2 ((m + 1) div n)"
  define H where "H = u8 ((drop_bit w m + n + 1 + 63) div 64)"
  define L where "L = u8 (max 1 ((n * w + 63) div 64))"
  define e0 where "e0 = \<lparr>ef_bits = replicate (L + H) 0, ef_num_elements = n,
    ef_low_bits_width = w, ef_low_bits_size = L, ef_high_bits_size = H\<rparr>"
  have "0 < length xs" using assms(6) by simp
  from encode_sizes [OF this assms(3-5)]
  have sz: "w < 32" "n * w \<le> 64 * L" "drop_bit w m + n + 1 \<le> 64 * H"
    by (simp_all add: n_def w_def H_def L_def)
  have "ef_mark w xs j < 64 * H" if "j < n" for j
  proof -
    have "drop_bit w (xs ! j) \<le> drop_bit w m"
      using assms(2) that by (auto simp: drop_bit_eq_div n_def intro!: div_le_mono)
    then show ?thesis using sz(3) that by (simp add: ef_mark_def)
  qed
  then have shape: "ef_shape xs e0"
    using sz assms(3) by (simp add: ef_shape_def e0_def n_def L_def H_def)
  have "ef_holds 0 xs e0" by (simp add: ef_holds_def Let_def e0_def bitat_replicate)
  with shape have "\<exists>e'. foldR (\<lambda>i. EliasFano_encode_one i (xs ! i)) [0..<n] e0 = Inr e' \<and>
      ef_shape xs e' \<and> ef_holds n xs e'"
    using encode_one_ok
    by (intro foldR_upt_invariant [where P = "\<lambda>i e. ef_shape xs e \<and> ef_holds i xs e"]) (auto simp: n_def)
  moreover have "EliasFano_Encode xs m e =
      foldR (\<lambda>i. EliasFano_encode_one i (xs ! i)) [0..<n] e0"
    using assms by (simp add: EliasFano_Encode_def Let_def e0_def n_def w_def H_def L_def not_less)
  moreover have "\<forall>x\<in>set xs. x < 2 ^ 32" using assms(2,5) by fastforce
  ultimately show ?thesis using assms(1) by (auto simp: ef_repr_def n_def)
qed


section \<open>Decoding\<close>

lemma repr_low_bits:
  assumes "ef_repr xs e" "j < length xs"
  shows "get_low_bits e j = Inr (take_bit (ef_low_bits_width e) (xs ! j))"
proof (rule get_low_bits_ok)
  have "Suc j * ef_low_bits_width e \<le> length xs * ef_low_bits_width e"
    using assms(2) by (intro mult_le_mono1) simp
  also have "\<dots> \<le> 64 * ef_low_bits_size e" using assms(1) by (simp add: ef_repr_def ef_shape_def)
  finally show "Suc j * ef_low_bits_width e \<le> 64 * ef_low_bits_size e" .
qed (use assms in \<open>auto simp: ef_repr_def ef_shape_def ef_holds_def Let_def bit_take_bit_iff\<close>)

text \<open>An element is put together again from its unary mark and its low field.\<close>

lemma join_parts:
  assumes "x < 2 ^ 32"
  shows "u32 (push_bit w (drop_bit w x)) OR take_bit w x = (x :: nat)"
proof (rule bit_eqI)
  fix k
  show "bit (u32 (push_bit w (drop_bit w x)) OR take_bit w x) k = bit x k"
    using bit_nat_less [OF assms, of k] by (auto simp: bit_u32 bit_simps)
qed

lemma take_Suc_nth: "n < length xs \<Longrightarrow> take n xs @ [xs ! n] = take (Suc n) xs"
  by (simp add: take_Suc_conv_app_nth)

lemma decompress_word_ok:
  assumes "ef_repr xs e" "c + length ps \<le> length xs" "filter (bit word) [0..<64] = ps"
    and "\<And>m. m < length ps \<Longrightarrow> i * 64 + ps ! m = ef_mark (ef_low_bits_width e) xs (c + m)"
  shows "decompress_word e i word (take c xs) = Inr (take (c + length ps) xs)"
  using assms(2-)
proof (induction ps arbitrary: c word)
  case Nil
  then have "word = 0" using filter_bits_Nil by simp
  then show ?case by (simp add: decompress_word.simps)
next
  case (Cons p ps)
  define w where "w = ef_low_bits_width e"
  have c: "c < length xs" using Cons.prems(1) by simp
  have "word \<noteq> 0" using Cons.prems(2) filter_bits_Nil [of word] by auto
  from filter_bits_Cons [OF this] Cons.prems(2)
  have p: "ctzll word = p" "filter (bit (word AND (word - 1))) [0..<64] = ps" by auto
  have x: "xs ! c < 2 ^ 32" using assms(1) c by (simp add: ef_repr_def)
  have mark: "i * 64 + p = c + drop_bit w (xs ! c)" using Cons.prems(3) [of 0] by (simp add: ef_mark_def w_def)
  moreover have "drop_bit w (xs ! c) \<le> xs ! c" by (simp add: drop_bit_eq_div)
  moreover have "length xs < 256" using assms(1) by (simp add: ef_repr_def ef_shape_def)
  ultimately have hi: "u32 (u64_sub (i * 64 + p) c) = drop_bit w (xs ! c)"
    using c x by (subst u64_sub_le) auto
  have IH: "decompress_word e i (word AND (word - 1)) (take (Suc c) xs) = Inr (take (Suc c + length ps) xs)"
    using Cons.prems(1) Cons.prems(3) [of "Suc _"] by (intro Cons.IH p) auto
  have n: "ef_num_elements e = length xs" using assms(1) by (simp add: ef_repr_def ef_shape_def)
  have low: "get_low_bits e c = Inr (take_bit w (xs ! c))" using repr_low_bits [OF assms(1) c] by (simp add: w_def)
  have "u32 (push_bit w (u32 (u64_sub (i * 64 + p) c))) OR take_bit w (xs ! c) = xs ! c"
    unfolding hi by (rule join_parts [OF x])
  then show ?case
    using \<open>word \<noteq> 0\<close> c IH p(1) n low
    by (simp add: decompress_word.simps [of e i word] Let_def take_Suc_nth flip: w_def)
qed

text \<open>The marks, read upward, are the marks of the elements in order.\<close>

definition ef_hb :: "elias_fano \<Rightarrow> nat \<Rightarrow> bool" where
  "ef_hb e p = bitat (ef_bits e) (64 * ef_low_bits_size e + p)"

lemma mark_strict:
  assumes "sorted xs" "i < j" "j < length xs"
  shows "ef_mark w xs i < ef_mark w xs j"
proof -
  have "xs ! i \<le> xs ! j" using assms by (simp add: sorted_nth_mono)
  then show ?thesis using assms(2)
    by (auto simp: ef_mark_def drop_bit_eq_div intro!: add_less_le_mono div_le_mono)
qed

lemma marks_in_order:
  assumes "ef_repr xs e"
  shows "filter (ef_hb e) [0..<64 * ef_high_bits_size e] =
    map (ef_mark (ef_low_bits_width e) xs) [0..<length xs]"
proof (rule sorted_distinct_set_unique)
  have "sorted xs" using assms by (simp add: ef_repr_def)
  have st: "sorted_wrt (<) (map (ef_mark (ef_low_bits_width e) xs) [0..<length xs])"
    using mark_strict [OF \<open>sorted xs\<close>] by (auto simp: sorted_wrt_iff_nth_less)
  then show "sorted (map (ef_mark (ef_low_bits_width e) xs) [0..<length xs])"
    "distinct (map (ef_mark (ef_low_bits_width e) xs) [0..<length xs])"
    by (simp_all add: strict_sorted_iff)
  show "set (filter (ef_hb e) [0..<64 * ef_high_bits_size e]) =
      set (map (ef_mark (ef_low_bits_width e) xs) [0..<length xs])"
    using assms by (auto simp: ef_repr_def ef_holds_def ef_shape_def Let_def ef_hb_def)
qed (simp_all add: sorted_wrt_filter)

lemma filter_word:
  "filter (ef_hb e) [64 * i..<64 * Suc i] =
     map ((+) (64 * i)) (filter (bit (ef_bits e ! (ef_low_bits_size e + i))) [0..<64])"
proof -
  have "[64 * i..<64 * Suc i] = map ((+) (64 * i)) [0..<64]"
    by (rule nth_equalityI) simp_all
  moreover have "ef_hb e (64 * i + k) = bit (ef_bits e ! (ef_low_bits_size e + i)) k" if "k < 64" for k
  proof -
    have "64 * ef_low_bits_size e + (64 * i + k) = 64 * (ef_low_bits_size e + i) + k" by simp
    from offset64 [OF this that] show ?thesis by (simp add: ef_hb_def bitat_def)
  qed
  ultimately show ?thesis by (auto simp: filter_map o_def intro!: filter_cong)
qed

lemma decompress_loop:
  assumes repr: "ef_repr xs e"
  defines "c \<equiv> \<lambda>i. length (filter (ef_hb e) [0..<64 * i])"
  shows "\<exists>acc. foldR (\<lambda>i acc.
         if length acc < ef_num_elements e then
           (if ef_low_bits_size e + i < length (ef_bits e)
            then decompress_word e i (ef_bits e ! (ef_low_bits_size e + i)) acc
            else Inl UB)
         else Inr acc) [0..<ef_high_bits_size e] [] = Inr acc \<and> acc = take (c (ef_high_bits_size e)) xs"
proof (rule foldR_upt_invariant)
  show "[] = take (c 0) xs" by (simp add: c_def)
next
  fix i acc
  assume i: "i < ef_high_bits_size e" and acc: "acc = take (c i) xs"
  define ps where "ps = filter (bit (ef_bits e ! (ef_low_bits_size e + i))) [0..<64]"
  have split: "filter (ef_hb e) [0..<64 * Suc i] = filter (ef_hb e) [0..<64 * i] @ map ((+) (64 * i)) ps"
    using filter_word [of e i] upt_add_eq_append [of 0 "64 * i" 64] by (simp add: ps_def add.commute)
  then have cs: "c (Suc i) = c i + length ps" by (simp add: c_def)
  obtain rest where "filter (ef_hb e) [0..<64 * ef_high_bits_size e] =
      filter (ef_hb e) [0..<64 * Suc i] @ rest"
    using i upt_add_eq_append [of 0 "64 * Suc i" "64 * ef_high_bits_size e - 64 * Suc i"]
    by (metis Suc_leI filter_append le_add_diff_inverse mult_le_mono2 zero_le)
  with marks_in_order [OF repr] split have whole:
    "map (ef_mark (ef_low_bits_width e) xs) [0..<length xs] =
       filter (ef_hb e) [0..<64 * i] @ map ((+) (64 * i)) ps @ rest" by simp
  have len: "length xs = c i + length ps + length rest" using arg_cong [OF whole, of length] by (simp add: c_def)
  have "i * 64 + ps ! m = ef_mark (ef_low_bits_width e) xs (c i + m)" if "m < length ps" for m
    using arg_cong [OF whole, of "\<lambda>l. l ! (c i + m)"] that len
    by (simp add: c_def nth_append mult.commute)
  then have dec: "decompress_word e i (ef_bits e ! (ef_low_bits_size e + i)) acc = Inr (take (c (Suc i)) xs)"
    unfolding acc cs using len by (intro decompress_word_ok [OF repr _ ps_def [symmetric]]) auto
  have "ef_low_bits_size e + i < length (ef_bits e)" "ef_num_elements e = length xs"
    using repr i by (auto simp: ef_repr_def ef_holds_def ef_shape_def Let_def)
  then show "\<exists>s'. (if length acc < ef_num_elements e
      then if ef_low_bits_size e + i < length (ef_bits e)
        then decompress_word e i (ef_bits e ! (ef_low_bits_size e + i)) acc else Inl UB
      else Inr acc) = Inr s' \<and> s' = take (c (Suc i)) xs"
    using dec len cs by (auto simp: acc)
qed

lemma DecompressAll_repr:
  assumes "ef_repr xs e"
  shows "EliasFano_DecompressAll e = Inr xs"
proof -
  have "length (filter (ef_hb e) [0..<64 * ef_high_bits_size e]) = length xs"
    using marks_in_order [OF assms] by simp
  moreover have "ef_num_elements e = length xs" using assms by (simp add: ef_repr_def ef_shape_def)
  ultimately show ?thesis using decompress_loop [OF assms]
    by (simp add: EliasFano_DecompressAll_def vec_resize_def)
qed


section \<open>Correctness of the encoder\<close>

lemma DecompressAll_empty: "EliasFano_DecompressAll (EliasFano_Clear e) = Inr []"
  by (simp add: EliasFano_DecompressAll_def EliasFano_Clear_def vec_resize_def)

text \<open>
  Claim C20. A sorted list of at most 255 identifiers, repetitions allowed, none above
  \<open>max_value\<close>, can be encoded without leaving the buffer, whatever the encoder held before;
  \<open>Size\<close> is the length of the list, and \<open>DecompressAll\<close> returns exactly the list, also where
  a low part crosses a word boundary.
\<close>

theorem EliasFano_roundtrip:
  assumes "sorted xs" "\<forall>x\<in>set xs. x \<le> max_value" "length xs \<le> 255"
    and "length xs \<le> max_value + 1" "max_value + 1 < 2 ^ 32"
  shows "\<exists>e'. EliasFano_Encode xs max_value e = Inr e' \<and> EliasFano_Size e' = length xs \<and>
    EliasFano_DecompressAll e' = Inr xs"
proof (cases "xs = []")
  case True
  then show ?thesis using DecompressAll_empty [of e]
    by (simp add: EliasFano_Encode_def EliasFano_Size_def EliasFano_Clear_def)
next
  case False
  then obtain e' where "EliasFano_Encode xs max_value e = Inr e'" "ef_repr xs e'"
    using Encode_repr [of xs max_value e] assms by auto
  then show ?thesis using DecompressAll_repr [of xs e']
    by (simp add: EliasFano_Size_def ef_repr_def ef_shape_def)
qed

theorem EliasFano_roundtrip_witness:
  "\<exists>e'. EliasFano_Encode [3, 3, 17, 4000000000] 4000000001 EliasFano_new = Inr e' \<and>
     EliasFano_Size e' = length [3, 3, 17, 4000000000 :: nat] \<and> EliasFano_DecompressAll e' = Inr [3, 3, 17, 4000000000]"
  using EliasFano_roundtrip [of "[3, 3, 17, 4000000000]" 4000000001 EliasFano_new] by simp

end
