(* ===== verification/DuplicateTracker.thy ===== *)
theory DuplicateTracker
  imports Streams "HOL-Library.AList"
begin

text \<open>
  \<open>src/datacell/duplicate_interface.h\<close>, \<open>dense_duplicate_tracker.{h,cpp}\<close> and
  \<open>sparse_duplicate_tracker.{h,cpp}\<close>: groups of identifiers whose vectors are equal. Both
  trackers link the members of a group into a ring of successors, the dense one in an array in
  which a lone identifier is its own successor, the sparse one in a hash map that holds only the
  members of groups. The theory models both, states the interface as a locale over the partition
  they keep, interprets it twice, and proves that every walk around a ring ends.

  A walk carries fuel, one more than the number of entries of the array or map: a longer walk
  has met an entry twice without meeting its start and would never end, so \<open>Diverges\<close> is what
  the source does there. The locks of the source make every operation atomic.
\<close>

section \<open>DenseDuplicateTracker\<close>

record dense_tracker =
  dd_duplicate_ids :: "inner_id list"
  dd_duplicate_count :: nat
  dd_has_deserialized :: bool

definition DenseDuplicateTracker_new :: dense_tracker where
  "DenseDuplicateTracker_new =
     \<lparr>dd_duplicate_ids = [], dd_duplicate_count = 0, dd_has_deserialized = False\<rparr>"

definition Dense_SetDuplicateId :: "inner_id \<Rightarrow> inner_id \<Rightarrow> dense_tracker \<Rightarrow> dense_tracker" where
  "Dense_SetDuplicateId group_id duplicate_id t =
     (let ids = dd_duplicate_ids t in
      if group_id = duplicate_id \<or> length ids \<le> duplicate_id \<or> length ids \<le> group_id then t
      else if ids ! duplicate_id \<noteq> duplicate_id then t
      else
        let t1 = (if ids ! group_id = group_id
                  then t\<lparr>dd_duplicate_count := u64 (dd_duplicate_count t + 1)\<rparr> else t);
            ids1 = ids[duplicate_id := ids ! group_id];
            ids2 = ids1[group_id := duplicate_id]
        in t1\<lparr>dd_duplicate_ids := ids2\<rparr>)"

text \<open>The loop of \<open>GetDuplicateIds\<close>.\<close>

fun dense_walk :: "nat \<Rightarrow> inner_id list \<Rightarrow> inner_id \<Rightarrow> inner_id \<Rightarrow> inner_id list \<Rightarrow> inner_id list result" where
  "dense_walk 0 ids vid current_id acc = Inl Diverges"
| "dense_walk (Suc fuel) ids vid current_id acc =
     (if current_id \<ge> length ids then Inl UB
      else if ids ! current_id \<noteq> vid
           then dense_walk fuel ids vid (ids ! current_id) (acc @ [ids ! current_id])
           else Inr acc)"

definition Dense_GetDuplicateIds :: "dense_tracker \<Rightarrow> inner_id \<Rightarrow> inner_id list result" where
  "Dense_GetDuplicateIds t vid =
     (let ids = dd_duplicate_ids t
      in if vid \<ge> length ids then Inr []
         else dense_walk (length ids + 1) ids vid vid [])"

fun dense_min_walk :: "nat \<Rightarrow> inner_id list \<Rightarrow> inner_id \<Rightarrow> inner_id \<Rightarrow> inner_id \<Rightarrow> inner_id result" where
  "dense_min_walk 0 ids vid current_id group_id = Inl Diverges"
| "dense_min_walk (Suc fuel) ids vid current_id group_id =
     (if current_id \<noteq> vid then
        (if current_id \<ge> length ids then Inl UB
         else dense_min_walk fuel ids vid (ids ! current_id) (min group_id current_id))
      else Inr group_id)"

definition Dense_GetGroupId :: "dense_tracker \<Rightarrow> inner_id \<Rightarrow> inner_id result" where
  "Dense_GetGroupId t vid =
     (let ids = dd_duplicate_ids t
      in if vid \<ge> length ids then Inr vid
         else dense_min_walk (length ids + 1) ids vid (ids ! vid) vid)"

text \<open>The inner loop of \<open>Serialize\<close>: the members after the head, and the marks it sets.\<close>

fun dense_mark_walk ::
  "nat \<Rightarrow> inner_id list \<Rightarrow> inner_id \<Rightarrow> inner_id \<Rightarrow> inner_id list \<Rightarrow> bool list \<Rightarrow> (inner_id list \<times> bool list) result"
  where
  "dense_mark_walk 0 ids i current_id id_list visited = Inl Diverges"
| "dense_mark_walk (Suc fuel) ids i current_id id_list visited =
     (if current_id \<ge> length ids then Inl UB
      else if ids ! current_id \<noteq> i
           then let c = ids ! current_id
                in if c \<ge> length visited then Inl UB
                   else dense_mark_walk fuel ids i c (id_list @ [c]) (visited[c := True])
           else Inr (id_list, visited))"

definition dense_serialize_step ::
  "inner_id list \<Rightarrow> inner_id \<Rightarrow> stream_writer \<times> bool list \<Rightarrow> (stream_writer \<times> bool list) result" where
  "dense_serialize_step ids i = (\<lambda>(writer, visited).
     if ids ! i \<noteq> i \<and> \<not> visited ! i then
       bindR (dense_mark_walk (length ids + 1) ids i i [] (visited[i := True])) (\<lambda>(id_list, visited1).
         Inr (WriteVector 4 id_list (WriteObj 4 i writer), visited1))
     else Inr (writer, visited))"

definition Dense_Serialize :: "dense_tracker \<Rightarrow> stream_writer \<Rightarrow> stream_writer result" where
  "Dense_Serialize t writer =
     (let ids = dd_duplicate_ids t;
          w1 = WriteObj 8 (dd_duplicate_count t) writer;
          w2 = WriteObj 8 (length ids) w1
      in bindR (foldR (dense_serialize_step ids) [0..<length ids] (w2, replicate (length ids) False))
           (\<lambda>(w3, visited). Inr w3))"

text \<open>Relinking one group: \<open>head_id\<close>, then each element of \<open>id_list\<close>, then back.\<close>

fun dense_relink :: "inner_id \<Rightarrow> inner_id \<Rightarrow> inner_id list \<Rightarrow> inner_id list \<Rightarrow> inner_id list result" where
  "dense_relink head_id current_id [] ids =
     (if current_id < length ids then Inr (ids[current_id := head_id]) else Inl UB)"
| "dense_relink head_id current_id (dup_id # rest) ids =
     (if current_id < length ids then dense_relink head_id dup_id rest (ids[current_id := dup_id])
      else Inl UB)"

definition dense_read_group :: "'r rd \<Rightarrow> inner_id list \<Rightarrow> 'r \<Rightarrow> (inner_id list \<times> 'r) result" where
  "dense_read_group rd ids r =
     bindR (ReadObj rd 4 r) (\<lambda>(head_id, r1).
     bindR (ReadVector rd 4 r1) (\<lambda>(id_list, r2).
     bindR (dense_relink head_id head_id id_list ids) (\<lambda>ids1. Inr (ids1, r2))))"

text \<open>
  The loop that fills the array counts in \<open>InnerIdType\<close>: a size above \<open>2 ^ 32\<close> is never
  reached.
\<close>

definition Dense_Deserialize :: "'r rd \<Rightarrow> dense_tracker \<Rightarrow> 'r \<Rightarrow> (dense_tracker \<times> 'r) result" where
  "Dense_Deserialize rd t r =
     (if dd_has_deserialized t then Inr (t, r)
      else
        bindR (ReadObj rd 8 r) (\<lambda>(count, r1).
        bindR (ReadObj rd 8 r1) (\<lambda>(sz, r2).
        if sz > 2 ^ 32 then Inl Diverges
        else
          bindR (read_loop count (dense_read_group rd) [0..<sz] r2) (\<lambda>(ids, r3).
          Inr (t\<lparr>dd_duplicate_ids := ids, dd_duplicate_count := count, dd_has_deserialized := True\<rparr>, r3)))))"

text \<open>
  The loop counter of the legacy reader is 32 bits wide; a larger count makes both the source and
  the model read groups until the stream is exhausted.
\<close>

definition Dense_DeserializeFromLegacyFormat ::
  "'r rd \<Rightarrow> nat \<Rightarrow> dense_tracker \<Rightarrow> 'r \<Rightarrow> (dense_tracker \<times> 'r) result" where
  "Dense_DeserializeFromLegacyFormat rd total_size t r =
     (if dd_has_deserialized t then Inr (t, r)
      else
        bindR (ReadObj rd 8 r) (\<lambda>(count, r1).
        bindR (read_loop count (dense_read_group rd) (map u32 [0..<total_size]) r1) (\<lambda>(ids, r2).
        Inr (t\<lparr>dd_duplicate_ids := ids, dd_duplicate_count := count, dd_has_deserialized := True\<rparr>, r2))))"

definition Dense_Resize :: "nat \<Rightarrow> dense_tracker \<Rightarrow> dense_tracker" where
  "Dense_Resize new_size t =
     (let ids = dd_duplicate_ids t
      in if new_size \<le> length ids then t
         else t\<lparr>dd_duplicate_ids := ids @ [length ids..<new_size]\<rparr>)"

section \<open>SparseDuplicateTracker\<close>

text \<open>
  The hash map is an association list without repeated keys; its order stands for the iteration
  order of the hash table, which the standard leaves open. A new key goes to the end; the
  statements about \<open>Serialize\<close> hold for every order.
\<close>

record sparse_tracker =
  sd_next_ids :: "(inner_id \<times> inner_id) list"
  sd_duplicate_count :: nat
  sd_has_deserialized :: bool

definition SparseDuplicateTracker_new :: sparse_tracker where
  "SparseDuplicateTracker_new =
     \<lparr>sd_next_ids = [], sd_duplicate_count = 0, sd_has_deserialized = False\<rparr>"

definition Sparse_SetDuplicateId :: "inner_id \<Rightarrow> inner_id \<Rightarrow> sparse_tracker \<Rightarrow> sparse_tracker" where
  "Sparse_SetDuplicateId group_id duplicate_id t =
     (let m = sd_next_ids t in
      if group_id = duplicate_id \<or> map_of m duplicate_id \<noteq> None then t
      else case map_of m group_id of
          None \<Rightarrow> t\<lparr>sd_next_ids := AList.update duplicate_id group_id (AList.update group_id duplicate_id m),
                    sd_duplicate_count := u64 (sd_duplicate_count t + 1)\<rparr>
        | Some nx \<Rightarrow> t\<lparr>sd_next_ids := AList.update group_id duplicate_id (AList.update duplicate_id nx m)\<rparr>)"

text \<open>
  The loop that \<open>collect_group_members\<close> and \<open>GetDuplicateIds\<close> share; \<open>at\<close> throws
  \<open>std::out_of_range\<close> for a missing key.
\<close>

fun sparse_walk ::
  "nat \<Rightarrow> (inner_id \<times> inner_id) list \<Rightarrow> inner_id \<Rightarrow> inner_id \<Rightarrow> inner_id list \<Rightarrow> inner_id list result" where
  "sparse_walk 0 m start_id current_id members = Inl Diverges"
| "sparse_walk (Suc fuel) m start_id current_id members =
     (if current_id \<noteq> start_id then
        (case map_of m current_id of
           None \<Rightarrow> Inl Std_out_of_range
         | Some nx \<Rightarrow> sparse_walk fuel m start_id nx (members @ [current_id]))
      else Inr members)"

definition collect_group_members :: "(inner_id \<times> inner_id) list \<Rightarrow> inner_id \<Rightarrow> inner_id list result" where
  "collect_group_members m start_id =
     (case map_of m start_id of
        None \<Rightarrow> Inr []
      | Some nx \<Rightarrow> sparse_walk (length m + 1) m start_id nx [start_id])"

text \<open>\<open>*std::min_element\<close>; dereferencing the end iterator of an empty vector is undefined.\<close>

definition canonical_group_id :: "inner_id list \<Rightarrow> inner_id result" where
  "canonical_group_id members = (if members = [] then Inl UB else Inr (Min (set members)))"

fun sparse_link :: "inner_id \<Rightarrow> inner_id list \<Rightarrow> (inner_id \<times> inner_id) list \<Rightarrow> (inner_id \<times> inner_id) list" where
  "sparse_link first (a # b # rest) m = sparse_link first (b # rest) (AList.update a b m)"
| "sparse_link first [a] m = AList.update a first m"
| "sparse_link first [] m = m"

definition rebuild_group ::
  "inner_id list \<Rightarrow> (inner_id \<times> inner_id) list \<times> nat \<Rightarrow> (inner_id \<times> inner_id) list \<times> nat" where
  "rebuild_group ordered_members = (\<lambda>(next_ids, duplicate_group_count).
     if length ordered_members < 2 then (next_ids, duplicate_group_count)
     else (sparse_link (hd ordered_members) ordered_members next_ids, u64 (duplicate_group_count + 1)))"

text \<open>An empty group would make \<open>reserve(size() - 1)\<close> throw.\<close>

definition write_group ::
  "(inner_id \<times> inner_id) list \<Rightarrow> inner_id \<Rightarrow> stream_writer \<Rightarrow> stream_writer result" where
  "write_group next_ids group_id writer =
     bindR (collect_group_members next_ids group_id) (\<lambda>members.
       if members = [] then Inl Std_length_error
       else Inr (WriteVector 4 (tl members) (WriteObj 4 group_id writer)))"

definition to_ordered_members :: "inner_id list \<Rightarrow> inner_id list result" where
  "to_ordered_members members =
     (if length members < 2 then Inr members
      else bindR (canonical_group_id members) (\<lambda>group_id.
             Inr (group_id # filter (\<lambda>x. x \<noteq> group_id) members)))"

definition Sparse_GetDuplicateIds :: "sparse_tracker \<Rightarrow> inner_id \<Rightarrow> inner_id list result" where
  "Sparse_GetDuplicateIds t vid =
     (let m = sd_next_ids t
      in case map_of m vid of
           None \<Rightarrow> Inr []
         | Some nx \<Rightarrow> sparse_walk (length m + 1) m vid nx [])"

fun sparse_min_walk ::
  "nat \<Rightarrow> (inner_id \<times> inner_id) list \<Rightarrow> inner_id \<Rightarrow> inner_id \<Rightarrow> inner_id \<Rightarrow> inner_id result" where
  "sparse_min_walk 0 m vid current_id group_id = Inl Diverges"
| "sparse_min_walk (Suc fuel) m vid current_id group_id =
     (if current_id \<noteq> vid then
        (case map_of m current_id of
           None \<Rightarrow> Inl Std_out_of_range
         | Some nx \<Rightarrow> sparse_min_walk fuel m vid nx (min group_id current_id))
      else Inr group_id)"

definition Sparse_GetGroupId :: "sparse_tracker \<Rightarrow> inner_id \<Rightarrow> inner_id result" where
  "Sparse_GetGroupId t vid =
     (let m = sd_next_ids t
      in case map_of m vid of
           None \<Rightarrow> Inr vid
         | Some nx \<Rightarrow> sparse_min_walk (length m + 1) m vid nx vid)"

definition sparse_serialize_step ::
  "(inner_id \<times> inner_id) list \<Rightarrow> inner_id \<Rightarrow> stream_writer \<times> inner_id set \<Rightarrow> (stream_writer \<times> inner_id set) result"
  where
  "sparse_serialize_step m vid = (\<lambda>(writer, visited).
     if vid \<in> visited then Inr (writer, visited)
     else
       bindR (collect_group_members m vid) (\<lambda>members.
       bindR (canonical_group_id members) (\<lambda>group_id.
       bindR (write_group m group_id writer) (\<lambda>w1. Inr (w1, visited \<union> set members)))))"

definition Sparse_Serialize :: "sparse_tracker \<Rightarrow> stream_writer \<Rightarrow> stream_writer result" where
  "Sparse_Serialize t writer =
     (let m = sd_next_ids t;
          w1 = WriteObj 8 (sd_duplicate_count t) writer
      in bindR (foldR (sparse_serialize_step m) (map fst m) (w1, {})) (\<lambda>(w2, visited). Inr w2))"

definition sparse_read_group ::
  "'r rd \<Rightarrow> (inner_id \<times> inner_id) list \<times> nat \<Rightarrow> 'r \<Rightarrow> (((inner_id \<times> inner_id) list \<times> nat) \<times> 'r) result" where
  "sparse_read_group rd s r =
     bindR (ReadObj rd 4 r) (\<lambda>(group_id, r1).
     bindR (ReadVector rd 4 r1) (\<lambda>(dup_list, r2).
     bindR (to_ordered_members (group_id # dup_list)) (\<lambda>ordered.
     Inr (rebuild_group ordered s, r2))))"

definition Sparse_Deserialize :: "'r rd \<Rightarrow> sparse_tracker \<Rightarrow> 'r \<Rightarrow> (sparse_tracker \<times> 'r) result" where
  "Sparse_Deserialize rd t r =
     (if sd_has_deserialized t then Inr (t, r)
      else
        bindR (ReadObj rd 8 r) (\<lambda>(group_count, r1).
        bindR (read_loop group_count (sparse_read_group rd) ([], 0) r1) (\<lambda>((m, count), r2).
        Inr (t\<lparr>sd_next_ids := m, sd_duplicate_count := count, sd_has_deserialized := True\<rparr>, r2))))"

definition sparse_read_legacy_group ::
  "'r rd \<Rightarrow> (inner_id \<times> inner_id) list \<times> nat \<Rightarrow> 'r \<Rightarrow> (((inner_id \<times> inner_id) list \<times> nat) \<times> 'r) result" where
  "sparse_read_legacy_group rd s r =
     bindR (ReadObj rd 4 r) (\<lambda>(legacy_group_id, r1).
     bindR (ReadVector rd 4 r1) (\<lambda>(dup_list, r2).
     if dup_list = [] then Inr (s, r2)
     else
       bindR (to_ordered_members (legacy_group_id # dup_list)) (\<lambda>ordered.
       Inr (rebuild_group ordered s, r2))))"

definition Sparse_DeserializeFromLegacyFormat ::
  "'r rd \<Rightarrow> nat \<Rightarrow> sparse_tracker \<Rightarrow> 'r \<Rightarrow> (sparse_tracker \<times> 'r) result" where
  "Sparse_DeserializeFromLegacyFormat rd total_size t r =
     (if sd_has_deserialized t then Inr (t, r)
      else
        bindR (ReadObj rd 8 r) (\<lambda>(legacy_group_count, r1).
        bindR (read_loop legacy_group_count (sparse_read_legacy_group rd) ([], 0) r1) (\<lambda>((m, count), r2).
        Inr (t\<lparr>sd_next_ids := m, sd_duplicate_count := count, sd_has_deserialized := True\<rparr>, r2))))"

definition Sparse_Resize :: "nat \<Rightarrow> sparse_tracker \<Rightarrow> sparse_tracker" where
  "Sparse_Resize new_size t = t"

section \<open>Rings of successors\<close>

text \<open>Both trackers seen as a partial map of successors whose entries form disjoint rings.\<close>

type_synonym links = "inner_id \<rightharpoonup> inner_id"

text \<open>\<open>linked nx x ys z\<close>: from \<open>x\<close> through \<open>ys\<close>, one after the other, to \<open>z\<close>.\<close>

fun linked :: "links \<Rightarrow> inner_id \<Rightarrow> inner_id list \<Rightarrow> inner_id \<Rightarrow> bool" where
  "linked nx x [] z \<longleftrightarrow> nx x = Some z"
| "linked nx x (y # ys) z \<longleftrightarrow> nx x = Some y \<and> linked nx y ys z"

fun ring :: "links \<Rightarrow> inner_id list \<Rightarrow> bool" where
  "ring nx [] \<longleftrightarrow> False"
| "ring nx (x # ys) \<longleftrightarrow> ys \<noteq> [] \<and> distinct (x # ys) \<and> linked nx x ys x"

definition rings :: "links \<Rightarrow> inner_id list list \<Rightarrow> bool" where
  "rings nx gs \<longleftrightarrow> distinct (concat gs) \<and> (\<forall>g\<in>set gs. ring nx g) \<and> dom nx = set (concat gs)"

definition links_ok :: "links \<Rightarrow> bool" where
  "links_ok nx \<longleftrightarrow> (\<exists>gs. rings nx gs)"

text \<open>The group of an identifier: what its successors reach.\<close>

definition grp :: "links \<Rightarrow> inner_id \<Rightarrow> inner_id set" where
  "grp nx x = {y. (\<lambda>a b. nx a = Some b)\<^sup>*\<^sup>* x y}"

definition group_count :: "links \<Rightarrow> nat" where
  "group_count nx = card (grp nx ` dom nx)"

lemma linked_append: "linked nx x (ys @ z # zs) w \<longleftrightarrow> linked nx x ys z \<and> linked nx z zs w"
  by (induction ys arbitrary: x) auto

lemma linked_cong:
  "(\<And>c. c \<in> set (x # ys) \<Longrightarrow> nx c = nx' c) \<Longrightarrow> linked nx x ys z = linked nx' x ys z"
  by (induction ys arbitrary: x) auto

lemma linked_determines:
  "linked nx x ys z \<Longrightarrow> linked nx' x ys z \<Longrightarrow> c \<in> set (x # ys) \<Longrightarrow> nx c = nx' c"
  by (induction ys arbitrary: x) auto

lemma linked_dom: "linked nx x ys z \<Longrightarrow> set (x # ys) \<subseteq> dom nx"
  by (induction ys arbitrary: x) auto

lemma linked_reach: "linked nx x ys z \<Longrightarrow> y \<in> set (ys @ [z]) \<Longrightarrow> (\<lambda>a b. nx a = Some b)\<^sup>*\<^sup>* x y"
proof (induction ys arbitrary: x)
  case Nil
  then show ?case by (auto intro: r_into_rtranclp)
next
  case (Cons a ys)
  then show ?case by (auto intro: converse_rtranclp_into_rtranclp r_into_rtranclp)
qed

lemma linked_step: "linked nx x ys z \<Longrightarrow> c \<in> set (x # ys) \<Longrightarrow> nx c = Some d \<Longrightarrow> d \<in> set (ys @ [z])"
  by (induction ys arbitrary: x) auto

lemma ring_cong: "(\<And>c. c \<in> set g \<Longrightarrow> nx c = nx' c) \<Longrightarrow> ring nx g = ring nx' g"
  using linked_cong [of "hd g" "tl g" nx nx' "hd g"] by (cases g) auto

lemma ring_dom: "ring nx g \<Longrightarrow> set g \<subseteq> dom nx"
  by (cases g) (use linked_dom in fastforce)+

lemma rings_None: "rings nx gs \<Longrightarrow> nx x = None \<longleftrightarrow> x \<notin> set (concat gs)"
  unfolding rings_def by (metis domIff)

lemma ring_rotate:
  assumes "ring nx g" "x \<in> set g"
  obtains ys where "ring nx (x # ys)" "set (x # ys) = set g" "length (x # ys) = length g"
proof -
  obtain as bs where g: "g = as @ x # bs" using assms(2) by (meson split_list)
  show ?thesis
  proof (cases as)
    case Nil
    then show ?thesis using assms(1) g by (intro that [of bs]) auto
  next
    case (Cons a as')
    have "linked nx a as' x" "linked nx x bs a" using assms(1) g Cons by (auto simp: linked_append)
    then have "linked nx x (bs @ a # as') x" by (simp add: linked_append)
    then show ?thesis using assms(1) g Cons by (intro that [of "bs @ a # as'"]) auto
  qed
qed

lemma ring_grp:
  assumes "ring nx g" "x \<in> set g"
  shows "grp nx x = set g"
proof -
  obtain ys where ys: "ring nx (x # ys)" "set (x # ys) = set g" using ring_rotate [OF assms] by metis
  then have l: "linked nx x ys x" by simp
  have "y \<in> set (x # ys)" if "(\<lambda>a b. nx a = Some b)\<^sup>*\<^sup>* x y" for y
    using that
  proof (induction rule: rtranclp_induct)
    case (step y z)
    then show ?case using linked_step [OF l] by auto
  qed simp
  moreover have "(\<lambda>a b. nx a = Some b)\<^sup>*\<^sup>* x y" if "y \<in> set (x # ys)" for y
    using linked_reach [OF l] that by auto
  ultimately show ?thesis unfolding grp_def ys(2) [symmetric] by blast
qed

lemma grp_None: "nx x = None \<Longrightarrow> grp nx x = {x}"
  unfolding grp_def by (auto elim: converse_rtranclpE)

lemma rings_focus:
  assumes "rings nx gs" "x \<in> dom nx"
  obtains ys gs' where "rings nx ((x # ys) # gs')" "length gs = Suc (length gs')"
proof -
  obtain g where g: "g \<in> set gs" "x \<in> set g" using assms by (auto simp: rings_def)
  then obtain as bs where gs: "gs = as @ g # bs" by (meson split_list)
  have "ring nx g" using assms(1) g(1) by (simp add: rings_def)
  from ring_rotate [OF this g(2)] obtain ys where ys: "ring nx (x # ys)" "set (x # ys) = set g" by metis
  then have "distinct (x # ys)" by simp
  then have "rings nx ((x # ys) # as @ bs)"
    using assms(1) ys(1) ys(2) [symmetric] unfolding rings_def gs by auto
  then show ?thesis using gs by (intro that [of ys "as @ bs"]) auto
qed

lemma links_ok_ring: "links_ok nx \<Longrightarrow> x \<in> dom nx \<Longrightarrow> \<exists>ys. ring nx (x # ys)"
  unfolding links_ok_def by (meson rings_focus rings_def list.set_intros(1))

lemma group_count_rings:
  assumes "rings nx gs"
  shows "group_count nx = length gs"
proof -
  have ne: "\<forall>g\<in>set gs. ring nx g" "distinct (concat gs)" "dom nx = set (concat gs)"
    using assms by (auto simp: rings_def)
  have "grp nx ` dom nx = set ` set gs"
  proof (intro equalityI subsetI)
    fix A assume "A \<in> set ` set gs"
    then obtain g where g: "g \<in> set gs" "A = set g" by blast
    then obtain x where "x \<in> set g" using ne(1) by (metis list.set_intros(1) ring.elims(2))
    then show "A \<in> grp nx ` dom nx" using g ne ring_grp [of nx g x] by auto
  qed (use ne in \<open>fastforce simp: image_iff dest: ring_grp\<close>)
  moreover have "inj_on set (set gs)"
  proof (rule inj_onI)
    fix g h assume gh: "g \<in> set gs" "h \<in> set gs" "set g = set h"
    moreover have "g \<noteq> []" using ne(1) gh(1) by auto
    ultimately show "g = h" using ne(2)
      by (metis Int_absorb distinct_concat_iff set_empty2)
  qed
  moreover have "[] \<notin> set gs" using ne(1) by auto
  then have "distinct gs" using ne(2) by (simp add: distinct_concat_iff removeAll_id)
  ultimately show ?thesis by (simp add: group_count_def card_image distinct_card)
qed

lemma grp_partition:
  assumes "links_ok nx"
  shows "x \<in> grp nx x" "finite (grp nx x)" "y \<in> grp nx x \<Longrightarrow> grp nx y = grp nx x"
    "grp nx x = {x} \<longleftrightarrow> nx x = None"
proof -
  show "x \<in> grp nx x" by (simp add: grp_def)
  show "finite (grp nx x)"
  proof (cases "nx x")
    case (Some y)
    then show ?thesis using links_ok_ring [OF assms, of x] ring_grp
      by (metis List.finite_set domI list.set_intros(1))
  qed (simp add: grp_None)
  show "grp nx y = grp nx x" if "y \<in> grp nx x"
  proof (cases "nx x")
    case None
    then show ?thesis using that by (simp add: grp_None)
  next
    case (Some z)
    then obtain ys where r: "ring nx (x # ys)" using links_ok_ring [OF assms, of x] by auto
    have "grp nx x = set (x # ys)" by (rule ring_grp [OF r]) simp
    then show ?thesis using ring_grp [OF r, of y] that by simp
  qed
  show "grp nx x = {x} \<longleftrightarrow> nx x = None"
  proof
    assume single: "grp nx x = {x}"
    show "nx x = None"
    proof (rule ccontr)
      assume "nx x \<noteq> None"
      then obtain ys where r: "ring nx (x # ys)" using links_ok_ring [OF assms, of x] by auto
      have "grp nx x = set (x # ys)" by (rule ring_grp [OF r]) simp
      then show False using r single by (cases ys) auto
    qed
  qed (rule grp_None)
qed

subsection \<open>Linking a lone identifier into a ring\<close>

definition link :: "inner_id \<Rightarrow> inner_id \<Rightarrow> links \<Rightarrow> links" where
  "link g d nx = nx(d \<mapsto> (case nx g of None \<Rightarrow> g | Some n \<Rightarrow> n), g \<mapsto> d)"

text \<open>The partition that \<open>SetDuplicateId\<close> is meant to produce.\<close>

definition spec_set :: "inner_id \<Rightarrow> inner_id \<Rightarrow> (inner_id \<Rightarrow> inner_id set) \<Rightarrow> inner_id \<Rightarrow> inner_id set" where
  "spec_set g d P =
     (if g \<noteq> d \<and> P d = {d}
      then (\<lambda>x. if x \<in> insert d (P g) then insert d (P g) else P x) else P)"

lemma link_rings:
  assumes "links_ok nx" "nx d = None" "g \<noteq> d"
  obtains ys gs where "rings (link g d nx) ((g # d # ys) # gs)" "grp nx g = set (g # ys)"
    "\<forall>r\<in>set gs. ring nx r" "dom nx \<union> {g} = set (g # ys) \<union> set (concat gs)"
    "length gs + (if nx g = None then 0 else 1) = group_count nx"
proof (cases "nx g")
  case None
  obtain gs where gs: "rings nx gs" using assms(1) by (auto simp: links_ok_def)
  have "\<forall>r\<in>set gs. ring (link g d nx) r"
  proof
    fix r assume r: "r \<in> set gs"
    then have "g \<notin> set r" "d \<notin> set r" using rings_None [OF gs] None assms(2) by auto
    then show "ring (link g d nx) r" using gs r
      by (subst ring_cong [of r _ nx]) (auto simp: link_def rings_def)
  qed
  moreover have "link g d nx = nx(d \<mapsto> g, g \<mapsto> d)" using None by (simp add: link_def)
  moreover have "g \<notin> set (concat gs)" "d \<notin> set (concat gs)"
    using None assms(2) rings_None [OF gs] by blast+
  ultimately have "rings (link g d nx) ([g, d] # gs)"
    using gs assms(3) by (auto simp: rings_def)
  then show ?thesis using gs None group_count_rings [OF gs]
    by (intro that [of "[]" gs]) (auto simp: grp_None rings_def)
next
  case (Some n)
  obtain gs0 where "rings nx gs0" using assms(1) by (auto simp: links_ok_def)
  moreover have "g \<in> dom nx" using Some by auto
  ultimately obtain ys gs where gs: "rings nx ((g # ys) # gs)" by (metis rings_focus)
  then have d: "d \<notin> set (g # ys)" "d \<notin> set (concat gs)" using rings_None [OF gs] assms(2) by auto
  have l: "linked nx g ys g" "ys \<noteq> []" using gs by (auto simp: rings_def)
  then obtain y zs where ys: "ys = n # zs" using Some by (cases ys) auto
  have "linked (link g d nx) n zs g"
    using l(1) d gs unfolding ys by (subst linked_cong [of n zs _ nx]) (auto simp: link_def rings_def)
  then have "ring (link g d nx) (g # d # ys)"
    using Some d gs assms(3) unfolding ys by (auto simp: link_def rings_def)
  moreover have "\<forall>r\<in>set gs. ring (link g d nx) r"
  proof
    fix r assume r: "r \<in> set gs"
    then have "g \<notin> set r" "d \<notin> set r" using gs d by (auto simp: rings_def)
    then show "ring (link g d nx) r" using gs r
      by (subst ring_cong [of r _ nx]) (auto simp: link_def rings_def)
  qed
  ultimately have "rings (link g d nx) ((g # d # ys) # gs)"
    using gs d assms(3) by (auto simp: rings_def link_def dom_def)
  moreover have "grp nx g = set (g # ys)" using gs by (intro ring_grp) (auto simp: rings_def)
  moreover have "dom nx \<union> {g} = set (g # ys) \<union> set (concat gs)" using gs by (auto simp: rings_def)
  ultimately show ?thesis using gs Some group_count_rings [OF gs]
    by (intro that [of ys gs]) (auto simp: rings_def)
qed

lemma link_ok:
  assumes "links_ok nx" "nx d = None" "g \<noteq> d"
  shows "links_ok (link g d nx)" "grp (link g d nx) = spec_set g d (grp nx)"
    "group_count (link g d nx) = group_count nx + (if nx g = None then 1 else 0)"
proof -
  obtain ys gs where r: "rings (link g d nx) ((g # d # ys) # gs)" "grp nx g = set (g # ys)"
    "\<forall>r\<in>set gs. ring nx r" "dom nx \<union> {g} = set (g # ys) \<union> set (concat gs)"
    "length gs + (if nx g = None then 0 else 1) = group_count nx"
    using link_rings [OF assms] by metis
  show "links_ok (link g d nx)" using r(1) by (auto simp: links_ok_def)
  show "group_count (link g d nx) = group_count nx + (if nx g = None then 1 else 0)"
    using group_count_rings [OF r(1)] r(5) by auto
  show "grp (link g d nx) = spec_set g d (grp nx)"
  proof
    fix x
    have joined: "spec_set g d (grp nx) x = (if x \<in> set (g # d # ys) then set (g # d # ys) else grp nx x)"
      using assms grp_None [of nx d] r(2) by (auto simp: spec_set_def)
    show "grp (link g d nx) x = spec_set g d (grp nx) x"
    proof (cases "x \<in> set (g # d # ys)")
      case True
      have "ring (link g d nx) (g # d # ys)" using r(1) by (simp add: rings_def)
      from ring_grp [OF this True] show ?thesis using joined True by simp
    next
      case False
      show ?thesis
      proof (cases "x \<in> set (concat gs)")
        case True
        then obtain h where h: "h \<in> set gs" "x \<in> set h" by auto
        have "ring (link g d nx) h" using r(1) h(1) by (simp add: rings_def)
        then show ?thesis using joined False ring_grp h r(3) by metis
      next
        case f: False
        then have "link g d nx x = None" using r(1) False by (auto simp: rings_def dom_def)
        moreover have "nx x = None" using r(4) f False by auto
        ultimately show ?thesis using joined False by (simp add: grp_None)
      qed
    qed
  qed
qed


section \<open>The interface\<close>

text \<open>
  What \<open>DuplicateInterface\<close> promises, over the partition \<open>part\<close> that a tracker keeps of the
  identifiers it covers: \<open>SetDuplicateId\<close> adds a lone identifier to a group,
  \<open>GetDuplicateIds\<close> returns the rest of a group, \<open>GetGroupId\<close> its least member.
\<close>

locale duplicate_interface =
  fixes SetDuplicateId :: "inner_id \<Rightarrow> inner_id \<Rightarrow> 's \<Rightarrow> 's"
    and GetDuplicateIds :: "'s \<Rightarrow> inner_id \<Rightarrow> inner_id list result"
    and GetGroupId :: "'s \<Rightarrow> inner_id \<Rightarrow> inner_id result"
    and covers :: "'s \<Rightarrow> inner_id \<Rightarrow> bool"
    and inv :: "'s \<Rightarrow> bool"
    and part :: "'s \<Rightarrow> inner_id \<Rightarrow> inner_id set"
  assumes set_inv: "inv s \<Longrightarrow> covers s g \<Longrightarrow> covers s d \<Longrightarrow> inv (SetDuplicateId g d s)"
    and set_part: "inv s \<Longrightarrow> covers s g \<Longrightarrow> covers s d \<Longrightarrow>
      part (SetDuplicateId g d s) = spec_set g d (part s)"
    and set_covers: "covers (SetDuplicateId g d s) x = covers s x"
    and part_self: "inv s \<Longrightarrow> x \<in> part s x"
    and part_finite: "inv s \<Longrightarrow> finite (part s x)"
    and part_eq: "inv s \<Longrightarrow> y \<in> part s x \<Longrightarrow> part s y = part s x"
    and ids_ok: "inv s \<Longrightarrow> \<exists>l. GetDuplicateIds s x = Inr l \<and> distinct l \<and> set l = part s x - {x}"
    and group_ok: "inv s \<Longrightarrow> GetGroupId s x = Inr (Min (part s x))"
begin

definition set_all :: "(inner_id \<times> inner_id) list \<Rightarrow> 's \<Rightarrow> 's" where
  "set_all ps = fold (\<lambda>(g, d). SetDuplicateId g d) ps"

lemma set_all_ok:
  assumes "inv s" "\<forall>(g, d)\<in>set ps. covers s g \<and> covers s d"
  shows "inv (set_all ps s) \<and> part (set_all ps s) = fold (\<lambda>(g, d). spec_set g d) ps (part s)"
  using assms
proof (induction ps arbitrary: s)
  case (Cons p ps)
  obtain g d where p: "p = (g, d)" by fastforce
  then have "covers s g" "covers s d" using Cons.prems(2) by auto
  moreover have "\<forall>(g', d')\<in>set ps. covers (SetDuplicateId g d s) g' \<and> covers (SetDuplicateId g d s) d'"
    using Cons.prems(2) by (auto simp: set_covers)
  ultimately show ?case using Cons.IH [of "SetDuplicateId g d s"] Cons.prems(1) p
    by (simp add: set_all_def set_inv set_part)
qed (simp add: set_all_def)

text \<open>Two identifiers have the same group id exactly if they are in one group.\<close>

lemma group_id_eq_iff:
  assumes "inv s"
  shows "GetGroupId s x = GetGroupId s y \<longleftrightarrow> y \<in> part s x"
proof -
  have "Min (part s z) \<in> part s z" for z
    using part_finite [OF assms] part_self [OF assms] by (metis Min_in empty_iff)
  then have "Min (part s x) = Min (part s y) \<longleftrightarrow> part s x = part s y"
    using part_eq [OF assms] by metis
  then show ?thesis
    using group_ok [OF assms] part_self [OF assms] part_eq [OF assms] by auto
qed

end

section \<open>The dense tracker implements the interface\<close>

definition dense_links :: "inner_id list \<Rightarrow> links" where
  "dense_links ids x = (if x < length ids \<and> ids ! x \<noteq> x then Some (ids ! x) else None)"

definition dense_inv :: "dense_tracker \<Rightarrow> bool" where
  "dense_inv t \<longleftrightarrow> links_ok (dense_links (dd_duplicate_ids t)) \<and> length (dd_duplicate_ids t) \<le> 2 ^ 32 \<and>
     dd_duplicate_count t = group_count (dense_links (dd_duplicate_ids t))"

lemma dense_links_Some [simp]: "dense_links ids x = Some y \<longleftrightarrow> x < length ids \<and> y = ids ! x \<and> y \<noteq> x"
  by (auto simp: dense_links_def)

lemma dense_links_None [simp]: "dense_links ids x = None \<longleftrightarrow> length ids \<le> x \<or> ids ! x = x"
  by (auto simp: dense_links_def)

lemma dense_dom: "dom (dense_links ids) \<subseteq> {..<length ids}"
  by auto

lemma ring_length:
  assumes "ring nx g" "dom nx \<subseteq> A" "finite A"
  shows "length g \<le> card A"
proof -
  have "distinct g" using assms(1) by (cases g) auto
  then have "length g = card (set g)" by (simp add: distinct_card)
  also have "\<dots> \<le> card A" using ring_dom [OF assms(1)] assms(2,3) by (intro card_mono) auto
  finally show ?thesis .
qed

lemma group_count_le: "dom nx \<subseteq> A \<Longrightarrow> finite A \<Longrightarrow> group_count nx \<le> card A"
  unfolding group_count_def by (metis card_image_le card_mono finite_subset order_trans)

lemma dense_ring_length: "ring (dense_links ids) g \<Longrightarrow> length g \<le> length ids"
  using ring_length [OF _ dense_dom] by force

lemma dense_walk_linked:
  "linked (dense_links ids) c ys s \<Longrightarrow> s \<notin> set ys \<Longrightarrow> length ys < fuel \<Longrightarrow>
    dense_walk fuel ids s c acc = Inr (acc @ ys)"
proof (induction ys arbitrary: c acc fuel)
  case Nil
  then show ?case by (cases fuel) auto
next
  case (Cons y ys)
  then show ?case by (cases fuel) auto
qed

lemma Min_insert_min:
  "finite S \<Longrightarrow> S \<noteq> {} \<Longrightarrow> Min (insert (min m c) S) = Min (insert m (insert (c :: inner_id) S))"
  by (simp add: min.assoc)

lemma dense_min_walk_linked:
  "linked (dense_links ids) c ys s \<Longrightarrow> s \<notin> set (c # ys) \<Longrightarrow> Suc (length ys) < fuel \<Longrightarrow>
    dense_min_walk fuel ids s c m = Inr (Min (insert m (set (c # ys))))"
proof (induction ys arbitrary: c m fuel)
  case Nil
  then obtain f where "fuel = Suc (Suc f)" by (cases fuel; cases "fuel - 1") auto
  then show ?case using Nil by (auto simp: min.commute)
next
  case (Cons y ys)
  then obtain f where f: "fuel = Suc f" "Suc (length ys) < f" by (cases fuel) auto
  have "Min (insert (min m c) (set (y # ys))) = Min (insert m (set (c # y # ys)))"
    using Min_insert_min [of "set (y # ys)" m c] by simp
  moreover have "dense_min_walk f ids s y (min m c) = Inr (Min (insert (min m c) (set (y # ys))))"
    using Cons.prems f(2) by (intro Cons.IH) auto
  ultimately show ?case using Cons.prems f(1) by auto
qed

lemma dense_get:
  assumes "links_ok (dense_links ids)" "x < length ids"
  shows "\<exists>l. dense_walk (length ids + 1) ids x x [] = Inr l \<and> distinct l \<and> set l = grp (dense_links ids) x - {x}"
    "dense_min_walk (length ids + 1) ids x (ids ! x) x = Inr (Min (grp (dense_links ids) x))"
proof -
  show "\<exists>l. dense_walk (length ids + 1) ids x x [] = Inr l \<and> distinct l \<and> set l = grp (dense_links ids) x - {x}"
  proof (cases "ids ! x = x")
    case True
    then show ?thesis using assms(2) grp_None [of "dense_links ids" x] by simp
  next
    case False
    then obtain ys where r: "ring (dense_links ids) (x # ys)"
      using links_ok_ring [OF assms(1), of x] assms(2) by (auto simp: domIff simp del: ring.simps)
    have "length ys < length ids + 1" using dense_ring_length [OF r] by simp
    then have "dense_walk (length ids + 1) ids x x [] = Inr ([] @ ys)"
      using r by (intro dense_walk_linked) auto
    moreover have "distinct ys" "set ys = grp (dense_links ids) x - {x}"
      using r ring_grp [OF r, of x] by auto
    ultimately show ?thesis by simp
  qed
  show "dense_min_walk (length ids + 1) ids x (ids ! x) x = Inr (Min (grp (dense_links ids) x))"
  proof (cases "ids ! x = x")
    case True
    then show ?thesis using grp_None [of "dense_links ids" x] by simp
  next
    case False
    then obtain ys where r: "ring (dense_links ids) (x # ys)"
      using links_ok_ring [OF assms(1), of x] assms(2) by (auto simp: domIff simp del: ring.simps)
    then obtain zs where zs: "ys = ids ! x # zs" by (cases ys) auto
    have "Suc (length zs) < length ids + 1" using dense_ring_length [OF r] zs by simp
    from dense_min_walk_linked [OF _ _ this, of ids "ids ! x" x x] r zs ring_grp [OF r, of x]
    show ?thesis by auto
  qed
qed

lemma dense_set_links:
  assumes "g < length ids" "d < length ids" "g \<noteq> d" "ids ! d = d" "ids ! g \<noteq> d"
  shows "dense_links (ids[d := ids ! g, g := d]) = link g d (dense_links ids)"
  using assms by (auto simp: link_def dense_links_def nth_list_update fun_eq_iff)

lemma dense_set_ok:
  assumes "dense_inv t" "g < length (dd_duplicate_ids t)" "d < length (dd_duplicate_ids t)"
  shows "dense_inv (Dense_SetDuplicateId g d t)"
    "grp (dense_links (dd_duplicate_ids (Dense_SetDuplicateId g d t))) =
       spec_set g d (grp (dense_links (dd_duplicate_ids t)))"
proof -
  let ?ids = "dd_duplicate_ids t" and ?nx = "dense_links (dd_duplicate_ids t)"
  have ok: "links_ok ?nx" using assms(1) by (simp add: dense_inv_def)
  have alone: "grp ?nx d = {d} \<longleftrightarrow> ?ids ! d = d"
    using grp_partition(4) [OF ok, of d] assms(3) by auto
  have "dense_inv (Dense_SetDuplicateId g d t) \<and>
      grp (dense_links (dd_duplicate_ids (Dense_SetDuplicateId g d t))) = spec_set g d (grp ?nx)"
  proof (cases "g \<noteq> d \<and> ?ids ! d = d")
    case False
    then show ?thesis using assms alone by (auto simp: Dense_SetDuplicateId_def spec_set_def Let_def)
  next
    case True
    define ids2 where "ids2 = ?ids[d := ?ids ! g, g := d]"
    have "?ids ! g \<noteq> d"
    proof
      assume gd: "?ids ! g = d"
      then obtain ys where "ring ?nx (g # ys)"
        using links_ok_ring [OF ok, of g] True assms(2) by (auto simp: domIff simp del: ring.simps)
      then have "d \<in> dom ?nx" using gd ring_dom [of ?nx "g # ys"] by (cases ys) auto
      then show False using True by auto
    qed
    then have l: "dense_links ids2 = link g d ?nx" unfolding ids2_def using True assms by (intro dense_set_links) auto
    have "?nx d = None" using True by simp
    note lk = link_ok [OF ok this, of g]
    have "group_count (link g d ?nx) \<le> length ids2"
      using group_count_le [OF dense_dom, of ids2] l by simp
    moreover have "length ids2 \<le> 2 ^ 32" using assms(1) by (simp add: ids2_def dense_inv_def)
    ultimately have "u64 (dd_duplicate_count t + (if ?nx g = None then 1 else 0)) = group_count (link g d ?nx)"
      using lk(3) True assms(1) by (simp add: dense_inv_def)
    then have c: "dd_duplicate_count (Dense_SetDuplicateId g d t) = group_count (link g d ?nx)"
      using True assms lk(3)
      by (auto simp: Dense_SetDuplicateId_def Let_def dense_inv_def)
    have i: "dd_duplicate_ids (Dense_SetDuplicateId g d t) = ids2"
      using True assms by (auto simp: Dense_SetDuplicateId_def Let_def ids2_def)
    show ?thesis using True lk assms(1) c i l by (simp add: dense_inv_def) (simp add: ids2_def)
  qed
  then show "dense_inv (Dense_SetDuplicateId g d t)"
    "grp (dense_links (dd_duplicate_ids (Dense_SetDuplicateId g d t))) = spec_set g d (grp ?nx)"
    by blast+
qed

lemma dense_set_length [simp]:
  "length (dd_duplicate_ids (Dense_SetDuplicateId g d t)) = length (dd_duplicate_ids t)"
  by (simp add: Dense_SetDuplicateId_def Let_def)

interpretation dense: duplicate_interface Dense_SetDuplicateId Dense_GetDuplicateIds Dense_GetGroupId
  "\<lambda>t x. x < length (dd_duplicate_ids t)" dense_inv "\<lambda>t. grp (dense_links (dd_duplicate_ids t))"
proof (unfold_locales, goal_cases)
  case (1 t g d)
  then show ?case by (rule dense_set_ok)
next
  case (2 t g d)
  then show ?case by (rule dense_set_ok)
next
  case (7 t x)
  then show ?case using dense_get(1) [of "dd_duplicate_ids t" x] grp_None [of "dense_links (dd_duplicate_ids t)" x]
    by (auto simp: Dense_GetDuplicateIds_def dense_inv_def Let_def)
next
  case (8 t x)
  then show ?case using dense_get(2) [of "dd_duplicate_ids t" x] grp_None [of "dense_links (dd_duplicate_ids t)" x]
    by (auto simp: Dense_GetGroupId_def dense_inv_def Let_def)
qed (auto simp: dense_inv_def grp_partition)

section \<open>The sparse tracker implements the interface\<close>

definition sparse_inv :: "sparse_tracker \<Rightarrow> bool" where
  "sparse_inv t \<longleftrightarrow> distinct (map fst (sd_next_ids t)) \<and> links_ok (map_of (sd_next_ids t)) \<and>
     (\<forall>x\<in>dom (map_of (sd_next_ids t)). x < 2 ^ 32) \<and>
     sd_duplicate_count t = group_count (map_of (sd_next_ids t))"

lemma sparse_ring_length: "ring (map_of m) g \<Longrightarrow> length g \<le> length m"
  using ring_length [of "map_of m" g "fst ` set m"] card_image_le [of "set m" fst] card_length [of m]
  by (auto simp: dom_map_of_conv_image_fst)

lemma sparse_walk_linked:
  "linked (map_of m) c ys s \<Longrightarrow> s \<notin> set (c # ys) \<Longrightarrow> Suc (length ys) < fuel \<Longrightarrow>
    sparse_walk fuel m s c acc = Inr (acc @ c # ys)"
proof (induction ys arbitrary: c acc fuel)
  case Nil
  then obtain f where "fuel = Suc (Suc f)" by (cases fuel; cases "fuel - 1") auto
  then show ?case using Nil by auto
next
  case (Cons y ys)
  then obtain f where f: "fuel = Suc f" "Suc (length ys) < f" by (cases fuel) auto
  have "sparse_walk f m s y (acc @ [c]) = Inr ((acc @ [c]) @ y # ys)"
    using Cons.prems f(2) by (intro Cons.IH) auto
  then show ?case using Cons.prems f(1) by auto
qed

lemma sparse_min_walk_linked:
  "linked (map_of m) c ys s \<Longrightarrow> s \<notin> set (c # ys) \<Longrightarrow> Suc (length ys) < fuel \<Longrightarrow>
    sparse_min_walk fuel m s c k = Inr (Min (insert k (set (c # ys))))"
proof (induction ys arbitrary: c k fuel)
  case Nil
  then obtain f where "fuel = Suc (Suc f)" by (cases fuel; cases "fuel - 1") auto
  then show ?case using Nil by (auto simp: min.commute)
next
  case (Cons y ys)
  then obtain f where f: "fuel = Suc f" "Suc (length ys) < f" by (cases fuel) auto
  have "Min (insert (min k c) (set (y # ys))) = Min (insert k (set (c # y # ys)))"
    using Min_insert_min [of "set (y # ys)" k c] by simp
  moreover have "sparse_min_walk f m s y (min k c) = Inr (Min (insert (min k c) (set (y # ys))))"
    using Cons.prems f(2) by (intro Cons.IH) auto
  ultimately show ?case using Cons.prems f(1) by auto
qed

text \<open>Where a walk starts: the identifier is in a ring that begins with it.\<close>

lemma sparse_ring_at:
  assumes "links_ok (map_of m)" "map_of m x = Some y"
  obtains ys where "ring (map_of m) (x # y # ys)" "linked (map_of m) y ys x" "x \<notin> set (y # ys)"
    "Suc (length ys) < length m + 1" "grp (map_of m) x = insert x (set (y # ys))"
proof -
  obtain zs where r: "ring (map_of m) (x # zs)"
    using links_ok_ring [OF assms(1), of x] assms(2) by (auto simp del: ring.simps)
  then obtain ys where zs: "zs = y # ys" using assms(2) by (cases zs) auto
  show ?thesis
  proof (rule that)
    show "ring (map_of m) (x # y # ys)" using r zs by simp
    show "linked (map_of m) y ys x" "x \<notin> set (y # ys)" using r zs by auto
    show "Suc (length ys) < length m + 1" using sparse_ring_length [OF r] zs by simp
    show "grp (map_of m) x = insert x (set (y # ys))" using ring_grp [OF r, of x] zs by simp
  qed
qed

lemma collect_group_members_ok:
  assumes "links_ok (map_of m)" "map_of m x = Some y"
  obtains ys where "collect_group_members m x = Inr (x # ys)" "ring (map_of m) (x # ys)"
proof -
  obtain ys where ys: "ring (map_of m) (x # y # ys)" "linked (map_of m) y ys x" "x \<notin> set (y # ys)"
    "Suc (length ys) < length m + 1"
    using sparse_ring_at [OF assms] by metis
  from sparse_walk_linked [OF ys(2-4), of "[x]"]
  have "collect_group_members m x = Inr (x # y # ys)"
    using assms(2) by (simp add: collect_group_members_def)
  then show ?thesis using that ys(1) by blast
qed

lemma sparse_get_ids:
  assumes "links_ok (map_of (sd_next_ids t))"
  shows "\<exists>l. Sparse_GetDuplicateIds t x = Inr l \<and> distinct l \<and> set l = grp (map_of (sd_next_ids t)) x - {x}"
proof (cases "map_of (sd_next_ids t) x")
  case None
  then show ?thesis by (simp add: Sparse_GetDuplicateIds_def Let_def grp_None)
next
  case (Some y)
  let ?m = "sd_next_ids t"
  obtain ys where ys: "ring (map_of ?m) (x # y # ys)" "linked (map_of ?m) y ys x" "x \<notin> set (y # ys)"
    "Suc (length ys) < length ?m + 1" "grp (map_of ?m) x = insert x (set (y # ys))"
    using sparse_ring_at [OF assms Some] by metis
  from sparse_walk_linked [OF ys(2-4), of "[]"]
  have "Sparse_GetDuplicateIds t x = Inr (y # ys)"
    using Some by (simp add: Sparse_GetDuplicateIds_def Let_def)
  then show ?thesis using ys by auto
qed

lemma sparse_get_group:
  assumes "links_ok (map_of (sd_next_ids t))"
  shows "Sparse_GetGroupId t x = Inr (Min (grp (map_of (sd_next_ids t)) x))"
proof (cases "map_of (sd_next_ids t) x")
  case None
  then show ?thesis by (simp add: Sparse_GetGroupId_def Let_def grp_None)
next
  case (Some y)
  let ?m = "sd_next_ids t"
  obtain ys where ys: "linked (map_of ?m) y ys x" "x \<notin> set (y # ys)"
    "Suc (length ys) < length ?m + 1" "grp (map_of ?m) x = insert x (set (y # ys))"
    using sparse_ring_at [OF assms Some] by metis
  from sparse_min_walk_linked [OF ys(1-3), of x] show ?thesis
    using Some ys(4) by (simp add: Sparse_GetGroupId_def Let_def)
qed

lemma sparse_set_ok:
  assumes "sparse_inv t" "g < 2 ^ 32" "d < 2 ^ 32"
  shows "sparse_inv (Sparse_SetDuplicateId g d t)"
    "grp (map_of (sd_next_ids (Sparse_SetDuplicateId g d t))) = spec_set g d (grp (map_of (sd_next_ids t)))"
proof -
  let ?m = "sd_next_ids t" and ?t = "Sparse_SetDuplicateId g d t"
  let ?nx = "map_of (sd_next_ids t)"
  have ok: "links_ok ?nx" using assms(1) by (simp add: sparse_inv_def)
  have "sparse_inv ?t \<and> grp (map_of (sd_next_ids ?t)) = spec_set g d (grp ?nx)"
  proof (cases "g \<noteq> d \<and> ?nx d = None")
    case False
    then have "?t = t" by (simp add: Sparse_SetDuplicateId_def)
    moreover have "spec_set g d (grp ?nx) = grp ?nx"
      using False grp_partition(4) [OF ok, of d] by (simp only: spec_set_def if_False simp_thms)
    ultimately show ?thesis using assms(1) by simp
  next
    case True
    then have new: "map_of (sd_next_ids ?t) = link g d ?nx"
      by (cases "?nx g") (auto simp: Sparse_SetDuplicateId_def Let_def link_def update_conv')
    have lk: "links_ok (link g d ?nx)" "grp (link g d ?nx) = spec_set g d (grp ?nx)"
      "group_count (link g d ?nx) = group_count ?nx + (if ?nx g = None then 1 else 0)"
      using link_ok [OF ok, of d g] True by auto
    have dom: "dom (link g d ?nx) \<subseteq> {..<2 ^ 32}"
      using assms by (auto simp: link_def sparse_inv_def)
    have "group_count (link g d ?nx) \<le> card {..<(2 :: nat) ^ 32}"
      by (rule group_count_le [OF dom finite_lessThan])
    then have "u64 (group_count (link g d ?nx)) = group_count (link g d ?nx)" by simp
    then have "sd_duplicate_count ?t = group_count (link g d ?nx)"
      using lk(3) assms(1) True
      by (auto simp: Sparse_SetDuplicateId_def Let_def sparse_inv_def split: option.splits)
    moreover have "distinct (map fst (sd_next_ids ?t))"
      using assms(1) by (auto simp: Sparse_SetDuplicateId_def Let_def sparse_inv_def distinct_update
          split: option.splits)
    ultimately show ?thesis using new lk dom by (auto simp: sparse_inv_def)
  qed
  then show "sparse_inv ?t" "grp (map_of (sd_next_ids ?t)) = spec_set g d (grp ?nx)" by blast+
qed

interpretation sparse: duplicate_interface Sparse_SetDuplicateId Sparse_GetDuplicateIds Sparse_GetGroupId
  "\<lambda>t x. x < 2 ^ 32" sparse_inv "\<lambda>t. grp (map_of (sd_next_ids t))"
proof (unfold_locales, goal_cases)
  case (1 t g d)
  then show ?case by (rule sparse_set_ok)
next
  case (2 t g d)
  then show ?case by (rule sparse_set_ok)
qed (auto simp: sparse_inv_def grp_partition sparse_get_ids sparse_get_group)


section \<open>Serialized groups\<close>

definition enc_group :: "inner_id list \<Rightarrow> bytes" where
  "enc_group g = le_bytes 4 (hd g) @ le_bytes 8 (length (tl g)) @ concat (map (le_bytes 4) (tl g))"

text \<open>
  \<open>some_rings nx gs\<close>: disjoint rings, maybe not all of them; \<open>gs\<close> are the groups written so
  far.
\<close>

definition some_rings :: "links \<Rightarrow> inner_id list list \<Rightarrow> bool" where
  "some_rings nx gs \<longleftrightarrow> distinct (concat gs) \<and> (\<forall>g\<in>set gs. ring nx g)"

lemma some_rings_snoc:
  assumes "some_rings nx gs" "ring nx g" "x \<in> set g" "x \<notin> set (concat gs)"
  shows "some_rings nx (gs @ [g])"
proof -
  have "set g \<inter> set (concat gs) = {}"
  proof (rule ccontr)
    assume "set g \<inter> set (concat gs) \<noteq> {}"
    then obtain y h where y: "y \<in> set g" "h \<in> set gs" "y \<in> set h" by auto
    have "ring nx h" using assms(1) y(2) by (simp add: some_rings_def)
    then have "set h = set g" using ring_grp [of nx h y] ring_grp [of nx g y] y assms(2) by simp
    then show False using assms(3,4) y(2) by auto
  qed
  moreover have "distinct g" using assms(2) by (cases g) auto
  ultimately show ?thesis using assms(1,2) by (auto simp: some_rings_def)
qed

lemma some_rings_all:
  assumes "some_rings nx gs" "dom nx \<subseteq> set (concat gs)"
  shows "rings nx gs"
  using assms ring_dom by (fastforce simp: some_rings_def rings_def)

subsection \<open>Dense\<close>

lemma dense_mark_walk_linked:
  "linked (dense_links ids) c ys s \<Longrightarrow> s \<notin> set ys \<Longrightarrow> length ys < fuel \<Longrightarrow> set ys \<subseteq> {..<length v} \<Longrightarrow>
    \<exists>v'. dense_mark_walk fuel ids s c acc v = Inr (acc @ ys, v') \<and> length v' = length v \<and>
      (\<forall>i<length v. v' ! i = (v ! i \<or> i \<in> set ys))"
proof (induction ys arbitrary: c acc fuel v)
  case Nil
  then show ?case by (cases fuel) auto
next
  case (Cons y ys)
  then obtain f where f: "fuel = Suc f" "length ys < f" by (cases fuel) auto
  obtain v' where v': "dense_mark_walk f ids s y (acc @ [y]) (v[y := True]) = Inr ((acc @ [y]) @ ys, v')"
    "length v' = length v" "\<forall>i<length v. v' ! i = (v[y := True] ! i \<or> i \<in> set ys)"
    using Cons.IH [of y f "v[y := True]" "acc @ [y]"] Cons.prems f(2) by auto
  have "\<forall>i<length v. v' ! i = (v ! i \<or> i \<in> set (y # ys))"
    using v'(3) Cons.prems(4) by (auto simp: nth_list_update)
  then show ?case using Cons.prems f(1) v'(1,2) by (auto simp: Let_def)
qed

definition dense_written :: "inner_id list \<Rightarrow> bytes \<Rightarrow> nat \<Rightarrow> stream_writer \<times> bool list \<Rightarrow> bool" where
  "dense_written ids base i = (\<lambda>(w, visited). \<exists>gs.
     some_rings (dense_links ids) gs \<and> sw_out w = base @ concat (map enc_group gs) \<and>
     length visited = length ids \<and> (\<forall>x<length ids. visited ! x \<longleftrightarrow> x \<in> set (concat gs)) \<and>
     dom (dense_links ids) \<inter> {..<i} \<subseteq> set (concat gs))"

lemma dense_serialize_step_ok:
  assumes ok: "links_ok (dense_links ids)" and i: "i < length ids"
    and inv: "dense_written ids base i (w, visited)"
  shows "\<exists>s'. dense_serialize_step ids i (w, visited) = Inr s' \<and> dense_written ids base (Suc i) s'"
proof -
  obtain gs where gs: "some_rings (dense_links ids) gs" "sw_out w = base @ concat (map enc_group gs)"
    "length visited = length ids" "\<forall>x<length ids. visited ! x \<longleftrightarrow> x \<in> set (concat gs)"
    "dom (dense_links ids) \<inter> {..<i} \<subseteq> set (concat gs)"
    using inv unfolding dense_written_def by auto
  show ?thesis
  proof (cases "ids ! i \<noteq> i \<and> \<not> visited ! i")
    case False
    then have "dom (dense_links ids) \<inter> {..<Suc i} \<subseteq> set (concat gs)"
      using gs(4,5) i by (auto simp: less_Suc_eq simp del: set_concat)
    then show ?thesis using False gs by (auto simp: dense_serialize_step_def dense_written_def)
  next
    case True
    then obtain ys where r: "ring (dense_links ids) (i # ys)"
      using links_ok_ring [OF ok, of i] i by (auto simp: domIff simp del: ring.simps)
    have "set ys \<subseteq> {..<length ids}" using ring_dom [OF r] dense_dom [of ids] by auto
    moreover have "length ys < length ids + 1" using dense_ring_length [OF r] by simp
    ultimately obtain v' where
      v': "dense_mark_walk (length ids + 1) ids i i [] (visited[i := True]) = Inr (ys, v')"
      "length v' = length ids" "\<forall>x<length ids. v' ! x = (visited[i := True] ! x \<or> x \<in> set ys)"
      using dense_mark_walk_linked [of ids i ys i "length ids + 1" "visited[i := True]" "[]"] r gs(3) by auto
    define w' where "w' = WriteVector 4 ys (WriteObj 4 i w)"
    have step: "dense_serialize_step ids i (w, visited) = Inr (w', v')"
      using True v'(1) by (simp add: dense_serialize_step_def w'_def)
    have "some_rings (dense_links ids) (gs @ [i # ys])"
      using some_rings_snoc [OF gs(1) r, of i] True gs(4) i by auto
    moreover have "sw_out w' = base @ concat (map enc_group (gs @ [i # ys]))"
      using gs(2) by (simp add: w'_def enc_group_def)
    moreover have "\<forall>x<length ids. v' ! x \<longleftrightarrow> x \<in> set (concat (gs @ [i # ys]))"
      using v'(3) gs(3,4) i by (auto simp: nth_list_update)
    moreover have "dom (dense_links ids) \<inter> {..<Suc i} \<subseteq> set (concat (gs @ [i # ys]))"
      using gs(5) by (auto simp: less_Suc_eq)
    ultimately have "dense_written ids base (Suc i) (w', v')"
      unfolding dense_written_def using v'(2) by blast
    then show ?thesis using step by blast
  qed
qed

lemma Dense_Serialize_ok:
  assumes "dense_inv t"
  obtains w' gs where "Dense_Serialize t w = Inr w'" "rings (dense_links (dd_duplicate_ids t)) gs"
    "sw_out w' = sw_out w @ le_bytes 8 (length gs) @ le_bytes 8 (length (dd_duplicate_ids t))
      @ concat (map enc_group gs)"
proof -
  define ids where "ids = dd_duplicate_ids t"
  define w2 where "w2 = WriteObj 8 (length ids) (WriteObj 8 (dd_duplicate_count t) w)"
  have ok: "links_ok (dense_links ids)" using assms by (simp add: dense_inv_def ids_def)
  have "dense_written ids (sw_out w2) 0 (w2, replicate (length ids) False)"
    unfolding dense_written_def by (auto intro!: exI [of _ "[]"] simp: some_rings_def)
  then have "\<exists>s. foldR (dense_serialize_step ids) [0..<length ids] (w2, replicate (length ids) False) = Inr s
      \<and> dense_written ids (sw_out w2) (length ids) s"
    using dense_serialize_step_ok [OF ok] by (intro foldR_upt_invariant) auto
  then obtain w3 v gs where loop:
    "foldR (dense_serialize_step ids) [0..<length ids] (w2, replicate (length ids) False) = Inr (w3, v)"
    "some_rings (dense_links ids) gs" "sw_out w3 = sw_out w2 @ concat (map enc_group gs)"
    "dom (dense_links ids) \<inter> {..<length ids} \<subseteq> set (concat gs)"
    unfolding dense_written_def by auto
  have gs: "rings (dense_links ids) gs" using loop(2,4) dense_dom [of ids] by (intro some_rings_all) auto
  have "Dense_Serialize t w = Inr w3" using loop(1) by (simp add: Dense_Serialize_def Let_def ids_def w2_def)
  moreover have "dd_duplicate_count t = length gs"
    using assms group_count_rings [OF gs] by (simp add: dense_inv_def ids_def)
  ultimately show ?thesis using gs loop(3) by (intro that [of w3 gs]) (simp_all add: w2_def ids_def)
qed

definition arr_links :: "inner_id list \<Rightarrow> links" where
  "arr_links ids x = (if x < length ids then Some (ids ! x) else None)"

lemma dense_relink_ok:
  "distinct (c # ys) \<Longrightarrow> set (c # ys) \<subseteq> {..<length ids} \<Longrightarrow>
    \<exists>ids'. dense_relink h c ys ids = Inr ids' \<and> length ids' = length ids \<and>
      linked (arr_links ids') c ys h \<and> (\<forall>x. x \<notin> set (c # ys) \<longrightarrow> ids' ! x = ids ! x)"
proof (induction ys arbitrary: c ids)
  case Nil
  then show ?case by (auto simp: arr_links_def)
next
  case (Cons y ys)
  from Cons.IH [of y "ids[c := y]"] Cons.prems
  obtain ids' where ids': "dense_relink h y ys (ids[c := y]) = Inr ids'" "length ids' = length ids"
    "linked (arr_links ids') y ys h" "\<forall>x. x \<notin> set (y # ys) \<longrightarrow> ids' ! x = ids[c := y] ! x" by auto
  have "ids' ! c = y" using ids'(4) Cons.prems by auto
  then have "arr_links ids' c = Some y" using ids'(2) Cons.prems by (simp add: arr_links_def)
  then show ?case using ids' Cons.prems by auto
qed

definition dense_relinked :: "inner_id list \<Rightarrow> inner_id list \<Rightarrow> inner_id list" where
  "dense_relinked g ids = (case dense_relink (hd g) (hd g) (tl g) ids of Inr r \<Rightarrow> r | Inl _ \<Rightarrow> ids)"

lemma dense_relinked:
  assumes "g \<noteq> []" "distinct g" "set g \<subseteq> {..<length ids}"
  shows "dense_relink (hd g) (hd g) (tl g) ids = Inr (dense_relinked g ids)"
    "length (dense_relinked g ids) = length ids"
    "linked (arr_links (dense_relinked g ids)) (hd g) (tl g) (hd g)"
    "x \<notin> set g \<Longrightarrow> dense_relinked g ids ! x = ids ! x"
  using dense_relink_ok [of "hd g" "tl g" ids "hd g"] assms by (auto simp: dense_relinked_def)

lemma dense_relink_all:
  assumes "rings (dense_links ids) gs" "length ids0 = length ids"
    and "\<And>x. x < length ids \<Longrightarrow> x \<notin> set (concat gs) \<Longrightarrow> ids0 ! x = ids ! x"
  shows "fold dense_relinked gs ids0 = ids"
proof -
  have "fold dense_relinked hs ids0 = ids"
    if "\<forall>g\<in>set hs. ring (dense_links ids) g" "length ids0 = length ids"
      "\<And>x. x < length ids \<Longrightarrow> x \<notin> set (concat hs) \<Longrightarrow> ids0 ! x = ids ! x" for hs ids0
    using that
  proof (induction hs arbitrary: ids0)
    case Nil
    then show ?case by (auto intro: nth_equalityI)
  next
    case (Cons g hs)
    have r: "ring (dense_links ids) g" using Cons.prems(1) by simp
    then have g: "g \<noteq> []" "distinct g" "linked (dense_links ids) (hd g) (tl g) (hd g)" by (cases g; auto)+
    have sub: "set g \<subseteq> {..<length ids0}" using ring_dom [OF r] dense_dom [of ids] Cons.prems(2) by auto
    note rl = dense_relinked [OF g(1,2) sub]
    have same: "dense_relinked g ids0 ! x = ids ! x" if "x \<in> set g" for x
    proof -
      have d: "x \<in> dom (dense_links ids)" using ring_dom [OF r] that by auto
      have "linked (arr_links ids) (hd g) (tl g) (hd g) = linked (dense_links ids) (hd g) (tl g) (hd g)"
        using ring_dom [OF r] g(1) by (intro linked_cong) (force simp: arr_links_def dense_links_def domIff)
      then have "arr_links (dense_relinked g ids0) x = arr_links ids x"
        using rl(3) g that by (intro linked_determines [of _ "hd g" "tl g" "hd g"]) (cases g; auto)+
      then show ?thesis using d rl(2) Cons.prems(2) by (auto simp: arr_links_def)
    qed
    have "dense_relinked g ids0 ! x = ids ! x" if "x < length ids" "x \<notin> set (concat hs)" for x
      using same [of x] rl(4) [of x] Cons.prems(3) that by (cases "x \<in> set g") auto
    then show ?case using Cons.IH [of "dense_relinked g ids0"] Cons.prems(1,2) rl(2) by auto
  qed
  then show ?thesis using assms by (auto simp: rings_def)
qed

context byte_reader
begin

lemma parses_group:
  assumes "g \<noteq> []" "\<forall>x\<in>set g. x < 2 ^ 32" "length g \<le> 2 ^ 32"
    and "\<And>r. f (hd g) (tl g) r = Inr (y, r)"
  shows "parses (\<lambda>r. bindR (ReadObj rd 4 r) (\<lambda>(h, r1). bindR (ReadVector rd 4 r1) (\<lambda>(l, r2). f h l r2)))
    y (enc_group g)"
proof -
  have "parses (ReadObj rd 4) (hd g) (le_bytes 4 (hd g))"
    using assms(1,2) by (intro parses_ReadObj) simp
  moreover have vec: "parses (ReadVector rd 4) (tl g) (le_bytes 8 (length (tl g)) @ concat (map (le_bytes 4) (tl g)))"
    using assms(2,3) by (intro parses_ReadVector) (auto dest: list.set_sel(2) [OF assms(1)])
  moreover have "parses (f (hd g) (tl g)) y []" using assms(4) by (simp add: parses_def)
  from parses_bind [OF vec, of "f (hd g)", OF this]
  have "parses (\<lambda>r1. bindR (ReadVector rd 4 r1) (\<lambda>(l, r2). f (hd g) l r2)) y
      ((le_bytes 8 (length (tl g)) @ concat (map (le_bytes 4) (tl g))) @ [])" .
  ultimately have "parses (\<lambda>r. bindR (ReadObj rd 4 r) (\<lambda>(h, r1). bindR (ReadVector rd 4 r1) (\<lambda>(l, r2). f h l r2)))
    y (le_bytes 4 (hd g) @ (le_bytes 8 (length (tl g)) @ concat (map (le_bytes 4) (tl g))) @ [])"
    by (intro parses_bind [where q = "\<lambda>h r1. bindR (ReadVector rd 4 r1) (\<lambda>(l, r2). f h l r2)"])
  then show ?thesis by (simp add: enc_group_def)
qed

lemma parses_dense_groups:
  assumes gs: "rings (dense_links ids) gs" and len: "length ids \<le> 2 ^ 32"
  shows "parses (read_loop (length gs) (dense_read_group rd) [0..<length ids]) ids (concat (map enc_group gs))"
proof -
  have mem: "x < length ids" if "x \<in> set (concat gs)" for x
    using gs dense_dom [of ids] that by (auto simp: rings_def)
  have grp: "parses (dense_read_group rd s) (dense_relinked g s) (enc_group g) \<and> length (dense_relinked g s) = length ids"
    if g: "g \<in> set gs" and s: "length s = length ids" for g s
  proof -
    have r: "ring (dense_links ids) g" using gs g by (simp add: rings_def)
    then have "g \<noteq> []" "distinct g" by (cases g; auto)+
    moreover have "set g \<subseteq> {..<length s}" using mem g s by auto
    ultimately have rl: "dense_relink (hd g) (hd g) (tl g) s = Inr (dense_relinked g s)"
      "length (dense_relinked g s) = length ids" using dense_relinked [of g s] s by auto
    have "\<forall>x\<in>set g. x < 2 ^ 32" using mem g len by fastforce
    moreover have "length g \<le> 2 ^ 32" using dense_ring_length [OF r] len by simp
    ultimately show ?thesis
      using parses_group [OF \<open>g \<noteq> []\<close>, of "\<lambda>h l r. bindR (dense_relink h h l s) (\<lambda>ids1. Inr (ids1, r))"] rl
      unfolding dense_read_group_def by simp
  qed
  have "fold dense_relinked gs [0..<length ids] = ids"
  proof (rule dense_relink_all [OF gs])
    fix x assume "x < length ids" "x \<notin> set (concat gs)"
    then show "[0..<length ids] ! x = ids ! x" using rings_None [OF gs, of x] by (simp del: set_concat)
  qed simp
  then show "parses (read_loop (length gs) (dense_read_group rd) [0..<length ids]) ids (concat (map enc_group gs))"
    using parses_loop [of "\<lambda>s. length s = length ids" "[0..<length ids]" "length gs" gs
        "dense_read_group rd" dense_relinked enc_group] grp by simp
qed

lemma parses_Dense:
  assumes gs: "rings (dense_links ids) gs" and len: "length ids \<le> 2 ^ 32"
    and t: "\<not> dd_has_deserialized t"
  shows "parses (Dense_Deserialize rd t)
    (t\<lparr>dd_duplicate_ids := ids, dd_duplicate_count := length gs, dd_has_deserialized := True\<rparr>)
    (le_bytes 8 (length gs) @ le_bytes 8 (length ids) @ concat (map enc_group gs))"
proof -
  have "length gs \<le> length ids"
    using group_count_rings [OF gs] group_count_le [OF dense_dom, of ids] by simp
  then have n: "length gs < 256 ^ 8" "length ids < 256 ^ 8" using len by auto
  let ?fin = "\<lambda>ids'. t\<lparr>dd_duplicate_ids := ids', dd_duplicate_count := length gs, dd_has_deserialized := True\<rparr>"
  have "parses (\<lambda>r. bindR (ReadObj rd 8 r) (\<lambda>(count, r1). bindR (ReadObj rd 8 r1) (\<lambda>(sz, r2).
      if sz > 2 ^ 32 then Inl Diverges else bindR (read_loop count (dense_read_group rd) [0..<sz] r2) (\<lambda>(ids, r3).
        Inr (t\<lparr>dd_duplicate_ids := ids, dd_duplicate_count := count, dd_has_deserialized := True\<rparr>, r3)))))
    (?fin ids) (le_bytes 8 (length gs) @ le_bytes 8 (length ids) @ concat (map enc_group gs))"
    using len parses_map [OF parses_dense_groups [OF gs len], of ?fin]
    by (intro parses_bind [OF parses_ReadObj [OF n(1)]] parses_bind [OF parses_ReadObj [OF n(2)]]) simp
  then show ?thesis using t by (simp add: Dense_Deserialize_def [abs_def])
qed

end


subsection \<open>Sparse\<close>

definition min_first :: "inner_id list \<Rightarrow> bool" where
  "min_first g \<longleftrightarrow> hd g = Min (set g)"

definition sparse_written ::
  "(inner_id \<times> inner_id) list \<Rightarrow> bytes \<Rightarrow> inner_id set \<Rightarrow> stream_writer \<times> inner_id set \<Rightarrow> bool" where
  "sparse_written m base seen = (\<lambda>(w, visited). \<exists>gs.
     some_rings (map_of m) gs \<and> (\<forall>g\<in>set gs. min_first g) \<and>
     sw_out w = base @ concat (map enc_group gs) \<and> visited = set (concat gs) \<and> seen \<subseteq> visited)"

lemma sparse_serialize_step_ok:
  assumes ok: "links_ok (map_of m)" and x: "x \<in> dom (map_of m)"
    and inv: "sparse_written m base seen (w, visited)"
  shows "\<exists>s'. sparse_serialize_step m x (w, visited) = Inr s' \<and> sparse_written m base (insert x seen) s'"
proof -
  obtain gs where gs: "some_rings (map_of m) gs" "\<forall>g\<in>set gs. min_first g"
    "sw_out w = base @ concat (map enc_group gs)" "visited = set (concat gs)" "seen \<subseteq> visited"
    using inv unfolding sparse_written_def by auto
  show ?thesis
  proof (cases "x \<in> visited")
    case True
    then show ?thesis using gs by (auto simp: sparse_serialize_step_def sparse_written_def)
  next
    case False
    obtain ys where ys: "collect_group_members m x = Inr (x # ys)" "ring (map_of m) (x # ys)"
      using collect_group_members_ok [OF ok] x by blast
    define h where "h = Min (set (x # ys))"
    have h: "h \<in> set (x # ys)" unfolding h_def by (rule Min_in) auto
    then obtain z where "map_of m h = Some z" using ring_dom [OF ys(2)] by auto
    from collect_group_members_ok [OF ok this] obtain zs where
      zs: "collect_group_members m h = Inr (h # zs)" "ring (map_of m) (h # zs)" by blast
    have same: "set (h # zs) = set (x # ys)"
      using ring_grp [OF zs(2), of h] ring_grp [OF ys(2) h] by simp
    define w' where "w' = WriteVector 4 zs (WriteObj 4 h w)"
    have step: "sparse_serialize_step m x (w, visited) = Inr (w', visited \<union> set (x # ys))"
      using False ys(1) zs(1) h_def
      by (simp add: sparse_serialize_step_def canonical_group_id_def write_group_def w'_def)
    have "some_rings (map_of m) (gs @ [h # zs])"
      using some_rings_snoc [OF gs(1) zs(2), of x] same False gs(4) by auto
    moreover have "min_first (h # zs)" unfolding min_first_def same using h_def by simp
    moreover have "sw_out w' = base @ concat (map enc_group (gs @ [h # zs]))"
      using gs(3) by (simp add: w'_def enc_group_def)
    moreover have "visited \<union> set (x # ys) = set (concat (gs @ [h # zs]))" using gs(4) same by auto
    moreover have "insert x seen \<subseteq> visited \<union> set (x # ys)" using gs(5) by auto
    ultimately have "sparse_written m base (insert x seen) (w', visited \<union> set (x # ys))"
      unfolding sparse_written_def using gs(2) by (intro case_prodI exI [of _ "gs @ [h # zs]"]) auto
    then show ?thesis using step by blast
  qed
qed

lemma sparse_serialize_loop:
  assumes "links_ok (map_of m)" "set xs \<subseteq> dom (map_of m)" "sparse_written m base seen s"
  shows "\<exists>s'. foldR (sparse_serialize_step m) xs s = Inr s' \<and> sparse_written m base (set xs \<union> seen) s'"
  using assms(2,3)
proof (induction xs arbitrary: s seen)
  case (Cons x xs)
  obtain w v where s: "s = (w, v)" by fastforce
  obtain s1 where s1: "sparse_serialize_step m x s = Inr s1" "sparse_written m base (insert x seen) s1"
    using sparse_serialize_step_ok [OF assms(1), of x base seen w v] Cons.prems s by auto
  then show ?case using Cons.IH [of "insert x seen" s1] Cons.prems(1) by simp
qed simp

lemma Sparse_Serialize_ok:
  assumes "sparse_inv t"
  obtains w' gs where "Sparse_Serialize t w = Inr w'" "rings (map_of (sd_next_ids t)) gs"
    "\<forall>g\<in>set gs. min_first g"
    "sw_out w' = sw_out w @ le_bytes 8 (length gs) @ concat (map enc_group gs)"
proof -
  define m where "m = sd_next_ids t"
  define w1 where "w1 = WriteObj 8 (sd_duplicate_count t) w"
  have ok: "links_ok (map_of m)" using assms by (simp add: sparse_inv_def m_def)
  have "sparse_written m (sw_out w1) {} (w1, {})"
    unfolding sparse_written_def by (auto intro!: exI [of _ "[]"] simp: some_rings_def)
  from sparse_serialize_loop [OF ok _ this, of "map fst m"]
  obtain w2 v gs where loop: "foldR (sparse_serialize_step m) (map fst m) (w1, {}) = Inr (w2, v)"
    "some_rings (map_of m) gs" "\<forall>g\<in>set gs. min_first g" "sw_out w2 = sw_out w1 @ concat (map enc_group gs)"
    "v = set (concat gs)" "set (map fst m) \<subseteq> v"
    unfolding sparse_written_def by (auto simp: dom_map_of_conv_image_fst)
  have gs: "rings (map_of m) gs"
    using loop(2,5,6) by (intro some_rings_all) (auto simp: dom_map_of_conv_image_fst)
  have "Sparse_Serialize t w = Inr w2" using loop(1) by (simp add: Sparse_Serialize_def Let_def m_def w1_def)
  moreover have "sd_duplicate_count t = length gs"
    using assms group_count_rings [OF gs] by (simp add: sparse_inv_def m_def)
  ultimately show ?thesis using gs loop(3,4) by (intro that [of w2 gs]) (simp_all add: w1_def m_def)
qed

lemma sparse_link_ok:
  assumes "distinct (c # ys)"
  shows "linked (map_of (sparse_link h (c # ys) m)) c ys h \<and>
    (\<forall>x. x \<notin> set (c # ys) \<longrightarrow> map_of (sparse_link h (c # ys) m) x = map_of m x)"
  using assms
proof (induction ys arbitrary: c m)
  case Nil
  then show ?case by (simp add: update_conv')
next
  case (Cons y ys)
  then show ?case using Cons.IH [of y "AList.update c y m"] by (auto simp: update_conv')
qed

lemma distinct_sparse_link: "distinct (map fst m) \<Longrightarrow> distinct (map fst (sparse_link h xs m))"
  by (induction h xs m rule: sparse_link.induct) (auto simp: distinct_update)

lemma to_ordered_min_first:
  assumes "distinct g" "2 \<le> length g" "min_first g"
  shows "to_ordered_members g = Inr g"
proof -
  obtain h ys where g: "g = h # ys" using assms(2) by (cases g) auto
  have "filter (\<lambda>x. x \<noteq> h) ys = ys" using assms(1) g by (intro filter_True) auto
  then show ?thesis using assms g
    by (simp add: to_ordered_members_def canonical_group_id_def min_first_def)
qed

text \<open>Rebuilding every ring gives the same map, and keeps its keys distinct.\<close>

lemma sparse_rebuild_all:
  assumes "rings nx gs" "length gs < 2 ^ 64"
  shows "\<exists>m. fold rebuild_group gs ([], 0) = (m, length gs) \<and> distinct (map fst m) \<and> map_of m = nx"
proof -
  have "\<exists>m. fold rebuild_group hs (m0, c) = (m, c + length hs) \<and> distinct (map fst m) \<and>
      (\<forall>g\<in>set hs. linked (map_of m) (hd g) (tl g) (hd g)) \<and>
      (\<forall>x. x \<notin> set (concat hs) \<longrightarrow> map_of m x = map_of m0 x)"
    if "distinct (concat hs)" "\<forall>g\<in>set hs. ring nx g" "distinct (map fst m0)" "c + length hs < 2 ^ 64"
    for hs m0 c
    using that
  proof (induction hs arbitrary: m0 c)
    case (Cons g hs)
    have "ring nx g" using Cons.prems(2) by simp
    then obtain h y ys where g: "g = h # y # ys" by (metis ring.elims(2) neq_Nil_conv)
    define m1 where "m1 = sparse_link h g m0"
    have dg: "distinct (h # y # ys)" using Cons.prems(1) g by simp
    have m1: "linked (map_of m1) h (y # ys) h" "\<And>x. x \<notin> set g \<Longrightarrow> map_of m1 x = map_of m0 x"
      using sparse_link_ok [OF dg, of h m0] unfolding m1_def g by blast+
    have rb: "rebuild_group g (m0, c) = (m1, c + 1)"
      using Cons.prems(4) by (simp add: rebuild_group_def g m1_def)
    obtain m where m: "fold rebuild_group hs (m1, c + 1) = (m, c + 1 + length hs)" "distinct (map fst m)"
      "\<forall>g\<in>set hs. linked (map_of m) (hd g) (tl g) (hd g)"
      "\<And>x. x \<notin> set (concat hs) \<Longrightarrow> map_of m x = map_of m1 x"
      using Cons.IH [of m1 "c + 1"] Cons.prems distinct_sparse_link [OF Cons.prems(3)] unfolding m1_def by auto
    have "linked (map_of m) h (y # ys) h = linked (map_of m1) h (y # ys) h"
      using Cons.prems(1) g by (intro linked_cong m(4)) auto
    then show ?case using m m1 rb g by auto
  qed simp
  from this [of gs "[]" 0] obtain m where m: "fold rebuild_group gs ([], 0) = (m, length gs)"
    "distinct (map fst m)" "\<forall>g\<in>set gs. linked (map_of m) (hd g) (tl g) (hd g)"
    "\<And>x. x \<notin> set (concat gs) \<Longrightarrow> map_of m x = None"
    using assms by (auto simp: rings_def)
  have "map_of m x = nx x" for x
  proof (cases "x \<in> set (concat gs)")
    case True
    then obtain g where g: "g \<in> set gs" "x \<in> set g" by auto
    then have "ring nx g" using assms(1) by (simp add: rings_def)
    then have "linked nx (hd g) (tl g) (hd g)" "x \<in> set (hd g # tl g)" using g(2) by (cases g; auto)+
    then show ?thesis using m(3) g(1) linked_determines by metis
  next
    case False
    then show ?thesis using m(4) rings_None [OF assms(1), of x] by simp
  qed
  then show ?thesis using m by auto
qed

context byte_reader
begin

lemma parses_Sparse:
  assumes gs: "rings nx gs" "\<forall>g\<in>set gs. min_first g" and dom: "dom nx \<subseteq> {..<2 ^ 32}"
    and t: "\<not> sd_has_deserialized t"
  shows "\<exists>m. distinct (map fst m) \<and> map_of m = nx \<and> parses (Sparse_Deserialize rd t)
    (t\<lparr>sd_next_ids := m, sd_duplicate_count := length gs, sd_has_deserialized := True\<rparr>)
    (le_bytes 8 (length gs) @ concat (map enc_group gs))"
proof -
  have "length gs \<le> card {..<(2 :: nat) ^ 32}"
    using group_count_rings [OF gs(1)] group_count_le [OF dom finite_lessThan] by (simp only:)
  then have len: "length gs < 256 ^ 8" by simp
  have grp: "parses (sparse_read_group rd s) (rebuild_group g s) (enc_group g)" if g: "g \<in> set gs" for g s
  proof -
    have r: "ring nx g" using gs g by (simp add: rings_def)
    then have l: "g \<noteq> []" "distinct g" "2 \<le> length g" by (cases g; cases "tl g"; auto)+
    have ord: "to_ordered_members (hd g # tl g) = Inr g"
      using to_ordered_min_first [OF l(2,3)] gs(2) g l(1) by simp
    have "\<forall>x\<in>set g. x < 2 ^ 32" using ring_dom [OF r] dom by auto
    moreover have "length g \<le> card {..<(2 :: nat) ^ 32}" by (rule ring_length [OF r dom finite_lessThan])
    then have "length g \<le> 2 ^ 32" by (simp only: card_lessThan)
    ultimately show ?thesis
      using parses_group [OF l(1), of "\<lambda>h l r. bindR (to_ordered_members (h # l)) (\<lambda>ordered. Inr (rebuild_group ordered s, r))"] ord
      unfolding sparse_read_group_def by simp
  qed
  obtain m where m: "fold rebuild_group gs ([], 0) = (m, length gs)" "distinct (map fst m)" "map_of m = nx"
    using sparse_rebuild_all [OF gs(1)] len by auto
  have loop: "parses (read_loop (length gs) (sparse_read_group rd) ([], 0)) (m, length gs) (concat (map enc_group gs))"
    using parses_loop [of "\<lambda>_. True" "([], 0)" "length gs" gs "sparse_read_group rd" rebuild_group enc_group] grp m(1)
    by simp
  let ?fin = "\<lambda>p. t\<lparr>sd_next_ids := fst p, sd_duplicate_count := snd p, sd_has_deserialized := True\<rparr>"
  have "parses (\<lambda>r. bindR (ReadObj rd 8 r) (\<lambda>(n, r1). bindR (read_loop n (sparse_read_group rd) ([], 0) r1) (\<lambda>(p, r2).
      Inr (?fin p, r2)))) (?fin (m, length gs)) (le_bytes 8 (length gs) @ concat (map enc_group gs))"
    using parses_map [OF loop, of ?fin] by (intro parses_bind [OF parses_ReadObj [OF len]])
  then show ?thesis using t m by (auto simp: Sparse_Deserialize_def [abs_def] case_prod_beta' intro!: exI [of _ m])
qed

end


subsection \<open>The legacy format\<close>

context byte_reader
begin

lemma parses_Dense_legacy:
  assumes gs: "rings (dense_links ids) gs" and len: "length ids \<le> 2 ^ 32"
    and t: "\<not> dd_has_deserialized t"
  shows "parses (Dense_DeserializeFromLegacyFormat rd (length ids) t)
    (t\<lparr>dd_duplicate_ids := ids, dd_duplicate_count := length gs, dd_has_deserialized := True\<rparr>)
    (le_bytes 8 (length gs) @ concat (map enc_group gs))"
proof -
  have "map u32 [0..<length ids] = map (\<lambda>x. x) [0..<length ids]"
    using len by (intro map_cong) auto
  then have ident: "map u32 [0..<length ids] = [0..<length ids]" by simp
  have "length gs \<le> length ids"
    using group_count_rings [OF gs] group_count_le [OF dense_dom, of ids] by simp
  then have n: "length gs < 256 ^ 8" using len by auto
  let ?fin = "\<lambda>ids'. t\<lparr>dd_duplicate_ids := ids', dd_duplicate_count := length gs, dd_has_deserialized := True\<rparr>"
  have "parses (\<lambda>r. bindR (ReadObj rd 8 r) (\<lambda>(count, r1).
      bindR (read_loop count (dense_read_group rd) (map u32 [0..<length ids]) r1) (\<lambda>(ids, r2).
        Inr (t\<lparr>dd_duplicate_ids := ids, dd_duplicate_count := count, dd_has_deserialized := True\<rparr>, r2))))
    (?fin ids) (le_bytes 8 (length gs) @ concat (map enc_group gs))"
    using len parses_map [OF parses_dense_groups [OF gs len], of ?fin] unfolding ident
    by (intro parses_bind [OF parses_ReadObj [OF n]])
  then show ?thesis using t by (simp add: Dense_DeserializeFromLegacyFormat_def [abs_def])
qed

end

text \<open>The array that holds given rings.\<close>

lemma dense_links_of:
  assumes "rings nx gs" "dom nx \<subseteq> {..<n}"
  shows "dense_links (map (\<lambda>x. case nx x of None \<Rightarrow> x | Some y \<Rightarrow> y) [0..<n]) = nx"
proof
  fix x
  have "nx x \<noteq> Some x"
  proof
    assume s: "nx x = Some x"
    then obtain ys where "ring nx (x # ys)"
      using links_ok_ring [of nx x] assms(1) by (auto simp: links_ok_def simp del: ring.simps)
    then show False using s by (cases ys) auto
  qed
  then show "dense_links (map (\<lambda>x. case nx x of None \<Rightarrow> x | Some y \<Rightarrow> y) [0..<n]) x = nx x"
    using assms(2) by (auto simp: dense_links_def split: option.splits)
qed

section \<open>Properties\<close>

lemma dense_resized:
  assumes "n \<le> 2 ^ 32"
  shows "dense_inv (Dense_Resize n DenseDuplicateTracker_new)"
    "dd_duplicate_ids (Dense_Resize n DenseDuplicateTracker_new) = [0..<n]"
    "grp (dense_links [0..<n]) = (\<lambda>x. {x})"
proof -
  show ids: "dd_duplicate_ids (Dense_Resize n DenseDuplicateTracker_new) = [0..<n]"
    by (simp add: Dense_Resize_def DenseDuplicateTracker_new_def Let_def)
  have none: "dense_links [0..<n] = (\<lambda>x. None)" by (auto simp: dense_links_def)
  then show "grp (dense_links [0..<n]) = (\<lambda>x. {x})" by (auto simp: grp_None)
  have "rings (\<lambda>x. None) []" by (simp add: rings_def)
  then have "links_ok (\<lambda>x. None)" "group_count (\<lambda>x. None) = 0"
    using group_count_rings [of "\<lambda>x. None" "[]"] by (auto simp: links_ok_def)
  then show "dense_inv (Dense_Resize n DenseDuplicateTracker_new)"
    using assms ids none by (simp add: dense_inv_def)
      (simp add: Dense_Resize_def DenseDuplicateTracker_new_def Let_def)
qed

lemma sparse_new: "sparse_inv SparseDuplicateTracker_new" "grp (map_of (sd_next_ids SparseDuplicateTracker_new)) = (\<lambda>x. {x})"
proof -
  have "rings (\<lambda>x. None) []" by (simp add: rings_def)
  then show "sparse_inv SparseDuplicateTracker_new"
    using group_count_rings [of "\<lambda>x. None" "[]"]
    by (auto simp: sparse_inv_def SparseDuplicateTracker_new_def links_ok_def)
qed (auto simp: SparseDuplicateTracker_new_def grp_None)

text \<open>
  Claim C22. The two implementations of \<open>DuplicateInterface\<close> are interchangeable: after any
  sequence of \<open>SetDuplicateId\<close> calls on identifiers below the size of the dense tracker,
  both hold the partition that results from adding, call by call, a lone identifier to the group
  of another one. \<open>GetGroupId\<close> ends and returns the least member of the group, the same in
  both; \<open>GetDuplicateIds\<close> ends and returns the other members, each once.
\<close>

theorem duplicate_trackers_agree:
  assumes "n \<le> 2 ^ 32" "\<forall>(g, d)\<in>set ps. g < n \<and> d < n"
  defines "P \<equiv> fold (\<lambda>(g, d). spec_set g d) ps (\<lambda>x. {x})"
    and "D \<equiv> fold (\<lambda>(g, d). Dense_SetDuplicateId g d) ps (Dense_Resize n DenseDuplicateTracker_new)"
    and "S \<equiv> fold (\<lambda>(g, d). Sparse_SetDuplicateId g d) ps SparseDuplicateTracker_new"
  shows "Dense_GetGroupId D x = Inr (Min (P x)) \<and> Sparse_GetGroupId S x = Inr (Min (P x)) \<and>
    (\<exists>l l'. Dense_GetDuplicateIds D x = Inr l \<and> Sparse_GetDuplicateIds S x = Inr l' \<and>
       distinct l \<and> distinct l' \<and> set l = P x - {x} \<and> set l' = P x - {x})"
proof -
  have "dense_inv D \<and> grp (dense_links (dd_duplicate_ids D)) = P"
    using dense.set_all_ok [OF dense_resized(1) [OF assms(1)], of ps] assms(2) dense_resized [OF assms(1)]
    unfolding D_def P_def dense.set_all_def by simp
  then have D: "dense_inv D" "grp (dense_links (dd_duplicate_ids D)) = P" by auto
  have "\<forall>(g, d)\<in>set ps. g < 2 ^ 32 \<and> d < 2 ^ 32" using assms(1,2) by fastforce
  then have "sparse_inv S \<and> grp (map_of (sd_next_ids S)) = P"
    using sparse.set_all_ok [OF sparse_new(1), of ps] sparse_new(2)
    unfolding S_def P_def sparse.set_all_def by simp
  then have S: "sparse_inv S" "grp (map_of (sd_next_ids S)) = P" by auto
  show ?thesis
    using dense.group_ok [OF D(1), of x] dense.ids_ok [OF D(1), of x]
      sparse.group_ok [OF S(1), of x] sparse.ids_ok [OF S(1), of x] D(2) S(2) by auto
qed

theorem duplicate_trackers_agree_witness:
  "Dense_GetGroupId (Dense_SetDuplicateId 4 1 (Dense_SetDuplicateId 2 4 (Dense_Resize 5 DenseDuplicateTracker_new))) 4
     = Inr 1 \<and>
   Sparse_GetGroupId (Sparse_SetDuplicateId 4 1 (Sparse_SetDuplicateId 2 4 SparseDuplicateTracker_new)) 4 = Inr 1"
proof -
  let ?P = "fold (\<lambda>(g, d). spec_set g d) [(2, 4), (4, 1)] (\<lambda>x. {x})"
  have "?P 4 = {1, 2, 4}" by (auto simp: spec_set_def)
  moreover have "Min {1, 2, 4 :: inner_id} = 1" by simp
  ultimately show ?thesis
    using duplicate_trackers_agree [of 5 "[(2, 4), (4, 1)]" 4] by simp
qed

text \<open>
  Writing a dense tracker always succeeds, every walk around a group ending, and reading
  the bytes back into a tracker that has not been read into yet gives the same array of successors
  and the same number of groups, and leaves the reader at the end of what was written.
\<close>

lemma Dense_serialize_roundtrip:
  assumes "dense_inv t" "\<not> dd_has_deserialized t0"
  shows "\<exists>w r t'. Dense_Serialize t StreamWriter_new = Inr w \<and>
    Dense_Deserialize IOStreamReader_Read t0 (IOStreamReader_new (sw_out w @ suffix) 0) = Inr (t', r) \<and>
    io_rest r = suffix \<and> dd_duplicate_ids t' = dd_duplicate_ids t \<and>
    dd_duplicate_count t' = dd_duplicate_count t \<and> dense_inv t'"
proof -
  obtain w gs where w: "Dense_Serialize t StreamWriter_new = Inr w"
    "rings (dense_links (dd_duplicate_ids t)) gs"
    "sw_out w = le_bytes 8 (length gs) @ le_bytes 8 (length (dd_duplicate_ids t)) @ concat (map enc_group gs)"
    using Dense_Serialize_ok [OF assms(1), of StreamWriter_new] by (auto simp: StreamWriter_new_def)
  have len: "length (dd_duplicate_ids t) \<le> 2 ^ 32" using assms(1) by (simp add: dense_inv_def)
  have "dd_duplicate_count t = length gs" using assms(1) group_count_rings [OF w(2)] by (simp add: dense_inv_def)
  moreover have "io_ok (IOStreamReader_new (sw_out w @ suffix) 0)"
    "io_rest (IOStreamReader_new (sw_out w @ suffix) 0) = sw_out w @ suffix"
    by (simp_all add: io_ok_def io_rest_def IOStreamReader_new_def)
  from io.parsesD [OF io.parses_Dense [OF w(2) len assms(2)] this(1)] this(2) obtain r where
    "Dense_Deserialize IOStreamReader_Read t0 (IOStreamReader_new (sw_out w @ suffix) 0) =
      Inr (t0\<lparr>dd_duplicate_ids := dd_duplicate_ids t, dd_duplicate_count := length gs, dd_has_deserialized := True\<rparr>, r)"
    "io_rest r = suffix" unfolding w(3) by (metis append.assoc)
  ultimately show ?thesis using w(1) assms(1) by (auto simp: dense_inv_def)
qed

text \<open>
  The bytes a sparse tracker writes, in whatever order its hash table is traversed,
  read back into a sparse tracker give the same successors; and read by the dense tracker's
  \<open>DeserializeFromLegacyFormat\<close>, for any size above the identifiers used, they give a dense
  tracker with the same groups.
\<close>

lemma Sparse_serialize_roundtrip:
  assumes "sparse_inv t" "\<not> sd_has_deserialized t0" "\<not> dd_has_deserialized d0"
    and "\<forall>x\<in>dom (map_of (sd_next_ids t)). x < n" "n \<le> 2 ^ 32"
  shows "\<exists>w r t' r2 d'. Sparse_Serialize t StreamWriter_new = Inr w \<and>
    Sparse_Deserialize IOStreamReader_Read t0 (IOStreamReader_new (sw_out w @ suffix) 0) = Inr (t', r) \<and>
    io_rest r = suffix \<and> sparse_inv t' \<and> map_of (sd_next_ids t') = map_of (sd_next_ids t) \<and>
    sd_duplicate_count t' = sd_duplicate_count t \<and>
    Dense_DeserializeFromLegacyFormat IOStreamReader_Read n d0 (IOStreamReader_new (sw_out w @ suffix) 0) = Inr (d', r2) \<and>
    dense_inv d' \<and> (\<forall>x. Dense_GetGroupId d' x = Sparse_GetGroupId t x)"
proof -
  let ?nx = "map_of (sd_next_ids t)"
  define ids where "ids = map (\<lambda>x. case ?nx x of None \<Rightarrow> x | Some y \<Rightarrow> y) [0..<n]"
  obtain w gs where w: "Sparse_Serialize t StreamWriter_new = Inr w" "rings ?nx gs" "\<forall>g\<in>set gs. min_first g"
    "sw_out w = le_bytes 8 (length gs) @ concat (map enc_group gs)"
    using Sparse_Serialize_ok [OF assms(1), of StreamWriter_new] by (auto simp: StreamWriter_new_def)
  have dom: "dom ?nx \<subseteq> {..<2 ^ 32}" "dom ?nx \<subseteq> {..<n}" using assms(1,4) by (auto simp: sparse_inv_def)
  have cnt: "sd_duplicate_count t = length gs" using assms(1) group_count_rings [OF w(2)] by (simp add: sparse_inv_def)
  have links: "dense_links ids = ?nx" unfolding ids_def by (rule dense_links_of [OF w(2) dom(2)])
  let ?r = "IOStreamReader_new (sw_out w @ suffix) 0"
  have r: "io_ok ?r" "io_rest ?r = (le_bytes 8 (length gs) @ concat (map enc_group gs)) @ suffix"
    by (simp_all add: io_ok_def io_rest_def IOStreamReader_new_def w(4))
  obtain m where m: "distinct (map fst m)" "map_of m = ?nx" "io.parses (Sparse_Deserialize IOStreamReader_Read t0)
      (t0\<lparr>sd_next_ids := m, sd_duplicate_count := length gs, sd_has_deserialized := True\<rparr>)
      (le_bytes 8 (length gs) @ concat (map enc_group gs))"
    using io.parses_Sparse [OF w(2,3) dom(1) assms(2)] by blast
  from io.parsesD [OF m(3) r] obtain r1 where r1:
    "Sparse_Deserialize IOStreamReader_Read t0 ?r =
      Inr (t0\<lparr>sd_next_ids := m, sd_duplicate_count := length gs, sd_has_deserialized := True\<rparr>, r1)"
    "io_rest r1 = suffix" by blast
  have "length ids = n" by (simp add: ids_def)
  from io.parsesD [OF io.parses_Dense_legacy [of ids gs d0] r] obtain r2 where r2:
    "Dense_DeserializeFromLegacyFormat IOStreamReader_Read n d0 ?r =
      Inr (d0\<lparr>dd_duplicate_ids := ids, dd_duplicate_count := length gs, dd_has_deserialized := True\<rparr>, r2)"
    using w(2) links assms(3,5) \<open>length ids = n\<close> by auto
  let ?d = "d0\<lparr>dd_duplicate_ids := ids, dd_duplicate_count := length gs, dd_has_deserialized := True\<rparr>"
  have d: "dense_inv ?d"
    using assms(1,5) links group_count_rings [OF w(2)] \<open>length ids = n\<close> by (simp add: dense_inv_def sparse_inv_def)
  have "Dense_GetGroupId ?d x = Sparse_GetGroupId t x" for x
    using dense.group_ok [OF d, of x] sparse.group_ok [OF assms(1), of x] links by simp
  then show ?thesis using w(1) r1 r2 d m cnt assms(1) by (auto simp: sparse_inv_def)
qed

end
