(* ===== verification/CompressedGraph.thy ===== *)
theory CompressedGraph
  imports EliasFano DuplicateTracker
begin

text \<open>
  \<open>src/datacell/graph_interface.{h,cpp}\<close> (the state every graph storage shares) and
  \<open>src/datacell/compressed_graph_datacell.{h,cpp}\<close>: neighbour lists kept as Elias-Fano codes.
  The theory proves that the graph is the map from identifiers to the sorted lists inserted, its
  error paths, its serialization, and that the lock-free update of \<open>total_count_\<close> by several
  inserting threads loses no update.
\<close>

section \<open>GraphInterface\<close>

record 'd graph_interface =
  gi_max_capacity :: nat
  gi_maximum_degree :: nat
  gi_total_count :: nat
  gi_duplicate_tracker :: "'d option"

definition GraphInterface_DeleteNeighborsById :: "inner_id \<Rightarrow> ('d, 'e) graph_interface_scheme \<Rightarrow> ('d, 'e) graph_interface_scheme result" where
  "GraphInterface_DeleteNeighborsById vid g = Inl (Throw INTERNAL_ERROR)"

definition GraphInterface_Serialize ::
  "('d \<Rightarrow> stream_writer \<Rightarrow> stream_writer result) \<Rightarrow> ('d, 'e) graph_interface_scheme \<Rightarrow> stream_writer \<Rightarrow> stream_writer result" where
  "GraphInterface_Serialize ser g writer =
     (let w1 = WriteObj 4 (gi_total_count g) writer;
          w2 = WriteObj 4 (gi_max_capacity g) w1;
          w3 = WriteObj 4 (gi_maximum_degree g) w2
      in case gi_duplicate_tracker g of None \<Rightarrow> Inr w3 | Some d \<Rightarrow> ser d w3)"

definition GraphInterface_Deserialize ::
  "'r rd \<Rightarrow> ('d \<Rightarrow> 'r \<Rightarrow> ('d \<times> 'r) result) \<Rightarrow> ('d, 'e) graph_interface_scheme \<Rightarrow> 'r \<Rightarrow>
     (('d, 'e) graph_interface_scheme \<times> 'r) result" where
  "GraphInterface_Deserialize rd des g r =
     bindR (ReadObj rd 4 r) (\<lambda>(total, r1).
     bindR (ReadObj rd 4 r1) (\<lambda>(cap, r2).
     bindR (ReadObj rd 4 r2) (\<lambda>(deg, r3).
       let g1 = g\<lparr>gi_total_count := total, gi_max_capacity := cap, gi_maximum_degree := deg\<rparr>
       in case gi_duplicate_tracker g of
            None \<Rightarrow> Inr (g1, r3)
          | Some d \<Rightarrow> bindR (des d r3) (\<lambda>(d1, r4). Inr (g1\<lparr>gi_duplicate_tracker := Some d1\<rparr>, r4)))))"

definition GraphInterface_SetMaximumDegree :: "nat \<Rightarrow> ('d, 'e) graph_interface_scheme \<Rightarrow> ('d, 'e) graph_interface_scheme" where
  "GraphInterface_SetMaximumDegree deg g = g\<lparr>gi_maximum_degree := deg\<rparr>"

definition GraphInterface_SetTotalCount :: "nat \<Rightarrow> ('d, 'e) graph_interface_scheme \<Rightarrow> ('d, 'e) graph_interface_scheme" where
  "GraphInterface_SetTotalCount n g = g\<lparr>gi_total_count := n\<rparr>"

definition GraphInterface_SetMaxCapacity :: "nat \<Rightarrow> ('d, 'e) graph_interface_scheme \<Rightarrow> ('d, 'e) graph_interface_scheme" where
  "GraphInterface_SetMaxCapacity cap g = g\<lparr>gi_max_capacity := max cap (gi_total_count g)\<rparr>"

definition GraphInterface_SetDuplicateId ::
  "(inner_id \<Rightarrow> inner_id \<Rightarrow> 'd \<Rightarrow> 'd) \<Rightarrow> inner_id \<Rightarrow> inner_id \<Rightarrow> ('d, 'e) graph_interface_scheme \<Rightarrow> ('d, 'e) graph_interface_scheme" where
  "GraphInterface_SetDuplicateId set_dup group_id duplicate_id g =
     (case gi_duplicate_tracker g of
        None \<Rightarrow> g
      | Some d \<Rightarrow> g\<lparr>gi_duplicate_tracker := Some (set_dup group_id duplicate_id d)\<rparr>)"

definition GraphInterface_GetDuplicateIds ::
  "('d \<Rightarrow> inner_id \<Rightarrow> inner_id list result) \<Rightarrow> ('d, 'e) graph_interface_scheme \<Rightarrow> inner_id \<Rightarrow> inner_id list result" where
  "GraphInterface_GetDuplicateIds get_ids g vid =
     (case gi_duplicate_tracker g of None \<Rightarrow> Inr [] | Some d \<Rightarrow> get_ids d vid)"

definition GraphInterface_GetGroupId ::
  "('d \<Rightarrow> inner_id \<Rightarrow> inner_id result) \<Rightarrow> ('d, 'e) graph_interface_scheme \<Rightarrow> inner_id \<Rightarrow> inner_id result" where
  "GraphInterface_GetGroupId get_group g vid =
     (case gi_duplicate_tracker g of None \<Rightarrow> Inr vid | Some d \<Rightarrow> get_group d vid)"

section \<open>CompressedGraphDataCell\<close>

text \<open>A null \<open>unique_ptr\<close> is \<open>None\<close>.\<close>

record compressed_graph = "sparse_tracker graph_interface" +
  cg_neighbor_sets :: "elias_fano option list"

definition CompressedGraphDataCell_new :: "nat \<Rightarrow> bool \<Rightarrow> bool \<Rightarrow> compressed_graph result" where
  "CompressedGraphDataCell_new max_degree support_duplicate use_reverse_edges =
     (let tracker = (if support_duplicate
                     then Some (Sparse_Resize 0 SparseDuplicateTracker_new) else None)
      in if use_reverse_edges then Inl (Throw UNSUPPORTED_INDEX_OPERATION)
         else Inr \<lparr>gi_max_capacity = 0, gi_maximum_degree = max_degree, gi_total_count = 0,
                   gi_duplicate_tracker = tracker, cg_neighbor_sets = []\<rparr>)"

text \<open>
  The loop on \<open>total_count_\<close>, run by one thread: a failed exchange reloads \<open>current\<close>, and
  the value stored is the maximum. The interleaved loop is treated below.
\<close>

definition raise_total_count :: "inner_id \<Rightarrow> nat \<Rightarrow> nat" where
  "raise_total_count vid current = (if current < u32 (vid + 1) then u32 (vid + 1) else current)"

definition Compressed_InsertNeighborsById :: "inner_id \<Rightarrow> inner_id list \<Rightarrow> compressed_graph \<Rightarrow> compressed_graph result" where
  "Compressed_InsertNeighborsById vid neighbor_ids g =
     (if length neighbor_ids > gi_maximum_degree g then Inl (Throw INVALID_ARGUMENT)
      else
        let tmp = sort neighbor_ids
        in bindR (if tmp \<noteq> []
                  then bindR (EliasFano_Encode tmp (gi_max_capacity g) EliasFano_new) (\<lambda>e. Inr (Some e))
                  else Inr None) (\<lambda>new_node.
           if vid \<ge> length (cg_neighbor_sets g) then Inl UB
           else Inr (g\<lparr>cg_neighbor_sets := (cg_neighbor_sets g)[vid := new_node],
                       gi_total_count := raise_total_count vid (gi_total_count g)\<rparr>)))"

definition Compressed_GetNeighborSize :: "compressed_graph \<Rightarrow> inner_id \<Rightarrow> nat result" where
  "Compressed_GetNeighborSize g vid =
     (if vid \<ge> length (cg_neighbor_sets g) then Inl UB
      else case cg_neighbor_sets g ! vid of None \<Rightarrow> Inr 0 | Some e \<Rightarrow> Inr (EliasFano_Size e))"

definition Compressed_GetNeighbors :: "compressed_graph \<Rightarrow> inner_id \<Rightarrow> inner_id list result" where
  "Compressed_GetNeighbors g vid =
     bindR (Compressed_GetNeighborSize g vid) (\<lambda>n.
       if n > 0 then (case cg_neighbor_sets g ! vid of
                        None \<Rightarrow> Inl UB
                      | Some e \<Rightarrow> EliasFano_DecompressAll e)
       else Inr [])"

definition compressed_write_node :: "elias_fano option \<Rightarrow> stream_writer \<Rightarrow> stream_writer result" where
  "compressed_write_node node w =
     (case node of
        None \<Rightarrow> Inr (WriteObj 1 0 w)
      | Some e \<Rightarrow>
          if EliasFano_Size e = 0 then Inr (WriteObj 1 0 w)
          else
            let w1 = WriteObj 1 (ef_high_bits_size e) (WriteObj 1 (ef_low_bits_size e)
                       (WriteObj 1 (ef_low_bits_width e) (WriteObj 1 (ef_num_elements e) w)));
                n = ef_low_bits_size e + ef_high_bits_size e
            in foldR (\<lambda>j w. if j < length (ef_bits e) then Inr (WriteObj 8 (unat (ef_bits e ! j)) w) else Inl UB)
                 [0..<n] w1)"

definition Compressed_Serialize :: "compressed_graph \<Rightarrow> stream_writer \<Rightarrow> stream_writer result" where
  "Compressed_Serialize g writer =
     bindR (GraphInterface_Serialize Sparse_Serialize g writer) (\<lambda>w1.
       foldR compressed_write_node (cg_neighbor_sets g) (WriteObj 8 (length (cg_neighbor_sets g)) w1))"

definition Compressed_Resize :: "nat \<Rightarrow> compressed_graph \<Rightarrow> compressed_graph" where
  "Compressed_Resize new_size g =
     (if new_size < gi_max_capacity g then g
      else g\<lparr>cg_neighbor_sets := vec_resize new_size None (cg_neighbor_sets g), gi_max_capacity := new_size,
             gi_duplicate_tracker := map_option (Sparse_Resize new_size) (gi_duplicate_tracker g)\<rparr>)"

fun read_words :: "'r rd \<Rightarrow> nat \<Rightarrow> 'r \<Rightarrow> (64 word list \<times> 'r) result" where
  "read_words rd 0 r = Inr ([], r)"
| "read_words rd (Suc n) r =
     bindR (ReadObj rd 8 r) (\<lambda>(x, r1).
     bindR (read_words rd n r1) (\<lambda>(xs, r2). Inr (of_nat x # xs, r2)))"

definition compressed_read_node ::
  "'r rd \<Rightarrow> elias_fano option list \<times> nat \<Rightarrow> 'r \<Rightarrow> ((elias_fano option list \<times> nat) \<times> 'r) result" where
  "compressed_read_node rd = (\<lambda>(sets, vid) r.
     bindR (ReadObj rd 1 r) (\<lambda>(num_elements, r1).
     if num_elements > 0 then
       (if vid \<ge> length sets then Inl UB
        else
          bindR (ReadObj rd 1 r1) (\<lambda>(w, r2).
          bindR (ReadObj rd 1 r2) (\<lambda>(low, r3).
          bindR (ReadObj rd 1 r3) (\<lambda>(high, r4).
          bindR (read_words rd (low + high) r4) (\<lambda>(bits, r5).
            Inr ((sets[vid := Some \<lparr>ef_bits = bits, ef_num_elements = num_elements, ef_low_bits_width = w,
                        ef_low_bits_size = low, ef_high_bits_size = high\<rparr>], vid + 1), r5))))))
     else Inr ((sets, vid + 1), r1)))"

text \<open>\<open>Resize\<close> takes an \<open>InnerIdType\<close>: the 64-bit vertex number is truncated.\<close>

definition Compressed_Deserialize :: "'r rd \<Rightarrow> compressed_graph \<Rightarrow> 'r \<Rightarrow> (compressed_graph \<times> 'r) result" where
  "Compressed_Deserialize rd g r =
     bindR (GraphInterface_Deserialize rd (Sparse_Deserialize rd) g r) (\<lambda>(g1, r1).
     bindR (ReadObj rd 8 r1) (\<lambda>(vertex_num, r2).
       let g2 = Compressed_Resize (u32 vertex_num) g1
       in bindR (read_loop vertex_num (compressed_read_node rd) (cg_neighbor_sets g2, 0) r2) (\<lambda>((sets, vid), r3).
            Inr (g2\<lparr>cg_neighbor_sets := sets\<rparr>, r3))))"

definition Compressed_CheckIdExists :: "compressed_graph \<Rightarrow> inner_id \<Rightarrow> bool" where
  "Compressed_CheckIdExists g vid \<longleftrightarrow>
     vid < length (cg_neighbor_sets g) \<and> cg_neighbor_sets g ! vid \<noteq> None"

definition Compressed_GetMemoryUsage :: "nat \<Rightarrow> nat \<Rightarrow> nat \<Rightarrow> compressed_graph \<Rightarrow> nat" where
  "Compressed_GetMemoryUsage sizeof_cell sizeof_nullptr sizeof_encoder g =
     fold (\<lambda>e memory. case e of None \<Rightarrow> memory | Some e \<Rightarrow> memory + EliasFano_SizeInBytes sizeof_encoder e)
       (cg_neighbor_sets g) (sizeof_cell + length (cg_neighbor_sets g) * sizeof_nullptr)"

definition Compressed_GetIds :: "compressed_graph \<Rightarrow> inner_id list" where
  "Compressed_GetIds g = filter (\<lambda>vid. cg_neighbor_sets g ! vid \<noteq> None) [0..<length (cg_neighbor_sets g)]"

section \<open>The graph as a map to neighbour lists\<close>

definition node_ok :: "elias_fano option \<Rightarrow> bool" where
  "node_ok node \<longleftrightarrow> (case node of None \<Rightarrow> True | Some e \<Rightarrow> \<exists>xs. xs \<noteq> [] \<and> ef_repr xs e)"

definition cg_inv :: "compressed_graph \<Rightarrow> bool" where
  "cg_inv g \<longleftrightarrow> length (cg_neighbor_sets g) = gi_max_capacity g \<and> gi_max_capacity g < 2 ^ 32 \<and>
     gi_total_count g < 2 ^ 32 \<and> gi_maximum_degree g < 2 ^ 32 \<and>
     (\<forall>node\<in>set (cg_neighbor_sets g). node_ok node) \<and>
     (\<forall>d. gi_duplicate_tracker g = Some d \<longrightarrow> sparse_inv d)"

lemma raise_total_count: "vid + 1 < 2 ^ 32 \<Longrightarrow> raise_total_count vid c = max c (vid + 1)"
  by (simp add: raise_total_count_def max_def)

lemma Compressed_new_inv:
  "deg < 2 ^ 32 \<Longrightarrow> CompressedGraphDataCell_new deg dup False = Inr g \<Longrightarrow> cg_inv g"
  by (auto simp: CompressedGraphDataCell_new_def cg_inv_def Sparse_Resize_def sparse_new(1) split: if_splits)

lemma Compressed_Resize_inv: "cg_inv g \<Longrightarrow> n < 2 ^ 32 \<Longrightarrow> cg_inv (Compressed_Resize n g)"
  by (auto simp: Compressed_Resize_def cg_inv_def Sparse_Resize_def vec_resize_def node_ok_def
      dest: in_set_takeD)

text \<open>The list a node stands for.\<close>

lemma node_neighbors:
  assumes "vid < length (cg_neighbor_sets g)"
  shows "cg_neighbor_sets g ! vid = None \<Longrightarrow> Compressed_GetNeighbors g vid = Inr []"
    and "cg_neighbor_sets g ! vid = Some e \<Longrightarrow> ef_repr xs e \<Longrightarrow> Compressed_GetNeighbors g vid = Inr xs"
  using assms DecompressAll_repr [of xs e]
  by (auto simp: Compressed_GetNeighbors_def Compressed_GetNeighborSize_def EliasFano_Size_def
      ef_repr_def ef_shape_def)

lemma Compressed_Insert_ok:
  assumes "cg_inv g" "vid < gi_max_capacity g" "length xs \<le> gi_maximum_degree g" "length xs \<le> 255"
    and "\<forall>x\<in>set xs. x \<le> gi_max_capacity g" "length xs \<le> gi_max_capacity g + 1" "gi_max_capacity g + 1 < 2 ^ 32"
  obtains node where
    "Compressed_InsertNeighborsById vid xs g =
       Inr (g\<lparr>cg_neighbor_sets := (cg_neighbor_sets g)[vid := node], gi_total_count := max (gi_total_count g) (vid + 1)\<rparr>)"
    "node_ok node" "node = None \<longleftrightarrow> xs = []" "\<And>e. node = Some e \<Longrightarrow> ef_repr (sort xs) e"
proof -
  have len: "vid < length (cg_neighbor_sets g)" using assms(1,2) by (simp add: cg_inv_def)
  have tc: "raise_total_count vid (gi_total_count g) = max (gi_total_count g) (vid + 1)"
    using assms(2,7) by (intro raise_total_count) simp
  show ?thesis
  proof (cases "xs = []")
    case True
    then show ?thesis using assms(3) len tc
      by (intro that [of None]) (auto simp: Compressed_InsertNeighborsById_def node_ok_def)
  next
    case False
    then have ne: "sort xs \<noteq> []" by (metis length_0_conv length_sort)
    then obtain e where e: "EliasFano_Encode (sort xs) (gi_max_capacity g) EliasFano_new = Inr e" "ef_repr (sort xs) e"
      using Encode_repr [of "sort xs" "gi_max_capacity g" EliasFano_new] assms by auto
    show ?thesis using assms(3) len tc e ne False
      by (intro that [of "Some e"]) (auto simp: Compressed_InsertNeighborsById_def node_ok_def)
  qed
qed

section \<open>Serialization\<close>

definition enc_node :: "elias_fano option \<Rightarrow> bytes" where
  "enc_node node = (case node of
     None \<Rightarrow> le_bytes 1 0
   | Some e \<Rightarrow> le_bytes 1 (ef_num_elements e) @ le_bytes 1 (ef_low_bits_width e) @ le_bytes 1 (ef_low_bits_size e)
       @ le_bytes 1 (ef_high_bits_size e) @ concat (map (\<lambda>x. le_bytes 8 (unat x)) (ef_bits e)))"

lemma write_words:
  "n \<le> length ws \<Longrightarrow>
    \<exists>w'. foldR (\<lambda>j w. if j < length ws then Inr (WriteObj 8 (unat (ws ! j)) w) else Inl UB) [0..<n] w = Inr w' \<and>
      sw_out w' = sw_out w @ concat (map (\<lambda>x. le_bytes 8 (unat x)) (take n ws))"
proof (induction n)
  case (Suc n)
  then show ?case by (auto simp: foldR_append take_Suc_conv_app_nth)
qed simp

lemma node_ok_Some:
  assumes "node_ok (Some e)"
  shows "0 < ef_num_elements e" "ef_num_elements e < 256" "ef_low_bits_width e < 256" "ef_low_bits_size e < 256"
    "ef_high_bits_size e < 256" "length (ef_bits e) = ef_low_bits_size e + ef_high_bits_size e"
  using assms by (auto simp: node_ok_def ef_repr_def ef_shape_def ef_holds_def Let_def)

lemma write_node_ok:
  assumes "node_ok node"
  shows "\<exists>w'. compressed_write_node node w = Inr w' \<and> sw_out w' = sw_out w @ enc_node node"
proof (cases node)
  case None
  then show ?thesis by (simp add: compressed_write_node_def enc_node_def)
next
  case (Some e)
  note e = node_ok_Some [OF assms [unfolded Some]]
  show ?thesis
    using write_words [of "ef_low_bits_size e + ef_high_bits_size e" "ef_bits e"] e
    by (simp add: Some compressed_write_node_def enc_node_def EliasFano_Size_def Let_def) fastforce
qed

lemma write_nodes_ok:
  assumes "\<forall>node\<in>set nodes. node_ok node"
  shows "\<exists>w'. foldR compressed_write_node nodes w = Inr w' \<and> sw_out w' = sw_out w @ concat (map enc_node nodes)"
  using assms
proof (induction nodes arbitrary: w)
  case (Cons node nodes)
  then obtain w1 where "compressed_write_node node w = Inr w1" "sw_out w1 = sw_out w @ enc_node node"
    using write_node_ok by fastforce
  then show ?case using Cons.IH [of w1] Cons.prems by auto
qed simp

text \<open>Reading node \<open>vid\<close> puts it into its place.\<close>

definition put_node :: "elias_fano option \<Rightarrow> elias_fano option list \<times> nat \<Rightarrow> elias_fano option list \<times> nat" where
  "put_node node = (\<lambda>(sets, vid). (case node of None \<Rightarrow> sets | Some e \<Rightarrow> sets[vid := Some e], vid + 1))"

lemma put_nodes:
  "vid + length nodes = length sets \<Longrightarrow> \<forall>i\<ge>vid. i < length sets \<longrightarrow> sets ! i = None \<Longrightarrow>
    fold put_node nodes (sets, vid) = (take vid sets @ nodes, length sets)"
proof (induction nodes arbitrary: sets vid)
  case Nil
  then show ?case by simp
next
  case (Cons node nodes)
  define sets' where "sets' = fst (put_node node (sets, vid))"
  have vid: "vid < length sets" using Cons.prems(1) by simp
  have len: "length sets' = length sets" by (auto simp: sets'_def put_node_def split: option.splits)
  have "sets' ! vid = node" using Cons.prems(2) vid by (auto simp: sets'_def put_node_def split: option.splits)
  moreover have "take vid sets' = take vid sets" by (auto simp: sets'_def put_node_def split: option.splits)
  ultimately have "take (Suc vid) sets' = take vid sets @ [node]" using vid len by (simp add: take_Suc_conv_app_nth)
  moreover have "fold put_node nodes (sets', Suc vid) = (take (Suc vid) sets' @ nodes, length sets')"
    using Cons.prems len by (intro Cons.IH) (auto simp: sets'_def put_node_def split: option.splits)
  moreover have "put_node node (sets, vid) = (sets', Suc vid)"
    by (simp add: sets'_def put_node_def)
  ultimately show ?case using len by simp
qed

context byte_reader
begin

lemma parses_words: "parses (read_words rd (length ws)) ws (concat (map (\<lambda>x. le_bytes 8 (unat x)) ws))"
proof (induction ws)
  case Nil
  then show ?case by (simp add: parses_def)
next
  case (Cons x ws)
  have x: "unat x < 256 ^ 8" using unsigned_less [of x, where 'a = nat] by simp
  from parses_map [OF Cons.IH, of "\<lambda>xs. x # xs"]
  have "parses (\<lambda>r1. bindR (read_words rd (length ws) r1) (\<lambda>(xs, r2). Inr (of_nat (unat x) # xs, r2))) (x # ws)
      (concat (map (\<lambda>x. le_bytes 8 (unat x)) ws))" by simp
  from parses_bind [OF parses_ReadObj [OF x], of "\<lambda>v r1. bindR (read_words rd (length ws) r1) (\<lambda>(xs, r2). Inr (of_nat v # xs, r2))", OF this]
  show ?case by simp
qed

lemma parses_node:
  assumes "node_ok node" "snd s < length (fst s)"
  shows "parses (compressed_read_node rd s) (put_node node s) (enc_node node)"
proof (cases node)
  case None
  obtain sets vid where s: "s = (sets, vid)" by fastforce
  have "parses (\<lambda>r. bindR (ReadObj rd 1 r) (\<lambda>(n, r1). if n > 0 then f n r1 else Inr ((sets, vid + 1), r1)))
      (sets, vid + 1) (le_bytes 1 0 @ [])" for f
    by (rule parses_bind [OF parses_ReadObj]) (simp_all add: parses_return)
  then show ?thesis by (simp add: None s compressed_read_node_def put_node_def enc_node_def)
next
  case (Some e)
  obtain sets vid where s: "s = (sets, vid)" by fastforce
  note e = node_ok_Some [OF assms(1) [unfolded Some]]
  let ?mk = "\<lambda>n w low high bits. (sets[vid := Some \<lparr>ef_bits = bits, ef_num_elements = n, ef_low_bits_width = w,
    ef_low_bits_size = low, ef_high_bits_size = high\<rparr>], vid + 1)"
  let ?n = "ef_num_elements e" and ?w = "ef_low_bits_width e" and ?L = "ef_low_bits_size e"
    and ?H = "ef_high_bits_size e"
  have words: "parses (\<lambda>r. bindR (read_words rd (?L + ?H) r) (\<lambda>(bits, r5). Inr (?mk ?n ?w ?L ?H bits, r5)))
      (?mk ?n ?w ?L ?H (ef_bits e)) (concat (map (\<lambda>x. le_bytes 8 (unat x)) (ef_bits e)))"
    using parses_map [OF parses_words [of "ef_bits e"], of "?mk ?n ?w ?L ?H"] e(6) by simp
  let ?p4 = "\<lambda>n w low high r. bindR (read_words rd (low + high) r) (\<lambda>(bits, r5). Inr (?mk n w low high bits, r5))"
  let ?p3 = "\<lambda>n w low r. bindR (ReadObj rd 1 r) (\<lambda>(high, r4). ?p4 n w low high r4)"
  let ?p2 = "\<lambda>n w r. bindR (ReadObj rd 1 r) (\<lambda>(low, r3). ?p3 n w low r3)"
  let ?p1 = "\<lambda>n r. if n > 0 then bindR (ReadObj rd 1 r) (\<lambda>(w, r2). ?p2 n w r2) else Inr ((sets, vid + 1), r)"
  have small: "parses (ReadObj rd 1) v (le_bytes 1 v)" if "v < 256" for v
    using that by (intro parses_ReadObj) simp
  have "parses (\<lambda>r. bindR (ReadObj rd 1 r) (\<lambda>(n, r1). ?p1 n r1)) (?mk ?n ?w ?L ?H (ef_bits e)) (enc_node (Some e))"
  proof -
    have 3: "parses (?p3 ?n ?w ?L) (?mk ?n ?w ?L ?H (ef_bits e))
        (le_bytes 1 ?H @ concat (map (\<lambda>x. le_bytes 8 (unat x)) (ef_bits e)))"
      by (rule parses_bind [OF small [OF e(5)], of "?p4 ?n ?w ?L", OF words])
    have 2: "parses (?p2 ?n ?w) (?mk ?n ?w ?L ?H (ef_bits e))
        (le_bytes 1 ?L @ le_bytes 1 ?H @ concat (map (\<lambda>x. le_bytes 8 (unat x)) (ef_bits e)))"
      by (rule parses_bind [OF small [OF e(4)], of "?p3 ?n ?w", OF 3])
    have 1: "parses (?p1 ?n) (?mk ?n ?w ?L ?H (ef_bits e))
        (le_bytes 1 ?w @ le_bytes 1 ?L @ le_bytes 1 ?H @ concat (map (\<lambda>x. le_bytes 8 (unat x)) (ef_bits e)))"
      using parses_bind [OF small [OF e(3)], of "?p2 ?n", OF 2] e(1) by simp
    show ?thesis using parses_bind [OF small [OF e(2)], of ?p1, OF 1] by (simp add: enc_node_def)
  qed
  moreover have "\<lparr>ef_bits = ef_bits e, ef_num_elements = ?n, ef_low_bits_width = ?w,
      ef_low_bits_size = ?L, ef_high_bits_size = ?H\<rparr> = e" by simp
  ultimately show ?thesis using assms(2)
    by (simp add: Some s compressed_read_node_def put_node_def not_le if_distrib cong: if_cong)
qed

lemma parses_tracker_opt:
  assumes "\<And>d. tr = Some d \<Longrightarrow> sparse_inv d" "gi_duplicate_tracker g0 = map_option (\<lambda>_. SparseDuplicateTracker_new) tr"
  shows "\<exists>w' bs tr'. (case tr of None \<Rightarrow> Inr w | Some d \<Rightarrow> Sparse_Serialize d w) = Inr w' \<and> sw_out w' = sw_out w @ bs \<and>
    parses (\<lambda>r3. case gi_duplicate_tracker g0 of None \<Rightarrow> Inr (g1, r3)
        | Some d \<Rightarrow> bindR (Sparse_Deserialize rd d r3) (\<lambda>(d1, r4). Inr (g1\<lparr>gi_duplicate_tracker := Some d1\<rparr>, r4)))
      (case tr of None \<Rightarrow> g1 | Some _ \<Rightarrow> g1\<lparr>gi_duplicate_tracker := tr'\<rparr>) bs \<and>
    rel_option (\<lambda>d d'. sparse_inv d' \<and> map_of (sd_next_ids d') = map_of (sd_next_ids d)) tr tr'"
proof (cases tr)
  case None
  then show ?thesis using assms(2) by (simp add: parses_def)
next
  case (Some d)
  then have d: "sparse_inv d" using assms(1) by simp
  obtain w' gs where w': "Sparse_Serialize d w = Inr w'" "rings (map_of (sd_next_ids d)) gs"
    "\<forall>g\<in>set gs. min_first g" "sw_out w' = sw_out w @ le_bytes 8 (length gs) @ concat (map enc_group gs)"
    using Sparse_Serialize_ok [OF d, of w] by metis
  have dom: "dom (map_of (sd_next_ids d)) \<subseteq> {..<2 ^ 32}" using d by (auto simp: sparse_inv_def)
  have "\<not> sd_has_deserialized SparseDuplicateTracker_new" by (simp add: SparseDuplicateTracker_new_def)
  from parses_Sparse [OF w'(2,3) dom this] obtain m where m: "distinct (map fst m)" "map_of m = map_of (sd_next_ids d)"
    "parses (Sparse_Deserialize rd SparseDuplicateTracker_new)
      (SparseDuplicateTracker_new\<lparr>sd_next_ids := m, sd_duplicate_count := length gs, sd_has_deserialized := True\<rparr>)
      (le_bytes 8 (length gs) @ concat (map enc_group gs))" by blast
  let ?d = "SparseDuplicateTracker_new\<lparr>sd_next_ids := m, sd_duplicate_count := length gs, sd_has_deserialized := True\<rparr>"
  have "sparse_inv ?d" using d m(1,2) group_count_rings [OF w'(2)] by (simp add: sparse_inv_def)
  then show ?thesis using parses_map [OF m(3), of "\<lambda>d1. g1\<lparr>gi_duplicate_tracker := Some d1\<rparr>"] w' Some assms(2) m(2)
    by (intro exI [of _ w'] exI [of _ "le_bytes 8 (length gs) @ concat (map enc_group gs)"] exI [of _ "Some ?d"]) simp
qed

lemma parses_Compressed:
  assumes inv: "cg_inv g"
    and g0: "cg_neighbor_sets g0 = []" "gi_duplicate_tracker g0 = map_option (\<lambda>_. SparseDuplicateTracker_new) (gi_duplicate_tracker g)"
  shows "\<exists>w' bs g'. Compressed_Serialize g w = Inr w' \<and> sw_out w' = sw_out w @ bs \<and>
    parses (Compressed_Deserialize rd g0) g' bs \<and> cg_neighbor_sets g' = cg_neighbor_sets g \<and>
    gi_max_capacity g' = gi_max_capacity g \<and> gi_maximum_degree g' = gi_maximum_degree g \<and>
    gi_total_count g' = gi_total_count g \<and>
    rel_option (\<lambda>d d'. sparse_inv d' \<and> map_of (sd_next_ids d') = map_of (sd_next_ids d))
      (gi_duplicate_tracker g) (gi_duplicate_tracker g')"
proof -
  let ?tr = "gi_duplicate_tracker g" and ?n = "length (cg_neighbor_sets g)"
  define g1 where "g1 = g0\<lparr>gi_total_count := gi_total_count g, gi_max_capacity := gi_max_capacity g,
    gi_maximum_degree := gi_maximum_degree g\<rparr>"
  define w3 where "w3 = WriteObj 4 (gi_maximum_degree g) (WriteObj 4 (gi_max_capacity g) (WriteObj 4 (gi_total_count g) w))"
  have b: "gi_total_count g < 256 ^ 4" "gi_max_capacity g < 256 ^ 4" "gi_maximum_degree g < 256 ^ 4" "?n < 256 ^ 8"
    "gi_max_capacity g = ?n" "?n < 2 ^ 32"
    using inv by (auto simp: cg_inv_def)
  obtain w4 bs tr' where tr: "(case ?tr of None \<Rightarrow> Inr w3 | Some d \<Rightarrow> Sparse_Serialize d w3) = Inr w4" "sw_out w4 = sw_out w3 @ bs"
    "parses (\<lambda>r3. case gi_duplicate_tracker g0 of None \<Rightarrow> Inr (g1, r3)
        | Some d \<Rightarrow> bindR (Sparse_Deserialize rd d r3) (\<lambda>(d1, r4). Inr (g1\<lparr>gi_duplicate_tracker := Some d1\<rparr>, r4)))
      (case ?tr of None \<Rightarrow> g1 | Some _ \<Rightarrow> g1\<lparr>gi_duplicate_tracker := tr'\<rparr>) bs"
    "rel_option (\<lambda>d d'. sparse_inv d' \<and> map_of (sd_next_ids d') = map_of (sd_next_ids d)) ?tr tr'"
    using parses_tracker_opt [of ?tr g0 w3 g1] inv g0(2) unfolding cg_inv_def by blast
  define g2 where "g2 = (case ?tr of None \<Rightarrow> g1 | Some _ \<Rightarrow> g1\<lparr>gi_duplicate_tracker := tr'\<rparr>)"
  define g3 where "g3 = Compressed_Resize ?n g2"
  obtain w5 where w5: "foldR compressed_write_node (cg_neighbor_sets g) (WriteObj 8 ?n w4) = Inr w5"
    "sw_out w5 = sw_out (WriteObj 8 ?n w4) @ concat (map enc_node (cg_neighbor_sets g))"
    using write_nodes_ok [of "cg_neighbor_sets g"] inv unfolding cg_inv_def by blast
  have g2: "gi_max_capacity g2 = ?n" "cg_neighbor_sets g2 = []" "gi_maximum_degree g2 = gi_maximum_degree g"
    "gi_total_count g2 = gi_total_count g" "gi_duplicate_tracker g2 = tr'"
    using tr(4) g0 b(5) by (auto simp: g2_def g1_def split: option.splits)
  then have g3: "gi_max_capacity g3 = ?n" "cg_neighbor_sets g3 = replicate ?n None"
    "gi_maximum_degree g3 = gi_maximum_degree g" "gi_total_count g3 = gi_total_count g"
    "gi_duplicate_tracker g3 = tr'"
    by (simp_all add: g3_def Compressed_Resize_def vec_resize_def Sparse_Resize_def [abs_def] option.map_ident)
  have puts: "fold put_node (cg_neighbor_sets g) (replicate ?n None, 0) = (cg_neighbor_sets g, ?n)"
    using put_nodes [of 0 "cg_neighbor_sets g" "replicate ?n None"] by simp
  have "parses (read_loop ?n (compressed_read_node rd) (replicate ?n None, 0))
      (fold put_node (cg_neighbor_sets g) (replicate ?n None, 0)) (concat (map enc_node (cg_neighbor_sets g)))"
  proof (rule parses_loop_rest [where P = "\<lambda>zs s. (\<forall>z\<in>set zs. node_ok z) \<and> snd s + length zs = length (fst s)"])
    fix z zs and s :: "elias_fano option list \<times> nat"
    assume "(\<forall>z\<in>set (z # zs). node_ok z) \<and> snd s + length (z # zs) = length (fst s)"
    then show "parses (compressed_read_node rd s) (put_node z s) (enc_node z) \<and>
        (\<forall>z\<in>set zs. node_ok z) \<and> snd (put_node z s) + length zs = length (fst (put_node z s))"
      using parses_node [of z s] by (cases s) (auto simp: put_node_def split: option.splits)
  qed (use inv in \<open>auto simp: cg_inv_def\<close>)
  from parses_map [OF this [unfolded puts], of "\<lambda>p. g3\<lparr>cg_neighbor_sets := fst p\<rparr>"]
  have nodes: "parses (\<lambda>r. bindR (read_loop ?n (compressed_read_node rd) (cg_neighbor_sets g3, 0) r)
      (\<lambda>((sets, vid), r3). Inr (g3\<lparr>cg_neighbor_sets := sets\<rparr>, r3)))
      (g3\<lparr>cg_neighbor_sets := cg_neighbor_sets g\<rparr>) (concat (map enc_node (cg_neighbor_sets g)))"
    using g3(2) by (simp add: case_prod_beta')
  let ?rest = "\<lambda>g1 vn r. let g2 = Compressed_Resize (u32 vn) g1 in
    bindR (read_loop vn (compressed_read_node rd) (cg_neighbor_sets g2, 0) r)
      (\<lambda>((sets, vid), r3). Inr (g2\<lparr>cg_neighbor_sets := sets\<rparr>, r3))"
  have body: "parses (\<lambda>r. bindR (ReadObj rd 8 r) (\<lambda>(vn, r2). ?rest g2 vn r2)) (g3\<lparr>cg_neighbor_sets := cg_neighbor_sets g\<rparr>)
      (le_bytes 8 ?n @ concat (map enc_node (cg_neighbor_sets g)))"
    using parses_bind [OF parses_ReadObj [OF b(4)], of "?rest g2"] nodes b(6) by (simp add: Let_def g3_def)
  have base: "parses (GraphInterface_Deserialize rd (Sparse_Deserialize rd) g0) g2
      (le_bytes 4 (gi_total_count g) @ le_bytes 4 (gi_max_capacity g) @ le_bytes 4 (gi_maximum_degree g) @ bs)"
    unfolding GraphInterface_Deserialize_def [abs_def] Let_def
    by (intro parses_bind [OF parses_ReadObj [OF b(1)]] parses_bind [OF parses_ReadObj [OF b(2)]]
        parses_bind [OF parses_ReadObj [OF b(3)]]) (simp only: g2_def g1_def, rule tr(3) [unfolded g1_def])
  let ?bs = "(le_bytes 4 (gi_total_count g) @ le_bytes 4 (gi_max_capacity g) @ le_bytes 4 (gi_maximum_degree g) @ bs)
    @ le_bytes 8 ?n @ concat (map enc_node (cg_neighbor_sets g))"
  have "parses (Compressed_Deserialize rd g0) (g3\<lparr>cg_neighbor_sets := cg_neighbor_sets g\<rparr>) ?bs"
    using parses_bind [OF base, of "\<lambda>g1 r. bindR (ReadObj rd 8 r) (\<lambda>(vn, r2). ?rest g1 vn r2)", OF body]
    unfolding Compressed_Deserialize_def [abs_def] .
  moreover have "Compressed_Serialize g w = Inr w5"
    using tr(1) [unfolded w3_def] w5(1)
    by (simp add: Compressed_Serialize_def GraphInterface_Serialize_def Let_def)
  moreover have "sw_out w5 = sw_out w @ ?bs" using w5(2) tr(2) by (simp add: w3_def)
  ultimately show ?thesis using g3 tr(4) b(5)
    by (intro exI [of _ w5] exI [of _ ?bs] exI [of _ "g3\<lparr>cg_neighbor_sets := cg_neighbor_sets g\<rparr>"]) simp
qed

end

section \<open>The count of several inserting threads\<close>

text \<open>
  The end of \<open>InsertNeighborsById\<close> run by several threads at once, one atomic access of
  \<open>total_count_\<close> at a time. A thread knows its target \<open>id + 1\<close> and, in the loop, the value
  \<open>current\<close> it last saw. \<open>compare_exchange_weak\<close> may fail although the values are equal; it
  then reloads \<open>current\<close>.
\<close>

datatype cas_pc = Start | Loop nat | Finished

type_synonym cas_state = "nat \<times> (nat \<times> cas_pc) list"

inductive cas_step :: "cas_state \<Rightarrow> cas_state \<Rightarrow> bool" where
  cas_load: "i < length ts \<Longrightarrow> ts ! i = (t, Start) \<Longrightarrow> cas_step (cnt, ts) (cnt, ts[i := (t, Loop cnt)])"
| cas_exit: "i < length ts \<Longrightarrow> ts ! i = (t, Loop c) \<Longrightarrow> \<not> c < t \<Longrightarrow>
    cas_step (cnt, ts) (cnt, ts[i := (t, Finished)])"
| cas_success: "i < length ts \<Longrightarrow> ts ! i = (t, Loop c) \<Longrightarrow> c < t \<Longrightarrow> cnt = c \<Longrightarrow>
    cas_step (cnt, ts) (t, ts[i := (t, Finished)])"
| cas_failure: "i < length ts \<Longrightarrow> ts ! i = (t, Loop c) \<Longrightarrow> c < t \<Longrightarrow>
    cas_step (cnt, ts) (cnt, ts[i := (t, Loop cnt)])"

inductive_cases cas_stepE: "cas_step (cnt, ts) (cnt', ts')"

definition cas_start :: "inner_id list \<Rightarrow> (nat \<times> cas_pc) list" where
  "cas_start vids = map (\<lambda>vid. (u32 (vid + 1), Start)) vids"

text \<open>What holds at every moment: no one has overshot, and whoever is done is covered.\<close>

definition cas_inv :: "nat \<Rightarrow> nat list \<Rightarrow> cas_state \<Rightarrow> bool" where
  "cas_inv cnt0 targets = (\<lambda>(cnt, ts).
     map fst ts = targets \<and> cnt0 \<le> cnt \<and> (cnt = cnt0 \<or> cnt \<in> set targets) \<and>
     (\<forall>(t, pc)\<in>set ts. case pc of Start \<Rightarrow> True | Loop c \<Rightarrow> c \<le> cnt | Finished \<Rightarrow> t \<le> cnt))"

lemma cas_inv_advance:
  assumes "cas_inv cnt0 targets (cnt, ts)" "i < length ts" "fst (ts ! i) = t" "cnt \<le> cnt'"
    and "cnt' = cnt \<or> cnt' = t" "case pc of Start \<Rightarrow> True | Loop c \<Rightarrow> c \<le> cnt' | Finished \<Rightarrow> t \<le> cnt'"
  shows "cas_inv cnt0 targets (cnt', ts[i := (t, pc)])"
proof -
  have "map fst (ts[i := (t, pc)]) = targets"
    using assms(1-3) by (auto simp: cas_inv_def map_update list_update_same_conv)
  moreover have "t \<in> set targets" using assms(1-3) by (auto simp: cas_inv_def in_set_conv_nth)
  moreover have "case q of Start \<Rightarrow> True | Loop c \<Rightarrow> c \<le> cnt' | Finished \<Rightarrow> u \<le> cnt'"
    if "(u, q) \<in> set (ts[i := (t, pc)])" for u q
  proof -
    have "(u, q) = (t, pc) \<or> (u, q) \<in> set ts" using that set_update_subset_insert by fast
    then show ?thesis using assms(1,4,6) by (fastforce simp: cas_inv_def split: cas_pc.splits)
  qed
  ultimately show ?thesis using assms(1,4,5) by (auto simp: cas_inv_def)
qed

lemma cas_step_inv: "cas_step s s' \<Longrightarrow> cas_inv cnt0 targets s \<Longrightarrow> cas_inv cnt0 targets s'"
proof (induction rule: cas_step.induct)
  case (cas_exit i ts t c cnt)
  have "c \<le> cnt" using cas_exit nth_mem [of i ts] by (auto simp: cas_inv_def)
  then show ?case using cas_exit by (intro cas_inv_advance [of _ _ cnt]) auto
qed (auto intro!: cas_inv_advance)

lemma cas_reach_inv:
  "cas_step\<^sup>*\<^sup>* (cnt0, cas_start vids) s \<Longrightarrow> cas_inv cnt0 (map (\<lambda>vid. u32 (vid + 1)) vids) s"
proof (induction rule: rtranclp_induct)
  case base
  then show ?case by (auto simp: cas_inv_def cas_start_def)
next
  case (step y z)
  then show ?case by (blast intro: cas_step_inv)
qed

lemma fold_raise:
  "fold raise_total_count vids c = Max (insert c (set (map (\<lambda>vid. u32 (vid + 1)) vids)))"
proof (induction vids arbitrary: c)
  case (Cons v vids)
  have "raise_total_count v c = max c (u32 (v + 1))" by (simp add: raise_total_count_def max_def)
  then show ?case using Cons.IH [of "raise_total_count v c"]
    by (cases "vids = []") (simp_all add: max.assoc max.commute max.left_commute)
qed simp

text \<open>A thread that is scheduled alone finishes in at most three steps.\<close>

lemma cas_finish_one:
  assumes "i < length ts"
  shows "\<exists>cnt'. cas_step\<^sup>*\<^sup>* (cnt, ts) (cnt', ts[i := (fst (ts ! i), Finished)])"
proof -
  obtain t pc where tp: "ts ! i = (t, pc)" by fastforce
  have enter: "\<exists>cnt'. cas_step\<^sup>*\<^sup>* (cnt, us) (cnt', us[i := (t, Finished)])"
    if "i < length us" "us ! i = (t, Loop cnt)" for us
    using that cas_success [of i us t cnt cnt] cas_exit [of i us t cnt cnt] by blast
  have load: "\<exists>cnt'. cas_step\<^sup>*\<^sup>* (cnt, ts) (cnt', ts[i := (t, Finished)])"
    if "cas_step (cnt, ts) (cnt, ts[i := (t, Loop cnt)])"
    using enter [of "ts[i := (t, Loop cnt)]"] assms that by (auto intro: converse_rtranclp_into_rtranclp)
  show ?thesis
  proof (cases pc)
    case Start
    then show ?thesis using load cas_load [of i ts t cnt] assms tp by auto
  next
    case (Loop c)
    then show ?thesis
      using load cas_failure [of i ts t c cnt] cas_exit [of i ts t c cnt] assms tp by (cases "c < t") auto
  next
    case Finished
    then have "ts[i := (t, Finished)] = ts" using tp by (metis list_update_id)
    then show ?thesis using tp by auto
  qed
qed

lemma cas_finish_all:
  "n \<le> length ts \<Longrightarrow> \<exists>cnt' ts'. cas_step\<^sup>*\<^sup>* (cnt, ts) (cnt', ts') \<and> length ts' = length ts \<and>
    (\<forall>i<n. snd (ts' ! i) = Finished)"
proof (induction n)
  case (Suc n)
  then obtain cnt1 ts1 where s1: "cas_step\<^sup>*\<^sup>* (cnt, ts) (cnt1, ts1)" "length ts1 = length ts"
    "\<forall>i<n. snd (ts1 ! i) = Finished" by auto
  obtain cnt2 where "cas_step\<^sup>*\<^sup>* (cnt1, ts1) (cnt2, ts1[n := (fst (ts1 ! n), Finished)])"
    using cas_finish_one [of n ts1 cnt1] Suc.prems s1(2) by auto
  with s1(1) have "cas_step\<^sup>*\<^sup>* (cnt, ts) (cnt2, ts1[n := (fst (ts1 ! n), Finished)])" by simp
  moreover have "\<forall>i<Suc n. snd (ts1[n := (fst (ts1 ! n), Finished)] ! i) = Finished"
    using s1(2,3) Suc.prems by (auto simp: nth_list_update less_Suc_eq)
  ultimately show ?case using s1(2) by (metis length_list_update)
qed auto

section \<open>Properties\<close>

text \<open>
  Claim C21. Inserting a list of neighbours: more than \<open>maximum_degree_\<close> is refused with
  \<open>INVALID_ARGUMENT\<close>; otherwise, for at most 255 neighbours that are identifiers of the graph, it
  succeeds, the node then holds the list sorted, every other node holds what it held,
  \<open>total_count_\<close> is raised to \<open>id + 1\<close> where it was below, and the invariant is kept.
\<close>

theorem Compressed_insert_lookup:
  assumes "cg_inv g" "vid < gi_max_capacity g" "gi_max_capacity g + 1 < 2 ^ 32"
    and "length xs \<le> 255" "\<forall>x\<in>set xs. x < gi_max_capacity g" "length xs \<le> gi_max_capacity g"
  shows "if gi_maximum_degree g < length xs
    then Compressed_InsertNeighborsById vid xs g = Inl (Throw INVALID_ARGUMENT)
    else \<exists>g'. Compressed_InsertNeighborsById vid xs g = Inr g' \<and> cg_inv g' \<and>
        Compressed_GetNeighbors g' vid = Inr (sort xs) \<and>
        Compressed_GetNeighborSize g' vid = Inr (length xs) \<and>
        (\<forall>j. j \<noteq> vid \<longrightarrow> Compressed_GetNeighbors g' j = Compressed_GetNeighbors g j) \<and>
        gi_total_count g' = max (gi_total_count g) (vid + 1)"
proof (cases "gi_maximum_degree g < length xs")
  case True
  then show ?thesis by (simp add: Compressed_InsertNeighborsById_def)
next
  case False
  then have deg: "length xs \<le> gi_maximum_degree g" by simp
  have le: "\<forall>x\<in>set xs. x \<le> gi_max_capacity g" "length xs \<le> gi_max_capacity g + 1" using assms(5,6) by auto
  obtain node where node: "Compressed_InsertNeighborsById vid xs g =
       Inr (g\<lparr>cg_neighbor_sets := (cg_neighbor_sets g)[vid := node], gi_total_count := max (gi_total_count g) (vid + 1)\<rparr>)"
    "node_ok node" "node = None \<longleftrightarrow> xs = []" "\<And>e. node = Some e \<Longrightarrow> ef_repr (sort xs) e"
    using Compressed_Insert_ok [OF assms(1,2) deg assms(4) le assms(3)] by metis
  let ?g = "g\<lparr>cg_neighbor_sets := (cg_neighbor_sets g)[vid := node], gi_total_count := max (gi_total_count g) (vid + 1)\<rparr>"
  have vid: "vid < length (cg_neighbor_sets g)" using assms(1,2) by (simp add: cg_inv_def)
  have "cg_inv ?g" using assms(1-3) node(2) set_update_subset_insert [of "cg_neighbor_sets g" vid node]
    by (auto simp: cg_inv_def)
  moreover have "Compressed_GetNeighbors ?g vid = Inr (sort xs)"
    using node(3,4) vid node_neighbors [of vid ?g] by (cases node) auto
  moreover have "Compressed_GetNeighborSize ?g vid = Inr (length xs)"
    using node(3,4) vid by (cases node) (auto simp: Compressed_GetNeighborSize_def EliasFano_Size_def ef_repr_def ef_shape_def)
  moreover have "Compressed_GetNeighbors ?g j = Compressed_GetNeighbors g j" if "j \<noteq> vid" for j
    using that by (cases "cg_neighbor_sets g ! j") (simp_all add: Compressed_GetNeighbors_def Compressed_GetNeighborSize_def)
  ultimately show ?thesis using node(1) False by (simp only: if_False) (intro exI [of _ ?g], simp)
qed

definition example_graph :: compressed_graph where
  "example_graph = \<lparr>gi_max_capacity = 10, gi_maximum_degree = 3, gi_total_count = 0,
     gi_duplicate_tracker = Some SparseDuplicateTracker_new, cg_neighbor_sets = replicate 10 None\<rparr>"

lemma example_graph_inv: "cg_inv example_graph"
  by (simp add: cg_inv_def example_graph_def node_ok_def sparse_new)

theorem Compressed_insert_lookup_witness:
  "\<exists>g'. Compressed_InsertNeighborsById 4 [9, 2, 7] example_graph = Inr g' \<and>
     Compressed_GetNeighbors g' 4 = Inr [2, 7, 9] \<and> gi_total_count g' = 5"
proof -
  have "4 < gi_max_capacity example_graph" "gi_max_capacity example_graph + 1 < 2 ^ 32"
    "\<forall>x\<in>set [9, 2, 7]. x < gi_max_capacity example_graph" "length [9, 2, 7 :: nat] \<le> gi_max_capacity example_graph"
    "length [9, 2, 7 :: nat] \<le> gi_maximum_degree example_graph" "gi_total_count example_graph = 0"
    by (simp_all add: example_graph_def)
  then show ?thesis
    using Compressed_insert_lookup [OF example_graph_inv, of 4 "[9, 2, 7]"] by auto
qed

text \<open>
  Claim C29. Serializing a graph and deserializing the bytes into a freshly constructed one gives
  back every neighbour list, the counters and the duplicate groups, and consumes exactly the bytes
  written.
\<close>

theorem Compressed_serialize_roundtrip:
  assumes "cg_inv g" "CompressedGraphDataCell_new deg (gi_duplicate_tracker g \<noteq> None) False = Inr g0"
  shows "\<exists>w g' r. Compressed_Serialize g StreamWriter_new = Inr w \<and>
    Compressed_Deserialize IOStreamReader_Read g0 (IOStreamReader_new (sw_out w @ suffix) 0) = Inr (g', r) \<and>
    io_rest r = suffix \<and> (\<forall>vid. Compressed_GetNeighbors g' vid = Compressed_GetNeighbors g vid) \<and>
    Compressed_GetIds g' = Compressed_GetIds g \<and> gi_total_count g' = gi_total_count g \<and>
    gi_max_capacity g' = gi_max_capacity g \<and> gi_maximum_degree g' = gi_maximum_degree g \<and>
    (\<forall>vid. GraphInterface_GetGroupId Sparse_GetGroupId g' vid = GraphInterface_GetGroupId Sparse_GetGroupId g vid)"
proof -
  have "cg_neighbor_sets g0 = []"
    "gi_duplicate_tracker g0 = map_option (\<lambda>_. SparseDuplicateTracker_new) (gi_duplicate_tracker g)"
    using assms(2) by (auto simp: CompressedGraphDataCell_new_def Sparse_Resize_def)
  from io.parses_Compressed [OF assms(1) this, of StreamWriter_new]
  obtain w bs g' where w: "Compressed_Serialize g StreamWriter_new = Inr w" "sw_out w = bs"
    "io.parses (Compressed_Deserialize IOStreamReader_Read g0) g' bs" "cg_neighbor_sets g' = cg_neighbor_sets g"
    "gi_max_capacity g' = gi_max_capacity g" "gi_maximum_degree g' = gi_maximum_degree g"
    "gi_total_count g' = gi_total_count g"
    "rel_option (\<lambda>d d'. sparse_inv d' \<and> map_of (sd_next_ids d') = map_of (sd_next_ids d))
      (gi_duplicate_tracker g) (gi_duplicate_tracker g')"
    by (auto simp: StreamWriter_new_def)
  have "io_ok (IOStreamReader_new (sw_out w @ suffix) 0)"
    "io_rest (IOStreamReader_new (sw_out w @ suffix) 0) = bs @ suffix"
    by (simp_all add: io_ok_def io_rest_def IOStreamReader_new_def w(2))
  from io.parsesD [OF w(3) this] obtain r where
    "Compressed_Deserialize IOStreamReader_Read g0 (IOStreamReader_new (sw_out w @ suffix) 0) = Inr (g', r)"
    "io_rest r = suffix" by blast
  moreover have "GraphInterface_GetGroupId Sparse_GetGroupId g' vid = GraphInterface_GetGroupId Sparse_GetGroupId g vid" for vid
    using w(8) assms(1) sparse.group_ok unfolding GraphInterface_GetGroupId_def cg_inv_def
    by (cases "gi_duplicate_tracker g"; cases "gi_duplicate_tracker g'") auto
  moreover have "Compressed_GetNeighbors g' vid = Compressed_GetNeighbors g vid" for vid
    unfolding Compressed_GetNeighbors_def Compressed_GetNeighborSize_def w(4) ..
  moreover have "Compressed_GetIds g' = Compressed_GetIds g" unfolding Compressed_GetIds_def w(4) ..
  ultimately show ?thesis using w(1,5-7) by metis
qed

theorem Compressed_serialize_roundtrip_witness:
  "\<exists>g0 w g' r. CompressedGraphDataCell_new 3 True False = Inr g0 \<and>
    Compressed_Serialize example_graph StreamWriter_new = Inr w \<and>
    Compressed_Deserialize IOStreamReader_Read g0 (IOStreamReader_new (sw_out w @ [1]) 0) = Inr (g', r) \<and>
    io_rest r = [1]"
proof -
  have "gi_duplicate_tracker example_graph \<noteq> None" by (simp add: example_graph_def)
  moreover obtain g0 where "CompressedGraphDataCell_new 3 True False = Inr g0"
    by (simp add: CompressedGraphDataCell_new_def)
  ultimately show ?thesis
    using Compressed_serialize_roundtrip [OF example_graph_inv, of 3 g0 "[1]"] by auto
qed

text \<open>
  Claim C23. Whatever the interleaving of the threads and however often the weak exchange fails
  spuriously, when all threads have left the loop \<open>total_count_\<close> is what one thread inserting the
  identifiers one after the other would have left: no update is lost. And from every state that
  can be reached, all threads can still finish.
\<close>

theorem total_count_linearizable:
  assumes "cas_step\<^sup>*\<^sup>* (cnt0, cas_start vids) (cnt, ts)"
  shows "((\<forall>(t, pc)\<in>set ts. pc = Finished) \<longrightarrow> cnt = fold raise_total_count vids cnt0) \<and>
    (\<exists>cnt' ts'. cas_step\<^sup>*\<^sup>* (cnt, ts) (cnt', ts') \<and> (\<forall>(t, pc)\<in>set ts'. pc = Finished))"
proof
  let ?T = "map (\<lambda>vid. u32 (vid + 1)) vids"
  note inv = cas_reach_inv [OF assms]
  show "(\<forall>(t, pc)\<in>set ts. pc = Finished) \<longrightarrow> cnt = fold raise_total_count vids cnt0"
  proof
    assume fin: "\<forall>(t, pc)\<in>set ts. pc = Finished"
    have "t \<le> cnt" if "t \<in> set ?T" for t
    proof -
      have "map fst ts = ?T" using inv by (simp add: cas_inv_def)
      then have "t \<in> set (map fst ts)" using that by simp
      then obtain pc where pc: "(t, pc) \<in> set ts" by auto
      then have "pc = Finished" using fin by auto
      then show ?thesis using inv pc by (fastforce simp: cas_inv_def)
    qed
    then have "Max (insert cnt0 (set ?T)) = cnt"
      using inv by (intro Max_eqI) (auto simp: cas_inv_def)
    then show "cnt = fold raise_total_count vids cnt0" by (simp add: fold_raise)
  qed
next
  obtain cnt' ts' where "cas_step\<^sup>*\<^sup>* (cnt, ts) (cnt', ts')" "\<forall>i<length ts'. snd (ts' ! i) = Finished"
    using cas_finish_all [of "length ts" ts cnt] by auto
  then show "\<exists>cnt' ts'. cas_step\<^sup>*\<^sup>* (cnt, ts) (cnt', ts') \<and> (\<forall>(t, pc)\<in>set ts'. pc = Finished)"
    by (metis (mono_tags, lifting) case_prodI2 in_set_conv_nth snd_conv)
qed

theorem total_count_linearizable_witness:
  "\<exists>cnt' ts'. cas_step\<^sup>*\<^sup>* (0, cas_start [3, 1]) (cnt', ts') \<and> cnt' = 4"
proof -
  have start: "cas_step\<^sup>*\<^sup>* (0, cas_start [3, 1]) (0, cas_start [3, 1])" by simp
  from total_count_linearizable [OF start] obtain cnt' ts' where
    s: "cas_step\<^sup>*\<^sup>* (0, cas_start [3, 1]) (cnt', ts')" "\<forall>(t, pc)\<in>set ts'. pc = Finished" by blast
  have "cnt' = fold raise_total_count [3, 1] 0" using total_count_linearizable [OF s(1)] s(2) by blast
  also have "\<dots> = 4" by (simp add: raise_total_count_def)
  finally show ?thesis using s(1) by blast
qed

end
