(* ===== verification/SparseGraph.thy ===== *)
theory SparseGraph
  imports CompressedGraph "HOL-Library.AList"
begin

text \<open>
  \<open>src/impl/reverse_edge.{h,cpp}\<close> (the incoming edges of every node),
  \<open>GraphInterface::UpdateReverseEdges\<close>, and \<open>src/datacell/sparse_graph_datacell.{h,cpp}\<close> (neighbour
  lists in a hash map, with a version per node for deletion).

  A hash map is an association list; the position of a key in it stands for the order in which the
  map is traversed, which no theorem depends on. The contract of a graph storage is the locale
  \<open>graph_cell\<close>, with \<open>graph_rev\<close> for storages that keep incoming edges.
\<close>

section \<open>ReverseEdge\<close>

type_synonym reverse_edge = "inner_id \<rightharpoonup> inner_id list"

definition AddReverseEdge :: "inner_id \<Rightarrow> inner_id \<Rightarrow> reverse_edge \<Rightarrow> reverse_edge" where
  "AddReverseEdge from to redges =
     (let incoming = (case redges to of None \<Rightarrow> [] | Some xs \<Rightarrow> xs)
      in redges(to \<mapsto> (if from \<in> set incoming then incoming else incoming @ [from])))"

definition RemoveReverseEdge :: "inner_id \<Rightarrow> inner_id \<Rightarrow> reverse_edge \<Rightarrow> reverse_edge" where
  "RemoveReverseEdge from to redges =
     (case redges to of None \<Rightarrow> redges | Some incoming \<Rightarrow> redges(to \<mapsto> remove1 from incoming))"

definition ReverseEdge_GetIncomingNeighbors :: "reverse_edge \<Rightarrow> inner_id \<Rightarrow> inner_id list" where
  "ReverseEdge_GetIncomingNeighbors redges vid = (case redges vid of None \<Rightarrow> [] | Some incoming \<Rightarrow> incoming)"

definition ClearIncomingNeighbors :: "inner_id \<Rightarrow> reverse_edge \<Rightarrow> reverse_edge" where
  "ClearIncomingNeighbors vid redges = (case redges vid of None \<Rightarrow> redges | Some _ \<Rightarrow> redges(vid \<mapsto> []))"

definition ReverseEdge_Clear :: "reverse_edge \<Rightarrow> reverse_edge" where
  "ReverseEdge_Clear redges = Map.empty"

definition UpdateReverseEdges :: "inner_id \<Rightarrow> inner_id list \<Rightarrow> inner_id list \<Rightarrow> reverse_edge option \<Rightarrow> reverse_edge option" where
  "UpdateReverseEdges vid old_neighbors new_neighbors reverse_edges =
     (case reverse_edges of
        None \<Rightarrow> None
      | Some redges \<Rightarrow>
          let old_set = set old_neighbors;
              new_set = set new_neighbors;
              redges = fold (\<lambda>old_n redges. if old_n \<notin> new_set then RemoveReverseEdge vid old_n redges else redges) old_neighbors redges
          in Some (fold (\<lambda>new_n redges. if new_n \<notin> old_set then AddReverseEdge vid new_n redges else redges) new_neighbors redges))"

section \<open>SparseGraphDataCell\<close>

record sparse_graph = "sparse_tracker graph_interface" +
  sg_code_line_size :: nat
  sg_neighbors :: "(inner_id \<times> inner_id list) list"
  sg_is_support_delete :: bool
  sg_id_bit :: nat
  sg_remove_flag_mask :: nat
  sg_node_version :: "(inner_id \<times> nat) list"
  sg_reverse_edges :: "reverse_edge option"

text \<open>The mask is computed with a shift of an \<open>int\<close>, so the identifiers have at most 30 bits.\<close>

definition SparseGraphDataCell_new :: "nat \<Rightarrow> nat \<Rightarrow> bool \<Rightarrow> bool \<Rightarrow> bool \<Rightarrow> sparse_graph result" where
  "SparseGraphDataCell_new max_degree remove_flag_bit support_delete support_duplicate use_reverse_edges =
     (let id_bit = 32 - remove_flag_bit
      in if remove_flag_bit > 32 \<or> id_bit \<ge> 31 then Inl UB
         else Inr \<lparr>gi_max_capacity = 100, gi_maximum_degree = max_degree, gi_total_count = 0,
                   gi_duplicate_tracker = (if support_duplicate then Some (Sparse_Resize 100 SparseDuplicateTracker_new) else None),
                   sg_code_line_size = 0, sg_neighbors = [], sg_is_support_delete = support_delete,
                   sg_id_bit = id_bit, sg_remove_flag_mask = 2 ^ id_bit - 1, sg_node_version = [],
                   sg_reverse_edges = (if use_reverse_edges then Some Map.empty else None)\<rparr>)"

text \<open>\<open>operator[]\<close> of the version map creates the entry with version 0.\<close>

definition version_at :: "inner_id \<Rightarrow> (inner_id \<times> nat) list \<Rightarrow> nat \<times> (inner_id \<times> nat) list" where
  "version_at vid versions =
     (case map_of versions vid of
        None \<Rightarrow> (0, AList.update vid 0 versions)
      | Some v \<Rightarrow> (v, versions))"

text \<open>A stored neighbour: the identifier with its version in the upper bits.\<close>

definition tag_id :: "nat \<Rightarrow> inner_id \<Rightarrow> nat \<Rightarrow> nat" where
  "tag_id id_bit nid version = or nid (u32 (push_bit id_bit version))"

fun tag_neighbors :: "nat \<Rightarrow> inner_id list \<Rightarrow> (inner_id \<times> nat) list \<Rightarrow> nat list \<times> (inner_id \<times> nat) list" where
  "tag_neighbors id_bit [] versions = ([], versions)"
| "tag_neighbors id_bit (nid # nids) versions =
     (let (v, versions) = version_at nid versions;
          (rest, versions) = tag_neighbors id_bit nids versions
      in (tag_id id_bit nid v # rest, versions))"

definition Sparse_InsertNeighborsById :: "inner_id \<Rightarrow> inner_id list \<Rightarrow> sparse_graph \<Rightarrow> sparse_graph result" where
  "Sparse_InsertNeighborsById vid neighbor_ids g =
     (if length neighbor_ids > gi_maximum_degree g then Inl (Throw INVALID_ARGUMENT)
      else
        let g = g\<lparr>gi_max_capacity := max (gi_max_capacity g) (u32 (vid + 1))\<rparr>;
            (g, old_neighbors) =
              (case map_of (sg_neighbors g) vid of
                 None \<Rightarrow>
                   (g\<lparr>sg_neighbors := AList.update vid [] (sg_neighbors g),
                      gi_total_count := u32 (gi_total_count g + 1),
                      sg_node_version := (if sg_is_support_delete g then AList.update vid 0 (sg_node_version g)
                                          else sg_node_version g)\<rparr>, [])
               | Some old \<Rightarrow>
                   (g, if sg_is_support_delete g then map (\<lambda>x. and x (sg_remove_flag_mask g)) old else old));
            g = g\<lparr>sg_reverse_edges := UpdateReverseEdges vid old_neighbors neighbor_ids (sg_reverse_edges g)\<rparr>
        in Inr
             (if sg_is_support_delete g then
                let (tagged, versions) = tag_neighbors (sg_id_bit g) neighbor_ids (sg_node_version g)
                in g\<lparr>sg_neighbors := AList.update vid tagged (sg_neighbors g), sg_node_version := versions\<rparr>
              else g\<lparr>sg_neighbors := AList.update vid neighbor_ids (sg_neighbors g)\<rparr>))"

definition Sparse_GetNeighborSize :: "sparse_graph \<Rightarrow> inner_id \<Rightarrow> nat" where
  "Sparse_GetNeighborSize g vid = (case map_of (sg_neighbors g) vid of None \<Rightarrow> 0 | Some xs \<Rightarrow> length xs)"

text \<open>
  A node that does not exist leaves the caller's vector alone; \<open>at\<close> of the version map throws
  where there is no entry.
\<close>

fun untag_neighbors :: "nat \<Rightarrow> nat \<Rightarrow> (inner_id \<times> nat) list \<Rightarrow> nat list \<Rightarrow> inner_id list result" where
  "untag_neighbors id_bit flag_mask versions [] = Inr []"
| "untag_neighbors id_bit flag_mask versions (x # xs) =
     (let cur_version = u8 (drop_bit id_bit x); real_id = and x flag_mask
      in case map_of versions real_id of
           None \<Rightarrow> Inl Std_out_of_range
         | Some v \<Rightarrow> bindR (untag_neighbors id_bit flag_mask versions xs) (\<lambda>rest.
             Inr (if v = cur_version then real_id # rest else rest)))"

definition Sparse_GetNeighbors :: "sparse_graph \<Rightarrow> inner_id \<Rightarrow> inner_id list \<Rightarrow> inner_id list result" where
  "Sparse_GetNeighbors g vid neighbor_ids =
     (case map_of (sg_neighbors g) vid of
        None \<Rightarrow> Inr neighbor_ids
      | Some xs \<Rightarrow>
          if sg_is_support_delete g
          then untag_neighbors (sg_id_bit g) (sg_remove_flag_mask g) (sg_node_version g) xs
          else Inr xs)"

definition Sparse_CheckIdExists :: "sparse_graph \<Rightarrow> inner_id \<Rightarrow> bool" where
  "Sparse_CheckIdExists g vid \<longleftrightarrow> map_of (sg_neighbors g) vid \<noteq> None"

text \<open>\<open>iter->second + 1 == 0\<close> adds in \<open>int\<close>: it never holds for a \<open>uint8_t\<close>.\<close>

definition Sparse_DeleteNeighborsById :: "inner_id \<Rightarrow> sparse_graph \<Rightarrow> sparse_graph result" where
  "Sparse_DeleteNeighborsById vid g =
     (if sg_is_support_delete g then
        (case map_of (sg_node_version g) vid of
           None \<Rightarrow> Inr g
         | Some v \<Rightarrow>
             if v + 1 = 0 then Inl (Throw INTERNAL_ERROR)
             else Inr (g\<lparr>sg_node_version := AList.update vid (u8 (v + 1)) (sg_node_version g)\<rparr>))
      else Inl (Throw UNSUPPORTED_INDEX_OPERATION))"

definition Sparse_RecoverDeleteNeighborsById :: "inner_id \<Rightarrow> sparse_graph \<Rightarrow> sparse_graph result" where
  "Sparse_RecoverDeleteNeighborsById vid g =
     (if sg_is_support_delete g then
        (case map_of (sg_node_version g) vid of
           None \<Rightarrow> Inl (Throw INTERNAL_ERROR)
         | Some v \<Rightarrow>
             if v = 0 then Inl (Throw INTERNAL_ERROR)
             else Inr (g\<lparr>sg_node_version := AList.update vid (v - 1) (sg_node_version g)\<rparr>))
      else Inl (Throw UNSUPPORTED_INDEX_OPERATION))"

definition Sparse_GetIncomingNeighbors :: "sparse_graph \<Rightarrow> inner_id \<Rightarrow> inner_id list" where
  "Sparse_GetIncomingNeighbors g vid =
     (case sg_reverse_edges g of None \<Rightarrow> [] | Some redges \<Rightarrow> ReverseEdge_GetIncomingNeighbors redges vid)"

definition Sparse_GetIds :: "sparse_graph \<Rightarrow> inner_id list" where
  "Sparse_GetIds g = map fst (sg_neighbors g)"

definition Sparse_GetMemoryUsage :: "nat \<Rightarrow> (reverse_edge \<Rightarrow> nat) \<Rightarrow> sparse_graph \<Rightarrow> nat" where
  "Sparse_GetMemoryUsage sizeof_cell reverse_usage g =
     sizeof_cell + length (sg_neighbors g) * (4 + gi_maximum_degree g * 4 + 8) + length (sg_node_version g) * (1 + 4) +
     (case sg_reverse_edges g of None \<Rightarrow> 0 | Some redges \<Rightarrow> reverse_usage redges)"

text \<open>\<open>Move\<close>: replace one node by another in the lists of its predecessors, then move its own list.\<close>

definition replace_neighbor :: "inner_id \<Rightarrow> inner_id \<Rightarrow> inner_id list \<Rightarrow> inner_id list" where
  "replace_neighbor from to neighbors =
     filter (\<lambda>nb. nb \<noteq> from) neighbors @ (if to \<in> set neighbors then [] else [to])"

definition move_node ::
  "('g \<Rightarrow> inner_id \<Rightarrow> inner_id list \<Rightarrow> inner_id list result) \<Rightarrow> (inner_id \<Rightarrow> inner_id list \<Rightarrow> 'g \<Rightarrow> 'g result) \<Rightarrow>
     inner_id list \<Rightarrow> inner_id \<Rightarrow> inner_id \<Rightarrow> 'g \<Rightarrow> 'g result" where
  "move_node get ins reverse_neighbors from to g =
     bindR (ins to [] g) (\<lambda>g.
     bindR (foldR (\<lambda>reverse_nb g.
        bindR (get g reverse_nb []) (\<lambda>neighbors.
          ins reverse_nb (replace_neighbor from to neighbors) g)) reverse_neighbors g) (\<lambda>g.
     bindR (get g from []) (\<lambda>from_neighbors.
     bindR (ins to from_neighbors g) (\<lambda>g.
       ins from [] g))))"

definition Sparse_Move :: "inner_id \<Rightarrow> inner_id \<Rightarrow> sparse_graph \<Rightarrow> sparse_graph result" where
  "Sparse_Move from to g =
     (if from = to then Inr g
      else if map_of (sg_neighbors g) from = None then Inr g
      else bindR (move_node Sparse_GetNeighbors Sparse_InsertNeighborsById (Sparse_GetIncomingNeighbors g from) from to g)
        (\<lambda>g. Inr (g\<lparr>sg_neighbors := AList.delete from (sg_neighbors g)\<rparr>)))"

text \<open>
  \<open>MergeOther\<close>: the vector of neighbours is kept over the rounds; identifiers are 32-bit numbers.
\<close>

definition merge_node :: "nat \<Rightarrow> sparse_graph \<Rightarrow> inner_id \<Rightarrow> inner_id list \<times> sparse_graph \<Rightarrow> (inner_id list \<times> sparse_graph) result" where
  "merge_node bias other vid = (\<lambda>(neighbor_ids, g).
     bindR (Sparse_GetNeighbors other vid neighbor_ids) (\<lambda>neighbor_ids.
       let neighbor_ids = map (\<lambda>n. u32 (n + bias)) neighbor_ids
       in bindR (Sparse_InsertNeighborsById (u32 (vid + bias)) neighbor_ids g) (\<lambda>g.
            Inr (neighbor_ids,
              if sg_is_support_delete g
              then g\<lparr>sg_node_version := AList.update (u32 (vid + bias)) 0 (sg_node_version g)\<rparr> else g))))"

definition Sparse_MergeOther :: "sparse_graph \<Rightarrow> nat \<Rightarrow> sparse_graph \<Rightarrow> sparse_graph result" where
  "Sparse_MergeOther other bias g =
     (if gi_maximum_degree g \<noteq> gi_maximum_degree other then Inl (Throw INTERNAL_ERROR)
      else bindR (foldR (merge_node bias other) (map fst (sg_neighbors other)) ([], g)) (\<lambda>(_, g). Inr g))"

definition sparse_write_node :: "inner_id \<times> inner_id list \<Rightarrow> stream_writer \<Rightarrow> stream_writer" where
  "sparse_write_node = (\<lambda>(vid, xs) w. WriteVector 4 xs (WriteObj 4 vid w))"

definition SparseGraph_Serialize :: "sparse_graph \<Rightarrow> stream_writer \<Rightarrow> stream_writer result" where
  "SparseGraph_Serialize g writer =
     bindR (GraphInterface_Serialize Sparse_Serialize g writer) (\<lambda>w1.
       let w2 = WriteObj 8 (length (sg_neighbors g)) (WriteObj 4 (sg_code_line_size g) w1);
           w3 = fold sparse_write_node (sg_neighbors g) w2
       in Inr (if sg_is_support_delete g
               then fold (\<lambda>(vid, v) w. WriteObj 1 v (WriteObj 4 vid w)) (sg_node_version g) w3
               else w3))"

definition sparse_read_node :: "'r rd \<Rightarrow> (inner_id \<times> inner_id list) list \<Rightarrow> 'r \<Rightarrow> ((inner_id \<times> inner_id list) list \<times> 'r) result" where
  "sparse_read_node rd neighbors r =
     bindR (ReadObj rd 4 r) (\<lambda>(key, r1).
     bindR (ReadVector rd 4 r1) (\<lambda>(xs, r2). Inr (AList.update key xs neighbors, r2)))"

definition sparse_read_version :: "'r rd \<Rightarrow> (inner_id \<times> nat) list \<Rightarrow> 'r \<Rightarrow> ((inner_id \<times> nat) list \<times> 'r) result" where
  "sparse_read_version rd versions r =
     bindR (ReadObj rd 4 r) (\<lambda>(key, r1).
     bindR (ReadObj rd 1 r1) (\<lambda>(v, r2). Inr (AList.update key v versions, r2)))"

definition SparseGraph_Deserialize :: "'r rd \<Rightarrow> sparse_graph \<Rightarrow> 'r \<Rightarrow> (sparse_graph \<times> 'r) result" where
  "SparseGraph_Deserialize rd g r =
     bindR (GraphInterface_Deserialize rd (Sparse_Deserialize rd) g r) (\<lambda>(g, r).
     bindR (ReadObj rd 4 r) (\<lambda>(line, r).
     bindR (ReadObj rd 8 r) (\<lambda>(n, r).
     bindR (read_loop n (sparse_read_node rd) (sg_neighbors g) r) (\<lambda>(neighbors, r).
       let g = g\<lparr>sg_code_line_size := line, sg_neighbors := neighbors, gi_total_count := u32 n\<rparr>
       in if sg_is_support_delete g
          then bindR (read_loop n (sparse_read_version rd) (sg_node_version g) r) (\<lambda>(versions, r).
                 Inr (g\<lparr>sg_node_version := versions\<rparr>, r))
          else Inr (g, r)))))"

section \<open>The contract of a graph storage\<close>

text \<open>
  Nodes are numbers below a limit; \<open>nbrs\<close> is the abstract graph. Inserting replaces one list;
  reading an existing node returns its list.
\<close>

locale graph_cell =
  fixes ins :: "inner_id \<Rightarrow> inner_id list \<Rightarrow> 'g \<Rightarrow> 'g result"
    and get :: "'g \<Rightarrow> inner_id \<Rightarrow> inner_id list \<Rightarrow> inner_id list result"
    and nbrs :: "'g \<Rightarrow> inner_id \<Rightarrow> inner_id list"
    and node :: "'g \<Rightarrow> inner_id \<Rightarrow> bool"
    and degree :: "'g \<Rightarrow> nat"
    and inv :: "'g \<Rightarrow> bool"
    and limit :: "'g \<Rightarrow> nat"
  assumes ins_ok: "inv g \<Longrightarrow> vid < limit g \<Longrightarrow> \<forall>n\<in>set ns. n < limit g \<Longrightarrow> length ns \<le> degree g \<Longrightarrow>
      \<exists>g'. ins vid ns g = Inr g' \<and> inv g' \<and> nbrs g' = (nbrs g)(vid := ns) \<and> degree g' = degree g \<and>
        limit g' = limit g \<and> (\<forall>x. node g' x \<longleftrightarrow> node g x \<or> x = vid)"
    and ins_refused: "length ns > degree g \<Longrightarrow> \<exists>e. ins vid ns g = Inl e"
    and get_ok: "inv g \<Longrightarrow> node g vid \<Longrightarrow> get g vid old = Inr (nbrs g vid)"
    and get_absent: "inv g \<Longrightarrow> \<not> node g vid \<Longrightarrow> nbrs g vid = [] \<and> (vid < limit g \<longrightarrow> get g vid [] = Inr [])"
    and degree_ok: "inv g \<Longrightarrow> length (nbrs g vid) \<le> degree g"
    and nbrs_limit: "inv g \<Longrightarrow> n \<in> set (nbrs g vid) \<Longrightarrow> n < limit g"
    and node_limit: "inv g \<Longrightarrow> node g vid \<Longrightarrow> vid < limit g"
begin

lemma get_nil: "inv g \<Longrightarrow> vid < limit g \<Longrightarrow> get g vid [] = Inr (nbrs g vid)"
  using get_ok [of g vid "[]"] get_absent [of g vid] by (cases "node g vid") auto

end

text \<open>A storage that also knows the incoming edges.\<close>

locale graph_rev = graph_cell +
  fixes incoming :: "'a \<Rightarrow> inner_id \<Rightarrow> inner_id list"
  assumes incoming_ok: "inv g \<Longrightarrow> set (incoming g vid) = {x. vid \<in> set (nbrs g x)}"
    and incoming_distinct: "inv g \<Longrightarrow> distinct (incoming g vid)"

section \<open>Reverse edges\<close>

definition rev_of :: "reverse_edge \<Rightarrow> inner_id \<Rightarrow> inner_id list" where
  "rev_of redges to = ReverseEdge_GetIncomingNeighbors redges to"

definition rev_ok :: "(inner_id \<Rightarrow> inner_id list) \<Rightarrow> reverse_edge \<Rightarrow> bool" where
  "rev_ok nbrs redges \<longleftrightarrow> (\<forall>to. distinct (rev_of redges to) \<and> set (rev_of redges to) = {x. to \<in> set (nbrs x)})"

lemma rev_of_Add:
  "rev_of (AddReverseEdge from to redges) y =
     (if y = to then (if from \<in> set (rev_of redges to) then rev_of redges to else rev_of redges to @ [from]) else rev_of redges y)"
  by (auto simp: rev_of_def AddReverseEdge_def ReverseEdge_GetIncomingNeighbors_def Let_def split: option.splits)

lemma rev_of_Remove:
  "rev_of (RemoveReverseEdge from to redges) y = (if y = to then remove1 from (rev_of redges to) else rev_of redges y)"
  by (auto simp: rev_of_def RemoveReverseEdge_def ReverseEdge_GetIncomingNeighbors_def split: option.splits)

lemma removes_ok:
  fixes olds vid N
  assumes "\<forall>to. distinct (rev_of redges to)"
  defines "r' \<equiv> fold (\<lambda>old_n redges. if old_n \<notin> N then RemoveReverseEdge vid old_n redges else redges) olds redges"
  shows "\<forall>to. distinct (rev_of r' to) \<and>
    set (rev_of r' to) = set (rev_of redges to) - (if to \<in> set olds \<and> to \<notin> N then {vid} else {})"
  using assms(1) unfolding r'_def
proof (induction olds arbitrary: redges)
  case (Cons o1 olds)
  let ?r = "if o1 \<notin> N then RemoveReverseEdge vid o1 redges else redges"
  have d: "\<forall>to. distinct (rev_of ?r to)" using Cons.prems by (auto simp: rev_of_Remove)
  have "set (rev_of ?r to) = set (rev_of redges to) - (if to = o1 \<and> to \<notin> N then {vid} else {})" for to
    using Cons.prems by (auto simp: rev_of_Remove)
  then show ?case using Cons.IH [OF d] by (auto split: if_splits)
qed simp

lemma adds_ok:
  fixes news vid N
  assumes "\<forall>to. distinct (rev_of redges to)"
  defines "r' \<equiv> fold (\<lambda>new_n redges. if new_n \<notin> N then AddReverseEdge vid new_n redges else redges) news redges"
  shows "\<forall>to. distinct (rev_of r' to) \<and>
    set (rev_of r' to) = set (rev_of redges to) \<union> (if to \<in> set news \<and> to \<notin> N then {vid} else {})"
  using assms(1) unfolding r'_def
proof (induction news arbitrary: redges)
  case (Cons o1 news)
  let ?r = "if o1 \<notin> N then AddReverseEdge vid o1 redges else redges"
  have d: "\<forall>to. distinct (rev_of ?r to)" using Cons.prems by (auto simp: rev_of_Add)
  have "set (rev_of ?r to) = set (rev_of redges to) \<union> (if to = o1 \<and> to \<notin> N then {vid} else {})" for to
    by (auto simp: rev_of_Add)
  then show ?case using Cons.IH [OF d] by (auto split: if_splits)
qed simp

text \<open>Updating with the old and the new list of a node keeps the incoming edges exact.\<close>

lemma UpdateReverseEdges_ok:
  assumes "rev_ok nbrs redges"
  shows "\<exists>r'. UpdateReverseEdges vid (nbrs vid) news (Some redges) = Some r' \<and> rev_ok (nbrs(vid := news)) r'"
proof -
  let ?r1 = "fold (\<lambda>old_n redges. if old_n \<notin> set news then RemoveReverseEdge vid old_n redges else redges) (nbrs vid) redges"
  let ?r2 = "fold (\<lambda>new_n redges. if new_n \<notin> set (nbrs vid) then AddReverseEdge vid new_n redges else redges) news ?r1"
  have d: "\<forall>to. distinct (rev_of redges to)" and e: "set (rev_of redges to) = {x. to \<in> set (nbrs x)}" for to
    using assms by (auto simp: rev_ok_def)
  note r1 = removes_ok [OF d, where N = "set news" and olds = "nbrs vid" and vid = vid]
  then have d1: "\<forall>to. distinct (rev_of ?r1 to)" by blast
  note r2 = adds_ok [OF d1, where N = "set (nbrs vid)" and news = news and vid = vid]
  have "rev_ok (nbrs(vid := news)) ?r2" unfolding rev_ok_def using r1 r2 e by (auto split: if_splits)
  then show ?thesis by (simp add: UpdateReverseEdges_def Let_def)
qed

section \<open>The versions\<close>

declare map_of_eq_Some_iff [simp del] Some_eq_map_of_iff [simp del]

definition ver :: "(inner_id \<times> nat) list \<Rightarrow> inner_id \<Rightarrow> nat" where
  "ver versions vid = (case map_of versions vid of None \<Rightarrow> 0 | Some v \<Rightarrow> v)"

lemma version_at_eq:
  "fst (version_at k vs) = ver vs k" "ver (snd (version_at k vs)) = ver vs"
  "dom (map_of (snd (version_at k vs))) = insert k (dom (map_of vs))"
  "distinct (map fst vs) \<Longrightarrow> distinct (map fst (snd (version_at k vs)))"
  by (auto simp: version_at_def ver_def fun_eq_iff update_conv' distinct_update split: option.splits)

lemma tag_neighbors_eq:
  "fst (tag_neighbors b ns vs) = map (\<lambda>n. tag_id b n (ver vs n)) ns \<and> ver (snd (tag_neighbors b ns vs)) = ver vs \<and>
   dom (map_of (snd (tag_neighbors b ns vs))) = dom (map_of vs) \<union> set ns \<and>
   (distinct (map fst vs) \<longrightarrow> distinct (map fst (snd (tag_neighbors b ns vs))))"
proof (induction ns arbitrary: vs)
  case (Cons n ns)
  define vs1 where "vs1 = snd (version_at n vs)"
  have v: "version_at n vs = (ver vs n, vs1)" by (metis prod.collapse version_at_eq(1) vs1_def)
  have vs1: "ver vs1 = ver vs" "dom (map_of vs1) = insert n (dom (map_of vs))"
    "distinct (map fst vs) \<Longrightarrow> distinct (map fst vs1)" using version_at_eq [where k = n and vs = vs] by (simp_all add: vs1_def)
  obtain t vs2 where t: "tag_neighbors b ns vs1 = (t, vs2)" by fastforce
  then show ?case using Cons.IH [of vs1] vs1 by (auto simp: v)
qed simp

lemma and_mask_nat: "and x (2 ^ b - 1) = x mod 2 ^ b" for x :: nat
  by (metis mask_eq_exp_minus_1 take_bit_eq_mask take_bit_eq_mod)

lemma untag_tag:
  assumes "n < 2 ^ b" "v < 256" "b \<le> 24"
  shows "and (tag_id b n v) (2 ^ b - 1) = n" "u8 (drop_bit b (tag_id b n v)) = v"
proof -
  have "(2 :: nat) ^ b * v < 2 ^ 24 * 256"
    using assms(2,3) power_increasing [of b 24 "2 :: nat"] by (intro mult_le_less_imp_less) auto
  then have u: "u32 (push_bit b v) = 2 ^ b * v" by (simp add: push_bit_eq_mult mult.commute)
  have "and n (2 ^ b * v) = 0"
  proof (rule bit_eqI)
    fix i
    have "\<not> bit n i" if "b \<le> i"
    proof -
      have "n < 2 ^ i" using assms(1) power_increasing [OF that, of "2 :: nat"] by linarith
      then show ?thesis by (simp add: bit_iff_odd)
    qed
    moreover have "\<not> bit (2 ^ b * v) i" if "i < b"
      using that by (simp add: bit_push_bit_iff_nat mult.commute [of "2 ^ b"] flip: push_bit_eq_mult)
    ultimately show "bit (and n (2 ^ b * v)) i = bit 0 i" by (cases "b \<le> i") (auto simp: bit_and_iff not_le)
  qed
  then have t: "tag_id b n v = n + 2 ^ b * v" by (simp add: tag_id_def u disjunctive_add_eq_or)
  show "and (tag_id b n v) (2 ^ b - 1) = n" using assms(1) unfolding and_mask_nat t by simp
  show "u8 (drop_bit b (tag_id b n v)) = v" using assms(1,2) by (simp add: t drop_bit_eq_div)
qed

lemma untag_neighbors_eq:
  "\<forall>x\<in>set xs. and x m \<in> dom (map_of vs) \<Longrightarrow>
   untag_neighbors b m vs xs = Inr (map (\<lambda>x. and x m) (filter (\<lambda>x. ver vs (and x m) = u8 (drop_bit b x)) xs))"
  by (induction xs) (auto simp: ver_def Let_def)

section \<open>The sparse graph fulfils the contract\<close>

definition sg_nbrs :: "sparse_graph \<Rightarrow> inner_id \<Rightarrow> inner_id list" where
  "sg_nbrs g vid =
     (case map_of (sg_neighbors g) vid of
        None \<Rightarrow> []
      | Some xs \<Rightarrow>
          if sg_is_support_delete g
          then map (\<lambda>x. and x (sg_remove_flag_mask g))
                 (filter (\<lambda>x. ver (sg_node_version g) (and x (sg_remove_flag_mask g)) = u8 (drop_bit (sg_id_bit g) x)) xs)
          else xs)"

definition sg_limit :: "sparse_graph \<Rightarrow> nat" where
  "sg_limit g = (if sg_is_support_delete g then 2 ^ sg_id_bit g else 2 ^ 32 - 1)"

definition sg_inv :: "sparse_graph \<Rightarrow> bool" where
  "sg_inv g \<longleftrightarrow>
     (\<forall>vid xs. map_of (sg_neighbors g) vid = Some xs \<longrightarrow> vid < sg_limit g \<and> length xs \<le> gi_maximum_degree g) \<and>
     distinct (map fst (sg_neighbors g)) \<and> distinct (map fst (sg_node_version g)) \<and>
     (sg_is_support_delete g \<longrightarrow>
        sg_id_bit g \<le> 24 \<and> sg_remove_flag_mask g = 2 ^ sg_id_bit g - 1 \<and>
        (\<forall>vid xs. map_of (sg_neighbors g) vid = Some xs \<longrightarrow>
           (\<forall>x\<in>set xs. and x (sg_remove_flag_mask g) \<in> dom (map_of (sg_node_version g)))) \<and>
        (\<forall>k. ver (sg_node_version g) k < 256) \<and>
        (\<forall>k. map_of (sg_neighbors g) k = None \<longrightarrow> ver (sg_node_version g) k = 0)) \<and>
     (\<not> sg_is_support_delete g \<longrightarrow>
        (\<forall>vid xs. map_of (sg_neighbors g) vid = Some xs \<longrightarrow> (\<forall>x\<in>set xs. x < sg_limit g)))"

lemma sg_invD:
  assumes "sg_inv g"
  shows "map_of (sg_neighbors g) vid = Some xs \<Longrightarrow> vid < sg_limit g"
    "map_of (sg_neighbors g) vid = Some xs \<Longrightarrow> length xs \<le> gi_maximum_degree g"
    "distinct (map fst (sg_neighbors g))" "distinct (map fst (sg_node_version g))"
    "sg_is_support_delete g \<Longrightarrow> sg_id_bit g \<le> 24"
    "sg_is_support_delete g \<Longrightarrow> sg_remove_flag_mask g = 2 ^ sg_id_bit g - 1"
    "sg_is_support_delete g \<Longrightarrow> map_of (sg_neighbors g) vid = Some xs \<Longrightarrow> x \<in> set xs \<Longrightarrow>
       and x (sg_remove_flag_mask g) \<in> dom (map_of (sg_node_version g))"
    "sg_is_support_delete g \<Longrightarrow> ver (sg_node_version g) k < 256"
    "sg_is_support_delete g \<Longrightarrow> map_of (sg_neighbors g) k = None \<Longrightarrow> ver (sg_node_version g) k = 0"
    "\<not> sg_is_support_delete g \<Longrightarrow> map_of (sg_neighbors g) vid = Some xs \<Longrightarrow> x \<in> set xs \<Longrightarrow> x < sg_limit g"
  using assms unfolding sg_inv_def by blast+

lemma sg_GetNeighbors:
  assumes "sg_inv g" "map_of (sg_neighbors g) vid \<noteq> None"
  shows "Sparse_GetNeighbors g vid old = Inr (sg_nbrs g vid)"
proof -
  obtain xs where xs: "map_of (sg_neighbors g) vid = Some xs" using assms(2) by blast
  show ?thesis
  proof (cases "sg_is_support_delete g")
    case True
    then have "\<forall>x\<in>set xs. and x (sg_remove_flag_mask g) \<in> dom (map_of (sg_node_version g))"
      using sg_invD(7) [OF assms(1)] xs by blast
    then show ?thesis using True xs untag_neighbors_eq by (simp add: Sparse_GetNeighbors_def sg_nbrs_def)
  qed (simp add: Sparse_GetNeighbors_def sg_nbrs_def xs)
qed

lemma map_of_update: "map_of (AList.update k v al) = (map_of al)(k \<mapsto> v)"
  by (rule update_conv')

text \<open>The state after an insertion, without the intermediate ones.\<close>

lemma Sparse_Insert_eq:
  assumes "length ns \<le> gi_maximum_degree g" "vid < 2 ^ 32 - 1" "sg_inv g"
  obtains g' where "Sparse_InsertNeighborsById vid ns g = Inr g'"
    "map_of (sg_neighbors g') = (map_of (sg_neighbors g))(vid \<mapsto>
       (if sg_is_support_delete g then map (\<lambda>n. tag_id (sg_id_bit g) n (ver (sg_node_version g) n)) ns else ns))"
    "ver (sg_node_version g') = ver (sg_node_version g)"
    "sg_is_support_delete g \<Longrightarrow> dom (map_of (sg_node_version g)) \<union> set ns \<subseteq> dom (map_of (sg_node_version g'))"
    "sg_is_support_delete g' = sg_is_support_delete g" "sg_id_bit g' = sg_id_bit g"
    "sg_remove_flag_mask g' = sg_remove_flag_mask g" "gi_maximum_degree g' = gi_maximum_degree g"
    "distinct (map fst (sg_neighbors g'))" "distinct (map fst (sg_node_version g'))"
    "sg_reverse_edges g' = UpdateReverseEdges vid
       (case map_of (sg_neighbors g) vid of None \<Rightarrow> []
        | Some old \<Rightarrow> if sg_is_support_delete g then map (\<lambda>x. and x (sg_remove_flag_mask g)) old else old) ns (sg_reverse_edges g)"
proof -
  note d = sg_invD(3,4) [OF assms(3)]
  define vs where "vs = (if map_of (sg_neighbors g) vid = None \<and> sg_is_support_delete g
    then AList.update vid 0 (sg_node_version g) else sg_node_version g)"
  have "ver vs k = ver (sg_node_version g) k" for k
    using sg_invD(9) [OF assms(3), of vid] by (cases "k = vid") (auto simp: vs_def ver_def map_of_update)
  then have vs: "ver vs = ver (sg_node_version g)" "dom (map_of (sg_node_version g)) \<subseteq> dom (map_of vs)" "distinct (map fst vs)"
    by (auto simp: vs_def map_of_update distinct_update d)
  obtain tagged vs2 where t: "tag_neighbors (sg_id_bit g) ns vs = (tagged, vs2)" by fastforce
  note te = tag_neighbors_eq [of "sg_id_bit g" ns vs, unfolded t fst_conv snd_conv]
  define old where "old = (case map_of (sg_neighbors g) vid of None \<Rightarrow> []
    | Some old \<Rightarrow> if sg_is_support_delete g then map (\<lambda>x. and x (sg_remove_flag_mask g)) old else old)"
  define N where "N = (if map_of (sg_neighbors g) vid = None then AList.update vid [] (sg_neighbors g) else sg_neighbors g)"
  define g' where "g' = g\<lparr>gi_max_capacity := max (gi_max_capacity g) (u32 (vid + 1)),
     gi_total_count := (if map_of (sg_neighbors g) vid = None then u32 (gi_total_count g + 1) else gi_total_count g),
     sg_neighbors := AList.update vid (if sg_is_support_delete g then tagged else ns) N,
     sg_node_version := (if sg_is_support_delete g then vs2 else sg_node_version g),
     sg_reverse_edges := UpdateReverseEdges vid old ns (sg_reverse_edges g)\<rparr>"
  have run: "Sparse_InsertNeighborsById vid ns g = Inr g'"
    using assms(1) t by (cases "map_of (sg_neighbors g) vid")
      (auto simp: Sparse_InsertNeighborsById_def Let_def g'_def vs_def N_def old_def)
  have N: "map_of (AList.update vid X N) = (map_of (sg_neighbors g))(vid \<mapsto> X)" "distinct (map fst (AList.update vid X N))" for X
    using d(1) by (simp_all add: N_def map_of_update distinct_update)
  show thesis
    by (rule that [OF run]) (use te vs N d in \<open>auto simp: g'_def old_def\<close>)
qed

lemma sg_tagged:
  assumes "sg_inv g" "sg_is_support_delete g" "\<forall>n\<in>set ns. n < sg_limit g"
  shows "map (\<lambda>x. and x (sg_remove_flag_mask g))
      (filter (\<lambda>x. ver (sg_node_version g) (and x (sg_remove_flag_mask g)) = u8 (drop_bit (sg_id_bit g) x))
        (map (\<lambda>n. tag_id (sg_id_bit g) n (ver (sg_node_version g) n)) ns)) = ns"
    and "n \<in> set ns \<Longrightarrow> and (tag_id (sg_id_bit g) n (ver (sg_node_version g) n)) (sg_remove_flag_mask g) = n"
proof -
  have u: "and (tag_id (sg_id_bit g) n (ver (sg_node_version g) n)) (sg_remove_flag_mask g) = n"
    "u8 (drop_bit (sg_id_bit g) (tag_id (sg_id_bit g) n (ver (sg_node_version g) n))) = ver (sg_node_version g) n"
    if "n \<in> set ns" for n
    using untag_tag [of n "sg_id_bit g" "ver (sg_node_version g) n"] sg_invD(5,8) [OF assms(1,2)] assms(2,3) that
    unfolding sg_invD(6) [OF assms(1,2)] by (auto simp: sg_limit_def)
  then show "map (\<lambda>x. and x (sg_remove_flag_mask g))
      (filter (\<lambda>x. ver (sg_node_version g) (and x (sg_remove_flag_mask g)) = u8 (drop_bit (sg_id_bit g) x))
        (map (\<lambda>n. tag_id (sg_id_bit g) n (ver (sg_node_version g) n)) ns)) = ns"
    by (induction ns) auto
  show "n \<in> set ns \<Longrightarrow> and (tag_id (sg_id_bit g) n (ver (sg_node_version g) n)) (sg_remove_flag_mask g) = n" by (rule u)
qed

lemma sg_limit_bound: "sg_inv g \<Longrightarrow> sg_limit g \<le> 2 ^ 32 - 1"
  using sg_invD(5) [of g] power_increasing [of "sg_id_bit g" 24 "2 :: nat"] by (cases "sg_is_support_delete g") (auto simp: sg_limit_def)

lemma Sparse_Insert_ok:
  assumes "sg_inv g" "vid < sg_limit g" "\<forall>n\<in>set ns. n < sg_limit g" "length ns \<le> gi_maximum_degree g"
  obtains g' where "Sparse_InsertNeighborsById vid ns g = Inr g'" "sg_inv g'" "sg_nbrs g' = (sg_nbrs g)(vid := ns)"
    "gi_maximum_degree g' = gi_maximum_degree g" "sg_limit g' = sg_limit g"
    "\<forall>x. Sparse_CheckIdExists g' x \<longleftrightarrow> Sparse_CheckIdExists g x \<or> x = vid"
    "ver (sg_node_version g') = ver (sg_node_version g)" "sg_is_support_delete g' = sg_is_support_delete g"
    "sg_reverse_edges g' = UpdateReverseEdges vid
       (case map_of (sg_neighbors g) vid of None \<Rightarrow> []
        | Some old \<Rightarrow> if sg_is_support_delete g then map (\<lambda>x. and x (sg_remove_flag_mask g)) old else old) ns (sg_reverse_edges g)"
    "map_of (sg_neighbors g') = (map_of (sg_neighbors g))(vid \<mapsto>
       (if sg_is_support_delete g then map (\<lambda>n. tag_id (sg_id_bit g) n (ver (sg_node_version g) n)) ns else ns))"
proof -
  have "vid < 2 ^ 32 - 1" using assms(2) sg_limit_bound [OF assms(1)] by simp
  obtain g' where g': "Sparse_InsertNeighborsById vid ns g = Inr g'"
    "map_of (sg_neighbors g') = (map_of (sg_neighbors g))(vid \<mapsto>
       (if sg_is_support_delete g then map (\<lambda>n. tag_id (sg_id_bit g) n (ver (sg_node_version g) n)) ns else ns))"
    "ver (sg_node_version g') = ver (sg_node_version g)"
    "sg_is_support_delete g \<Longrightarrow> dom (map_of (sg_node_version g)) \<union> set ns \<subseteq> dom (map_of (sg_node_version g'))"
    "sg_is_support_delete g' = sg_is_support_delete g" "sg_id_bit g' = sg_id_bit g"
    "sg_remove_flag_mask g' = sg_remove_flag_mask g" "gi_maximum_degree g' = gi_maximum_degree g"
    "distinct (map fst (sg_neighbors g'))" "distinct (map fst (sg_node_version g'))"
    "sg_reverse_edges g' = UpdateReverseEdges vid
       (case map_of (sg_neighbors g) vid of None \<Rightarrow> []
        | Some old \<Rightarrow> if sg_is_support_delete g then map (\<lambda>x. and x (sg_remove_flag_mask g)) old else old) ns (sg_reverse_edges g)"
    using assms(4) \<open>vid < 2 ^ 32 - 1\<close> assms(1) by (rule Sparse_Insert_eq) blast
  have lim: "sg_limit g' = sg_limit g" using g'(5,6) by (simp add: sg_limit_def)
  have "sg_nbrs g' k = ((sg_nbrs g)(vid := ns)) k" for k
    unfolding sg_nbrs_def g'(2,3,5-7) using sg_tagged(1) [OF assms(1) _ assms(3)] by simp
  then have nb: "sg_nbrs g' = (sg_nbrs g)(vid := ns)" by blast
  have len: "k < sg_limit g' \<and> length xs \<le> gi_maximum_degree g'" if "map_of (sg_neighbors g') k = Some xs" for k xs
    using that sg_invD(1,2) [OF assms(1), of k xs] assms(2,4) unfolding g'(2,8) lim by (auto split: if_splits)
  have sup: "and x (sg_remove_flag_mask g') \<in> dom (map_of (sg_node_version g'))"
    if sd: "sg_is_support_delete g" and xs: "map_of (sg_neighbors g') k = Some xs" and x: "x \<in> set xs" for k xs x
  proof (cases "k = vid")
    case True
    then have "xs = map (\<lambda>n. tag_id (sg_id_bit g) n (ver (sg_node_version g) n)) ns" using sd xs unfolding g'(2) by simp
    then obtain n where "n \<in> set ns" "x = tag_id (sg_id_bit g) n (ver (sg_node_version g) n)" using x by auto
    then show ?thesis using sg_tagged(2) [OF assms(1) sd assms(3)] g'(4) [OF sd] g'(7) by auto
  next
    case False
    then have "map_of (sg_neighbors g) k = Some xs" using xs unfolding g'(2) by simp
    then show ?thesis using sg_invD(7) [OF assms(1) sd _ x] g'(4) [OF sd] g'(7) by auto
  qed
  have "sg_inv g'" unfolding sg_inv_def
    using len sup sg_invD(5,6,8,9,10) [OF assms(1)] assms(3) g'(2,3,5-7,9,10) lim by (auto split: if_splits)
  moreover have "\<forall>x. Sparse_CheckIdExists g' x \<longleftrightarrow> Sparse_CheckIdExists g x \<or> x = vid"
    by (simp add: Sparse_CheckIdExists_def g'(2))
  ultimately show thesis using that [OF g'(1) _ nb g'(8) lim _ g'(3,5,11,2)] by blast
qed

interpretation sparse_cell: graph_cell Sparse_InsertNeighborsById Sparse_GetNeighbors sg_nbrs Sparse_CheckIdExists
  gi_maximum_degree sg_inv sg_limit
proof (unfold_locales, goal_cases)
  case (1 g vid ns)
  from 1 show ?case by (rule Sparse_Insert_ok) (intro exI conjI)
next
  case (2 g ns vid)
  then show ?case by (auto simp: Sparse_InsertNeighborsById_def)
next
  case (3 g vid old)
  then show ?case using sg_GetNeighbors by (simp add: Sparse_CheckIdExists_def)
next
  case (4 g vid)
  then show ?case by (simp add: Sparse_CheckIdExists_def sg_nbrs_def Sparse_GetNeighbors_def)
next
  case (5 g vid)
  show ?case
  proof (cases "map_of (sg_neighbors g) vid")
    case (Some xs)
    have "length (filter P xs) \<le> gi_maximum_degree g" for P
      using sg_invD(2) [OF 5 Some] length_filter_le [of P xs] by linarith
    then show ?thesis using sg_invD(2) [OF 5 Some] Some by (simp add: sg_nbrs_def)
  qed (simp add: sg_nbrs_def)
next
  case (6 g n vid)
  obtain xs where xs: "map_of (sg_neighbors g) vid = Some xs"
    using 6(2) by (cases "map_of (sg_neighbors g) vid") (simp_all add: sg_nbrs_def)
  show ?case
  proof (cases "sg_is_support_delete g")
    case True
    then obtain x where "n = and x (2 ^ sg_id_bit g - 1)" using 6 xs sg_invD(6) [OF 6(1) True] by (auto simp: sg_nbrs_def)
    then have "n < 2 ^ sg_id_bit g" unfolding and_mask_nat by simp
    then show ?thesis using True by (simp add: sg_limit_def)
  next
    case False
    then show ?thesis using 6 xs sg_invD(10) [OF 6(1) False xs] by (simp add: sg_nbrs_def)
  qed
next
  case (7 g vid)
  then show ?case using sg_invD(1) by (auto simp: Sparse_CheckIdExists_def)
qed

text \<open>With incoming edges, while nothing has been deleted.\<close>

definition sg_rev_inv :: "sparse_graph \<Rightarrow> bool" where
  "sg_rev_inv g \<longleftrightarrow> sg_inv g \<and> (\<forall>k. ver (sg_node_version g) k = 0) \<and>
     (\<forall>vid xs. map_of (sg_neighbors g) vid = Some xs \<longrightarrow> (\<forall>x\<in>set xs. x < sg_limit g)) \<and>
     (\<exists>redges. sg_reverse_edges g = Some redges \<and> rev_ok (sg_nbrs g) redges)"

lemma sg_plain:
  assumes "sg_rev_inv g" "map_of (sg_neighbors g) vid = Some xs"
  shows "sg_nbrs g vid = xs" "sg_is_support_delete g \<Longrightarrow> map (\<lambda>x. and x (sg_remove_flag_mask g)) xs = xs"
proof -
  have small: "x < sg_limit g" if "x \<in> set xs" for x using assms that by (auto simp: sg_rev_inv_def)
  have m: "and x (sg_remove_flag_mask g) = x" "u8 (drop_bit (sg_id_bit g) x) = 0" if "sg_is_support_delete g" "x \<in> set xs" for x
  proof -
    have "x < 2 ^ sg_id_bit g" using small that by (simp add: sg_limit_def)
    then show "and x (sg_remove_flag_mask g) = x" "u8 (drop_bit (sg_id_bit g) x) = 0"
      using sg_invD(6) [of g] assms(1) that(1) unfolding sg_rev_inv_def by (simp_all add: and_mask_nat [simplified] drop_bit_eq_div)
  qed
  then show "sg_is_support_delete g \<Longrightarrow> map (\<lambda>x. and x (sg_remove_flag_mask g)) xs = xs" by (simp add: map_idI)
  show "sg_nbrs g vid = xs"
  proof (cases "sg_is_support_delete g")
    case True
    then have "filter (\<lambda>x. ver (sg_node_version g) (and x (sg_remove_flag_mask g)) = u8 (drop_bit (sg_id_bit g) x)) xs = xs"
      using m(2) assms(1) by (auto simp: filter_id_conv sg_rev_inv_def)
    then show ?thesis using True m(1) assms(2) by (simp add: sg_nbrs_def map_idI)
  qed (simp add: sg_nbrs_def assms(2))
qed

interpretation sparse_rev: graph_rev Sparse_InsertNeighborsById Sparse_GetNeighbors sg_nbrs Sparse_CheckIdExists
  gi_maximum_degree sg_rev_inv sg_limit Sparse_GetIncomingNeighbors
proof (unfold_locales, goal_cases)
  case (1 g vid ns)
  then have inv: "sg_inv g" by (simp add: sg_rev_inv_def)
  obtain redges where r: "sg_reverse_edges g = Some redges" "rev_ok (sg_nbrs g) redges" using 1(1) by (auto simp: sg_rev_inv_def)
  obtain g' where g': "Sparse_InsertNeighborsById vid ns g = Inr g'" "sg_inv g'" "sg_nbrs g' = (sg_nbrs g)(vid := ns)"
    "gi_maximum_degree g' = gi_maximum_degree g" "sg_limit g' = sg_limit g"
    "\<forall>x. Sparse_CheckIdExists g' x \<longleftrightarrow> Sparse_CheckIdExists g x \<or> x = vid"
    "ver (sg_node_version g') = ver (sg_node_version g)" "sg_is_support_delete g' = sg_is_support_delete g"
    "sg_reverse_edges g' = UpdateReverseEdges vid
       (case map_of (sg_neighbors g) vid of None \<Rightarrow> []
        | Some old \<Rightarrow> if sg_is_support_delete g then map (\<lambda>x. and x (sg_remove_flag_mask g)) old else old) ns (sg_reverse_edges g)"
    "map_of (sg_neighbors g') = (map_of (sg_neighbors g))(vid \<mapsto>
       (if sg_is_support_delete g then map (\<lambda>n. tag_id (sg_id_bit g) n (ver (sg_node_version g) n)) ns else ns))"
    using inv 1(2-4) by (rule Sparse_Insert_ok) blast
  have "(case map_of (sg_neighbors g) vid of None \<Rightarrow> []
      | Some old \<Rightarrow> if sg_is_support_delete g then map (\<lambda>x. and x (sg_remove_flag_mask g)) old else old) = sg_nbrs g vid"
    using sg_plain [OF 1(1), of vid] by (auto simp: sg_nbrs_def [of g vid] split: option.splits)
  then obtain r' where "sg_reverse_edges g' = Some r'" "rev_ok (sg_nbrs g') r'"
    using UpdateReverseEdges_ok [OF r(2), of vid ns] g'(3,9) r(1) by auto
  moreover have "\<forall>x\<in>set xs. x < sg_limit g'" if "map_of (sg_neighbors g') k = Some xs" for k xs
  proof -
    have "tag_id (sg_id_bit g) n (ver (sg_node_version g) n) = n" for n
      using 1(1) by (simp add: sg_rev_inv_def tag_id_def u32_def)
    then show ?thesis using that 1(1,3) unfolding g'(5,10) by (auto simp: sg_rev_inv_def split: if_splits)
  qed
  ultimately have "sg_rev_inv g'" using g' 1(1) by (auto simp: sg_rev_inv_def)
  then show ?case using g'(1,3-6) by blast
qed (use sparse_cell.ins_refused sparse_cell.get_ok sparse_cell.get_absent sparse_cell.degree_ok sparse_cell.nbrs_limit
    sparse_cell.node_limit in \<open>auto simp: sg_rev_inv_def rev_ok_def rev_of_def Sparse_GetIncomingNeighbors_def\<close>)

section \<open>Moving a node\<close>

text \<open>The lists inserted last.\<close>

definition last_lists :: "(inner_id \<times> inner_id list) list \<Rightarrow> inner_id \<rightharpoonup> inner_id list" where
  "last_lists ops = fold (\<lambda>(vid, ns) m. m(vid \<mapsto> ns)) ops Map.empty"

lemma last_lists_snoc: "last_lists (ops @ [(vid, ns)]) = (last_lists ops)(vid \<mapsto> ns)" "last_lists [] = Map.empty"
  by (simp_all add: last_lists_def)

definition lists_of :: "(inner_id \<rightharpoonup> inner_id list) \<Rightarrow> inner_id \<Rightarrow> inner_id list" where
  "lists_of m x = (case m x of None \<Rightarrow> [] | Some ns \<Rightarrow> ns)"

lemma lists_of_upd: "lists_of (m(vid \<mapsto> ns)) = (lists_of m)(vid := ns)" "lists_of Map.empty = (\<lambda>x. [])"
  by (auto simp: lists_of_def fun_eq_iff)

lemma lists_of_mem: "to \<in> set (lists_of m x) \<longleftrightarrow> (\<exists>ns. m x = Some ns \<and> to \<in> set ns)"
  by (cases "m x") (simp_all add: lists_of_def)

context graph_cell
begin

lemma inserts_ok:
  assumes "inv g" "nbrs g = (\<lambda>x. [])" "\<forall>x. \<not> node g x"
    and "\<forall>(vid, ns)\<in>set ops. vid < limit g \<and> length ns \<le> degree g \<and> (\<forall>n\<in>set ns. n < limit g)"
  shows "\<exists>g'. foldR (\<lambda>(vid, ns). ins vid ns) ops g = Inr g' \<and> inv g' \<and> nbrs g' = lists_of (last_lists ops) \<and>
    degree g' = degree g \<and> limit g' = limit g \<and> (\<forall>x. node g' x \<longleftrightarrow> last_lists ops x \<noteq> None)"
  using assms(4)
proof (induction ops rule: rev_induct)
  case (snoc op ops)
  obtain vid ns where op: "op = (vid, ns)" by fastforce
  obtain g1 where g1: "foldR (\<lambda>(vid, ns). ins vid ns) ops g = Inr g1" "inv g1" "nbrs g1 = lists_of (last_lists ops)"
    "degree g1 = degree g" "limit g1 = limit g" "\<forall>x. node g1 x \<longleftrightarrow> last_lists ops x \<noteq> None"
    using snoc.IH snoc.prems unfolding set_append by blast
  obtain g2 where g2: "ins vid ns g1 = Inr g2" "inv g2" "nbrs g2 = (nbrs g1)(vid := ns)" "degree g2 = degree g1" "limit g2 = limit g1"
    "\<forall>x. node g2 x \<longleftrightarrow> node g1 x \<or> x = vid"
    using ins_ok [OF g1(2), of vid ns] g1(4,5) snoc.prems op by auto
  have "foldR (\<lambda>(vid, ns). ins vid ns) (ops @ [op]) g = Inr g2" using g1(1) g2(1) op by (simp add: foldR_append)
  moreover have "nbrs g2 = lists_of (last_lists (ops @ [op]))" unfolding op last_lists_snoc lists_of_upd g2(3) g1(3) ..
  moreover have "node g2 x \<longleftrightarrow> last_lists (ops @ [op]) x \<noteq> None" for x unfolding op last_lists_snoc using g1(6) g2(6) by simp
  ultimately show ?case using g1(4,5) g2(2,4,5) by simp
qed (use assms in \<open>simp add: last_lists_snoc lists_of_upd\<close>)

end

text \<open>The graph after a node has been given a new identifier.\<close>

definition renamed :: "inner_id \<Rightarrow> inner_id \<Rightarrow> (inner_id \<Rightarrow> inner_id list) \<Rightarrow> inner_id \<Rightarrow> inner_id list" where
  "renamed from to nbrs x =
     (if x = from then [] else if x = to then nbrs from
      else if from \<in> set (nbrs x) then filter (\<lambda>n. n \<noteq> from) (nbrs x) @ [to] else nbrs x)"

lemma length_replace_neighbor:
  "from \<in> set xs \<Longrightarrow> length (replace_neighbor from to xs) \<le> length xs"
  using length_filter_less [of "from" xs "\<lambda>nb. nb \<noteq> from"] by (auto simp: replace_neighbor_def)

context graph_cell
begin

lemma replace_loop:
  assumes "inv g" "distinct rs" "to < limit g"
    and "\<forall>r\<in>set rs. r < limit g \<and> length (replace_neighbor from to (nbrs g r)) \<le> degree g"
  shows "\<exists>g'. foldR (\<lambda>r g. bindR (get g r []) (\<lambda>ns. ins r (replace_neighbor from to ns) g)) rs g = Inr g' \<and> inv g' \<and>
    nbrs g' = (\<lambda>x. if x \<in> set rs then replace_neighbor from to (nbrs g x) else nbrs g x) \<and>
    degree g' = degree g \<and> limit g' = limit g \<and> (\<forall>x. node g' x \<longleftrightarrow> node g x \<or> x \<in> set rs)"
  using assms
proof (induction rs arbitrary: g)
  case (Cons r rs)
  let ?ns = "replace_neighbor from to (nbrs g r)"
  have "get g r [] = Inr (nbrs g r)" using get_nil Cons.prems by simp
  moreover have "\<forall>n\<in>set ?ns. n < limit g" using nbrs_limit [OF Cons.prems(1)] Cons.prems(3) by (auto simp: replace_neighbor_def)
  then obtain g1 where g1: "ins r ?ns g = Inr g1" "inv g1" "nbrs g1 = (nbrs g)(r := ?ns)" "degree g1 = degree g" "limit g1 = limit g"
    "\<forall>x. node g1 x \<longleftrightarrow> node g x \<or> x = r"
    using ins_ok [OF Cons.prems(1), of r ?ns] Cons.prems(4) by auto
  have rest: "\<forall>q\<in>set rs. nbrs g1 q = nbrs g q" using Cons.prems(2) g1(3) by auto
  have "\<exists>g'. foldR (\<lambda>r g. bindR (get g r []) (\<lambda>ns. ins r (replace_neighbor from to ns) g)) rs g1 = Inr g' \<and> inv g' \<and>
    nbrs g' = (\<lambda>x. if x \<in> set rs then replace_neighbor from to (nbrs g1 x) else nbrs g1 x) \<and>
    degree g' = degree g1 \<and> limit g' = limit g1 \<and> (\<forall>x. node g' x \<longleftrightarrow> node g1 x \<or> x \<in> set rs)"
    using Cons.IH [OF g1(2)] Cons.prems(2-4) rest g1(4,5) by auto
  moreover have "(\<lambda>x. if x \<in> set rs then replace_neighbor from to (nbrs g1 x) else nbrs g1 x) =
      (\<lambda>x. if x \<in> set (r # rs) then replace_neighbor from to (nbrs g x) else nbrs g x)"
    using rest g1(3) Cons.prems(2) by (auto simp: fun_eq_iff)
  ultimately show ?case using g1 by auto
qed simp

end

context graph_rev
begin

lemma move_node_ok:
  assumes "inv g" "from \<noteq> to" "from < limit g" "to < limit g" "\<forall>x. to \<notin> set (nbrs g x)" "from \<notin> set (nbrs g from)"
  shows "\<exists>g'. move_node get ins (incoming g from) from to g = Inr g' \<and> inv g' \<and> nbrs g' = renamed from to (nbrs g) \<and>
    degree g' = degree g \<and> limit g' = limit g \<and> (\<forall>x. node g' x \<longleftrightarrow> node g x \<or> x = to \<or> x = from)"
proof -
  let ?R = "incoming g from"
  have R: "set ?R = {x. from \<in> set (nbrs g x)}" "distinct ?R" using incoming_ok incoming_distinct assms(1) by auto
  obtain g1 where g1: "ins to [] g = Inr g1" "inv g1" "nbrs g1 = (nbrs g)(to := [])" "degree g1 = degree g" "limit g1 = limit g" "\<forall>x. node g1 x \<longleftrightarrow> node g x \<or> x = to"
    using ins_ok [OF assms(1,4), of "[]"] by auto
  have Rlim: "r < limit g \<and> length (replace_neighbor from to (nbrs g1 r)) \<le> degree g" if "r \<in> set ?R" for r
  proof -
    have r: "from \<in> set (nbrs g r)" using that R(1) by simp
    then have "nbrs g r \<noteq> []" by auto
    then have "r < limit g" using get_absent [OF assms(1), of r] node_limit [OF assms(1), of r] by blast
    moreover have "length (replace_neighbor from to (nbrs g1 r)) \<le> degree g"
    proof (cases "r = to")
      case True
      then have "0 < length (nbrs g to)" using r by auto
      then have "0 < degree g" using degree_ok [OF assms(1), of to] by linarith
      then show ?thesis using True g1(3) by (simp add: replace_neighbor_def)
    next
      case False
      then show ?thesis using g1(3) length_replace_neighbor [OF r, of to] degree_ok [OF assms(1), of r] by simp
    qed
    ultimately show ?thesis by blast
  qed
  obtain g2 where g2: "foldR (\<lambda>r g. bindR (get g r []) (\<lambda>ns. ins r (replace_neighbor from to ns) g)) ?R g1 = Inr g2" "inv g2"
    "nbrs g2 = (\<lambda>x. if x \<in> set ?R then replace_neighbor from to (nbrs g1 x) else nbrs g1 x)"
    "degree g2 = degree g" "limit g2 = limit g" "\<forall>x. node g2 x \<longleftrightarrow> node g x \<or> x = to \<or> x \<in> set ?R"
    using replace_loop [OF g1(2) R(2), of to "from"] Rlim g1(4-6) assms(4) by auto
  have "nbrs g2 from = nbrs g from" using g2(3) R(1) assms(2,6) g1(3) by simp
  then have get: "get g2 from [] = Inr (nbrs g from)" using get_nil [OF g2(2), of "from"] assms(3) g2(5) by simp
  obtain g3 where g3: "ins to (nbrs g from) g2 = Inr g3" "inv g3" "nbrs g3 = (nbrs g2)(to := nbrs g from)"
    "degree g3 = degree g" "limit g3 = limit g" "\<forall>x. node g3 x \<longleftrightarrow> node g2 x \<or> x = to"
    using ins_ok [OF g2(2), of to "nbrs g from"] assms(4) g2(4,5) degree_ok [OF assms(1)] nbrs_limit [OF assms(1)] by auto
  obtain g4 where g4: "ins from [] g3 = Inr g4" "inv g4" "nbrs g4 = (nbrs g3)(from := [])"
    "degree g4 = degree g" "limit g4 = limit g" "\<forall>x. node g4 x \<longleftrightarrow> node g3 x \<or> x = from"
    using ins_ok [OF g3(2), of "from" "[]"] assms(3) g3(4,5) by auto
  have "nbrs g4 = renamed from to (nbrs g)"
    using g4(3) g3(3) g2(3) g1(3) R(1) assms(5) by (auto simp: fun_eq_iff replace_neighbor_def renamed_def)
  moreover have "node g r" if "r \<in> set ?R" for r
    using that R(1) get_absent [OF assms(1), of r] by fastforce
  then have "\<forall>x. node g4 x \<longleftrightarrow> node g x \<or> x = to \<or> x = from" using g4(6) g3(6) g2(6) by blast
  ultimately show ?thesis using g1(1) g2(1) get g3(1) g4(1,2,4,5) by (auto simp: move_node_def)
qed

end

lemma Sparse_new_inv:
  assumes "SparseGraphDataCell_new deg flags sd dup True = Inr g" "8 \<le> flags"
  shows "sg_rev_inv g" "sg_nbrs g = (\<lambda>x. [])" "gi_maximum_degree g = deg" "sg_limit g = (if sd then 2 ^ (32 - flags) else 2 ^ 32 - 1)"
  using assms by (auto simp: SparseGraphDataCell_new_def Let_def sg_rev_inv_def sg_inv_def sg_nbrs_def sg_limit_def rev_ok_def
      rev_of_def ReverseEdge_GetIncomingNeighbors_def ver_def split: if_splits)

text \<open>Reading depends on the version map only through its entries.\<close>

lemma untag_cong: "map_of vs = map_of vs' \<Longrightarrow> untag_neighbors b m vs xs = untag_neighbors b m vs' xs"
  by (induction xs) (auto simp: Let_def split: option.splits)

lemma Sparse_GetNeighbors_cong:
  "map_of vs = map_of (sg_node_version g) \<Longrightarrow> Sparse_GetNeighbors (g\<lparr>sg_node_version := vs\<rparr>) x old = Sparse_GetNeighbors g x old"
  using untag_cong [of vs "sg_node_version g"] by (simp add: Sparse_GetNeighbors_def split: option.splits)

lemma sg_rev_stored:
  assumes "sg_rev_inv g" "sg_is_support_delete g" "map_of (sg_neighbors g) k = Some xs" "x \<in> set xs"
  shows "and x (sg_remove_flag_mask g) = x" "u8 (drop_bit (sg_id_bit g) x) = 0" "x \<in> dom (map_of (sg_node_version g))"
proof -
  have inv: "sg_inv g" using assms(1) by (simp add: sg_rev_inv_def)
  have "x < 2 ^ sg_id_bit g" using assms by (auto simp: sg_rev_inv_def sg_limit_def)
  then show 1: "and x (sg_remove_flag_mask g) = x" "u8 (drop_bit (sg_id_bit g) x) = 0"
    using sg_invD(6) [OF inv assms(2)] by (simp_all add: and_mask_nat [simplified] drop_bit_eq_div)
  show "x \<in> dom (map_of (sg_node_version g))" using sg_invD(7) [OF inv assms(2-4)] 1(1) by simp
qed

text \<open>The lists read after the version of one node has become \<open>Suc 0\<close>.\<close>

lemma sg_rev_hidden:
  assumes "sg_rev_inv g" "sg_is_support_delete g" "map_of (sg_neighbors g) k = Some xs"
    and "map_of vs = (map_of (sg_node_version g))(vid \<mapsto> 1)"
  shows "Sparse_GetNeighbors (g\<lparr>sg_node_version := vs\<rparr>) k old = Inr (filter (\<lambda>n. n \<noteq> vid) xs)"
proof -
  note stored = sg_rev_stored [OF assms(1-3)]
  have "ver vs x = (if x = vid then 1 else 0)" for x
    using assms(1,4) by (auto simp: sg_rev_inv_def ver_def split: option.splits)
  moreover have "\<forall>x\<in>set xs. and x (sg_remove_flag_mask g) \<in> dom (map_of vs)" using stored assms(4) by auto
  ultimately have "untag_neighbors (sg_id_bit g) (sg_remove_flag_mask g) vs xs =
      Inr (map (\<lambda>x. and x (sg_remove_flag_mask g)) (filter (\<lambda>n. n \<noteq> vid) xs))"
    using stored(1,2) by (simp add: untag_neighbors_eq cong: filter_cong)
  moreover have "map (\<lambda>x. and x (sg_remove_flag_mask g)) (filter (\<lambda>n. n \<noteq> vid) xs) = filter (\<lambda>n. n \<noteq> vid) xs"
    using stored(1) by (intro map_idI) simp
  ultimately show ?thesis using assms(2,3) by (simp add: Sparse_GetNeighbors_def)
qed

lemma Sparse_Move_renamed:
  assumes "sg_rev_inv g" "from \<noteq> to" "Sparse_CheckIdExists g from" "to < sg_limit g"
    "\<forall>x. to \<notin> set (sg_nbrs g x)" "from \<notin> set (sg_nbrs g from)"
  shows "\<exists>g'. Sparse_Move from to g = Inr g' \<and> sg_rev_inv g' \<and> sg_nbrs g' = renamed from to (sg_nbrs g) \<and>
    gi_maximum_degree g' = gi_maximum_degree g \<and> sg_limit g' = sg_limit g \<and> 
    (\<forall>x. Sparse_CheckIdExists g' x \<longleftrightarrow> x \<noteq> from \<and> (Sparse_CheckIdExists g x \<or> x = to))"
proof -
  have lim: "from < sg_limit g" using sparse_rev.node_limit [OF assms(1,3)] .
  obtain g1 where g1: "move_node Sparse_GetNeighbors Sparse_InsertNeighborsById (Sparse_GetIncomingNeighbors g from) from to g = Inr g1"
    "sg_rev_inv g1" "sg_nbrs g1 = renamed from to (sg_nbrs g)" "gi_maximum_degree g1 = gi_maximum_degree g" "sg_limit g1 = sg_limit g"
    "\<forall>x. Sparse_CheckIdExists g1 x \<longleftrightarrow> Sparse_CheckIdExists g x \<or> x = to \<or> x = from"
    using sparse_rev.move_node_ok [OF assms(1,2) lim assms(4-6)] by blast
  define g' where "g' = g1\<lparr>sg_neighbors := AList.delete from (sg_neighbors g1)\<rparr>"
  have m: "map_of (sg_neighbors g') = (map_of (sg_neighbors g1))(from := None)" by (simp add: g'_def delete_conv')
  have g'f: "sg_limit g' = sg_limit g1" "sg_node_version g' = sg_node_version g1" "sg_reverse_edges g' = sg_reverse_edges g1"
    "sg_is_support_delete g' = sg_is_support_delete g1" "sg_id_bit g' = sg_id_bit g1" "sg_remove_flag_mask g' = sg_remove_flag_mask g1"
    "gi_maximum_degree g' = gi_maximum_degree g1" by (simp_all add: g'_def sg_limit_def)
  have nb: "sg_nbrs g' = sg_nbrs g1"
  proof
    fix x
    have "sg_nbrs g1 from = []" using g1(3) by (simp add: renamed_def)
    then show "sg_nbrs g' x = sg_nbrs g1 x"
      unfolding sg_nbrs_def m g'f by (cases "x = from") simp_all
  qed
  have dist: "distinct (map fst (sg_neighbors g'))" using g1(2) by (simp add: g'_def sg_rev_inv_def sg_inv_def distinct_delete)
  have old: "map_of (sg_neighbors g1) vid = Some xs" if "map_of (sg_neighbors g') vid = Some xs" for vid xs
    using that unfolding m by (simp split: if_splits)
  have inv1: "sg_inv g1" "\<forall>k. ver (sg_node_version g1) k = 0" using g1(2) by (simp_all add: sg_rev_inv_def)
  have "sg_inv g'" unfolding sg_inv_def g'f using old dist sg_invD(1,2,4-7,10) [OF inv1(1)] inv1(2) by simp blast
  then have "sg_rev_inv g'" using g1(2) old unfolding sg_rev_inv_def g'f nb by blast
  moreover have "Sparse_Move from to g = Inr g'"
    using assms(2,3) g1(1) by (auto simp: Sparse_Move_def Sparse_CheckIdExists_def g'_def)
  moreover have "\<forall>x. Sparse_CheckIdExists g' x \<longleftrightarrow> x \<noteq> from \<and> Sparse_CheckIdExists g1 x" by (simp add: Sparse_CheckIdExists_def m)
  ultimately show ?thesis using nb g1(3-6) g'f(1,7) by auto
qed

text \<open>A storage in which nodes can be renamed and the unused ones at the end be dropped.\<close>

locale movable_graph = graph_rev +
  fixes move :: "inner_id \<Rightarrow> inner_id \<Rightarrow> 'a \<Rightarrow> 'a result"
    and shrink :: "nat \<Rightarrow> 'a \<Rightarrow> 'a"
  assumes move_ok: "inv g \<Longrightarrow> from \<noteq> to \<Longrightarrow> from < limit g \<Longrightarrow> to < limit g \<Longrightarrow> \<forall>x. to \<notin> set (nbrs g x) \<Longrightarrow> nbrs g to = [] \<Longrightarrow>
      from \<notin> set (nbrs g from) \<Longrightarrow> node g from \<or> (\<forall>x. from \<notin> set (nbrs g x)) \<Longrightarrow>
      \<exists>g'. move from to g = Inr g' \<and> inv g' \<and> nbrs g' = renamed from to (nbrs g) \<and> degree g' = degree g \<and> limit g' = limit g \<and>
        (node g from \<longrightarrow> node g' to) \<and> (\<forall>x. x \<noteq> from \<and> node g x \<longrightarrow> node g' x)"
    and shrink_ok: "inv g \<Longrightarrow> n \<le> limit g \<Longrightarrow> \<forall>x\<ge>n. nbrs g x = [] \<Longrightarrow> \<forall>x. \<forall>y\<in>set (nbrs g x). y < n \<Longrightarrow>
      inv (shrink n g) \<and> nbrs (shrink n g) = nbrs g \<and> degree (shrink n g) = degree g \<and> n \<le> limit (shrink n g) \<and>
        (\<forall>x<n. node g x \<longrightarrow> node (shrink n g) x)"

text \<open>The sparse graph takes \<open>ShrinkToFit\<close> of the interface, which does nothing.\<close>

definition GraphInterface_ShrinkToFit :: "nat \<Rightarrow> ('d, 'e) graph_interface_scheme \<Rightarrow> ('d, 'e) graph_interface_scheme" where
  "GraphInterface_ShrinkToFit capacity g = g"

interpretation sparse_move: movable_graph Sparse_InsertNeighborsById Sparse_GetNeighbors sg_nbrs Sparse_CheckIdExists
  gi_maximum_degree sg_rev_inv sg_limit Sparse_GetIncomingNeighbors Sparse_Move GraphInterface_ShrinkToFit
proof (unfold_locales, goal_cases)
  case (1 g "from" to)
  show ?case
  proof (cases "Sparse_CheckIdExists g from")
    case True
    from Sparse_Move_renamed [OF 1(1,2) True 1(4,5,7)] show ?thesis using 1(2) by metis
  next
    case False
    then have "Sparse_Move from to g = Inr g" by (simp add: Sparse_Move_def Sparse_CheckIdExists_def)
    moreover have "sg_nbrs g from = []" using False sparse_rev.get_absent [OF 1(1) False] by blast
    then have "renamed from to (sg_nbrs g) = sg_nbrs g" using 1(6,8) False by (auto simp: renamed_def fun_eq_iff)
    ultimately show ?thesis using 1(1) False by simp
  qed
qed (simp add: GraphInterface_ShrinkToFit_def)

section \<open>Properties\<close>

text \<open>
  Claim C11. A sparse graph with incoming edges is the map to the lists inserted last: after any
  sequence of insertions of at most \<open>deg\<close> neighbours it returns for every node the last list inserted,
  and the incoming neighbours of every node are, without repetition, exactly the nodes whose list
  contains it.
\<close>

theorem Sparse_inserts_refine:
  assumes "SparseGraphDataCell_new deg flags sd dup True = Inr g0" "8 \<le> flags"
    and "\<forall>(vid, ns)\<in>set ops. vid < sg_limit g0 \<and> length ns \<le> deg \<and> (\<forall>n\<in>set ns. n < sg_limit g0)"
  defines "spec \<equiv> fold (\<lambda>(vid, ns) m. m(vid \<mapsto> ns)) ops Map.empty"
  shows "\<exists>g. foldR (\<lambda>(vid, ns). Sparse_InsertNeighborsById vid ns) ops g0 = Inr g \<and>
    (\<forall>vid ns old. spec vid = Some ns \<longrightarrow> Sparse_GetNeighbors g vid old = Inr ns) \<and>
    (\<forall>to. distinct (Sparse_GetIncomingNeighbors g to) \<and>
       set (Sparse_GetIncomingNeighbors g to) = {from. \<exists>ns. spec from = Some ns \<and> to \<in> set ns})"
proof -
  note new = Sparse_new_inv [OF assms(1,2)]
  have none: "\<forall>x. \<not> Sparse_CheckIdExists g0 x"
    using assms(1) by (auto simp: SparseGraphDataCell_new_def Let_def Sparse_CheckIdExists_def split: if_splits)
  have spec: "spec = last_lists ops" by (simp add: spec_def last_lists_def)
  obtain g where g: "foldR (\<lambda>(vid, ns). Sparse_InsertNeighborsById vid ns) ops g0 = Inr g" "sg_rev_inv g"
    "sg_nbrs g = lists_of spec" "\<forall>x. Sparse_CheckIdExists g x \<longleftrightarrow> spec x \<noteq> None"
    using sparse_rev.inserts_ok [OF new(1,2) none, of ops] new(3) assms(3) unfolding spec by auto
  have "Sparse_GetNeighbors g vid old = Inr ns" if "spec vid = Some ns" for vid ns old
    using g(3,4) that sparse_rev.get_ok [OF g(2), of vid old] by (simp add: lists_of_def)
  then show ?thesis using g(1,3) sparse_rev.incoming_ok [OF g(2)] sparse_rev.incoming_distinct [OF g(2)]
    by (auto simp: lists_of_mem)
qed

theorem Sparse_inserts_refine_witness:
  "\<exists>g0 g. SparseGraphDataCell_new 4 8 True False True = Inr g0 \<and>
    foldR (\<lambda>(vid, ns). Sparse_InsertNeighborsById vid ns) [(0, [1, 2]), (2, [1]), (0, [2])] g0 = Inr g \<and>
    Sparse_GetNeighbors g 0 [] = Inr [2] \<and> set (Sparse_GetIncomingNeighbors g 1) = {2}"
proof -
  let ?ops = "[(0, [1, 2]), (2, [1]), (0, [2])] :: (inner_id \<times> inner_id list) list"
  obtain g0 where g0: "SparseGraphDataCell_new 4 8 True False True = Inr g0" by (simp add: SparseGraphDataCell_new_def)
  have lim: "sg_limit g0 = 2 ^ 24" using Sparse_new_inv(4) [OF g0] by simp
  obtain g where g: "foldR (\<lambda>(vid, ns). Sparse_InsertNeighborsById vid ns) ?ops g0 = Inr g"
    "\<forall>vid ns old. fold (\<lambda>(vid, ns) m. m(vid \<mapsto> ns)) ?ops Map.empty vid = Some ns \<longrightarrow> Sparse_GetNeighbors g vid old = Inr ns"
    "\<forall>to. set (Sparse_GetIncomingNeighbors g to) = {x. \<exists>ns. fold (\<lambda>(vid, ns) m. m(vid \<mapsto> ns)) ?ops Map.empty x = Some ns \<and> to \<in> set ns}"
    using Sparse_inserts_refine [OF g0, of ?ops] lim by auto
  have "Sparse_GetNeighbors g 0 [] = Inr [2]" using g(2) by auto
  moreover have "set (Sparse_GetIncomingNeighbors g 1) = {2}" using g(3) by (auto split: if_splits)
  ultimately show ?thesis using g0 g(1) by blast
qed

text \<open>
  Deleting a node of a sparse graph in which nothing is deleted succeeds and hides exactly
  that node from every neighbour list; recovering it afterwards brings back the lists as they were.
\<close>

lemma Sparse_Delete_Recover:
  assumes "sg_rev_inv g" "sg_is_support_delete g"
  shows "\<exists>g'. Sparse_DeleteNeighborsById vid g = Inr g' \<and>
    (\<forall>x ns old. Sparse_CheckIdExists g x \<and> Sparse_GetNeighbors g x old = Inr ns \<longrightarrow>
       Sparse_GetNeighbors g' x old = Inr (filter (\<lambda>n. n \<noteq> vid) ns)) \<and>
    (map_of (sg_node_version g) vid \<noteq> None \<longrightarrow>
       (\<exists>g''. Sparse_RecoverDeleteNeighborsById vid g' = Inr g'' \<and>
          (\<forall>x old. Sparse_GetNeighbors g'' x old = Sparse_GetNeighbors g x old)))"
proof (cases "map_of (sg_node_version g) vid")
  case None
  have "filter (\<lambda>n. n \<noteq> vid) (sg_nbrs g x) = sg_nbrs g x" for x
  proof (cases "map_of (sg_neighbors g) x")
    case (Some xs)
    then show ?thesis using sg_rev_stored(3) [OF assms Some] None sg_plain(1) [OF assms(1) Some]
      by (auto simp: filter_id_conv)
  qed (simp add: sg_nbrs_def)
  then show ?thesis using None assms(2) sparse_rev.get_ok [OF assms(1)] by (auto simp: Sparse_DeleteNeighborsById_def)
next
  case (Some v)
  have v: "v = 0" using assms(1) Some by (simp add: sg_rev_inv_def ver_def) (metis option.simps(5))
  let ?vs = "AList.update vid 1 (sg_node_version g)"
  let ?g' = "g\<lparr>sg_node_version := ?vs\<rparr>"
  have del: "Sparse_DeleteNeighborsById vid g = Inr ?g'" using Some v assms(2) by (simp add: Sparse_DeleteNeighborsById_def)
  have hid: "Sparse_GetNeighbors ?g' x old = Inr (filter (\<lambda>n. n \<noteq> vid) ns)"
    if x: "Sparse_CheckIdExists g x" "Sparse_GetNeighbors g x old = Inr ns" for x ns old
  proof -
    obtain xs where xs: "map_of (sg_neighbors g) x = Some xs" using x(1) by (auto simp: Sparse_CheckIdExists_def)
    then have "ns = xs" using x sparse_rev.get_ok [OF assms(1) x(1), of old] sg_plain(1) [OF assms(1) xs] by simp
    then show ?thesis using sg_rev_hidden [OF assms xs map_of_update] by simp
  qed
  have "map_of (AList.update vid 0 ?vs) = map_of (sg_node_version g)"
    using Some v by (auto simp: map_of_update fun_eq_iff)
  then have "Sparse_GetNeighbors (g\<lparr>sg_node_version := AList.update vid 0 ?vs\<rparr>) x old = Sparse_GetNeighbors g x old" for x old
    by (rule Sparse_GetNeighbors_cong)
  moreover have "Sparse_RecoverDeleteNeighborsById vid ?g' = Inr (g\<lparr>sg_node_version := AList.update vid 0 ?vs\<rparr>)"
    using assms(2) by (simp add: Sparse_RecoverDeleteNeighborsById_def map_of_update)
  ultimately show ?thesis using del hid by blast
qed

text \<open>A graph with one edge, used below.\<close>

lemma one_edge:
  obtains g where "sg_rev_inv g" "sg_is_support_delete g" "sg_nbrs g = (\<lambda>x. if x = 0 then [1] else [])" "sg_limit g = 2 ^ 24"
    "Sparse_CheckIdExists g 0" "Sparse_CheckIdExists g 1"
proof -
  obtain g0 where g0: "SparseGraphDataCell_new 4 8 True False True = Inr g0" by (simp add: SparseGraphDataCell_new_def)
  note new = Sparse_new_inv [OF g0, simplified]
  obtain g1 where g1: "Sparse_InsertNeighborsById 0 [1] g0 = Inr g1" "sg_rev_inv g1" "sg_nbrs g1 = (sg_nbrs g0)(0 := [1])"
    "gi_maximum_degree g1 = 4" "sg_limit g1 = 2 ^ 24" "\<forall>x. Sparse_CheckIdExists g1 x \<longleftrightarrow> Sparse_CheckIdExists g0 x \<or> x = 0"
    using sparse_rev.ins_ok [OF new(1), of 0 "[1]"] new(3,4) by auto
  obtain g2 where g2: "Sparse_InsertNeighborsById 1 [] g1 = Inr g2" "sg_rev_inv g2" "sg_nbrs g2 = (sg_nbrs g1)(1 := [])"
    "sg_limit g2 = 2 ^ 24" "\<forall>x. Sparse_CheckIdExists g2 x \<longleftrightarrow> Sparse_CheckIdExists g1 x \<or> x = 1"
    using sparse_rev.ins_ok [OF g1(2), of 1 "[]"] g1(4,5) by auto
  have "sg_is_support_delete g2" using g2(4) by (simp add: sg_limit_def split: if_splits)
  moreover have "sg_nbrs g2 = (\<lambda>x. if x = 0 then [1] else [])" using g2(3) g1(3) new(2) by auto
  ultimately show thesis using that g2(2,4,5) g1(6) by blast
qed

text \<open>
  The deletion marker is an 8-bit version that wraps: after 256 deletions of the same node
  every neighbour list is read as if nothing had been deleted.
\<close>

lemma Sparse_deletions_wrap:
  assumes "sg_is_support_delete g" "map_of (sg_node_version g) vid = Some v" "v < 256"
  shows "\<exists>g'. foldR (\<lambda>_. Sparse_DeleteNeighborsById vid) [0..<256] g = Inr g' \<and>
    (\<forall>x old. Sparse_GetNeighbors g' x old = Sparse_GetNeighbors g x old)"
proof -
  let ?P = "\<lambda>i s. \<exists>vs. s = g\<lparr>sg_node_version := vs\<rparr> \<and> map_of vs = (map_of (sg_node_version g))(vid \<mapsto> (v + i) mod 256)"
  have "\<exists>s'. foldR (\<lambda>_. Sparse_DeleteNeighborsById vid) [0..<256] g = Inr s' \<and> ?P 256 s'"
  proof (rule foldR_upt_invariant [where P = ?P])
    show "?P 0 g" using assms(2,3) by (intro exI [of _ "sg_node_version g"]) auto
  next
    fix i :: nat and s assume "i < 256" "?P i s"
    from this(2) obtain vs where vs: "s = g\<lparr>sg_node_version := vs\<rparr>" "map_of vs = (map_of (sg_node_version g))(vid \<mapsto> (v + i) mod 256)" by blast
    have "u8 ((v + i) mod 256 + 1) = (v + Suc i) mod 256" by (simp add: u8_def mod_simps)
    then have "Sparse_DeleteNeighborsById vid s = Inr (g\<lparr>sg_node_version := AList.update vid ((v + Suc i) mod 256) vs\<rparr>)"
      using assms(1) vs by (simp add: Sparse_DeleteNeighborsById_def)
    then show "\<exists>s'. Sparse_DeleteNeighborsById vid s = Inr s' \<and> ?P (Suc i) s'" using vs(2) by (auto simp: map_of_update)
  qed
  then obtain vs where "foldR (\<lambda>_. Sparse_DeleteNeighborsById vid) [0..<256] g = Inr (g\<lparr>sg_node_version := vs\<rparr>)"
    "map_of vs = (map_of (sg_node_version g))(vid \<mapsto> (v + 256) mod 256)" by blast
  moreover from this(2) have "map_of vs = map_of (sg_node_version g)" using assms(2,3) by (auto simp: fun_eq_iff)
  ultimately show ?thesis using Sparse_GetNeighbors_cong by blast
qed

text \<open>
  \<open>Move\<close> renames a node: the incoming edges of the old identifier become edges to the new
  one, the new identifier gets the old neighbour list, the old one disappears, and no list keeps a
  reference to it.
\<close>

lemma Sparse_Move_ok:
  assumes "sg_rev_inv g" "from \<noteq> to" "Sparse_CheckIdExists g from" "to < sg_limit g"
    "\<forall>x. to \<notin> set (sg_nbrs g x)" "from \<notin> set (sg_nbrs g from)"
  shows "\<exists>g'. Sparse_Move from to g = Inr g' \<and> sg_rev_inv g' \<and> \<not> Sparse_CheckIdExists g' from \<and>
    sg_nbrs g' = (\<lambda>x. if x = from then [] else if x = to then sg_nbrs g from
                   else if from \<in> set (sg_nbrs g x) then filter (\<lambda>n. n \<noteq> from) (sg_nbrs g x) @ [to] else sg_nbrs g x)"
  using Sparse_Move_renamed [OF assms] by (auto simp: renamed_def fun_eq_iff)

end
