(* ===== verification/Heaps.thy ===== *)
theory Heaps
  imports Prelude
begin

text \<open>
  \<open>src/impl/heap\<close>: the heaps of distance records that every search and the graph construction use.
  \<open>StandardHeap\<close> is a binary heap in a vector (\<open>std::push_heap\<close>, \<open>std::pop_heap\<close>), \<open>MemmoveHeap\<close>
  an ordered buffer for small capacities; both have a template parameter for the direction
  (\<open>max_heap\<close>) and one for a fixed capacity (\<open>fixed_size\<close>), which are the first arguments here.

  The contracts are locales: \<open>heap_top\<close> (what the top and popping are), \<open>dist_heap\<close> (with an
  unbounded push), \<open>topk_heap\<close> (with a push that keeps the best records). The abstraction of a heap
  is the multiset of its records.
\<close>

section \<open>Records and comparators\<close>

type_synonym dist_record = "dist \<times> inner_id"

text \<open>\<open>CompareMax\<close> and \<open>CompareMin\<close>.\<close>

definition Compare :: "bool \<Rightarrow> dist_record \<Rightarrow> dist_record \<Rightarrow> bool" where
  "Compare max_heap a b = (if max_heap then fst a < fst b else fst a > fst b)"

text \<open>A signed 64-bit number compared with an unsigned one is converted.\<close>

definition as_u64 :: "int \<Rightarrow> nat" where
  "as_u64 n = nat (n mod 2 ^ 64)"

lemma as_u64_nonneg [simp]: "0 \<le> n \<Longrightarrow> n < 2 ^ 63 \<Longrightarrow> as_u64 n = nat n"
  by (simp add: as_u64_def)

section \<open>The heap and search algorithms of the standard library\<close>

text \<open>
  \<open>std::push_heap\<close> and \<open>std::pop_heap\<close> on a vector, by moving a hole: up while the parent is less
  than the value, and down along the larger child.
\<close>

function sift_up :: "('a \<Rightarrow> 'a \<Rightarrow> bool) \<Rightarrow> 'a list \<Rightarrow> nat \<Rightarrow> 'a \<Rightarrow> 'a list" where
  "sift_up cmp a hole v =
     (if hole > 0 \<and> cmp (a ! ((hole - 1) div 2)) v
      then sift_up cmp (a[hole := a ! ((hole - 1) div 2)]) ((hole - 1) div 2) v
      else a[hole := v])"
  by pat_completeness auto
termination by (relation "measure (\<lambda>(cmp, a, hole, v). hole)") auto

declare sift_up.simps [simp del]

function sift_down :: "('a \<Rightarrow> 'a \<Rightarrow> bool) \<Rightarrow> 'a list \<Rightarrow> nat \<Rightarrow> 'a list \<times> nat" where
  "sift_down cmp a hole =
     (if hole < (length a - 1) div 2 then
        (let second = 2 * (hole + 1);
             second = (if cmp (a ! second) (a ! (second - 1)) then second - 1 else second)
         in sift_down cmp (a[hole := a ! second]) second)
      else if length a \<ge> 2 \<and> length a mod 2 = 0 \<and> hole = (length a - 2) div 2 then
        (let second = 2 * (hole + 1) in (a[hole := a ! (second - 1)], second - 1))
      else (a, hole))"
  by pat_completeness auto
termination by (relation "measure (\<lambda>(cmp, a, hole). length a - hole)") auto

declare sift_down.simps [simp del]

definition push_heap :: "('a \<Rightarrow> 'a \<Rightarrow> bool) \<Rightarrow> 'a list \<Rightarrow> 'a list" where
  "push_heap cmp a = (if a = [] then [] else sift_up cmp a (length a - 1) (last a))"

text \<open>The old front goes to the end, the value at the end to its place among the others.\<close>

definition pop_heap :: "('a \<Rightarrow> 'a \<Rightarrow> bool) \<Rightarrow> 'a list \<Rightarrow> 'a list" where
  "pop_heap cmp a =
     (if length a > 1 then
        (let (b, hole) = sift_down cmp (butlast a) 0
         in sift_up cmp b hole (last a) @ [hd a])
      else a)"

text \<open>\<open>std::upper_bound\<close>: the binary search.\<close>

function upper_bound_loop :: "('a \<Rightarrow> 'a \<Rightarrow> bool) \<Rightarrow> 'a list \<Rightarrow> 'a \<Rightarrow> nat \<Rightarrow> nat \<Rightarrow> nat" where
  "upper_bound_loop cmp a v first len =
     (if len > 0 then
        (let half = len div 2; middle = first + half
         in if cmp v (a ! middle) then upper_bound_loop cmp a v first half
            else upper_bound_loop cmp a v (middle + 1) (len - half - 1))
      else first)"
  by pat_completeness auto
termination by (relation "measure (\<lambda>(cmp, a, v, first, len). len)") auto

declare upper_bound_loop.simps [simp del]

definition upper_bound :: "('a \<Rightarrow> 'a \<Rightarrow> bool) \<Rightarrow> 'a list \<Rightarrow> 'a \<Rightarrow> nat" where
  "upper_bound cmp a v = upper_bound_loop cmp a v 0 (length a)"

section \<open>StandardHeap\<close>

record standard_heap =
  sh_queue :: "dist_record list"
  sh_max_size :: int

definition StandardHeap_new :: "int \<Rightarrow> standard_heap" where
  "StandardHeap_new max_size = \<lparr>sh_queue = [], sh_max_size = max_size\<rparr>"

definition StandardHeap_Top :: "standard_heap \<Rightarrow> dist_record result" where
  "StandardHeap_Top s = (case sh_queue s of [] \<Rightarrow> Inl UB | r # _ \<Rightarrow> Inr r)"

definition StandardHeap_Pop :: "bool \<Rightarrow> standard_heap \<Rightarrow> standard_heap result" where
  "StandardHeap_Pop max_heap s =
     (let queue = pop_heap (Compare max_heap) (sh_queue s)
      in if queue = [] then Inl UB else Inr (s\<lparr>sh_queue := butlast queue\<rparr>))"

definition StandardHeap_Size :: "standard_heap \<Rightarrow> nat" where
  "StandardHeap_Size s = length (sh_queue s)"

definition StandardHeap_Push :: "bool \<Rightarrow> bool \<Rightarrow> dist_record \<Rightarrow> standard_heap \<Rightarrow> standard_heap result" where
  "StandardHeap_Push max_heap fixed_size record s =
     bindR
       (if fixed_size \<and> length (sh_queue s) = as_u64 (sh_max_size s) then
          bindR (StandardHeap_Top s) (\<lambda>front.
            Inr (if max_heap then fst record > fst front else fst record < fst front))
        else Inr False)
       (\<lambda>skip.
          if skip then Inr s
          else
            let s = s\<lparr>sh_queue := push_heap (Compare max_heap) (sh_queue s @ [record])\<rparr>
            in if fixed_size \<and> length (sh_queue s) > as_u64 (sh_max_size s)
               then StandardHeap_Pop max_heap s else Inr s)"

section \<open>MemmoveHeap\<close>

record memmove_heap =
  mm_ordered_buffer :: "dist_record list"
  mm_cur_size :: int
  mm_max_size :: int

definition MemmoveHeap_new :: "bool \<Rightarrow> int \<Rightarrow> memmove_heap" where
  "MemmoveHeap_new fixed_size max_size =
     \<lparr>mm_ordered_buffer = (if fixed_size then replicate (as_u64 (max_size + 1)) (0, 0) else []),
      mm_cur_size = 0, mm_max_size = max_size\<rparr>"

definition MemmoveHeap_Top :: "memmove_heap \<Rightarrow> dist_record result" where
  "MemmoveHeap_Top s =
     (if 0 < mm_cur_size s \<and> mm_cur_size s \<le> int (length (mm_ordered_buffer s))
      then Inr (mm_ordered_buffer s ! nat (mm_cur_size s - 1)) else Inl UB)"

definition MemmoveHeap_Pop :: "memmove_heap \<Rightarrow> memmove_heap" where
  "MemmoveHeap_Pop s = s\<lparr>mm_cur_size := mm_cur_size s - 1\<rparr>"

definition MemmoveHeap_Size :: "memmove_heap \<Rightarrow> nat" where
  "MemmoveHeap_Size s = as_u64 (mm_cur_size s)"

text \<open>
  The block move of one record up: a negative length is a huge unsigned one, and both ranges must
  lie in the buffer.
\<close>

definition shift_up :: "nat \<Rightarrow> int \<Rightarrow> 'a list \<Rightarrow> 'a list result" where
  "shift_up pos n buffer =
     (if n < 0 \<or> int pos + 1 + n > int (length buffer) then Inl UB
      else Inr (blit buffer (pos + 1) (take (nat n) (drop pos buffer))))"

definition MemmoveHeap_Push :: "bool \<Rightarrow> bool \<Rightarrow> dist_record \<Rightarrow> memmove_heap \<Rightarrow> memmove_heap result" where
  "MemmoveHeap_Push max_heap fixed_size record s =
     (if fixed_size then
        bindR
          (if MemmoveHeap_Size s < as_u64 (mm_max_size s) then Inr True
           else bindR (MemmoveHeap_Top s) (\<lambda>t. Inr ((fst record < fst t) = max_heap)))
          (\<lambda>accept.
             if \<not> accept then Inr s
             else if mm_cur_size s < 0 \<or> mm_cur_size s > int (length (mm_ordered_buffer s)) then Inl UB
             else
               let pos = upper_bound (Compare max_heap) (take (nat (mm_cur_size s)) (mm_ordered_buffer s)) record
               in bindR (shift_up pos (mm_max_size s - int pos) (mm_ordered_buffer s)) (\<lambda>buffer.
                    let s = s\<lparr>mm_ordered_buffer := buffer[pos := record], mm_cur_size := mm_cur_size s + 1\<rparr>
                    in Inr (if MemmoveHeap_Size s > as_u64 (mm_max_size s) then MemmoveHeap_Pop s else s)))
      else
        let pos = upper_bound (Compare max_heap) (mm_ordered_buffer s) record
        in bindR (shift_up pos (mm_cur_size s - int pos) (mm_ordered_buffer s @ [record])) (\<lambda>buffer.
             Inr (s\<lparr>mm_ordered_buffer := buffer[pos := record], mm_cur_size := mm_cur_size s + 1\<rparr>)))"

section \<open>DistanceHeap\<close>

text \<open>The heap behind a \<open>DistHeapPtr\<close> and its virtual operations.\<close>

datatype distance_heap = Memmove memmove_heap | Standard standard_heap

definition MakeInstanceBySize :: "bool \<Rightarrow> int \<Rightarrow> distance_heap" where
  "MakeInstanceBySize fixed_size max_size =
     (if max_size < 10 then Memmove (MemmoveHeap_new fixed_size max_size)
      else Standard (StandardHeap_new max_size))"

fun Heap_Push :: "bool \<Rightarrow> bool \<Rightarrow> dist_record \<Rightarrow> distance_heap \<Rightarrow> distance_heap result" where
  "Heap_Push max_heap fixed_size record (Memmove s) = bindR (MemmoveHeap_Push max_heap fixed_size record s) (Inr \<circ> Memmove)"
| "Heap_Push max_heap fixed_size record (Standard s) = bindR (StandardHeap_Push max_heap fixed_size record s) (Inr \<circ> Standard)"

fun Heap_Top :: "distance_heap \<Rightarrow> dist_record result" where
  "Heap_Top (Memmove s) = MemmoveHeap_Top s"
| "Heap_Top (Standard s) = StandardHeap_Top s"

fun Heap_Pop :: "bool \<Rightarrow> distance_heap \<Rightarrow> distance_heap result" where
  "Heap_Pop max_heap (Memmove s) = Inr (Memmove (MemmoveHeap_Pop s))"
| "Heap_Pop max_heap (Standard s) = bindR (StandardHeap_Pop max_heap s) (Inr \<circ> Standard)"

fun Heap_Size :: "distance_heap \<Rightarrow> nat" where
  "Heap_Size (Memmove s) = MemmoveHeap_Size s"
| "Heap_Size (Standard s) = StandardHeap_Size s"

fun Heap_GetData :: "distance_heap \<Rightarrow> dist_record list" where
  "Heap_GetData (Memmove s) = mm_ordered_buffer s"
| "Heap_GetData (Standard s) = sh_queue s"

text \<open>
  The loop \<open>while (not heap->Empty()) { ... heap->Top() ...; heap->Pop(); }\<close> of the users of a heap, for
  any of the heaps: the records in the order they come off. The first argument bounds the rounds.
\<close>

fun heap_drain ::
  "nat \<Rightarrow> ('s \<Rightarrow> dist_record result) \<Rightarrow> ('s \<Rightarrow> 's result) \<Rightarrow> ('s \<Rightarrow> nat) \<Rightarrow> 's \<Rightarrow> (dist_record list \<times> 's) result" where
  "heap_drain 0 top_of pop size_of s = (if size_of s = 0 then Inr ([], s) else Inl Diverges)"
| "heap_drain (Suc n) top_of pop size_of s =
     (if size_of s = 0 then Inr ([], s)
      else bindR (top_of s) (\<lambda>r. bindR (pop s) (\<lambda>s.
        bindR (heap_drain n top_of pop size_of s) (\<lambda>(rs, s). Inr (r # rs, s)))))"

text \<open>\<open>Merge\<close>: push the records of the other heap, one after the other.\<close>

definition Heap_Merge :: "bool \<Rightarrow> bool \<Rightarrow> distance_heap \<Rightarrow> distance_heap \<Rightarrow> distance_heap result" where
  "Heap_Merge max_heap fixed_size other s =
     (if Heap_Size other > length (Heap_GetData other) then Inl UB
      else foldR (Heap_Push max_heap fixed_size) (take (Heap_Size other) (Heap_GetData other)) s)"

section \<open>Correctness of the heap algorithms\<close>

text \<open>The comparators compare keys.\<close>

definition key :: "bool \<Rightarrow> dist_record \<Rightarrow> int" where
  "key max_heap r = (if max_heap then fst r else - fst r)"

lemma Compare_key: "Compare max_heap = (\<lambda>a b. key max_heap a < key max_heap b)"
  by (auto simp: Compare_def key_def fun_eq_iff)

definition is_heap :: "('a \<Rightarrow> int) \<Rightarrow> 'a list \<Rightarrow> bool" where
  "is_heap k a \<longleftrightarrow> (\<forall>i. 0 < i \<and> i < length a \<longrightarrow> k (a ! i) \<le> k (a ! ((i - 1) div 2)))"

text \<open>A heap but for a hole, whose children are not above its parent.\<close>

definition heap_hole :: "('a \<Rightarrow> int) \<Rightarrow> 'a list \<Rightarrow> nat \<Rightarrow> bool" where
  "heap_hole k a h \<longleftrightarrow>
     (\<forall>i. 0 < i \<and> i < length a \<and> i \<noteq> h \<and> (i - 1) div 2 \<noteq> h \<longrightarrow> k (a ! i) \<le> k (a ! ((i - 1) div 2))) \<and>
     (\<forall>i. 0 < i \<and> i < length a \<and> (i - 1) div 2 = h \<and> 0 < h \<longrightarrow> k (a ! i) \<le> k (a ! ((h - 1) div 2)))"

definition below_hole :: "('a \<Rightarrow> int) \<Rightarrow> 'a list \<Rightarrow> nat \<Rightarrow> int \<Rightarrow> bool" where
  "below_hole k a h x \<longleftrightarrow> (\<forall>i. 0 < i \<and> i < length a \<and> (i - 1) div 2 = h \<longrightarrow> k (a ! i) \<le> x)"

lemma mset_move:
  assumes "h < length a" "j < length a" "h \<noteq> j"
  shows "mset (a[h := a ! j, j := v]) = mset (a[h := v])"
proof -
  have "mset (a[h := a ! j, j := v]) = add_mset v (mset (a[h := a ! j]) - {#a ! j#})"
    using assms by (simp add: mset_update)
  also have "\<dots> = mset (a[h := v])" using assms by (simp add: mset_update)
  finally show ?thesis .
qed

lemma mset_sift_up: "hole < length a \<Longrightarrow> mset (sift_up cmp a hole v) = mset (a[hole := v])"
proof (induction cmp a hole v rule: sift_up.induct)
  case (1 cmp a hole v)
  let ?p = "(hole - 1) div 2"
  show ?case
  proof (cases "hole > 0 \<and> cmp (a ! ?p) v")
    case True
    then have "?p < hole" by auto
    then have "mset (sift_up cmp (a[hole := a ! ?p]) ?p v) = mset (a[hole := a ! ?p, ?p := v])"
      using 1 True by simp
    then show ?thesis using True mset_move [of hole a ?p v] "1.prems" \<open>?p < hole\<close>
      by (simp add: sift_up.simps [of cmp a])
  qed (auto simp: sift_up.simps [of cmp a])
qed

lemma length_sift_up [simp]: "length (sift_up cmp a hole v) = length a"
proof (induction cmp a hole v rule: sift_up.induct)
  case (1 cmp a hole v)
  then show ?case by (subst sift_up.simps) simp
qed

lemma sift_up_heap:
  assumes "h < length a" "heap_hole k a h" "below_hole k a h (k v)"
  shows "is_heap k (sift_up (\<lambda>x y. k x < k y) a h v)"
  using assms
proof (induction "\<lambda>x y. k x < k y" a h v rule: sift_up.induct)
  case (1 a h v)
  define p where "p = (h - 1) div 2"
  note hole = "1.prems"(2) [unfolded heap_hole_def]
  show ?case
  proof (cases "h > 0 \<and> k (a ! p) < k v")
    case True
    let ?a = "a[h := a ! p]"
    have p: "p < h" using True by (auto simp: p_def)
    have "k (?a ! i) \<le> k (?a ! ((i - 1) div 2))"
      if "0 < i" "i < length a" "i \<noteq> p" "(i - 1) div 2 \<noteq> p" for i
    proof (cases "(i - 1) div 2 = h")
      case True
      then have "k (a ! i) \<le> k (a ! p)" using hole that \<open>h > 0 \<and> _\<close> by (simp add: p_def)
      moreover have "i \<noteq> h" using True that(1) by auto
      ultimately show ?thesis using True "1.prems"(1) by simp
    next
      case False
      moreover have "i \<noteq> h" using that(4) by (auto simp: p_def)
      ultimately show ?thesis using hole that by simp
    qed
    moreover have "k (?a ! i) \<le> k (?a ! ((p - 1) div 2))"
      if "0 < i" "i < length a" "(i - 1) div 2 = p" "0 < p" for i
    proof -
      have pp: "(p - 1) div 2 < p" using that(4) by auto
      have up: "k (a ! p) \<le> k (a ! ((p - 1) div 2))" using hole p that(4) "1.prems"(1) pp by auto
      show ?thesis
      proof (cases "i = h")
        case True
        then show ?thesis using up pp p "1.prems"(1) by simp
      next
        case False
        have "p \<noteq> h" using p by simp
        then have "k (a ! i) \<le> k (a ! p)" using hole that False by auto
        then show ?thesis using up False pp p "1.prems"(1) by simp
      qed
    qed
    ultimately have "heap_hole k ?a p" by (simp add: heap_hole_def)
    moreover have "below_hole k ?a p (k v)" unfolding below_hole_def
    proof (intro allI impI)
      fix i
      assume i: "0 < i \<and> i < length ?a \<and> (i - 1) div 2 = p"
      show "k (?a ! i) \<le> k v"
      proof (cases "i = h")
        case True
        then show ?thesis using \<open>h > 0 \<and> _\<close> "1.prems"(1) by simp
      next
        case False
        have "k (a ! i) \<le> k (a ! p)" using hole i False p by auto
        then show ?thesis using False \<open>h > 0 \<and> _\<close> by simp
      qed
    qed
    ultimately show ?thesis using "1.hyps" True "1.prems"(1) p unfolding p_def
      by (simp add: sift_up.simps [of "\<lambda>x y. k x < k y" a])
  next
    case False
    have "is_heap k (a[h := v])" unfolding is_heap_def
    proof (intro allI impI)
      fix i
      assume i: "0 < i \<and> i < length (a[h := v])"
      then have "(i - 1) div 2 < i" by auto
      then show "k (a[h := v] ! i) \<le> k (a[h := v] ! ((i - 1) div 2))"
        using False hole "1.prems"(1,3) i unfolding below_hole_def p_def
        by (cases "i = h"; cases "(i - 1) div 2 = h") auto
    qed
    then show ?thesis using False unfolding p_def by (auto simp: sift_up.simps [of "\<lambda>x y. k x < k y" a])
  qed
qed

text \<open>The way down: the hole ends at a leaf, and nothing is lost.\<close>

lemma sift_down_step:
  assumes "heap_hole k a h" "h < length a" "j < length a" "0 < j" "(j - 1) div 2 = h"
    and "\<forall>i. 0 < i \<and> i < length a \<and> (i - 1) div 2 = h \<longrightarrow> k (a ! i) \<le> k (a ! j)"
  shows "heap_hole k (a[h := a ! j]) j"
proof -
  note hole = assms(1) [unfolded heap_hole_def]
  have h: "h < j" using assms(4,5) by auto
  let ?a = "a[h := a ! j]"
  have "k (?a ! i) \<le> k (?a ! ((i - 1) div 2))"
    if "0 < i" "i < length a" "i \<noteq> j" "(i - 1) div 2 \<noteq> j" for i
  proof (cases "i = h")
    case True
    then have "(i - 1) div 2 < h" using that(1) by auto
    then show ?thesis using True hole assms(2-5) that by simp
  next
    case False
    then show ?thesis using hole assms(2,6) that by (cases "(i - 1) div 2 = h") auto
  qed
  moreover have "k (?a ! i) \<le> k (?a ! ((j - 1) div 2))"
    if "0 < i" "i < length a" "(i - 1) div 2 = j" for i
  proof -
    have "i \<noteq> h" using that h by auto
    then show ?thesis using hole that assms(2,5) h by auto
  qed
  ultimately show ?thesis by (simp add: heap_hole_def)
qed

lemma heap_child: "0 < i \<Longrightarrow> (i - 1) div 2 = h \<longleftrightarrow> i = 2 * h + 1 \<or> i = 2 * h + 2" for i h :: nat
  by arith

lemma sift_down_ok:
  assumes "heap_hole k a h" "h < length a"
  shows "case sift_down (\<lambda>x y. k x < k y) a h of (b, j) \<Rightarrow>
    heap_hole k b j \<and> j < length b \<and> length b = length a \<and> below_hole k b j x \<and>
    (\<forall>v. mset (b[j := v]) = mset (a[h := v]))"
  using assms
proof (induction "\<lambda>x y. k x < k y" a h rule: sift_down.induct)
  case (1 a h)
  let ?n = "length a"
  show ?case
  proof (cases "h < (?n - 1) div 2")
    case True
    define s where "s = 2 * (h + 1)"
    define j where "j = (if k (a ! s) < k (a ! (s - 1)) then s - 1 else s)"
    have s: "s < ?n" "0 < s" "(s - 1) div 2 = h" "(s - 1 - 1) div 2 = h" "0 < s - 1" using True by (auto simp: s_def)
    then have j: "j < ?n" "0 < j" "(j - 1) div 2 = h" unfolding j_def by auto
    have "k (a ! i) \<le> k (a ! j)" if "0 < i" "(i - 1) div 2 = h" for i
    proof -
      have "i = 2 * h + 1 \<or> i = 2 * h + 2" using heap_child that by blast
      then have "i = s \<or> i = s - 1" by (auto simp: s_def)
      then show ?thesis by (auto simp: j_def)
    qed
    then have "heap_hole k (a[h := a ! j]) j" using sift_down_step [OF "1.prems" j] by blast
    then have "case sift_down (\<lambda>x y. k x < k y) (a[h := a ! j]) j of (b, l) \<Rightarrow>
      heap_hole k b l \<and> l < length b \<and> length b = ?n \<and> below_hole k b l x \<and>
      (\<forall>v. mset (b[l := v]) = mset (a[h := a ! j, j := v]))"
      using "1.hyps" [OF True s_def j_def] j(1) by simp
    moreover have "h \<noteq> j" using j(2,3) by auto
    then have "mset (a[h := a ! j, j := v]) = mset (a[h := v])" for v
      using "1.prems"(2) j(1) by (intro mset_move)
    moreover have "sift_down (\<lambda>x y. k x < k y) a h = sift_down (\<lambda>x y. k x < k y) (a[h := a ! j]) j"
      using True unfolding j_def s_def by (simp only: sift_down.simps [of _ a] if_True Let_def)
    ultimately show ?thesis by simp
  next
    case False
    show ?thesis
    proof (cases "?n \<ge> 2 \<and> ?n mod 2 = 0 \<and> h = (?n - 2) div 2")
      case True
      define j where "j = 2 * (h + 1) - 1"
      have n: "?n = 2 * h + 2" using True by auto
      have j: "j < ?n" "0 < j" "(j - 1) div 2 = h" "h \<noteq> j" by (auto simp: j_def n)
      have only: "i = j" if "i < ?n" "0 < i" "(i - 1) div 2 = h" for i
      proof -
        have "i = 2 * h + 1 \<or> i = 2 * h + 2" using heap_child that(2,3) by blast
        then show "i = j" using that(1) n by (auto simp: j_def)
      qed
      then have "heap_hole k (a[h := a ! j]) j" using sift_down_step [OF "1.prems" j(1-3)] by blast
      moreover have "below_hole k (a[h := a ! j]) j x"
      proof -
        have "\<not> (0 < i \<and> i < ?n \<and> (i - 1) div 2 = j)" for i using n heap_child [of i j] by (auto simp: j_def)
        then show ?thesis unfolding below_hole_def length_list_update by blast
      qed
      moreover have "mset (a[h := a ! j, j := v]) = mset (a[h := v])" for v
        using "1.prems"(2) j(1,4) by (rule mset_move)
      moreover have "sift_down (\<lambda>x y. k x < k y) a h = (a[h := a ! j], j)"
        using True False by (simp only: sift_down.simps [of _ a] if_False if_True simp_thms j_def Let_def)
      ultimately show ?thesis using j(1) by simp
    next
      case leaf: False
      have "below_hole k a h x" unfolding below_hole_def
      proof (intro allI impI, elim conjE)
        fix i
        assume "0 < i" "i < ?n" "(i - 1) div 2 = h"
        then have "i = 2 * h + 1 \<or> i = 2 * h + 2" using heap_child by blast
        moreover have "?n \<le> 2 * h + 2" using False by linarith
        ultimately have "?n = 2 * h + 2" using \<open>i < ?n\<close> by linarith
        then have False using leaf by simp
        then show "k (a ! i) \<le> x" ..
      qed
      moreover have "sift_down (\<lambda>x y. k x < k y) a h = (a, h)"
        using False leaf by (simp only: sift_down.simps [of _ a] if_False)
      ultimately show ?thesis using "1.prems" by simp
    qed
  qed
qed

lemma heap_front:
  assumes "is_heap k a" "i < length a"
  shows "k (a ! i) \<le> k (a ! 0)"
  using assms(2)
proof (induction i rule: less_induct)
  case (less i)
  show ?case
  proof (cases "i = 0")
    case False
    then have "(i - 1) div 2 < i" by auto
    then show ?thesis using less False assms(1) unfolding is_heap_def by (meson dual_order.trans less_trans neq0_conv)
  qed simp
qed

lemma heap_front_set: "is_heap k a \<Longrightarrow> x \<in> set a \<Longrightarrow> k x \<le> k (hd a)"
  by (metis heap_front hd_conv_nth in_set_conv_nth list.set_cases list.distinct(1))

lemma push_heap_ok:
  assumes "is_heap k a"
  shows "is_heap k (push_heap (\<lambda>x y. k x < k y) (a @ [v]))" "mset (push_heap (\<lambda>x y. k x < k y) (a @ [v])) = add_mset v (mset a)"
proof -
  have eq: "push_heap (\<lambda>x y. k x < k y) (a @ [v]) = sift_up (\<lambda>x y. k x < k y) (a @ [v]) (length a) v"
    by (simp add: push_heap_def)
  have "(i - 1) div 2 \<noteq> length a" if "0 < i" "i < Suc (length a)" for i using that by auto
  then have "heap_hole k (a @ [v]) (length a)" unfolding heap_hole_def
    using assms unfolding is_heap_def by (auto simp: nth_append less_Suc_eq)
  moreover have "below_hole k (a @ [v]) (length a) (k v)" by (auto simp: below_hole_def)
  ultimately show "is_heap k (push_heap (\<lambda>x y. k x < k y) (a @ [v]))"
    unfolding eq by (intro sift_up_heap) auto
  show "mset (push_heap (\<lambda>x y. k x < k y) (a @ [v])) = add_mset v (mset a)"
    unfolding eq by (subst mset_sift_up) simp_all
qed

lemma pop_heap_ok:
  assumes "is_heap k a" "a \<noteq> []"
  obtains b where "pop_heap (\<lambda>x y. k x < k y) a = b @ [hd a]" "is_heap k b" "mset b = mset a - {#hd a#}"
proof (cases "length a > 1")
  case False
  then have "a = [hd a]" using assms(2) by (cases a) auto
  then show thesis using that [of "[]"] False by (metis is_heap_def append_Nil diff_empty
      length_0_conv mset.simps(1) mset_single_iff pop_heap_def cancel_comm_monoid_add_class.diff_cancel not_less_zero)
next
  case True
  obtain b j where bj: "sift_down (\<lambda>x y. k x < k y) (butlast a) 0 = (b, j)" by fastforce
  have "heap_hole k (butlast a) 0" using assms(1) unfolding heap_hole_def is_heap_def by (auto simp: nth_butlast)
  then have b: "heap_hole k b j" "j < length b" "length b = length a - 1" "below_hole k b j (k (last a))"
    "mset (b[j := last a]) = mset ((butlast a)[0 := last a])"
    using sift_down_ok [of k "butlast a" 0 "k (last a)"] bj True by auto
  obtain x xs where a: "a = x # xs" "xs \<noteq> []" using True by (cases a) auto
  have "mset ((butlast a)[0 := last a]) = mset a - {#hd a#}"
    using a by (simp add: butlast.simps) (metis append_butlast_last_id mset_append mset.simps union_commute add_mset_add_single)
  then show thesis
    using that [of "sift_up (\<lambda>x y. k x < k y) b j (last a)"] sift_up_heap [OF b(2,1,4)] mset_sift_up [OF b(2)] b(5) bj True
    by (simp add: pop_heap_def)
qed

text \<open>The binary search, on an ordered range, finds the first element above the value.\<close>

lemma upper_bound_loop_ok:
  assumes "sorted (map k a)" "first + len \<le> length a" "\<forall>i<first. k (a ! i) \<le> k v"
    "\<forall>i. first + len \<le> i \<and> i < length a \<longrightarrow> k v < k (a ! i)"
  defines "p \<equiv> upper_bound_loop (\<lambda>x y. k x < k y) a v first len"
  shows "p \<le> length a \<and> (\<forall>i<p. k (a ! i) \<le> k v) \<and> (\<forall>i. p \<le> i \<and> i < length a \<longrightarrow> k v < k (a ! i))"
  using assms(1-4) unfolding p_def
proof (induction "\<lambda>x y. k x < k y" a v first len rule: upper_bound_loop.induct)
  case (1 a v first len)
  have mono: "k (a ! i) \<le> k (a ! j)" if "i \<le> j" "j < length a" for i j
    using sorted_nth_mono [OF "1.prems"(1), of i j] that by simp
  let ?m = "first + len div 2"
  show ?case
  proof (cases "0 < len")
    case False
    then show ?thesis using "1.prems" by (simp add: upper_bound_loop.simps)
  next
    case True
    then have m: "?m < length a" "?m < first + len" using "1.prems"(2) by linarith+
    show ?thesis
    proof (cases "k v < k (a ! ?m)")
      case less: True
      have "\<forall>i. ?m \<le> i \<and> i < length a \<longrightarrow> k v < k (a ! i)" using less mono by fastforce
      moreover have "?m \<le> length a" using m by simp
      ultimately show ?thesis
        using "1.hyps"(1) [OF True refl refl less "1.prems"(1) _ "1.prems"(3)] less True
        by (simp add: upper_bound_loop.simps [of _ a v first len] Let_def)
    next
      case ge: False
      have "\<forall>i<?m + 1. k (a ! i) \<le> k v"
        using ge mono m(1) by (metis add.commute less_Suc_eq_le linorder_not_less order_trans plus_1_eq_Suc)
      moreover have "?m + 1 + (len - len div 2 - 1) = first + len" using True by linarith
      ultimately show ?thesis
        using "1.hyps"(2) [OF True refl refl ge "1.prems"(1)] "1.prems"(2,4) ge True
        by (simp add: upper_bound_loop.simps [of _ a v first len] Let_def)
    qed
  qed
qed

lemma upper_bound_ok:
  assumes "sorted (map k a)"
  shows "upper_bound (\<lambda>x y. k x < k y) a v \<le> length a"
    "\<forall>x\<in>set (take (upper_bound (\<lambda>x y. k x < k y) a v) a). k x \<le> k v"
    "\<forall>x\<in>set (drop (upper_bound (\<lambda>x y. k x < k y) a v) a). k v < k x"
proof -
  define p where "p = upper_bound (\<lambda>x y. k x < k y) a v"
  have end_empty: "\<forall>i. 0 + length a \<le> i \<and> i < length a \<longrightarrow> k v < k (a ! i)" by auto
  have p: "p \<le> length a" "\<forall>i<p. k (a ! i) \<le> k v" "\<forall>i. p \<le> i \<and> i < length a \<longrightarrow> k v < k (a ! i)"
    using upper_bound_loop_ok [OF assms _ _ end_empty] unfolding p_def upper_bound_def by simp_all
  have "\<forall>x\<in>set (take p a). k x \<le> k v" "\<forall>x\<in>set (drop p a). k v < k x"
    using p by (auto simp: in_set_conv_nth)
  then show "upper_bound (\<lambda>x y. k x < k y) a v \<le> length a"
    "\<forall>x\<in>set (take (upper_bound (\<lambda>x y. k x < k y) a v) a). k x \<le> k v"
    "\<forall>x\<in>set (drop (upper_bound (\<lambda>x y. k x < k y) a v) a). k v < k x"
    using p(1) unfolding p_def by blast+
qed

section \<open>The contracts\<close>

text \<open>What \<open>Top\<close>, \<open>Pop\<close> and \<open>Size\<close> are, over the multiset of the records.\<close>

locale heap_top =
  fixes top_of :: "'s \<Rightarrow> dist_record result"
    and pop :: "'s \<Rightarrow> 's result"
    and size_of :: "'s \<Rightarrow> nat"
    and recs :: "'s \<Rightarrow> dist_record multiset"
    and inv :: "'s \<Rightarrow> bool"
    and k :: "dist_record \<Rightarrow> int"
  assumes size_ok: "inv s \<Longrightarrow> size_of s = size (recs s)"
    and top_ok: "inv s \<Longrightarrow> recs s \<noteq> {#} \<Longrightarrow>
      \<exists>r. top_of s = Inr r \<and> r \<in># recs s \<and> (\<forall>x\<in>#recs s. k x \<le> k r) \<and>
        (\<exists>s'. pop s = Inr s' \<and> inv s' \<and> recs s' = recs s - {#r#})"
begin

text \<open>Taking records off until the heap is empty gives all of them, the largest first.\<close>

lemma drain_ok:
  assumes "inv s" "size (recs s) \<le> n"
  shows "\<exists>rs s'. heap_drain n top_of pop size_of s = Inr (rs, s') \<and> inv s' \<and> recs s' = {#} \<and>
    mset rs = recs s \<and> sorted_wrt (\<lambda>x y. k x \<ge> k y) rs"
  using assms
proof (induction n arbitrary: s)
  case 0
  then show ?case using size_ok by simp
next
  case (Suc n)
  show ?case
  proof (cases "recs s = {#}")
    case True
    then show ?thesis using size_ok Suc.prems by simp
  next
    case False
    from top_ok [OF Suc.prems(1) this] obtain r s1 where r: "top_of s = Inr r" "r \<in># recs s" "\<forall>x\<in>#recs s. k x \<le> k r"
      "pop s = Inr s1" "inv s1" "recs s1 = recs s - {#r#}" by blast
    have "size (recs s1) \<le> n" using Suc.prems(2) r(2,6) by (simp add: size_Diff_singleton)
    from Suc.IH [OF r(5) this] obtain rs s' where rs: "heap_drain n top_of pop size_of s1 = Inr (rs, s')" "inv s'" "recs s' = {#}"
      "mset rs = recs s1" "sorted_wrt (\<lambda>x y. k x \<ge> k y) rs" by blast
    have "\<forall>x\<in>set rs. k x \<le> k r" using rs(4) r(3,6) by (metis in_diffD set_mset_mset)
    moreover have "mset (r # rs) = recs s" using rs(4) r(2,6) by simp
    moreover have "size_of s \<noteq> 0" using size_ok [OF Suc.prems(1)] False by simp
    ultimately show ?thesis using rs r(1,4) by (auto intro!: exI [of _ "r # rs"])
  qed
qed

end

text \<open>A heap that keeps everything.\<close>

locale dist_heap = heap_top +
  fixes push :: "dist_record \<Rightarrow> 'a \<Rightarrow> 'a result"
  assumes push_ok: "inv s \<Longrightarrow> \<exists>s'. push r s = Inr s' \<and> inv s' \<and> recs s' = add_mset r (recs s)"
begin

lemma push_all:
  assumes "inv s"
  shows "\<exists>s'. foldR push rs s = Inr s' \<and> inv s' \<and> recs s' = recs s + mset rs"
  using assms
proof (induction rs arbitrary: s)
  case (Cons r rs)
  from push_ok [OF Cons.prems, of r] obtain s1 where s1: "push r s = Inr s1" "inv s1" "recs s1 = add_mset r (recs s)" by blast
  from Cons.IH [OF s1(2)] show ?case using s1 by auto
qed simp

end

text \<open>The keys of a multiset of records, in order.\<close>

definition keys :: "(dist_record \<Rightarrow> int) \<Rightarrow> dist_record multiset \<Rightarrow> int list" where
  "keys k M = sorted_list_of_multiset (image_mset k M)"

lemma keys_props [simp]: "length (keys k M) = size M" "sorted (keys k M)" "mset (keys k M) = image_mset k M"
  by (simp_all add: keys_def) (metis size_image_mset size_mset mset_sorted_list_of_multiset)

lemma keys_add: "keys k (add_mset r M) = insort (k r) (keys k M)"
  by (simp add: keys_def)

lemma keys_mset: "keys k (mset rs) = sort (map k rs)"
  by (metis keys_def mset_map sorted_list_of_multiset_mset)

lemma insort_last: "sorted xs \<Longrightarrow> \<forall>y\<in>set xs. y \<le> (x :: int) \<Longrightarrow> insort x xs = xs @ [x]"
  using properties_for_sort [of "xs @ [x]" "insort x xs"] by (simp add: sorted_append sorted_insort sorted_sort_id)

lemma take_insort: "sorted xs \<Longrightarrow> take c (insort x (take c xs)) = take c (insort x xs)" for x :: int
proof (induction xs arbitrary: c)
  case (Cons y ys)
  then show ?case by (cases c) (auto simp: take_Cons')
qed simp

lemma keys_remove_max:
  assumes "t \<in># M" "\<forall>x\<in>#M. k x \<le> k t"
  shows "keys k (M - {#t#}) = take (size M - 1) (keys k M)"
proof -
  have "keys k M = insort (k t) (keys k (M - {#t#}))" using assms(1) by (metis insert_DiffM keys_add)
  also have "\<dots> = keys k (M - {#t#}) @ [k t]"
  proof (rule insort_last [OF keys_props(2)])
    have "set (keys k (M - {#t#})) = k ` set_mset (M - {#t#})" by (metis keys_props(3) set_image_mset set_mset_mset)
    then show "\<forall>y\<in>set (keys k (M - {#t#})). y \<le> k t" using assms(2) by (auto dest: in_diffD)
  qed
  finally show ?thesis using assms(1) by (simp add: size_Diff_singleton)
qed

text \<open>Only the smallest keys of a part matter for the smallest keys of the whole.\<close>

lemma keys_merge:
  assumes "keys k Z = take c (keys k Y)"
  shows "take c (keys k (X + Z)) = take c (keys k (X + Y))"
proof (induction X)
  case empty
  then show ?case using assms by simp
next
  case (add x X)
  have "take c (insort (k x) (take c (keys k (X + Z)))) = take c (insort (k x) (take c (keys k (X + Y))))" using add by simp
  then show ?case by (simp add: keys_add take_insort)
qed

text \<open>A heap that keeps the \<open>cap\<close> records with the smallest keys.\<close>

locale topk_heap = heap_top +
  fixes push :: "dist_record \<Rightarrow> 'a \<Rightarrow> 'a result" and cap :: "'a \<Rightarrow> nat"
  assumes cap_ok: "inv s \<Longrightarrow> size (recs s) \<le> cap s"
    and push_ok: "inv s \<Longrightarrow> \<exists>s'. push r s = Inr s' \<and> inv s' \<and> cap s' = cap s \<and>
      (if size (recs s) < cap s then recs s' = add_mset r (recs s)
       else \<exists>t. t \<in># add_mset r (recs s) \<and> (\<forall>x\<in>#add_mset r (recs s). k x \<le> k t) \<and>
              recs s' = add_mset r (recs s) - {#t#})"
begin

lemma push_keys:
  assumes "inv s"
  shows "\<exists>s'. push r s = Inr s' \<and> inv s' \<and> cap s' = cap s \<and> recs s' \<subseteq># add_mset r (recs s) \<and>
    keys k (recs s') = take (cap s) (insort (k r) (keys k (recs s)))"
proof -
  obtain s' where s': "push r s = Inr s'" "inv s'" "cap s' = cap s"
    "if size (recs s) < cap s then recs s' = add_mset r (recs s)
     else \<exists>t. t \<in># add_mset r (recs s) \<and> (\<forall>x\<in>#add_mset r (recs s). k x \<le> k t) \<and> recs s' = add_mset r (recs s) - {#t#}"
    using push_ok [OF assms, of r] by blast
  have "recs s' \<subseteq># add_mset r (recs s) \<and> keys k (recs s') = take (cap s) (keys k (add_mset r (recs s)))"
  proof (cases "size (recs s) < cap s")
    case True
    then show ?thesis using s'(4) by (simp add: keys_add)
  next
    case False
    then obtain t where t: "t \<in># add_mset r (recs s)" "\<forall>x\<in>#add_mset r (recs s). k x \<le> k t"
      "recs s' = add_mset r (recs s) - {#t#}" using s'(4) by auto
    moreover have "size (add_mset r (recs s)) - 1 = cap s" using False cap_ok [OF assms] by simp
    ultimately show ?thesis using keys_remove_max [OF t(1,2)] by simp
  qed
  then show ?thesis using s'(1-3) by (simp add: keys_add)
qed

text \<open>Pushing any sequence of records leaves those with the smallest keys of all.\<close>

lemma push_all:
  assumes "inv s" "keys k (recs s) = take (cap s) (keys k B)"
  shows "\<exists>s'. foldR push rs s = Inr s' \<and> inv s' \<and> cap s' = cap s \<and> recs s' \<subseteq># recs s + mset rs \<and>
    keys k (recs s') = take (cap s) (keys k (B + mset rs))"
  using assms
proof (induction rs arbitrary: s B)
  case (Cons r rs)
  from push_keys [OF Cons.prems(1), of r] obtain s1 where s1: "push r s = Inr s1" "inv s1" "cap s1 = cap s"
    "recs s1 \<subseteq># add_mset r (recs s)" "keys k (recs s1) = take (cap s) (insort (k r) (keys k (recs s)))" by blast
  have "keys k (recs s1) = take (cap s1) (keys k (add_mset r B))"
    using s1(3,5) Cons.prems(2) by (simp add: take_insort keys_add)
  from Cons.IH [OF s1(2) this] obtain s' where s': "foldR push rs s1 = Inr s'" "inv s'" "cap s' = cap s1"
    "recs s' \<subseteq># recs s1 + mset rs" "keys k (recs s') = take (cap s1) (keys k (add_mset r B + mset rs))" by blast
  have "recs s' \<subseteq># recs s + mset (r # rs)"
    using s'(4) s1(4) by (metis (no_types, lifting) add_mset_add_single mset.simps(2) subset_mset.add_right_mono
        subset_mset.order_trans union_mset_add_mset_left union_mset_add_mset_right)
  then show ?case using s' s1(1,3) by simp
qed simp

end

section \<open>The heaps fulfil the contracts\<close>

definition sh_inv :: "bool \<Rightarrow> standard_heap \<Rightarrow> bool" where
  "sh_inv mx s \<longleftrightarrow> is_heap (key mx) (sh_queue s)"

definition sh_recs :: "standard_heap \<Rightarrow> dist_record multiset" where
  "sh_recs s = mset (sh_queue s)"

lemma StandardHeap_top_ok:
  assumes "sh_inv mx s" "sh_recs s \<noteq> {#}"
  obtains r s' where "StandardHeap_Top s = Inr r" "r \<in># sh_recs s" "\<forall>x\<in>#sh_recs s. key mx x \<le> key mx r"
    "StandardHeap_Pop mx s = Inr s'" "sh_inv mx s'" "sh_recs s' = sh_recs s - {#r#}"
    "sh_max_size s' = sh_max_size s" "r = hd (sh_queue s)"
proof -
  have ne: "sh_queue s \<noteq> []" using assms(2) by (auto simp: sh_recs_def)
  have top: "StandardHeap_Top s = Inr (hd (sh_queue s))" using ne by (cases "sh_queue s") (simp_all add: StandardHeap_Top_def)
  obtain b where b: "pop_heap (\<lambda>x y. key mx x < key mx y) (sh_queue s) = b @ [hd (sh_queue s)]"
    "is_heap (key mx) b" "mset b = mset (sh_queue s) - {#hd (sh_queue s)#}"
    using pop_heap_ok [of "key mx" "sh_queue s"] assms(1) ne unfolding sh_inv_def by blast
  have "\<forall>x\<in>#sh_recs s. key mx x \<le> key mx (hd (sh_queue s))"
    using heap_front_set assms(1) by (auto simp: sh_recs_def sh_inv_def)
  then show thesis using that [of "hd (sh_queue s)" "s\<lparr>sh_queue := b\<rparr>"] top b ne
    by (simp add: StandardHeap_Pop_def Compare_key sh_inv_def sh_recs_def)
qed

interpretation std: dist_heap StandardHeap_Top "StandardHeap_Pop mx" StandardHeap_Size sh_recs "sh_inv mx" "key mx"
  "StandardHeap_Push mx False" for mx
proof (unfold_locales, goal_cases)
  case (1 s)
  then show ?case by (simp add: StandardHeap_Size_def sh_recs_def)
next
  case (2 s)
  show ?case using StandardHeap_top_ok [OF 2] by metis
next
  case (3 s r)
  then show ?case using push_heap_ok [of "key mx" "sh_queue s" r]
    by (simp add: StandardHeap_Push_def Compare_key sh_inv_def sh_recs_def)
qed

text \<open>With a fixed capacity.\<close>

definition sh_cap :: "standard_heap \<Rightarrow> nat" where
  "sh_cap s = nat (sh_max_size s)"

definition sh_topk_inv :: "bool \<Rightarrow> standard_heap \<Rightarrow> bool" where
  "sh_topk_inv mx s \<longleftrightarrow> sh_inv mx s \<and> 0 < sh_max_size s \<and> sh_max_size s < 2 ^ 63 \<and> size (sh_recs s) \<le> sh_cap s"

lemma StandardHeap_topk_push:
  assumes "sh_topk_inv mx s"
  shows "\<exists>s'. StandardHeap_Push mx True r s = Inr s' \<and> sh_topk_inv mx s' \<and> sh_cap s' = sh_cap s \<and>
    (if size (sh_recs s) < sh_cap s then sh_recs s' = add_mset r (sh_recs s)
     else \<exists>t. t \<in># add_mset r (sh_recs s) \<and> (\<forall>x\<in>#add_mset r (sh_recs s). key mx x \<le> key mx t) \<and>
            sh_recs s' = add_mset r (sh_recs s) - {#t#})"
proof -
  define q where "q = push_heap (\<lambda>x y. key mx x < key mx y) (sh_queue s @ [r])"
  have cap: "as_u64 (sh_max_size s) = sh_cap s" "0 < sh_cap s" "size (sh_recs s) \<le> sh_cap s"
    using assms by (simp_all add: sh_topk_inv_def sh_cap_def)
  have q: "is_heap (key mx) q" "mset q = add_mset r (mset (sh_queue s))"
    using push_heap_ok [of "key mx" "sh_queue s" r] assms by (simp_all add: q_def sh_topk_inv_def sh_inv_def)
  then have lenq: "length q = Suc (length (sh_queue s))" by (metis size_add_mset size_mset)
  show ?thesis
  proof (cases "size (sh_recs s) < sh_cap s")
    case True
    then have "StandardHeap_Push mx True r s = Inr (s\<lparr>sh_queue := q\<rparr>)"
      using cap lenq by (simp add: StandardHeap_Push_def Compare_key sh_recs_def q_def)
    then show ?thesis using True assms q lenq by (auto simp: sh_topk_inv_def sh_inv_def sh_recs_def sh_cap_def)
  next
    case False
    then have full: "length (sh_queue s) = sh_cap s" using cap(3) by (simp add: sh_recs_def)
    then obtain f qs where fq: "sh_queue s = f # qs" using cap(2) by (cases "sh_queue s") auto
    have front: "\<forall>x\<in>#sh_recs s. key mx x \<le> key mx f"
      using heap_front_set [of "key mx" "sh_queue s"] assms fq by (simp add: sh_recs_def sh_topk_inv_def sh_inv_def)
    show ?thesis
    proof (cases "key mx f < key mx r")
      case True
      then have "StandardHeap_Push mx True r s = Inr s"
        using cap full fq by (auto simp: StandardHeap_Push_def StandardHeap_Top_def key_def split: if_splits)
      moreover have "\<forall>x\<in>#add_mset r (sh_recs s). key mx x \<le> key mx r" using front True by fastforce
      moreover have "sh_recs s = add_mset r (sh_recs s) - {#r#}" by simp
      ultimately show ?thesis using False assms by (metis union_single_eq_member)
    next
      case le: False
      let ?s = "s\<lparr>sh_queue := q\<rparr>"
      have "sh_inv mx ?s" "sh_recs ?s \<noteq> {#}" using q by (auto simp: sh_inv_def sh_recs_def)
      from StandardHeap_top_ok [OF this] obtain t s' where t: "t \<in># sh_recs ?s" "\<forall>x\<in>#sh_recs ?s. key mx x \<le> key mx t"
        "StandardHeap_Pop mx ?s = Inr s'" "sh_inv mx s'" "sh_recs s' = sh_recs ?s - {#t#}" "sh_max_size s' = sh_max_size ?s" by metis
      have "StandardHeap_Push mx True r s = StandardHeap_Pop mx ?s"
        using le cap full fq lenq by (auto simp: StandardHeap_Push_def StandardHeap_Top_def Compare_key key_def q_def split: if_splits)
      moreover have recs: "sh_recs ?s = add_mset r (sh_recs s)" using q(2) by (simp add: sh_recs_def)
      moreover have "size (sh_recs s') \<le> sh_cap s"
      proof -
        have "size (sh_recs s') = size (sh_recs ?s) - 1" using t(1,5) by (simp add: size_Diff_singleton)
        then show ?thesis unfolding recs using full by (simp add: sh_recs_def)
      qed
      moreover have "sh_cap s' = sh_cap s" using t(6) by (simp add: sh_cap_def)
      moreover from calculation have "sh_topk_inv mx s'" using t(4,6) assms by (simp add: sh_topk_inv_def)
      ultimately show ?thesis using False t(1-3,5) by metis
    qed
  qed
qed

interpretation std_topk: topk_heap StandardHeap_Top "StandardHeap_Pop mx" StandardHeap_Size sh_recs "sh_topk_inv mx" "key mx"
  "StandardHeap_Push mx True" sh_cap for mx
proof (unfold_locales, goal_cases)
  case (1 s)
  then show ?case by (simp add: StandardHeap_Size_def sh_recs_def)
next
  case (2 s)
  then have "sh_inv mx s" by (simp add: sh_topk_inv_def)
  from StandardHeap_top_ok [OF this 2(2)] obtain r s' where r: "StandardHeap_Top s = Inr r" "r \<in># sh_recs s"
    "\<forall>x\<in>#sh_recs s. key mx x \<le> key mx r" "StandardHeap_Pop mx s = Inr s'" "sh_inv mx s'"
    "sh_recs s' = sh_recs s - {#r#}" "sh_max_size s' = sh_max_size s" by metis
  moreover have "size (sh_recs s') \<le> size (sh_recs s)" using r(6) by (simp add: size_Diff_singleton_if)
  ultimately have "sh_topk_inv mx s'" using 2(1) by (simp add: sh_topk_inv_def sh_cap_def)
  then show ?case using r by blast
next
  case (3 s)
  then show ?case by (simp add: sh_topk_inv_def)
next
  case (4 s r)
  then show ?case by (rule StandardHeap_topk_push)
qed

text \<open>The ordered buffer with a fixed capacity.\<close>

definition mm_recs :: "memmove_heap \<Rightarrow> dist_record multiset" where
  "mm_recs s = mset (take (nat (mm_cur_size s)) (mm_ordered_buffer s))"

definition mm_cap :: "memmove_heap \<Rightarrow> nat" where
  "mm_cap s = nat (mm_max_size s)"

definition mm_inv :: "bool \<Rightarrow> memmove_heap \<Rightarrow> bool" where
  "mm_inv mx s \<longleftrightarrow> 0 < mm_max_size s \<and> mm_max_size s < 2 ^ 62 \<and> 0 \<le> mm_cur_size s \<and> mm_cur_size s \<le> mm_max_size s \<and>
     length (mm_ordered_buffer s) = Suc (mm_cap s) \<and>
     sorted (map (key mx) (take (nat (mm_cur_size s)) (mm_ordered_buffer s)))"

lemma MemmoveHeap_top_ok:
  assumes "mm_inv mx s" "mm_recs s \<noteq> {#}"
  obtains r where "MemmoveHeap_Top s = Inr r" "r \<in># mm_recs s" "\<forall>x\<in>#mm_recs s. key mx x \<le> key mx r"
    "mm_inv mx (MemmoveHeap_Pop s)" "mm_recs (MemmoveHeap_Pop s) = mm_recs s - {#r#}"
proof -
  define n where "n = nat (mm_cur_size s)"
  define b where "b = mm_ordered_buffer s"
  have n: "mm_cur_size s = int n" "0 < n" "n < length b" "sorted (map (key mx) (take n b))"
    using assms by (auto simp: mm_inv_def mm_recs_def n_def b_def mm_cap_def)
  obtain m where m: "n = Suc m" using n(2) by (cases n) auto
  have tk: "take n b = take m b @ [b ! m]" using m n(3) by (simp add: take_Suc_conv_app_nth)
  have "MemmoveHeap_Top s = Inr (b ! m)" using n m by (simp add: MemmoveHeap_Top_def b_def [symmetric])
  moreover have "\<forall>x\<in>#mm_recs s. key mx x \<le> key mx (b ! m)" "b ! m \<in># mm_recs s"
    using n(4) by (auto simp: mm_recs_def n_def [symmetric] b_def [symmetric] tk sorted_append)
  moreover have "mm_recs (MemmoveHeap_Pop s) = mm_recs s - {#b ! m#}"
    unfolding mm_recs_def n_def [symmetric] b_def [symmetric] tk
    using n(1) m by (simp add: MemmoveHeap_Pop_def b_def [symmetric])
  moreover have "mm_inv mx (MemmoveHeap_Pop s)"
    using assms(1) n m tk by (auto simp: mm_inv_def MemmoveHeap_Pop_def b_def [symmetric] sorted_append mm_cap_def)
  ultimately show thesis using that by blast
qed

lemma shift_insert:
  assumes "pos \<le> n" "n < length b"
  shows "\<exists>b'. shift_up pos (int n - int pos) b = Inr b' \<and> length b' = length b \<and>
    take (Suc n) (b'[pos := r]) = take pos b @ r # take (n - pos) (drop pos b)"
proof -
  define mid where "mid = take (n - pos) (drop pos b)"
  have mid: "length mid = n - pos" using assms by (simp add: mid_def)
  have "shift_up pos (int n - int pos) b = Inr (blit b (pos + 1) mid)"
    using assms by (simp add: shift_up_def mid_def nat_diff_distrib flip: of_nat_diff)
  moreover have "length (blit b (pos + 1) mid) = length b" using assms mid by simp
  moreover have "(blit b (pos + 1) mid)[pos := r] = take pos b @ r # mid @ drop (pos + 1 + length mid) b"
    using assms by (simp add: blit_def take_Suc_conv_app_nth list_update_append)
  then have "take (Suc n) ((blit b (pos + 1) mid)[pos := r]) = take pos b @ r # mid"
    using assms mid by (simp add: Suc_diff_le)
  ultimately show ?thesis by (auto simp: mid_def)
qed

lemma sorted_insert_at:
  assumes "sorted (map k xs)" "\<forall>x\<in>set (take pos xs). k x \<le> k r" "\<forall>x\<in>set (drop pos xs). k r < k x"
  shows "sorted (map k (take pos xs @ r # drop pos xs))"
proof -
  have "sorted (map k (take pos xs @ drop pos xs))" using assms(1) by simp
  then show ?thesis unfolding map_append using assms(2,3) by (auto simp: sorted_append)
qed

text \<open>An accepted record goes to its place among the first \<open>n\<close>; the buffer has one more place.\<close>

lemma MemmoveHeap_insert:
  fixes r
  assumes "mm_inv mx s"
  defines "pos \<equiv> upper_bound (Compare mx) (take (nat (mm_cur_size s)) (mm_ordered_buffer s)) r"
  obtains b' where "shift_up pos (mm_max_size s - int pos) (mm_ordered_buffer s) = Inr b'"
    "length b' = length (mm_ordered_buffer s)"
    "sorted (map (key mx) (take (Suc (nat (mm_cur_size s))) (b'[pos := r])))"
    "mset (take (Suc (nat (mm_cur_size s))) (b'[pos := r])) = add_mset r (mm_recs s)"
proof -
  define n where "n = nat (mm_cur_size s)"
  define b where "b = mm_ordered_buffer s"
  define m where "m = mm_cap s"
  have n: "n \<le> m" "m < length b" "sorted (map (key mx) (take n b))" "mm_max_size s = int m"
    using assms(1) by (auto simp: mm_inv_def n_def b_def m_def mm_cap_def nat_le_iff)
  have pos: "pos \<le> n" "\<forall>x\<in>set (take pos (take n b)). key mx x \<le> key mx r" "\<forall>x\<in>set (drop pos (take n b)). key mx r < key mx x"
    using upper_bound_ok [OF n(3), of r] n(1,2) unfolding pos_def Compare_key n_def [symmetric] b_def [symmetric] by simp_all
  obtain b' where b': "shift_up pos (int m - int pos) b = Inr b'" "length b' = length b"
    "take (Suc m) (b'[pos := r]) = take pos b @ r # take (m - pos) (drop pos b)"
    using shift_insert [of pos m b r] pos(1) n(1,2) by auto
  have "take (Suc n) (b'[pos := r]) = take (Suc n) (take (Suc m) (b'[pos := r]))" using n(1) by (simp add: min_def)
  also have "\<dots> = take pos (take n b) @ r # drop pos (take n b)"
    unfolding b'(3) using pos(1) n(1,2) by (simp add: min_def Suc_diff_le drop_take)
  finally have tk: "take (Suc n) (b'[pos := r]) = take pos (take n b) @ r # drop pos (take n b)" .
  have "sorted (map (key mx) (take (Suc n) (b'[pos := r])))" unfolding tk using sorted_insert_at [OF n(3) pos(2,3)] .
  moreover have "mset (take (Suc n) (b'[pos := r])) = add_mset r (mm_recs s)"
  proof -
    have "mset (take pos (take n b)) + mset (drop pos (take n b)) = mset (take n b)" by (metis append_take_drop_id mset_append)
    then show ?thesis unfolding tk by (simp add: mm_recs_def n_def [symmetric] b_def [symmetric])
  qed
  ultimately show thesis using that b' n(4) unfolding n_def b_def by metis
qed

lemma MemmoveHeap_topk_push:
  assumes "mm_inv mx s"
  shows "\<exists>s'. MemmoveHeap_Push mx True r s = Inr s' \<and> mm_inv mx s' \<and> mm_cap s' = mm_cap s \<and>
    (if size (mm_recs s) < mm_cap s then mm_recs s' = add_mset r (mm_recs s)
     else \<exists>t. t \<in># add_mset r (mm_recs s) \<and> (\<forall>x\<in>#add_mset r (mm_recs s). key mx x \<le> key mx t) \<and>
            mm_recs s' = add_mset r (mm_recs s) - {#t#})"
proof -
  define n where "n = nat (mm_cur_size s)"
  define pos where "pos = upper_bound (Compare mx) (take n (mm_ordered_buffer s)) r"
  note inv = assms [unfolded mm_inv_def]
  have n: "mm_cur_size s = int n" "MemmoveHeap_Size s = n" "as_u64 (mm_max_size s) = mm_cap s" "size (mm_recs s) = n"
    "n \<le> mm_cap s" "mm_max_size s = int (mm_cap s)" "0 < mm_cap s" "mm_cap s < 2 ^ 62"
    using inv by (auto simp: n_def MemmoveHeap_Size_def mm_cap_def mm_recs_def)
  obtain b' where b': "shift_up pos (mm_max_size s - int pos) (mm_ordered_buffer s) = Inr b'"
    "length b' = length (mm_ordered_buffer s)" "sorted (map (key mx) (take (Suc n) (b'[pos := r])))"
    "mset (take (Suc n) (b'[pos := r])) = add_mset r (mm_recs s)"
    using MemmoveHeap_insert [OF assms, of r thesis] unfolding pos_def n_def by blast
  define s1 where "s1 = s\<lparr>mm_ordered_buffer := b'[pos := r], mm_cur_size := mm_cur_size s + 1\<rparr>"
  have s1: "mm_cur_size s1 = int (Suc n)" "mm_recs s1 = add_mset r (mm_recs s)" "MemmoveHeap_Size s1 = Suc n"
    using n b'(4) by (simp_all add: s1_def mm_recs_def MemmoveHeap_Size_def nat_add_distrib)
  have accept: "MemmoveHeap_Push mx True r s = Inr (if Suc n > mm_cap s then MemmoveHeap_Pop s1 else s1)"
    if "n < mm_cap s \<or> (\<exists>t. MemmoveHeap_Top s = Inr t \<and> (fst r < fst t) = mx)"
  proof -
    have ok: "\<not> (mm_cur_size s < 0 \<or> mm_cur_size s > int (length (mm_ordered_buffer s)))" using inv n by simp
    have test: "(if MemmoveHeap_Size s < as_u64 (mm_max_size s) then Inr True
        else bindR (MemmoveHeap_Top s) (\<lambda>t. Inr ((fst r < fst t) = mx))) = Inr True" using that n(2,3) by auto
    have m1: "mm_max_size s1 = mm_max_size s" by (simp add: s1_def)
    show ?thesis unfolding MemmoveHeap_Push_def test if_True bindR_simps Let_def n_def [symmetric] pos_def [symmetric]
        b'(1) s1_def [symmetric] s1(3) m1 unfolding n(3) using ok by simp
  qed
  show ?thesis
  proof (cases "n < mm_cap s")
    case True
    have f: "mm_max_size s1 = int (mm_cap s)" "mm_ordered_buffer s1 = b'[pos := r]"
      "length b' = Suc (mm_cap s)" "mm_cap s1 = mm_cap s" using n(6) inv b'(2) by (simp_all add: s1_def mm_cap_def)
    then have "mm_inv mx s1" using True n(7,8) b'(3) f(3) unfolding mm_inv_def s1(1) nat_int f(1,2,4) by simp
    then show ?thesis using True accept s1(2) n(4) by (simp add: s1_def mm_cap_def)
  next
    case False
    then have full: "n = mm_cap s" using n(5) by simp
    then have ne: "mm_recs s \<noteq> {#}" using n(4,7) by auto
    obtain t where t: "MemmoveHeap_Top s = Inr t" "t \<in># mm_recs s" "\<forall>x\<in>#mm_recs s. key mx x \<le> key mx t"
      using MemmoveHeap_top_ok [OF assms ne] by blast
    show ?thesis
    proof (cases "(fst r < fst t) = mx")
      case True
      define B where "B = b'[pos := r]"
      have lenB: "length B = Suc n" "length B = length (mm_ordered_buffer s)"
        using b'(2) inv full by (simp_all add: B_def)
      then have B: "take (Suc n) B = take n B @ [B ! n]" "length B = length (mm_ordered_buffer s)"
        using take_Suc_conv_app_nth [of n B] by simp_all
      have "sorted (map (key mx) (take n B @ [B ! n]))" "mset (take n B @ [B ! n]) = add_mset r (mm_recs s)"
        using b'(3,4) unfolding B_def [symmetric] B(1) .
      then have max: "\<forall>x\<in>#add_mset r (mm_recs s). key mx x \<le> key mx (B ! n)" "B ! n \<in># add_mset r (mm_recs s)"
        and sorted: "sorted (map (key mx) (take n B))" and rest: "mset (take n B) = add_mset r (mm_recs s) - {#B ! n#}"
        by (auto simp: sorted_append simp flip: set_mset_mset \<open>mset (take n B @ [B ! n]) = _\<close>)
      have p: "mm_cur_size (MemmoveHeap_Pop s1) = int n" "mm_ordered_buffer (MemmoveHeap_Pop s1) = B"
        "mm_max_size (MemmoveHeap_Pop s1) = mm_max_size s"
        using s1(1) by (simp_all add: MemmoveHeap_Pop_def s1_def B_def)
      have "MemmoveHeap_Push mx True r s = Inr (MemmoveHeap_Pop s1)" using accept True t(1) full by simp
      moreover have "mm_inv mx (MemmoveHeap_Pop s1)"
        using inv p sorted B(2) full n(6) unfolding mm_inv_def mm_cap_def by simp
      moreover have "mm_recs (MemmoveHeap_Pop s1) = add_mset r (mm_recs s) - {#B ! n#}" using p rest by (simp add: mm_recs_def)
      moreover have "mm_cap (MemmoveHeap_Pop s1) = mm_cap s" using p(3) by (simp add: mm_cap_def)
      ultimately show ?thesis using max False n(4) by metis
    next
      case reject: False
      then have "MemmoveHeap_Push mx True r s = Inr s" using t(1) n(2,3) full by (simp add: MemmoveHeap_Push_def)
      moreover have "key mx t \<le> key mx r" using reject by (auto simp: key_def)
      then have "\<forall>x\<in>#add_mset r (mm_recs s). key mx x \<le> key mx r" using t(3) by fastforce
      moreover have "mm_recs s = add_mset r (mm_recs s) - {#r#}" by simp
      ultimately show ?thesis using False n(4) assms by (metis union_single_eq_member)
    qed
  qed
qed

interpretation mm_topk: topk_heap MemmoveHeap_Top "\<lambda>s. Inr (MemmoveHeap_Pop s)" MemmoveHeap_Size mm_recs "mm_inv mx" "key mx"
  "MemmoveHeap_Push mx True" mm_cap for mx
proof (unfold_locales, goal_cases)
  case (1 s)
  then show ?case by (auto simp: MemmoveHeap_Size_def mm_recs_def mm_inv_def mm_cap_def)
next
  case (2 s)
  show ?case using MemmoveHeap_top_ok [OF 2] by metis
next
  case (3 s)
  then show ?case by (auto simp: mm_recs_def mm_inv_def mm_cap_def)
next
  case (4 s r)
  then show ?case by (rule MemmoveHeap_topk_push)
qed

text \<open>Whichever of the two \<open>MakeInstanceBySize\<close> chooses.\<close>

fun heap_recs :: "distance_heap \<Rightarrow> dist_record multiset" where
  "heap_recs (Memmove s) = mm_recs s"
| "heap_recs (Standard s) = sh_recs s"

fun heap_cap :: "distance_heap \<Rightarrow> nat" where
  "heap_cap (Memmove s) = mm_cap s"
| "heap_cap (Standard s) = sh_cap s"

fun heap_topk_inv :: "bool \<Rightarrow> distance_heap \<Rightarrow> bool" where
  "heap_topk_inv mx (Memmove s) = mm_inv mx s"
| "heap_topk_inv mx (Standard s) = sh_topk_inv mx s"

interpretation topk: topk_heap Heap_Top "Heap_Pop mx" Heap_Size heap_recs "heap_topk_inv mx" "key mx"
  "Heap_Push mx True" heap_cap for mx
proof (unfold_locales, goal_cases)
  case (1 s)
  then show ?case by (cases s) (simp_all add: mm_topk.size_ok std_topk.size_ok)
next
  case (2 s)
  then show ?case
  proof (cases s)
    case (Memmove m)
    then obtain r where "MemmoveHeap_Top m = Inr r" "r \<in># mm_recs m" "\<forall>x\<in>#mm_recs m. key mx x \<le> key mx r"
      "mm_inv mx (MemmoveHeap_Pop m)" "mm_recs (MemmoveHeap_Pop m) = mm_recs m - {#r#}"
      using MemmoveHeap_top_ok [of mx m] 2 by auto
    then show ?thesis using Memmove by (intro exI [of _ r] conjI exI [of _ "Memmove (MemmoveHeap_Pop m)"]) simp_all
  next
    case (Standard h)
    then obtain r h' where "StandardHeap_Top h = Inr r" "r \<in># sh_recs h" "\<forall>x\<in>#sh_recs h. key mx x \<le> key mx r"
      "StandardHeap_Pop mx h = Inr h'" "sh_topk_inv mx h'" "sh_recs h' = sh_recs h - {#r#}"
      using std_topk.top_ok [of mx h] 2 by auto
    then show ?thesis using Standard by (intro exI [of _ r] conjI exI [of _ "Standard h'"]) simp_all
  qed
next
  case (3 s)
  then show ?case by (cases s) (simp_all add: mm_topk.cap_ok std_topk.cap_ok)
next
  case (4 s r)
  then show ?case
  proof (cases s)
    case (Memmove m)
    then obtain m' where "MemmoveHeap_Push mx True r m = Inr m'" "mm_inv mx m'" "mm_cap m' = mm_cap m"
      "if size (mm_recs m) < mm_cap m then mm_recs m' = add_mset r (mm_recs m)
       else \<exists>t. t \<in># add_mset r (mm_recs m) \<and> (\<forall>x\<in>#add_mset r (mm_recs m). key mx x \<le> key mx t) \<and>
              mm_recs m' = add_mset r (mm_recs m) - {#t#}"
      using MemmoveHeap_topk_push [of mx m r] 4 by auto
    then show ?thesis using Memmove by (intro exI [of _ "Memmove m'"])
        (simp only: Heap_Push.simps bindR_simps comp_apply heap_recs.simps heap_cap.simps heap_topk_inv.simps simp_thms)
  next
    case (Standard h)
    then obtain h' where "StandardHeap_Push mx True r h = Inr h'" "sh_topk_inv mx h'" "sh_cap h' = sh_cap h"
      "if size (sh_recs h) < sh_cap h then sh_recs h' = add_mset r (sh_recs h)
       else \<exists>t. t \<in># add_mset r (sh_recs h) \<and> (\<forall>x\<in>#add_mset r (sh_recs h). key mx x \<le> key mx t) \<and>
              sh_recs h' = add_mset r (sh_recs h) - {#t#}"
      using StandardHeap_topk_push [of mx h r] 4 by auto
    then show ?thesis using Standard by (intro exI [of _ "Standard h'"])
        (simp only: Heap_Push.simps bindR_simps comp_apply heap_recs.simps heap_cap.simps heap_topk_inv.simps simp_thms)
  qed
qed

lemma MakeInstanceBySize_topk:
  assumes "0 < n" "n < 2 ^ 63"
  shows "heap_topk_inv mx (MakeInstanceBySize True n)" "heap_recs (MakeInstanceBySize True n) = {#}"
    "heap_cap (MakeInstanceBySize True n) = nat n"
  using assms by (auto simp: MakeInstanceBySize_def mm_inv_def MemmoveHeap_new_def sh_topk_inv_def sh_inv_def is_heap_def
      StandardHeap_new_def mm_recs_def sh_recs_def mm_cap_def sh_cap_def nat_add_distrib)

lemma Heap_data: "heap_topk_inv mx s \<Longrightarrow> Heap_Size s \<le> length (Heap_GetData s) \<and>
    mset (take (Heap_Size s) (Heap_GetData s)) = heap_recs s"
  by (cases s) (auto simp: mm_inv_def MemmoveHeap_Size_def mm_recs_def mm_cap_def StandardHeap_Size_def sh_recs_def)

text \<open>Merging heaps that hold the smallest records of two collections gives those of their union.\<close>

lemma Heap_Merge_ok:
  assumes "heap_topk_inv mx a" "heap_topk_inv mx b" "heap_cap a = n"
    and "keys (key mx) (heap_recs a) = take n (keys (key mx) A)" "keys (key mx) (heap_recs b) = take n (keys (key mx) B)"
  shows "\<exists>m. Heap_Merge mx True b a = Inr m \<and> heap_topk_inv mx m \<and> heap_cap m = n \<and>
    heap_recs m \<subseteq># heap_recs a + heap_recs b \<and> keys (key mx) (heap_recs m) = take n (keys (key mx) (A + B))"
proof -
  define zs where "zs = take (Heap_Size b) (Heap_GetData b)"
  have zs: "mset zs = heap_recs b" "Heap_Merge mx True b a = foldR (Heap_Push mx True) zs a"
    using Heap_data [OF assms(2)] by (simp_all add: zs_def Heap_Merge_def)
  have "take n (keys (key mx) (A + mset zs)) = take n (keys (key mx) (A + B))"
    by (rule keys_merge) (use zs(1) assms(5) in simp)
  then show ?thesis using topk.push_all [where mx = mx and B = A and rs = zs, OF assms(1)] assms(3,4) zs by auto
qed

text \<open>Taking everything off yields the records in descending order.\<close>

lemma Heap_drain_ok:
  assumes "heap_topk_inv mx s"
  shows "\<exists>out s'. heap_drain (Heap_Size s) Heap_Top (Heap_Pop mx) Heap_Size s = Inr (out, s') \<and> mset out = heap_recs s \<and>
    rev (map (key mx) out) = keys (key mx) (heap_recs s)"
proof -
  obtain out s' where out: "heap_drain (Heap_Size s) Heap_Top (Heap_Pop mx) Heap_Size s = Inr (out, s')"
    "mset out = heap_recs s" "sorted_wrt (\<lambda>x y. key mx x \<ge> key mx y) out"
    using topk.drain_ok [OF assms, of "Heap_Size s"] topk.size_ok [OF assms] by auto
  have "sorted (rev (map (key mx) out))" using out(3) by (simp add: sorted_wrt_rev sorted_wrt_map)
  then have "rev (map (key mx) out) = sort (map (key mx) out)"
    by (intro properties_for_sort [symmetric]) simp_all
  also have "\<dots> = keys (key mx) (heap_recs s)" using out(2) by (metis keys_mset)
  finally show ?thesis using out(1,2) by blast
qed

text \<open>Any records pushed into a fresh heap.\<close>

lemma Heap_push_all:
  assumes "0 < n" "n < 2 ^ 63"
  shows "\<exists>s. foldR (Heap_Push mx True) rs (MakeInstanceBySize True n) = Inr s \<and> heap_topk_inv mx s \<and> heap_cap s = nat n \<and>
    heap_recs s \<subseteq># mset rs \<and> keys (key mx) (heap_recs s) = take (nat n) (keys (key mx) (mset rs))"
proof -
  note new = MakeInstanceBySize_topk [OF assms]
  show ?thesis
    using topk.push_all [where mx = mx and B = "{#}" and rs = rs, OF new(1)] new(2,3) by (auto simp: keys_def)
qed

section \<open>Properties\<close>

text \<open>
  Claim C18. The bounded heaps select: after pushing any records into the heap \<open>MakeInstanceBySize\<close>
  gives for a capacity \<open>n\<close> (the ordered buffer below 10, the binary heap otherwise), taking records
  off until it is empty yields, largest distance first, exactly the \<open>n\<close> smallest distances of all
  records pushed, each with a record that was pushed. The same holds of the min-heap with the order
  reversed.
\<close>

theorem topk_heap_selects:
  assumes "0 < n" "n < 2 ^ 63"
  shows "\<exists>s out s'. foldR (Heap_Push mx True) rs (MakeInstanceBySize True n) = Inr s \<and>
    heap_drain (Heap_Size s) Heap_Top (Heap_Pop mx) Heap_Size s = Inr (out, s') \<and>
    rev (map (key mx) out) = take (nat n) (sort (map (key mx) rs)) \<and> mset out \<subseteq># mset rs"
proof -
  obtain s where s: "foldR (Heap_Push mx True) rs (MakeInstanceBySize True n) = Inr s" "heap_topk_inv mx s"
    "heap_recs s \<subseteq># mset rs" "keys (key mx) (heap_recs s) = take (nat n) (keys (key mx) (mset rs))"
    using Heap_push_all [OF assms, of mx rs] by blast
  then show ?thesis using Heap_drain_ok [OF s(2)] by (metis keys_mset)
qed

theorem topk_heap_selects_witness:
  "\<exists>s out s'. foldR (Heap_Push True True) [(5, 0), (3, 1), (9, 2), (1, 3)] (MakeInstanceBySize True 2) = Inr s \<and>
    heap_drain (Heap_Size s) Heap_Top (Heap_Pop True) Heap_Size s = Inr (out, s') \<and> map fst out = [3, 1]"
proof -
  let ?rs = "[(5, 0), (3, 1), (9, 2), (1, 3)] :: dist_record list"
  obtain s out s' where s: "foldR (Heap_Push True True) ?rs (MakeInstanceBySize True 2) = Inr s"
    "heap_drain (Heap_Size s) Heap_Top (Heap_Pop True) Heap_Size s = Inr (out, s')"
    "rev (map (key True) out) = take (nat 2) (sort (map (key True) ?rs))"
    using topk_heap_selects [of 2 True ?rs] by auto
  have "map (key True) out = [3, 1]" using s(3) by (simp add: key_def numeral_2_eq_2 rev_swap)
  moreover have "key True = fst" by (simp add: key_def fun_eq_iff)
  ultimately show ?thesis using s(1,2) by auto
qed

text \<open>
  The results of a parallel search merged into one heap are those of a single one: pushing
  one part of the records into a heap, another part into a second heap of the same capacity and
  merging the second into the first leaves the distances that a single heap keeps of all of them.
\<close>

lemma Heap_Merge_same_keys:
  assumes "0 < n" "n < 2 ^ 63"
  shows "\<exists>a b m s. foldR (Heap_Push mx True) xs (MakeInstanceBySize True n) = Inr a \<and>
    foldR (Heap_Push mx True) ys (MakeInstanceBySize True n) = Inr b \<and>
    Heap_Merge mx True b a = Inr m \<and>
    foldR (Heap_Push mx True) (xs @ ys) (MakeInstanceBySize True n) = Inr s \<and>
    keys (key mx) (heap_recs m) = keys (key mx) (heap_recs s)"
proof -
  let ?s = "MakeInstanceBySize True n"
  obtain a b s where a: "foldR (Heap_Push mx True) xs ?s = Inr a" "heap_topk_inv mx a" "heap_cap a = nat n"
    "keys (key mx) (heap_recs a) = take (nat n) (keys (key mx) (mset xs))"
    and b: "foldR (Heap_Push mx True) ys ?s = Inr b" "heap_topk_inv mx b"
    "keys (key mx) (heap_recs b) = take (nat n) (keys (key mx) (mset ys))"
    and s: "foldR (Heap_Push mx True) (xs @ ys) ?s = Inr s"
    "keys (key mx) (heap_recs s) = take (nat n) (keys (key mx) (mset (xs @ ys)))"
    using Heap_push_all [OF assms, of mx xs] Heap_push_all [OF assms, of mx ys] Heap_push_all [OF assms, of mx "xs @ ys"] by blast
  then show ?thesis using Heap_Merge_ok [OF a(2) b(2) a(3,4) b(3)] by auto
qed

end
