(* ===== verification/Searcher.thy ===== *)
theory Searcher
  imports SparseGraph Heaps
begin

text \<open>
  \<open>src/utils/visited_list.{h,cpp}\<close> and \<open>src/impl/searcher/basic_searcher.cpp\<close>: the best-first search of a
  proximity graph, for nearest neighbours and for a range, with filters, duplicates and the
  collection of candidates by lower bounds. Graph, code store, filters, skip strategy and timer are
  used through their virtual methods, which are the fields of \<open>searcher\<close>. Locks, prefetching and the
  recording of the reasoning have no effect on the result and are left out.

  The search is proved total on every well-formed graph, its result to be the nearest of the nodes it
  visits, and exact when the search width covers the reachable nodes.
\<close>

section \<open>VisitedList\<close>

record visited_list =
  vl_list :: "nat list"
  vl_tag :: nat
  vl_max_size :: nat

definition VisitedList_new :: "nat \<Rightarrow> visited_list" where
  "VisitedList_new max_size = \<lparr>vl_list = replicate max_size 0, vl_tag = 1, vl_max_size = max_size\<rparr>"

definition VisitedList_Set :: "inner_id \<Rightarrow> visited_list \<Rightarrow> visited_list result" where
  "VisitedList_Set i vl = (if i < length (vl_list vl) then Inr (vl\<lparr>vl_list := (vl_list vl)[i := vl_tag vl]\<rparr>) else Inl UB)"

definition VisitedList_Get :: "inner_id \<Rightarrow> visited_list \<Rightarrow> bool result" where
  "VisitedList_Get i vl = (if i < length (vl_list vl) then Inr (vl_list vl ! i = vl_tag vl) else Inl UB)"

definition VisitedList_Reset :: "visited_list \<Rightarrow> visited_list" where
  "VisitedList_Reset vl =
     (let vl = (if vl_tag vl = 65535 then vl\<lparr>vl_list := replicate (vl_max_size vl) 0, vl_tag := 0\<rparr> else vl)
      in vl\<lparr>vl_tag := u16 (vl_tag vl + 1)\<rparr>)"

section \<open>Parameters of a search\<close>

datatype inner_search_mode = KNN_SEARCH | RANGE_SEARCH

record inner_search_param =
  isp_topk :: int
  isp_radius :: dist
  isp_ep :: inner_id
  isp_ef :: nat
  isp_hops_limit :: nat
  isp_is_inner_id_allowed :: "(inner_id \<Rightarrow> bool) option"
  isp_search_mode :: inner_search_mode
  isp_range_search_limit_size :: int
  isp_enable_rabitq_one_bit_search :: bool
  isp_duplicate_id :: int
  isp_duplicate_query_id :: inner_id
  isp_find_duplicate :: bool
  isp_duplicate_distance_threshold :: dist
  isp_consider_duplicate :: bool

text \<open>
  The objects a search calls. \<open>sr_radius_bound\<close> is the float sum \<open>radius + THRESHOLD_ERROR\<close>, \<open>sr_attr_ft\<close>
  the filter of the attribute executor.
\<close>

record 'k searcher =
  sr_GetNeighbors :: "inner_id \<Rightarrow> inner_id list \<Rightarrow> inner_id list result"
  sr_GetDuplicateIds :: "inner_id \<Rightarrow> inner_id list result"
  sr_MaximumDegree :: nat
  sr_Query :: "inner_id \<Rightarrow> dist result"
  sr_QueryWithDistanceLowerBound :: "inner_id \<Rightarrow> (dist \<times> dist) result"
  sr_TotalCount :: nat
  sr_CompareVectors :: "inner_id \<Rightarrow> inner_id \<Rightarrow> bool result"
  sr_ShouldSkipFilterCheck :: "'k \<Rightarrow> bool \<times> 'k"
  sr_attr_ft :: "(inner_id \<Rightarrow> bool) option"
  sr_CheckOvertime :: "nat \<Rightarrow> bool"
  sr_radius_bound :: "dist \<Rightarrow> dist"

definition check_func :: "'k searcher \<Rightarrow> inner_search_param \<Rightarrow> inner_id \<Rightarrow> bool" where
  "check_func sr p i \<longleftrightarrow>
     (case isp_is_inner_id_allowed p of None \<Rightarrow> True | Some f \<Rightarrow> f i) \<and> (case sr_attr_ft sr of None \<Rightarrow> True | Some f \<Rightarrow> f i)"

text \<open>The distance of one vector with its lower bound, which is only read where it was asked for.\<close>

definition query_one :: "'k searcher \<Rightarrow> inner_search_param \<Rightarrow> inner_id \<Rightarrow> (dist \<times> dist) result" where
  "query_one sr p i =
     (if isp_enable_rabitq_one_bit_search p then sr_QueryWithDistanceLowerBound sr i
      else bindR (sr_Query sr i) (\<lambda>dist. Inr (dist, 0)))"

fun query_ids :: "'k searcher \<Rightarrow> inner_search_param \<Rightarrow> inner_id list \<Rightarrow> (inner_id \<times> dist \<times> dist) list result" where
  "query_ids sr p [] = Inr []"
| "query_ids sr p (i # ids) =
     bindR (query_one sr p i) (\<lambda>dl. bindR (query_ids sr p ids) (\<lambda>rest. Inr ((i, dl) # rest)))"

section \<open>visit\<close>

text \<open>
  The unvisited neighbours. The first one found is taken whatever the filter says. The buffer for them
  has the length of the maximum degree; the ranks, which are written beside them, are never read.
\<close>

fun visit_loop ::
  "'k searcher \<Rightarrow> (inner_id \<Rightarrow> bool) option \<Rightarrow> inner_id list \<Rightarrow> inner_id list \<Rightarrow> 'k \<Rightarrow> visited_list \<Rightarrow> (inner_id list \<times> 'k \<times> visited_list) result" where
  "visit_loop sr flt [] to_be_visited_id skip vl = Inr (to_be_visited_id, skip, vl)"
| "visit_loop sr flt (n # neighbors) to_be_visited_id skip vl =
     bindR (VisitedList_Get n vl) (\<lambda>seen.
       if seen then visit_loop sr flt neighbors to_be_visited_id skip vl
       else
         let (takes, skip) =
               (case flt of
                  None \<Rightarrow> (True, skip)
                | Some f \<Rightarrow>
                    if to_be_visited_id = [] then (True, skip)
                    else (let (skips, skip) = sr_ShouldSkipFilterCheck sr skip in (skips \<or> f n, skip)))
         in if takes \<and> length to_be_visited_id \<ge> sr_MaximumDegree sr then Inl UB
            else bindR (VisitedList_Set n vl) (\<lambda>vl.
                   visit_loop sr flt neighbors (if takes then to_be_visited_id @ [n] else to_be_visited_id) skip vl))"

section \<open>search_impl\<close>

record 'k search_state =
  ss_top_candidates :: standard_heap
  ss_candidate_set :: standard_heap
  ss_lower_bound :: dist
  ss_hops :: nat
  ss_dist_cmp :: nat
  ss_neighbors :: "inner_id list"
  ss_skip_strategy :: 'k
  ss_vl :: visited_list
  ss_rabitq_candidates :: "dist_record list"

text \<open>The float maximum as an ordinal.\<close>

definition float_max :: dist where
  "float_max = 0x7F7FFFFF"

abbreviation mheap_push :: "dist_record \<Rightarrow> standard_heap \<Rightarrow> standard_heap result" where
  "mheap_push \<equiv> StandardHeap_Push True False"

abbreviation mheap_pop :: "standard_heap \<Rightarrow> standard_heap result" where
  "mheap_pop \<equiv> StandardHeap_Pop True"

text \<open>The candidates of one visited node: the node and, when asked for, its duplicates.\<close>

definition push_allowed :: "'k searcher \<Rightarrow> inner_search_param \<Rightarrow> dist \<Rightarrow> inner_id \<Rightarrow> standard_heap \<Rightarrow> standard_heap result" where
  "push_allowed sr p dist item h = (if check_func sr p item then mheap_push (dist, item) h else Inr h)"

definition push_with_duplicates :: "'k searcher \<Rightarrow> inner_search_param \<Rightarrow> dist \<Rightarrow> inner_id \<Rightarrow> standard_heap \<Rightarrow> standard_heap result" where
  "push_with_duplicates sr p dist cur_id h =
     bindR (push_allowed sr p dist cur_id h) (\<lambda>h.
       if isp_consider_duplicate p
       then bindR (sr_GetDuplicateIds sr cur_id) (\<lambda>ids. foldR (push_allowed sr p dist) ids h)
       else Inr h)"

text \<open>The loop body over the visited nodes.\<close>

definition search_one ::
  "'k searcher \<Rightarrow> inner_search_param \<Rightarrow> bool \<Rightarrow> inner_id \<times> dist \<times> dist \<Rightarrow> 'k search_state \<Rightarrow> 'k search_state result" where
  "search_one sr p collect_rabitq_lower_bound =
     (\<lambda>(cur_id, dist, lower_bound_dist) s.
        let s = (if isp_search_mode p = KNN_SEARCH \<and> collect_rabitq_lower_bound \<and> lower_bound_dist < ss_lower_bound s \<and> check_func sr p cur_id
                 then s\<lparr>ss_rabitq_candidates := ss_rabitq_candidates s @ [(lower_bound_dist, cur_id)]\<rparr> else s)
        in if StandardHeap_Size (ss_top_candidates s) < isp_ef p \<or> ss_lower_bound s > dist \<or>
              (isp_search_mode p = RANGE_SEARCH \<and> dist \<le> isp_radius p)
           then bindR (mheap_push (- dist, cur_id) (ss_candidate_set s)) (\<lambda>candidate_set.
                bindR (push_with_duplicates sr p dist cur_id (ss_top_candidates s)) (\<lambda>top_candidates.
                bindR (if isp_search_mode p = KNN_SEARCH \<and> StandardHeap_Size top_candidates > isp_ef p
                       then mheap_pop top_candidates else Inr top_candidates) (\<lambda>top_candidates.
                bindR (if StandardHeap_Size top_candidates \<noteq> 0
                       then bindR (StandardHeap_Top top_candidates) (\<lambda>r. Inr (fst r)) else Inr (ss_lower_bound s)) (\<lambda>lower_bound.
                  Inr (s\<lparr>ss_candidate_set := candidate_set, ss_top_candidates := top_candidates, ss_lower_bound := lower_bound\<rparr>)))))
           else Inr s)"

text \<open>One round: the node taken from the candidates is expanded.\<close>

definition search_expand ::
  "'k searcher \<Rightarrow> inner_search_param \<Rightarrow> bool \<Rightarrow> inner_id \<Rightarrow> 'k search_state \<Rightarrow> 'k search_state result" where
  "search_expand sr p collects current s =
     bindR (sr_GetNeighbors sr current (ss_neighbors s)) (\<lambda>neighbors.
     bindR (visit_loop sr (isp_is_inner_id_allowed p) neighbors [] (ss_skip_strategy s) (ss_vl s)) (\<lambda>(to_be_visited_id, skip, vl).
     let collect_rabitq_lower_bound =
           (isp_enable_rabitq_one_bit_search p \<and> StandardHeap_Size (ss_top_candidates s) = isp_ef p \<and> collects)
     in bindR (query_ids sr p to_be_visited_id) (\<lambda>line_dists.
          foldR (search_one sr p collect_rabitq_lower_bound) line_dists
            (s\<lparr>ss_neighbors := neighbors, ss_skip_strategy := skip, ss_vl := vl,
               ss_dist_cmp := u32 (ss_dist_cmp s + length to_be_visited_id)\<rparr>))))"

text \<open>The main loop; the first argument bounds the rounds.\<close>

fun search_loop :: "nat \<Rightarrow> 'k searcher \<Rightarrow> inner_search_param \<Rightarrow> bool \<Rightarrow> 'k search_state \<Rightarrow> 'k search_state result" where
  "search_loop 0 sr p collects s = (if StandardHeap_Size (ss_candidate_set s) = 0 then Inr s else Inl Diverges)"
| "search_loop (Suc n) sr p collects s =
     (if StandardHeap_Size (ss_candidate_set s) = 0 then Inr s
      else
        let s = s\<lparr>ss_hops := ss_hops s + 1\<rparr>
        in if ss_hops s \<ge> isp_hops_limit p then Inr s
           else bindR (StandardHeap_Top (ss_candidate_set s)) (\<lambda>current_node_pair.
             if sr_CheckOvertime sr (ss_hops s) then Inr s
             else if isp_search_mode p = KNN_SEARCH \<and> - fst current_node_pair > ss_lower_bound s \<and>
                     StandardHeap_Size (ss_top_candidates s) = isp_ef p
             then Inr s
             else bindR (mheap_pop (ss_candidate_set s)) (\<lambda>candidate_set.
                  bindR (search_expand sr p collects (snd current_node_pair) (s\<lparr>ss_candidate_set := candidate_set\<rparr>))
                    (search_loop n sr p collects))))"

text \<open>\<open>while (Size() > n) Pop()\<close> and \<open>while (not Empty() && Top().first > bound) Pop()\<close>.\<close>

fun pop_to_size :: "nat \<Rightarrow> nat \<Rightarrow> standard_heap \<Rightarrow> standard_heap result" where
  "pop_to_size 0 n h = Inr h"
| "pop_to_size (Suc fuel) n h = (if StandardHeap_Size h > n then bindR (mheap_pop h) (pop_to_size fuel n) else Inr h)"

fun pop_above :: "nat \<Rightarrow> dist \<Rightarrow> standard_heap \<Rightarrow> standard_heap result" where
  "pop_above 0 bound h = Inr h"
| "pop_above (Suc fuel) bound h =
     (if StandardHeap_Size h = 0 then Inr h
      else bindR (StandardHeap_Top h) (\<lambda>r. if fst r > bound then bindR (mheap_pop h) (pop_above fuel bound) else Inr h))"

text \<open>The first round: the entry point.\<close>

definition search_start :: "'k searcher \<Rightarrow> inner_search_param \<Rightarrow> 'k \<Rightarrow> visited_list \<Rightarrow> 'k search_state result" where
  "search_start sr p skip vl =
     bindR (query_one sr p (isp_ep p)) (\<lambda>(dist, _).
     bindR (push_allowed sr p dist (isp_ep p) (StandardHeap_new (- 1))) (\<lambda>top_candidates.
     bindR (if isp_search_mode p = RANGE_SEARCH \<and> dist > isp_radius p \<and> StandardHeap_Size top_candidates \<noteq> 0
            then mheap_pop top_candidates else Inr top_candidates) (\<lambda>popped.
     bindR (mheap_push (- dist, isp_ep p) (StandardHeap_new (- 1))) (\<lambda>candidate_set.
     bindR (VisitedList_Set (isp_ep p) vl) (\<lambda>vl.
       Inr \<lparr>ss_top_candidates = popped, ss_candidate_set = candidate_set,
            ss_lower_bound = (if check_func sr p (isp_ep p) then dist else float_max),
            ss_hops = 0, ss_dist_cmp = 1, ss_neighbors = replicate (sr_MaximumDegree sr) 0,
            ss_skip_strategy = skip, ss_vl = vl, ss_rabitq_candidates = []\<rparr>)))))"

definition search_finish :: "'k searcher \<Rightarrow> inner_search_param \<Rightarrow> standard_heap \<Rightarrow> standard_heap result" where
  "search_finish sr p h =
     (if isp_search_mode p = KNN_SEARCH then pop_to_size (StandardHeap_Size h) (as_u64 (isp_topk p)) h
      else bindR (if isp_range_search_limit_size p > 0
                  then pop_to_size (StandardHeap_Size h) (nat (isp_range_search_limit_size p)) h else Inr h) (\<lambda>h.
           pop_above (StandardHeap_Size h) (sr_radius_bound sr (isp_radius p)) h))"

text \<open>The duplicate of the query vector: the first record with the least distance, if it is close enough or equal.\<close>

definition first_min :: "dist_record \<Rightarrow> dist_record list \<Rightarrow> dist_record" where
  "first_min r rs = fold (\<lambda>x best. if fst x < fst best then x else best) rs r"

definition find_duplicate_id :: "'k searcher \<Rightarrow> inner_search_param \<Rightarrow> standard_heap \<Rightarrow> int result" where
  "find_duplicate_id sr p h =
     (if \<not> isp_find_duplicate p then Inr (isp_duplicate_id p)
      else case sh_queue h of
        [] \<Rightarrow> Inr (isp_duplicate_id p)
      | r # rs \<Rightarrow>
          let (min_distance, min_index) = first_min r rs
          in if isp_duplicate_distance_threshold p > 0
             then Inr (if min_distance \<le> isp_duplicate_distance_threshold p then int min_index else isp_duplicate_id p)
             else if isp_duplicate_query_id p < sr_TotalCount sr
             then bindR (sr_CompareVectors sr (isp_duplicate_query_id p) min_index) (\<lambda>same.
                    Inr (if same then int min_index else isp_duplicate_id p))
             else Inr (isp_duplicate_id p))"

text \<open>
  The heap with the result, the duplicate of the query and the last state. Every round takes a node
  that was marked as visited when it was pushed, so the length of the visited list bounds the rounds.
\<close>

definition BasicSearcher_search_impl ::
  "'k searcher \<Rightarrow> inner_search_param \<Rightarrow> bool \<Rightarrow> 'k \<Rightarrow> visited_list \<Rightarrow> (standard_heap \<times> int \<times> 'k search_state) result" where
  "BasicSearcher_search_impl sr p collects skip vl =
     bindR (search_start sr p skip vl) (\<lambda>s.
     bindR (search_loop (vl_max_size vl) sr p collects s) (\<lambda>s.
     bindR (search_finish sr p (ss_top_candidates s)) (\<lambda>top_candidates.
     bindR (find_duplicate_id sr p top_candidates) (\<lambda>dup. Inr (top_candidates, dup, s)))))"

section \<open>The visited list is a set\<close>

definition vl_inv :: "visited_list \<Rightarrow> bool" where
  "vl_inv vl \<longleftrightarrow> length (vl_list vl) = vl_max_size vl \<and> 1 \<le> vl_tag vl \<and> vl_tag vl \<le> 65535 \<and> (\<forall>x\<in>set (vl_list vl). x \<le> vl_tag vl)"

definition vl_set :: "visited_list \<Rightarrow> inner_id set" where
  "vl_set vl = {i. i < vl_max_size vl \<and> vl_list vl ! i = vl_tag vl}"

lemma VisitedList_new_ok: "vl_inv (VisitedList_new n)" "vl_set (VisitedList_new n) = {}" "vl_max_size (VisitedList_new n) = n"
  by (auto simp: VisitedList_new_def vl_inv_def vl_set_def)

lemma VisitedList_Set_ok:
  assumes "vl_inv vl" "i < vl_max_size vl"
  shows "\<exists>vl'. VisitedList_Set i vl = Inr vl' \<and> vl_inv vl' \<and> vl_set vl' = insert i (vl_set vl) \<and> vl_max_size vl' = vl_max_size vl"
  using assms by (auto simp: VisitedList_Set_def vl_inv_def vl_set_def nth_list_update set_update_subset_insert [THEN subsetD]
      dest!: set_update_subset_insert [THEN subsetD])

lemma VisitedList_Get_ok: "vl_inv vl \<Longrightarrow> i < vl_max_size vl \<Longrightarrow> VisitedList_Get i vl = Inr (i \<in> vl_set vl)"
  by (simp add: VisitedList_Get_def vl_inv_def vl_set_def)

lemma VisitedList_Reset_ok:
  assumes "vl_inv vl"
  shows "vl_inv (VisitedList_Reset vl)" "vl_set (VisitedList_Reset vl) = {}" "vl_max_size (VisitedList_Reset vl) = vl_max_size vl"
proof -
  show "vl_inv (VisitedList_Reset vl)" using assms by (auto simp: vl_inv_def VisitedList_Reset_def Let_def le_Suc_eq)
  have "vl_list vl ! i \<noteq> Suc (vl_tag vl)" if "i < length (vl_list vl)" for i
    using assms nth_mem [OF that] by (auto simp: vl_inv_def)
  then show "vl_set (VisitedList_Reset vl) = {}" using assms by (auto simp: vl_inv_def vl_set_def VisitedList_Reset_def Let_def)
  show "vl_max_size (VisitedList_Reset vl) = vl_max_size vl" by (simp add: VisitedList_Reset_def Let_def)
qed

section \<open>Visiting the neighbours of a node\<close>

lemma visit_loop_ok:
  assumes "vl_inv vl" "set ns \<subseteq> {..<vl_max_size vl}" "length acc + length ns \<le> sr_MaximumDegree sr"
  shows "\<exists>ids skip' vl'. visit_loop sr flt ns acc skip vl = Inr (acc @ ids, skip', vl') \<and> vl_inv vl' \<and>
    vl_set vl' = vl_set vl \<union> set ns \<and> vl_max_size vl' = vl_max_size vl \<and> distinct ids \<and> set ids \<subseteq> set ns - vl_set vl \<and>
    (\<forall>i\<in>set ns - vl_set vl - set ids. \<exists>f. flt = Some f \<and> \<not> f i)"
  using assms
proof (induction ns arbitrary: acc skip vl)
  case (Cons n ns)
  have get: "VisitedList_Get n vl = Inr (n \<in> vl_set vl)" using VisitedList_Get_ok Cons.prems by simp
  show ?case
  proof (cases "n \<in> vl_set vl")
    case True
    have "set ns \<subseteq> {..<vl_max_size vl}" "length acc + length ns \<le> sr_MaximumDegree sr" using Cons.prems by auto
    from Cons.IH [OF Cons.prems(1) this, of skip] show ?thesis using True get by (auto simp: insert_absorb)
  next
    case False
    obtain takes skip1 where t: "(case flt of None \<Rightarrow> (True, skip) | Some f \<Rightarrow> if acc = [] then (True, skip)
        else (let (skips, skip) = sr_ShouldSkipFilterCheck sr skip in (skips \<or> f n, skip))) = (takes, skip1)" by fastforce
    have rej: "\<exists>f. flt = Some f \<and> \<not> f n" if "\<not> takes" using t that by (auto split: option.splits if_splits prod.splits)
    obtain vl1 where vl1: "VisitedList_Set n vl = Inr vl1" "vl_inv vl1" "vl_set vl1 = insert n (vl_set vl)" "vl_max_size vl1 = vl_max_size vl"
      using VisitedList_Set_ok [OF Cons.prems(1), of n] Cons.prems(2) by auto
    let ?acc = "if takes then acc @ [n] else acc"
    have "set ns \<subseteq> {..<vl_max_size vl1}" "length ?acc + length ns \<le> sr_MaximumDegree sr" using Cons.prems vl1(4) by auto
    from Cons.IH [OF vl1(2) this, of skip1] obtain ids skip' vl' where
      ih: "visit_loop sr flt ns ?acc skip1 vl1 = Inr (?acc @ ids, skip', vl')" "vl_inv vl'" "vl_set vl' = vl_set vl1 \<union> set ns"
        "vl_max_size vl' = vl_max_size vl1" "distinct ids" "set ids \<subseteq> set ns - vl_set vl1"
        "\<forall>i\<in>set ns - vl_set vl1 - set ids. \<exists>f. flt = Some f \<and> \<not> f i" by blast
    let ?ids = "if takes then n # ids else ids"
    have "visit_loop sr flt (n # ns) acc skip vl = Inr (acc @ ?ids, skip', vl')"
      using get False t vl1(1) ih(1) Cons.prems(3) by (simp add: Let_def split: if_splits)
    moreover have "distinct ?ids" "set ?ids \<subseteq> set (n # ns) - vl_set vl" using ih(5,6) vl1(3) False by auto
    moreover have "\<forall>i\<in>set (n # ns) - vl_set vl - set ?ids. \<exists>f. flt = Some f \<and> \<not> f i" using ih(7) vl1(3) rej by auto
    ultimately show ?thesis using ih(2-4) vl1(3,4) by (intro exI [of _ ?ids] exI [of _ skip'] exI [of _ vl']) auto
  qed
qed simp

lemma query_ids_ok:
  assumes "\<forall>i\<in>set ids. query_one sr p i = Inr (d i, l i)"
  shows "query_ids sr p ids = Inr (map (\<lambda>i. (i, d i, l i)) ids)"
  using assms by (induction ids) auto

section \<open>The nearest of the visited nodes\<close>

text \<open>The records of the allowed nodes of a set.\<close>

definition items :: "(inner_id \<Rightarrow> bool) \<Rightarrow> (inner_id \<Rightarrow> dist) \<Rightarrow> inner_id set \<Rightarrow> dist_record multiset" where
  "items ok d V = image_mset (\<lambda>i. (d i, i)) (mset_set {i \<in> V. ok i})"

lemma items_empty [simp]: "items ok d {} = {#}"
  by (simp add: items_def)

lemma items_insert:
  assumes "finite V" "i \<notin> V"
  shows "items ok d (insert i V) = (if ok i then add_mset (d i, i) (items ok d V) else items ok d V)"
proof -
  have "{j \<in> insert i V. ok j} = (if ok i then insert i {j \<in> V. ok j} else {j \<in> V. ok j})" by auto
  then show ?thesis using assms by (simp add: items_def)
qed

lemma items_cong: "{i \<in> V. ok i} = {i \<in> W. ok i} \<Longrightarrow> items ok d V = items ok d W"
  by (simp add: items_def)

lemma size_items: "size (items ok d V) = card {i \<in> V. ok i}"
  by (simp add: items_def)

lemma set_items: "finite V \<Longrightarrow> x \<in># items ok d V \<longleftrightarrow> snd x \<in> V \<and> ok (snd x) \<and> fst x = d (snd x)"
  by (cases x) (auto simp: items_def)

text \<open>At least \<open>ef\<close> allowed nodes of \<open>V\<close> are not farther than \<open>v\<close>.\<close>

definition crowded :: "nat \<Rightarrow> (inner_id \<Rightarrow> bool) \<Rightarrow> (inner_id \<Rightarrow> dist) \<Rightarrow> inner_id set \<Rightarrow> inner_id \<Rightarrow> bool" where
  "crowded ef ok d V v \<longleftrightarrow> ef \<le> card {u \<in> V. ok u \<and> d u \<le> d v}"

lemma crowded_mono: "crowded ef ok d V v \<Longrightarrow> V \<subseteq> W \<Longrightarrow> finite W \<Longrightarrow> crowded ef ok d W v"
  unfolding crowded_def by (erule order_trans) (rule card_mono, auto)

lemma crowded_size: "crowded ef ok d V v \<Longrightarrow> finite V \<Longrightarrow> ef \<le> size (items ok d V)"
  unfolding crowded_def size_items by (erule order_trans) (rule card_mono, auto)

lemma crowded_cong:
  assumes "{i \<in> V. ok i} = {i \<in> W. ok i}"
  shows "crowded ef ok d V v = crowded ef ok d W v"
proof -
  have "{u \<in> X. ok u \<and> d u \<le> d v} = {u \<in> {i \<in> X. ok i}. d u \<le> d v}" for X by auto
  then show ?thesis using assms unfolding crowded_def by metis
qed

lemma items_full:
  assumes "V \<subseteq> R" "finite R" "size (items ok d R) \<le> size (items ok d V)"
  shows "items ok d V = items ok d R"
proof -
  have "{i \<in> V. ok i} = {i \<in> R. ok i}" using assms unfolding size_items by (intro card_seteq) auto
  then show ?thesis by (rule items_cong)
qed

text \<open>
  The heap of the best candidates among the records \<open>Rs\<close>: a part of them with the \<open>ef\<close> least
  distances, and the lower bound is its greatest distance.
\<close>

definition top_inv :: "nat \<Rightarrow> standard_heap \<Rightarrow> dist \<Rightarrow> dist_record multiset \<Rightarrow> bool" where
  "top_inv ef h lb Rs \<longleftrightarrow> sh_inv True h \<and> sh_recs h \<subseteq># Rs \<and> keys fst (sh_recs h) = take ef (keys fst Rs) \<and>
     (sh_recs h \<noteq> {#} \<longrightarrow> lb \<in> fst ` set_mset (sh_recs h) \<and> (\<forall>x\<in>#sh_recs h. fst x \<le> lb))"

lemma key_True: "key True = fst"
  by (auto simp: key_def)

lemma top_inv_size: "top_inv ef h lb Rs \<Longrightarrow> StandardHeap_Size h = min ef (size Rs)"
proof -
  assume a: "top_inv ef h lb Rs"
  then have "length (keys fst (sh_recs h)) = length (take ef (keys fst Rs))" by (simp only: top_inv_def)
  then show ?thesis using std.size_ok [of True h] a by (simp add: top_inv_def min.commute)
qed

text \<open>A full heap crowds out what is not nearer than its bound.\<close>

lemma top_inv_crowded:
  assumes "top_inv ef h lb (items ok d V)" "ef \<le> StandardHeap_Size h" "lb \<le> d v" "finite V"
  shows "crowded ef ok d V v"
proof -
  let ?near = "\<lambda>r. fst r \<le> d v"
  have h: "sh_inv True h" "sh_recs h \<subseteq># items ok d V" "\<forall>x\<in>#sh_recs h. fst x \<le> lb" using assms(1) by (auto simp: top_inv_def)
  have "filter_mset ?near (sh_recs h) = sh_recs h" unfolding filter_mset_eq_conv using h(3) assms(3) by force
  then have "sh_recs h \<subseteq># filter_mset ?near (items ok d V)" using multiset_filter_mono [OF h(2)] by metis
  moreover have "filter_mset ?near (items ok d V) = items (\<lambda>u. ok u \<and> d u \<le> d v) d V"
    by (simp add: items_def filter_mset_image_mset filter_mset_mset_set assms(4) conj_ac)
  ultimately have "size (sh_recs h) \<le> card {u \<in> V. ok u \<and> d u \<le> d v}" using size_mset_mono size_items by metis
  then show ?thesis using std.size_ok [OF h(1)] assms(2) by (simp add: crowded_def)
qed

text \<open>A record that is not nearer than a full heap changes nothing.\<close>

lemma top_inv_skip:
  assumes "top_inv ef h lb Rs" "ef \<le> StandardHeap_Size h" "lb \<le> fst r"
  shows "top_inv ef h lb (add_mset r Rs)"
proof -
  let ?K = "keys fst (sh_recs h)"
  have len: "length ?K = ef" using top_inv_size [OF assms(1)] assms(1,2) std.size_ok [of True h] by (simp add: top_inv_def)
  have "\<forall>y\<in>set ?K. y \<le> fst r"
  proof
    fix y assume "y \<in> set ?K"
    then have "y \<in> fst ` set_mset (sh_recs h)" by (metis keys_props(3) set_image_mset set_mset_mset)
    then show "y \<le> fst r" using assms(1,3) by (force simp: top_inv_def)
  qed
  then have "insort (fst r) ?K = ?K @ [fst r]" by (intro insort_last) auto
  then have "take ef (insort (fst r) (take ef (keys fst Rs))) = ?K" using assms(1) len by (simp add: top_inv_def)
  then have "?K = take ef (keys fst (add_mset r Rs))" by (simp add: take_insort keys_add)
  then show ?thesis using assms(1) by (auto simp: top_inv_def intro: subset_mset.order_trans)
qed

text \<open>Pushing a record, with the farthest one dropped when there are too many.\<close>

definition push_bounded :: "nat \<Rightarrow> dist_record \<Rightarrow> standard_heap \<Rightarrow> standard_heap result" where
  "push_bounded ef r h = bindR (mheap_push r h) (\<lambda>h. if StandardHeap_Size h > ef then mheap_pop h else Inr h)"

definition bound_of :: "dist \<Rightarrow> standard_heap \<Rightarrow> dist result" where
  "bound_of lb h = (if StandardHeap_Size h \<noteq> 0 then bindR (StandardHeap_Top h) (\<lambda>r. Inr (fst r)) else Inr lb)"

lemma bound_of_ok:
  assumes "sh_inv True h"
  shows "\<exists>b. bound_of lb h = Inr b \<and> (sh_recs h = {#} \<longrightarrow> b = lb) \<and>
    (sh_recs h \<noteq> {#} \<longrightarrow> b \<in> fst ` set_mset (sh_recs h) \<and> (\<forall>x\<in>#sh_recs h. fst x \<le> b))"
proof (cases "sh_recs h = {#}")
  case True
  then show ?thesis using std.size_ok [OF assms] by (simp add: bound_of_def)
next
  case False
  from std.top_ok [OF assms this] obtain t where t: "StandardHeap_Top h = Inr t" "t \<in># sh_recs h" "\<forall>x\<in>#sh_recs h. fst x \<le> fst t"
    unfolding key_True by blast
  have "bound_of lb h = Inr (fst t)" using False std.size_ok [OF assms] t(1) by (simp add: bound_of_def)
  then show ?thesis using False t(2,3) by (intro exI [of _ "fst t"]) blast
qed

lemma push_bounded_ok:
  assumes "top_inv ef h lb Rs"
  shows "\<exists>h' b. push_bounded ef r h = Inr h' \<and> bound_of lb h' = Inr b \<and> top_inv ef h' b (add_mset r Rs)"
proof -
  have h: "sh_inv True h" "sh_recs h \<subseteq># Rs" "keys fst (sh_recs h) = take ef (keys fst Rs)" using assms by (auto simp: top_inv_def)
  obtain h1 where h1: "mheap_push r h = Inr h1" "sh_inv True h1" "sh_recs h1 = add_mset r (sh_recs h)"
    using std.push_ok [OF h(1), of r] by blast
  have size: "StandardHeap_Size h1 = Suc (min ef (size Rs))"
    using std.size_ok [OF h1(2)] h1(3) top_inv_size [OF assms] std.size_ok [OF h(1)] by simp
  have keys1: "keys fst (sh_recs h1) = insort (fst r) (take ef (keys fst Rs))" using h1(3) h(3) by (simp add: keys_add)
  have sub: "sh_recs h1 \<subseteq># add_mset r Rs" using h(2) h1(3) by simp
  have "\<exists>h'. push_bounded ef r h = Inr h' \<and> sh_inv True h' \<and> sh_recs h' \<subseteq># add_mset r Rs \<and>
    keys fst (sh_recs h') = take ef (keys fst (add_mset r Rs))"
  proof (cases "StandardHeap_Size h1 > ef")
    case True
    have "sh_recs h1 \<noteq> {#}" using h1(3) by simp
    from std.top_ok [OF h1(2) this] obtain t h2 where t: "t \<in># sh_recs h1" "\<forall>x\<in>#sh_recs h1. fst x \<le> fst t"
      "mheap_pop h1 = Inr h2" "sh_inv True h2" "sh_recs h2 = sh_recs h1 - {#t#}" by (auto simp: key_True)
    have "size (sh_recs h1) - 1 = ef" using True size std.size_ok [OF h1(2)] by simp
    then have "keys fst (sh_recs h2) = take ef (keys fst (add_mset r Rs))"
      using keys_remove_max [OF t(1,2)] t(5) keys1 by (simp add: take_insort keys_add)
    moreover have "sh_recs h2 \<subseteq># add_mset r Rs" using sub t(5) by (metis diff_subset_eq_self subset_mset.order_trans)
    ultimately show ?thesis using h1(1) True t(3,4) by (auto simp: push_bounded_def)
  next
    case False
    then have "take ef (keys fst Rs) = keys fst Rs" "length (insort (fst r) (keys fst Rs)) \<le> ef" using size by auto
    then have "keys fst (sh_recs h1) = take ef (keys fst (add_mset r Rs))" using keys1 by (simp add: keys_add)
    then show ?thesis using h1(1,2) False sub by (auto simp: push_bounded_def)
  qed
  then obtain h' where h': "push_bounded ef r h = Inr h'" "sh_inv True h'" "sh_recs h' \<subseteq># add_mset r Rs"
    "keys fst (sh_recs h') = take ef (keys fst (add_mset r Rs))" by blast
  then show ?thesis using bound_of_ok [OF h'(2), of lb] by (auto simp: top_inv_def)
qed

lemma search_one_eq:
  assumes "isp_search_mode p = KNN_SEARCH" "isp_consider_duplicate p \<longrightarrow> sr_GetDuplicateIds sr i = Inr []"
  shows "\<exists>s1. search_one sr p c (i, dist, l) s =
    (if StandardHeap_Size (ss_top_candidates s) < isp_ef p \<or> ss_lower_bound s > dist
     then bindR (mheap_push (- dist, i) (ss_candidate_set s)) (\<lambda>cand.
          bindR (if check_func sr p i then push_bounded (isp_ef p) (dist, i) (ss_top_candidates s)
                 else if StandardHeap_Size (ss_top_candidates s) > isp_ef p then mheap_pop (ss_top_candidates s)
                 else Inr (ss_top_candidates s)) (\<lambda>h.
          bindR (bound_of (ss_lower_bound s) h) (\<lambda>b. Inr (s1\<lparr>ss_candidate_set := cand, ss_top_candidates := h, ss_lower_bound := b\<rparr>))))
     else Inr s1) \<and> (s1 = s \<or> s1 = s\<lparr>ss_rabitq_candidates := ss_rabitq_candidates s @ [(l, i)]\<rparr>)"
proof -
  let ?s1 = "if c \<and> l < ss_lower_bound s \<and> check_func sr p i then s\<lparr>ss_rabitq_candidates := ss_rabitq_candidates s @ [(l, i)]\<rparr> else s"
  have "push_with_duplicates sr p dist i h = (if check_func sr p i then mheap_push (dist, i) h else Inr h)" for h
    using assms(2) by (cases "mheap_push (dist, i) h") (auto simp: push_with_duplicates_def push_allowed_def)
  then show ?thesis using assms(1)
    by (intro exI [of _ ?s1]) (auto simp: search_one_def Let_def push_bounded_def bound_of_def bindR_def split: sum.splits)
qed

text \<open>What the loop over the visited nodes changes of the state, besides the two heaps and the bound.\<close>

definition same_walk :: "'k search_state \<Rightarrow> 'k search_state \<Rightarrow> bool" where
  "same_walk s s' \<longleftrightarrow> ss_vl s' = ss_vl s \<and> ss_hops s' = ss_hops s \<and> ss_neighbors s' = ss_neighbors s"

lemma search_one_ok:
  assumes "isp_search_mode p = KNN_SEARCH" "isp_consider_duplicate p \<longrightarrow> sr_GetDuplicateIds sr i = Inr []" "finite P" "i \<notin> P" "ok = check_func sr p"
    and top: "top_inv (isp_ef p) (ss_top_candidates s) (ss_lower_bound s) (items ok d P)" and cand: "sh_inv True (ss_candidate_set s)"
  shows "\<exists>s' pushed. search_one sr p c (i, d i, l) s = Inr s' \<and> same_walk s s' \<and>
    top_inv (isp_ef p) (ss_top_candidates s') (ss_lower_bound s') (items ok d (insert i P)) \<and> sh_inv True (ss_candidate_set s') \<and>
    sh_recs (ss_candidate_set s') = sh_recs (ss_candidate_set s) + (if pushed then {#(- d i, i)#} else {#}) \<and>
    (pushed \<or> crowded (isp_ef p) ok d P i)"
proof -
  note size = top_inv_size [OF top]
  obtain s1 where s1: "search_one sr p c (i, d i, l) s =
    (if StandardHeap_Size (ss_top_candidates s) < isp_ef p \<or> ss_lower_bound s > d i
     then bindR (mheap_push (- d i, i) (ss_candidate_set s)) (\<lambda>cand.
          bindR (if check_func sr p i then push_bounded (isp_ef p) (d i, i) (ss_top_candidates s)
                 else if StandardHeap_Size (ss_top_candidates s) > isp_ef p then mheap_pop (ss_top_candidates s)
                 else Inr (ss_top_candidates s)) (\<lambda>h.
          bindR (bound_of (ss_lower_bound s) h) (\<lambda>b. Inr (s1\<lparr>ss_candidate_set := cand, ss_top_candidates := h, ss_lower_bound := b\<rparr>))))
     else Inr s1)" "s1 = s \<or> s1 = s\<lparr>ss_rabitq_candidates := ss_rabitq_candidates s @ [(l, i)]\<rparr>"
    using search_one_eq [OF assms(1,2)] by blast
  show ?thesis
  proof (cases "StandardHeap_Size (ss_top_candidates s) < isp_ef p \<or> ss_lower_bound s > d i")
    case True
    obtain c' where c': "mheap_push (- d i, i) (ss_candidate_set s) = Inr c'" "sh_inv True c'"
      "sh_recs c' = add_mset (- d i, i) (sh_recs (ss_candidate_set s))" using std.push_ok [OF cand] by blast
    have "\<exists>h b. (if check_func sr p i then push_bounded (isp_ef p) (d i, i) (ss_top_candidates s)
        else if StandardHeap_Size (ss_top_candidates s) > isp_ef p then mheap_pop (ss_top_candidates s)
        else Inr (ss_top_candidates s)) = Inr h \<and> bound_of (ss_lower_bound s) h = Inr b \<and> top_inv (isp_ef p) h b (items ok d (insert i P))"
    proof (cases "check_func sr p i")
      case True
      then show ?thesis using push_bounded_ok [OF top, of "(d i, i)"] assms(3-5) by (simp add: items_insert)
    next
      case False
      then show ?thesis using bound_of_ok [of "ss_top_candidates s" "ss_lower_bound s"] top size assms(3-5)
        by (auto simp: items_insert top_inv_def)
    qed
    then obtain h b where hb: "(if check_func sr p i then push_bounded (isp_ef p) (d i, i) (ss_top_candidates s)
        else if StandardHeap_Size (ss_top_candidates s) > isp_ef p then mheap_pop (ss_top_candidates s)
        else Inr (ss_top_candidates s)) = Inr h" "bound_of (ss_lower_bound s) h = Inr b" "top_inv (isp_ef p) h b (items ok d (insert i P))" by blast
    have "search_one sr p c (i, d i, l) s = Inr (s1\<lparr>ss_candidate_set := c', ss_top_candidates := h, ss_lower_bound := b\<rparr>)"
      using s1(1) True c'(1) hb(1,2) by simp
    then show ?thesis using c'(2,3) hb(3) s1(2) by (intro exI [of _ "s1\<lparr>ss_candidate_set := c', ss_top_candidates := h, ss_lower_bound := b\<rparr>"]
          exI [of _ True]) (auto simp: same_walk_def)
  next
    case False
    have "top_inv (isp_ef p) (ss_top_candidates s) (ss_lower_bound s) (items ok d (insert i P))"
      using top_inv_skip [OF top, of "(d i, i)"] top False assms(3,4) by (simp add: items_insert)
    moreover have "crowded (isp_ef p) ok d P i" using top_inv_crowded [OF top _ _ assms(3)] False by simp
    ultimately show ?thesis using s1 False cand by (intro exI [of _ s1] exI [of _ False]) (auto simp: same_walk_def)
  qed
qed

lemma search_ones_ok:
  assumes "isp_search_mode p = KNN_SEARCH" "\<forall>i\<in>set ids. isp_consider_duplicate p \<longrightarrow> sr_GetDuplicateIds sr i = Inr []" "finite P" "distinct ids" "set ids \<inter> P = {}" "ok = check_func sr p"
    and "top_inv (isp_ef p) (ss_top_candidates s) (ss_lower_bound s) (items ok d P)" "sh_inv True (ss_candidate_set s)"
  shows "\<exists>s' C. foldR (search_one sr p c) (map (\<lambda>i. (i, d i, l i)) ids) s = Inr s' \<and> same_walk s s' \<and>
    top_inv (isp_ef p) (ss_top_candidates s') (ss_lower_bound s') (items ok d (P \<union> set ids)) \<and> sh_inv True (ss_candidate_set s') \<and>
    sh_recs (ss_candidate_set s') = sh_recs (ss_candidate_set s) + image_mset (\<lambda>i. (- d i, i)) C \<and> C \<subseteq># mset ids \<and>
    (\<forall>i\<in>set ids. i \<in># C \<or> crowded (isp_ef p) ok d (P \<union> set ids) i)"
  using assms(3-5,7-8,2)
proof (induction ids arbitrary: P s)
  case Nil
  then show ?case by (auto simp: same_walk_def)
next
  case (Cons i ids)
  have "isp_consider_duplicate p \<longrightarrow> sr_GetDuplicateIds sr i = Inr []" "i \<notin> P" using Cons.prems(3,6) by auto
  from search_one_ok [OF assms(1) this(1) Cons.prems(1) this(2) assms(6) Cons.prems(4,5), of c "l i"] obtain s1 pushed where
    s1: "search_one sr p c (i, d i, l i) s = Inr s1" "same_walk s s1"
      "top_inv (isp_ef p) (ss_top_candidates s1) (ss_lower_bound s1) (items ok d (insert i P))" "sh_inv True (ss_candidate_set s1)"
      "sh_recs (ss_candidate_set s1) = sh_recs (ss_candidate_set s) + (if pushed then {#(- d i, i)#} else {#})"
      "pushed \<or> crowded (isp_ef p) ok d P i" by blast
  have "finite (insert i P)" "distinct ids" "set ids \<inter> insert i P = {}"
    and nd: "\<forall>j\<in>set ids. isp_consider_duplicate p \<longrightarrow> sr_GetDuplicateIds sr j = Inr []" using Cons.prems by auto
  from Cons.IH [OF this(1-3) s1(3,4) nd] obtain s' C where
    ih: "foldR (search_one sr p c) (map (\<lambda>i. (i, d i, l i)) ids) s1 = Inr s'" "same_walk s1 s'"
      "top_inv (isp_ef p) (ss_top_candidates s') (ss_lower_bound s') (items ok d (insert i P \<union> set ids))" "sh_inv True (ss_candidate_set s')"
      "sh_recs (ss_candidate_set s') = sh_recs (ss_candidate_set s1) + image_mset (\<lambda>i. (- d i, i)) C" "C \<subseteq># mset ids"
      "\<forall>j\<in>set ids. j \<in># C \<or> crowded (isp_ef p) ok d (insert i P \<union> set ids) j" by blast
  let ?C = "if pushed then add_mset i C else C"
  have "crowded (isp_ef p) ok d P i \<Longrightarrow> crowded (isp_ef p) ok d (P \<union> set (i # ids)) i"
    using crowded_mono [of "isp_ef p" ok d P i "P \<union> set (i # ids)"] Cons.prems(1) by auto
  then have "\<forall>j\<in>set (i # ids). j \<in># ?C \<or> crowded (isp_ef p) ok d (P \<union> set (i # ids)) j" using ih(7) s1(6) by auto
  moreover have "?C \<subseteq># mset (i # ids)" using ih(6) by (auto intro: subset_mset.order_trans)
  ultimately show ?case using s1(1,2,5) ih(1-5) by (intro exI [of _ s'] exI [of _ ?C]) (auto simp: same_walk_def)
qed

section \<open>The walk over the graph\<close>

text \<open>
  The graph the search sees on a set \<open>S\<close> of nodes: their lists are \<open>nb\<close>, stay in the set and within the
  degree, their distances are \<open>d\<close> and they have no duplicates.
\<close>

definition searchable :: "'k searcher \<Rightarrow> inner_search_param \<Rightarrow> (inner_id \<Rightarrow> inner_id list) \<Rightarrow> (inner_id \<Rightarrow> dist) \<Rightarrow> inner_id set \<Rightarrow> bool" where
  "searchable sr p nb d S \<longleftrightarrow>
     (\<forall>v\<in>S. (\<forall>old. sr_GetNeighbors sr v old = Inr (nb v)) \<and> length (nb v) \<le> sr_MaximumDegree sr \<and> set (nb v) \<subseteq> S \<and>
        (\<exists>l. query_one sr p v = Inr (d v, l)) \<and> (isp_consider_duplicate p \<longrightarrow> sr_GetDuplicateIds sr v = Inr []))"

inductive_set reach :: "(inner_id \<Rightarrow> inner_id list) \<Rightarrow> inner_id \<Rightarrow> inner_id set" for nb ep where
  start: "ep \<in> reach nb ep"
| step: "v \<in> reach nb ep \<Longrightarrow> w \<in> set (nb v) \<Longrightarrow> w \<in> reach nb ep"

lemma reach_subset: "ep \<in> V \<Longrightarrow> \<forall>v\<in>V. set (nb v) \<subseteq> V \<Longrightarrow> reach nb ep \<subseteq> V"
proof
  fix x assume a: "ep \<in> V" "\<forall>v\<in>V. set (nb v) \<subseteq> V" and "x \<in> reach nb ep"
  from this(3) show "x \<in> V" by induction (use a in auto)
qed

lemma searchable_reach: "searchable sr p nb d S \<Longrightarrow> ep \<in> S \<Longrightarrow> searchable sr p nb d (reach nb ep) \<and> reach nb ep \<subseteq> S"
proof -
  assume a: "searchable sr p nb d S" "ep \<in> S"
  then have "reach nb ep \<subseteq> S" by (intro reach_subset) (auto simp: searchable_def)
  then show ?thesis using a by (fastforce simp: searchable_def intro: reach.step)
qed

text \<open>
  The filter on identifiers lets a node pass; only such nodes and the entry point must be followed.
\<close>

definition id_allowed :: "inner_search_param \<Rightarrow> inner_id \<Rightarrow> bool" where
  "id_allowed p i \<longleftrightarrow> (case isp_is_inner_id_allowed p of None \<Rightarrow> True | Some f \<Rightarrow> f i)"

text \<open>
  The invariant of the walk: \<open>V\<close> are the nodes visited, the top candidates the nearest of them, and
  a node to be followed that has unvisited neighbours is still a candidate or crowded out.
\<close>

definition walk_inv ::
  "'k searcher \<Rightarrow> inner_search_param \<Rightarrow> (inner_id \<Rightarrow> inner_id list) \<Rightarrow> (inner_id \<Rightarrow> dist) \<Rightarrow> inner_id set \<Rightarrow> 'k search_state \<Rightarrow> inner_id set \<Rightarrow> bool" where
  "walk_inv sr p nb d R s V \<longleftrightarrow>
     vl_inv (ss_vl s) \<and> vl_set (ss_vl s) = V \<and> R \<subseteq> {..<vl_max_size (ss_vl s)} \<and> V \<subseteq> R \<and>
     top_inv (isp_ef p) (ss_top_candidates s) (ss_lower_bound s) (items (check_func sr p) d V) \<and>
     sh_inv True (ss_candidate_set s) \<and> snd ` set_mset (sh_recs (ss_candidate_set s)) \<subseteq> V \<and> isp_ep p \<in> V \<and>
     (\<forall>r\<in>#sh_recs (ss_candidate_set s). fst r = - d (snd r)) \<and>
     (\<forall>v\<in>V. id_allowed p v \<or> v = isp_ep p \<longrightarrow>
        v \<in> snd ` set_mset (sh_recs (ss_candidate_set s)) \<or> set (nb v) \<subseteq> V \<or> crowded (isp_ef p) (check_func sr p) d V v)"

lemma walk_inv_finite: "walk_inv sr p nb d R s V \<Longrightarrow> finite V"
  unfolding walk_inv_def using finite_subset [of V "{..<vl_max_size (ss_vl s)}"] by blast

lemma items_mono: "finite W \<Longrightarrow> V \<subseteq> W \<Longrightarrow> size (items ok d V) \<le> size (items ok d W)"
  unfolding size_items by (intro card_mono) auto

lemma search_expand_ok:
  assumes mode: "isp_search_mode p = KNN_SEARCH"
    and graph: "searchable sr p nb d R" and v: "v \<in> V"
    and inv: "walk_inv sr p nb d R s0 V" "s = s0\<lparr>ss_candidate_set := c0\<rparr>" "sh_inv True c0" "add_mset (x, v) (sh_recs c0) = sh_recs (ss_candidate_set s0)"
  shows "\<exists>s' W. search_expand sr p collects v s = Inr s' \<and> walk_inv sr p nb d R s' W \<and> V \<subseteq> W \<and> ss_hops s' = ss_hops s \<and>
    size (sh_recs (ss_candidate_set s')) + card (R - W) \<le> size (sh_recs c0) + card (R - V)"
proof -
  let ?ok = "check_func sr p"
  have vl: "vl_inv (ss_vl s)" "vl_set (ss_vl s) = V" "R \<subseteq> {..<vl_max_size (ss_vl s)}" "V \<subseteq> R"
    and top: "top_inv (isp_ef p) (ss_top_candidates s) (ss_lower_bound s) (items ?ok d V)"
    and cl: "\<forall>u\<in>V. id_allowed p u \<or> u = isp_ep p \<longrightarrow>
        u \<in> insert v (snd ` set_mset (sh_recs c0)) \<or> set (nb u) \<subseteq> V \<or> crowded (isp_ef p) ?ok d V u"
    and c0: "snd ` set_mset (sh_recs c0) \<subseteq> V" "isp_ep p \<in> V" "\<forall>r\<in>#sh_recs c0. fst r = - d (snd r)"
    using inv unfolding walk_inv_def inv(4) [symmetric] by auto
  have finR: "finite R" using vl(3) finite_subset by blast
  have nbv: "sr_GetNeighbors sr v (ss_neighbors s) = Inr (nb v)" "length (nb v) \<le> sr_MaximumDegree sr" "set (nb v) \<subseteq> R"
    using graph v vl(4) by (auto simp: searchable_def)
  have "set (nb v) \<subseteq> {..<vl_max_size (ss_vl s)}" "length [] + length (nb v) \<le> sr_MaximumDegree sr" using nbv vl(3) by auto
  from visit_loop_ok [OF vl(1) this, of "isp_is_inner_id_allowed p" "ss_skip_strategy s"] obtain ids skip' vl' where
    vis: "visit_loop sr (isp_is_inner_id_allowed p) (nb v) [] (ss_skip_strategy s) (ss_vl s) = Inr (ids, skip', vl')" "vl_inv vl'"
      "vl_set vl' = V \<union> set (nb v)" "vl_max_size vl' = vl_max_size (ss_vl s)" "distinct ids" "set ids \<subseteq> set (nb v) - V"
      "\<forall>i\<in>set (nb v) - V - set ids. \<exists>f. isp_is_inner_id_allowed p = Some f \<and> \<not> f i" unfolding vl(2) by auto
  let ?W = "V \<union> set (nb v)"
  have "\<forall>i\<in>set ids. \<exists>l. query_one sr p i = Inr (d i, l)" using vis(6) nbv(3) graph by (auto simp: searchable_def)
  then obtain l where "\<forall>i\<in>set ids. query_one sr p i = Inr (d i, l i)" by metis
  then have q: "query_ids sr p ids = Inr (map (\<lambda>i. (i, d i, l i)) ids)" by (rule query_ids_ok)
  let ?s = "s\<lparr>ss_neighbors := nb v, ss_skip_strategy := skip', ss_vl := vl', ss_dist_cmp := u32 (ss_dist_cmp s + length ids)\<rparr>"
  have nd: "\<forall>i\<in>set ids. isp_consider_duplicate p \<longrightarrow> sr_GetDuplicateIds sr i = Inr []"
    using vis(6) nbv(3) graph by (auto simp: searchable_def)
  let ?c = "isp_enable_rabitq_one_bit_search p \<and> StandardHeap_Size (ss_top_candidates s) = isp_ef p \<and> collects"
  have f: "finite V" "set ids \<inter> V = {}" using finR vl(4) vis(6) finite_subset by auto
  have t: "top_inv (isp_ef p) (ss_top_candidates ?s) (ss_lower_bound ?s) (items ?ok d V)" "sh_inv True (ss_candidate_set ?s)"
    using top inv(2,3) by simp_all
  have cs: "ss_candidate_set ?s = c0" using inv(2) by simp
  obtain s' C where s': "foldR (search_one sr p ?c) (map (\<lambda>i. (i, d i, l i)) ids) ?s = Inr s'"
    "same_walk ?s s'" "top_inv (isp_ef p) (ss_top_candidates s') (ss_lower_bound s') (items ?ok d (V \<union> set ids))" "sh_inv True (ss_candidate_set s')"
    "sh_recs (ss_candidate_set s') = sh_recs c0 + image_mset (\<lambda>i. (- d i, i)) C" "C \<subseteq># mset ids"
    "\<forall>i\<in>set ids. i \<in># C \<or> crowded (isp_ef p) ?ok d (V \<union> set ids) i"
    using search_ones_ok [where c = ?c and l = l, OF mode nd f(1) vis(5) f(2) refl t] unfolding cs by blast
  have run: "search_expand sr p collects v s = Inr s'" using nbv(1) vis(1) q s'(1) by (simp add: search_expand_def)
  have ok_eq: "{i \<in> V \<union> set ids. ?ok i} = {i \<in> ?W. ?ok i}" using vis(6,7) by (auto simp: check_func_def)
  note it = items_cong [OF ok_eq] and cr = crowded_cong [OF ok_eq]
  have cset: "set_mset C \<subseteq> set ids" using s'(6) by (metis set_mset_mono set_mset_mset)
  have close: "u \<in> snd ` set_mset (sh_recs (ss_candidate_set s')) \<or> set (nb u) \<subseteq> ?W \<or> crowded (isp_ef p) ?ok d ?W u"
    if u: "u \<in> ?W" "id_allowed p u \<or> u = isp_ep p" for u
  proof (cases "u \<in> V")
    case True
    then show ?thesis using cl u(2) s'(5) crowded_mono [of "isp_ef p" ?ok d V u ?W] f(1) by auto
  next
    case False
    then have "u \<in> set ids" using u c0(2) vis(7) by (auto simp: id_allowed_def)
    then show ?thesis using s'(5,7) cr by force
  qed
  have snds: "snd ` set_mset (sh_recs (ss_candidate_set s')) \<subseteq> ?W" using s'(5) c0(1) cset vis(6) by auto
  have fsts: "\<forall>r\<in>#sh_recs (ss_candidate_set s'). fst r = - d (snd r)" using s'(5) c0(3) by auto
  have vl': "vl_inv (ss_vl s')" "vl_set (ss_vl s') = ?W" "R \<subseteq> {..<vl_max_size (ss_vl s')}" "?W \<subseteq> R"
    using vis(2-4) s'(2) vl(3,4) nbv(3) by (auto simp: same_walk_def)
  have "walk_inv sr p nb d R s' ?W" unfolding walk_inv_def
    using vl' s'(3) [unfolded it] s'(4) snds fsts c0(2) close by blast
  moreover have "size (sh_recs (ss_candidate_set s')) + card (R - ?W) \<le> size (sh_recs c0) + card (R - V)"
  proof -
    have "size C \<le> card (set ids)" using s'(6) distinct_card [OF vis(5)] size_mset_mono by fastforce
    also have "card (set ids) + card (R - ?W) = card (set ids \<union> (R - ?W))" using vis(6) finR by (subst card_Un_disjoint) auto
    also have "\<dots> \<le> card (R - V)" using vis(6) nbv(3) finR by (intro card_mono) auto
    finally show ?thesis using s'(5) by simp
  qed
  ultimately show ?thesis using run s'(2) by (intro exI [of _ s'] exI [of _ ?W]) (auto simp: same_walk_def)
qed

text \<open>The loop ends within its bound; it is exhaustive unless it is stopped early.\<close>

lemma search_loop_ok:
  assumes mode: "isp_search_mode p = KNN_SEARCH" and graph: "searchable sr p nb d R"
    and "walk_inv sr p nb d R s V" "size (sh_recs (ss_candidate_set s)) + card (R - V) \<le> n"
  shows "\<exists>s' W. search_loop n sr p collects s = Inr s' \<and> walk_inv sr p nb d R s' W \<and> V \<subseteq> W \<and>
    ((\<forall>h. \<not> sr_CheckOvertime sr h) \<and> ss_hops s + size (sh_recs (ss_candidate_set s)) + card (R - V) < isp_hops_limit p \<longrightarrow>
       (\<forall>v\<in>snd ` set_mset (sh_recs (ss_candidate_set s')). crowded (isp_ef p) (check_func sr p) d W v))"
  using assms(3,4)
proof (induction n arbitrary: s V)
  case 0
  then have "StandardHeap_Size (ss_candidate_set s) = 0" using std.size_ok [of True "ss_candidate_set s"] by (simp add: walk_inv_def)
  then show ?case using 0 by auto
next
  case (Suc n)
  let ?c = "ss_candidate_set s"
  have c: "sh_inv True ?c" "StandardHeap_Size ?c = size (sh_recs ?c)" using Suc.prems(1) std.size_ok [of True ?c] by (auto simp: walk_inv_def)
  let ?s = "s\<lparr>ss_hops := ss_hops s + 1\<rparr>"
  have w: "walk_inv sr p nb d R ?s V" using Suc.prems(1) by (simp add: walk_inv_def)
  show ?case
  proof (cases "sh_recs ?c = {#}")
    case True
    then show ?thesis using Suc.prems(1) c(2) by auto
  next
    case False
    from std.top_ok [OF c(1) this] obtain r c0 where r: "StandardHeap_Top ?c = Inr r" "r \<in># sh_recs ?c" "mheap_pop ?c = Inr c0" "sh_inv True c0"
      "sh_recs c0 = sh_recs ?c - {#r#}" and most: "\<forall>x\<in>#sh_recs ?c. fst x \<le> fst r" unfolding key_True by blast
    have pos: "0 < size (sh_recs ?c)" using False by (simp add: nonempty_has_size)
    consider (limit) "ss_hops ?s \<ge> isp_hops_limit p" | (time) "sr_CheckOvertime sr (ss_hops ?s)"
      | (bound) "StandardHeap_Size (ss_top_candidates s) = isp_ef p" "- fst r > ss_lower_bound s"
      | (go) "ss_hops ?s < isp_hops_limit p" "\<not> sr_CheckOvertime sr (ss_hops ?s)" "\<not> (- fst r > ss_lower_bound s \<and> StandardHeap_Size (ss_top_candidates s) = isp_ef p)"
      by fastforce
    then show ?thesis
    proof cases
      case limit
      then show ?thesis using c(2) pos w by (intro exI [of _ ?s] exI [of _ V]) (auto simp: Let_def)
    next
      case time
      then show ?thesis using c(2) pos w r(1) by (intro exI [of _ ?s] exI [of _ V]) (auto simp: Let_def)
    next
      case bound
      have top: "top_inv (isp_ef p) (ss_top_candidates s) (ss_lower_bound s) (items (check_func sr p) d V)" and finV: "finite V"
        and fsts: "\<forall>x\<in>#sh_recs ?c. fst x = - d (snd x)"
        using w walk_inv_finite [OF w] by (simp_all add: walk_inv_def)
      have "crowded (isp_ef p) (check_func sr p) d V (snd x)" if "x \<in># sh_recs ?c" for x
      proof -
        have "fst x \<le> fst r" "fst x = - d (snd x)" using that most fsts by auto
        then show ?thesis using top_inv_crowded [OF top _ _ finV, of "snd x"] bound by linarith
      qed
      then have "\<forall>v\<in>snd ` set_mset (sh_recs ?c). crowded (isp_ef p) (check_func sr p) d V v" by blast
      then show ?thesis using bound c(2) pos w r(1) mode by (intro exI [of _ ?s] exI [of _ V]) (auto simp: Let_def)
    next
      case go
      obtain x v where xv: "r = (x, v)" by fastforce
      have add: "add_mset (x, v) (sh_recs c0) = sh_recs (ss_candidate_set ?s)" using r(2,5) xv by simp
      have "snd ` set_mset (sh_recs ?c) \<subseteq> V" using w by (simp add: walk_inv_def)
      then have v: "v \<in> V" using r(2) xv by force
      from search_expand_ok [OF mode graph v w refl r(4) add, of collects] obtain s1 W where
        s1: "search_expand sr p collects v (?s\<lparr>ss_candidate_set := c0\<rparr>) = Inr s1" "walk_inv sr p nb d R s1 W" "V \<subseteq> W" "ss_hops s1 = ss_hops s + 1"
          "size (sh_recs (ss_candidate_set s1)) + card (R - W) \<le> size (sh_recs c0) + card (R - V)" by auto
      have sz: "size (sh_recs ?c) = Suc (size (sh_recs c0))" using add by (metis search_state.select_convs(2) search_state.surjective search_state.update_convs(4) size_add_mset)
      have "size (sh_recs (ss_candidate_set s1)) + card (R - W) \<le> n" using s1(5) sz Suc.prems(2) by simp
      from Suc.IH [OF s1(2) this] obtain s' W' where
        s': "search_loop n sr p collects s1 = Inr s'" "walk_inv sr p nb d R s' W'" "W \<subseteq> W'"
          "(\<forall>h. \<not> sr_CheckOvertime sr h) \<and> ss_hops s1 + size (sh_recs (ss_candidate_set s1)) + card (R - W) < isp_hops_limit p \<longrightarrow>
             (\<forall>v\<in>snd ` set_mset (sh_recs (ss_candidate_set s')). crowded (isp_ef p) (check_func sr p) d W' v)" by blast
      have "search_loop (Suc n) sr p collects s = Inr s'" using go c(2) pos r(1,3) xv s1(1) s'(1) mode by (auto simp: Let_def)
      moreover have "ss_hops s1 + size (sh_recs (ss_candidate_set s1)) + card (R - W) \<le> ss_hops s + size (sh_recs ?c) + card (R - V)"
        using s1(4,5) sz by simp
      ultimately show ?thesis using s'(2-4) s1(3) by (intro exI [of _ s'] exI [of _ W']) auto
    qed
  qed
qed

text \<open>Popping the farthest records keeps the nearest.\<close>

lemma pop_to_size_ok:
  assumes "sh_inv True h" "size (sh_recs h) \<le> fuel"
  shows "\<exists>h'. pop_to_size fuel n h = Inr h' \<and> sh_inv True h' \<and> sh_recs h' \<subseteq># sh_recs h \<and> keys fst (sh_recs h') = take n (keys fst (sh_recs h))"
  using assms
proof (induction fuel arbitrary: h)
  case (Suc fuel)
  have size: "StandardHeap_Size h = size (sh_recs h)" using std.size_ok Suc.prems(1) by blast
  show ?case
  proof (cases "size (sh_recs h) > n")
    case True
    then have "sh_recs h \<noteq> {#}" by auto
    from std.top_ok [OF Suc.prems(1) this] obtain t h1 where t: "t \<in># sh_recs h" "\<forall>x\<in>#sh_recs h. fst x \<le> fst t" "mheap_pop h = Inr h1" "sh_inv True h1"
      "sh_recs h1 = sh_recs h - {#t#}" unfolding key_True by blast
    have "size (sh_recs h1) \<le> fuel" using Suc.prems(2) t(1,5) by (simp add: size_Diff_singleton)
    from Suc.IH [OF t(4) this] obtain h' where h': "pop_to_size fuel n h1 = Inr h'" "sh_inv True h'" "sh_recs h' \<subseteq># sh_recs h1"
      "keys fst (sh_recs h') = take n (keys fst (sh_recs h1))" by blast
    moreover have "take n (keys fst (sh_recs h1)) = take n (keys fst (sh_recs h))"
      using keys_remove_max [OF t(1,2)] t(5) True by (simp add: min_absorb1)
    moreover have "sh_recs h' \<subseteq># sh_recs h" using h'(3) t(5) by (metis diff_subset_eq_self subset_mset.order_trans)
    ultimately show ?thesis using True size t(3) by auto
  qed (use Suc.prems(1) size in auto)
qed auto

lemma heap_new_ok: "sh_inv True (StandardHeap_new n)" "sh_recs (StandardHeap_new n) = {#}"
  by (simp_all add: sh_inv_def sh_recs_def StandardHeap_new_def is_heap_def)

text \<open>The start of the walk.\<close>

lemma search_start_ok:
  assumes "isp_search_mode p = KNN_SEARCH" "query_one sr p (isp_ep p) = Inr (d (isp_ep p), l)"
    and "vl_inv vl" "vl_set vl = {}" "isp_ep p \<in> R" "R \<subseteq> {..<vl_max_size vl}" "0 < isp_ef p"
  shows "\<exists>s. search_start sr p skip vl = Inr s \<and> walk_inv sr p nb d R s {isp_ep p} \<and> ss_hops s = 0 \<and> size (sh_recs (ss_candidate_set s)) = 1"
proof -
  let ?e = "isp_ep p" and ?ok = "check_func sr p"
  obtain vl' where vl': "VisitedList_Set ?e vl = Inr vl'" "vl_inv vl'" "vl_set vl' = {?e}" "vl_max_size vl' = vl_max_size vl"
    using VisitedList_Set_ok [OF assms(3), of ?e] assms(4-6) by auto
  obtain c where c: "mheap_push (- d ?e, ?e) (StandardHeap_new (- 1)) = Inr c" "sh_inv True c" "sh_recs c = {#(- d ?e, ?e)#}"
    using std.push_ok [OF heap_new_ok(1) [of "- 1"], of "(- d ?e, ?e)"] heap_new_ok(2) by auto
  obtain t where t: "push_allowed sr p (d ?e) ?e (StandardHeap_new (- 1)) = Inr t" "sh_inv True t" "sh_recs t = items ?ok d {?e}"
    using std.push_ok [OF heap_new_ok(1) [of "- 1"], of "(d ?e, ?e)"] heap_new_ok [of "- 1"] items_insert [of "{}" ?e ?ok d]
    by (cases "?ok ?e") (auto simp: push_allowed_def)
  let ?s = "\<lparr>ss_top_candidates = t, ss_candidate_set = c, ss_lower_bound = (if ?ok ?e then d ?e else float_max), ss_hops = 0, ss_dist_cmp = 1,
    ss_neighbors = replicate (sr_MaximumDegree sr) 0, ss_skip_strategy = skip, ss_vl = vl', ss_rabitq_candidates = []\<rparr>"
  have run: "search_start sr p skip vl = Inr ?s" using assms(1,2) vl'(1) c(1) t(1) by (simp add: search_start_def)
  have "size (items ?ok d {?e}) \<le> 1" using items_insert [of "{}" ?e ?ok d] by simp
  then have "top_inv (isp_ef p) t (if ?ok ?e then d ?e else float_max) (items ?ok d {?e})"
    using t(2,3) assms(7) items_insert [of "{}" ?e ?ok d] by (auto simp: top_inv_def)
  then have "walk_inv sr p nb d R ?s {?e}" using vl' c assms(5,6) by (simp add: walk_inv_def)
  then show ?thesis using run c(3) by auto
qed

section \<open>Properties\<close>

text \<open>The search on any graph: total, the nearest of what it visits, exhaustive when nothing stops it.\<close>

lemma knn_search_ok:
  assumes mode: "isp_search_mode p = KNN_SEARCH" "\<not> isp_find_duplicate p" "0 < isp_ef p" "0 \<le> isp_topk p" "isp_topk p < 2 ^ 63"
    and graph: "searchable sr p nb d S" "isp_ep p \<in> S" "S \<subseteq> {..<vl_max_size vl}" and vl: "vl_inv vl" "vl_set vl = {}"
  shows "\<exists>h s V. BasicSearcher_search_impl sr p collects skip vl = Inr (h, isp_duplicate_id p, s) \<and> sh_inv True h \<and>
    V = vl_set (ss_vl s) \<and> isp_ep p \<in> V \<and> V \<subseteq> reach nb (isp_ep p) \<and> sh_recs h \<subseteq># items (check_func sr p) d V \<and>
    keys fst (sh_recs h) = take (min (nat (isp_topk p)) (isp_ef p)) (keys fst (items (check_func sr p) d V)) \<and>
    ((\<forall>h. \<not> sr_CheckOvertime sr h) \<and> card (reach nb (isp_ep p)) < isp_hops_limit p \<longrightarrow>
       (\<forall>v\<in>V. id_allowed p v \<or> v = isp_ep p \<longrightarrow> set (nb v) \<subseteq> V \<or> crowded (isp_ef p) (check_func sr p) d V v)) \<and>
    (isp_is_inner_id_allowed p = None \<and> (\<forall>h. \<not> sr_CheckOvertime sr h) \<and> card (reach nb (isp_ep p)) < isp_hops_limit p \<and>
     card {i \<in> reach nb (isp_ep p). check_func sr p i} \<le> isp_ef p \<longrightarrow>
       items (check_func sr p) d V = items (check_func sr p) d (reach nb (isp_ep p)))"
proof -
  let ?e = "isp_ep p" and ?ok = "check_func sr p"
  define R where "R = reach nb ?e"
  have R: "searchable sr p nb d R" "R \<subseteq> S" "?e \<in> R" using searchable_reach [OF graph(1,2)] by (auto simp: R_def intro: reach.start)
  have RV: "R \<subseteq> {..<vl_max_size vl}" using R(2) graph(3) by blast
  then have finR: "finite R" by (rule finite_subset) simp
  obtain l where q: "query_one sr p ?e = Inr (d ?e, l)" using R(1,3) by (auto simp: searchable_def)
  obtain s0 where s0: "search_start sr p skip vl = Inr s0" "walk_inv sr p nb d R s0 {?e}" "ss_hops s0 = 0" "size (sh_recs (ss_candidate_set s0)) = 1"
    using search_start_ok [where d = d, OF mode(1) q vl R(3) RV mode(3)] by blast
  have measure: "size (sh_recs (ss_candidate_set s0)) + card (R - {?e}) = card R" using s0(4) card_Suc_Diff1 [OF finR R(3)] by simp
  moreover have "card R \<le> vl_max_size vl" using RV card_mono [of "{..<vl_max_size vl}" R] by simp
  ultimately have "size (sh_recs (ss_candidate_set s0)) + card (R - {?e}) \<le> vl_max_size vl" by simp
  from search_loop_ok [OF mode(1) R(1) s0(2) this, of collects] obtain s V where s: "search_loop (vl_max_size vl) sr p collects s0 = Inr s" "walk_inv sr p nb d R s V" "{?e} \<subseteq> V"
    "(\<forall>h. \<not> sr_CheckOvertime sr h) \<and> ss_hops s0 + size (sh_recs (ss_candidate_set s0)) + card (R - {?e}) < isp_hops_limit p \<longrightarrow>
       (\<forall>v\<in>snd ` set_mset (sh_recs (ss_candidate_set s)). crowded (isp_ef p) ?ok d V v)" by blast
  have top: "top_inv (isp_ef p) (ss_top_candidates s) (ss_lower_bound s) (items ?ok d V)" "V \<subseteq> R" "V = vl_set (ss_vl s)"
    and cl: "\<forall>v\<in>V. id_allowed p v \<or> v = ?e \<longrightarrow>
      v \<in> snd ` set_mset (sh_recs (ss_candidate_set s)) \<or> set (nb v) \<subseteq> V \<or> crowded (isp_ef p) ?ok d V v"
    using s(2) by (auto simp: walk_inv_def)
  have greedy: "\<forall>v\<in>V. id_allowed p v \<or> v = ?e \<longrightarrow> set (nb v) \<subseteq> V \<or> crowded (isp_ef p) ?ok d V v"
    if "(\<forall>h. \<not> sr_CheckOvertime sr h) \<and> card R < isp_hops_limit p"
  proof -
    have "\<forall>v\<in>snd ` set_mset (sh_recs (ss_candidate_set s)). crowded (isp_ef p) ?ok d V v" using s(4) that measure s0(3) by simp
    then show ?thesis using cl by blast
  qed
  from top(1) have t: "sh_inv True (ss_top_candidates s)" "sh_recs (ss_top_candidates s) \<subseteq># items ?ok d V"
    "keys fst (sh_recs (ss_top_candidates s)) = take (isp_ef p) (keys fst (items ?ok d V))" by (auto simp: top_inv_def)
  obtain h where h: "pop_to_size (StandardHeap_Size (ss_top_candidates s)) (nat (isp_topk p)) (ss_top_candidates s) = Inr h"
    "sh_recs h \<subseteq># sh_recs (ss_top_candidates s)" "keys fst (sh_recs h) = take (nat (isp_topk p)) (keys fst (sh_recs (ss_top_candidates s)))"
    "sh_inv True h"
    using pop_to_size_ok [OF t(1)] std.size_ok [OF t(1)] by fastforce
  have "BasicSearcher_search_impl sr p collects skip vl = Inr (h, isp_duplicate_id p, s)"
    using s0(1) s(1) h(1) mode by (simp add: BasicSearcher_search_impl_def search_finish_def find_duplicate_id_def)
  moreover have "items ?ok d V = items ?ok d R"
    if ex: "isp_is_inner_id_allowed p = None" "\<forall>h. \<not> sr_CheckOvertime sr h" "card R < isp_hops_limit p" "card {i \<in> R. ?ok i} \<le> isp_ef p"
  proof (cases "isp_ef p \<le> size (items ?ok d V)")
    case True
    then show ?thesis using items_full [OF top(2) finR] ex(4) by (simp add: size_items)
  next
    case False
    have "finite V" using top(2) finR by (rule finite_subset)
    then have "\<forall>v\<in>V. set (nb v) \<subseteq> V" using greedy ex(1-3) False crowded_size by (fastforce simp: id_allowed_def)
    then have "R \<subseteq> V" using s(3) unfolding R_def by (intro reach_subset) auto
    then show ?thesis using top(2) by simp
  qed
  ultimately show ?thesis using s(3) top(2,3) h(2-4) t(2,3) greedy unfolding R_def
    by (intro exI [of _ h] exI [of _ s] exI [of _ V]) (auto intro: subset_mset.order_trans)
qed

text \<open>A sparse graph whose lists only name its own nodes is searchable.\<close>

definition graph_search :: "'k searcher \<Rightarrow> inner_search_param \<Rightarrow> sparse_graph \<Rightarrow> (inner_id \<Rightarrow> dist) \<Rightarrow> visited_list \<Rightarrow> bool" where
  "graph_search sr p g d vl \<longleftrightarrow>
     sg_inv g \<and> sr_GetNeighbors sr = Sparse_GetNeighbors g \<and> sr_MaximumDegree sr = gi_maximum_degree g \<and>
     (\<forall>v. Sparse_CheckIdExists g v \<longrightarrow> (\<forall>w\<in>set (sg_nbrs g v). Sparse_CheckIdExists g w) \<and> v < vl_max_size vl \<and>
        (\<exists>l. query_one sr p v = Inr (d v, l)) \<and> (isp_consider_duplicate p \<longrightarrow> sr_GetDuplicateIds sr v = Inr [])) \<and>
     Sparse_CheckIdExists g (isp_ep p) \<and> vl_inv vl \<and> vl_set vl = {}"

lemma graph_search_ok:
  assumes "graph_search sr p g d vl"
  shows "searchable sr p (sg_nbrs g) d {v. Sparse_CheckIdExists g v}"
  using assms sparse_cell.get_ok sparse_cell.degree_ok unfolding graph_search_def searchable_def by auto



section \<open>Duplicates\<close>

text \<open>
  A graph whose nodes may have duplicates, and the identifiers a walk over it can return: the visited nodes and the
  duplicates of those other than the entry point.
\<close>

definition dup_graph :: "'k searcher \<Rightarrow> inner_search_param \<Rightarrow> (inner_id \<Rightarrow> inner_id list) \<Rightarrow> (inner_id \<Rightarrow> inner_id list) \<Rightarrow> inner_id set \<Rightarrow> bool" where
  "dup_graph sr p nb dups S \<longleftrightarrow>
     (\<forall>v\<in>S. (\<forall>old. sr_GetNeighbors sr v old = Inr (nb v)) \<and> length (nb v) \<le> sr_MaximumDegree sr \<and> set (nb v) \<subseteq> S \<and>
        (\<exists>x l. query_one sr p v = Inr (x, l)) \<and> sr_GetDuplicateIds sr v = Inr (dups v))"

definition dup_ids :: "inner_id \<Rightarrow> (inner_id \<Rightarrow> inner_id list) \<Rightarrow> inner_id set \<Rightarrow> inner_id set" where
  "dup_ids ep dups V = V \<union> (\<Union>v\<in>V - {ep}. set (dups v))"

definition heap_ids :: "standard_heap \<Rightarrow> inner_id set" where
  "heap_ids h = snd ` set_mset (sh_recs h)"

lemma mheap_push_ids:
  "sh_inv True h \<Longrightarrow> \<exists>h'. mheap_push (x, i) h = Inr h' \<and> sh_inv True h' \<and> heap_ids h' = insert i (heap_ids h) \<and> size (sh_recs h') = Suc (size (sh_recs h))"
  using std.push_ok [of True h "(x, i)"] by (auto simp: heap_ids_def)

lemma mheap_pop_ids:
  assumes "sh_inv True h" "StandardHeap_Size h \<noteq> 0"
  shows "\<exists>h'. mheap_pop h = Inr h' \<and> sh_inv True h' \<and> heap_ids h' \<subseteq> heap_ids h"
proof -
  have "sh_recs h \<noteq> {#}" using std.size_ok [OF assms(1)] assms(2) by auto
  from std.top_ok [OF assms(1) this] obtain r h' where "mheap_pop h = Inr h'" "sh_inv True h'" "sh_recs h' = sh_recs h - {#r#}" by blast
  then show ?thesis unfolding heap_ids_def using set_mset_mono [OF diff_subset_eq_self] by (metis image_mono)
qed

lemma push_allowed_ids:
  "sh_inv True h \<and> heap_ids h \<subseteq> A \<Longrightarrow> i \<in> A \<Longrightarrow> \<exists>h'. push_allowed sr p x i h = Inr h' \<and> sh_inv True h' \<and> heap_ids h' \<subseteq> A"
  using mheap_push_ids [of h x i] by (auto simp: push_allowed_def)

lemma push_with_duplicates_ids:
  assumes "sh_inv True h" "heap_ids h \<subseteq> A" "sr_GetDuplicateIds sr i = Inr ids" "insert i (set ids) \<subseteq> A"
  shows "\<exists>h'. push_with_duplicates sr p x i h = Inr h' \<and> sh_inv True h' \<and> heap_ids h' \<subseteq> A"
proof -
  let ?P = "\<lambda>h. sh_inv True h \<and> heap_ids h \<subseteq> A"
  from push_allowed_ids [of h A i sr p x] assms obtain h1 where h1: "push_allowed sr p x i h = Inr h1" "?P h1" by auto
  moreover have "\<exists>h'. foldR (push_allowed sr p x) ids h1 = Inr h' \<and> ?P h'"
  proof (rule foldR_invariant [of ?P])
    show "?P h1" by (rule h1(2))
    show "\<exists>h'. push_allowed sr p x k h = Inr h' \<and> ?P h'" if "k \<in> set ids" "?P h" for k h
      using push_allowed_ids [of h A k sr p x] that assms(4) by blast
  qed
  ultimately show ?thesis using assms(3) by (auto simp: push_with_duplicates_def)
qed

text \<open>What the loop over the visited nodes keeps: \<open>A\<close> bounds the results, \<open>B\<close> the candidates.\<close>

definition dup_heaps :: "inner_id set \<Rightarrow> inner_id set \<Rightarrow> nat \<Rightarrow> 'k search_state \<Rightarrow> bool" where
  "dup_heaps A B n s \<longleftrightarrow> sh_inv True (ss_top_candidates s) \<and> heap_ids (ss_top_candidates s) \<subseteq> A \<and> sh_inv True (ss_candidate_set s) \<and>
     heap_ids (ss_candidate_set s) \<subseteq> B \<and> size (sh_recs (ss_candidate_set s)) \<le> n"

lemma search_one_dup:
  assumes "isp_search_mode p = KNN_SEARCH" "dup_heaps A B n s" "sr_GetDuplicateIds sr i = Inr ids" "insert i (set ids) \<subseteq> A" "i \<in> B"
  shows "\<exists>s'. search_one sr p c (i, x, l) s = Inr s' \<and> same_walk s s' \<and> dup_heaps A B (Suc n) s'"
proof -
  let ?top = "ss_top_candidates s" and ?cand = "ss_candidate_set s"
  have h: "sh_inv True ?top" "heap_ids ?top \<subseteq> A" "sh_inv True ?cand" "heap_ids ?cand \<subseteq> B" "size (sh_recs ?cand) \<le> n"
    using assms(2) by (simp_all add: dup_heaps_def)
  obtain c1 where c1: "mheap_push (- x, i) ?cand = Inr c1" "sh_inv True c1" "heap_ids c1 \<subseteq> B" "size (sh_recs c1) \<le> Suc n"
    using mheap_push_ids [OF h(3), of "- x" i] h(4,5) assms(5) by auto
  obtain t1 where t1: "push_with_duplicates sr p x i ?top = Inr t1" "sh_inv True t1" "heap_ids t1 \<subseteq> A"
    using push_with_duplicates_ids [OF h(1,2) assms(3,4)] by blast
  obtain t2 where t2: "(if StandardHeap_Size t1 > isp_ef p then mheap_pop t1 else Inr t1) = Inr t2" "sh_inv True t2" "heap_ids t2 \<subseteq> A"
  proof (cases "StandardHeap_Size t1 > isp_ef p")
    case True
    then have "StandardHeap_Size t1 \<noteq> 0" by simp
    from mheap_pop_ids [OF t1(2) this] show ?thesis using that t1(3) True by auto
  qed (use that t1 in auto)
  obtain b where b: "bound_of (ss_lower_bound s) t2 = Inr b" using bound_of_ok [OF t2(2)] by blast
  define s1 where "s1 = (if c \<and> l < ss_lower_bound s \<and> check_func sr p i then s\<lparr>ss_rabitq_candidates := ss_rabitq_candidates s @ [(l, i)]\<rparr> else s)"
  have s1: "ss_top_candidates s1 = ?top" "ss_candidate_set s1 = ?cand" "ss_lower_bound s1 = ss_lower_bound s" "same_walk s s1"
    by (simp_all add: s1_def same_walk_def)
  have eq: "search_one sr p c (i, x, l) s =
      (if StandardHeap_Size (ss_top_candidates s1) < isp_ef p \<or> ss_lower_bound s1 > x
       then bindR (mheap_push (- x, i) (ss_candidate_set s1)) (\<lambda>c1. bindR (push_with_duplicates sr p x i (ss_top_candidates s1)) (\<lambda>t1.
            bindR (if StandardHeap_Size t1 > isp_ef p then mheap_pop t1 else Inr t1) (\<lambda>t2. bindR (bound_of (ss_lower_bound s1) t2) (\<lambda>b.
              Inr (s1\<lparr>ss_candidate_set := c1, ss_top_candidates := t2, ss_lower_bound := b\<rparr>)))))
       else Inr s1)"
    using assms(1) by (simp add: search_one_def Let_def bound_of_def s1_def)
  have "search_one sr p c (i, x, l) s =
      (if StandardHeap_Size ?top < isp_ef p \<or> ss_lower_bound s > x
       then Inr (s1\<lparr>ss_candidate_set := c1, ss_top_candidates := t2, ss_lower_bound := b\<rparr>) else Inr s1)"
    unfolding eq s1(1-3) c1(1) t1(1) bindR_simps t2(1) b ..
  then show ?thesis using h c1(2-4) t2(2,3) s1 by (auto simp: dup_heaps_def same_walk_def)
qed

lemma search_ones_dup:
  assumes "isp_search_mode p = KNN_SEARCH" "\<forall>i\<in>set ids. sr_GetDuplicateIds sr i = Inr (dups i) \<and> insert i (set (dups i)) \<subseteq> A \<and> i \<in> B"
  shows "dup_heaps A B n s \<Longrightarrow> \<exists>s'. foldR (search_one sr p c) (map (\<lambda>i. (i, d i, l i)) ids) s = Inr s' \<and> same_walk s s' \<and> dup_heaps A B (n + length ids) s'"
  using assms(2)
proof (induction ids arbitrary: s n)
  case (Cons i ids)
  then obtain s1 where s1: "search_one sr p c (i, d i, l i) s = Inr s1" "same_walk s s1" "dup_heaps A B (Suc n) s1"
    using search_one_dup [OF assms(1) Cons.prems(1), of sr i "dups i" c "d i" "l i"] by auto
  from Cons.IH [OF s1(3)] Cons.prems(2) obtain s' where "foldR (search_one sr p c) (map (\<lambda>i. (i, d i, l i)) ids) s1 = Inr s'" "same_walk s1 s'"
    "dup_heaps A B (Suc n + length ids) s'" by auto
  then show ?case using s1(1,2) by (auto simp: same_walk_def)
qed (simp add: same_walk_def)

text \<open>The walk: every list of results names visited nodes and duplicates of visited nodes other than the entry point.\<close>

definition dup_walk :: "inner_search_param \<Rightarrow> (inner_id \<Rightarrow> inner_id list) \<Rightarrow> inner_id set \<Rightarrow> nat \<Rightarrow> 'k search_state \<Rightarrow> inner_id set \<Rightarrow> bool" where
  "dup_walk p dups R n s V \<longleftrightarrow> vl_inv (ss_vl s) \<and> vl_set (ss_vl s) = V \<and> R \<subseteq> {..<vl_max_size (ss_vl s)} \<and> V \<subseteq> R \<and> isp_ep p \<in> V \<and>
     dup_heaps (dup_ids (isp_ep p) dups V) V n s"

lemma dup_ids_mono: "V \<subseteq> W \<Longrightarrow> dup_ids ep dups V \<subseteq> dup_ids ep dups W"
  by (auto simp: dup_ids_def)

lemma search_expand_dup:
  assumes "isp_search_mode p = KNN_SEARCH" "dup_graph sr p nb dups R" "v \<in> V" "dup_walk p dups R n s V"
  shows "\<exists>s' W. search_expand sr p collects v s = Inr s' \<and> V \<subseteq> W \<and> dup_walk p dups R (n + card (R - V) - card (R - W)) s' W"
proof -
  have vl: "vl_inv (ss_vl s)" "vl_set (ss_vl s) = V" "R \<subseteq> {..<vl_max_size (ss_vl s)}" "V \<subseteq> R" "isp_ep p \<in> V"
    and heaps: "dup_heaps (dup_ids (isp_ep p) dups V) V n s" using assms(4) by (simp_all add: dup_walk_def)
  have finR: "finite R" using vl(3) finite_subset by blast
  have nbv: "sr_GetNeighbors sr v (ss_neighbors s) = Inr (nb v)" "length (nb v) \<le> sr_MaximumDegree sr" "set (nb v) \<subseteq> R"
    using assms(2,3) vl(4) by (auto simp: dup_graph_def)
  have "set (nb v) \<subseteq> {..<vl_max_size (ss_vl s)}" "length [] + length (nb v) \<le> sr_MaximumDegree sr" using nbv vl(3) by auto
  from visit_loop_ok [OF vl(1) this, of "isp_is_inner_id_allowed p" "ss_skip_strategy s"] obtain ids skip' vl' where
    vis: "visit_loop sr (isp_is_inner_id_allowed p) (nb v) [] (ss_skip_strategy s) (ss_vl s) = Inr (ids, skip', vl')" "vl_inv vl'"
      "vl_set vl' = V \<union> set (nb v)" "vl_max_size vl' = vl_max_size (ss_vl s)" "distinct ids" "set ids \<subseteq> set (nb v) - V" unfolding vl(2) by auto
  let ?W = "V \<union> set (nb v)" and ?A = "dup_ids (isp_ep p) dups (V \<union> set (nb v))"
  have "\<forall>i\<in>set ids. \<exists>x l. query_one sr p i = Inr (x, l)" using vis(6) nbv(3) assms(2) by (auto simp: dup_graph_def)
  then obtain d l where "\<forall>i\<in>set ids. query_one sr p i = Inr (d i, l i)" by metis
  then have q: "query_ids sr p ids = Inr (map (\<lambda>i. (i, d i, l i)) ids)" by (rule query_ids_ok)
  let ?s = "s\<lparr>ss_neighbors := nb v, ss_skip_strategy := skip', ss_vl := vl', ss_dist_cmp := u32 (ss_dist_cmp s + length ids)\<rparr>"
  let ?c = "isp_enable_rabitq_one_bit_search p \<and> StandardHeap_Size (ss_top_candidates s) = isp_ef p \<and> collects"
  have new: "\<forall>i\<in>set ids. sr_GetDuplicateIds sr i = Inr (dups i) \<and> insert i (set (dups i)) \<subseteq> ?A \<and> i \<in> ?W"
    using vis(6) nbv(3) assms(2) vl(5) by (auto simp: dup_graph_def dup_ids_def)
  have "dup_heaps ?A ?W n ?s" using heaps dup_ids_mono [of V ?W] by (auto simp: dup_heaps_def)
  from search_ones_dup [OF assms(1) new this, of ?c d l] obtain s' where s': "foldR (search_one sr p ?c) (map (\<lambda>i. (i, d i, l i)) ids) ?s = Inr s'"
    "same_walk ?s s'" "dup_heaps ?A ?W (n + length ids) s'" by blast
  have "length ids + card (R - ?W) = card (set ids \<union> (R - ?W))"
    using vis(6) finR distinct_card [OF vis(5)] by (subst card_Un_disjoint) auto
  also have "\<dots> \<le> card (R - V)" using vis(6) nbv(3) finR by (intro card_mono) auto
  finally have "n + length ids \<le> n + card (R - V) - card (R - ?W)" by simp
  then have "dup_heaps ?A ?W (n + card (R - V) - card (R - ?W)) s'" using s'(3) by (auto simp: dup_heaps_def)
  then have "dup_walk p dups R (n + card (R - V) - card (R - ?W)) s' ?W"
    using vis(2-4) vl nbv(3) s'(2) by (auto simp: dup_walk_def same_walk_def)
  moreover have "search_expand sr p collects v s = Inr s'" using nbv(1) vis(1) q s'(1) by (simp add: search_expand_def)
  ultimately show ?thesis by blast
qed

lemma dup_walk_size: "dup_walk p dups R n s V \<Longrightarrow> StandardHeap_Size (ss_candidate_set s) \<le> n"
  using std.size_ok [of True "ss_candidate_set s"] by (simp add: dup_walk_def dup_heaps_def)

lemma search_loop_dup:
  assumes "isp_search_mode p = KNN_SEARCH" "dup_graph sr p nb dups R"
    and "dup_walk p dups R m s V" "m + card (R - V) \<le> n"
  shows "\<exists>s' W m'. search_loop n sr p collects s = Inr s' \<and> dup_walk p dups R m' s' W"
  using assms(3,4)
proof (induction n arbitrary: s V m)
  case 0
  then show ?case using dup_walk_size [of p dups R m s V] by auto
next
  case (Suc n)
  let ?c = "ss_candidate_set s" and ?s = "s\<lparr>ss_hops := ss_hops s + 1\<rparr>"
  have c: "sh_inv True ?c" "heap_ids ?c \<subseteq> V" "size (sh_recs ?c) \<le> m" using Suc.prems(1) by (simp_all add: dup_walk_def dup_heaps_def)
  have w: "dup_walk p dups R m ?s V" using Suc.prems(1) by (simp add: dup_walk_def dup_heaps_def)
  show ?case
  proof (cases "StandardHeap_Size ?c = 0")
    case False
    then have "sh_recs ?c \<noteq> {#}" using std.size_ok [OF c(1)] by auto
    from std.top_ok [OF c(1) this] obtain r c0 where r: "StandardHeap_Top ?c = Inr r" "r \<in># sh_recs ?c" "mheap_pop ?c = Inr c0" "sh_inv True c0"
      "sh_recs c0 = sh_recs ?c - {#r#}" by blast
    have v: "snd r \<in> V" using c(2) r(2) by (auto simp: heap_ids_def)
    have "size (sh_recs c0) < size (sh_recs ?c)" "set_mset (sh_recs c0) \<subseteq> set_mset (sh_recs ?c)"
      using r(2,5) by (auto simp: size_Diff1_less in_diffD)
    then have "heap_ids c0 \<subseteq> V" "size (sh_recs c0) \<le> m - 1" and m: "0 < m" using c(2,3) image_mono unfolding heap_ids_def by (blast, simp_all)
    then have w0: "dup_walk p dups R (m - 1) (?s\<lparr>ss_candidate_set := c0\<rparr>) V" using w r(4) by (simp add: dup_walk_def dup_heaps_def)
    from search_expand_dup [OF assms(1,2) v w0, of collects] obtain s1 W where
      s1: "search_expand sr p collects (snd r) (?s\<lparr>ss_candidate_set := c0\<rparr>) = Inr s1" "V \<subseteq> W"
        "dup_walk p dups R (m - 1 + card (R - V) - card (R - W)) s1 W" by blast
    have "finite R" using w finite_subset [of R "{..<vl_max_size (ss_vl ?s)}"] by (auto simp: dup_walk_def)
    then have "card (R - W) \<le> card (R - V)" using s1(2) by (intro card_mono) auto
    then have "m - 1 + card (R - V) - card (R - W) + card (R - W) \<le> n" using Suc.prems(2) m by simp
    from Suc.IH [OF s1(3) this] obtain s' W' m' where s': "search_loop n sr p collects s1 = Inr s'" "dup_walk p dups R m' s' W'" by blast
    have "search_loop (Suc n) sr p collects s = Inr ?s \<or> search_loop (Suc n) sr p collects s = Inr s'"
      using False r(1,3) s1(1) s'(1) by (simp add: Let_def)
    then show ?thesis using w s'(2) by blast
  qed (use Suc.prems(1) in auto)
qed

lemma search_start_dup:
  assumes "isp_search_mode p = KNN_SEARCH" "query_one sr p (isp_ep p) = Inr (x, l)"
    and "vl_inv vl" "vl_set vl = {}" "isp_ep p \<in> R" "R \<subseteq> {..<vl_max_size vl}"
  shows "\<exists>s. search_start sr p skip vl = Inr s \<and> dup_walk p dups R 1 s {isp_ep p}"
proof -
  let ?e = "isp_ep p" and ?h = "StandardHeap_new (- 1)"
  obtain vl' where vl': "VisitedList_Set ?e vl = Inr vl'" "vl_inv vl'" "vl_set vl' = {?e}" "vl_max_size vl' = vl_max_size vl"
    using VisitedList_Set_ok [OF assms(3), of ?e] assms(4-6) by auto
  have h0: "sh_inv True ?h" "heap_ids ?h = {}" "size (sh_recs ?h) = 0" using heap_new_ok by (simp_all add: heap_ids_def)
  obtain c where c: "mheap_push (- x, ?e) ?h = Inr c" "sh_inv True c" "heap_ids c = {?e}" "size (sh_recs c) = 1"
    using mheap_push_ids [OF h0(1), of "- x" ?e] h0(2,3) by auto
  obtain t where t: "push_allowed sr p x ?e ?h = Inr t" "sh_inv True t" "heap_ids t \<subseteq> {?e}"
    using push_allowed_ids [of ?h "{?e}" ?e sr p x] h0 by auto
  show ?thesis using assms(1,2,5,6) vl' c t by (auto simp: search_start_def dup_walk_def dup_heaps_def dup_ids_def)
qed

text \<open>
  Claim C35. A search with \<open>consider_duplicate\<close> (k nearest neighbours, no search for a duplicate of the query) returns
  the duplicates of the visited nodes, but never those of the entry point: on any graph, whatever its size, the filters,
  the limits and the timer are, the search ends without error and no record of its result names a duplicate of the entry
  point, unless this is a node of the graph or a duplicate of another node.
\<close>

theorem BasicSearcher_misses_entry_duplicates:
  assumes "isp_search_mode p = KNN_SEARCH" "\<not> isp_find_duplicate p" "0 \<le> isp_topk p" "isp_topk p < 2 ^ 63" "isp_consider_duplicate p"
    and "dup_graph sr p nb dups S" "isp_ep p \<in> S" "S \<subseteq> {..<vl_max_size vl}" "vl_inv vl" "vl_set vl = {}"
    and "j \<in> set (dups (isp_ep p))" "j \<notin> S" "\<forall>v\<in>S - {isp_ep p}. j \<notin> set (dups v)"
  shows "\<exists>h s. BasicSearcher_search_impl sr p collects skip vl = Inr (h, isp_duplicate_id p, s) \<and> (\<forall>x. (x, j) \<notin># sh_recs h)"
proof -
  obtain x l where q: "query_one sr p (isp_ep p) = Inr (x, l)" using assms(6,7) by (auto simp: dup_graph_def)
  from search_start_dup [OF assms(1) q assms(9,10,7,8), of skip dups] obtain s0 where s0: "search_start sr p skip vl = Inr s0" "dup_walk p dups S 1 s0 {isp_ep p}" by blast
  have "finite S" using assms(8) by (rule finite_subset) simp
  then have "1 + card (S - {isp_ep p}) = card S" using card_Suc_Diff1 [OF _ assms(7)] by simp
  moreover have "card S \<le> vl_max_size vl" using card_mono [OF _ assms(8)] by simp
  ultimately have "1 + card (S - {isp_ep p}) \<le> vl_max_size vl" by simp
  from search_loop_dup [OF assms(1,6) s0(2) this, of collects] obtain s W m where s: "search_loop (vl_max_size vl) sr p collects s0 = Inr s" "dup_walk p dups S m s W" by blast
  have top: "sh_inv True (ss_top_candidates s)" "heap_ids (ss_top_candidates s) \<subseteq> dup_ids (isp_ep p) dups W" "W \<subseteq> S"
    using s(2) by (simp_all add: dup_walk_def dup_heaps_def)
  obtain h where h: "pop_to_size (StandardHeap_Size (ss_top_candidates s)) (nat (isp_topk p)) (ss_top_candidates s) = Inr h"
    "sh_recs h \<subseteq># sh_recs (ss_top_candidates s)" using pop_to_size_ok [OF top(1)] std.size_ok [OF top(1)] by fastforce
  have "j \<notin> dup_ids (isp_ep p) dups W" using assms(12,13) top(3) by (auto simp: dup_ids_def)
  moreover have "heap_ids h \<subseteq> heap_ids (ss_top_candidates s)" using set_mset_mono [OF h(2)] by (auto simp: heap_ids_def)
  ultimately have "j \<notin> heap_ids h" using top(2) by blast
  then have "(x, j) \<notin># sh_recs h" for x by (force simp: heap_ids_def)
  moreover have "BasicSearcher_search_impl sr p collects skip vl = Inr (h, isp_duplicate_id p, s)"
    using s0(1) s(1) h(1) assms(1-4) by (simp add: BasicSearcher_search_impl_def search_finish_def find_duplicate_id_def)
  ultimately show ?thesis by blast
qed

section \<open>Examples\<close>

text \<open>A graph with an edge from 0 to 1, and a searcher on it: 1 is nearer than 0.\<close>

lemma two_nodes:
  obtains g where "sg_inv g" "sg_nbrs g = (\<lambda>x. if x = 0 then [1] else [])" "gi_maximum_degree g = 4"
    "\<forall>x. Sparse_CheckIdExists g x \<longleftrightarrow> x = 0 \<or> x = 1"
proof -
  obtain g0 where g0: "SparseGraphDataCell_new 4 8 True False True = Inr g0" by (simp add: SparseGraphDataCell_new_def)
  note new = Sparse_new_inv [OF g0, simplified]
  have none: "\<not> Sparse_CheckIdExists g0 x" for x using g0 by (auto simp: SparseGraphDataCell_new_def Let_def Sparse_CheckIdExists_def)
  have inv: "sg_inv g0" using new(1) by (simp add: sg_rev_inv_def)
  obtain g1 where g1: "sg_inv g1" "sg_nbrs g1 = (sg_nbrs g0)(0 := [1])" "gi_maximum_degree g1 = 4" "sg_limit g1 = 2 ^ 24"
    "\<forall>x. Sparse_CheckIdExists g1 x \<longleftrightarrow> Sparse_CheckIdExists g0 x \<or> x = 0"
    using sparse_cell.ins_ok [OF inv, of 0 "[1]"] new(3,4) by auto
  obtain g2 where g2: "sg_inv g2" "sg_nbrs g2 = (sg_nbrs g1)(1 := [])" "gi_maximum_degree g2 = 4"
    "\<forall>x. Sparse_CheckIdExists g2 x \<longleftrightarrow> Sparse_CheckIdExists g1 x \<or> x = 1"
    using sparse_cell.ins_ok [OF g1(1), of 1 "[]"] g1(3,4) by auto
  have "sg_nbrs g2 = (\<lambda>x. if x = 0 then [1] else [])" using g2(2) g1(2) new(2) by auto
  then show thesis using that [of g2] g2(1,3,4) g1(5) none by blast
qed

definition demo_param :: inner_search_param where
  "demo_param = \<lparr>isp_topk = 1, isp_radius = 0, isp_ep = 0, isp_ef = 2, isp_hops_limit = 100, isp_is_inner_id_allowed = None,
     isp_search_mode = KNN_SEARCH, isp_range_search_limit_size = - 1, isp_enable_rabitq_one_bit_search = False, isp_duplicate_id = - 1,
     isp_duplicate_query_id = 0, isp_find_duplicate = False, isp_duplicate_distance_threshold = 0, isp_consider_duplicate = True\<rparr>"

definition demo_searcher :: "(inner_id \<Rightarrow> inner_id list \<Rightarrow> inner_id list result) \<Rightarrow> (inner_id \<Rightarrow> inner_id list) \<Rightarrow> unit searcher" where
  "demo_searcher get dups = \<lparr>sr_GetNeighbors = get, sr_GetDuplicateIds = (\<lambda>i. Inr (dups i)), sr_MaximumDegree = 4, sr_Query = (\<lambda>i. Inr (5 - int i)),
     sr_QueryWithDistanceLowerBound = (\<lambda>i. Inr (0, 0)), sr_TotalCount = 2, sr_CompareVectors = (\<lambda>i j. Inr (i = j)),
     sr_ShouldSkipFilterCheck = (\<lambda>k. (False, k)), sr_attr_ft = None, sr_CheckOvertime = (\<lambda>h. False), sr_radius_bound = (\<lambda>r. r)\<rparr>"

lemma demo_search:
  assumes "sg_inv g" "sg_nbrs g = (\<lambda>x. if x = 0 then [1] else [])" "gi_maximum_degree g = 4"
    "\<forall>x. Sparse_CheckIdExists g x \<longleftrightarrow> x = 0 \<or> x = 1"
  shows "graph_search (demo_searcher (Sparse_GetNeighbors g) (\<lambda>_. [])) demo_param g (\<lambda>i. 5 - int i) (VisitedList_new 2)"
  using assms VisitedList_new_ok [of 2] by (auto simp: graph_search_def demo_searcher_def demo_param_def query_one_def)

lemma demo_reach: "reach (\<lambda>x. if x = 0 then [1] else []) 0 = {0, 1}"
  using reach_subset [of 0 "{0, 1}" "\<lambda>x. if x = 0 then [1] else []"] reach.start [of 0 "\<lambda>x. if x = 0 then [1] else []"]
    reach.step [of 0 "\<lambda>x. if x = 0 then [1] else []" 0 1] by auto



theorem BasicSearcher_misses_entry_duplicates_witness:
  "\<exists>h s. sr_GetDuplicateIds (demo_searcher (\<lambda>x _. Inr (if x = 0 then [1] else [])) (\<lambda>x. if x = 0 then [2] else [])) 0 = Inr [2] \<and>
    BasicSearcher_search_impl (demo_searcher (\<lambda>x _. Inr (if x = 0 then [1] else [])) (\<lambda>x. if x = 0 then [2] else [])) (demo_param\<lparr>isp_topk := 2\<rparr>) False ()
      (VisitedList_new 3) = Inr (h, - 1, s) \<and> (\<forall>x. (x, 2) \<notin># sh_recs h)"
proof -
  let ?nb = "\<lambda>x :: inner_id. if x = 0 then [1] else [] :: inner_id list" and ?dups = "\<lambda>x :: inner_id. if x = 0 then [2] else [] :: inner_id list"
  let ?sr = "demo_searcher (\<lambda>x _. Inr (?nb x)) ?dups" and ?p = "demo_param\<lparr>isp_topk := 2\<rparr>"
  have g: "dup_graph ?sr ?p ?nb ?dups {0, 1}" by (simp add: dup_graph_def demo_searcher_def query_one_def demo_param_def)
  have "\<exists>h s. BasicSearcher_search_impl ?sr ?p False () (VisitedList_new 3) = Inr (h, isp_duplicate_id ?p, s) \<and> (\<forall>x. (x, 2) \<notin># sh_recs h)"
    by (rule BasicSearcher_misses_entry_duplicates [OF _ _ _ _ _ g]) (simp_all add: demo_param_def VisitedList_new_ok)
  then show ?thesis by (simp add: demo_searcher_def demo_param_def)
qed

text \<open>Sequences of operations on a visited list, and what they mean for a set.\<close>

datatype vl_op = VSet inner_id | VReset

fun vl_run :: "vl_op \<Rightarrow> visited_list \<Rightarrow> visited_list result" where
  "vl_run (VSet i) vl = VisitedList_Set i vl"
| "vl_run VReset vl = Inr (VisitedList_Reset vl)"

fun vl_spec :: "vl_op \<Rightarrow> inner_id set \<Rightarrow> inner_id set" where
  "vl_spec (VSet i) S = insert i S"
| "vl_spec VReset S = {}"

lemma vl_run_ok:
  assumes "vl_inv vl" "\<forall>i. VSet i \<in> set ops \<longrightarrow> i < vl_max_size vl"
  shows "\<exists>vl'. foldR vl_run ops vl = Inr vl' \<and> vl_inv vl' \<and> vl_set vl' = fold vl_spec ops (vl_set vl) \<and> vl_max_size vl' = vl_max_size vl"
  using assms
proof (induction ops arbitrary: vl)
  case (Cons x ops)
  have "\<exists>vl1. vl_run x vl = Inr vl1 \<and> vl_inv vl1 \<and> vl_set vl1 = vl_spec x (vl_set vl) \<and> vl_max_size vl1 = vl_max_size vl"
  proof (cases x)
    case (VSet i)
    then show ?thesis using VisitedList_Set_ok [OF Cons.prems(1), of i] Cons.prems(2) by simp
  qed (use VisitedList_Reset_ok [OF Cons.prems(1)] in simp)
  then obtain vl1 where "vl_run x vl = Inr vl1" "vl_inv vl1" "vl_set vl1 = vl_spec x (vl_set vl)" "vl_max_size vl1 = vl_max_size vl" by blast
  then show ?case using Cons.IH [of vl1] Cons.prems(2) by auto
qed simp

text \<open>
  A visited list behaves as a set under any sequence of \<open>Set\<close> and \<open>Reset\<close>, also when the
  16-bit tag runs out and the list is cleared: \<open>Get\<close> is true exactly for the identifiers set since
  the last reset.
\<close>

lemma VisitedList_refines_set:
  assumes "\<forall>i. VSet i \<in> set ops \<longrightarrow> i < n" "i < n"
  shows "\<exists>vl. foldR vl_run ops (VisitedList_new n) = Inr vl \<and> VisitedList_Get i vl = Inr (i \<in> fold vl_spec ops {})"
  using vl_run_ok [OF VisitedList_new_ok(1), of ops n] VisitedList_new_ok [of n] VisitedList_Get_ok assms by fastforce

text \<open>After as many resets as the tag has values, an entry of the first round is not taken for a new one.\<close>

end
