(* ===== verification/IVFSearch.thy ===== *)
theory IVFSearch
  imports Searcher
begin

text \<open>
  \<open>IVF::search\<close> of \<open>src/algorithm/ivf.cpp\<close>: the scan of the candidate buckets with one or several
  threads, the merging of their heaps, and the removal of duplicates when a vector lies in several
  buckets. The partition strategy, the distances of a bucket, the filters and the timer are arguments.

  The threads share the bound \<open>cur_heap_top\<close> without synchronisation. A parallel scan is an explicit
  schedule of steps, in which a step may read any value the bound has had.
\<close>

section \<open>Scanning\<close>

text \<open>The number of records to keep, and the scaled one for vectors in several buckets.\<close>

definition int64_max :: int where
  "int64_max = 2 ^ 63 - 1"

definition ivf_origin_topk :: "inner_search_param \<Rightarrow> int" where
  "ivf_origin_topk p =
     (if isp_search_mode p = RANGE_SEARCH
      then (if isp_range_search_limit_size p < 0 then int64_max else isp_range_search_limit_size p)
      else isp_topk p)"

definition ivf_topk :: "nat \<Rightarrow> inner_search_param \<Rightarrow> int" where
  "ivf_topk buckets_per_data p =
     (let topk = ivf_origin_topk p
      in if buckets_per_data > 1 then
           (if topk \<le> int64_max div int buckets_per_data then topk * int buckets_per_data else int64_max)
         else topk)"

text \<open>One record that passed the filters: the heap and the bound after it.\<close>

definition scan_record ::
  "inner_search_param \<Rightarrow> dist \<Rightarrow> int \<Rightarrow> dist \<Rightarrow> dist_record \<Rightarrow> distance_heap \<Rightarrow> (distance_heap \<times> dist option) result" where
  "scan_record p radius_bound topk cur_heap_top r heap =
     bindR (if (if isp_search_mode p = KNN_SEARCH then Heap_Size heap < as_u64 topk \<or> fst r < cur_heap_top
                else fst r \<le> radius_bound \<and> fst r < cur_heap_top)
            then Heap_Push True False r heap else Inr heap) (\<lambda>heap.
     bindR (if Heap_Size heap > as_u64 topk then Heap_Pop True heap else Inr heap) (\<lambda>heap.
       if Heap_Size heap \<noteq> 0 \<and> Heap_Size heap = as_u64 topk
       then bindR (Heap_Top heap) (\<lambda>t. Inr (heap, Some (fst t)))
       else Inr (heap, None)))"

text \<open>The records of a bucket that pass the filters; \<open>attr\<close> tests the position, the other the vector.\<close>

definition bucket_records ::
  "inner_search_param \<Rightarrow> nat \<Rightarrow> (nat \<Rightarrow> bool) option \<Rightarrow> (inner_id \<times> dist) list \<Rightarrow> dist_record list" where
  "bucket_records p buckets_per_data attr_ft bucket =
     map (\<lambda>(j, i, d). (d, i))
       (filter (\<lambda>(j, i, d). (case attr_ft of None \<Rightarrow> True | Some f \<Rightarrow> f j) \<and>
            (case isp_is_inner_id_allowed p of None \<Rightarrow> True | Some f \<Rightarrow> f (i div buckets_per_data)))
          (List.enumerate 0 bucket))"

definition scan_next :: "inner_search_param \<Rightarrow> dist \<Rightarrow> int \<Rightarrow> dist_record \<Rightarrow> distance_heap \<times> dist \<Rightarrow> (distance_heap \<times> dist) result" where
  "scan_next p radius_bound topk r = (\<lambda>(heap, cur_heap_top).
     bindR (scan_record p radius_bound topk cur_heap_top r heap) (\<lambda>(heap, new). Inr (heap, case new of None \<Rightarrow> cur_heap_top | Some c \<Rightarrow> c)))"

text \<open>
  The buckets of one thread. A bucket identifier of -1 ends the scan, and so does the timer. \<open>bucket\<close>
  gives the identifiers and distances of a bucket, \<open>attr\<close> the attribute filter of a bucket.
\<close>

fun scan_buckets ::
  "inner_search_param \<Rightarrow> dist \<Rightarrow> int \<Rightarrow> nat \<Rightarrow> (int \<Rightarrow> (inner_id \<times> dist) list result) \<Rightarrow> (int \<Rightarrow> (nat \<Rightarrow> bool) option) \<Rightarrow> (int \<Rightarrow> bool) \<Rightarrow>
     int list \<Rightarrow> distance_heap \<times> dist \<Rightarrow> (distance_heap \<times> dist) result" where
  "scan_buckets p radius_bound topk buckets_per_data bucket attr overtime [] s = Inr s"
| "scan_buckets p radius_bound topk buckets_per_data bucket attr overtime (b # bs) s =
     (if overtime b \<or> b = - 1 then Inr s
      else bindR (bucket b) (\<lambda>recs.
           bindR (foldR (scan_next p radius_bound topk) (bucket_records p buckets_per_data (attr b) recs) s)
             (scan_buckets p radius_bound topk buckets_per_data bucket attr overtime bs)))"

section \<open>Several threads\<close>

text \<open>
  A step of the schedule: the thread, how many writes ago the bound it reads was written, and the record.
  The state is the heaps and the values the bound has had, the last one first.
\<close>

type_synonym scan_event = "nat \<times> nat \<times> dist_record"

definition scan_event_step ::
  "inner_search_param \<Rightarrow> dist \<Rightarrow> int \<Rightarrow> scan_event \<Rightarrow> distance_heap list \<times> dist list \<Rightarrow> (distance_heap list \<times> dist list) result" where
  "scan_event_step p radius_bound topk = (\<lambda>(t, stale, r) (heaps, bounds).
     bindR (scan_record p radius_bound topk (bounds ! min stale (length bounds - 1)) r (heaps ! t)) (\<lambda>(heap, new).
       Inr (heaps[t := heap], case new of None \<Rightarrow> bounds | Some c \<Rightarrow> c # bounds)))"

text \<open>The heaps of the threads are pushed into one heap of fixed size.\<close>

definition merge_heaps :: "int \<Rightarrow> distance_heap list \<Rightarrow> distance_heap result" where
  "merge_heaps topk heaps =
     foldR (\<lambda>heap result. if Heap_Size heap > length (Heap_GetData heap) then Inl UB
              else foldR (Heap_Push True True) (take (Heap_Size heap) (Heap_GetData heap)) result)
       heaps (MakeInstanceBySize True topk)"

definition ivf_parallel_scan :: "inner_search_param \<Rightarrow> dist \<Rightarrow> int \<Rightarrow> nat \<Rightarrow> scan_event list \<Rightarrow> distance_heap result" where
  "ivf_parallel_scan p radius_bound topk search_thread_count schedule =
     bindR (foldR (scan_event_step p radius_bound topk) schedule
              (replicate search_thread_count (MakeInstanceBySize False topk), [float_max])) (\<lambda>(heaps, _).
       merge_heaps topk heaps)"

section \<open>Duplicates\<close>

text \<open>
  The least distance of every vector, in a map; \<open>hash_order\<close> is the order in which the map is iterated.
  The heap is the one of the scan, which has a fixed size when there were several threads.
\<close>

definition add_min :: "nat \<Rightarrow> dist_record \<Rightarrow> (inner_id \<times> dist) list \<Rightarrow> (inner_id \<times> dist) list" where
  "add_min buckets_per_data = (\<lambda>(dist_val, i) m.
     let origin_id = i div buckets_per_data
     in case map_of m origin_id of
          None \<Rightarrow> AList.update origin_id dist_val m
        | Some d \<Rightarrow> (if dist_val < d then AList.update origin_id dist_val m else m))"

definition dedup_push :: "bool \<Rightarrow> int \<Rightarrow> inner_id \<times> dist \<Rightarrow> distance_heap \<times> dist \<Rightarrow> (distance_heap \<times> dist) result" where
  "dedup_push fixed_size origin_topk = (\<lambda>(origin_id, dist_val) (heap, cur_heap_top2).
     bindR (if dist_val < cur_heap_top2 then Heap_Push True fixed_size (dist_val, origin_id) heap else Inr heap) (\<lambda>heap.
     bindR (if Heap_Size heap > as_u64 origin_topk then Heap_Pop True heap else Inr heap) (\<lambda>heap.
       if Heap_Size heap \<noteq> 0 \<and> Heap_Size heap = as_u64 origin_topk
       then bindR (Heap_Top heap) (\<lambda>t. Inr (heap, fst t)) else Inr (heap, cur_heap_top2))))"

definition ivf_dedup ::
  "((inner_id \<times> dist) list \<Rightarrow> (inner_id \<times> dist) list) \<Rightarrow> bool \<Rightarrow> nat \<Rightarrow> int \<Rightarrow> distance_heap \<Rightarrow> distance_heap result" where
  "ivf_dedup hash_order fixed_size buckets_per_data origin_topk search_result =
     bindR (heap_drain (Heap_Size search_result) Heap_Top (Heap_Pop True) Heap_Size search_result) (\<lambda>(recs, heap).
     bindR (foldR (dedup_push fixed_size origin_topk) (hash_order (fold (add_min buckets_per_data) recs [])) (heap, float_max)) (\<lambda>(heap, _).
       Inr heap))"

text \<open>The search with one thread.\<close>

definition IVF_search ::
  "inner_search_param \<Rightarrow> dist \<Rightarrow> nat \<Rightarrow> (int \<Rightarrow> (inner_id \<times> dist) list result) \<Rightarrow> (int \<Rightarrow> (nat \<Rightarrow> bool) option) \<Rightarrow> (int \<Rightarrow> bool) \<Rightarrow>
     ((inner_id \<times> dist) list \<Rightarrow> (inner_id \<times> dist) list) \<Rightarrow> int list \<Rightarrow> distance_heap result" where
  "IVF_search p radius_bound buckets_per_data bucket attr overtime hash_order candidate_buckets =
     (let topk = ivf_topk buckets_per_data p
      in bindR (scan_buckets p radius_bound topk buckets_per_data bucket attr overtime candidate_buckets
                  (MakeInstanceBySize False topk, float_max)) (\<lambda>(search_result, _).
           if buckets_per_data > 1 then ivf_dedup hash_order False buckets_per_data (ivf_origin_topk p) search_result
           else Inr search_result))"

text \<open>The search with several threads.\<close>

definition IVF_search_parallel ::
  "inner_search_param \<Rightarrow> dist \<Rightarrow> nat \<Rightarrow> ((inner_id \<times> dist) list \<Rightarrow> (inner_id \<times> dist) list) \<Rightarrow> nat \<Rightarrow> scan_event list \<Rightarrow> distance_heap result" where
  "IVF_search_parallel p radius_bound buckets_per_data hash_order search_thread_count schedule =
     bindR (ivf_parallel_scan p radius_bound (ivf_topk buckets_per_data p) search_thread_count schedule) (\<lambda>search_result.
       if buckets_per_data > 1 then ivf_dedup hash_order True buckets_per_data (ivf_origin_topk p) search_result
       else Inr search_result)"

section \<open>The unbounded heap for large results\<close>

fun ustd_inv :: "distance_heap \<Rightarrow> bool" where
  "ustd_inv (Standard s) = sh_inv True s"
| "ustd_inv (Memmove s) = False"

interpretation ustd: dist_heap Heap_Top "Heap_Pop True" Heap_Size heap_recs ustd_inv "key True" "Heap_Push True False"
proof (unfold_locales, goal_cases)
  case (1 s)
  then show ?case by (cases s) (simp_all add: std.size_ok)
next
  case (2 s)
  then obtain h where h: "s = Standard h" "sh_inv True h" "sh_recs h \<noteq> {#}" by (cases s) auto
  from std.top_ok [OF h(2,3)] show ?case using h(1) by fastforce
next
  case (3 s r)
  then obtain h where h: "s = Standard h" "sh_inv True h" by (cases s) auto
  from std.push_ok [OF h(2), of r] show ?case using h(1) by fastforce
qed

lemma ustd_new: "10 \<le> n \<Longrightarrow> ustd_inv (MakeInstanceBySize b n) \<and> heap_recs (MakeInstanceBySize b n) = {#}"
  by (simp add: MakeInstanceBySize_def heap_new_ok)

text \<open>A record that is not nearer than \<open>k\<close> others does not change the \<open>k\<close> least distances.\<close>

lemma keys_skip:
  assumes "k \<le> size (filter_mset (\<lambda>x. fst x \<le> c) R)" "c \<le> fst r"
  shows "take k (keys fst (add_mset r R)) = take k (keys fst R)"
proof -
  let ?K = "keys fst R"
  have f: "length (filter (\<lambda>x. x \<le> c) ?K) = size (filter_mset (\<lambda>x. fst x \<le> c) R)"
  proof -
    have "length (filter (\<lambda>x. x \<le> c) ?K) = size (filter_mset (\<lambda>x. x \<le> c) (mset ?K))" by (metis mset_filter size_mset)
    then show ?thesis by (simp add: filter_mset_image_mset)
  qed
  have le: "\<forall>y\<in>set (take k ?K). y \<le> c"
  proof (rule ccontr)
    assume "\<not> (\<forall>y\<in>set (take k ?K). y \<le> c)"
    then obtain i where i: "i < k" "i < length ?K" "\<not> ?K ! i \<le> c" by (auto simp: in_set_conv_nth)
    have "x \<notin> set (drop i ?K)" if "x \<le> c" for x
    proof
      assume "x \<in> set (drop i ?K)"
      then obtain j where "j < length ?K - i" "?K ! (i + j) = x" by (auto simp: in_set_conv_nth)
      moreover from this have "i + j < length ?K" by linarith
      ultimately show False using that i(3) sorted_nth_mono [of ?K i "i + j"] by simp
    qed
    then have "filter (\<lambda>x. x \<le> c) (drop i ?K) = []" by (auto simp: filter_empty_conv)
    then have "filter (\<lambda>x. x \<le> c) ?K = filter (\<lambda>x. x \<le> c) (take i ?K)" by (metis append_Nil2 append_take_drop_id filter_append)
    then have "length (filter (\<lambda>x. x \<le> c) ?K) \<le> length (take i ?K)" by (metis length_filter_le)
    then have "length (filter (\<lambda>x. x \<le> c) ?K) \<le> i" by simp
    then show False using f assms(1) i(1) by simp
  qed
  have len: "length (take k ?K) = k" using order_trans [OF assms(1) size_mset_mono [OF multiset_filter_subset]] by simp
  have "insort (fst r) (take k ?K) = take k ?K @ [fst r]" using le assms(2) by (intro insort_last) (auto intro: sorted_wrt_take)
  then have "take k (insort (fst r) (take k ?K)) = take k ?K" using len by simp
  then show ?thesis by (simp add: take_insort keys_add)
qed

section \<open>One record\<close>

definition wanted :: "inner_search_param \<Rightarrow> dist \<Rightarrow> dist_record \<Rightarrow> bool" where
  "wanted p radius_bound r \<longleftrightarrow> (isp_search_mode p = RANGE_SEARCH \<longrightarrow> fst r \<le> radius_bound)"

lemma heap_trim_ok:
  assumes "ustd_inv h" "size (heap_recs h) \<le> Suc k"
  shows "\<exists>h'. (if Heap_Size h > k then Heap_Pop True h else Inr h) = Inr h' \<and> ustd_inv h' \<and> size (heap_recs h') \<le> k \<and>
    heap_recs h' \<subseteq># heap_recs h \<and> keys fst (heap_recs h') = take k (keys fst (heap_recs h))"
proof (cases "size (heap_recs h) > k")
  case True
  then have "heap_recs h \<noteq> {#}" by auto
  from ustd.top_ok [OF assms(1) this] obtain t h' where t: "t \<in># heap_recs h" "\<forall>x\<in>#heap_recs h. fst x \<le> fst t" "Heap_Pop True h = Inr h'" "ustd_inv h'"
    "heap_recs h' = heap_recs h - {#t#}" unfolding key_True by blast
  have "size (heap_recs h) - 1 = k" using True assms(2) by simp
  then show ?thesis using True t keys_remove_max [OF t(1,2)] ustd.size_ok [OF assms(1)] by (simp add: size_Diff_singleton)
next
  case False
  then show ?thesis using assms(1) ustd.size_ok [OF assms(1)] by simp
qed

lemma scan_record_ok:
  assumes "ustd_inv h" "size (heap_recs h) \<le> k" "as_u64 topk = k" "0 < k"
  shows "\<exists>h' new. scan_record p rb topk c r h = Inr (h', new) \<and> ustd_inv h' \<and> size (heap_recs h') \<le> k \<and>
    (heap_recs h' \<subseteq># add_mset r (heap_recs h) \<and> keys fst (heap_recs h') = take k (keys fst (add_mset r (heap_recs h))) \<and> wanted p rb r \<or>
     heap_recs h' = heap_recs h \<and> (wanted p rb r \<longrightarrow> c \<le> fst r)) \<and>
    (\<forall>c'. new = Some c' \<longrightarrow> size (heap_recs h') = k \<and> (\<forall>x\<in>#heap_recs h'. fst x \<le> c'))"
proof -
  let ?b = "if isp_search_mode p = KNN_SEARCH then Heap_Size h < k \<or> fst r < c else fst r \<le> rb \<and> fst r < c"
  obtain h1 where h1: "(if ?b then Heap_Push True False r h else Inr h) = Inr h1" "ustd_inv h1"
    "heap_recs h1 = (if ?b then add_mset r (heap_recs h) else heap_recs h)"
    using ustd.push_ok [OF assms(1), of r] assms(1) by (cases ?b) auto
  have sz: "size (heap_recs h1) \<le> Suc k" using assms(2) unfolding h1(3) by simp
  obtain h2 where h2: "(if Heap_Size h1 > k then Heap_Pop True h1 else Inr h1) = Inr h2" "ustd_inv h2" "size (heap_recs h2) \<le> k"
    "heap_recs h2 \<subseteq># heap_recs h1" "keys fst (heap_recs h2) = take k (keys fst (heap_recs h1))"
    using heap_trim_ok [OF h1(2) sz] by blast
  have mode: "isp_search_mode p = KNN_SEARCH \<or> isp_search_mode p = RANGE_SEARCH" by (cases "isp_search_mode p") auto
  have same: "heap_recs h2 = heap_recs h" if nb: "\<not> ?b"
  proof -
    have "size (heap_recs h1) \<le> k" using h1(3) assms(2) nb by simp
    then have "h2 = h1" using h2(1) ustd.size_ok [OF h1(2)] by simp
    then show ?thesis using h1(3) nb by simp
  qed
  have new: "\<exists>new. (if Heap_Size h2 \<noteq> 0 \<and> Heap_Size h2 = k then bindR (Heap_Top h2) (\<lambda>t. Inr (h2, Some (fst t))) else Inr (h2, None)) = Inr (h2, new) \<and>
    (\<forall>c'. new = Some c' \<longrightarrow> size (heap_recs h2) = k \<and> (\<forall>x\<in>#heap_recs h2. fst x \<le> c'))"
  proof (cases "Heap_Size h2 \<noteq> 0 \<and> Heap_Size h2 = k")
    case True
    then have "heap_recs h2 \<noteq> {#}" using ustd.size_ok [OF h2(2)] by auto
    from ustd.top_ok [OF h2(2) this] show ?thesis using True ustd.size_ok [OF h2(2)] unfolding key_True by auto
  qed auto
  then obtain new where new: "(if Heap_Size h2 \<noteq> 0 \<and> Heap_Size h2 = k then bindR (Heap_Top h2) (\<lambda>t. Inr (h2, Some (fst t))) else Inr (h2, None)) = Inr (h2, new)"
    "\<forall>c'. new = Some c' \<longrightarrow> size (heap_recs h2) = k \<and> (\<forall>x\<in>#heap_recs h2. fst x \<le> c')" by blast
  have "scan_record p rb topk c r h = Inr (h2, new)" unfolding scan_record_def assms(3) h1(1) bindR_simps h2(1) using new(1) by simp
  moreover have "heap_recs h2 \<subseteq># add_mset r (heap_recs h) \<and> keys fst (heap_recs h2) = take k (keys fst (add_mset r (heap_recs h))) \<and> wanted p rb r"
    if b: ?b using h1(3) h2(4,5) b mode by (auto simp: wanted_def split: if_splits)
  moreover have "wanted p rb r \<longrightarrow> c \<le> fst r" if nb: "\<not> ?b" using nb mode by (auto simp: wanted_def split: if_splits)
  ultimately show ?thesis using h2(2,3) new(2) same by blast
qed

section \<open>Every schedule finds the nearest records\<close>

definition all_recs :: "distance_heap list \<Rightarrow> dist_record multiset" where
  "all_recs heaps = sum_list (map heap_recs heaps)"

lemma all_recs_update:
  assumes "t < length heaps"
  shows "\<exists>X. all_recs heaps = X + heap_recs (heaps ! t) \<and> (\<forall>h. all_recs (heaps[t := h]) = X + heap_recs h)"
proof -
  let ?X = "all_recs (take t heaps) + all_recs (drop (Suc t) heaps)"
  have "all_recs heaps = ?X + heap_recs (heaps ! t)"
    using assms by (subst id_take_nth_drop [OF assms]) (simp add: all_recs_def ac_simps)
  moreover have "all_recs (heaps[t := h]) = ?X + heap_recs h" for h
    using assms by (subst upd_conv_take_nth_drop [OF assms]) (simp add: all_recs_def ac_simps)
  ultimately show ?thesis by blast
qed

text \<open>
  The invariant of a scan: together the heaps hold the \<open>k\<close> nearest of the records \<open>R\<close> seen so far, and
  every value the bound has had is reached by \<open>k\<close> of them.
\<close>

definition scan_inv :: "nat \<Rightarrow> distance_heap list \<Rightarrow> dist list \<Rightarrow> dist_record multiset \<Rightarrow> bool" where
  "scan_inv k heaps bounds R \<longleftrightarrow>
     (\<forall>h\<in>set heaps. ustd_inv h \<and> size (heap_recs h) \<le> k) \<and> all_recs heaps \<subseteq># R \<and>
     take k (keys fst (all_recs heaps)) = take k (keys fst R) \<and>
     (\<forall>c\<in>set bounds. c = float_max \<or> k \<le> size (filter_mset (\<lambda>x. fst x \<le> c) R))"

lemma scan_inv_bounds: "scan_inv k heaps bounds R \<Longrightarrow> set bs \<subseteq> set bounds \<Longrightarrow> scan_inv k heaps bs R"
  by (auto simp: scan_inv_def)

lemma filter_size_mono: "A \<subseteq># B \<Longrightarrow> size (filter_mset P A) \<le> size (filter_mset P B)"
  by (simp add: multiset_filter_mono size_mset_mono)

lemma scan_inv_step:
  assumes inv: "scan_inv k heaps bounds R" and t: "t < length heaps" and c: "c \<in> set bounds" and k: "as_u64 topk = k" "0 < k"
    and r: "wanted p rb r \<longrightarrow> fst r < float_max"
  shows "\<exists>h new. scan_record p rb topk c r (heaps ! t) = Inr (h, new) \<and>
    scan_inv k (heaps[t := h]) (case new of None \<Rightarrow> bounds | Some c \<Rightarrow> c # bounds) (if wanted p rb r then add_mset r R else R)"
proof -
  let ?h = "heaps ! t"
  define R' where "R' = (if wanted p rb r then add_mset r R else R)"
  have h: "ustd_inv ?h" "size (heap_recs ?h) \<le> k" using inv t by (auto simp: scan_inv_def)
  obtain X where X: "all_recs heaps = X + heap_recs ?h" "\<And>h. all_recs (heaps[t := h]) = X + heap_recs h"
    using all_recs_update [OF t] by blast
  obtain h' new where h': "scan_record p rb topk c r ?h = Inr (h', new)" "ustd_inv h'" "size (heap_recs h') \<le> k"
    "heap_recs h' \<subseteq># add_mset r (heap_recs ?h) \<and> keys fst (heap_recs h') = take k (keys fst (add_mset r (heap_recs ?h))) \<and> wanted p rb r \<or>
     heap_recs h' = heap_recs ?h \<and> (wanted p rb r \<longrightarrow> c \<le> fst r)"
    "\<forall>c'. new = Some c' \<longrightarrow> size (heap_recs h') = k \<and> (\<forall>x\<in>#heap_recs h'. fst x \<le> c')"
    using scan_record_ok [OF h k] by blast
  have sub: "X + heap_recs ?h \<subseteq># R" and kk: "take k (keys fst (X + heap_recs ?h)) = take k (keys fst R)"
    using inv by (auto simp: scan_inv_def X(1))
  have grow: "R \<subseteq># R'" by (simp add: R'_def)
  from h'(4) have part: "X + heap_recs h' \<subseteq># R' \<and> take k (keys fst (X + heap_recs h')) = take k (keys fst R')"
  proof
    assume a: "heap_recs h' \<subseteq># add_mset r (heap_recs ?h) \<and> keys fst (heap_recs h') = take k (keys fst (add_mset r (heap_recs ?h))) \<and> wanted p rb r"
    have "take k (keys fst (X + heap_recs h')) = take k (keys fst (X + add_mset r (heap_recs ?h)))" using a by (intro keys_merge) simp
    also have "\<dots> = take k (insort (fst r) (take k (keys fst (X + heap_recs ?h))))" by (simp add: keys_add take_insort)
    also have "\<dots> = take k (keys fst (add_mset r R))" unfolding kk by (simp add: keys_add take_insort)
    finally have "take k (keys fst (X + heap_recs h')) = take k (keys fst (add_mset r R))" .
    moreover have "X + heap_recs h' \<subseteq># X + add_mset r (heap_recs ?h)" using a by (intro subset_mset.add_left_mono) simp
    then have "X + heap_recs h' \<subseteq># add_mset r R" by (rule subset_mset.order_trans) (use sub in simp)
    ultimately show ?thesis using a by (simp add: R'_def)
  next
    assume a: "heap_recs h' = heap_recs ?h \<and> (wanted p rb r \<longrightarrow> c \<le> fst r)"
    have "take k (keys fst R) = take k (keys fst R')"
    proof (cases "wanted p rb r")
      case True
      then have "k \<le> size (filter_mset (\<lambda>x. fst x \<le> c) R)" using inv c a r by (fastforce simp: scan_inv_def)
      then show ?thesis using keys_skip [of k c R r] a True by (simp add: R'_def)
    qed (simp add: R'_def)
    then show ?thesis using a sub kk grow by (auto intro: subset_mset.order_trans)
  qed
  have "\<forall>c'\<in>set (case new of None \<Rightarrow> bounds | Some c \<Rightarrow> c # bounds). c' = float_max \<or> k \<le> size (filter_mset (\<lambda>x. fst x \<le> c') R')"
  proof -
    have old: "c' = float_max \<or> k \<le> size (filter_mset (\<lambda>x. fst x \<le> c') R')" if "c' \<in> set bounds" for c'
      using inv that filter_size_mono [OF grow, of "\<lambda>x. fst x \<le> c'"] by (fastforce simp: scan_inv_def)
    have "k \<le> size (filter_mset (\<lambda>x. fst x \<le> c') R')" if new: "new = Some c'" for c'
    proof -
      have "filter_mset (\<lambda>x. fst x \<le> c') (heap_recs h') = heap_recs h'" using h'(5) new by (simp add: filter_mset_eq_conv)
      moreover have "heap_recs h' \<subseteq># R'" using part by (meson mset_subset_eq_add_right subset_mset.order_trans)
      ultimately show ?thesis using h'(5) new filter_size_mono [of "heap_recs h'" R' "\<lambda>x. fst x \<le> c'"] by simp
    qed
    then show ?thesis using old by (cases new) auto
  qed
  then have "scan_inv k (heaps[t := h']) (case new of None \<Rightarrow> bounds | Some c \<Rightarrow> c # bounds) R'"
    using part inv h'(2,3) by (auto simp: scan_inv_def X(2) dest!: set_update_subset_insert [THEN subsetD])
  then show ?thesis using h'(1) unfolding R'_def by blast
qed

text \<open>A whole schedule.\<close>

abbreviation event_recs :: "inner_search_param \<Rightarrow> dist \<Rightarrow> scan_event list \<Rightarrow> dist_record multiset" where
  "event_recs p rb schedule \<equiv> mset (filter (wanted p rb) (map (snd \<circ> snd) schedule))"

lemma schedule_ok:
  assumes "scan_inv k heaps bounds R" "bounds \<noteq> []" "as_u64 topk = k" "0 < k"
    and "\<forall>(t, stale, r)\<in>set schedule. t < length heaps \<and> (wanted p rb r \<longrightarrow> fst r < float_max)"
  shows "\<exists>heaps' bounds'. foldR (scan_event_step p rb topk) schedule (heaps, bounds) = Inr (heaps', bounds') \<and>
    scan_inv k heaps' bounds' (R + event_recs p rb schedule)"
  using assms(1,2,5)
proof (induction schedule arbitrary: heaps bounds R)
  case (Cons e schedule)
  obtain t stale r where e: "e = (t, stale, r)" using prod_cases3 by blast
  let ?c = "bounds ! min stale (length bounds - 1)" and ?R = "if wanted p rb r then add_mset r R else R"
  have "?c \<in> set bounds" using Cons.prems(2) by (intro nth_mem) (cases bounds, auto simp: min_def)
  moreover have "t < length heaps" "wanted p rb r \<longrightarrow> fst r < float_max" using Cons.prems(3) e by auto
  ultimately obtain h new where h: "scan_record p rb topk ?c r (heaps ! t) = Inr (h, new)"
    "scan_inv k (heaps[t := h]) (case new of None \<Rightarrow> bounds | Some c \<Rightarrow> c # bounds) ?R"
    using scan_inv_step [OF Cons.prems(1) _ _ assms(3,4)] by blast
  have ne: "(case new of None \<Rightarrow> bounds | Some c \<Rightarrow> c # bounds) \<noteq> []" using Cons.prems(2) by (cases new) auto
  have ev: "\<forall>(t', stale, r)\<in>set schedule. t' < length (heaps[t := h]) \<and> (wanted p rb r \<longrightarrow> fst r < float_max)" using Cons.prems(3) by auto
  from Cons.IH [OF h(2) ne ev] obtain heaps' bounds' where
    f: "foldR (scan_event_step p rb topk) schedule (heaps[t := h], case new of None \<Rightarrow> bounds | Some c \<Rightarrow> c # bounds) = Inr (heaps', bounds')"
    "scan_inv k heaps' bounds' (?R + event_recs p rb schedule)" by blast
  have "?R + event_recs p rb schedule = R + event_recs p rb (e # schedule)" by (simp add: e)
  then have "scan_inv k heaps' bounds' (R + event_recs p rb (e # schedule))" using f(2) by (simp only:)
  moreover have "scan_event_step p rb topk e (heaps, bounds) = Inr (heaps[t := h], case new of None \<Rightarrow> bounds | Some c \<Rightarrow> c # bounds)"
    using h(1) by (simp add: scan_event_step_def e)
  then have "foldR (scan_event_step p rb topk) (e # schedule) (heaps, bounds) = Inr (heaps', bounds')" using f(1) by simp
  ultimately show ?case by blast
qed simp

lemma scan_inv_new: "10 \<le> topk \<Longrightarrow> scan_inv k (replicate n (MakeInstanceBySize False topk)) [float_max] {#}"
proof -
  assume "10 \<le> topk"
  then have new: "ustd_inv (MakeInstanceBySize False topk)" "heap_recs (MakeInstanceBySize False topk) = {#}" using ustd_new by auto
  have "all_recs (replicate n (MakeInstanceBySize False topk)) = {#}" by (induction n) (auto simp: all_recs_def new(2))
  then show ?thesis using new by (auto simp: scan_inv_def)
qed

text \<open>Merging the heaps.\<close>

lemma ustd_data: "ustd_inv h \<Longrightarrow> Heap_Size h \<le> length (Heap_GetData h) \<and> mset (take (Heap_Size h) (Heap_GetData h)) = heap_recs h"
  by (cases h) (auto simp: StandardHeap_Size_def sh_recs_def)

lemma merge_heaps_ok:
  assumes "0 < topk" "topk < 2 ^ 63" "\<forall>h\<in>set heaps. ustd_inv h"
  shows "\<exists>m. merge_heaps topk heaps = Inr m \<and> heap_topk_inv True m \<and> heap_cap m = nat topk \<and> heap_recs m \<subseteq># all_recs heaps \<and>
    keys fst (heap_recs m) = take (nat topk) (keys fst (all_recs heaps))"
proof -
  let ?f = "\<lambda>heap result. if Heap_Size heap > length (Heap_GetData heap) then Inl UB
              else foldR (Heap_Push True True) (take (Heap_Size heap) (Heap_GetData heap)) result"
  have gen: "\<exists>m. foldR ?f hs s = Inr m \<and> heap_topk_inv True m \<and> heap_cap m = heap_cap s \<and> heap_recs m \<subseteq># heap_recs s + all_recs hs \<and>
    keys fst (heap_recs m) = take (heap_cap s) (keys fst (B + all_recs hs))"
    if "\<forall>h\<in>set hs. ustd_inv h" "heap_topk_inv True s" "keys fst (heap_recs s) = take (heap_cap s) (keys fst B)" for hs s B
    using that
  proof (induction hs arbitrary: s B)
    case (Cons h hs)
    let ?rs = "take (Heap_Size h) (Heap_GetData h)"
    have d: "Heap_Size h \<le> length (Heap_GetData h)" "mset ?rs = heap_recs h" using ustd_data [of h] Cons.prems(1) by auto
    obtain s1 where s1: "foldR (Heap_Push True True) ?rs s = Inr s1" "heap_topk_inv True s1" "heap_cap s1 = heap_cap s"
      "heap_recs s1 \<subseteq># heap_recs s + heap_recs h" "keys fst (heap_recs s1) = take (heap_cap s) (keys fst (B + heap_recs h))"
      using topk.push_all [where mx = True and rs = ?rs and s = s and B = B, OF Cons.prems(2)] Cons.prems(3) d(2) by (auto simp: key_True)
    obtain m where m: "foldR ?f hs s1 = Inr m" "heap_topk_inv True m" "heap_cap m = heap_cap s1" "heap_recs m \<subseteq># heap_recs s1 + all_recs hs"
      "keys fst (heap_recs m) = take (heap_cap s1) (keys fst (B + heap_recs h + all_recs hs))"
      using Cons.IH [of s1 "B + heap_recs h"] Cons.prems(1) s1(2,3,5) by auto
    have "heap_recs m \<subseteq># heap_recs s + all_recs (h # hs)"
      using subset_mset.order_trans [OF m(4) subset_mset.add_right_mono [OF s1(4), of "all_recs hs"]] by (simp add: all_recs_def ac_simps)
    then show ?case using d(1) s1(1,3) m by (simp add: all_recs_def ac_simps)
  qed (simp add: all_recs_def)
  show ?thesis using gen [where hs = heaps and s = "MakeInstanceBySize True topk" and B = "{#}"] assms(3)
    MakeInstanceBySize_topk [OF assms(1,2)] by (simp add: merge_heaps_def)
qed

lemma parallel_scan_ok:
  assumes "10 \<le> topk" "topk < 2 ^ 63" "\<forall>(t, stale, r)\<in>set schedule. t < n \<and> (wanted p rb r \<longrightarrow> fst r < float_max)"
  shows "\<exists>m. ivf_parallel_scan p rb topk n schedule = Inr m \<and> heap_topk_inv True m \<and> heap_cap m = nat topk \<and> heap_recs m \<subseteq># event_recs p rb schedule \<and>
    keys fst (heap_recs m) = take (nat topk) (keys fst (event_recs p rb schedule))"
proof -
  let ?hs = "replicate n (MakeInstanceBySize False topk)"
  have k: "as_u64 topk = nat topk" "0 < nat topk" using assms(1,2) by auto
  obtain heaps bounds where s: "foldR (scan_event_step p rb topk) schedule (?hs, [float_max]) = Inr (heaps, bounds)"
    "scan_inv (nat topk) heaps bounds (event_recs p rb schedule)"
    using schedule_ok [OF scan_inv_new [OF assms(1), of "nat topk" n] _ k, of schedule p rb] assms(3) by auto
  have "0 < topk" "\<forall>h\<in>set heaps. ustd_inv h" using assms(1) s(2) by (auto simp: scan_inv_def)
  from merge_heaps_ok [OF this(1) assms(2) this(2)] obtain m where m: "merge_heaps topk heaps = Inr m" "heap_topk_inv True m" "heap_cap m = nat topk"
    "heap_recs m \<subseteq># all_recs heaps" "keys fst (heap_recs m) = take (nat topk) (keys fst (all_recs heaps))" by blast
  then show ?thesis using s by (auto simp: ivf_parallel_scan_def scan_inv_def intro: subset_mset.order_trans)
qed

section \<open>One thread\<close>

lemma scan_next_ok:
  assumes "scan_inv k [heap] [cur] R" "as_u64 topk = k" "0 < k" "wanted p rb r \<longrightarrow> fst r < float_max"
  shows "\<exists>heap' cur'. scan_next p rb topk r (heap, cur) = Inr (heap', cur') \<and> scan_inv k [heap'] [cur'] (if wanted p rb r then add_mset r R else R)"
proof -
  obtain h new where h: "scan_record p rb topk cur r heap = Inr (h, new)"
    "scan_inv k [h] (case new of None \<Rightarrow> [cur] | Some c \<Rightarrow> [c, cur]) (if wanted p rb r then add_mset r R else R)"
    using scan_inv_step [OF assms(1) _ _ assms(2-4), of 0 cur] by auto
  then have "scan_inv k [h] [case new of None \<Rightarrow> cur | Some c \<Rightarrow> c] (if wanted p rb r then add_mset r R else R)"
    by (cases new) (auto intro: scan_inv_bounds)
  then show ?thesis using h(1) by (auto simp: scan_next_def)
qed

lemma scan_list_ok:
  assumes "scan_inv k [heap] [cur] R" "as_u64 topk = k" "0 < k" "\<forall>r\<in>set rs. wanted p rb r \<longrightarrow> fst r < float_max"
  shows "\<exists>heap' cur'. foldR (scan_next p rb topk) rs (heap, cur) = Inr (heap', cur') \<and> scan_inv k [heap'] [cur'] (R + mset (filter (wanted p rb) rs))"
  using assms(1,4)
proof (induction rs arbitrary: heap cur R)
  case (Cons r rs)
  let ?R = "if wanted p rb r then add_mset r R else R"
  obtain h c where h: "scan_next p rb topk r (heap, cur) = Inr (h, c)" "scan_inv k [h] [c] ?R"
    using scan_next_ok [OF Cons.prems(1) assms(2,3), of p rb r] Cons.prems(2) by auto
  obtain h' c' where h': "foldR (scan_next p rb topk) rs (h, c) = Inr (h', c')" "scan_inv k [h'] [c'] (?R + mset (filter (wanted p rb) rs))"
    using Cons.IH [OF h(2)] Cons.prems(2) by auto
  have "?R + mset (filter (wanted p rb) rs) = R + mset (filter (wanted p rb) (r # rs))" by simp
  then have "scan_inv k [h'] [c'] (R + mset (filter (wanted p rb) (r # rs)))" using h'(2) by (simp only:)
  moreover have "foldR (scan_next p rb topk) (r # rs) (heap, cur) = Inr (h', c')" using h(1) h'(1) by simp
  ultimately show ?case by blast
qed simp

text \<open>The records that a scan of the candidate buckets goes through.\<close>

definition scanned ::
  "inner_search_param \<Rightarrow> nat \<Rightarrow> (int \<Rightarrow> (inner_id \<times> dist) list) \<Rightarrow> (int \<Rightarrow> (nat \<Rightarrow> bool) option) \<Rightarrow> (int \<Rightarrow> bool) \<Rightarrow> int list \<Rightarrow> dist_record list" where
  "scanned p b bk attr overtime bs =
     concat (map (\<lambda>i. bucket_records p b (attr i) (bk i)) (takeWhile (\<lambda>i. \<not> (overtime i \<or> i = - 1)) bs))"

lemma scan_buckets_ok:
  assumes "scan_inv k [heap] [cur] R" "as_u64 topk = k" "0 < k" "\<forall>i\<in>set bs. bucket i = Inr (bk i)"
    and "\<forall>r\<in>set (scanned p b bk attr overtime bs). wanted p rb r \<longrightarrow> fst r < float_max"
  shows "\<exists>heap' cur'. scan_buckets p rb topk b bucket attr overtime bs (heap, cur) = Inr (heap', cur') \<and>
    scan_inv k [heap'] [cur'] (R + mset (filter (wanted p rb) (scanned p b bk attr overtime bs)))"
  using assms(1,4,5)
proof (induction bs arbitrary: heap cur R)
  case (Cons i bs)
  show ?case
  proof (cases "overtime i \<or> i = - 1")
    case True
    then show ?thesis using Cons.prems(1) by (auto simp: scanned_def)
  next
    case False
    let ?rs = "bucket_records p b (attr i) (bk i)"
    have sc: "scanned p b bk attr overtime (i # bs) = ?rs @ scanned p b bk attr overtime bs" using False by (simp add: scanned_def)
    obtain h c where h: "foldR (scan_next p rb topk) ?rs (heap, cur) = Inr (h, c)" "scan_inv k [h] [c] (R + mset (filter (wanted p rb) ?rs))"
      using scan_list_ok [OF Cons.prems(1) assms(2,3), of ?rs p rb] Cons.prems(3) unfolding sc by auto
    obtain h' c' where h': "scan_buckets p rb topk b bucket attr overtime bs (h, c) = Inr (h', c')"
      "scan_inv k [h'] [c'] (R + mset (filter (wanted p rb) ?rs) + mset (filter (wanted p rb) (scanned p b bk attr overtime bs)))"
      using Cons.IH [OF h(2)] Cons.prems(2,3) unfolding sc by auto
    have "scan_buckets p rb topk b bucket attr overtime (i # bs) (heap, cur) = Inr (h', c')" using False Cons.prems(2) h(1) h'(1) by simp
    moreover have "scan_inv k [h'] [c'] (R + mset (filter (wanted p rb) (scanned p b bk attr overtime (i # bs))))"
      using h'(2) unfolding sc by (simp only: filter_append mset_append add.assoc)
    ultimately show ?thesis by blast
  qed
qed (simp add: scanned_def)

section \<open>Removing duplicates\<close>

definition origins :: "nat \<Rightarrow> dist_record multiset \<Rightarrow> inner_id set" where
  "origins b R = (\<lambda>x. snd x div b) ` set_mset R"

definition min_dist :: "nat \<Rightarrow> dist_record multiset \<Rightarrow> inner_id \<Rightarrow> dist" where
  "min_dist b R i = Min (fst ` {x \<in> set_mset R. snd x div b = i})"

text \<open>One record per vector, with its least distance.\<close>

definition mins :: "nat \<Rightarrow> dist_record multiset \<Rightarrow> dist_record multiset" where
  "mins b R = image_mset (\<lambda>i. (min_dist b R i, i)) (mset_set (origins b R))"

lemma finite_origins [simp]: "finite (origins b R)"
  by (simp add: origins_def)

lemma min_dist_props:
  assumes "i \<in> origins b R"
  shows "\<exists>x\<in>#R. snd x div b = i \<and> fst x = min_dist b R i" "\<And>x. x \<in># R \<Longrightarrow> snd x div b = i \<Longrightarrow> min_dist b R i \<le> fst x"
proof -
  let ?S = "{x \<in> set_mset R. snd x div b = i}"
  obtain x where "x \<in># R" "i = snd x div b" using assms unfolding origins_def by blast
  then have "?S \<noteq> {}" by blast
  then have "Min (fst ` ?S) \<in> fst ` ?S" by (intro Min_in) auto
  then show "\<exists>x\<in>#R. snd x div b = i \<and> fst x = min_dist b R i" by (auto simp: min_dist_def)
  show "min_dist b R i \<le> fst x" if "x \<in># R" "snd x div b = i" for x using that by (auto simp: min_dist_def intro!: Min_le)
qed

lemma min_dist_eqI:
  assumes "x \<in># R" "snd x div b = i" "fst x = m" "\<And>y. y \<in># R \<Longrightarrow> snd y div b = i \<Longrightarrow> m \<le> fst y"
  shows "min_dist b R i = m"
  using assms unfolding min_dist_def by (intro Min_eqI) auto

text \<open>The map after all the records.\<close>

lemma add_min_ok:
  assumes "distinct (map fst m)" "\<forall>i. map_of m i = (if i \<in> origins b R then Some (min_dist b R i) else None)"
  shows "distinct (map fst (add_min b r m)) \<and>
    (\<forall>i. map_of (add_min b r m) i = (if i \<in> origins b (add_mset r R) then Some (min_dist b (add_mset r R) i) else None))"
proof -
  obtain d j where r: "r = (d, j)" by fastforce
  let ?o = "j div b"
  have new: "origins b (add_mset r R) = insert ?o (origins b R)" by (auto simp: origins_def r)
  have other: "min_dist b (add_mset r R) i = min_dist b R i" if "i \<noteq> ?o" for i
  proof -
    have "{x \<in> set_mset (add_mset r R). snd x div b = i} = {x \<in> set_mset R. snd x div b = i}" using that r by auto
    then show ?thesis by (simp only: min_dist_def)
  qed
  have here: "min_dist b (add_mset r R) ?o = (if ?o \<in> origins b R then min d (min_dist b R ?o) else d)"
  proof (cases "?o \<in> origins b R")
    case True
    obtain x where x: "x \<in># R" "snd x div b = ?o" "fst x = min_dist b R ?o" using min_dist_props(1) [OF True] by blast
    have low: "min_dist b R ?o \<le> fst y" if "y \<in># R" "snd y div b = ?o" for y using min_dist_props(2) [OF True that] .
    show ?thesis
    proof (cases "d < min_dist b R ?o")
      case True
      then show ?thesis using \<open>?o \<in> origins b R\<close> r low by (intro min_dist_eqI [of r]) (auto intro: order_trans dest: low)
    next
      case False
      then show ?thesis using \<open>?o \<in> origins b R\<close> r low x by (intro min_dist_eqI [of x]) auto
    qed
  next
    case False
    then have "\<And>y. y \<in># R \<Longrightarrow> snd y div b \<noteq> ?o" unfolding origins_def by (metis image_eqI)
    then show ?thesis using False r by (auto intro!: min_dist_eqI [of r])
  qed
  have u: "add_min b r m = (if ?o \<in> origins b R \<and> \<not> d < min_dist b R ?o then m else AList.update ?o d m)"
    using assms(2) by (auto simp: add_min_def r Let_def)
  have md: "min_dist b (add_mset r R) i = (if i = ?o then if ?o \<in> origins b R then min d (min_dist b R ?o) else d else min_dist b R i)" for i
    using other here by simp
  show ?thesis unfolding u md new using assms by (auto simp: update_conv distinct_update min_def)
qed

lemma fold_add_min:
  "distinct (map fst (fold (add_min b) rs [])) \<and>
   (\<forall>i. map_of (fold (add_min b) rs []) i = (if i \<in> origins b (mset rs) then Some (min_dist b (mset rs) i) else None))"
proof (induction rs rule: rev_induct)
  case (snoc r rs)
  then show ?case using add_min_ok [of "fold (add_min b) rs []" b "mset rs" r] by simp
qed (simp add: origins_def)

lemma dedup_map: "mset (map (\<lambda>(i, d). (d, i)) (fold (add_min b) rs [])) = mins b (mset rs)"
proof -
  let ?m = "fold (add_min b) rs []"
  have m: "distinct (map fst ?m)" "\<And>i. map_of ?m i = (if i \<in> origins b (mset rs) then Some (min_dist b (mset rs) i) else None)"
    using fold_add_min by auto
  have keys: "set (map fst ?m) = origins b (mset rs)" 
  proof -
    have "dom (map_of ?m) = origins b (mset rs)" using m(2) by (auto simp: dom_def split: if_splits)
    then show ?thesis by (simp add: dom_map_of_conv_image_fst)
  qed
  have eq: "map (\<lambda>(i, d). (d, i)) ?m = map (\<lambda>i. (min_dist b (mset rs) i, i)) (map fst ?m)"
  proof -
    have "d = min_dist b (mset rs) i" if "(i, d) \<in> set ?m" for i d
      using that m map_of_is_SomeI [OF m(1) that] by (simp split: if_splits)
    then show ?thesis by auto
  qed
  have "mset (map (\<lambda>(i, d). (d, i)) ?m) = image_mset (\<lambda>i. (min_dist b (mset rs) i, i)) (mset (map fst ?m))"
    unfolding eq by (rule mset_map)
  also have "mset (map fst ?m) = mset_set (origins b (mset rs))" using m(1) keys by (metis mset_set_set)
  finally show ?thesis by (simp add: mins_def)
qed

text \<open>The kept records are not farther than the others.\<close>

lemma nearest_le:
  assumes "H \<subseteq># M" "keys fst H = take c (keys fst M)" "x \<in># H" "y \<in># M - H"
  shows "fst x \<le> fst y"
proof -
  let ?K = "keys fst M"
  have "mset (take c ?K) + mset (drop c ?K) = image_mset fst H + image_mset fst (M - H)"
    using assms(1) by (metis append_take_drop_id image_mset_union keys_props(3) mset_append subset_mset.add_diff_inverse)
  moreover have "mset (take c ?K) = image_mset fst H" by (metis assms(2) keys_props(3))
  ultimately have "mset (drop c ?K) = image_mset fst (M - H)" by simp
  then have "fst y \<in> set (drop c ?K)" "fst x \<in> set (take c ?K)"
    using assms(3,4) \<open>mset (take c ?K) = _\<close> by (metis imageI set_image_mset set_mset_mset)+
  moreover have "sorted (take c ?K @ drop c ?K)" by simp
  ultimately show ?thesis unfolding sorted_append by blast
qed

lemma keys_skip_all:
  assumes "k \<le> size (filter_mset (\<lambda>x. fst x \<le> c) R)" "\<forall>x\<in>#N. c \<le> fst x"
  shows "take k (keys fst (R + N)) = take k (keys fst R)"
  using assms(2)
proof (induction N)
  case (add x N)
  have "k \<le> size (filter_mset (\<lambda>x. fst x \<le> c) (R + N))" using assms(1) by simp
  from keys_skip [OF this, of x] show ?case using add by simp
qed simp

text \<open>A vector lies in at most \<open>b\<close> buckets, so \<open>k * b\<close> records have at least \<open>k\<close> vectors.\<close>

lemma size_origins_le:
  assumes "finite S" "origins b M \<subseteq> S" "\<And>i. size (filter_mset (\<lambda>x. snd x div b = i) M) \<le> b"
  shows "size M \<le> card S * b"
  using assms
proof (induction S arbitrary: M)
  case empty
  then show ?case by (simp add: origins_def)
next
  case (insert i S)
  let ?A = "filter_mset (\<lambda>x. snd x div b = i) M" and ?B = "filter_mset (\<lambda>x. snd x div b \<noteq> i) M"
  have "origins b ?B \<subseteq> S" using insert.prems(1) by (auto simp: origins_def)
  moreover have "size (filter_mset (\<lambda>x. snd x div b = j) ?B) \<le> b" for j
    using insert.prems(2) [of j] size_mset_mono [of "filter_mset (\<lambda>x. snd x div b = j) ?B" "filter_mset (\<lambda>x. snd x div b = j) M"]
    by (simp add: multiset_filter_mono)
  ultimately have "size ?B \<le> card S * b" by (rule insert.IH)
  moreover have "size M = size ?A + size ?B" by (metis multiset_partition size_union)
  ultimately show ?case using insert.prems(2) [of i] insert.hyps by simp
qed

lemma filter_empty_origins: "origins b M = {} \<longleftrightarrow> M = {#}"
  by (simp add: origins_def)

text \<open>The least distances of the vectors can be taken among the nearest records.\<close>

lemma mins_topk:
  assumes sub: "H \<subseteq># M" and near: "keys fst H = take (k * b) (keys fst M)" and few: "\<And>i. size (filter_mset (\<lambda>x. snd x div b = i) M) \<le> b" and b: "0 < b"
  shows "take k (keys fst (mins b H)) = take k (keys fst (mins b M)) \<and> mins b H \<subseteq># mins b M"
proof (cases "size M \<le> k * b")
  case True
  have "length (keys fst H) = length (take (k * b) (keys fst M))" using near by (rule arg_cong)
  then have "size H = size M" using True by simp
  then have "H = M" using sub by (metis mset_subset_size nat_neq_iff subset_mset.le_imp_less_or_eq)
  then show ?thesis by simp
next
  case False
  have "length (keys fst H) = length (take (k * b) (keys fst M))" using near by (rule arg_cong)
  then have size: "size H = k * b" using False by simp
  have fewH: "size (filter_mset (\<lambda>x. snd x div b = i) H) \<le> b" for i
    using few [of i] filter_size_mono [OF sub, of "\<lambda>x. snd x div b = i"] by simp
  have "k * b \<le> card (origins b H) * b" using size_origins_le [of "origins b H" b H] fewH size by auto
  then have k: "k \<le> card (origins b H)" using b by simp
  have memM: "x \<in># M" if "x \<in># H" for x using that sub by (meson mset_subset_eqD)
  have part: "x \<in># H \<or> x \<in># M - H" if "x \<in># M" for x using that sub by (metis subset_mset.add_diff_inverse union_iff)
  have same: "min_dist b M i = min_dist b H i" if i: "i \<in> origins b H" for i
  proof -
    obtain x where x: "x \<in># H" "snd x div b = i" "fst x = min_dist b H i" using min_dist_props(1) [OF i] by blast
    show ?thesis
    proof (rule min_dist_eqI [OF memM [OF x(1)] x(2,3)])
      fix y assume y: "y \<in># M" "snd y div b = i"
      then show "min_dist b H i \<le> fst y" using part [OF y(1)] min_dist_props(2) [OF i, of y] nearest_le [OF sub near x(1), of y] x(3) by auto
    qed
  qed
  let ?N = "image_mset (\<lambda>i. (min_dist b M i, i)) (mset_set (origins b M - origins b H))"
  have oM: "origins b M = origins b H \<union> (origins b M - origins b H)" using memM by (auto simp: origins_def)
  have "mset_set (origins b M) = mset_set (origins b H) + mset_set (origins b M - origins b H)"
    using mset_set_Union [of "origins b H" "origins b M - origins b H"] oM by simp
  then have "mins b M = image_mset (\<lambda>i. (min_dist b M i, i)) (mset_set (origins b H)) + ?N" by (simp add: mins_def)
  also have "image_mset (\<lambda>i. (min_dist b M i, i)) (mset_set (origins b H)) = mins b H" unfolding mins_def by (rule image_mset_cong) (simp add: same)
  finally have M: "mins b M = mins b H + ?N" .
  show ?thesis
  proof (cases "origins b H = {}")
    case True
    then show ?thesis using k M by simp
  next
    case False
    define c where "c = Max ((\<lambda>i. min_dist b H i) ` origins b H)"
    have c: "\<And>i. i \<in> origins b H \<Longrightarrow> min_dist b H i \<le> c" "c \<in> (\<lambda>i. min_dist b H i) ` origins b H"
      using False by (auto simp: c_def intro!: Max_ge Max_in)
    obtain j where j: "j \<in> origins b H" "c = min_dist b H j" using c(2) by blast
    obtain x where x: "x \<in># H" "fst x = c" using min_dist_props(1) [OF j(1)] j(2) by metis
    have "\<forall>r\<in>#?N. c \<le> fst r"
    proof
      fix r assume "r \<in># ?N"
      then obtain i where i: "i \<in> origins b M" "i \<notin> origins b H" "fst r = min_dist b M i" by auto
      obtain y where y: "y \<in># M" "snd y div b = i" "fst y = min_dist b M i" using min_dist_props(1) [OF i(1)] by blast
      have "y \<notin># H" using i(2) y(2) unfolding origins_def by (metis image_eqI)
      then show "c \<le> fst r" using part [OF y(1)] nearest_le [OF sub near x(1)] x(2) y(3) i(3) by metis
    qed
    moreover have "filter_mset (\<lambda>x. fst x \<le> c) (mins b H) = mins b H" using c(1) by (auto simp: filter_mset_eq_conv mins_def)
    then have "k \<le> size (filter_mset (\<lambda>x. fst x \<le> c) (mins b H))" using k by (simp add: mins_def)
    ultimately show ?thesis unfolding M using keys_skip_all [of k c "mins b H" ?N] by auto
  qed
qed

lemma dedup_push_eq:
  assumes "d < float_max"
  shows "dedup_push False topk (i, d) s = scan_next (p\<lparr>isp_search_mode := RANGE_SEARCH\<rparr>) float_max topk (d, i) s"
  using assms by (cases s) (auto simp: dedup_push_def scan_next_def scan_record_def bindR_def split: sum.splits)

lemma ivf_dedup_ok:
  assumes "ustd_inv h" "heap_recs h = mset rs" "0 < k" "k < 2 ^ 63" "\<forall>r\<in>set rs. fst r < float_max" "\<And>m. mset (hash_order m) = mset m"
  shows "\<exists>h'. ivf_dedup hash_order False b k h = Inr h' \<and> heap_recs h' \<subseteq># mins b (mset rs) \<and>
    keys fst (heap_recs h') = take (nat k) (keys fst (mins b (mset rs)))"
proof -
  obtain recs h0 where d: "heap_drain (Heap_Size h) Heap_Top (Heap_Pop True) Heap_Size h = Inr (recs, h0)" "ustd_inv h0" "heap_recs h0 = {#}" "mset recs = mset rs"
    using ustd.drain_ok [OF assms(1), of "Heap_Size h"] ustd.size_ok [OF assms(1)] assms(2) by auto
  let ?m = "hash_order (fold (add_min b) recs [])" and ?p = "undefined\<lparr>isp_search_mode := RANGE_SEARCH\<rparr>"
  let ?rs = "map (\<lambda>(i, d). (d, i)) ?m"
  have ms: "mset ?rs = mins b (mset rs)" using dedup_map [of b recs] assms(6) d(4) by (metis mset_map)
  have lt: "fst r < float_max" if r: "r \<in> set ?rs" for r
  proof -
    have "r \<in># mins b (mset rs)" using r ms by (metis set_mset_mset)
    then obtain i where i: "i \<in> origins b (mset rs)" "fst r = min_dist b (mset rs) i" by (auto simp: mins_def)
    obtain x where "x \<in># mset rs" "fst x = min_dist b (mset rs) i" using min_dist_props(1) [OF i(1)] by blast
    then show ?thesis using assms(5) i(2) by auto
  qed
  have "foldR (dedup_push False k) m s = foldR (scan_next ?p float_max k) (map (\<lambda>(i, d). (d, i)) m) s" if "\<forall>x\<in>set m. snd x < float_max" for m s
    using that
  proof (induction m arbitrary: s)
    case (Cons x m)
    then show ?case using dedup_push_eq [of "snd x" k "fst x" s undefined] by (cases x) (auto intro!: bindR_cong)
  qed simp
  moreover have "\<forall>x\<in>set ?m. snd x < float_max" using lt by force
  ultimately have run: "foldR (dedup_push False k) ?m (h0, float_max) = foldR (scan_next ?p float_max k) ?rs (h0, float_max)" by blast
  have k: "as_u64 k = nat k" "0 < nat k" using assms(3,4) by auto
  have "scan_inv (nat k) [h0] [float_max] {#}" using d(2,3) by (simp add: scan_inv_def all_recs_def)
  from scan_list_ok [OF this k, of ?rs ?p float_max] lt obtain h' c where
    h': "foldR (scan_next ?p float_max k) ?rs (h0, float_max) = Inr (h', c)" "scan_inv (nat k) [h'] [c] ({#} + mset (filter (wanted ?p float_max) ?rs))" by auto
  have "filter (wanted ?p float_max) ?rs = ?rs" using lt by (force simp: filter_id_conv wanted_def)
  then have inv: "scan_inv (nat k) [h'] [c] (mins b (mset rs))" using h'(2) ms by (metis add_0)
  have "keys fst (heap_recs h') = take (nat k) (keys fst (heap_recs h'))" using inv by (simp add: scan_inv_def)
  then have "keys fst (heap_recs h') = take (nat k) (keys fst (mins b (mset rs)))" using inv by (simp add: scan_inv_def all_recs_def)
  moreover have "heap_recs h' \<subseteq># mins b (mset rs)" using inv by (simp add: scan_inv_def all_recs_def)
  moreover have "ivf_dedup hash_order False b k h = Inr h'" using d(1) run h'(1) by (simp add: ivf_dedup_def)
  ultimately show ?thesis by blast
qed

section \<open>Properties\<close>

text \<open>
  Claim C14. A parallel scan that keeps at least ten records finds the nearest ones under every schedule:
  whatever the order in which the threads process their records, and whatever older value of the
  shared bound they read, the merged heap holds records with exactly the \<open>topk\<close> least distances
  of all the records (of those within the radius in a range search). For two to nine records the
  heap is another one, on which already the scan with one thread goes wrong (C36).
\<close>

theorem ivf_parallel_scan_exact:
  assumes "10 \<le> topk" "topk < 2 ^ 63" "\<forall>(t, stale, r)\<in>set schedule. t < n \<and> (wanted p rb r \<longrightarrow> fst r < float_max)"
  shows "\<exists>m. ivf_parallel_scan p rb topk n schedule = Inr m \<and>
    heap_recs m \<subseteq># mset (filter (wanted p rb) (map (snd \<circ> snd) schedule)) \<and>
    keys fst (heap_recs m) = take (nat topk) (sort (map fst (filter (wanted p rb) (map (snd \<circ> snd) schedule))))"
  using parallel_scan_ok [OF assms] by (auto simp: keys_mset simp del: mset_filter mset_map)

theorem ivf_parallel_scan_exact_witness:
  "\<exists>m. ivf_parallel_scan demo_param 0 10 2 [(0, 0, (3, 0)), (1, 5, (1, 1)), (0, 0, (2, 2))] = Inr m \<and> keys fst (heap_recs m) = [1, 2, 3]"
proof -
  have w: "wanted demo_param 0 r" for r by (simp add: wanted_def demo_param_def)
  show ?thesis using ivf_parallel_scan_exact [of 10 "[(0, 0, (3, 0)), (1, 5, (1, 1)), (0, 0, (2, 2))]" 2 demo_param 0]
    by (auto simp: w float_max_def)
qed

text \<open>
  Claim C3. The search with one thread is exact when the vectors lie in at most \<open>b\<close> buckets each and at
  least ten records are kept: it never fails, and the distances returned are the \<open>k\<close> least ones of
  the scanned records, counting every vector once with its least distance when \<open>b\<close> is above 1.
  Scaling the number of records by \<open>b\<close> before the duplicates are removed loses no vector.
\<close>

theorem IVF_search_exact:
  assumes b: "0 < b" and k: "k = ivf_origin_topk p" "0 < k" "k * int b < 2 ^ 63" "10 \<le> ivf_topk b p"
    and buckets: "\<forall>i\<in>set cands. bucket i = Inr (bk i)"
    and R: "R = mset (filter (wanted p rb) (scanned p b bk attr overtime cands))"
    and dists: "\<forall>r\<in>set (scanned p b bk attr overtime cands). fst r < float_max"
    and few: "\<forall>i. size (filter_mset (\<lambda>x. snd x div b = i) R) \<le> b" and hash: "\<forall>m. mset (hash_order m) = mset m"
  shows "\<exists>h. IVF_search p rb b bucket attr overtime hash_order cands = Inr h \<and>
    heap_recs h \<subseteq># (if b > 1 then mins b R else R) \<and>
    keys fst (heap_recs h) = take (nat k) (keys fst (if b > 1 then mins b R else R))"
proof -
  let ?K = "ivf_topk b p"
  have K: "?K = k * int b"
  proof (cases "b > 1")
    case True
    have "k * int b div int b \<le> int64_max div int b" using k(3) True by (intro zdiv_mono1) (simp_all add: int64_max_def)
    then have "k \<le> int64_max div int b" using True by simp
    then show ?thesis using True k(1) by (simp add: ivf_topk_def)
  next
    case False
    then show ?thesis using b k(1) by (simp add: ivf_topk_def)
  qed
  have kK: "as_u64 ?K = nat ?K" "0 < nat ?K" "nat ?K = nat k * b" using k(2-4) K b by (auto simp: nat_mult_distrib)
  have "scan_inv (nat ?K) [MakeInstanceBySize False ?K] [float_max] {#}" using scan_inv_new [OF k(4), of "nat ?K" 1] by simp
  then obtain h c where h: "scan_buckets p rb ?K b bucket attr overtime cands (MakeInstanceBySize False ?K, float_max) = Inr (h, c)" "scan_inv (nat ?K) [h] [c] R"
    using scan_buckets_ok [OF _ kK(1,2) buckets, of "MakeInstanceBySize False ?K" float_max "{#}" p b attr overtime rb] dists unfolding R by auto
  have keysh: "keys fst (heap_recs h) = take (nat k * b) (keys fst R)" and sub: "heap_recs h \<subseteq># R" and inv: "ustd_inv h"
    using h(2) unfolding kK(3) by (auto simp: scan_inv_def all_recs_def)
  show ?thesis
  proof (cases "b > 1")
    case True
    obtain rs where rs: "heap_recs h = mset rs" by (metis ex_mset)
    have "fst r < float_max" if r: "r \<in> set rs" for r
    proof -
      have "r \<in># R" using r sub rs by (metis mset_subset_eqD set_mset_mset)
      then show ?thesis using dists R by auto
    qed
    moreover have "k < 2 ^ 63" using k(2,3) b by (smt (verit) mult_le_cancel_left1 of_nat_0_less_iff)
    ultimately obtain h' where h': "ivf_dedup hash_order False b k h = Inr h'" "heap_recs h' \<subseteq># mins b (heap_recs h)"
      "keys fst (heap_recs h') = take (nat k) (keys fst (mins b (heap_recs h)))"
      using ivf_dedup_ok [OF inv rs k(2), of hash_order b] hash rs by auto
    then show ?thesis using True h(1) k(1) mins_topk [OF sub keysh _ b] few by (auto simp: IVF_search_def Let_def intro: subset_mset.order_trans)
  next
    case False
    then have "b = 1" using b by simp
    then show ?thesis using h(1) keysh sub by (simp add: IVF_search_def Let_def)
  qed
qed

text \<open>Two vectors, each in two buckets; the identifier in a bucket is twice the one of the vector plus the bucket's rank.\<close>

theorem IVF_search_exact_witness:
  "\<exists>h. IVF_search (demo_param\<lparr>isp_topk := 5\<rparr>) 0 2 (\<lambda>i. Inr (if i = 0 then [(0, 4), (2, 3)] else [(1, 4), (3, 3)])) (\<lambda>_. None) (\<lambda>_. False) (\<lambda>m. m) [0, 1, - 1] =
      Inr h \<and> keys fst (heap_recs h) = [3, 4]"
proof -
  let ?p = "demo_param\<lparr>isp_topk := 5\<rparr>" and ?bk = "\<lambda>i :: int. if i = 0 then [(0, 4), (2, 3)] else [(1, 4 :: dist), (3, 3)]"
  have sc: "scanned ?p 2 ?bk (\<lambda>_. None) (\<lambda>_. False) [0, 1, - 1] = [(4, 0), (3, 2), (4, 1), (3, 3)]"
    by (simp add: scanned_def bucket_records_def demo_param_def)
  have w: "wanted ?p 0 r" for r by (simp add: wanted_def demo_param_def)
  let ?R = "{#(4, 0), (3, 2), (4, 1), (3, 3)#} :: dist_record multiset"
  have R: "?R = mset (filter (wanted ?p 0) (scanned ?p 2 ?bk (\<lambda>_. None) (\<lambda>_. False) [0, 1, - 1]))" unfolding sc by (simp add: w)
  have orig: "origins 2 ?R = {0, 1}" by (auto simp: origins_def)
  have "min_dist 2 ?R 0 = 4" by (rule min_dist_eqI [of "(4, 0)"]) auto
  moreover have "min_dist 2 ?R 1 = 3" by (rule min_dist_eqI [of "(3, 2)"]) auto
  ultimately have "mins 2 ?R = {#(4, 0), (3, 1)#}" unfolding mins_def orig by simp
  then have keys: "keys fst (mins 2 ?R) = [3, 4]" by (simp add: keys_def)
  have "\<forall>i. size (filter_mset (\<lambda>x. snd x div 2 = i) ?R) \<le> 2" by auto
  moreover have "\<forall>r\<in>set (scanned ?p 2 ?bk (\<lambda>_. None) (\<lambda>_. False) [0, 1, - 1]). fst r < float_max" unfolding sc by (simp add: float_max_def)
  ultimately have "\<exists>h. IVF_search ?p 0 2 (\<lambda>i. Inr (?bk i)) (\<lambda>_. None) (\<lambda>_. False) (\<lambda>m. m) [0, 1, - 1] = Inr h \<and>
      heap_recs h \<subseteq># (if 2 > (1 :: nat) then mins 2 ?R else ?R) \<and> keys fst (heap_recs h) = take (nat 5) (keys fst (if 2 > (1 :: nat) then mins 2 ?R else ?R))"
    by (intro IVF_search_exact [OF _ _ _ _ _ _ R]) (simp_all add: ivf_origin_topk_def ivf_topk_def int64_max_def, simp_all add: demo_param_def)
  then have "\<exists>h. IVF_search ?p 0 2 (\<lambda>i. Inr (?bk i)) (\<lambda>_. None) (\<lambda>_. False) (\<lambda>m. m) [0, 1, - 1] = Inr h \<and>
      keys fst (heap_recs h) = take (nat 5) (keys fst (mins 2 ?R))" by auto
  then show ?thesis unfolding keys by simp
qed

text \<open>A bucket for every size of the heap from two to nine on which the scan goes wrong.\<close>

definition bad_distances :: "int \<Rightarrow> dist list" where
  "bad_distances k =
     (if k = 2 then [24, 22, 20, 2, 19, 15, 2]
      else if k = 3 then [28, 24, 29, 28, 4, 23, 1, 22, 17]
      else if k = 4 then [28, 3, 29, 15, 18, 3, 16, 12, 3, 11, 7]
      else if k = 5 then [24, 23, 23, 29, 15, 19, 1, 5, 16, 8, 11, 13, 3]
      else if k = 6 then [16, 28, 22, 6, 21, 21, 20, 20, 1, 20]
      else if k = 7 then [15, 24, 27, 26, 4, 13, 16, 19, 17, 3, 18]
      else if k = 8 then [29, 7, 8, 11, 29, 20, 0, 24, 14, 6, 9, 7, 12]
      else [27, 5, 2, 28, 12, 23, 30, 30, 5, 28, 10, 14, 10, 25])"

definition bad_bucket :: "int \<Rightarrow> (inner_id \<times> dist) list" where
  "bad_bucket k = enumerate 0 (bad_distances k)"

definition bad_scan :: "int \<Rightarrow> (distance_heap \<times> dist) result" where
  "bad_scan k = foldR (scan_next demo_param 0 k) (map (\<lambda>(i, d). (d, i)) (bad_bucket k)) (MakeInstanceBySize False k, float_max)"

lemma bad_scans:
  "bad_scan 2 = Inl UB" "bad_scan 3 = Inl UB" "bad_scan 4 = Inl UB" "bad_scan 5 = Inl UB"
  "bad_scan 6 = Inl UB" "bad_scan 7 = Inl UB" "bad_scan 8 = Inl UB" "bad_scan 9 = Inl UB"
  by code_simp+

lemma bad_scan_UB:
  assumes "2 \<le> k" "k \<le> 9"
  shows "bad_scan k = Inl UB"
proof -
  have "k = 2 \<or> k = 3 \<or> k = 4 \<or> k = 5 \<or> k = 6 \<or> k = 7 \<or> k = 8 \<or> k = 9" using assms by arith
  then show ?thesis using bad_scans by auto
qed

lemma scan_next_knn: "isp_search_mode p = KNN_SEARCH \<Longrightarrow> scan_next p radius_bound topk = scan_next demo_param 0 topk"
  by (intro ext) (simp add: scan_next_def scan_record_def demo_param_def)

lemma bucket_records_all: "isp_is_inner_id_allowed p = None \<Longrightarrow> bucket_records p n None bucket = map (\<lambda>(i, d). (d, i)) bucket"
proof -
  assume "isp_is_inner_id_allowed p = None"
  then have "bucket_records p n None bucket = map (\<lambda>(j, i, d). (d, i)) (enumerate 0 bucket)" by (simp add: bucket_records_def)
  also have "\<dots> = map (\<lambda>(i, d). (d, i)) (map snd (enumerate 0 bucket))" by (simp add: case_prod_unfold del: map_snd_enumerate)
  finally show ?thesis by simp
qed

text \<open>
  Claim C36. A search for two to nine nearest records, with one bucket per vector, uses a heap that only works with a
  fixed size without one: after some pops it searches the stale end of its buffer and moves a block of negative length.
  For each of these numbers there is a bucket that leads there, whatever the other parameters of a search without
  filters are.
\<close>

theorem IVF_search_small_topk_UB:
  assumes "isp_search_mode p = KNN_SEARCH" "isp_is_inner_id_allowed p = None" "2 \<le> isp_topk p" "isp_topk p \<le> 9"
  shows "\<exists>bucket. IVF_search p radius_bound 1 (\<lambda>_. Inr bucket) (\<lambda>_. None) (\<lambda>_. False) hash_order [0] = Inl UB"
proof -
  have k: "ivf_topk 1 p = isp_topk p" using assms(1) by (simp add: ivf_topk_def ivf_origin_topk_def)
  have "scan_buckets p radius_bound (isp_topk p) 1 (\<lambda>_. Inr (bad_bucket (isp_topk p))) (\<lambda>_. None) (\<lambda>_. False) [0]
      (MakeInstanceBySize False (isp_topk p), float_max) = Inl UB"
    using bad_scan_UB [OF assms(3,4)] scan_next_knn [OF assms(1)] bucket_records_all [OF assms(2)] by (simp add: bad_scan_def)
  then have "IVF_search p radius_bound 1 (\<lambda>_. Inr (bad_bucket (isp_topk p))) (\<lambda>_. None) (\<lambda>_. False) hash_order [0] = Inl UB"
    unfolding IVF_search_def k Let_def by simp
  then show ?thesis by blast
qed

theorem IVF_search_small_topk_UB_witness:
  "\<exists>bucket. IVF_search (demo_param\<lparr>isp_topk := 5\<rparr>) 0 1 (\<lambda>_. Inr bucket) (\<lambda>_. None) (\<lambda>_. False) (\<lambda>m. m) [0] = Inl UB"
  by (rule IVF_search_small_topk_UB) (simp_all add: demo_param_def)

end
