(* ===== verification/FlattenDataCell.thy ===== *)
theory FlattenDataCell
  imports BasicIO
begin

text \<open>
  \<open>src/quantization/fp32_quantizer.cpp\<close> (the identity encoding of vectors, with the SIMD kernels as
  parameters) and \<open>src/datacell/flatten_datacell.h\<close> with \<open>flatten_interface.h\<close> (the codes of all
  vectors, at multiples of the code size in a byte store).

  The data cell is defined over any store and any quantizer. Its contract towards the indexes is
  the locale \<open>code_store\<close>; that a flatten data cell fulfils it over every store of \<open>direct_io\<close> is the
  sublocale below, interpreted for the full-precision quantizer over both memory stores.
\<close>

section \<open>FP32Quantizer\<close>

datatype metric_type = METRIC_TYPE_L2SQR | METRIC_TYPE_IP | METRIC_TYPE_COSINE

text \<open>
  The kernels of \<open>src/simd\<close> and the float operations applied to their results. A pointer to floats is
  the memory from there on; a code is the list of its bytes.
\<close>

record fp32_kernels =
  FP32ComputeIP :: "bytes \<Rightarrow> bytes \<Rightarrow> nat \<Rightarrow> dist"
  FP32ComputeL2Sqr :: "bytes \<Rightarrow> bytes \<Rightarrow> nat \<Rightarrow> dist"
  one_minus :: "dist \<Rightarrow> dist"
  div_by :: "dist \<Rightarrow> bytes \<Rightarrow> dist"
  div_by_product :: "dist \<Rightarrow> bytes \<Rightarrow> bytes \<Rightarrow> dist"
  mold_of :: "(nat \<Rightarrow> byte) \<Rightarrow> nat \<Rightarrow> nat"
  Normalize :: "(nat \<Rightarrow> byte) \<Rightarrow> nat \<Rightarrow> nat \<Rightarrow> byte"

definition FP32_code_size :: "metric_type \<Rightarrow> bool \<Rightarrow> nat \<Rightarrow> nat" where
  "FP32_code_size metric hold_molds dim =
     dim * 4 + (if metric = METRIC_TYPE_COSINE \<and> hold_molds then 4 else 0)"

definition FP32_EncodeOne :: "fp32_kernels \<Rightarrow> metric_type \<Rightarrow> bool \<Rightarrow> nat \<Rightarrow> (nat \<Rightarrow> byte) \<Rightarrow> bytes" where
  "FP32_EncodeOne k metric hold_molds dim data =
     (if metric = METRIC_TYPE_COSINE then
        (if hold_molds then map data [0..<dim * 4] @ le_bytes 4 (mold_of k data dim)
         else map (Normalize k data dim) [0..<dim * 4])
      else map data [0..<FP32_code_size metric hold_molds dim])"

definition FP32_DecodeOne :: "nat \<Rightarrow> bytes \<Rightarrow> bytes result" where
  "FP32_DecodeOne dim codes = (if length codes < dim * 4 then Inl UB else Inr (take (dim * 4) codes))"

text \<open>Into a buffer of \<open>count * dim\<close> floats.\<close>

definition FP32_DecodeBatch :: "nat \<Rightarrow> nat \<Rightarrow> nat \<Rightarrow> bytes \<Rightarrow> bytes \<Rightarrow> bytes result" where
  "FP32_DecodeBatch code_size dim num codes data =
     foldR (\<lambda>i data.
       if i * code_size + code_size > length codes \<or> i * dim * 4 + code_size > length data then Inl UB
       else Inr (blit data (i * dim * 4) (take code_size (drop (i * code_size) codes)))) [0..<num] data"

definition FP32_Compute :: "fp32_kernels \<Rightarrow> metric_type \<Rightarrow> bool \<Rightarrow> nat \<Rightarrow> bytes \<Rightarrow> bytes \<Rightarrow> dist" where
  "FP32_Compute k metric hold_molds dim codes1 codes2 =
     (case metric of
        METRIC_TYPE_IP \<Rightarrow> one_minus k (FP32ComputeIP k codes1 codes2 dim)
      | METRIC_TYPE_COSINE \<Rightarrow>
          (let similarity = FP32ComputeIP k codes1 codes2 dim
           in one_minus k (if hold_molds then div_by_product k similarity (drop (dim * 4) codes1) (drop (dim * 4) codes2)
                           else similarity))
      | METRIC_TYPE_L2SQR \<Rightarrow> FP32ComputeL2Sqr k codes1 codes2 dim)"

definition FP32_ProcessQuery :: "fp32_kernels \<Rightarrow> metric_type \<Rightarrow> bool \<Rightarrow> nat \<Rightarrow> (nat \<Rightarrow> byte) \<Rightarrow> bytes" where
  "FP32_ProcessQuery k metric hold_molds dim query =
     (if metric = METRIC_TYPE_COSINE then map (Normalize k query dim) [0..<dim * 4]
      else map query [0..<FP32_code_size metric hold_molds dim])"

definition FP32_ComputeDist :: "fp32_kernels \<Rightarrow> metric_type \<Rightarrow> bool \<Rightarrow> nat \<Rightarrow> bytes \<Rightarrow> bytes \<Rightarrow> dist" where
  "FP32_ComputeDist k metric hold_molds dim buf codes =
     (case metric of
        METRIC_TYPE_IP \<Rightarrow> one_minus k (FP32ComputeIP k codes buf dim)
      | METRIC_TYPE_COSINE \<Rightarrow>
          (let similarity = FP32ComputeIP k codes buf dim
           in one_minus k (if hold_molds then div_by k similarity (drop (dim * 4) codes) else similarity))
      | METRIC_TYPE_L2SQR \<Rightarrow> FP32ComputeL2Sqr k codes buf dim)"

lemma length_FP32_EncodeOne: "length (FP32_EncodeOne k metric hold_molds dim data) = FP32_code_size metric hold_molds dim"
  by (simp add: FP32_EncodeOne_def FP32_code_size_def)

lemma FP32_Decode_Encode:
  "metric \<noteq> METRIC_TYPE_COSINE \<or> hold_molds \<Longrightarrow>
   FP32_DecodeOne dim (FP32_EncodeOne k metric hold_molds dim data) = Inr (map data [0..<dim * 4])"
  by (auto simp: FP32_DecodeOne_def FP32_EncodeOne_def FP32_code_size_def)

section \<open>FlattenDataCell\<close>

record 's flatten_data_cell =
  fl_total_count :: nat
  fl_max_capacity :: nat
  fl_code_size :: nat
  fl_io :: 's

definition FlattenDataCell_new :: "nat \<Rightarrow> 's \<Rightarrow> 's flatten_data_cell" where
  "FlattenDataCell_new code_size io =
     \<lparr>fl_total_count = 0, fl_max_capacity = 800, fl_code_size = code_size, fl_io = io\<rparr>"

text \<open>The identifier \<open>2 ^ 32 - 1\<close> stands for the next free one. Products of 32-bit numbers are taken in 64 bits.\<close>

definition Flatten_InsertVector ::
  "(bytes \<Rightarrow> nat \<Rightarrow> 's \<Rightarrow> 's result) \<Rightarrow> ('v \<Rightarrow> bytes) \<Rightarrow> 'v \<Rightarrow> inner_id \<Rightarrow> 's flatten_data_cell \<Rightarrow> 's flatten_data_cell result" where
  "Flatten_InsertVector wr encode vector idx c =
     (let (idx, count) =
        (if idx = 2 ^ 32 - 1 then (fl_total_count c, u32 (fl_total_count c + 1))
         else (idx, max (fl_total_count c) (u32 (idx + 1))))
      in bindR (wr (encode vector) (idx * fl_code_size c) (fl_io c)) (\<lambda>io.
           Inr (c\<lparr>fl_total_count := count, fl_io := io\<rparr>)))"

definition Flatten_UpdateVector ::
  "(bytes \<Rightarrow> nat \<Rightarrow> 's \<Rightarrow> 's result) \<Rightarrow> ('v \<Rightarrow> bytes) \<Rightarrow> 'v \<Rightarrow> inner_id \<Rightarrow> 's flatten_data_cell \<Rightarrow> (bool \<times> 's flatten_data_cell) result" where
  "Flatten_UpdateVector wr encode vector idx c =
     (if idx \<ge> fl_total_count c then Inr (False, c)
      else bindR (wr (encode vector) (idx * fl_code_size c) (fl_io c)) (\<lambda>io. Inr (True, c\<lparr>fl_io := io\<rparr>)))"

definition EncodeBatch :: "('v \<Rightarrow> bytes) \<Rightarrow> 'v list \<Rightarrow> bytes" where
  "EncodeBatch encode vectors = concat (map encode vectors)"

definition Flatten_BatchInsertVector ::
  "(bytes \<Rightarrow> nat \<Rightarrow> 's \<Rightarrow> 's result) \<Rightarrow> ('v \<Rightarrow> bytes) \<Rightarrow> 'v list \<Rightarrow> inner_id list option \<Rightarrow> 's flatten_data_cell \<Rightarrow> 's flatten_data_cell result" where
  "Flatten_BatchInsertVector wr encode vectors idx_vec c =
     (case idx_vec of
        None \<Rightarrow>
          bindR (wr (EncodeBatch encode vectors) (fl_total_count c * fl_code_size c) (fl_io c)) (\<lambda>io.
            Inr (c\<lparr>fl_total_count := u32 (fl_total_count c + length vectors), fl_io := io\<rparr>))
      | Some idxs \<Rightarrow>
          if length idxs < length vectors then Inl UB
          else foldR (\<lambda>(vector, idx). Flatten_InsertVector wr encode vector idx) (zip vectors idxs) c)"

definition Flatten_Resize :: "(nat \<Rightarrow> 's \<Rightarrow> 's) \<Rightarrow> nat \<Rightarrow> 's flatten_data_cell \<Rightarrow> 's flatten_data_cell" where
  "Flatten_Resize resize new_capacity c =
     (if new_capacity \<le> fl_max_capacity c then c
      else c\<lparr>fl_io := resize (new_capacity * fl_code_size c) (fl_io c), fl_max_capacity := new_capacity\<rparr>)"

definition Flatten_ShrinkToFit :: "(nat \<Rightarrow> 's \<Rightarrow> 's) \<Rightarrow> nat \<Rightarrow> 's flatten_data_cell \<Rightarrow> 's flatten_data_cell" where
  "Flatten_ShrinkToFit shrink capacity c =
     c\<lparr>fl_io := shrink (capacity * fl_code_size c) (fl_io c), fl_max_capacity := capacity\<rparr>"

text \<open>
  Direct access to a code; the null pointer of a failed read is dereferenced by every caller. The
  copying variant returns \<open>None\<close> for a failed read.
\<close>

definition Flatten_GetCodes ::
  "('s \<Rightarrow> nat \<Rightarrow> nat \<Rightarrow> (bytes \<times> bool) option result) \<Rightarrow> 's flatten_data_cell \<Rightarrow> inner_id \<Rightarrow> bytes result" where
  "Flatten_GetCodes dread c idx =
     bindR (dread (fl_io c) (fl_code_size c) (idx * fl_code_size c)) (\<lambda>p.
       case p of None \<Rightarrow> Inl UB | Some (codes, _) \<Rightarrow> Inr codes)"

definition Flatten_GetCodesById ::
  "('s \<Rightarrow> nat \<Rightarrow> nat \<Rightarrow> bytes option result) \<Rightarrow> 's flatten_data_cell \<Rightarrow> inner_id \<Rightarrow> bytes option result" where
  "Flatten_GetCodesById read c idx = read (fl_io c) (fl_code_size c) (idx * fl_code_size c)"

text \<open>\<open>query\<close> over a store in memory: four codes at a time, then one by one.\<close>

fun query_loop :: "(inner_id \<Rightarrow> bytes result) \<Rightarrow> (bytes \<Rightarrow> dist) \<Rightarrow> (bytes \<Rightarrow> bytes \<Rightarrow> bytes \<Rightarrow> bytes \<Rightarrow> dist list) \<Rightarrow> inner_id list \<Rightarrow> dist list result" where
  "query_loop codes_of ComputeDist ComputeDistsBatch4 (i1 # i2 # i3 # i4 # idx) =
     bindR (codes_of i1) (\<lambda>codes1. bindR (codes_of i2) (\<lambda>codes2.
     bindR (codes_of i3) (\<lambda>codes3. bindR (codes_of i4) (\<lambda>codes4.
       let dists = ComputeDistsBatch4 codes1 codes2 codes3 codes4
       in bindR (query_loop codes_of ComputeDist ComputeDistsBatch4 idx) (\<lambda>rest. Inr (dists @ rest))))))"
| "query_loop codes_of ComputeDist ComputeDistsBatch4 (i # idx) =
     bindR (codes_of i) (\<lambda>codes.
       bindR (query_loop codes_of ComputeDist ComputeDistsBatch4 idx) (\<lambda>rest. Inr (ComputeDist codes # rest)))"
| "query_loop codes_of ComputeDist ComputeDistsBatch4 [] = Inr []"

definition Flatten_Query ::
  "('s \<Rightarrow> nat \<Rightarrow> nat \<Rightarrow> (bytes \<times> bool) option result) \<Rightarrow> (bytes \<Rightarrow> dist) \<Rightarrow> (bytes \<Rightarrow> bytes \<Rightarrow> bytes \<Rightarrow> bytes \<Rightarrow> dist list) \<Rightarrow>
     's flatten_data_cell \<Rightarrow> inner_id list \<Rightarrow> dist list result" where
  "Flatten_Query dread ComputeDist ComputeDistsBatch4 c idx =
     query_loop (Flatten_GetCodes dread c) ComputeDist ComputeDistsBatch4 idx"

definition Flatten_ComputePairVectors ::
  "('s \<Rightarrow> nat \<Rightarrow> nat \<Rightarrow> (bytes \<times> bool) option result) \<Rightarrow> (bytes \<Rightarrow> bytes \<Rightarrow> dist) \<Rightarrow> 's flatten_data_cell \<Rightarrow> inner_id \<Rightarrow> inner_id \<Rightarrow> dist result" where
  "Flatten_ComputePairVectors dread Compute c id1 id2 =
     bindR (Flatten_GetCodes dread c id1) (\<lambda>codes1.
     bindR (Flatten_GetCodes dread c id2) (\<lambda>codes2. Inr (Compute codes1 codes2)))"

definition Flatten_CompareVectors ::
  "('s \<Rightarrow> nat \<Rightarrow> nat \<Rightarrow> (bytes \<times> bool) option result) \<Rightarrow> 's flatten_data_cell \<Rightarrow> inner_id \<Rightarrow> inner_id \<Rightarrow> bool result" where
  "Flatten_CompareVectors dread c id1 id2 =
     bindR (Flatten_GetCodes dread c id1) (\<lambda>codes1.
     bindR (Flatten_GetCodes dread c id2) (\<lambda>codes2. Inr (codes1 = codes2)))"

definition Flatten_Move ::
  "('s \<Rightarrow> nat \<Rightarrow> nat \<Rightarrow> (bytes \<times> bool) option result) \<Rightarrow> (bytes \<Rightarrow> nat \<Rightarrow> 's \<Rightarrow> 's result) \<Rightarrow> inner_id \<Rightarrow> inner_id \<Rightarrow>
     's flatten_data_cell \<Rightarrow> 's flatten_data_cell result" where
  "Flatten_Move dread wr from to c =
     bindR (Flatten_GetCodes dread c from) (\<lambda>codes.
     bindR (wr codes (to * fl_code_size c) (fl_io c)) (\<lambda>io. Inr (c\<lparr>fl_io := io\<rparr>)))"

text \<open>
  \<open>MergeOther\<close>: \<open>bias * code_size_\<close> is a product of two 32-bit numbers, taken in 32 bits. The number of
  codes per round is zero for codes larger than the buffer; the loop then does not advance.
\<close>

definition BUFFER_SIZE :: nat where "BUFFER_SIZE = 1024 * 1024 * 10"

function merge_codes ::
  "('s \<Rightarrow> nat \<Rightarrow> nat \<Rightarrow> (bytes \<times> bool) option result) \<Rightarrow> (bytes \<Rightarrow> nat \<Rightarrow> 's \<Rightarrow> 's result) \<Rightarrow> nat \<Rightarrow> nat \<Rightarrow> nat \<Rightarrow> 's \<Rightarrow> nat \<Rightarrow> nat \<Rightarrow> 's \<Rightarrow> 's result" where
  "merge_codes dread wr per_round code_size total_count other offset read_count io =
     (if read_count < total_count then
        (let count = min per_round (total_count - read_count);
             n = count * code_size
         in if count = 0 then Inl Diverges
            else bindR (dread other n (read_count * code_size)) (\<lambda>p.
              case p of
                None \<Rightarrow> Inl UB
              | Some (buffer, _) \<Rightarrow>
                  bindR (wr buffer offset io) (\<lambda>io.
                    merge_codes dread wr per_round code_size total_count other (offset + n) (read_count + count) io)))
      else Inr io)"
  by pat_completeness auto
termination
  by (relation "measure (\<lambda>(dread, wr, per_round, code_size, total_count, other, offset, read_count, io). total_count - read_count)") auto

declare merge_codes.simps [simp del]

definition Flatten_MergeOther ::
  "('s \<Rightarrow> nat \<Rightarrow> nat \<Rightarrow> (bytes \<times> bool) option result) \<Rightarrow> (bytes \<Rightarrow> nat \<Rightarrow> 's \<Rightarrow> 's result) \<Rightarrow> 's flatten_data_cell \<Rightarrow> inner_id \<Rightarrow>
     's flatten_data_cell \<Rightarrow> 's flatten_data_cell result" where
  "Flatten_MergeOther dread wr other bias c =
     (if fl_code_size c = 0 \<and> 0 < fl_total_count other then Inl UB
      else bindR (merge_codes dread wr (BUFFER_SIZE div fl_code_size c) (fl_code_size c) (fl_total_count other) (fl_io other)
                    (u32 (bias * fl_code_size c)) 0 (fl_io c)) (\<lambda>io.
        Inr (c\<lparr>fl_io := io, fl_total_count := u32 (fl_total_count c + fl_total_count other)\<rparr>)))"

section \<open>The contract of a code store\<close>

text \<open>
  \<open>code c i\<close> is the code at \<open>i\<close>, which is there where \<open>has c i\<close>; identifiers below \<open>room\<close> can be used.
\<close>

locale code_store =
  fixes ins :: "'v \<Rightarrow> inner_id \<Rightarrow> 'c \<Rightarrow> 'c result"
    and move :: "inner_id \<Rightarrow> inner_id \<Rightarrow> 'c \<Rightarrow> 'c result"
    and grow :: "nat \<Rightarrow> 'c \<Rightarrow> 'c"
    and get :: "'c \<Rightarrow> inner_id \<Rightarrow> bytes result"
    and encode :: "'v \<Rightarrow> bytes"
    and code :: "'c \<Rightarrow> inner_id \<Rightarrow> bytes"
    and has :: "'c \<Rightarrow> inner_id \<Rightarrow> bool"
    and inv :: "'c \<Rightarrow> bool"
    and room :: nat
  assumes ins_ok: "inv c \<Longrightarrow> i < room \<Longrightarrow> \<exists>c'. ins v i c = Inr c' \<and> inv c' \<and> has c' i \<and> code c' i = encode v \<and>
      (\<forall>x. x \<noteq> i \<and> has c x \<longrightarrow> has c' x \<and> code c' x = code c x)"
    and move_ok: "inv c \<Longrightarrow> has c i \<Longrightarrow> has c j \<Longrightarrow> \<exists>c'. move i j c = Inr c' \<and> inv c' \<and> code c' j = code c i \<and>
      (\<forall>x. has c' x = has c x) \<and> (\<forall>x. x \<noteq> j \<and> has c x \<longrightarrow> code c' x = code c x)"
    and grow_ok: "inv c \<Longrightarrow> n \<le> room \<Longrightarrow> inv (grow n c) \<and> (\<forall>x<n. has c x \<longrightarrow> has (grow n c) x \<and> code (grow n c) x = code c x)"
    and get_ok: "inv c \<Longrightarrow> has c i \<Longrightarrow> get c i = Inr (code c i)"
begin

text \<open>A batch of distances is computed from the stored codes, in groups of four.\<close>

fun batch_dists :: "(bytes \<Rightarrow> dist) \<Rightarrow> (bytes \<Rightarrow> bytes \<Rightarrow> bytes \<Rightarrow> bytes \<Rightarrow> dist list) \<Rightarrow> bytes list \<Rightarrow> dist list" where
  "batch_dists d d4 (a # b # c # e # xs) = d4 a b c e @ batch_dists d d4 xs"
| "batch_dists d d4 (a # xs) = d a # batch_dists d d4 xs"
| "batch_dists d d4 [] = []"

lemma query_ok:
  "inv c \<Longrightarrow> \<forall>i\<in>set idx. has c i \<Longrightarrow> query_loop (get c) d d4 idx = Inr (batch_dists d d4 (map (code c) idx))"
  by (induction "get c" d d4 idx rule: query_loop.induct) (auto simp: get_ok Let_def)

end

section \<open>A flatten data cell is a code store\<close>

locale flatten_store = direct_io wr read size_of content inv limit dread resize shrink
  for wr :: "bytes \<Rightarrow> nat \<Rightarrow> 's \<Rightarrow> 's result" and read size_of content inv limit dread resize shrink +
  fixes encode :: "'v \<Rightarrow> bytes" and cs :: nat
  assumes code_size: "length (encode v) = cs" "0 < cs"
begin

definition fl_code :: "'s flatten_data_cell \<Rightarrow> inner_id \<Rightarrow> bytes" where
  "fl_code c i = map (content (fl_io c)) [i * cs..<i * cs + cs]"

definition fl_has :: "'s flatten_data_cell \<Rightarrow> inner_id \<Rightarrow> bool" where
  "fl_has c i \<longleftrightarrow> i * cs + cs \<le> size_of (fl_io c)"

definition fl_inv :: "'s flatten_data_cell \<Rightarrow> bool" where
  "fl_inv c \<longleftrightarrow> inv (fl_io c) \<and> fl_code_size c = cs"

definition fl_room :: nat where
  "fl_room = min (limit div cs) (2 ^ 32 - 1)"

lemma slots_apart: "x \<noteq> i \<Longrightarrow> j < cs \<Longrightarrow> x * cs + j < i * cs \<or> i * cs + cs \<le> x * cs + j"
proof -
  assume "x \<noteq> i" and j: "j < cs"
  then consider "Suc x \<le> i" | "Suc i \<le> x" by linarith
  then show ?thesis
  proof cases
    case 1
    then have "Suc x * cs \<le> i * cs" by (rule mult_le_mono1)
    then show ?thesis using j by simp
  next
    case 2
    then have "Suc i * cs \<le> x * cs" by (rule mult_le_mono1)
    then show ?thesis by simp
  qed
qed

lemma room_limit: "i < fl_room \<Longrightarrow> i * cs + cs \<le> limit" "n \<le> fl_room \<Longrightarrow> n * cs \<le> limit"
proof -
  have le: "n * cs \<le> limit" if "n \<le> fl_room" for n
  proof -
    have "n * cs \<le> limit div cs * cs" using that by (intro mult_le_mono1) (simp add: fl_room_def)
    then show ?thesis by (rule order_trans) simp
  qed
  then show "n \<le> fl_room \<Longrightarrow> n * cs \<le> limit" .
  show "i < fl_room \<Longrightarrow> i * cs + cs \<le> limit" using le [of "Suc i"] by (simp add: add.commute)
qed

text \<open>Writing one slot.\<close>

lemma write_slot:
  assumes "inv io" "length bs = cs" "i * cs + cs \<le> limit"
  shows "\<exists>io'. wr bs (i * cs) io = Inr io' \<and> inv io' \<and> size_of io' = max (size_of io) (i * cs + cs) \<and>
    map (content io') [i * cs..<i * cs + cs] = bs \<and>
    (\<forall>x. x \<noteq> i \<and> x * cs + cs \<le> size_of io \<longrightarrow>
       map (content io') [x * cs..<x * cs + cs] = map (content io) [x * cs..<x * cs + cs])"
proof -
  have "bs \<noteq> []" using assms(2) code_size(2) by auto
  then obtain io' where io': "wr bs (i * cs) io = Inr io'" "inv io'" "size_of io' = max (size_of io) (i * cs + cs)"
    "\<forall>j<cs. content io' (i * cs + j) = bs ! j"
    "\<forall>j < size_of io. j < i * cs \<or> i * cs + cs \<le> j \<longrightarrow> content io' j = content io j"
    using write_ok [OF assms(1), of bs "i * cs"] assms(2,3) by auto
  have "map (content io') [i * cs..<i * cs + cs] = bs" using io'(4) assms(2) by (intro nth_equalityI) simp_all
  moreover have "map (content io') [x * cs..<x * cs + cs] = map (content io) [x * cs..<x * cs + cs]"
    if "x \<noteq> i" "x * cs + cs \<le> size_of io" for x
  proof (rule nth_equalityI)
    fix j assume "j < length (map (content io') [x * cs..<x * cs + cs])"
    then have j: "j < cs" by simp
    have "x * cs + j < size_of io" using j that(2) by linarith
    then have "content io' (x * cs + j) = content io (x * cs + j)" using io'(5) slots_apart [OF that(1) j] by blast
    then show "map (content io') [x * cs..<x * cs + cs] ! j = map (content io) [x * cs..<x * cs + cs] ! j" using j by simp
  qed simp
  ultimately show ?thesis using io'(1-3) by blast
qed

text \<open>\<open>MergeOther\<close> copies the codes of the other cell to the slots from \<open>b\<close> on.\<close>

lemma merge_codes_ok:
  assumes "inv io" "inv other" "tot * cs \<le> size_of other" "(b + tot) * cs \<le> limit" "rc \<le> tot" "0 < pr"
  shows "\<exists>io'. merge_codes dread wr pr cs tot other ((b + rc) * cs) rc io = Inr io' \<and> inv io' \<and>
    (\<forall>i. (b + rc) * cs \<le> i \<and> i < (b + tot) * cs \<longrightarrow> i < size_of io' \<and> content io' i = content other (i - b * cs)) \<and>
    (\<forall>i < size_of io. i < size_of io' \<and> (i < (b + rc) * cs \<or> (b + tot) * cs \<le> i \<longrightarrow> content io' i = content io i))"
  using assms
proof (induction "tot - rc" arbitrary: rc io rule: less_induct)
  case less
  show ?case
  proof (cases "rc < tot")
    case False
    then have "rc = tot" using less.prems(5) by simp
    then show ?thesis using less.prems(1) by (subst merge_codes.simps) auto
  next
    case True
    define n where "n = min pr (tot - rc)"
    have n: "0 < n" "rc + n \<le> tot" using True less.prems(6) by (auto simp: n_def)
    have rn: "rc * cs + n * cs \<le> tot * cs" using mult_le_mono1 [OF n(2), of cs] by (simp add: algebra_simps)
    obtain rel where rd: "dread other (n * cs) (rc * cs) = Inr (Some (map (content other) [rc * cs..<rc * cs + n * cs], rel))"
      using dread_ok [OF less.prems(2), of "n * cs" "rc * cs"] n(1) code_size(2) rn less.prems(3) by auto
    let ?bs = "map (content other) [rc * cs..<rc * cs + n * cs]" and ?off = "(b + rc) * cs"
    have fin: "?off + n * cs = (b + (rc + n)) * cs" by (simp add: algebra_simps)
    have up: "(b + (rc + n)) * cs \<le> (b + tot) * cs" using n(2) by (intro mult_le_mono1) simp
    have len: "length ?bs = n * cs" by simp
    have lim: "?off + length ?bs \<le> limit" unfolding len fin using up less.prems(4) by (rule order_trans)
    have "?bs \<noteq> []" using n(1) code_size(2) by simp
    then obtain io1 where io1: "wr ?bs ?off io = Inr io1" "inv io1" "size_of io1 = max (size_of io) (?off + length ?bs)"
      "\<forall>i<length ?bs. content io1 (?off + i) = ?bs ! i"
      "\<forall>i < size_of io. i < ?off \<or> ?off + length ?bs \<le> i \<longrightarrow> content io1 i = content io i"
      using write_ok [OF less.prems(1) _ lim] by auto
    have w: "content io1 i = content other (i - b * cs)" if "?off \<le> i" "i < (b + (rc + n)) * cs" for i
    proof -
      have e: "i - ?off < n * cs" using that fin by linarith
      then have "content io1 (?off + (i - ?off)) = ?bs ! (i - ?off)" using io1(4) by simp
      moreover have "?bs ! (i - ?off) = content other (rc * cs + (i - ?off))" using e by simp
      moreover have "rc * cs + (i - ?off) = i - b * cs" using that(1) by (simp add: algebra_simps)
      ultimately show ?thesis using that(1) by simp
    qed
    obtain io' where io': "merge_codes dread wr pr cs tot other ((b + (rc + n)) * cs) (rc + n) io1 = Inr io'" "inv io'"
      "\<forall>i. (b + (rc + n)) * cs \<le> i \<and> i < (b + tot) * cs \<longrightarrow> i < size_of io' \<and> content io' i = content other (i - b * cs)"
      "\<forall>i < size_of io1. i < size_of io' \<and> (i < (b + (rc + n)) * cs \<or> (b + tot) * cs \<le> i \<longrightarrow> content io' i = content io1 i)"
      using less.hyps [OF _ io1(2) less.prems(2-4) n(2) less.prems(6)] n by fastforce
    have run: "merge_codes dread wr pr cs tot other ?off rc io = Inr io'"
      using True rd io1(1) io'(1) n(1) by (subst merge_codes.simps) (simp add: Let_def n_def [symmetric] fin)
    have mid: "i < size_of io' \<and> content io' i = content other (i - b * cs)" if "?off \<le> i" "i < (b + (rc + n)) * cs" for i
      using io'(4) that w io1(3) fin by (simp add: less_max_iff_disj)
    have keep: "i < size_of io' \<and> (i < ?off \<or> (b + tot) * cs \<le> i \<longrightarrow> content io' i = content io i)" if "i < size_of io" for i
    proof -
      have "i < size_of io1" using that io1(3) by simp
      then have k: "i < size_of io' \<and> (i < (b + (rc + n)) * cs \<or> (b + tot) * cs \<le> i \<longrightarrow> content io' i = content io1 i)"
        using io'(4) [rule_format, of i] by simp
      have eq: "content io1 i = content io i" if "i < ?off \<or> (b + (rc + n)) * cs \<le> i"
        using io1(5) \<open>i < size_of io\<close> that unfolding len fin by blast
      have "?off \<le> (b + (rc + n)) * cs" by (intro mult_le_mono1) simp
      then have lo: "i < ?off \<Longrightarrow> i < (b + (rc + n)) * cs" by linarith
      have hi: "(b + tot) * cs \<le> i \<Longrightarrow> (b + (rc + n)) * cs \<le> i" using up by linarith
      show ?thesis using k
      proof (elim conjE, intro conjI impI)
        assume a: "i < (b + (rc + n)) * cs \<or> (b + tot) * cs \<le> i \<longrightarrow> content io' i = content io1 i"
          and c: "i < ?off \<or> (b + tot) * cs \<le> i"
        then show "content io' i = content io i" using lo hi eq by presburger
      qed
    qed
    have "i < size_of io' \<and> content io' i = content other (i - b * cs)" if "?off \<le> i" "i < (b + tot) * cs" for i
      using mid [OF that(1)] io'(3) that by (cases "i < (b + (rc + n)) * cs") auto
    then show ?thesis using run io'(2) keep by blast
  qed
qed

lemma GetCodes_ok: "fl_inv c \<Longrightarrow> fl_has c i \<Longrightarrow> Flatten_GetCodes dread c i = Inr (fl_code c i)"
  using dread_ok [of "fl_io c" cs "i * cs"] code_size(2)
  by (auto simp: Flatten_GetCodes_def fl_inv_def fl_has_def fl_code_def)

lemma slot_ext:
  "\<forall>j. x * cs \<le> j \<and> j < x * cs + cs \<longrightarrow> f j = g (j + y * cs - x * cs) \<Longrightarrow>
   map f [x * cs..<x * cs + cs] = map g [y * cs..<y * cs + cs]"
  by (rule nth_equalityI) (auto simp: add.commute)

lemma MergeOther_ok:
  assumes "fl_inv c" "fl_inv other" "fl_total_count other * cs \<le> size_of (fl_io other)" "cs \<le> BUFFER_SIZE"
    and "u32 (bias * cs) = b * cs" "(b + fl_total_count other) * cs \<le> limit"
  shows "\<exists>c'. Flatten_MergeOther dread wr other bias c = Inr c' \<and> fl_inv c' \<and>
    (\<forall>i<fl_total_count other. fl_has c' (b + i) \<and> fl_code c' (b + i) = fl_code other i) \<and>
    (\<forall>x. fl_has c x \<and> (x < b \<or> b + fl_total_count other \<le> x) \<longrightarrow> fl_has c' x \<and> fl_code c' x = fl_code c x)"
proof -
  define m where "m = fl_total_count other"
  have pr: "0 < BUFFER_SIZE div cs" using assms(4) code_size(2) by (simp add: div_greater_zero_iff)
  obtain io' where io': "merge_codes dread wr (BUFFER_SIZE div cs) cs m (fl_io other) (b * cs) 0 (fl_io c) = Inr io'" "inv io'"
    "\<forall>i. b * cs \<le> i \<and> i < (b + m) * cs \<longrightarrow> i < size_of io' \<and> content io' i = content (fl_io other) (i - b * cs)"
    "\<forall>i < size_of (fl_io c). i < size_of io' \<and> (i < b * cs \<or> (b + m) * cs \<le> i \<longrightarrow> content io' i = content (fl_io c) i)"
    using merge_codes_ok [of "fl_io c" "fl_io other" m b 0 "BUFFER_SIZE div cs"] assms(1-3,6) pr by (auto simp: fl_inv_def m_def)
  let ?c = "c\<lparr>fl_io := io', fl_total_count := u32 (fl_total_count c + m)\<rparr>"
  have "fl_code_size c = cs" using assms(1) by (simp add: fl_inv_def)
  then have run: "Flatten_MergeOther dread wr other bias c = Inr ?c"
    using io'(1) code_size(2) assms(5) by (simp add: Flatten_MergeOther_def m_def)
  have "fl_has ?c (b + i) \<and> fl_code ?c (b + i) = fl_code other i" if "i < m" for i
  proof -
    have e: "(b + i) * cs + cs \<le> (b + m) * cs" using mult_le_mono1 [of "Suc (b + i)" "b + m" cs] that by simp
    have lo: "b * cs \<le> (b + i) * cs" by (intro mult_le_mono1) simp
    have "b * cs \<le> (b + i) * cs + cs - 1" "(b + i) * cs + cs - 1 < (b + m) * cs" using e lo code_size(2) by linarith+
    then have "(b + i) * cs + cs - 1 < size_of io'" using io'(3) by blast
    then have "fl_has ?c (b + i)" by (simp add: fl_has_def)
    moreover have "content io' j = content (fl_io other) (j + i * cs - (b + i) * cs)" if "(b + i) * cs \<le> j" "j < (b + i) * cs + cs" for j
    proof -
      have "j + i * cs - (b + i) * cs = j - b * cs" by (simp add: algebra_simps)
      moreover have "b * cs \<le> j" "j < (b + m) * cs" using that e lo by linarith+
      ultimately show ?thesis using io'(3) by simp
    qed
    ultimately show ?thesis by (simp add: fl_code_def slot_ext)
  qed
  moreover have "fl_has ?c x \<and> fl_code ?c x = fl_code c x" if x: "fl_has c x" "x < b \<or> b + m \<le> x" for x
  proof -
    have out: "j < b * cs \<or> (b + m) * cs \<le> j" if "x * cs \<le> j" "j < x * cs + cs" for j
    proof (cases "x < b")
      case True
      then have "Suc x * cs \<le> b * cs" by (intro mult_le_mono1) simp
      then show ?thesis using that(2) by simp
    next
      case False
      then have "(b + m) * cs \<le> x * cs" using x(2) by (intro mult_le_mono1) simp
      then show ?thesis using that(1) by linarith
    qed
    have sz: "j < size_of (fl_io c)" if "j < x * cs + cs" for j using x(1) that by (simp add: fl_has_def)
    have "x * cs + cs - 1 < size_of io'" using io'(4) sz [of "x * cs + cs - 1"] code_size(2) by simp
    then have "fl_has ?c x" by (simp add: fl_has_def)
    moreover have "map (content io') [x * cs..<x * cs + cs] = map (content (fl_io c)) [x * cs..<x * cs + cs]"
    proof (rule map_cong [OF refl])
      fix j assume "j \<in> set [x * cs..<x * cs + cs]"
      then have "x * cs \<le> j" "j < x * cs + cs" by simp_all
      then show "content io' j = content (fl_io c) j" using io'(4) out sz by blast
    qed
    ultimately show ?thesis by (simp add: fl_code_def)
  qed
  ultimately show ?thesis using run io'(2) assms(1) unfolding m_def by (intro exI [of _ ?c]) (auto simp: fl_inv_def m_def)
qed

end

sublocale flatten_store \<subseteq> flat: code_store "Flatten_InsertVector wr encode" "Flatten_Move dread wr"
  "Flatten_Resize resize" "Flatten_GetCodes dread" encode fl_code fl_has fl_inv fl_room
proof (unfold_locales, goal_cases)
  case (1 c i v)
  then have i: "i * cs + cs \<le> limit" "i \<noteq> 2 ^ 32 - 1" using room_limit(1) [of i] by (auto simp: fl_room_def)
  obtain io' where io': "wr (encode v) (i * cs) (fl_io c) = Inr io'" "inv io'"
    "size_of io' = max (size_of (fl_io c)) (i * cs + cs)" "map (content io') [i * cs..<i * cs + cs] = encode v"
    "\<forall>x. x \<noteq> i \<and> x * cs + cs \<le> size_of (fl_io c) \<longrightarrow>
       map (content io') [x * cs..<x * cs + cs] = map (content (fl_io c)) [x * cs..<x * cs + cs]"
    using write_slot [OF _ code_size(1) i(1), of "fl_io c" v] 1(1) by (auto simp: fl_inv_def)
  let ?c = "c\<lparr>fl_total_count := max (fl_total_count c) (u32 (i + 1)), fl_io := io'\<rparr>"
  have "Flatten_InsertVector wr encode v i c = Inr ?c"
    using i(2) io'(1) 1(1) by (simp add: Flatten_InsertVector_def fl_inv_def)
  moreover have "fl_inv ?c" "fl_has ?c i" "fl_code ?c i = encode v"
    using 1(1) io'(2-4) by (simp_all add: fl_inv_def fl_has_def fl_code_def)
  moreover have "\<forall>x. x \<noteq> i \<and> fl_has c x \<longrightarrow> fl_has ?c x \<and> fl_code ?c x = fl_code c x"
    using io'(3,5) by (auto simp: fl_has_def fl_code_def)
  ultimately show ?case by blast
next
  case (2 c i j)
  have sz: "size_of (fl_io c) \<le> limit" using 2(1) size_bound by (simp add: fl_inv_def)
  then have j: "j * cs + cs \<le> limit" using 2(3) by (simp add: fl_has_def)
  obtain io' where io': "wr (fl_code c i) (j * cs) (fl_io c) = Inr io'" "inv io'"
    "size_of io' = max (size_of (fl_io c)) (j * cs + cs)" "map (content io') [j * cs..<j * cs + cs] = fl_code c i"
    "\<forall>x. x \<noteq> j \<and> x * cs + cs \<le> size_of (fl_io c) \<longrightarrow>
       map (content io') [x * cs..<x * cs + cs] = map (content (fl_io c)) [x * cs..<x * cs + cs]"
    using write_slot [OF _ _ j, of "fl_io c" "fl_code c i"] 2(1) by (auto simp: fl_inv_def fl_code_def)
  let ?c = "c\<lparr>fl_io := io'\<rparr>"
  have size: "size_of io' = size_of (fl_io c)" using io'(3) 2(3) by (simp add: fl_has_def)
  have "Flatten_Move dread wr i j c = Inr ?c"
    using GetCodes_ok [OF 2(1,2)] io'(1) 2(1) by (simp add: Flatten_Move_def fl_inv_def)
  moreover have "fl_inv ?c" "fl_code ?c j = fl_code c i" "\<forall>x. fl_has ?c x = fl_has c x"
    using 2(1) io'(2,4) size by (simp_all add: fl_inv_def fl_has_def fl_code_def [of ?c])
  moreover have "\<forall>x. x \<noteq> j \<and> fl_has c x \<longrightarrow> fl_code ?c x = fl_code c x" using io'(5) by (simp add: fl_has_def fl_code_def)
  ultimately show ?case by blast
next
  case (3 c n)
  show ?case
  proof (cases "n \<le> fl_max_capacity c")
    case False
    let ?io = "resize (n * cs) (fl_io c)"
    have "n * cs \<le> limit" using room_limit(2) 3(2) .
    then have io: "inv ?io" "size_of ?io = n * cs" "\<forall>i<min (n * cs) (size_of (fl_io c)). content ?io i = content (fl_io c) i"
      using resize_ok [of "fl_io c" "n * cs"] 3(1) by (auto simp: fl_inv_def)
    have "x * cs + cs \<le> n * cs" if "x < n" for x using mult_le_mono1 [of "Suc x" n cs] that by simp
    then have "fl_has (Flatten_Resize resize n c) x \<and> fl_code (Flatten_Resize resize n c) x = fl_code c x"
      if "x < n" "fl_has c x" for x
      using that io(2,3) False 3(1) by (fastforce simp: Flatten_Resize_def fl_inv_def fl_has_def fl_code_def)
    then show ?thesis using io(1) False 3(1) by (simp add: Flatten_Resize_def fl_inv_def)
  qed (use 3(1) in \<open>simp add: Flatten_Resize_def\<close>)
next
  case (4 c i)
  then show ?case by (rule GetCodes_ok)
qed

text \<open>Full precision, in both memory stores; a dimension is positive.\<close>

interpretation fp32_mem: flatten_store "MemoryIO_WriteImpl fresh" MemoryIO_ReadImpl mio_size "\<lambda>s. (!) (mio_buffer s)" mio_inv "2 ^ 62"
  MemoryIO_DirectReadImpl "MemoryIO_ResizeImpl fresh" MemoryIO_Shrink
  "FP32_EncodeOne k metric hold_molds (Suc d)" "FP32_code_size metric hold_molds (Suc d)"
  for fresh k metric hold_molds d
  by unfold_locales (simp_all add: length_FP32_EncodeOne FP32_code_size_def)

interpretation fp32_block: flatten_store "MemoryBlockIO_WriteImpl fresh" MemoryBlockIO_ReadImpl mbio_size mbio_content mbio_inv "2 ^ 62"
  MemoryBlockIO_DirectReadImpl "MemoryBlockIO_ResizeImpl fresh" MemoryBlockIO_ShrinkImpl
  "FP32_EncodeOne k metric hold_molds (Suc d)" "FP32_code_size metric hold_molds (Suc d)"
  for fresh k metric hold_molds d
  by unfold_locales (simp_all add: length_FP32_EncodeOne FP32_code_size_def)

section \<open>Properties\<close>

text \<open>
  \<open>MergeOther\<close> copies the codes of the other cell to consecutive slots and keeps the codes
  of all other slots. The first slot is the one at the byte offset \<open>bias * code_size_ mod 2 ^ 32\<close>:
  it is \<open>bias\<close> as long as the product fits in 32 bits; beyond that the merged codes overwrite earlier ones.
\<close>

lemma Flatten_MergeOther_position:
  assumes "mbio_inv (fl_io c)" "mbio_inv (fl_io other)"
    and "fl_code_size c = 4 * Suc d" "fl_code_size other = 4 * Suc d" "4 * Suc d \<le> BUFFER_SIZE"
    and "fl_total_count other * (4 * Suc d) \<le> mbio_size (fl_io other)"
    and "bias * (4 * Suc d) mod 2 ^ 32 = b * (4 * Suc d)" "(b + fl_total_count other) * (4 * Suc d) \<le> 2 ^ 62"
  shows "\<exists>c'. Flatten_MergeOther MemoryBlockIO_DirectReadImpl (MemoryBlockIO_WriteImpl fresh) other bias c = Inr c' \<and>
    (\<forall>i<fl_total_count other. Flatten_GetCodes MemoryBlockIO_DirectReadImpl c' (b + i) = Flatten_GetCodes MemoryBlockIO_DirectReadImpl other i) \<and>
    (\<forall>x. x * (4 * Suc d) + 4 * Suc d \<le> mbio_size (fl_io c) \<and> (x < b \<or> b + fl_total_count other \<le> x) \<longrightarrow>
       Flatten_GetCodes MemoryBlockIO_DirectReadImpl c' x = Flatten_GetCodes MemoryBlockIO_DirectReadImpl c x)"
proof -
  let ?get = "Flatten_GetCodes MemoryBlockIO_DirectReadImpl" and ?cs = "FP32_code_size METRIC_TYPE_L2SQR False (Suc d)"
  have cs: "?cs = 4 * Suc d" by (simp add: FP32_code_size_def)
  note as = assms [folded cs]
  let ?inv = "fp32_block.fl_inv METRIC_TYPE_L2SQR False d" and ?has = "fp32_block.fl_has METRIC_TYPE_L2SQR False d"
    and ?code = "fp32_block.fl_code METRIC_TYPE_L2SQR False d"
  have inv: "?inv c" "?inv other" using as(1-4) by (simp_all add: fp32_block.fl_inv_def)
  obtain c' where c': "Flatten_MergeOther MemoryBlockIO_DirectReadImpl (MemoryBlockIO_WriteImpl fresh) other bias c = Inr c'" "?inv c'"
    "\<forall>i<fl_total_count other. ?has c' (b + i) \<and> ?code c' (b + i) = ?code other i"
    "\<forall>x. ?has c x \<and> (x < b \<or> b + fl_total_count other \<le> x) \<longrightarrow> ?has c' x \<and> ?code c' x = ?code c x"
    using fp32_block.MergeOther_ok [OF inv as(6,5) _ as(8), of bias] as(7) unfolding u32_def by blast
  have ho: "?has other i" if "i < fl_total_count other" for i
    using mult_le_mono1 [of "Suc i" "fl_total_count other" ?cs] that as(6) by (simp add: fp32_block.fl_has_def)
  have "?get c' (b + i) = ?get other i" if "i < fl_total_count other" for i
    using c'(3) that fp32_block.GetCodes_ok [OF c'(2), of "b + i"] fp32_block.GetCodes_ok [OF inv(2) ho [OF that]] by simp
  moreover have "?get c' x = ?get c x" if "x * ?cs + ?cs \<le> mbio_size (fl_io c)" "x < b \<or> b + fl_total_count other \<le> x" for x
  proof -
    have "?has c x" using that(1) by (simp add: fp32_block.fl_has_def)
    then show ?thesis using c'(4) that(2) fp32_block.GetCodes_ok [OF c'(2), of x] fp32_block.GetCodes_ok [OF inv(1), of x] by simp
  qed
  ultimately show ?thesis using c'(1) unfolding cs by blast
qed

end
