(* ===== verification/LabelTable.thy ===== *)
theory LabelTable
  imports Streams "HOL-Library.AList"
begin

text \<open>
  \<open>src/impl/label_table.{h,cpp}\<close>: the correspondence between the labels of the user and the
  inner identifiers of the index, with deletion marks, reusable holes, swap-removal and
  (de)serialization. The theory models every operation and proves that the table, used the way
  the indexes use it, is a list of distinct labels indexed by the identifiers, with a set of marks.
\<close>

section \<open>State\<close>

text \<open>
  \<open>LabelRemap\<close> holds one of two hash maps with the same interface; it is an association list
  without repeated keys in the order of iteration. \<open>deleted_ids_\<close> is a list without
  repetitions in the order of iteration, \<open>hole_list_\<close> a stack whose top is the last element.
  The duplicate tracker is a parameter of the two operations that call it.
\<close>

type_synonym label_remap = "(label \<times> inner_id) list"

definition INVALID_ID :: inner_id where "INVALID_ID = 2 ^ 32 - 1"

definition Remap_InsertOrAssign :: "label \<Rightarrow> inner_id \<Rightarrow> label_remap \<Rightarrow> label_remap" where
  "Remap_InsertOrAssign lab inner m = AList.update lab inner m"

definition Remap_Emplace :: "label \<Rightarrow> inner_id \<Rightarrow> label_remap \<Rightarrow> label_remap" where
  "Remap_Emplace lab inner m = (if map_of m lab = None then m @ [(lab, inner)] else m)"

definition Remap_Erase :: "label \<Rightarrow> label_remap \<Rightarrow> bool \<times> label_remap" where
  "Remap_Erase lab m = (map_of m lab \<noteq> None, AList.delete lab m)"

definition Remap_Find :: "label_remap \<Rightarrow> label \<Rightarrow> inner_id option" where
  "Remap_Find m lab = map_of m lab"

definition Remap_Size :: "label_remap \<Rightarrow> nat" where
  "Remap_Size m = length m"

record 'd label_table =
  lt_label_table :: "label list"
  lt_is_legacy_duplicate_format :: bool
  lt_use_reverse_map :: bool
  lt_label_remap :: label_remap
  lt_support_tombstone :: bool
  lt_duplicate_tracker :: "'d option"
  lt_total_count :: int
  lt_deleted_ids :: "inner_id list"
  lt_hole_list :: "inner_id list"

definition LabelTable_new :: "bool \<Rightarrow> 'd label_table" where
  "LabelTable_new use_reverse_map =
     \<lparr>lt_label_table = [], lt_is_legacy_duplicate_format = False, lt_use_reverse_map = use_reverse_map,
      lt_label_remap = [], lt_support_tombstone = False, lt_duplicate_tracker = None,
      lt_total_count = 0, lt_deleted_ids = [], lt_hole_list = []\<rparr>"

section \<open>Operations\<close>

definition LabelTable_Insert :: "inner_id \<Rightarrow> label \<Rightarrow> 'd label_table \<Rightarrow> 'd label_table result" where
  "LabelTable_Insert vid lab t =
     (let t1 = (if lt_use_reverse_map t
                then t\<lparr>lt_label_remap := Remap_InsertOrAssign lab vid (lt_label_remap t)\<rparr> else t);
          tab = (if u32 (vid + 1) > length (lt_label_table t)
                 then vec_resize (u32 (vid + 1)) 0 (lt_label_table t) else lt_label_table t)
      in if vid \<ge> length tab then Inl UB
         else Inr (t1\<lparr>lt_label_table := tab[vid := lab], lt_total_count := lt_total_count t + 1\<rparr>))"

definition LabelTable_SetImmutable :: "'d label_table \<Rightarrow> 'd label_table" where
  "LabelTable_SetImmutable t = t\<lparr>lt_use_reverse_map := False, lt_label_remap := []\<rparr>"

definition get_id_by_label_with_reverse_map :: "'d label_table \<Rightarrow> label \<Rightarrow> inner_id" where
  "get_id_by_label_with_reverse_map t lab =
     (case Remap_Find (lt_label_remap t) lab of None \<Rightarrow> INVALID_ID | Some vid \<Rightarrow> vid)"

text \<open>\<open>std::find\<close>: the first position of the label, or the end.\<close>

definition find_label :: "label list \<Rightarrow> label \<Rightarrow> nat" where
  "find_label tab lab = length (takeWhile (\<lambda>x. x \<noteq> lab) tab)"

definition get_id_by_label_with_label_table :: "'d label_table \<Rightarrow> label \<Rightarrow> inner_id" where
  "get_id_by_label_with_label_table t lab =
     (let result = find_label (lt_label_table t) lab
      in if result = length (lt_label_table t) then INVALID_ID else u32 result)"

definition get_id_by_label :: "'d label_table \<Rightarrow> label \<Rightarrow> inner_id" where
  "get_id_by_label t lab =
     (if lt_use_reverse_map t then get_id_by_label_with_reverse_map t lab
      else get_id_by_label_with_label_table t lab)"

definition LabelTable_TryGetIdByLabel :: "'d label_table \<Rightarrow> label \<Rightarrow> bool \<Rightarrow> bool \<times> inner_id" where
  "LabelTable_TryGetIdByLabel t lab return_even_removed =
     (let vid = get_id_by_label t lab
      in if vid = INVALID_ID then (False, 0)
         else if \<not> return_even_removed \<and> vid \<in> set (lt_deleted_ids t) then (False, 0)
         else (True, vid))"

definition LabelTable_GetIdByLabel :: "'d label_table \<Rightarrow> label \<Rightarrow> bool \<Rightarrow> inner_id result" where
  "LabelTable_GetIdByLabel t lab return_even_removed =
     (let (success, vid) = LabelTable_TryGetIdByLabel t lab return_even_removed
      in if \<not> success then Inl (Throw INTERNAL_ERROR) else Inr vid)"

definition LabelTable_CheckLabel :: "'d label_table \<Rightarrow> label \<Rightarrow> bool" where
  "LabelTable_CheckLabel t lab =
     (if lt_use_reverse_map t then
        (case Remap_Find (lt_label_remap t) lab of
           None \<Rightarrow> False
         | Some vid \<Rightarrow> vid \<notin> set (lt_deleted_ids t))
      else
        (let result = find_label (lt_label_table t) lab
         in if result = length (lt_label_table t) then False
            else u32 result \<notin> set (lt_deleted_ids t)))"

definition ids_insert :: "inner_id \<Rightarrow> inner_id list \<Rightarrow> inner_id list" where
  "ids_insert vid ids = (if vid \<in> set ids then ids else ids @ [vid])"

definition ids_erase :: "inner_id \<Rightarrow> inner_id list \<Rightarrow> inner_id list" where
  "ids_erase vid ids = filter (\<lambda>x. x \<noteq> vid) ids"

definition LabelTable_MarkRemove :: "label list \<Rightarrow> 'd label_table \<Rightarrow> nat \<times> 'd label_table" where
  "LabelTable_MarkRemove labels t =
     (let init_delete_size = u32 (length (lt_deleted_ids t));
          ids = fold (\<lambda>lab ids. let vid = get_id_by_label t lab
                                in if vid = INVALID_ID then ids else ids_insert vid ids)
                  labels (lt_deleted_ids t)
      in (u32 (length ids + (2 ^ 32 - init_delete_size)), t\<lparr>lt_deleted_ids := ids\<rparr>))"

definition LabelTable_RecoverRemove :: "label \<Rightarrow> 'd label_table \<Rightarrow> (bool \<times> 'd label_table) result" where
  "LabelTable_RecoverRemove lab t =
     (if \<not> lt_use_reverse_map t then Inr (False, t)
      else case Remap_Find (lt_label_remap t) lab of
          None \<Rightarrow> Inr (False, t)
        | Some vid \<Rightarrow>
            if vid \<noteq> INVALID_ID then Inr (False, t)
            else
              bindR (LabelTable_GetIdByLabel t lab True) (\<lambda>inner.
                Inr (True, t\<lparr>lt_deleted_ids := ids_erase inner (lt_deleted_ids t),
                             lt_label_remap := Remap_InsertOrAssign lab inner (lt_label_remap t)\<rparr>)))"

definition LabelTable_IsTombstoneLabel :: "'d label_table \<Rightarrow> label \<Rightarrow> bool" where
  "LabelTable_IsTombstoneLabel t lab =
     (if \<not> lt_use_reverse_map t then False
      else case Remap_Find (lt_label_remap t) lab of None \<Rightarrow> False | Some vid \<Rightarrow> vid = INVALID_ID)"

definition LabelTable_IsRemoved :: "'d label_table \<Rightarrow> inner_id \<Rightarrow> bool" where
  "LabelTable_IsRemoved t vid \<longleftrightarrow> vid \<in> set (lt_deleted_ids t)"

definition LabelTable_EraseFromDeletedIds :: "inner_id \<Rightarrow> 'd label_table \<Rightarrow> 'd label_table" where
  "LabelTable_EraseFromDeletedIds vid t = t\<lparr>lt_deleted_ids := ids_erase vid (lt_deleted_ids t)\<rparr>"

text \<open>
  The exception for a label missing in the reverse map comes after the table has been written;
  the state an exception leaves behind is not part of the model.
\<close>

definition LabelTable_UpdateLabel :: "label \<Rightarrow> label \<Rightarrow> 'd label_table \<Rightarrow> 'd label_table result" where
  "LabelTable_UpdateLabel old_label new_label t =
     (if LabelTable_CheckLabel t new_label then Inl (Throw INTERNAL_ERROR)
      else
        let tab = map (\<lambda>x. if x = old_label then new_label else x) (lt_label_table t);
            found = (old_label \<in> set (lt_label_table t));
            t1 = t\<lparr>lt_label_table := tab\<rparr>
        in if \<not> found then Inl (Throw INTERNAL_ERROR)
           else if lt_use_reverse_map t then
             (case Remap_Find (lt_label_remap t) old_label of
                None \<Rightarrow> Inl (Throw INVALID_ARGUMENT)
              | Some internal_id \<Rightarrow>
                  Inr (t1\<lparr>lt_label_remap := Remap_InsertOrAssign new_label internal_id
                            (snd (Remap_Erase old_label (lt_label_remap t)))\<rparr>))
           else Inr t1)"

definition LabelTable_GetLabelById :: "'d label_table \<Rightarrow> inner_id \<Rightarrow> label result" where
  "LabelTable_GetLabelById t inner =
     (if inner \<ge> length (lt_label_table t) then Inl (Throw INTERNAL_ERROR)
      else Inr (lt_label_table t ! inner))"

definition LabelTable_Resize :: "nat \<Rightarrow> 'd label_table \<Rightarrow> 'd label_table" where
  "LabelTable_Resize new_size t =
     (if int new_size < lt_total_count t then t
      else t\<lparr>lt_label_table := vec_resize new_size 0 (lt_label_table t)\<rparr>)"

definition LabelTable_MergeOther ::
  "(label \<Rightarrow> label) \<Rightarrow> 'e label_table \<Rightarrow> 'd label_table \<Rightarrow> 'd label_table result" where
  "LabelTable_MergeOther id_map other t =
     (let m = nat (lt_total_count other);
          n = nat (lt_total_count t);
          t1 = t\<lparr>lt_label_table := vec_resize (n + m) 0 (lt_label_table t)\<rparr>
      in bindR (foldR (\<lambda>i t. if i \<ge> length (lt_label_table other) then Inl UB
                  else
                    let new_label = id_map (lt_label_table other ! i);
                        t2 = t\<lparr>lt_label_table := (lt_label_table t)[i + n := new_label]\<rparr>
                    in Inr (if lt_use_reverse_map t
                            then t2\<lparr>lt_label_remap := Remap_InsertOrAssign new_label (u32 (i + n)) (lt_label_remap t)\<rparr>
                            else t2)) [0..<m] t1)
           (\<lambda>t2. Inr (t2\<lparr>lt_total_count := lt_total_count t + int m\<rparr>)))"

definition LabelTable_ResetRemap :: "'d label_table \<Rightarrow> 'd label_table" where
  "LabelTable_ResetRemap t = t\<lparr>lt_label_remap := []\<rparr>"

definition LabelTable_InsertRemap :: "label \<Rightarrow> inner_id \<Rightarrow> 'd label_table \<Rightarrow> 'd label_table" where
  "LabelTable_InsertRemap lab inner t = t\<lparr>lt_label_remap := Remap_Emplace lab inner (lt_label_remap t)\<rparr>"

definition LabelTable_GetMemoryUsage :: "nat \<Rightarrow> 'd label_table \<Rightarrow> nat" where
  "LabelTable_GetMemoryUsage sizeof_LabelTable t =
     sizeof_LabelTable + length (lt_label_table t) * 8 + Remap_Size (lt_label_remap t) * (8 + 4) +
     length (lt_deleted_ids t) * 4 + length (lt_hole_list t) * 4"

text \<open>\<open>RemoveListFilter::CheckValid\<close>, and the filter that is null when nothing is deleted.\<close>

definition RemoveListFilter_CheckValid :: "inner_id list \<Rightarrow> int \<Rightarrow> bool" where
  "RemoveListFilter_CheckValid remove_ids inner \<longleftrightarrow> nat (inner mod 2 ^ 32) \<notin> set remove_ids"

definition LabelTable_GetDeletedIdsFilter :: "'d label_table \<Rightarrow> (int \<Rightarrow> bool) option" where
  "LabelTable_GetDeletedIdsFilter t =
     (if lt_deleted_ids t = [] then None else Some (RemoveListFilter_CheckValid (lt_deleted_ids t)))"

definition LabelTable_GetDeletedIds :: "'d label_table \<Rightarrow> nat \<Rightarrow> inner_id list" where
  "LabelTable_GetDeletedIds t max_count =
     take (min max_count (length (lt_deleted_ids t))) (lt_deleted_ids t)"

definition LabelTable_PushHole :: "inner_id \<Rightarrow> 'd label_table \<Rightarrow> 'd label_table" where
  "LabelTable_PushHole vid t = t\<lparr>lt_hole_list := lt_hole_list t @ [vid]\<rparr>"

definition LabelTable_PopHole :: "'d label_table \<Rightarrow> (bool \<times> inner_id) \<times> 'd label_table" where
  "LabelTable_PopHole t =
     (if lt_hole_list t = [] then ((False, 0), t)
      else ((True, last (lt_hole_list t)), t\<lparr>lt_hole_list := butlast (lt_hole_list t)\<rparr>))"

definition LabelTable_RemoveHole :: "inner_id \<Rightarrow> 'd label_table \<Rightarrow> bool \<times> 'd label_table" where
  "LabelTable_RemoveHole vid t =
     (if vid \<in> set (lt_hole_list t) then (True, t\<lparr>lt_hole_list := remove1 vid (lt_hole_list t)\<rparr>)
      else (False, t))"

definition LabelTable_Move :: "inner_id \<Rightarrow> inner_id \<Rightarrow> 'd label_table \<Rightarrow> 'd label_table result" where
  "LabelTable_Move from_id to_id t =
     (if from_id = to_id then Inr t
      else
        let from_removed = (from_id \<in> set (lt_deleted_ids t));
            ids1 = ids_erase to_id (ids_erase from_id (lt_deleted_ids t));
            ids2 = (if from_removed then ids_insert to_id ids1 else ids1);
            tab = lt_label_table t
        in if to_id \<ge> length tab \<or> from_id \<ge> length tab then Inl UB
           else
             let m1 = (if lt_use_reverse_map t then snd (Remap_Erase (tab ! to_id) (lt_label_remap t))
                       else lt_label_remap t);
                 tab1 = tab[to_id := tab ! from_id];
                 m2 = (if lt_use_reverse_map t then Remap_InsertOrAssign (tab1 ! to_id) to_id m1 else m1)
             in Inr (t\<lparr>lt_deleted_ids := ids2, lt_label_table := tab1, lt_label_remap := m2\<rparr>))"

definition LabelTable_ShrinkToFit :: "(nat \<Rightarrow> 'd \<Rightarrow> 'd) \<Rightarrow> nat \<Rightarrow> 'd label_table \<Rightarrow> 'd label_table" where
  "LabelTable_ShrinkToFit resize_tracker capacity t =
     t\<lparr>lt_label_table := vec_resize capacity 0 (lt_label_table t),
       lt_duplicate_tracker := map_option (resize_tracker capacity) (lt_duplicate_tracker t)\<rparr>"

definition LabelTable_ForceRemove :: "label \<Rightarrow> inner_id \<Rightarrow> 'd label_table \<Rightarrow> 'd label_table" where
  "LabelTable_ForceRemove lab inner t =
     (let m = (if lt_use_reverse_map t then snd (Remap_Erase lab (lt_label_remap t)) else lt_label_remap t)
      in t\<lparr>lt_label_remap := m, lt_deleted_ids := ids_erase inner (lt_deleted_ids t),
           lt_total_count := lt_total_count t - 1\<rparr>)"

subsection \<open>Serialization\<close>

text \<open>
  A label is an \<open>int64_t\<close>, written in two's complement. With \<open>support_tombstone_\<close> the source
  writes and reads the object representation of the hash set (\<open>WriteObj\<close> and \<open>ReadObj\<close> on a
  container, that is its pointers): \<open>raw_set\<close> is what is written, and reading it back is
  undefined.
\<close>

definition label_word :: "label \<Rightarrow> nat" where
  "label_word l = nat (l mod 2 ^ 64)"

definition word_label :: "nat \<Rightarrow> label" where
  "word_label n = (if n < 2 ^ 63 then int n else int n - 2 ^ 64)"

definition LabelTable_Serialize :: "bytes \<Rightarrow> 'd label_table \<Rightarrow> stream_writer \<Rightarrow> stream_writer" where
  "LabelTable_Serialize raw_set t writer =
     (let w1 = WriteVector 8 (map label_word (lt_label_table t)) writer
      in if lt_support_tombstone t then StreamWriter_Write raw_set w1 else w1)"

definition rebuild_remap :: "label list \<Rightarrow> label_remap" where
  "rebuild_remap tab = fold (\<lambda>vid. Remap_InsertOrAssign (tab ! vid) vid) [0..<length tab] []"

definition LabelTable_Deserialize ::
  "'r rd \<Rightarrow> (nat \<Rightarrow> 'd \<Rightarrow> 'r \<Rightarrow> ('d \<times> 'r) result) \<Rightarrow> 'd label_table \<Rightarrow> 'r \<Rightarrow> ('d label_table \<times> 'r) result" where
  "LabelTable_Deserialize rd legacy t r =
     bindR (ReadVector rd 8 r) (\<lambda>(ws, r1).
       let tab = map word_label ws;
           t1 = t\<lparr>lt_label_table := tab\<rparr>;
           t2 = (if lt_use_reverse_map t then t1\<lparr>lt_label_remap := rebuild_remap tab\<rparr> else t1)
       in if lt_use_reverse_map t \<and> length tab > 2 ^ 32 then Inl Diverges
          else
            bindR (case lt_duplicate_tracker t of
                     Some d \<Rightarrow>
                       if lt_is_legacy_duplicate_format t
                       then bindR (legacy (length tab) d r1) (\<lambda>(d1, r2). Inr (Some d1, r2))
                       else Inr (Some d, r1)
                   | None \<Rightarrow> Inr (None, r1)) (\<lambda>(tracker, r2).
              if lt_support_tombstone t then Inl UB
              else Inr (t2\<lparr>lt_duplicate_tracker := tracker, lt_is_legacy_duplicate_format := False,
                           lt_total_count := int (length tab)\<rparr>, r2)))"

section \<open>The table as a list of labels\<close>

text \<open>
  The abstract state: the labels in the order of their identifiers, and the identifiers marked as deleted. A label
  occurs several times when it was inserted again after its element was marked; the latest occurrence counts. The
  concrete table may be longer (it is grown ahead of the elements); the identifiers in use are those below
  \<open>total_count_\<close>.
\<close>

definition is_latest :: "label list \<Rightarrow> label \<Rightarrow> nat \<Rightarrow> bool" where
  "is_latest xs l i \<longleftrightarrow> i < length xs \<and> xs ! i = l \<and> (\<forall>j. i < j \<and> j < length xs \<longrightarrow> xs ! j \<noteq> l)"

definition latest :: "label list \<Rightarrow> label \<Rightarrow> nat" where
  "latest xs l = length xs - 1 - find_label (rev xs) l"

definition lt_cur :: "'d label_table \<Rightarrow> label list \<Rightarrow> inner_id set \<Rightarrow> bool" where
  "lt_cur t xs D \<longleftrightarrow> lt_use_reverse_map t \<and> length xs < INVALID_ID \<and>
     lt_total_count t = int (length xs) \<and> length xs \<le> length (lt_label_table t) \<and>
     take (length xs) (lt_label_table t) = xs \<and>
     (\<forall>l i. map_of (lt_label_remap t) l = Some i \<longleftrightarrow> is_latest xs l i) \<and>
     distinct (lt_deleted_ids t) \<and> set (lt_deleted_ids t) = D \<and> D \<subseteq> {..<length xs}"

text \<open>The tables in which no label occurs twice, as the clients use them.\<close>

definition lt_rel :: "'d label_table \<Rightarrow> label list \<Rightarrow> inner_id set \<Rightarrow> bool" where
  "lt_rel t xs D \<longleftrightarrow> lt_use_reverse_map t \<and> distinct xs \<and> length xs < INVALID_ID \<and>
     lt_total_count t = int (length xs) \<and> length xs \<le> length (lt_label_table t) \<and>
     take (length xs) (lt_label_table t) = xs \<and>
     (\<forall>l i. map_of (lt_label_remap t) l = Some i \<longleftrightarrow> i < length xs \<and> xs ! i = l) \<and>
     distinct (lt_deleted_ids t) \<and> set (lt_deleted_ids t) = D \<and> D \<subseteq> {..<length xs}"

lemma find_label_props:
  "find_label xs l < length xs \<longleftrightarrow> l \<in> set xs"
  "l \<in> set xs \<Longrightarrow> xs ! find_label xs l = l"
  "distinct xs \<Longrightarrow> i < length xs \<Longrightarrow> find_label xs (xs ! i) = i"
  "l \<notin> set xs \<Longrightarrow> find_label xs l = length xs"
  "find_label xs l \<le> length xs"
proof -
  show le: "find_label xs l \<le> length xs" by (simp add: find_label_def length_takeWhile_le)
  show mem: "find_label xs l < length xs \<longleftrightarrow> l \<in> set xs" for l
    unfolding find_label_def
    by (metis (mono_tags, lifting) length_takeWhile_le less_irrefl nat_less_le nth_length_takeWhile
        nth_mem set_takeWhileD takeWhile_eq_all_conv takeWhile_eq_take take_all_iff)
  show nth: "xs ! find_label xs l = l" if "l \<in> set xs" for l
    using mem that nth_length_takeWhile [of "\<lambda>x. x \<noteq> l" xs] by (simp add: find_label_def)
  show "find_label xs (xs ! i) = i" if "distinct xs" "i < length xs"
    using that mem nth by (metis nth_eq_iff_index_eq nth_mem)
  show "find_label xs l = length xs" if "l \<notin> set xs" using that mem le by (metis nat_less_le)
qed

lemma is_latest_distinct: "distinct xs \<Longrightarrow> is_latest xs l i \<longleftrightarrow> i < length xs \<and> xs ! i = l"
  by (auto simp: is_latest_def nth_eq_iff_index_eq)

lemma is_latest_unique: "is_latest xs l i \<Longrightarrow> is_latest xs l j \<Longrightarrow> i = j"
  by (auto simp: is_latest_def) (metis nat_neq_iff)

lemma latest_props:
  assumes "l \<in> set xs"
  shows "is_latest xs l (latest xs l)"
proof -
  let ?k = "find_label (rev xs) l"
  have k: "?k < length xs" "rev xs ! ?k = l" using assms find_label_props(1) [of "rev xs" l] find_label_props(2) [of l "rev xs"] by auto
  have before: "rev xs ! j \<noteq> l" if "j < ?k" for j
  proof -
    have "j < length (takeWhile (\<lambda>x. x \<noteq> l) (rev xs))" using that by (simp add: find_label_def)
    then have "takeWhile (\<lambda>x. x \<noteq> l) (rev xs) ! j \<in> set (takeWhile (\<lambda>x. x \<noteq> l) (rev xs))" "takeWhile (\<lambda>x. x \<noteq> l) (rev xs) ! j = rev xs ! j"
      by (rule nth_mem, rule takeWhile_nth)
    then show ?thesis by (metis set_takeWhileD)
  qed
  have "xs ! j \<noteq> l" if "latest xs l < j" "j < length xs" for j
  proof -
    have "length xs - 1 - j < ?k" using that k(1) by (simp add: latest_def)
    from before [OF this] show ?thesis using that(2) by (simp add: rev_nth)
  qed
  then show ?thesis using k by (simp add: is_latest_def latest_def rev_nth)
qed

lemma latest_iff: "is_latest xs l i \<longleftrightarrow> l \<in> set xs \<and> i = latest xs l"
  using latest_props is_latest_unique by (metis is_latest_def nth_mem)

lemma latest_less: "l \<in> set xs \<Longrightarrow> latest xs l < length xs"
  using latest_props by (simp add: is_latest_def)

lemma latest_distinct: "distinct xs \<Longrightarrow> l \<in> set xs \<Longrightarrow> latest xs l = find_label xs l"
  using latest_props [of l xs] find_label_props(3) [of xs "latest xs l"] by (auto simp: is_latest_def)

lemma lt_rel_iff: "lt_rel t xs D \<longleftrightarrow> distinct xs \<and> lt_cur t xs D"
  by (auto simp: lt_rel_def lt_cur_def is_latest_distinct)

lemma lt_cur_find: "lt_cur t xs D \<Longrightarrow> map_of (lt_label_remap t) l = (if l \<in> set xs then Some (latest xs l) else None)"
  unfolding lt_cur_def latest_iff by (cases "map_of (lt_label_remap t) l") (metis option.distinct(1), metis)

lemma lt_rel_nth: "lt_rel t xs D \<Longrightarrow> i < length xs \<Longrightarrow> lt_label_table t ! i = xs ! i"
  unfolding lt_rel_def by (metis nth_take)

lemma lt_rel_find: "lt_rel t xs D \<Longrightarrow> map_of (lt_label_remap t) l = (if l \<in> set xs then Some (find_label xs l) else None)"
  using lt_cur_find [of t xs D l] latest_distinct by (auto simp: lt_rel_iff)

text \<open>What the queries return on a table that stands for \<open>xs\<close> and \<open>D\<close>.\<close>

lemma lt_cur_get_id: "lt_cur t xs D \<Longrightarrow> get_id_by_label t l = (if l \<in> set xs then latest xs l else INVALID_ID)"
  using lt_cur_find [of t xs D l]
  by (auto simp: get_id_by_label_def get_id_by_label_with_reverse_map_def Remap_Find_def lt_cur_def)

lemma lt_rel_get_id: "lt_rel t xs D \<Longrightarrow> get_id_by_label t l = (if l \<in> set xs then find_label xs l else INVALID_ID)"
  using lt_cur_get_id [of t xs D l] latest_distinct by (auto simp: lt_rel_iff)

lemma lt_cur_queries:
  assumes "lt_cur t xs D"
  shows "LabelTable_TryGetIdByLabel t l ev =
      (if l \<in> set xs \<and> (ev \<or> latest xs l \<notin> D) then (True, latest xs l) else (False, 0))"
    "LabelTable_CheckLabel t l \<longleftrightarrow> l \<in> set xs \<and> latest xs l \<notin> D"
    "i < length xs \<Longrightarrow> LabelTable_GetLabelById t i = Inr (xs ! i)"
    "LabelTable_IsRemoved t i \<longleftrightarrow> i \<in> D"
proof -
  have D: "set (lt_deleted_ids t) = D" "lt_use_reverse_map t" "length xs < INVALID_ID"
    "length xs \<le> length (lt_label_table t)" "take (length xs) (lt_label_table t) = xs"
    using assms by (auto simp: lt_cur_def)
  have "latest xs l \<noteq> INVALID_ID" if "l \<in> set xs" using that D(3) latest_less [of l xs] by simp
  then show "LabelTable_TryGetIdByLabel t l ev =
      (if l \<in> set xs \<and> (ev \<or> latest xs l \<notin> D) then (True, latest xs l) else (False, 0))"
    using lt_cur_get_id [OF assms, of l] D(1) by (simp add: LabelTable_TryGetIdByLabel_def Let_def)
  show "LabelTable_CheckLabel t l \<longleftrightarrow> l \<in> set xs \<and> latest xs l \<notin> D"
    using lt_cur_find [OF assms, of l] D by (simp add: LabelTable_CheckLabel_def Remap_Find_def)
  show "LabelTable_GetLabelById t i = Inr (xs ! i)" if "i < length xs"
    using D(4,5) that by (auto simp: LabelTable_GetLabelById_def) (metis nth_take)
  show "LabelTable_IsRemoved t i \<longleftrightarrow> i \<in> D" using D by (simp add: LabelTable_IsRemoved_def)
qed

lemma lt_rel_queries:
  assumes "lt_rel t xs D"
  shows "LabelTable_TryGetIdByLabel t l ev =
      (if l \<in> set xs \<and> (ev \<or> find_label xs l \<notin> D) then (True, find_label xs l) else (False, 0))"
    "LabelTable_CheckLabel t l \<longleftrightarrow> l \<in> set xs \<and> find_label xs l \<notin> D"
    "i < length xs \<Longrightarrow> LabelTable_GetLabelById t i = Inr (xs ! i)"
    "LabelTable_IsRemoved t i \<longleftrightarrow> i \<in> D"
  using lt_cur_queries [of t xs D] assms latest_distinct [of xs l] by (auto simp: lt_rel_iff)

lemma set_ids_insert [simp]: "set (ids_insert v ids) = insert v (set ids)"
  by (auto simp: ids_insert_def)

lemma distinct_ids_insert [simp]: "distinct ids \<Longrightarrow> distinct (ids_insert v ids)"
  by (auto simp: ids_insert_def)

lemma set_ids_erase [simp]: "set (ids_erase v ids) = set ids - {v}"
  by (auto simp: ids_erase_def)

lemma distinct_ids_erase [simp]: "distinct ids \<Longrightarrow> distinct (ids_erase v ids)"
  by (simp add: ids_erase_def)

lemmas remap_simps = Remap_InsertOrAssign_def Remap_Erase_def Remap_Find_def Remap_Emplace_def
  update_conv' AList.delete_conv'

lemma lt_rel_new: "lt_rel (LabelTable_new True) [] {}"
  by (simp add: lt_rel_def LabelTable_new_def INVALID_ID_def)

lemma is_latest_append: "is_latest (xs @ [l]) l' i \<longleftrightarrow> (if l' = l then i = length xs else is_latest xs l' i)"
proof (cases "l' = l")
  case True
  have "(xs @ [l]) ! length xs = l" by simp
  then show ?thesis using True unfolding is_latest_def by (metis length_append_singleton lessI less_SucE not_less_eq)
next
  case False
  have "i < Suc (length xs) \<and> (xs @ [l]) ! i = l' \<longleftrightarrow> i < length xs \<and> xs ! i = l'" for i
    using False by (cases "i = length xs") (auto simp: nth_append)
  then show ?thesis using False unfolding is_latest_def length_append_singleton by (smt (verit) less_SucI)
qed

lemma lt_cur_Insert:
  assumes "lt_cur t xs D" "Suc (length xs) < INVALID_ID"
  shows "\<exists>t'. LabelTable_Insert (length xs) l t = Inr t' \<and> lt_cur t' (xs @ [l]) D"
proof -
  define n where "n = length xs"
  define tab where "tab = (if Suc n > length (lt_label_table t)
    then vec_resize (Suc n) 0 (lt_label_table t) else lt_label_table t)"
  have pre: "n \<le> length (lt_label_table t)" "take n (lt_label_table t) = xs"
    using assms(1) by (auto simp: lt_cur_def n_def)
  have u: "u32 (n + 1) = Suc n" using assms(2) by (simp add: n_def INVALID_ID_def)
  have tab: "Suc n \<le> length tab" "take n tab = xs"
    using pre by (auto simp: tab_def take_vec_resize)
  define t' where "t' = t\<lparr>lt_label_remap := Remap_InsertOrAssign l n (lt_label_remap t),
    lt_label_table := tab[n := l], lt_total_count := lt_total_count t + 1\<rparr>"
  have "LabelTable_Insert n l t = Inr t'"
    using assms(1) tab(1) u by (simp add: LabelTable_Insert_def Let_def t'_def tab_def lt_cur_def)
  moreover have "take (Suc n) (tab[n := l]) = xs @ [l]"
    using tab by (simp add: take_Suc_conv_app_nth)
  moreover have "(map_of (Remap_InsertOrAssign l n (lt_label_remap t)) l' = Some i) = is_latest (xs @ [l]) l' i" for l' i
    unfolding is_latest_append using assms(1) by (auto simp: remap_simps lt_cur_def n_def)
  moreover have "length (tab[n := l]) \<ge> length (xs @ [l])" "length (xs @ [l]) = Suc n" using tab(1) by (simp_all add: n_def)
  moreover have "D \<subseteq> {..<Suc n}" using assms(1) by (auto simp: lt_cur_def n_def)
  ultimately have "lt_cur t' (xs @ [l]) D" using assms unfolding lt_cur_def t'_def by (simp add: n_def)
  then show ?thesis using \<open>LabelTable_Insert n l t = Inr t'\<close> by (auto simp: n_def)
qed

lemma lt_rel_Insert:
  assumes "lt_rel t xs D" "l \<notin> set xs" "Suc (length xs) < INVALID_ID"
  shows "\<exists>t'. LabelTable_Insert (length xs) l t = Inr t' \<and> lt_rel t' (xs @ [l]) D"
  using lt_cur_Insert [of t xs D l] assms by (auto simp: lt_rel_iff)

lemma lt_cur_MarkRemove:
  assumes "lt_cur t xs D"
  shows "lt_cur (snd (LabelTable_MarkRemove ls t)) xs (D \<union> latest xs ` (set ls \<inter> set xs)) \<and>
    fst (LabelTable_MarkRemove ls t) = card (latest xs ` (set ls \<inter> set xs) - D)"
proof -
  let ?f = "\<lambda>lab ids. let vid = get_id_by_label t lab in if vid = INVALID_ID then ids else ids_insert vid ids"
  have inv: "latest xs l \<noteq> INVALID_ID" if "l \<in> set xs" for l
    using that assms latest_less [of l xs] by (auto simp: lt_cur_def)
  have loop: "set (fold ?f ls ids) = set ids \<union> latest xs ` (set ls \<inter> set xs) \<and>
      (distinct ids \<longrightarrow> distinct (fold ?f ls ids))" for ids
  proof (induction ls arbitrary: ids)
    case (Cons l ls)
    show ?case using Cons.IH [of "?f l ids"] inv [of l] lt_cur_get_id [OF assms, of l]
      by (auto simp: Let_def)
  qed simp
  let ?ids = "fold ?f ls (lt_deleted_ids t)" and ?new = "latest xs ` (set ls \<inter> set xs)"
  have D: "set (lt_deleted_ids t) = D" "distinct (lt_deleted_ids t)" "D \<subseteq> {..<length xs}" "length xs < INVALID_ID"
    using assms by (auto simp: lt_cur_def)
  have sub: "?new \<subseteq> {..<length xs}" using latest_less [of _ xs] by auto
  have ids: "set ?ids = D \<union> ?new" "distinct ?ids" using loop [of "lt_deleted_ids t"] D by auto
  then have "length ?ids = card (D \<union> ?new)" by (metis distinct_card)
  also have "\<dots> = card D + card (?new - D)"
    using finite_subset [OF D(3)] finite_subset [OF sub] by (subst card_Un_disjoint [symmetric]) auto
  finally have len: "length ?ids = card D + card (?new - D)" .
  have "card D \<le> length xs" "card (D \<union> ?new) \<le> length xs"
    using D(3) sub card_mono [of "{..<length xs}"] by auto
  moreover have "length (lt_deleted_ids t) = card D" using D by (metis distinct_card)
  ultimately have "length ?ids + (2 ^ 32 - u32 (length (lt_deleted_ids t))) = card (?new - D) + 2 ^ 32"
    "card (?new - D) < 2 ^ 32"
    using len D(4) \<open>length ?ids = card (D \<union> ?new)\<close> by (simp_all add: INVALID_ID_def)
  then have cnt: "u32 (length ?ids + (2 ^ 32 - u32 (length (lt_deleted_ids t)))) = card (?new - D)"
    by (simp only: u32_def mod_add_self2 mod_less)
  then show ?thesis using assms ids D(3) sub
    by (auto simp: LabelTable_MarkRemove_def Let_def lt_cur_def)
qed

lemma lt_rel_MarkRemove:
  assumes "lt_rel t xs D"
  shows "lt_rel (snd (LabelTable_MarkRemove ls t)) xs (D \<union> find_label xs ` (set ls \<inter> set xs)) \<and>
    fst (LabelTable_MarkRemove ls t) = card (find_label xs ` (set ls \<inter> set xs) - D)"
proof -
  have "latest xs ` (set ls \<inter> set xs) = find_label xs ` (set ls \<inter> set xs)"
    using assms latest_distinct by (intro image_cong) (auto simp: lt_rel_iff)
  then show ?thesis using lt_cur_MarkRemove [of t xs D ls] assms by (simp add: lt_rel_iff)
qed

text \<open>Renaming changes all occurrences.\<close>

definition rename_label :: "label \<Rightarrow> label \<Rightarrow> label list \<Rightarrow> label list" where
  "rename_label a b xs = map (\<lambda>x. if x = a then b else x) xs"

lemma rename_distinct:
  assumes "distinct xs" "a \<in> set xs"
  shows "rename_label a b xs = xs[find_label xs a := b]"
  using assms find_label_props(1) [of xs a] find_label_props(2) [of a xs]
  by (intro nth_equalityI) (auto simp: rename_label_def nth_list_update nth_eq_iff_index_eq)

lemma lt_cur_UpdateLabel:
  assumes "lt_cur t xs D" "a \<in> set xs" "b \<notin> set xs"
  shows "\<exists>t'. LabelTable_UpdateLabel a b t = Inr t' \<and> lt_cur t' (rename_label a b xs) D"
proof -
  define i where "i = latest xs a"
  define tab where "tab = map (\<lambda>x. if x = a then b else x) (lt_label_table t)"
  have pre: "length xs \<le> length (lt_label_table t)" "take (length xs) (lt_label_table t) = xs"
    using assms(1) by (auto simp: lt_cur_def)
  have a: "a \<in> set (lt_label_table t)" using assms(2) pre(2) by (metis in_set_takeD)
  have found: "Remap_Find (lt_label_remap t) a = Some i"
    using lt_cur_find [OF assms(1), of a] assms(2) by (simp add: Remap_Find_def i_def)
  have chk: "\<not> LabelTable_CheckLabel t b" using lt_cur_queries(2) [OF assms(1)] assms(3) by simp
  define t' where "t' = t\<lparr>lt_label_table := tab, lt_label_remap := Remap_InsertOrAssign b i
    (snd (Remap_Erase a (lt_label_remap t)))\<rparr>"
  have run: "LabelTable_UpdateLabel a b t = Inr t'"
    using a found chk assms(1) by (simp add: LabelTable_UpdateLabel_def Let_def t'_def tab_def lt_cur_def)
  have tk: "take (length xs) tab = rename_label a b xs" by (simp add: tab_def take_map pre(2) rename_label_def)
  have lat: "is_latest (rename_label a b xs) l j \<longleftrightarrow> (if l = b then is_latest xs a j else l \<noteq> a \<and> is_latest xs l j)" for l j
  proof -
    have "rename_label a b xs ! k = l \<longleftrightarrow> (if l = b then xs ! k = a else l \<noteq> a \<and> xs ! k = l)" if "k < length xs" for k
      using that assms(2,3) nth_mem [OF that] by (auto simp: rename_label_def)
    moreover have "length (rename_label a b xs) = length xs" by (simp add: rename_label_def)
    ultimately show ?thesis unfolding is_latest_def by (cases "l = b"; cases "l = a") auto
  qed
  have "(map_of (lt_label_remap t') l = Some j) = is_latest (rename_label a b xs) l j" for l j
    unfolding lat using assms(1-3) latest_iff [of xs a j] unfolding t'_def by (auto simp: remap_simps lt_cur_def i_def)
  then have "lt_cur t' (rename_label a b xs) D" using assms(1) tk by (simp add: lt_cur_def t'_def tab_def rename_label_def)
  then show ?thesis using run by blast
qed

lemma lt_cur_Resize: "lt_cur t xs D \<Longrightarrow> lt_cur (LabelTable_Resize n t) xs D"
  by (auto simp: lt_cur_def LabelTable_Resize_def take_vec_resize)

lemma lt_rel_Resize: "lt_rel t xs D \<Longrightarrow> lt_rel (LabelTable_Resize n t) xs D"
  using lt_cur_Resize by (auto simp: lt_rel_iff)

lemma lt_cur_ShrinkToFit: "lt_cur t xs D \<Longrightarrow> lt_cur (LabelTable_ShrinkToFit rs (length xs) t) xs D"
  by (auto simp: lt_cur_def LabelTable_ShrinkToFit_def vec_resize_def)

lemma lt_rel_ShrinkToFit: "lt_rel t xs D \<Longrightarrow> lt_rel (LabelTable_ShrinkToFit rs (length xs) t) xs D"
  using lt_cur_ShrinkToFit by (auto simp: lt_rel_iff)

text \<open>
  \<open>HGraph::force_remove_one\<close>, the part on the label table: the last element takes the place of
  the removed one.
\<close>

definition swap_remove :: "label \<Rightarrow> 'd label_table \<Rightarrow> 'd label_table result" where
  "swap_remove lab t =
     (let (found, inner) = LabelTable_TryGetIdByLabel t lab True
      in if \<not> found then Inr t
         else
           let swap_id = nat (lt_total_count t) - 1;
               t1 = LabelTable_ForceRemove lab inner t
           in if swap_id \<noteq> inner then LabelTable_Move swap_id inner t1 else Inr t1)"

definition swap_labels :: "label list \<Rightarrow> nat \<Rightarrow> label list" where
  "swap_labels xs i = butlast (xs[i := last xs])"

definition swap_marks :: "nat \<Rightarrow> nat \<Rightarrow> inner_id set \<Rightarrow> inner_id set" where
  "swap_marks n i D = (D - {i, n}) \<union> (if n \<noteq> i \<and> n \<in> D then {i} else {})"

lemma swap_labels_nth:
  assumes "i < length xs" "j < length xs - 1"
  shows "swap_labels xs i ! j = (if j = i then last xs else xs ! j)"
  using assms by (auto simp: swap_labels_def nth_butlast nth_list_update)

lemma length_swap_labels [simp]: "length (swap_labels xs i) = length xs - 1"
  by (simp add: swap_labels_def)

lemma lt_rel_swap_remove:
  assumes "lt_rel t xs D" "l \<in> set xs"
  defines "i \<equiv> find_label xs l"
  shows "\<exists>t'. swap_remove l t = Inr t' \<and> lt_rel t' (swap_labels xs i) (swap_marks (length xs - 1) i D)"
proof -
  let ?n = "length xs - 1"
  have i: "i < length xs" "xs ! i = l" using assms(2) find_label_props by (auto simp: i_def)
  have pre: "distinct xs" "length xs \<le> length (lt_label_table t)" "take (length xs) (lt_label_table t) = xs"
    "lt_use_reverse_map t" "lt_total_count t = int (length xs)" "D \<subseteq> {..<length xs}" "length xs < INVALID_ID"
    "set (lt_deleted_ids t) = D" "distinct (lt_deleted_ids t)"
    "\<And>l j. map_of (lt_label_remap t) l = Some j \<longleftrightarrow> j < length xs \<and> xs ! j = l"
    using assms(1) by (auto simp: lt_rel_def)
  have got: "LabelTable_TryGetIdByLabel t l True = (True, i)"
    using lt_rel_queries(1) [OF assms(1), of l True] assms(2) by (simp add: i_def)
  have last: "last xs = xs ! ?n" using i(1) by (intro last_conv_nth) auto
  define t1 where "t1 = LabelTable_ForceRemove l i t"
  have t1: "lt_label_table t1 = lt_label_table t" "lt_total_count t1 = int ?n" "lt_use_reverse_map t1"
    "lt_deleted_ids t1 = ids_erase i (lt_deleted_ids t)"
    "\<And>l' j. map_of (lt_label_remap t1) l' = Some j \<longleftrightarrow> l' \<noteq> l \<and> j < length xs \<and> xs ! j = l'"
    using pre i(1) by (auto simp: t1_def LabelTable_ForceRemove_def Let_def remap_simps)
  show ?thesis
  proof (cases "?n = i")
    case True
    then have xs: "swap_labels xs i = butlast xs" using last by (simp add: swap_labels_def)
    have "lt_rel t1 (butlast xs) (swap_marks ?n i D)"
      unfolding lt_rel_def
    proof (intro conjI allI)
      fix l' j
      show "(map_of (lt_label_remap t1) l' = Some j) = (j < length (butlast xs) \<and> butlast xs ! j = l')"
        using t1(5) [of l' j] True i pre(1) by (auto simp: nth_butlast nth_eq_iff_index_eq)
      show "take (length (butlast xs)) (lt_label_table t1) = butlast xs"
        using pre(2) t1(1) by (intro nth_equalityI) (auto simp: nth_butlast lt_rel_nth [OF assms(1)])
    qed (use t1 pre True i in \<open>auto simp: swap_marks_def take_butlast butlast_conv_take min_def distinct_butlast\<close>)
    moreover have "swap_remove l t = Inr t1" using got True pre(5) by (simp add: swap_remove_def t1_def)
    ultimately show ?thesis using xs by simp
  next
    case False
    then have n: "?n < length xs" "i < ?n" using i by auto
    have tab: "lt_label_table t ! i = l" "lt_label_table t ! ?n = last xs"
      using lt_rel_nth [OF assms(1)] n i last by auto
    define ids where "ids = (if ?n \<in> set (ids_erase i (lt_deleted_ids t))
      then ids_insert i (ids_erase i (ids_erase ?n (ids_erase i (lt_deleted_ids t))))
      else ids_erase i (ids_erase ?n (ids_erase i (lt_deleted_ids t))))"
    define t2 where "t2 = t1\<lparr>lt_deleted_ids := ids, lt_label_table := (lt_label_table t)[i := last xs],
      lt_label_remap := Remap_InsertOrAssign (last xs) i (snd (Remap_Erase l (lt_label_remap t1)))\<rparr>"
    have run: "swap_remove l t = Inr t2"
      using got False pre(2,5) n i t1 tab
      by (simp add: swap_remove_def LabelTable_Move_def Let_def t2_def ids_def flip: t1_def)
    have ids: "set ids = swap_marks ?n i D" "distinct ids"
      using pre(8,9) False by (auto simp: ids_def swap_marks_def)
    have lnl: "last xs \<noteq> l" using pre(1) i n last by (metis nth_eq_iff_index_eq False)
    have "lt_rel t2 (swap_labels xs i) (swap_marks ?n i D)"
      unfolding lt_rel_def
    proof (intro conjI allI)
      show "distinct (swap_labels xs i)"
        using pre(1) n i last by (auto simp: distinct_conv_nth swap_labels_nth) 
      fix l' j
      show "(map_of (lt_label_remap t2) l' = Some j) = (j < length (swap_labels xs i) \<and> swap_labels xs i ! j = l')"
      proof (cases "l' = last xs")
        case True
        then show ?thesis using n i pre(1) last False
          by (auto simp: t2_def remap_simps swap_labels_nth nth_eq_iff_index_eq split: if_splits)
      next
        case f: False
        have "j < length xs \<and> xs ! j = l' \<longleftrightarrow> j < ?n \<and> xs ! j = l'" using f last n by (cases "j = ?n") auto
        then show ?thesis using f n i lnl t1(5) [of l' j] pre(1)
          by (auto simp: t2_def remap_simps swap_labels_nth nth_eq_iff_index_eq)
      qed
      show "take (length (swap_labels xs i)) (lt_label_table t2) = swap_labels xs i"
        using pre(2) n i by (intro nth_equalityI)
          (auto simp: t2_def swap_labels_nth nth_list_update lt_rel_nth [OF assms(1)])
    qed (use t1 pre ids n in \<open>auto simp: t2_def swap_marks_def\<close>)
    then show ?thesis using run by blast
  qed
qed

section \<open>Sequences of operations\<close>

text \<open>
  The operations an index issues: add an element, mark labels as deleted, remove an element by
  swapping, rename a label, grow the table ahead, shrink it to the elements.
\<close>

datatype lt_op = LInsert label | LMark "label list" | LSwapRemove label | LUpdate label label
  | LGrow nat | LShrink

fun lt_exec :: "lt_op \<Rightarrow> 'd label_table \<Rightarrow> 'd label_table result" where
  "lt_exec (LInsert l) t = LabelTable_Insert (nat (lt_total_count t)) l t"
| "lt_exec (LMark ls) t = Inr (snd (LabelTable_MarkRemove ls t))"
| "lt_exec (LSwapRemove l) t = swap_remove l t"
| "lt_exec (LUpdate a b) t = LabelTable_UpdateLabel a b t"
| "lt_exec (LGrow n) t = Inr (LabelTable_Resize n t)"
| "lt_exec LShrink t = Inr (LabelTable_ShrinkToFit (\<lambda>_ d. d) (nat (lt_total_count t)) t)"

text \<open>
  The specification, and when an operation is meant to be used: a label is inserted when it is not in the index, that
  is, its latest element is marked as deleted or there is none; a new name must not occur; and elements are only
  swapped while no label occurs twice.
\<close>

definition live :: "label list \<times> inner_id set \<Rightarrow> label \<Rightarrow> bool" where
  "live s l \<longleftrightarrow> l \<in> set (fst s) \<and> latest (fst s) l \<notin> snd s"

fun lt_spec :: "lt_op \<Rightarrow> label list \<times> inner_id set \<Rightarrow> label list \<times> inner_id set" where
  "lt_spec (LInsert l) (xs, D) = (xs @ [l], D)"
| "lt_spec (LMark ls) (xs, D) = (xs, D \<union> latest xs ` (set ls \<inter> set xs))"
| "lt_spec (LSwapRemove l) (xs, D) =
     (if l \<in> set xs then (swap_labels xs (find_label xs l), swap_marks (length xs - 1) (find_label xs l) D)
      else (xs, D))"
| "lt_spec (LUpdate a b) (xs, D) = (rename_label a b xs, D)"
| "lt_spec (LGrow n) (xs, D) = (xs, D)"
| "lt_spec LShrink (xs, D) = (xs, D)"

fun lt_pre :: "lt_op \<Rightarrow> label list \<times> inner_id set \<Rightarrow> bool" where
  "lt_pre (LInsert l) (xs, D) \<longleftrightarrow> \<not> live (xs, D) l \<and> Suc (length xs) < INVALID_ID"
| "lt_pre (LUpdate a b) (xs, D) \<longleftrightarrow> a \<in> set xs \<and> b \<notin> set xs"
| "lt_pre (LSwapRemove l) (xs, D) \<longleftrightarrow> distinct xs"
| "lt_pre _ (xs, D) \<longleftrightarrow> True"

fun lt_pres :: "lt_op list \<Rightarrow> label list \<times> inner_id set \<Rightarrow> bool" where
  "lt_pres [] s \<longleftrightarrow> True"
| "lt_pres (p # ps) s \<longleftrightarrow> lt_pre p s \<and> lt_pres ps (lt_spec p s)"

lemma lt_exec_ok:
  assumes "lt_cur t (fst s) (snd s)" "lt_pre p s"
  shows "\<exists>t'. lt_exec p t = Inr t' \<and> lt_cur t' (fst (lt_spec p s)) (snd (lt_spec p s))"
proof -
  obtain xs D where s: "s = (xs, D)" by fastforce
  have r: "lt_cur t xs D" using assms(1) s by simp
  have n: "nat (lt_total_count t) = length xs" using r by (simp add: lt_cur_def)
  show ?thesis
  proof (cases p)
    case (LInsert l)
    then show ?thesis using lt_cur_Insert [OF r, of l] assms(2) s n by simp
  next
    case (LMark ls)
    then show ?thesis using lt_cur_MarkRemove [OF r, of ls] s by simp
  next
    case (LSwapRemove l)
    then have rel: "lt_rel t xs D" using r assms(2) s by (simp add: lt_rel_iff)
    show ?thesis
    proof (cases "l \<in> set xs")
      case True
      then show ?thesis using lt_rel_swap_remove [OF rel, of l] s LSwapRemove by (auto simp: lt_rel_iff)
    next
      case False
      then show ?thesis using lt_rel_queries(1) [OF rel, of l True] s LSwapRemove r
        by (simp add: swap_remove_def)
    qed
  next
    case (LUpdate a b)
    then show ?thesis using lt_cur_UpdateLabel [OF r, of a b] assms(2) s by simp
  next
    case (LGrow k)
    then show ?thesis using lt_cur_Resize [OF r] s by simp
  next
    case LShrink
    then show ?thesis using lt_cur_ShrinkToFit [OF r] s n by simp
  qed
qed

lemma lt_run_ok:
  "lt_cur t (fst s) (snd s) \<Longrightarrow> lt_pres ps s \<Longrightarrow>
    \<exists>t'. foldR lt_exec ps t = Inr t' \<and> lt_cur t' (fst (fold lt_spec ps s)) (snd (fold lt_spec ps s))"
proof (induction ps arbitrary: t s)
  case (Cons p ps)
  then obtain t1 where "lt_exec p t = Inr t1" "lt_cur t1 (fst (lt_spec p s)) (snd (lt_spec p s))"
    using lt_exec_ok [of t s p] by auto
  then show ?case using Cons.IH [of t1 "lt_spec p s"] Cons.prems(2) by simp
qed simp

section \<open>Serialization\<close>

lemma word_label_word:
  assumes "- (2 ^ 63) \<le> l" "l < 2 ^ 63"
  shows "word_label (label_word l) = l"
proof (cases "0 \<le> l")
  case True
  then have "l mod 2 ^ 64 = l" using assms(2) by (intro mod_pos_pos_trivial) auto
  then show ?thesis using True assms(2) by (simp add: word_label_def label_word_def)
next
  case False
  have "(l + 2 ^ 64) mod 2 ^ 64 = l + 2 ^ 64" using False assms(1) by (intro mod_pos_pos_trivial) auto
  then have "l mod 2 ^ 64 = l + 2 ^ 64" by (simp only: mod_add_self2)
  then show ?thesis using False assms(1) by (simp add: word_label_def label_word_def)
qed

lemma label_word_less: "label_word l < 256 ^ 8"
proof -
  have "l mod 2 ^ 64 < 2 ^ 64" by (rule pos_mod_bound) simp
  then have "nat (l mod 2 ^ 64) < nat (2 ^ 64)" by (subst nat_less_eq_zless) auto
  then show ?thesis by (simp add: label_word_def)
qed

text \<open>The last of several equal labels wins in the rebuilt map.\<close>

lemma map_of_rebuild:
  "map_of (rebuild_remap tab) l = Some i \<longleftrightarrow>
    i < length tab \<and> tab ! i = l \<and> (\<forall>j. i < j \<and> j < length tab \<longrightarrow> tab ! j \<noteq> l)"
proof -
  have "map_of (fold (\<lambda>vid. Remap_InsertOrAssign (tab ! vid) vid) [0..<n] []) l = Some i \<longleftrightarrow>
      i < n \<and> tab ! i = l \<and> (\<forall>j. i < j \<and> j < n \<longrightarrow> tab ! j \<noteq> l)" for n
  proof (induction n)
    case (Suc n)
    then show ?case by (auto simp: remap_simps less_Suc_eq)
  qed simp
  then show ?thesis by (simp add: rebuild_remap_def)
qed

definition int64_labels :: "label list \<Rightarrow> bool" where
  "int64_labels xs \<longleftrightarrow> (\<forall>l\<in>set xs. - (2 ^ 63) \<le> l \<and> l < 2 ^ 63)"

context byte_reader
begin

lemma parses_LabelTable:
  assumes "int64_labels tab" "length tab < 2 ^ 32" "lt_label_table t = tab" "\<not> lt_support_tombstone t"
  shows "parses (LabelTable_Deserialize rd legacy (LabelTable_new True))
    ((LabelTable_new True)\<lparr>lt_label_table := tab, lt_label_remap := rebuild_remap tab, lt_total_count := int (length tab)\<rparr>)
    (sw_out (LabelTable_Serialize raw t StreamWriter_new))"
proof -
  let ?ws = "map label_word tab"
  have vec: "parses (ReadVector rd 8) ?ws (le_bytes 8 (length ?ws) @ concat (map (le_bytes 8) ?ws))"
    using assms(2) label_word_less by (intro parses_ReadVector) auto
  have "map word_label ?ws = tab"
    using assms(1) word_label_word by (auto simp: int64_labels_def intro!: map_idI)
  then have "parses (\<lambda>r1. let tab' = map word_label ?ws in
      if length tab' > 2 ^ 32 then Inl Diverges
      else Inr ((LabelTable_new True)\<lparr>lt_label_table := tab', lt_label_remap := rebuild_remap tab',
        lt_total_count := int (length tab')\<rparr>, r1))
      ((LabelTable_new True)\<lparr>lt_label_table := tab, lt_label_remap := rebuild_remap tab, lt_total_count := int (length tab)\<rparr>) []"
    using assms(2) by (simp only: Let_def) (simp add: parses_return)
  from parses_bind [OF vec, of "\<lambda>ws r1. let tab' = map word_label ws in
      if length tab' > 2 ^ 32 then Inl Diverges
      else Inr ((LabelTable_new True)\<lparr>lt_label_table := tab', lt_label_remap := rebuild_remap tab',
        lt_total_count := int (length tab')\<rparr>, r1)", OF this]
  show ?thesis using assms(3,4)
    by (simp add: LabelTable_Deserialize_def [abs_def] LabelTable_Serialize_def StreamWriter_new_def Let_def
        LabelTable_new_def if_distrib cong: if_cong)
qed

end

section \<open>Properties\<close>

text \<open>
  Claim C6. Any sequence of insertions (at identifier \<open>total_count_\<close>) of labels that are absent or whose element is
  marked, deletion marks, renamings to unused labels, growing, shrinking, and swap-removals while no label occurs twice, succeeds on a
  new table and keeps it equal to a list of labels with a set of marks on which the same operations are performed. A
  label may be inserted again after its element was marked: a label is found exactly if it is in the list (and its
  latest occurrence is not marked), at its latest position in the list; renaming changes all occurrences.
\<close>

theorem LabelTable_refines_list:
  assumes "lt_pres ps ([], {})"
  shows "\<exists>t. foldR lt_exec ps (LabelTable_new True :: 'd label_table) = Inr t \<and>
    (let (xs, D) = fold lt_spec ps ([], {}) in
      lt_cur t xs D \<and>
      (\<forall>l ev. LabelTable_TryGetIdByLabel t l ev =
         (if l \<in> set xs \<and> (ev \<or> latest xs l \<notin> D) then (True, latest xs l) else (False, 0))) \<and>
      (\<forall>l. LabelTable_CheckLabel t l \<longleftrightarrow> live (xs, D) l) \<and>
      (\<forall>i<length xs. LabelTable_GetLabelById t i = Inr (xs ! i) \<and> (LabelTable_IsRemoved t i \<longleftrightarrow> i \<in> D)))"
proof -
  obtain xs D where s: "fold lt_spec ps ([], {}) = (xs, D)" by fastforce
  obtain t where "foldR lt_exec ps (LabelTable_new True :: 'd label_table) = Inr t" "lt_cur t xs D"
    using lt_run_ok [of "LabelTable_new True :: 'd label_table" "([], {})" ps] assms s lt_rel_new by (auto simp: lt_rel_iff)
  then show ?thesis using lt_cur_queries [of t xs D] unfolding s by (auto simp: live_def)
qed

theorem LabelTable_refines_list_witness:
  "\<exists>t. foldR lt_exec [LInsert 7, LInsert (-3), LInsert 9, LSwapRemove 7, LMark [9], LInsert 9] (LabelTable_new True :: unit label_table) = Inr t \<and>
     LabelTable_TryGetIdByLabel t 9 False = (True, 2) \<and> LabelTable_GetLabelById t 0 = Inr 9 \<and> LabelTable_IsRemoved t 0 \<and>
     LabelTable_CheckLabel t (-3)"
proof -
  let ?ps = "[LInsert 7, LInsert (-3), LInsert 9, LSwapRemove 7, LMark [9], LInsert 9]"
  have f: "find_label [7, -3, 9] 7 = 0" "latest [9, -3] 9 = 0" by (simp_all add: find_label_def latest_def)
  have sw: "swap_labels [7, -3, 9] 0 = [9, -3]" "swap_marks n 0 {} = {}" for n by (simp_all add: swap_labels_def swap_marks_def)
  have pre: "lt_pres ?ps ([], {})" using f sw by (simp add: INVALID_ID_def live_def)
  have eq: "fold lt_spec ?ps ([], {}) = ([9, -3, 9], {0})" using f sw by simp
  have pos: "latest [9, -3, 9] 9 = 2" "latest [9, -3, 9] (-3) = 1" by (simp_all add: latest_def find_label_def)
  from LabelTable_refines_list [OF pre, where 'd = unit] obtain t :: "unit label_table" where t: "foldR lt_exec ?ps (LabelTable_new True) = Inr t"
    "LabelTable_TryGetIdByLabel t 9 False = (if (9 :: label) \<in> set [9, -3, 9] \<and> (False \<or> latest [9, -3, 9] 9 \<notin> {0}) then (True, latest [9, -3, 9] 9) else (False, 0))"
    "LabelTable_CheckLabel t (-3) \<longleftrightarrow> live ([9, -3, 9], {0}) (-3)" "\<forall>i<length [9, -3, 9 :: label]. LabelTable_GetLabelById t i = Inr ([9, -3, 9] ! i) \<and> (LabelTable_IsRemoved t i \<longleftrightarrow> i \<in> {0})"
    unfolding eq Let_def prod.case by blast
  have "LabelTable_GetLabelById t 0 = Inr 9 \<and> LabelTable_IsRemoved t 0" using t(4) by simp
  moreover have "LabelTable_CheckLabel t (-3)" using t(3) pos by (simp add: live_def)
  ultimately show ?thesis using t(1,2) unfolding pos by simp
qed

text \<open>
  Swapping while a label occurs twice goes wrong: when the marked element of the label is the last one, \<open>Move\<close> makes it
  the one that the label names, although the label has a newer element that is not marked.
\<close>

lemma LabelTable_Move_revives_marked:
  "case foldR lt_exec [LInsert 6, LInsert 9, LInsert 5, LMark [5], LInsert 5, LSwapRemove 6, LSwapRemove 9] (LabelTable_new True :: unit label_table) of
     Inl _ \<Rightarrow> False
   | Inr t \<Rightarrow> LabelTable_GetLabelById t 0 = Inr 5 \<and> \<not> LabelTable_IsRemoved t 0 \<and> \<not> LabelTable_CheckLabel t 5"
  by (simp add: LabelTable_new_def LabelTable_Insert_def LabelTable_MarkRemove_def get_id_by_label_def get_id_by_label_with_reverse_map_def
      swap_remove_def LabelTable_TryGetIdByLabel_def LabelTable_ForceRemove_def LabelTable_Move_def LabelTable_GetLabelById_def
      LabelTable_IsRemoved_def LabelTable_CheckLabel_def Let_def ids_insert_def ids_erase_def INVALID_ID_def vec_resize_def
      Remap_InsertOrAssign_def Remap_Erase_def Remap_Find_def)

text \<open>
  \<open>MarkRemove\<close> returns the number of elements it newly marks, and afterwards exactly
  these are marked in addition; labels not in the table and labels already marked do not count.
\<close>

lemma LabelTable_MarkRemove_counts:
  assumes "lt_rel t xs D"
  shows "let (n, t') = LabelTable_MarkRemove ls t in
    n = card (find_label xs ` (set ls \<inter> set xs) - D) \<and> lt_rel t' xs (D \<union> find_label xs ` (set ls \<inter> set xs))"
  using lt_rel_MarkRemove [OF assms, of ls] by (simp add: case_prod_beta)

text \<open>
  Dropping the reverse map (\<open>SetImmutable\<close>) changes no lookup, as long as the table
  is exactly as long as the elements: the search through the table finds what the map found.
\<close>

lemma LabelTable_SetImmutable_equiv:
  assumes "lt_rel t xs D" "length (lt_label_table t) = length xs"
  shows "LabelTable_TryGetIdByLabel (LabelTable_SetImmutable t) l ev = LabelTable_TryGetIdByLabel t l ev \<and>
    LabelTable_CheckLabel (LabelTable_SetImmutable t) l = LabelTable_CheckLabel t l"
proof -
  have tab: "lt_label_table t = xs" "length xs < INVALID_ID" "set (lt_deleted_ids t) = D"
    using assms by (auto simp: lt_rel_def)
  have u: "u32 (find_label xs l) = find_label xs l"
    using tab(2) find_label_props(5) [of xs l] by (intro u32_less) (simp add: INVALID_ID_def)
  have "get_id_by_label (LabelTable_SetImmutable t) l = get_id_by_label t l"
    using lt_rel_get_id [OF assms(1), of l] tab(1) u find_label_props(1) [of xs l] find_label_props(4) [of l xs]
    by (auto simp: get_id_by_label_def get_id_by_label_with_label_table_def LabelTable_SetImmutable_def Let_def)
  moreover have "lt_deleted_ids (LabelTable_SetImmutable t) = lt_deleted_ids t"
    by (simp add: LabelTable_SetImmutable_def)
  ultimately have "LabelTable_TryGetIdByLabel (LabelTable_SetImmutable t) l ev = LabelTable_TryGetIdByLabel t l ev"
    by (simp add: LabelTable_TryGetIdByLabel_def Let_def)
  moreover have "LabelTable_CheckLabel (LabelTable_SetImmutable t) l = LabelTable_CheckLabel t l"
    using lt_rel_queries(2) [OF assms(1), of l] tab u find_label_props(1) [of xs l] find_label_props(4) [of l xs]
    by (auto simp: LabelTable_CheckLabel_def LabelTable_SetImmutable_def Let_def)
  ultimately show ?thesis by blast
qed

lemma lt_rel_one:
  obtains t where "LabelTable_Insert 0 l (LabelTable_new True :: unit label_table) = Inr t" "lt_rel t [l] {}"
    "lt_label_table t = [l]"
proof -
  obtain t where t: "LabelTable_Insert 0 l (LabelTable_new True :: unit label_table) = Inr t" "lt_rel t [l] {}"
    using lt_rel_Insert [of "LabelTable_new True :: unit label_table" "[]" "{}" l] lt_rel_new
    by (auto simp: INVALID_ID_def LabelTable_new_def)
  moreover have "lt_label_table t = [l]"
    using t(1) by (auto simp: LabelTable_Insert_def LabelTable_new_def Let_def vec_resize_def)
  ultimately show ?thesis using that by blast
qed

text \<open>
  Claim C30. Serializing a table that is exactly as long as its elements, and deserializing into a
  new one, gives back every label with its identifier. The deletion marks are not written: a label
  that was marked is found again.
\<close>

theorem LabelTable_serialize_roundtrip:
  assumes "lt_rel t xs D" "length (lt_label_table t) = length xs" "int64_labels xs" "\<not> lt_support_tombstone t"
  shows "\<exists>t' r. LabelTable_Deserialize IOStreamReader_Read legacy (LabelTable_new True)
      (IOStreamReader_new (sw_out (LabelTable_Serialize raw t StreamWriter_new) @ suffix) 0) = Inr (t', r) \<and>
    io_rest r = suffix \<and> lt_rel t' xs {}"
proof -
  have tab: "lt_label_table t = xs" "length xs < INVALID_ID" "distinct xs" using assms by (auto simp: lt_rel_def)
  let ?t = "(LabelTable_new True)\<lparr>lt_label_table := xs, lt_label_remap := rebuild_remap xs, lt_total_count := int (length xs)\<rparr>"
  let ?r = "IOStreamReader_new (sw_out (LabelTable_Serialize raw t StreamWriter_new) @ suffix) 0"
  have "length xs < 2 ^ 32" using tab(2) by (simp add: INVALID_ID_def)
  note p = io.parses_LabelTable [OF assms(3) this tab(1) assms(4), of legacy raw]
  have "io_ok ?r" "io_rest ?r = sw_out (LabelTable_Serialize raw t StreamWriter_new) @ suffix"
    by (simp_all add: io_ok_def io_rest_def IOStreamReader_new_def)
  from io.parsesD [OF p this] obtain r where
    "LabelTable_Deserialize IOStreamReader_Read legacy (LabelTable_new True) ?r = Inr (?t, r)" "io_rest r = suffix" by blast
  moreover have "(map_of (rebuild_remap xs) l = Some i) = (i < length xs \<and> xs ! i = l)" for l i
    using tab(3) by (auto simp: map_of_rebuild nth_eq_iff_index_eq)
  then have "lt_rel ?t xs {}" using tab by (simp add: lt_rel_def LabelTable_new_def)
  ultimately show ?thesis by blast
qed

theorem LabelTable_serialize_roundtrip_witness:
  "\<exists>t t' r. LabelTable_Insert 0 (-5) (LabelTable_new True :: unit label_table) = Inr t \<and>
    LabelTable_Deserialize IOStreamReader_Read (\<lambda>n d r. Inr (d, r)) (LabelTable_new True :: unit label_table)
      (IOStreamReader_new (sw_out (LabelTable_Serialize [] t StreamWriter_new) @ [1]) 0) = Inr (t', r) \<and>
    io_rest r = [1] \<and> lt_rel t' [-5] {}"
proof -
  obtain t where t: "LabelTable_Insert 0 (-5) (LabelTable_new True :: unit label_table) = Inr t" "lt_rel t [-5] {}"
    "lt_label_table t = [-5]" by (rule lt_rel_one)
  have "\<not> lt_support_tombstone t" using t(1)
    by (auto simp: LabelTable_Insert_def LabelTable_new_def Let_def vec_resize_def)
  then show ?thesis
    using LabelTable_serialize_roundtrip [OF t(2), of "\<lambda>n (d :: unit) r. Inr (d, r)" "[]" "[1]"] t
    by (auto simp: int64_labels_def)
qed

text \<open>
  A table that was grown ahead of its elements does not survive serialization: the
  padding is written as elements with label 0, and when the element with label 0 exists it is no
  longer found at its identifier but at the last padding slot.
\<close>

lemma LabelTable_padding_takes_label_zero:
  assumes "lt_rel t xs D" "length (lt_label_table t) = length xs" "int64_labels xs" "\<not> lt_support_tombstone t"
    and "0 \<in> set xs" "length xs < n" "n < INVALID_ID"
  shows "LabelTable_TryGetIdByLabel (LabelTable_Resize n t) 0 True = (True, find_label xs 0) \<and>
    find_label xs 0 \<noteq> n - 1 \<and>
    (\<exists>t' r. LabelTable_Deserialize IOStreamReader_Read legacy (LabelTable_new True)
        (IOStreamReader_new (sw_out (LabelTable_Serialize raw (LabelTable_Resize n t) StreamWriter_new)) 0) = Inr (t', r) \<and>
      LabelTable_TryGetIdByLabel t' 0 True = (True, n - 1))"
proof (intro conjI)
  show "LabelTable_TryGetIdByLabel (LabelTable_Resize n t) 0 True = (True, find_label xs 0)"
    using lt_rel_queries(1) [OF lt_rel_Resize [OF assms(1)], of n 0 True] assms(5) by simp
  show "find_label xs 0 \<noteq> n - 1" using assms(5,6) find_label_props(1) [of xs 0] by linarith
  define tab where "tab = xs @ replicate (n - length xs) 0"
  let ?t = "(LabelTable_new True)\<lparr>lt_label_table := tab, lt_label_remap := rebuild_remap tab, lt_total_count := int (length tab)\<rparr>"
  let ?r = "IOStreamReader_new (sw_out (LabelTable_Serialize raw (LabelTable_Resize n t) StreamWriter_new)) 0"
  have tab: "lt_label_table (LabelTable_Resize n t) = tab" "length tab = n" "\<not> lt_support_tombstone (LabelTable_Resize n t)"
    using assms by (auto simp: lt_rel_def LabelTable_Resize_def vec_resize_def tab_def)
  have "int64_labels tab" using assms(3) by (auto simp: int64_labels_def tab_def)
  moreover have "length tab < 2 ^ 32" using assms(7) tab(2) by (simp add: INVALID_ID_def)
  ultimately have p: "io.parses (LabelTable_Deserialize IOStreamReader_Read legacy (LabelTable_new True)) ?t
      (sw_out (LabelTable_Serialize raw (LabelTable_Resize n t) StreamWriter_new))"
    by (rule io.parses_LabelTable [OF _ _ tab(1,3)])
  have "io_ok ?r" "io_rest ?r = sw_out (LabelTable_Serialize raw (LabelTable_Resize n t) StreamWriter_new) @ []"
    by (simp_all add: io_ok_def io_rest_def IOStreamReader_new_def)
  from io.parsesD [OF p this] obtain r where
    "LabelTable_Deserialize IOStreamReader_Read legacy (LabelTable_new True) ?r = Inr (?t, r)" by blast
  moreover have "\<not> n - 1 < length xs" "n - 1 - length xs < n - length xs" using assms(6) by linarith+
  then have "tab ! (n - 1) = 0" by (simp only: tab_def nth_append if_False nth_replicate)
  then have "map_of (rebuild_remap tab) 0 = Some (n - 1)"
    unfolding map_of_rebuild using assms(6) tab(2) by auto
  then have "LabelTable_TryGetIdByLabel ?t 0 True = (True, n - 1)"
    using assms(6,7) by (simp add: LabelTable_TryGetIdByLabel_def get_id_by_label_def
        get_id_by_label_with_reverse_map_def LabelTable_new_def Remap_Find_def Let_def)
  ultimately show "\<exists>t' r. LabelTable_Deserialize IOStreamReader_Read legacy (LabelTable_new True) ?r = Inr (t', r) \<and>
      LabelTable_TryGetIdByLabel t' 0 True = (True, n - 1)" by blast
qed

text \<open>
  Claim C31. A label that was marked as deleted can never be recovered: \<open>MarkRemove\<close> does not
  put \<open>INVALID_ID\<close> into the reverse map, the only thing by which \<open>IsTombstoneLabel\<close> and
  \<open>RecoverRemove\<close> recognise a deleted label, so the one is false, the other changes nothing and
  returns false, and the label stays deleted.
\<close>

theorem LabelTable_RecoverRemove_ineffective:
  assumes "lt_rel t xs D" "l \<in> set xs"
  defines "t1 \<equiv> snd (LabelTable_MarkRemove [l] t)"
  shows "\<not> LabelTable_CheckLabel t1 l \<and> \<not> LabelTable_IsTombstoneLabel t1 l \<and>
    LabelTable_RecoverRemove l t1 = Inr (False, t1)"
proof -
  have r: "lt_rel t1 xs (D \<union> find_label xs ` (set [l] \<inter> set xs))"
    using lt_rel_MarkRemove [OF assms(1), of "[l]"] by (simp add: t1_def)
  have "find_label xs l < length xs" "length xs < INVALID_ID"
    using assms(1,2) find_label_props(1) [of xs l] by (auto simp: lt_rel_def)
  moreover have "map_of (lt_label_remap t1) l = Some (find_label xs l)"
    using lt_rel_find [OF r, of l] assms(2) by simp
  ultimately show ?thesis using lt_rel_queries(2) [OF r, of l] assms(2)
    by (auto simp: LabelTable_IsTombstoneLabel_def LabelTable_RecoverRemove_def Remap_Find_def)
qed

theorem LabelTable_RecoverRemove_ineffective_witness:
  "\<exists>t. LabelTable_Insert 0 5 (LabelTable_new True :: unit label_table) = Inr t \<and>
    \<not> LabelTable_CheckLabel (snd (LabelTable_MarkRemove [5] t)) 5 \<and>
    LabelTable_RecoverRemove 5 (snd (LabelTable_MarkRemove [5] t)) = Inr (False, snd (LabelTable_MarkRemove [5] t))"
proof -
  obtain t where t: "LabelTable_Insert 0 5 (LabelTable_new True :: unit label_table) = Inr t" "lt_rel t [5] {}"
    by (rule lt_rel_one)
  then show ?thesis using LabelTable_RecoverRemove_ineffective [OF t(2), of 5] by auto
qed

end
