(* ===== verification/BruteForce.thy ===== *)
theory BruteForce
  imports FlattenDataCell LabelTable Heaps
begin

text \<open>
  \<open>src/algorithm/brute_force.{h,cpp}\<close>: the exhaustive index. It composes a code store, the label table
  and the distance heaps: adding elements, both ways of removing them, k-nearest-neighbour and range
  search, sequential or split over threads.

  The code store is given by its operations, so that the index can be used with every instance of
  \<open>code_store\<close>. Each thread of a search works on a heap of its own and only reads the index; the
  heaps are merged in a fixed order, so the searches are functions. Attributes are not modelled:
  the attribute filter is an argument, and indexes with attributes refuse removal as in the source.
\<close>

unbundle bit_operations_syntax

section \<open>State\<close>

record ('c, 'd) brute_force =
  bf_inner_codes :: 'c
  bf_label_table :: "'d label_table"
  bf_total_count :: nat
  bf_delete_count :: nat
  bf_max_capacity :: nat
  bf_resize_increase_count_bit :: nat
  bf_use_attribute_filter :: bool
  bf_dim :: nat

definition BruteForce_new :: "'c \<Rightarrow> nat \<Rightarrow> bool \<Rightarrow> nat \<Rightarrow> ('c, 'd) brute_force" where
  "BruteForce_new codes increase_count_log use_attribute_filter dim =
     \<lparr>bf_inner_codes = codes, bf_label_table = LabelTable_new True, bf_total_count = 0, bf_delete_count = 0,
      bf_max_capacity = 0, bf_resize_increase_count_bit = max 10 increase_count_log,
      bf_use_attribute_filter = use_attribute_filter, bf_dim = dim\<rparr>"

definition next_multiple_of_power_of_two :: "nat \<Rightarrow> nat \<Rightarrow> nat result" where
  "next_multiple_of_power_of_two x n =
     (if n > 63 then Inl (Throw INTERNAL_ERROR)
      else Inr (push_bit n (drop_bit n (u64 (x + 2 ^ n - 1)))))"

section \<open>Adding\<close>

definition BruteForce_resize :: "(nat \<Rightarrow> 'c \<Rightarrow> 'c) \<Rightarrow> nat \<Rightarrow> ('c, 'd) brute_force \<Rightarrow> ('c, 'd) brute_force result" where
  "BruteForce_resize grow new_size b =
     bindR (next_multiple_of_power_of_two new_size (bf_resize_increase_count_bit b)) (\<lambda>new_size_power_2.
       Inr (if bf_max_capacity b \<ge> new_size_power_2 then b
            else b\<lparr>bf_inner_codes := grow (u32 new_size_power_2) (bf_inner_codes b),
                   bf_max_capacity := u32 new_size_power_2\<rparr>))"

text \<open>\<open>add_func\<close>: the label when it is already there.\<close>

definition BruteForce_add_func ::
  "('v \<Rightarrow> inner_id \<Rightarrow> 'c \<Rightarrow> 'c result) \<Rightarrow> (nat \<Rightarrow> 'c \<Rightarrow> 'c) \<Rightarrow> 'v \<Rightarrow> label \<Rightarrow> ('c, 'd) brute_force \<Rightarrow> (label option \<times> ('c, 'd) brute_force) result" where
  "BruteForce_add_func ins grow vector lab b =
     (if LabelTable_CheckLabel (bf_label_table b) lab then Inr (Some lab, b)
      else
        let inner = u32 (bf_total_count b);
            b = b\<lparr>bf_total_count := u64 (bf_total_count b + 1)\<rparr>
        in bindR (BruteForce_resize grow (bf_total_count b) b) (\<lambda>b.
           bindR (LabelTable_Insert inner lab (bf_label_table b)) (\<lambda>t.
           bindR (ins vector inner (bf_inner_codes b)) (\<lambda>c.
             Inr (None, b\<lparr>bf_label_table := t, bf_inner_codes := c\<rparr>)))))"

definition BruteForce_add_row ::
  "('v \<Rightarrow> inner_id \<Rightarrow> 'c \<Rightarrow> 'c result) \<Rightarrow> (nat \<Rightarrow> 'c \<Rightarrow> 'c) \<Rightarrow> label \<times> 'v \<Rightarrow> label list \<times> ('c, 'd) brute_force \<Rightarrow>
     (label list \<times> ('c, 'd) brute_force) result" where
  "BruteForce_add_row ins grow = (\<lambda>(lab, vector) (failed_ids, b).
     if LabelTable_CheckLabel (bf_label_table b) lab then Inr (failed_ids @ [lab], b)
     else bindR (BruteForce_add_func ins grow vector lab b) (\<lambda>(add_res, b).
       Inr (case add_res of None \<Rightarrow> failed_ids | Some l \<Rightarrow> failed_ids @ [l], b)))"

text \<open>\<open>Add\<close> without a thread pool; \<open>None\<close> stands for missing vectors.\<close>

definition BruteForce_Add ::
  "('v \<Rightarrow> inner_id \<Rightarrow> 'c \<Rightarrow> 'c result) \<Rightarrow> (nat \<Rightarrow> 'c \<Rightarrow> 'c) \<Rightarrow> ((label \<times> 'v) list \<Rightarrow> 'c \<Rightarrow> 'c) \<Rightarrow> nat \<Rightarrow> (label \<times> 'v) list option \<Rightarrow>
     ('c, 'd) brute_force \<Rightarrow> (label list \<times> ('c, 'd) brute_force) result" where
  "BruteForce_Add ins grow train base_dim data b =
     (if base_dim \<noteq> bf_dim b then Inl (Throw INVALID_ARGUMENT)
      else case data of
          None \<Rightarrow> Inl (Throw INVALID_ARGUMENT)
        | Some rows \<Rightarrow>
            let b = (if bf_total_count b = 0 then b\<lparr>bf_inner_codes := train rows (bf_inner_codes b)\<rparr> else b)
            in foldR (BruteForce_add_row ins grow) rows ([], b))"

section \<open>Removing\<close>

datatype remove_mode = MARK_REMOVE | FORCE_REMOVE

definition GetVectorByInnerId :: "('c \<Rightarrow> inner_id \<Rightarrow> bytes result) \<Rightarrow> (bytes \<Rightarrow> 'v result) \<Rightarrow> ('c, 'd) brute_force \<Rightarrow> inner_id \<Rightarrow> 'v result" where
  "GetVectorByInnerId codes_of decode b inner = bindR (codes_of (bf_inner_codes b) inner) decode"

definition BruteForce_force_remove ::
  "('v \<Rightarrow> inner_id \<Rightarrow> 'c \<Rightarrow> 'c result) \<Rightarrow> ('c \<Rightarrow> inner_id \<Rightarrow> bytes result) \<Rightarrow> (bytes \<Rightarrow> 'v result) \<Rightarrow> label \<Rightarrow> ('c, 'd) brute_force \<Rightarrow>
     ('c, 'd) brute_force result" where
  "BruteForce_force_remove ins codes_of decode lab b =
     (let last_inner_id = u32 (u64_sub (bf_total_count b) 1)
      in bindR (LabelTable_GetIdByLabel (bf_label_table b) lab False) (\<lambda>inner.
         if \<not> inner \<le> last_inner_id then Inl (Throw INVALID_ARGUMENT)
         else bindR (LabelTable_GetLabelById (bf_label_table b) last_inner_id) (\<lambda>last_label.
           let t = snd (LabelTable_MarkRemove [lab] (bf_label_table b));
               t = t\<lparr>lt_total_count := lt_total_count t - 1\<rparr>
           in bindR
                (if inner < last_inner_id then
                   bindR (GetVectorByInnerId codes_of decode b last_inner_id) (\<lambda>data.
                     let t = snd (LabelTable_MarkRemove [last_label] t);
                         t = t\<lparr>lt_total_count := lt_total_count t - 1\<rparr>
                     in bindR (ins data inner (bf_inner_codes b)) (\<lambda>c.
                        bindR (LabelTable_Insert inner last_label t) (\<lambda>t.
                          Inr (b\<lparr>bf_label_table := t, bf_inner_codes := c\<rparr>))))
                 else Inr (b\<lparr>bf_label_table := t\<rparr>)) (\<lambda>b.
              Inr (b\<lparr>bf_total_count := u64_sub (bf_total_count b) 1\<rparr>)))))"

definition BruteForce_Remove ::
  "('v \<Rightarrow> inner_id \<Rightarrow> 'c \<Rightarrow> 'c result) \<Rightarrow> ('c \<Rightarrow> inner_id \<Rightarrow> bytes result) \<Rightarrow> (bytes \<Rightarrow> 'v result) \<Rightarrow> label list \<Rightarrow> remove_mode \<Rightarrow>
     ('c, 'd) brute_force \<Rightarrow> (nat \<times> ('c, 'd) brute_force) result" where
  "BruteForce_Remove ins codes_of decode ids mode b =
     (if bf_use_attribute_filter b then Inl (Throw INVALID_ARGUMENT)
      else if mode = MARK_REMOVE then
        (let (delete_count, t) = LabelTable_MarkRemove ids (bf_label_table b)
         in Inr (delete_count, b\<lparr>bf_label_table := t, bf_delete_count := u64 (bf_delete_count b + delete_count)\<rparr>))
      else bindR (foldR (BruteForce_force_remove ins codes_of decode) ids b) (\<lambda>b. Inr (1, b)))"

definition BruteForce_GetNumElements :: "('c, 'd) brute_force \<Rightarrow> int" where
  "BruteForce_GetNumElements b = word_label (u64_sub (bf_total_count b) (bf_delete_count b))"

section \<open>Searching\<close>

text \<open>\<open>CombinedFilter\<close> over filters that may throw, and \<open>InnerIdWrapperFilter\<close>.\<close>

fun CombinedFilter_CheckValid :: "(inner_id \<Rightarrow> bool result) list \<Rightarrow> inner_id \<Rightarrow> bool result" where
  "CombinedFilter_CheckValid [] inner = Inr True"
| "CombinedFilter_CheckValid (flt # filters) inner =
     bindR (flt inner) (\<lambda>valid. if \<not> valid then Inr False else CombinedFilter_CheckValid filters inner)"

definition InnerIdWrapperFilter_CheckValid :: "(label \<Rightarrow> bool) \<Rightarrow> 'd label_table \<Rightarrow> inner_id \<Rightarrow> bool result" where
  "InnerIdWrapperFilter_CheckValid filter_impl t inner = bindR (LabelTable_GetLabelById t inner) (\<lambda>l. Inr (filter_impl l))"

definition search_filters :: "(label \<Rightarrow> bool) option \<Rightarrow> 'd label_table \<Rightarrow> (inner_id \<Rightarrow> bool result) list" where
  "search_filters flt t =
     (case LabelTable_GetDeletedIdsFilter t of None \<Rightarrow> [] | Some f \<Rightarrow> [\<lambda>inner. Inr (f (int inner))]) @
     (case flt of None \<Rightarrow> [] | Some f \<Rightarrow> [InnerIdWrapperFilter_CheckValid f t])"

text \<open>One thread's part of a search: \<open>dist_of\<close> is \<open>Query\<close> with a single identifier.\<close>

definition knn_search_func ::
  "(inner_id \<Rightarrow> dist result) \<Rightarrow> (inner_id \<Rightarrow> bool) option \<Rightarrow> (inner_id \<Rightarrow> bool result) list \<Rightarrow> nat \<Rightarrow> nat \<Rightarrow> distance_heap \<Rightarrow> distance_heap result" where
  "knn_search_func dist_of attr_filter ft start stop heap =
     foldR (\<lambda>i heap.
       if (case attr_filter of None \<Rightarrow> False | Some f \<Rightarrow> \<not> f i) then Inr heap
       else bindR (if ft = [] then Inr True else CombinedFilter_CheckValid ft i) (\<lambda>valid.
         if valid then bindR (dist_of i) (\<lambda>dist. Heap_Push True True (dist, i) heap)
         else Inr heap)) [start..<stop] heap"

text \<open>The parts of the threads, one heap each, then merged into the first.\<close>

definition search_parts ::
  "nat \<Rightarrow> nat \<Rightarrow> (nat \<Rightarrow> nat \<Rightarrow> distance_heap result) \<Rightarrow> distance_heap result" where
  "search_parts parallel_count total_count search =
     (let chunk_size = (total_count + parallel_count - 1) div parallel_count
      in bindR (foldR (\<lambda>i heaps.
           bindR (search (u32 (i * chunk_size)) (u32 (min (i * chunk_size + chunk_size) total_count))) (\<lambda>heap.
             Inr (heaps @ [heap]))) [0..<parallel_count] []) (\<lambda>heaps.
         case heaps of
           [] \<Rightarrow> Inl UB
         | heap # rest \<Rightarrow> foldR (Heap_Merge True True) rest heap))"

text \<open>The records leave the heap from the farthest on and fill the result from the back.\<close>

definition heap_results :: "'d label_table \<Rightarrow> distance_heap \<Rightarrow> (dist \<times> label) list result" where
  "heap_results t heap =
     bindR (heap_drain (Heap_Size heap) Heap_Top (Heap_Pop True) Heap_Size heap) (\<lambda>(recs, _).
       foldR (\<lambda>(dist, inner) out. bindR (LabelTable_GetLabelById t inner) (\<lambda>l. Inr ((dist, l) # out))) recs [])"

definition BruteForce_SearchWithRequest ::
  "('c \<Rightarrow> inner_id \<Rightarrow> bytes result) \<Rightarrow> (bytes \<Rightarrow> dist) \<Rightarrow> (label \<Rightarrow> bool) option \<Rightarrow> (inner_id \<Rightarrow> bool) option \<Rightarrow> int \<Rightarrow> nat \<Rightarrow> bool \<Rightarrow>
     ('c, 'd) brute_force \<Rightarrow> (dist \<times> label) list result" where
  "BruteForce_SearchWithRequest codes_of ComputeDist flt attr_filter topk parallel_count has_pool b =
     (let dist_of = (\<lambda>i. bindR (codes_of (bf_inner_codes b) i) (\<lambda>codes. Inr (ComputeDist codes)));
          ft = search_filters flt (bf_label_table b);
          search = (\<lambda>start stop. knn_search_func dist_of attr_filter ft start stop (MakeInstanceBySize True topk))
      in bindR (if parallel_count = 0 then Inl UB
                else if parallel_count = 1 \<or> \<not> has_pool then search 0 (u32 (bf_total_count b))
                else search_parts parallel_count (bf_total_count b) search) (heap_results (bf_label_table b)))"

definition range_search_func ::
  "(inner_id \<Rightarrow> dist result) \<Rightarrow> (label \<Rightarrow> bool) option \<Rightarrow> 'd label_table \<Rightarrow> dist \<Rightarrow> int \<Rightarrow> nat \<Rightarrow> nat \<Rightarrow> distance_heap result" where
  "range_search_func dist_of flt t radius limited_size start stop =
     foldR (\<lambda>i heap.
       bindR (case flt of None \<Rightarrow> Inr True | Some f \<Rightarrow> InnerIdWrapperFilter_CheckValid f t i) (\<lambda>valid.
         if valid then bindR (dist_of i) (\<lambda>dist.
           if dist > radius then Inr heap else Heap_Push True True (dist, i) heap)
         else Inr heap)) [start..<stop] (MakeInstanceBySize True limited_size)"

definition BruteForce_RangeSearch ::
  "('c \<Rightarrow> inner_id \<Rightarrow> bytes result) \<Rightarrow> (bytes \<Rightarrow> dist) \<Rightarrow> (label \<Rightarrow> bool) option \<Rightarrow> dist \<Rightarrow> int \<Rightarrow> nat \<Rightarrow> bool \<Rightarrow>
     ('c, 'd) brute_force \<Rightarrow> (dist \<times> label) list result" where
  "BruteForce_RangeSearch codes_of ComputeDist flt radius limited_size parallel_count has_pool b =
     (if limited_size = 0 then Inl (Throw INVALID_ARGUMENT)
      else
        let limited_size = (if limited_size < 0 then 2 ^ 63 - 1 else limited_size);
            dist_of = (\<lambda>i. bindR (codes_of (bf_inner_codes b) i) (\<lambda>codes. Inr (ComputeDist codes)));
            search = range_search_func dist_of flt (bf_label_table b) radius limited_size;
            parallel_count = min parallel_count (bf_total_count b)
        in if bf_total_count b = 0 then Inr []
           else bindR (if parallel_count \<le> 1 \<or> \<not> has_pool then search 0 (u32 (bf_total_count b))
                       else search_parts parallel_count (bf_total_count b) search) (heap_results (bf_label_table b)))"

definition BruteForce_CalcDistanceById ::
  "('c \<Rightarrow> inner_id \<Rightarrow> bytes result) \<Rightarrow> (bytes \<Rightarrow> dist) \<Rightarrow> label \<Rightarrow> ('c, 'd) brute_force \<Rightarrow> dist result" where
  "BruteForce_CalcDistanceById codes_of ComputeDist lab b =
     bindR (LabelTable_GetIdByLabel (bf_label_table b) lab False) (\<lambda>inner.
     bindR (codes_of (bf_inner_codes b) inner) (\<lambda>codes. Inr (ComputeDist codes)))"

section \<open>Searches select the nearest candidates\<close>

text \<open>A loop that pushes a record for the valid identifiers.\<close>

lemma foldR_push_valid:
  assumes "\<And>i heap. i \<in> set is \<Longrightarrow> step i heap = (if P i then Heap_Push True True (d i, i) heap else Inr heap)"
  shows "foldR step is heap = foldR (Heap_Push True True) (map (\<lambda>i. (d i, i)) (filter P is)) heap"
  using assms
proof (induction "is" arbitrary: heap)
  case (Cons i "is")
  then have "foldR step is = foldR (Heap_Push True True) (map (\<lambda>i. (d i, i)) (filter P is))" by (intro ext) simp
  then show ?case using Cons.prems [of i heap] by simp
qed simp

text \<open>A heap with the nearest of the candidates in a list.\<close>

definition holds_nearest :: "nat \<Rightarrow> (inner_id \<Rightarrow> dist) \<Rightarrow> inner_id list \<Rightarrow> distance_heap \<Rightarrow> bool" where
  "holds_nearest n d cands heap \<longleftrightarrow> heap_topk_inv True heap \<and> heap_cap heap = n \<and>
     heap_recs heap \<subseteq># mset (map (\<lambda>i. (d i, i)) cands) \<and>
     keys (key True) (heap_recs heap) = take n (keys (key True) (mset (map (\<lambda>i. (d i, i)) cands)))"

lemma holds_nearest_push:
  assumes "0 < n" "n < 2 ^ 63"
  shows "\<exists>heap. foldR (Heap_Push True True) (map (\<lambda>i. (d i, i)) cands) (MakeInstanceBySize True n) = Inr heap \<and>
    holds_nearest (nat n) d cands heap"
  using Heap_push_all [OF assms, of True "map (\<lambda>i. (d i, i)) cands"] unfolding holds_nearest_def by blast

lemma holds_nearest_merge:
  assumes "holds_nearest n d xs a" "holds_nearest n d ys b"
  shows "\<exists>m. Heap_Merge True True b a = Inr m \<and> holds_nearest n d (xs @ ys) m"
proof -
  obtain m where m: "Heap_Merge True True b a = Inr m" "heap_topk_inv True m" "heap_cap m = n"
    "heap_recs m \<subseteq># heap_recs a + heap_recs b"
    "keys (key True) (heap_recs m) = take n (keys (key True) (mset (map (\<lambda>i. (d i, i)) xs) + mset (map (\<lambda>i. (d i, i)) ys)))"
    using Heap_Merge_ok [of True a b n "mset (map (\<lambda>i. (d i, i)) xs)" "mset (map (\<lambda>i. (d i, i)) ys)"] assms
    unfolding holds_nearest_def by blast
  have "heap_recs a + heap_recs b \<subseteq># mset (map (\<lambda>i. (d i, i)) xs) + mset (map (\<lambda>i. (d i, i)) ys)"
    using assms unfolding holds_nearest_def by (intro subset_mset.add_mono) blast+
  then have "heap_recs m \<subseteq># mset (map (\<lambda>i. (d i, i)) (xs @ ys))" using m(4) by (simp add: subset_mset.order_trans)
  then show ?thesis using m(1-3,5) by (auto simp: holds_nearest_def)
qed

text \<open>The parts of the threads are a partition of all the identifiers.\<close>

lemma parts_concat: "t \<le> p * c \<Longrightarrow> concat (map (\<lambda>i. [i * c..<min (i * c + c) t]) [0..<p]) = [0..<t]"
proof -
  have "concat (map (\<lambda>i. [i * c..<min (i * c + c) t]) [0..<p]) = [0..<min (p * c) t]" for p
  proof (induction p)
    case (Suc p)
    have "[0..<min (p * c) t] @ [p * c..<min (p * c + c) t] = [0..<min (p * c + c) t]"
    proof (cases "p * c \<le> t")
      case True
      then show ?thesis using upt_add_eq_append [of 0 "p * c" "min (p * c + c) t - p * c"] by (simp add: min_def)
    qed (simp add: min_def)
    then show ?case using Suc by (simp add: add.commute)
  qed simp
  then show "t \<le> p * c \<Longrightarrow> ?thesis" by (simp add: min_def)
qed

lemma chunks_cover: "0 < p \<Longrightarrow> t \<le> p * ((t + p - 1) div p)" for p :: nat
proof -
  assume p: "0 < p"
  have "t + p - 1 = p * ((t + p - 1) div p) + (t + p - 1) mod p" by simp
  moreover have "(t + p - 1) mod p < p" using p by simp
  ultimately show ?thesis by linarith
qed

lemma merge_parts:
  "holds_nearest n d xs a \<Longrightarrow> list_all2 (holds_nearest n d) yss bs \<Longrightarrow>
   \<exists>m. foldR (Heap_Merge True True) bs a = Inr m \<and> holds_nearest n d (xs @ concat yss) m"
proof (induction bs arbitrary: a xs yss)
  case (Cons b bs)
  from Cons.prems(2) obtain ys yss' where y: "yss = ys # yss'" "holds_nearest n d ys b" "list_all2 (holds_nearest n d) yss' bs"
    by (cases yss) auto
  obtain m where m: "Heap_Merge True True b a = Inr m" "holds_nearest n d (xs @ ys) m"
    using holds_nearest_merge [OF Cons.prems(1) y(2)] by blast
  show ?case using Cons.IH [OF m(2) y(3)] m(1) y(1) by simp
qed simp

lemma foldR_collect:
  assumes "\<And>i. i < p \<Longrightarrow> \<exists>h. f i = Inr h \<and> P i h"
  shows "\<exists>hs. foldR (\<lambda>i hs. bindR (f i) (\<lambda>h. Inr (hs @ [h]))) [0..<p] [] = Inr hs \<and> length hs = p \<and> (\<forall>i<p. P i (hs ! i))"
proof (rule foldR_upt_invariant [where P = "\<lambda>p hs. length hs = p \<and> (\<forall>i<p. P i (hs ! i))"])
  fix i s assume "i < p" and s: "length s = i \<and> (\<forall>j<i. P j (s ! j))"
  then obtain h where "f i = Inr h" "P i h" using assms by blast
  then show "\<exists>s'. bindR (f i) (\<lambda>h. Inr (s @ [h])) = Inr s' \<and> length s' = Suc i \<and> (\<forall>j<Suc i. P j (s' ! j))"
    using s by (auto simp: nth_append less_Suc_eq)
qed simp

lemma search_parts_ok:
  assumes "0 < p" "t + p < 2 ^ 32"
    and search: "\<And>a b. b \<le> t \<Longrightarrow> \<exists>heap. search a b = Inr heap \<and> holds_nearest n d (filter P [a..<b]) heap"
  shows "\<exists>heap. search_parts p t search = Inr heap \<and> holds_nearest n d (filter P [0..<t]) heap"
proof -
  define c where "c = (t + p - 1) div p"
  let ?part = "\<lambda>i. [u32 (i * c)..<u32 (min (i * c + c) t)]"
  have up: "u32 (min (i * c + c) t) \<le> t" for i using assms(2) by simp
  obtain hs where hs: "foldR (\<lambda>i heaps. bindR (search (u32 (i * c)) (u32 (min (i * c + c) t))) (\<lambda>heap. Inr (heaps @ [heap]))) [0..<p] [] = Inr hs"
    "length hs = p" "\<forall>i<p. holds_nearest n d (filter P (?part i)) (hs ! i)"
    using foldR_collect [of p "\<lambda>i. search (u32 (i * c)) (u32 (min (i * c + c) t))" "\<lambda>i. holds_nearest n d (filter P (?part i))"]
      search up by blast
  have "i * c < 2 ^ 32" if "i < p" for i
  proof -
    have "i * c \<le> p * c" using that by (intro mult_le_mono1) simp
    also have "\<dots> \<le> t + p - 1" unfolding c_def by simp
    finally show ?thesis using assms(2) by linarith
  qed
  then have part: "?part i = [i * c..<min (i * c + c) t]" if "i < p" for i using that assms(2) by (simp add: min_def)
  have near: "list_all2 (holds_nearest n d) (map (\<lambda>i. filter P [i * c..<min (i * c + c) t]) [0..<p]) hs"
    using hs(2,3) part by (simp add: list_all2_conv_all_nth)
  obtain h rest where h: "hs = h # rest" using hs(2) assms(1) by (cases hs) auto
  obtain xs yss where x: "map (\<lambda>i. filter P [i * c..<min (i * c + c) t]) [0..<p] = xs # yss"
    "holds_nearest n d xs h" "list_all2 (holds_nearest n d) yss rest"
    using near h by (auto simp: list_all2_Cons2)
  obtain m where m: "foldR (Heap_Merge True True) rest h = Inr m" "holds_nearest n d (xs @ concat yss) m"
    using merge_parts [OF x(2,3)] by blast
  have "xs @ concat yss = concat (map (\<lambda>i. filter P [i * c..<min (i * c + c) t]) [0..<p])" unfolding x(1) by simp
  also have "\<dots> = filter P (concat (map (\<lambda>i. [i * c..<min (i * c + c) t]) [0..<p]))" by (simp add: filter_concat comp_def)
  also have "\<dots> = filter P [0..<t]" using parts_concat [of t p c] chunks_cover [OF assms(1), of t] by (simp add: c_def)
  finally show ?thesis using m hs(1) h by (simp add: search_parts_def Let_def c_def)
qed

text \<open>What a search returns: the nearest candidates with their labels, in ascending order.\<close>

definition nearest :: "nat \<Rightarrow> (inner_id \<Rightarrow> dist) \<Rightarrow> (inner_id \<Rightarrow> label) \<Rightarrow> inner_id list \<Rightarrow> (dist \<times> label) list \<Rightarrow> bool" where
  "nearest n d lab cands out \<longleftrightarrow>
     (\<exists>ids. out = map (\<lambda>i. (d i, lab i)) ids \<and> distinct ids \<and> set ids \<subseteq> set cands \<and> map d ids = take n (sort (map d cands)))"

lemma heap_results_ok:
  assumes "holds_nearest n d cands heap" "distinct cands" "\<forall>i\<in>set cands. LabelTable_GetLabelById t i = Inr (lab i)"
  shows "\<exists>out. heap_results t heap = Inr out \<and> nearest n d lab cands out"
proof -
  have inv: "heap_topk_inv True heap" "heap_recs heap \<subseteq># mset (map (\<lambda>i. (d i, i)) cands)"
    "keys (key True) (heap_recs heap) = take n (keys (key True) (mset (map (\<lambda>i. (d i, i)) cands)))"
    using assms(1) by (auto simp: holds_nearest_def)
  obtain recs s' where recs: "heap_drain (Heap_Size heap) Heap_Top (Heap_Pop True) Heap_Size heap = Inr (recs, s')"
    "mset recs = heap_recs heap" "rev (map (key True) recs) = keys (key True) (heap_recs heap)"
    using Heap_drain_ok [OF inv(1)] by blast
  have sub: "mset recs \<subseteq># mset (map (\<lambda>i. (d i, i)) cands)" using recs(2) inv(2) by simp
  then have mem: "r \<in> (\<lambda>i. (d i, i)) ` set cands" if "r \<in> set recs" for r
    using that by (metis (no_types, lifting) in_multiset_in_set list.set_map mset_subset_eqD)
  have "image_mset snd (mset recs) \<subseteq># image_mset snd (mset (map (\<lambda>i. (d i, i)) cands))"
    using sub by (rule image_mset_subseteq_mono)
  then have "mset (map snd recs) \<subseteq># mset cands" by (simp add: comp_def image_mset.compositionality)
  then have dist: "distinct (map snd recs)" using assms(2) by (rule distinct_submset)
  define ids where "ids = rev (map snd recs)"
  have e: "map (\<lambda>i. (d i, i)) (map snd recs) = recs" unfolding map_map by (rule map_idI) (use mem in fastforce)
  have "foldR (\<lambda>(dist, inner) out. bindR (LabelTable_GetLabelById t inner) (\<lambda>l. Inr ((dist, l) # out))) rs out =
      Inr (rev (map (\<lambda>(x, i). (x, lab i)) rs) @ out)" if "set rs \<subseteq> set recs" for rs out
    using that
  proof (induction rs arbitrary: out)
    case (Cons r rs)
    then have "LabelTable_GetLabelById t (snd r) = Inr (lab (snd r))" using assms(3) mem [of r] by auto
    then show ?case using Cons by (cases r) simp
  qed simp
  from this [of recs "[]"] have "heap_results t heap = Inr (map (\<lambda>(x, i). (x, lab i)) (rev recs))"
    using recs(1) by (simp add: heap_results_def rev_map)
  moreover have "map (\<lambda>(x, i). (x, lab i)) (rev recs) = map (\<lambda>i. (d i, lab i)) ids"
    by (subst e [symmetric]) (simp add: ids_def rev_map comp_def)
  moreover have "distinct ids" "set ids \<subseteq> set cands" using dist mem by (fastforce simp: ids_def)+
  moreover have "map d ids = take n (sort (map d cands))"
  proof -
    have "map (key True) recs = map d (map snd recs)" using arg_cong [OF e, of "map (key True)"] by (simp add: comp_def key_def)
    then have "map d ids = rev (map (key True) recs)" by (simp add: ids_def rev_map)
    also have "\<dots> = take n (keys (key True) (mset (map (\<lambda>i. (d i, i)) cands)))" using recs(3) inv(3) by simp
    also have "\<dots> = take n (sort (map d cands))" unfolding keys_mset by (simp add: comp_def key_def)
    finally show ?thesis .
  qed
  ultimately show ?thesis unfolding nearest_def by blast
qed

lemma search_filters_ok:
  assumes "LabelTable_GetLabelById t i = Inr l" "i < 2 ^ 32"
  shows "(if search_filters flt t = [] then Inr True else CombinedFilter_CheckValid (search_filters flt t) i) =
    Inr (i \<notin> set (lt_deleted_ids t) \<and> (case flt of None \<Rightarrow> True | Some f \<Rightarrow> f l))"
proof -
  have "nat (int i mod 2 ^ 32) = i" using assms(2) by (metis mod_less nat_int of_nat_mod of_nat_numeral of_nat_power)
  then show ?thesis using assms(1)
    by (auto simp: search_filters_def LabelTable_GetDeletedIdsFilter_def RemoveListFilter_CheckValid_def
        InnerIdWrapperFilter_CheckValid_def split: option.splits)
qed

text \<open>A search that may be split over threads.\<close>

lemma search_split_ok:
  assumes "0 < p" "t + p < 2 ^ 32"
    and search: "\<And>a b. b \<le> t \<Longrightarrow> \<exists>heap. search a b = Inr heap \<and> holds_nearest n d (filter P [a..<b]) heap"
  shows "\<exists>heap. (if seq then search 0 (u32 t) else search_parts p t search) = Inr heap \<and> holds_nearest n d (filter P [0..<t]) heap"
proof (cases seq)
  case True
  then show ?thesis using search [of t 0] assms(2) by simp
next
  case False
  then show ?thesis using search_parts_ok [OF assms(1,2) search] by simp
qed

lemma next_multiple_ok:
  assumes "n \<le> 31" "x < 2 ^ 32"
  shows "\<exists>m. next_multiple_of_power_of_two x n = Inr m \<and> x \<le> m \<and> m < x + 2 ^ n"
proof -
  define y where "y = (2 :: nat) ^ n"
  have y: "0 < y" "y \<le> 2 ^ 31" using power_increasing [OF assms(1), of "2 :: nat"] by (simp_all add: y_def)
  define z where "z = x + y - 1"
  have "u64 z = z" using y assms(2) by (simp add: z_def)
  then have "next_multiple_of_power_of_two x n = Inr (z div y * y)"
    using assms(1) by (simp add: next_multiple_of_power_of_two_def z_def y_def push_bit_eq_mult drop_bit_eq_div)
  moreover have "z div y * y + z mod y = z" "z mod y < y" using y by simp_all
  then have "x \<le> z div y * y" "z div y * y < x + y" unfolding z_def using y(1) by linarith+
  ultimately show ?thesis by (simp add: y_def)
qed

context code_store
begin

definition bf_dist :: "(bytes \<Rightarrow> dist) \<Rightarrow> ('c, 'd) brute_force \<Rightarrow> inner_id \<Rightarrow> dist" where
  "bf_dist ComputeDist b i = ComputeDist (code (bf_inner_codes b) i)"

definition bf_stored :: "(inner_id \<Rightarrow> label) \<Rightarrow> ('c, 'd) brute_force \<Rightarrow> bool" where
  "bf_stored lab b \<longleftrightarrow> inv (bf_inner_codes b) \<and>
     (\<forall>i<bf_total_count b. has (bf_inner_codes b) i \<and> LabelTable_GetLabelById (bf_label_table b) i = Inr (lab i))"

lemma SearchWithRequest_ok:
  assumes "bf_stored lab b" "0 < p" "bf_total_count b + p < 2 ^ 32" "0 < topk" "topk < 2 ^ 63"
  shows "\<exists>out. BruteForce_SearchWithRequest get ComputeDist flt attr_filter topk p has_pool b = Inr out \<and>
    nearest (nat topk) (bf_dist ComputeDist b) lab
      (filter (\<lambda>i. (case attr_filter of None \<Rightarrow> True | Some f \<Rightarrow> f i) \<and> i \<notin> set (lt_deleted_ids (bf_label_table b)) \<and>
         (case flt of None \<Rightarrow> True | Some f \<Rightarrow> f (lab i))) [0..<bf_total_count b]) out"
proof -
  define t where "t = bf_total_count b"
  let ?d = "bf_dist ComputeDist b" and ?T = "bf_label_table b"
  let ?P = "\<lambda>i. (case attr_filter of None \<Rightarrow> True | Some f \<Rightarrow> f i) \<and> i \<notin> set (lt_deleted_ids ?T) \<and>
    (case flt of None \<Rightarrow> True | Some f \<Rightarrow> f (lab i))"
  let ?dist = "\<lambda>i. bindR (get (bf_inner_codes b) i) (\<lambda>codes. Inr (ComputeDist codes))"
  let ?search = "\<lambda>start stop. knn_search_func ?dist attr_filter (search_filters flt ?T) start stop (MakeInstanceBySize True topk)"
  have st: "inv (bf_inner_codes b)" "\<And>i. i < t \<Longrightarrow> has (bf_inner_codes b) i" "\<And>i. i < t \<Longrightarrow> LabelTable_GetLabelById ?T i = Inr (lab i)"
    using assms(1) by (auto simp: bf_stored_def t_def)
  have "\<exists>heap. ?search start stop = Inr heap \<and> holds_nearest (nat topk) ?d (filter ?P [start..<stop]) heap" if "stop \<le> t" for start stop
  proof -
    have "?search start stop = foldR (Heap_Push True True) (map (\<lambda>i. (?d i, i)) (filter ?P [start..<stop])) (MakeInstanceBySize True topk)"
      unfolding knn_search_func_def
    proof (rule foldR_push_valid)
      fix i heap assume "i \<in> set [start..<stop]"
      then have i: "i < t" "i < 2 ^ 32" using that assms(3) by (auto simp: t_def)
      show "(if case attr_filter of None \<Rightarrow> False | Some f \<Rightarrow> \<not> f i then Inr heap
          else bindR (if search_filters flt ?T = [] then Inr True else CombinedFilter_CheckValid (search_filters flt ?T) i)
            (\<lambda>valid. if valid then bindR (?dist i) (\<lambda>dist. Heap_Push True True (dist, i) heap) else Inr heap)) =
        (if ?P i then Heap_Push True True (?d i, i) heap else Inr heap)"
        unfolding search_filters_ok [OF st(3) [OF i(1)] i(2)] using get_ok [OF st(1) st(2) [OF i(1)]]
        by (simp add: bf_dist_def split: option.splits)
    qed
    then show ?thesis using holds_nearest_push [OF assms(4,5)] by simp
  qed
  from search_split_ok [OF assms(2) assms(3) [folded t_def] this, where seq = "p = 1 \<or> \<not> has_pool"] obtain heap where
    "(if p = 1 \<or> \<not> has_pool then ?search 0 (u32 t) else search_parts p t ?search) = Inr heap"
    "holds_nearest (nat topk) ?d (filter ?P [0..<t]) heap" by blast
  moreover from heap_results_ok [OF this(2), of ?T lab] st(3) obtain out where
    "heap_results ?T heap = Inr out" "nearest (nat topk) ?d lab (filter ?P [0..<t]) out" by auto
  ultimately show ?thesis using assms(2) unfolding BruteForce_SearchWithRequest_def Let_def t_def by auto
qed

lemma RangeSearch_ok:
  assumes "bf_stored lab b" "0 < p" "bf_total_count b + p < 2 ^ 32" "limited_size \<noteq> 0" "limited_size < 2 ^ 63"
  shows "\<exists>out. BruteForce_RangeSearch get ComputeDist flt radius limited_size p has_pool b = Inr out \<and>
    nearest (if limited_size < 0 then 2 ^ 63 - 1 else nat limited_size) (bf_dist ComputeDist b) lab
      (filter (\<lambda>i. (case flt of None \<Rightarrow> True | Some f \<Rightarrow> f (lab i)) \<and> bf_dist ComputeDist b i \<le> radius) [0..<bf_total_count b]) out"
proof (cases "bf_total_count b = 0")
  case True
  then show ?thesis using assms(4) by (simp add: BruteForce_RangeSearch_def nearest_def)
next
  case False
  define t where "t = bf_total_count b"
  define n where "n = (if limited_size < 0 then 2 ^ 63 - 1 else limited_size)"
  define q where "q = min p t"
  have q: "0 < q" "t + q < 2 ^ 32" using assms(2,3) False by (auto simp: q_def t_def)
  let ?d = "bf_dist ComputeDist b" and ?T = "bf_label_table b"
  let ?P = "\<lambda>i. (case flt of None \<Rightarrow> True | Some f \<Rightarrow> f (lab i)) \<and> ?d i \<le> radius"
  let ?dist = "\<lambda>i. bindR (get (bf_inner_codes b) i) (\<lambda>codes. Inr (ComputeDist codes))"
  let ?search = "range_search_func ?dist flt ?T radius n"
  have st: "inv (bf_inner_codes b)" "\<And>i. i < t \<Longrightarrow> has (bf_inner_codes b) i" "\<And>i. i < t \<Longrightarrow> LabelTable_GetLabelById ?T i = Inr (lab i)"
    using assms(1) by (auto simp: bf_stored_def t_def)
  have n: "0 < n" "n < 2 ^ 63" using assms(4,5) by (auto simp: n_def)
  have "\<exists>heap. ?search start stop = Inr heap \<and> holds_nearest (nat n) ?d (filter ?P [start..<stop]) heap" if "stop \<le> t" for start stop
  proof -
    have "?search start stop = foldR (Heap_Push True True) (map (\<lambda>i. (?d i, i)) (filter ?P [start..<stop])) (MakeInstanceBySize True n)"
      unfolding range_search_func_def
    proof (rule foldR_push_valid)
      fix i heap assume "i \<in> set [start..<stop]"
      then have i: "i < t" using that by auto
      show "bindR (case flt of None \<Rightarrow> Inr True | Some f \<Rightarrow> InnerIdWrapperFilter_CheckValid f ?T i)
          (\<lambda>valid. if valid then bindR (?dist i) (\<lambda>dist. if radius < dist then Inr heap else Heap_Push True True (dist, i) heap) else Inr heap) =
        (if ?P i then Heap_Push True True (?d i, i) heap else Inr heap)"
        using get_ok [OF st(1) st(2) [OF i]] st(3) [OF i]
        by (simp add: bf_dist_def InnerIdWrapperFilter_CheckValid_def not_less split: option.splits)
    qed
    then show ?thesis using holds_nearest_push [OF n] by simp
  qed
  from search_split_ok [OF q this, where seq = "q \<le> 1 \<or> \<not> has_pool"] obtain heap where
    "(if q \<le> 1 \<or> \<not> has_pool then ?search 0 (u32 t) else search_parts q t ?search) = Inr heap"
    "holds_nearest (nat n) ?d (filter ?P [0..<t]) heap" by blast
  moreover from heap_results_ok [OF this(2), of ?T lab] st(3) obtain out where
    "heap_results ?T heap = Inr out" "nearest (nat n) ?d lab (filter ?P [0..<t]) out" by auto
  moreover have "nat n = (if limited_size < 0 then 2 ^ 63 - 1 else nat limited_size)" by (simp add: n_def)
  ultimately show ?thesis using assms(4) False unfolding BruteForce_RangeSearch_def Let_def t_def q_def n_def by auto
qed

text \<open>The index holds the rows, of which those in \<open>D\<close> are marked.\<close>

definition bf_rows :: "(label \<times> 'v) list \<Rightarrow> inner_id set \<Rightarrow> ('c, 'd) brute_force \<Rightarrow> bool" where
  "bf_rows rows D b \<longleftrightarrow> inv (bf_inner_codes b) \<and> bf_total_count b = length rows \<and>
     lt_rel (bf_label_table b) (map fst rows) D \<and>
     (\<forall>i<length rows. has (bf_inner_codes b) i \<and> code (bf_inner_codes b) i = encode (snd (rows ! i)))"

lemma bf_rows_stored: "bf_rows rows D b \<Longrightarrow> bf_stored (\<lambda>i. fst (rows ! i)) b"
  using lt_rel_queries(3) [of "bf_label_table b" "map fst rows" D] by (simp add: bf_rows_def bf_stored_def)

lemma bf_rows_dist:
  "bf_rows rows D b \<Longrightarrow> i < length rows \<Longrightarrow> bf_dist ComputeDist b i = ComputeDist (encode (snd (rows ! i)))"
  by (simp add: bf_rows_def bf_dist_def)

lemma resize_rows:
  assumes "bf_rows rows D b" "length rows + 1 + 2 ^ bf_resize_increase_count_bit b \<le> min room (2 ^ 32 - 1)"
  shows "\<exists>b'. BruteForce_resize grow (length rows + 1) b = Inr b' \<and> bf_rows rows D b' \<and>
    bf_label_table b' = bf_label_table b \<and>
    bf_resize_increase_count_bit b' = bf_resize_increase_count_bit b \<and> bf_dim b' = bf_dim b \<and> bf_use_attribute_filter b' = bf_use_attribute_filter b"
proof -
  let ?n = "bf_resize_increase_count_bit b"
  have "(2 :: nat) ^ ?n < 2 ^ 32" using assms(2) by linarith
  then have "?n \<le> 31" using power_less_imp_less_exp [of "2 :: nat" ?n 32] by simp
  moreover have "length rows + 1 < 2 ^ 32" using assms(2) by linarith
  ultimately obtain m where m: "next_multiple_of_power_of_two (length rows + 1) ?n = Inr m" "length rows + 1 \<le> m"
    "m < length rows + 1 + 2 ^ ?n" using next_multiple_ok by blast
  have m2: "m \<le> room" "u32 m = m" using m(3) assms(2) by simp_all
  show ?thesis
  proof (cases "m \<le> bf_max_capacity b")
    case False
    let ?b = "b\<lparr>bf_inner_codes := grow m (bf_inner_codes b), bf_max_capacity := m\<rparr>"
    have "bf_rows rows D ?b"
      using grow_ok [of "bf_inner_codes b", OF _ m2(1)] assms(1) m(2) by (simp add: bf_rows_def)
    then show ?thesis using False m(1) m2(2) by (simp add: BruteForce_resize_def)
  qed (use m(1) assms(1) in \<open>simp add: BruteForce_resize_def\<close>)
qed

lemma add_row_ok:
  assumes "bf_rows rows D b" "lab \<notin> fst ` set rows"
    and "length rows + 1 + 2 ^ bf_resize_increase_count_bit b \<le> min room (2 ^ 32 - 1)"
  shows "\<exists>b'. BruteForce_add_row ins grow (lab, v) (failed, b) = Inr (failed, b') \<and> bf_rows (rows @ [(lab, v)]) D b' \<and>
    bf_resize_increase_count_bit b' = bf_resize_increase_count_bit b \<and> bf_dim b' = bf_dim b \<and> bf_use_attribute_filter b' = bf_use_attribute_filter b"
proof -
  let ?n = "length rows"
  have n: "?n + 1 < 2 ^ 32 - 1" "?n < room" using assms(3) one_le_power [of "2 :: nat" "bf_resize_increase_count_bit b"] by linarith+
  have lt: "lt_rel (bf_label_table b) (map fst rows) D" using assms(1) by (simp add: bf_rows_def)
  have fresh: "\<not> LabelTable_CheckLabel (bf_label_table b) lab" using lt_rel_queries(2) [OF lt] assms(2) by simp
  let ?b = "b\<lparr>bf_total_count := ?n + 1\<rparr>"
  have cnt: "bf_total_count b = ?n" "u32 ?n = ?n" "u64 (?n + 1) = ?n + 1" using assms(1) n(1) by (simp_all add: bf_rows_def)
  obtain b1 where b1: "BruteForce_resize grow (?n + 1) b = Inr b1" "bf_rows rows D b1" "bf_label_table b1 = bf_label_table b"
    "bf_resize_increase_count_bit b1 = bf_resize_increase_count_bit b" "bf_dim b1 = bf_dim b" "bf_use_attribute_filter b1 = bf_use_attribute_filter b"
    using resize_rows [OF assms(1,3)] by blast
  have r: "BruteForce_resize grow (?n + 1) ?b = Inr (b1\<lparr>bf_total_count := ?n + 1\<rparr>)"
    using b1(1) by (cases "next_multiple_of_power_of_two (?n + 1) (bf_resize_increase_count_bit b)")
      (auto simp: BruteForce_resize_def)
  obtain t where t: "LabelTable_Insert ?n lab (bf_label_table b) = Inr t" "lt_rel t (map fst (rows @ [(lab, v)])) D"
    using lt_rel_Insert [OF lt, of lab] assms(2) n(1) by (auto simp: INVALID_ID_def)
  obtain c where c: "ins v ?n (bf_inner_codes b1) = Inr c" "inv c" "has c ?n" "code c ?n = encode v"
    "\<forall>x. x \<noteq> ?n \<and> has (bf_inner_codes b1) x \<longrightarrow> has c x \<and> code c x = code (bf_inner_codes b1) x"
    using ins_ok [of "bf_inner_codes b1" ?n v] b1(2) n(2) by (auto simp: bf_rows_def)
  let ?b' = "b1\<lparr>bf_total_count := ?n + 1, bf_label_table := t, bf_inner_codes := c\<rparr>"
  have "BruteForce_add_row ins grow (lab, v) (failed, b) = Inr (failed, ?b')"
    using fresh cnt r b1(3) t(1) c(1) by (simp add: BruteForce_add_row_def BruteForce_add_func_def Let_def)
  moreover have "bf_rows (rows @ [(lab, v)]) D ?b'"
    using b1(2) t(2) c(2-5) by (auto simp: bf_rows_def nth_append less_Suc_eq)
  ultimately show ?thesis using b1(4-6) by simp
qed

lemma Add_rows:
  assumes "bf_rows [] {} b" "distinct (map fst rows)"
    and "length rows + 2 ^ bf_resize_increase_count_bit b \<le> min room (2 ^ 32 - 1)"
  shows "\<exists>b'. foldR (BruteForce_add_row ins grow) rows ([], b) = Inr ([], b') \<and> bf_rows rows {} b' \<and> bf_dim b' = bf_dim b \<and> bf_use_attribute_filter b' = bf_use_attribute_filter b"
proof -
  have "\<exists>b'. foldR (BruteForce_add_row ins grow) rows ([], b) = Inr ([], b') \<and> bf_rows rows {} b' \<and>
      bf_resize_increase_count_bit b' = bf_resize_increase_count_bit b \<and> bf_dim b' = bf_dim b \<and> bf_use_attribute_filter b' = bf_use_attribute_filter b"
    using assms(2,3)
  proof (induction rows rule: rev_induct)
    case Nil
    then show ?case using assms(1) by simp
  next
    case (snoc row rows)
    then obtain b1 where b1: "foldR (BruteForce_add_row ins grow) rows ([], b) = Inr ([], b1)" "bf_rows rows {} b1"
      "bf_resize_increase_count_bit b1 = bf_resize_increase_count_bit b" "bf_dim b1 = bf_dim b" "bf_use_attribute_filter b1 = bf_use_attribute_filter b" by auto
    show ?case using add_row_ok [OF b1(2), of "fst row" "snd row" "[]"] snoc.prems b1 by (auto simp: foldR_append)
  qed
  then show ?thesis by blast
qed

lemma mark_rows:
  assumes "bf_rows rows D b" "\<not> bf_use_attribute_filter b"
  shows "\<exists>n b'. BruteForce_Remove ins get decode labs MARK_REMOVE b = Inr (n, b') \<and>
    bf_rows rows (D \<union> {i. i < length rows \<and> fst (rows ! i) \<in> set labs}) b'"
proof -
  let ?xs = "map fst rows" and ?t = "snd (LabelTable_MarkRemove labs (bf_label_table b))"
  have lt: "lt_rel (bf_label_table b) ?xs D" using assms(1) by (simp add: bf_rows_def)
  then have d: "distinct ?xs" by (simp add: lt_rel_def)
  have "find_label ?xs ` (set labs \<inter> set ?xs) = {i. i < length rows \<and> fst (rows ! i) \<in> set labs}"
  proof (intro set_eqI iffI)
    fix i assume "i \<in> find_label ?xs ` (set labs \<inter> set ?xs)"
    then obtain l where "i = find_label ?xs l" "l \<in> set labs" "l \<in> set ?xs" by blast
    then show "i \<in> {i. i < length rows \<and> fst (rows ! i) \<in> set labs}"
      using find_label_props(1) [of ?xs l] find_label_props(2) [of l ?xs] by (auto simp: nth_map)
  next
    fix i assume "i \<in> {i. i < length rows \<and> fst (rows ! i) \<in> set labs}"
    then have "find_label ?xs (fst (rows ! i)) = i" "fst (rows ! i) \<in> set labs \<inter> set ?xs"
      using find_label_props(3) [OF d, of i] by auto
    then show "i \<in> find_label ?xs ` (set labs \<inter> set ?xs)" by (metis imageI)
  qed
  then have "lt_rel ?t ?xs (D \<union> {i. i < length rows \<and> fst (rows ! i) \<in> set labs})"
    using lt_rel_MarkRemove [OF lt, of labs] by simp
  then show ?thesis using assms by (auto simp: BruteForce_Remove_def bf_rows_def split: prod.splits)
qed

lemma force_rows:
  assumes "bf_rows rows {} b" "\<not> bf_use_attribute_filter b" "i < length rows - 1" "length rows \<le> room"
    and decode: "\<And>v. \<exists>v'. decode (encode v) = Inr v' \<and> encode v' = encode v"
  shows "\<exists>b'. BruteForce_Remove ins get decode [fst (rows ! i)] FORCE_REMOVE b = Inr (1, b') \<and>
    bf_total_count b' = length rows - 1 \<and> set (lt_deleted_ids (bf_label_table b')) = {i, length rows - 1} \<and>
    bf_stored (\<lambda>j. fst ((rows[i := last rows]) ! j)) b' \<and>
    (\<forall>j<length rows - 1. bf_dist ComputeDist b' j = ComputeDist (encode (snd ((rows[i := last rows]) ! j))))"
proof -
  define n where "n = length rows - 1"
  define t where "t = bf_label_table b"
  let ?xs = "map fst rows"
  have n: "length rows = Suc n" "i < n" "rows \<noteq> []" using assms(3) by (auto simp: n_def)
  have lt: "lt_rel t ?xs {}" using assms(1) by (simp add: bf_rows_def t_def)
  have l: "lt_use_reverse_map t" "lt_deleted_ids t = []" "Suc n < INVALID_ID" "Suc n \<le> length (lt_label_table t)" "distinct ?xs"
    using lt n by (auto simp: lt_rel_def)
  have cnt: "bf_total_count b = Suc n" "u64_sub (Suc n) 1 = n" "u32 n = n"
    using assms(1) n l(3) by (auto simp: bf_rows_def INVALID_ID_def u64_sub_le)
  have find: "find_label ?xs (fst (rows ! j)) = j" if "j \<le> n" for j using find_label_props(3) [OF l(5), of j] that n by simp
  have gid: "get_id_by_label t (fst (rows ! j)) = j" if "j \<le> n" for j using lt_rel_get_id [OF lt] find [OF that] that n by simp
  have lab: "LabelTable_GetLabelById t j = Inr (fst (rows ! j))" if "j \<le> n" for j using lt_rel_queries(3) [OF lt, of j] that n by simp
  have id: "LabelTable_GetIdByLabel t (fst (rows ! i)) False = Inr i"
    using lt_rel_queries(1) [OF lt] find [of i] n by (simp add: LabelTable_GetIdByLabel_def)
  define t1 where "t1 = t\<lparr>lt_deleted_ids := [i], lt_total_count := lt_total_count t - 1\<rparr>"
  have m1: "snd (LabelTable_MarkRemove [fst (rows ! i)] t) = t\<lparr>lt_deleted_ids := [i]\<rparr>"
    using gid [of i] n(2) l(2,3) by (simp add: LabelTable_MarkRemove_def Let_def ids_insert_def)
  have "get_id_by_label t1 (fst (rows ! n)) = n"
    using gid [of n] l(1) by (simp add: get_id_by_label_def get_id_by_label_with_reverse_map_def t1_def)
  then have m2: "snd (LabelTable_MarkRemove [fst (rows ! n)] t1) = t1\<lparr>lt_deleted_ids := [i, n]\<rparr>"
    using n(2) l(3) by (simp add: LabelTable_MarkRemove_def Let_def ids_insert_def t1_def)
  define t2 where "t2 = t1\<lparr>lt_deleted_ids := [i, n], lt_total_count := lt_total_count t1 - 1\<rparr>"
  have t2: "lt_use_reverse_map t2" "lt_label_table t2 = lt_label_table t" "lt_deleted_ids t2 = [i, n]" using l(1) by (simp_all add: t2_def t1_def)
  have ui: "u32 (i + 1) = Suc i" using n(2) l(3) by (simp add: INVALID_ID_def)
  define t3 where "t3 = t2\<lparr>lt_label_remap := Remap_InsertOrAssign (fst (rows ! n)) i (lt_label_remap t2),
    lt_label_table := (lt_label_table t)[i := fst (rows ! n)], lt_total_count := lt_total_count t2 + 1\<rparr>"
  have ins_lab: "LabelTable_Insert i (fst (rows ! n)) t2 = Inr t3"
    using t2 ui n(2) l(4) unfolding LabelTable_Insert_def by (simp add: Let_def t3_def)
  have codes: "inv (bf_inner_codes b)" "\<And>j. j \<le> n \<Longrightarrow> has (bf_inner_codes b) j \<and> code (bf_inner_codes b) j = encode (snd (rows ! j))"
    using assms(1) n by (auto simp: bf_rows_def)
  obtain v' where v': "decode (encode (snd (rows ! n))) = Inr v'" "encode v' = encode (snd (rows ! n))" using decode by blast
  have data: "GetVectorByInnerId get decode b n = Inr v'"
    using get_ok [OF codes(1), of n] codes(2) [of n] v'(1) by (simp add: GetVectorByInnerId_def)
  obtain c where c: "ins v' i (bf_inner_codes b) = Inr c" "inv c" "has c i" "code c i = encode v'"
    "\<forall>x. x \<noteq> i \<and> has (bf_inner_codes b) x \<longrightarrow> has c x \<and> code c x = code (bf_inner_codes b) x"
    using ins_ok [OF codes(1), of i v'] n(1,2) assms(4) by auto
  let ?b = "b\<lparr>bf_label_table := t3, bf_inner_codes := c, bf_total_count := n\<rparr>"
  have "BruteForce_force_remove ins get decode (fst (rows ! i)) b = Inr ?b"
    using cnt id lab [of n] m1 m2 data c(1) ins_lab n(2)
    unfolding BruteForce_force_remove_def t_def [symmetric] by (simp add: Let_def t1_def [symmetric] t2_def [symmetric])
  then have run: "BruteForce_Remove ins get decode [fst (rows ! i)] FORCE_REMOVE b = Inr (1, ?b)"
    using assms(2) by (simp add: BruteForce_Remove_def)
  have last: "last rows = rows ! n" using n by (simp add: last_conv_nth)
  have "LabelTable_GetLabelById t3 j = Inr (fst (rows[i := last rows] ! j))" if "j < n" for j
    using lab [of j] that n l(4) last by (auto simp: LabelTable_GetLabelById_def t3_def nth_list_update)
  moreover have slot: "has c j \<and> code c j = encode (snd (rows[i := last rows] ! j))" if "j < n" for j
    using c(3-5) codes(2) [of j] v'(2) that n last by (cases "j = i") auto
  ultimately have "bf_stored (\<lambda>j. fst (rows[i := last rows] ! j)) ?b" using c(2) by (simp add: bf_stored_def)
  moreover have "\<forall>j<n. bf_dist ComputeDist ?b j = ComputeDist (encode (snd (rows[i := last rows] ! j)))" using slot by (simp add: bf_dist_def)
  moreover have "set (lt_deleted_ids (bf_label_table ?b)) = {i, n}" using t2(3) by (simp add: t3_def)
  ultimately show ?thesis using run unfolding n_def [symmetric] by (intro exI [of _ ?b]) simp
qed

end

section \<open>Properties\<close>

text \<open>
  The properties are stated for full-precision codes in a store of memory blocks. \<open>cs\<close> is the code size,
  \<open>query_dist\<close> the distance of a query to a row.
\<close>

definition query_dist :: "fp32_kernels \<Rightarrow> metric_type \<Rightarrow> bool \<Rightarrow> nat \<Rightarrow> (nat \<Rightarrow> byte) \<Rightarrow> (nat \<Rightarrow> byte) \<Rightarrow> dist" where
  "query_dist k metric hold_molds dim query row =
     FP32_ComputeDist k metric hold_molds dim (FP32_ProcessQuery k metric hold_molds dim query)
       (FP32_EncodeOne k metric hold_molds dim row)"

type_synonym block_index = "(memory_block_io flatten_data_cell, unit) brute_force"

definition fp32_index :: "nat \<Rightarrow> nat \<Rightarrow> nat \<Rightarrow> metric_type \<Rightarrow> bool \<Rightarrow> block_index" where
  "fp32_index block_size grow_bit dim metric hold_molds =
     BruteForce_new (FlattenDataCell_new (FP32_code_size metric hold_molds dim) (MemoryBlockIO_new block_size)) grow_bit False dim"

abbreviation fp32_add :: "(nat \<Rightarrow> byte) \<Rightarrow> fp32_kernels \<Rightarrow> metric_type \<Rightarrow> bool \<Rightarrow> nat \<Rightarrow> (label \<times> (nat \<Rightarrow> byte)) list \<Rightarrow> block_index \<Rightarrow>
    (label list \<times> block_index) result" where
  "fp32_add fresh k metric hold_molds dim rows \<equiv>
     BruteForce_Add (Flatten_InsertVector (MemoryBlockIO_WriteImpl fresh) (FP32_EncodeOne k metric hold_molds dim))
       (Flatten_Resize (MemoryBlockIO_ResizeImpl fresh)) (\<lambda>_ c. c) dim (Some rows)"

lemma fp32_index_rows:
  assumes "0 < block_size" "block_size \<le> 2 ^ 62" "distinct (map fst rows)"
    and "length rows + 2 ^ max 10 grow_bit < 2 ^ 32" "(length rows + 2 ^ max 10 grow_bit) * FP32_code_size metric hold_molds (Suc d) \<le> 2 ^ 62"
  shows "\<exists>b. fp32_add fresh k metric hold_molds (Suc d) rows (fp32_index block_size grow_bit (Suc d) metric hold_molds) = Inr ([], b) \<and>
    fp32_block.flat.bf_rows k metric hold_molds d rows {} b \<and> \<not> bf_use_attribute_filter b"
proof -
  let ?cs = "FP32_code_size metric hold_molds (Suc d)" and ?b = "fp32_index block_size grow_bit (Suc d) metric hold_molds"
  have cs: "0 < ?cs" by (simp add: FP32_code_size_def)
  have "length rows + 2 ^ max 10 grow_bit \<le> 2 ^ 62 div ?cs" using assms(5) cs by (simp add: less_eq_div_iff_mult_less_eq)
  then have room: "length rows + 2 ^ max 10 grow_bit \<le> min (fp32_block.fl_room metric hold_molds d) (2 ^ 32 - 1)"
    using assms(4) unfolding fp32_block.fl_room_def by simp
  have "fp32_block.flat.bf_rows k metric hold_molds d [] {} ?b"
    using mbio_new(1) [OF assms(1,2)] lt_rel_new
    by (simp add: fp32_block.flat.bf_rows_def fp32_block.fl_inv_def fp32_index_def BruteForce_new_def FlattenDataCell_new_def)
  from fp32_block.flat.Add_rows [where fresh = fresh, OF this assms(3)] obtain b where
    "foldR (BruteForce_add_row (Flatten_InsertVector (MemoryBlockIO_WriteImpl fresh) (FP32_EncodeOne k metric hold_molds (Suc d)))
      (Flatten_Resize (MemoryBlockIO_ResizeImpl fresh))) rows ([], ?b) = Inr ([], b)"
    "fp32_block.flat.bf_rows k metric hold_molds d rows {} b" "bf_use_attribute_filter b = bf_use_attribute_filter ?b"
    using room by (auto simp: fp32_index_def BruteForce_new_def)
  then show ?thesis by (simp add: BruteForce_Add_def fp32_index_def BruteForce_new_def)
qed

abbreviation fp32_search :: "fp32_kernels \<Rightarrow> metric_type \<Rightarrow> bool \<Rightarrow> nat \<Rightarrow> (nat \<Rightarrow> byte) \<Rightarrow> (label \<Rightarrow> bool) option \<Rightarrow> int \<Rightarrow> nat \<Rightarrow> bool \<Rightarrow>
    block_index \<Rightarrow> (dist \<times> label) list result" where
  "fp32_search k metric hold_molds dim query flt topk parallel has_pool \<equiv>
     BruteForce_SearchWithRequest (Flatten_GetCodes MemoryBlockIO_DirectReadImpl)
       (FP32_ComputeDist k metric hold_molds dim (FP32_ProcessQuery k metric hold_molds dim query)) flt None topk parallel has_pool"

abbreviation fp32_range :: "fp32_kernels \<Rightarrow> metric_type \<Rightarrow> bool \<Rightarrow> nat \<Rightarrow> (nat \<Rightarrow> byte) \<Rightarrow> (label \<Rightarrow> bool) option \<Rightarrow> dist \<Rightarrow> int \<Rightarrow> nat \<Rightarrow> bool \<Rightarrow>
    block_index \<Rightarrow> (dist \<times> label) list result" where
  "fp32_range k metric hold_molds dim query flt radius limited_size parallel has_pool \<equiv>
     BruteForce_RangeSearch (Flatten_GetCodes MemoryBlockIO_DirectReadImpl)
       (FP32_ComputeDist k metric hold_molds dim (FP32_ProcessQuery k metric hold_molds dim query)) flt radius limited_size parallel has_pool"

abbreviation fp32_remove :: "(nat \<Rightarrow> byte) \<Rightarrow> fp32_kernels \<Rightarrow> metric_type \<Rightarrow> bool \<Rightarrow> nat \<Rightarrow> label list \<Rightarrow> remove_mode \<Rightarrow> block_index \<Rightarrow>
    (nat \<times> block_index) result" where
  "fp32_remove fresh k metric hold_molds dim \<equiv>
     BruteForce_Remove (Flatten_InsertVector (MemoryBlockIO_WriteImpl fresh) (FP32_EncodeOne k metric hold_molds dim))
       (Flatten_GetCodes MemoryBlockIO_DirectReadImpl)
       (\<lambda>codes. bindR (FP32_DecodeOne dim codes) (\<lambda>data. Inr (\<lambda>i. data ! i)))"

text \<open>Only the distances and labels of the candidates matter.\<close>

lemma nearest_cong:
  assumes "nearest n d lab cands out" "\<forall>i\<in>set cands. d i = d' i \<and> lab i = lab' i"
  shows "nearest n d' lab' cands out"
proof -
  obtain ids where ids: "out = map (\<lambda>i. (d i, lab i)) ids" "distinct ids" "set ids \<subseteq> set cands" "map d ids = take n (sort (map d cands))"
    using assms(1) unfolding nearest_def by blast
  have "map d cands = map d' cands" "map d ids = map d' ids" "map (\<lambda>i. (d i, lab i)) ids = map (\<lambda>i. (d' i, lab' i)) ids"
    using assms(2) ids(3) by auto
  then show ?thesis using ids unfolding nearest_def by metis
qed

lemma rows_search:
  assumes "fp32_block.flat.bf_rows k metric hold_molds d rows D b" "0 < p" "length rows + p < 2 ^ 32" "0 < topk" "topk < 2 ^ 63"
  shows "\<exists>out. fp32_search k metric hold_molds (Suc d) query flt topk p has_pool b = Inr out \<and>
    nearest (nat topk) (\<lambda>i. query_dist k metric hold_molds (Suc d) query (snd (rows ! i))) (\<lambda>i. fst (rows ! i))
      (filter (\<lambda>i. i \<notin> D \<and> (case flt of None \<Rightarrow> True | Some f \<Rightarrow> f (fst (rows ! i)))) [0..<length rows]) out"
proof -
  have r: "bf_total_count b = length rows" "set (lt_deleted_ids (bf_label_table b)) = D"
    using assms(1) by (auto simp: fp32_block.flat.bf_rows_def lt_rel_def)
  show ?thesis
    using fp32_block.flat.SearchWithRequest_ok [OF fp32_block.flat.bf_rows_stored [OF assms(1)] assms(2) _ assms(4,5),
        of "FP32_ComputeDist k metric hold_molds (Suc d) (FP32_ProcessQuery k metric hold_molds (Suc d) query)" flt None has_pool]
      assms(3) r fp32_block.flat.bf_rows_dist [OF assms(1)]
    by (auto simp: query_dist_def elim!: nearest_cong)
qed

lemma rows_range:
  assumes "fp32_block.flat.bf_rows k metric hold_molds d rows D b" "0 < p" "length rows + p < 2 ^ 32" "limited_size \<noteq> 0" "limited_size < 2 ^ 63"
  shows "\<exists>out. fp32_range k metric hold_molds (Suc d) query flt radius limited_size p has_pool b = Inr out \<and>
    nearest (if limited_size < 0 then 2 ^ 63 - 1 else nat limited_size)
      (\<lambda>i. query_dist k metric hold_molds (Suc d) query (snd (rows ! i))) (\<lambda>i. fst (rows ! i))
      (filter (\<lambda>i. (case flt of None \<Rightarrow> True | Some f \<Rightarrow> f (fst (rows ! i))) \<and>
         query_dist k metric hold_molds (Suc d) query (snd (rows ! i)) \<le> radius) [0..<length rows]) out"
proof -
  let ?D = "FP32_ComputeDist k metric hold_molds (Suc d) (FP32_ProcessQuery k metric hold_molds (Suc d) query)"
  have r: "bf_total_count b = length rows" using assms(1) by (simp add: fp32_block.flat.bf_rows_def)
  have d: "fp32_block.flat.bf_dist metric hold_molds d ?D b i = query_dist k metric hold_molds (Suc d) query (snd (rows ! i))"
    if "i < length rows" for i using fp32_block.flat.bf_rows_dist [OF assms(1) that] by (simp add: query_dist_def)
  have "filter (\<lambda>i. (case flt of None \<Rightarrow> True | Some f \<Rightarrow> f (fst (rows ! i))) \<and>
        fp32_block.flat.bf_dist metric hold_molds d ?D b i \<le> radius) [0..<length rows] =
      filter (\<lambda>i. (case flt of None \<Rightarrow> True | Some f \<Rightarrow> f (fst (rows ! i))) \<and>
         query_dist k metric hold_molds (Suc d) query (snd (rows ! i)) \<le> radius) [0..<length rows]"
    using d by (intro filter_cong) auto
  then show ?thesis
    using fp32_block.flat.RangeSearch_ok [OF fp32_block.flat.bf_rows_stored [OF assms(1)] assms(2) _ assms(4,5), of ?D flt radius has_pool]
      assms(3) r d by (auto elim!: nearest_cong)
qed

text \<open>
  Claim C1. The exhaustive index is exact: after adding rows with distinct labels (none fails), a
  k-nearest-neighbour search returns the \<open>topk\<close> smallest distances among the rows that pass the filter,
  in ascending order, each with the label of a different row at that distance; with any number of
  threads.
\<close>

theorem BruteForce_knn_exact:
  assumes "0 < block_size" "block_size \<le> 2 ^ 62" "distinct (map fst rows)"
    and "length rows + 2 ^ max 10 grow_bit < 2 ^ 32"
    and "(length rows + 2 ^ max 10 grow_bit) * FP32_code_size metric hold_molds (Suc d) \<le> 2 ^ 62"
    and "0 < p" "length rows + p < 2 ^ 32" "0 < topk" "topk < 2 ^ 63"
  shows "\<exists>b out. fp32_add fresh k metric hold_molds (Suc d) rows (fp32_index block_size grow_bit (Suc d) metric hold_molds) = Inr ([], b) \<and>
    fp32_search k metric hold_molds (Suc d) query flt topk p has_pool b = Inr out \<and>
    nearest (nat topk) (\<lambda>i. query_dist k metric hold_molds (Suc d) query (snd (rows ! i))) (\<lambda>i. fst (rows ! i))
      (filter (\<lambda>i. case flt of None \<Rightarrow> True | Some f \<Rightarrow> f (fst (rows ! i))) [0..<length rows]) out"
proof -
  obtain b where b: "fp32_add fresh k metric hold_molds (Suc d) rows (fp32_index block_size grow_bit (Suc d) metric hold_molds) = Inr ([], b)"
    "fp32_block.flat.bf_rows k metric hold_molds d rows {} b" using fp32_index_rows [OF assms(1-5)] by blast
  show ?thesis using rows_search [OF b(2) assms(6-9), of query flt has_pool] b(1) by auto
qed

text \<open>An index of two rows, used in the witnesses.\<close>

definition two_rows :: "(label \<times> (nat \<Rightarrow> byte)) list" where
  "two_rows = [(7, \<lambda>_. 1), (8, \<lambda>_. 2)]"

definition first_byte_kernels :: fp32_kernels where
  "first_byte_kernels = \<lparr>FP32ComputeIP = (\<lambda>a b n. 0), FP32ComputeL2Sqr = (\<lambda>a b n. \<bar>int (unat (hd a)) - int (unat (hd b))\<bar>),
     one_minus = (\<lambda>x. x), div_by = (\<lambda>x _. x), div_by_product = (\<lambda>x _ _. x), mold_of = (\<lambda>_ _. 0), Normalize = (\<lambda>x _. x)\<rparr>"

lemma two_rows_dist:
  "query_dist first_byte_kernels METRIC_TYPE_L2SQR False 1 (\<lambda>_. 0) (snd (two_rows ! 0)) = 1"
  "query_dist first_byte_kernels METRIC_TYPE_L2SQR False 1 (\<lambda>_. 0) (snd (two_rows ! 1)) = 2"
  by (simp_all add: query_dist_def two_rows_def first_byte_kernels_def FP32_ComputeDist_def FP32_EncodeOne_def
      FP32_ProcessQuery_def FP32_code_size_def upt_rec)

lemma two_rows_ok: "distinct (map fst two_rows)" "length two_rows = 2"
  by (simp_all add: two_rows_def)

lemma two_rows_nearest:
  assumes "nearest 1 (\<lambda>i. query_dist first_byte_kernels METRIC_TYPE_L2SQR False 1 (\<lambda>_. 0) (snd (two_rows ! i))) (\<lambda>i. fst (two_rows ! i)) [0, 1] out"
  shows "out = [(1, 7)]"
proof -
  let ?d = "\<lambda>i. query_dist first_byte_kernels METRIC_TYPE_L2SQR False 1 (\<lambda>_. 0) (snd (two_rows ! i))"
  obtain ids where ids: "out = map (\<lambda>i. (?d i, fst (two_rows ! i))) ids" "set ids \<subseteq> {0, 1}" "map ?d ids = take 1 (sort (map ?d [0, 1]))"
    using assms unfolding nearest_def by auto
  have "map ?d ids = [1]" using ids(3) two_rows_dist by simp
  then obtain i where "ids = [i]" "?d i = 1" by auto
  then show ?thesis using ids(1,2) two_rows_dist by (auto simp: two_rows_def)
qed

theorem BruteForce_knn_exact_witness:
  "\<exists>b. fp32_add (\<lambda>_. 0) first_byte_kernels METRIC_TYPE_L2SQR False 1 two_rows (fp32_index 64 10 1 METRIC_TYPE_L2SQR False) = Inr ([], b) \<and>
    fp32_search first_byte_kernels METRIC_TYPE_L2SQR False 1 (\<lambda>_. 0) None 1 2 True b = Inr [(1, 7)]"
  using BruteForce_knn_exact [of 64 two_rows 10 METRIC_TYPE_L2SQR False 0 2 1 "\<lambda>_. 0" first_byte_kernels "\<lambda>_. 0" None True]
    two_rows_ok two_rows_nearest by (auto simp: FP32_code_size_def upt_rec)

text \<open>
  Marking labels as removed hides their rows from the k-nearest-neighbour search. The range
  search does not consult the marks: it still returns removed rows within the radius.
\<close>

lemma BruteForce_marked_rows:
  assumes "0 < block_size" "block_size \<le> 2 ^ 62" "distinct (map fst rows)"
    and "length rows + 2 ^ max 10 grow_bit < 2 ^ 32"
    and "(length rows + 2 ^ max 10 grow_bit) * FP32_code_size metric hold_molds (Suc d) \<le> 2 ^ 62"
    and "0 < p" "length rows + p < 2 ^ 32" "0 < topk" "topk < 2 ^ 63"
  shows "\<exists>b n b' out out'.
    fp32_add fresh k metric hold_molds (Suc d) rows (fp32_index block_size grow_bit (Suc d) metric hold_molds) = Inr ([], b) \<and>
    fp32_remove fresh k metric hold_molds (Suc d) labs MARK_REMOVE b = Inr (n, b') \<and>
    fp32_search k metric hold_molds (Suc d) query None topk p has_pool b' = Inr out \<and>
    nearest (nat topk) (\<lambda>i. query_dist k metric hold_molds (Suc d) query (snd (rows ! i))) (\<lambda>i. fst (rows ! i))
      (filter (\<lambda>i. fst (rows ! i) \<notin> set labs) [0..<length rows]) out \<and>
    fp32_range k metric hold_molds (Suc d) query None radius topk p has_pool b' = Inr out' \<and>
    nearest (nat topk) (\<lambda>i. query_dist k metric hold_molds (Suc d) query (snd (rows ! i))) (\<lambda>i. fst (rows ! i))
      (filter (\<lambda>i. query_dist k metric hold_molds (Suc d) query (snd (rows ! i)) \<le> radius) [0..<length rows]) out'"
proof -
  obtain b where b: "fp32_add fresh k metric hold_molds (Suc d) rows (fp32_index block_size grow_bit (Suc d) metric hold_molds) = Inr ([], b)"
    "fp32_block.flat.bf_rows k metric hold_molds d rows {} b" "\<not> bf_use_attribute_filter b" using fp32_index_rows [OF assms(1-5)] by blast
  let ?D = "{i. i < length rows \<and> fst (rows ! i) \<in> set labs}"
  obtain n b' where b': "fp32_remove fresh k metric hold_molds (Suc d) labs MARK_REMOVE b = Inr (n, b')"
    "fp32_block.flat.bf_rows k metric hold_molds d rows ?D b'"
    using fp32_block.flat.mark_rows [OF b(2,3), where fresh = fresh and labs = labs] unfolding Un_empty_left by blast
  have "filter (\<lambda>i. i \<notin> ?D \<and> (case None of None \<Rightarrow> True | Some f \<Rightarrow> f (fst (rows ! i)))) [0..<length rows] =
      filter (\<lambda>i. fst (rows ! i) \<notin> set labs) [0..<length rows]" by (intro filter_cong) auto
  then show ?thesis
    using rows_search [OF b'(2) assms(6-9), of query None has_pool] b(1) b'(1)
      rows_range [OF b'(2) assms(6,7) _ assms(9), of query None radius has_pool] assms(8) by auto
qed

text \<open>
  Claim C34. Removing a row by force moves the last row into its slot but leaves the slot marked as
  deleted: when the removed row is not the last one, the search no longer finds the moved row either,
  although its label was not removed.
\<close>

theorem BruteForce_force_remove_hides:
  assumes "0 < block_size" "block_size \<le> 2 ^ 62" "distinct (map fst rows)"
    and "length rows + 2 ^ max 10 grow_bit < 2 ^ 32"
    and "(length rows + 2 ^ max 10 grow_bit) * (4 * Suc d) \<le> 2 ^ 62"
    and "0 < p" "length rows + p < 2 ^ 32" "0 < topk" "topk < 2 ^ 63" "i < length rows - 1"
  shows "\<exists>b b' out.
    fp32_add fresh k METRIC_TYPE_L2SQR False (Suc d) rows (fp32_index block_size grow_bit (Suc d) METRIC_TYPE_L2SQR False) = Inr ([], b) \<and>
    fp32_remove fresh k METRIC_TYPE_L2SQR False (Suc d) [fst (rows ! i)] FORCE_REMOVE b = Inr (1, b') \<and>
    fp32_search k METRIC_TYPE_L2SQR False (Suc d) query None topk p has_pool b' = Inr out \<and>
    nearest (nat topk) (\<lambda>j. query_dist k METRIC_TYPE_L2SQR False (Suc d) query (snd (rows ! j))) (\<lambda>j. fst (rows ! j))
      (filter (\<lambda>j. j \<noteq> i) [0..<length rows - 1]) out"
proof -
  let ?cs = "FP32_code_size METRIC_TYPE_L2SQR False (Suc d)"
  have cs: "?cs = 4 * Suc d" by (simp add: FP32_code_size_def)
  obtain b where b: "fp32_add fresh k METRIC_TYPE_L2SQR False (Suc d) rows (fp32_index block_size grow_bit (Suc d) METRIC_TYPE_L2SQR False) = Inr ([], b)"
    "fp32_block.flat.bf_rows k METRIC_TYPE_L2SQR False d rows {} b" "\<not> bf_use_attribute_filter b"
    using fp32_index_rows [OF assms(1-4) assms(5) [folded cs]] by blast
  have "length rows \<le> 2 ^ 62 div ?cs" using assms(5) unfolding cs by (simp add: less_eq_div_iff_mult_less_eq add_mult_distrib)
  then have room: "length rows \<le> fp32_block.fl_room METRIC_TYPE_L2SQR False d" using assms(4) unfolding fp32_block.fl_room_def by simp
  let ?decode = "\<lambda>codes. bindR (FP32_DecodeOne (Suc d) codes) (\<lambda>data. Inr (\<lambda>i. data ! i))" and ?enc = "FP32_EncodeOne k METRIC_TYPE_L2SQR False (Suc d)"
  have "\<exists>v'. ?decode (?enc v) = Inr v' \<and> ?enc v' = ?enc v" for v
    using FP32_Decode_Encode [of METRIC_TYPE_L2SQR False "Suc d" k v] by (simp add: FP32_EncodeOne_def FP32_code_size_def)
  then obtain b' where b': "fp32_remove fresh k METRIC_TYPE_L2SQR False (Suc d) [fst (rows ! i)] FORCE_REMOVE b = Inr (1, b')"
    "bf_total_count b' = length rows - 1" "set (lt_deleted_ids (bf_label_table b')) = {i, length rows - 1}"
    "fp32_block.flat.bf_stored METRIC_TYPE_L2SQR False d (\<lambda>j. fst ((rows[i := last rows]) ! j)) b'"
    "\<forall>j<length rows - 1. fp32_block.flat.bf_dist METRIC_TYPE_L2SQR False d
       (FP32_ComputeDist k METRIC_TYPE_L2SQR False (Suc d) (FP32_ProcessQuery k METRIC_TYPE_L2SQR False (Suc d) query)) b' j =
       query_dist k METRIC_TYPE_L2SQR False (Suc d) query (snd ((rows[i := last rows]) ! j))"
    using fp32_block.flat.force_rows [OF b(2,3) assms(10) room, where fresh = fresh and decode = ?decode] unfolding query_dist_def by blast
  have c: "filter (\<lambda>j. (case None of None \<Rightarrow> True | Some f \<Rightarrow> f j) \<and> j \<notin> set (lt_deleted_ids (bf_label_table b')) \<and>
      (case None of None \<Rightarrow> True | Some f \<Rightarrow> f (fst ((rows[i := last rows]) ! j)))) [0..<bf_total_count b'] = filter (\<lambda>j. j \<noteq> i) [0..<length rows - 1]"
    unfolding b'(2,3) by (intro filter_cong) auto
  have t: "bf_total_count b' + p < 2 ^ 32" using b'(2) assms(7) by simp
  from fp32_block.flat.SearchWithRequest_ok [OF b'(4) assms(6) t assms(8,9), where flt = None and attr_filter = None and has_pool = has_pool
      and ComputeDist = "FP32_ComputeDist k METRIC_TYPE_L2SQR False (Suc d) (FP32_ProcessQuery k METRIC_TYPE_L2SQR False (Suc d) query)", unfolded c]
  obtain out where "fp32_search k METRIC_TYPE_L2SQR False (Suc d) query None topk p has_pool b' = Inr out"
    "nearest (nat topk) (fp32_block.flat.bf_dist METRIC_TYPE_L2SQR False d
       (FP32_ComputeDist k METRIC_TYPE_L2SQR False (Suc d) (FP32_ProcessQuery k METRIC_TYPE_L2SQR False (Suc d) query)) b')
       (\<lambda>j. fst ((rows[i := last rows]) ! j)) (filter (\<lambda>j. j \<noteq> i) [0..<length rows - 1]) out" by blast
  moreover from this(2) have "nearest (nat topk) (\<lambda>j. query_dist k METRIC_TYPE_L2SQR False (Suc d) query (snd (rows ! j))) (\<lambda>j. fst (rows ! j))
      (filter (\<lambda>j. j \<noteq> i) [0..<length rows - 1]) out"
    by (rule nearest_cong) (use b'(5) in auto)
  ultimately show ?thesis using b(1) b'(1) by blast
qed

theorem BruteForce_force_remove_hides_witness:
  "\<exists>b b'.
    fp32_add (\<lambda>_. 0) first_byte_kernels METRIC_TYPE_L2SQR False 1 two_rows (fp32_index 64 10 1 METRIC_TYPE_L2SQR False) = Inr ([], b) \<and>
    fp32_remove (\<lambda>_. 0) first_byte_kernels METRIC_TYPE_L2SQR False 1 [7] FORCE_REMOVE b = Inr (1, b') \<and>
    fp32_search first_byte_kernels METRIC_TYPE_L2SQR False 1 (\<lambda>_. 0) None 5 1 False b' = Inr []"
proof -
  have "fst (two_rows ! 0) = 7" "filter (\<lambda>j. j \<noteq> 0) [0..<length two_rows - 1] = []" by (simp_all add: two_rows_def)
  then show ?thesis
    using BruteForce_force_remove_hides [of 64 two_rows 10 0 1 5 0 "\<lambda>_. 0" first_byte_kernels "\<lambda>_. 0" False]
      two_rows_ok by (auto simp: nearest_def)
qed

end
