(* ===== verification/Pruning.thy ===== *)
theory Pruning
  imports SparseGraph Heaps
begin

text \<open>
  \<open>src/impl/pruning_strategy.{h,cpp}\<close>: the selection of diverse neighbours and the connection of a new
  node to the graph. The distance between two stored vectors and the multiplication with \<open>alpha\<close>
  are parameters; the graph is any storage of the locale \<open>graph_cell\<close>.

  The selection is proved equal to a greedy pass over the candidates in the order of their
  distance, and connecting a node to keep the graph well-formed.
\<close>

section \<open>Selecting edges\<close>

type_synonym pair_dist = "inner_id \<Rightarrow> inner_id \<Rightarrow> dist result"

abbreviation edges_new :: standard_heap where
  "edges_new \<equiv> StandardHeap_new (- 1)"

abbreviation edges_push :: "dist_record \<Rightarrow> standard_heap \<Rightarrow> standard_heap result" where
  "edges_push \<equiv> StandardHeap_Push True False"

abbreviation edges_drain :: "standard_heap \<Rightarrow> (dist_record list \<times> standard_heap) result" where
  "edges_drain s \<equiv> heap_drain (StandardHeap_Size s) StandardHeap_Top (StandardHeap_Pop True) StandardHeap_Size s"

text \<open>The inner loop: no selected edge dominates the candidate.\<close>

fun is_good :: "(dist \<Rightarrow> dist) \<Rightarrow> pair_dist \<Rightarrow> dist \<Rightarrow> inner_id \<Rightarrow> dist_record list \<Rightarrow> bool result" where
  "is_good alpha_times ComputePairVectors float_query current [] = Inr True"
| "is_good alpha_times ComputePairVectors float_query current (second_pair # return_list) =
     bindR (ComputePairVectors (snd second_pair) current) (\<lambda>curdist.
       if alpha_times curdist < float_query then Inr False
       else is_good alpha_times ComputePairVectors float_query current return_list)"

text \<open>The selection loop; the first argument bounds the rounds.\<close>

fun select_loop :: "nat \<Rightarrow> (dist \<Rightarrow> dist) \<Rightarrow> pair_dist \<Rightarrow> nat \<Rightarrow> standard_heap \<Rightarrow> dist_record list \<Rightarrow> dist_record list result" where
  "select_loop 0 alpha_times ComputePairVectors max_size queue_closest return_list =
     (if StandardHeap_Size queue_closest = 0 \<or> length return_list \<ge> max_size then Inr return_list else Inl Diverges)"
| "select_loop (Suc n) alpha_times ComputePairVectors max_size queue_closest return_list =
     (if StandardHeap_Size queue_closest = 0 \<or> length return_list \<ge> max_size then Inr return_list
      else bindR (StandardHeap_Top queue_closest) (\<lambda>current_pair.
           bindR (StandardHeap_Pop True queue_closest) (\<lambda>queue_closest.
           bindR (is_good alpha_times ComputePairVectors (- fst current_pair) (snd current_pair) return_list) (\<lambda>good.
             select_loop n alpha_times ComputePairVectors max_size queue_closest
               (if good then return_list @ [current_pair] else return_list)))))"

definition select_edges_by_heuristic :: "(dist \<Rightarrow> dist) \<Rightarrow> pair_dist \<Rightarrow> nat \<Rightarrow> standard_heap \<Rightarrow> standard_heap result" where
  "select_edges_by_heuristic alpha_times ComputePairVectors max_size edges =
     (if StandardHeap_Size edges < max_size then Inr edges
      else bindR (edges_drain edges) (\<lambda>(recs, edges).
           bindR (foldR edges_push (map (\<lambda>(dist, i). (- dist, i)) recs) edges_new) (\<lambda>queue_closest.
           bindR (select_loop (StandardHeap_Size queue_closest) alpha_times ComputePairVectors max_size queue_closest []) (\<lambda>return_list.
             foldR edges_push (map (\<lambda>(dist, i). (- dist, i)) return_list) edges))))"

text \<open>The overload on a list of neighbours.\<close>

definition select_neighbors_by_heuristic ::
  "(dist \<Rightarrow> dist) \<Rightarrow> pair_dist \<Rightarrow> inner_id \<Rightarrow> nat \<Rightarrow> inner_id list \<Rightarrow> inner_id list result" where
  "select_neighbors_by_heuristic alpha_times ComputePairVectors node_id max_size neighbors =
     bindR (foldR (\<lambda>neighbor edges. bindR (ComputePairVectors node_id neighbor) (\<lambda>dist. edges_push (dist, neighbor) edges))
        neighbors edges_new) (\<lambda>edges.
     bindR (select_edges_by_heuristic alpha_times ComputePairVectors max_size edges) (\<lambda>edges.
     bindR (edges_drain edges) (\<lambda>(recs, _). Inr (map snd recs))))"

section \<open>Connecting a new node\<close>

text \<open>
  The loop over the selected neighbours, without the locks, which serialise the updates of one list.
\<close>

definition connect_back ::
  "(inner_id \<Rightarrow> inner_id list \<Rightarrow> 'g \<Rightarrow> 'g result) \<Rightarrow> ('g \<Rightarrow> inner_id \<Rightarrow> inner_id list \<Rightarrow> inner_id list result) \<Rightarrow>
     (dist \<Rightarrow> dist) \<Rightarrow> pair_dist \<Rightarrow> nat \<Rightarrow> inner_id \<Rightarrow> inner_id \<Rightarrow> 'g \<Rightarrow> 'g result" where
  "connect_back ins get alpha_times ComputePairVectors max_size cur_c selected_neighbor graph =
     (if selected_neighbor = cur_c then Inl (Throw INTERNAL_ERROR)
      else bindR (get graph selected_neighbor []) (\<lambda>neighbors.
        if length neighbors > max_size then Inl (Throw INTERNAL_ERROR)
        else if length neighbors < max_size then ins selected_neighbor (neighbors @ [cur_c]) graph
        else bindR (ComputePairVectors cur_c selected_neighbor) (\<lambda>d_max.
             bindR (edges_push (d_max, cur_c) edges_new) (\<lambda>candidates.
             bindR (foldR (\<lambda>neighbor candidates. bindR (ComputePairVectors neighbor selected_neighbor) (\<lambda>dist.
                edges_push (dist, neighbor) candidates)) neighbors candidates) (\<lambda>candidates.
             bindR (select_edges_by_heuristic alpha_times ComputePairVectors max_size candidates) (\<lambda>candidates.
             bindR (edges_drain candidates) (\<lambda>(recs, _). ins selected_neighbor (map snd recs) graph)))))))"

definition mutually_connect_new_element ::
  "(inner_id \<Rightarrow> inner_id list \<Rightarrow> 'g \<Rightarrow> 'g result) \<Rightarrow> ('g \<Rightarrow> inner_id \<Rightarrow> inner_id list \<Rightarrow> inner_id list result) \<Rightarrow>
     (dist \<Rightarrow> dist) \<Rightarrow> pair_dist \<Rightarrow> nat \<Rightarrow> inner_id \<Rightarrow> standard_heap \<Rightarrow> 'g \<Rightarrow> (inner_id \<times> 'g) result" where
  "mutually_connect_new_element ins get alpha_times ComputePairVectors max_size cur_c top_candidates graph =
     bindR (select_edges_by_heuristic alpha_times ComputePairVectors max_size top_candidates) (\<lambda>top_candidates.
     if StandardHeap_Size top_candidates > max_size then Inl (Throw INTERNAL_ERROR)
     else bindR (edges_drain top_candidates) (\<lambda>(recs, _).
       let selected_neighbors = map snd recs
       in if selected_neighbors = [] then Inl UB
          else bindR (ins cur_c selected_neighbors graph) (\<lambda>graph.
               bindR (foldR (connect_back ins get alpha_times ComputePairVectors max_size cur_c) selected_neighbors graph) (\<lambda>graph.
                 Inr (last selected_neighbors, graph)))))"

section \<open>The selection is a greedy pass\<close>

text \<open>The candidates in ascending distance; one is taken unless an earlier one dominates it.\<close>

fun greedy :: "(dist \<Rightarrow> dist) \<Rightarrow> (inner_id \<Rightarrow> inner_id \<Rightarrow> dist) \<Rightarrow> nat \<Rightarrow> dist_record list \<Rightarrow> dist_record list \<Rightarrow> dist_record list" where
  "greedy scale pd n sel [] = sel"
| "greedy scale pd n sel ((d, i) # cs) =
     (if length sel \<ge> n then sel
      else greedy scale pd n (if \<exists>(e, j)\<in>set sel. scale (pd j i) < d then sel else sel @ [(d, i)]) cs)"

lemma greedy_prefix: "\<exists>rest. greedy scale pd n sel cs = sel @ rest \<and> mset rest \<subseteq># mset cs"
proof (induction cs arbitrary: sel)
  case (Cons c cs)
  obtain d i where c: "c = (d, i)" by fastforce
  let ?sel = "if \<exists>(e, j)\<in>set sel. scale (pd j i) < d then sel else sel @ [(d, i)]"
  obtain rest where "greedy scale pd n ?sel cs = ?sel @ rest" "mset rest \<subseteq># mset cs" using Cons.IH by blast
  then show ?case using c by (auto simp: subset_mset.add_increasing2 mset_subset_eq_add_mset_cancel
        intro: subset_mset.order_trans mset_subset_eq_insertD)
qed simp

lemma greedy_length: "length (greedy scale pd n sel cs) \<le> max n (length sel)"
proof (induction cs arbitrary: sel)
  case (Cons c cs)
  obtain d i where c: "c = (d, i)" by fastforce
  show ?case
  proof (cases "n \<le> length sel")
    case False
    let ?sel = "if \<exists>(e, j)\<in>set sel. scale (pd j i) < d then sel else sel @ [(d, i)]"
    have "length (greedy scale pd n ?sel cs) \<le> max n (length ?sel)" by (rule Cons)
    also have "\<dots> \<le> n" using False by simp
    also have "greedy scale pd n ?sel cs = greedy scale pd n sel (c # cs)" using False c by simp
    finally show ?thesis by simp
  qed (simp add: c)
qed simp

text \<open>Of two selected edges the later one is not dominated by the earlier one.\<close>

definition diverse :: "(dist \<Rightarrow> dist) \<Rightarrow> (inner_id \<Rightarrow> inner_id \<Rightarrow> dist) \<Rightarrow> dist_record list \<Rightarrow> bool" where
  "diverse scale pd sel \<longleftrightarrow> sorted_wrt (\<lambda>(e, j) (d, i). \<not> scale (pd j i) < d) sel"

lemma greedy_diverse: "diverse scale pd sel \<Longrightarrow> diverse scale pd (greedy scale pd n sel cs)"
proof (induction cs arbitrary: sel)
  case (Cons c cs)
  obtain d i where c: "c = (d, i)" by fastforce
  have "diverse scale pd (if \<exists>(e, j)\<in>set sel. scale (pd j i) < d then sel else sel @ [(d, i)])"
    using Cons.prems by (auto simp: diverse_def sorted_wrt_append)
  then show ?case using Cons c by simp
qed simp

text \<open>A candidate is left out only when it is dominated or the selection is full.\<close>

lemma greedy_rejected:
  "(d, i) \<in> set cs \<Longrightarrow> (d, i) \<notin> set (greedy scale pd n sel cs) \<Longrightarrow>
   length (greedy scale pd n sel cs) \<ge> n \<or> (\<exists>(e, j)\<in>set (greedy scale pd n sel cs). scale (pd j i) < d)"
proof (induction cs arbitrary: sel)
  case (Cons c cs)
  obtain e j where c: "c = (e, j)" by fastforce
  let ?sel = "if \<exists>(f, l)\<in>set sel. scale (pd l j) < e then sel else sel @ [(e, j)]"
  show ?case
  proof (cases "n \<le> length sel")
    case False
    have g: "greedy scale pd n sel (c # cs) = greedy scale pd n ?sel cs" using False c by simp
    obtain rest where rest: "greedy scale pd n ?sel cs = ?sel @ rest" using greedy_prefix [of scale pd n ?sel cs] by blast
    show ?thesis
    proof (cases "(d, i) = c")
      case True
      then have "\<exists>(f, l)\<in>set sel. scale (pd l i) < d" using Cons.prems(2) c g rest by (auto split: if_splits)
      then show ?thesis using g rest True c by (auto split: if_splits)
    next
      case False
      then show ?thesis using Cons.IH [of ?sel] Cons.prems g by auto
    qed
  qed (use c in simp)
qed simp

abbreviation neg :: "dist_record \<Rightarrow> dist_record" where
  "neg \<equiv> \<lambda>(dist, i). (- dist, i)"

lemma is_good_eq:
  assumes "\<forall>(e, j)\<in>set sel. pair j i = Inr (pd j i)"
  shows "is_good scale pair q i (map neg sel) = Inr (\<not> (\<exists>(e, j)\<in>set sel. scale (pd j i) < q))"
  using assms by (induction sel) auto

lemma select_loop_ok:
  assumes "sh_inv True queue" "size (sh_recs queue) \<le> n" "\<forall>i\<in>S. \<forall>j\<in>S. pair i j = Inr (pd i j)"
    and "\<forall>r\<in>#sh_recs queue. snd r \<in> S" "\<forall>r\<in>set sel. snd r \<in> S"
  shows "\<exists>cs. mset cs = image_mset neg (sh_recs queue) \<and> sorted_wrt (\<lambda>x y. fst x \<le> fst y) cs \<and>
    select_loop n scale pair m queue (map neg sel) = Inr (map neg (greedy scale pd m sel cs))"
  using assms(1,2,4,5)
proof (induction n arbitrary: queue sel)
  case 0
  then have "sh_recs queue = {#}" "StandardHeap_Size queue = 0" using std.size_ok by auto
  then show ?case by simp
next
  case (Suc n)
  have size: "StandardHeap_Size queue = size (sh_recs queue)" using std.size_ok Suc.prems(1) by blast
  show ?case
  proof (cases "sh_recs queue = {#}")
    case True
    then show ?thesis using size by simp
  next
    case False
    from std.top_ok [OF Suc.prems(1) this] obtain r q where r: "StandardHeap_Top queue = Inr r" "r \<in># sh_recs queue"
      "\<forall>x\<in>#sh_recs queue. key True x \<le> key True r" "StandardHeap_Pop True queue = Inr q" "sh_inv True q"
      "sh_recs q = sh_recs queue - {#r#}" by blast
    obtain d i where di: "neg r = (d, i)" by (cases r) auto
    then have ri: "fst r = - d" "snd r = i" by (cases r; simp)+
    have iS: "i \<in> S" using r(2) Suc.prems(3) ri by blast
    let ?sel = "if \<exists>(e, j)\<in>set sel. scale (pd j i) < d then sel else sel @ [(d, i)]"
    have sz: "size (sh_recs q) \<le> n" using Suc.prems(2) r(2,6) by (simp add: size_Diff_singleton)
    have "\<forall>x\<in>#sh_recs q. snd x \<in> S" "\<forall>x\<in>set ?sel. snd x \<in> S"
      using Suc.prems(3,4) r(6) iS by (auto dest: in_diffD)
    from Suc.IH [OF r(5) sz this] obtain cs where cs: "mset cs = image_mset neg (sh_recs q)" "sorted_wrt (\<lambda>x y. fst x \<le> fst y) cs"
      "select_loop n scale pair m q (map neg ?sel) = Inr (map neg (greedy scale pd m ?sel cs))" by blast
    have "d \<le> fst x" if "x \<in> set cs" for x
    proof -
      have "x \<in># image_mset neg (sh_recs q)" using that cs(1) by (metis set_mset_mset)
      then obtain y where "y \<in># sh_recs queue" "x = neg y" using r(6) by (auto dest: in_diffD)
      then show ?thesis using r(3) ri by (cases y) (auto simp: key_def)
    qed
    then have sorted: "sorted_wrt (\<lambda>x y. fst x \<le> fst y) ((d, i) # cs)" using cs(2) by simp
    have ms: "mset ((d, i) # cs) = image_mset neg (sh_recs queue)" using cs(1) r(2,6) di
      by (metis insert_DiffM image_mset_add_mset mset.simps(2))
    have pairs: "\<forall>(e, j)\<in>set sel. pair j i = Inr (pd j i)" using assms(3) Suc.prems(4) iS by fastforce
    have good: "is_good scale pair (- fst r) (snd r) (map neg sel) = Inr (\<not> (\<exists>(e, j)\<in>set sel. scale (pd j i) < d))"
      using is_good_eq [where pair = pair and i = i and pd = pd and sel = sel, OF pairs, of scale d] ri by simp
    have r': "r = neg (d, i)" using ri by (cases r) simp
    have "map neg sel @ [r] = map neg (sel @ [(d, i)])" using r' by simp
    then have "(if \<not> (\<exists>(e, j)\<in>set sel. scale (pd j i) < d) then map neg sel @ [r] else map neg sel) = map neg ?sel" by auto
    then have "select_loop (Suc n) scale pair m queue (map neg sel) = Inr (map neg (greedy scale pd m sel ((d, i) # cs)))"
      using cs(3) good r(1,4) False size by (auto simp del: greedy.simps simp: greedy.simps(2))
    then show ?thesis using sorted ms by blast
  qed
qed

lemma neg_neg [simp]: "neg (neg r) = r"
  by (cases r) simp

lemma neg_comp [simp]: "neg \<circ> neg = (\<lambda>r. r)"
  by auto

lemma select_edges_ok:
  assumes "sh_inv True edges" "\<forall>i\<in>S. \<forall>j\<in>S. pair i j = Inr (pd i j)" "\<forall>r\<in>#sh_recs edges. snd r \<in> S"
  shows "\<exists>edges'. select_edges_by_heuristic scale pair m edges = Inr edges' \<and> sh_inv True edges' \<and>
    (if size (sh_recs edges) < m then edges' = edges
     else \<exists>cs. mset cs = sh_recs edges \<and> sorted_wrt (\<lambda>x y. fst x \<le> fst y) cs \<and> sh_recs edges' = mset (greedy scale pd m [] cs))"
proof (cases "size (sh_recs edges) < m")
  case True
  then show ?thesis using assms(1) std.size_ok [OF assms(1)] by (simp add: select_edges_by_heuristic_def)
next
  case False
  have size: "StandardHeap_Size edges = size (sh_recs edges)" by (rule std.size_ok [OF assms(1)])
  obtain recs e1 where e1: "edges_drain edges = Inr (recs, e1)" "sh_inv True e1" "sh_recs e1 = {#}" "mset recs = sh_recs edges"
    using std.drain_ok [OF assms(1), of "StandardHeap_Size edges"] size by auto
  have new: "sh_inv True edges_new" "sh_recs edges_new = {#}" by (simp_all add: sh_inv_def sh_recs_def StandardHeap_new_def is_heap_def)
  obtain q where q: "foldR edges_push (map neg recs) edges_new = Inr q" "sh_inv True q" "sh_recs q = image_mset neg (sh_recs edges)"
    using std.push_all [OF new(1), of "map neg recs"] new(2) e1(4) by auto
  have "\<forall>r\<in>#sh_recs q. snd r \<in> S" using q(3) assms(3) by auto
  from select_loop_ok [OF q(2) order_refl assms(2) this, of "[]" scale m] obtain cs where
    cs: "mset cs = image_mset neg (sh_recs q)" "sorted_wrt (\<lambda>x y. fst x \<le> fst y) cs"
      "select_loop (size (sh_recs q)) scale pair m q [] = Inr (map neg (greedy scale pd m [] cs))" by auto
  obtain e2 where e2: "foldR edges_push (map neg (map neg (greedy scale pd m [] cs))) e1 = Inr e2" "sh_inv True e2"
    "sh_recs e2 = mset (greedy scale pd m [] cs)"
    using std.push_all [OF e1(2), of "map neg (map neg (greedy scale pd m [] cs))"] e1(3) by auto
  have "mset cs = sh_recs edges" using cs(1) q(3) by (simp add: image_mset.compositionality)
  moreover have "select_edges_by_heuristic scale pair m edges = Inr e2"
    using False size e1(1) q(1) cs(3) e2(1) std.size_ok [OF q(2)] by (simp add: select_edges_by_heuristic_def)
  ultimately show ?thesis using False cs(2) e2(2,3) by auto
qed

text \<open>The choice the heuristic makes among candidate records: all of them when there are fewer
  than \<open>m\<close>, else the greedy pass over them in ascending distance.\<close>

definition heuristic_choice :: "(dist \<Rightarrow> dist) \<Rightarrow> (inner_id \<Rightarrow> inner_id \<Rightarrow> dist) \<Rightarrow> nat \<Rightarrow> dist_record multiset \<Rightarrow> inner_id list \<Rightarrow> bool" where
  "heuristic_choice scale pd m E out \<longleftrightarrow> (if size E < m then mset out = image_mset snd E
     else \<exists>cs. mset cs = E \<and> sorted_wrt (\<lambda>x y. fst x \<le> fst y) cs \<and> mset out = mset (map snd (greedy scale pd m [] cs)))"

text \<open>A candidate is left out only when the choice is full or a chosen one dominates it.\<close>

lemma heuristic_choice_left_out:
  assumes "heuristic_choice scale pd m E out" "(d, i) \<in># E" "i \<notin> set out"
  shows "m \<le> length out \<or> (\<exists>j\<in>set out. scale (pd j i) < d)"
proof (cases "size E < m")
  case True
  then have "mset out = image_mset snd E" using assms(1) by (simp add: heuristic_choice_def)
  then have "set out = snd ` set_mset E" by (metis set_image_mset set_mset_mset)
  then show ?thesis using assms(2,3) by force
next
  case False
  then obtain cs where cs: "mset cs = E" "mset out = mset (map snd (greedy scale pd m [] cs))"
    using assms(1) by (auto simp: heuristic_choice_def)
  let ?sel = "greedy scale pd m [] cs"
  have out: "set out = snd ` set ?sel" "length out = length ?sel"
    using arg_cong [OF cs(2), of set_mset] arg_cong [OF cs(2), of size] by simp_all
  have "(d, i) \<in> set cs" using assms(2) unfolding cs(1) [symmetric] by simp
  moreover have "(d, i) \<notin> set ?sel" using assms(3) out(1) by force
  ultimately have "m \<le> length ?sel \<or> (\<exists>(e, j)\<in>set ?sel. scale (pd j i) < d)" by (rule greedy_rejected)
  then show ?thesis using out by force
qed

text \<open>What every selection keeps: a part of the candidates, at most \<open>m\<close>, with a nearest one.\<close>

lemma select_edges_part:
  assumes "sh_inv True edges" "\<forall>i\<in>S. \<forall>j\<in>S. pair i j = Inr (pd i j)" "\<forall>r\<in>#sh_recs edges. snd r \<in> S" "0 < m"
  shows "\<exists>edges'. select_edges_by_heuristic scale pair m edges = Inr edges' \<and> sh_inv True edges' \<and>
    sh_recs edges' \<subseteq># sh_recs edges \<and> size (sh_recs edges') \<le> m \<and>
    (sh_recs edges \<noteq> {#} \<longrightarrow> (\<exists>r\<in>#sh_recs edges'. \<forall>x\<in>#sh_recs edges. fst r \<le> fst x)) \<and>
    (\<forall>recs. mset recs = sh_recs edges' \<longrightarrow> heuristic_choice scale pd m (sh_recs edges) (map snd recs))"
proof -
  obtain edges' where e: "select_edges_by_heuristic scale pair m edges = Inr edges'" "sh_inv True edges'"
    "if size (sh_recs edges) < m then edges' = edges
     else \<exists>cs. mset cs = sh_recs edges \<and> sorted_wrt (\<lambda>x y. fst x \<le> fst y) cs \<and> sh_recs edges' = mset (greedy scale pd m [] cs)"
    using select_edges_ok [OF assms(1-3), of scale m] by blast
  show ?thesis
  proof (cases "size (sh_recs edges) < m")
    case True
    have "\<exists>r\<in>#sh_recs edges. \<forall>x\<in>#sh_recs edges. fst r \<le> fst x" if ne: "sh_recs edges \<noteq> {#}"
    proof -
      let ?F = "fst ` set_mset (sh_recs edges)"
      have "Min ?F \<in> ?F" using ne by (intro Min_in) auto
      then obtain r where "r \<in># sh_recs edges" "Min ?F = fst r" by blast
      then show ?thesis using Min_le [of ?F] by (metis finite_imageI finite_set_mset imageI)
    qed
    moreover have "\<forall>recs. mset recs = sh_recs edges' \<longrightarrow> heuristic_choice scale pd m (sh_recs edges) (map snd recs)"
      using True e(3) by (auto simp: heuristic_choice_def)
    ultimately show ?thesis using True e by auto
  next
    case False
    then obtain cs where cs: "mset cs = sh_recs edges" "sorted_wrt (\<lambda>x y. fst x \<le> fst y) cs" "sh_recs edges' = mset (greedy scale pd m [] cs)"
      using e(3) by auto
    obtain rest where rest: "greedy scale pd m [] cs = rest" "mset rest \<subseteq># mset cs" using greedy_prefix [of scale pd m "[]" cs] by auto
    have "\<exists>r\<in>#sh_recs edges'. \<forall>x\<in>#sh_recs edges. fst r \<le> fst x" if ne: "sh_recs edges \<noteq> {#}"
    proof -
      obtain c cs' where c: "cs = c # cs'" using cs(1) ne by (cases cs) auto
      have "c \<in> set (greedy scale pd m [] cs)" using greedy_prefix [of scale pd m "[c]" cs'] assms(4) c by (cases c) auto
      moreover have "\<forall>x\<in>#sh_recs edges. fst c \<le> fst x" using cs(1,2) c by (metis list.set_intros set_ConsD set_mset_mset
            sorted_wrt.simps(2) order_refl)
      ultimately show ?thesis using cs(3) by auto
    qed
    moreover have "size (sh_recs edges') \<le> m" using greedy_length [of scale pd m "[]" cs] cs(3) by simp
    moreover have "\<forall>recs. mset recs = sh_recs edges' \<longrightarrow> heuristic_choice scale pd m (sh_recs edges) (map snd recs)"
      using False cs by (auto simp: heuristic_choice_def)
    ultimately show ?thesis using e(1,2) cs(1,3) rest by auto
  qed
qed

text \<open>The list of a selected neighbour \<open>s\<close> after the new node \<open>cur\<close> has been connected to it.\<close>

definition back_list :: "(dist \<Rightarrow> dist) \<Rightarrow> (inner_id \<Rightarrow> inner_id \<Rightarrow> dist) \<Rightarrow> nat \<Rightarrow> inner_id \<Rightarrow> inner_id \<Rightarrow> inner_id list \<Rightarrow> inner_id list \<Rightarrow> bool" where
  "back_list scale pd m cur s old ns \<longleftrightarrow> (if length old < m then ns = old @ [cur]
     else heuristic_choice scale pd m (mset (map (\<lambda>n. (pd n s, n)) (cur # old))) ns)"

text \<open>Draining a heap of edges, the nearest last.\<close>

lemma edges_drain_ok:
  assumes "sh_inv True edges"
  shows "\<exists>recs e. edges_drain edges = Inr (recs, e) \<and> mset recs = sh_recs edges \<and>
    (recs \<noteq> [] \<longrightarrow> (\<forall>x\<in>#sh_recs edges. fst (last recs) \<le> fst x))"
proof -
  obtain recs e where d: "edges_drain edges = Inr (recs, e)" "mset recs = sh_recs edges" "sorted_wrt (\<lambda>x y. key True x \<ge> key True y) recs"
    using std.drain_ok [OF assms, of "StandardHeap_Size edges"] std.size_ok [OF assms] by auto
  have "fst (last recs) \<le> fst x" if ne: "recs \<noteq> []" and x: "x \<in> set recs" for x
  proof -
    obtain ys y where y: "recs = ys @ [y]" using ne by (metis rev_exhaust)
    then show ?thesis using d(3) x by (auto simp: sorted_wrt_append key_def)
  qed
  moreover have "set_mset (sh_recs edges) = set recs" using d(2) by (metis set_mset_mset)
  ultimately show ?thesis using d(1,2) by auto
qed

context graph_cell
begin

lemma connect_back_ok:
  assumes "inv g" "0 < degree g" "cur \<in> S" "s \<in> S" "s \<noteq> cur" "S \<subseteq> {..<limit g}" "set (nbrs g s) \<subseteq> S"
    and pairs: "\<forall>i\<in>S. \<forall>j\<in>S. pair i j = Inr (pd i j)"
  shows "\<exists>g' ns. connect_back ins get scale pair (degree g) cur s g = Inr g' \<and> inv g' \<and> degree g' = degree g \<and> limit g' = limit g \<and>
    (\<forall>x. node g' x \<longleftrightarrow> node g x \<or> x = s) \<and> nbrs g' = (nbrs g)(s := ns) \<and> set ns \<subseteq> insert cur (set (nbrs g s)) \<and>
    back_list scale pd (degree g) cur s (nbrs g s) ns"
proof -
  let ?N = "nbrs g s"
  have low: "cur < limit g" "s < limit g" using assms(3,4,6) by auto
  have get: "get g s [] = Inr ?N" using get_nil [OF assms(1) low(2)] .
  have lim: "\<forall>n\<in>set ?N. n < limit g" using nbrs_limit assms(1) by blast
  show ?thesis
  proof (cases "length ?N < degree g")
    case True
    then obtain g' where "ins s (?N @ [cur]) g = Inr g'" "inv g'" "nbrs g' = (nbrs g)(s := ?N @ [cur])" "degree g' = degree g" "limit g' = limit g"
      "\<forall>x. node g' x \<longleftrightarrow> node g x \<or> x = s"
      using ins_ok [OF assms(1) low(2), of "?N @ [cur]"] lim low(1) by auto
    then show ?thesis using True get assms(5) by (auto simp: connect_back_def back_list_def)
  next
    case False
    then have len: "length ?N = degree g" using degree_ok [OF assms(1), of s] by simp
    have new: "sh_inv True edges_new" "sh_recs edges_new = {#}" by (simp_all add: sh_inv_def sh_recs_def StandardHeap_new_def is_heap_def)
    obtain c1 where c1: "edges_push (pd cur s, cur) edges_new = Inr c1" "sh_inv True c1" "sh_recs c1 = {#(pd cur s, cur)#}"
      using std.push_ok [OF new(1), of "(pd cur s, cur)"] new(2) by auto
    have "foldR (\<lambda>neighbor candidates. bindR (pair neighbor s) (\<lambda>dist. edges_push (dist, neighbor) candidates)) ns h =
        foldR edges_push (map (\<lambda>n. (pd n s, n)) ns) h" if "set ns \<subseteq> S" for ns h
      using that pairs assms(4) by (induction ns arbitrary: h) (auto intro!: bindR_cong)
    then obtain c2 where c2: "foldR (\<lambda>neighbor candidates. bindR (pair neighbor s) (\<lambda>dist. edges_push (dist, neighbor) candidates)) ?N c1 = Inr c2"
      "sh_inv True c2" "sh_recs c2 = {#(pd cur s, cur)#} + mset (map (\<lambda>n. (pd n s, n)) ?N)"
      using std.push_all [OF c1(2), of "map (\<lambda>n. (pd n s, n)) ?N"] c1(3) assms(7) by auto
    have "\<forall>r\<in>#sh_recs c2. snd r \<in> S" using c2(3) assms(3,7) by auto
    from select_edges_part [OF c2(2) pairs this assms(2), of scale] obtain c3 where
      c3: "select_edges_by_heuristic scale pair (degree g) c2 = Inr c3" "sh_inv True c3" "sh_recs c3 \<subseteq># sh_recs c2" "size (sh_recs c3) \<le> degree g"
      "\<forall>recs. mset recs = sh_recs c3 \<longrightarrow> heuristic_choice scale pd (degree g) (sh_recs c2) (map snd recs)"
      by blast
    obtain recs e where rs: "edges_drain c3 = Inr (recs, e)" "mset recs = sh_recs c3" using edges_drain_ok [OF c3(2)] by blast
    let ?ns = "map snd recs"
    have sub: "set ?ns \<subseteq> insert cur (set ?N)"
    proof -
      have "set recs \<subseteq> set_mset (sh_recs c2)" using rs(2) c3(3) by (metis set_mset_mono set_mset_mset)
      then show ?thesis using c2(3) by auto
    qed
    have "length recs = size (sh_recs c3)" using rs(2) by (metis size_mset)
    then obtain g' where g': "ins s ?ns g = Inr g'" "inv g'" "nbrs g' = (nbrs g)(s := ?ns)" "degree g' = degree g" "limit g' = limit g"
      "\<forall>x. node g' x \<longleftrightarrow> node g x \<or> x = s"
      using ins_ok [OF assms(1) low(2), of ?ns] sub lim low(1) c3(4) by fastforce
    have "pair cur s = Inr (pd cur s)" using pairs assms(3,4) by simp
    then have "connect_back ins get scale pair (degree g) cur s g = Inr g'"
      using get assms(5) len c1(1) c2(1) c3(1) rs(1) g'(1) by (simp add: connect_back_def)
    moreover have "back_list scale pd (degree g) cur s ?N ?ns" using c3(5) rs(2) c2(3) False by (simp add: back_list_def)
    ultimately show ?thesis using g' sub by blast
  qed
qed

lemma connect_all_ok:
  assumes "inv g" "0 < degree g" "cur \<in> S" "\<forall>s\<in>set sel. s \<in> S \<and> s \<noteq> cur \<and> set (nbrs g s) \<subseteq> S" "distinct sel"
    and "S \<subseteq> {..<limit g}" and pairs: "\<forall>i\<in>S. \<forall>j\<in>S. pair i j = Inr (pd i j)"
  shows "\<exists>g'. foldR (connect_back ins get scale pair (degree g) cur) sel g = Inr g' \<and> inv g' \<and> degree g' = degree g \<and> limit g' = limit g \<and>
    (\<forall>x. node g' x \<longleftrightarrow> node g x \<or> x \<in> set sel) \<and>
    (\<forall>x. x \<notin> set sel \<longrightarrow> nbrs g' x = nbrs g x) \<and>
    (\<forall>x\<in>set sel. set (nbrs g' x) \<subseteq> insert cur (set (nbrs g x)) \<and>
       back_list scale pd (degree g) cur x (nbrs g x) (nbrs g' x))"
  using assms
proof (induction sel arbitrary: g)
  case (Cons s sel)
  have s: "s \<in> S" "s \<noteq> cur" "set (nbrs g s) \<subseteq> S" using Cons.prems(4) by auto
  obtain g1 ns where g1: "connect_back ins get scale pair (degree g) cur s g = Inr g1" "inv g1" "degree g1 = degree g" "limit g1 = limit g"
    "\<forall>x. node g1 x \<longleftrightarrow> node g x \<or> x = s"
    "nbrs g1 = (nbrs g)(s := ns)" "set ns \<subseteq> insert cur (set (nbrs g s))"
    "back_list scale pd (degree g) cur s (nbrs g s) ns"
    using connect_back_ok [OF Cons.prems(1-3) s(1,2) Cons.prems(6) s(3) Cons.prems(7), of scale] by blast
  have apart: "s \<notin> set sel" using Cons.prems(5) by simp
  then have "\<forall>x\<in>set sel. x \<in> S \<and> x \<noteq> cur \<and> set (nbrs g1 x) \<subseteq> S" using Cons.prems(4) g1(6) by auto
  then have "\<exists>g'. foldR (connect_back ins get scale pair (degree g1) cur) sel g1 = Inr g' \<and> inv g' \<and> degree g' = degree g1 \<and> limit g' = limit g1 \<and>
    (\<forall>x. node g' x \<longleftrightarrow> node g1 x \<or> x \<in> set sel) \<and> (\<forall>x. x \<notin> set sel \<longrightarrow> nbrs g' x = nbrs g1 x) \<and>
    (\<forall>x\<in>set sel. set (nbrs g' x) \<subseteq> insert cur (set (nbrs g1 x)) \<and>
       back_list scale pd (degree g1) cur x (nbrs g1 x) (nbrs g' x))"
    using Cons.prems g1(3,4) by (intro Cons.IH [OF g1(2)]) auto
  then obtain g' where g': "foldR (connect_back ins get scale pair (degree g) cur) sel g1 = Inr g'" "inv g'" "degree g' = degree g" "limit g' = limit g"
    "\<forall>x. node g' x \<longleftrightarrow> node g1 x \<or> x \<in> set sel" "\<forall>x. x \<notin> set sel \<longrightarrow> nbrs g' x = nbrs g1 x"
    "\<forall>x\<in>set sel. set (nbrs g' x) \<subseteq> insert cur (set (nbrs g1 x)) \<and> back_list scale pd (degree g) cur x (nbrs g1 x) (nbrs g' x)"
    unfolding g1(3,4) by blast
  have "\<forall>x. x \<notin> set (s # sel) \<longrightarrow> nbrs g' x = nbrs g x" "nbrs g' s = ns" "\<forall>x\<in>set sel. nbrs g1 x = nbrs g x"
    using g'(6) g1(6) apart by auto
  then show ?case using g' g1(1,5,7,8) by (intro exI [of _ g']) auto
qed simp

lemma first_ins:
  assumes "inv g" "cur < limit g" "S \<subseteq> {..<limit g}"
  shows "\<forall>sel. length sel \<le> degree g \<and> set sel \<subseteq> S \<longrightarrow> (\<exists>g1. ins cur sel g = Inr g1 \<and> inv g1 \<and> nbrs g1 = (nbrs g)(cur := sel) \<and>
    degree g1 = degree g \<and> S \<subseteq> {..<limit g1} \<and> (\<forall>x. node g1 x \<longleftrightarrow> node g x \<or> x = cur))"
proof (intro allI impI, elim conjE)
  fix sel assume sel: "length sel \<le> degree g" "set sel \<subseteq> S"
  have "\<forall>n\<in>set sel. n < limit g" using assms(3) sel(2) by auto
  from ins_ok [OF assms(1,2) this sel(1)] show "\<exists>g1. ins cur sel g = Inr g1 \<and> inv g1 \<and> nbrs g1 = (nbrs g)(cur := sel) \<and>
    degree g1 = degree g \<and> S \<subseteq> {..<limit g1} \<and> (\<forall>x. node g1 x \<longleftrightarrow> node g x \<or> x = cur)" using assms(3) by auto
qed

lemma mutually_connect_ok:
  assumes first: "\<forall>sel. length sel \<le> degree g \<and> set sel \<subseteq> S \<longrightarrow> (\<exists>g1. ins cur sel g = Inr g1 \<and> inv g1 \<and> nbrs g1 = (nbrs g)(cur := sel) \<and>
      degree g1 = degree g \<and> S \<subseteq> {..<limit g1} \<and> (\<forall>x. node g1 x \<longleftrightarrow> node g x \<or> x = cur))"
    and "0 < degree g" "cur \<in> S" "sh_inv True cands" "sh_recs cands \<noteq> {#}"
    and cands: "\<forall>r\<in>#sh_recs cands. snd r \<in> S \<and> snd r \<noteq> cur \<and> set (nbrs g (snd r)) \<subseteq> S" "distinct (map snd cs)" "mset cs = sh_recs cands"
    and pairs: "\<forall>i\<in>S. \<forall>j\<in>S. pair i j = Inr (pd i j)"
  shows "\<exists>sel g'. mutually_connect_new_element ins get scale pair (degree g) cur cands g = Inr (last sel, g') \<and> inv g' \<and>
    sel \<noteq> [] \<and> mset sel \<subseteq># image_mset snd (sh_recs cands) \<and>
    (\<exists>d. (d, last sel) \<in># sh_recs cands \<and> (\<forall>x\<in>#sh_recs cands. d \<le> fst x)) \<and>
    degree g' = degree g \<and> S \<subseteq> {..<limit g'} \<and> (\<forall>x. node g' x \<longleftrightarrow> node g x \<or> x = cur \<or> x \<in> set sel) \<and> nbrs g' cur = sel \<and>
    (\<forall>x. x \<noteq> cur \<and> x \<notin> set sel \<longrightarrow> nbrs g' x = nbrs g x) \<and>
    (\<forall>x\<in>set sel. set (nbrs g' x) \<subseteq> insert cur (set (nbrs g x)) \<and>
       back_list scale pd (degree g) cur x (nbrs g x) (nbrs g' x)) \<and>
    heuristic_choice scale pd (degree g) (sh_recs cands) sel"
proof -
  have S: "\<forall>r\<in>#sh_recs cands. snd r \<in> S" using cands(1) by auto
  obtain e where e: "select_edges_by_heuristic scale pair (degree g) cands = Inr e" "sh_inv True e" "sh_recs e \<subseteq># sh_recs cands"
    "size (sh_recs e) \<le> degree g" "\<exists>r\<in>#sh_recs e. \<forall>x\<in>#sh_recs cands. fst r \<le> fst x"
    "\<forall>recs. mset recs = sh_recs e \<longrightarrow> heuristic_choice scale pd (degree g) (sh_recs cands) (map snd recs)"
    using select_edges_part [OF assms(4) pairs S assms(2), of scale] assms(5) by blast
  obtain recs e' where rs: "edges_drain e = Inr (recs, e')" "mset recs = sh_recs e"
    "recs \<noteq> [] \<longrightarrow> (\<forall>x\<in>#sh_recs e. fst (last recs) \<le> fst x)" using edges_drain_ok [OF e(2)] by blast
  let ?sel = "map snd recs"
  have ne: "recs \<noteq> []" using e(5) rs(2) by auto
  have "mset ?sel = image_mset snd (sh_recs e)" using rs(2) by (metis mset_map)
  then have sub: "mset ?sel \<subseteq># image_mset snd (sh_recs cands)" using image_mset_subseteq_mono [OF e(3), of snd] by metis
  then have "mset ?sel \<subseteq># mset (map snd cs)" using cands(3) by (metis mset_map)
  then have dist: "distinct ?sel" using cands(2) by (rule distinct_submset)
  have mem: "set_mset (sh_recs e) \<subseteq> set_mset (sh_recs cands)" using e(3) by (rule set_mset_mono)
  have sel: "\<forall>s\<in>set ?sel. s \<in> S \<and> s \<noteq> cur \<and> set (nbrs g s) \<subseteq> S" using cands(1) mem rs(2) by (metis (no_types, lifting) imageE list.set_map set_mset_mset subsetD)
  have lastr: "last recs \<in># sh_recs e" using ne rs(2) by (metis last_in_set set_mset_mset)
  have near: "(fst (last recs), last ?sel) \<in># sh_recs cands \<and> (\<forall>x\<in>#sh_recs cands. fst (last recs) \<le> fst x)"
  proof
    show "(fst (last recs), last ?sel) \<in># sh_recs cands" using subsetD [OF mem lastr] ne by (simp add: last_map)
    obtain r where "r \<in># sh_recs e" "\<forall>x\<in>#sh_recs cands. fst r \<le> fst x" using e(5) by blast
    then show "\<forall>x\<in>#sh_recs cands. fst (last recs) \<le> fst x" using rs(3) ne by (meson order_trans)
  qed
  have "length ?sel \<le> degree g" using e(4) rs(2) by (metis length_map size_mset)
  moreover have "set ?sel \<subseteq> S" using sel by blast
  ultimately obtain g1 where g1: "ins cur ?sel g = Inr g1" "inv g1" "nbrs g1 = (nbrs g)(cur := ?sel)" "degree g1 = degree g"
    "S \<subseteq> {..<limit g1}" "\<forall>x. node g1 x \<longleftrightarrow> node g x \<or> x = cur" using first by blast
  have sel1: "\<forall>s\<in>set ?sel. s \<in> S \<and> s \<noteq> cur \<and> set (nbrs g1 s) \<subseteq> S" using sel g1(3) by auto
  have "0 < degree g1" using assms(2) g1(4) by simp
  from connect_all_ok [OF g1(2) this assms(3) sel1 dist g1(5) pairs, of scale]
  obtain g' where g': "foldR (connect_back ins get scale pair (degree g) cur) ?sel g1 = Inr g'" "inv g'" "degree g' = degree g" "limit g' = limit g1"
    "\<forall>x. x \<notin> set ?sel \<longrightarrow> nbrs g' x = nbrs g1 x"
    "\<forall>x\<in>set ?sel. set (nbrs g' x) \<subseteq> insert cur (set (nbrs g1 x)) \<and> back_list scale pd (degree g) cur x (nbrs g1 x) (nbrs g' x)"
    "\<forall>x. node g' x \<longleftrightarrow> node g1 x \<or> x \<in> set ?sel"
    unfolding g1(4) by blast
  have "cur \<notin> set ?sel" using sel by auto
  then have "nbrs g' cur = ?sel" "\<forall>x\<in>set ?sel. nbrs g1 x = nbrs g x" using g'(5) g1(3) by auto
  moreover have "mutually_connect_new_element ins get scale pair (degree g) cur cands g = Inr (last ?sel, g')"
    using e(1,4) std.size_ok [OF e(2)] rs(1) ne g1(1) g'(1) by (simp add: mutually_connect_new_element_def Let_def)
  moreover have "heuristic_choice scale pd (degree g) (sh_recs cands) ?sel" using e(6) rs(2) by blast
  ultimately show ?thesis using g' g1(3,5,6) ne sub near by (intro exI [of _ ?sel] exI [of _ g']) auto
qed

end

section \<open>Properties\<close>

lemma push_neighbors_ok:
  assumes "\<forall>n\<in>set ns. pair node n = Inr (pd node n)"
  shows "\<exists>edges. foldR (\<lambda>neighbor edges. bindR (pair node neighbor) (\<lambda>dist. edges_push (dist, neighbor) edges)) ns edges_new = Inr edges \<and>
    sh_inv True edges \<and> sh_recs edges = mset (map (\<lambda>n. (pd node n, n)) ns)"
proof -
  have new: "sh_inv True edges_new" "sh_recs edges_new = {#}" by (simp_all add: sh_inv_def sh_recs_def StandardHeap_new_def is_heap_def)
  have "foldR (\<lambda>neighbor edges. bindR (pair node neighbor) (\<lambda>dist. edges_push (dist, neighbor) edges)) ns h =
      foldR edges_push (map (\<lambda>n. (pd node n, n)) ns) h" for h
    using assms by (induction ns arbitrary: h) (auto intro!: bindR_cong)
  then show ?thesis using std.push_all [OF new(1), of "map (\<lambda>n. (pd node n, n)) ns"] new(2) by auto
qed

lemma select_neighbors_part:
  assumes pairs: "\<forall>i\<in>S. \<forall>j\<in>S. pair i j = Inr (pd i j)" and "node \<in> S" "set ns \<subseteq> S" "0 < m"
  shows "\<exists>out. select_neighbors_by_heuristic scale pair node m ns = Inr out \<and> mset out \<subseteq># mset ns \<and> length out \<le> m"
proof -
  have "\<forall>n\<in>set ns. pair node n = Inr (pd node n)" using assms by blast
  from push_neighbors_ok [where pair = pair and node = node and pd = pd and ns = ns, OF this] obtain edges where e: "foldR (\<lambda>neighbor edges. bindR (pair node neighbor)
      (\<lambda>dist. edges_push (dist, neighbor) edges)) ns edges_new = Inr edges" "sh_inv True edges"
    "sh_recs edges = mset (map (\<lambda>n. (pd node n, n)) ns)" by blast
  have "\<forall>r\<in>#sh_recs edges. snd r \<in> S" using e(3) assms(3) by auto
  from select_edges_part [OF e(2) pairs this assms(4), of scale] obtain e2 where
    e2: "select_edges_by_heuristic scale pair m edges = Inr e2" "sh_inv True e2" "sh_recs e2 \<subseteq># sh_recs edges" "size (sh_recs e2) \<le> m" by blast
  obtain recs e3 where rs: "edges_drain e2 = Inr (recs, e3)" "mset recs = sh_recs e2" using edges_drain_ok [OF e2(2)] by blast
  have "image_mset snd (mset recs) \<subseteq># image_mset snd (sh_recs edges)" using e2(3) rs(2) by (metis image_mset_subseteq_mono)
  then have "mset (map snd recs) \<subseteq># mset ns" using e(3) by (simp add: comp_def image_mset.compositionality)
  moreover have "length recs \<le> m" using e2(4) rs(2) by (metis size_mset)
  ultimately show ?thesis using e(1) e2(1) rs(1) by (simp add: select_neighbors_by_heuristic_def)
qed

lemma drained_sorted:
  assumes "sh_inv True edges" "\<forall>r\<in>#sh_recs edges. fst r = f (snd r)"
  shows "\<exists>recs e. edges_drain edges = Inr (recs, e) \<and> mset recs = sh_recs edges \<and> sorted_wrt (\<lambda>x y. f y \<le> f x) (map snd recs)"
proof -
  obtain recs e where d: "edges_drain edges = Inr (recs, e)" "mset recs = sh_recs edges" "sorted_wrt (\<lambda>x y. key True x \<ge> key True y) recs"
    using std.drain_ok [OF assms(1), of "StandardHeap_Size edges"] std.size_ok [OF assms(1)] by auto
  have "\<forall>r\<in>set recs. fst r = f (snd r)" using assms(2) d(2) by (metis set_mset_mset)
  then have "sorted_wrt (\<lambda>x y. f (snd y) \<le> f (snd x)) recs" using d(3)
    by (intro sorted_wrt_mono_rel [OF _ d(3)]) (auto simp: key_def)
  then show ?thesis using d(1,2) by (auto simp: sorted_wrt_map)
qed

text \<open>
  Claim C13. The selection among the neighbours of a node never fails and returns the far ones
  first. Fewer than \<open>m\<close> neighbours are all kept. Otherwise the result is a greedy pass over the
  neighbours in ascending distance: at most \<open>m\<close> are kept, no kept neighbour is dominated by a
  nearer kept one, and one that is left out is dominated or the selection is full.
\<close>

theorem select_neighbors_greedy:
  assumes pairs: "\<forall>i\<in>insert node (set ns). \<forall>j\<in>insert node (set ns). pair i j = Inr (pd i j)"
  shows "\<exists>out. select_neighbors_by_heuristic scale pair node m ns = Inr out \<and> sorted_wrt (\<lambda>x y. pd node y \<le> pd node x) out \<and>
    (if length ns < m then mset out = mset ns
     else \<exists>sel cs. mset cs = mset (map (\<lambda>n. (pd node n, n)) ns) \<and> sorted_wrt (\<lambda>x y. fst x \<le> fst y) cs \<and>
       sel = greedy scale pd m [] cs \<and> mset out = mset (map snd sel) \<and> length out \<le> m \<and> diverse scale pd sel \<and>
       (\<forall>n\<in>set ns. n \<notin> set out \<longrightarrow> length out = m \<or> (\<exists>j\<in>set out. scale (pd j n) < pd node n)))"
proof -
  let ?rec = "\<lambda>n. (pd node n, n)"
  obtain edges where e: "foldR (\<lambda>neighbor edges. bindR (pair node neighbor) (\<lambda>dist. edges_push (dist, neighbor) edges)) ns edges_new = Inr edges"
    "sh_inv True edges" "sh_recs edges = mset (map ?rec ns)" using push_neighbors_ok [of ns pair node pd] pairs by auto
  have S: "\<forall>r\<in>#sh_recs edges. snd r \<in> insert node (set ns)" using e(3) by auto
  obtain f where f: "select_edges_by_heuristic scale pair m edges = Inr f" "sh_inv True f"
    "if size (sh_recs edges) < m then f = edges
     else \<exists>cs. mset cs = sh_recs edges \<and> sorted_wrt (\<lambda>x y. fst x \<le> fst y) cs \<and> sh_recs f = mset (greedy scale pd m [] cs)"
    using select_edges_ok [OF e(2) pairs S, of scale m] by blast
  have len: "size (sh_recs edges) = length ns" using e(3) by simp
  have sub: "sh_recs f \<subseteq># sh_recs edges" using f(3) greedy_prefix [of scale pd m "[]"]
    by (metis append_Nil subset_mset.order_refl)
  then have recf: "\<forall>r\<in>#sh_recs f. fst r = pd node (snd r)" using e(3) by (auto dest!: set_mset_mono)
  obtain recs g where d: "edges_drain f = Inr (recs, g)" "mset recs = sh_recs f" "sorted_wrt (\<lambda>x y. pd node y \<le> pd node x) (map snd recs)"
    using drained_sorted [OF f(2) recf] by blast
  have run: "select_neighbors_by_heuristic scale pair node m ns = Inr (map snd recs)"
    using e(1) f(1) d(1) by (simp add: select_neighbors_by_heuristic_def)
  show ?thesis
  proof (cases "length ns < m")
    case True
    then have "mset (map snd recs) = image_mset snd (mset (map ?rec ns))" using f(3) len d(2) e(3) by (metis mset_map)
    then show ?thesis using run d(3) True by (auto simp: image_mset.compositionality comp_def)
  next
    case False
    then obtain cs where cs: "mset cs = mset (map ?rec ns)" "sorted_wrt (\<lambda>x y. fst x \<le> fst y) cs" "mset recs = mset (greedy scale pd m [] cs)"
      using f(3) len d(2) e(3) by auto
    let ?sel = "greedy scale pd m [] cs"
    have out: "mset (map snd recs) = mset (map snd ?sel)" "set recs = set ?sel" "length recs = length ?sel"
      using cs(3) by (metis mset_map, metis set_mset_mset, metis size_mset)
    have sl: "length ?sel \<le> m" using greedy_length [of scale pd m "[]" cs] by simp
    have "length recs = m \<or> (\<exists>j\<in>set (map snd recs). scale (pd j n) < pd node n)" if n: "n \<in> set ns" "n \<notin> set (map snd recs)" for n
    proof -
      have "set cs = ?rec ` set ns" using arg_cong [OF cs(1), of set_mset] by simp
      then have "?rec n \<in> set cs" using n(1) by simp
      moreover have "?rec n \<notin> set ?sel" using n(2) unfolding out(2) [symmetric] set_map by (metis image_eqI snd_conv)
      ultimately have "length ?sel \<ge> m \<or> (\<exists>(e, j)\<in>set recs. scale (pd j n) < pd node n)"
        unfolding out(2) by (rule greedy_rejected)
      then show ?thesis using out(3) sl by force
    qed
    moreover have "diverse scale pd ?sel" by (rule greedy_diverse) (simp add: diverse_def)
    ultimately show ?thesis using run d(3) False cs(1,2) out(1,3) sl by (intro exI [of _ "map snd recs"]) auto
  qed
qed

text \<open>Points on a line: from the neighbours 1, 2 and -3 of 0, the point 2 is dominated by 1.\<close>

theorem select_neighbors_greedy_witness:
  "\<exists>out. select_neighbors_by_heuristic (\<lambda>d. d) (\<lambda>i j. Inr (if i = j then 0 else if i + j = 3 then 1 else int (i + j))) 0 2 [1, 2, 3] = Inr out \<and>
    length out \<le> 2"
  using select_neighbors_greedy [of 0 "[1, 2, 3]" "\<lambda>i j. Inr (if i = j then 0 else if i + j = 3 then 1 else int (i + j))"
      "\<lambda>i j. if i = j then 0 else if i + j = 3 then 1 else int (i + j)" "\<lambda>d. d" 2] by auto

text \<open>
  Claim C12. Connecting a new node to a sparse graph never fails when there is a candidate, and
  the graph stays well-formed and within its degree. The list of the new node is the choice of
  the heuristic among the candidates, not empty and without duplicates. A selected neighbour
  with room gets the new node appended. A full one gets the choice of the heuristic among its
  old list and the new node by their distances to it; the new node is missing there only when
  that list is full again or one of its members dominates the new node. All other lists are unchanged.
\<close>

theorem mutually_connect_sparse:
  assumes "sg_inv g" "0 < gi_maximum_degree g" "cur < sg_limit g" "foldR edges_push cs edges_new = Inr cands" "cs \<noteq> []"
    and "\<forall>(d, i)\<in>set cs. i < sg_limit g \<and> i \<noteq> cur" "distinct (map snd cs)"
    and "\<forall>i\<in>{..<sg_limit g}. \<forall>j\<in>{..<sg_limit g}. pair i j = Inr (pd i j)"
  shows "\<exists>next_entry sel g'. mutually_connect_new_element Sparse_InsertNeighborsById Sparse_GetNeighbors scale pair (gi_maximum_degree g) cur cands g =
      Inr (next_entry, g') \<and> sg_inv g' \<and> (\<forall>x. length (sg_nbrs g' x) \<le> gi_maximum_degree g) \<and>
    sg_nbrs g' cur = sel \<and> sel \<noteq> [] \<and> distinct sel \<and> heuristic_choice scale pd (gi_maximum_degree g) (mset cs) sel \<and>
    (\<forall>x. x \<noteq> cur \<and> x \<notin> set sel \<longrightarrow> sg_nbrs g' x = sg_nbrs g x) \<and>
    (\<forall>x\<in>set sel. if length (sg_nbrs g x) < gi_maximum_degree g then sg_nbrs g' x = sg_nbrs g x @ [cur]
       else heuristic_choice scale pd (gi_maximum_degree g) (mset (map (\<lambda>n. (pd n x, n)) (cur # sg_nbrs g x))) (sg_nbrs g' x) \<and>
         (cur \<in> set (sg_nbrs g' x) \<or> length (sg_nbrs g' x) = gi_maximum_degree g \<or> (\<exists>j\<in>set (sg_nbrs g' x). scale (pd j cur) < pd cur x)))"
proof -
  have new: "sh_inv True edges_new" "sh_recs edges_new = {#}" by (simp_all add: sh_inv_def sh_recs_def StandardHeap_new_def is_heap_def)
  have c: "sh_inv True cands" "mset cs = sh_recs cands" using std.push_all [OF new(1), of cs] new(2) assms(4) by auto
  have ne: "sh_recs cands \<noteq> {#}" using c(2) assms(5) by (metis mset_zero_iff)
  have ids: "\<forall>r\<in>#sh_recs cands. snd r \<in> {..<sg_limit g} \<and> snd r \<noteq> cur \<and> set (sg_nbrs g (snd r)) \<subseteq> {..<sg_limit g}"
    using assms(6) sparse_cell.nbrs_limit [OF assms(1)] unfolding c(2) [symmetric] by auto
  note first = sparse_cell.first_ins [OF assms(1,3) subset_refl]
  have inlim: "cur \<in> {..<sg_limit g}" using assms(3) by simp
  obtain sel g' where r: "mutually_connect_new_element Sparse_InsertNeighborsById Sparse_GetNeighbors scale pair (gi_maximum_degree g) cur cands g =
      Inr (last sel, g')" "sg_inv g'" "sel \<noteq> []" "mset sel \<subseteq># image_mset snd (sh_recs cands)"
    "gi_maximum_degree g' = gi_maximum_degree g" "sg_nbrs g' cur = sel"
    "\<forall>x. x \<noteq> cur \<and> x \<notin> set sel \<longrightarrow> sg_nbrs g' x = sg_nbrs g x"
    "\<forall>x\<in>set sel. back_list scale pd (gi_maximum_degree g) cur x (sg_nbrs g x) (sg_nbrs g' x)"
    "heuristic_choice scale pd (gi_maximum_degree g) (mset cs) sel"
    using sparse_cell.mutually_connect_ok [OF first assms(2) inlim c(1) ne ids assms(7) c(2) assms(8), of scale] unfolding c(2) by blast
  have sub: "mset sel \<subseteq># mset (map snd cs)" using r(4) c(2) by (metis mset_map)
  then have "distinct sel" using distinct_submset [OF sub assms(7)] by blast
  moreover have len: "length (sg_nbrs g' x) \<le> gi_maximum_degree g" for x using sparse_cell.degree_ok [OF r(2), of x] r(5) by simp
  moreover have "if length (sg_nbrs g x) < gi_maximum_degree g then sg_nbrs g' x = sg_nbrs g x @ [cur]
       else heuristic_choice scale pd (gi_maximum_degree g) (mset (map (\<lambda>n. (pd n x, n)) (cur # sg_nbrs g x))) (sg_nbrs g' x) \<and>
         (cur \<in> set (sg_nbrs g' x) \<or> length (sg_nbrs g' x) = gi_maximum_degree g \<or> (\<exists>j\<in>set (sg_nbrs g' x). scale (pd j cur) < pd cur x))"
    if "x \<in> set sel" for x
  proof -
    have b: "back_list scale pd (gi_maximum_degree g) cur x (sg_nbrs g x) (sg_nbrs g' x)" using r(8) that by blast
    then show ?thesis using heuristic_choice_left_out [of scale pd _ _ "sg_nbrs g' x" "pd cur x" cur] len [of x]
      unfolding back_list_def by (simp split: if_splits) fastforce
  qed
  ultimately show ?thesis using r(1-3,6,7,9) by blast
qed

text \<open>The first node of a graph of degree 4 gets the two candidates 1 and 2, and both get it in turn.\<close>

theorem mutually_connect_sparse_witness:
  "\<exists>g0 cands ret g'. SparseGraphDataCell_new 4 8 True False True = Inr g0 \<and> foldR edges_push [(3, 1), (2, 2)] edges_new = Inr cands \<and>
    mutually_connect_new_element Sparse_InsertNeighborsById Sparse_GetNeighbors (\<lambda>d. d) (\<lambda>i j. Inr (int (i + j))) 4 0 cands g0 = Inr (ret, g') \<and>
    mset (sg_nbrs g' 0) = {#1, 2#} \<and> sg_nbrs g' 1 = [0] \<and> sg_nbrs g' 2 = [0]"
proof -
  obtain g0 where g0: "SparseGraphDataCell_new 4 8 True False True = Inr g0" by (simp add: SparseGraphDataCell_new_def)
  have inv: "sg_inv g0" "gi_maximum_degree g0 = 4" "sg_limit g0 = 2 ^ 24" "\<And>x. sg_nbrs g0 x = []"
    using g0 by (auto simp: SparseGraphDataCell_new_def Let_def sg_inv_def sg_nbrs_def sg_limit_def ver_def)
  have new: "sh_inv True edges_new" by (simp add: sh_inv_def StandardHeap_new_def is_heap_def)
  obtain cands where cands: "foldR edges_push [(3, 1), (2, 2)] edges_new = Inr cands"
    using std.push_all [OF new, of "[(3, 1), (2, 2)]"] by blast
  have pre: "0 < gi_maximum_degree g0" "0 < sg_limit g0" "[(3, 1), (2, 2)] \<noteq> ([] :: dist_record list)"
    "\<forall>(d, i)\<in>set [(3 :: dist, 1), (2, 2)]. i < sg_limit g0 \<and> i \<noteq> 0" "distinct (map snd [(3 :: dist, 1 :: nat), (2, 2)])"
    "\<forall>i\<in>{..<sg_limit g0}. \<forall>j\<in>{..<sg_limit g0}. Inr (int (i + j)) = (Inr (int (i + j)) :: dist result)"
    using inv(2,3) by simp_all
  obtain ret g' where r: "mutually_connect_new_element Sparse_InsertNeighborsById Sparse_GetNeighbors (\<lambda>d. d) (\<lambda>i j. Inr (int (i + j)))
      (gi_maximum_degree g0) 0 cands g0 = Inr (ret, g')"
    and sel: "heuristic_choice (\<lambda>d. d) (\<lambda>i j. int (i + j)) (gi_maximum_degree g0) (mset [(3, 1), (2, 2)]) (sg_nbrs g' 0)"
    and bk: "\<forall>x\<in>set (sg_nbrs g' 0). if length (sg_nbrs g0 x) < gi_maximum_degree g0 then sg_nbrs g' x = sg_nbrs g0 x @ [0] else True"
    using mutually_connect_sparse [where scale = "\<lambda>d. d", OF inv(1) pre(1,2) cands pre(3-6)] by (metis (no_types, lifting))
  have two: "mset (sg_nbrs g' 0) = {#1, 2#}" using sel inv(2) by (simp add: heuristic_choice_def)
  have "set (sg_nbrs g' 0) = {1, 2}" using two by (metis set_mset_mset set_mset_add_mset_insert set_mset_empty)
  then have "sg_nbrs g' 1 = [0]" "sg_nbrs g' 2 = [0]" using bk inv(2,4) by simp_all
  then show ?thesis using g0 cands r inv(2) two by auto
qed

end
