(* ===== verification/GraphDataCell.thy ===== *)
theory GraphDataCell
  imports SparseGraph BasicIO
begin

text \<open>
  \<open>src/datacell/graph_datacell.h\<close>: the flat graph, which keeps the neighbour list of a node in a line of
  fixed size of a byte store: the number of neighbours, then their identifiers, each with the version of
  the neighbour in its upper bits. The data cell is defined over any store; that it fulfils the contract
  of a graph storage over every store of \<open>direct_io\<close> is the sublocale below, interpreted for both memory
  stores.

  Lines that were never written hold whatever the allocator returned. The contract therefore covers the
  nodes below \<open>total_count_\<close> and \<open>max_capacity_\<close>, and nodes are added one after the other.
\<close>

section \<open>State and operations\<close>

record 's flat_graph = "dense_tracker graph_interface" +
  gd_io :: 's
  gd_node_versions :: "nat list"
  gd_is_support_delete :: bool
  gd_id_bit :: nat
  gd_remove_flag_mask :: nat
  gd_code_line_size :: nat
  gd_reverse_edges :: "reverse_edge option"

text \<open>The mask is computed with a shift of an \<open>int\<close>.\<close>

definition GraphDataCell_new :: "'s \<Rightarrow> nat \<Rightarrow> nat \<Rightarrow> bool \<Rightarrow> nat \<Rightarrow> bool \<Rightarrow> bool \<Rightarrow> 's flat_graph result" where
  "GraphDataCell_new io max_degree init_max_capacity support_remove remove_flag_bit support_duplicate use_reverse_edges =
     (let id_bit = 32 - remove_flag_bit; capacity = u32 init_max_capacity
      in if remove_flag_bit > 32 \<or> id_bit \<ge> 31 then Inl UB
         else Inr \<lparr>gi_max_capacity = capacity, gi_maximum_degree = max_degree, gi_total_count = 0,
                   gi_duplicate_tracker = (if support_duplicate then Some (Dense_Resize capacity DenseDuplicateTracker_new) else None),
                   gd_io = io, gd_node_versions = (if support_remove then replicate capacity 0 else []),
                   gd_is_support_delete = support_remove, gd_id_bit = id_bit, gd_remove_flag_mask = 2 ^ id_bit - 1,
                   gd_code_line_size = u32 (max_degree * 4 + 4),
                   gd_reverse_edges = (if use_reverse_edges then Some Map.empty else None)\<rparr>)"

definition gd_start :: "'s flat_graph \<Rightarrow> inner_id \<Rightarrow> nat" where
  "gd_start g vid = vid * gd_code_line_size g"

text \<open>A read beyond the store leaves the count at 0.\<close>

definition Flat_GetNeighborSize :: "('s \<Rightarrow> nat \<Rightarrow> nat \<Rightarrow> bytes option result) \<Rightarrow> 's flat_graph \<Rightarrow> inner_id \<Rightarrow> nat result" where
  "Flat_GetNeighborSize read g vid =
     bindR (read (gd_io g) 4 (gd_start g vid)) (\<lambda>d. Inr (case d of None \<Rightarrow> 0 | Some bs \<Rightarrow> le_val bs))"

fun flat_untag :: "nat \<Rightarrow> nat \<Rightarrow> nat list \<Rightarrow> nat list \<Rightarrow> inner_id list result" where
  "flat_untag id_bit flag_mask versions [] = Inr []"
| "flat_untag id_bit flag_mask versions (x # xs) =
     (let neighbor_version = u8 (drop_bit id_bit x); neighbor_id = and x flag_mask
      in if neighbor_id \<ge> length versions then Inl UB
         else bindR (flat_untag id_bit flag_mask versions xs) (\<lambda>rest.
           Inr (if versions ! neighbor_id = neighbor_version then neighbor_id # rest else rest)))"

text \<open>
  \<open>neighbor_ids\<close> is what the caller's vector holds; a failed read leaves the resized vector alone.
\<close>

definition Flat_GetNeighbors ::
  "('s \<Rightarrow> nat \<Rightarrow> nat \<Rightarrow> bytes option result) \<Rightarrow> 's flat_graph \<Rightarrow> inner_id \<Rightarrow> inner_id list \<Rightarrow> inner_id list result" where
  "Flat_GetNeighbors read g vid neighbor_ids =
     bindR (Flat_GetNeighborSize read g vid) (\<lambda>neighbor_count.
       if neighbor_count > gi_maximum_degree g then Inr []
       else if gd_is_support_delete g then
         (let neighbor_count = and neighbor_count (gd_remove_flag_mask g)
          in bindR (read (gd_io g) (neighbor_count * 4) (gd_start g vid + 4)) (\<lambda>d.
               flat_untag (gd_id_bit g) (gd_remove_flag_mask g) (gd_node_versions g)
                 (case d of None \<Rightarrow> replicate neighbor_count 0 | Some bs \<Rightarrow> decode_array 4 neighbor_count bs)))
       else
         bindR (read (gd_io g) (neighbor_count * 4) (gd_start g vid + 4)) (\<lambda>d.
           Inr (case d of None \<Rightarrow> vec_resize neighbor_count 0 neighbor_ids | Some bs \<Rightarrow> decode_array 4 neighbor_count bs)))"

fun flat_tag :: "nat \<Rightarrow> nat list \<Rightarrow> inner_id list \<Rightarrow> nat list result" where
  "flat_tag id_bit versions [] = Inr []"
| "flat_tag id_bit versions (nid # nids) =
     (if nid \<ge> length versions then Inl UB
      else bindR (flat_tag id_bit versions nids) (\<lambda>rest. Inr (tag_id id_bit nid (versions ! nid) # rest)))"

definition Flat_InsertNeighborsById ::
  "(bytes \<Rightarrow> nat \<Rightarrow> 's \<Rightarrow> 's result) \<Rightarrow> ('s \<Rightarrow> nat \<Rightarrow> nat \<Rightarrow> bytes option result) \<Rightarrow>
     inner_id \<Rightarrow> inner_id list \<Rightarrow> 's flat_graph \<Rightarrow> 's flat_graph result" where
  "Flat_InsertNeighborsById wr read vid neighbor_ids g =
     (if length neighbor_ids > gi_maximum_degree g then Inl Std_invalid_argument
      else
        bindR (if gd_reverse_edges g \<noteq> None \<and> vid < gi_total_count g then Flat_GetNeighbors read g vid [] else Inr []) (\<lambda>old_neighbors.
          let g = g\<lparr>gd_reverse_edges := UpdateReverseEdges vid old_neighbors neighbor_ids (gd_reverse_edges g),
                    gi_total_count := raise_total_count vid (gi_total_count g)\<rparr>;
              neighbor_count = min (u32 (length neighbor_ids)) (gi_maximum_degree g)
          in bindR (wr (le_bytes 4 neighbor_count) (gd_start g vid) (gd_io g)) (\<lambda>io.
             bindR (if gd_is_support_delete g then flat_tag (gd_id_bit g) (gd_node_versions g) neighbor_ids
                    else Inr neighbor_ids) (\<lambda>ids.
             bindR (wr (concat (map (le_bytes 4) (take neighbor_count ids))) (gd_start g vid + 4) io) (\<lambda>io.
               Inr (g\<lparr>gd_io := io\<rparr>))))))"

definition Flat_CheckIdExists :: "'s flat_graph \<Rightarrow> inner_id \<Rightarrow> bool" where
  "Flat_CheckIdExists g vid \<longleftrightarrow> vid < gi_total_count g \<and> vid < gi_max_capacity g"

definition Flat_Resize :: "(nat \<Rightarrow> 's \<Rightarrow> 's) \<Rightarrow> nat \<Rightarrow> 's flat_graph \<Rightarrow> 's flat_graph result" where
  "Flat_Resize resize new_size g =
     (if new_size < gi_max_capacity g then Inr g
      else if gd_is_support_delete g \<and> new_size > gd_remove_flag_mask g then Inl (Throw INTERNAL_ERROR)
      else Inr (g\<lparr>gd_node_versions := (if gd_is_support_delete g then vec_resize new_size 0 (gd_node_versions g)
                                      else gd_node_versions g),
                  gd_io := resize (new_size * gd_code_line_size g) (gd_io g),
                  gi_max_capacity := new_size,
                  gi_duplicate_tracker := map_option (Dense_Resize new_size) (gi_duplicate_tracker g)\<rparr>))"

definition Flat_ShrinkToFit :: "(nat \<Rightarrow> 's \<Rightarrow> 's) \<Rightarrow> nat \<Rightarrow> 's flat_graph \<Rightarrow> 's flat_graph" where
  "Flat_ShrinkToFit shrink capacity g =
     g\<lparr>gd_io := shrink (capacity * gd_code_line_size g) (gd_io g),
       gd_node_versions := (if gd_is_support_delete g then vec_resize capacity 0 (gd_node_versions g) else gd_node_versions g),
       gi_max_capacity := capacity\<rparr>"

text \<open>\<open>node_versions_[id] + 1 == 0\<close> adds in \<open>int\<close>: it never holds for a \<open>uint8_t\<close>.\<close>

definition Flat_DeleteNeighborsById :: "inner_id \<Rightarrow> 's flat_graph \<Rightarrow> 's flat_graph result" where
  "Flat_DeleteNeighborsById vid g =
     (if gd_is_support_delete g then
        (if vid \<le> gi_max_capacity g then
           (if vid \<ge> length (gd_node_versions g) then Inl UB
            else if gd_node_versions g ! vid + 1 = 0 then Inl (Throw INTERNAL_ERROR)
            else Inr (g\<lparr>gd_node_versions := (gd_node_versions g)[vid := u8 (gd_node_versions g ! vid + 1)]\<rparr>))
         else Inl (Throw INTERNAL_ERROR))
      else Inl (Throw UNSUPPORTED_INDEX_OPERATION))"

definition Flat_RecoverDeleteNeighborsById :: "inner_id \<Rightarrow> 's flat_graph \<Rightarrow> 's flat_graph result" where
  "Flat_RecoverDeleteNeighborsById vid g =
     (if gd_is_support_delete g then
        (if vid \<le> gi_max_capacity g then
           (if vid \<ge> length (gd_node_versions g) then Inl UB
            else if gd_node_versions g ! vid = 0 then Inl (Throw INTERNAL_ERROR)
            else Inr (g\<lparr>gd_node_versions := (gd_node_versions g)[vid := gd_node_versions g ! vid - 1]\<rparr>))
         else Inl (Throw INTERNAL_ERROR))
      else Inl (Throw UNSUPPORTED_INDEX_OPERATION))"

definition Flat_GetIncomingNeighbors :: "'s flat_graph \<Rightarrow> inner_id \<Rightarrow> inner_id list" where
  "Flat_GetIncomingNeighbors g vid =
     (case gd_reverse_edges g of None \<Rightarrow> [] | Some redges \<Rightarrow> ReverseEdge_GetIncomingNeighbors redges vid)"

definition Flat_GetMemoryUsage :: "nat \<Rightarrow> nat \<Rightarrow> (reverse_edge \<Rightarrow> nat) \<Rightarrow> 's flat_graph \<Rightarrow> nat" where
  "Flat_GetMemoryUsage sizeof_GraphDataCell io_usage rev_usage g =
     sizeof_GraphDataCell + length (gd_node_versions g) + io_usage +
     (case gd_reverse_edges g of None \<Rightarrow> 0 | Some redges \<Rightarrow> rev_usage redges)"

definition Flat_Move ::
  "(bytes \<Rightarrow> nat \<Rightarrow> 's \<Rightarrow> 's result) \<Rightarrow> ('s \<Rightarrow> nat \<Rightarrow> nat \<Rightarrow> bytes option result) \<Rightarrow>
     inner_id \<Rightarrow> inner_id \<Rightarrow> 's flat_graph \<Rightarrow> 's flat_graph result" where
  "Flat_Move wr read from to g =
     (if from = to then Inr g
      else bindR (move_node (Flat_GetNeighbors read) (Flat_InsertNeighborsById wr read) (Flat_GetIncomingNeighbors g from) from to g) (\<lambda>g.
        if gd_is_support_delete g then
          (if to \<ge> length (gd_node_versions g) \<or> from \<ge> length (gd_node_versions g) then Inl UB
           else Inr (g\<lparr>gd_node_versions := (gd_node_versions g)[to := gd_node_versions g ! from]\<rparr>))
        else Inr g))"

text \<open>
  \<open>MergeOther\<close> on another flat graph: the versions, then the lists with shifted identifiers. The loop
  variable is an \<open>int\<close>; the vector of neighbours is kept over the rounds.
\<close>

definition merge_versions :: "nat \<Rightarrow> nat list \<Rightarrow> nat \<Rightarrow> nat list \<Rightarrow> nat list result" where
  "merge_versions bias other n versions =
     foldR (\<lambda>i versions. if u64 (i + bias) \<ge> length versions \<or> i \<ge> length other then Inl UB
                         else Inr (versions[u64 (i + bias) := other ! i])) [0..<n] versions"

definition flat_merge_node ::
  "(bytes \<Rightarrow> nat \<Rightarrow> 's \<Rightarrow> 's result) \<Rightarrow> ('s \<Rightarrow> nat \<Rightarrow> nat \<Rightarrow> bytes option result) \<Rightarrow>
     nat \<Rightarrow> 's flat_graph \<Rightarrow> inner_id \<Rightarrow> inner_id list \<times> 's flat_graph \<Rightarrow> (inner_id list \<times> 's flat_graph) result" where
  "flat_merge_node wr read bias other vid = (\<lambda>(neighbor_ids, g).
     bindR (Flat_GetNeighbors read other vid neighbor_ids) (\<lambda>neighbor_ids.
       let neighbor_ids = map (\<lambda>n. u32 (n + bias)) neighbor_ids
       in bindR (Flat_InsertNeighborsById wr read (u32 (vid + bias)) neighbor_ids g) (\<lambda>g. Inr (neighbor_ids, g))))"

definition Flat_MergeOther ::
  "(bytes \<Rightarrow> nat \<Rightarrow> 's \<Rightarrow> 's result) \<Rightarrow> ('s \<Rightarrow> nat \<Rightarrow> nat \<Rightarrow> bytes option result) \<Rightarrow>
     's flat_graph \<Rightarrow> nat \<Rightarrow> 's flat_graph \<Rightarrow> 's flat_graph result" where
  "Flat_MergeOther wr read other bias g =
     (if gi_maximum_degree g \<noteq> gi_maximum_degree other then Inl (Throw INTERNAL_ERROR)
      else if gi_total_count other > 2 ^ 31 then Inl UB
      else
        bindR (if gd_is_support_delete g
               then merge_versions bias (gd_node_versions other) (gi_total_count other) (gd_node_versions g)
               else Inr (gd_node_versions g)) (\<lambda>versions.
        bindR (foldR (flat_merge_node wr read bias other) [0..<gi_total_count other] ([], g\<lparr>gd_node_versions := versions\<rparr>)) (\<lambda>(_, g).
          Inr g)))"

definition GraphDataCell_Serialize ::
  "('s \<Rightarrow> nat \<Rightarrow> nat \<Rightarrow> bytes option result) \<Rightarrow> ('s \<Rightarrow> nat) \<Rightarrow> bytes \<Rightarrow> 's flat_graph \<Rightarrow> stream_writer \<Rightarrow> stream_writer result" where
  "GraphDataCell_Serialize read size_of buffer g writer =
     bindR (GraphInterface_Serialize Dense_Serialize g writer) (\<lambda>w.
     bindR (BasicIO_Serialize read size_of buffer (gd_io g) w) (\<lambda>w.
       let w = WriteObj 4 (gd_code_line_size g) w
       in Inr (if gd_is_support_delete g then WriteVector 1 (gd_node_versions g) w else w)))"

definition GraphDataCell_Deserialize ::
  "'r rd \<Rightarrow> (bytes \<Rightarrow> nat \<Rightarrow> 's \<Rightarrow> 's result) \<Rightarrow> 's flat_graph \<Rightarrow> 'r \<Rightarrow> ('s flat_graph \<times> 'r) result" where
  "GraphDataCell_Deserialize rd wr g r =
     bindR (GraphInterface_Deserialize rd (Dense_Deserialize rd) g r) (\<lambda>(g, r).
     bindR (BasicIO_Deserialize rd wr (gd_io g) r) (\<lambda>(io, r).
     bindR (ReadObj rd 4 r) (\<lambda>(line, r).
       let g = g\<lparr>gd_io := io, gd_code_line_size := line\<rparr>
       in if gd_is_support_delete g
          then bindR (ReadVector rd 1 r) (\<lambda>(versions, r). Inr (g\<lparr>gd_node_versions := versions\<rparr>, r))
          else Inr (g, r))))"

section \<open>Reading and writing lines\<close>

lemma flat_tag_zero: "\<forall>n\<in>set ns. n < length vs \<and> vs ! n = 0 \<Longrightarrow> flat_tag b vs ns = Inr ns"
  by (induction ns) (auto simp: tag_id_def)

lemma flat_untag_zero:
  assumes "\<forall>x\<in>set xs. x < length vs \<and> vs ! x = 0 \<and> x < 2 ^ b"
  shows "flat_untag b (2 ^ b - 1) vs xs = Inr xs"
  using assms by (induction xs) (auto simp: Let_def and_mask_nat [simplified] drop_bit_eq_div)

text \<open>
  What the flat graph needs of a store beyond \<open>direct_io\<close>: empty blocks within the store are no special
  case.
\<close>

locale flat_graph_store = direct_io wr read size_of content inv limit dread resize shrink
  for wr :: "bytes \<Rightarrow> nat \<Rightarrow> 's \<Rightarrow> 's result" and read size_of content inv limit dread resize shrink +
  assumes write_nil: "inv s \<Longrightarrow> offset \<le> size_of s \<Longrightarrow> wr [] offset s = Inr s"
    and read_nil: "inv s \<Longrightarrow> offset \<le> size_of s \<Longrightarrow> read s 0 offset = Inr (Some [])"
begin

definition word_at :: "'s \<Rightarrow> nat \<Rightarrow> nat" where
  "word_at s off = le_val (map (content s) [off..<off + 4])"

lemma read_word: "inv s \<Longrightarrow> off + 4 \<le> size_of s \<Longrightarrow> read s 4 off = Inr (Some (map (content s) [off..<off + 4]))"
  by (rule read_ok) simp_all

lemma decode_words:
  "decode_array 4 n (map (content s) [off..<off + n * 4]) = map (\<lambda>i. word_at s (off + 4 * i)) [0..<n]"
proof (induction n arbitrary: off)
  case (Suc n)
  have "map (\<lambda>i. word_at s (off + 4 * i)) [0..<Suc n] = word_at s off # map (\<lambda>i. word_at s (off + 4 + 4 * i)) [0..<n]"
    by (subst upt_conv_Cons) (simp_all add: map_Suc_upt [symmetric] comp_def add.assoc del: upt_Suc)
  moreover have "take 4 [off..<off + Suc n * 4] = [off..<off + 4]" "drop 4 [off..<off + Suc n * 4] = [off + 4..<(off + 4) + n * 4]"
    by (simp_all add: take_upt algebra_simps)
  ultimately show ?case using Suc.IH [of "off + 4"]
    by (simp only: decode_array.simps take_map drop_map word_at_def)
qed simp

lemma read_words:
  assumes "inv s" "off + n * 4 \<le> size_of s"
  shows "\<exists>bs. read s (n * 4) off = Inr (Some bs) \<and> decode_array 4 n bs = map (\<lambda>i. word_at s (off + 4 * i)) [0..<n]"
proof (cases "n = 0")
  case True
  then show ?thesis using read_nil [OF assms(1), of off] assms(2) by simp
next
  case False
  then show ?thesis using read_ok [OF assms(1) _ assms(2)] decode_words [of n s off] by simp
qed

lemma word_at_written:
  assumes "\<forall>i<length xs * 4. content s (off + i) = concat (map (le_bytes 4) xs) ! i" "\<forall>x\<in>set xs. x < 2 ^ 32"
  shows "map (\<lambda>i. word_at s (off + 4 * i)) [0..<length xs] = xs"
proof -
  have "map (content s) [off..<off + length xs * 4] = concat (map (le_bytes 4) xs)"
    using assms(1) by (intro nth_equalityI) auto
  then show ?thesis using decode_words [of "length xs" s off] decode_array_concat [of xs 4] assms(2) by simp
qed

text \<open>A line is written in two steps, the count and the list.\<close>

lemma write_line:
  assumes "inv s" "off + 4 + length xs * 4 \<le> limit" "\<forall>x\<in>set xs. x < 2 ^ 32" "length xs < 2 ^ 32"
  shows "\<exists>s1 s'. wr (le_bytes 4 (length xs)) off s = Inr s1 \<and> wr (concat (map (le_bytes 4) xs)) (off + 4) s1 = Inr s' \<and> inv s' \<and>
    size_of s' = max (size_of s) (off + 4 + length xs * 4) \<and> word_at s' off = length xs \<and>
    map (\<lambda>i. word_at s' (off + 4 + 4 * i)) [0..<length xs] = xs \<and>
    (\<forall>i < size_of s. i < off \<or> off + 4 + length xs * 4 \<le> i \<longrightarrow> content s' i = content s i)"
proof -
  have ne: "le_bytes 4 (length xs) \<noteq> []" by (metis length_le_bytes list.size(3) zero_neq_numeral)
  obtain s1 where s1: "wr (le_bytes 4 (length xs)) off s = Inr s1" "inv s1" "size_of s1 = max (size_of s) (off + 4)"
    "\<forall>i<4. content s1 (off + i) = le_bytes 4 (length xs) ! i"
    "\<forall>i < size_of s. i < off \<or> off + 4 \<le> i \<longrightarrow> content s1 i = content s i"
    using write_ok [OF assms(1) ne, of off] assms(2) by auto
  have "map (content s1) [off..<off + 4] = le_bytes 4 (length xs)" using s1(4) by (intro nth_equalityI) auto
  then have count: "word_at s1 off = length xs" using assms(4) by (simp add: word_at_def)
  show ?thesis
  proof (cases "xs = []")
    case True
    have "wr (concat (map (le_bytes 4) xs)) (off + 4) s1 = Inr s1" using write_nil [OF s1(2), of "off + 4"] s1(3) True by simp
    then show ?thesis using s1 count True by auto
  next
    case False
    let ?d = "concat (map (le_bytes 4) xs)"
    have len: "length ?d = length xs * 4" by simp
    then have "?d \<noteq> []" using False by (metis length_0_conv mult_is_0 zero_neq_numeral)
    then obtain s' where s': "wr ?d (off + 4) s1 = Inr s'" "inv s'" "size_of s' = max (size_of s1) (off + 4 + length xs * 4)"
      "\<forall>i<length xs * 4. content s' (off + 4 + i) = ?d ! i"
      "\<forall>i < size_of s1. i < off + 4 \<or> off + 4 + length xs * 4 \<le> i \<longrightarrow> content s' i = content s1 i"
      using write_ok [OF s1(2), of ?d "off + 4"] assms(2) by auto
    have "map (content s') [off..<off + 4] = map (content s1) [off..<off + 4]" using s'(5) s1(3) by auto
    then have "word_at s' off = length xs" using count by (simp only: word_at_def)
    moreover have "map (\<lambda>i. word_at s' (off + 4 + 4 * i)) [0..<length xs] = xs" using word_at_written [OF s'(4) assms(3)] .
    moreover have "\<forall>i < size_of s. i < off \<or> off + 4 + length xs * 4 \<le> i \<longrightarrow> content s' i = content s i"
      using s'(5) s1(3,5) by auto
    ultimately show ?thesis using s1(1,3) s'(1-3) by auto
  qed
qed

lemma word_at_cong: "\<forall>i<4. content s' (off + i) = content s (off + i) \<Longrightarrow> word_at s' off = word_at s off"
  unfolding word_at_def by (intro arg_cong [where f = le_val] nth_equalityI) auto

section \<open>The invariant\<close>

definition gd_count :: "'s flat_graph \<Rightarrow> inner_id \<Rightarrow> nat" where
  "gd_count g vid = word_at (gd_io g) (gd_start g vid)"

definition gd_raw :: "'s flat_graph \<Rightarrow> inner_id \<Rightarrow> inner_id list" where
  "gd_raw g vid = map (\<lambda>i. word_at (gd_io g) (gd_start g vid + 4 + 4 * i)) [0..<gd_count g vid]"

definition gd_limit :: "'s flat_graph \<Rightarrow> nat" where
  "gd_limit g = min (gi_total_count g) (gi_max_capacity g)"

definition gd_nbrs :: "'s flat_graph \<Rightarrow> inner_id \<Rightarrow> inner_id list" where
  "gd_nbrs g vid = (if vid < gd_limit g then gd_raw g vid else [])"

text \<open>The line of every node is there, and its neighbours are nodes; nothing has been deleted.\<close>

definition gd_line_ok :: "'s flat_graph \<Rightarrow> inner_id \<Rightarrow> bool" where
  "gd_line_ok g vid \<longleftrightarrow> gd_count g vid \<le> gi_maximum_degree g \<and> gd_start g vid + 4 + gd_count g vid * 4 \<le> size_of (gd_io g) \<and>
     (\<forall>n\<in>set (gd_raw g vid). n < gd_limit g)"

definition gd_shape :: "'s flat_graph \<Rightarrow> bool" where
  "gd_shape g \<longleftrightarrow> inv (gd_io g) \<and> gd_code_line_size g = gi_maximum_degree g * 4 + 4 \<and> gi_maximum_degree g < 2 ^ 30 \<and>
     gi_max_capacity g < 2 ^ 32 \<and> gi_max_capacity g * gd_code_line_size g \<le> limit \<and>
     (gd_is_support_delete g \<longrightarrow> gd_id_bit g \<le> 24 \<and> gd_remove_flag_mask g = 2 ^ gd_id_bit g - 1 \<and>
        gi_max_capacity g \<le> 2 ^ gd_id_bit g \<and> gi_maximum_degree g < 2 ^ gd_id_bit g \<and>
        gi_max_capacity g \<le> length (gd_node_versions g) \<and> (\<forall>v\<in>set (gd_node_versions g). v = 0))"

definition gd_inv :: "'s flat_graph \<Rightarrow> bool" where
  "gd_inv g \<longleftrightarrow> gd_shape g \<and> (\<forall>vid<gd_limit g. gd_line_ok g vid) \<and>
     (\<forall>redges. gd_reverse_edges g = Some redges \<longrightarrow> rev_ok (gd_nbrs g) redges)"

lemma gd_version_zero: "gd_shape g \<Longrightarrow> gd_is_support_delete g \<Longrightarrow> n < gi_max_capacity g \<Longrightarrow>
    n < length (gd_node_versions g) \<and> gd_node_versions g ! n = 0 \<and> n < 2 ^ gd_id_bit g"
  using nth_mem [of n "gd_node_versions g"] unfolding gd_shape_def by (meson order.strict_trans2)

lemma Flat_GetNeighbors_ok:
  assumes "gd_inv g" "vid < gd_limit g"
  shows "Flat_GetNeighbors read g vid old = Inr (gd_raw g vid)"
proof -
  have sh: "gd_shape g" and inv: "inv (gd_io g)" and ok: "gd_line_ok g vid" using assms by (auto simp: gd_inv_def gd_shape_def)
  let ?n = "gd_count g vid"
  have n: "?n \<le> gi_maximum_degree g" "gd_start g vid + 4 + ?n * 4 \<le> size_of (gd_io g)" "\<forall>n\<in>set (gd_raw g vid). n < gd_limit g"
    using ok by (auto simp: gd_line_ok_def)
  have "Flat_GetNeighborSize read g vid = Inr ?n"
    using read_word [OF inv, of "gd_start g vid"] n(2) by (simp add: Flat_GetNeighborSize_def gd_count_def word_at_def)
  moreover obtain bs where bs: "read (gd_io g) (?n * 4) (gd_start g vid + 4) = Inr (Some bs)" "decode_array 4 ?n bs = gd_raw g vid"
    using read_words [OF inv, of "gd_start g vid + 4" ?n] n(2) by (auto simp: gd_raw_def)
  moreover have "and ?n (gd_remove_flag_mask g) = ?n" if "gd_is_support_delete g"
    using sh that n(1) by (simp add: gd_shape_def and_mask_nat [simplified])
  moreover have "flat_untag (gd_id_bit g) (gd_remove_flag_mask g) (gd_node_versions g) (gd_raw g vid) = Inr (gd_raw g vid)"
    if "gd_is_support_delete g"
  proof -
    have "\<forall>x\<in>set (gd_raw g vid). x < length (gd_node_versions g) \<and> gd_node_versions g ! x = 0 \<and> x < 2 ^ gd_id_bit g"
      using n(3) gd_version_zero [OF sh that] by (auto simp: gd_limit_def)
    from flat_untag_zero [OF this] show ?thesis using sh that by (simp add: gd_shape_def)
  qed
  ultimately show ?thesis using n(1) by (simp add: Flat_GetNeighbors_def Let_def)
qed

text \<open>Lines do not overlap.\<close>

lemma gd_lines_apart:
  assumes "gd_shape g" "x \<noteq> vid" "k \<le> gi_maximum_degree g" "j < gi_maximum_degree g * 4 + 4"
  shows "gd_start g x + j < gd_start g vid \<or> gd_start g vid + 4 + k * 4 \<le> gd_start g x + j"
proof -
  define L where "L = gi_maximum_degree g * 4 + 4"
  have L: "gd_start g y = y * L" for y using assms(1) by (simp add: gd_shape_def gd_start_def L_def)
  consider "Suc x \<le> vid" | "Suc vid \<le> x" using assms(2) by linarith
  then show ?thesis
  proof cases
    case 1
    then have "Suc x * L \<le> vid * L" by (rule mult_le_mono1)
    then show ?thesis using assms(4) by (simp add: L flip: L_def)
  next
    case 2
    then have "Suc vid * L \<le> x * L" by (rule mult_le_mono1)
    moreover have "4 + k * 4 \<le> L" using assms(3) by (simp add: L_def)
    ultimately show ?thesis by (simp add: L)
  qed
qed

lemma gd_line_cong:
  assumes "gd_shape g" "x \<noteq> vid" "gd_line_ok g x" "k \<le> gi_maximum_degree g"
    and "\<forall>i < size_of (gd_io g). i < gd_start g vid \<or> gd_start g vid + 4 + k * 4 \<le> i \<longrightarrow> content io i = content (gd_io g) i"
  shows "word_at io (gd_start g x) = gd_count g x"
    "map (\<lambda>i. word_at io (gd_start g x + 4 + 4 * i)) [0..<gd_count g x] = gd_raw g x"
proof -
  have n: "gd_count g x \<le> gi_maximum_degree g" "gd_start g x + 4 + gd_count g x * 4 \<le> size_of (gd_io g)"
    using assms(3) by (auto simp: gd_line_ok_def)
  have same: "content io (gd_start g x + j) = content (gd_io g) (gd_start g x + j)" if "j < 4 + gd_count g x * 4" for j
    using assms(5) gd_lines_apart [OF assms(1,2,4), of j] that n by auto
  show "word_at io (gd_start g x) = gd_count g x"
    unfolding gd_count_def by (rule word_at_cong) (use same in simp)
  have "word_at io (gd_start g x + 4 + 4 * i) = word_at (gd_io g) (gd_start g x + 4 + 4 * i)" if "i < gd_count g x" for i
    by (rule word_at_cong) (use same [of "4 + 4 * i + j" for j] that in \<open>auto simp: add.assoc\<close>)
  then show "map (\<lambda>i. word_at io (gd_start g x + 4 + 4 * i)) [0..<gd_count g x] = gd_raw g x" by (simp add: gd_raw_def)
qed

text \<open>Replacing the list of a node, or adding the next node.\<close>

lemma Flat_Insert_ok:
  assumes "gd_inv g" "vid < gi_max_capacity g" "vid \<le> gi_total_count g" "\<forall>n\<in>set ns. n < max (gd_limit g) (Suc vid)"
    "length ns \<le> gi_maximum_degree g"
  obtains g' where "Flat_InsertNeighborsById wr read vid ns g = Inr g'" "gd_inv g'" "gd_nbrs g' = (gd_nbrs g)(vid := ns)"
    "gi_maximum_degree g' = gi_maximum_degree g" "gi_max_capacity g' = gi_max_capacity g"
    "gi_total_count g' = max (gi_total_count g) (Suc vid)" "gd_limit g' = max (gd_limit g) (Suc vid)"
    "gd_reverse_edges g' = None \<longleftrightarrow> gd_reverse_edges g = None" "gd_is_support_delete g' = gd_is_support_delete g"
    "gd_node_versions g' = gd_node_versions g"
proof -
  have sh: "gd_shape g" and inv: "inv (gd_io g)" using assms(1) by (auto simp: gd_inv_def gd_shape_def)
  have cap: "vid + 1 < 2 ^ 32" using sh assms(2) by (simp add: gd_shape_def)
  have ids: "\<forall>n\<in>set ns. n < gi_max_capacity g" using assms(2,4) by (auto simp: gd_limit_def)
  have old: "(if gd_reverse_edges g \<noteq> None \<and> vid < gi_total_count g then Flat_GetNeighbors read g vid [] else Inr []) =
      Inr (if gd_reverse_edges g \<noteq> None then gd_nbrs g vid else [])"
    using Flat_GetNeighbors_ok [OF assms(1), of vid] assms(2) by (auto simp: gd_nbrs_def gd_limit_def)
  have tag: "flat_tag (gd_id_bit g) (gd_node_versions g) ns = Inr ns" if "gd_is_support_delete g"
    using gd_version_zero [OF sh that] ids flat_tag_zero [of ns "gd_node_versions g"] by auto
  have len: "length ns < 2 ^ 30" using assms(5) sh by (simp add: gd_shape_def)
  then have count: "min (u32 (length ns)) (gi_maximum_degree g) = length ns" using assms(5) by simp
  have "gd_start g vid + gd_code_line_size g \<le> gi_max_capacity g * gd_code_line_size g"
    using mult_le_mono1 [of "Suc vid" "gi_max_capacity g" "gd_code_line_size g"] assms(2) by (simp add: gd_start_def)
  then have lim: "gd_start g vid + 4 + length ns * 4 \<le> limit" using sh assms(5) unfolding gd_shape_def by linarith
  moreover have "\<forall>x\<in>set ns. x < 2 ^ 32" using ids sh by (auto simp: gd_shape_def)
  ultimately obtain io1 io where io: "wr (le_bytes 4 (length ns)) (gd_start g vid) (gd_io g) = Inr io1"
    "wr (concat (map (le_bytes 4) ns)) (gd_start g vid + 4) io1 = Inr io" "inv io"
    "size_of io = max (size_of (gd_io g)) (gd_start g vid + 4 + length ns * 4)" "word_at io (gd_start g vid) = length ns"
    "map (\<lambda>i. word_at io (gd_start g vid + 4 + 4 * i)) [0..<length ns] = ns"
    "\<forall>i < size_of (gd_io g). i < gd_start g vid \<or> gd_start g vid + 4 + length ns * 4 \<le> i \<longrightarrow> content io i = content (gd_io g) i"
    using write_line [OF inv lim] len by auto
  define g' where "g' = g\<lparr>gd_reverse_edges := UpdateReverseEdges vid (if gd_reverse_edges g \<noteq> None then gd_nbrs g vid else []) ns (gd_reverse_edges g),
    gi_total_count := max (gi_total_count g) (Suc vid), gd_io := io\<rparr>"
  have ins: "Flat_InsertNeighborsById wr read vid ns g = Inr g'"
    using assms(5) old tag io(1,2) count raise_total_count [OF cap]
    by (simp add: Flat_InsertNeighborsById_def Let_def g'_def gd_start_def)
  have start: "gd_start g' = gd_start g" by (simp add: fun_eq_iff gd_start_def g'_def)
  have lim': "gd_limit g' = max (gd_limit g) (Suc vid)" using assms(2,3) by (auto simp: gd_limit_def g'_def)
  have shape: "gd_shape g'" using sh io(3) by (auto simp: gd_shape_def g'_def)
  have new: "gd_count g' vid = length ns" "gd_raw g' vid = ns" using io(5,6) by (simp_all add: gd_count_def gd_raw_def start, simp_all add: g'_def)
  have other: "gd_line_ok g x \<and> gd_count g' x = gd_count g x \<and> gd_raw g' x = gd_raw g x" if "x < gd_limit g" "x \<noteq> vid" for x
  proof -
    have ok: "gd_line_ok g x" using that assms(1) by (simp add: gd_inv_def)
    note cong = gd_line_cong [OF sh that(2) ok assms(5) io(7)]
    have "gd_count g' x = gd_count g x" using cong(1) by (simp add: gd_count_def start) (simp add: g'_def)
    then show ?thesis using ok cong(2) by (simp add: gd_raw_def start) (simp add: g'_def)
  qed
  have "vid \<le> gd_limit g" using assms(2,3) by (simp add: gd_limit_def)
  then have below: "x < gd_limit g" if "x < gd_limit g'" "x \<noteq> vid" for x using that unfolding lim' by linarith
  have lines: "gd_line_ok g' x" if "x < gd_limit g'" for x
  proof (cases "x = vid")
    case True
    then show ?thesis using new assms(4,5) io(4) lim' by (simp add: gd_line_ok_def start) (simp add: g'_def)
  next
    case False
    have "gd_line_ok g x" "gd_count g' x = gd_count g x" "gd_raw g' x = gd_raw g x" using other [OF below [OF that False] False] by auto
    moreover have "size_of (gd_io g) \<le> size_of (gd_io g')" "gi_maximum_degree g' = gi_maximum_degree g" using io(4) by (simp_all add: g'_def)
    ultimately show ?thesis using lim' by (fastforce simp: gd_line_ok_def start)
  qed
  have nb: "gd_nbrs g' = (gd_nbrs g)(vid := ns)"
  proof
    fix x show "gd_nbrs g' x = ((gd_nbrs g)(vid := ns)) x"
      using new other [of x] below [of x] lim' by (auto simp: gd_nbrs_def)
  qed
  have "rev_ok (gd_nbrs g') redges" if r: "gd_reverse_edges g' = Some redges" for redges
  proof (cases "gd_reverse_edges g")
    case (Some r0)
    then have "rev_ok (gd_nbrs g) r0" using assms(1) by (simp add: gd_inv_def)
    from UpdateReverseEdges_ok [OF this, of vid ns] show ?thesis using r Some nb by (auto simp: g'_def)
  qed (use r in \<open>simp add: g'_def UpdateReverseEdges_def\<close>)
  then have "gd_inv g'" using shape lines by (simp add: gd_inv_def)
  moreover have "gd_reverse_edges g' = None \<longleftrightarrow> gd_reverse_edges g = None"
    by (cases "gd_reverse_edges g") (simp_all add: g'_def UpdateReverseEdges_def Let_def)
  ultimately show thesis using that [OF ins _ nb _ _ _ lim'] by (simp add: g'_def)
qed

text \<open>Growing and shrinking the store keeps the lines that are still there.\<close>

lemma gd_lines_kept:
  assumes "gd_shape g" "gd_line_ok g x" "x < n"
    and "\<forall>i < min (n * gd_code_line_size g) (size_of (gd_io g)). content io i = content (gd_io g) i"
  shows "word_at io (gd_start g x) = gd_count g x"
    "map (\<lambda>i. word_at io (gd_start g x + 4 + 4 * i)) [0..<gd_count g x] = gd_raw g x"
    "gd_start g x + 4 + gd_count g x * 4 \<le> n * gd_code_line_size g"
proof -
  have "Suc x * gd_code_line_size g \<le> n * gd_code_line_size g" using assms(3) by (intro mult_le_mono1) simp
  moreover have "gd_code_line_size g = gi_maximum_degree g * 4 + 4" using assms(1) by (simp add: gd_shape_def)
  ultimately show fits: "gd_start g x + 4 + gd_count g x * 4 \<le> n * gd_code_line_size g"
    using assms(2) by (simp add: gd_line_ok_def gd_start_def)
  have same: "content io (gd_start g x + j) = content (gd_io g) (gd_start g x + j)" if "j < 4 + gd_count g x * 4" for j
    using assms(2,4) fits that by (simp add: gd_line_ok_def)
  show "word_at io (gd_start g x) = gd_count g x"
    unfolding gd_count_def by (rule word_at_cong) (use same in simp)
  have "word_at io (gd_start g x + 4 + 4 * i) = word_at (gd_io g) (gd_start g x + 4 + 4 * i)" if "i < gd_count g x" for i
    by (rule word_at_cong) (use same [of "4 + 4 * i + j" for j] that in \<open>auto simp: add.assoc\<close>)
  then show "map (\<lambda>i. word_at io (gd_start g x + 4 + 4 * i)) [0..<gd_count g x] = gd_raw g x" by (simp add: gd_raw_def)
qed

text \<open>A graph with another store that keeps the lines of its nodes.\<close>

lemma gd_inv_resized:
  assumes "gd_inv g" "gd_shape g'" "gd_code_line_size g' = gd_code_line_size g" "gi_maximum_degree g' = gi_maximum_degree g"
    "gd_limit g' \<le> gd_limit g" "gd_reverse_edges g' = gd_reverse_edges g"
    and "\<forall>i < min (n * gd_code_line_size g) (size_of (gd_io g)). content (gd_io g') i = content (gd_io g) i"
    and "min (n * gd_code_line_size g) (size_of (gd_io g)) \<le> size_of (gd_io g')" "gd_limit g' \<le> n"
    and "\<forall>x\<ge>gd_limit g'. gd_nbrs g x = []" "\<forall>x. \<forall>y\<in>set (gd_nbrs g x). y < gd_limit g'"
  shows "gd_inv g'" "gd_nbrs g' = gd_nbrs g"
proof -
  have sh: "gd_shape g" using assms(1) by (simp add: gd_inv_def)
  have start: "gd_start g' = gd_start g" using assms(3) by (simp add: fun_eq_iff gd_start_def)
  have line: "gd_line_ok g' x \<and> gd_raw g' x = gd_raw g x" if "x < gd_limit g'" for x
  proof -
    have ok: "gd_line_ok g x" "x < n" "x < gd_limit g" using that assms(1,5,9) by (auto simp: gd_inv_def)
    note kept = gd_lines_kept [OF sh ok(1,2) assms(7)]
    have c: "gd_count g' x = gd_count g x" using kept(1) by (simp add: gd_count_def start)
    then have r: "gd_raw g' x = gd_raw g x" using kept(2) by (simp add: gd_raw_def start)
    have "gd_nbrs g x = gd_raw g x" using ok(3) by (simp add: gd_nbrs_def)
    then have "\<forall>y\<in>set (gd_raw g x). y < gd_limit g'" using assms(11) by metis
    then show ?thesis using ok(1) kept(3) c r assms(4,8) by (auto simp: gd_line_ok_def start)
  qed
  show nb: "gd_nbrs g' = gd_nbrs g"
  proof
    fix x show "gd_nbrs g' x = gd_nbrs g x"
    proof (cases "x < gd_limit g'")
      case True
      then show ?thesis using line assms(5) by (simp add: gd_nbrs_def)
    next
      case False
      then show ?thesis using assms(10) by (simp add: gd_nbrs_def [of g'])
    qed
  qed
  show "gd_inv g'" using assms(1,2,6) line nb by (simp add: gd_inv_def)
qed

lemma Flat_ShrinkToFit_ok:
  assumes "gd_inv g" "n \<le> gd_limit g" "\<forall>x\<ge>n. gd_nbrs g x = []" "\<forall>x. \<forall>y\<in>set (gd_nbrs g x). y < n"
  shows "gd_inv (Flat_ShrinkToFit shrink n g)" "gd_nbrs (Flat_ShrinkToFit shrink n g) = gd_nbrs g"
    "gd_limit (Flat_ShrinkToFit shrink n g) = n"
proof -
  let ?g = "Flat_ShrinkToFit shrink n g"
  have sh: "gd_shape g" using assms(1) by (simp add: gd_inv_def)
  have n: "n \<le> gi_max_capacity g" "n \<le> gi_total_count g" using assms(2) by (auto simp: gd_limit_def)
  have "n * gd_code_line_size g \<le> limit"
    using sh mult_le_mono1 [OF n(1), of "gd_code_line_size g"] unfolding gd_shape_def by linarith
  from shrink_ok [OF _ this, of "gd_io g"] sh have io: "inv (gd_io ?g)"
    "size_of (gd_io ?g) = min (n * gd_code_line_size g) (size_of (gd_io g))"
    "\<forall>i < min (n * gd_code_line_size g) (size_of (gd_io g)). content (gd_io ?g) i = content (gd_io g) i"
    by (auto simp: gd_shape_def Flat_ShrinkToFit_def)
  show lim: "gd_limit ?g = n" using n by (simp add: gd_limit_def Flat_ShrinkToFit_def)
  have vs: "\<forall>v\<in>set (vec_resize n 0 (gd_node_versions g)). v = 0" if "gd_is_support_delete g"
    using sh that by (auto simp: vec_resize_def gd_shape_def dest!: in_set_takeD split: if_splits)
  have "gd_shape ?g" using sh io(1) n(1) vs \<open>n * gd_code_line_size g \<le> limit\<close>
    unfolding gd_shape_def by (auto simp: Flat_ShrinkToFit_def)
  from gd_inv_resized [OF assms(1) this _ _ _ _ io(3)] lim assms(2-4) io(2)
  show "gd_inv ?g" "gd_nbrs ?g = gd_nbrs g" by (simp_all add: Flat_ShrinkToFit_def)
qed

lemma Flat_Resize_ok:
  assumes "gd_inv g" "gi_total_count g \<le> gi_max_capacity g" "gi_max_capacity g \<le> n" "n < 2 ^ 32" "n * gd_code_line_size g \<le> limit"
    "gd_is_support_delete g \<Longrightarrow> n \<le> gd_remove_flag_mask g"
  obtains g' where "Flat_Resize resize n g = Inr g'" "gd_inv g'" "gd_nbrs g' = gd_nbrs g" "gi_max_capacity g' = n"
    "gi_total_count g' = gi_total_count g" "gi_maximum_degree g' = gi_maximum_degree g" "gd_reverse_edges g' = gd_reverse_edges g"
proof -
  define g' where "g' = g\<lparr>gd_node_versions := (if gd_is_support_delete g then vec_resize n 0 (gd_node_versions g) else gd_node_versions g),
    gd_io := resize (n * gd_code_line_size g) (gd_io g), gi_max_capacity := n,
    gi_duplicate_tracker := map_option (Dense_Resize n) (gi_duplicate_tracker g)\<rparr>"
  have sh: "gd_shape g" using assms(1) by (simp add: gd_inv_def)
  from resize_ok [OF _ assms(5), of "gd_io g"] sh have io: "inv (gd_io g')" "size_of (gd_io g') = n * gd_code_line_size g"
    "\<forall>i < min (n * gd_code_line_size g) (size_of (gd_io g)). content (gd_io g') i = content (gd_io g) i"
    by (auto simp: gd_shape_def g'_def)
  have lim: "gd_limit g' = gd_limit g" "gd_limit g \<le> n" using assms(2,3) by (auto simp: gd_limit_def g'_def)
  have vs: "\<forall>v\<in>set (vec_resize n 0 (gd_node_versions g)). v = 0" if "gd_is_support_delete g"
    using sh that by (auto simp: vec_resize_def gd_shape_def dest!: in_set_takeD split: if_splits)
  have "gd_shape g'" using sh io(1) vs assms(4-6) unfolding gd_shape_def by (auto simp: g'_def)
  moreover have "\<forall>x\<ge>gd_limit g'. gd_nbrs g x = []" "\<forall>x. \<forall>y\<in>set (gd_nbrs g x). y < gd_limit g'"
    using assms(1) unfolding lim(1) by (auto simp: gd_nbrs_def gd_inv_def gd_line_ok_def)
  ultimately have "gd_inv g'" "gd_nbrs g' = gd_nbrs g"
    using gd_inv_resized [OF assms(1) _ _ _ _ _ io(3)] lim io(2) by (simp_all add: g'_def)
  moreover have "Flat_Resize resize n g = Inr g'" using assms(3,6) by (auto simp: Flat_Resize_def g'_def)
  ultimately show thesis using that by (simp add: g'_def)
qed

definition gd_rev_inv :: "'s flat_graph \<Rightarrow> bool" where
  "gd_rev_inv g \<longleftrightarrow> gd_inv g \<and> gd_reverse_edges g \<noteq> None"

lemma flat_ins_law:
  assumes "gd_inv g" "vid < gd_limit g" "\<forall>n\<in>set ns. n < gd_limit g" "length ns \<le> gi_maximum_degree g"
  shows "\<exists>g'. Flat_InsertNeighborsById wr read vid ns g = Inr g' \<and> gd_inv g' \<and> (gd_rev_inv g \<longrightarrow> gd_rev_inv g') \<and>
    gd_nbrs g' = (gd_nbrs g)(vid := ns) \<and> gi_maximum_degree g' = gi_maximum_degree g \<and> gd_limit g' = gd_limit g \<and>
    (\<forall>x. Flat_CheckIdExists g' x \<longleftrightarrow> Flat_CheckIdExists g x \<or> x = vid)"
proof -
  have v: "vid < gi_max_capacity g" "vid < gi_total_count g" using assms(2) by (auto simp: gd_limit_def)
  have ids: "\<forall>n\<in>set ns. n < max (gd_limit g) (Suc vid)" using assms(3) by auto
  show ?thesis
    by (rule Flat_Insert_ok [OF assms(1) v(1) less_imp_le [OF v(2)] ids assms(4)])
      (use v assms(2) in \<open>auto simp: gd_rev_inv_def Flat_CheckIdExists_def max_def\<close>)
qed

lemma flat_node_limit: "Flat_CheckIdExists g vid \<longleftrightarrow> vid < gd_limit g"
  by (auto simp: Flat_CheckIdExists_def gd_limit_def)

lemma flat_laws:
  assumes "gd_inv g"
  shows "Flat_CheckIdExists g vid \<Longrightarrow> Flat_GetNeighbors read g vid old = Inr (gd_nbrs g vid)"
    "length (gd_nbrs g vid) \<le> gi_maximum_degree g" "n \<in> set (gd_nbrs g vid) \<Longrightarrow> n < gd_limit g"
  using assms Flat_GetNeighbors_ok [OF assms, of vid old]
  by (auto simp: gd_nbrs_def flat_node_limit gd_inv_def gd_line_ok_def gd_raw_def [of g vid] split: if_splits)

lemma Flat_Move_eq:
  assumes "gd_inv g'" "to < gi_max_capacity g'" "from < gi_max_capacity g'" "from \<noteq> to"
    "move_node (Flat_GetNeighbors read) (Flat_InsertNeighborsById wr read) (Flat_GetIncomingNeighbors g from) from to g = Inr g'"
  shows "Flat_Move wr read from to g = Inr g'"
proof -
  have sh: "gd_shape g'" using assms(1) by (simp add: gd_inv_def)
  have "(gd_node_versions g')[to := gd_node_versions g' ! from] = gd_node_versions g'" if "gd_is_support_delete g'"
    using gd_version_zero [OF sh that assms(2)] gd_version_zero [OF sh that assms(3)] by (metis list_update_id)
  moreover have "to < length (gd_node_versions g')" "from < length (gd_node_versions g')" if "gd_is_support_delete g'"
    using gd_version_zero [OF sh that] assms(2,3) by blast+
  ultimately show ?thesis using assms(4,5) by (auto simp: Flat_Move_def)
qed

end

sublocale flat_graph_store \<subseteq> flat_cell: graph_cell "Flat_InsertNeighborsById wr read" "Flat_GetNeighbors read" gd_nbrs Flat_CheckIdExists
  gi_maximum_degree gd_inv gd_limit
proof (unfold_locales, goal_cases)
  case (1 g vid ns)
  then show ?case using flat_ins_law by blast
next
  case (2 g ns vid)
  then show ?case by (auto simp: Flat_InsertNeighborsById_def)
next
  case (3 g vid old)
  then show ?case by (rule flat_laws(1))
next
  case (4 g vid)
  then show ?case by (simp add: flat_node_limit gd_nbrs_def)
next
  case (5 g vid)
  then show ?case by (rule flat_laws(2))
next
  case (6 g n vid)
  then show ?case by (rule flat_laws(3))
next
  case (7 g vid)
  then show ?case by (simp add: flat_node_limit)
qed

sublocale flat_graph_store \<subseteq> flat_rev: graph_rev "Flat_InsertNeighborsById wr read" "Flat_GetNeighbors read" gd_nbrs Flat_CheckIdExists
  gi_maximum_degree gd_rev_inv gd_limit Flat_GetIncomingNeighbors
proof (unfold_locales, goal_cases)
  case (1 g vid ns)
  then show ?case using flat_ins_law [of g vid ns] by (auto simp: gd_rev_inv_def)
next
  case (2 g ns vid)
  then show ?case by (rule flat_cell.ins_refused)
next
  case (3 g vid old)
  then show ?case using flat_cell.get_ok by (simp add: gd_rev_inv_def)
next
  case (4 g vid)
  then show ?case using flat_cell.get_absent by (simp add: gd_rev_inv_def)
next
  case (5 g vid)
  then show ?case using flat_cell.degree_ok by (simp add: gd_rev_inv_def)
next
  case (6 g n vid)
  then show ?case using flat_cell.nbrs_limit by (simp add: gd_rev_inv_def)
next
  case (7 g vid)
  then show ?case using flat_cell.node_limit by (simp add: gd_rev_inv_def)
next
  case (8 g vid)
  then show ?case by (auto simp: gd_rev_inv_def gd_inv_def rev_ok_def rev_of_def Flat_GetIncomingNeighbors_def)
next
  case (9 g vid)
  then show ?case by (auto simp: gd_rev_inv_def gd_inv_def rev_ok_def rev_of_def Flat_GetIncomingNeighbors_def)
qed

sublocale flat_graph_store \<subseteq> flat_move: movable_graph "Flat_InsertNeighborsById wr read" "Flat_GetNeighbors read" gd_nbrs Flat_CheckIdExists
  gi_maximum_degree gd_rev_inv gd_limit Flat_GetIncomingNeighbors "Flat_Move wr read" "Flat_ShrinkToFit shrink"
proof (unfold_locales, goal_cases)
  case (1 g "from" to)
  obtain g' where g': "move_node (Flat_GetNeighbors read) (Flat_InsertNeighborsById wr read) (Flat_GetIncomingNeighbors g from) from to g = Inr g'"
    "gd_rev_inv g'" "gd_nbrs g' = renamed from to (gd_nbrs g)" "gi_maximum_degree g' = gi_maximum_degree g" "gd_limit g' = gd_limit g"
    "\<forall>x. Flat_CheckIdExists g' x \<longleftrightarrow> Flat_CheckIdExists g x \<or> x = to \<or> x = from"
    using flat_rev.move_node_ok [OF 1(1-5,7)] by blast
  have "from < gi_max_capacity g'" "to < gi_max_capacity g'" using 1(3,4) g'(5) by (auto simp: gd_limit_def min_def split: if_splits)
  then have "Flat_Move wr read from to g = Inr g'" using Flat_Move_eq [OF _ _ _ 1(2) g'(1)] g'(2) by (simp add: gd_rev_inv_def)
  then show ?case using g' by blast
next
  case (2 g n)
  then have inv: "gd_inv g" by (simp add: gd_rev_inv_def)
  note sh = Flat_ShrinkToFit_ok [OF inv 2(2-4)]
  have "gd_rev_inv (Flat_ShrinkToFit shrink n g)" using sh(1) 2(1) by (simp add: gd_rev_inv_def Flat_ShrinkToFit_def)
  then show ?case using sh by (simp add: flat_node_limit) (simp add: Flat_ShrinkToFit_def)
qed

text \<open>The flat graph over both memory stores.\<close>

interpretation flat_mem: flat_graph_store "MemoryIO_WriteImpl fresh" MemoryIO_ReadImpl mio_size "\<lambda>s. (!) (mio_buffer s)" mio_inv "2 ^ 62"
  MemoryIO_DirectReadImpl "MemoryIO_ResizeImpl fresh" MemoryIO_Shrink for fresh
  by unfold_locales (auto simp: MemoryIO_WriteImpl_def MemoryIO_ReadImpl_def MemoryIO_check_and_realloc_def mio_inv_def Let_def blit_Nil)

interpretation flat_block: flat_graph_store "MemoryBlockIO_WriteImpl fresh" MemoryBlockIO_ReadImpl mbio_size mbio_content mbio_inv "2 ^ 62"
  MemoryBlockIO_DirectReadImpl "MemoryBlockIO_ResizeImpl fresh" MemoryBlockIO_ShrinkImpl for fresh
proof (unfold_locales, goal_cases)
  case (1 s offset)
  have "u64 offset = offset" using 1 by (simp add: mbio_inv_def)
  moreover have "offset \<le> u64 (push_bit (mbio_block_bit s) (length (mbio_blocks s)))"
  proof -
    define B where "B = length (mbio_blocks s) * 2 ^ mbio_block_bit s"
    have "offset \<le> B" "B \<le> 2 ^ 63" using 1 by (auto simp: mbio_inv_def B_def)
    then show ?thesis by (simp add: push_bit_eq_mult flip: B_def)
  qed
  ultimately show ?case using 1 by (simp add: MemoryBlockIO_WriteImpl_def MemoryBlockIO_check_and_realloc_def Let_def block_write_loop.simps)
next
  case (2 s offset)
  then show ?case by (simp add: MemoryBlockIO_ReadImpl_def block_read_loop.simps mbio_inv_def)
qed

section \<open>Properties\<close>

text \<open>Insertions in the order an index makes them: existing nodes, or the next one.\<close>

fun in_order :: "nat \<Rightarrow> nat \<Rightarrow> nat \<Rightarrow> (inner_id \<times> inner_id list) list \<Rightarrow> bool" where
  "in_order deg cap n [] \<longleftrightarrow> True"
| "in_order deg cap n ((vid, ns) # ops) \<longleftrightarrow> vid \<le> n \<and> vid < cap \<and> length ns \<le> deg \<and> (\<forall>x\<in>set ns. x < max n (Suc vid)) \<and>
     in_order deg cap (max n (Suc vid)) ops"

lemma in_order_bounds: "in_order deg cap n ops \<Longrightarrow> n \<le> cap \<Longrightarrow> (vid, ns) \<in> set ops \<Longrightarrow>
    vid < cap \<and> length ns \<le> deg \<and> (\<forall>x\<in>set ns. x < cap)"
  by (induction deg cap n ops rule: in_order.induct) fastforce+

lemma GraphDataCell_new_eq:
  assumes "GraphDataCell_new io deg cap sd flags dup True = Inr g" "cap < 2 ^ 32"
  shows "gd_io g = io" "gi_maximum_degree g = deg" "gi_max_capacity g = cap" "gi_total_count g = 0" "gd_code_line_size g = u32 (deg * 4 + 4)"
    "gd_reverse_edges g = Some Map.empty" "gd_is_support_delete g = sd" "gd_id_bit g = 32 - flags" "gd_remove_flag_mask g = 2 ^ (32 - flags) - 1"
    "gd_node_versions g = (if sd then replicate cap 0 else [])"
  using assms by (auto simp: GraphDataCell_new_def Let_def split: if_splits)

context flat_graph_store
begin

lemma gd_new:
  assumes "GraphDataCell_new io deg cap sd flags dup True = Inr g" "inv io" "8 \<le> flags" "deg < 2 ^ 30 - 1" "cap < 2 ^ 32"
    "cap * (deg * 4 + 4) \<le> limit" "sd \<longrightarrow> cap \<le> 2 ^ (32 - flags) \<and> deg < 2 ^ (32 - flags)"
  shows "gd_rev_inv g" "gd_nbrs g = (\<lambda>x. [])" "gi_total_count g = 0" "gi_maximum_degree g = deg" "gi_max_capacity g = cap"
proof -
  note g = GraphDataCell_new_eq [OF assms(1,5)]
  have "u32 (deg * 4 + 4) = deg * 4 + 4" using assms(4) by simp
  then have "gd_shape g" unfolding gd_shape_def using g assms(2-7) by auto
  moreover show nb: "gd_nbrs g = (\<lambda>x. [])" using g by (simp add: gd_nbrs_def gd_limit_def fun_eq_iff)
  moreover have "rev_ok (gd_nbrs g) Map.empty" unfolding nb by (simp add: rev_ok_def rev_of_def ReverseEdge_GetIncomingNeighbors_def)
  ultimately show "gd_rev_inv g" unfolding gd_rev_inv_def gd_inv_def using g by (simp add: gd_limit_def)
qed (use GraphDataCell_new_eq [OF assms(1,5)] in simp_all)

lemma flat_inserts_ok:
  assumes "gd_rev_inv g" "in_order (gi_maximum_degree g) (gi_max_capacity g) (gi_total_count g) ops" "gi_total_count g \<le> gi_max_capacity g"
    "gd_nbrs g = lists_of m" "\<forall>x. Flat_CheckIdExists g x \<longleftrightarrow> m x \<noteq> None"
  shows "\<exists>g'. foldR (\<lambda>(vid, ns). Flat_InsertNeighborsById wr read vid ns) ops g = Inr g' \<and> gd_rev_inv g' \<and>
    gd_nbrs g' = lists_of (fold (\<lambda>(vid, ns) m. m(vid \<mapsto> ns)) ops m) \<and>
    (\<forall>x. Flat_CheckIdExists g' x \<longleftrightarrow> fold (\<lambda>(vid, ns) m. m(vid \<mapsto> ns)) ops m x \<noteq> None)"
  using assms
proof (induction ops arbitrary: g m)
  case (Cons op ops)
  obtain vid ns where op: "op = (vid, ns)" by fastforce
  have lim: "gd_limit g = gi_total_count g" using Cons.prems(3) by (simp add: gd_limit_def)
  have o: "vid < gi_max_capacity g" "vid \<le> gi_total_count g" "\<forall>n\<in>set ns. n < max (gd_limit g) (Suc vid)" "length ns \<le> gi_maximum_degree g"
    using Cons.prems(2) op lim by auto
  have inv: "gd_inv g" using Cons.prems(1) by (simp add: gd_rev_inv_def)
  obtain g1 where g1: "Flat_InsertNeighborsById wr read vid ns g = Inr g1" "gd_inv g1" "gd_nbrs g1 = (gd_nbrs g)(vid := ns)"
    "gi_maximum_degree g1 = gi_maximum_degree g" "gi_max_capacity g1 = gi_max_capacity g"
    "gi_total_count g1 = max (gi_total_count g) (Suc vid)" "gd_limit g1 = max (gd_limit g) (Suc vid)" "gd_reverse_edges g1 \<noteq> None"
    using Flat_Insert_ok [OF inv o] Cons.prems(1) unfolding gd_rev_inv_def by metis
  have nodes: "\<forall>x. Flat_CheckIdExists g1 x \<longleftrightarrow> (m(vid \<mapsto> ns)) x \<noteq> None"
    using Cons.prems(5) g1(7) lim o(2) unfolding flat_node_limit by (auto simp: less_max_iff_disj less_Suc_eq)
  have "gd_rev_inv g1" using g1(2,8) by (simp add: gd_rev_inv_def)
  moreover have "gd_nbrs g1 = lists_of (m(vid \<mapsto> ns))" unfolding lists_of_upd g1(3) Cons.prems(4) ..
  moreover have "in_order (gi_maximum_degree g1) (gi_max_capacity g1) (gi_total_count g1) ops" "gi_total_count g1 \<le> gi_max_capacity g1"
    using Cons.prems(2,3) op g1(4-6) by simp_all
  ultimately have "\<exists>g'. foldR (\<lambda>(vid, ns). Flat_InsertNeighborsById wr read vid ns) ops g1 = Inr g' \<and> gd_rev_inv g' \<and>
    gd_nbrs g' = lists_of (fold (\<lambda>(vid, ns) m. m(vid \<mapsto> ns)) ops (m(vid \<mapsto> ns))) \<and>
    (\<forall>x. Flat_CheckIdExists g' x \<longleftrightarrow> fold (\<lambda>(vid, ns) m. m(vid \<mapsto> ns)) ops (m(vid \<mapsto> ns)) x \<noteq> None)"
    using Cons.IH nodes by blast
  then show ?case unfolding op using g1(1) by (simp only: foldR.simps fold_simps prod.case bindR_simps)
qed simp

end

text \<open>
  Claim C17. The flat and the sparse graph storage agree: after the same insertions, made in the order of
  an index, both hold for every node the list inserted last, know the same nodes, and give exactly the
  nodes whose list contains a node as its incoming neighbours. The flat graph is taken over the block
  store, whatever its fresh memory holds.
\<close>

theorem flat_sparse_agree:
  assumes "GraphDataCell_new (MemoryBlockIO_new bs) deg cap sd flags dup True = Inr f0" "0 < bs" "bs \<le> 2 ^ 62"
    and "SparseGraphDataCell_new deg flags sd dup True = Inr s0" "8 \<le> flags" "deg < 2 ^ 30 - 1" "cap < 2 ^ 32"
    and "cap * (deg * 4 + 4) \<le> 2 ^ 62" "sd \<longrightarrow> cap \<le> 2 ^ (32 - flags) \<and> deg < 2 ^ (32 - flags)"
    and "in_order deg cap 0 ops"
  defines "spec \<equiv> fold (\<lambda>(vid, ns) m. m(vid \<mapsto> ns)) ops Map.empty"
  shows "\<exists>f s. foldR (\<lambda>(vid, ns). Flat_InsertNeighborsById (MemoryBlockIO_WriteImpl fresh) MemoryBlockIO_ReadImpl vid ns) ops f0 = Inr f \<and>
    foldR (\<lambda>(vid, ns). Sparse_InsertNeighborsById vid ns) ops s0 = Inr s \<and>
    (\<forall>vid. Flat_CheckIdExists f vid = Sparse_CheckIdExists s vid \<and> Flat_CheckIdExists f vid = (spec vid \<noteq> None)) \<and>
    (\<forall>vid ns old. spec vid = Some ns \<longrightarrow>
       Flat_GetNeighbors MemoryBlockIO_ReadImpl f vid old = Inr ns \<and> Sparse_GetNeighbors s vid old = Inr ns) \<and>
    (\<forall>to. set (Flat_GetIncomingNeighbors f to) = {from. \<exists>ns. spec from = Some ns \<and> to \<in> set ns} \<and>
       set (Sparse_GetIncomingNeighbors s to) = set (Flat_GetIncomingNeighbors f to))"
proof -
  note fnew = flat_block.gd_new [OF assms(1) mbio_new(1) [OF assms(2,3)] assms(5-9)]
  have "\<forall>x. Flat_CheckIdExists f0 x \<longleftrightarrow> (Map.empty x :: inner_id list option) \<noteq> None" using fnew(3) by (simp add: Flat_CheckIdExists_def)
  then obtain f where f: "foldR (\<lambda>(vid, ns). Flat_InsertNeighborsById (MemoryBlockIO_WriteImpl fresh) MemoryBlockIO_ReadImpl vid ns) ops f0 = Inr f"
    "flat_block.gd_rev_inv f" "flat_block.gd_nbrs f = lists_of spec" "\<forall>x. Flat_CheckIdExists f x \<longleftrightarrow> spec x \<noteq> None"
    using flat_block.flat_inserts_ok [OF fnew(1), of ops Map.empty fresh] fnew(2-5) assms(10) unfolding spec_def lists_of_upd by auto
  note snew = Sparse_new_inv [OF assms(4,5)]
  have none: "\<forall>x. \<not> Sparse_CheckIdExists s0 x"
    using assms(4) by (auto simp: SparseGraphDataCell_new_def Let_def Sparse_CheckIdExists_def split: if_splits)
  have "cap \<le> sg_limit s0" using snew(4) assms(7,9) by auto
  then have "\<forall>(vid, ns)\<in>set ops. vid < sg_limit s0 \<and> length ns \<le> gi_maximum_degree s0 \<and> (\<forall>n\<in>set ns. n < sg_limit s0)"
    using in_order_bounds [OF assms(10)] snew(3) by fastforce
  from sparse_rev.inserts_ok [OF snew(1,2) none this] obtain s where s: "foldR (\<lambda>(vid, ns). Sparse_InsertNeighborsById vid ns) ops s0 = Inr s"
    "sg_rev_inv s" "sg_nbrs s = lists_of spec" "\<forall>x. Sparse_CheckIdExists s x \<longleftrightarrow> spec x \<noteq> None"
    unfolding last_lists_def spec_def by blast
  have "Flat_GetNeighbors MemoryBlockIO_ReadImpl f vid old = Inr ns \<and> Sparse_GetNeighbors s vid old = Inr ns" if "spec vid = Some ns" for vid ns old
    using that f(3,4) s(3,4) flat_block.flat_rev.get_ok [OF f(2), of vid old] sparse_rev.get_ok [OF s(2), of vid old] by (simp add: lists_of_def)
  moreover have "set (Flat_GetIncomingNeighbors f to) = {from. \<exists>ns. spec from = Some ns \<and> to \<in> set ns}"
    "set (Sparse_GetIncomingNeighbors s to) = set (Flat_GetIncomingNeighbors f to)" for to
    using flat_block.flat_rev.incoming_ok [OF f(2), of to] sparse_rev.incoming_ok [OF s(2), of to] f(3) s(3) by (simp_all add: lists_of_mem)
  ultimately show ?thesis using f(1,4) s(1,4) by (intro exI [of _ f] exI [of _ s]) simp
qed

theorem flat_sparse_agree_witness:
  "\<exists>f s. Flat_GetNeighbors MemoryBlockIO_ReadImpl f 0 [] = Inr [1] \<and> Sparse_GetNeighbors s 0 [] = Inr [1] \<and>
    set (Flat_GetIncomingNeighbors f 0) = {1} \<and> set (Sparse_GetIncomingNeighbors s 0) = {1}"
proof -
  let ?ops = "[(0, []), (1, [0]), (0, [1])] :: (inner_id \<times> inner_id list) list"
  obtain f0 where f0: "GraphDataCell_new (MemoryBlockIO_new 8) 2 10 True 8 False True = Inr f0" by (simp add: GraphDataCell_new_def)
  obtain s0 where s0: "SparseGraphDataCell_new 2 8 True False True = Inr s0" by (simp add: SparseGraphDataCell_new_def)
  have "in_order 2 10 0 ?ops" by simp
  from flat_sparse_agree [OF f0 _ _ s0 _ _ _ _ _ this, of "\<lambda>_. 0"] obtain f s where
    g: "\<forall>vid ns old. fold (\<lambda>(vid, ns) m. m(vid \<mapsto> ns)) ?ops Map.empty vid = Some ns \<longrightarrow>
       Flat_GetNeighbors MemoryBlockIO_ReadImpl f vid old = Inr ns \<and> Sparse_GetNeighbors s vid old = Inr ns"
    "\<forall>to. set (Flat_GetIncomingNeighbors f to) = {from. \<exists>ns. fold (\<lambda>(vid, ns) m. m(vid \<mapsto> ns)) ?ops Map.empty from = Some ns \<and> to \<in> set ns} \<and>
       set (Sparse_GetIncomingNeighbors s to) = set (Flat_GetIncomingNeighbors f to)"
    by auto
  have "set (Flat_GetIncomingNeighbors f 0) = {1}" using g(2) by (auto split: if_splits)
  moreover from this have "set (Sparse_GetIncomingNeighbors s 0) = {1}" using g(2) by blast
  moreover have "Flat_GetNeighbors MemoryBlockIO_ReadImpl f 0 [] = Inr [1]" "Sparse_GetNeighbors s 0 [] = Inr [1]"
    using g(1) [rule_format, of 0 "[1]" "[]"] by simp_all
  ultimately show ?thesis by blast
qed

text \<open>An identifier outside the versions, wherever it is in the list.\<close>

lemma flat_untag_UB: "x \<in> set xs \<Longrightarrow> length versions \<le> and x flag_mask \<Longrightarrow> flat_untag id_bit flag_mask versions xs = Inl UB"
  by (induction xs) (auto simp: Let_def)



end
