(* ===== verification/HGraph.thy ===== *)
theory HGraph
  imports BruteForce Pruning Searcher GraphDataCell
begin

text \<open>
  \<open>src/algorithm/hgraph\<close>: the hierarchical graph index. It composes the label table, the code stores, a
  bottom graph with all elements and route graphs above it, the graph searcher and the edge pruning:
  linking a new element (\<open>hgraph_build.cpp\<close>) and removing elements (\<open>hgraph_modify.cpp\<close>).

  The bottom graph and the code stores are used through their virtual methods, which are the fields of
  \<open>graph_methods\<close> and \<open>code_methods\<close>; the route graphs are sparse graphs, as in the source. The locks make
  the linking of one element atomic for the lists it touches and are left out; a visited list taken from
  the pool has just been reset and is a new one here.
\<close>

section \<open>Methods and state\<close>

record 'g graph_methods =
  gm_InsertNeighborsById :: "inner_id \<Rightarrow> inner_id list \<Rightarrow> 'g \<Rightarrow> 'g result"
  gm_GetNeighbors :: "'g \<Rightarrow> inner_id \<Rightarrow> inner_id list \<Rightarrow> inner_id list result"
  gm_GetIncomingNeighbors :: "'g \<Rightarrow> inner_id \<Rightarrow> inner_id list"
  gm_Move :: "inner_id \<Rightarrow> inner_id \<Rightarrow> 'g \<Rightarrow> 'g result"
  gm_Resize :: "nat \<Rightarrow> 'g \<Rightarrow> 'g result"
  gm_ShrinkToFit :: "nat \<Rightarrow> 'g \<Rightarrow> 'g"
  gm_RecoverDeleteNeighborsById :: "inner_id \<Rightarrow> 'g \<Rightarrow> 'g result"
  gm_SetDuplicateId :: "inner_id \<Rightarrow> inner_id \<Rightarrow> 'g \<Rightarrow> 'g"
  gm_GetDuplicateIds :: "'g \<Rightarrow> inner_id \<Rightarrow> inner_id list result"
  gm_TotalCount :: "'g \<Rightarrow> nat"
  gm_MaximumDegree :: "'g \<Rightarrow> nat"

text \<open>The methods of \<open>SparseGraphDataCell\<close>; \<open>Resize\<close> has an empty body.\<close>

definition sparse_methods :: "sparse_graph graph_methods" where
  "sparse_methods =
     \<lparr>gm_InsertNeighborsById = Sparse_InsertNeighborsById, gm_GetNeighbors = Sparse_GetNeighbors,
      gm_GetIncomingNeighbors = Sparse_GetIncomingNeighbors, gm_Move = Sparse_Move, gm_Resize = (\<lambda>n. Inr),
      gm_ShrinkToFit = GraphInterface_ShrinkToFit, gm_RecoverDeleteNeighborsById = Sparse_RecoverDeleteNeighborsById,
      gm_SetDuplicateId = GraphInterface_SetDuplicateId Sparse_SetDuplicateId,
      gm_GetDuplicateIds = GraphInterface_GetDuplicateIds Sparse_GetDuplicateIds,
      gm_TotalCount = gi_total_count, gm_MaximumDegree = gi_maximum_degree\<rparr>"

text \<open>The methods of \<open>GraphDataCell\<close> over a store given by its operations.\<close>

definition flat_methods ::
  "(bytes \<Rightarrow> nat \<Rightarrow> 's \<Rightarrow> 's result) \<Rightarrow> ('s \<Rightarrow> nat \<Rightarrow> nat \<Rightarrow> bytes option result) \<Rightarrow> (nat \<Rightarrow> 's \<Rightarrow> 's) \<Rightarrow> (nat \<Rightarrow> 's \<Rightarrow> 's) \<Rightarrow>
     's flat_graph graph_methods" where
  "flat_methods wr read resize shrink =
     \<lparr>gm_InsertNeighborsById = Flat_InsertNeighborsById wr read, gm_GetNeighbors = Flat_GetNeighbors read,
      gm_GetIncomingNeighbors = Flat_GetIncomingNeighbors, gm_Move = Flat_Move wr read, gm_Resize = Flat_Resize resize,
      gm_ShrinkToFit = Flat_ShrinkToFit shrink, gm_RecoverDeleteNeighborsById = Flat_RecoverDeleteNeighborsById,
      gm_SetDuplicateId = GraphInterface_SetDuplicateId Dense_SetDuplicateId,
      gm_GetDuplicateIds = GraphInterface_GetDuplicateIds Dense_GetDuplicateIds,
      gm_TotalCount = gi_total_count, gm_MaximumDegree = gi_maximum_degree\<rparr>"

text \<open>Of a code store: \<open>'v\<close> is the type of vectors.\<close>

record ('c, 'v) code_methods =
  cm_InsertVector :: "'v \<Rightarrow> inner_id \<Rightarrow> 'c \<Rightarrow> 'c result"
  cm_Move :: "inner_id \<Rightarrow> inner_id \<Rightarrow> 'c \<Rightarrow> 'c result"
  cm_Resize :: "nat \<Rightarrow> 'c \<Rightarrow> 'c"
  cm_ShrinkToFit :: "nat \<Rightarrow> 'c \<Rightarrow> 'c"
  cm_Query :: "'c \<Rightarrow> 'v \<Rightarrow> inner_id \<Rightarrow> dist result"
  cm_ComputePairVectors :: "'c \<Rightarrow> pair_dist"
  cm_CompareVectors :: "'c \<Rightarrow> inner_id \<Rightarrow> inner_id \<Rightarrow> bool result"
  cm_TotalCount :: "'c \<Rightarrow> nat"

text \<open>
  What an index keeps fixed. \<open>hc_order\<close> gives the elements of an \<open>unordered_set\<close> filled with a sequence in
  the order of iteration; \<open>hc_is_rabitq\<close> whether the quantizer of the basic codes is RaBitQ.
\<close>

record ('c, 'v, 'g, 'e) hgraph_config =
  hc_codes :: "('c, 'v) code_methods"
  hc_graph :: "'g graph_methods"
  hc_extra_Move :: "inner_id \<Rightarrow> inner_id \<Rightarrow> 'e \<Rightarrow> 'e"
  hc_extra_Resize :: "nat \<Rightarrow> 'e \<Rightarrow> 'e"
  hc_route_graph :: sparse_graph
  hc_order :: "inner_id list \<Rightarrow> inner_id list"
  hc_ef_construct :: nat
  hc_alpha_times :: "dist \<Rightarrow> dist"
  hc_use_reorder :: bool
  hc_reorder_by_base :: bool
  hc_build_by_base :: bool
  hc_is_rabitq :: bool
  hc_create_new_raw_vector :: bool
  hc_support_duplicate :: bool
  hc_duplicate_distance_threshold :: dist
  hc_resize_increase_count_bit :: nat

record ('c, 'g, 'e, 'd) hgraph =
  hg_basic_flatten_codes :: 'c
  hg_high_precise_codes :: "'c option"
  hg_raw_vector :: "'c option"
  hg_temporary_build_flatten_codes :: "'c option"
  hg_extra_infos :: "'e option"
  hg_route_graphs :: "sparse_graph list"
  hg_bottom_graph :: 'g
  hg_entry_point_id :: inner_id
  hg_total_count :: nat
  hg_max_capacity :: nat
  hg_delete_count :: int
  hg_label_table :: "'d label_table"

definition has_precise_reorder :: "('c, 'v, 'g, 'e) hgraph_config \<Rightarrow> bool" where
  "has_precise_reorder cf \<longleftrightarrow> hc_use_reorder cf \<and> \<not> hc_reorder_by_base cf"

definition need_temporary_sq8_build_data :: "('c, 'v, 'g, 'e) hgraph_config \<Rightarrow> bool" where
  "need_temporary_sq8_build_data cf \<longleftrightarrow> \<not> has_precise_reorder cf \<and> hc_is_rabitq cf"

section \<open>Linking an element\<close>

text \<open>The parameters of the searches of the construction, with the defaults of \<open>InnerSearchParam\<close>.\<close>

definition route_param :: "inner_id \<Rightarrow> inner_search_param" where
  "route_param ep =
     \<lparr>isp_topk = 1, isp_radius = 0, isp_ep = ep, isp_ef = 1, isp_hops_limit = 2 ^ 32 - 1, isp_is_inner_id_allowed = None,
      isp_search_mode = KNN_SEARCH, isp_range_search_limit_size = - 1, isp_enable_rabitq_one_bit_search = False,
      isp_duplicate_id = - 1, isp_duplicate_query_id = 2 ^ 32 - 1, isp_find_duplicate = False,
      isp_duplicate_distance_threshold = 0, isp_consider_duplicate = False\<rparr>"

definition build_param :: "('c, 'v, 'g, 'e) hgraph_config \<Rightarrow> inner_id \<Rightarrow> inner_search_param \<Rightarrow> inner_search_param" where
  "build_param cf inner p =
     (let p = p\<lparr>isp_ef := hc_ef_construct cf, isp_topk := int (hc_ef_construct cf)\<rparr>
      in if hc_support_duplicate cf
         then p\<lparr>isp_find_duplicate := True, isp_duplicate_query_id := inner,
                isp_duplicate_distance_threshold := hc_duplicate_distance_threshold cf\<rparr>
         else p)"

definition graph_searcher :: "'g graph_methods \<Rightarrow> 'g \<Rightarrow> ('c, 'v) code_methods \<Rightarrow> 'c \<Rightarrow> 'v \<Rightarrow> unit searcher" where
  "graph_searcher gm g cm c query =
     \<lparr>sr_GetNeighbors = gm_GetNeighbors gm g, sr_GetDuplicateIds = gm_GetDuplicateIds gm g,
      sr_MaximumDegree = gm_MaximumDegree gm g, sr_Query = cm_Query cm c query,
      sr_QueryWithDistanceLowerBound = (\<lambda>i. bindR (cm_Query cm c query i) (\<lambda>d. Inr (d, 0))),
      sr_TotalCount = cm_TotalCount cm c, sr_CompareVectors = cm_CompareVectors cm c,
      sr_ShouldSkipFilterCheck = (\<lambda>k. (False, k)), sr_attr_ft = None, sr_CheckOvertime = (\<lambda>_. False), sr_radius_bound = (\<lambda>r. r)\<rparr>"

text \<open>
  \<open>search_one_graph\<close> with a visited list from the pool and no filter: the result and the duplicate found.
  Without a filter, a range or lower bounds the strategies and bounds of the searcher are never used.
\<close>

definition search_one_graph ::
  "'g graph_methods \<Rightarrow> 'g \<Rightarrow> ('c, 'v) code_methods \<Rightarrow> 'c \<Rightarrow> nat \<Rightarrow> 'v \<Rightarrow> inner_search_param \<Rightarrow> (standard_heap \<times> int) result" where
  "search_one_graph gm g cm c capacity query p =
     bindR (BasicSearcher_search_impl (graph_searcher gm g cm c query) p False () (VisitedList_new capacity)) (\<lambda>(result, dup, _).
       Inr (result, dup))"

text \<open>The codes the construction computes distances with.\<close>

definition build_codes :: "('c, 'v, 'g, 'e) hgraph_config \<Rightarrow> ('c, 'g, 'e, 'd) hgraph \<Rightarrow> 'c result" where
  "build_codes cf h =
     (case hg_temporary_build_flatten_codes h of
        Some c \<Rightarrow> Inr c
      | None \<Rightarrow>
          if need_temporary_sq8_build_data cf \<and> hg_raw_vector h \<noteq> None then Inr (the (hg_raw_vector h))
          else if has_precise_reorder cf \<and> \<not> hc_build_by_base cf
          then (case hg_high_precise_codes h of None \<Rightarrow> Inl UB | Some c \<Rightarrow> Inr c)
          else Inr (hg_basic_flatten_codes h))"

text \<open>
  The descent through the route graphs. The loop compares the unsigned index with the \<open>int\<close> level, so it
  is not entered at all for level \<open>-1\<close>; with no route graph the index wraps around.
\<close>

definition descend ::
  "('c, 'v, 'g, 'e) hgraph_config \<Rightarrow> 'c \<Rightarrow> nat \<Rightarrow> 'v \<Rightarrow> int \<Rightarrow> sparse_graph list \<Rightarrow> inner_search_param \<Rightarrow> inner_search_param result" where
  "descend cf c capacity data level route_graphs p =
     (if level < 0 then Inr p
      else if route_graphs = [] then Inl UB
      else foldR (\<lambda>graph p.
             bindR (search_one_graph sparse_methods graph (hc_codes cf) c capacity data p) (\<lambda>(result, _).
             bindR (StandardHeap_Top result) (\<lambda>r. Inr (p\<lparr>isp_ep := snd r\<rparr>)))) (rev (drop (nat level + 1) route_graphs)) p)"

text \<open>The result of a search without the new element itself, linked into a graph.\<close>

definition connect_result ::
  "('c, 'v, 'g, 'e) hgraph_config \<Rightarrow> 'h graph_methods \<Rightarrow> 'c \<Rightarrow> inner_id \<Rightarrow> standard_heap \<Rightarrow> 'h \<Rightarrow> 'h result" where
  "connect_result cf gm c inner result graph =
     bindR (edges_drain result) (\<lambda>(recs, _).
     bindR (foldR edges_push (filter (\<lambda>(dist, i). i \<noteq> inner) recs) edges_new) (\<lambda>filtered_result.
     bindR (mutually_connect_new_element (gm_InsertNeighborsById gm) (gm_GetNeighbors gm) (hc_alpha_times cf)
              (cm_ComputePairVectors (hc_codes cf) c) (gm_MaximumDegree gm graph) inner filtered_result graph) (\<lambda>(_, graph).
       Inr graph)))"

definition link_route ::
  "('c, 'v, 'g, 'e) hgraph_config \<Rightarrow> 'c \<Rightarrow> nat \<Rightarrow> 'v \<Rightarrow> inner_id \<Rightarrow> inner_search_param \<Rightarrow> sparse_graph \<Rightarrow> sparse_graph result" where
  "link_route cf c capacity data inner p graph =
     (if gi_total_count graph \<noteq> 0
      then bindR (search_one_graph sparse_methods graph (hc_codes cf) c capacity data p) (\<lambda>(result, _).
             connect_result cf sparse_methods c inner result graph)
      else Sparse_InsertNeighborsById inner [] graph)"

fun link_routes ::
  "('c, 'v, 'g, 'e) hgraph_config \<Rightarrow> 'c \<Rightarrow> nat \<Rightarrow> 'v \<Rightarrow> inner_id \<Rightarrow> inner_search_param \<Rightarrow> nat \<Rightarrow> sparse_graph list \<Rightarrow> sparse_graph list result" where
  "link_routes cf c capacity data inner p 0 graphs = Inr graphs"
| "link_routes cf c capacity data inner p (Suc n) [] = Inl UB"
| "link_routes cf c capacity data inner p (Suc n) (graph # graphs) =
     bindR (link_route cf c capacity data inner p graph) (\<lambda>graph.
     bindR (link_routes cf c capacity data inner p n graphs) (\<lambda>graphs. Inr (graph # graphs)))"

definition graph_add_one ::
  "('c, 'v, 'g, 'e) hgraph_config \<Rightarrow> 'v \<Rightarrow> int \<Rightarrow> inner_id \<Rightarrow> ('c, 'g, 'e, 'd) hgraph \<Rightarrow> (bool \<times> ('c, 'g, 'e, 'd) hgraph) result" where
  "graph_add_one cf data level inner h =
     bindR (build_codes cf h) (\<lambda>c.
     bindR (descend cf c (hg_max_capacity h) data level (hg_route_graphs h) (route_param (hg_entry_point_id h))) (\<lambda>p.
       let p = build_param cf inner p; gm = hc_graph cf; bottom = hg_bottom_graph h;
           link_levels = (\<lambda>bottom.
             bindR (link_routes cf c (hg_max_capacity h) data inner p (nat (level + 1)) (hg_route_graphs h)) (\<lambda>routes.
               Inr (True, h\<lparr>hg_bottom_graph := bottom, hg_route_graphs := routes\<rparr>)))
       in if gm_TotalCount gm bottom \<noteq> 0
          then bindR (search_one_graph gm bottom (hc_codes cf) c (hg_max_capacity h) data p) (\<lambda>(result, duplicate_id).
                 if hc_support_duplicate cf \<and> duplicate_id \<ge> 0
                 then Inr (False, h\<lparr>hg_bottom_graph := gm_SetDuplicateId gm (nat duplicate_id) inner bottom\<rparr>)
                 else bindR (connect_result cf gm c inner result bottom) link_levels)
          else bindR (gm_InsertNeighborsById gm inner [] bottom) link_levels))"

definition insert_persistent_codes ::
  "('c, 'v, 'g, 'e) hgraph_config \<Rightarrow> 'v \<Rightarrow> inner_id \<Rightarrow> ('c, 'g, 'e, 'd) hgraph \<Rightarrow> ('c, 'g, 'e, 'd) hgraph result" where
  "insert_persistent_codes cf data inner h =
     bindR (cm_InsertVector (hc_codes cf) data inner (hg_basic_flatten_codes h)) (\<lambda>basic.
     bindR (if has_precise_reorder cf
            then (case hg_high_precise_codes h of None \<Rightarrow> Inl UB
                  | Some c \<Rightarrow> bindR (cm_InsertVector (hc_codes cf) data inner c) (\<lambda>c. Inr (Some c)))
            else Inr (hg_high_precise_codes h)) (\<lambda>precise.
     bindR (if hc_create_new_raw_vector cf
            then (case hg_raw_vector h of None \<Rightarrow> Inl UB
                  | Some c \<Rightarrow> bindR (cm_InsertVector (hc_codes cf) data inner c) (\<lambda>c. Inr (Some c)))
            else Inr (hg_raw_vector h)) (\<lambda>raw.
       Inr (h\<lparr>hg_basic_flatten_codes := basic, hg_high_precise_codes := precise, hg_raw_vector := raw\<rparr>))))"

definition add_one_point ::
  "('c, 'v, 'g, 'e) hgraph_config \<Rightarrow> 'v \<Rightarrow> int \<Rightarrow> inner_id \<Rightarrow> bool \<Rightarrow> ('c, 'g, 'e, 'd) hgraph \<Rightarrow> ('c, 'g, 'e, 'd) hgraph result" where
  "add_one_point cf data level inner insert_codes h =
     bindR (if insert_codes then insert_persistent_codes cf data inner h else Inr h) (\<lambda>h.
       if level \<ge> int (length (hg_route_graphs h)) \<or> gm_TotalCount (hc_graph cf) (hg_bottom_graph h) = 0
       then let routes = hg_route_graphs h @ replicate (nat (level + 1) - length (hg_route_graphs h)) (hc_route_graph cf)
            in bindR (graph_add_one cf data level inner (h\<lparr>hg_route_graphs := routes\<rparr>)) (\<lambda>(insert_success, h).
                 if insert_success then Inr (h\<lparr>hg_entry_point_id := inner\<rparr>)
                 else if hg_route_graphs h = [] then Inl UB
                 else Inr (h\<lparr>hg_route_graphs := butlast (hg_route_graphs h)\<rparr>))
       else bindR (graph_add_one cf data level inner h) (\<lambda>(_, h). Inr h))"

text \<open>\<open>resize\<close>: \<open>max_capacity_\<close> is a 32-bit number.\<close>

definition hgraph_resize ::
  "('c, 'v, 'g, 'e) hgraph_config \<Rightarrow> nat \<Rightarrow> ('c, 'g, 'e, 'd) hgraph \<Rightarrow> ('c, 'g, 'e, 'd) hgraph result" where
  "hgraph_resize cf new_size h =
     bindR (next_multiple_of_power_of_two new_size (hc_resize_increase_count_bit cf)) (\<lambda>n.
       if hg_max_capacity h \<ge> n then Inr h
       else bindR (gm_Resize (hc_graph cf) (u32 n) (hg_bottom_graph h)) (\<lambda>bottom.
         Inr (h\<lparr>hg_label_table := LabelTable_Resize n (hg_label_table h),
                hg_bottom_graph := bottom,
                hg_basic_flatten_codes := cm_Resize (hc_codes cf) (u32 n) (hg_basic_flatten_codes h),
                hg_high_precise_codes := (if has_precise_reorder cf then map_option (cm_Resize (hc_codes cf) (u32 n)) (hg_high_precise_codes h)
                                          else hg_high_precise_codes h),
                hg_raw_vector := (if hc_create_new_raw_vector cf then map_option (cm_Resize (hc_codes cf) (u32 n)) (hg_raw_vector h)
                                  else hg_raw_vector h),
                hg_extra_infos := map_option (hc_extra_Resize cf (u32 n)) (hg_extra_infos h),
                hg_max_capacity := u32 n\<rparr>)))"

section \<open>The contract of a graph that grows\<close>

text \<open>Linking needs neither the incoming edges nor the renaming of nodes, so it is proved for every growing storage.\<close>

locale growing_graph = graph_cell +
  fixes room :: "'a \<Rightarrow> inner_id \<Rightarrow> bool"
  assumes grow_ok: "inv g \<Longrightarrow> room g vid \<Longrightarrow> set ns \<subseteq> insert vid {..<limit g} \<Longrightarrow> length ns \<le> degree g \<Longrightarrow>
      \<exists>g'. ins vid ns g = Inr g' \<and> inv g' \<and> nbrs g' = (nbrs g)(vid := ns) \<and> degree g' = degree g \<and>
        limit g \<le> limit g' \<and> vid < limit g' \<and> (\<forall>x. node g' x \<longleftrightarrow> node g x \<or> x = vid)"
begin

definition serves :: "'a graph_methods \<Rightarrow> bool" where
  "serves gm \<longleftrightarrow> gm_InsertNeighborsById gm = ins \<and> gm_GetNeighbors gm = get \<and> gm_MaximumDegree gm = degree"

text \<open>A level of the index over the elements \<open>S\<close>: edges run between elements, and to nodes of the level.\<close>

definition level_ok :: "inner_id set \<Rightarrow> 'a \<Rightarrow> bool" where
  "level_ok S g \<longleftrightarrow> inv g \<and> 0 < degree g \<and> (\<forall>v. \<forall>w\<in>set (nbrs g v). v \<in> S \<and> w \<in> S \<and> w \<noteq> v \<and> node g w)"

text \<open>A search started at a node of the level finds nodes of the level.\<close>

lemma level_search:
  assumes "serves gm" "level_ok S g" "ep \<in> S" "node g ep" "S \<subseteq> {..<capacity}"
    and dist: "\<forall>v\<in>S. cm_Query cm c query v = Inr (d v)"
    and p: "p = (route_param ep)\<lparr>isp_ef := n, isp_topk := int n\<rparr>" "0 < n" "n < 2 ^ 63"
  shows "\<exists>h recs. search_one_graph gm g cm c capacity query p = Inr (h, - 1) \<and> sh_inv True h \<and> mset recs = sh_recs h \<and> recs \<noteq> [] \<and>
    distinct (map snd recs) \<and> (\<forall>r\<in>set recs. snd r \<in> S \<and> node g (snd r))"
proof -
  define T where "T = {v \<in> S. node g v}"
  let ?sr = "graph_searcher gm g cm c query"
  have inv: "inv g" and edges: "\<And>v w. w \<in> set (nbrs g v) \<Longrightarrow> v \<in> S \<and> w \<in> S \<and> w \<noteq> v \<and> node g w" using assms(2) by (auto simp: level_ok_def)
  have sr: "sr_GetNeighbors ?sr = get g" "sr_MaximumDegree ?sr = degree g" "sr_Query ?sr = cm_Query cm c query"
    using assms(1) by (simp_all add: graph_searcher_def serves_def)
  have pf: "isp_search_mode p = KNN_SEARCH" "\<not> isp_find_duplicate p" "0 < isp_ef p" "0 \<le> isp_topk p" "isp_topk p < 2 ^ 63"
    "isp_duplicate_id p = - 1" "isp_ep p = ep" "\<not> isp_consider_duplicate p" "\<not> isp_enable_rabitq_one_bit_search p" "isp_ef p = n" "isp_topk p = int n"
    using p by (simp_all add: route_param_def)
  have srch: "searchable ?sr p (nbrs g) d T" unfolding searchable_def
  proof
    fix v assume "v \<in> T"
    then have v: "v \<in> S" "node g v" by (auto simp: T_def)
    have "\<forall>old. sr_GetNeighbors ?sr v old = Inr (nbrs g v)" using get_ok [OF inv v(2)] sr(1) by simp
    moreover have "length (nbrs g v) \<le> sr_MaximumDegree ?sr" using degree_ok [OF inv] sr(2) by simp
    moreover have "set (nbrs g v) \<subseteq> T" using edges by (auto simp: T_def)
    moreover have "query_one ?sr p v = Inr (d v, 0)" using dist v(1) pf(9) sr(3) by (simp add: query_one_def)
    ultimately show "(\<forall>old. sr_GetNeighbors ?sr v old = Inr (nbrs g v)) \<and> length (nbrs g v) \<le> sr_MaximumDegree ?sr \<and> set (nbrs g v) \<subseteq> T \<and>
      (\<exists>l. query_one ?sr p v = Inr (d v, l)) \<and> (isp_consider_duplicate p \<longrightarrow> sr_GetDuplicateIds ?sr v = Inr [])" using pf(8) by simp
  qed
  have T: "T \<subseteq> {..<vl_max_size (VisitedList_new capacity)}" "isp_ep p \<in> T"
    using assms(3-5) pf(7) by (auto simp: T_def VisitedList_new_ok)
  from knn_search_ok [OF pf(1-5) srch T(2,1) VisitedList_new_ok(1,2), where collects = False and skip = "()"]
  obtain h s V where h: "BasicSearcher_search_impl ?sr p False () (VisitedList_new capacity) = Inr (h, - 1, s)" "sh_inv True h"
    "ep \<in> V" "V \<subseteq> reach (nbrs g) ep" "sh_recs h \<subseteq># items (check_func ?sr p) d V"
    "keys fst (sh_recs h) = take (min (nat (isp_topk p)) (isp_ef p)) (keys fst (items (check_func ?sr p) d V))"
    unfolding pf(6,7) by blast
  have "reach (nbrs g) ep \<subseteq> T" using T(2) edges pf(7) by (intro reach_subset) (auto simp: T_def)
  then have V: "V \<subseteq> T" using h(4) by blast
  have fin: "finite V" using V T(1) finite_subset [OF _ finite_lessThan] by blast
  have ok: "check_func ?sr p i" for i using p(1) by (simp add: check_func_def graph_searcher_def route_param_def)
  obtain recs where recs: "mset recs = sh_recs h" by (metis ex_mset)
  have sub: "mset recs \<subseteq># items (check_func ?sr p) d V" using recs h(5) by simp
  have "\<forall>r\<in>set recs. snd r \<in> T"
    using mset_subset_eqD [OF sub] set_items [OF fin] V by (metis set_mset_mset subsetD)
  moreover have "distinct (map snd recs)"
  proof -
    have "image_mset snd (mset recs) \<subseteq># image_mset snd (items (check_func ?sr p) d V)" using sub by (rule image_mset_subseteq_mono)
    then have "mset (map snd recs) \<subseteq># mset_set {i \<in> V. check_func ?sr p i}" by (simp add: items_def image_mset.compositionality comp_def)
    then have "mset (map snd recs) \<subseteq># mset (sorted_list_of_set {i \<in> V. check_func ?sr p i})"
      by (metis mset_sorted_list_of_multiset sorted_list_of_mset_set)
    then show ?thesis by (rule distinct_submset) simp
  qed
  moreover have "recs \<noteq> []"
  proof -
    have "0 < size (items (check_func ?sr p) d V)" using h(3) ok fin by (auto simp: size_items card_gt_0_iff)
    then have "keys fst (items (check_func ?sr p) d V) \<noteq> []" by (metis keys_props(1) length_0_conv less_irrefl)
    then have "keys fst (sh_recs h) \<noteq> []" using h(6) pf(3,10,11) by auto
    then have "sh_recs h \<noteq> {#}" by (auto simp: keys_def)
    then show ?thesis using recs by auto
  qed
  ultimately show ?thesis using h(1,2) recs by (intro exI [of _ h] exI [of _ recs]) (auto simp: search_one_graph_def T_def)
qed

text \<open>Linking a new element to what a search has found.\<close>

lemma level_connect:
  assumes gm: "serves gm" and lv: "level_ok S g" and "inner \<notin> S" "room g inner"
    and h: "sh_inv True h" "mset recs = sh_recs h" "recs \<noteq> []" "distinct (map snd recs)" "\<forall>r\<in>set recs. snd r \<in> S \<and> node g (snd r)"
    and pairs: "\<forall>i\<in>insert inner S. \<forall>j\<in>insert inner S. cm_ComputePairVectors (hc_codes cf) c i j = Inr (pd i j)"
  shows "\<exists>g'. connect_result cf gm c inner h g = Inr g' \<and> level_ok (insert inner S) g' \<and> degree g' = degree g \<and> nbrs g' inner \<noteq> [] \<and>
    (\<forall>x. node g' x \<longleftrightarrow> node g x \<or> x = inner)"
proof -
  define T where "T = insert inner {v \<in> S. node g v}"
  have inv: "inv g" and deg: "0 < degree g" and edges: "\<And>v w. w \<in> set (nbrs g v) \<Longrightarrow> v \<in> S \<and> w \<in> S \<and> w \<noteq> v \<and> node g w"
    using lv by (auto simp: level_ok_def)
  have Tlim: "T \<subseteq> insert inner {..<limit g}" using node_limit [OF inv] by (auto simp: T_def)
  obtain rs e where rs: "edges_drain h = Inr (rs, e)" "mset rs = sh_recs h" using edges_drain_ok [OF h(1)] by blast
  have same: "mset rs = mset recs" using rs(2) h(2) by simp
  then have set_rs: "set rs = set recs" by (rule mset_eq_setD)
  have filt: "filter (\<lambda>(dist, i). i \<noteq> inner) rs = rs" unfolding set_rs filter_id_conv using h(5) assms(3) set_rs by auto
  have new: "sh_inv True edges_new" "sh_recs edges_new = {#}" by (simp_all add: sh_inv_def sh_recs_def StandardHeap_new_def is_heap_def)
  obtain cands where c: "foldR edges_push rs edges_new = Inr cands" "sh_inv True cands" "sh_recs cands = mset rs"
    using std.push_all [OF new(1), of rs] new(2) by auto
  have first: "\<forall>sel. length sel \<le> degree g \<and> set sel \<subseteq> T \<longrightarrow> (\<exists>g1. ins inner sel g = Inr g1 \<and> inv g1 \<and> nbrs g1 = (nbrs g)(inner := sel) \<and>
      degree g1 = degree g \<and> T \<subseteq> {..<limit g1} \<and> (\<forall>x. node g1 x \<longleftrightarrow> node g x \<or> x = inner))"
  proof (intro allI impI, elim conjE)
    fix sel assume sel: "length sel \<le> degree g" "set sel \<subseteq> T"
    have "set sel \<subseteq> insert inner {..<limit g}" using sel(2) Tlim by blast
    from grow_ok [OF inv assms(4) this sel(1)] obtain g1 where "ins inner sel g = Inr g1" "inv g1" "nbrs g1 = (nbrs g)(inner := sel)" "degree g1 = degree g" "limit g \<le> limit g1"
      "inner < limit g1" "\<forall>x. node g1 x \<longleftrightarrow> node g x \<or> x = inner" by blast
    then show "\<exists>g1. ins inner sel g = Inr g1 \<and> inv g1 \<and> nbrs g1 = (nbrs g)(inner := sel) \<and>
      degree g1 = degree g \<and> T \<subseteq> {..<limit g1} \<and> (\<forall>x. node g1 x \<longleftrightarrow> node g x \<or> x = inner)" using Tlim by force
  qed
  have ids: "\<forall>r\<in>#sh_recs cands. snd r \<in> T \<and> snd r \<noteq> inner \<and> set (nbrs g (snd r)) \<subseteq> T"
    unfolding c(3) set_mset_mset set_rs using h(5) edges assms(3) by (auto simp: T_def)
  have ne: "sh_recs cands \<noteq> {#}" unfolding c(3) same using h(3) by simp
  have dis: "distinct (map snd rs)" using h(4) same by (metis mset_map mset_eq_imp_distinct_iff)
  have prs: "\<forall>i\<in>T. \<forall>j\<in>T. cm_ComputePairVectors (hc_codes cf) c i j = Inr (pd i j)" using pairs by (auto simp: T_def)
  have inT: "inner \<in> T" by (simp add: T_def)
  from mutually_connect_ok [OF first deg inT c(2) ne ids dis c(3) [symmetric] prs, of "hc_alpha_times cf"] obtain sel g' where m: "mutually_connect_new_element ins get (hc_alpha_times cf) (cm_ComputePairVectors (hc_codes cf) c)
      (degree g) inner cands g = Inr (last sel, g')" "inv g'" "sel \<noteq> []" "mset sel \<subseteq># image_mset snd (sh_recs cands)" "degree g' = degree g"
    "\<forall>x. node g' x \<longleftrightarrow> node g x \<or> x = inner \<or> x \<in> set sel" "nbrs g' inner = sel"
    "\<forall>x. x \<noteq> inner \<and> x \<notin> set sel \<longrightarrow> nbrs g' x = nbrs g x" "\<forall>x\<in>set sel. set (nbrs g' x) \<subseteq> insert inner (set (nbrs g x))"
    by blast
  have "set_mset (mset sel) \<subseteq> set_mset (image_mset snd (sh_recs cands))" using m(4) by (rule set_mset_mono)
  then have sel: "\<forall>x\<in>set sel. x \<in> S \<and> node g x" unfolding c(3) using h(5) set_rs by auto
  have "connect_result cf gm c inner h g = Inr g'"
    using gm rs(1) filt c(1) m(1) by (simp add: connect_result_def serves_def)
  moreover have "level_ok (insert inner S) g'"
    unfolding level_ok_def
  proof (intro conjI allI ballI)
    fix v w assume w: "w \<in> set (nbrs g' v)"
    show "v \<in> insert inner S" "w \<in> insert inner S" "w \<noteq> v" "node g' w"
      using w m(6-9) sel assms(3) edges [of w v] by (cases "v = inner"; cases "v \<in> set sel"; auto)+
  qed (use m(2,5) deg in simp_all)
  ultimately show ?thesis using m(3,5-7) sel by auto
qed

end

text \<open>A growing storage with incoming edges, whose nodes can be renamed: what the removal of elements needs.\<close>

locale growable_graph = movable_graph + growing_graph
begin

definition provides :: "'a graph_methods \<Rightarrow> bool" where
  "provides gm \<longleftrightarrow> gm_InsertNeighborsById gm = ins \<and> gm_GetNeighbors gm = get \<and> gm_GetIncomingNeighbors gm = incoming \<and>
     gm_Move gm = move \<and> gm_ShrinkToFit gm = shrink \<and> gm_MaximumDegree gm = degree"

end

section \<open>Both graph storages grow\<close>

text \<open>With or without reverse edges.\<close>

interpretation sparse_link: growing_graph Sparse_InsertNeighborsById Sparse_GetNeighbors sg_nbrs Sparse_CheckIdExists
  gi_maximum_degree sg_inv sg_limit "\<lambda>g vid. vid < sg_limit g"
proof (unfold_locales, goal_cases)
  case (1 g vid ns)
  then have "\<forall>n\<in>set ns. n < sg_limit g" by auto
  from sparse_cell.ins_ok [OF 1(1,2) this 1(4)] show ?case using 1(2) by auto
qed

lemma sparse_serves: "sparse_link.serves sparse_methods"
  by (simp add: sparse_link.serves_def sparse_methods_def)

sublocale flat_graph_store \<subseteq> flat_link: growing_graph "Flat_InsertNeighborsById wr read" "Flat_GetNeighbors read" gd_nbrs Flat_CheckIdExists
  gi_maximum_degree gd_inv gd_limit "\<lambda>g vid. vid \<le> gi_total_count g \<and> vid < gi_max_capacity g"
proof (unfold_locales, goal_cases)
  case (1 g vid ns)
  have v: "vid < gi_max_capacity g" "vid \<le> gi_total_count g" using 1(2) by auto
  have ids: "\<forall>n\<in>set ns. n < max (gd_limit g) (Suc vid)" using 1(3) by auto
  have low: "vid \<le> gd_limit g" using v by (simp add: gd_limit_def)
  obtain g' where g': "Flat_InsertNeighborsById wr read vid ns g = Inr g'" "gd_inv g'" "gd_nbrs g' = (gd_nbrs g)(vid := ns)"
    "gi_maximum_degree g' = gi_maximum_degree g" "gd_limit g' = max (gd_limit g) (Suc vid)"
    by (rule Flat_Insert_ok [OF 1(1) v ids 1(4)])
  moreover have "\<forall>x. Flat_CheckIdExists g' x \<longleftrightarrow> Flat_CheckIdExists g x \<or> x = vid"
    using low unfolding flat_node_limit g'(5) by (auto simp: less_max_iff_disj less_Suc_eq)
  ultimately show ?case by auto
qed

text \<open>With reverse edges.\<close>

interpretation sparse_grow: growable_graph Sparse_InsertNeighborsById Sparse_GetNeighbors sg_nbrs Sparse_CheckIdExists
  gi_maximum_degree sg_rev_inv sg_limit Sparse_GetIncomingNeighbors Sparse_Move GraphInterface_ShrinkToFit "\<lambda>g vid. vid < sg_limit g"
proof (unfold_locales, goal_cases)
  case (1 g vid ns)
  then have "\<forall>n\<in>set ns. n < sg_limit g" by auto
  from sparse_rev.ins_ok [OF 1(1,2) this 1(4)] show ?case using 1(2) by auto
qed

lemma sparse_provides: "sparse_grow.provides sparse_methods"
  by (simp add: sparse_grow.provides_def sparse_methods_def)

sublocale flat_graph_store \<subseteq> flat_grow: growable_graph "Flat_InsertNeighborsById wr read" "Flat_GetNeighbors read" gd_nbrs Flat_CheckIdExists
  gi_maximum_degree gd_rev_inv gd_limit Flat_GetIncomingNeighbors "Flat_Move wr read" "Flat_ShrinkToFit shrink"
  "\<lambda>g vid. vid \<le> gi_total_count g \<and> vid < gi_max_capacity g"
proof (unfold_locales, goal_cases)
  case (1 g vid ns)
  have inv: "gd_inv g" using 1(1) by (simp add: gd_rev_inv_def)
  have v: "vid < gi_max_capacity g" "vid \<le> gi_total_count g" using 1(2) by auto
  have ids: "\<forall>n\<in>set ns. n < max (gd_limit g) (Suc vid)" using 1(3) by auto
  have low: "vid \<le> gd_limit g" using v by (simp add: gd_limit_def)
  obtain g' where g': "Flat_InsertNeighborsById wr read vid ns g = Inr g'" "gd_inv g'" "gd_nbrs g' = (gd_nbrs g)(vid := ns)"
    "gi_maximum_degree g' = gi_maximum_degree g" "gd_limit g' = max (gd_limit g) (Suc vid)" "gd_reverse_edges g' = None \<longleftrightarrow> gd_reverse_edges g = None"
    by (rule Flat_Insert_ok [OF inv v ids 1(4)])
  have "gd_rev_inv g'" using g'(2,6) 1(1) by (simp add: gd_rev_inv_def)
  moreover have "\<forall>x. Flat_CheckIdExists g' x \<longleftrightarrow> Flat_CheckIdExists g x \<or> x = vid"
    using low unfolding flat_node_limit g'(5) by (auto simp: less_max_iff_disj less_Suc_eq)
  ultimately show ?case using g'(1,3-5) by auto
qed

context flat_graph_store
begin

lemma flat_serves: "flat_link.serves (flat_methods wr read resize shrink)"
  by (simp add: flat_link.serves_def flat_methods_def)

lemma flat_provides: "flat_grow.provides (flat_methods wr read resize shrink)"
  by (simp add: flat_grow.provides_def flat_methods_def)

end

section \<open>The route graphs\<close>

text \<open>A node of an upper route graph is a node of the lower ones.\<close>

definition nested :: "sparse_graph list \<Rightarrow> bool" where
  "nested routes \<longleftrightarrow> sorted_wrt (\<lambda>lower upper. \<forall>w. Sparse_CheckIdExists upper w \<longrightarrow> Sparse_CheckIdExists lower w) routes"

lemma route_param_eq: "(route_param ep)\<lparr>isp_ef := 1, isp_topk := int 1\<rparr> = route_param ep" "(route_param ep)\<lparr>isp_ep := x\<rparr> = route_param x"
  by (simp_all add: route_param_def)

lemma descend_loop:
  assumes "\<forall>g\<in>set gs. sparse_link.level_ok S g \<and> Sparse_CheckIdExists g ep" "ep \<in> S" "S \<subseteq> {..<capacity}"
    and "sorted_wrt (\<lambda>upper lower. \<forall>w. Sparse_CheckIdExists upper w \<longrightarrow> Sparse_CheckIdExists lower w) gs"
    and dist: "\<forall>v\<in>S. cm_Query cm c query v = Inr (d v)"
  shows "\<exists>ep'. foldR (\<lambda>graph p. bindR (search_one_graph sparse_methods graph cm c capacity query p) (\<lambda>(result, _).
      bindR (StandardHeap_Top result) (\<lambda>r. Inr (p\<lparr>isp_ep := snd r\<rparr>)))) gs (route_param ep) = Inr (route_param ep') \<and> ep' \<in> S \<and>
    (if gs = [] then ep' = ep else Sparse_CheckIdExists (last gs) ep')"
  using assms(1,2,4)
proof (induction gs arbitrary: ep)
  case (Cons g gs)
  have lv: "sparse_link.level_ok S g" "Sparse_CheckIdExists g ep" using Cons.prems(1) by auto
  obtain h recs where h: "search_one_graph sparse_methods g cm c capacity query (route_param ep) = Inr (h, - 1)" "sh_inv True h"
    "mset recs = sh_recs h" "recs \<noteq> []" "\<forall>r\<in>set recs. snd r \<in> S \<and> Sparse_CheckIdExists g (snd r)"
    using sparse_link.level_search [OF sparse_serves lv(1) Cons.prems(2) lv(2) assms(3) dist route_param_eq(1) [symmetric]] by auto
  obtain r where r: "StandardHeap_Top h = Inr r" "r \<in># sh_recs h" using std.top_ok [OF h(2)] h(3,4) by (metis mset_zero_iff)
  then have rs: "snd r \<in> S" "Sparse_CheckIdExists g (snd r)" using h(3,5) by (metis set_mset_mset)+
  have "\<forall>g\<in>set gs. sparse_link.level_ok S g \<and> Sparse_CheckIdExists g (snd r)" using Cons.prems(1,3) rs(2) by auto
  from Cons.IH [OF this rs(1)] Cons.prems(3) obtain ep' where
    "foldR (\<lambda>graph p. bindR (search_one_graph sparse_methods graph cm c capacity query p) (\<lambda>(result, _).
      bindR (StandardHeap_Top result) (\<lambda>r. Inr (p\<lparr>isp_ep := snd r\<rparr>)))) gs (route_param (snd r)) = Inr (route_param ep')" "ep' \<in> S"
    "if gs = [] then ep' = snd r else Sparse_CheckIdExists (last gs) ep'" by auto
  then show ?case using h(1) r(1) rs(2) by (auto simp: route_param_eq(2) split: if_splits)
qed simp

lemma descend_ok:
  assumes "\<forall>g\<in>set routes. sparse_link.level_ok S g" "nested routes" "S \<subseteq> {..<capacity}" "0 \<le> level \<longrightarrow> routes \<noteq> []"
    and "\<forall>g\<in>set (drop (nat (level + 1)) routes). Sparse_CheckIdExists g ep"
    and "\<forall>g\<in>set (take (nat (level + 1)) routes). gi_total_count g \<noteq> 0 \<longrightarrow> Sparse_CheckIdExists g ep"
    and "ep \<in> S \<or> drop (nat (level + 1)) routes = []" and dist: "\<forall>v\<in>S. cm_Query (hc_codes cf) c query v = Inr (d v)"
  shows "\<exists>ep'. descend cf c capacity query level routes (route_param ep) = Inr (route_param ep') \<and> (ep' \<in> S \<longleftrightarrow> ep \<in> S) \<and>
    (\<forall>g\<in>set (take (nat (level + 1)) routes). gi_total_count g \<noteq> 0 \<longrightarrow> Sparse_CheckIdExists g ep')"
proof (cases "0 \<le> level \<and> drop (nat (level + 1)) routes \<noteq> []")
  case False
  then have "descend cf c capacity query level routes (route_param ep) = Inr (route_param ep)"
    using assms(4) by (auto simp: descend_def nat_add_distrib)
  then show ?thesis using assms(6) by blast
next
  case True
  let ?k = "nat (level + 1)" let ?gs = "rev (drop ?k routes)"
  have ep: "ep \<in> S" using assms(7) True by blast
  have "sorted_wrt (\<lambda>upper lower. \<forall>w. Sparse_CheckIdExists upper w \<longrightarrow> Sparse_CheckIdExists lower w) ?gs"
    using assms(2) by (simp add: nested_def sorted_wrt_rev sorted_wrt_drop)
  moreover have "\<forall>g\<in>set ?gs. sparse_link.level_ok S g \<and> Sparse_CheckIdExists g ep" using assms(1,5) by (auto dest: in_set_dropD)
  ultimately obtain ep' where e: "foldR (\<lambda>graph p. bindR (search_one_graph sparse_methods graph (hc_codes cf) c capacity query p) (\<lambda>(result, _).
      bindR (StandardHeap_Top result) (\<lambda>r. Inr (p\<lparr>isp_ep := snd r\<rparr>)))) ?gs (route_param ep) = Inr (route_param ep')" "ep' \<in> S"
    "Sparse_CheckIdExists (last ?gs) ep'"
    using descend_loop [OF _ ep assms(3) _ dist, of ?gs] True by auto
  have "descend cf c capacity query level routes (route_param ep) = Inr (route_param ep')"
    using e(1) True by (auto simp: descend_def nat_add_distrib)
  moreover have "Sparse_CheckIdExists g ep'" if "g \<in> set (take ?k routes)" for g
  proof -
    have "last ?gs \<in> set (drop ?k routes)" using True by (metis last_in_set rev_is_Nil_conv set_rev)
    moreover have "sorted_wrt (\<lambda>lower upper. \<forall>w. Sparse_CheckIdExists upper w \<longrightarrow> Sparse_CheckIdExists lower w) (take ?k routes @ drop ?k routes)"
      using assms(2) by (simp add: nested_def)
    ultimately show ?thesis using that e(3) unfolding sorted_wrt_append by blast
  qed
  ultimately show ?thesis using e(2) ep by blast
qed

lemma link_route_ok:
  assumes "sparse_link.level_ok S g" "inner \<notin> S" "inner < sg_limit g" "S \<subseteq> {..<capacity}"
    and "gi_total_count g \<noteq> 0 \<longrightarrow> ep \<in> S \<and> Sparse_CheckIdExists g ep" "0 < n" "n < 2 ^ 63"
    and dist: "\<forall>v\<in>S. cm_Query (hc_codes cf) c query v = Inr (d v)"
    and pairs: "\<forall>i\<in>insert inner S. \<forall>j\<in>insert inner S. cm_ComputePairVectors (hc_codes cf) c i j = Inr (pd i j)"
  shows "\<exists>g'. link_route cf c capacity query inner ((route_param ep)\<lparr>isp_ef := n, isp_topk := int n\<rparr>) g = Inr g' \<and>
    sparse_link.level_ok (insert inner S) g' \<and> (\<forall>x. Sparse_CheckIdExists g' x \<longleftrightarrow> Sparse_CheckIdExists g x \<or> x = inner)"
proof (cases "gi_total_count g = 0")
  case True
  have inv: "sg_inv g" and edges: "\<And>v w. w \<in> set (sg_nbrs g v) \<Longrightarrow> v \<in> S \<and> w \<in> S \<and> w \<noteq> v \<and> Sparse_CheckIdExists g w"
    using assms(1) by (auto simp: sparse_link.level_ok_def)
  obtain g' where g': "Sparse_InsertNeighborsById inner [] g = Inr g'" "sg_inv g'" "sg_nbrs g' = (sg_nbrs g)(inner := [])"
    "gi_maximum_degree g' = gi_maximum_degree g" "\<forall>x. Sparse_CheckIdExists g' x \<longleftrightarrow> Sparse_CheckIdExists g x \<or> x = inner"
    using sparse_cell.ins_ok [OF inv assms(3), of "[]"] by auto
  moreover have "sparse_link.level_ok (insert inner S) g'"
    using assms(1) edges g'(2-5) by (auto simp: sparse_link.level_ok_def split: if_splits)
  ultimately show ?thesis using True by (simp add: link_route_def)
next
  case False
  then have ep: "ep \<in> S" "Sparse_CheckIdExists g ep" using assms(5) by auto
  from sparse_link.level_search [OF sparse_serves assms(1) ep assms(4) dist refl assms(6,7)] obtain h recs where
    h: "search_one_graph sparse_methods g (hc_codes cf) c capacity query ((route_param ep)\<lparr>isp_ef := n, isp_topk := int n\<rparr>) = Inr (h, - 1)"
      "sh_inv True h" "mset recs = sh_recs h" "recs \<noteq> []" "distinct (map snd recs)" "\<forall>r\<in>set recs. snd r \<in> S \<and> Sparse_CheckIdExists g (snd r)" by blast
  from sparse_link.level_connect [OF sparse_serves assms(1-3) h(2-6) pairs] False h(1) show ?thesis by (auto simp: link_route_def)
qed

lemma link_routes_ok:
  assumes "n \<le> length gs" "inner \<notin> S" "S \<subseteq> {..<capacity}" "0 < ef" "ef < 2 ^ 63"
    and "\<forall>g\<in>set (take n gs). sparse_link.level_ok S g \<and> inner < sg_limit g \<and> (gi_total_count g \<noteq> 0 \<longrightarrow> ep \<in> S \<and> Sparse_CheckIdExists g ep)"
    and dist: "\<forall>v\<in>S. cm_Query (hc_codes cf) c query v = Inr (d v)"
    and pairs: "\<forall>i\<in>insert inner S. \<forall>j\<in>insert inner S. cm_ComputePairVectors (hc_codes cf) c i j = Inr (pd i j)"
  shows "\<exists>gs'. link_routes cf c capacity query inner ((route_param ep)\<lparr>isp_ef := ef, isp_topk := int ef\<rparr>) n gs = Inr gs' \<and> length gs' = length gs \<and>
    (\<forall>j<length gs. if j < n then sparse_link.level_ok (insert inner S) (gs' ! j) \<and>
        (\<forall>x. Sparse_CheckIdExists (gs' ! j) x \<longleftrightarrow> Sparse_CheckIdExists (gs ! j) x \<or> x = inner)
      else gs' ! j = gs ! j)"
  using assms(1,6)
proof (induction n arbitrary: gs)
  case (Suc n)
  obtain g gs1 where gs: "gs = g # gs1" using Suc.prems(1) by (cases gs) auto
  have g: "sparse_link.level_ok S g" "inner < sg_limit g" "gi_total_count g \<noteq> 0 \<longrightarrow> ep \<in> S \<and> Sparse_CheckIdExists g ep"
    using Suc.prems(2) gs by auto
  obtain g' where g': "link_route cf c capacity query inner ((route_param ep)\<lparr>isp_ef := ef, isp_topk := int ef\<rparr>) g = Inr g'"
    "sparse_link.level_ok (insert inner S) g'" "\<forall>x. Sparse_CheckIdExists g' x \<longleftrightarrow> Sparse_CheckIdExists g x \<or> x = inner"
    using link_route_ok [OF g(1) assms(2) g(2) assms(3) g(3) assms(4,5) dist pairs] by blast
  have "n \<le> length gs1" "\<forall>g\<in>set (take n gs1). sparse_link.level_ok S g \<and> inner < sg_limit g \<and> (gi_total_count g \<noteq> 0 \<longrightarrow> ep \<in> S \<and> Sparse_CheckIdExists g ep)"
    using Suc.prems gs by auto
  from Suc.IH [OF this] obtain gs' where
    "link_routes cf c capacity query inner ((route_param ep)\<lparr>isp_ef := ef, isp_topk := int ef\<rparr>) n gs1 = Inr gs'" "length gs' = length gs1"
    "\<forall>j<length gs1. if j < n then sparse_link.level_ok (insert inner S) (gs' ! j) \<and>
        (\<forall>x. Sparse_CheckIdExists (gs' ! j) x \<longleftrightarrow> Sparse_CheckIdExists (gs1 ! j) x \<or> x = inner)
      else gs' ! j = gs1 ! j" by blast
  then show ?case using g' gs by (intro exI [of _ "g' # gs'"]) (auto simp: nth_Cons split: nat.splits)
qed simp

lemma nested_linked:
  assumes "nested gs" "length gs' = length gs"
    and "\<forall>j<length gs. if j < n then (\<forall>x. Sparse_CheckIdExists (gs' ! j) x \<longleftrightarrow> Sparse_CheckIdExists (gs ! j) x \<or> x = inner) else gs' ! j = gs ! j"
  shows "nested gs'"
  unfolding nested_def sorted_wrt_iff_nth_less
proof (intro allI impI)
  fix i j w assume ij: "i < j" "j < length gs'" and w: "Sparse_CheckIdExists (gs' ! j) w"
  have "Sparse_CheckIdExists (gs ! j) w \<longrightarrow> Sparse_CheckIdExists (gs ! i) w"
    using assms(1,2) ij unfolding nested_def sorted_wrt_iff_nth_less by auto
  moreover have "if j < n then Sparse_CheckIdExists (gs' ! j) w \<longleftrightarrow> Sparse_CheckIdExists (gs ! j) w \<or> w = inner else gs' ! j = gs ! j"
    "if i < n then Sparse_CheckIdExists (gs' ! i) w \<longleftrightarrow> Sparse_CheckIdExists (gs ! i) w \<or> w = inner else gs' ! i = gs ! i"
    using assms(2,3) ij by (auto split: if_splits)
  ultimately show "Sparse_CheckIdExists (gs' ! i) w" using w ij(1) by (auto split: if_splits)
qed

lemma nested_append_empty:
  assumes "nested gs" "\<forall>x. \<not> Sparse_CheckIdExists e x"
  shows "nested (gs @ replicate k e)"
proof -
  have "sorted_wrt (\<lambda>lower upper. \<forall>w. Sparse_CheckIdExists upper w \<longrightarrow> Sparse_CheckIdExists lower w) (replicate k e)" by (induction k) auto
  then show ?thesis using assms by (auto simp: nested_def sorted_wrt_append)
qed

section \<open>Adding an element keeps the index\<close>

context growing_graph
begin

lemma level_mono: "level_ok S g \<Longrightarrow> S \<subseteq> S' \<Longrightarrow> level_ok S' g"
  by (auto simp: level_ok_def)

text \<open>
  The graphs of an index over the elements \<open>S\<close>: every element is in the bottom graph, the entry point is
  an element and in every route graph. \<open>route_ok\<close> is the condition on the levels above the bottom.
\<close>

definition hg_linked :: "(inner_id set \<Rightarrow> sparse_graph \<Rightarrow> bool) \<Rightarrow> inner_id set \<Rightarrow> ('c, 'a, 'e, 'd) hgraph \<Rightarrow> bool" where
  "hg_linked route_ok S h \<longleftrightarrow> level_ok S (hg_bottom_graph h) \<and> (\<forall>v\<in>S. node (hg_bottom_graph h) v) \<and> S \<subseteq> {..<hg_max_capacity h} \<and>
     (\<forall>g\<in>set (hg_route_graphs h). route_ok S g \<and> Sparse_CheckIdExists g (hg_entry_point_id h)) \<and>
     nested (hg_route_graphs h) \<and> (if S = {} then hg_route_graphs h = [] else hg_entry_point_id h \<in> S)"

text \<open>What linking the element \<open>inner\<close> with the codes \<open>c\<close> needs.\<close>

definition addable :: "('c, 'v, 'a, 'e) hgraph_config \<Rightarrow> 'c \<Rightarrow> 'v \<Rightarrow> inner_id \<Rightarrow> inner_id set \<Rightarrow> ('c, 'a, 'e, 'd) hgraph \<Rightarrow> bool" where
  "addable cf c query inner S h \<longleftrightarrow> serves (hc_graph cf) \<and> \<not> hc_support_duplicate cf \<and> 0 < hc_ef_construct cf \<and> hc_ef_construct cf < 2 ^ 63 \<and>
     inner \<notin> S \<and> inner < hg_max_capacity h \<and> room (hg_bottom_graph h) inner \<and> (\<forall>g\<in>set (hg_route_graphs h). inner < sg_limit g) \<and>
     (gm_TotalCount (hc_graph cf) (hg_bottom_graph h) \<noteq> 0 \<longleftrightarrow> S \<noteq> {}) \<and> build_codes cf h = Inr c \<and>
     (\<forall>v\<in>S. \<exists>x. cm_Query (hc_codes cf) c query v = Inr x) \<and>
     (\<forall>i\<in>insert inner S. \<forall>j\<in>insert inner S. \<exists>x. cm_ComputePairVectors (hc_codes cf) c i j = Inr x)"

lemma link_bottom_ok:
  assumes ad: "addable cf c query inner S h" and lv: "level_ok S (hg_bottom_graph h)" "\<forall>v\<in>S. node (hg_bottom_graph h) v" "S \<subseteq> {..<hg_max_capacity h}"
    and ep: "S \<noteq> {} \<longrightarrow> ep \<in> S"
  defines "p \<equiv> (route_param ep)\<lparr>isp_ef := hc_ef_construct cf, isp_topk := int (hc_ef_construct cf)\<rparr>"
  shows "\<exists>b. (if gm_TotalCount (hc_graph cf) (hg_bottom_graph h) \<noteq> 0
      then \<exists>r. search_one_graph (hc_graph cf) (hg_bottom_graph h) (hc_codes cf) c (hg_max_capacity h) query p = Inr (r, - 1) \<and>
           connect_result cf (hc_graph cf) c inner r (hg_bottom_graph h) = Inr b \<and> nbrs b inner \<noteq> []
      else gm_InsertNeighborsById (hc_graph cf) inner [] (hg_bottom_graph h) = Inr b) \<and>
    level_ok (insert inner S) b \<and> (\<forall>v\<in>insert inner S. node b v)"
proof (cases "gm_TotalCount (hc_graph cf) (hg_bottom_graph h) = 0")
  case True
  have inv: "inv (hg_bottom_graph h)" and rm: "room (hg_bottom_graph h) inner" using lv(1) ad by (auto simp: level_ok_def addable_def)
  from grow_ok [OF inv rm, of "[]"] obtain b where b: "ins inner [] (hg_bottom_graph h) = Inr b" "inv b"
    "nbrs b = (nbrs (hg_bottom_graph h))(inner := [])" "degree b = degree (hg_bottom_graph h)" "\<forall>x. node b x \<longleftrightarrow> node (hg_bottom_graph h) x \<or> x = inner"
    by auto
  have "level_ok (insert inner S) b" using lv(1) b(2-5) by (auto simp: level_ok_def split: if_splits)
  then show ?thesis using True b(1,5) lv(2) ad by (auto simp: addable_def serves_def)
next
  case False
  obtain d where d: "\<forall>v\<in>S. cm_Query (hc_codes cf) c query v = Inr (d v)" using ad unfolding addable_def by metis
  obtain pd where pd: "\<forall>i\<in>insert inner S. \<forall>j\<in>insert inner S. cm_ComputePairVectors (hc_codes cf) c i j = Inr (pd i j)"
    using ad unfolding addable_def by metis
  have gm: "serves (hc_graph cf)" and ef: "0 < hc_ef_construct cf" "hc_ef_construct cf < 2 ^ 63" and "inner \<notin> S" and rm: "room (hg_bottom_graph h) inner"
    using ad by (auto simp: addable_def)
  have ep: "ep \<in> S" "node (hg_bottom_graph h) ep" using False ad ep lv(2) by (auto simp: addable_def)
  from level_search [OF gm lv(1) ep lv(3) d refl ef] obtain r recs where
    r: "search_one_graph (hc_graph cf) (hg_bottom_graph h) (hc_codes cf) c (hg_max_capacity h) query p = Inr (r, - 1)"
      "sh_inv True r" "mset recs = sh_recs r" "recs \<noteq> []" "distinct (map snd recs)" "\<forall>x\<in>set recs. snd x \<in> S \<and> node (hg_bottom_graph h) (snd x)"
    unfolding p_def by blast
  from level_connect [OF gm lv(1) \<open>inner \<notin> S\<close> rm r(2-6) pd] obtain b where
    "connect_result cf (hc_graph cf) c inner r (hg_bottom_graph h) = Inr b" "level_ok (insert inner S) b" "nbrs b inner \<noteq> []"
    "\<forall>x. node b x \<longleftrightarrow> node (hg_bottom_graph h) x \<or> x = inner" by blast
  then show ?thesis using False r(1) lv(2) by auto
qed

lemma graph_add_one_ok:
  fixes h :: "('c, 'a, 'e, 'd) hgraph"
  assumes ad: "addable cf c query inner S h"
    and bot: "level_ok S (hg_bottom_graph h)" "\<forall>v\<in>S. node (hg_bottom_graph h) v" "S \<subseteq> {..<hg_max_capacity h}"
    and rts: "\<forall>g\<in>set (hg_route_graphs h). sparse_link.level_ok S g" "nested (hg_route_graphs h)"
      "nat (level + 1) \<le> length (hg_route_graphs h)"
      "\<forall>g\<in>set (drop (nat (level + 1)) (hg_route_graphs h)). Sparse_CheckIdExists g (hg_entry_point_id h)"
      "\<forall>g\<in>set (take (nat (level + 1)) (hg_route_graphs h)). gi_total_count g \<noteq> 0 \<longrightarrow> hg_entry_point_id h \<in> S \<and> Sparse_CheckIdExists g (hg_entry_point_id h)"
    and ep: "if S = {} then drop (nat (level + 1)) (hg_route_graphs h) = [] else hg_entry_point_id h \<in> S"
  shows "\<exists>b gs. graph_add_one cf query level inner h = Inr (True, h\<lparr>hg_bottom_graph := b, hg_route_graphs := gs\<rparr>) \<and>
    level_ok (insert inner S) b \<and> (\<forall>v\<in>insert inner S. node b v) \<and>
    (gm_TotalCount (hc_graph cf) (hg_bottom_graph h) \<noteq> 0 \<longrightarrow> nbrs b inner \<noteq> []) \<and>
    length gs = length (hg_route_graphs h) \<and> nested gs \<and> (\<forall>g\<in>set gs. sparse_link.level_ok (insert inner S) g) \<and>
    (\<forall>j<length gs. \<forall>x. Sparse_CheckIdExists (gs ! j) x \<longleftrightarrow>
       Sparse_CheckIdExists (hg_route_graphs h ! j) x \<or> x = inner \<and> j < nat (level + 1))"
proof -
  let ?routes = "hg_route_graphs h" and ?n = "nat (level + 1)" and ?ef = "hc_ef_construct cf" and ?e = "hg_entry_point_id h"
  obtain d where d: "\<forall>v\<in>S. cm_Query (hc_codes cf) c query v = Inr (d v)" using ad unfolding addable_def by metis
  obtain pd where pd: "\<forall>i\<in>insert inner S. \<forall>j\<in>insert inner S. cm_ComputePairVectors (hc_codes cf) c i j = Inr (pd i j)"
    using ad unfolding addable_def by metis
  have cf: "build_codes cf h = Inr c" "\<not> hc_support_duplicate cf" "0 < ?ef" "?ef < 2 ^ 63" "inner \<notin> S" "\<forall>g\<in>set ?routes. inner < sg_limit g"
    using ad by (auto simp: addable_def)
  have ne: "0 \<le> level \<longrightarrow> ?routes \<noteq> []" using rts(3) by auto
  have tot: "\<forall>g\<in>set (take ?n ?routes). gi_total_count g \<noteq> 0 \<longrightarrow> Sparse_CheckIdExists g ?e" using rts(5) by blast
  have epS: "?e \<in> S \<or> drop ?n ?routes = []" using ep by (auto split: if_splits)
  obtain ep' where e: "descend cf c (hg_max_capacity h) query level ?routes (route_param ?e) = Inr (route_param ep')" "ep' \<in> S \<longleftrightarrow> ?e \<in> S"
    "\<forall>g\<in>set (take ?n ?routes). gi_total_count g \<noteq> 0 \<longrightarrow> Sparse_CheckIdExists g ep'"
    using descend_ok [OF rts(1,2) bot(3) ne rts(4) tot epS d] by blast
  let ?p = "(route_param ep')\<lparr>isp_ef := ?ef, isp_topk := int ?ef\<rparr>"
  have p: "build_param cf inner (route_param ep') = ?p" using cf(2) by (simp add: build_param_def Let_def)
  have "S \<noteq> {} \<longrightarrow> ep' \<in> S" using e(2) ep by auto
  from link_bottom_ok [OF ad bot this] obtain b where b:
    "if gm_TotalCount (hc_graph cf) (hg_bottom_graph h) \<noteq> 0
      then \<exists>r. search_one_graph (hc_graph cf) (hg_bottom_graph h) (hc_codes cf) c (hg_max_capacity h) query ?p = Inr (r, - 1) \<and>
           connect_result cf (hc_graph cf) c inner r (hg_bottom_graph h) = Inr b \<and> nbrs b inner \<noteq> []
      else gm_InsertNeighborsById (hc_graph cf) inner [] (hg_bottom_graph h) = Inr b"
    "level_ok (insert inner S) b" "\<forall>v\<in>insert inner S. node b v" by blast
  have "\<forall>g\<in>set (take ?n ?routes). sparse_link.level_ok S g \<and> inner < sg_limit g \<and> (gi_total_count g \<noteq> 0 \<longrightarrow> ep' \<in> S \<and> Sparse_CheckIdExists g ep')"
    using rts(1,5) cf(6) e(2,3) by (auto dest: in_set_takeD)
  from link_routes_ok [OF rts(3) cf(5) bot(3) cf(3,4) this d pd] obtain gs where
    gs: "link_routes cf c (hg_max_capacity h) query inner ?p ?n ?routes = Inr gs" "length gs = length ?routes"
      "\<forall>j<length ?routes. if j < ?n then sparse_link.level_ok (insert inner S) (gs ! j) \<and>
        (\<forall>x. Sparse_CheckIdExists (gs ! j) x \<longleftrightarrow> Sparse_CheckIdExists (?routes ! j) x \<or> x = inner) else gs ! j = ?routes ! j" by blast
  have "graph_add_one cf query level inner h = Inr (True, h\<lparr>hg_bottom_graph := b, hg_route_graphs := gs\<rparr>)"
    using cf(1,2) e(1) b(1) gs(1) unfolding graph_add_one_def by (auto simp: p Let_def split: if_splits)
  moreover have "nested gs" using nested_linked [OF rts(2) gs(2), of ?n inner] gs(3) by simp
  moreover have "sparse_link.level_ok (insert inner S) (gs ! j)" if "j < length gs" for j
    using gs(2,3) that rts(1) sparse_link.level_mono [of S "?routes ! j" "insert inner S"] by (cases "j < ?n") auto
  then have "\<forall>g\<in>set gs. sparse_link.level_ok (insert inner S) g" by (auto simp: in_set_conv_nth)
  moreover have "\<forall>j<length gs. \<forall>x. Sparse_CheckIdExists (gs ! j) x \<longleftrightarrow> Sparse_CheckIdExists (?routes ! j) x \<or> x = inner \<and> j < ?n"
    using gs(2,3) by (metis)
  ultimately show ?thesis using b gs(2) by (intro exI [of _ b] exI [of _ gs]) (auto split: if_splits)
qed

text \<open>Codes do not touch the graphs.\<close>

lemma insert_codes_graphs:
  fixes h h1 :: "('c, 'a, 'e, 'd) hgraph"
  assumes "(if ic then insert_persistent_codes cf query inner h else Inr h) = Inr h1"
  shows "hg_bottom_graph h1 = hg_bottom_graph h" "hg_route_graphs h1 = hg_route_graphs h" "hg_entry_point_id h1 = hg_entry_point_id h"
    "hg_max_capacity h1 = hg_max_capacity h"
  using assms by (auto simp: insert_persistent_codes_def bindR_Inr_iff split: if_splits)

lemma add_one_point_ok:
  fixes h h1 :: "('c, 'a, 'e, 'd) hgraph"
  assumes lk: "hg_linked sparse_link.level_ok S h" and codes: "(if ic then insert_persistent_codes cf query inner h else Inr h) = Inr h1"
    and ad: "addable cf c query inner S h1" and "- 1 \<le> level"
    and new: "sg_inv (hc_route_graph cf)" "\<forall>x. \<not> Sparse_CheckIdExists (hc_route_graph cf) x" "gi_total_count (hc_route_graph cf) = 0"
      "0 < gi_maximum_degree (hc_route_graph cf)" "inner < sg_limit (hc_route_graph cf)"
  shows "\<exists>h'. add_one_point cf query level inner ic h = Inr h' \<and> hg_linked sparse_link.level_ok (insert inner S) h' \<and>
    length (hg_route_graphs h') = max (length (hg_route_graphs h)) (nat (level + 1)) \<and>
    (\<forall>j<nat (level + 1). Sparse_CheckIdExists (hg_route_graphs h' ! j) inner) \<and>
    hg_entry_point_id h' = (if level \<ge> int (length (hg_route_graphs h)) \<or> gm_TotalCount (hc_graph cf) (hg_bottom_graph h) = 0
                            then inner else hg_entry_point_id h) \<and>
    (gm_TotalCount (hc_graph cf) (hg_bottom_graph h) \<noteq> 0 \<longrightarrow> nbrs (hg_bottom_graph h') inner \<noteq> [])"
proof -
  note same = insert_codes_graphs [OF codes]
  let ?n = "nat (level + 1)" and ?routes = "hg_route_graphs h" and ?grows = "level \<ge> int (length (hg_route_graphs h)) \<or> gm_TotalCount (hc_graph cf) (hg_bottom_graph h) = 0"
  define h2 where "h2 = (if ?grows then h1\<lparr>hg_route_graphs := ?routes @ replicate (?n - length ?routes) (hc_route_graph cf)\<rparr> else h1)"
  have empty: "sg_nbrs (hc_route_graph cf) x = []" for x using sparse_cell.get_absent [OF new(1)] new(2) by blast
  have lv: "sparse_link.level_ok S (hc_route_graph cf)" using new(1,4) empty by (simp add: sparse_link.level_ok_def)
  have rts: "hg_route_graphs h2 = ?routes @ replicate (?n - length ?routes) (hc_route_graph cf)"
    using same(2) by (auto simp: h2_def)
  have L: "level_ok S (hg_bottom_graph h)" "\<forall>v\<in>S. node (hg_bottom_graph h) v" "S \<subseteq> {..<hg_max_capacity h}"
    "\<forall>g\<in>set ?routes. sparse_link.level_ok S g \<and> Sparse_CheckIdExists g (hg_entry_point_id h)" "nested ?routes"
    "if S = {} then ?routes = [] else hg_entry_point_id h \<in> S" using lk by (auto simp: hg_linked_def)
  have h2: "hg_bottom_graph h2 = hg_bottom_graph h" "hg_max_capacity h2 = hg_max_capacity h" "hg_entry_point_id h2 = hg_entry_point_id h"
    using same by (simp_all add: h2_def)
  have ad2: "addable cf c query inner S h2"
  proof -
    have "hg_temporary_build_flatten_codes h2 = hg_temporary_build_flatten_codes h1" "hg_raw_vector h2 = hg_raw_vector h1"
      "hg_high_precise_codes h2 = hg_high_precise_codes h1" "hg_basic_flatten_codes h2 = hg_basic_flatten_codes h1" by (simp_all add: h2_def)
    then have "build_codes cf h2 = build_codes cf h1" unfolding build_codes_def by (simp only:)
    moreover have "\<forall>g\<in>set (hg_route_graphs h2). inner < sg_limit g" using ad new(5) same(2) unfolding rts by (auto simp: addable_def)
    ultimately show ?thesis using ad h2 same(1,4) unfolding addable_def by simp
  qed
  have "\<exists>b gs. graph_add_one cf query level inner h2 = Inr (True, h2\<lparr>hg_bottom_graph := b, hg_route_graphs := gs\<rparr>) \<and>
    level_ok (insert inner S) b \<and> (\<forall>v\<in>insert inner S. node b v) \<and>
    (gm_TotalCount (hc_graph cf) (hg_bottom_graph h2) \<noteq> 0 \<longrightarrow> nbrs b inner \<noteq> []) \<and>
    length gs = length (hg_route_graphs h2) \<and> nested gs \<and> (\<forall>g\<in>set gs. sparse_link.level_ok (insert inner S) g) \<and>
    (\<forall>j<length gs. \<forall>x. Sparse_CheckIdExists (gs ! j) x \<longleftrightarrow> Sparse_CheckIdExists (hg_route_graphs h2 ! j) x \<or> x = inner \<and> j < ?n)"
  proof (rule graph_add_one_ok [OF ad2])
    show "nested (hg_route_graphs h2)" unfolding rts using nested_append_empty [OF L(5) new(2)] .
    show "\<forall>g\<in>set (drop ?n (hg_route_graphs h2)). Sparse_CheckIdExists g (hg_entry_point_id h2)"
      using L(4) h2(3) unfolding rts by (auto dest: in_set_dropD)
    show "\<forall>g\<in>set (take ?n (hg_route_graphs h2)). gi_total_count g \<noteq> 0 \<longrightarrow> hg_entry_point_id h2 \<in> S \<and> Sparse_CheckIdExists g (hg_entry_point_id h2)"
    proof (intro ballI impI)
      fix g assume g: "g \<in> set (take ?n (hg_route_graphs h2))" "gi_total_count g \<noteq> 0"
      then have "g \<in> set ?routes" using new(3) in_set_takeD [OF g(1)] unfolding rts by auto
      then show "hg_entry_point_id h2 \<in> S \<and> Sparse_CheckIdExists g (hg_entry_point_id h2)" using L(4,6) h2(3) by (auto split: if_splits)
    qed
    show "if S = {} then drop ?n (hg_route_graphs h2) = [] else hg_entry_point_id h2 \<in> S" using L(6) h2(3) unfolding rts by auto
  qed (use L lv h2 rts in auto)
  then obtain b gs where r: "graph_add_one cf query level inner h2 = Inr (True, h2\<lparr>hg_bottom_graph := b, hg_route_graphs := gs\<rparr>)"
    "level_ok (insert inner S) b" "\<forall>v\<in>insert inner S. node b v" "gm_TotalCount (hc_graph cf) (hg_bottom_graph h2) \<noteq> 0 \<longrightarrow> nbrs b inner \<noteq> []"
    "length gs = length (hg_route_graphs h2)" "nested gs" "\<forall>g\<in>set gs. sparse_link.level_ok (insert inner S) g"
    "\<forall>j<length gs. \<forall>x. Sparse_CheckIdExists (gs ! j) x \<longleftrightarrow> Sparse_CheckIdExists (hg_route_graphs h2 ! j) x \<or> x = inner \<and> j < ?n" by blast
  define h' where "h' = h2\<lparr>hg_bottom_graph := b, hg_route_graphs := gs, hg_entry_point_id := (if ?grows then inner else hg_entry_point_id h)\<rparr>"
  have len: "length gs = max (length ?routes) ?n" using r(5) unfolding rts by simp
  have "add_one_point cf query level inner ic h = Inr h'"
  proof (cases ?grows)
    case True
    then have "h2 = h1\<lparr>hg_route_graphs := ?routes @ replicate (?n - length ?routes) (hc_route_graph cf)\<rparr>" unfolding h2_def by (rule if_P)
    then have "graph_add_one cf query level inner (h1\<lparr>hg_route_graphs := ?routes @ replicate (?n - length ?routes) (hc_route_graph cf)\<rparr>) =
        Inr (True, h2\<lparr>hg_bottom_graph := b, hg_route_graphs := gs\<rparr>)" using r(1) by simp
    moreover have "h' = h2\<lparr>hg_bottom_graph := b, hg_route_graphs := gs, hg_entry_point_id := inner\<rparr>" using True unfolding h'_def by simp
    ultimately show ?thesis unfolding add_one_point_def codes bindR_simps same(1,2) Let_def using True by simp
  next
    case False
    then have "h2 = h1" unfolding h2_def by (rule if_not_P)
    then have "graph_add_one cf query level inner h1 = Inr (True, h1\<lparr>hg_bottom_graph := b, hg_route_graphs := gs\<rparr>)" using r(1) by simp
    moreover have "h' = h1\<lparr>hg_bottom_graph := b, hg_route_graphs := gs\<rparr>"
      using False \<open>h2 = h1\<close> same(3) unfolding h'_def by simp
    ultimately show ?thesis unfolding add_one_point_def codes bindR_simps same(1,2) using False by simp
  qed
  moreover have ent: "Sparse_CheckIdExists g (hg_entry_point_id h')" if g: "g \<in> set gs" for g
  proof -
    from g obtain j where j: "j < length gs" "g = gs ! j" by (auto simp: in_set_conv_nth)
    show ?thesis
    proof (cases ?grows)
      case True
      then have "length ?routes \<le> ?n" using ad L(6) same(1) by (auto simp: addable_def split: if_splits)
      then show ?thesis using True j r(8) len by (auto simp: h'_def)
    next
      case False
      then have "j < length ?routes" using j(1) len by auto
      then have "hg_route_graphs h2 ! j \<in> set ?routes" unfolding rts by (simp add: nth_append)
      then show ?thesis using False j r(8) L(4) by (auto simp: h'_def)
    qed
  qed
  moreover have "hg_linked sparse_link.level_ok (insert inner S) h'"
    using r(2,3,6,7) ent L(3,6) ad same h2 by (auto simp: hg_linked_def h'_def addable_def)
  ultimately show ?thesis using len r(4,8) h2(1) by (intro exI [of _ h']) (auto simp: h'_def)
qed

end

section \<open>Properties\<close>

abbreviation block_methods :: "(nat \<Rightarrow> byte) \<Rightarrow> memory_block_io flat_graph graph_methods" where
  "block_methods fresh \<equiv> flat_methods (MemoryBlockIO_WriteImpl fresh) MemoryBlockIO_ReadImpl (MemoryBlockIO_ResizeImpl fresh) MemoryBlockIO_ShrinkImpl"

lemma new_route_graph:
  assumes "SparseGraphDataCell_new deg flags sd dup use_rev = Inr g" "8 \<le> flags" "0 < deg"
  shows "sg_inv g" "\<forall>x. \<not> Sparse_CheckIdExists g x" "gi_total_count g = 0" "0 < gi_maximum_degree g"
proof -
  show "sg_inv g" "0 < gi_maximum_degree g" using assms
    by (auto simp: SparseGraphDataCell_new_def Let_def sg_inv_def sg_nbrs_def sg_limit_def ver_def rev_ok_def rev_of_def
        ReverseEdge_GetIncomingNeighbors_def split: if_splits)
  show "\<forall>x. \<not> Sparse_CheckIdExists g x" "gi_total_count g = 0"
    using assms(1) by (auto simp: SparseGraphDataCell_new_def Let_def Sparse_CheckIdExists_def split: if_splits)
qed

text \<open>
  Claim C4. In an index without duplicate support, with or without reverse edges: adding a new element to a linked
  index (every element in the bottom graph, the entry point in every route graph, the route graphs nested, edges only
  between elements) never fails, whatever its level, and gives a linked index with the element: the element is in all
  route graphs up to its level and has neighbours in the bottom graph, the upper graphs are created, and the entry
  point moves to the element exactly when it is higher than all others or the first one. The bottom graph is a flat
  graph on blocks; the element has an identifier that fits the capacity and the limits of the graphs, its codes are
  inserted without error, and the distances between the codes can be computed.
\<close>

theorem HGraph_add_keeps_linked:
  fixes h h1 :: "('c, memory_block_io flat_graph, 'e, 'd) hgraph"
  assumes "flat_block.flat_link.hg_linked sparse_link.level_ok S h" "(if ic then insert_persistent_codes cf query inner h else Inr h) = Inr h1"
    and "flat_block.flat_link.addable fresh cf c query inner S h1" "- 1 \<le> level"
    and "SparseGraphDataCell_new deg flags sd dup use_rev = Inr (hc_route_graph cf)" "8 \<le> flags" "0 < deg" "inner < sg_limit (hc_route_graph cf)"
  shows "\<exists>h'. add_one_point cf query level inner ic h = Inr h' \<and> flat_block.flat_link.hg_linked sparse_link.level_ok (insert inner S) h' \<and>
    length (hg_route_graphs h') = max (length (hg_route_graphs h)) (nat (level + 1)) \<and>
    (\<forall>j<nat (level + 1). Sparse_CheckIdExists (hg_route_graphs h' ! j) inner) \<and>
    hg_entry_point_id h' = (if level \<ge> int (length (hg_route_graphs h)) \<or> S = {} then inner else hg_entry_point_id h) \<and>
    (S \<noteq> {} \<longrightarrow> (\<exists>ns. Flat_GetNeighbors MemoryBlockIO_ReadImpl (hg_bottom_graph h') inner [] = Inr ns \<and> ns \<noteq> [] \<and> set ns \<subseteq> insert inner S))"
proof -
  note new = new_route_graph [OF assms(5-7)]
  have tot: "gm_TotalCount (hc_graph cf) (hg_bottom_graph h) \<noteq> 0 \<longleftrightarrow> S \<noteq> {}"
    using assms(3) flat_block.flat_link.insert_codes_graphs(1) [OF assms(2)] by (simp add: flat_block.flat_link.addable_def)
  obtain h' where h': "add_one_point cf query level inner ic h = Inr h'" "flat_block.flat_link.hg_linked sparse_link.level_ok (insert inner S) h'"
    "length (hg_route_graphs h') = max (length (hg_route_graphs h)) (nat (level + 1))"
    "\<forall>j<nat (level + 1). Sparse_CheckIdExists (hg_route_graphs h' ! j) inner"
    "hg_entry_point_id h' = (if level \<ge> int (length (hg_route_graphs h)) \<or> gm_TotalCount (hc_graph cf) (hg_bottom_graph h) = 0
                            then inner else hg_entry_point_id h)"
    "gm_TotalCount (hc_graph cf) (hg_bottom_graph h) \<noteq> 0 \<longrightarrow> flat_block.gd_nbrs (hg_bottom_graph h') inner \<noteq> []"
    using flat_block.flat_link.add_one_point_ok [OF assms(1-4) new assms(8)] by blast
  have b: "flat_block.gd_inv (hg_bottom_graph h')" "Flat_CheckIdExists (hg_bottom_graph h') inner"
    "\<forall>w\<in>set (flat_block.gd_nbrs (hg_bottom_graph h') inner). w \<in> insert inner S"
    using h'(2) unfolding flat_block.flat_link.hg_linked_def flat_block.flat_link.level_ok_def by blast+
  have "Flat_GetNeighbors MemoryBlockIO_ReadImpl (hg_bottom_graph h') inner [] = Inr (flat_block.gd_nbrs (hg_bottom_graph h') inner)"
    using flat_block.flat_cell.get_ok [OF b(1,2)] .
  then show ?thesis using h' tot b(3) by (intro exI [of _ h']) auto
qed

text \<open>An index with one element, to which a second one is added.\<close>

definition demo_codes :: "(unit, nat) code_methods" where
  "demo_codes =
     \<lparr>cm_InsertVector = (\<lambda>v i c. Inr c), cm_Move = (\<lambda>i j c. Inr c), cm_Resize = (\<lambda>n c. c), cm_ShrinkToFit = (\<lambda>n c. c),
      cm_Query = (\<lambda>c v i. Inr (int i)), cm_ComputePairVectors = (\<lambda>c i j. Inr (int (i + j))), cm_CompareVectors = (\<lambda>c i j. Inr (i = j)),
      cm_TotalCount = (\<lambda>c. 0)\<rparr>"

definition demo_config :: "('c, nat) code_methods \<Rightarrow> sparse_graph \<Rightarrow> ('c, nat, memory_block_io flat_graph, unit) hgraph_config" where
  "demo_config cm r =
     \<lparr>hc_codes = cm, hc_graph = block_methods (\<lambda>_. 0), hc_extra_Move = (\<lambda>i j e. e), hc_extra_Resize = (\<lambda>n e. e), hc_route_graph = r,
      hc_order = remdups, hc_ef_construct = 10, hc_alpha_times = (\<lambda>d. d), hc_use_reorder = False, hc_reorder_by_base = False,
      hc_build_by_base = False, hc_is_rabitq = False, hc_create_new_raw_vector = False, hc_support_duplicate = False,
      hc_duplicate_distance_threshold = 0, hc_resize_increase_count_bit = 3\<rparr>"

definition demo_index :: "'c \<Rightarrow> inner_id \<Rightarrow> memory_block_io flat_graph \<Rightarrow> sparse_graph list \<Rightarrow> unit label_table \<Rightarrow> ('c, memory_block_io flat_graph, unit, unit) hgraph" where
  "demo_index c ep b routes t =
     \<lparr>hg_basic_flatten_codes = c, hg_high_precise_codes = None, hg_raw_vector = None, hg_temporary_build_flatten_codes = None, hg_extra_infos = None,
      hg_route_graphs = routes, hg_bottom_graph = b, hg_entry_point_id = ep, hg_total_count = 2, hg_max_capacity = 10, hg_delete_count = 0,
      hg_label_table = t\<rparr>"

lemma demo_bottom:
  obtains b where "flat_block.gd_rev_inv b" "flat_block.gd_nbrs b = (\<lambda>x. [])" "gi_maximum_degree b = 2" "gi_max_capacity b = 10"
    "gi_total_count b = 1"
proof -
  obtain f0 where f0: "GraphDataCell_new (MemoryBlockIO_new 8) 2 10 False 8 False True = Inr f0" by (simp add: GraphDataCell_new_def)
  have "(0 :: nat) < 8" "(8 :: nat) \<le> 2 ^ 62" by simp_all
  note g = flat_block.gd_new [OF f0 mbio_new(1) [OF this]]
  have f: "flat_block.gd_rev_inv f0" "flat_block.gd_nbrs f0 = (\<lambda>x. [])" "gi_total_count f0 = 0" "gi_maximum_degree f0 = 2" "gi_max_capacity f0 = 10"
    by (rule g; simp)+
  have inv: "flat_block.gd_inv f0" using f(1) unfolding flat_block.gd_rev_inv_def by blast
  have pre: "(0 :: nat) < gi_max_capacity f0" "(0 :: nat) \<le> gi_total_count f0" "\<forall>n\<in>set []. n < max (flat_block.gd_limit f0) (Suc 0)"
    "length ([] :: nat list) \<le> gi_maximum_degree f0" using f by simp_all
  obtain b where b: "flat_block.gd_inv b" "flat_block.gd_nbrs b = (flat_block.gd_nbrs f0)(0 := [])" "gi_maximum_degree b = gi_maximum_degree f0"
    "gi_max_capacity b = gi_max_capacity f0" "gi_total_count b = max (gi_total_count f0) (Suc 0)" "gd_reverse_edges b = None \<longleftrightarrow> gd_reverse_edges f0 = None"
    by (rule flat_block.Flat_Insert_ok [OF inv pre, where fresh = "\<lambda>_. 0"])
  have "flat_block.gd_rev_inv b" using b(1,6) f(1) unfolding flat_block.gd_rev_inv_def by blast
  then show thesis using that b f by (auto simp: fun_upd_idem_iff)
qed

theorem HGraph_add_keeps_linked_witness:
  "\<exists>r b h' ns. add_one_point (demo_config demo_codes r) 7 0 1 True (demo_index () 0 b [] (LabelTable_new True)) = Inr h' \<and> hg_entry_point_id h' = 1 \<and>
    Flat_GetNeighbors MemoryBlockIO_ReadImpl (hg_bottom_graph h') 1 [] = Inr ns \<and> ns \<noteq> []"
proof -
  obtain b where b: "flat_block.gd_rev_inv b" "flat_block.gd_nbrs b = (\<lambda>x. [])" "gi_maximum_degree b = 2" "gi_max_capacity b = 10"
    "gi_total_count b = 1" by (rule demo_bottom)
  obtain r where r: "SparseGraphDataCell_new 4 8 False False False = Inr r" by (simp add: SparseGraphDataCell_new_def)
  let ?h = "demo_index () 0 b [] (LabelTable_new True)" and ?cf = "demo_config demo_codes r"
  have linked: "flat_block.flat_link.hg_linked sparse_link.level_ok {0} ?h"
    unfolding flat_block.flat_link.hg_linked_def flat_block.flat_link.level_ok_def using b b(1) [unfolded flat_block.gd_rev_inv_def]
    by (simp add: demo_index_def nested_def Flat_CheckIdExists_def)
  have "flat_block.flat_link.serves (\<lambda>_. 0) (hc_graph ?cf)" unfolding demo_config_def using flat_block.flat_serves by simp
  then have add: "flat_block.flat_link.addable (\<lambda>_. 0) ?cf () 7 1 {0} ?h"
    unfolding flat_block.flat_link.addable_def using b
    by (simp add: demo_index_def demo_config_def demo_codes_def build_codes_def need_temporary_sq8_build_data_def has_precise_reorder_def flat_methods_def)
  have codes: "(if True then insert_persistent_codes ?cf 7 1 ?h else Inr ?h) = Inr ?h"
    by (simp add: insert_persistent_codes_def demo_index_def demo_config_def demo_codes_def has_precise_reorder_def)
  have route: "SparseGraphDataCell_new 4 8 False False False = Inr (hc_route_graph ?cf)" using r by (simp add: demo_config_def)
  have "\<not> sg_is_support_delete r" using r by (auto simp: SparseGraphDataCell_new_def)
  then have "(1 :: nat) < sg_limit (hc_route_graph ?cf)" by (simp add: sg_limit_def demo_config_def)
  from HGraph_add_keeps_linked [OF linked codes add _ route _ _ this, of 0] show ?thesis by (auto simp: demo_index_def)
qed

end
