(* ===== verification/HGraphRemove.thy ===== *)
theory HGraphRemove
  imports HGraph
begin

text \<open>
  \<open>src/algorithm/hgraph/hgraph_modify.cpp\<close>: removing elements from the hierarchical graph index. An element
  is either only marked in the label table, or taken out of all graphs, where its neighbours are linked
  anew, and replaced by the last element. The locks are left out, as for adding.
\<close>

section \<open>Removal from the graphs\<close>

text \<open>\<open>find_new_entry_point\<close>: the loop over the route graphs from the top, those without a neighbour are popped.\<close>

fun find_entry :: "inner_id \<Rightarrow> sparse_graph list \<Rightarrow> (inner_id \<times> sparse_graph list) result" where
  "find_entry inner [] = Inr (inner, [])"
| "find_entry inner (upper_graph # lower) =
     bindR (Sparse_GetNeighbors upper_graph inner []) (\<lambda>neighbors.
       case filter (\<lambda>nb. nb \<noteq> inner) neighbors of
         [] \<Rightarrow> find_entry inner lower
       | nb # _ \<Rightarrow> Inr (nb, upper_graph # lower))"

definition find_new_entry_point :: "('c, 'g, 'e, 'd) hgraph \<Rightarrow> ('c, 'g, 'e, 'd) hgraph result" where
  "find_new_entry_point h =
     bindR (find_entry (hg_entry_point_id h) (rev (hg_route_graphs h))) (\<lambda>(ep, graphs).
       Inr (h\<lparr>hg_entry_point_id := ep, hg_route_graphs := rev graphs\<rparr>))"

text \<open>One round of the loop over the affected nodes.\<close>

definition relink_neighbor ::
  "('c, 'v, 'g, 'e) hgraph_config \<Rightarrow> 'h graph_methods \<Rightarrow> 'c \<Rightarrow> nat \<Rightarrow> inner_id \<Rightarrow> inner_id list \<Rightarrow> nat \<Rightarrow> inner_id \<Rightarrow> 'h \<Rightarrow> 'h result" where
  "relink_neighbor cf gm c total_count inner forward_neighbors max_degree neighbor graph =
     bindR (gm_GetNeighbors gm graph neighbor []) (\<lambda>neighbors_of_neighbor.
       let candidate_set = hc_order cf (filter (\<lambda>nb. nb \<noteq> inner) neighbors_of_neighbor @
                             filter (\<lambda>nb. nb \<noteq> inner \<and> nb \<noteq> neighbor) forward_neighbors);
           candidate_list = filter (\<lambda>candidate. candidate < total_count) candidate_set
       in bindR (select_neighbors_by_heuristic (hc_alpha_times cf) (cm_ComputePairVectors (hc_codes cf) c) neighbor max_degree candidate_list)
            (\<lambda>candidate_list. gm_InsertNeighborsById gm neighbor candidate_list graph))"

definition graph_force_remove_one ::
  "('c, 'v, 'g, 'e) hgraph_config \<Rightarrow> 'h graph_methods \<Rightarrow> 'c \<Rightarrow> nat \<Rightarrow> inner_id \<Rightarrow> 'h \<Rightarrow> 'h result" where
  "graph_force_remove_one cf gm c total_count inner graph =
     bindR (gm_GetNeighbors gm graph inner []) (\<lambda>forward_neighbors.
       let reverse_neighbors = gm_GetIncomingNeighbors gm graph inner
       in if forward_neighbors = [] \<and> reverse_neighbors = [] then Inr graph
          else let affected_nodes = hc_order cf (filter (\<lambda>n. n < total_count) (forward_neighbors @ reverse_neighbors))
               in bindR (foldR (relink_neighbor cf gm c total_count inner forward_neighbors (gm_MaximumDegree gm graph)) affected_nodes graph)
                    (gm_InsertNeighborsById gm inner []))"

section \<open>Removal from the index\<close>

text \<open>A loop that replaces every element of a vector, and an optional component.\<close>

fun mapR :: "('a \<Rightarrow> 'b result) \<Rightarrow> 'a list \<Rightarrow> 'b list result" where
  "mapR f [] = Inr []"
| "mapR f (x # xs) = bindR (f x) (\<lambda>y. bindR (mapR f xs) (\<lambda>ys. Inr (y # ys)))"

definition optR :: "('a \<Rightarrow> 'a result) \<Rightarrow> 'a option \<Rightarrow> 'a option result" where
  "optR f c = (case c of None \<Rightarrow> Inr None | Some x \<Rightarrow> bindR (f x) (\<lambda>y. Inr (Some y)))"

definition move_id :: "('c, 'v, 'g, 'e) hgraph_config \<Rightarrow> inner_id \<Rightarrow> inner_id \<Rightarrow> ('c, 'g, 'e, 'd) hgraph \<Rightarrow> ('c, 'g, 'e, 'd) hgraph result" where
  "move_id cf from to h =
     bindR (cm_Move (hc_codes cf) from to (hg_basic_flatten_codes h)) (\<lambda>basic.
     bindR (optR (cm_Move (hc_codes cf) from to) (hg_high_precise_codes h)) (\<lambda>precise.
     bindR (gm_Move (hc_graph cf) from to (hg_bottom_graph h)) (\<lambda>bottom.
     bindR (mapR (Sparse_Move from to) (hg_route_graphs h)) (\<lambda>routes.
     bindR (LabelTable_Move from to (hg_label_table h)) (\<lambda>t.
       Inr (h\<lparr>hg_basic_flatten_codes := basic, hg_high_precise_codes := precise,
              hg_extra_infos := map_option (hc_extra_Move cf from to) (hg_extra_infos h),
              hg_bottom_graph := bottom, hg_route_graphs := routes, hg_label_table := t,
              hg_entry_point_id := (if hg_entry_point_id h = from then to else hg_entry_point_id h)\<rparr>))))))"

definition force_remove_one :: "('c, 'v, 'g, 'e) hgraph_config \<Rightarrow> label \<Rightarrow> ('c, 'g, 'e, 'd) hgraph \<Rightarrow> (nat \<times> ('c, 'g, 'e, 'd) hgraph) result" where
  "force_remove_one cf lab h =
     (let (found, inner) = LabelTable_TryGetIdByLabel (hg_label_table h) lab True
      in if \<not> found then Inr (0, h)
         else bindR (if inner = hg_entry_point_id h then find_new_entry_point h else Inr h) (\<lambda>h.
              bindR (graph_force_remove_one cf (hc_graph cf) (hg_basic_flatten_codes h) (hg_total_count h) inner (hg_bottom_graph h)) (\<lambda>bottom.
              bindR (mapR (graph_force_remove_one cf sparse_methods (hg_basic_flatten_codes h) (hg_total_count h) inner) (hg_route_graphs h)) (\<lambda>routes.
                let swap_id = u32 (u64_sub (hg_total_count h) 1);
                    was_mark_removed = LabelTable_IsRemoved (hg_label_table h) inner;
                    h = h\<lparr>hg_bottom_graph := bottom, hg_route_graphs := routes,
                          hg_label_table := LabelTable_ForceRemove lab inner (hg_label_table h)\<rparr>
                in bindR (if swap_id \<noteq> inner then move_id cf swap_id inner h else Inr h) (\<lambda>h.
                     Inr (1, h\<lparr>hg_delete_count := (if was_mark_removed then hg_delete_count h - 1 else hg_delete_count h),
                               hg_total_count := u64_sub (hg_total_count h) 1\<rparr>))))))"

text \<open>\<open>shrink_to_fit\<close>; the raw vectors and the extra infos keep their size.\<close>

definition shrink_to_fit :: "('c, 'v, 'g, 'e) hgraph_config \<Rightarrow> (nat \<Rightarrow> 'd \<Rightarrow> 'd) \<Rightarrow> ('c, 'g, 'e, 'd) hgraph \<Rightarrow> ('c, 'g, 'e, 'd) hgraph" where
  "shrink_to_fit cf resize_tracker h =
     (let total_count = hg_total_count h
      in h\<lparr>hg_basic_flatten_codes := cm_ShrinkToFit (hc_codes cf) (u32 total_count) (hg_basic_flatten_codes h),
           hg_high_precise_codes := map_option (cm_ShrinkToFit (hc_codes cf) (u32 total_count)) (hg_high_precise_codes h),
           hg_bottom_graph := gm_ShrinkToFit (hc_graph cf) (u32 total_count) (hg_bottom_graph h),
           hg_route_graphs := map (GraphInterface_ShrinkToFit (u32 total_count)) (hg_route_graphs h),
           hg_label_table := LabelTable_ShrinkToFit resize_tracker (u32 total_count) (hg_label_table h)\<rparr>)"

definition hgraph_Remove ::
  "('c, 'v, 'g, 'e) hgraph_config \<Rightarrow> (nat \<Rightarrow> 'd \<Rightarrow> 'd) \<Rightarrow> label list \<Rightarrow> remove_mode \<Rightarrow> ('c, 'g, 'e, 'd) hgraph \<Rightarrow> (nat \<times> ('c, 'g, 'e, 'd) hgraph) result" where
  "hgraph_Remove cf resize_tracker ids mode h =
     (case mode of
        MARK_REMOVE \<Rightarrow>
          (let (delete_count, t) = LabelTable_MarkRemove ids (hg_label_table h)
           in Inr (delete_count, h\<lparr>hg_label_table := t, hg_delete_count := hg_delete_count h + int delete_count\<rparr>))
      | FORCE_REMOVE \<Rightarrow>
          bindR (foldR (\<lambda>lab (delete_count, h). bindR (force_remove_one cf lab h) (\<lambda>(k, h). Inr (u32 (delete_count + k), h))) ids (0, h))
            (\<lambda>(delete_count, h). Inr (delete_count, if delete_count \<noteq> 0 then shrink_to_fit cf resize_tracker h else h)))"

definition recover_remove :: "('c, 'v, 'g, 'e) hgraph_config \<Rightarrow> label \<Rightarrow> ('c, 'g, 'e, 'd) hgraph \<Rightarrow> ('c, 'g, 'e, 'd) hgraph result" where
  "recover_remove cf lab h =
     bindR (LabelTable_GetIdByLabel (hg_label_table h) lab True) (\<lambda>inner.
     bindR (gm_RecoverDeleteNeighborsById (hc_graph cf) inner (hg_bottom_graph h)) (\<lambda>bottom.
     bindR (LabelTable_RecoverRemove lab (hg_label_table h)) (\<lambda>(_, t).
       Inr (h\<lparr>hg_bottom_graph := bottom, hg_label_table := t, hg_delete_count := hg_delete_count h - 1\<rparr>))))"

section \<open>Removal from one graph\<close>

context growable_graph
begin

lemma relink_neighbor_ok:
  assumes gm: "provides gm" and lv: "level_ok S g" and lim: "S \<subseteq> {..<limit g}"
    and pairs: "\<forall>i\<in>S. \<forall>j\<in>S. cm_ComputePairVectors (hc_codes cf) c i j = Inr (pd i j)"
    and order: "\<forall>xs. set (hc_order cf xs) = set xs"
    and v: "v \<in> S" "v \<noteq> inner" "node g v" and fwd: "\<forall>w\<in>set fwd. w \<in> S \<and> node g w"
  shows "\<exists>g'. relink_neighbor cf gm c cnt inner fwd (degree g) v g = Inr g' \<and> level_ok S g' \<and> degree g' = degree g \<and> limit g' = limit g \<and>
    (\<forall>x. node g' x \<longleftrightarrow> node g x) \<and> (\<forall>x. x \<noteq> v \<longrightarrow> nbrs g' x = nbrs g x) \<and> inner \<notin> set (nbrs g' v)"
proof -
  have inv: "inv g" "0 < degree g" and edges: "\<And>v w. w \<in> set (nbrs g v) \<Longrightarrow> v \<in> S \<and> w \<in> S \<and> w \<noteq> v \<and> node g w"
    using lv by (auto simp: level_ok_def)
  define cs where "cs = filter (\<lambda>i. i < cnt) (hc_order cf (filter (\<lambda>nb. nb \<noteq> inner) (nbrs g v) @ filter (\<lambda>nb. nb \<noteq> inner \<and> nb \<noteq> v) fwd))"
  have cs: "\<forall>w\<in>set cs. w \<in> S \<and> node g w \<and> w \<noteq> inner \<and> w \<noteq> v" using edges fwd order by (auto simp: cs_def)
  then have "set cs \<subseteq> S" by blast
  from select_neighbors_part [OF pairs v(1) this inv(2), of "hc_alpha_times cf"] obtain out where
    out: "select_neighbors_by_heuristic (hc_alpha_times cf) (cm_ComputePairVectors (hc_codes cf) c) v (degree g) cs = Inr out"
      "mset out \<subseteq># mset cs" "length out \<le> degree g" by blast
  have sub: "set out \<subseteq> set cs" using out(2) by (metis set_mset_mono set_mset_mset)
  then have "\<forall>n\<in>set out. n < limit g" using cs lim by blast
  moreover have "v < limit g" using node_limit [OF inv(1) v(3)] .
  ultimately obtain g' where g': "ins v out g = Inr g'" "inv g'" "nbrs g' = (nbrs g)(v := out)" "degree g' = degree g" "limit g' = limit g"
    "\<forall>x. node g' x \<longleftrightarrow> node g x \<or> x = v" using ins_ok [OF inv(1) _ _ out(3)] by blast
  have "level_ok S g'" unfolding level_ok_def
  proof (intro conjI allI ballI)
    fix x w assume w: "w \<in> set (nbrs g' x)"
    show "x \<in> S" "w \<in> S" "w \<noteq> x" "node g' w"
      using w g'(3,6) edges [of w x] cs sub v(1) by (auto split: if_splits)
  qed (use g'(2,4) inv in auto)
  moreover have "relink_neighbor cf gm c cnt inner fwd (degree g) v g = Inr g'"
    using gm get_ok [OF inv(1) v(3)] out(1) g'(1) by (simp add: relink_neighbor_def provides_def cs_def)
  ultimately show ?thesis using g'(3-6) v(3) cs sub by (auto split: if_splits)
qed

lemma relink_loop_ok:
  assumes gm: "provides gm" and pairs: "\<forall>i\<in>S. \<forall>j\<in>S. cm_ComputePairVectors (hc_codes cf) c i j = Inr (pd i j)"
    and order: "\<forall>xs. set (hc_order cf xs) = set xs"
  shows "level_ok S g \<Longrightarrow> S \<subseteq> {..<limit g} \<Longrightarrow> \<forall>w\<in>set fwd. w \<in> S \<and> node g w \<Longrightarrow> \<forall>v\<in>set vs. v \<in> S \<and> v \<noteq> inner \<and> node g v \<Longrightarrow>
    \<forall>v. inner \<in> set (nbrs g v) \<longrightarrow> v \<in> set vs \<Longrightarrow> degree g = deg \<Longrightarrow>
    \<exists>g'. foldR (relink_neighbor cf gm c cnt inner fwd deg) vs g = Inr g' \<and> level_ok S g' \<and> degree g' = deg \<and> limit g' = limit g \<and>
      (\<forall>x. node g' x \<longleftrightarrow> node g x) \<and> (\<forall>v. inner \<notin> set (nbrs g' v))"
proof (induction vs arbitrary: g)
  case (Cons v vs)
  have v: "v \<in> S" "v \<noteq> inner" "node g v" using Cons.prems(4) by auto
  from relink_neighbor_ok [OF gm Cons.prems(1,2) pairs order v Cons.prems(3)] obtain g1 where
    g1: "relink_neighbor cf gm c cnt inner fwd deg v g = Inr g1" "level_ok S g1" "degree g1 = deg" "limit g1 = limit g" "\<forall>x. node g1 x \<longleftrightarrow> node g x"
      "\<forall>x. x \<noteq> v \<longrightarrow> nbrs g1 x = nbrs g x" "inner \<notin> set (nbrs g1 v)" unfolding Cons.prems(6) by blast
  have "\<forall>x. inner \<in> set (nbrs g1 x) \<longrightarrow> x \<in> set vs" using Cons.prems(5) g1(6,7) by (metis set_ConsD)
  moreover have "S \<subseteq> {..<limit g1}" "\<forall>w\<in>set fwd. w \<in> S \<and> node g1 w" "\<forall>v\<in>set vs. v \<in> S \<and> v \<noteq> inner \<and> node g1 v"
    using Cons.prems(2-4) g1(4,5) by auto
  ultimately have "\<exists>g'. foldR (relink_neighbor cf gm c cnt inner fwd deg) vs g1 = Inr g' \<and> level_ok S g' \<and> degree g' = deg \<and> limit g' = limit g1 \<and>
      (\<forall>x. node g' x \<longleftrightarrow> node g1 x) \<and> (\<forall>v. inner \<notin> set (nbrs g' v))" using Cons.IH [OF g1(2) _ _ _ _ g1(3)] by blast
  then show ?case using g1(1,4,5) by auto
qed auto

text \<open>The removal cuts the element off: no edge enters or leaves it, and no other node is lost.\<close>

lemma graph_force_remove_ok:
  assumes gm: "provides gm" and lv: "level_ok S g" and S: "S \<subseteq> {..<limit g}" "S \<subseteq> {..<cnt}" "inner \<in> S"
    and pairs: "\<forall>i\<in>S. \<forall>j\<in>S. cm_ComputePairVectors (hc_codes cf) c i j = Inr (pd i j)"
    and order: "\<forall>xs. set (hc_order cf xs) = set xs"
  shows "\<exists>g'. graph_force_remove_one cf gm c cnt inner g = Inr g' \<and> level_ok (S - {inner}) g' \<and> limit g' = limit g \<and> (\<forall>x. node g' x \<longleftrightarrow> node g x)"
proof -
  have inv: "inv g" "0 < degree g" and edges: "\<And>v w. w \<in> set (nbrs g v) \<Longrightarrow> v \<in> S \<and> w \<in> S \<and> w \<noteq> v \<and> node g w"
    using lv by (auto simp: level_ok_def)
  have "inner < limit g" using S(1,3) by blast
  then have get: "gm_GetNeighbors gm g inner [] = Inr (nbrs g inner)" using gm get_nil [OF inv(1)] by (simp add: provides_def)
  have inc: "set (gm_GetIncomingNeighbors gm g inner) = {x. inner \<in> set (nbrs g x)}" using gm incoming_ok [OF inv(1)] by (simp add: provides_def)
  show ?thesis
  proof (cases "nbrs g inner = [] \<and> gm_GetIncomingNeighbors gm g inner = []")
    case True
    then have "level_ok (S - {inner}) g" using inc lv by (force simp: level_ok_def)
    then show ?thesis using True get by (auto simp: graph_force_remove_one_def)
  next
    case False
    let ?affected = "hc_order cf (filter (\<lambda>n. n < cnt) (nbrs g inner @ gm_GetIncomingNeighbors gm g inner))"
    have node: "node g x" if "w \<in> set (nbrs g x)" for x w using that get_absent [OF inv(1)] by fastforce
    have "node g inner"
    proof (rule ccontr)
      assume "\<not> node g inner"
      then have "nbrs g inner = []" and "\<And>x. inner \<notin> set (nbrs g x)" using get_absent [OF inv(1)] edges by auto
      then have "set (gm_GetIncomingNeighbors gm g inner) = {}" using inc by simp
      then show False using False \<open>nbrs g inner = []\<close> by simp
    qed
    have aff: "\<forall>v\<in>set ?affected. v \<in> S \<and> v \<noteq> inner \<and> node g v" using edges inc node order by auto
    have "v \<in> set ?affected" if "inner \<in> set (nbrs g v)" for v using that edges [OF that] S(2) inc order by auto
    then have ex: "\<forall>v. inner \<in> set (nbrs g v) \<longrightarrow> v \<in> set ?affected" by blast
    have fwd: "\<forall>w\<in>set (nbrs g inner). w \<in> S \<and> node g w" using edges by blast
    from relink_loop_ok [OF gm pairs order lv S(1) fwd aff ex refl] obtain g1 where
      g1: "foldR (relink_neighbor cf gm c cnt inner (nbrs g inner) (degree g)) ?affected g = Inr g1" "level_ok S g1" "limit g1 = limit g"
        "\<forall>x. node g1 x \<longleftrightarrow> node g x" "\<forall>v. inner \<notin> set (nbrs g1 v)" by blast
    have "inv g1" "inner < limit g1" using g1(2,3) \<open>inner < limit g\<close> by (simp_all add: level_ok_def)
    then obtain g' where g': "ins inner [] g1 = Inr g'" "inv g'" "nbrs g' = (nbrs g1)(inner := [])" "degree g' = degree g1" "limit g' = limit g1"
      "\<forall>x. node g' x \<longleftrightarrow> node g1 x \<or> x = inner" using ins_ok [of g1 inner "[]"] by auto
    have "level_ok (S - {inner}) g'" using g1(2,5) g' by (auto simp: level_ok_def split: if_splits)
    moreover have "graph_force_remove_one cf gm c cnt inner g = Inr g'"
      using get False g1(1) g'(1) gm by (auto simp: graph_force_remove_one_def provides_def Let_def)
    ultimately show ?thesis using g' g1(3,4) \<open>node g inner\<close> by auto
  qed
qed

end

text \<open>Moving an element to the place of one that has been cut off.\<close>

context growable_graph
begin

lemma level_move_ok:
  assumes lv: "level_ok (S - {to}) g" and S: "S \<subseteq> {..<limit g}" "from \<in> S" "to \<in> S" "from \<noteq> to" and "node g from"
  shows "\<exists>g'. move from to g = Inr g' \<and> level_ok (S - {from}) g' \<and> node g' to \<and> (\<forall>x. x \<noteq> from \<and> node g x \<longrightarrow> node g' x)"
proof -
  have inv: "inv g" "0 < degree g"
    and edges: "\<And>v w. w \<in> set (nbrs g v) \<Longrightarrow> v \<in> S \<and> v \<noteq> to \<and> w \<in> S \<and> w \<noteq> to \<and> w \<noteq> v \<and> node g w" using lv by (auto simp: level_ok_def)
  have "nbrs g to = []" using edges last_in_set by metis
  then have pre: "from < limit g" "to < limit g" "\<forall>x. to \<notin> set (nbrs g x)" "nbrs g to = []" "from \<notin> set (nbrs g from)"
    "node g from \<or> (\<forall>x. from \<notin> set (nbrs g x))" using S edges assms(6) by auto
  from move_ok [OF inv(1) S(4) pre] obtain g' where g': "move from to g = Inr g'" "inv g'" "nbrs g' = renamed from to (nbrs g)"
    "degree g' = degree g" "node g from \<longrightarrow> node g' to" "\<forall>x. x \<noteq> from \<and> node g x \<longrightarrow> node g' x" by blast
  have "level_ok (S - {from}) g'" unfolding level_ok_def
  proof (intro conjI allI ballI)
    fix x w assume "w \<in> set (nbrs g' x)"
    then consider "x = to" "w \<in> set (nbrs g from)" "x \<noteq> from" | "x \<noteq> from" "x \<noteq> to" "w \<in> set (nbrs g x)" "w \<noteq> from"
      | "x \<noteq> from" "x \<noteq> to" "w = to" "from \<in> set (nbrs g x)" unfolding g'(3) by (auto simp: renamed_def split: if_splits)
    then show "x \<in> S - {from}" "w \<in> S - {from}" "w \<noteq> x" "node g' w"
      using edges S(3,4) g'(5,6) assms(6) by (cases; auto)+
  qed (use g'(2,4) inv in auto)
  then show ?thesis using g'(1,5,6) assms(6) by blast
qed

end

section \<open>Removal from the route graphs\<close>

lemma mapR_ok:
  "\<forall>x\<in>set xs. \<exists>y. f x = Inr y \<and> R x y \<Longrightarrow> \<exists>ys. mapR f xs = Inr ys \<and> list_all2 R xs ys"
  by (induction xs) fastforce+

lemma optR_ok: "\<forall>c. o1 = Some c \<longrightarrow> (\<exists>c'. f c = Inr c') \<Longrightarrow> \<exists>o2. optR f o1 = Inr o2"
  by (auto simp: optR_def split: option.splits)

text \<open>A change of all route graphs that is monotone in their nodes.\<close>

lemma nested_change:
  assumes "nested gs" "list_all2 (\<lambda>g g'. \<forall>x. Sparse_CheckIdExists g' x \<longleftrightarrow> F (Sparse_CheckIdExists g) x) gs gs'"
    and "\<And>P Q x. (\<forall>x. P x \<longrightarrow> Q x) \<Longrightarrow> F P x \<Longrightarrow> F Q x"
  shows "nested gs'"
proof -
  have len: "length gs' = length gs" and ch: "\<And>i x. i < length gs \<Longrightarrow> Sparse_CheckIdExists (gs' ! i) x \<longleftrightarrow> F (Sparse_CheckIdExists (gs ! i)) x"
    using assms(2) by (auto simp: list_all2_conv_all_nth)
  show ?thesis unfolding nested_def sorted_wrt_iff_nth_less
  proof (intro allI impI)
    fix i j w assume ij: "i < j" "j < length gs'" and w: "Sparse_CheckIdExists (gs' ! j) w"
    have "\<forall>x. Sparse_CheckIdExists (gs ! j) x \<longrightarrow> Sparse_CheckIdExists (gs ! i) x"
      using assms(1) ij len unfolding nested_def sorted_wrt_iff_nth_less by simp
    moreover have "F (Sparse_CheckIdExists (gs ! j)) w" using ch w ij len by simp
    ultimately have "F (Sparse_CheckIdExists (gs ! i)) w" by (rule assms(3))
    then show "Sparse_CheckIdExists (gs' ! i) w" using ch ij len by simp
  qed
qed

lemma nested_take: "nested gs \<Longrightarrow> nested (take k gs)"
  by (simp add: nested_def sorted_wrt_take)

lemma find_entry_ok:
  assumes "\<forall>g\<in>set gs. sparse_grow.level_ok S g \<and> inner < sg_limit g"
  shows "\<exists>ep k. find_entry inner gs = Inr (ep, drop k gs) \<and> k \<le> length gs \<and>
    (if ep = inner then k = length gs \<and> (\<forall>g\<in>set gs. sg_nbrs g inner = [])
     else k < length gs \<and> ep \<in> S \<and> Sparse_CheckIdExists (gs ! k) ep \<and> sg_nbrs (gs ! k) inner \<noteq> [])"
  using assms
proof (induction gs)
  case (Cons g gs)
  have inv: "sg_rev_inv g" and edges: "\<forall>w\<in>set (sg_nbrs g inner). w \<in> S \<and> w \<noteq> inner \<and> Sparse_CheckIdExists g w"
    using Cons.prems by (auto simp: sparse_grow.level_ok_def)
  have get: "Sparse_GetNeighbors g inner [] = Inr (sg_nbrs g inner)" using sparse_rev.get_nil [OF inv] Cons.prems by simp
  have fl: "filter (\<lambda>nb. nb \<noteq> inner) (sg_nbrs g inner) = sg_nbrs g inner" using edges by (simp add: filter_id_conv)
  show ?case
  proof (cases "sg_nbrs g inner")
    case Nil
    obtain ep k where r: "find_entry inner gs = Inr (ep, drop k gs)" "k \<le> length gs"
      "if ep = inner then k = length gs \<and> (\<forall>g\<in>set gs. sg_nbrs g inner = [])
       else k < length gs \<and> ep \<in> S \<and> Sparse_CheckIdExists (gs ! k) ep \<and> sg_nbrs (gs ! k) inner \<noteq> []" using Cons by auto
    then show ?thesis using Nil get by (intro exI [of _ ep] exI [of _ "Suc k"]) (auto split: if_splits)
  next
    case (Cons nb nbs)
    then show ?thesis using get fl edges by (intro exI [of _ nb] exI [of _ 0]) simp
  qed
qed simp

text \<open>The entry point after the search for a new one: an element of all route graphs left, or still the removed one.\<close>

lemma new_entry_ok:
  assumes routes: "\<forall>g\<in>set (hg_route_graphs h). sparse_grow.level_ok S g \<and> Sparse_CheckIdExists g (hg_entry_point_id h) \<and> inner < sg_limit g"
    and "nested (hg_route_graphs h)" "hg_entry_point_id h \<in> S"
  shows "\<exists>ep k. (if inner = hg_entry_point_id h then find_new_entry_point h else Inr h) =
      Inr (h\<lparr>hg_entry_point_id := ep, hg_route_graphs := take k (hg_route_graphs h)\<rparr>) \<and>
    (if ep = inner then k = 0 else ep \<in> S \<and> (\<forall>g\<in>set (take k (hg_route_graphs h)). Sparse_CheckIdExists g ep)) \<and>
    (ep = inner \<longleftrightarrow> inner = hg_entry_point_id h \<and> (\<forall>g\<in>set (hg_route_graphs h). sg_nbrs g inner = []))"
proof (cases "inner = hg_entry_point_id h")
  case True
  let ?gs = "hg_route_graphs h"
  have "\<forall>g\<in>set (rev ?gs). sparse_grow.level_ok S g \<and> inner < sg_limit g" using routes by simp
  then obtain ep k where r: "find_entry inner (rev ?gs) = Inr (ep, drop k (rev ?gs))" "k \<le> length ?gs"
    "if ep = inner then k = length ?gs \<and> (\<forall>g\<in>set ?gs. sg_nbrs g inner = [])
     else k < length ?gs \<and> ep \<in> S \<and> Sparse_CheckIdExists (rev ?gs ! k) ep \<and> sg_nbrs (rev ?gs ! k) inner \<noteq> []" using find_entry_ok [of "rev ?gs" S inner] unfolding set_rev length_rev by blast
  define m where "m = length ?gs - k"
  have find: "find_new_entry_point h = Inr (h\<lparr>hg_entry_point_id := ep, hg_route_graphs := take m ?gs\<rparr>)"
    using r(1) True by (simp add: find_new_entry_point_def drop_rev m_def)
  have in_all: "Sparse_CheckIdExists g ep" if g: "g \<in> set (take m ?gs)" and "ep \<noteq> inner" for g
  proof -
    have m: "m \<le> length ?gs" "0 < m" "rev ?gs ! k = ?gs ! (m - 1)" using r(2,3) \<open>ep \<noteq> inner\<close> by (auto simp: m_def rev_nth)
    obtain i where i: "i < m" "g = ?gs ! i" using g by (auto simp: in_set_conv_nth)
    have "i = m - 1 \<or> i < m - 1" using i(1) by linarith
    then show ?thesis using r(3) \<open>ep \<noteq> inner\<close> m i assms(2) by (auto simp: nested_def sorted_wrt_iff_nth_less)
  qed
  have "ep = inner \<longleftrightarrow> (\<forall>g\<in>set ?gs. sg_nbrs g inner = [])"
    using r(2,3) nth_mem [of k "rev ?gs"] by (auto split: if_splits)
  then show ?thesis using True find in_all r(3) by (intro exI [of _ ep] exI [of _ m]) (auto simp: m_def split: if_splits)
next
  case False
  then show ?thesis using routes assms(3)
    by (intro exI [of _ "hg_entry_point_id h"] exI [of _ "length (hg_route_graphs h)"]) auto
qed

lemma sparse_level_move:
  assumes lv: "sparse_grow.level_ok (S - {to}) g" and S: "S \<subseteq> {..<sg_limit g}" "from \<in> S" "to \<in> S" "from \<noteq> to"
  shows "\<exists>g'. Sparse_Move from to g = Inr g' \<and> sparse_grow.level_ok (S - {from}) g' \<and>
    (\<forall>x. Sparse_CheckIdExists g' x \<longleftrightarrow>
       (if Sparse_CheckIdExists g from then x \<noteq> from \<and> (Sparse_CheckIdExists g x \<or> x = to) else Sparse_CheckIdExists g x))"
proof -
  have inv: "sg_rev_inv g" and edges: "\<And>v w. w \<in> set (sg_nbrs g v) \<Longrightarrow> v \<in> S \<and> v \<noteq> to \<and> w \<in> S \<and> w \<noteq> to \<and> w \<noteq> v \<and> Sparse_CheckIdExists g w"
    using lv by (auto simp: sparse_grow.level_ok_def)
  show ?thesis
  proof (cases "Sparse_CheckIdExists g from")
    case True
    have "to < sg_limit g" "\<forall>x. to \<notin> set (sg_nbrs g x)" "from \<notin> set (sg_nbrs g from)" using S edges by auto
    from Sparse_Move_renamed [OF inv S(4) True this] sparse_grow.level_move_ok [OF lv S True] True show ?thesis by auto
  next
    case False
    then have "sg_nbrs g from = []" using sparse_rev.get_absent [OF inv] by blast
    then have "v \<noteq> from \<and> w \<noteq> from" if "w \<in> set (sg_nbrs g v)" for v w using that edges [OF that] False by auto
    then have "sparse_grow.level_ok (S - {from}) g" using lv by (auto simp: sparse_grow.level_ok_def)
    moreover have "Sparse_Move from to g = Inr g" using False by (simp add: Sparse_Move_def Sparse_CheckIdExists_def)
    ultimately show ?thesis using False by simp
  qed
qed

lemma routes_move_ok:
  assumes "\<forall>g\<in>set gs. sparse_grow.level_ok (S - {to}) g \<and> S \<subseteq> {..<sg_limit g}" "from \<in> S" "to \<in> S" "from \<noteq> to" "nested gs"
  shows "\<exists>gs'. mapR (Sparse_Move from to) gs = Inr gs' \<and> length gs' = length gs \<and> (\<forall>g\<in>set gs'. sparse_grow.level_ok (S - {from}) g) \<and> nested gs' \<and>
    (\<forall>ep. (\<forall>g\<in>set gs. Sparse_CheckIdExists g ep) \<longrightarrow> (\<forall>g\<in>set gs'. Sparse_CheckIdExists g (if ep = from then to else ep)))"
proof -
  let ?F = "\<lambda>P x. if P from then x \<noteq> from \<and> (P x \<or> x = to) else P x"
  have "\<forall>g\<in>set gs. \<exists>g'. Sparse_Move from to g = Inr g' \<and>
      (sparse_grow.level_ok (S - {from}) g' \<and> (\<forall>x. Sparse_CheckIdExists g' x \<longleftrightarrow> ?F (Sparse_CheckIdExists g) x))"
    using sparse_level_move [of S to _ "from"] assms(1-4) by blast
  from mapR_ok [OF this] obtain gs' where gs': "mapR (Sparse_Move from to) gs = Inr gs'"
    "list_all2 (\<lambda>g g'. sparse_grow.level_ok (S - {from}) g' \<and> (\<forall>x. Sparse_CheckIdExists g' x \<longleftrightarrow> ?F (Sparse_CheckIdExists g) x)) gs gs'" by blast
  have "list_all2 (\<lambda>g g'. \<forall>x. Sparse_CheckIdExists g' x \<longleftrightarrow> ?F (Sparse_CheckIdExists g) x) gs gs'"
    using gs'(2) by (rule list_all2_mono) blast
  then have "nested gs'" using assms(4) by (intro nested_change [OF assms(5), where F = ?F]) (auto split: if_splits)
  moreover have "sparse_grow.level_ok (S - {from}) g'" if "g' \<in> set gs'" for g'
    using gs'(2) that by (auto simp: list_all2_conv_all_nth in_set_conv_nth)
  moreover have "Sparse_CheckIdExists g' (if ep = from then to else ep)" if all: "\<forall>g\<in>set gs. Sparse_CheckIdExists g ep" and g': "g' \<in> set gs'" for ep g'
  proof -
    obtain i where "i < length gs'" "g' = gs' ! i" using g' by (auto simp: in_set_conv_nth)
    then have "gs ! i \<in> set gs" "\<forall>x. Sparse_CheckIdExists g' x \<longleftrightarrow> ?F (Sparse_CheckIdExists (gs ! i)) x"
      using gs'(2) by (auto simp: list_all2_conv_all_nth)
    moreover have "Sparse_CheckIdExists (gs ! i) ep" using all \<open>gs ! i \<in> set gs\<close> by blast
    ultimately show ?thesis using assms(4) by (cases "ep = from") simp_all
  qed
  ultimately show ?thesis using gs'(1) list_all2_lengthD [OF gs'(2)] by auto
qed

section \<open>Removal keeps the index\<close>

context growable_graph
begin

text \<open>
  What removing elements needs of an index; \<open>vec\<close> reads the code of an element, which \<open>Move\<close> copies.
\<close>

definition removable :: "('c, 'v, 'a, 'e) hgraph_config \<Rightarrow> ('c \<Rightarrow> inner_id \<Rightarrow> 'w) \<Rightarrow> ('c, 'a, 'e, 'd) hgraph \<Rightarrow> bool" where
  "removable cf vec h \<longleftrightarrow> provides (hc_graph cf) \<and> (\<forall>xs. set (hc_order cf xs) = set xs) \<and> hg_linked sparse_grow.level_ok {..<hg_total_count h} h \<and> hg_total_count h < 2 ^ 32 \<and>
     (\<forall>g\<in>set (hg_route_graphs h). hg_total_count h \<le> sg_limit g) \<and>
     (\<forall>i<hg_total_count h. \<forall>j<hg_total_count h. \<exists>x. cm_ComputePairVectors (hc_codes cf) (hg_basic_flatten_codes h) i j = Inr x) \<and>
     (\<forall>i<hg_total_count h. \<forall>j<hg_total_count h. \<exists>c. cm_Move (hc_codes cf) i j (hg_basic_flatten_codes h) = Inr c \<and>
        (\<forall>k<hg_total_count h. vec c k = vec (hg_basic_flatten_codes h) (if k = j then i else k))) \<and>
     (\<forall>c. hg_high_precise_codes h = Some c \<longrightarrow> (\<forall>i<hg_total_count h. \<forall>j<hg_total_count h. \<exists>c'. cm_Move (hc_codes cf) i j c = Inr c'))"

lemma removable_basic: "removable cf vec h \<Longrightarrow> provides (hc_graph cf) \<and> hg_total_count h < 2 ^ 32"
  by (simp add: removable_def)

lemma removable_moves:
  assumes "removable cf vec h" "i < hg_total_count h" "j < hg_total_count h"
  shows "\<exists>c. cm_Move (hc_codes cf) i j (hg_basic_flatten_codes h) = Inr c \<and>
      (\<forall>k<hg_total_count h. vec c k = vec (hg_basic_flatten_codes h) (if k = j then i else k))"
    and "\<exists>pc. optR (cm_Move (hc_codes cf) i j) (hg_high_precise_codes h) = Inr pc"
proof -
  show "\<exists>c. cm_Move (hc_codes cf) i j (hg_basic_flatten_codes h) = Inr c \<and>
      (\<forall>k<hg_total_count h. vec c k = vec (hg_basic_flatten_codes h) (if k = j then i else k))" using assms by (simp add: removable_def)
  have "\<forall>c. hg_high_precise_codes h = Some c \<longrightarrow> (\<exists>c'. cm_Move (hc_codes cf) i j c = Inr c')" using assms by (simp add: removable_def)
  then show "\<exists>pc. optR (cm_Move (hc_codes cf) i j) (hg_high_precise_codes h) = Inr pc" by (rule optR_ok)
qed

lemma nodes_below_limit:
  assumes "inv g" "\<forall>v<m. node g v"
  shows "{..<m} \<subseteq> {..<limit g}"
proof (rule subsetI)
  fix x assume "x \<in> {..<m}"
  then have "node g x" using assms(2) by simp
  then show "x \<in> {..<limit g}" using node_limit [OF assms(1)] by simp
qed

text \<open>The graphs after the removal of \<open>inner\<close>, before the last element takes its place.\<close>

lemma cut_off_ok:
  assumes rm: "removable cf vec h" and inner: "inner < hg_total_count h"
  shows "\<exists>ep k b gs. (if inner = hg_entry_point_id h then find_new_entry_point h else Inr h) =
      Inr (h\<lparr>hg_entry_point_id := ep, hg_route_graphs := take k (hg_route_graphs h)\<rparr>) \<and>
    graph_force_remove_one cf (hc_graph cf) (hg_basic_flatten_codes h) (hg_total_count h) inner (hg_bottom_graph h) = Inr b \<and>
    mapR (graph_force_remove_one cf sparse_methods (hg_basic_flatten_codes h) (hg_total_count h) inner) (take k (hg_route_graphs h)) = Inr gs \<and>
    level_ok ({..<hg_total_count h} - {inner}) b \<and> (\<forall>v<hg_total_count h. node b v) \<and> limit b = limit (hg_bottom_graph h) \<and>
    (\<forall>g\<in>set gs. sparse_grow.level_ok ({..<hg_total_count h} - {inner}) g \<and> hg_total_count h \<le> sg_limit g) \<and> nested gs \<and>
    (if ep = inner then gs = [] else ep < hg_total_count h \<and> (\<forall>g\<in>set gs. Sparse_CheckIdExists g ep)) \<and>
    (ep = inner \<longleftrightarrow> inner = hg_entry_point_id h \<and> (\<forall>g\<in>set (hg_route_graphs h). sg_nbrs g inner = []))"
proof -
  let ?S = "{..<hg_total_count h}" and ?c = "hg_basic_flatten_codes h" and ?gs = "hg_route_graphs h"
  have gm: "provides (hc_graph cf)" and order: "\<forall>xs. set (hc_order cf xs) = set xs" and lk: "hg_linked sparse_grow.level_ok ?S h"
    and lims: "\<forall>g\<in>set ?gs. ?S \<subseteq> {..<sg_limit g}" using rm by (auto simp: removable_def)
  obtain pd where pd: "\<forall>i\<in>?S. \<forall>j\<in>?S. cm_ComputePairVectors (hc_codes cf) ?c i j = Inr (pd i j)"
    using rm unfolding removable_def Ball_def lessThan_iff by metis
  have L: "level_ok ?S (hg_bottom_graph h)" "\<forall>v\<in>?S. node (hg_bottom_graph h) v" "\<forall>g\<in>set ?gs. sparse_grow.level_ok ?S g \<and> Sparse_CheckIdExists g (hg_entry_point_id h)"
    "nested ?gs" "hg_entry_point_id h \<in> ?S" using lk inner by (auto simp: hg_linked_def split: if_splits)
  have "\<forall>g\<in>set ?gs. sparse_grow.level_ok ?S g \<and> Sparse_CheckIdExists g (hg_entry_point_id h) \<and> inner < sg_limit g" using L(3) lims inner by auto
  from new_entry_ok [OF this L(4,5)] obtain ep k where
    ek: "(if inner = hg_entry_point_id h then find_new_entry_point h else Inr h) = Inr (h\<lparr>hg_entry_point_id := ep, hg_route_graphs := take k ?gs\<rparr>)"
      "if ep = inner then k = 0 else ep \<in> ?S \<and> (\<forall>g\<in>set (take k ?gs). Sparse_CheckIdExists g ep)"
      "ep = inner \<longleftrightarrow> inner = hg_entry_point_id h \<and> (\<forall>g\<in>set ?gs. sg_nbrs g inner = [])" by blast
  have "inv (hg_bottom_graph h)" using L(1) by (simp add: level_ok_def)
  then have bl: "?S \<subseteq> {..<limit (hg_bottom_graph h)}" using L(2) by (intro nodes_below_limit) simp_all
  have in_S: "inner \<in> ?S" using inner by simp
  from graph_force_remove_ok [OF gm L(1) bl order_refl in_S pd order] obtain b where
    b: "graph_force_remove_one cf (hc_graph cf) ?c (hg_total_count h) inner (hg_bottom_graph h) = Inr b"
      "level_ok (?S - {inner}) b" "limit b = limit (hg_bottom_graph h)" "\<forall>x. node b x \<longleftrightarrow> node (hg_bottom_graph h) x" by blast
  have step: "\<forall>g\<in>set (take k ?gs). \<exists>g'. graph_force_remove_one cf sparse_methods ?c (hg_total_count h) inner g = Inr g' \<and>
      (sparse_grow.level_ok (?S - {inner}) g' \<and> sg_limit g' = sg_limit g \<and> (\<forall>x. Sparse_CheckIdExists g' x \<longleftrightarrow> Sparse_CheckIdExists g x))"
  proof
    fix g assume "g \<in> set (take k ?gs)"
    then have "g \<in> set ?gs" by (rule in_set_takeD)
    then have "sparse_grow.level_ok ?S g" "?S \<subseteq> {..<sg_limit g}" using L(3) lims by (blast, blast)
    from sparse_grow.graph_force_remove_ok [OF sparse_provides this order_refl in_S pd order]
    show "\<exists>g'. graph_force_remove_one cf sparse_methods ?c (hg_total_count h) inner g = Inr g' \<and>
      (sparse_grow.level_ok (?S - {inner}) g' \<and> sg_limit g' = sg_limit g \<and> (\<forall>x. Sparse_CheckIdExists g' x \<longleftrightarrow> Sparse_CheckIdExists g x))" .
  qed
  from mapR_ok [OF step] obtain gs where gs: "mapR (graph_force_remove_one cf sparse_methods ?c (hg_total_count h) inner) (take k ?gs) = Inr gs"
    "list_all2 (\<lambda>g g'. sparse_grow.level_ok (?S - {inner}) g' \<and> sg_limit g' = sg_limit g \<and> (\<forall>x. Sparse_CheckIdExists g' x \<longleftrightarrow> Sparse_CheckIdExists g x))
       (take k ?gs) gs" by blast
  have same: "list_all2 (\<lambda>g g'. \<forall>x. Sparse_CheckIdExists g' x \<longleftrightarrow> Sparse_CheckIdExists g x) (take k ?gs) gs"
    using gs(2) by (rule list_all2_mono) blast
  have nst: "nested gs" by (rule nested_change [where F = "\<lambda>P. P", OF nested_take [OF L(4)] same]) blast
  have each: "\<exists>g0\<in>set (take k ?gs). sparse_grow.level_ok (?S - {inner}) g \<and> sg_limit g = sg_limit g0 \<and> (\<forall>x. Sparse_CheckIdExists g x \<longleftrightarrow> Sparse_CheckIdExists g0 x)"
    if "g \<in> set gs" for g using gs(2) that unfolding list_all2_conv_all_nth in_set_conv_nth [of g] by (metis nth_mem)
  have "\<forall>g\<in>set gs. sparse_grow.level_ok (?S - {inner}) g \<and> hg_total_count h \<le> sg_limit g"
    using each lims in_set_takeD by (metis lessThan_subset_iff)
  moreover have "if ep = inner then gs = [] else ep < hg_total_count h \<and> (\<forall>g\<in>set gs. Sparse_CheckIdExists g ep)"
    using ek(2) each list_all2_lengthD [OF gs(2)] by (auto split: if_splits)
  ultimately show ?thesis using ek(1,3) b(1-3) gs(1) nst b(4) L(2) by blast
qed

lemma move_id_ok:
  assumes rm: "removable cf vec h" and id: "from < hg_total_count h" "to < hg_total_count h" "from \<noteq> to"
    and b: "level_ok ({..<hg_total_count h} - {to}) b" "\<forall>v<hg_total_count h. node b v" "limit b = limit (hg_bottom_graph h)"
    and gs: "\<forall>g\<in>set gs. sparse_grow.level_ok ({..<hg_total_count h} - {to}) g \<and> hg_total_count h \<le> sg_limit g" "nested gs"
    and t: "LabelTable_Move from to t = Inr t'"
  shows "\<exists>c pc b' gs'. move_id cf from to (h\<lparr>hg_entry_point_id := ep, hg_bottom_graph := b, hg_route_graphs := gs, hg_label_table := t\<rparr>) =
      Inr (h\<lparr>hg_basic_flatten_codes := c, hg_high_precise_codes := pc, hg_extra_infos := map_option (hc_extra_Move cf from to) (hg_extra_infos h),
             hg_bottom_graph := b', hg_route_graphs := gs', hg_label_table := t', hg_entry_point_id := (if ep = from then to else ep)\<rparr>) \<and>
    (\<forall>k<hg_total_count h. vec c k = vec (hg_basic_flatten_codes h) (if k = to then from else k)) \<and>
    level_ok ({..<hg_total_count h} - {from}) b' \<and> (\<forall>v\<in>{..<hg_total_count h} - {from}. node b' v) \<and>
    length gs' = length gs \<and> (\<forall>g\<in>set gs'. sparse_grow.level_ok ({..<hg_total_count h} - {from}) g) \<and> nested gs' \<and>
    ((\<forall>g\<in>set gs. Sparse_CheckIdExists g ep) \<longrightarrow> (\<forall>g\<in>set gs'. Sparse_CheckIdExists g (if ep = from then to else ep)))"
proof -
  let ?S = "{..<hg_total_count h}"
  have gm: "gm_Move (hc_graph cf) = move" using rm by (simp add: removable_def provides_def)
  obtain c where c: "cm_Move (hc_codes cf) from to (hg_basic_flatten_codes h) = Inr c"
    "\<forall>k<hg_total_count h. vec c k = vec (hg_basic_flatten_codes h) (if k = to then from else k)"
    using removable_moves(1) [OF rm id(1,2)] by blast
  obtain pc where pc: "optR (cm_Move (hc_codes cf) from to) (hg_high_precise_codes h) = Inr pc"
    using removable_moves(2) [OF rm id(1,2)] by blast
  have in_S: "from \<in> ?S" "to \<in> ?S" using id by simp_all
  have "inv b" using b(1) by (simp add: level_ok_def)
  then have bl: "?S \<subseteq> {..<limit b}" using b(2) by (rule nodes_below_limit)
  have "node b from" using b(2) id(1) by blast
  from level_move_ok [OF b(1) bl in_S id(3) this] obtain b' where b': "move from to b = Inr b'" "level_ok (?S - {from}) b'" "node b' to"
    "\<forall>x. x \<noteq> from \<and> node b x \<longrightarrow> node b' x" by blast
  have "\<forall>g\<in>set gs. sparse_grow.level_ok (?S - {to}) g \<and> ?S \<subseteq> {..<sg_limit g}" using gs(1) by auto
  from routes_move_ok [OF this in_S id(3) gs(2)] obtain gs' where gs': "mapR (Sparse_Move from to) gs = Inr gs'" "length gs' = length gs"
    "\<forall>g\<in>set gs'. sparse_grow.level_ok (?S - {from}) g" "nested gs'"
    "(\<forall>g\<in>set gs. Sparse_CheckIdExists g ep) \<longrightarrow> (\<forall>g\<in>set gs'. Sparse_CheckIdExists g (if ep = from then to else ep))" by blast
  have "move_id cf from to (h\<lparr>hg_entry_point_id := ep, hg_bottom_graph := b, hg_route_graphs := gs, hg_label_table := t\<rparr>) =
      Inr (h\<lparr>hg_basic_flatten_codes := c, hg_high_precise_codes := pc, hg_extra_infos := map_option (hc_extra_Move cf from to) (hg_extra_infos h),
             hg_bottom_graph := b', hg_route_graphs := gs', hg_label_table := t', hg_entry_point_id := (if ep = from then to else ep)\<rparr>)"
    using c(1) pc b'(1) gs'(1) t gm by (simp add: move_id_def)
  moreover have "\<forall>v\<in>?S - {from}. node b' v" using b(2) b'(4) by simp
  ultimately show ?thesis using c(2) b'(2) gs'(2-5) by blast
qed

text \<open>
  The removal of one element. The entry point is left behind exactly when the element is the last
  one and the entry point, and no route graph has another neighbour for it.
\<close>

lemma force_remove_one_ok:
  assumes rm: "removable cf vec h" and t: "lt_rel (hg_label_table h) xs D" "length xs = hg_total_count h" "l \<in> set xs"
  defines "inner \<equiv> find_label xs l" and "n \<equiv> hg_total_count h - 1"
  defines "stuck \<equiv> inner = n \<and> inner = hg_entry_point_id h \<and> (\<forall>g\<in>set (hg_route_graphs h). sg_nbrs g inner = [])"
  shows "\<exists>h'. force_remove_one cf l h = Inr (1, h') \<and> hg_total_count h' = n \<and> level_ok {..<n} (hg_bottom_graph h') \<and>
    lt_rel (hg_label_table h') (swap_labels xs inner) (swap_marks n inner D) \<and> hg_raw_vector h' = hg_raw_vector h \<and>
    (\<forall>k<n. vec (hg_basic_flatten_codes h') k = vec (hg_basic_flatten_codes h) (if k = inner then n else k)) \<and>
    hg_delete_count h' = (if inner \<in> D then hg_delete_count h - 1 else hg_delete_count h) \<and>
    (if stuck then hg_entry_point_id h' = n \<and> hg_route_graphs h' = [] \<and> node (hg_bottom_graph h') n else hg_linked sparse_grow.level_ok {..<n} h')"
proof -
  let ?t = "hg_label_table h" and ?S = "{..<hg_total_count h}"
  have inner: "inner < hg_total_count h" using find_label_props(1) [of xs l] t(2,3) by (simp add: inner_def)
  have got: "LabelTable_TryGetIdByLabel ?t l True = (True, inner)" "LabelTable_IsRemoved ?t inner \<longleftrightarrow> inner \<in> D"
    using lt_rel_queries(1) [OF t(1), of l True] lt_rel_queries(4) [OF t(1)] t(3) by (simp_all add: inner_def)
  have "u64_sub (hg_total_count h) 1 = n" using rm inner by (subst u64_sub_le) (auto simp: removable_def n_def)
  moreover have "hg_total_count h < 2 ^ 32" using rm by (simp add: removable_def)
  then have "n < 2 ^ 32" unfolding n_def by linarith
  ultimately have swap: "u64_sub (hg_total_count h) 1 = n" "u32 n = n" by simp_all
  obtain t' where t': "swap_remove l ?t = Inr t'" "lt_rel t' (swap_labels xs inner) (swap_marks n inner D)"
    using lt_rel_swap_remove [OF t(1,3)] t(2) by (auto simp: inner_def n_def)
  have "nat (lt_total_count ?t) - 1 = n" using t(1,2) by (simp add: lt_rel_def n_def)
  then have mv: "(if n \<noteq> inner then LabelTable_Move n inner (LabelTable_ForceRemove l inner ?t) else Inr (LabelTable_ForceRemove l inner ?t)) = Inr t'"
    using t'(1) got(1) by (simp add: swap_remove_def Let_def)
  obtain ep k b gs where cut:
    "(if inner = hg_entry_point_id h then find_new_entry_point h else Inr h) = Inr (h\<lparr>hg_entry_point_id := ep, hg_route_graphs := take k (hg_route_graphs h)\<rparr>)"
    "graph_force_remove_one cf (hc_graph cf) (hg_basic_flatten_codes h) (hg_total_count h) inner (hg_bottom_graph h) = Inr b"
    "mapR (graph_force_remove_one cf sparse_methods (hg_basic_flatten_codes h) (hg_total_count h) inner) (take k (hg_route_graphs h)) = Inr gs"
    "level_ok (?S - {inner}) b" "\<forall>v<hg_total_count h. node b v" "limit b = limit (hg_bottom_graph h)"
    "\<forall>g\<in>set gs. sparse_grow.level_ok (?S - {inner}) g \<and> hg_total_count h \<le> sg_limit g" "nested gs"
    "if ep = inner then gs = [] else ep < hg_total_count h \<and> (\<forall>g\<in>set gs. Sparse_CheckIdExists g ep)"
    "ep = inner \<longleftrightarrow> inner = hg_entry_point_id h \<and> (\<forall>g\<in>set (hg_route_graphs h). sg_nbrs g inner = [])"
    using cut_off_ok [OF rm inner] by blast
  have cap: "?S \<subseteq> {..<hg_max_capacity h}" using rm by (simp add: removable_def hg_linked_def)
  let ?dc = "if inner \<in> D then hg_delete_count h - 1 else hg_delete_count h"
  define hm where "hm = h\<lparr>hg_entry_point_id := ep, hg_bottom_graph := b, hg_route_graphs := gs, hg_label_table := LabelTable_ForceRemove l inner ?t\<rparr>"
  have run: "force_remove_one cf l h = bindR (if n \<noteq> inner then move_id cf n inner hm else Inr hm)
      (\<lambda>h'. Inr (1, h'\<lparr>hg_delete_count := (if inner \<in> D then hg_delete_count h' - 1 else hg_delete_count h'), hg_total_count := u64_sub (hg_total_count h') 1\<rparr>))"
    using cut(1-3) got swap by (simp add: force_remove_one_def hm_def)
  show ?thesis
  proof (cases "n = inner")
    case True
    have S: "?S - {inner} = {..<n}" using True inner by (auto simp: n_def)
    define h' where "h' = hm\<lparr>hg_delete_count := ?dc, hg_total_count := n\<rparr>"
    have "force_remove_one cf l h = Inr (1, h')" using run True swap(1) by (simp add: h'_def hm_def)
    moreover have "lt_rel (hg_label_table h') (swap_labels xs inner) (swap_marks n inner D)" using mv t'(2) True by (simp add: h'_def hm_def)
    moreover have "if stuck then hg_entry_point_id h' = n \<and> hg_route_graphs h' = [] \<and> node (hg_bottom_graph h') n else hg_linked sparse_grow.level_ok {..<n} h'"
    proof (cases stuck)
      case True
      then show ?thesis using cut(5,9,10) inner by (simp add: stuck_def h'_def hm_def split: if_splits)
    next
      case False
      then have "ep \<noteq> inner" using cut(10) True by (simp add: stuck_def)
      then have "ep < n" "\<forall>g\<in>set gs. Sparse_CheckIdExists g ep" using cut(9) True by (auto simp: n_def)
      then show ?thesis using False cut(4,5,7,8) cap S by (auto simp: hg_linked_def h'_def hm_def n_def)
    qed
    ultimately show ?thesis using cut(4) S True by (intro exI [of _ h']) (simp add: h'_def hm_def)
  next
    case False
    have S: "?S - {n} = {..<n}" using inner by (auto simp: n_def)
    have ids: "n < hg_total_count h" "inner < hg_total_count h" "n \<noteq> inner" using inner False by (simp_all add: n_def)
    have mv': "LabelTable_Move n inner (LabelTable_ForceRemove l inner ?t) = Inr t'" using mv False by simp
    from move_id_ok [OF rm ids cut(4-8) mv', of ep] obtain c pc b' gs' where
      m: "move_id cf n inner hm = Inr (h\<lparr>hg_basic_flatten_codes := c, hg_high_precise_codes := pc,
          hg_extra_infos := map_option (hc_extra_Move cf n inner) (hg_extra_infos h), hg_bottom_graph := b', hg_route_graphs := gs', hg_label_table := t',
          hg_entry_point_id := (if ep = n then inner else ep)\<rparr>)"
        "\<forall>k<hg_total_count h. vec c k = vec (hg_basic_flatten_codes h) (if k = inner then n else k)" "level_ok {..<n} b'" "\<forall>v\<in>{..<n}. node b' v"
        "length gs' = length gs" "\<forall>g\<in>set gs'. sparse_grow.level_ok {..<n} g" "nested gs'"
        "(\<forall>g\<in>set gs. Sparse_CheckIdExists g ep) \<longrightarrow> (\<forall>g\<in>set gs'. Sparse_CheckIdExists g (if ep = n then inner else ep))"
      unfolding S hm_def by blast
    define h' where "h' = h\<lparr>hg_basic_flatten_codes := c, hg_high_precise_codes := pc,
          hg_extra_infos := map_option (hc_extra_Move cf n inner) (hg_extra_infos h), hg_bottom_graph := b', hg_route_graphs := gs', hg_label_table := t',
          hg_entry_point_id := (if ep = n then inner else ep), hg_delete_count := ?dc, hg_total_count := n\<rparr>"
    have "force_remove_one cf l h = Inr (1, h')" using run m(1) False swap(1) by (simp add: h'_def)
    moreover have "hg_linked sparse_grow.level_ok {..<n} h'"
    proof -
      have "(if ep = n then inner else ep) < n" using cut(9) ids by (auto simp: n_def split: if_splits)
      moreover have "\<forall>g\<in>set gs'. Sparse_CheckIdExists g (if ep = n then inner else ep)" using cut(9) m(5,8) by (auto split: if_splits)
      ultimately show ?thesis using m(3,4,6,7) cap by (auto simp: hg_linked_def h'_def n_def)
    qed
    moreover have "\<not> stuck" using False by (simp add: stuck_def)
    ultimately show ?thesis using m(2,3) t'(2) by (intro exI [of _ h']) (simp add: h'_def n_def)
  qed
qed

lemma shrink_to_fit_ok:
  assumes "provides (hc_graph cf)" and lk: "hg_linked sparse_grow.level_ok {..<hg_total_count h} h" and n: "hg_total_count h < 2 ^ 32"
  shows "hg_linked sparse_grow.level_ok {..<hg_total_count h} (shrink_to_fit cf rt h)"
proof -
  let ?b = "hg_bottom_graph h" and ?n = "hg_total_count h"
  have b: "inv ?b" "0 < degree ?b" "\<forall>v<?n. node ?b v" and edges: "\<And>v w. w \<in> set (nbrs ?b v) \<Longrightarrow> v < ?n \<and> w < ?n \<and> w \<noteq> v"
    using lk by (auto simp: hg_linked_def level_ok_def)
  have "?n \<le> limit ?b" using nodes_below_limit [OF b(1,3)] by simp
  moreover have "\<forall>x\<ge>?n. nbrs ?b x = []" using edges last_in_set by (metis not_le)
  ultimately have s: "inv (shrink ?n ?b)" "nbrs (shrink ?n ?b) = nbrs ?b" "degree (shrink ?n ?b) = degree ?b" "\<forall>x<?n. node ?b x \<longrightarrow> node (shrink ?n ?b) x"
    using shrink_ok [OF b(1)] edges by simp_all
  have "level_ok {..<?n} (shrink ?n ?b)" unfolding level_ok_def using s b edges by simp
  moreover have "map (GraphInterface_ShrinkToFit m) gs = gs" for m and gs :: "sparse_graph list"
    by (simp add: map_idI GraphInterface_ShrinkToFit_def)
  moreover have "gm_ShrinkToFit (hc_graph cf) = shrink" using assms(1) by (simp add: provides_def)
  ultimately have f: "hg_bottom_graph (shrink_to_fit cf rt h) = shrink ?n ?b" "hg_route_graphs (shrink_to_fit cf rt h) = hg_route_graphs h"
    "hg_entry_point_id (shrink_to_fit cf rt h) = hg_entry_point_id h" "hg_max_capacity (shrink_to_fit cf rt h) = hg_max_capacity h"
    using n by (simp_all add: shrink_to_fit_def Let_def)
  show ?thesis using lk \<open>level_ok {..<?n} (shrink ?n ?b)\<close> s(4) b(3) unfolding hg_linked_def f by (simp only: Ball_def lessThan_iff) blast
qed

end

section \<open>The labels after a removal\<close>

lemma swap_labels_find:
  assumes "distinct xs" "l \<in> set xs"
  defines "i \<equiv> find_label xs l" and "n \<equiv> length xs - 1"
  shows "set (swap_labels xs i) = set xs - {l}"
    and "l' \<in> set xs - {l} \<Longrightarrow> find_label (swap_labels xs i) l' < n \<and>
      find_label xs l' = (if find_label (swap_labels xs i) l' = i then n else find_label (swap_labels xs i) l')"
proof -
  have i: "i < length xs" "xs ! i = l" using assms(2) find_label_props by (auto simp: i_def)
  have nth: "swap_labels xs i ! k = xs ! (if k = i then n else k)" if "k < n" for k
    using swap_labels_nth [OF i(1)] that last_conv_nth [of xs] i(1) by (cases xs) (auto simp: n_def)
  show set: "set (swap_labels xs i) = set xs - {l}"
  proof
    show "set (swap_labels xs i) \<subseteq> set xs - {l}"
    proof
      fix x assume "x \<in> set (swap_labels xs i)"
      then obtain k where k: "k < n" "x = xs ! (if k = i then n else k)" using nth by (auto simp: in_set_conv_nth n_def)
      then show "x \<in> set xs - {l}" using i assms(1) nth_eq_iff_index_eq [OF assms(1), of _ i] by (auto simp: n_def)
    qed
    show "set xs - {l} \<subseteq> set (swap_labels xs i)"
    proof
      fix x assume "x \<in> set xs - {l}"
      then obtain k where k: "k < length xs" "x = xs ! k" "k \<noteq> i" using i(2) by (auto simp: in_set_conv_nth)
      define j where "j = (if k = n then i else k)"
      have "j < n" "(if j = i then n else j) = k" using k i by (auto simp: j_def n_def)
      then show "x \<in> set (swap_labels xs i)" using nth [of j] k(2) by (auto simp: in_set_conv_nth n_def)
    qed
  qed
  show "find_label (swap_labels xs i) l' < n \<and> find_label xs l' = (if find_label (swap_labels xs i) l' = i then n else find_label (swap_labels xs i) l')"
    if "l' \<in> set xs - {l}"
  proof -
    let ?k = "find_label (swap_labels xs i) l'"
    have k: "?k < n" "swap_labels xs i ! ?k = l'" using that set find_label_props(1) [of "swap_labels xs i" l'] find_label_props(2) [of l' "swap_labels xs i"] by (auto simp: n_def)
    then have "xs ! (if ?k = i then n else ?k) = l'" using nth by simp
    moreover have "(if ?k = i then n else ?k) < length xs" using k(1) by (auto simp: n_def)
    ultimately show ?thesis using find_label_props(3) [OF assms(1)] k(1) by metis
  qed
qed

lemma swap_marks_find: "k < n \<Longrightarrow> k \<in> swap_marks n i D \<longleftrightarrow> (if k = i then n else k) \<in> D"
  by (auto simp: swap_marks_def)

lemma card_swap_marks:
  assumes "D \<subseteq> {..n}" "i \<le> n"
  shows "int (card (swap_marks n i D)) = (if i \<in> D then int (card D) - 1 else int (card D))"
proof -
  have fin: "finite D" using assms(1) finite_subset by blast
  have less: "int (card (D - {i})) = (if i \<in> D then int (card D) - 1 else int (card D))"
    using card_Suc_Diff1 [OF fin, of i] by (auto simp flip: of_nat_Suc)
  consider "n = i" | "n \<noteq> i" "n \<in> D" | "n \<noteq> i" "n \<notin> D" by blast
  then show ?thesis
  proof cases
    case 1
    then show ?thesis using less by (simp add: swap_marks_def)
  next
    case 2
    then have "swap_marks n i D = insert i (D - {i} - {n})" by (auto simp: swap_marks_def)
    then have "card (swap_marks n i D) = Suc (card (D - {i} - {n}))" using fin by simp
    also have "\<dots> = card (D - {i})" using fin 2 by (intro card_Suc_Diff1) auto
    finally show ?thesis using less by simp
  next
    case 3
    then have "swap_marks n i D = D - {i}" by (auto simp: swap_marks_def)
    then show ?thesis using less by simp
  qed
qed

section \<open>Properties\<close>

text \<open>
  Claim C5. In a linked index with reverse edges, whose bottom graph is a flat graph on blocks and whose labels are
  distinct: removing an element by force succeeds and gives a linked index with one element less, unless the element
  is both the last one and the entry point and has no neighbour in any route graph (the case of C38). No edge leads
  to an element that does not exist, and the entry point is an element in all route graphs. All other labels stay,
  with the basic code and the deletion mark they had, although the last element has taken the identifier of the
  removed one; and the number of marked elements stays right.
\<close>

theorem HGraph_Remove_keeps_linked:
  fixes h :: "('c, memory_block_io flat_graph, 'e, 'd) hgraph" and vec :: "'c \<Rightarrow> inner_id \<Rightarrow> 'w"
  assumes rm: "flat_block.flat_grow.removable fresh cf vec h" and t: "lt_rel (hg_label_table h) xs D" "length xs = hg_total_count h" "l \<in> set xs"
    and codes: "\<forall>m c k. k < m \<longrightarrow> vec (cm_ShrinkToFit (hc_codes cf) m c) k = vec c k"
    and ep: "hg_entry_point_id h = hg_total_count h - 1 \<and> find_label xs l = hg_entry_point_id h \<longrightarrow>
      (\<exists>g\<in>set (hg_route_graphs h). sg_nbrs g (find_label xs l) \<noteq> [])"
  shows "\<exists>h' ys D'. hgraph_Remove cf rt [l] FORCE_REMOVE h = Inr (1, h') \<and> hg_total_count h' = hg_total_count h - 1 \<and>
    flat_block.flat_grow.hg_linked sparse_grow.level_ok {..<hg_total_count h'} h' \<and> lt_rel (hg_label_table h') ys D' \<and> set ys = set xs - {l} \<and> length ys = hg_total_count h' \<and>
    (\<forall>l'\<in>set xs - {l}. vec (hg_basic_flatten_codes h') (find_label ys l') = vec (hg_basic_flatten_codes h) (find_label xs l') \<and>
      (find_label ys l' \<in> D' \<longleftrightarrow> find_label xs l' \<in> D)) \<and>
    (hg_delete_count h = int (card D) \<longrightarrow> hg_delete_count h' = int (card D'))"
proof -
  let ?i = "find_label xs l" and ?n = "hg_total_count h - 1"
  define ys where "ys = swap_labels xs ?i"
  have free: "\<not> (?i = ?n \<and> ?i = hg_entry_point_id h \<and> (\<forall>g\<in>set (hg_route_graphs h). sg_nbrs g ?i = []))" using ep by auto
  obtain h1 where h1: "force_remove_one cf l h = Inr (1, h1)" "hg_total_count h1 = ?n" "lt_rel (hg_label_table h1) ys (swap_marks ?n ?i D)"
    "\<forall>k<?n. vec (hg_basic_flatten_codes h1) k = vec (hg_basic_flatten_codes h) (if k = ?i then ?n else k)"
    "hg_delete_count h1 = (if ?i \<in> D then hg_delete_count h - 1 else hg_delete_count h)" "flat_block.flat_grow.hg_linked sparse_grow.level_ok {..<?n} h1"
    using flat_block.flat_grow.force_remove_one_ok [OF rm t] unfolding if_not_P [OF free] ys_def [symmetric] by blast
  have gm: "flat_block.flat_grow.provides fresh (hc_graph cf)" and small: "hg_total_count h < 2 ^ 32"
    using flat_block.flat_grow.removable_basic [OF rm] by (blast, blast)
  then have n: "?n < 2 ^ 32" "hg_total_count h1 < 2 ^ 32" "u32 ?n = ?n" using h1(2) by (linarith, linarith, simp)
  define h' where "h' = shrink_to_fit cf rt h1"
  have run: "hgraph_Remove cf rt [l] FORCE_REMOVE h = Inr (1, h')" using h1(1) by (simp add: hgraph_Remove_def h'_def)
  have h': "hg_total_count h' = ?n" "hg_delete_count h' = hg_delete_count h1"
    "hg_basic_flatten_codes h' = cm_ShrinkToFit (hc_codes cf) ?n (hg_basic_flatten_codes h1)"
    "hg_label_table h' = LabelTable_ShrinkToFit rt ?n (hg_label_table h1)" using h1(2) n(3) by (simp_all add: h'_def shrink_to_fit_def Let_def)
  have linked: "flat_block.flat_grow.hg_linked sparse_grow.level_ok {..<?n} h'"
    using flat_block.flat_grow.shrink_to_fit_ok [OF gm _ n(2)] h1(2,6) by (simp add: h'_def)
  have xs: "distinct xs" "D \<subseteq> {..<length xs}" using t(1) by (simp_all add: lt_rel_def)
  note find = swap_labels_find [OF xs(1) t(3), folded ys_def, unfolded t(2)]
  have len: "length ys = ?n" using t(2) by (simp add: ys_def)
  have tab: "lt_rel (hg_label_table h') ys (swap_marks ?n ?i D)" using lt_rel_ShrinkToFit [OF h1(3)] h'(4) len by simp
  have pos: "?i \<le> ?n" "D \<subseteq> {..?n}" using xs(2) t(2,3) find_label_props(1) [of xs l] by auto
  have kept: "\<forall>l'\<in>set xs - {l}. vec (hg_basic_flatten_codes h') (find_label ys l') = vec (hg_basic_flatten_codes h) (find_label xs l') \<and>
      (find_label ys l' \<in> swap_marks ?n ?i D \<longleftrightarrow> find_label xs l' \<in> D)"
    using find(2) h1(4) codes h'(3) swap_marks_find [of _ ?n ?i D] by simp
  have "hg_delete_count h = int (card D) \<longrightarrow> hg_delete_count h' = int (card (swap_marks ?n ?i D))"
    using card_swap_marks [OF pos(2,1)] h1(5) h'(2) by simp
  moreover have "flat_block.flat_grow.hg_linked sparse_grow.level_ok {..<hg_total_count h'} h'" unfolding h'(1) by (rule linked)
  moreover have "length ys = hg_total_count h'" using len h'(1) by simp
  ultimately show ?thesis using run h'(1) tab find(1) kept
    by (intro exI [of _ h'] exI [of _ ys] exI [of _ "swap_marks ?n ?i D"] conjI)
qed

text \<open>An index with two elements and the codes 5 and 6, without edges.\<close>

definition row_codes :: "(nat list, nat) code_methods" where
  "row_codes =
     \<lparr>cm_InsertVector = (\<lambda>v i c. Inr (c[i := v])), cm_Move = (\<lambda>i j c. Inr (c[j := c ! i])), cm_Resize = (\<lambda>n c. c), cm_ShrinkToFit = take,
      cm_Query = (\<lambda>c v i. Inr (int (c ! i))), cm_ComputePairVectors = (\<lambda>c i j. Inr (int (c ! i + c ! j))),
      cm_CompareVectors = (\<lambda>c i j. Inr (c ! i = c ! j)), cm_TotalCount = length\<rparr>"

lemma two_elements:
  assumes "\<forall>g\<in>set routes. sparse_grow.level_ok {..<2} g \<and> Sparse_CheckIdExists g ep \<and> 2 \<le> sg_limit g" "nested routes" "ep < 2"
  obtains b t where "flat_block.flat_grow.removable (\<lambda>_. 0) (demo_config row_codes r) (!) (demo_index [5, 6] ep b routes t)"
    "lt_rel t [10, 20] {}"
proof -
  obtain b0 where b0: "flat_block.gd_rev_inv b0" "flat_block.gd_nbrs b0 = (\<lambda>x. [])" "gi_maximum_degree b0 = 2" "gi_max_capacity b0 = 10"
    "gi_total_count b0 = 1" by (rule demo_bottom)
  have "(1 :: nat) \<le> gi_total_count b0 \<and> 1 < gi_max_capacity b0" "set [] \<subseteq> insert 1 {..<flat_block.gd_limit b0}"
    "length ([] :: nat list) \<le> gi_maximum_degree b0" using b0 by simp_all
  from flat_block.flat_grow.grow_ok [OF b0(1) this, where fresh = "\<lambda>_. 0"] obtain b where b: "flat_block.gd_rev_inv b" "flat_block.gd_nbrs b = (flat_block.gd_nbrs b0)(1 := [])"
    "gi_maximum_degree b = gi_maximum_degree b0" "\<forall>x. Flat_CheckIdExists b x \<longleftrightarrow> Flat_CheckIdExists b0 x \<or> x = 1" by blast
  have "Flat_CheckIdExists b0 0" using b0(4,5) by (simp add: Flat_CheckIdExists_def)
  then have "Flat_CheckIdExists b 0" "Flat_CheckIdExists b 1" using b(4) by (blast, blast)
  then have node: "\<forall>v\<in>{..<2}. Flat_CheckIdExists b v" by (auto simp: less_2_cases_iff)
  have nb: "flat_block.gd_nbrs b = (\<lambda>x. [])" using b(2) b0(2) by auto
  have lv: "flat_block.flat_grow.level_ok {..<2} b" unfolding flat_block.flat_grow.level_ok_def using b(1,3) b0(3) nb by simp
  obtain t1 :: "unit label_table" where t1: "lt_rel t1 [10] {}" by (rule lt_rel_one [of 10]) blast
  have "(20 :: int) \<notin> set [10]" "Suc (length [10 :: int]) < INVALID_ID" by (simp_all add: INVALID_ID_def)
  from lt_rel_Insert [OF t1 this] obtain t :: "unit label_table" where t: "lt_rel t [10, 20] {}" by auto
  let ?h = "demo_index [5, 6] ep b routes t" and ?cf = "demo_config row_codes r"
  have f: "hg_total_count ?h = 2" "hg_max_capacity ?h = 10" "hg_route_graphs ?h = routes" "hg_entry_point_id ?h = ep" "hg_bottom_graph ?h = b"
    "hg_basic_flatten_codes ?h = [5, 6]" "hg_high_precise_codes ?h = None" by (simp_all add: demo_index_def)
  have cf: "hc_codes ?cf = row_codes" "hc_order ?cf = remdups" "hc_graph ?cf = block_methods (\<lambda>_. 0)" by (simp_all add: demo_config_def)
  have pr: "flat_block.flat_grow.provides (\<lambda>_. 0) (hc_graph ?cf)" unfolding cf by (rule flat_block.flat_provides)
  have lk: "flat_block.flat_grow.hg_linked sparse_grow.level_ok {..<2} ?h"
    unfolding flat_block.flat_grow.hg_linked_def f using lv node assms by (auto simp: lessThan_empty_iff)
  have mv: "\<exists>c. cm_Move row_codes i j [5, 6] = Inr c \<and> (\<forall>k<2. c ! k = [5, 6] ! (if k = j then i else k))" if "i < 2" "j < 2" for i j
    using that by (auto simp: row_codes_def less_2_cases_iff)
  have "flat_block.flat_grow.removable (\<lambda>_. 0) ?cf (!) ?h"
    unfolding flat_block.flat_grow.removable_def f cf using pr [unfolded cf] lk assms(1) mv by (simp add: row_codes_def)
  then show thesis using that t by blast
qed

theorem HGraph_Remove_keeps_linked_witness:
  "\<exists>r b t h' ys. hgraph_Remove (demo_config row_codes r) (\<lambda>n d. d) [10] FORCE_REMOVE (demo_index [5, 6] 0 b [] t) = Inr (1, h') \<and>
    lt_rel (hg_label_table h') ys {} \<and> ys = [20] \<and> hg_basic_flatten_codes h' ! find_label ys 20 = 6"
proof -
  obtain r where "SparseGraphDataCell_new 4 8 False False True = Inr r" by (simp add: SparseGraphDataCell_new_def)
  have none: "\<forall>g\<in>set []. sparse_grow.level_ok {..<2} g \<and> Sparse_CheckIdExists g 0 \<and> 2 \<le> sg_limit g" "nested []" "(0 :: nat) < 2"
    by (simp_all add: nested_def)
  obtain b t where bt: "flat_block.flat_grow.removable (\<lambda>_. 0) (demo_config row_codes r) (!) (demo_index [5, 6] 0 b [] t)" "lt_rel t [10, 20] {}"
    by (rule two_elements [OF none])
  have pre: "lt_rel (hg_label_table (demo_index [5 :: nat, 6] 0 b [] t)) [10, 20] {}" "length [10 :: int, 20] = hg_total_count (demo_index [5 :: nat, 6] 0 b [] t)"
    "10 \<in> set [10 :: int, 20]" "\<forall>m c k. k < m \<longrightarrow> cm_ShrinkToFit (hc_codes (demo_config row_codes r)) m c ! k = c ! k"
    using bt(2) by (simp_all add: demo_index_def demo_config_def row_codes_def)
  have ep: "hg_entry_point_id (demo_index [5 :: nat, 6] 0 b [] t) = hg_total_count (demo_index [5 :: nat, 6] 0 b [] t) - 1 \<and>
      find_label [10, 20] 10 = hg_entry_point_id (demo_index [5 :: nat, 6] 0 b [] t) \<longrightarrow>
      (\<exists>g\<in>set (hg_route_graphs (demo_index [5 :: nat, 6] 0 b [] t)). sg_nbrs g (find_label [10, 20] 10) \<noteq> [])" by (simp add: demo_index_def)
  from HGraph_Remove_keeps_linked [OF bt(1) pre ep, of "\<lambda>n d. d"] obtain h' ys D' where
    h': "hgraph_Remove (demo_config row_codes r) (\<lambda>n d. d) [10] FORCE_REMOVE (demo_index [5, 6] 0 b [] t) = Inr (1, h')" "lt_rel (hg_label_table h') ys D'"
      "set ys = {20}" "length ys = 1" "hg_basic_flatten_codes h' ! find_label ys 20 = 6" "find_label ys 20 \<notin> D'" "hg_total_count h' = 1"
    by (auto simp: demo_index_def find_label_def)
  then have "ys = [20]" by (cases ys) auto
  moreover have "D' \<subseteq> {..<1}" "0 \<notin> D'" using h'(2,6) \<open>ys = [20]\<close> by (simp_all add: lt_rel_def find_label_def)
  then have "D' = {}" by auto
  ultimately show ?thesis using h' by blast
qed

text \<open>
  Claim C38. When the entry point is the last element and no route graph has a neighbour for it, which is so
  for the first element that is put into a route graph, removing it leaves the entry point behind: it is
  no element of the index any more, and as it has no neighbours the search does not reach any element.
\<close>

theorem HGraph_remove_entry_dangles:
  fixes h :: "('c, memory_block_io flat_graph, 'e, 'd) hgraph" and vec :: "'c \<Rightarrow> inner_id \<Rightarrow> 'w"
  assumes rm: "flat_block.flat_grow.removable fresh cf vec h" and t: "lt_rel (hg_label_table h) xs D" "length xs = hg_total_count h" "l \<in> set xs"
    and last: "find_label xs l = hg_total_count h - 1" "find_label xs l = hg_entry_point_id h" "1 < hg_total_count h"
    and single: "\<forall>g\<in>set (hg_route_graphs h). sg_nbrs g (find_label xs l) = []"
  shows "\<exists>h'. force_remove_one cf l h = Inr (1, h') \<and> hg_total_count h' = hg_total_count h - 1 \<and> hg_entry_point_id h' = hg_total_count h' \<and>
    hg_route_graphs h' = [] \<and>
    Flat_GetNeighbors MemoryBlockIO_ReadImpl (hg_bottom_graph h') (hg_entry_point_id h') [] = Inr []"
proof -
  let ?i = "find_label xs l" and ?n = "hg_total_count h - 1"
  have stuck: "?i = ?n \<and> ?i = hg_entry_point_id h \<and> (\<forall>g\<in>set (hg_route_graphs h). sg_nbrs g ?i = [])" using last single by simp
  obtain h' where h': "force_remove_one cf l h = Inr (1, h')" "hg_total_count h' = ?n" "flat_block.flat_grow.level_ok {..<?n} (hg_bottom_graph h')"
    "hg_entry_point_id h' = ?n" "hg_route_graphs h' = []" "Flat_CheckIdExists (hg_bottom_graph h') ?n"
    using flat_block.flat_grow.force_remove_one_ok [OF rm t] unfolding if_P [OF stuck] by blast
  have b: "flat_block.gd_rev_inv (hg_bottom_graph h')" "\<forall>w\<in>set (flat_block.gd_nbrs (hg_bottom_graph h') ?n). ?n \<in> {..<?n}"
    using h'(3) unfolding flat_block.flat_grow.level_ok_def by blast+
  then have "flat_block.gd_nbrs (hg_bottom_graph h') ?n = []" by (cases "flat_block.gd_nbrs (hg_bottom_graph h') ?n") auto
  then have "Flat_GetNeighbors MemoryBlockIO_ReadImpl (hg_bottom_graph h') ?n [] = Inr []"
    using flat_block.flat_rev.get_ok [OF b(1) h'(6)] by simp
  then show ?thesis using h' last(3) by (intro exI [of _ h']) simp
qed

theorem HGraph_remove_entry_dangles_witness:
  "\<exists>r g b t h'. force_remove_one (demo_config row_codes r) 20 (demo_index [5, 6] 1 b [g] t) = Inr (1, h') \<and>
    hg_total_count h' = 1 \<and> hg_entry_point_id h' = 1"
proof -
  obtain r where r: "SparseGraphDataCell_new 4 8 False False True = Inr r" by (simp add: SparseGraphDataCell_new_def)
  note new = Sparse_new_inv [OF r]
  have "sg_rev_inv r" "(1 :: nat) < sg_limit r" "\<forall>n\<in>set []. n < sg_limit r" "length ([] :: nat list) \<le> gi_maximum_degree r" using new by simp_all
  from sparse_rev.ins_ok [OF this] obtain g where g: "sg_rev_inv g" "sg_nbrs g = (sg_nbrs r)(1 := [])" "gi_maximum_degree g = gi_maximum_degree r"
    "sg_limit g = sg_limit r" "\<forall>x. Sparse_CheckIdExists g x \<longleftrightarrow> Sparse_CheckIdExists r x \<or> x = 1" by blast
  have nb: "sg_nbrs g = (\<lambda>x. [])" using g(2) new(2) by auto
  have "sparse_grow.level_ok {..<2} g" unfolding sparse_grow.level_ok_def using g(1,3) new(3) nb by simp
  then have one: "\<forall>g'\<in>set [g]. sparse_grow.level_ok {..<2} g' \<and> Sparse_CheckIdExists g' 1 \<and> 2 \<le> sg_limit g'" "nested [g]" "(1 :: nat) < 2"
    using g(4,5) new(4) by (simp_all add: nested_def)
  obtain b t where bt: "flat_block.flat_grow.removable (\<lambda>_. 0) (demo_config row_codes r) (!) (demo_index [5, 6] 1 b [g] t)" "lt_rel t [10, 20] {}"
    by (rule two_elements [OF one])
  let ?h = "demo_index [5 :: nat, 6] 1 b [g] t"
  have pre: "lt_rel (hg_label_table ?h) [10, 20] {}" "length [10 :: int, 20] = hg_total_count ?h" "20 \<in> set [10 :: int, 20]"
    "find_label [10, 20] 20 = hg_total_count ?h - 1" "find_label [10, 20] 20 = hg_entry_point_id ?h" "1 < hg_total_count ?h"
    "\<forall>g\<in>set (hg_route_graphs ?h). sg_nbrs g (find_label [10, 20] 20) = []"
    using bt(2) nb by (simp_all add: demo_index_def find_label_def)
  from HGraph_remove_entry_dangles [OF bt(1) pre] obtain h' where "force_remove_one (demo_config row_codes r) 20 ?h = Inr (1, h')"
    "hg_total_count h' = hg_total_count ?h - 1" "hg_entry_point_id h' = hg_total_count h'" by (elim exE conjE) (rule that; assumption)
  moreover have "hg_total_count ?h = 2" by (simp add: demo_index_def)
  ultimately show ?thesis
    by (intro exI [of _ r] exI [of _ g] exI [of _ b] exI [of _ t] exI [of _ h']) simp
qed

end
