(* ===== verification/FastBitset.thy ===== *)
theory FastBitset
  imports Streams
begin

text \<open>
  \<open>src/impl/bitset/fast_bitset.{h,cpp}\<close>: a growable bitset over 64-bit words whose
  value beyond the stored words is one \<^emph>\<open>fill\<close> bit, kept in the top bit of the
  32-bit field \<open>capacity_\<close>. The abstraction \<open>fbits\<close> reads a bitset as a
  predicate on positions; the invariant \<open>fb_inv\<close> says that the buffer has
  \<open>get_capacity\<close> words, that the used words fit in it and that
  \<open>size_ * 64\<close> does not wrap in 32 bits. Under it every operation is the set operation
  it is named after; without the last clause it is not (see
  \<open>FastBitset_capacity_wraps\<close>).
\<close>

unbundle bit_operations_syntax

section \<open>State and operations\<close>

record fast_bitset =
  fb_data :: "64 word list"
  fb_size :: "32 word"
  fb_capacity :: "32 word"

definition FastBitset_new :: fast_bitset where
  "FastBitset_new = \<lparr>fb_data = [], fb_size = 0, fb_capacity = 0\<rparr>"

definition get_fill_bit :: "fast_bitset \<Rightarrow> bool" where
  "get_fill_bit b = (drop_bit 31 (fb_capacity b) AND 1 = 1)"

definition set_fill_bit :: "bool \<Rightarrow> fast_bitset \<Rightarrow> fast_bitset" where
  "set_fill_bit value b =
     (if value then b\<lparr>fb_capacity := fb_capacity b OR push_bit 31 1\<rparr>
      else b\<lparr>fb_capacity := fb_capacity b AND NOT (push_bit 31 1)\<rparr>)"

definition get_capacity :: "fast_bitset \<Rightarrow> 32 word" where
  "get_capacity b = fb_capacity b AND 0x7FFFFFFF"

definition set_capacity :: "32 word \<Rightarrow> fast_bitset \<Rightarrow> fast_bitset" where
  "set_capacity cap b =
     b\<lparr>fb_capacity := (fb_capacity b AND push_bit 31 1) OR (cap AND 0x7FFFFFFF)\<rparr>"

definition FILL_ONE :: "64 word" where
  "FILL_ONE = 0xFFFFFFFFFFFFFFFF"

text \<open>
  \<open>FastBitset::resize\<close>. A new buffer of \<open>new_size\<close> words gets the used words by
  \<open>memcpy\<close>; its other words are indeterminate (0 here) until \<open>std::fill\<close>, which
  covers all of them.
\<close>

definition FastBitset_resize :: "32 word \<Rightarrow> 64 word \<Rightarrow> fast_bitset \<Rightarrow> fast_bitset" where
  "FastBitset_resize new_size fill b =
     (let b1 = (if new_size > get_capacity b
                then set_capacity new_size
                       (b\<lparr>fb_data := vec_resize (unat new_size) 0
                                      (take (unat (fb_size b)) (fb_data b))\<rparr>)
                else b);
          b2 = (if new_size > fb_size b1
                then b1\<lparr>fb_data := blit (fb_data b1) (unat (fb_size b1))
                                      (replicate (unat new_size - unat (fb_size b1)) fill)\<rparr>
                else b1)
      in b2\<lparr>fb_size := new_size\<rparr>)"

text \<open>
  \<open>Set\<close> and \<open>Test\<close>: \<open>size_ * 64\<close> is computed in 32 bits and then compared with
  the 64-bit position. A negative position gives a negative index or shift.
\<close>

definition FastBitset_Set :: "int \<Rightarrow> bool \<Rightarrow> fast_bitset \<Rightarrow> fast_bitset result" where
  "FastBitset_Set pos value b =
     (if pos < 0 then Inl UB
      else
        let capacity = uint (fb_size b * 64);
            b1 = (if pos \<ge> capacity
                  then (if get_fill_bit b then FastBitset_resize (word_of_int (pos div 64 + 1)) FILL_ONE b
                        else FastBitset_resize (word_of_int (pos div 64 + 1)) 0 b)
                  else b);
            word_index = nat (pos div 64);
            bit_index = nat (pos mod 64)
        in if word_index \<ge> length (fb_data b1) then Inl UB
           else if value
           then Inr (b1\<lparr>fb_data := (fb_data b1)[word_index :=
                          fb_data b1 ! word_index OR push_bit bit_index 1]\<rparr>)
           else Inr (b1\<lparr>fb_data := (fb_data b1)[word_index :=
                          fb_data b1 ! word_index AND NOT (push_bit bit_index 1)]\<rparr>))"

definition FastBitset_Test :: "int \<Rightarrow> fast_bitset \<Rightarrow> bool result" where
  "FastBitset_Test pos b =
     (if pos < 0 then Inl UB
      else
        let capacity = uint (fb_size b * 64)
        in if pos \<ge> capacity then Inr (get_fill_bit b)
           else
             let word_index = nat (pos div 64);
                 bit_index = nat (pos mod 64)
             in if word_index \<ge> length (fb_data b) then Inl UB
                else Inr (fb_data b ! word_index AND push_bit bit_index 1 \<noteq> 0))"

text \<open>\<open>__builtin_popcountll\<close> and \<open>Count\<close>.\<close>

definition popcountll :: "64 word \<Rightarrow> nat" where
  "popcountll w = length (filter (bit w) [0..<64])"

definition FastBitset_Count :: "fast_bitset \<Rightarrow> nat" where
  "FastBitset_Count b =
     fold (\<lambda>i count. u64 (count + popcountll (fb_data b ! i))) [0..<unat (fb_size b)] 0"

definition FastBitset_Clear :: "fast_bitset \<Rightarrow> fast_bitset" where
  "FastBitset_Clear b = set_fill_bit False (b\<lparr>fb_size := 0\<rparr>)"

text \<open>
  \<open>BitOr\<close>, \<open>BitAnd\<close> and \<open>BitNot\<close> of \<open>src/simd/generic.cpp\<close> work on the
  bytes of the buffers; a whole number of words is passed, so they act on the first
  \<open>n\<close> words of the buffers.
\<close>

definition BitOr :: "64 word list \<Rightarrow> 64 word list \<Rightarrow> nat \<Rightarrow> 64 word list" where
  "BitOr x y n = blit x 0 (map2 (OR) (take n x) (take n y))"

definition BitAnd :: "64 word list \<Rightarrow> 64 word list \<Rightarrow> nat \<Rightarrow> 64 word list" where
  "BitAnd x y n = blit x 0 (map2 (AND) (take n x) (take n y))"

definition BitNot :: "64 word list \<Rightarrow> nat \<Rightarrow> 64 word list" where
  "BitNot x n = blit x 0 (map NOT (take n x))"

definition FastBitset_Or :: "fast_bitset \<Rightarrow> fast_bitset \<Rightarrow> fast_bitset" where
  "FastBitset_Or b another =
     (if fb_size another = 0 then
        (if get_fill_bit another then set_fill_bit True (FastBitset_Clear b) else b)
      else if fb_size b \<ge> fb_size another then
        (let min_size = fb_size another;
             b1 = b\<lparr>fb_data := BitOr (fb_data b) (fb_data another) (unat min_size)\<rparr>
         in if get_fill_bit another
            then set_fill_bit True (FastBitset_resize min_size 0 b1)
            else b1)
      else
        (let (max_size, b1) =
               (if get_fill_bit b then (fb_size b, b)
                else (fb_size another,
                      set_fill_bit (get_fill_bit another)
                        (FastBitset_resize (fb_size another) 0 b)))
         in b1\<lparr>fb_data := BitOr (fb_data b1) (fb_data another) (unat max_size)\<rparr>))"

definition FastBitset_And :: "fast_bitset \<Rightarrow> fast_bitset \<Rightarrow> fast_bitset" where
  "FastBitset_And b another =
     (if fb_size another = 0 then
        (if \<not> get_fill_bit another then FastBitset_Clear b else b)
      else
        let b2 =
          (if fb_size b \<ge> fb_size another then
             (let min_size = unat (fb_size another);
                  max_size = unat (fb_size b);
                  b1 = b\<lparr>fb_data := BitAnd (fb_data b) (fb_data another) min_size\<rparr>
              in if max_size > min_size \<and> \<not> get_fill_bit another
                 then b1\<lparr>fb_data := blit (fb_data b1) min_size (replicate (max_size - min_size) 0)\<rparr>
                 else b1)
           else
             (let max_size = fb_size another;
                  b1 = (if get_fill_bit b then FastBitset_resize max_size FILL_ONE b
                        else FastBitset_resize max_size 0 b)
              in b1\<lparr>fb_data := BitAnd (fb_data b1) (fb_data another) (unat max_size)\<rparr>))
        in set_fill_bit (get_fill_bit b2 \<and> get_fill_bit another) b2)"

text \<open>The overloads on pointers (\<open>None\<close> is \<open>nullptr\<close>) and on vectors of pointers.\<close>

definition FastBitset_Or_ptr :: "fast_bitset \<Rightarrow> fast_bitset option \<Rightarrow> fast_bitset" where
  "FastBitset_Or_ptr b another = (case another of None \<Rightarrow> b | Some a \<Rightarrow> FastBitset_Or b a)"

definition FastBitset_And_ptr :: "fast_bitset \<Rightarrow> fast_bitset option \<Rightarrow> fast_bitset" where
  "FastBitset_And_ptr b another =
     (case another of None \<Rightarrow> FastBitset_Clear b | Some a \<Rightarrow> FastBitset_And b a)"

fun FastBitset_And_vec :: "fast_bitset \<Rightarrow> fast_bitset option list \<Rightarrow> fast_bitset" where
  "FastBitset_And_vec b [] = b"
| "FastBitset_And_vec b (None # ps) = FastBitset_Clear b"
| "FastBitset_And_vec b (Some a # ps) = FastBitset_And_vec (FastBitset_And b a) ps"

fun FastBitset_Or_vec :: "fast_bitset \<Rightarrow> fast_bitset option list \<Rightarrow> fast_bitset" where
  "FastBitset_Or_vec b [] = b"
| "FastBitset_Or_vec b (None # ps) = FastBitset_Or_vec b ps"
| "FastBitset_Or_vec b (Some a # ps) = FastBitset_Or_vec (FastBitset_Or b a) ps"

definition FastBitset_Not :: "fast_bitset \<Rightarrow> fast_bitset" where
  "FastBitset_Not b =
     (let b1 = b\<lparr>fb_data := BitNot (fb_data b) (unat (fb_size b))\<rparr>
      in set_fill_bit (\<not> get_fill_bit b1) b1)"

text \<open>\<open>GetMemoryUsage\<close>: \<open>sizeof(FastBitset)\<close> depends on the ABI and is a parameter.\<close>

definition FastBitset_GetMemoryUsage :: "nat \<Rightarrow> fast_bitset \<Rightarrow> nat" where
  "FastBitset_GetMemoryUsage sizeof_FastBitset b = sizeof_FastBitset + unat (fb_size b) * 8"

text \<open>\<open>Serialize\<close>: the fill bit as a \<open>bool\<close>, the number of words, the used words.\<close>

definition FastBitset_Serialize :: "fast_bitset \<Rightarrow> stream_writer \<Rightarrow> stream_writer" where
  "FastBitset_Serialize b w =
     (let w1 = WriteObj 1 (if get_fill_bit b then 1 else 0) w;
          n = unat (fb_size b);
          w2 = WriteObj 8 n w1
      in if n > 0
         then StreamWriter_Write (concat (map (\<lambda>x. le_bytes 8 (unat x)) (take n (fb_data b)))) w2
         else w2)"

definition MAX_FAST_BITSET_WORDS :: nat where
  "MAX_FAST_BITSET_WORDS = (2 ^ 32 - 1) div 2"

definition FastBitset_Deserialize ::
  "'r rd \<Rightarrow> fast_bitset \<Rightarrow> 'r \<Rightarrow> (fast_bitset \<times> 'r) result" where
  "FastBitset_Deserialize rd b r =
     bindR (ReadObj rd 1 r) (\<lambda>(fill, r1).
     bindR (ReadObj rd 8 r1) (\<lambda>(n, r2).
       if n > MAX_FAST_BITSET_WORDS then Inl (Throw READ_ERROR)
       else if n > (2 ^ 64 - 1) div 8 then Inl (Throw READ_ERROR)
       else bindR (if n > 0 then rd (u64 (n * 8)) r2 else Inr ([], r2)) (\<lambda>(bs, r3).
         Inr (set_fill_bit (fill \<noteq> 0) (set_capacity (of_nat n)
               (b\<lparr>fb_data := map of_nat (decode_array 8 n bs), fb_size := of_nat n\<rparr>)), r3))))"

section \<open>Abstraction and invariant\<close>

definition fb_inv :: "fast_bitset \<Rightarrow> bool" where
  "fb_inv b \<longleftrightarrow> length (fb_data b) = unat (get_capacity b) \<and> fb_size b \<le> get_capacity b
     \<and> unat (fb_size b) < 2 ^ 26"

definition fbits :: "fast_bitset \<Rightarrow> nat \<Rightarrow> bool" where
  "fbits b p =
     (if p < 64 * unat (fb_size b) then bit (fb_data b ! (p div 64)) (p mod 64)
      else get_fill_bit b)"


section \<open>The packed capacity field\<close>

lemma mask31: "(0x7FFFFFFF :: 32 word) = mask 31"
  by (simp add: mask_eq_exp_minus_1)

lemma bit_exp31 [simp]: "bit (2147483648 :: 32 word) n \<longleftrightarrow> n = 31"
proof -
  have "(2147483648 :: 32 word) = 2 ^ 31" by simp
  then show ?thesis by (simp only: bit_exp_iff) auto
qed

lemma bit_int_exp31 [simp]: "bit (2147483648 :: int) n \<longleftrightarrow> n = 31"
proof -
  have "(2147483648 :: int) = 2 ^ 31" by simp
  then show ?thesis by (simp only: bit_exp_iff) auto
qed

lemma get_fill_bit_bit: "get_fill_bit b \<longleftrightarrow> bit (fb_capacity b) 31"
proof -
  have "drop_bit 31 (fb_capacity b) AND 1 = (if bit (fb_capacity b) 31 then 1 else 0)"
    by (rule bit_word_eqI) (auto simp: bit_simps intro: Suc_leI gr0I)
  then show ?thesis by (simp add: get_fill_bit_def)
qed

lemma get_fill_bit_cong [simp]:
  "get_fill_bit (b\<lparr>fb_data := d\<rparr>) = get_fill_bit b"
  "get_fill_bit (b\<lparr>fb_size := n\<rparr>) = get_fill_bit b"
  by (simp_all add: get_fill_bit_def)

lemma get_capacity_cong [simp]:
  "get_capacity (b\<lparr>fb_data := d\<rparr>) = get_capacity b"
  "get_capacity (b\<lparr>fb_size := n\<rparr>) = get_capacity b"
  by (simp_all add: get_capacity_def)

lemma set_fill_bit_simps [simp]:
  "get_fill_bit (set_fill_bit v b) = v"
  "get_capacity (set_fill_bit v b) = get_capacity b"
  "fb_data (set_fill_bit v b) = fb_data b"
  "fb_size (set_fill_bit v b) = fb_size b"
proof -
  show "get_fill_bit (set_fill_bit v b) = v"
    by (auto simp: get_fill_bit_bit set_fill_bit_def bit_simps)
  show "get_capacity (set_fill_bit v b) = get_capacity b"
    unfolding get_capacity_def set_fill_bit_def mask31
    by (auto intro!: bit_word_eqI simp: bit_simps)
qed (simp_all add: set_fill_bit_def)

lemma set_capacity_simps [simp]:
  "get_fill_bit (set_capacity c b) = get_fill_bit b"
  "get_capacity (set_capacity c b) = c AND 0x7FFFFFFF"
  "fb_data (set_capacity c b) = fb_data b"
  "fb_size (set_capacity c b) = fb_size b"
proof -
  show "get_fill_bit (set_capacity c b) = get_fill_bit b"
    unfolding get_fill_bit_bit set_capacity_def mask31 by (simp add: bit_simps)
  show "get_capacity (set_capacity c b) = c AND 0x7FFFFFFF"
    unfolding get_capacity_def set_capacity_def mask31
    by (rule bit_word_eqI) (auto simp: bit_simps)
qed (simp_all add: set_capacity_def)

lemma and_mask31_id: "unat (c :: 32 word) < 2 ^ 31 \<Longrightarrow> c AND 0x7FFFFFFF = c"
  unfolding mask31
  by (simp add: take_bit_eq_mask [symmetric] word_unat_eq_iff unsigned_take_bit_eq
      take_bit_nat_eq_self)


section \<open>Resizing\<close>

lemma FILL_ONE_bit [simp]: "bit FILL_ONE n \<longleftrightarrow> n < 64"
proof -
  have eq: "FILL_ONE = - 1" by (simp add: FILL_ONE_def)
  show ?thesis unfolding eq by (simp add: bit_minus_1_iff)
qed

lemma FastBitset_resize_size [simp]: "fb_size (FastBitset_resize n f b) = n"
  by (simp add: FastBitset_resize_def Let_def)

lemma FastBitset_resize_fill [simp]: "get_fill_bit (FastBitset_resize n f b) = get_fill_bit b"
  by (simp add: FastBitset_resize_def Let_def)

lemma FastBitset_resize_inv:
  assumes "fb_inv b" "unat n < 2 ^ 26"
  shows "fb_inv (FastBitset_resize n f b)"
  using assms
  by (auto simp: FastBitset_resize_def Let_def fb_inv_def and_mask31_id
      word_less_nat_alt word_le_nat_alt)

lemma FastBitset_resize_nth:
  assumes "fb_inv b" "i < unat n"
  shows "fb_data (FastBitset_resize n f b) ! i = (if i < unat (fb_size b) then fb_data b ! i else f)"
  using assms
  by (auto simp: FastBitset_resize_def Let_def fb_inv_def nth_blit
      word_less_nat_alt word_le_nat_alt)

lemma fbits_resize:
  assumes "fb_inv b" "unat n < 2 ^ 26"
  shows "fbits (FastBitset_resize n f b) p =
    (if p < 64 * unat n then (if p < 64 * unat (fb_size b) then fbits b p else bit f (p mod 64))
     else get_fill_bit b)"
  using assms by (auto simp: fbits_def FastBitset_resize_nth)

lemma fbits_beyond: "64 * unat (fb_size b) \<le> p \<Longrightarrow> fbits b p = get_fill_bit b"
  by (simp add: fbits_def)

text \<open>Growing with words of fill bits keeps the value.\<close>

lemma fbits_extend:
  assumes "fb_inv b" "unat n < 2 ^ 26" "fb_size b \<le> n"
  shows "fbits (FastBitset_resize n (if get_fill_bit b then FILL_ONE else 0) b) = fbits b"
  using assms by (auto simp: fun_eq_iff fbits_resize fbits_beyond word_le_nat_alt)

section \<open>Single bits\<close>

lemma fb_capacity_le:
  assumes "fb_inv b"
  shows "uint (fb_size b * 64) \<le> int p \<longleftrightarrow> 64 * unat (fb_size b) \<le> p"
proof -
  have "unat (fb_size b) < 2 ^ 26" using assms by (simp add: fb_inv_def)
  then have "unat (fb_size b * 64) = unat (fb_size b) * 64"
    by (subst unat_mult_lem [THEN iffD1]) simp_all
  then have "uint (fb_size b * 64) = int (64 * unat (fb_size b))"
    by (simp only: uint_nat mult.commute)
  then show ?thesis by (simp only: of_nat_le_iff)
qed

lemma fbits_stored:
  assumes "fb_inv b" "p < 64 * unat (fb_size b)"
  shows "p div 64 < length (fb_data b)" "fbits b p = bit (fb_data b ! (p div 64)) (p mod 64)"
  using assms by (auto simp: fb_inv_def fbits_def word_le_nat_alt)

lemma FastBitset_Test_fbits:
  assumes "fb_inv b"
  shows "FastBitset_Test (int p) b = Inr (fbits b p)"
proof (cases "p < 64 * unat (fb_size b)")
  case True
  have "nat (int p div 64) = p div 64" "nat (int p mod 64) = p mod 64"
    by (simp_all add: nat_div_distrib nat_mod_distrib)
  then show ?thesis
    using True fb_capacity_le [OF assms, of p] fbits_stored [OF assms True]
    by (simp add: FastBitset_Test_def Let_def and_exp_eq_0_iff_not_bit)
next
  case False
  then show ?thesis
    using fb_capacity_le [OF assms, of p] by (simp add: FastBitset_Test_def fbits_def Let_def)
qed

lemma fbits_update_word:
  assumes "fb_inv b" "p < 64 * unat (fb_size b)"
    and "\<And>n. n < 64 \<Longrightarrow> bit w n \<longleftrightarrow> (if n = p mod 64 then v else bit (fb_data b ! (p div 64)) n)"
  shows "fbits (b\<lparr>fb_data := (fb_data b)[p div 64 := w]\<rparr>) = (fbits b)(p := v)"
proof
  fix q
  show "fbits (b\<lparr>fb_data := (fb_data b)[p div 64 := w]\<rparr>) q = ((fbits b)(p := v)) q"
  proof (cases "q div 64 = p div 64")
    case True
    then have "q = p \<longleftrightarrow> q mod 64 = p mod 64"
      by (metis mult_div_mod_eq)
    with True show ?thesis
      using assms fbits_stored(1) [OF assms(1,2)] by (auto simp: fbits_def)
  next
    case False
    then show ?thesis by (auto simp: fbits_def)
  qed
qed

lemma fb_inv_data: "fb_inv b \<Longrightarrow> length d = length (fb_data b) \<Longrightarrow> fb_inv (b\<lparr>fb_data := d\<rparr>)"
  by (simp add: fb_inv_def)

text \<open>A bit stored below \<open>size_\<close>: the second half of \<open>Set\<close>.\<close>

lemma FastBitset_store_bit:
  fixes v :: bool
  assumes "fb_inv b" "p < 64 * unat (fb_size b)"
  defines "w \<equiv> fb_data b ! (p div 64)"
  defines "w' \<equiv> (if v then w OR push_bit (p mod 64) 1 else w AND NOT (push_bit (p mod 64) 1))"
  shows "fb_inv (b\<lparr>fb_data := (fb_data b)[p div 64 := w']\<rparr>)"
    and "fbits (b\<lparr>fb_data := (fb_data b)[p div 64 := w']\<rparr>) = (fbits b)(p := v)"
proof -
  show "fb_inv (b\<lparr>fb_data := (fb_data b)[p div 64 := w']\<rparr>)"
    using assms(1) by (intro fb_inv_data) auto
  show "fbits (b\<lparr>fb_data := (fb_data b)[p div 64 := w']\<rparr>) = (fbits b)(p := v)"
    by (rule fbits_update_word [OF assms(1,2)])
      (auto simp: w'_def w_def push_bit_of_1 bit_simps)
qed

text \<open>The first half: growing the bitset to hold the position does not change its value.\<close>

lemma FastBitset_grow:
  assumes inv: "fb_inv b" and p: "p < 2 ^ 32 - 64"
  defines "n \<equiv> of_nat (p div 64 + 1) :: 32 word"
  defines "f \<equiv> (if get_fill_bit b then FILL_ONE else 0 :: 64 word)"
  defines "b1 \<equiv> (if 64 * unat (fb_size b) \<le> p then FastBitset_resize n f b else b)"
  shows "fb_inv b1" "p < 64 * unat (fb_size b1)" "fbits b1 = fbits b"
proof -
  have un: "unat n = p div 64 + 1"
    using p unfolding n_def by (simp only: unat_of_nat) simp
  have n26: "unat n < 2 ^ 26" using p unfolding un by simp
  show "fb_inv b1" using FastBitset_resize_inv [OF inv n26] inv by (simp add: b1_def)
  show "p < 64 * unat (fb_size b1)" by (auto simp: b1_def un)
  show "fbits b1 = fbits b"
  proof (cases "64 * unat (fb_size b) \<le> p")
    case True
    then have "fb_size b \<le> n" unfolding word_le_nat_alt un by simp
    from fbits_extend [OF inv n26 this] show ?thesis by (simp add: b1_def f_def)
  qed (simp add: b1_def)
qed

lemma FastBitset_Set_fbits:
  assumes inv: "fb_inv b" and p: "p < 2 ^ 32 - 64"
  shows "\<exists>b'. FastBitset_Set (int p) v b = Inr b' \<and> fb_inv b' \<and> fbits b' = (fbits b)(p := v)"
proof -
  define b1 where "b1 = (if 64 * unat (fb_size b) \<le> p
    then FastBitset_resize (of_nat (p div 64 + 1)) (if get_fill_bit b then FILL_ONE else 0) b else b)"
  note g = FastBitset_grow [OF inv p, folded b1_def]
  have idx: "nat (int p div 64) = p div 64" "nat (int p mod 64) = p mod 64"
    by (simp_all add: nat_div_distrib nat_mod_distrib)
  have n: "word_of_int (int p div 64 + 1) = (of_nat (p div 64 + 1) :: 32 word)"
    by (metis of_nat_1 of_nat_add of_nat_div of_nat_numeral of_int_of_nat_eq)
  have "FastBitset_Set (int p) v b = Inr (b1\<lparr>fb_data := (fb_data b1)[p div 64 :=
      (if v then fb_data b1 ! (p div 64) OR push_bit (p mod 64) 1
       else fb_data b1 ! (p div 64) AND NOT (push_bit (p mod 64) 1))]\<rparr>)"
    using fbits_stored(1) [OF g(1,2)] fb_capacity_le [OF inv, of p]
    unfolding FastBitset_Set_def Let_def n b1_def idx
    by (cases "get_fill_bit b"; cases "64 * unat (fb_size b) \<le> p") simp_all
  with g FastBitset_store_bit [OF g(1,2), of v] show ?thesis by simp
qed


section \<open>Whole-bitset operations\<close>

lemma length_Bit_ops [simp]:
  assumes "n \<le> length x" "n \<le> length y"
  shows "length (BitOr x y n) = length x" "length (BitAnd x y n) = length x"
  using assms by (simp_all add: BitOr_def BitAnd_def)

lemma length_BitNot [simp]: "n \<le> length x \<Longrightarrow> length (BitNot x n) = length x"
  by (simp add: BitNot_def)

lemma nth_Bit_ops:
  assumes "n \<le> length x" "n \<le> length y" "i < length x"
  shows "BitOr x y n ! i = (if i < n then x ! i OR y ! i else x ! i)"
    and "BitAnd x y n ! i = (if i < n then x ! i AND y ! i else x ! i)"
  using assms by (simp_all add: BitOr_def BitAnd_def nth_blit)

lemma nth_BitNot:
  "n \<le> length x \<Longrightarrow> i < length x \<Longrightarrow> BitNot x n ! i = (if i < n then NOT (x ! i) else x ! i)"
  by (simp add: BitNot_def nth_blit)

lemma fb_inv_size: "fb_inv b \<Longrightarrow> unat (fb_size b) \<le> length (fb_data b)"
  by (simp add: fb_inv_def word_le_nat_alt)

lemma fb_inv_size26: "fb_inv b \<Longrightarrow> unat (fb_size b) < 2 ^ 26"
  by (simp add: fb_inv_def)

lemma fb_inv_set_fill [simp]: "fb_inv (set_fill_bit v b) = fb_inv b"
  by (simp add: fb_inv_def)

lemma fbits_set_fill:
  "fbits (set_fill_bit v b) p = (if p < 64 * unat (fb_size b) then fbits b p else v)"
  by (simp add: fbits_def)

lemma FastBitset_new_inv: "fb_inv FastBitset_new"
  by (simp add: fb_inv_def FastBitset_new_def get_capacity_def)

lemma FastBitset_new_fbits: "fbits FastBitset_new p = False"
  by (simp add: fbits_def FastBitset_new_def get_fill_bit_def)

lemma FastBitset_Clear_inv: "fb_inv b \<Longrightarrow> fb_inv (FastBitset_Clear b)"
  by (simp add: FastBitset_Clear_def fb_inv_def)

lemma FastBitset_Clear_size [simp]: "fb_size (FastBitset_Clear b) = 0"
  by (simp add: FastBitset_Clear_def)

lemma FastBitset_Clear_fbits: "fbits (FastBitset_Clear b) p = False"
  by (simp add: FastBitset_Clear_def fbits_def)

lemma FastBitset_Not_inv: "fb_inv b \<Longrightarrow> fb_inv (FastBitset_Not b)"
  by (simp add: FastBitset_Not_def Let_def fb_inv_data fb_inv_size)

lemma FastBitset_Not_fbits:
  assumes "fb_inv b"
  shows "fbits (FastBitset_Not b) p = (\<not> fbits b p)"
proof (cases "p < 64 * unat (fb_size b)")
  case True
  with fbits_stored(1) [OF assms True] fb_inv_size [OF assms] show ?thesis
    by (auto simp: FastBitset_Not_def Let_def fbits_def nth_BitNot bit_simps)
qed (simp add: FastBitset_Not_def Let_def fbits_def)

text \<open>The words of a combination over the first \<open>n\<close> words of two bitsets.\<close>

lemma fbits_BitOr:
  assumes "fb_inv a" "fb_inv b" "n \<le> unat (fb_size a)" "n \<le> unat (fb_size b)"
    and "p < 64 * unat (fb_size a)"
  shows "fbits (a\<lparr>fb_data := BitOr (fb_data a) (fb_data b) n\<rparr>) p =
    (fbits a p \<or> p < 64 * n \<and> fbits b p)"
  using assms fbits_stored(1) [OF assms(1,5)] fb_inv_size [OF assms(1)] fb_inv_size [OF assms(2)]
  by (auto simp: fbits_def nth_Bit_ops bit_simps)

lemma fbits_BitAnd:
  assumes "fb_inv a" "fb_inv b" "n \<le> unat (fb_size a)" "n \<le> unat (fb_size b)"
    and "p < 64 * unat (fb_size a)"
  shows "fbits (a\<lparr>fb_data := BitAnd (fb_data a) (fb_data b) n\<rparr>) p =
    (fbits a p \<and> (p < 64 * n \<longrightarrow> fbits b p))"
  using assms fbits_stored(1) [OF assms(1,5)] fb_inv_size [OF assms(1)] fb_inv_size [OF assms(2)]
  by (auto simp: fbits_def nth_Bit_ops bit_simps)

lemma fb_inv_BitOr:
  assumes "fb_inv a" "fb_inv b" "n \<le> unat (fb_size a)" "n \<le> unat (fb_size b)"
  shows "fb_inv (a\<lparr>fb_data := BitOr (fb_data a) (fb_data b) n\<rparr>)"
    and "fb_inv (a\<lparr>fb_data := BitAnd (fb_data a) (fb_data b) n\<rparr>)"
  using assms fb_inv_size [OF assms(1)] fb_inv_size [OF assms(2)]
  by (simp_all add: fb_inv_data)


lemma FastBitset_Or_shorter:
  assumes "fb_inv a" "fb_inv b" "fb_size b \<le> fb_size a" "fb_size b \<noteq> 0"
  shows "fb_inv (FastBitset_Or a b) \<and> fbits (FastBitset_Or a b) p = (fbits a p \<or> fbits b p)"
proof -
  let ?a1 = "a\<lparr>fb_data := BitOr (fb_data a) (fb_data b) (unat (fb_size b))\<rparr>"
  have le: "unat (fb_size b) \<le> unat (fb_size a)" using assms(3) by (simp add: word_le_nat_alt)
  have a1: "fb_inv ?a1" using assms(1,2) le by (simp add: fb_inv_BitOr)
  have or1: "fbits ?a1 p = (fbits a p \<or> p < 64 * unat (fb_size b) \<and> fbits b p)"
    using fbits_BitOr [OF assms(1,2) le] le
    by (cases "p < 64 * unat (fb_size a)") (auto simp: fbits_beyond)
  have res: "fb_inv (FastBitset_resize (fb_size b) 0 ?a1)"
    by (rule FastBitset_resize_inv [OF a1 fb_inv_size26 [OF assms(2)]])
  have bits: "fbits (FastBitset_resize (fb_size b) 0 ?a1) p = (fbits a p \<or> fbits b p)"
    if "p < 64 * unat (fb_size b)"
    using that or1 le by (simp add: fbits_resize [OF a1 fb_inv_size26 [OF assms(2)]])
  show ?thesis
    using assms a1 or1 res bits
    by (cases "p < 64 * unat (fb_size b)")
      (auto simp: FastBitset_Or_def Let_def fbits_set_fill fbits_beyond)
qed

lemma FastBitset_Or_longer:
  assumes "fb_inv a" "fb_inv b" "fb_size a < fb_size b"
  shows "fb_inv (FastBitset_Or a b) \<and> fbits (FastBitset_Or a b) p = (fbits a p \<or> fbits b p)"
proof -
  have lt: "unat (fb_size a) < unat (fb_size b)" using assms(3) by (simp add: word_less_nat_alt)
  have nz: "fb_size b \<noteq> 0" "\<not> fb_size b \<le> fb_size a" using lt assms(3) by auto
  show ?thesis
  proof (cases "get_fill_bit a")
    case True
    then show ?thesis
      using assms lt nz fb_inv_BitOr [OF assms(1,2), of "unat (fb_size a)"]
        fbits_BitOr [OF assms(1,2), of "unat (fb_size a)" p]
      by (cases "p < 64 * unat (fb_size a)") (simp_all add: FastBitset_Or_def fbits_beyond)
  next
    case False
    let ?a1 = "set_fill_bit (get_fill_bit b) (FastBitset_resize (fb_size b) 0 a)"
    note b26 = fb_inv_size26 [OF assms(2)]
    have a1: "fb_inv ?a1" using FastBitset_resize_inv [OF assms(1) b26] by simp
    have eq: "FastBitset_Or a b = ?a1\<lparr>fb_data := BitOr (fb_data ?a1) (fb_data b) (unat (fb_size b))\<rparr>"
      using False assms(3) nz by (simp add: FastBitset_Or_def)
    have "fbits ?a1 p = fbits a p" if "p < 64 * unat (fb_size b)"
      using that False by (simp add: fbits_set_fill fbits_resize [OF assms(1) b26] fbits_beyond)
    then show ?thesis
      unfolding eq
      using False lt fb_inv_BitOr(1) [OF a1 assms(2)] fbits_BitOr [OF a1 assms(2)]
      by (cases "p < 64 * unat (fb_size b)") (simp_all add: fbits_beyond)
  qed
qed

lemma FastBitset_Or_correct:
  assumes "fb_inv a" "fb_inv b"
  shows "fb_inv (FastBitset_Or a b) \<and> fbits (FastBitset_Or a b) p = (fbits a p \<or> fbits b p)"
proof (cases "fb_size b = 0")
  case True
  then show ?thesis
    using assms by (auto simp: FastBitset_Or_def FastBitset_Clear_inv fbits_set_fill fbits_beyond)
next
  case False
  then show ?thesis
    using FastBitset_Or_shorter [OF assms] FastBitset_Or_longer [OF assms] by (meson not_le)
qed

lemma FastBitset_And_shorter:
  assumes "fb_inv a" "fb_inv b" "fb_size b \<le> fb_size a" "fb_size b \<noteq> 0"
  shows "fb_inv (FastBitset_And a b) \<and> fbits (FastBitset_And a b) p = (fbits a p \<and> fbits b p)"
proof -
  let ?n = "unat (fb_size b)" and ?m = "unat (fb_size a)"
  let ?a1 = "a\<lparr>fb_data := BitAnd (fb_data a) (fb_data b) ?n\<rparr>"
  let ?a2 = "?a1\<lparr>fb_data := blit (fb_data ?a1) ?n (replicate (?m - ?n) 0)\<rparr>"
  have le: "?n \<le> ?m" using assms(3) by (simp add: word_le_nat_alt)
  have a1: "fb_inv ?a1" using assms(1,2) le by (simp add: fb_inv_BitOr)
  have la: "length (fb_data ?a1) = length (fb_data a)"
    using fb_inv_size [OF assms(1)] fb_inv_size [OF assms(2)] le by simp
  have len: "?m \<le> length (fb_data ?a1)" unfolding la by (rule fb_inv_size [OF assms(1)])
  have a2: "fb_inv ?a2" using fb_inv_data [OF assms(1)] la le len by simp
  have and1: "fbits ?a1 p = (fbits a p \<and> (p < 64 * ?n \<longrightarrow> fbits b p))"
    using fbits_BitAnd [OF assms(1,2) le] le by (cases "p < 64 * ?m") (simp_all add: fbits_beyond)
  have and2: "fbits ?a2 p = (if p < 64 * ?n then fbits ?a1 p else if p < 64 * ?m then False else get_fill_bit a)"
    using le len by (auto simp: fbits_def nth_blit)
  have fill: "p < 64 * ?m \<or> (\<not> p < 64 * ?n \<and> fbits a p = get_fill_bit a)"
    using le by (auto simp: fbits_beyond)
  show ?thesis
    using assms le a1 a2 and1 and2 fill
    by (cases "p < 64 * ?n") (auto simp: FastBitset_And_def Let_def fbits_set_fill fbits_beyond)
qed

lemma FastBitset_And_longer:
  assumes "fb_inv a" "fb_inv b" "fb_size a < fb_size b"
  shows "fb_inv (FastBitset_And a b) \<and> fbits (FastBitset_And a b) p = (fbits a p \<and> fbits b p)"
proof -
  let ?a1 = "FastBitset_resize (fb_size b) (if get_fill_bit a then FILL_ONE else 0) a"
  let ?a2 = "?a1\<lparr>fb_data := BitAnd (fb_data ?a1) (fb_data b) (unat (fb_size b))\<rparr>"
  note b26 = fb_inv_size26 [OF assms(2)]
  have a1: "fb_inv ?a1" by (rule FastBitset_resize_inv [OF assms(1) b26])
  have "fb_size b \<noteq> 0" using assms(3) by auto
  then have eq: "FastBitset_And a b = set_fill_bit (get_fill_bit a \<and> get_fill_bit b) ?a2"
    using assms(3) by (simp add: FastBitset_And_def Let_def)
  have "fbits ?a1 p = fbits a p"
    using fbits_extend [OF assms(1) b26] assms(3) by simp
  moreover have "fbits a p = get_fill_bit a" if "\<not> p < 64 * unat (fb_size b)"
    using that assms(3) by (intro fbits_beyond) (simp add: word_less_nat_alt)
  ultimately show ?thesis
    unfolding eq using fb_inv_BitOr(2) [OF a1 assms(2)] fbits_BitAnd [OF a1 assms(2)]
    by (cases "p < 64 * unat (fb_size b)") (simp_all add: fbits_set_fill fbits_beyond)
qed

lemma FastBitset_And_correct:
  assumes "fb_inv a" "fb_inv b"
  shows "fb_inv (FastBitset_And a b) \<and> fbits (FastBitset_And a b) p = (fbits a p \<and> fbits b p)"
proof (cases "fb_size b = 0")
  case True
  then show ?thesis
    using assms by (auto simp: FastBitset_And_def FastBitset_Clear_inv FastBitset_Clear_fbits fbits_beyond)
next
  case False
  then show ?thesis
    using FastBitset_And_shorter [OF assms] FastBitset_And_longer [OF assms] by (meson not_le)
qed


section \<open>Counting\<close>

lemma popcountll_card: "popcountll w = card {q. q < 64 \<and> bit w q}"
proof -
  have "{q. q < 64 \<and> bit w q} = set (filter (bit w) [0..<64])" by auto
  then show ?thesis
    unfolding popcountll_def by (simp only: distinct_card distinct_filter distinct_upt)
qed

lemma popcountll_le: "popcountll w \<le> 64"
  unfolding popcountll_def by (rule order_trans [OF length_filter_le]) simp

lemma card_stored_bits:
  "card {p. p < 64 * n \<and> bit (d ! (p div 64)) (p mod 64)} = (\<Sum>i<n. popcountll (d ! i))"
proof (induction n)
  case (Suc n)
  let ?A = "{p. p < 64 * n \<and> bit (d ! (p div 64)) (p mod 64)}"
  let ?B = "{q. q < 64 \<and> bit (d ! n) q}"
  have "{p. p < 64 * Suc n \<and> bit (d ! (p div 64)) (p mod 64)} = ?A \<union> (\<lambda>q. 64 * n + q) ` ?B"
  proof (intro equalityI subsetI)
    fix p assume p: "p \<in> {p. p < 64 * Suc n \<and> bit (d ! (p div 64)) (p mod 64)}"
    show "p \<in> ?A \<union> (\<lambda>q. 64 * n + q) ` ?B"
    proof (cases "p < 64 * n")
      case False
      with p have n: "p div 64 = n" by (auto intro: div_nat_eqI)
      then have "p = 64 * n + p mod 64" by (metis mult_div_mod_eq)
      with p n show ?thesis by (auto intro!: image_eqI [of _ _ "p mod 64"])
    qed (use p in simp)
  qed auto
  moreover have "card (?A \<union> (\<lambda>q. 64 * n + q) ` ?B) = card ?A + card ?B"
    by (subst card_Un_disjoint) (auto simp: card_image inj_on_def)
  ultimately show ?case using Suc by (simp add: popcountll_card)
qed simp

lemma FastBitset_Count_sum:
  assumes "n \<le> 2 ^ 26"
  shows "fold (\<lambda>i count. u64 (count + popcountll (d ! i))) [0..<n] 0 = (\<Sum>i<n. popcountll (d ! i))
    \<and> (\<Sum>i<n. popcountll (d ! i)) \<le> 64 * n"
  using assms
proof (induction n)
  case (Suc n)
  then show ?case using popcountll_le [of "d ! n"] by (simp add: u64_def)
qed simp

lemma FastBitset_Count_card:
  assumes "fb_inv b" "\<not> get_fill_bit b"
  shows "FastBitset_Count b = card {p. fbits b p}"
proof -
  have "{p. fbits b p} = {p. p < 64 * unat (fb_size b) \<and> bit (fb_data b ! (p div 64)) (p mod 64)}"
    using assms(2) by (auto simp: fbits_def)
  then show ?thesis
    using FastBitset_Count_sum [of "unat (fb_size b)" "fb_data b"] fb_inv_size26 [OF assms(1)]
    by (simp add: FastBitset_Count_def card_stored_bits)
qed

section \<open>The bitset interface\<close>

text \<open>
  \<open>ComputableBitset\<close> as its clients use it: what each operation does to the set of
  positions, on bitsets that satisfy the invariant of the implementation.
\<close>

locale computable_bitset =
  fixes inv :: "'b \<Rightarrow> bool"
    and bits :: "'b \<Rightarrow> nat \<Rightarrow> bool"
    and bor band :: "'b \<Rightarrow> 'b \<Rightarrow> 'b"
    and bclear :: "'b \<Rightarrow> 'b"
  assumes or_law: "inv a \<Longrightarrow> inv b \<Longrightarrow> inv (bor a b) \<and> bits (bor a b) p = (bits a p \<or> bits b p)"
    and and_law: "inv a \<Longrightarrow> inv b \<Longrightarrow> inv (band a b) \<and> bits (band a b) p = (bits a p \<and> bits b p)"
    and clear_law: "inv a \<Longrightarrow> inv (bclear a) \<and> \<not> bits (bclear a) p"
begin

lemma fold_or:
  assumes "inv b" "\<And>a. a \<in> set as \<Longrightarrow> inv a"
  shows "inv (fold (\<lambda>a b. bor b a) as b) \<and>
    bits (fold (\<lambda>a b. bor b a) as b) p = (bits b p \<or> (\<exists>a\<in>set as. bits a p))"
  using assms
proof (induction as arbitrary: b)
  case (Cons a as)
  then show ?case using or_law [of b a] Cons.IH [of "bor b a"] by auto
qed simp

lemma fold_and:
  assumes "inv b" "\<And>a. a \<in> set as \<Longrightarrow> inv a"
  shows "inv (fold (\<lambda>a b. band b a) as b) \<and>
    bits (fold (\<lambda>a b. band b a) as b) p = (bits b p \<and> (\<forall>a\<in>set as. bits a p))"
  using assms
proof (induction as arbitrary: b)
  case (Cons a as)
  then show ?case using and_law [of b a] Cons.IH [of "band b a"] by auto
qed simp

end

text \<open>Implementations whose \<open>Not\<close> is the complement over all positions.\<close>

locale complement_bitset = computable_bitset +
  fixes bnot :: "'a \<Rightarrow> 'a"
  assumes not_law: "inv a \<Longrightarrow> inv (bnot a) \<and> bits (bnot a) p = (\<not> bits a p)"
begin

text \<open>The law the \<open>NE\<close> and \<open>NOT IN\<close> executors rely on.\<close>

lemma not_fold_or:
  assumes "inv b" "\<And>a. a \<in> set as \<Longrightarrow> inv a"
  shows "inv (bnot (fold (\<lambda>a b. bor b a) as b)) \<and>
    bits (bnot (fold (\<lambda>a b. bor b a) as b)) p = (\<not> bits b p \<and> (\<forall>a\<in>set as. \<not> bits a p))"
  using fold_or [OF assms] not_law by blast

end

interpretation fast: complement_bitset fb_inv fbits FastBitset_Or FastBitset_And FastBitset_Clear FastBitset_Not
  by unfold_locales
    (simp_all add: FastBitset_Or_correct FastBitset_And_correct FastBitset_Clear_inv
      FastBitset_Clear_fbits FastBitset_Not_inv FastBitset_Not_fbits)

lemma FastBitset_Or_vec_fold:
  "FastBitset_Or_vec b ps = fold (\<lambda>a b. FastBitset_Or b a) (List.map_filter id ps) b"
  by (induction b ps rule: FastBitset_Or_vec.induct) (simp_all add: List.map_filter_simps)

lemma FastBitset_And_vec_fold:
  "None \<notin> set ps \<Longrightarrow>
    FastBitset_And_vec b ps = fold (\<lambda>a b. FastBitset_And b a) (map the ps) b"
  by (induction b ps rule: FastBitset_And_vec.induct) simp_all


section \<open>Serialization\<close>

text \<open>The bitset \<open>b0\<close> after it has read back what was written for \<open>b\<close>.\<close>

definition fb_reload :: "fast_bitset \<Rightarrow> fast_bitset \<Rightarrow> fast_bitset" where
  "fb_reload b0 b = set_fill_bit (get_fill_bit b) (set_capacity (fb_size b)
      (b0\<lparr>fb_data := take (unat (fb_size b)) (fb_data b), fb_size := fb_size b\<rparr>))"

context byte_reader
begin

lemma parses_FastBitset:
  assumes "fb_inv b"
  shows "parses (FastBitset_Deserialize rd b0) (fb_reload b0 b) (sw_out (FastBitset_Serialize b StreamWriter_new))"
proof -
  let ?n = "unat (fb_size b)"
  let ?ws = "map unat (take ?n (fb_data b))"
  let ?bs = "concat (map (le_bytes 8) ?ws)"
  have n: "?n \<le> length (fb_data b)" "?n < 2 ^ 26"
    using fb_inv_size [OF assms(1)] fb_inv_size26 [OF assms(1)] by simp_all
  have len: "length ?ws = ?n" using n(1) by simp
  have dec: "decode_array 8 ?n ?bs = ?ws"
  proof -
    have "x < 256 ^ 8" if "x \<in> set ?ws" for x
    proof -
      from that obtain w :: "64 word" where "x = unat w" by auto
      then show ?thesis by (auto intro: order.strict_trans2 [OF unsigned_less])
    qed
    then show ?thesis using decode_array_concat [of ?ws 8] unfolding len by blast
  qed
  have words: "map of_nat ?ws = take ?n (fb_data b)" by (simp add: comp_def)
  have out: "sw_out (FastBitset_Serialize b StreamWriter_new) =
      le_bytes 1 (if get_fill_bit b then 1 else 0) @ le_bytes 8 ?n @ ?bs"
    by (simp add: FastBitset_Serialize_def Let_def StreamWriter_new_def comp_def)
  have body: "parses (\<lambda>r2. bindR (if ?n > 0 then rd (u64 (?n * 8)) r2 else Inr ([], r2))
      (\<lambda>(bs, r3). Inr (set_fill_bit (get_fill_bit b) (set_capacity (of_nat ?n)
          (b0\<lparr>fb_data := map of_nat (decode_array 8 ?n bs), fb_size := of_nat ?n\<rparr>)), r3)))
      (fb_reload b0 b) ?bs"
  proof (cases "?n > 0")
    case True
    have "length ?bs = u64 (?n * 8)"
      using n len length_concat_le_bytes [of 8 ?ws] by (simp del: map_map)
    from parses_map [OF parses_read [OF this], of "\<lambda>bs. set_fill_bit (get_fill_bit b)
        (set_capacity (of_nat ?n) (b0\<lparr>fb_data := map of_nat (decode_array 8 ?n bs), fb_size := of_nat ?n\<rparr>))"]
    show ?thesis
      using True unfolding dec words fb_reload_def by simp
  next
    case False
    then have "fb_size b = 0" by (simp add: unat_eq_0)
    then show ?thesis unfolding fb_reload_def by (simp add: parses_return)
  qed
  have fill: "parses (ReadObj rd 1) (if get_fill_bit b then 1 else 0)
      (le_bytes 1 (if get_fill_bit b then 1 else 0))"
    by (rule parses_ReadObj) simp
  have count: "parses (ReadObj rd 8) ?n (le_bytes 8 ?n)"
    using n(2) by (intro parses_ReadObj) simp
  show ?thesis
    unfolding out FastBitset_Deserialize_def
    by (rule parses_bind [OF fill], rule parses_bind [OF count])
      (use n(2) body in \<open>cases "get_fill_bit b"; simp add: MAX_FAST_BITSET_WORDS_def\<close>)
qed

end

lemma FastBitset_reload_bits:
  assumes "fb_inv b"
  shows "fb_inv (fb_reload b0 b)" "fbits (fb_reload b0 b) = fbits b"
  using fb_inv_size [OF assms(1)] fb_inv_size26 [OF assms(1)]
  by (auto simp: fb_inv_def fb_reload_def and_mask31_id fun_eq_iff fbits_def)


section \<open>Properties\<close>

text \<open>
  Programs over bitsets: every bitset a client can build with the operations of the class, and
  the set it stands for.
\<close>

datatype bitset_program =
    PNew
  | PSet nat bool bitset_program
  | POr bitset_program bitset_program
  | PAnd bitset_program bitset_program
  | PNot bitset_program
  | PClear bitset_program

fun run_fast :: "bitset_program \<Rightarrow> fast_bitset result" where
  "run_fast PNew = Inr FastBitset_new"
| "run_fast (PSet p v e) = bindR (run_fast e) (FastBitset_Set (int p) v)"
| "run_fast (POr e f) = bindR (run_fast e) (\<lambda>a. bindR (run_fast f) (\<lambda>b. Inr (FastBitset_Or a b)))"
| "run_fast (PAnd e f) = bindR (run_fast e) (\<lambda>a. bindR (run_fast f) (\<lambda>b. Inr (FastBitset_And a b)))"
| "run_fast (PNot e) = bindR (run_fast e) (\<lambda>a. Inr (FastBitset_Not a))"
| "run_fast (PClear e) = bindR (run_fast e) (\<lambda>a. Inr (FastBitset_Clear a))"

fun sem :: "bitset_program \<Rightarrow> nat \<Rightarrow> bool" where
  "sem PNew = (\<lambda>p. False)"
| "sem (PSet p v e) = (sem e)(p := v)"
| "sem (POr e f) = (\<lambda>p. sem e p \<or> sem f p)"
| "sem (PAnd e f) = (\<lambda>p. sem e p \<and> sem f p)"
| "sem (PNot e) = (\<lambda>p. \<not> sem e p)"
| "sem (PClear e) = (\<lambda>p. False)"

fun positions_below :: "nat \<Rightarrow> bitset_program \<Rightarrow> bool" where
  "positions_below m PNew = True"
| "positions_below m (PSet p v e) = (p < m \<and> positions_below m e)"
| "positions_below m (POr e f) = (positions_below m e \<and> positions_below m f)"
| "positions_below m (PAnd e f) = (positions_below m e \<and> positions_below m f)"
| "positions_below m (PNot e) = positions_below m e"
| "positions_below m (PClear e) = positions_below m e"

lemma run_fast_sem:
  "positions_below (2 ^ 32 - 64) e \<Longrightarrow> \<exists>b. run_fast e = Inr b \<and> fb_inv b \<and> fbits b = sem e"
proof (induction e)
  case PNew
  then show ?case by (simp add: FastBitset_new_inv FastBitset_new_fbits fun_eq_iff)
next
  case (PSet p v e)
  then obtain b where b: "run_fast e = Inr b" "fb_inv b" "fbits b = sem e" by auto
  with FastBitset_Set_fbits [of b p v] PSet.prems show ?case by auto
next
  case (POr e f)
  then obtain a b where "run_fast e = Inr a" "fb_inv a" "fbits a = sem e"
    "run_fast f = Inr b" "fb_inv b" "fbits b = sem f" by auto
  with fast.or_law [of a b] show ?case by (auto simp: fun_eq_iff)
next
  case (PAnd e f)
  then obtain a b where "run_fast e = Inr a" "fb_inv a" "fbits a = sem e"
    "run_fast f = Inr b" "fb_inv b" "fbits b = sem f" by auto
  with fast.and_law [of a b] show ?case by (auto simp: fun_eq_iff)
next
  case (PNot e)
  then obtain a where "run_fast e = Inr a" "fb_inv a" "fbits a = sem e" by auto
  with fast.not_law [of a] show ?case by (auto simp: fun_eq_iff)
next
  case (PClear e)
  then obtain a where "run_fast e = Inr a" "fb_inv a" by auto
  with fast.clear_law [of a] show ?case by (auto simp: fun_eq_iff)
qed

text \<open>
  Claim C19. \<open>FastBitset\<close> implements sets of positions: whatever bitset a client builds with
  \<open>Set\<close>, \<open>Or\<close>, \<open>And\<close>, \<open>Not\<close> and \<open>Clear\<close> from positions below
  \<open>2 ^ 32 - 64\<close>, no operation fails and \<open>Test\<close> answers, at every position, membership in
  the set the same operations denote (\<open>Not\<close> is the complement over all positions).
\<close>

theorem FastBitset_refines_sets:
  assumes "positions_below (2 ^ 32 - 64) e"
  shows "\<exists>b. run_fast e = Inr b \<and> (\<forall>p. FastBitset_Test (int p) b = Inr (sem e p))"
  using run_fast_sem [OF assms] FastBitset_Test_fbits by force

theorem FastBitset_refines_sets_witness:
  "\<exists>b. run_fast (PAnd (PNot (PSet 70 True PNew)) (PSet 3 True PNew)) = Inr b
     \<and> FastBitset_Test 3 b = Inr True \<and> FastBitset_Test 70 b = Inr False"
proof -
  let ?e = "PAnd (PNot (PSet 70 True PNew)) (PSet 3 True PNew)"
  have "positions_below (2 ^ 32 - 64) ?e" by simp
  from FastBitset_refines_sets [OF this] obtain b where
    "run_fast ?e = Inr b" "\<And>p. FastBitset_Test (int p) b = Inr (sem ?e p)" by blast
  from this(1) this(2) [of 3] this(2) [of 70] show ?thesis by auto
qed

text \<open>
  Serialization: what \<open>Deserialize\<close> reads back from the bytes \<open>Serialize\<close> wrote is
  a well-formed bitset with the same value at every position, whatever bitset it is read into, and
  it consumes exactly those bytes.
\<close>

lemma FastBitset_serialize_roundtrip:
  assumes "fb_inv b"
  shows "\<exists>b' r'. FastBitset_Deserialize IOStreamReader_Read b0
        (IOStreamReader_new (sw_out (FastBitset_Serialize b StreamWriter_new) @ suffix) 0) = Inr (b', r')
      \<and> fb_inv b' \<and> fbits b' = fbits b \<and> io_rest r' = suffix"
proof -
  let ?r = "IOStreamReader_new (sw_out (FastBitset_Serialize b StreamWriter_new) @ suffix) 0"
  have "io_ok ?r" "io_rest ?r = sw_out (FastBitset_Serialize b StreamWriter_new) @ suffix"
    by (simp_all add: io_ok_def io_rest_def IOStreamReader_new_def)
  from io.parsesD [OF io.parses_FastBitset [OF assms] this, of b0] obtain r' where
    "FastBitset_Deserialize IOStreamReader_Read b0 ?r = Inr (fb_reload b0 b, r')" "io_rest r' = suffix"
    by blast
  then show ?thesis using FastBitset_reload_bits [OF assms, of b0] by blast
qed

text \<open>
  \<open>Count\<close> is the number of positions in the set when the fill bit is clear (with the
  fill bit set the set is infinite).
\<close>

lemma FastBitset_Count_correct:
  assumes "positions_below (2 ^ 32 - 64) e" "run_fast e = Inr b" "\<not> get_fill_bit b"
  shows "FastBitset_Count b = card {p. sem e p}"
  using FastBitset_Count_card [of b] run_fast_sem [OF assms(1)] assms(2,3) by auto

text \<open>
  Claim C28. Beyond that range the 32-bit product \<open>size_ * 64\<close> wraps: once position
  \<open>2 ^ 32 - 64\<close> has been set, the bitset has \<open>2 ^ 26\<close> words, its computed capacity is 0, and
  \<open>Test\<close> returns the fill bit for the position just set and for every position set before.
\<close>

theorem FastBitset_capacity_wraps:
  "\<exists>b0 b. FastBitset_Set 0 True FastBitset_new = Inr b0 \<and> FastBitset_Test 0 b0 = Inr True
     \<and> FastBitset_Set (2 ^ 32 - 64) True b0 = Inr b
     \<and> FastBitset_Test (2 ^ 32 - 64) b = Inr False \<and> FastBitset_Test 0 b = Inr False"
proof -
  let ?b0 = "\<lparr>fb_data = [1], fb_size = 1, fb_capacity = 1\<rparr>"
  let ?b1 = "FastBitset_resize 0x4000000 0 ?b0"
  let ?w = "fb_data ?b1 ! (2 ^ 26 - 1)"
  have b0: "FastBitset_Set 0 True FastBitset_new = Inr ?b0" "FastBitset_Test 0 ?b0 = Inr True"
    by code_simp+
  have fill: "\<not> get_fill_bit ?b0" by (simp add: get_fill_bit_def)
  have len: "length (fb_data ?b1) = 2 ^ 26"
    by (simp add: FastBitset_resize_def Let_def get_capacity_def)
  have "FastBitset_Set (2 ^ 32 - 64) True ?b0 =
      Inr (?b1\<lparr>fb_data := (fb_data ?b1)[2 ^ 26 - 1 := ?w OR push_bit 0 1]\<rparr>)"
    using fill len by (simp add: FastBitset_Set_def Let_def)
  with b0 fill show ?thesis
    by (intro exI [of _ ?b0] exI conjI) (auto simp: FastBitset_Test_def)
qed

end
