(* ===== verification/Attributes.thy ===== *)
theory Attributes
  imports FastBitset "HOL-Library.AList"
begin

text \<open>
  The attribute index: for every field, type and value the positions of the elements that have it.
  \<open>src/impl/bitset/computable_bitset\<close> and \<open>sparse_bitset\<close> (the bitmaps of the Roaring library are a parameter),
  \<open>src/attr/multi_bitset_manager\<close> (a bitset per bucket), \<open>src/attr/attr_value_map\<close> (a manager per value),
  \<open>src/attr/attr_type_schema\<close> and \<open>src/datacell/attribute_bucket_inverted_datacell\<close> (a map per field).
  Hash maps are association lists in the order of iteration; a \<open>std::string\<close> is its bytes.
\<close>

section \<open>Bitsets behind their interface\<close>

datatype bitset_type = SPARSE_BITSET | FAST_BITSET

text \<open>The virtual methods of \<open>ComputableBitset\<close>; a null pointer is \<open>None\<close>.\<close>

record 'b bitset_methods =
  bm_type :: bitset_type
  bm_new :: 'b
  bm_Set :: "int \<Rightarrow> bool \<Rightarrow> 'b \<Rightarrow> 'b result"
  bm_Test :: "int \<Rightarrow> 'b \<Rightarrow> bool result"
  bm_Or :: "'b \<Rightarrow> 'b option \<Rightarrow> 'b"
  bm_And :: "'b \<Rightarrow> 'b option \<Rightarrow> 'b"
  bm_Not :: "'b \<Rightarrow> 'b"
  bm_Clear :: "'b \<Rightarrow> 'b"
  bm_Serialize :: "'b \<Rightarrow> stream_writer \<Rightarrow> stream_writer"

definition fast_bitset_methods :: "fast_bitset bitset_methods" where
  "fast_bitset_methods =
     \<lparr>bm_type = FAST_BITSET, bm_new = FastBitset_new, bm_Set = FastBitset_Set, bm_Test = FastBitset_Test, bm_Or = FastBitset_Or_ptr,
      bm_And = FastBitset_And_ptr, bm_Not = FastBitset_Not, bm_Clear = FastBitset_Clear, bm_Serialize = FastBitset_Serialize\<rparr>"

text \<open>
  What \<open>SparseBitset\<close> uses of a Roaring bitmap, a set of 32-bit numbers. Its methods convert the position,
  and a bitmap that cannot be read throws.
\<close>

record 'r roaring =
  rr_new :: 'r
  rr_add :: "nat \<Rightarrow> 'r \<Rightarrow> 'r"
  rr_remove :: "nat \<Rightarrow> 'r \<Rightarrow> 'r"
  rr_contains :: "'r \<Rightarrow> nat \<Rightarrow> bool"
  rr_cardinality :: "'r \<Rightarrow> nat"
  rr_or :: "'r \<Rightarrow> 'r \<Rightarrow> 'r"
  rr_and :: "'r \<Rightarrow> 'r \<Rightarrow> 'r"
  rr_flipClosed :: "nat \<Rightarrow> nat \<Rightarrow> 'r \<Rightarrow> 'r"
  rr_minimum :: "'r \<Rightarrow> nat"
  rr_maximum :: "'r \<Rightarrow> nat"
  rr_write :: "'r \<Rightarrow> bytes"
  rr_readSafe :: "bytes \<Rightarrow> 'r option"

definition as_u32 :: "int \<Rightarrow> nat" where
  "as_u32 pos = nat (pos mod 2 ^ 32)"

definition SparseBitset_Set :: "'r roaring \<Rightarrow> int \<Rightarrow> bool \<Rightarrow> 'r \<Rightarrow> 'r" where
  "SparseBitset_Set rr pos value r = (if value then rr_add rr (as_u32 pos) r else rr_remove rr (as_u32 pos) r)"

definition SparseBitset_Test :: "'r roaring \<Rightarrow> int \<Rightarrow> 'r \<Rightarrow> bool" where
  "SparseBitset_Test rr pos r = rr_contains rr r (as_u32 pos)"

definition SparseBitset_Count :: "'r roaring \<Rightarrow> 'r \<Rightarrow> nat" where
  "SparseBitset_Count rr r = rr_cardinality rr r"

definition SparseBitset_Clear :: "'r roaring \<Rightarrow> 'r \<Rightarrow> 'r" where
  "SparseBitset_Clear rr r = rr_new rr"

definition SparseBitset_Or :: "'r roaring \<Rightarrow> 'r \<Rightarrow> 'r option \<Rightarrow> 'r" where
  "SparseBitset_Or rr r another = (case another of None \<Rightarrow> r | Some a \<Rightarrow> rr_or rr r a)"

definition SparseBitset_And :: "'r roaring \<Rightarrow> 'r \<Rightarrow> 'r option \<Rightarrow> 'r" where
  "SparseBitset_And rr r another = (case another of None \<Rightarrow> SparseBitset_Clear rr r | Some a \<Rightarrow> rr_and rr r a)"

text \<open>Only the range between the least and the greatest element is complemented.\<close>

definition SparseBitset_Not :: "'r roaring \<Rightarrow> 'r \<Rightarrow> 'r" where
  "SparseBitset_Not rr r = rr_flipClosed rr (rr_minimum rr r) (rr_maximum rr r) r"

definition SparseBitset_Serialize :: "'r roaring \<Rightarrow> 'r \<Rightarrow> stream_writer \<Rightarrow> stream_writer" where
  "SparseBitset_Serialize rr r w = StreamWriter_Write (rr_write rr r) (WriteObj 8 (length (rr_write rr r)) w)"

definition SparseBitset_Deserialize :: "'r roaring \<Rightarrow> 's rd \<Rightarrow> 'r \<Rightarrow> 's \<Rightarrow> ('r \<times> 's) result" where
  "SparseBitset_Deserialize rr rd r s =
     bindR (ReadObj rd 8 s) (\<lambda>(n, s).
       if n = 0 then Inr (r, s)
       else bindR (rd n s) (\<lambda>(buffer, s).
         case rr_readSafe rr buffer of None \<Rightarrow> Inl Std_runtime_error | Some r \<Rightarrow> Inr (r, s)))"

definition sparse_bitset_methods :: "'r roaring \<Rightarrow> 'r bitset_methods" where
  "sparse_bitset_methods rr =
     \<lparr>bm_type = SPARSE_BITSET, bm_new = rr_new rr, bm_Set = (\<lambda>pos v r. Inr (SparseBitset_Set rr pos v r)),
      bm_Test = (\<lambda>pos r. Inr (SparseBitset_Test rr pos r)), bm_Or = SparseBitset_Or rr, bm_And = SparseBitset_And rr,
      bm_Not = SparseBitset_Not rr, bm_Clear = SparseBitset_Clear rr, bm_Serialize = SparseBitset_Serialize rr\<rparr>"

text \<open>\<open>ComputableBitset::And\<close> and \<open>Or\<close> with a list of bitsets.\<close>

definition ComputableBitset_And_vec :: "'b bitset_methods \<Rightarrow> 'b \<Rightarrow> 'b option list \<Rightarrow> 'b" where
  "ComputableBitset_And_vec bm b others = fold (\<lambda>p b. bm_And bm b p) others b"

definition ComputableBitset_Or_vec :: "'b bitset_methods \<Rightarrow> 'b \<Rightarrow> 'b option list \<Rightarrow> 'b" where
  "ComputableBitset_Or_vec bm b others = fold (\<lambda>p b. bm_Or bm b p) others b"

section \<open>A bitset per bucket\<close>

record 'b multi_bitset_manager =
  mb_bitsets :: "'b list"
  mb_bitset_map :: "int list"
  mb_count :: nat

definition MultiBitsetManager_new :: "nat \<Rightarrow> 'b multi_bitset_manager" where
  "MultiBitsetManager_new n = \<lparr>mb_bitsets = [], mb_bitset_map = replicate n (- 1), mb_count = n\<rparr>"

definition SetNewCount :: "nat \<Rightarrow> 'b multi_bitset_manager \<Rightarrow> 'b multi_bitset_manager" where
  "SetNewCount new_count m =
     (if new_count \<le> mb_count m then m
      else m\<lparr>mb_count := new_count, mb_bitset_map := vec_resize new_count (- 1) (mb_bitset_map m)\<rparr>)"

definition GetOneBitset :: "'b multi_bitset_manager \<Rightarrow> nat \<Rightarrow> 'b option result" where
  "GetOneBitset m bucket =
     (if bucket \<ge> mb_count m then Inr None
      else if bucket \<ge> length (mb_bitset_map m) then Inl UB
      else let inner = mb_bitset_map m ! bucket
           in if inner = - 1 then Inr None
              else if inner < 0 \<or> nat inner \<ge> length (mb_bitsets m) then Inl UB
              else Inr (Some (mb_bitsets m ! nat inner)))"

text \<open>The conversion to \<open>int16_t\<close>.\<close>

definition as_int16 :: "nat \<Rightarrow> int" where
  "as_int16 n = (int n + 2 ^ 15) mod 2 ^ 16 - 2 ^ 15"

definition InsertValue :: "'b bitset_methods \<Rightarrow> nat \<Rightarrow> nat \<Rightarrow> bool \<Rightarrow> 'b multi_bitset_manager \<Rightarrow> 'b multi_bitset_manager result" where
  "InsertValue bm bucket offset value m =
     (let m = (if bucket \<ge> mb_count m then SetNewCount (bucket + 1) m else m)
      in if bucket \<ge> length (mb_bitset_map m) then Inl UB
         else let inner = mb_bitset_map m ! bucket;
                  (inner, m) = (if inner = - 1
                    then let inner = as_int16 (length (mb_bitsets m))
                         in (inner, m\<lparr>mb_bitset_map := (mb_bitset_map m)[bucket := inner], mb_bitsets := mb_bitsets m @ [bm_new bm]\<rparr>)
                    else (inner, m))
              in if inner < 0 \<or> nat inner \<ge> length (mb_bitsets m) then Inl UB
                 else bindR (bm_Set bm (int offset) value (mb_bitsets m ! nat inner)) (\<lambda>b.
                   Inr (m\<lparr>mb_bitsets := (mb_bitsets m)[nat inner := b]\<rparr>)))"

text \<open>Setting a position of the bitset that \<open>GetOneBitset\<close> returns, when there is one.\<close>

definition set_in_bucket :: "'b bitset_methods \<Rightarrow> nat \<Rightarrow> nat \<Rightarrow> bool \<Rightarrow> 'b multi_bitset_manager \<Rightarrow> 'b multi_bitset_manager result" where
  "set_in_bucket bm bucket offset value m =
     bindR (GetOneBitset m bucket) (\<lambda>bitset. case bitset of None \<Rightarrow> Inr m
       | Some b \<Rightarrow> bindR (bm_Set bm (int offset) value b) (\<lambda>b. Inr (m\<lparr>mb_bitsets := (mb_bitsets m)[nat (mb_bitset_map m ! bucket) := b]\<rparr>)))"

definition MultiBitsetManager_Serialize :: "'b bitset_methods \<Rightarrow> 'b multi_bitset_manager \<Rightarrow> stream_writer \<Rightarrow> stream_writer" where
  "MultiBitsetManager_Serialize bm m w =
     fold (bm_Serialize bm) (mb_bitsets m) (WriteObj 8 (length (mb_bitsets m))
       (fold (\<lambda>i. WriteObj 2 (nat (i mod 2 ^ 16))) (mb_bitset_map m) (WriteObj 8 (mb_count m) w)))"

definition MultiBitsetManager_Deserialize ::
  "'b bitset_methods \<Rightarrow> 'r rd \<Rightarrow> ('b \<Rightarrow> 'r \<Rightarrow> ('b \<times> 'r) result) \<Rightarrow> 'b multi_bitset_manager \<Rightarrow> 'r \<Rightarrow> ('b multi_bitset_manager \<times> 'r) result" where
  "MultiBitsetManager_Deserialize bm rd des m r =
     bindR (ReadObj rd 8 r) (\<lambda>(k, r).
     bindR (read_loop k (\<lambda>ids r. bindR (ReadObj rd 2 r) (\<lambda>(i, r). Inr (ids @ [as_int16 i], r))) [] r) (\<lambda>(ids, r).
     bindR (ReadObj rd 8 r) (\<lambda>(n, r).
     bindR (read_loop n (\<lambda>bs r. bindR (des (bm_new bm) r) (\<lambda>(b, r). Inr (bs @ [b], r))) [] r) (\<lambda>(bs, r).
       Inr (m\<lparr>mb_count := k, mb_bitset_map := ids, mb_bitsets := bs\<rparr>, r)))))"

definition MultiBitsetManager_GetMemoryUsage :: "nat \<Rightarrow> ('b \<Rightarrow> nat) \<Rightarrow> 'b multi_bitset_manager \<Rightarrow> nat" where
  "MultiBitsetManager_GetMemoryUsage sizeof_manager usage m =
     sizeof_manager + length (mb_bitsets m) * 8 + length (mb_bitset_map m) * 2 + sum_list (map usage (mb_bitsets m))"

section \<open>The values of a field\<close>

datatype attr_value_type = INT32 | UINT32 | INT64 | UINT64 | INT8 | UINT8 | INT16 | UINT16 | STRING

text \<open>A value of one of the integer types, or a string.\<close>

datatype attr_key = Num int | Str bytes

record attribute =
  at_name :: bytes
  at_type :: attr_value_type
  at_value :: "attr_key list"

text \<open>
  \<open>AttrValueMap\<close>: one hash map per type, which \<open>get_map_by_type\<close> selects. A manager in it is never null.
\<close>

type_synonym 'b attr_value_map = "attr_value_type \<Rightarrow> (attr_key \<times> 'b multi_bitset_manager) list"

definition AttrValueMap_new :: "'b attr_value_map" where
  "AttrValueMap_new = (\<lambda>T. [])"

definition ValueMap_Insert ::
  "'b bitset_methods \<Rightarrow> attr_value_type \<Rightarrow> attr_key \<Rightarrow> inner_id \<Rightarrow> nat \<Rightarrow> 'b attr_value_map \<Rightarrow> 'b attr_value_map result" where
  "ValueMap_Insert bm T v inner bucket vm =
     (let manager = (case map_of (vm T) v of None \<Rightarrow> MultiBitsetManager_new 1 | Some manager \<Rightarrow> manager)
      in bindR (InsertValue bm bucket inner True manager) (\<lambda>manager. Inr (vm(T := AList.update v manager (vm T)))))"

definition GetBitsetByValue :: "'b attr_value_map \<Rightarrow> attr_value_type \<Rightarrow> attr_key \<Rightarrow> 'b multi_bitset_manager option" where
  "GetBitsetByValue vm T v = map_of (vm T) v"

text \<open>\<open>Erase\<close> of an element from all values of a type, and from the given values.\<close>

fun erase_managers ::
  "'b bitset_methods \<Rightarrow> inner_id \<Rightarrow> nat \<Rightarrow> (attr_key \<times> 'b multi_bitset_manager) list \<Rightarrow> (attr_key \<times> 'b multi_bitset_manager) list result" where
  "erase_managers bm inner bucket [] = Inr []"
| "erase_managers bm inner bucket ((v, manager) # ms) =
     bindR (set_in_bucket bm bucket inner False manager) (\<lambda>manager.
     bindR (erase_managers bm inner bucket ms) (\<lambda>ms. Inr ((v, manager) # ms)))"

definition ValueMap_Erase :: "'b bitset_methods \<Rightarrow> attr_value_type \<Rightarrow> inner_id \<Rightarrow> nat \<Rightarrow> 'b attr_value_map \<Rightarrow> 'b attr_value_map result" where
  "ValueMap_Erase bm T inner bucket vm = bindR (erase_managers bm inner bucket (vm T)) (\<lambda>ms. Inr (vm(T := ms)))"

definition erase_value :: "'b bitset_methods \<Rightarrow> attr_value_type \<Rightarrow> inner_id \<Rightarrow> nat \<Rightarrow> attr_key \<Rightarrow> 'b attr_value_map \<Rightarrow> 'b attr_value_map result" where
  "erase_value bm T inner bucket v vm =
     (case map_of (vm T) v of None \<Rightarrow> Inr vm
      | Some manager \<Rightarrow> bindR (set_in_bucket bm bucket inner False manager) (\<lambda>manager. Inr (vm(T := AList.update v manager (vm T)))))"

definition ValueMap_Erase_attr :: "'b bitset_methods \<Rightarrow> inner_id \<Rightarrow> attribute \<Rightarrow> nat \<Rightarrow> 'b attr_value_map \<Rightarrow> 'b attr_value_map result" where
  "ValueMap_Erase_attr bm inner attr bucket vm = foldR (erase_value bm (at_type attr) inner bucket) (at_value attr) vm"

fun values_at :: "'b bitset_methods \<Rightarrow> inner_id \<Rightarrow> nat \<Rightarrow> (attr_key \<times> 'b multi_bitset_manager) list \<Rightarrow> attr_key list result" where
  "values_at bm inner bucket [] = Inr []"
| "values_at bm inner bucket ((v, manager) # ms) =
     bindR (GetOneBitset manager bucket) (\<lambda>bitset.
     bindR (case bitset of None \<Rightarrow> Inr False | Some b \<Rightarrow> bm_Test bm (int inner) b) (\<lambda>hit.
     bindR (values_at bm inner bucket ms) (\<lambda>vs. Inr (if hit then v # vs else vs))))"

text \<open>\<open>GetAttr\<close>: a null pointer when no value is found.\<close>

definition ValueMap_GetAttr :: "'b bitset_methods \<Rightarrow> attr_value_type \<Rightarrow> inner_id \<Rightarrow> nat \<Rightarrow> 'b attr_value_map \<Rightarrow> attribute option result" where
  "ValueMap_GetAttr bm T inner bucket vm =
     bindR (values_at bm inner bucket (vm T)) (\<lambda>vs. Inr (if vs = [] then None else Some \<lparr>at_name = [], at_type = T, at_value = vs\<rparr>))"

section \<open>The attribute index\<close>

record 'b attr_index =
  ai_field_type_map :: "(bytes \<times> attr_value_type) list"
  ai_field_2_value_map :: "(bytes \<times> 'b attr_value_map) list"

definition AttributeIndex_new :: "'b attr_index" where
  "AttributeIndex_new = \<lparr>ai_field_type_map = [], ai_field_2_value_map = []\<rparr>"

definition GetTypeOfField :: "'b attr_index \<Rightarrow> bytes \<Rightarrow> attr_value_type result" where
  "GetTypeOfField x field_name = (case map_of (ai_field_type_map x) field_name of None \<Rightarrow> Inl (Throw INTERNAL_ERROR) | Some T \<Rightarrow> Inr T)"

definition SetTypeOfField :: "bytes \<Rightarrow> attr_value_type \<Rightarrow> 'b attr_index \<Rightarrow> 'b attr_index" where
  "SetTypeOfField field_name T x = x\<lparr>ai_field_type_map := AList.update field_name T (ai_field_type_map x)\<rparr>"

text \<open>The dispatch on the type only selects the map.\<close>

definition insert_by_type :: "'b bitset_methods \<Rightarrow> attribute \<Rightarrow> inner_id \<Rightarrow> nat \<Rightarrow> 'b attr_value_map \<Rightarrow> 'b attr_value_map result" where
  "insert_by_type bm attr inner bucket vm = foldR (\<lambda>v. ValueMap_Insert bm (at_type attr) v inner bucket) (at_value attr) vm"

definition insert_attr :: "'b bitset_methods \<Rightarrow> inner_id \<Rightarrow> nat \<Rightarrow> attribute \<Rightarrow> 'b attr_index \<Rightarrow> 'b attr_index result" where
  "insert_attr bm inner bucket attr x =
     (let vm = (case map_of (ai_field_2_value_map x) (at_name attr) of None \<Rightarrow> AttrValueMap_new | Some vm \<Rightarrow> vm);
          x = SetTypeOfField (at_name attr) (at_type attr) x
      in bindR (insert_by_type bm attr inner bucket vm) (\<lambda>vm.
           Inr (x\<lparr>ai_field_2_value_map := AList.update (at_name attr) vm (ai_field_2_value_map x)\<rparr>)))"

definition AttributeIndex_Insert :: "'b bitset_methods \<Rightarrow> attribute list \<Rightarrow> inner_id \<Rightarrow> nat \<Rightarrow> 'b attr_index \<Rightarrow> 'b attr_index result" where
  "AttributeIndex_Insert bm attr_set inner bucket x = foldR (insert_attr bm inner bucket) attr_set x"

definition GetBitsetsByAttr :: "'b attr_index \<Rightarrow> attribute \<Rightarrow> 'b multi_bitset_manager option list" where
  "GetBitsetsByAttr x attr =
     (case map_of (ai_field_2_value_map x) (at_name attr) of None \<Rightarrow> replicate (length (at_value attr)) None
      | Some vm \<Rightarrow> map (GetBitsetByValue vm (at_type attr)) (at_value attr))"

text \<open>
  \<open>field_2_value_map_[name]\<close> of an unknown field is a null pointer, which is then used. (Only the insertion of an
  attribute without values would not use it, and leave it in the map, where \<open>GetAttribute\<close> fails on it.)
\<close>

definition change_field :: "bytes \<Rightarrow> ('b attr_value_map \<Rightarrow> 'b attr_value_map result) \<Rightarrow> 'b attr_index \<Rightarrow> 'b attr_index result" where
  "change_field name f x =
     (case map_of (ai_field_2_value_map x) name of None \<Rightarrow> Inl UB
      | Some vm \<Rightarrow> bindR (f vm) (\<lambda>vm. Inr (x\<lparr>ai_field_2_value_map := AList.update name vm (ai_field_2_value_map x)\<rparr>)))"

definition UpdateBitsetsByAttr :: "'b bitset_methods \<Rightarrow> attribute list \<Rightarrow> inner_id \<Rightarrow> nat \<Rightarrow> 'b attr_index \<Rightarrow> 'b attr_index result" where
  "UpdateBitsetsByAttr bm attributes offset bucket x =
     foldR (\<lambda>attr. change_field (at_name attr) (\<lambda>vm.
       bindR (ValueMap_Erase bm (at_type attr) offset bucket vm) (insert_by_type bm attr offset bucket))) attributes x"

definition UpdateBitsetsByAttr_origin ::
  "'b bitset_methods \<Rightarrow> attribute list \<Rightarrow> inner_id \<Rightarrow> nat \<Rightarrow> attribute list \<Rightarrow> 'b attr_index \<Rightarrow> 'b attr_index result" where
  "UpdateBitsetsByAttr_origin bm attributes offset bucket origin_attributes x =
     bindR (foldR (\<lambda>attr. change_field (at_name attr) (ValueMap_Erase_attr bm offset attr bucket)) origin_attributes x)
       (foldR (\<lambda>attr. change_field (at_name attr) (insert_by_type bm attr offset bucket)) attributes)"

fun get_attributes ::
  "'b bitset_methods \<Rightarrow> 'b attr_index \<Rightarrow> nat \<Rightarrow> inner_id \<Rightarrow> (bytes \<times> 'b attr_value_map) list \<Rightarrow> attribute list result" where
  "get_attributes bm x bucket inner [] = Inr []"
| "get_attributes bm x bucket inner ((name, vm) # ms) =
     bindR (GetTypeOfField x name) (\<lambda>T.
     bindR (ValueMap_GetAttr bm T inner bucket vm) (\<lambda>attr.
     bindR (get_attributes bm x bucket inner ms) (\<lambda>attrs.
       Inr (case attr of None \<Rightarrow> attrs | Some attr \<Rightarrow> attr\<lparr>at_name := name\<rparr> # attrs))))"

definition GetAttribute :: "'b bitset_methods \<Rightarrow> nat \<Rightarrow> inner_id \<Rightarrow> 'b attr_index \<Rightarrow> attribute list result" where
  "GetAttribute bm bucket inner x = get_attributes bm x bucket inner (ai_field_2_value_map x)"

section \<open>The contract of a bitset\<close>

locale attr_bitset =
  fixes bm :: "'b bitset_methods"
    and inv :: "'b \<Rightarrow> bool"
    and bits :: "'b \<Rightarrow> nat \<Rightarrow> bool"
  assumes new_ok: "inv (bm_new bm) \<and> \<not> bits (bm_new bm) p"
    and set_ok: "inv b \<Longrightarrow> p < 2 ^ 32 - 64 \<Longrightarrow> \<exists>b'. bm_Set bm (int p) v b = Inr b' \<and> inv b' \<and> bits b' = (bits b)(p := v)"
    and test_ok: "inv b \<Longrightarrow> p < 2 ^ 32 - 64 \<Longrightarrow> bm_Test bm (int p) b = Inr (bits b p)"
    and or_ok: "inv b \<Longrightarrow> pred_option inv a \<Longrightarrow> inv (bm_Or bm b a) \<and> bits (bm_Or bm b a) p = (bits b p \<or> (\<exists>c. a = Some c \<and> bits c p))"
    and and_ok: "inv b \<Longrightarrow> inv c \<Longrightarrow> inv (bm_And bm b (Some c)) \<and> bits (bm_And bm b (Some c)) p = (bits b p \<and> bits c p)"
    and not_ok: "bm_type bm = FAST_BITSET \<Longrightarrow> inv b \<Longrightarrow> inv (bm_Not bm b) \<and> bits (bm_Not bm b) p = (\<not> bits b p)"
    and clear_ok: "inv b \<Longrightarrow> inv (bm_Clear bm b) \<and> \<not> bits (bm_Clear bm b) p"
begin

text \<open>A manager: the buckets with a bitset are numbered without repetition.\<close>

definition mb_used :: "'b multi_bitset_manager \<Rightarrow> nat set" where
  "mb_used m = {j. j < mb_count m \<and> mb_bitset_map m ! j \<noteq> - 1}"

definition mb_inv :: "'b multi_bitset_manager \<Rightarrow> bool" where
  "mb_inv m \<longleftrightarrow> length (mb_bitset_map m) = mb_count m \<and> mb_count m \<le> 2 ^ 15 \<and> (\<forall>b\<in>set (mb_bitsets m). inv b) \<and>
     card (mb_used m) = length (mb_bitsets m) \<and> inj_on ((!) (mb_bitset_map m)) (mb_used m) \<and>
     (\<forall>j\<in>mb_used m. 0 \<le> mb_bitset_map m ! j \<and> nat (mb_bitset_map m ! j) < length (mb_bitsets m))"

definition mb_has :: "'b multi_bitset_manager \<Rightarrow> nat \<Rightarrow> inner_id \<Rightarrow> bool" where
  "mb_has m j p \<longleftrightarrow> j \<in> mb_used m \<and> bits (mb_bitsets m ! nat (mb_bitset_map m ! j)) p"

lemma mb_new_ok: "k \<le> 2 ^ 15 \<Longrightarrow> mb_inv (MultiBitsetManager_new k)" "\<not> mb_has (MultiBitsetManager_new k) j p"
  by (auto simp: mb_inv_def mb_has_def mb_used_def MultiBitsetManager_new_def inj_on_def)

lemma GetOneBitset_ok:
  assumes "mb_inv m"
  shows "\<exists>b. GetOneBitset m j = Inr b \<and> pred_option inv b \<and> (\<forall>p. mb_has m j p \<longleftrightarrow> (\<exists>c. b = Some c \<and> bits c p))"
proof (cases "j \<in> mb_used m")
  case True
  then have "j < mb_count m" "mb_bitset_map m ! j \<noteq> - 1" "0 \<le> mb_bitset_map m ! j" "nat (mb_bitset_map m ! j) < length (mb_bitsets m)"
    using assms by (auto simp: mb_inv_def mb_used_def)
  then show ?thesis using assms True by (auto simp: GetOneBitset_def Let_def mb_inv_def mb_has_def)
next
  case False
  then show ?thesis using assms by (auto simp: GetOneBitset_def Let_def mb_inv_def mb_has_def mb_used_def)
qed

lemma SetNewCount_ok:
  assumes "mb_inv m" "k \<le> 2 ^ 15"
  shows "mb_inv (SetNewCount k m)" "mb_has (SetNewCount k m) = mb_has m" "mb_count (SetNewCount k m) = max k (mb_count m)"
proof -
  let ?m = "SetNewCount k m"
  have len: "length (mb_bitset_map m) = mb_count m" using assms by (simp add: mb_inv_def)
  have used: "mb_used ?m = mb_used m" and slot: "\<forall>j\<in>mb_used m. mb_bitset_map ?m ! j = mb_bitset_map m ! j" and same: "mb_bitsets ?m = mb_bitsets m"
    using len by (auto simp: mb_used_def SetNewCount_def split: if_splits)
  show "mb_has ?m = mb_has m" using used slot same by (auto simp: mb_has_def fun_eq_iff)
  show "mb_count ?m = max k (mb_count m)" by (simp add: SetNewCount_def)
  have "inj_on ((!) (mb_bitset_map ?m)) (mb_used m) \<longleftrightarrow> inj_on ((!) (mb_bitset_map m)) (mb_used m)"
    using slot by (intro inj_on_cong) auto
  moreover have "length (mb_bitset_map ?m) = mb_count ?m" "mb_count ?m \<le> 2 ^ 15" using assms len by (auto simp: SetNewCount_def mb_inv_def)
  ultimately show "mb_inv ?m" using assms slot unfolding mb_inv_def used same by simp
qed

text \<open>Storing a bit in a bucket that has a bitset.\<close>

lemma store_ok:
  assumes "mb_inv m" "j \<in> mb_used m" "p < 2 ^ 32 - 64"
  shows "\<exists>b m'. bm_Set bm (int p) v (mb_bitsets m ! nat (mb_bitset_map m ! j)) = Inr b \<and> m' = m\<lparr>mb_bitsets := (mb_bitsets m)[nat (mb_bitset_map m ! j) := b]\<rparr> \<and>
    mb_inv m' \<and> mb_has m' = (\<lambda>i q. if i = j \<and> q = p then v else mb_has m i q)"
proof -
  let ?i = "nat (mb_bitset_map m ! j)"
  have i: "?i < length (mb_bitsets m)" "0 \<le> mb_bitset_map m ! j" using assms by (auto simp: mb_inv_def)
  then have "inv (mb_bitsets m ! ?i)" using assms(1) by (simp add: mb_inv_def)
  from set_ok [OF this assms(3)] obtain b where b: "bm_Set bm (int p) v (mb_bitsets m ! ?i) = Inr b" "inv b" "bits b = (bits (mb_bitsets m ! ?i))(p := v)" by blast
  let ?m = "m\<lparr>mb_bitsets := (mb_bitsets m)[?i := b]\<rparr>"
  have used: "mb_used ?m = mb_used m" by (simp add: mb_used_def)
  have "mb_inv ?m" using assms(1) b(2) unfolding mb_inv_def used by (auto dest: set_update_subset_insert [THEN subsetD])
  moreover have "mb_has ?m i q = (if i = j \<and> q = p then v else mb_has m i q)" for i q
  proof (cases "i \<in> mb_used m")
    case True
    have "nat (mb_bitset_map m ! i) = ?i \<longleftrightarrow> i = j"
      using True assms(1,2) i(2) by (auto simp: mb_inv_def inj_on_def eq_nat_nat_iff)
    then show ?thesis using True used b(3) i(1) by (auto simp: mb_has_def nth_list_update)
  next
    case False
    then show ?thesis using used assms(2) by (auto simp: mb_has_def)
  qed
  ultimately show ?thesis using b(1) by (auto simp: fun_eq_iff)
qed

lemma as_int16_small: "k < 2 ^ 15 \<Longrightarrow> as_int16 k = int k"
  by (simp add: as_int16_def)

text \<open>The first bitset of a bucket.\<close>

lemma fresh_bitset_ok:
  assumes "mb_inv m" "j < mb_count m" "j \<notin> mb_used m"
  defines "m' \<equiv> m\<lparr>mb_bitset_map := (mb_bitset_map m)[j := as_int16 (length (mb_bitsets m))], mb_bitsets := mb_bitsets m @ [bm_new bm]\<rparr>"
  shows "mb_inv m'" "mb_has m' = mb_has m" "j \<in> mb_used m'"
proof -
  let ?n = "length (mb_bitsets m)"
  have fin: "finite (mb_used m)" by (simp add: mb_used_def)
  have "mb_used m \<subset> {..<mb_count m}" using assms(2,3) by (auto simp: mb_used_def)
  then have "card (mb_used m) < mb_count m" by (metis card_lessThan finite_lessThan psubset_card_mono)
  then have n: "as_int16 ?n = int ?n" using assms(1) by (intro as_int16_small) (auto simp: mb_inv_def)
  have len: "length (mb_bitset_map m) = mb_count m" using assms(1) by (simp add: mb_inv_def)
  have used: "mb_used m' = insert j (mb_used m)" using assms(2) len n by (auto simp: mb_used_def m'_def nth_list_update)
  have slot: "mb_bitset_map m' ! i = (if i = j then int ?n else mb_bitset_map m ! i)" for i
    using assms(2) len n by (auto simp: m'_def nth_list_update)
  have less: "\<forall>i\<in>mb_used m. 0 \<le> mb_bitset_map m ! i \<and> nat (mb_bitset_map m ! i) < ?n" using assms(1) unfolding mb_inv_def by blast
  have "inj_on ((!) (mb_bitset_map m')) (mb_used m)"
    using assms(1,3) slot by (subst inj_on_cong [where g = "(!) (mb_bitset_map m)"]) (auto simp: mb_inv_def)
  moreover have "mb_bitset_map m' ! i \<noteq> int ?n" if "i \<in> mb_used m" for i using that slot [of i] less assms(3) by auto
  then have "mb_bitset_map m' ! j \<notin> (!) (mb_bitset_map m') ` mb_used m" using slot [of j] by (metis imageE)
  ultimately have inj: "inj_on ((!) (mb_bitset_map m')) (mb_used m')" unfolding used using assms(3) by simp
  have "card (mb_used m') = length (mb_bitsets m')" using assms(1,3) fin unfolding used by (simp add: m'_def mb_inv_def)
  moreover have "\<forall>i\<in>mb_used m'. 0 \<le> mb_bitset_map m' ! i \<and> nat (mb_bitset_map m' ! i) < length (mb_bitsets m')"
    using less slot unfolding used by (auto simp: m'_def)
  ultimately show "mb_inv m'" using inj assms(1) new_ok unfolding mb_inv_def by (simp add: m'_def)
  show "j \<in> mb_used m'" using used by simp
  show "mb_has m' = mb_has m"
    using less slot new_ok assms(3) unfolding mb_has_def used by (auto simp: fun_eq_iff m'_def nth_append)
qed

lemma InsertValue_ok:
  assumes "mb_inv m" "j < 2 ^ 15" "p < 2 ^ 32 - 64"
  shows "\<exists>m'. InsertValue bm j p v m = Inr m' \<and> mb_inv m' \<and> mb_has m' = (\<lambda>i q. if i = j \<and> q = p then v else mb_has m i q)"
proof -
  define m1 where "m1 = (if j \<ge> mb_count m then SetNewCount (j + 1) m else m)"
  have m1: "mb_inv m1" "mb_has m1 = mb_has m" "j < mb_count m1" using SetNewCount_ok [OF assms(1), of "j + 1"] assms(1,2) by (auto simp: m1_def)
  have len: "length (mb_bitset_map m1) = mb_count m1" using m1(1) by (simp add: mb_inv_def)
  define m2 where "m2 = (if mb_bitset_map m1 ! j = - 1 then m1\<lparr>mb_bitset_map := (mb_bitset_map m1)[j := as_int16 (length (mb_bitsets m1))],
      mb_bitsets := mb_bitsets m1 @ [bm_new bm]\<rparr> else m1)"
  have m2: "mb_inv m2" "mb_has m2 = mb_has m" "j \<in> mb_used m2"
    using fresh_bitset_ok [OF m1(1,3)] m1 by (auto simp: m2_def mb_used_def)
  have slot: "(if mb_bitset_map m1 ! j = - 1 then as_int16 (length (mb_bitsets m1)) else mb_bitset_map m1 ! j) = mb_bitset_map m2 ! j"
    using m1(3) len by (simp add: m2_def)
  have ok: "\<not> (mb_bitset_map m2 ! j < 0 \<or> nat (mb_bitset_map m2 ! j) \<ge> length (mb_bitsets m2))" using m2(1,3) by (auto simp: mb_inv_def)
  from store_ok [OF m2(1,3) assms(3), of v] obtain b where
    b: "bm_Set bm (int p) v (mb_bitsets m2 ! nat (mb_bitset_map m2 ! j)) = Inr b"
      "mb_inv (m2\<lparr>mb_bitsets := (mb_bitsets m2)[nat (mb_bitset_map m2 ! j) := b]\<rparr>)"
      "mb_has (m2\<lparr>mb_bitsets := (mb_bitsets m2)[nat (mb_bitset_map m2 ! j) := b]\<rparr>) = (\<lambda>i q. if i = j \<and> q = p then v else mb_has m2 i q)" by blast
  have "InsertValue bm j p v m = (if mb_bitset_map m2 ! j < 0 \<or> nat (mb_bitset_map m2 ! j) \<ge> length (mb_bitsets m2) then Inl UB
      else bindR (bm_Set bm (int p) v (mb_bitsets m2 ! nat (mb_bitset_map m2 ! j))) (\<lambda>b. Inr (m2\<lparr>mb_bitsets := (mb_bitsets m2)[nat (mb_bitset_map m2 ! j) := b]\<rparr>)))"
    using m1(3) len slot unfolding InsertValue_def m1_def [symmetric] Let_def m2_def by (auto split: if_splits)
  then show ?thesis using ok b m2(2) by simp
qed

text \<open>The number of a bitset is an \<open>int16_t\<close>: a manager with a bitset in each of its first \<open>2 ^ 15\<close> buckets is full.\<close>

lemma full_manager:
  assumes "mb_inv m" "\<forall>j<2 ^ 15. mb_has m j p"
  shows "InsertValue bm (2 ^ 15) q v m = Inl UB"
proof -
  have sub: "{..<2 ^ 15} \<subseteq> mb_used m" using assms(2) by (auto simp: mb_has_def)
  have used: "mb_used m \<subseteq> {..<mb_count m}" by (auto simp: mb_used_def)
  have le: "mb_count m \<le> 2 ^ 15" "length (mb_bitset_map m) = mb_count m" using assms(1) by (auto simp: mb_inv_def)
  have cnt: "mb_count m = 2 ^ 15" using subset_trans [OF sub used] le(1) by (metis le_antisym lessThan_subset_iff)
  then have "mb_used m = {..<2 ^ 15}" using sub used by auto
  then have "length (mb_bitsets m) = 2 ^ 15" using assms(1) unfolding mb_inv_def by (metis card_lessThan)
  then have "as_int16 (length (mb_bitsets m)) < 0" by (simp add: as_int16_def)
  moreover have "SetNewCount (2 ^ 15 + 1) m = m\<lparr>mb_count := 2 ^ 15 + 1, mb_bitset_map := vec_resize (2 ^ 15 + 1) (- 1) (mb_bitset_map m)\<rparr>"
    using cnt by (simp add: SetNewCount_def)
  moreover have "vec_resize (k + 1) d xs ! k = d" if "length xs = k" for k and d :: int and xs using that by simp
  from this [of "mb_bitset_map m" "2 ^ 15" "- 1"] have "vec_resize (2 ^ 15 + 1) (- 1) (mb_bitset_map m) ! (2 ^ 15) = - 1" using cnt le(2) by simp
  ultimately show ?thesis using cnt by (simp add: InsertValue_def Let_def)
qed

lemma fill_manager:
  assumes "n \<le> 2 ^ 15"
  shows "\<exists>m. foldR (\<lambda>j. InsertValue bm j 0 True) [0..<n] (MultiBitsetManager_new 1) = Inr m \<and> mb_inv m \<and> (\<forall>j<n. mb_has m j 0)"
proof (rule foldR_upt_invariant)
  show "mb_inv (MultiBitsetManager_new 1) \<and> (\<forall>j<0. mb_has (MultiBitsetManager_new 1) j 0)" using mb_new_ok(1) by simp
next
  fix i m
  assume "i < n" "mb_inv m \<and> (\<forall>j<i. mb_has m j 0)"
  then show "\<exists>m'. InsertValue bm i 0 True m = Inr m' \<and> mb_inv m' \<and> (\<forall>j<Suc i. mb_has m' j 0)"
    using InsertValue_ok [of m i 0 True] assms by (auto simp: less_Suc_eq)
qed

lemma set_in_bucket_ok:
  assumes "mb_inv m" "p < 2 ^ 32 - 64"
  shows "\<exists>m'. set_in_bucket bm j p False m = Inr m' \<and> mb_inv m' \<and> mb_has m' = (\<lambda>i q. mb_has m i q \<and> \<not> (i = j \<and> q = p))"
proof (cases "j \<in> mb_used m")
  case True
  then have "GetOneBitset m j = Inr (Some (mb_bitsets m ! nat (mb_bitset_map m ! j)))"
    using assms(1) by (auto simp: GetOneBitset_def Let_def mb_inv_def mb_used_def not_le)
  then show ?thesis using store_ok [OF assms(1) True assms(2), of False] by (auto simp: set_in_bucket_def fun_eq_iff)
next
  case False
  then have "GetOneBitset m j = Inr None" using assms(1) by (auto simp: GetOneBitset_def Let_def mb_inv_def mb_used_def)
  then show ?thesis using False assms(1) by (auto simp: set_in_bucket_def mb_has_def fun_eq_iff)
qed

text \<open>The values of a field: who has which value.\<close>

definition avm_has :: "'b attr_value_map \<Rightarrow> attr_value_type \<Rightarrow> attr_key \<Rightarrow> nat \<Rightarrow> inner_id \<Rightarrow> bool" where
  "avm_has vm T v j p \<longleftrightarrow> (\<exists>m. map_of (vm T) v = Some m \<and> mb_has m j p)"

definition avm_inv :: "'b attr_value_map \<Rightarrow> bool" where
  "avm_inv vm \<longleftrightarrow> (\<forall>T. distinct (map fst (vm T)) \<and> (\<forall>m\<in>snd ` set (vm T). mb_inv m))"

lemma avm_inv_manager: "avm_inv vm \<Longrightarrow> map_of (vm T) v = Some m \<Longrightarrow> mb_inv m"
  unfolding avm_inv_def by (force dest: map_of_SomeD)

lemma avm_new_ok: "avm_inv AttrValueMap_new" "\<not> avm_has AttrValueMap_new T v j p"
  by (simp_all add: avm_inv_def avm_has_def AttrValueMap_new_def)

lemma avm_update_ok:
  assumes "avm_inv vm" "mb_inv m"
  shows "avm_inv (vm(T := AList.update v m (vm T)))"
    and "avm_has (vm(T := AList.update v m (vm T))) T' v' = (if T' = T \<and> v' = v then mb_has m else avm_has vm T' v')"
proof -
  have "snd ` set (AList.update v m xs) \<subseteq> insert m (snd ` set xs)" for xs by (induction xs) auto
  then have "\<forall>m'\<in>snd ` set (AList.update v m (vm T)). mb_inv m'" using assms unfolding avm_inv_def by blast
  then show "avm_inv (vm(T := AList.update v m (vm T)))" using assms by (simp add: avm_inv_def distinct_update)
  show "avm_has (vm(T := AList.update v m (vm T))) T' v' = (if T' = T \<and> v' = v then mb_has m else avm_has vm T' v')"
    by (cases "T' = T") (auto simp: avm_has_def update_conv' intro!: ext)
qed

lemma ValueMap_Insert_ok:
  assumes "avm_inv vm" "bucket < 2 ^ 15" "inner < 2 ^ 32 - 64"
  shows "\<exists>vm'. ValueMap_Insert bm T v inner bucket vm = Inr vm' \<and> avm_inv vm' \<and>
    (\<forall>T' v' j p. avm_has vm' T' v' j p \<longleftrightarrow> avm_has vm T' v' j p \<or> T' = T \<and> v' = v \<and> j = bucket \<and> p = inner)"
proof -
  define m where "m = (case map_of (vm T) v of None \<Rightarrow> MultiBitsetManager_new 1 | Some manager \<Rightarrow> manager)"
  have m: "mb_inv m" "mb_has m = avm_has vm T v"
    using avm_inv_manager [OF assms(1)] mb_new_ok by (auto simp: m_def avm_has_def split: option.splits intro!: ext)
  from InsertValue_ok [OF m(1) assms(2,3), of True] obtain m' where m': "InsertValue bm bucket inner True m = Inr m'" "mb_inv m'"
    "mb_has m' = (\<lambda>i q. if i = bucket \<and> q = inner then True else mb_has m i q)" by blast
  have "ValueMap_Insert bm T v inner bucket vm = Inr (vm(T := AList.update v m' (vm T)))"
    using m'(1) by (simp add: ValueMap_Insert_def m_def [symmetric])
  then show ?thesis using avm_update_ok [OF assms(1) m'(2), of T v] m'(3) m(2) by auto
qed

lemma erase_managers_ok:
  assumes "\<forall>m\<in>snd ` set ms. mb_inv m" "inner < 2 ^ 32 - 64"
  shows "\<exists>ms'. erase_managers bm inner bucket ms = Inr ms' \<and> map fst ms' = map fst ms \<and> (\<forall>m\<in>snd ` set ms'. mb_inv m) \<and>
    (\<forall>v. (map_of ms' v = None \<longleftrightarrow> map_of ms v = None) \<and>
      (\<forall>m. map_of ms v = Some m \<longrightarrow> (\<exists>m'. map_of ms' v = Some m' \<and> mb_has m' = (\<lambda>i q. mb_has m i q \<and> \<not> (i = bucket \<and> q = inner)))))"
  using assms(1)
proof (induction ms)
  case (Cons vm ms)
  obtain v m where vm: "vm = (v, m)" by fastforce
  obtain m' where m': "set_in_bucket bm bucket inner False m = Inr m'" "mb_inv m'" "mb_has m' = (\<lambda>i q. mb_has m i q \<and> \<not> (i = bucket \<and> q = inner))"
    using set_in_bucket_ok [OF _ assms(2), of m bucket] Cons.prems vm by auto
  obtain ms' where "erase_managers bm inner bucket ms = Inr ms'" "map fst ms' = map fst ms" "\<forall>m\<in>snd ` set ms'. mb_inv m"
    "\<forall>v. (map_of ms' v = None \<longleftrightarrow> map_of ms v = None) \<and>
      (\<forall>m. map_of ms v = Some m \<longrightarrow> (\<exists>m'. map_of ms' v = Some m' \<and> mb_has m' = (\<lambda>i q. mb_has m i q \<and> \<not> (i = bucket \<and> q = inner))))"
    using Cons by auto
  then show ?case using m' vm by (intro exI [of _ "(v, m') # ms'"]) auto
qed simp

lemma ValueMap_Erase_ok:
  assumes "avm_inv vm" "inner < 2 ^ 32 - 64"
  shows "\<exists>vm'. ValueMap_Erase bm T inner bucket vm = Inr vm' \<and> avm_inv vm' \<and>
    (\<forall>T' v j p. avm_has vm' T' v j p \<longleftrightarrow> avm_has vm T' v j p \<and> \<not> (T' = T \<and> j = bucket \<and> p = inner))"
proof -
  have "\<forall>m\<in>snd ` set (vm T). mb_inv m" using assms(1) by (simp add: avm_inv_def)
  from erase_managers_ok [OF this assms(2), of bucket] obtain ms' where ms': "erase_managers bm inner bucket (vm T) = Inr ms'"
    "map fst ms' = map fst (vm T)" "\<forall>m\<in>snd ` set ms'. mb_inv m"
    "\<forall>v. (map_of ms' v = None \<longleftrightarrow> map_of (vm T) v = None) \<and>
      (\<forall>m. map_of (vm T) v = Some m \<longrightarrow> (\<exists>m'. map_of ms' v = Some m' \<and> mb_has m' = (\<lambda>i q. mb_has m i q \<and> \<not> (i = bucket \<and> q = inner))))" by blast
  have "avm_inv (vm(T := ms'))" using assms(1) ms'(2,3) by (simp add: avm_inv_def)
  moreover have "avm_has (vm(T := ms')) T' v j p \<longleftrightarrow> avm_has vm T' v j p \<and> \<not> (T' = T \<and> j = bucket \<and> p = inner)" for T' v j p
  proof (cases "T' = T")
    case True
    show ?thesis
    proof (cases "map_of (vm T) v")
      case None
      then have "map_of ms' v = None" using ms'(4) by blast
      then show ?thesis using True None by (simp add: avm_has_def)
    next
      case (Some m)
      then obtain m' where "map_of ms' v = Some m'" "mb_has m' = (\<lambda>i q. mb_has m i q \<and> \<not> (i = bucket \<and> q = inner))" using ms'(4) by blast
      then show ?thesis using True Some by (auto simp: avm_has_def)
    qed
  qed (simp add: avm_has_def)
  ultimately show ?thesis using ms'(1) by (auto simp: ValueMap_Erase_def)
qed

lemma erase_value_ok:
  assumes "avm_inv vm" "inner < 2 ^ 32 - 64"
  shows "\<exists>vm'. erase_value bm T inner bucket v vm = Inr vm' \<and> avm_inv vm' \<and>
    (\<forall>T' w j p. avm_has vm' T' w j p \<longleftrightarrow> avm_has vm T' w j p \<and> \<not> (T' = T \<and> w = v \<and> j = bucket \<and> p = inner))"
proof (cases "map_of (vm T) v")
  case None
  then show ?thesis using assms(1) by (auto simp: erase_value_def avm_has_def)
next
  case (Some m)
  from set_in_bucket_ok [OF avm_inv_manager [OF assms(1) Some] assms(2), of bucket] obtain m' where
    m': "set_in_bucket bm bucket inner False m = Inr m'" "mb_inv m'" "mb_has m' = (\<lambda>i q. mb_has m i q \<and> \<not> (i = bucket \<and> q = inner))" by blast
  have "avm_has vm T v = mb_has m" using Some by (auto simp: avm_has_def intro!: ext)
  then show ?thesis using Some m'(1,3) avm_update_ok [OF assms(1) m'(2), of T v]
    by (intro exI [of _ "vm(T := AList.update v m' (vm T))"]) (auto simp: erase_value_def)
qed

lemma erase_values_ok:
  assumes "inner < 2 ^ 32 - 64"
  shows "avm_inv vm \<Longrightarrow> \<exists>vm'. foldR (erase_value bm T inner bucket) vs vm = Inr vm' \<and> avm_inv vm' \<and>
    (\<forall>T' w j p. avm_has vm' T' w j p \<longleftrightarrow> avm_has vm T' w j p \<and> \<not> (T' = T \<and> w \<in> set vs \<and> j = bucket \<and> p = inner))"
proof (induction vs arbitrary: vm)
  case (Cons v vs)
  from erase_value_ok [OF Cons.prems assms] obtain vm1 where vm1: "erase_value bm T inner bucket v vm = Inr vm1" "avm_inv vm1"
    "\<forall>T' w j p. avm_has vm1 T' w j p \<longleftrightarrow> avm_has vm T' w j p \<and> \<not> (T' = T \<and> w = v \<and> j = bucket \<and> p = inner)" by blast
  from Cons.IH [OF vm1(2)] show ?case using vm1(1,3) by auto
qed simp

lemma insert_values_ok:
  assumes "bucket < 2 ^ 15" "inner < 2 ^ 32 - 64"
  shows "avm_inv vm \<Longrightarrow> \<exists>vm'. foldR (\<lambda>v. ValueMap_Insert bm T v inner bucket) vs vm = Inr vm' \<and> avm_inv vm' \<and>
    (\<forall>T' w j p. avm_has vm' T' w j p \<longleftrightarrow> avm_has vm T' w j p \<or> T' = T \<and> w \<in> set vs \<and> j = bucket \<and> p = inner)"
proof (induction vs arbitrary: vm)
  case (Cons v vs)
  from ValueMap_Insert_ok [OF Cons.prems assms] obtain vm1 where vm1: "ValueMap_Insert bm T v inner bucket vm = Inr vm1" "avm_inv vm1"
    "\<forall>T' w j p. avm_has vm1 T' w j p \<longleftrightarrow> avm_has vm T' w j p \<or> T' = T \<and> w = v \<and> j = bucket \<and> p = inner" by blast
  from Cons.IH [OF vm1(2)] show ?case using vm1(1,3) by auto
qed simp

lemma values_at_ok:
  assumes "\<forall>m\<in>snd ` set ms. mb_inv m" "inner < 2 ^ 32 - 64"
  shows "\<exists>vs. values_at bm inner bucket ms = Inr vs \<and> set vs = {v. \<exists>m. (v, m) \<in> set ms \<and> mb_has m bucket inner}"
  using assms(1)
proof (induction ms)
  case (Cons vm ms)
  obtain v m where vm: "vm = (v, m)" by fastforce
  then obtain b where b: "GetOneBitset m bucket = Inr b" "pred_option inv b" "\<forall>p. mb_has m bucket p \<longleftrightarrow> (\<exists>c. b = Some c \<and> bits c p)"
    using GetOneBitset_ok [of m bucket] Cons.prems by auto
  have hit: "(case b of None \<Rightarrow> Inr False | Some b \<Rightarrow> bm_Test bm (int inner) b) = Inr (mb_has m bucket inner)"
    using b(2,3) test_ok [OF _ assms(2)] by (auto split: option.splits)
  obtain vs where "values_at bm inner bucket ms = Inr vs" "set vs = {v. \<exists>m. (v, m) \<in> set ms \<and> mb_has m bucket inner}"
    using Cons by auto
  then show ?case using vm b(1) hit by auto
qed simp

lemma ValueMap_GetAttr_ok:
  assumes "avm_inv vm" "inner < 2 ^ 32 - 64"
  shows "\<exists>a. ValueMap_GetAttr bm T inner bucket vm = Inr a \<and>
    (case a of None \<Rightarrow> {v. avm_has vm T v bucket inner} = {}
     | Some attr \<Rightarrow> at_type attr = T \<and> set (at_value attr) = {v. avm_has vm T v bucket inner} \<and> at_value attr \<noteq> [])"
proof -
  have "\<forall>m\<in>snd ` set (vm T). mb_inv m" and d: "distinct (map fst (vm T))" using assms(1) by (simp_all add: avm_inv_def)
  from values_at_ok [OF this(1) assms(2), of bucket] obtain vs where vs: "values_at bm inner bucket (vm T) = Inr vs"
    "set vs = {v. \<exists>m. (v, m) \<in> set (vm T) \<and> mb_has m bucket inner}" by blast
  have "set vs = {v. avm_has vm T v bucket inner}" using vs(2) d by (auto simp: avm_has_def)
  then show ?thesis using vs(1) by (auto simp: ValueMap_GetAttr_def)
qed

text \<open>The index: who has which value in which field.\<close>

definition ai_has :: "'b attr_index \<Rightarrow> bytes \<Rightarrow> attr_value_type \<Rightarrow> attr_key \<Rightarrow> nat \<Rightarrow> inner_id \<Rightarrow> bool" where
  "ai_has x f T v j p \<longleftrightarrow> (\<exists>vm. map_of (ai_field_2_value_map x) f = Some vm \<and> avm_has vm T v j p)"

definition ai_inv :: "'b attr_index \<Rightarrow> bool" where
  "ai_inv x \<longleftrightarrow> distinct (map fst (ai_field_2_value_map x)) \<and> distinct (map fst (ai_field_type_map x)) \<and> (\<forall>vm\<in>snd ` set (ai_field_2_value_map x). avm_inv vm) \<and>
     dom (map_of (ai_field_2_value_map x)) = dom (map_of (ai_field_type_map x))"

lemma ai_inv_field: "ai_inv x \<Longrightarrow> map_of (ai_field_2_value_map x) f = Some vm \<Longrightarrow> avm_inv vm"
  unfolding ai_inv_def by (force dest: map_of_SomeD)

text \<open>A field gets new values.\<close>

lemma update_field_ok:
  assumes "ai_inv x" "avm_inv vm" "y = x\<lparr>ai_field_2_value_map := AList.update f vm (ai_field_2_value_map x), ai_field_type_map := tm\<rparr>"
    and "dom (map_of tm) = insert f (dom (map_of (ai_field_2_value_map x)))" "distinct (map fst tm)"
  shows "ai_inv y" "ai_has y f' = (if f' = f then avm_has vm else ai_has x f')"
proof -
  have "snd ` set (AList.update f vm xs) \<subseteq> insert vm (snd ` set xs)" for xs by (induction xs) auto
  then have "snd ` set (ai_field_2_value_map y) \<subseteq> insert vm (snd ` set (ai_field_2_value_map x))" using assms(3) by simp
  then have "\<forall>vm\<in>snd ` set (ai_field_2_value_map y). avm_inv vm" using assms(1,2) unfolding ai_inv_def by blast
  then show "ai_inv y" using assms by (simp add: ai_inv_def distinct_update update_conv')
  show "ai_has y f' = (if f' = f then avm_has vm else ai_has x f')"
    unfolding ai_has_def assms(3) by (auto simp: update_conv' intro!: ext)
qed

lemma insert_attr_ok:
  assumes "ai_inv x" "bucket < 2 ^ 15" "inner < 2 ^ 32 - 64"
  shows "\<exists>y. insert_attr bm inner bucket attr x = Inr y \<and> ai_inv y \<and> map_of (ai_field_type_map y) = (map_of (ai_field_type_map x))(at_name attr \<mapsto> at_type attr) \<and>
    (\<forall>f T v j p. ai_has y f T v j p \<longleftrightarrow> ai_has x f T v j p \<or> f = at_name attr \<and> T = at_type attr \<and> v \<in> set (at_value attr) \<and> j = bucket \<and> p = inner)"
proof -
  let ?f = "at_name attr"
  define vm where "vm = (case map_of (ai_field_2_value_map x) ?f of None \<Rightarrow> AttrValueMap_new | Some vm \<Rightarrow> vm)"
  have vm: "avm_inv vm" "avm_has vm T v j p \<longleftrightarrow> ai_has x ?f T v j p" for T v j p
    using ai_inv_field [OF assms(1)] avm_new_ok by (auto simp: vm_def ai_has_def split: option.splits)
  from insert_values_ok [OF assms(2,3) vm(1)] obtain vm' where vm': "insert_by_type bm attr inner bucket vm = Inr vm'" "avm_inv vm'"
    "\<forall>T v j p. avm_has vm' T v j p \<longleftrightarrow> avm_has vm T v j p \<or> T = at_type attr \<and> v \<in> set (at_value attr) \<and> j = bucket \<and> p = inner"
    unfolding insert_by_type_def by blast
  let ?tm = "AList.update ?f (at_type attr) (ai_field_type_map x)"
  define y where "y = x\<lparr>ai_field_2_value_map := AList.update ?f vm' (ai_field_2_value_map x), ai_field_type_map := ?tm\<rparr>"
  have "dom (map_of ?tm) = insert ?f (dom (map_of (ai_field_2_value_map x)))" using assms(1) by (auto simp: ai_inv_def update_conv')
  moreover have "distinct (map fst ?tm)" using assms(1) by (simp add: ai_inv_def distinct_update)
  ultimately have y: "ai_inv y" "\<And>f. ai_has y f = (if f = ?f then avm_has vm' else ai_has x f)"
    using update_field_ok [OF assms(1) vm'(2) y_def] by blast+
  have "insert_attr bm inner bucket attr x = Inr y"
    using vm'(1) by (simp add: insert_attr_def vm_def [symmetric] Let_def SetTypeOfField_def y_def)
  moreover have "map_of (ai_field_type_map y) = (map_of (ai_field_type_map x))(?f \<mapsto> at_type attr)" by (simp add: y_def update_conv')
  ultimately show ?thesis using y vm'(3) vm(2) by auto
qed

lemma change_field_ok:
  assumes "ai_inv x" "map_of (ai_field_type_map x) f \<noteq> None"
    and g: "\<forall>vm. avm_inv vm \<longrightarrow> (\<exists>vm'. g vm = Inr vm' \<and> avm_inv vm' \<and> (\<forall>T v j p. avm_has vm' T v j p \<longleftrightarrow> G T v j p (avm_has vm T v j p)))"
  shows "\<exists>y. change_field f g x = Inr y \<and> ai_inv y \<and> ai_field_type_map y = ai_field_type_map x \<and>
    (\<forall>f' T v j p. ai_has y f' T v j p \<longleftrightarrow> (if f' = f then G T v j p (ai_has x f' T v j p) else ai_has x f' T v j p))"
proof -
  have "map_of (ai_field_2_value_map x) f \<noteq> None" using assms(1,2) by (auto simp: ai_inv_def dom_def set_eq_iff)
  then obtain vm where vm: "map_of (ai_field_2_value_map x) f = Some vm" by blast
  obtain vm' where vm': "g vm = Inr vm'" "avm_inv vm'" "\<forall>T v j p. avm_has vm' T v j p \<longleftrightarrow> G T v j p (avm_has vm T v j p)"
    using g ai_inv_field [OF assms(1) vm] by blast
  define y where "y = x\<lparr>ai_field_2_value_map := AList.update f vm' (ai_field_2_value_map x), ai_field_type_map := ai_field_type_map x\<rparr>"
  have "dom (map_of (ai_field_type_map x)) = insert f (dom (map_of (ai_field_2_value_map x)))" using assms(1) vm by (auto simp: ai_inv_def)
  moreover have "distinct (map fst (ai_field_type_map x))" using assms(1) by (simp add: ai_inv_def)
  ultimately have y: "ai_inv y" "\<And>f'. ai_has y f' = (if f' = f then avm_has vm' else ai_has x f')"
    using update_field_ok [OF assms(1) vm'(2) y_def] by blast+
  have "change_field f g x = Inr y" using vm vm'(1) by (simp add: change_field_def y_def)
  moreover have "ai_field_type_map y = ai_field_type_map x" by (simp add: y_def)
  moreover have "ai_has x f T v j p \<longleftrightarrow> avm_has vm T v j p" for T v j p using vm by (simp add: ai_has_def)
  ultimately show ?thesis using y vm'(3) by auto
qed

lemma get_attributes_ok:
  assumes "\<forall>(f, vm)\<in>set ms. avm_inv vm \<and> map_of (ai_field_type_map x) f = Some (ty f)" "inner < 2 ^ 32 - 64"
  shows "\<exists>attrs. get_attributes bm x bucket inner ms = Inr attrs \<and>
    (\<lambda>a. (at_name a, at_type a, set (at_value a))) ` set attrs =
      {(f, ty f, {v. avm_has vm (ty f) v bucket inner}) |f vm. (f, vm) \<in> set ms \<and> {v. avm_has vm (ty f) v bucket inner} \<noteq> {}}"
  using assms(1)
proof (induction ms)
  case (Cons fm ms)
  obtain f vm where fm: "fm = (f, vm)" by fastforce
  have vm: "avm_inv vm" "GetTypeOfField x f = Inr (ty f)" using Cons.prems fm by (auto simp: GetTypeOfField_def)
  from ValueMap_GetAttr_ok [OF vm(1) assms(2), of "ty f" bucket] obtain a where a: "ValueMap_GetAttr bm (ty f) inner bucket vm = Inr a"
    "case a of None \<Rightarrow> {v. avm_has vm (ty f) v bucket inner} = {}
     | Some attr \<Rightarrow> at_type attr = ty f \<and> set (at_value attr) = {v. avm_has vm (ty f) v bucket inner} \<and> at_value attr \<noteq> []" by blast
  have "\<forall>(f, vm)\<in>set ms. avm_inv vm \<and> map_of (ai_field_type_map x) f = Some (ty f)" using Cons.prems by simp
  from Cons.IH [OF this] obtain attrs where r: "get_attributes bm x bucket inner ms = Inr attrs"
    "(\<lambda>a. (at_name a, at_type a, set (at_value a))) ` set attrs =
      {(f, ty f, {v. avm_has vm (ty f) v bucket inner}) |f vm. (f, vm) \<in> set ms \<and> {v. avm_has vm (ty f) v bucket inner} \<noteq> {}}" by blast
  have "get_attributes bm x bucket inner (fm # ms) = Inr (case a of None \<Rightarrow> attrs | Some attr \<Rightarrow> attr\<lparr>at_name := f\<rparr> # attrs)"
    using fm vm(2) a(1) r(1) by simp
  moreover have "(\<lambda>a. (at_name a, at_type a, set (at_value a))) ` set (case a of None \<Rightarrow> attrs | Some attr \<Rightarrow> attr\<lparr>at_name := f\<rparr> # attrs) =
      {(f, ty f, {v. avm_has vm (ty f) v bucket inner}) |f vm. (f, vm) \<in> set (fm # ms) \<and> {v. avm_has vm (ty f) v bucket inner} \<noteq> {}}"
  proof (cases a)
    case None
    then show ?thesis using a(2) r(2) fm by auto
  next
    case (Some attr)
    then have "set (at_value attr) = {v. avm_has vm (ty f) v bucket inner}" "at_value attr \<noteq> []" "at_type attr = ty f" using a(2) by auto
    moreover from this have ne: "{v. avm_has vm (ty f) v bucket inner} \<noteq> {}" by (metis set_empty)
    moreover have "at_name (attr\<lparr>at_name := f\<rparr>) = f" "at_type (attr\<lparr>at_name := f\<rparr>) = at_type attr" "at_value (attr\<lparr>at_name := f\<rparr>) = at_value attr" by simp_all
    ultimately have lhs: "(\<lambda>a. (at_name a, at_type a, set (at_value a))) ` set (case a of None \<Rightarrow> attrs | Some attr \<Rightarrow> attr\<lparr>at_name := f\<rparr> # attrs) =
      insert (f, ty f, {v. avm_has vm (ty f) v bucket inner})
        {(f, ty f, {v. avm_has vm (ty f) v bucket inner}) |f vm. (f, vm) \<in> set ms \<and> {v. avm_has vm (ty f) v bucket inner} \<noteq> {}}"
      using Some r(2) by (simp only: option.case list.set image_insert)
    show ?thesis unfolding lhs fm list.set using ne by blast
  qed
  ultimately show ?case by blast
qed simp

end

section \<open>Sequences of operations\<close>

text \<open>The operations of the index on an element of a bucket, and the table they denote.\<close>

datatype attr_op =
    AInsert "attribute list" inner_id nat
  | AUpdate "attribute list" inner_id nat
  | AReplace "attribute list" inner_id nat "attribute list"

fun exec_op :: "'b bitset_methods \<Rightarrow> attr_op \<Rightarrow> 'b attr_index \<Rightarrow> 'b attr_index result" where
  "exec_op bm (AInsert attrs inner bucket) x = AttributeIndex_Insert bm attrs inner bucket x"
| "exec_op bm (AUpdate attrs inner bucket) x = UpdateBitsetsByAttr bm attrs inner bucket x"
| "exec_op bm (AReplace attrs inner bucket origin) x = UpdateBitsetsByAttr_origin bm attrs inner bucket origin x"

type_synonym attr_table = "bytes \<Rightarrow> attr_value_type \<Rightarrow> attr_key \<Rightarrow> nat \<Rightarrow> inner_id \<Rightarrow> bool"

definition spec_add :: "nat \<Rightarrow> inner_id \<Rightarrow> attribute \<Rightarrow> attr_table \<Rightarrow> attr_table" where
  "spec_add bucket inner a R = (\<lambda>f T v j p. R f T v j p \<or> f = at_name a \<and> T = at_type a \<and> v \<in> set (at_value a) \<and> j = bucket \<and> p = inner)"

definition spec_drop :: "nat \<Rightarrow> inner_id \<Rightarrow> attribute \<Rightarrow> attr_table \<Rightarrow> attr_table" where
  "spec_drop bucket inner a R = (\<lambda>f T v j p. R f T v j p \<and> \<not> (f = at_name a \<and> T = at_type a \<and> j = bucket \<and> p = inner))"

definition spec_drop_values :: "nat \<Rightarrow> inner_id \<Rightarrow> attribute \<Rightarrow> attr_table \<Rightarrow> attr_table" where
  "spec_drop_values bucket inner a R = (\<lambda>f T v j p. R f T v j p \<and> \<not> (f = at_name a \<and> T = at_type a \<and> v \<in> set (at_value a) \<and> j = bucket \<and> p = inner))"

fun spec_op :: "attr_op \<Rightarrow> (bytes \<rightharpoonup> attr_value_type) \<times> attr_table \<Rightarrow> (bytes \<rightharpoonup> attr_value_type) \<times> attr_table" where
  "spec_op (AInsert attrs inner bucket) (ty, R) =
     (fold (\<lambda>a ty. ty(at_name a \<mapsto> at_type a)) attrs ty, fold (spec_add bucket inner) attrs R)"
| "spec_op (AUpdate attrs inner bucket) (ty, R) = (ty, fold (\<lambda>a R. spec_add bucket inner a (spec_drop bucket inner a R)) attrs R)"
| "spec_op (AReplace attrs inner bucket origin) (ty, R) =
     (ty, fold (spec_add bucket inner) attrs (fold (spec_drop_values bucket inner) origin R))"

text \<open>Updates name fields of the index; identifiers and buckets are in range.\<close>

fun op_ok :: "attr_op \<Rightarrow> (bytes \<rightharpoonup> attr_value_type) \<Rightarrow> bool" where
  "op_ok (AInsert attrs inner bucket) ty \<longleftrightarrow> bucket < 2 ^ 15 \<and> inner < 2 ^ 32 - 64"
| "op_ok (AUpdate attrs inner bucket) ty \<longleftrightarrow> bucket < 2 ^ 15 \<and> inner < 2 ^ 32 - 64 \<and> (\<forall>a\<in>set attrs. ty (at_name a) \<noteq> None)"
| "op_ok (AReplace attrs inner bucket origin) ty \<longleftrightarrow> bucket < 2 ^ 15 \<and> inner < 2 ^ 32 - 64 \<and> (\<forall>a\<in>set attrs \<union> set origin. ty (at_name a) \<noteq> None)"

fun ops_ok :: "attr_op list \<Rightarrow> (bytes \<rightharpoonup> attr_value_type) \<times> attr_table \<Rightarrow> bool" where
  "ops_ok [] s \<longleftrightarrow> True"
| "ops_ok (op # ops) s \<longleftrightarrow> op_ok op (fst s) \<and> ops_ok ops (spec_op op s)"

context attr_bitset
begin

definition ai_rel :: "'b attr_index \<Rightarrow> (bytes \<rightharpoonup> attr_value_type) \<times> attr_table \<Rightarrow> bool" where
  "ai_rel x s \<longleftrightarrow> ai_inv x \<and> map_of (ai_field_type_map x) = fst s \<and> (\<forall>f T v j p. ai_has x f T v j p \<longleftrightarrow> snd s f T v j p)"

lemma inserts_rel:
  assumes "bucket < 2 ^ 15" "inner < 2 ^ 32 - 64"
  shows "ai_rel x (ty, R) \<Longrightarrow> \<exists>y. AttributeIndex_Insert bm attrs inner bucket x = Inr y \<and> ai_rel y (spec_op (AInsert attrs inner bucket) (ty, R))"
  unfolding AttributeIndex_Insert_def
proof (induction attrs arbitrary: x ty R)
  case (Cons a attrs)
  have inv: "ai_inv x" and R: "map_of (ai_field_type_map x) = ty" "\<forall>f T v j p. ai_has x f T v j p \<longleftrightarrow> R f T v j p" using Cons.prems by (auto simp: ai_rel_def)
  from insert_attr_ok [OF inv assms, of a] obtain y where y: "insert_attr bm inner bucket a x = Inr y" "ai_rel y (ty(at_name a \<mapsto> at_type a), spec_add bucket inner a R)"
    using R by (auto simp: ai_rel_def spec_add_def)
  from Cons.IH [OF y(2)] show ?case using y(1) by (simp add: fun_upd_def)
qed simp

lemma changes_rel:
  assumes step: "\<forall>a\<in>set as. \<forall>vm. avm_inv vm \<longrightarrow> (\<exists>vm'. g a vm = Inr vm' \<and> avm_inv vm' \<and> (\<forall>T v j p. avm_has vm' T v j p \<longleftrightarrow> G a T v j p (avm_has vm T v j p)))"
  shows "ai_rel x (ty, R) \<Longrightarrow> \<forall>a\<in>set as. ty (at_name a) \<noteq> None \<Longrightarrow>
    \<exists>y. foldR (\<lambda>a. change_field (at_name a) (g a)) as x = Inr y \<and>
      ai_rel y (ty, fold (\<lambda>a R f T v j p. if f = at_name a then G a T v j p (R f T v j p) else R f T v j p) as R)"
  using step
proof (induction as arbitrary: x R)
  case (Cons a as)
  have inv: "ai_inv x" "map_of (ai_field_type_map x) (at_name a) \<noteq> None" and R: "map_of (ai_field_type_map x) = ty" "\<forall>f T v j p. ai_has x f T v j p \<longleftrightarrow> R f T v j p"
    using Cons.prems by (auto simp: ai_rel_def)
  have "\<forall>vm. avm_inv vm \<longrightarrow> (\<exists>vm'. g a vm = Inr vm' \<and> avm_inv vm' \<and> (\<forall>T v j p. avm_has vm' T v j p \<longleftrightarrow> G a T v j p (avm_has vm T v j p)))"
    using Cons.prems(3) by simp
  from change_field_ok [OF inv this] obtain y where y: "change_field (at_name a) (g a) x = Inr y"
    "ai_rel y (ty, \<lambda>f T v j p. if f = at_name a then G a T v j p (R f T v j p) else R f T v j p)" using R by (auto simp: ai_rel_def)
  have "\<exists>z. foldR (\<lambda>a. change_field (at_name a) (g a)) as y = Inr z \<and>
      ai_rel z (ty, fold (\<lambda>a R f T v j p. if f = at_name a then G a T v j p (R f T v j p) else R f T v j p) as
        (\<lambda>f T v j p. if f = at_name a then G a T v j p (R f T v j p) else R f T v j p))" using Cons.prems by (intro Cons.IH [OF y(2)]) auto
  then show ?case using y(1) by simp
qed (simp add: ai_rel_def)

lemma exec_op_rel:
  assumes "ai_rel x s" "op_ok op (fst s)"
  shows "\<exists>y. exec_op bm op x = Inr y \<and> ai_rel y (spec_op op s)"
proof -
  obtain ty R where s: "s = (ty, R)" by fastforce
  show ?thesis
  proof (cases op)
    case (AInsert attrs inner bucket)
    then show ?thesis using inserts_rel [of bucket inner x ty R attrs] assms s by simp
  next
    case (AUpdate attrs inner bucket)
    have b: "bucket < 2 ^ 15" "inner < 2 ^ 32 - 64" using assms(2) AUpdate by simp_all
    let ?g = "\<lambda>attr vm. bindR (ValueMap_Erase bm (at_type attr) inner bucket vm) (insert_by_type bm attr inner bucket)"
    let ?G = "\<lambda>a T v j p h. h \<and> \<not> (T = at_type a \<and> j = bucket \<and> p = inner) \<or> T = at_type a \<and> v \<in> set (at_value a) \<and> j = bucket \<and> p = inner"
    have "\<exists>vm'. ?g a vm = Inr vm' \<and> avm_inv vm' \<and> (\<forall>T v j p. avm_has vm' T v j p \<longleftrightarrow> ?G a T v j p (avm_has vm T v j p))" if "avm_inv vm" for a vm
    proof -
      from ValueMap_Erase_ok [OF that b(2)] obtain vm1 where vm1: "ValueMap_Erase bm (at_type a) inner bucket vm = Inr vm1" "avm_inv vm1"
        "\<forall>T v j p. avm_has vm1 T v j p \<longleftrightarrow> avm_has vm T v j p \<and> \<not> (T = at_type a \<and> j = bucket \<and> p = inner)" by blast
      from insert_values_ok [OF b vm1(2), of "at_type a" "at_value a"] show ?thesis using vm1(1,3) by (auto simp: insert_by_type_def)
    qed
    then have "\<forall>a\<in>set attrs. \<forall>vm. avm_inv vm \<longrightarrow> (\<exists>vm'. ?g a vm = Inr vm' \<and> avm_inv vm' \<and> (\<forall>T v j p. avm_has vm' T v j p \<longleftrightarrow> ?G a T v j p (avm_has vm T v j p)))" by blast
    moreover have "(\<lambda>a R f T v j p. if f = at_name a then ?G a T v j p (R f T v j p) else R f T v j p) = (\<lambda>a R. spec_add bucket inner a (spec_drop bucket inner a R))"
      by (auto simp: fun_eq_iff spec_add_def spec_drop_def)
    ultimately show ?thesis using changes_rel [of attrs ?g ?G x ty R] assms s AUpdate by (simp add: UpdateBitsetsByAttr_def)
  next
    case (AReplace attrs inner bucket origin)
    have b: "bucket < 2 ^ 15" "inner < 2 ^ 32 - 64" using assms(2) AReplace by simp_all
    let ?E = "\<lambda>a T v j p h. h \<and> \<not> (T = at_type a \<and> v \<in> set (at_value a) \<and> j = bucket \<and> p = inner)"
    let ?A = "\<lambda>a T v j p h. h \<or> T = at_type a \<and> v \<in> set (at_value a) \<and> j = bucket \<and> p = inner"
    have e: "\<forall>a\<in>set origin. \<forall>vm. avm_inv vm \<longrightarrow> (\<exists>vm'. ValueMap_Erase_attr bm inner a bucket vm = Inr vm' \<and> avm_inv vm' \<and>
        (\<forall>T v j p. avm_has vm' T v j p \<longleftrightarrow> ?E a T v j p (avm_has vm T v j p)))"
      using erase_values_ok [OF b(2)] unfolding ValueMap_Erase_attr_def by blast
    have i: "\<forall>a\<in>set attrs. \<forall>vm. avm_inv vm \<longrightarrow> (\<exists>vm'. insert_by_type bm a inner bucket vm = Inr vm' \<and> avm_inv vm' \<and>
        (\<forall>T v j p. avm_has vm' T v j p \<longleftrightarrow> ?A a T v j p (avm_has vm T v j p)))"
      using insert_values_ok [OF b] unfolding insert_by_type_def by blast
    have "(\<lambda>a R f T v j p. if f = at_name a then ?E a T v j p (R f T v j p) else R f T v j p) = spec_drop_values bucket inner"
      "(\<lambda>a R f T v j p. if f = at_name a then ?A a T v j p (R f T v j p) else R f T v j p) = spec_add bucket inner"
      by (auto simp: fun_eq_iff spec_add_def spec_drop_values_def)
    moreover have "ai_rel x (ty, R)" "\<forall>a\<in>set origin. ty (at_name a) \<noteq> None" "\<forall>a\<in>set attrs. ty (at_name a) \<noteq> None" using assms s AReplace by simp_all
    ultimately obtain y z where "foldR (\<lambda>attr. change_field (at_name attr) (\<lambda>vm. ValueMap_Erase_attr bm inner attr bucket vm)) origin x = Inr y"
      "foldR (\<lambda>attr. change_field (at_name attr) (insert_by_type bm attr inner bucket)) attrs y = Inr z"
      "ai_rel z (ty, fold (spec_add bucket inner) attrs (fold (spec_drop_values bucket inner) origin R))"
      using changes_rel [OF e, of x ty R] changes_rel [OF i, of _ ty] by fastforce
    then show ?thesis using s AReplace by (simp add: UpdateBitsetsByAttr_origin_def)
  qed
qed

lemma exec_ops_rel:
  "ai_rel x s \<Longrightarrow> ops_ok ops s \<Longrightarrow> \<exists>y. foldR (exec_op bm) ops x = Inr y \<and> ai_rel y (fold spec_op ops s)"
proof (induction ops arbitrary: x s)
  case (Cons op ops)
  then obtain y where "exec_op bm op x = Inr y" "ai_rel y (spec_op op s)" using exec_op_rel [of x s op] by auto
  then show ?case using Cons by simp
qed simp

lemma ai_rel_new: "ai_rel AttributeIndex_new (Map.empty, \<lambda>f T v j p. False)"
  by (simp add: ai_rel_def ai_inv_def ai_has_def AttributeIndex_new_def)

lemma GetAttribute_rel:
  assumes "ai_rel x (ty, R)" "inner < 2 ^ 32 - 64"
  shows "\<exists>attrs. GetAttribute bm bucket inner x = Inr attrs \<and>
    (\<lambda>a. (at_name a, at_type a, set (at_value a))) ` set attrs = {(f, T, {v. R f T v bucket inner}) |f T. ty f = Some T \<and> {v. R f T v bucket inner} \<noteq> {}}"
proof -
  let ?fs = "ai_field_2_value_map x"
  have inv: "ai_inv x" "map_of (ai_field_type_map x) = ty" "\<forall>f T v j p. ai_has x f T v j p \<longleftrightarrow> R f T v j p" using assms(1) by (simp_all add: ai_rel_def)
  have d: "distinct (map fst ?fs)" "dom (map_of ?fs) = dom ty" using inv(1,2) by (simp_all add: ai_inv_def)
  have "avm_inv vm \<and> ty f = Some (the (ty f))" if "(f, vm) \<in> set ?fs" for f vm
  proof -
    have f: "map_of ?fs f = Some vm" using that d(1) by simp
    then have "f \<in> dom ty" using d(2) by blast
    then show ?thesis using ai_inv_field [OF inv(1) f] by auto
  qed
  then have "\<forall>(f, vm)\<in>set ?fs. avm_inv vm \<and> map_of (ai_field_type_map x) f = Some (the (ty f))" unfolding inv(2) by blast
  from get_attributes_ok [OF this assms(2), of bucket] obtain attrs where r: "get_attributes bm x bucket inner ?fs = Inr attrs"
    "(\<lambda>a. (at_name a, at_type a, set (at_value a))) ` set attrs =
      {(f, the (ty f), {v. avm_has vm (the (ty f)) v bucket inner}) |f vm. (f, vm) \<in> set ?fs \<and> {v. avm_has vm (the (ty f)) v bucket inner} \<noteq> {}}" by blast
  have has: "avm_has vm T v bucket inner \<longleftrightarrow> R f T v bucket inner" if "(f, vm) \<in> set ?fs" for f vm T v
  proof -
    have "ai_has x f T v bucket inner \<longleftrightarrow> avm_has vm T v bucket inner" using map_of_is_SomeI [OF d(1) that] by (simp add: ai_has_def)
    then show ?thesis using inv(3) by blast
  qed
  have dm: "(\<exists>vm. (f, vm) \<in> set ?fs) \<longleftrightarrow> ty f \<noteq> None" for f
  proof -
    have "(\<exists>vm. (f, vm) \<in> set ?fs) \<longleftrightarrow> f \<in> dom (map_of ?fs)" unfolding dom_def using map_of_eq_Some_iff [OF d(1)] by blast
    then show ?thesis unfolding d(2) by (simp add: domIff)
  qed
  have "{(f, the (ty f), {v. avm_has vm (the (ty f)) v bucket inner}) |f vm. (f, vm) \<in> set ?fs \<and> {v. avm_has vm (the (ty f)) v bucket inner} \<noteq> {}} =
      {(f, T, {v. R f T v bucket inner}) |f T. ty f = Some T \<and> {v. R f T v bucket inner} \<noteq> {}}" (is "?A = ?B")
  proof (rule set_eqI)
    fix t :: "bytes \<times> attr_value_type \<times> attr_key set"
    obtain f T V where t: "t = (f, T, V)" by (cases t) auto
    have "t \<in> ?A \<longleftrightarrow> (\<exists>vm. (f, vm) \<in> set ?fs \<and> T = the (ty f) \<and> V = {v. avm_has vm T v bucket inner} \<and> V \<noteq> {})" unfolding t by blast
    also have "\<dots> \<longleftrightarrow> (\<exists>vm. (f, vm) \<in> set ?fs) \<and> T = the (ty f) \<and> V = {v. R f T v bucket inner} \<and> V \<noteq> {}" using has by (simp cong: conj_cong)
    also have "\<dots> \<longleftrightarrow> t \<in> ?B" unfolding t dm by auto
    finally show "t \<in> ?A \<longleftrightarrow> t \<in> ?B" .
  qed
  then show ?thesis using r by (simp add: GetAttribute_def)
qed

end

section \<open>Both bitsets\<close>

interpretation fast_attr: attr_bitset fast_bitset_methods fb_inv fbits
proof (unfold_locales, goal_cases)
  case (2 b p v)
  then show ?case using FastBitset_Set_fbits by (simp add: fast_bitset_methods_def)
next
  case (3 b p)
  then show ?case by (simp add: fast_bitset_methods_def FastBitset_Test_fbits)
qed (auto simp: fast_bitset_methods_def FastBitset_new_inv FastBitset_new_fbits FastBitset_Or_ptr_def FastBitset_And_ptr_def FastBitset_Or_correct
    FastBitset_And_correct FastBitset_Not_inv FastBitset_Not_fbits FastBitset_Clear_inv FastBitset_Clear_fbits split: option.splits)

text \<open>What the documentation of the Roaring bitmap promises: it is a set of 32-bit numbers.\<close>

locale roaring_bitmap =
  fixes rr :: "'r roaring"
    and elems :: "'r \<Rightarrow> nat set"
  assumes rr_new: "elems (rr_new rr) = {}"
    and rr_add: "x < 2 ^ 32 \<Longrightarrow> elems (rr_add rr x r) = insert x (elems r)"
    and rr_remove: "x < 2 ^ 32 \<Longrightarrow> elems (rr_remove rr x r) = elems r - {x}"
    and rr_contains: "rr_contains rr r x \<longleftrightarrow> x \<in> elems r"
    and rr_or: "elems (rr_or rr r s) = elems r \<union> elems s"
    and rr_and: "elems (rr_and rr r s) = elems r \<inter> elems s"

lemma as_u32_int [simp]: "p < 2 ^ 32 \<Longrightarrow> as_u32 (int p) = p"
  by (simp add: as_u32_def)

sublocale roaring_bitmap \<subseteq> sparse_attr: attr_bitset "sparse_bitset_methods rr" "\<lambda>r. True" "\<lambda>r p. p \<in> elems r"
proof (unfold_locales, goal_cases)
  case (2 b p v)
  then have "p < 2 ^ 32" by simp
  then show ?case using rr_add rr_remove by (auto simp: sparse_bitset_methods_def SparseBitset_Set_def fun_eq_iff)
next
  case (3 b p)
  then have "p < 2 ^ 32" by simp
  then show ?case using rr_contains by (simp add: sparse_bitset_methods_def SparseBitset_Test_def)
qed (auto simp: sparse_bitset_methods_def SparseBitset_Or_def SparseBitset_And_def SparseBitset_Clear_def rr_new rr_or rr_and split: option.splits)

text \<open>A bitmap kept as a list.\<close>

definition list_roaring :: "nat list roaring" where
  "list_roaring =
     \<lparr>rr_new = [], rr_add = List.insert, rr_remove = removeAll, rr_contains = (\<lambda>r x. x \<in> set r), rr_cardinality = length,
      rr_or = List.union, rr_and = (\<lambda>r s. filter (\<lambda>x. x \<in> set s) r), rr_flipClosed = (\<lambda>a b r. filter (\<lambda>x. x \<notin> set r) [a..<Suc b]),
      rr_minimum = (\<lambda>r. fold min r (2 ^ 32 - 1)), rr_maximum = (\<lambda>r. fold max r 0), rr_write = (\<lambda>r. concat (map (le_bytes 4) (remdups r))),
      rr_readSafe = (\<lambda>bs. Some (decode_array 4 (length bs div 4) bs))\<rparr>"

interpretation list_bitmap: roaring_bitmap list_roaring set
  by unfold_locales (auto simp: list_roaring_def)

section \<open>Properties\<close>

text \<open>What an index answers for a table with the types of its fields.\<close>

definition index_answers :: "'b bitset_methods \<Rightarrow> 'b attr_index \<Rightarrow> (bytes \<rightharpoonup> attr_value_type) \<times> attr_table \<Rightarrow> bool" where
  "index_answers bm x s \<longleftrightarrow>
     (\<forall>f. GetTypeOfField x f = (case fst s f of None \<Rightarrow> Inl (Throw INTERNAL_ERROR) | Some T \<Rightarrow> Inr T)) \<and>
     (\<forall>bucket inner. inner < 2 ^ 32 - 64 \<longrightarrow> (\<exists>attrs. GetAttribute bm bucket inner x = Inr attrs \<and>
        (\<lambda>a. (at_name a, at_type a, set (at_value a))) ` set attrs =
          {(f, T, {v. snd s f T v bucket inner}) |f T. fst s f = Some T \<and> {v. snd s f T v bucket inner} \<noteq> {}}))"

lemma index_answersD:
  assumes "index_answers bm x s" "inner < 2 ^ 32 - 64"
  shows "\<exists>attrs. GetAttribute bm bucket inner x = Inr attrs \<and> (\<lambda>a. (at_name a, at_type a, set (at_value a))) ` set attrs =
    {(f, T, {v. snd s f T v bucket inner}) |f T. fst s f = Some T \<and> {v. snd s f T v bucket inner} \<noteq> {}}"
  using assms unfolding index_answers_def by blast

context attr_bitset
begin

lemma ai_rel_answers: "ai_rel x s \<Longrightarrow> index_answers bm x s"
  using GetAttribute_rel [of x "fst s" "snd s"] by (auto simp: index_answers_def GetTypeOfField_def ai_rel_def)

end

context roaring_bitmap
begin

lemmas sparse_index_rel = sparse_attr.exec_ops_rel [OF sparse_attr.ai_rel_new]

lemma sparse_index_ok:
  assumes "ops_ok ops (Map.empty, \<lambda>f T v j p. False)"
  shows "\<exists>x. foldR (exec_op (sparse_bitset_methods rr)) ops AttributeIndex_new = Inr x \<and>
    index_answers (sparse_bitset_methods rr) x (fold spec_op ops (Map.empty, \<lambda>f T v j p. False))"
  using sparse_index_rel [OF assms] sparse_attr.ai_rel_answers by blast

end

text \<open>
  Claim C8. The attribute index is a table: after any sequence of insertions and of updates of known
  fields, with either kind of bitset, it returns for every element of every bucket exactly the values
  that these operations gave it, each field under the type it was inserted with last.
\<close>

theorem AttributeIndex_refines_table:
  assumes "roaring_bitmap rr elems" "ops_ok ops (Map.empty, \<lambda>f T v j p. False)"
  shows "(\<exists>x. foldR (exec_op fast_bitset_methods) ops AttributeIndex_new = Inr x \<and>
      index_answers fast_bitset_methods x (fold spec_op ops (Map.empty, \<lambda>f T v j p. False))) \<and>
    (\<exists>x. foldR (exec_op (sparse_bitset_methods rr)) ops AttributeIndex_new = Inr x \<and>
      index_answers (sparse_bitset_methods rr) x (fold spec_op ops (Map.empty, \<lambda>f T v j p. False)))"
  using fast_attr.exec_ops_rel [OF fast_attr.ai_rel_new assms(2)] fast_attr.ai_rel_answers
    roaring_bitmap.sparse_index_ok [OF assms] by blast

theorem AttributeIndex_refines_table_witness:
  "\<exists>x attrs. foldR (exec_op (sparse_bitset_methods list_roaring))
      [AInsert [\<lparr>at_name = [1], at_type = INT8, at_value = [Num 5, Num 6]\<rparr>] 3 0, AUpdate [\<lparr>at_name = [1], at_type = INT8, at_value = [Num 7]\<rparr>] 3 0]
      AttributeIndex_new = Inr x \<and>
    GetAttribute (sparse_bitset_methods list_roaring) 0 3 x = Inr attrs \<and> (\<lambda>a. (at_name a, at_type a, set (at_value a))) ` set attrs = {([1], INT8, {Num 7})}"
proof -
  let ?ops = "[AInsert [\<lparr>at_name = [1], at_type = INT8, at_value = [Num 5, Num 6]\<rparr>] 3 0, AUpdate [\<lparr>at_name = [1], at_type = INT8, at_value = [Num 7]\<rparr>] 3 0]"
  have ok: "ops_ok ?ops (Map.empty, \<lambda>f T v j p. False)" by simp
  from AttributeIndex_refines_table [OF list_bitmap.roaring_bitmap_axioms ok] obtain x where
    x: "foldR (exec_op (sparse_bitset_methods list_roaring)) ?ops AttributeIndex_new = Inr x"
      "index_answers (sparse_bitset_methods list_roaring) x (fold spec_op ?ops (Map.empty, \<lambda>f T v j p. False))" by blast
  define s where "s = fold spec_op ?ops (Map.empty, \<lambda>f T v j p. False)"
  have s: "fst s = [[1] \<mapsto> INT8]" "snd s f T v 0 3 \<longleftrightarrow> f = [1] \<and> T = INT8 \<and> v = Num 7" for f T v
    by (simp add: s_def, simp add: s_def spec_add_def spec_drop_def, blast)
  have "{(f, T, {v. snd s f T v 0 3}) |f T. fst s f = Some T \<and> {v. snd s f T v 0 3} \<noteq> {}} = {([1], INT8, {Num 7})}"
    unfolding s by (auto split: if_splits)
  moreover have "(3 :: nat) < 2 ^ 32 - 64" by simp
  ultimately have "\<exists>attrs. GetAttribute (sparse_bitset_methods list_roaring) 0 3 x = Inr attrs \<and> (\<lambda>a. (at_name a, at_type a, set (at_value a))) ` set attrs = {([1], INT8, {Num 7})}"
    using index_answersD [OF x(2) [folded s_def], of 3 0] by simp
  with x(1) show ?thesis by blast
qed

text \<open>
  Claim C40. The bitsets of a value are numbered with 16 bits. Once a value occurs in \<open>2 ^ 15\<close> buckets, its
  next bucket gets a negative number, with which the array of bitsets is then accessed.
\<close>

theorem MultiBitsetManager_overflows:
  "\<exists>m. foldR (\<lambda>j. InsertValue fast_bitset_methods j 0 True) [0..<2 ^ 15] (MultiBitsetManager_new 1) = Inr m \<and>
     InsertValue fast_bitset_methods (2 ^ 15) 0 True m = Inl UB"
  using fast_attr.fill_manager [OF order_refl] fast_attr.full_manager by blast

end
