(* ===== verification/Expressions.thy ===== *)
theory Expressions
  imports Attributes
begin

text \<open>
  Filter expressions: \<open>src/attr/expression.h\<close> (the expression classes and the conversion of numeric constants).
  An \<open>ExprPtr\<close> is the expression it points to; expressions are never null, changed or shared with a writer.
\<close>

section \<open>Expressions\<close>

datatype comparison_operator = EQ | NE | GT | LT | GE | LE

datatype logical_operator = AND_op | OR_op | NOT_op

datatype arithmetic_operator = ADD | SUB | MUL | DIV

text \<open>\<open>NumericValue\<close>; a double is its bits.\<close>

datatype numeric_value = Int64 int | Uint64 int | Double "64 word"

datatype expression =
    FieldExpression bytes
  | NumericConstant numeric_value
  | StringConstant bytes
  | StrListConstant "bytes list"
  | IntListConstant_int64 "int list"
  | IntListConstant_uint64 "int list"
  | ArithmeticExpression expression arithmetic_operator expression
  | ComparisonExpression expression comparison_operator expression
  | IntListExpression expression bool expression
  | StrListExpression expression bool expression
  | LogicalExpression expression logical_operator expression
  | NotExpression expression

section \<open>Integer types\<close>

fun int_width :: "attr_value_type \<Rightarrow> nat" where
  "int_width INT8 = 8" | "int_width UINT8 = 8" | "int_width INT16 = 16" | "int_width UINT16 = 16"
| "int_width INT32 = 32" | "int_width UINT32 = 32" | "int_width INT64 = 64" | "int_width UINT64 = 64" | "int_width STRING = 0"

definition is_unsigned :: "attr_value_type \<Rightarrow> bool" where
  "is_unsigned T \<longleftrightarrow> T \<in> {UINT8, UINT16, UINT32, UINT64}"

text \<open>\<open>std::numeric_limits\<close>.\<close>

definition int_min :: "attr_value_type \<Rightarrow> int" where
  "int_min T = (if is_unsigned T then 0 else - (2 ^ (int_width T - 1)))"

definition int_max :: "attr_value_type \<Rightarrow> int" where
  "int_max T = (if is_unsigned T then 2 ^ int_width T - 1 else 2 ^ (int_width T - 1) - 1)"

text \<open>\<open>static_cast\<close> of an integer to an integer type.\<close>

definition int_cast :: "attr_value_type \<Rightarrow> int \<Rightarrow> int" where
  "int_cast T a = (a - int_min T) mod 2 ^ int_width T + int_min T"

text \<open>
  The branch of \<open>GetNumericValue\<close> for an integer argument. The comparison is done in \<open>uint64_t\<close> when the
  argument or the limit has this type, which the flag says.
\<close>

definition get_integral :: "attr_value_type \<Rightarrow> bool \<Rightarrow> int \<Rightarrow> int result" where
  "get_integral T in_uint64 a =
     (let common = (\<lambda>v. if in_uint64 then v mod 2 ^ 64 else v)
      in if is_unsigned T \<and> a < 0 then Inl Std_runtime_error
         else if common a < common (int_min T) \<or> common a > common (int_max T) then Inl Std_runtime_error
         else Inr (int_cast T a))"

fun GetNumericValue :: "attr_value_type \<Rightarrow> numeric_value \<Rightarrow> int result" where
  "GetNumericValue T (Int64 a) = get_integral T (T = UINT64) a"
| "GetNumericValue T (Uint64 a) = get_integral T True a"
| "GetNumericValue T (Double d) = Inl Std_runtime_error"

text \<open>
  The values of the variant: \<open>uint64_t\<close> only for a number that is no \<open>int64_t\<close>, as \<open>visit_int_token\<close> chooses. (For a
  small \<open>uint64_t\<close> and a signed type the lower limit becomes a large number in the comparison and the constant is
  rejected.) An integer type accepts the integers of its range and no double.
\<close>

fun numeric_ok :: "numeric_value \<Rightarrow> bool" where
  "numeric_ok (Int64 a) \<longleftrightarrow> - (2 ^ 63) \<le> a \<and> a < 2 ^ 63"
| "numeric_ok (Uint64 a) \<longleftrightarrow> 2 ^ 63 \<le> a \<and> a < 2 ^ 64"
| "numeric_ok (Double d) \<longleftrightarrow> True"

fun accepts :: "attr_value_type \<Rightarrow> numeric_value \<Rightarrow> bool" where
  "accepts T (Int64 a) \<longleftrightarrow> int_min T \<le> a \<and> a \<le> int_max T"
| "accepts T (Uint64 a) \<longleftrightarrow> int_min T \<le> a \<and> a \<le> int_max T"
| "accepts T (Double d) \<longleftrightarrow> False"

fun numeric_int :: "numeric_value \<Rightarrow> int" where
  "numeric_int (Int64 a) = a" | "numeric_int (Uint64 a) = a" | "numeric_int (Double d) = 0"

lemmas int_type_defs = int_min_def int_max_def is_unsigned_def

lemma int_cast_id: "int_min T \<le> a \<Longrightarrow> a \<le> int_max T \<Longrightarrow> T \<noteq> STRING \<Longrightarrow> int_cast T a = a"
  by (cases T) (auto simp: int_cast_def int_type_defs mod_pos_pos_trivial)

lemma get_integral_plain:
  assumes "T \<noteq> STRING"
  shows "get_integral T False a = (if int_min T \<le> a \<and> a \<le> int_max T then Inr a else Inl Std_runtime_error)"
proof -
  have "is_unsigned T \<Longrightarrow> int_min T = 0" by (simp add: int_min_def)
  then show ?thesis using int_cast_id [OF _ _ assms] by (auto simp: get_integral_def Let_def)
qed

lemma get_integral_uint64:
  assumes "T \<noteq> STRING" "a < 2 ^ 64" "is_unsigned T \<or> 0 \<le> a"
  shows "get_integral T True a = (if is_unsigned T \<and> 0 \<le> a \<and> a \<le> int_max T then Inr a else Inl Std_runtime_error)"
proof (cases "0 \<le> a")
  case True
  then have a: "a mod 2 ^ 64 = a" using assms(2) by (simp add: mod_pos_pos_trivial)
  have "int_max T mod 2 ^ 64 = int_max T" using assms(1) by (cases T) (simp_all add: int_type_defs)
  moreover have "int_min T mod 2 ^ 64 = (if is_unsigned T then 0 else 2 ^ 64 + int_min T)" "\<not> is_unsigned T \<Longrightarrow> int_max T < 2 ^ 64 + int_min T"
    using assms(1) by (cases T; simp add: int_type_defs)+
  ultimately show ?thesis using True a int_cast_id [OF _ _ assms(1), of a] unfolding get_integral_def Let_def
    by (auto simp: int_min_def)
qed (use assms(3) in \<open>simp add: get_integral_def\<close>)

lemma GetNumericValue_eq:
  assumes "T \<noteq> STRING" "numeric_ok v"
  shows "GetNumericValue T v = (if accepts T v then Inr (numeric_int v) else Inl Std_runtime_error)"
proof (cases v)
  case (Int64 a)
  have "is_unsigned UINT64" "int_min UINT64 = 0" by (simp_all add: int_type_defs)
  then show ?thesis using Int64 assms get_integral_plain [OF assms(1)] get_integral_uint64 [of UINT64 a]
    by (cases "T = UINT64") auto
next
  case (Uint64 a)
  moreover have "\<not> is_unsigned T \<Longrightarrow> int_max T < 2 ^ 63" using assms(1) by (cases T) (simp_all add: int_type_defs)
  moreover have "is_unsigned T \<Longrightarrow> int_min T = 0" by (simp add: int_min_def)
  ultimately show ?thesis using assms get_integral_uint64 [OF assms(1), of a] by auto
qed simp

end
