(* ===== verification/AttributeStream.thy ===== *)
theory AttributeStream
  imports Expressions
begin

text \<open>
  The attribute index on a stream: \<open>Serialize\<close> and \<open>Deserialize\<close> of \<open>src/attr/attr_type_schema.cpp\<close>,
  \<open>src/attr/attr_value_map.cpp\<close> and \<open>src/datacell/attribute_bucket_inverted_datacell.cpp\<close>, over the bitsets of a
  manager (\<open>Attributes\<close>). An integer key is written in the width of its type.
\<close>

section \<open>The operations\<close>

text \<open>The numbers of the enumeration; a number that is no type is not given a meaning.\<close>

fun type_number :: "attr_value_type \<Rightarrow> nat" where
  "type_number INT32 = 1" | "type_number UINT32 = 2" | "type_number INT64 = 3" | "type_number UINT64 = 4" | "type_number INT8 = 5"
| "type_number UINT8 = 6" | "type_number INT16 = 7" | "type_number UINT16 = 8" | "type_number STRING = 9"

definition all_types :: "attr_value_type list" where
  "all_types = [INT32, UINT32, INT64, UINT64, INT8, UINT8, INT16, UINT16, STRING]"

definition type_of_number :: "nat \<Rightarrow> attr_value_type result" where
  "type_of_number n = (case find (\<lambda>T. type_number T = n) all_types of None \<Rightarrow> Inl UB | Some T \<Rightarrow> Inr T)"

definition Schema_Serialize :: "(bytes \<times> attr_value_type) list \<Rightarrow> stream_writer \<Rightarrow> stream_writer" where
  "Schema_Serialize schema w =
     fold (\<lambda>(k, v) w. WriteObj 8 (type_number v) (WriteString k w)) schema (WriteObj 8 (length schema) w)"

definition Schema_Deserialize :: "'r rd \<Rightarrow> (bytes \<times> attr_value_type) list \<Rightarrow> 'r \<Rightarrow> ((bytes \<times> attr_value_type) list \<times> 'r) result" where
  "Schema_Deserialize rd schema r =
     bindR (ReadObj rd 8 r) (\<lambda>(n, r).
       read_loop n (\<lambda>schema r. bindR (ReadString rd r) (\<lambda>(k, r). bindR (ReadObj rd 8 r) (\<lambda>(v, r).
         bindR (type_of_number v) (\<lambda>T. Inr (AList.update k T schema, r))))) schema r)"

text \<open>A key: an object of the width of the type, or a string.\<close>

fun key_int :: "attr_key \<Rightarrow> int" where
  "key_int (Num a) = a" | "key_int (Str s) = 0"

fun key_str :: "attr_key \<Rightarrow> bytes" where
  "key_str (Str s) = s" | "key_str (Num a) = []"

definition write_key :: "attr_value_type \<Rightarrow> attr_key \<Rightarrow> stream_writer \<Rightarrow> stream_writer" where
  "write_key T k w =
     (if T = STRING then WriteString (key_str k) w else WriteObj (int_width T div 8) (nat (key_int k mod 2 ^ int_width T)) w)"

definition read_key :: "'r rd \<Rightarrow> attr_value_type \<Rightarrow> 'r \<Rightarrow> (attr_key \<times> 'r) result" where
  "read_key rd T r =
     (if T = STRING then bindR (ReadString rd r) (\<lambda>(s, r). Inr (Str s, r))
      else bindR (ReadObj rd (int_width T div 8) r) (\<lambda>(n, r). Inr (Num (int_cast T (int n)), r)))"

definition serialize_map ::
  "'b bitset_methods \<Rightarrow> attr_value_type \<Rightarrow> (attr_key \<times> 'b multi_bitset_manager) list \<Rightarrow> stream_writer \<Rightarrow> stream_writer" where
  "serialize_map bm T ms w =
     fold (\<lambda>(k, m) w. MultiBitsetManager_Serialize bm m (write_key T k w)) ms (WriteObj 8 (length ms) w)"

definition deserialize_map ::
  "'b bitset_methods \<Rightarrow> 'r rd \<Rightarrow> ('b \<Rightarrow> 'r \<Rightarrow> ('b \<times> 'r) result) \<Rightarrow> attr_value_type \<Rightarrow>
    (attr_key \<times> 'b multi_bitset_manager) list \<Rightarrow> 'r \<Rightarrow> ((attr_key \<times> 'b multi_bitset_manager) list \<times> 'r) result" where
  "deserialize_map bm rd des T ms r =
     bindR (ReadObj rd 8 r) (\<lambda>(n, r).
       read_loop n (\<lambda>ms r. bindR (read_key rd T r) (\<lambda>(k, r).
         bindR (MultiBitsetManager_Deserialize bm rd des (MultiBitsetManager_new 1) r) (\<lambda>(m, r). Inr (AList.update k m ms, r)))) ms r)"

text \<open>The maps in the order in which they are written.\<close>

definition map_order :: "attr_value_type list" where
  "map_order = [INT64, INT32, INT16, INT8, UINT64, UINT32, UINT16, UINT8, STRING]"

definition AttrValueMap_Serialize :: "'b bitset_methods \<Rightarrow> 'b attr_value_map \<Rightarrow> stream_writer \<Rightarrow> stream_writer" where
  "AttrValueMap_Serialize bm vm w = fold (\<lambda>T. serialize_map bm T (vm T)) map_order w"

fun read_maps ::
  "'b bitset_methods \<Rightarrow> 'r rd \<Rightarrow> ('b \<Rightarrow> 'r \<Rightarrow> ('b \<times> 'r) result) \<Rightarrow> attr_value_type list \<Rightarrow> 'b attr_value_map \<Rightarrow> 'r \<Rightarrow> ('b attr_value_map \<times> 'r) result" where
  "read_maps bm rd des [] vm r = Inr (vm, r)"
| "read_maps bm rd des (T # Ts) vm r =
     bindR (deserialize_map bm rd des T (vm T) r) (\<lambda>(ms, r). read_maps bm rd des Ts (vm(T := ms)) r)"

definition AttrValueMap_Deserialize ::
  "'b bitset_methods \<Rightarrow> 'r rd \<Rightarrow> ('b \<Rightarrow> 'r \<Rightarrow> ('b \<times> 'r) result) \<Rightarrow> 'b attr_value_map \<Rightarrow> 'r \<Rightarrow> ('b attr_value_map \<times> 'r) result" where
  "AttrValueMap_Deserialize bm rd des vm r = read_maps bm rd des map_order vm r"

definition AttributeIndex_Serialize :: "'b bitset_methods \<Rightarrow> 'b attr_index \<Rightarrow> stream_writer \<Rightarrow> stream_writer" where
  "AttributeIndex_Serialize bm x w =
     fold (\<lambda>(term, vm) w. AttrValueMap_Serialize bm vm (WriteString term w)) (ai_field_2_value_map x)
       (WriteObj 8 (length (ai_field_2_value_map x)) (Schema_Serialize (ai_field_type_map x) w))"

definition AttributeIndex_Deserialize ::
  "'b bitset_methods \<Rightarrow> 'r rd \<Rightarrow> ('b \<Rightarrow> 'r \<Rightarrow> ('b \<times> 'r) result) \<Rightarrow> 'b attr_index \<Rightarrow> 'r \<Rightarrow> ('b attr_index \<times> 'r) result" where
  "AttributeIndex_Deserialize bm rd des x r =
     bindR (Schema_Deserialize rd (ai_field_type_map x) r) (\<lambda>(schema, r).
     bindR (ReadObj rd 8 r) (\<lambda>(n, r).
     bindR (read_loop n (\<lambda>fm r. bindR (ReadString rd r) (\<lambda>(term, r).
       bindR (AttrValueMap_Deserialize bm rd des AttrValueMap_new r) (\<lambda>(vm, r). Inr (AList.update term vm fm, r)))) (ai_field_2_value_map x) r) (\<lambda>(fm, r).
       Inr (x\<lparr>ai_field_type_map := schema, ai_field_2_value_map := fm\<rparr>, r))))"

section \<open>What can be written\<close>

text \<open>Keys of the type of their map, lengths that fit into 64 bits.\<close>

definition key_fits :: "attr_value_type \<Rightarrow> attr_key \<Rightarrow> bool" where
  "key_fits T k \<longleftrightarrow> (case k of Str s \<Rightarrow> T = STRING \<and> length s < 2 ^ 64 | Num a \<Rightarrow> T \<noteq> STRING \<and> int_min T \<le> a \<and> a \<le> int_max T)"

definition vm_fits :: "'b attr_value_map \<Rightarrow> bool" where
  "vm_fits vm \<longleftrightarrow> (\<forall>T. length (vm T) < 2 ^ 64 \<and> (\<forall>k\<in>fst ` set (vm T). key_fits T k))"

definition index_fits :: "'b attr_index \<Rightarrow> bool" where
  "index_fits x \<longleftrightarrow> length (ai_field_type_map x) < 2 ^ 64 \<and> length (ai_field_2_value_map x) < 2 ^ 64 \<and>
     (\<forall>f\<in>fst ` set (ai_field_type_map x). length f < 2 ^ 64) \<and>
     (\<forall>(f, vm)\<in>set (ai_field_2_value_map x). length f < 2 ^ 64 \<and> vm_fits vm)"

section \<open>Association lists on a stream\<close>

lemma update_fresh: "k \<notin> fst ` set m \<Longrightarrow> AList.update k v m = m @ [(k, v)]"
  by (induction m) auto

lemma fold_update_fresh:
  "distinct (map fst m @ map fst xs) \<Longrightarrow> fold (\<lambda>(k, v). AList.update k (g v)) xs m = m @ map (\<lambda>(k, v). (k, g v)) xs"
proof (induction xs arbitrary: m)
  case (Cons kv xs)
  obtain k v where kv: "kv = (k, v)" by fastforce
  have "AList.update k (g v) m = m @ [(k, g v)]" using Cons.prems kv by (intro update_fresh) auto
  moreover have "distinct (map fst (m @ [(k, g v)]) @ map fst xs)" using Cons.prems kv by auto
  ultimately show ?case using Cons.IH [of "m @ [(k, g v)]"] kv by simp
qed simp

lemma sw_out_fold:
  assumes "\<And>x w. x \<in> set xs \<Longrightarrow> sw_out (f x w) = sw_out w @ enc x"
  shows "sw_out (fold f xs w) = sw_out w @ concat (map enc xs)"
  using assms by (induction xs arbitrary: w) auto

context byte_reader
begin

lemma parses_alist:
  assumes "distinct (map fst xs)" "length xs < 2 ^ 64"
    and pk: "\<And>k v. (k, v) \<in> set xs \<Longrightarrow> parses pk k (ek k)"
    and pv: "\<And>k v. (k, v) \<in> set xs \<Longrightarrow> parses pv (g v) (ev v)"
  shows "parses (\<lambda>r. bindR (ReadObj rd 8 r) (\<lambda>(n, r).
      read_loop n (\<lambda>m r. bindR (pk r) (\<lambda>(k, r). bindR (pv r) (\<lambda>(v, r). Inr (AList.update k v m, r)))) [] r))
    (map (\<lambda>(k, v). (k, g v)) xs) (le_bytes 8 (length xs) @ concat (map (\<lambda>(k, v). ek k @ ev v) xs))"
proof (rule parses_bind [OF parses_ReadObj])
  let ?f = "\<lambda>(k, v). AList.update k (g v)"
  have "parses (read_loop (length xs) (\<lambda>m r. bindR (pk r) (\<lambda>(k, r). bindR (pv r) (\<lambda>(v, r). Inr (AList.update k v m, r)))) [])
      (fold ?f xs []) (concat (map (\<lambda>(k, v). ek k @ ev v) xs))"
  proof (rule parses_loop [where P = "\<lambda>_. True"])
    fix x and m :: "('a \<times> 'c) list"
    assume "x \<in> set xs"
    moreover obtain k v where "x = (k, v)" by (rule prod.exhaust)
    ultimately have x: "(k, v) \<in> set xs" "x = (k, v)" by simp_all
    show "parses (\<lambda>r. bindR (pk r) (\<lambda>(k, r). bindR (pv r) (\<lambda>(v, r). Inr (AList.update k v m, r)))) (?f x m) (case x of (k, v) \<Rightarrow> ek k @ ev v) \<and> True"
      using parses_bind [where q = "\<lambda>k r. bindR (pv r) (\<lambda>(v, r). Inr (AList.update k v m, r))", OF pk [OF x(1)] parses_map [OF pv [OF x(1)], of "\<lambda>v. AList.update k v m"]] x(2) by simp
  qed simp_all
  then show "parses (read_loop (length xs) (\<lambda>m r. bindR (pk r) (\<lambda>(k, r). bindR (pv r) (\<lambda>(v, r). Inr (AList.update k v m, r)))) [])
      (map (\<lambda>(k, v). (k, g v)) xs) (concat (map (\<lambda>(k, v). ek k @ ev v) xs))"
    using fold_update_fresh [of "[]" xs g] assms(1) by simp
qed (use assms(2) in simp)

text \<open>A list read element by element.\<close>

lemma parses_list:
  assumes "length xs < 2 ^ 64" "\<And>x. x \<in> set xs \<Longrightarrow> parses p (g x) (enc x)"
  shows "parses (read_loop (length xs) (\<lambda>ys r. bindR (p r) (\<lambda>(y, r). Inr (ys @ [y], r))) []) (map g xs) (concat (map enc xs))"
proof -
  have "parses (read_loop (length xs) (\<lambda>ys r. bindR (p r) (\<lambda>(y, r). Inr (ys @ [y], r))) []) (fold (\<lambda>x ys. ys @ [g x]) xs []) (concat (map enc xs))"
  proof (rule parses_loop [where P = "\<lambda>_. True"])
    fix x ys
    assume "x \<in> set xs"
    then show "parses (\<lambda>r. bindR (p r) (\<lambda>(y, r). Inr (ys @ [y], r))) (ys @ [g x]) (enc x) \<and> True"
      using parses_map [OF assms(2), of x "\<lambda>y. ys @ [y]"] by simp
  qed simp_all
  moreover have "fold (\<lambda>x ys. ys @ [g x]) xs ys = ys @ map g xs" for ys by (induction xs arbitrary: ys) auto
  ultimately show ?thesis by simp
qed

lemma parses_Schema:
  assumes "distinct (map fst sc)" "length sc < 2 ^ 64" "\<forall>f\<in>fst ` set sc. length f < 2 ^ 64"
  shows "parses (Schema_Deserialize rd []) sc (sw_out (Schema_Serialize sc StreamWriter_new))"
proof -
  have T: "parses (\<lambda>r. bindR (ReadObj rd 8 r) (\<lambda>(v, r). bindR (type_of_number v) (\<lambda>T. Inr (T, r)))) T (le_bytes 8 (type_number T))" for T
  proof -
    have "type_of_number (type_number T) = Inr T" "type_number T < 256 ^ 8" by (cases T; simp add: type_of_number_def all_types_def)+
    then have "parses (\<lambda>r. bindR (type_of_number (type_number T)) (\<lambda>T. Inr (T, r))) T []" using parses_return by simp
    from parses_bind [where q = "\<lambda>v r. bindR (type_of_number v) (\<lambda>T. Inr (T, r))", OF parses_ReadObj this] show ?thesis
      using \<open>type_number T < 256 ^ 8\<close> by simp
  qed
  have eq: "(\<lambda>m r. bindR (ReadString rd r) (\<lambda>(k, r). bindR (bindR (ReadObj rd 8 r) (\<lambda>(v, r). bindR (type_of_number v) (\<lambda>T. Inr (T, r))))
        (\<lambda>(v, r). Inr (AList.update k v m, r)))) =
      (\<lambda>schema r. bindR (ReadString rd r) (\<lambda>(k, r). bindR (ReadObj rd 8 r) (\<lambda>(v, r). bindR (type_of_number v) (\<lambda>T. Inr (AList.update k T schema, r)))))"
    by (intro ext) (auto simp: bindR_def split: sum.splits)
  have out: "sw_out (Schema_Serialize sc StreamWriter_new) =
      le_bytes 8 (length sc) @ concat (map (\<lambda>(k, v). (le_bytes 8 (length k) @ k) @ le_bytes 8 (type_number v)) sc)"
    unfolding Schema_Serialize_def
    by (subst sw_out_fold [where enc = "\<lambda>(k, v). (le_bytes 8 (length k) @ k) @ le_bytes 8 (type_number v)"]) (auto simp: StreamWriter_new_def)
  have k: "parses (ReadString rd) k (le_bytes 8 (length k) @ k)" if "(k, v) \<in> set sc" for k v
    using assms(3) that by (intro parses_ReadString) force
  have same: "map (\<lambda>(k, v). (k, v)) sc = sc" by simp
  from parses_alist [OF assms(1,2), where g = "\<lambda>v. v" and ek = "\<lambda>k. le_bytes 8 (length k) @ k" and ev = "\<lambda>v. le_bytes 8 (type_number v)", OF k T]
  show ?thesis unfolding Schema_Deserialize_def [abs_def] eq [symmetric] out same .
qed

lemma parses_key:
  assumes "key_fits T k"
  shows "parses (read_key rd T) k (sw_out (write_key T k StreamWriter_new))"
proof (cases "T = STRING")
  case True
  with assms obtain s where s: "k = Str s" "length s < 2 ^ 64" by (auto simp: key_fits_def split: attr_key.splits)
  then show ?thesis using True parses_map [OF parses_ReadString [OF s(2)], of Str] by (simp add: read_key_def [abs_def] write_key_def StreamWriter_new_def)
next
  case False
  with assms obtain a where a: "k = Num a" "int_min T \<le> a" "a \<le> int_max T" by (auto simp: key_fits_def split: attr_key.splits)
  let ?n = "nat (a mod 2 ^ int_width T)"
  have w: "(256 :: nat) ^ (int_width T div 8) = 2 ^ int_width T" using False by (cases T) simp_all
  have n: "?n < 2 ^ int_width T" by (simp add: nat_less_iff)
  have "int_cast T (int ?n) = int_cast T a" by (simp add: int_cast_def mod_diff_left_eq)
  then have c: "int_cast T (int ?n) = a" using int_cast_id [OF a(2,3) False] by simp
  have "parses (ReadObj rd (int_width T div 8)) ?n (le_bytes (int_width T div 8) ?n)" using n w by (intro parses_ReadObj) simp
  from parses_map [OF this, of "\<lambda>n. Num (int_cast T (int n))"] show ?thesis
    using False a(1) c by (simp add: read_key_def [abs_def] write_key_def StreamWriter_new_def)
qed

end

section \<open>Round trips\<close>

text \<open>The contract of a bitset that is written and read.\<close>

locale stream_bitset = byte_reader rd rest ok
  for rd :: "'r rd" and rest :: "'r \<Rightarrow> bytes" and ok :: "'r \<Rightarrow> bool" +
  fixes bm :: "'b bitset_methods"
    and inv :: "'b \<Rightarrow> bool"
    and bits :: "'b \<Rightarrow> nat \<Rightarrow> bool"
    and des :: "'b \<Rightarrow> 'r \<Rightarrow> ('b \<times> 'r) result"
    and ser :: "'b \<Rightarrow> bytes"
    and reload :: "'b \<Rightarrow> 'b"
  assumes attr_bitset: "attr_bitset bm inv bits"
    and ser_ok: "sw_out (bm_Serialize bm b w) = sw_out w @ ser b"
    and des_ok: "inv b \<Longrightarrow> parses (des (bm_new bm)) (reload b) (ser b)"
    and reload_ok: "inv b \<Longrightarrow> inv (reload b) \<and> bits (reload b) = bits b"

sublocale stream_bitset \<subseteq> ab: attr_bitset bm inv bits
  by (rule attr_bitset)

context stream_bitset
begin

definition mb_reload :: "'b multi_bitset_manager \<Rightarrow> 'b multi_bitset_manager" where
  "mb_reload m = m\<lparr>mb_bitsets := map reload (mb_bitsets m)\<rparr>"

definition mb_bytes :: "'b multi_bitset_manager \<Rightarrow> bytes" where
  "mb_bytes m = le_bytes 8 (mb_count m) @ concat (map (\<lambda>i. le_bytes 2 (nat (i mod 2 ^ 16))) (mb_bitset_map m)) @
     le_bytes 8 (length (mb_bitsets m)) @ concat (map ser (mb_bitsets m))"

lemma manager_out: "sw_out (MultiBitsetManager_Serialize bm m w) = sw_out w @ mb_bytes m"
  by (simp add: MultiBitsetManager_Serialize_def mb_bytes_def sw_out_fold [where enc = ser] ser_ok
      sw_out_fold [where enc = "\<lambda>i. le_bytes 2 (nat (i mod 2 ^ 16))"])

lemma as_int16_id: "- (2 ^ 15) \<le> i \<Longrightarrow> i < 2 ^ 15 \<Longrightarrow> as_int16 (nat (i mod 2 ^ 16)) = i"
  by (simp add: as_int16_def mod_add_left_eq mod_pos_pos_trivial)

lemma bitset_numbers:
  assumes "ab.mb_inv m" "i \<in> set (mb_bitset_map m)"
  shows "- (2 ^ 15) \<le> i" "i < 2 ^ 15" "length (mb_bitsets m) \<le> 2 ^ 15"
proof -
  have "card (ab.mb_used m) \<le> card {..<mb_count m}" by (rule card_mono) (auto simp: ab.mb_used_def)
  then show l: "length (mb_bitsets m) \<le> 2 ^ 15" using assms(1) by (simp add: ab.mb_inv_def)
  obtain j where "j < mb_count m" "i = mb_bitset_map m ! j" using assms by (metis ab.mb_inv_def in_set_conv_nth)
  then have "i = - 1 \<or> 0 \<le> i \<and> nat i < length (mb_bitsets m)" using assms(1) by (auto simp: ab.mb_inv_def ab.mb_used_def)
  then show "- (2 ^ 15) \<le> i" "i < 2 ^ 15" using l by auto
qed

lemma mb_reload_ok:
  assumes "ab.mb_inv m"
  shows "ab.mb_inv (mb_reload m)" "ab.mb_has (mb_reload m) = ab.mb_has m"
proof -
  have used: "ab.mb_used (mb_reload m) = ab.mb_used m" by (simp add: ab.mb_used_def mb_reload_def)
  show "ab.mb_inv (mb_reload m)" using assms reload_ok unfolding ab.mb_inv_def used by (auto simp: mb_reload_def)
  have "bits (reload (mb_bitsets m ! nat (mb_bitset_map m ! j))) = bits (mb_bitsets m ! nat (mb_bitset_map m ! j))" if "j \<in> ab.mb_used m" for j
    using assms that reload_ok by (auto simp: ab.mb_inv_def)
  then show "ab.mb_has (mb_reload m) = ab.mb_has m"
    using assms unfolding ab.mb_has_def used by (auto simp: mb_reload_def fun_eq_iff ab.mb_inv_def)
qed

lemma parses_manager:
  assumes "ab.mb_inv m"
  shows "parses (MultiBitsetManager_Deserialize bm rd des m0) (mb_reload m) (mb_bytes m)"
proof -
  have len: "length (mb_bitset_map m) = mb_count m" "mb_count m \<le> 2 ^ 15" "\<forall>b\<in>set (mb_bitsets m). inv b" using assms by (auto simp: ab.mb_inv_def)
  have "card (ab.mb_used m) \<le> card {..<mb_count m}" by (rule card_mono) (auto simp: ab.mb_used_def)
  then have n: "length (mb_bitsets m) \<le> 2 ^ 15" using assms len(2) by (simp add: ab.mb_inv_def)
  have id16: "parses (\<lambda>r. bindR (ReadObj rd 2 r) (\<lambda>(i, r). Inr (as_int16 i, r))) i (le_bytes 2 (nat (i mod 2 ^ 16)))" if "i \<in> set (mb_bitset_map m)" for i
  proof -
    have "nat (i mod 2 ^ 16) < 256 ^ 2" by (simp add: nat_less_iff)
    from parses_map [OF parses_ReadObj [OF this], of as_int16] show ?thesis using as_int16_id bitset_numbers [OF assms that] by simp
  qed
  have ids: "parses (read_loop (mb_count m) (\<lambda>ids r. bindR (ReadObj rd 2 r) (\<lambda>(i, r). Inr (ids @ [as_int16 i], r))) []) (mb_bitset_map m)
      (concat (map (\<lambda>i. le_bytes 2 (nat (i mod 2 ^ 16))) (mb_bitset_map m)))"
  proof -
    have "(\<lambda>ids r. bindR (bindR (ReadObj rd 2 r) (\<lambda>(i, r). Inr (as_int16 i, r))) (\<lambda>(y, r). Inr (ids @ [y], r))) =
        (\<lambda>ids r. bindR (ReadObj rd 2 r) (\<lambda>(i, r). Inr (ids @ [as_int16 i], r)))"
      by (intro ext) (auto simp: bindR_def split: sum.splits)
    then show ?thesis using parses_list [of "mb_bitset_map m" "\<lambda>r. bindR (ReadObj rd 2 r) (\<lambda>(i, r). Inr (as_int16 i, r))" "\<lambda>i. i", OF _ id16] len(1,2) by simp
  qed
  have bs: "parses (read_loop (length (mb_bitsets m)) (\<lambda>bs r. bindR (des (bm_new bm) r) (\<lambda>(b, r). Inr (bs @ [b], r))) []) (map reload (mb_bitsets m))
      (concat (map ser (mb_bitsets m)))"
    using parses_list [of "mb_bitsets m" "des (bm_new bm)" reload ser] des_ok len(3) n by simp
  have fin: "mb_reload m = m0\<lparr>mb_count := mb_count m, mb_bitset_map := mb_bitset_map m, mb_bitsets := map reload (mb_bitsets m)\<rparr>"
    by (simp add: mb_reload_def)
  show ?thesis
    unfolding MultiBitsetManager_Deserialize_def [abs_def] mb_bytes_def fin
    by (rule parses_bind [OF parses_ReadObj], use len(2) in simp, rule parses_bind [OF ids], rule parses_bind [OF parses_ReadObj], use n in simp,
        rule parses_map [OF bs, of "\<lambda>bs. m0\<lparr>mb_count := mb_count m, mb_bitset_map := mb_bitset_map m, mb_bitsets := bs\<rparr>"])
qed

text \<open>A value map.\<close>

definition ms_reload :: "(attr_key \<times> 'b multi_bitset_manager) list \<Rightarrow> (attr_key \<times> 'b multi_bitset_manager) list" where
  "ms_reload ms = map (\<lambda>(k, m). (k, mb_reload m)) ms"

definition key_bytes :: "attr_value_type \<Rightarrow> attr_key \<Rightarrow> bytes" where
  "key_bytes T k = sw_out (write_key T k StreamWriter_new)"

definition ms_bytes :: "attr_value_type \<Rightarrow> (attr_key \<times> 'b multi_bitset_manager) list \<Rightarrow> bytes" where
  "ms_bytes T ms = le_bytes 8 (length ms) @ concat (map (\<lambda>(k, m). key_bytes T k @ mb_bytes m) ms)"

lemma key_out: "sw_out (write_key T k w) = sw_out w @ key_bytes T k"
  by (simp add: key_bytes_def write_key_def StreamWriter_new_def)

lemma map_out: "sw_out (serialize_map bm T ms w) = sw_out w @ ms_bytes T ms"
  unfolding serialize_map_def ms_bytes_def
  by (subst sw_out_fold [where enc = "\<lambda>(k, m). key_bytes T k @ mb_bytes m"]) (auto simp: manager_out key_out)

lemma parses_map_of_type:
  assumes "ab.avm_inv vm" "vm_fits vm"
  shows "parses (deserialize_map bm rd des T []) (ms_reload (vm T)) (ms_bytes T (vm T))"
  unfolding deserialize_map_def [abs_def] ms_reload_def ms_bytes_def
proof (rule parses_alist)
  fix k m
  assume km: "(k, m) \<in> set (vm T)"
  then show "parses (read_key rd T) k (key_bytes T k)" using assms(2) unfolding key_bytes_def by (intro parses_key) (force simp: vm_fits_def)
  show "parses (MultiBitsetManager_Deserialize bm rd des (MultiBitsetManager_new 1)) (mb_reload m) (mb_bytes m)"
    using assms(1) km by (intro parses_manager) (force simp: ab.avm_inv_def)
qed (use assms in \<open>auto simp: ab.avm_inv_def vm_fits_def\<close>)

lemma parses_maps:
  assumes "ab.avm_inv vm" "vm_fits vm"
  shows "distinct Ts \<Longrightarrow> \<forall>T\<in>set Ts. vm0 T = [] \<Longrightarrow>
    parses (read_maps bm rd des Ts vm0) (\<lambda>T. if T \<in> set Ts then ms_reload (vm T) else vm0 T) (concat (map (\<lambda>T. ms_bytes T (vm T)) Ts))"
proof (induction Ts arbitrary: vm0)
  case Nil
  then show ?case using parses_return by simp
next
  case (Cons T Ts)
  let ?vm = "vm0(T := ms_reload (vm T))"
  have "parses (read_maps bm rd des Ts ?vm) (\<lambda>T'. if T' \<in> set Ts then ms_reload (vm T') else ?vm T') (concat (map (\<lambda>T. ms_bytes T (vm T)) Ts))"
    using Cons.prems by (intro Cons.IH) auto
  moreover have "(\<lambda>T'. if T' \<in> set Ts then ms_reload (vm T') else ?vm T') = (\<lambda>T'. if T' \<in> set (T # Ts) then ms_reload (vm T') else vm0 T')"
    using Cons.prems by auto
  ultimately show ?case
    using parses_bind [where q = "\<lambda>ms. read_maps bm rd des Ts (vm0(T := ms))", OF parses_map_of_type [OF assms, of T]] Cons.prems(2) by simp
qed

definition vm_reload :: "'b attr_value_map \<Rightarrow> 'b attr_value_map" where
  "vm_reload vm = (\<lambda>T. ms_reload (vm T))"

definition vm_bytes :: "'b attr_value_map \<Rightarrow> bytes" where
  "vm_bytes vm = concat (map (\<lambda>T. ms_bytes T (vm T)) map_order)"

lemma vm_out: "sw_out (AttrValueMap_Serialize bm vm w) = sw_out w @ vm_bytes vm"
  unfolding AttrValueMap_Serialize_def vm_bytes_def by (rule sw_out_fold) (rule map_out)

lemma parses_vm:
  assumes "ab.avm_inv vm" "vm_fits vm"
  shows "parses (AttrValueMap_Deserialize bm rd des AttrValueMap_new) (vm_reload vm) (vm_bytes vm)"
proof -
  have all: "T \<in> set map_order" for T by (cases T) (simp_all add: map_order_def)
  have "distinct map_order" by (simp add: map_order_def)
  from parses_maps [OF assms this, of AttrValueMap_new] show ?thesis
    using all unfolding AttrValueMap_Deserialize_def [abs_def] vm_reload_def vm_bytes_def by (simp add: AttrValueMap_new_def)
qed

lemma reload_alist:
  "map fst (map (\<lambda>(k, v). (k, g v)) ms) = map fst ms" "snd ` set (map (\<lambda>(k, v). (k, g v)) ms) = g ` snd ` set ms"
  by (induction ms) auto

lemma vm_reload_ok:
  assumes "ab.avm_inv vm"
  shows "ab.avm_inv (vm_reload vm)" "ab.avm_has (vm_reload vm) = ab.avm_has vm"
proof -
  have "\<forall>m\<in>snd ` set (vm T). ab.mb_inv (mb_reload m)" for T using assms mb_reload_ok(1) unfolding ab.avm_inv_def by blast
  moreover have "distinct (map fst (vm T))" for T using assms by (simp add: ab.avm_inv_def)
  ultimately show "ab.avm_inv (vm_reload vm)"
    unfolding ab.avm_inv_def vm_reload_def ms_reload_def reload_alist by simp
  have "map_of (ms_reload ms) v = map_option mb_reload (map_of ms v)" for ms v
    unfolding ms_reload_def map_of_map by simp
  moreover have "ab.mb_has (mb_reload m) = ab.mb_has m" if "map_of (vm T) v = Some m" for T v m
    using mb_reload_ok(2) [OF ab.avm_inv_manager [OF assms that]] .
  ultimately show "ab.avm_has (vm_reload vm) = ab.avm_has vm"
    unfolding ab.avm_has_def vm_reload_def by (intro ext) auto
qed

text \<open>The index.\<close>

definition ai_reload :: "'b attr_index \<Rightarrow> 'b attr_index" where
  "ai_reload x = x\<lparr>ai_field_2_value_map := map (\<lambda>(f, vm). (f, vm_reload vm)) (ai_field_2_value_map x)\<rparr>"

lemma parses_index:
  assumes "ab.ai_inv x" "index_fits x"
  shows "parses (AttributeIndex_Deserialize bm rd des AttributeIndex_new) (ai_reload x) (sw_out (AttributeIndex_Serialize bm x StreamWriter_new))"
proof -
  let ?fm = "ai_field_2_value_map x" and ?sc = "ai_field_type_map x"
  have schema: "parses (Schema_Deserialize rd []) ?sc (sw_out (Schema_Serialize ?sc StreamWriter_new))"
    using assms by (intro parses_Schema) (auto simp: ab.ai_inv_def index_fits_def)
  have maps: "parses (\<lambda>r. bindR (ReadObj rd 8 r) (\<lambda>(n, r). read_loop n (\<lambda>fm r. bindR (ReadString rd r) (\<lambda>(term, r).
       bindR (AttrValueMap_Deserialize bm rd des AttrValueMap_new r) (\<lambda>(vm, r). Inr (AList.update term vm fm, r)))) [] r))
      (map (\<lambda>(f, vm). (f, vm_reload vm)) ?fm) (le_bytes 8 (length ?fm) @ concat (map (\<lambda>(f, vm). (le_bytes 8 (length f) @ f) @ vm_bytes vm) ?fm))"
  proof (rule parses_alist)
    fix f vm
    assume fv: "(f, vm) \<in> set ?fm"
    then show "parses (ReadString rd) f (le_bytes 8 (length f) @ f)" using assms(2) by (intro parses_ReadString) (auto simp: index_fits_def)
    have "vm_fits vm" "ab.avm_inv vm" using assms fv by (force simp: index_fits_def ab.ai_inv_def)+
    then show "parses (AttrValueMap_Deserialize bm rd des AttrValueMap_new) (vm_reload vm) (vm_bytes vm)" by (rule parses_vm [rotated])
  qed (use assms in \<open>auto simp: ab.ai_inv_def index_fits_def\<close>)
  have out: "sw_out (AttributeIndex_Serialize bm x StreamWriter_new) = sw_out (Schema_Serialize ?sc StreamWriter_new) @
      (le_bytes 8 (length ?fm) @ concat (map (\<lambda>(f, vm). (le_bytes 8 (length f) @ f) @ vm_bytes vm) ?fm))"
    unfolding AttributeIndex_Serialize_def
    by (subst sw_out_fold [where enc = "\<lambda>(f, vm). (le_bytes 8 (length f) @ f) @ vm_bytes vm"]) (auto simp: vm_out)
  have eq: "(\<lambda>r. bindR (ReadObj rd 8 r) (\<lambda>(n, r). bindR (read_loop n body [] r) (\<lambda>(fm, r). Inr (h fm, r)))) =
      (\<lambda>r. bindR (bindR (ReadObj rd 8 r) (\<lambda>(n, r). read_loop n body [] r)) (\<lambda>(fm, r). Inr (h fm, r)))" for body and h :: "(bytes \<times> 'b attr_value_map) list \<Rightarrow> 'b attr_index"
    by (intro ext) (auto simp: bindR_def split: sum.splits)
  have fin: "ai_reload x = AttributeIndex_new\<lparr>ai_field_type_map := ?sc, ai_field_2_value_map := map (\<lambda>(f, vm). (f, vm_reload vm)) ?fm\<rparr>"
    by (simp add: ai_reload_def AttributeIndex_new_def)
  have new: "ai_field_type_map AttributeIndex_new = []" "ai_field_2_value_map AttributeIndex_new = []" by (simp_all add: AttributeIndex_new_def)
  show ?thesis
    unfolding out AttributeIndex_Deserialize_def [abs_def] new fin
    by (rule parses_bind [OF schema], unfold eq,
        rule parses_map [OF maps, of "\<lambda>fm. AttributeIndex_new\<lparr>ai_field_type_map := ?sc, ai_field_2_value_map := fm\<rparr>"])
qed

lemma ai_reload_rel:
  assumes "ab.ai_rel x s"
  shows "ab.ai_rel (ai_reload x) s"
proof -
  let ?fm = "ai_field_2_value_map x"
  have inv: "ab.ai_inv x" using assms by (simp add: ab.ai_rel_def)
  have mo: "map_of (ai_field_2_value_map (ai_reload x)) f = map_option vm_reload (map_of ?fm f)" for f
    by (simp add: ai_reload_def map_of_map)
  have fm: "ai_field_2_value_map (ai_reload x) = map (\<lambda>(f, vm). (f, vm_reload vm)) ?fm" by (simp add: ai_reload_def)
  have "\<forall>vm\<in>vm_reload ` snd ` set ?fm. ab.avm_inv vm" using inv vm_reload_ok(1) unfolding ab.ai_inv_def by blast
  then have "\<forall>vm\<in>snd ` set (ai_field_2_value_map (ai_reload x)). ab.avm_inv vm" unfolding fm reload_alist .
  moreover have "map fst (ai_field_2_value_map (ai_reload x)) = map fst ?fm" unfolding fm by (rule reload_alist)
  moreover have "dom (map_of (ai_field_2_value_map (ai_reload x))) = dom (map_of ?fm)" unfolding dom_def mo by simp
  moreover have ty: "ai_field_type_map (ai_reload x) = ai_field_type_map x" by (simp add: ai_reload_def)
  ultimately have "ab.ai_inv (ai_reload x)" using inv unfolding ab.ai_inv_def by metis
  moreover have "ab.ai_has (ai_reload x) f T v j p \<longleftrightarrow> ab.ai_has x f T v j p" for f T v j p
  proof (cases "map_of ?fm f")
    case (Some vm)
    then show ?thesis using vm_reload_ok(2) [OF ab.ai_inv_field [OF inv Some]] unfolding ab.ai_has_def mo by simp
  qed (simp add: ab.ai_has_def mo)
  ultimately show ?thesis using assms ty unfolding ab.ai_rel_def by simp
qed

end

section \<open>Both bitsets\<close>

interpretation io_fast: stream_bitset IOStreamReader_Read io_rest io_ok fast_bitset_methods fb_inv fbits
  "FastBitset_Deserialize IOStreamReader_Read" "\<lambda>b. sw_out (FastBitset_Serialize b StreamWriter_new)" "fb_reload FastBitset_new"
proof (unfold_locales, goal_cases)
  case (1 b w)
  show ?case by (simp add: fast_bitset_methods_def FastBitset_Serialize_def Let_def StreamWriter_new_def)
next
  case (2 b)
  then show ?case using io.parses_FastBitset [of b FastBitset_new] by (simp add: fast_bitset_methods_def)
next
  case (3 b)
  then show ?case using FastBitset_reload_bits [of b FastBitset_new] by blast
qed

text \<open>
  What the documentation of the Roaring bitmap promises of \<open>write\<close> and \<open>readSafe\<close>: a bitmap can be read from
  what was written.
\<close>

locale portable_bitmap = roaring_bitmap rr elems for rr :: "'r roaring" and elems :: "'r \<Rightarrow> nat set" +
  assumes rr_portable: "elems r \<subseteq> {..<2 ^ 32} \<Longrightarrow> length (rr_write rr r) < 2 ^ 64 \<and>
      (if rr_write rr r = [] then elems r = {} else \<exists>r'. rr_readSafe rr (rr_write rr r) = Some r' \<and> elems r' = elems r)"

sublocale portable_bitmap \<subseteq> bounded_attr: attr_bitset "sparse_bitset_methods rr" "\<lambda>r. elems r \<subseteq> {..<2 ^ 32}" "\<lambda>r p. p \<in> elems r"
proof (unfold_locales, goal_cases)
  case (2 b p v)
  have "p < 2 ^ 32" using 2(2) by simp
  then have "elems (rr_add rr p b) = insert p (elems b)" "elems (rr_remove rr p b) = elems b - {p}" using rr_add rr_remove by blast+
  then show ?case using 2(1) \<open>p < 2 ^ 32\<close> by (auto simp: sparse_bitset_methods_def SparseBitset_Set_def fun_eq_iff)
next
  case (3 b p)
  then show ?case using sparse_attr.test_ok by blast
qed (auto simp: sparse_bitset_methods_def SparseBitset_Or_def SparseBitset_And_def SparseBitset_Clear_def rr_new rr_or rr_and split: option.splits)

context portable_bitmap
begin

definition rr_bytes :: "'r \<Rightarrow> bytes" where
  "rr_bytes r = le_bytes 8 (length (rr_write rr r)) @ rr_write rr r"

definition rr_reload :: "'r \<Rightarrow> 'r" where
  "rr_reload r = (if rr_write rr r = [] then rr_new rr else the (rr_readSafe rr (rr_write rr r)))"

lemma parses_SparseBitset:
  assumes "elems r \<subseteq> {..<2 ^ 32}"
  shows "io.parses (SparseBitset_Deserialize rr IOStreamReader_Read (rr_new rr)) (rr_reload r) (rr_bytes r)"
  unfolding SparseBitset_Deserialize_def [abs_def] rr_bytes_def
proof (rule io.parses_bind [OF io.parses_ReadObj])
  let ?bs = "rr_write rr r"
  show "io.parses (\<lambda>s. if length ?bs = 0 then Inr (rr_new rr, s)
      else bindR (IOStreamReader_Read (length ?bs) s) (\<lambda>(buffer, s). case rr_readSafe rr buffer of None \<Rightarrow> Inl Std_runtime_error | Some r \<Rightarrow> Inr (r, s)))
    (rr_reload r) ?bs"
  proof (cases "?bs = []")
    case True
    then show ?thesis using io.parses_return by (simp add: rr_reload_def)
  next
    case False
    then obtain r' where r': "rr_readSafe rr ?bs = Some r'" using rr_portable [OF assms] by auto
    have "io.parses (\<lambda>s. case rr_readSafe rr ?bs of None \<Rightarrow> Inl Std_runtime_error | Some r \<Rightarrow> Inr (r, s)) r' []" unfolding r' using io.parses_return by simp
    from io.parses_bind [where q = "\<lambda>buffer s. case rr_readSafe rr buffer of None \<Rightarrow> Inl Std_runtime_error | Some r \<Rightarrow> Inr (r, s)", OF io.parses_read [OF refl] this]
    show ?thesis using False r' by (simp add: rr_reload_def)
  qed
qed (use rr_portable [OF assms] in simp)

lemma rr_reload_ok: "elems r \<subseteq> {..<2 ^ 32} \<Longrightarrow> elems (rr_reload r) = elems r"
  using rr_portable [of r] rr_new by (auto simp: rr_reload_def split: if_splits)

end

sublocale portable_bitmap \<subseteq> sparse_stream: stream_bitset IOStreamReader_Read io_rest io_ok "sparse_bitset_methods rr"
  "\<lambda>r. elems r \<subseteq> {..<2 ^ 32}" "\<lambda>r p. p \<in> elems r" "SparseBitset_Deserialize rr IOStreamReader_Read" rr_bytes rr_reload
proof (unfold_locales, goal_cases)
  case (1 b w)
  show ?case by (simp add: sparse_bitset_methods_def SparseBitset_Serialize_def rr_bytes_def)
next
  case (2 b)
  then show ?case using parses_SparseBitset [of b] by (simp add: sparse_bitset_methods_def)
next
  case (3 b)
  then show ?case using rr_reload_ok [of b] by simp
qed

lemma list_portable:
  assumes "set r \<subseteq> {..<2 ^ 32}"
  shows "length (rr_write list_roaring r) < 2 ^ 64" "rr_readSafe list_roaring (rr_write list_roaring r) = Some (remdups r)"
    and "rr_write list_roaring r = [] \<Longrightarrow> set r = {}"
proof -
  have "length (remdups r) = card (set r)" by (simp add: length_remdups_card_conv)
  also have "\<dots> \<le> card {..<2 ^ 32 :: nat}" using assms by (intro card_mono) auto
  finally have n: "length (remdups r) \<le> 2 ^ 32" by simp
  have w: "rr_write list_roaring r = concat (map (le_bytes 4) (remdups r))" by (simp add: list_roaring_def)
  then have l: "length (rr_write list_roaring r) = length (remdups r) * 4" by (simp only: length_concat_le_bytes)
  then show "length (rr_write list_roaring r) < 2 ^ 64" using n by simp
  show "set r = {}" if "rr_write list_roaring r = []" using that l by simp
  have "decode_array 4 (length (remdups r)) (concat (map (le_bytes 4) (remdups r))) = remdups r"
    using assms by (intro decode_array_concat) auto
  then show "rr_readSafe list_roaring (rr_write list_roaring r) = Some (remdups r)" using l w by (simp add: list_roaring_def)
qed

interpretation list_stream: portable_bitmap list_roaring set
proof
  fix r :: "nat list"
  assume r: "set r \<subseteq> {..<2 ^ 32}"
  show "length (rr_write list_roaring r) < 2 ^ 64 \<and>
      (if rr_write list_roaring r = [] then set r = {} else \<exists>r'. rr_readSafe list_roaring (rr_write list_roaring r) = Some r' \<and> set r' = set r)"
    using list_portable [OF r] by (metis set_remdups)
qed

section \<open>Properties\<close>

text \<open>An index written to a stream and read into a new one, in front of other bytes.\<close>

definition reloads ::
  "'b bitset_methods \<Rightarrow> ('b \<Rightarrow> io_stream_reader \<Rightarrow> ('b \<times> io_stream_reader) result) \<Rightarrow> 'b attr_index \<Rightarrow>
    (bytes \<rightharpoonup> attr_value_type) \<times> attr_table \<Rightarrow> bool" where
  "reloads bm des x s \<longleftrightarrow> (\<forall>suffix. \<exists>y r. AttributeIndex_Deserialize bm IOStreamReader_Read des AttributeIndex_new
      (IOStreamReader_new (sw_out (AttributeIndex_Serialize bm x StreamWriter_new) @ suffix) 0) = Inr (y, r) \<and>
    io_rest r = suffix \<and> index_answers bm y s)"

lemma io_stream_new: "io_ok (IOStreamReader_new bs 0)" "io_rest (IOStreamReader_new bs 0) = bs"
  by (simp_all add: io_ok_def io_rest_def IOStreamReader_new_def)

lemma fast_reloads:
  assumes "fast_attr.ai_rel x s" "index_fits x"
  shows "reloads fast_bitset_methods (FastBitset_Deserialize IOStreamReader_Read) x s"
  unfolding reloads_def
proof (intro allI)
  fix suffix
  have "fast_attr.ai_inv x" using assms(1) by (simp add: fast_attr.ai_rel_def)
  from io.parsesD [OF io_fast.parses_index [OF this assms(2)] io_stream_new, of suffix] obtain r where
    "AttributeIndex_Deserialize fast_bitset_methods IOStreamReader_Read (FastBitset_Deserialize IOStreamReader_Read) AttributeIndex_new
      (IOStreamReader_new (sw_out (AttributeIndex_Serialize fast_bitset_methods x StreamWriter_new) @ suffix) 0) = Inr (io_fast.ai_reload x, r)" "io_rest r = suffix" .
  then show "\<exists>y r. AttributeIndex_Deserialize fast_bitset_methods IOStreamReader_Read (FastBitset_Deserialize IOStreamReader_Read) AttributeIndex_new
      (IOStreamReader_new (sw_out (AttributeIndex_Serialize fast_bitset_methods x StreamWriter_new) @ suffix) 0) = Inr (y, r) \<and>
      io_rest r = suffix \<and> index_answers fast_bitset_methods y s"
    using fast_attr.ai_rel_answers [OF io_fast.ai_reload_rel [OF assms(1)]] by blast
qed

context portable_bitmap
begin

lemma sparse_reloads:
  assumes "bounded_attr.ai_rel x s" "index_fits x"
  shows "reloads (sparse_bitset_methods rr) (SparseBitset_Deserialize rr IOStreamReader_Read) x s"
  unfolding reloads_def
proof (intro allI)
  fix suffix
  let ?m = "sparse_bitset_methods rr" and ?d = "SparseBitset_Deserialize rr IOStreamReader_Read"
  have "bounded_attr.ai_inv x" using assms(1) unfolding bounded_attr.ai_rel_def by blast
  from io.parsesD [OF sparse_stream.parses_index [OF this assms(2)] io_stream_new, of suffix] obtain r where
    "AttributeIndex_Deserialize ?m IOStreamReader_Read ?d AttributeIndex_new
      (IOStreamReader_new (sw_out (AttributeIndex_Serialize ?m x StreamWriter_new) @ suffix) 0) = Inr (sparse_stream.ai_reload x, r)" "io_rest r = suffix" .
  then show "\<exists>y r. AttributeIndex_Deserialize ?m IOStreamReader_Read ?d AttributeIndex_new
      (IOStreamReader_new (sw_out (AttributeIndex_Serialize ?m x StreamWriter_new) @ suffix) 0) = Inr (y, r) \<and> io_rest r = suffix \<and> index_answers ?m y s"
    using bounded_attr.ai_rel_answers [OF sparse_stream.ai_reload_rel [OF assms(1)]] by blast
qed

lemmas bounded_index_rel = bounded_attr.exec_ops_rel [OF bounded_attr.ai_rel_new]

lemma sparse_index_reloads:
  assumes "ops_ok ops (Map.empty, \<lambda>f T v j p. False)" "foldR (exec_op (sparse_bitset_methods rr)) ops AttributeIndex_new = Inr x" "index_fits x"
  shows "reloads (sparse_bitset_methods rr) (SparseBitset_Deserialize rr IOStreamReader_Read) x (fold spec_op ops (Map.empty, \<lambda>f T v j p. False))"
  using bounded_index_rel [OF assms(1)] assms(2) sparse_reloads [OF _ assms(3)] by auto

end

text \<open>
  Claim C25. Serialization of the attribute index: whatever operations built the index, with either kind of
  bitset, reading back what was written succeeds, consumes exactly these bytes and gives an index with the
  same types and the same values for every element.
\<close>

theorem AttributeIndex_serialize_roundtrip:
  assumes "portable_bitmap rr elems" "ops_ok ops (Map.empty, \<lambda>f T v j p. False)"
    and "s = fold spec_op ops (Map.empty, \<lambda>f T v j p. False)"
    and "foldR (exec_op fast_bitset_methods) ops AttributeIndex_new = Inr x" "index_fits x"
    and "foldR (exec_op (sparse_bitset_methods rr)) ops AttributeIndex_new = Inr y" "index_fits y"
  shows "reloads fast_bitset_methods (FastBitset_Deserialize IOStreamReader_Read) x s \<and>
    reloads (sparse_bitset_methods rr) (SparseBitset_Deserialize rr IOStreamReader_Read) y s"
  using fast_attr.exec_ops_rel [OF fast_attr.ai_rel_new assms(2)] assms(4) fast_reloads [OF _ assms(5)]
    portable_bitmap.sparse_index_reloads [OF assms(1,2,6,7)] unfolding assms(3) by auto

lemma one_insert_fits:
  assumes "foldR (exec_op bm) [AInsert [\<lparr>at_name = [1], at_type = INT8, at_value = [Num 5]\<rparr>] 3 0] AttributeIndex_new = Inr x"
  shows "index_fits x"
proof -
  obtain m where "x = \<lparr>ai_field_type_map = [([1], INT8)], ai_field_2_value_map = [([1], AttrValueMap_new(INT8 := [(Num 5, m)]))]\<rparr>"
    using assms by (auto simp: AttributeIndex_Insert_def insert_attr_def insert_by_type_def ValueMap_Insert_def AttributeIndex_new_def SetTypeOfField_def
        AttrValueMap_new_def bindR_Inr_iff)
  then show ?thesis by (simp add: index_fits_def vm_fits_def key_fits_def AttrValueMap_new_def int_type_defs)
qed

theorem AttributeIndex_serialize_roundtrip_witness:
  "\<exists>x y r. foldR (exec_op (sparse_bitset_methods list_roaring)) [AInsert [\<lparr>at_name = [1], at_type = INT8, at_value = [Num 5]\<rparr>] 3 0] AttributeIndex_new = Inr x \<and>
    AttributeIndex_Deserialize (sparse_bitset_methods list_roaring) IOStreamReader_Read (SparseBitset_Deserialize list_roaring IOStreamReader_Read) AttributeIndex_new
      (IOStreamReader_new (sw_out (AttributeIndex_Serialize (sparse_bitset_methods list_roaring) x StreamWriter_new) @ [7]) 0) = Inr (y, r) \<and>
    io_rest r = [7] \<and> GetTypeOfField y [1] = Inr INT8"
proof -
  let ?ops = "[AInsert [\<lparr>at_name = [1], at_type = INT8, at_value = [Num 5]\<rparr>] 3 0]"
  define s where "s = fold spec_op ?ops (Map.empty, \<lambda>f T v j p. False)"
  have ok: "ops_ok ?ops (Map.empty, \<lambda>f T v j p. False)" by simp
  obtain x where x: "foldR (exec_op fast_bitset_methods) ?ops AttributeIndex_new = Inr x" using fast_attr.exec_ops_rel [OF fast_attr.ai_rel_new ok] by blast
  obtain y where y: "foldR (exec_op (sparse_bitset_methods list_roaring)) ?ops AttributeIndex_new = Inr y"
    using list_stream.bounded_index_rel [OF ok] by blast
  from AttributeIndex_serialize_roundtrip [OF list_stream.portable_bitmap_axioms ok s_def x one_insert_fits [OF x] y one_insert_fits [OF y]]
  have "reloads (sparse_bitset_methods list_roaring) (SparseBitset_Deserialize list_roaring IOStreamReader_Read) y s" by blast
  then obtain z r where z: "AttributeIndex_Deserialize (sparse_bitset_methods list_roaring) IOStreamReader_Read (SparseBitset_Deserialize list_roaring IOStreamReader_Read) AttributeIndex_new
      (IOStreamReader_new (sw_out (AttributeIndex_Serialize (sparse_bitset_methods list_roaring) y StreamWriter_new) @ [7]) 0) = Inr (z, r)" "io_rest r = [7]"
    "index_answers (sparse_bitset_methods list_roaring) z s" unfolding reloads_def by blast
  have "fst s [1] = Some INT8" by (simp add: s_def)
  then have "GetTypeOfField z [1] = Inr INT8" using z(3) by (simp add: index_answers_def)
  then show ?thesis using y z(1,2) by blast
qed

end
