(* ===== verification/Executors.thy ===== *)
theory Executors
  imports Expressions
begin

text \<open>
  Evaluation of a filter expression on the attribute index: \<open>src/attr/executor/*\<close> with the filters of
  \<open>src/impl/filter/white_list_filter\<close> and \<open>black_list_filter\<close>.

  The bitsets that executors own live in a store (a list, a pointer is a position in it), since a logical
  executor works on the bitset of its left operand through its own pointer. An executor keeps its managers
  as they are when \<open>Init\<close> looks them up: the index does not change while executors use it.
\<close>

section \<open>Filters and executors\<close>

text \<open>
  The filter of an executor: a white list or a black list over a bitset, or the white list with the function
  that a logical executor installs, which calls the filters of its operands.
\<close>

datatype attr_filter = White_bitset nat | White_func logical_operator | Black_bitset nat

record executor_base =
  ex_only_bitset :: bool
  ex_filter :: "attr_filter option"
  ex_bitset :: "nat option"
  ex_own_bitset :: bool

definition Executor_new :: executor_base where
  "Executor_new = \<lparr>ex_only_bitset = True, ex_filter = None, ex_bitset = None, ex_own_bitset = False\<rparr>"

datatype 'b executor =
    ComparisonExecutor executor_base comparison_operator attribute "'b multi_bitset_manager option list"
  | IntegerListExecutor executor_base bool attribute "'b multi_bitset_manager option list"
  | StringListExecutor executor_base bool attribute "'b multi_bitset_manager option list"
  | LogicalExecutor executor_base logical_operator "'b executor" "'b executor"

fun ex_base :: "'b executor \<Rightarrow> executor_base" where
  "ex_base (ComparisonExecutor e op a ms) = e"
| "ex_base (IntegerListExecutor e n a ms) = e"
| "ex_base (StringListExecutor e n a ms) = e"
| "ex_base (LogicalExecutor e op l r) = e"

section \<open>Construction\<close>

text \<open>A cast to a pointer of another class yields null, which the constructors reject.\<close>

definition ComparisonExecutor_new ::
  "'b attr_index \<Rightarrow> expression \<Rightarrow> comparison_operator \<Rightarrow> expression \<Rightarrow> 'b executor result" where
  "ComparisonExecutor_new x left op right =
     (case left of
        FieldExpression field_name \<Rightarrow>
          bindR (GetTypeOfField x field_name) (\<lambda>value_type.
            if value_type = STRING
            then (case right of
                    StringConstant c \<Rightarrow> Inr (ComparisonExecutor Executor_new op \<lparr>at_name = field_name, at_type = STRING, at_value = [Str c]\<rparr> [])
                  | _ \<Rightarrow> Inl (Throw INTERNAL_ERROR))
            else (case right of
                    NumericConstant c \<Rightarrow> bindR (GetNumericValue value_type c) (\<lambda>v.
                      Inr (ComparisonExecutor Executor_new op \<lparr>at_name = field_name, at_type = value_type, at_value = [Num v]\<rparr> []))
                  | _ \<Rightarrow> Inl (Throw INTERNAL_ERROR)))
      | _ \<Rightarrow> Inl (Throw INTERNAL_ERROR))"

text \<open>\<open>copy_vector\<close> converts every value with a \<open>static_cast\<close>.\<close>

definition copy_vector :: "attr_value_type \<Rightarrow> int list \<Rightarrow> attr_key list" where
  "copy_vector T from = map (\<lambda>v. Num (int_cast T v)) from"

definition IntegerListExecutor_new :: "'b attr_index \<Rightarrow> expression \<Rightarrow> bool \<Rightarrow> expression \<Rightarrow> 'b executor result" where
  "IntegerListExecutor_new x field is_not_in values =
     (case field of
        FieldExpression field_name \<Rightarrow>
          bindR (case values of IntListConstant_int64 vs \<Rightarrow> Inr vs | IntListConstant_uint64 vs \<Rightarrow> Inr vs | _ \<Rightarrow> Inl (Throw INTERNAL_ERROR)) (\<lambda>vs.
          bindR (GetTypeOfField x field_name) (\<lambda>value_type.
            if value_type = STRING then Inl (Throw INTERNAL_ERROR)
            else Inr (IntegerListExecutor Executor_new is_not_in
                   \<lparr>at_name = field_name, at_type = value_type, at_value = copy_vector value_type vs\<rparr> [])))
      | _ \<Rightarrow> Inl (Throw INTERNAL_ERROR))"

definition StringListExecutor_new :: "expression \<Rightarrow> bool \<Rightarrow> expression \<Rightarrow> 'b executor result" where
  "StringListExecutor_new field is_not_in values =
     (case field of
        FieldExpression field_name \<Rightarrow>
          (case values of
             StrListConstant vs \<Rightarrow> Inr (StringListExecutor Executor_new is_not_in \<lparr>at_name = field_name, at_type = STRING, at_value = map Str vs\<rparr> [])
           | _ \<Rightarrow> Inl (Throw INTERNAL_ERROR))
      | _ \<Rightarrow> Inl (Throw INTERNAL_ERROR))"

text \<open>\<open>Executor::MakeInstance\<close> with the constructor of \<open>LogicalExecutor\<close>.\<close>

fun MakeInstance :: "'b attr_index \<Rightarrow> expression \<Rightarrow> 'b executor result" where
  "MakeInstance x (ComparisonExpression left op right) = ComparisonExecutor_new x left op right"
| "MakeInstance x (IntListExpression field is_not_in values) = IntegerListExecutor_new x field is_not_in values"
| "MakeInstance x (StrListExpression field is_not_in values) = StringListExecutor_new field is_not_in values"
| "MakeInstance x (LogicalExpression left op right) =
     bindR (MakeInstance x left) (\<lambda>l. bindR (MakeInstance x right) (\<lambda>r. Inr (LogicalExecutor Executor_new op l r)))"
| "MakeInstance x _ = Inl (Throw INTERNAL_ERROR)"

section \<open>Init, Clear and Run\<close>

text \<open>\<open>MakeRawInstance\<close> allocates in the store.\<close>

definition init_bitset :: "'b bitset_methods \<Rightarrow> executor_base \<Rightarrow> 'b list \<Rightarrow> 'b list \<times> executor_base" where
  "init_bitset bm e h =
     (if ex_bitset e = None then (h @ [bm_new bm], e\<lparr>ex_bitset := Some (length h), ex_own_bitset := True\<rparr>) else (h, e))"

fun Executor_Init :: "'b bitset_methods \<Rightarrow> 'b attr_index \<Rightarrow> 'b executor \<Rightarrow> 'b list \<Rightarrow> 'b list \<times> 'b executor" where
  "Executor_Init bm x (ComparisonExecutor e op a ms) h =
     (let (h, e) = init_bitset bm e h in (h, ComparisonExecutor e op a (GetBitsetsByAttr x a)))"
| "Executor_Init bm x (IntegerListExecutor e n a ms) h =
     (let (h, e) = init_bitset bm e h in (h, IntegerListExecutor e n a (GetBitsetsByAttr x a)))"
| "Executor_Init bm x (StringListExecutor e n a ms) h =
     (let (h, e) = init_bitset bm e h in (h, StringListExecutor e n a (GetBitsetsByAttr x a)))"
| "Executor_Init bm x (LogicalExecutor e op l r) h =
     (let (h, l) = Executor_Init bm x l h; (h, r) = Executor_Init bm x r h in (h, LogicalExecutor e op l r))"

definition clear_bitset :: "'b bitset_methods \<Rightarrow> executor_base \<Rightarrow> 'b list \<Rightarrow> 'b list result" where
  "clear_bitset bm e h =
     (case ex_bitset e of None \<Rightarrow> Inr h
      | Some a \<Rightarrow> if a < length h then Inr (h[a := bm_Clear bm (h ! a)]) else Inl UB)"

fun Executor_Clear :: "'b bitset_methods \<Rightarrow> 'b executor \<Rightarrow> 'b list \<Rightarrow> 'b list result" where
  "Executor_Clear bm (LogicalExecutor e op l r) h =
     bindR (Executor_Clear bm l h) (\<lambda>h. bindR (Executor_Clear bm r h) (clear_bitset bm e))"
| "Executor_Clear bm ex h = clear_bitset bm (ex_base ex) h"

text \<open>\<open>WhiteListFilter::TryToUpdate\<close>: the pointer is cast to a white list without a check.\<close>

definition TryToUpdate :: "attr_filter \<Rightarrow> attr_filter option \<Rightarrow> attr_filter option result" where
  "TryToUpdate new_filter ptr =
     (case ptr of Some (Black_bitset a) \<Rightarrow> Inl UB | _ \<Rightarrow> Inr (Some new_filter))"

definition or_managers :: "'b bitset_methods \<Rightarrow> nat \<Rightarrow> 'b multi_bitset_manager option list \<Rightarrow> 'b \<Rightarrow> 'b result" where
  "or_managers bm bucket = foldR (\<lambda>manager b.
     case manager of None \<Rightarrow> Inr b | Some m \<Rightarrow> bindR (GetOneBitset m bucket) (\<lambda>bitset. Inr (bm_Or bm b bitset)))"

definition leaf_run ::
  "'b bitset_methods \<Rightarrow> bool \<Rightarrow> nat \<Rightarrow> 'b multi_bitset_manager option list \<Rightarrow> executor_base \<Rightarrow> 'b list \<Rightarrow> ('b list \<times> executor_base) result" where
  "leaf_run bm negated bucket ms e h =
     (case ex_bitset e of None \<Rightarrow> Inl UB
      | Some a \<Rightarrow> if a \<ge> length h then Inl UB
          else bindR (or_managers bm bucket ms (h ! a)) (\<lambda>b.
            if \<not> negated
            then bindR (TryToUpdate (White_bitset a) (ex_filter e)) (\<lambda>f. Inr (h[a := b], e\<lparr>ex_only_bitset := True, ex_filter := f\<rparr>))
            else if bm_type bm = FAST_BITSET
            then bindR (TryToUpdate (White_bitset a) (ex_filter e)) (\<lambda>f. Inr (h[a := bm_Not bm b], e\<lparr>ex_only_bitset := True, ex_filter := f\<rparr>))
            else Inr (h[a := b], e\<lparr>ex_only_bitset := False, ex_filter := Some (Black_bitset a)\<rparr>)))"

text \<open>\<open>LogicalExecutor::logical_run\<close>.\<close>

definition logical_run ::
  "'b bitset_methods \<Rightarrow> logical_operator \<Rightarrow> executor_base \<Rightarrow> executor_base \<Rightarrow> executor_base \<Rightarrow> 'b list \<Rightarrow> ('b list \<times> executor_base) result" where
  "logical_run bm op left right e h =
     (if op \<noteq> AND_op \<and> op \<noteq> OR_op then Inl (Throw INTERNAL_ERROR)
      else if ex_only_bitset left \<and> ex_only_bitset right
      then (case (ex_bitset left, ex_bitset right) of
              (Some a, p) \<Rightarrow>
                if a \<ge> length h \<or> \<not> pred_option (\<lambda>b. b < length h) p then Inl UB
                else let other = map_option ((!) h) p;
                         b = (if op = AND_op then bm_And bm (h ! a) other else bm_Or bm (h ! a) other)
                     in bindR (TryToUpdate (White_bitset a) (ex_filter e)) (\<lambda>f.
                          Inr (h[a := b], e\<lparr>ex_only_bitset := True, ex_bitset := Some a, ex_filter := f\<rparr>))
            | _ \<Rightarrow> Inl UB)
      else bindR (TryToUpdate (White_func op) (ex_filter e)) (\<lambda>f. Inr (h, e\<lparr>ex_only_bitset := False, ex_filter := f\<rparr>)))"

fun Executor_Run :: "'b bitset_methods \<Rightarrow> nat \<Rightarrow> 'b executor \<Rightarrow> 'b list \<Rightarrow> ('b list \<times> 'b executor) result" where
  "Executor_Run bm bucket (ComparisonExecutor e op a ms) h =
     (if op \<noteq> EQ \<and> op \<noteq> NE then Inl (Throw INTERNAL_ERROR)
      else bindR (leaf_run bm (op = NE) bucket ms e h) (\<lambda>(h, e). Inr (h, ComparisonExecutor e op a ms)))"
| "Executor_Run bm bucket (IntegerListExecutor e is_not_in a ms) h =
     bindR (leaf_run bm is_not_in bucket ms e h) (\<lambda>(h, e). Inr (h, IntegerListExecutor e is_not_in a ms))"
| "Executor_Run bm bucket (StringListExecutor e is_not_in a ms) h =
     bindR (leaf_run bm is_not_in bucket ms e h) (\<lambda>(h, e). Inr (h, StringListExecutor e is_not_in a ms))"
| "Executor_Run bm bucket (LogicalExecutor e op l r) h =
     bindR (Executor_Run bm bucket l h) (\<lambda>(h, l). bindR (Executor_Run bm bucket r h) (\<lambda>(h, r).
     bindR (logical_run bm op (ex_base l) (ex_base r) e h) (\<lambda>(h, e). Inr (h, LogicalExecutor e op l r))))"

section \<open>Checking an element\<close>

definition ROW_ID_MASK :: int where
  "ROW_ID_MASK = 0xFFFFFFFF"

definition WhiteListFilter_CheckValid :: "'b bitset_methods \<Rightarrow> 'b list \<Rightarrow> nat \<Rightarrow> int \<Rightarrow> bool result" where
  "WhiteListFilter_CheckValid bm h a i = (if a < length h then bm_Test bm (i AND ROW_ID_MASK) (h ! a) else Inl UB)"

definition BlackListFilter_CheckValid :: "'b bitset_methods \<Rightarrow> 'b list \<Rightarrow> nat \<Rightarrow> int \<Rightarrow> bool result" where
  "BlackListFilter_CheckValid bm h a i = (if a < length h then bindR (bm_Test bm (i AND ROW_ID_MASK) (h ! a)) (\<lambda>v. Inr (\<not> v)) else Inl UB)"

text \<open>
  \<open>filter_->CheckValid\<close> of an executor. The function of a white list evaluates the operands with the short
  circuit of \<open>and\<close> and \<open>or\<close>.
\<close>

fun CheckValid :: "'b bitset_methods \<Rightarrow> 'b list \<Rightarrow> 'b executor \<Rightarrow> int \<Rightarrow> bool result" where
  "CheckValid bm h ex i =
     (case ex_filter (ex_base ex) of
        None \<Rightarrow> Inl UB
      | Some (White_bitset a) \<Rightarrow> WhiteListFilter_CheckValid bm h a i
      | Some (Black_bitset a) \<Rightarrow> BlackListFilter_CheckValid bm h a i
      | Some (White_func op) \<Rightarrow>
          (case ex of
             LogicalExecutor e op' l r \<Rightarrow>
               if op = AND_op then bindR (CheckValid bm h l i) (\<lambda>v. if v then CheckValid bm h r i else Inr False)
               else bindR (CheckValid bm h l i) (\<lambda>v. if v then Inr True else CheckValid bm h r i)
           | _ \<Rightarrow> Inl UB))"

declare CheckValid.simps [simp del]

text \<open>A query clears the executor and runs it for each bucket.\<close>

definition clear_and_run :: "'b bitset_methods \<Rightarrow> nat \<Rightarrow> 'b list \<times> 'b executor \<Rightarrow> ('b list \<times> 'b executor) result" where
  "clear_and_run bm bucket s = (case s of (h, ex) \<Rightarrow> bindR (Executor_Clear bm ex h) (Executor_Run bm bucket ex))"

section \<open>What an executor computes\<close>

text \<open>
  The typing of expressions: a field is compared with constants of its own type, and a number is in the range of
  this type, in comparisons and in lists alike.
\<close>

definition fits :: "attr_value_type \<Rightarrow> int list \<Rightarrow> bool" where
  "fits T vs \<longleftrightarrow> (\<forall>v\<in>set vs. int_min T \<le> v \<and> v \<le> int_max T)"

fun well_typed :: "(bytes \<rightharpoonup> attr_value_type) \<Rightarrow> expression \<Rightarrow> bool" where
  "well_typed ty (ComparisonExpression (FieldExpression f) op (StringConstant c)) \<longleftrightarrow> ty f = Some STRING"
| "well_typed ty (ComparisonExpression (FieldExpression f) op (NumericConstant v)) \<longleftrightarrow>
     (case ty f of None \<Rightarrow> False | Some T \<Rightarrow> T \<noteq> STRING \<and> accepts T v)"
| "well_typed ty (IntListExpression (FieldExpression f) n (IntListConstant_int64 vs)) \<longleftrightarrow>
     (case ty f of None \<Rightarrow> False | Some T \<Rightarrow> T \<noteq> STRING \<and> fits T vs)"
| "well_typed ty (IntListExpression (FieldExpression f) n (IntListConstant_uint64 vs)) \<longleftrightarrow>
     (case ty f of None \<Rightarrow> False | Some T \<Rightarrow> T \<noteq> STRING \<and> fits T vs)"
| "well_typed ty (StrListExpression (FieldExpression f) n (StrListConstant vs)) \<longleftrightarrow> ty f = Some STRING"
| "well_typed ty (LogicalExpression l op r) \<longleftrightarrow> well_typed ty l \<and> well_typed ty r"
| "well_typed ty _ \<longleftrightarrow> False"

fun constants_ok :: "expression \<Rightarrow> bool" where
  "constants_ok (NumericConstant v) \<longleftrightarrow> numeric_ok v"
| "constants_ok (ComparisonExpression l op r) \<longleftrightarrow> constants_ok l \<and> constants_ok r"
| "constants_ok (LogicalExpression l op r) \<longleftrightarrow> constants_ok l \<and> constants_ok r"
| "constants_ok _ \<longleftrightarrow> True"

text \<open>The operators that \<open>Run\<close> evaluates.\<close>

fun supported :: "expression \<Rightarrow> bool" where
  "supported (ComparisonExpression l op r) \<longleftrightarrow> op = EQ \<or> op = NE"
| "supported (LogicalExpression l op r) \<longleftrightarrow> (op = AND_op \<or> op = OR_op) \<and> supported l \<and> supported r"
| "supported _ \<longleftrightarrow> True"

text \<open>
  The meaning of an expression for an element of a bucket, over a table with the types of its fields: the element
  has the constant, or one of the constants of the list, as a value of the field.
\<close>

fun const_key :: "expression \<Rightarrow> attr_key" where
  "const_key (StringConstant c) = Str c"
| "const_key (NumericConstant v) = Num (numeric_int v)"
| "const_key _ = Num 0"

fun const_keys :: "expression \<Rightarrow> attr_key set" where
  "const_keys (IntListConstant_int64 vs) = Num ` set vs"
| "const_keys (IntListConstant_uint64 vs) = Num ` set vs"
| "const_keys (StrListConstant vs) = Str ` set vs"
| "const_keys _ = {}"

fun expr_holds :: "(bytes \<rightharpoonup> attr_value_type) \<times> attr_table \<Rightarrow> nat \<Rightarrow> inner_id \<Rightarrow> expression \<Rightarrow> bool" where
  "expr_holds (ty, R) j p (ComparisonExpression (FieldExpression f) op c) \<longleftrightarrow> R f (the (ty f)) (const_key c) j p \<noteq> (op = NE)"
| "expr_holds (ty, R) j p (IntListExpression (FieldExpression f) n vs) \<longleftrightarrow> (\<exists>v\<in>const_keys vs. R f (the (ty f)) v j p) \<noteq> n"
| "expr_holds (ty, R) j p (StrListExpression (FieldExpression f) n vs) \<longleftrightarrow> (\<exists>v\<in>const_keys vs. R f (the (ty f)) v j p) \<noteq> n"
| "expr_holds s j p (LogicalExpression l op r) \<longleftrightarrow>
     (if op = AND_op then expr_holds s j p l \<and> expr_holds s j p r else expr_holds s j p l \<or> expr_holds s j p r)"
| "expr_holds s j p _ \<longleftrightarrow> False"

text \<open>The position of an identifier: its low 32 bits.\<close>

definition row_pos :: "int \<Rightarrow> nat" where
  "row_pos i = nat (i mod 2 ^ 32)"

fun ex_supported :: "'b executor \<Rightarrow> bool" where
  "ex_supported (ComparisonExecutor e op a ms) \<longleftrightarrow> op = EQ \<or> op = NE"
| "ex_supported (LogicalExecutor e op l r) \<longleftrightarrow> (op = AND_op \<or> op = OR_op) \<and> ex_supported l \<and> ex_supported r"
| "ex_supported _ \<longleftrightarrow> True"

lemma row_id_mask: "i AND ROW_ID_MASK = int (row_pos i)"
proof -
  have "ROW_ID_MASK = mask 32" by (simp add: ROW_ID_MASK_def mask_eq_exp_minus_1)
  then have "i AND ROW_ID_MASK = take_bit 32 i" by (simp add: take_bit_eq_mask)
  then show ?thesis by (simp add: take_bit_eq_mod row_pos_def)
qed

lemma copy_vector_fits: "fits T vs \<Longrightarrow> T \<noteq> STRING \<Longrightarrow> copy_vector T vs = map Num vs"
  using int_cast_id by (auto simp: copy_vector_def fits_def)

lemma TryToUpdate_ok: "\<forall>a. ptr \<noteq> Some (Black_bitset a) \<Longrightarrow> TryToUpdate f ptr = Inr (Some f)"
  by (auto simp: TryToUpdate_def split: option.splits attr_filter.splits)

context attr_bitset
begin

definition ms_has :: "'b multi_bitset_manager option list \<Rightarrow> nat \<Rightarrow> inner_id \<Rightarrow> bool" where
  "ms_has ms j p \<longleftrightarrow> (\<exists>m. Some m \<in> set ms \<and> mb_has m j p)"

definition ms_inv :: "'b multi_bitset_manager option list \<Rightarrow> bool" where
  "ms_inv ms \<longleftrightarrow> (\<forall>m. Some m \<in> set ms \<longrightarrow> mb_inv m)"

lemma or_managers_ok:
  "inv b \<Longrightarrow> ms_inv ms \<Longrightarrow> \<exists>b'. or_managers bm j ms b = Inr b' \<and> inv b' \<and> (\<forall>p. bits b' p \<longleftrightarrow> bits b p \<or> ms_has ms j p)"
proof (induction ms arbitrary: b)
  case (Cons m ms)
  show ?case
  proof (cases m)
    case None
    then show ?thesis using Cons by (auto simp: or_managers_def ms_has_def ms_inv_def)
  next
    case (Some m')
    then have "mb_inv m'" using Cons.prems(2) by (simp add: ms_inv_def)
    from GetOneBitset_ok [OF this, of j] obtain c where c: "GetOneBitset m' j = Inr c" "pred_option inv c" "\<forall>p. mb_has m' j p \<longleftrightarrow> (\<exists>d. c = Some d \<and> bits d p)"
      by (elim exE conjE)
    have o: "inv (bm_Or bm b c)" "bits (bm_Or bm b c) p \<longleftrightarrow> bits b p \<or> mb_has m' j p" for p
      using or_ok [OF Cons.prems(1) c(2)] c(3) by auto
    have "ms_inv ms" using Cons.prems(2) by (simp add: ms_inv_def)
    from Cons.IH [OF o(1) this] obtain b' where b': "or_managers bm j ms (bm_Or bm b c) = Inr b'" "inv b'"
      "\<forall>p. bits b' p \<longleftrightarrow> bits (bm_Or bm b c) p \<or> ms_has ms j p" by blast
    then have "or_managers bm j (m # ms) b = Inr b'" using Some c(1) by (simp add: or_managers_def)
    moreover have "bits b' p \<longleftrightarrow> bits b p \<or> ms_has (m # ms) j p" for p using b'(3) o(2) Some by (auto simp: ms_has_def)
    ultimately show ?thesis using b'(2) by blast
  qed
qed (simp add: or_managers_def ms_has_def)

text \<open>The leaves of an executor own the bitsets of an interval of the store, from left to right.\<close>

definition leaf_placed :: "nat \<Rightarrow> nat \<Rightarrow> bool \<Rightarrow> 'b multi_bitset_manager option list \<Rightarrow> executor_base \<Rightarrow> bool" where
  "leaf_placed lo hi neg ms e \<longleftrightarrow> ex_bitset e = Some lo \<and> hi = Suc lo \<and> ms_inv ms \<and>
     (neg \<and> bm_type bm \<noteq> FAST_BITSET \<or> (\<forall>a. ex_filter e \<noteq> Some (Black_bitset a)))"

fun placed :: "nat \<Rightarrow> nat \<Rightarrow> 'b executor \<Rightarrow> bool" where
  "placed lo hi (ComparisonExecutor e op a ms) \<longleftrightarrow> leaf_placed lo hi (op = NE) ms e"
| "placed lo hi (IntegerListExecutor e n a ms) \<longleftrightarrow> leaf_placed lo hi n ms e"
| "placed lo hi (StringListExecutor e n a ms) \<longleftrightarrow> leaf_placed lo hi n ms e"
| "placed lo hi (LogicalExecutor e op l r) \<longleftrightarrow> (ex_bitset e = None \<or> ex_bitset e = Some lo) \<and>
     (\<forall>a. ex_filter e \<noteq> Some (Black_bitset a)) \<and> (\<exists>mid. placed lo mid l \<and> placed mid hi r)"

fun ex_means :: "'b executor \<Rightarrow> nat \<Rightarrow> inner_id \<Rightarrow> bool" where
  "ex_means (ComparisonExecutor e op a ms) j p \<longleftrightarrow> ms_has ms j p \<noteq> (op = NE)"
| "ex_means (IntegerListExecutor e n a ms) j p \<longleftrightarrow> ms_has ms j p \<noteq> n"
| "ex_means (StringListExecutor e n a ms) j p \<longleftrightarrow> ms_has ms j p \<noteq> n"
| "ex_means (LogicalExecutor e op l r) j p \<longleftrightarrow>
     (if op = AND_op then ex_means l j p \<and> ex_means r j p else ex_means l j p \<or> ex_means r j p)"

definition agree :: "nat \<Rightarrow> nat \<Rightarrow> 'b list \<Rightarrow> 'b list \<Rightarrow> bool" where
  "agree lo hi h h' \<longleftrightarrow> length h' = length h \<and> (\<forall>a. lo \<le> a \<longrightarrow> a < hi \<longrightarrow> h' ! a = h ! a)"

text \<open>After a run: the bitset that stands for the executor, when one does, and its filter.\<close>

definition answers :: "nat \<Rightarrow> nat \<Rightarrow> nat \<Rightarrow> 'b list \<Rightarrow> 'b executor \<Rightarrow> bool" where
  "answers lo hi j h ex \<longleftrightarrow>
     (ex_only_bitset (ex_base ex) \<longrightarrow> ex_bitset (ex_base ex) = Some lo \<and> (\<forall>p. bits (h ! lo) p \<longleftrightarrow> ex_means ex j p)) \<and>
     (\<forall>h' i. agree lo hi h h' \<longrightarrow> row_pos i < 2 ^ 32 - 64 \<longrightarrow> CheckValid bm h' ex i = Inr (ex_means ex j (row_pos i)))"

lemma placed_less: "placed lo hi ex \<Longrightarrow> lo < hi"
proof (induction ex arbitrary: lo hi)
  case (LogicalExecutor e op l r)
  then show ?case by (metis less_trans placed.simps(4))
qed (simp_all add: leaf_placed_def)

lemma agree_trans: "agree lo hi h h1 \<Longrightarrow> agree lo hi h1 h2 \<Longrightarrow> agree lo hi h h2"
  by (simp add: agree_def)

lemma answers_agree: "answers lo hi j h ex \<Longrightarrow> agree lo hi h h1 \<Longrightarrow> lo < hi \<Longrightarrow> answers lo hi j h1 ex"
proof -
  assume a: "answers lo hi j h ex" "agree lo hi h h1" "lo < hi"
  then have "h1 ! lo = h ! lo" by (simp add: agree_def)
  then show ?thesis using a(1) agree_trans [OF a(2)] unfolding answers_def by auto
qed

lemma white_ok:
  "inv (h ! a) \<Longrightarrow> a < length h \<Longrightarrow> row_pos i < 2 ^ 32 - 64 \<Longrightarrow> WhiteListFilter_CheckValid bm h a i = Inr (bits (h ! a) (row_pos i))"
  unfolding WhiteListFilter_CheckValid_def row_id_mask using test_ok by simp

lemma black_ok:
  "inv (h ! a) \<Longrightarrow> a < length h \<Longrightarrow> row_pos i < 2 ^ 32 - 64 \<Longrightarrow> BlackListFilter_CheckValid bm h a i = Inr (\<not> bits (h ! a) (row_pos i))"
  unfolding BlackListFilter_CheckValid_def row_id_mask using test_ok by simp

text \<open>An executor whose filter is a white list over its bitset.\<close>

lemma answers_white:
  assumes "ex_filter (ex_base ex) = Some (White_bitset lo)" "ex_bitset (ex_base ex) = Some lo" "inv (h ! lo)" "lo < length h" "lo < hi"
    and "\<forall>p. bits (h ! lo) p \<longleftrightarrow> ex_means ex j p"
  shows "answers lo hi j h ex"
  unfolding answers_def
proof (intro conjI allI impI)
  fix h' i
  assume "agree lo hi h h'" "row_pos i < 2 ^ 32 - 64"
  then show "CheckValid bm h' ex i = Inr (ex_means ex j (row_pos i))"
    using white_ok [of h' lo i] assms by (simp add: CheckValid.simps agree_def)
qed (use assms in auto)

lemma answers_black:
  assumes "ex_filter (ex_base ex) = Some (Black_bitset lo)" "\<not> ex_only_bitset (ex_base ex)" "inv (h ! lo)" "lo < length h" "lo < hi"
    and "\<forall>p. \<not> bits (h ! lo) p \<longleftrightarrow> ex_means ex j p"
  shows "answers lo hi j h ex"
  unfolding answers_def
proof (intro conjI allI impI)
  fix h' i
  assume "agree lo hi h h'" "row_pos i < 2 ^ 32 - 64"
  then show "CheckValid bm h' ex i = Inr (ex_means ex j (row_pos i))"
    using black_ok [of h' lo i] assms by (simp add: CheckValid.simps agree_def)
qed (use assms in auto)

definition bits_clear :: "nat \<Rightarrow> nat \<Rightarrow> 'b list \<Rightarrow> bool" where
  "bits_clear lo hi h \<longleftrightarrow> (\<forall>a p. lo \<le> a \<longrightarrow> a < hi \<longrightarrow> \<not> bits (h ! a) p)"

definition store_ok :: "nat \<Rightarrow> 'b list \<Rightarrow> bool" where
  "store_ok hi h \<longleftrightarrow> hi \<le> length h \<and> (\<forall>a<length h. inv (h ! a))"

text \<open>Only the bitsets of the interval change.\<close>

definition changes_only :: "nat \<Rightarrow> nat \<Rightarrow> 'b list \<Rightarrow> 'b list \<Rightarrow> bool" where
  "changes_only lo hi h h' \<longleftrightarrow> length h' = length h \<and> (\<forall>a. a < lo \<or> hi \<le> a \<longrightarrow> h' ! a = h ! a)"

lemma changes_update: "lo \<le> a \<Longrightarrow> a < hi \<Longrightarrow> changes_only lo hi h (h[a := b])"
  by (auto simp: changes_only_def)

lemma store_update: "store_ok hi h \<Longrightarrow> inv b \<Longrightarrow> store_ok hi (h[a := b])"
  unfolding store_ok_def by (metis length_list_update nth_list_update_eq nth_list_update_neq)

lemma store_ok_less: "store_ok hi h \<Longrightarrow> a < hi \<Longrightarrow> a < length h \<and> inv (h ! a)"
  by (simp add: store_ok_def)

lemma leaf_run_ok:
  assumes "leaf_placed lo hi neg ms e" "store_ok hi h" "bits_clear lo hi h"
  shows "\<exists>h' e'. leaf_run bm neg j ms e h = Inr (h', e') \<and> leaf_placed lo hi neg ms e' \<and> store_ok hi h' \<and> changes_only lo hi h h' \<and>
    (if ex_only_bitset e' then ex_filter e' = Some (White_bitset lo) \<and> (\<forall>p. bits (h' ! lo) p \<longleftrightarrow> ms_has ms j p \<noteq> neg)
     else ex_filter e' = Some (Black_bitset lo) \<and> (\<forall>p. \<not> bits (h' ! lo) p \<longleftrightarrow> ms_has ms j p \<noteq> neg))"
proof -
  have e: "ex_bitset e = Some lo" "hi = Suc lo" "ms_inv ms"
    and f: "neg \<and> bm_type bm \<noteq> FAST_BITSET \<or> (\<forall>a. ex_filter e \<noteq> Some (Black_bitset a))" using assms(1) by (auto simp: leaf_placed_def)
  have h: "lo < length h" "inv (h ! lo)" using store_ok_less [OF assms(2), of lo] e(2) by auto
  from or_managers_ok [OF h(2) e(3), of j] obtain b where b: "or_managers bm j ms (h ! lo) = Inr b" "inv b"
    "\<forall>p. bits b p \<longleftrightarrow> bits (h ! lo) p \<or> ms_has ms j p" by (elim exE conjE)
  then have bp: "bits b p \<longleftrightarrow> ms_has ms j p" for p using assms(3) e(2) by (simp add: bits_clear_def)
  have upd: "store_ok hi (h[lo := c]) \<and> changes_only lo hi h (h[lo := c])" if "inv c" for c
    using store_update [OF assms(2) that] changes_update [of lo lo hi] e(2) by auto
  consider (pos) "\<not> neg" | (fast) "neg" "bm_type bm = FAST_BITSET" | (sparse) "neg" "bm_type bm \<noteq> FAST_BITSET" by blast
  then show ?thesis
  proof cases
    case pos
    then have "TryToUpdate (White_bitset lo) (ex_filter e) = Inr (Some (White_bitset lo))" using f by (auto intro: TryToUpdate_ok)
    then show ?thesis using pos e h b(1) upd [OF b(2)] bp by (auto simp: leaf_run_def leaf_placed_def)
  next
    case fast
    then have "TryToUpdate (White_bitset lo) (ex_filter e) = Inr (Some (White_bitset lo))" using f by (auto intro: TryToUpdate_ok)
    moreover have "inv (bm_Not bm b)" "bits (bm_Not bm b) p \<longleftrightarrow> \<not> bits b p" for p using not_ok [OF fast(2) b(2)] by blast+
    ultimately show ?thesis using fast e h b(1) upd [of "bm_Not bm b"] bp by (auto simp: leaf_run_def leaf_placed_def)
  next
    case sparse
    then show ?thesis using e h b(1) upd [OF b(2)] bp by (auto simp: leaf_run_def leaf_placed_def)
  qed
qed

text \<open>The same for an executor around the leaf.\<close>

lemma leaf_answers:
  assumes "leaf_placed lo hi neg ms e'" "store_ok hi h'"
    and "if ex_only_bitset e' then ex_filter e' = Some (White_bitset lo) \<and> (\<forall>p. bits (h' ! lo) p \<longleftrightarrow> ms_has ms j p \<noteq> neg)
     else ex_filter e' = Some (Black_bitset lo) \<and> (\<forall>p. \<not> bits (h' ! lo) p \<longleftrightarrow> ms_has ms j p \<noteq> neg)"
    and "ex_base ex = e'" "\<forall>p. ex_means ex j p \<longleftrightarrow> ms_has ms j p \<noteq> neg"
  shows "answers lo hi j h' ex"
proof -
  have lo: "ex_bitset e' = Some lo" "lo < hi" using assms(1) by (simp_all add: leaf_placed_def)
  have h: "lo < length h'" "inv (h' ! lo)" using store_ok_less [OF assms(2) lo(2)] by auto
  show ?thesis
  proof (cases "ex_only_bitset e'")
    case True
    then show ?thesis using assms(3-5) lo h by (intro answers_white) simp_all
  next
    case False
    then show ?thesis using assms(3-5) lo h by (intro answers_black) simp_all
  qed
qed

definition run_ok :: "nat \<Rightarrow> nat \<Rightarrow> nat \<Rightarrow> 'b executor \<Rightarrow> 'b list \<Rightarrow> bool" where
  "run_ok lo hi j ex h \<longleftrightarrow> (\<exists>h' ex'. Executor_Run bm j ex h = Inr (h', ex') \<and> placed lo hi ex' \<and> ex_means ex' = ex_means ex \<and> ex_supported ex' = ex_supported ex \<and>
     store_ok hi h' \<and> changes_only lo hi h h' \<and> answers lo hi j h' ex')"

lemma logical_run_ok:
  assumes "placed lo mid l" "placed mid hi r" "answers lo mid j h l" "answers mid hi j h r" "store_ok hi h"
    and "op = AND_op \<or> op = OR_op" "ex_bitset e = None \<or> ex_bitset e = Some lo" "\<forall>a. ex_filter e \<noteq> Some (Black_bitset a)"
  shows "\<exists>h' e'. logical_run bm op (ex_base l) (ex_base r) e h = Inr (h', e') \<and> placed lo hi (LogicalExecutor e' op l r) \<and>
    store_ok hi h' \<and> changes_only lo hi h h' \<and> answers lo hi j h' (LogicalExecutor e' op l r)"
proof -
  have less: "lo < mid" "mid < hi" using assms(1,2) placed_less by blast+
  have lo: "lo < length h" "inv (h ! lo)" and m: "mid < length h" "inv (h ! mid)" using store_ok_less [OF assms(5)] less by auto
  show ?thesis
  proof (cases "ex_only_bitset (ex_base l) \<and> ex_only_bitset (ex_base r)")
    case True
    then have l: "ex_bitset (ex_base l) = Some lo" "\<forall>p. bits (h ! lo) p \<longleftrightarrow> ex_means l j p"
      and r: "ex_bitset (ex_base r) = Some mid" "\<forall>p. bits (h ! mid) p \<longleftrightarrow> ex_means r j p" using assms(3,4) by (simp_all add: answers_def)
    define b where "b = (if op = AND_op then bm_And bm (h ! lo) (Some (h ! mid)) else bm_Or bm (h ! lo) (Some (h ! mid)))"
    define e' where "e' = e\<lparr>ex_only_bitset := True, ex_bitset := Some lo, ex_filter := Some (White_bitset lo)\<rparr>"
    have b: "inv b" "bits b p \<longleftrightarrow> ex_means (LogicalExecutor e' op l r) j p" for p
      using and_ok [OF lo(2) m(2)] or_ok [OF lo(2), of "Some (h ! mid)"] m(2) l(2) r(2) by (auto simp: b_def)
    have "logical_run bm op (ex_base l) (ex_base r) e h = Inr (h[lo := b], e')"
      using assms(6) True l(1) r(1) lo(1) m(1) TryToUpdate_ok [OF assms(8)] by (auto simp: logical_run_def b_def e'_def)
    moreover have "placed lo hi (LogicalExecutor e' op l r)" using assms(1,2,6) by (auto simp: e'_def)
    moreover have "answers lo hi j (h[lo := b]) (LogicalExecutor e' op l r)"
      using lo less b by (intro answers_white) (simp_all add: e'_def)
    ultimately show ?thesis using store_update [OF assms(5) b(1)] changes_update [of lo lo hi] less by (metis le_refl less_trans)
  next
    case False
    define e' where "e' = e\<lparr>ex_only_bitset := False, ex_filter := Some (White_func op)\<rparr>"
    have "logical_run bm op (ex_base l) (ex_base r) e h = Inr (h, e')"
      using assms(6) False TryToUpdate_ok [OF assms(8)] by (auto simp: logical_run_def e'_def)
    moreover have "placed lo hi (LogicalExecutor e' op l r)" using assms(1,2,6,7) by (auto simp: e'_def)
    moreover have "answers lo hi j h (LogicalExecutor e' op l r)"
      unfolding answers_def
    proof (intro conjI allI impI)
      fix h' i
      assume a: "agree lo hi h h'" "row_pos i < 2 ^ 32 - 64"
      then have "agree lo mid h h'" "agree mid hi h h'" using less by (simp_all add: agree_def)
      then have "CheckValid bm h' l i = Inr (ex_means l j (row_pos i))" "CheckValid bm h' r i = Inr (ex_means r j (row_pos i))"
        using assms(3,4) a(2) unfolding answers_def by blast+
      then show "CheckValid bm h' (LogicalExecutor e' op l r) i = Inr (ex_means (LogicalExecutor e' op l r) j (row_pos i))"
        by (subst CheckValid.simps) (simp add: e'_def)
    qed (simp_all add: e'_def)
    moreover have "changes_only lo hi h h" by (simp add: changes_only_def)
    ultimately show ?thesis using assms(5) by blast
  qed
qed

lemma leaf_case:
  assumes "leaf_placed lo hi neg ms e" "store_ok hi h" "bits_clear lo hi h"
    and C: "\<And>e. ex_base (C e) = e" "\<And>e. placed lo hi (C e) \<longleftrightarrow> leaf_placed lo hi neg ms e" "\<And>e j p. ex_means (C e) j p \<longleftrightarrow> ms_has ms j p \<noteq> neg"
    and supp: "\<And>e. ex_supported (C e)"
    and run: "Executor_Run bm j (C e) h = bindR (leaf_run bm neg j ms e h) (\<lambda>(h, e). Inr (h, C e))"
  shows "run_ok lo hi j (C e) h"
proof -
  from leaf_run_ok [OF assms(1-3), of j] obtain h' e' where r: "leaf_run bm neg j ms e h = Inr (h', e')"
    "leaf_placed lo hi neg ms e'" "store_ok hi h'" "changes_only lo hi h h'"
    and a: "if ex_only_bitset e' then ex_filter e' = Some (White_bitset lo) \<and> (\<forall>p. bits (h' ! lo) p \<longleftrightarrow> ms_has ms j p \<noteq> neg)
     else ex_filter e' = Some (Black_bitset lo) \<and> (\<forall>p. \<not> bits (h' ! lo) p \<longleftrightarrow> ms_has ms j p \<noteq> neg)" by (elim exE conjE)
  have "answers lo hi j h' (C e')" using C(1,3) by (intro leaf_answers [OF r(2,3) a]) simp_all
  moreover have "ex_means (C e') = ex_means (C e)" using C(3) by (simp add: fun_eq_iff)
  moreover have "placed lo hi (C e')" using C(2) r(2) by simp
  ultimately show ?thesis using r(1,3,4) supp unfolding run_ok_def run by auto
qed

lemma Executor_Run_ok: "placed lo hi ex \<Longrightarrow> ex_supported ex \<Longrightarrow> store_ok hi h \<Longrightarrow> bits_clear lo hi h \<Longrightarrow> run_ok lo hi j ex h"
proof (induction ex arbitrary: lo hi h)
  case (ComparisonExecutor e op a ms)
  then show ?case by (intro leaf_case [where C = "\<lambda>e. ComparisonExecutor e op a ms" and neg = "op = NE" and ms = ms]) auto
next
  case (IntegerListExecutor e n a ms)
  then show ?case by (intro leaf_case [where C = "\<lambda>e. IntegerListExecutor e n a ms" and neg = n and ms = ms]) simp_all
next
  case (StringListExecutor e n a ms)
  then show ?case by (intro leaf_case [where C = "\<lambda>e. StringListExecutor e n a ms" and neg = n and ms = ms]) simp_all
next
  case (LogicalExecutor e op l r)
  then obtain mid where m: "placed lo mid l" "placed mid hi r" and sup: "ex_supported l" "ex_supported r" "op = AND_op \<or> op = OR_op" by auto
  have less: "lo < mid" "mid < hi" using m placed_less by blast+
  have "store_ok mid h" "bits_clear lo mid h" using LogicalExecutor.prems less by (auto simp: store_ok_def bits_clear_def)
  from LogicalExecutor.IH(1) [OF m(1) sup(1) this] obtain h1 l' where l: "Executor_Run bm j l h = Inr (h1, l')" "placed lo mid l'" "ex_means l' = ex_means l" "ex_supported l'"
    "store_ok mid h1" "changes_only lo mid h h1" "answers lo mid j h1 l'" unfolding run_ok_def using sup(1) by blast
  have "store_ok hi h1" "bits_clear mid hi h1" using LogicalExecutor.prems l(5,6) less by (auto simp: store_ok_def bits_clear_def changes_only_def)
  from LogicalExecutor.IH(2) [OF m(2) sup(2) this] obtain h2 r' where r: "Executor_Run bm j r h1 = Inr (h2, r')" "placed mid hi r'" "ex_means r' = ex_means r" "ex_supported r'"
    "store_ok hi h2" "changes_only mid hi h1 h2" "answers mid hi j h2 r'" unfolding run_ok_def using sup(2) by blast
  have "agree lo mid h1 h2" using r(6) by (simp add: agree_def changes_only_def)
  from answers_agree [OF l(7) this less(1)] have la: "answers lo mid j h2 l'" .
  have ok: "ex_bitset e = None \<or> ex_bitset e = Some lo" "\<forall>a. ex_filter e \<noteq> Some (Black_bitset a)"
    using LogicalExecutor.prems(1) by auto
  from logical_run_ok [OF l(2) r(2) la r(7,5) sup(3) ok] obtain h3 e' where e': "logical_run bm op (ex_base l') (ex_base r') e h2 = Inr (h3, e')"
    "placed lo hi (LogicalExecutor e' op l' r')" "store_ok hi h3" "changes_only lo hi h2 h3" "answers lo hi j h3 (LogicalExecutor e' op l' r')" by (elim exE conjE)
  have "ex_means (LogicalExecutor e' op l' r') = ex_means (LogicalExecutor e op l r)" using l(3) r(3) by (simp add: fun_eq_iff)
  moreover have "ex_supported (LogicalExecutor e' op l' r') = ex_supported (LogicalExecutor e op l r)" using sup l(4) r(4) by simp
  moreover have "changes_only lo hi h h3" using l(6) r(6) e'(4) less by (auto simp: changes_only_def)
  moreover have "Executor_Run bm j (LogicalExecutor e op l r) h = Inr (h3, LogicalExecutor e' op l' r')" using l(1) r(1) e'(1) by simp
  ultimately show ?case using e'(2,3,5) unfolding run_ok_def by blast
qed

text \<open>An operator that is not supported stops the run, wherever it is.\<close>

lemma Executor_Run_unsupported:
  "placed lo hi ex \<Longrightarrow> \<not> ex_supported ex \<Longrightarrow> store_ok hi h \<Longrightarrow> bits_clear lo hi h \<Longrightarrow> Executor_Run bm j ex h = Inl (Throw INTERNAL_ERROR)"
proof (induction ex arbitrary: lo hi h)
  case (LogicalExecutor e op l r)
  then obtain mid where m: "placed lo mid l" "placed mid hi r" by auto
  have less: "lo < mid" "mid < hi" using m placed_less by blast+
  have h: "store_ok mid h" "bits_clear lo mid h" using LogicalExecutor.prems less by (auto simp: store_ok_def bits_clear_def)
  show ?case
  proof (cases "ex_supported l")
    case True
    from Executor_Run_ok [OF m(1) True h, of j] obtain h1 l' where l: "Executor_Run bm j l h = Inr (h1, l')" "store_ok mid h1" "changes_only lo mid h h1"
      unfolding run_ok_def by blast
    have h1: "store_ok hi h1" "bits_clear mid hi h1" using LogicalExecutor.prems l(2,3) less by (auto simp: store_ok_def bits_clear_def changes_only_def)
    show ?thesis
    proof (cases "ex_supported r")
      case r: True
      from Executor_Run_ok [OF m(2) r h1, of j] obtain h2 r' where "Executor_Run bm j r h1 = Inr (h2, r')" unfolding run_ok_def by blast
      moreover have "op \<noteq> AND_op \<and> op \<noteq> OR_op" using True r LogicalExecutor.prems(2) by simp
      ultimately show ?thesis using l(1) by (simp add: logical_run_def)
    next
      case False
      then show ?thesis using LogicalExecutor.IH(2) [OF m(2) False h1] l(1) by simp
    qed
  next
    case False
    then show ?thesis using LogicalExecutor.IH(1) [OF m(1) False h] by simp
  qed
qed auto

lemma clear_bitset_ok:
  assumes "store_ok hi h" "ex_bitset e = Some a" "lo \<le> a" "a < hi"
  shows "clear_bitset bm e h = Inr (h[a := bm_Clear bm (h ! a)]) \<and> store_ok hi (h[a := bm_Clear bm (h ! a)]) \<and>
    changes_only lo hi h (h[a := bm_Clear bm (h ! a)]) \<and> (\<forall>p. \<not> bits (h[a := bm_Clear bm (h ! a)] ! a) p)"
proof -
  have a: "a < length h" "inv (h ! a)" using store_ok_less [OF assms(1,4)] by auto
  have c: "inv (bm_Clear bm (h ! a))" "\<not> bits (bm_Clear bm (h ! a)) p" for p using clear_ok [OF a(2)] by blast+
  show ?thesis using a c store_update [OF assms(1) c(1)] changes_update [OF assms(3,4)] assms(2) by (simp add: clear_bitset_def)
qed

lemma leaf_clear:
  assumes "leaf_placed lo hi neg ms e" "store_ok hi h"
  shows "\<exists>h'. clear_bitset bm e h = Inr h' \<and> store_ok hi h' \<and> changes_only lo hi h h' \<and> bits_clear lo hi h'"
proof -
  have e: "ex_bitset e = Some lo" "hi = Suc lo" "lo < hi" using assms(1) by (auto simp: leaf_placed_def)
  have "bits_clear lo hi h'" if "\<forall>p. \<not> bits (h' ! lo) p" for h' using that e(2) unfolding bits_clear_def by (metis le_less_Suc_eq)
  then show ?thesis using clear_bitset_ok [OF assms(2) e(1) order_refl e(3)] by blast
qed

lemma Executor_Clear_ok:
  "placed lo hi ex \<Longrightarrow> store_ok hi h \<Longrightarrow> \<exists>h'. Executor_Clear bm ex h = Inr h' \<and> store_ok hi h' \<and> changes_only lo hi h h' \<and> bits_clear lo hi h'"
proof (induction ex arbitrary: lo hi h)
  case (LogicalExecutor e op l r)
  then obtain mid where m: "placed lo mid l" "placed mid hi r" by auto
  have less: "lo < mid" "mid < hi" using m placed_less by blast+
  have "store_ok mid h" using LogicalExecutor.prems(2) less by (simp add: store_ok_def)
  from LogicalExecutor.IH(1) [OF m(1) this] obtain h1 where h1: "Executor_Clear bm l h = Inr h1" "store_ok mid h1" "changes_only lo mid h h1" "bits_clear lo mid h1" by blast
  have "store_ok hi h1" using h1(2,3) LogicalExecutor.prems(2) by (simp add: store_ok_def changes_only_def)
  from LogicalExecutor.IH(2) [OF m(2) this] obtain h2 where h2: "Executor_Clear bm r h1 = Inr h2" "store_ok hi h2" "changes_only mid hi h1 h2" "bits_clear mid hi h2" by blast
  have c2: "changes_only lo hi h h2" "bits_clear lo hi h2"
    using h1(3,4) h2(3,4) less by (auto simp: changes_only_def bits_clear_def) (metis le_cases not_less)
  have "ex_bitset e = None \<or> ex_bitset e = Some lo" using LogicalExecutor.prems(1) by simp
  then show ?case
  proof
    assume "ex_bitset e = None"
    then show ?thesis using h1(1) h2(1,2) c2 by (simp add: clear_bitset_def)
  next
    assume e: "ex_bitset e = Some lo"
    have "lo < hi" using less by simp
    from clear_bitset_ok [OF h2(2) e order_refl this] obtain h3 where h3: "clear_bitset bm e h2 = Inr h3" "store_ok hi h3"
      "changes_only lo hi h2 h3" "\<forall>p. \<not> bits (h3 ! lo) p" "h3 = h2[lo := bm_Clear bm (h2 ! lo)]" by blast
    have "bits_clear lo hi h3" using h3(4,5) c2(2) unfolding bits_clear_def by (metis nth_list_update_neq)
    moreover have "changes_only lo hi h h3" using h3(3) c2(1) by (simp add: changes_only_def)
    ultimately show ?thesis using h1(1) h2(1) h3(1,2) by simp
  qed
next
  case (ComparisonExecutor e op a ms)
  then show ?case using leaf_clear by simp
next
  case (IntegerListExecutor e n a ms)
  then show ?case using leaf_clear by simp
next
  case (StringListExecutor e n a ms)
  then show ?case using leaf_clear by simp
qed

lemma GetBitsetsByAttr_ok:
  assumes "ai_inv x"
  shows "ms_inv (GetBitsetsByAttr x a)"
    and "ms_has (GetBitsetsByAttr x a) j p \<longleftrightarrow> (\<exists>v\<in>set (at_value a). ai_has x (at_name a) (at_type a) v j p)"
proof -
  have "Some m \<in> set (GetBitsetsByAttr x a) \<longleftrightarrow>
      (\<exists>vm. \<exists>v\<in>set (at_value a). map_of (ai_field_2_value_map x) (at_name a) = Some vm \<and> map_of (vm (at_type a)) v = Some m)" for m
    by (auto simp: GetBitsetsByAttr_def GetBitsetByValue_def image_iff split: option.splits) metis
  note mem = this
  show "ms_inv (GetBitsetsByAttr x a)"
    unfolding ms_inv_def mem using ai_inv_field [OF assms] avm_inv_manager by blast
  show "ms_has (GetBitsetsByAttr x a) j p \<longleftrightarrow> (\<exists>v\<in>set (at_value a). ai_has x (at_name a) (at_type a) v j p)"
    unfolding ms_has_def mem ai_has_def avm_has_def by blast
qed

text \<open>Construction and \<open>Init\<close>.\<close>

definition init_ok :: "'b attr_index \<Rightarrow> 'b executor \<Rightarrow> (nat \<Rightarrow> inner_id \<Rightarrow> bool) \<Rightarrow> bool" where
  "init_ok x ex P \<longleftrightarrow> (\<forall>h. store_ok (length h) h \<longrightarrow> (\<exists>h' ex'. Executor_Init bm x ex h = (h', ex') \<and> placed (length h) (length h') ex' \<and>
     store_ok (length h') h' \<and> ex_supported ex' = ex_supported ex \<and> (\<forall>j p. ex_means ex' j p \<longleftrightarrow> P j p)))"

lemma leaf_init_ok:
  assumes "ai_inv x"
    and C: "\<And>e lo hi ms. placed lo hi (C e ms) \<longleftrightarrow> leaf_placed lo hi neg ms e" "\<And>e ms j p. ex_means (C e ms) j p \<longleftrightarrow> ms_has ms j p \<noteq> neg"
      "\<And>e ms e' ms'. ex_supported (C e ms) = ex_supported (C e' ms')"
    and init: "\<And>h. Executor_Init bm x (C Executor_new []) h = (let (h, e) = init_bitset bm Executor_new h in (h, C e (GetBitsetsByAttr x a)))"
    and P: "\<And>j p. P j p \<longleftrightarrow> (\<exists>v\<in>set (at_value a). ai_has x (at_name a) (at_type a) v j p) \<noteq> neg"
  shows "init_ok x (C Executor_new []) P"
  unfolding init_ok_def
proof (intro allI impI)
  fix h :: "'b list"
  assume h: "store_ok (length h) h"
  let ?e = "Executor_new\<lparr>ex_bitset := Some (length h), ex_own_bitset := True\<rparr>"
  let ?ms = "GetBitsetsByAttr x a"
  have "Executor_Init bm x (C Executor_new []) h = (h @ [bm_new bm], C ?e ?ms)" unfolding init by (simp add: init_bitset_def Executor_new_def)
  moreover have "store_ok (length (h @ [bm_new bm])) (h @ [bm_new bm])" using h new_ok by (auto simp: store_ok_def nth_append)
  moreover have "placed (length h) (length (h @ [bm_new bm])) (C ?e ?ms)"
    unfolding C(1) leaf_placed_def using GetBitsetsByAttr_ok(1) [OF assms(1)] by (simp add: Executor_new_def)
  moreover have "ex_means (C ?e ?ms) j p \<longleftrightarrow> P j p" for j p unfolding C(2) P GetBitsetsByAttr_ok(2) [OF assms(1)] by blast
  ultimately show "\<exists>h' ex'. Executor_Init bm x (C Executor_new []) h = (h', ex') \<and> placed (length h) (length h') ex' \<and>
     store_ok (length h') h' \<and> ex_supported ex' = ex_supported (C Executor_new []) \<and> (\<forall>j p. ex_means ex' j p \<longleftrightarrow> P j p)" using C(3) by blast
qed

lemma logical_init_ok:
  assumes "init_ok x l P" "init_ok x r Q"
  shows "init_ok x (LogicalExecutor Executor_new op l r) (\<lambda>j p. if op = AND_op then P j p \<and> Q j p else P j p \<or> Q j p)"
  unfolding init_ok_def
proof (intro allI impI)
  fix h :: "'b list"
  assume h: "store_ok (length h) h"
  with assms(1) obtain h1 l' where l: "Executor_Init bm x l h = (h1, l')" "placed (length h) (length h1) l'" "store_ok (length h1) h1"
    "ex_supported l' = ex_supported l" "\<forall>j p. ex_means l' j p \<longleftrightarrow> P j p" unfolding init_ok_def by blast
  with assms(2) obtain h2 r' where r: "Executor_Init bm x r h1 = (h2, r')" "placed (length h1) (length h2) r'" "store_ok (length h2) h2"
    "ex_supported r' = ex_supported r" "\<forall>j p. ex_means r' j p \<longleftrightarrow> Q j p" unfolding init_ok_def by blast
  have "placed (length h) (length h2) (LogicalExecutor Executor_new op l' r')" using l(2) r(2) by (auto simp: Executor_new_def)
  then show "\<exists>h' ex'. Executor_Init bm x (LogicalExecutor Executor_new op l r) h = (h', ex') \<and> placed (length h) (length h') ex' \<and>
     store_ok (length h') h' \<and> ex_supported ex' = ex_supported (LogicalExecutor Executor_new op l r) \<and>
     (\<forall>j p. ex_means ex' j p \<longleftrightarrow> (if op = AND_op then P j p \<and> Q j p else P j p \<or> Q j p))"
    using l(1,4,5) r by simp
qed

lemmas ComparisonExecutor_init = leaf_init_ok [where C = "\<lambda>e ms. ComparisonExecutor e op a ms" and neg = "op = NE" and a = a for op a, simplified]

lemmas IntegerListExecutor_init = leaf_init_ok [where C = "\<lambda>e ms. IntegerListExecutor e n a ms" and neg = n and a = a for n a, simplified]

lemmas StringListExecutor_init = leaf_init_ok [where C = "\<lambda>e ms. StringListExecutor e n a ms" and neg = n and a = a for n a, simplified]

lemma MakeInstance_ok:
  "ai_rel x (ty, R) \<Longrightarrow> constants_ok e \<Longrightarrow> well_typed ty e \<Longrightarrow>
    \<exists>ex. MakeInstance x e = Inr ex \<and> ex_supported ex = supported e \<and> init_ok x ex (\<lambda>j p. expr_holds (ty, R) j p e)"
proof (induction ty e rule: well_typed.induct)
  case (1 ty f op c)
  have R: "ai_inv x" "ai_has x f T v j p \<longleftrightarrow> R f T v j p" for f T v j p using 1(1) by (simp_all add: ai_rel_def)
  have "GetTypeOfField x f = Inr STRING" using 1 by (simp add: GetTypeOfField_def ai_rel_def)
  then show ?case using 1(3) R by (simp add: ComparisonExecutor_new_def ComparisonExecutor_init)
next
  case (2 ty f op v)
  have R: "ai_inv x" "ai_has x f T v j p \<longleftrightarrow> R f T v j p" for f T v j p using 2(1) by (simp_all add: ai_rel_def)
  obtain T where T: "ty f = Some T" "T \<noteq> STRING" "accepts T v" using 2(3) by (auto split: option.splits)
  have "GetTypeOfField x f = Inr T" using 2(1) T(1) by (simp add: GetTypeOfField_def ai_rel_def)
  moreover have "GetNumericValue T v = Inr (numeric_int v)" using GetNumericValue_eq [OF T(2), of v] T(3) 2(2) by simp
  ultimately show ?case using T R by (simp add: ComparisonExecutor_new_def ComparisonExecutor_init)
next
  case (3 ty f n vs)
  have R: "ai_inv x" "ai_has x f T v j p \<longleftrightarrow> R f T v j p" for f T v j p using 3(1) by (simp_all add: ai_rel_def)
  obtain T where T: "ty f = Some T" "T \<noteq> STRING" "fits T vs" using 3(3) by (auto split: option.splits)
  have "GetTypeOfField x f = Inr T" using 3(1) T(1) by (simp add: GetTypeOfField_def ai_rel_def)
  then show ?case using T(1,2) R copy_vector_fits [OF T(3,2)] by (auto simp: IntegerListExecutor_new_def intro!: IntegerListExecutor_init)
next
  case (4 ty f n vs)
  have R: "ai_inv x" "ai_has x f T v j p \<longleftrightarrow> R f T v j p" for f T v j p using 4(1) by (simp_all add: ai_rel_def)
  obtain T where T: "ty f = Some T" "T \<noteq> STRING" "fits T vs" using 4(3) by (auto split: option.splits)
  have "GetTypeOfField x f = Inr T" using 4(1) T(1) by (simp add: GetTypeOfField_def ai_rel_def)
  then show ?case using T(1,2) R copy_vector_fits [OF T(3,2)] by (auto simp: IntegerListExecutor_new_def intro!: IntegerListExecutor_init)
next
  case (5 ty f n vs)
  have "ai_inv x" "ai_has x f T v j p \<longleftrightarrow> R f T v j p" for f T v j p using 5(1) by (simp_all add: ai_rel_def)
  then show ?case using 5(3) by (auto simp: StringListExecutor_new_def intro!: StringListExecutor_init)
next
  case (6 ty l op r)
  then obtain le re where l: "MakeInstance x l = Inr le" "ex_supported le = supported l" "init_ok x le (\<lambda>j p. expr_holds (ty, R) j p l)"
    and r: "MakeInstance x r = Inr re" "ex_supported re = supported r" "init_ok x re (\<lambda>j p. expr_holds (ty, R) j p r)" by auto
  have "init_ok x (LogicalExecutor Executor_new op le re) (\<lambda>j p. expr_holds (ty, R) j p (LogicalExpression l op r))"
    using logical_init_ok [OF l(3) r(3), of op] by simp
  then show ?case using l r by simp
qed simp_all

text \<open>A pass of a query, and a sequence of them.\<close>

definition pass_ok :: "nat \<Rightarrow> (nat \<Rightarrow> inner_id \<Rightarrow> bool) \<Rightarrow> 'b list \<times> 'b executor \<Rightarrow> bool" where
  "pass_ok hi P s \<longleftrightarrow> (case s of (h, ex) \<Rightarrow> placed 0 hi ex \<and> ex_supported ex \<and> ex_means ex = P \<and> store_ok hi h)"

lemma clear_and_run_ok:
  assumes "pass_ok hi P s"
  shows "\<exists>s'. clear_and_run bm j s = Inr s' \<and> pass_ok hi P s' \<and> answers 0 hi j (fst s') (snd s')"
proof -
  obtain h ex where s: "s = (h, ex)" "placed 0 hi ex" "ex_supported ex" "ex_means ex = P" "store_ok hi h" using assms by (auto simp: pass_ok_def)
  from Executor_Clear_ok [OF s(2,5)] obtain h1 where h1: "Executor_Clear bm ex h = Inr h1" "store_ok hi h1" "bits_clear 0 hi h1" by blast
  from Executor_Run_ok [OF s(2,3) h1(2,3), of j] show ?thesis
    using s h1(1) by (auto simp: run_ok_def clear_and_run_def pass_ok_def)
qed

lemma clear_and_run_unsupported:
  assumes "placed 0 hi ex" "\<not> ex_supported ex" "store_ok hi h"
  shows "clear_and_run bm j (h, ex) = Inl (Throw INTERNAL_ERROR)"
proof -
  from Executor_Clear_ok [OF assms(1,3)] obtain h1 where h1: "Executor_Clear bm ex h = Inr h1" "store_ok hi h1" "bits_clear 0 hi h1" by blast
  then show ?thesis using Executor_Run_unsupported [OF assms(1,2) h1(2,3)] by (simp add: clear_and_run_def)
qed

end

section \<open>Queries\<close>

text \<open>
  What the indexes do with a parsed filter: construct the executor, initialise it, and clear and run it for
  every bucket they scan. The filter is used until the next run.
\<close>

definition run_query :: "'b bitset_methods \<Rightarrow> 'b attr_index \<Rightarrow> expression \<Rightarrow> nat list \<Rightarrow> ('b list \<times> 'b executor) result" where
  "run_query bm x e buckets = bindR (MakeInstance x e) (\<lambda>ex. foldR (clear_and_run bm) buckets (Executor_Init bm x ex []))"

text \<open>The filter accepts the elements that satisfy the expression, or the run is refused.\<close>

definition evaluates :: "'b bitset_methods \<Rightarrow> 'b attr_index \<Rightarrow> (bytes \<rightharpoonup> attr_value_type) \<times> attr_table \<Rightarrow> expression \<Rightarrow> bool" where
  "evaluates bm x s e \<longleftrightarrow> (\<forall>buckets j.
     if supported e
     then \<exists>h ex. run_query bm x e (buckets @ [j]) = Inr (h, ex) \<and>
        (\<forall>i. row_pos i < 2 ^ 32 - 64 \<longrightarrow> CheckValid bm h ex i = Inr (expr_holds s j (row_pos i) e))
     else run_query bm x e (j # buckets) = Inl (Throw INTERNAL_ERROR))"

context attr_bitset
begin

lemma ai_rel_evaluates:
  assumes "ai_rel x s" "constants_ok e" "well_typed (fst s) e"
  shows "evaluates bm x s e"
proof -
  have "ai_rel x (fst s, snd s)" using assms(1) by simp
  from MakeInstance_ok [OF this assms(2,3)] obtain ex where ex: "MakeInstance x e = Inr ex" "ex_supported ex = supported e"
    "init_ok x ex (\<lambda>j p. expr_holds s j p e)" by auto
  have "store_ok (length []) []" by (simp add: store_ok_def)
  with ex(3) obtain h' ex' where i: "Executor_Init bm x ex [] = (h', ex')" "placed 0 (length h') ex'" "store_ok (length h') h'"
    "ex_supported ex' = ex_supported ex" "\<forall>j p. ex_means ex' j p \<longleftrightarrow> expr_holds s j p e" unfolding init_ok_def by fastforce
  show ?thesis unfolding evaluates_def
  proof (intro allI)
    fix buckets :: "nat list" and j :: nat
    show "if supported e then \<exists>h ex. run_query bm x e (buckets @ [j]) = Inr (h, ex) \<and>
        (\<forall>i. row_pos i < 2 ^ 32 - 64 \<longrightarrow> CheckValid bm h ex i = Inr (expr_holds s j (row_pos i) e))
      else run_query bm x e (j # buckets) = Inl (Throw INTERNAL_ERROR)"
    proof (cases "supported e")
      case True
      let ?P = "pass_ok (length h') (\<lambda>j p. expr_holds s j p e)"
      have m: "ex_means ex' = (\<lambda>j p. expr_holds s j p e)" using i(5) by blast
      have "?P (h', ex')" using i m ex(2) True by (simp add: pass_ok_def)
      then obtain t where t: "foldR (clear_and_run bm) buckets (h', ex') = Inr t" "?P t"
        using foldR_invariant [of ?P "(h', ex')" buckets "clear_and_run bm"] clear_and_run_ok by blast
      from clear_and_run_ok [OF t(2), of j] obtain h2 ex2 where r: "clear_and_run bm j t = Inr (h2, ex2)" "?P (h2, ex2)" "answers 0 (length h') j h2 ex2" by fastforce
      have "run_query bm x e (buckets @ [j]) = Inr (h2, ex2)" using ex(1) i(1) t(1) r(1) by (simp add: run_query_def foldR_append)
      moreover have "CheckValid bm h2 ex2 i = Inr (expr_holds s j (row_pos i) e)" if "row_pos i < 2 ^ 32 - 64" for i
      proof -
        have "agree 0 (length h') h2 h2" by (simp add: agree_def)
        then have "CheckValid bm h2 ex2 i = Inr (ex_means ex2 j (row_pos i))" using r(3) that unfolding answers_def by blast
        then show ?thesis using r(2) by (simp add: pass_ok_def)
      qed
      ultimately show ?thesis using True by auto
    next
      case False
      then have "clear_and_run bm j (h', ex') = Inl (Throw INTERNAL_ERROR)" using clear_and_run_unsupported [OF i(2) _ i(3)] i(4) ex(2) by simp
      then show ?thesis using False ex(1) i(1) by (simp add: run_query_def)
    qed
  qed
qed

end

context roaring_bitmap
begin

lemma sparse_evaluates:
  assumes "ops_ok ops (Map.empty, \<lambda>f T v j p. False)" "s = fold spec_op ops (Map.empty, \<lambda>f T v j p. False)" "constants_ok e" "well_typed (fst s) e"
  shows "\<exists>x. foldR (exec_op (sparse_bitset_methods rr)) ops AttributeIndex_new = Inr x \<and> evaluates (sparse_bitset_methods rr) x s e"
  using sparse_index_rel [OF assms(1)] sparse_attr.ai_rel_evaluates [OF _ assms(3), of _ s] assms(2,4) by blast

end

lemma evaluatesD:
  assumes "evaluates bm x s e" "supported e"
  obtains h ex where "run_query bm x e [j] = Inr (h, ex)"
    "\<And>i. row_pos i < 2 ^ 32 - 64 \<Longrightarrow> CheckValid bm h ex i = Inr (expr_holds s j (row_pos i) e)"
proof -
  have "\<exists>h ex. run_query bm x e ([] @ [j]) = Inr (h, ex) \<and>
      (\<forall>i. row_pos i < 2 ^ 32 - 64 \<longrightarrow> CheckValid bm h ex i = Inr (expr_holds s j (row_pos i) e))"
    using assms unfolding evaluates_def by presburger
  then show ?thesis using that unfolding append_Nil by blast
qed

section \<open>Properties\<close>

text \<open>
  Claim C7. The executor of a well-typed filter expression implements its meaning: on the index that any
  sequence of operations built, with either kind of bitset and after any earlier runs, the filter accepts an
  identifier exactly when the values of its element in the bucket satisfy the expression, whose constants are taken
  as numbers. Well-typed means that every field is known and compared with constants of its type and, in comparisons
  and in lists, in the range of this type (a list with other numbers is the subject of C39). An expression with an
  operator that is not implemented is refused by \<open>Run\<close>. The filter is asked for positions below \<open>2^32 - 64\<close>.
\<close>

theorem Executor_refines_expression:
  assumes "roaring_bitmap rr elems" "ops_ok ops (Map.empty, \<lambda>f T v j p. False)"
    and "s = fold spec_op ops (Map.empty, \<lambda>f T v j p. False)" "constants_ok e" "well_typed (fst s) e"
  shows "(\<exists>x. foldR (exec_op fast_bitset_methods) ops AttributeIndex_new = Inr x \<and> evaluates fast_bitset_methods x s e) \<and>
    (\<exists>x. foldR (exec_op (sparse_bitset_methods rr)) ops AttributeIndex_new = Inr x \<and> evaluates (sparse_bitset_methods rr) x s e)"
  using fast_attr.exec_ops_rel [OF fast_attr.ai_rel_new assms(2)] fast_attr.ai_rel_evaluates [OF _ assms(4,5)] assms(3)
    roaring_bitmap.sparse_evaluates [OF assms] by blast

theorem Executor_refines_expression_witness:
  "\<exists>x h ex. foldR (exec_op (sparse_bitset_methods list_roaring))
      [AInsert [\<lparr>at_name = [1], at_type = INT8, at_value = [Num 5, Num 6]\<rparr>] 3 0, AInsert [\<lparr>at_name = [1], at_type = INT8, at_value = [Num 5, Num 7]\<rparr>] 4 0]
      AttributeIndex_new = Inr x \<and>
    run_query (sparse_bitset_methods list_roaring) x
      (LogicalExpression (IntListExpression (FieldExpression [1]) False (IntListConstant_int64 [5, 8])) AND_op
        (ComparisonExpression (FieldExpression [1]) NE (NumericConstant (Int64 7)))) [0] = Inr (h, ex) \<and>
    CheckValid (sparse_bitset_methods list_roaring) h ex 3 = Inr True \<and> CheckValid (sparse_bitset_methods list_roaring) h ex 4 = Inr False"
proof -
  let ?ops = "[AInsert [\<lparr>at_name = [1], at_type = INT8, at_value = [Num 5, Num 6]\<rparr>] 3 0, AInsert [\<lparr>at_name = [1], at_type = INT8, at_value = [Num 5, Num 7]\<rparr>] 4 0]"
  let ?e = "LogicalExpression (IntListExpression (FieldExpression [1]) False (IntListConstant_int64 [5, 8])) AND_op
        (ComparisonExpression (FieldExpression [1]) NE (NumericConstant (Int64 7)))"
  define s where "s = fold spec_op ?ops (Map.empty, \<lambda>f T v j p. False)"
  obtain ty R where tR: "s = (ty, R)" by (cases s)
  have ty: "ty = [[1] \<mapsto> INT8]" and R: "R = spec_add 0 4 \<lparr>at_name = [1], at_type = INT8, at_value = [Num 5, Num 7]\<rparr>
      (spec_add 0 3 \<lparr>at_name = [1], at_type = INT8, at_value = [Num 5, Num 6]\<rparr> (\<lambda>f T v j p. False))" using tR by (simp_all add: s_def)
  have wt: "well_typed (fst s) ?e" unfolding tR by (simp add: ty fits_def int_type_defs)
  have "ops_ok ?ops (Map.empty, \<lambda>f T v j p. False)" "constants_ok ?e" "supported ?e" by simp_all
  then obtain x where x: "foldR (exec_op (sparse_bitset_methods list_roaring)) ?ops AttributeIndex_new = Inr x" "evaluates (sparse_bitset_methods list_roaring) x s ?e"
    using Executor_refines_expression [OF list_bitmap.roaring_bitmap_axioms _ s_def _ wt] by blast
  from evaluatesD [OF x(2) \<open>supported ?e\<close>, of 0] obtain h ex where r: "run_query (sparse_bitset_methods list_roaring) x ?e [0] = Inr (h, ex)"
    "\<And>i. row_pos i < 2 ^ 32 - 64 \<Longrightarrow> CheckValid (sparse_bitset_methods list_roaring) h ex i = Inr (expr_holds s 0 (row_pos i) ?e)" by metis
  have pos: "row_pos 3 = 3" "row_pos 4 = 4" by (simp_all add: row_pos_def)
  have "expr_holds s 0 3 ?e" "\<not> expr_holds s 0 4 ?e" unfolding tR by (simp_all add: ty R spec_add_def)
  then have "CheckValid (sparse_bitset_methods list_roaring) h ex 3 = Inr True" "CheckValid (sparse_bitset_methods list_roaring) h ex 4 = Inr False"
    using r(2) [of 3] r(2) [of 4] unfolding pos by simp_all
  then show ?thesis using x(1) r(1) by blast
qed

text \<open>
  The constructors treat a logical expression leaf by leaf. These are the lists that they take although they are not
  well-typed: an integer list with a number outside the range of its field, a string list on a field that is unknown
  or not of strings.
\<close>

fun expr_leaves :: "expression \<Rightarrow> expression list" where
  "expr_leaves (LogicalExpression l op r) = expr_leaves l @ expr_leaves r"
| "expr_leaves e = [e]"

definition unchecked_ints :: "attr_value_type option \<Rightarrow> int list \<Rightarrow> bool" where
  "unchecked_ints T vs \<longleftrightarrow> T \<noteq> None \<and> T \<noteq> Some STRING \<and> \<not> fits (the T) vs"

fun unchecked_list :: "(bytes \<rightharpoonup> attr_value_type) \<Rightarrow> expression \<Rightarrow> bool" where
  "unchecked_list ty (IntListExpression (FieldExpression f) n (IntListConstant_int64 vs)) \<longleftrightarrow> unchecked_ints (ty f) vs"
| "unchecked_list ty (IntListExpression (FieldExpression f) n (IntListConstant_uint64 vs)) \<longleftrightarrow> unchecked_ints (ty f) vs"
| "unchecked_list ty (StrListExpression (FieldExpression f) n (StrListConstant vs)) \<longleftrightarrow> ty f \<noteq> Some STRING"
| "unchecked_list ty _ \<longleftrightarrow> False"

definition leaf_accepted :: "(bytes \<rightharpoonup> attr_value_type) \<Rightarrow> expression \<Rightarrow> bool" where
  "leaf_accepted ty e \<longleftrightarrow> well_typed ty e \<or> unchecked_list ty e"

definition typed_result :: "'b executor result \<Rightarrow> bool \<Rightarrow> bool" where
  "typed_result r ok \<longleftrightarrow> (case r of Inl fault \<Rightarrow> \<not> ok \<and> (fault = Throw INTERNAL_ERROR \<or> fault = Std_runtime_error) | Inr ex \<Rightarrow> ok)"

lemma well_typed_leaves: "well_typed ty e \<longleftrightarrow> (\<forall>l\<in>set (expr_leaves e). well_typed ty l)"
  by (induction e) auto

lemma make_typed:
  "ty = map_of (ai_field_type_map x) \<Longrightarrow> constants_ok e \<Longrightarrow> typed_result (MakeInstance x e) (\<forall>l\<in>set (expr_leaves e). leaf_accepted ty l)"
proof (induction ty e rule: well_typed.induct)
  case (2 ty f op v)
  then show ?case using GetNumericValue_eq [of _ v]
    by (auto simp: typed_result_def leaf_accepted_def ComparisonExecutor_new_def GetTypeOfField_def split: option.splits)
next
  case (6 ty l op r)
  then show ?case by (auto simp: typed_result_def split: sum.splits)
qed (auto simp: typed_result_def leaf_accepted_def unchecked_ints_def ComparisonExecutor_new_def IntegerListExecutor_new_def
    StringListExecutor_new_def GetTypeOfField_def split: option.splits expression.splits)

text \<open>
  Claim C26. The constructors check the types of comparisons completely and those of lists in part. Every well-typed
  expression is accepted; an expression is accepted exactly when each of its leaves (the operands of its logical
  operators) is well-typed or is one of the unchecked lists: an integer list on an integer field with a number outside
  the range of the field, or a string list on a field that is unknown or holds integers. Every other expression is
  answered with an exception. The numeric constants are as the visitor produces them.
\<close>

theorem MakeInstance_well_typed:
  assumes "constants_ok e" "ty = map_of (ai_field_type_map x)"
  shows "((\<exists>ex. MakeInstance x e = Inr ex) \<longleftrightarrow> (\<forall>l\<in>set (expr_leaves e). well_typed ty l \<or> unchecked_list ty l)) \<and>
    (well_typed ty e \<longrightarrow> (\<exists>ex. MakeInstance x e = Inr ex)) \<and>
    (\<forall>fault. MakeInstance x e = Inl fault \<longrightarrow> fault = Throw INTERNAL_ERROR \<or> fault = Std_runtime_error)"
  using make_typed [OF assms(2,1)] well_typed_leaves [of ty e] by (auto simp: typed_result_def leaf_accepted_def split: sum.splits)

theorem MakeInstance_well_typed_witness:
  "\<not> (\<exists>ex. MakeInstance \<lparr>ai_field_type_map = [([1], UINT8)], ai_field_2_value_map = [([1], AttrValueMap_new :: fast_bitset attr_value_map)]\<rparr>
     (ComparisonExpression (FieldExpression [1]) EQ (NumericConstant (Int64 300))) = Inr ex) \<and>
   (\<exists>ex. MakeInstance \<lparr>ai_field_type_map = [([1], UINT8)], ai_field_2_value_map = [([1], AttrValueMap_new :: fast_bitset attr_value_map)]\<rparr>
     (ComparisonExpression (FieldExpression [1]) EQ (NumericConstant (Int64 30))) = Inr ex)"
proof -
  let ?x = "\<lparr>ai_field_type_map = [([1], UINT8)], ai_field_2_value_map = [([1], AttrValueMap_new :: fast_bitset attr_value_map)]\<rparr>"
  let ?e = "\<lambda>v. ComparisonExpression (FieldExpression [1]) EQ (NumericConstant (Int64 v))"
  have "constants_ok (?e 300)" "constants_ok (?e 30)" by simp_all
  note m = this [THEN MakeInstance_well_typed [OF _ refl, of _ ?x]]
  have "\<not> well_typed (map_of (ai_field_type_map ?x)) (?e 300)" "well_typed (map_of (ai_field_type_map ?x)) (?e 30)" by (simp_all add: int_type_defs)
  then show ?thesis using m by simp
qed

text \<open>
  Claim C39. A number outside the range of the field's type is an error in a comparison, but a list converts
  it silently: the same constant in \<open>IN\<close> matches the values that it wraps to.
\<close>

theorem IN_list_truncates:
  assumes "GetTypeOfField x f = Inr T" "T \<noteq> STRING" "v < int_min T \<or> int_max T < v" "- (2 ^ 63) \<le> v" "v < 2 ^ 63"
  shows "MakeInstance x (ComparisonExpression (FieldExpression f) EQ (NumericConstant (Int64 v))) = Inl Std_runtime_error \<and>
    MakeInstance x (IntListExpression (FieldExpression f) False (IntListConstant_int64 [v])) =
      MakeInstance x (IntListExpression (FieldExpression f) False (IntListConstant_int64 [int_cast T v])) \<and>
    int_min T \<le> int_cast T v \<and> int_cast T v \<le> int_max T"
proof -
  have "GetNumericValue T (Int64 v) = Inl Std_runtime_error" using GetNumericValue_eq [OF assms(2), of "Int64 v"] assms(3-5) by auto
  then have "MakeInstance x (ComparisonExpression (FieldExpression f) EQ (NumericConstant (Int64 v))) = Inl Std_runtime_error"
    using assms(1,2) by (simp add: ComparisonExecutor_new_def)
  moreover have "int_cast T (int_cast T v) = int_cast T v" by (simp add: int_cast_def)
  moreover have "int_max T = int_min T + 2 ^ int_width T - 1" using assms(2) by (cases T) (simp_all add: int_type_defs)
  then have "int_min T \<le> int_cast T v" "int_cast T v \<le> int_max T" by (simp_all add: int_cast_def)
  ultimately show ?thesis using assms(1) by (simp add: IntegerListExecutor_new_def copy_vector_def)
qed

theorem IN_list_truncates_witness:
  "MakeInstance \<lparr>ai_field_type_map = [([1], UINT8)], ai_field_2_value_map = [([1], AttrValueMap_new :: fast_bitset attr_value_map)]\<rparr>
      (IntListExpression (FieldExpression [1]) False (IntListConstant_int64 [300])) =
   MakeInstance \<lparr>ai_field_type_map = [([1], UINT8)], ai_field_2_value_map = [([1], AttrValueMap_new :: fast_bitset attr_value_map)]\<rparr>
      (IntListExpression (FieldExpression [1]) False (IntListConstant_int64 [44]))"
proof -
  let ?x = "\<lparr>ai_field_type_map = [([1], UINT8)], ai_field_2_value_map = [([1], AttrValueMap_new :: fast_bitset attr_value_map)]\<rparr>"
  have "GetTypeOfField ?x [1] = Inr UINT8" "UINT8 \<noteq> STRING" "300 < int_min UINT8 \<or> int_max UINT8 < 300" "- (2 ^ 63) \<le> (300 :: int)" "(300 :: int) < 2 ^ 63"
    by (simp_all add: GetTypeOfField_def int_type_defs)
  from IN_list_truncates [OF this] show ?thesis by (simp add: int_cast_def int_type_defs)
qed

end
