(* ===== verification/FilterVisitor.thy ===== *)
theory FilterVisitor
  imports Executors
begin

text \<open>
  From the parse tree of a filter string to an expression: \<open>src/attr/expression_visitor.cpp\<close>. The parse tree
  mirrors the contexts that ANTLR generates from \<open>src/attr/grammar/FC.g4\<close>, with the texts of the tokens;
  the lexer and the parser are generated code. \<open>std::stod\<close> is a parameter, the schema is the map of field types.
\<close>

section \<open>Texts\<close>

definition text_bytes :: "string \<Rightarrow> bytes" where
  "text_bytes s = map of_char s"

definition is_digit :: "byte \<Rightarrow> bool" where
  "is_digit c \<longleftrightarrow> 48 \<le> unat c \<and> unat c \<le> 57"

definition is_space :: "byte \<Rightarrow> bool" where
  "is_space c \<longleftrightarrow> unat c = 32 \<or> 9 \<le> unat c \<and> unat c \<le> 13"

definition digits_value :: "bytes \<Rightarrow> nat" where
  "digits_value ds = foldl (\<lambda>n c. 10 * n + (unat c - 48)) 0 ds"

text \<open>
  \<open>strtoll\<close> and \<open>strtoull\<close> in base 10: white space, an optional sign, the digits; what follows is ignored, and so
  is what follows a null character. The result is the sign and the magnitude, none without a digit.
\<close>

definition scan_integer :: "bytes \<Rightarrow> (bool \<times> nat) option" where
  "scan_integer s =
     (let s = dropWhile is_space (takeWhile (\<lambda>c. c \<noteq> 0) s);
          (neg, s) = (case s of [] \<Rightarrow> (False, []) | c # cs \<Rightarrow> if c = 45 then (True, cs) else if c = 43 then (False, cs) else (False, s));
          ds = takeWhile is_digit s
      in if ds = [] then None else Some (neg, digits_value ds))"

definition stoll :: "bytes \<Rightarrow> int result" where
  "stoll s = (case scan_integer s of None \<Rightarrow> Inl Std_invalid_argument
     | Some (neg, n) \<Rightarrow> let v = (if neg then - int n else int n)
         in if v < - (2 ^ 63) \<or> v \<ge> 2 ^ 63 then Inl Std_out_of_range else Inr v)"

text \<open>A negative number wraps around.\<close>

definition stoull :: "bytes \<Rightarrow> int result" where
  "stoull s = (case scan_integer s of None \<Rightarrow> Inl Std_invalid_argument
     | Some (neg, n) \<Rightarrow> if n \<ge> 2 ^ 64 then Inl Std_out_of_range else Inr ((if neg then - int n else int n) mod 2 ^ 64))"

text \<open>\<open>std::to_string\<close> of an integer.\<close>

fun nat_text :: "nat \<Rightarrow> bytes" where
  "nat_text n = (if n < 10 then [of_nat (48 + n)] else nat_text (n div 10) @ [of_nat (48 + n mod 10)])"

declare nat_text.simps [simp del]

definition int_text :: "int \<Rightarrow> bytes" where
  "int_text v = (if v < 0 then 45 # nat_text (nat (- v)) else nat_text (nat v))"

section \<open>Printing\<close>

text \<open>\<open>ToString\<close> of the operators and of the expressions; \<open>std::to_string\<close> of a double is a parameter.\<close>

fun arithmetic_text :: "arithmetic_operator \<Rightarrow> bytes" where
  "arithmetic_text ADD = text_bytes ''+''" | "arithmetic_text SUB = text_bytes ''-''"
| "arithmetic_text MUL = text_bytes ''*''" | "arithmetic_text DIV = text_bytes ''/''"

fun logical_text :: "logical_operator \<Rightarrow> bytes" where
  "logical_text AND_op = text_bytes ''AND''" | "logical_text OR_op = text_bytes ''OR''" | "logical_text NOT_op = text_bytes ''!''"

fun comparison_text :: "comparison_operator \<Rightarrow> bytes" where
  "comparison_text EQ = text_bytes ''=''" | "comparison_text NE = text_bytes ''!=''" | "comparison_text GT = text_bytes ''>''"
| "comparison_text LT = text_bytes ''<''" | "comparison_text GE = text_bytes ''>=''" | "comparison_text LE = text_bytes ''<=''"

text \<open>The zeros at the end of a double are removed, but one is kept after the point.\<close>

fun numeric_text :: "(64 word \<Rightarrow> bytes) \<Rightarrow> numeric_value \<Rightarrow> bytes result" where
  "numeric_text to_string (Int64 a) = Inr (int_text a)"
| "numeric_text to_string (Uint64 a) = Inr (int_text a)"
| "numeric_text to_string (Double d) =
     (let str = rev (dropWhile (\<lambda>c. c = 48) (rev (to_string d)))
      in if str = [] then Inl UB else Inr (if last str = 46 then str @ [48] else str))"

fun comma_join :: "bytes list \<Rightarrow> bytes" where
  "comma_join [] = []"
| "comma_join [t] = t"
| "comma_join (t # u # ts) = t @ text_bytes '', '' @ comma_join (u # ts)"

definition binary_text :: "bytes \<Rightarrow> bytes \<Rightarrow> bytes \<Rightarrow> bytes" where
  "binary_text left op right = [40] @ left @ [32] @ op @ [32] @ right @ [41]"

fun expr_ToString :: "(64 word \<Rightarrow> bytes) \<Rightarrow> expression \<Rightarrow> bytes result" where
  "expr_ToString to_string (FieldExpression f) = Inr f"
| "expr_ToString to_string (NumericConstant v) = numeric_text to_string v"
| "expr_ToString to_string (StringConstant s) = Inr ([34] @ s @ [34])"
| "expr_ToString to_string (StrListConstant vs) = Inr ([91] @ comma_join (map (\<lambda>s. [34] @ s @ [34]) vs) @ [93])"
| "expr_ToString to_string (IntListConstant_int64 vs) = Inr ([91] @ comma_join (map int_text vs) @ [93])"
| "expr_ToString to_string (IntListConstant_uint64 vs) = Inr ([91] @ comma_join (map int_text vs) @ [93])"
| "expr_ToString to_string (ArithmeticExpression l op r) =
     bindR (expr_ToString to_string l) (\<lambda>l. bindR (expr_ToString to_string r) (\<lambda>r. Inr (binary_text l (arithmetic_text op) r)))"
| "expr_ToString to_string (ComparisonExpression l op r) =
     bindR (expr_ToString to_string l) (\<lambda>l. bindR (expr_ToString to_string r) (\<lambda>r. Inr (binary_text l (comparison_text op) r)))"
| "expr_ToString to_string (IntListExpression f n vs) =
     bindR (expr_ToString to_string f) (\<lambda>f. bindR (expr_ToString to_string vs) (\<lambda>vs. Inr (binary_text f (text_bytes (if n then ''NOT_IN'' else ''IN'')) vs)))"
| "expr_ToString to_string (StrListExpression f n vs) =
     bindR (expr_ToString to_string f) (\<lambda>f. bindR (expr_ToString to_string vs) (\<lambda>vs. Inr (binary_text f (text_bytes (if n then ''NOT_IN'' else ''IN'')) vs)))"
| "expr_ToString to_string (LogicalExpression l op r) =
     bindR (expr_ToString to_string l) (\<lambda>l. bindR (expr_ToString to_string r) (\<lambda>r. Inr (binary_text l (logical_text op) r)))"
| "expr_ToString to_string (NotExpression e) =
     bindR (expr_ToString to_string e) (\<lambda>e. Inr (text_bytes ''! ('' @ e @ [41]))"

section \<open>Helpers of the visitor\<close>

definition trans_string_to_comparison_operator :: "bytes \<Rightarrow> comparison_operator result" where
  "trans_string_to_comparison_operator s =
     (if s = text_bytes ''>='' then Inr GE else if s = text_bytes ''<='' then Inr LE
      else if s = text_bytes ''>'' then Inr GT else if s = text_bytes ''<'' then Inr LT
      else if s = text_bytes ''='' then Inr EQ else if s = text_bytes ''!='' then Inr NE
      else Inl (Throw INVALID_ARGUMENT))"

definition trans_string_to_logical_operator :: "bytes \<Rightarrow> logical_operator result" where
  "trans_string_to_logical_operator s =
     (if s = text_bytes ''AND'' \<or> s = text_bytes ''and'' \<or> s = text_bytes ''&&'' then Inr AND_op
      else if s = text_bytes ''OR'' \<or> s = text_bytes ''or'' \<or> s = text_bytes ''||'' then Inr OR_op
      else Inl (Throw INVALID_ARGUMENT))"

definition trans_string_to_arithmetic_operator :: "bytes \<Rightarrow> arithmetic_operator result" where
  "trans_string_to_arithmetic_operator s =
     (if s = text_bytes ''+'' then Inr ADD else if s = text_bytes ''-'' then Inr SUB
      else if s = text_bytes ''*'' then Inr MUL else if s = text_bytes ''/'' then Inr DIV
      else Inl (Throw INVALID_ARGUMENT))"

definition visit_int_token :: "bytes \<Rightarrow> numeric_value result" where
  "visit_int_token int_token =
     (if int_token \<noteq> [] \<and> int_token ! 0 = 45 then bindR (stoll int_token) (\<lambda>val. Inr (Int64 val))
      else bindR (stoull int_token) (\<lambda>uval. if uval > 2 ^ 63 - 1 then Inr (Uint64 uval) else Inr (Int64 uval)))"

text \<open>A loop that collects the results of its body.\<close>

fun collect :: "('a \<Rightarrow> 'b result) \<Rightarrow> 'a list \<Rightarrow> 'b list result" where
  "collect f [] = Inr []"
| "collect f (x # xs) = bindR (f x) (\<lambda>y. bindR (collect f xs) (\<lambda>ys. Inr (y # ys)))"

text \<open>\<open>std::get<int64_t>\<close>.\<close>

fun get_int64 :: "numeric_value \<Rightarrow> int result" where
  "get_int64 (Int64 a) = Inr a"
| "get_int64 _ = Inl UB"

definition build_int_list_ptr :: "nat \<Rightarrow> numeric_value list \<Rightarrow> expression result" where
  "build_int_list_ptr signed_cnt values =
     (if signed_cnt = length values then bindR (collect get_int64 values) (\<lambda>vs. Inr (IntListConstant_int64 vs))
      else bindR (collect (GetNumericValue UINT64) values) (\<lambda>vs. Inr (IntListConstant_uint64 vs)))"

text \<open>A view: the text from its start to the end of the underlying string, and its length.\<close>

function string_view_split :: "byte \<Rightarrow> bytes \<Rightarrow> (bytes \<times> nat) list" where
  "string_view_split delim str =
     (case dropWhile (\<lambda>c. c \<noteq> delim) str of
        [] \<Rightarrow> [(str, length str)]
      | _ # rest \<Rightarrow> (str, length (takeWhile (\<lambda>c. c \<noteq> delim) str)) # string_view_split delim rest)"
  by auto
termination
proof (relation "measure (\<lambda>(d, s). length s)", simp)
  fix delim c :: byte and str rest :: bytes
  assume "dropWhile (\<lambda>c. c \<noteq> delim) str = c # rest"
  then have "length (c # rest) \<le> length str" by (metis length_dropWhile_le)
  then show "((delim, rest), delim, str) \<in> measure (\<lambda>(d, s). length s)" by simp
qed

declare string_view_split.simps [simp del]

definition view_text :: "bytes \<times> nat \<Rightarrow> bytes" where
  "view_text v = take (snd v) (fst v)"

text \<open>\<open>str.substr(1, str.size() - 2)\<close>, the text without its quotes.\<close>

definition strip_quotes :: "bytes \<Rightarrow> bytes result" where
  "strip_quotes s = (if length s < 1 then Inl Std_out_of_range else Inr (take (u64_sub (length s) 2) (drop 1 s)))"

section \<open>The parse tree\<close>

datatype numeric_ctx = INTEGER_tok bytes | FLOAT_tok bytes

datatype int_pipe_list_ctx = INT_STRING_tok bytes | PIPE_INT_STR_tok bytes

datatype str_pipe_list_ctx = STRING_tok bytes | PIPE_STR_STR_tok bytes

record str_value_list_ctx =
  sv_STRING :: "bytes list"
  sv_INT_STRING :: "bytes list"

datatype field_expr_ctx =
    ParenFieldExpr field_expr_ctx
  | FieldRef bytes
  | NumericConst numeric_ctx
  | ArithmeticExpr field_expr_ctx bytes field_expr_ctx

datatype comparison_ctx =
    IntPipeListExpr bytes bool int_pipe_list_ctx
  | StrPipeListExpr bytes bool str_pipe_list_ctx
  | IntListExpr bytes bool "bytes list"
  | StrListExpr bytes bool str_value_list_ctx
  | NumericComparison field_expr_ctx bytes numeric_ctx
  | StringComparison bytes bytes bytes

datatype expr_ctx =
    ParenExpr expr_ctx
  | NotExpr expr_ctx
  | LogicalExpr expr_ctx bytes expr_ctx
  | CompExpr comparison_ctx

section \<open>The visitor\<close>

type_synonym schema = "(bytes \<times> attr_value_type) list"

definition Schema_GetTypeOfField :: "schema \<Rightarrow> bytes \<Rightarrow> attr_value_type result" where
  "Schema_GetTypeOfField schema field_name = (case map_of schema field_name of None \<Rightarrow> Inl (Throw INTERNAL_ERROR) | Some T \<Rightarrow> Inr T)"

text \<open>\<open>schema_ != nullptr and is_string_type(field)\<close>, and with \<open>not is_string_type(field)\<close>.\<close>

definition is_string_type :: "schema \<Rightarrow> bytes \<Rightarrow> bool result" where
  "is_string_type schema field_name = bindR (Schema_GetTypeOfField schema field_name) (\<lambda>T. Inr (T = STRING))"

definition known_string :: "schema option \<Rightarrow> bytes \<Rightarrow> bool result" where
  "known_string schema field_name = (case schema of None \<Rightarrow> Inr False | Some sc \<Rightarrow> is_string_type sc field_name)"

definition known_not_string :: "schema option \<Rightarrow> bytes \<Rightarrow> bool result" where
  "known_not_string schema field_name =
     (case schema of None \<Rightarrow> Inr False | Some sc \<Rightarrow> bindR (is_string_type sc field_name) (\<lambda>b. Inr (\<not> b)))"

fun is_int64 :: "numeric_value \<Rightarrow> bool" where
  "is_int64 (Int64 a) \<longleftrightarrow> True" | "is_int64 _ \<longleftrightarrow> False"

definition int_list_of :: "bytes list \<Rightarrow> expression result" where
  "int_list_of texts = bindR (collect visit_int_token texts) (\<lambda>values. build_int_list_ptr (length (filter is_int64 values)) values)"

definition visitInt_value_list :: "bytes list \<Rightarrow> bool \<Rightarrow> expression result" where
  "visitInt_value_list ctx is_string = (if is_string then Inr (StrListConstant ctx) else int_list_of ctx)"

definition visitStr_value_list :: "str_value_list_ctx \<Rightarrow> expression result" where
  "visitStr_value_list ctx =
     bindR (collect strip_quotes (sv_STRING ctx)) (\<lambda>xs. bindR (collect strip_quotes (sv_INT_STRING ctx)) (\<lambda>ys. Inr (StrListConstant (xs @ ys))))"

text \<open>A view is passed on as a pointer to its start: \<open>visit_int_token(s.data())\<close>.\<close>

definition visitInt_pipe_list :: "int_pipe_list_ctx \<Rightarrow> bool \<Rightarrow> expression result" where
  "visitInt_pipe_list ctx is_string =
     (case ctx of
        INT_STRING_tok s \<Rightarrow>
          if length s \<ge> 2
          then bindR (strip_quotes s) (\<lambda>t. if is_string then Inr (StrListConstant [t]) else int_list_of [t])
          else if is_string then Inr (StrListConstant []) else int_list_of []
      | PIPE_INT_STR_tok s \<Rightarrow>
          if length s \<ge> 2
          then bindR (strip_quotes s) (\<lambda>t.
            let views = string_view_split 124 t
            in if is_string then Inr (StrListConstant (map view_text views)) else int_list_of (map fst views))
          else if is_string then Inr (StrListConstant []) else int_list_of [])"

definition visitStr_pipe_list :: "str_pipe_list_ctx \<Rightarrow> expression result" where
  "visitStr_pipe_list ctx =
     (case ctx of
        STRING_tok s \<Rightarrow> if length s \<ge> 2 then bindR (strip_quotes s) (\<lambda>t. Inr (StrListConstant [t])) else Inr (StrListConstant [])
      | PIPE_STR_STR_tok s \<Rightarrow>
          if length s \<ge> 2 then bindR (strip_quotes s) (\<lambda>t. Inr (StrListConstant (map view_text (string_view_split 124 t))))
          else Inr (StrListConstant []))"

definition visitNumeric :: "(bytes \<Rightarrow> 64 word result) \<Rightarrow> numeric_ctx \<Rightarrow> expression result" where
  "visitNumeric stod ctx =
     (case ctx of
        INTEGER_tok s \<Rightarrow> bindR (visit_int_token s) (\<lambda>v. Inr (NumericConstant v))
      | FLOAT_tok s \<Rightarrow> bindR (stod s) (\<lambda>d. Inr (NumericConstant (Double d))))"

fun visitField_expr :: "(bytes \<Rightarrow> 64 word result) \<Rightarrow> schema option \<Rightarrow> field_expr_ctx \<Rightarrow> expression result" where
  "visitField_expr stod schema (ParenFieldExpr ctx) = visitField_expr stod schema ctx"
| "visitField_expr stod schema (FieldRef name) =
     bindR (known_string schema name) (\<lambda>b. if b then Inl (Throw INVALID_ARGUMENT) else Inr (FieldExpression name))"
| "visitField_expr stod schema (NumericConst ctx) = visitNumeric stod ctx"
| "visitField_expr stod schema (ArithmeticExpr left op right) =
     bindR (visitField_expr stod schema left) (\<lambda>l. bindR (visitField_expr stod schema right) (\<lambda>r.
     bindR (trans_string_to_arithmetic_operator op) (\<lambda>op. Inr (ArithmeticExpression l op r))))"

fun visitComparison :: "(bytes \<Rightarrow> 64 word result) \<Rightarrow> schema option \<Rightarrow> comparison_ctx \<Rightarrow> expression result" where
  "visitComparison stod schema (IntPipeListExpr name not_in ctx) =
     bindR (known_string schema name) (\<lambda>b. bindR (visitInt_pipe_list ctx b) (\<lambda>right.
       Inr (if b then StrListExpression (FieldExpression name) not_in right else IntListExpression (FieldExpression name) not_in right)))"
| "visitComparison stod schema (StrPipeListExpr name not_in ctx) =
     bindR (known_not_string schema name) (\<lambda>b. if b then Inl (Throw INVALID_ARGUMENT)
       else bindR (visitStr_pipe_list ctx) (\<lambda>right. Inr (StrListExpression (FieldExpression name) not_in right)))"
| "visitComparison stod schema (IntListExpr name not_in ctx) =
     bindR (known_string schema name) (\<lambda>b. bindR (visitInt_value_list ctx b) (\<lambda>right.
       Inr (if b then StrListExpression (FieldExpression name) not_in right else IntListExpression (FieldExpression name) not_in right)))"
| "visitComparison stod schema (StrListExpr name not_in ctx) =
     bindR (known_not_string schema name) (\<lambda>b. if b then Inl (Throw INVALID_ARGUMENT)
       else bindR (visitStr_value_list ctx) (\<lambda>right. Inr (StrListExpression (FieldExpression name) not_in right)))"
| "visitComparison stod schema (NumericComparison field op ctx) =
     bindR (visitField_expr stod schema field) (\<lambda>left. bindR (visitNumeric stod ctx) (\<lambda>right.
     bindR (trans_string_to_comparison_operator op) (\<lambda>op. Inr (ComparisonExpression left op right))))"
| "visitComparison stod schema (StringComparison name op s) =
     bindR (known_not_string schema name) (\<lambda>b. if b then Inl (Throw INVALID_ARGUMENT)
       else bindR (strip_quotes s) (\<lambda>t. bindR (trans_string_to_comparison_operator op) (\<lambda>op.
         Inr (ComparisonExpression (FieldExpression name) op (StringConstant t)))))"

fun visitExpr :: "(bytes \<Rightarrow> 64 word result) \<Rightarrow> schema option \<Rightarrow> expr_ctx \<Rightarrow> expression result" where
  "visitExpr stod schema (ParenExpr ctx) = visitExpr stod schema ctx"
| "visitExpr stod schema (NotExpr ctx) = bindR (visitExpr stod schema ctx) (\<lambda>e. Inr (NotExpression e))"
| "visitExpr stod schema (LogicalExpr left op right) =
     bindR (visitExpr stod schema left) (\<lambda>l. bindR (visitExpr stod schema right) (\<lambda>r.
     bindR (trans_string_to_logical_operator op) (\<lambda>op. Inr (LogicalExpression l op r))))"
| "visitExpr stod schema (CompExpr ctx) = visitComparison stod schema ctx"

text \<open>The visitor reads the operators as they are printed.\<close>

lemma comparison_texts: "trans_string_to_comparison_operator (comparison_text op) = Inr op"
  by (cases op) (simp_all add: trans_string_to_comparison_operator_def text_bytes_def of_char_def)

lemma arithmetic_texts: "trans_string_to_arithmetic_operator (arithmetic_text op) = Inr op"
  by (cases op) (simp_all add: trans_string_to_arithmetic_operator_def text_bytes_def of_char_def)

lemma logical_texts: "op \<noteq> NOT_op \<Longrightarrow> trans_string_to_logical_operator (logical_text op) = Inr op"
  by (cases op) (simp_all add: trans_string_to_logical_operator_def text_bytes_def of_char_def)

section \<open>Texts of numbers\<close>

text \<open>Texts joined with bars.\<close>

fun pipe_join :: "bytes list \<Rightarrow> bytes" where
  "pipe_join [] = []"
| "pipe_join [t] = t"
| "pipe_join (t # u # ts) = t @ 124 # pipe_join (u # ts)"

lemma unat_digit: "d < 10 \<Longrightarrow> unat (of_nat (48 + d) :: byte) = 48 + d"
  by (subst unat_of_nat) simp

lemma nat_text_digits: "c \<in> set (nat_text n) \<Longrightarrow> is_digit c"
proof (induction n rule: nat_text.induct)
  case (1 n)
  have d: "is_digit (of_nat (48 + d))" if "d < 10" for d using unat_digit [OF that] that unfolding is_digit_def by linarith
  show ?case
  proof (cases "n < 10")
    case True
    then show ?thesis using 1(2) d [OF True] by (simp add: nat_text.simps [of n])
  next
    case False
    then show ?thesis using 1 d [of "n mod 10"] by (auto simp: nat_text.simps [of n])
  qed
qed

lemma nat_text_nonempty: "nat_text n \<noteq> []"
  by (simp add: nat_text.simps [of n])

lemma digits_value_nat_text: "digits_value (nat_text n) = n"
proof (induction n rule: nat_text.induct)
  case (1 n)
  show ?case
  proof (cases "n < 10")
    case True
    then show ?thesis using unat_digit [OF True] by (simp add: nat_text.simps [of n] digits_value_def)
  next
    case False
    then show ?thesis using 1 [OF False] unat_digit [of "n mod 10"] by (simp add: nat_text.simps [of n] digits_value_def)
  qed
qed

lemma is_digit_facts: "is_digit c \<Longrightarrow> c \<noteq> 0 \<and> c \<noteq> 45 \<and> c \<noteq> 43 \<and> c \<noteq> 124 \<and> \<not> is_space c"
  by (auto simp: is_digit_def is_space_def)

lemma int_text_chars: "c \<in> set (int_text v) \<Longrightarrow> c \<noteq> 0 \<and> c \<noteq> 124"
  using nat_text_digits is_digit_facts by (force simp: int_text_def split: if_splits)

text \<open>The scan of a number stops at the next bar.\<close>

definition stops :: "bytes \<Rightarrow> bool" where
  "stops rest \<longleftrightarrow> rest = [] \<or> hd rest = 124"

lemma takeWhile_digits: "stops rest \<Longrightarrow> takeWhile is_digit (nat_text n @ rest) = nat_text n"
proof -
  assume "stops rest"
  then have "takeWhile is_digit rest = []" by (cases rest) (auto simp: stops_def is_digit_def)
  then show ?thesis using nat_text_digits by (simp add: takeWhile_append2)
qed

lemma scan_int_text:
  assumes "stops rest"
  shows "scan_integer (int_text v @ rest) = Some (v < 0, nat \<bar>v\<bar>)"
proof -
  define r where "r = takeWhile (\<lambda>c. c \<noteq> 0) rest"
  have r: "stops r" using assms by (cases rest) (auto simp: stops_def r_def)
  have z: "takeWhile (\<lambda>c. c \<noteq> 0) (int_text v @ rest) = int_text v @ r" using int_text_chars by (simp add: takeWhile_append2 r_def)
  obtain c cs where c: "nat_text (nat \<bar>v\<bar>) = c # cs" using nat_text_nonempty [of "nat \<bar>v\<bar>"] by (cases "nat_text (nat \<bar>v\<bar>)") auto
  then have cf: "is_digit c" "c \<noteq> 45" "c \<noteq> 43" "\<not> is_space c" using nat_text_digits [of c "nat \<bar>v\<bar>"] is_digit_facts [of c] by auto
  have ds: "takeWhile is_digit (c # cs @ r) = c # cs" "digits_value (c # cs) = nat \<bar>v\<bar>"
    using takeWhile_digits [OF r, of "nat \<bar>v\<bar>"] digits_value_nat_text [of "nat \<bar>v\<bar>"] unfolding c by simp_all
  show ?thesis
  proof (cases "v < 0")
    case True
    then have t: "int_text v = 45 # c # cs" using c by (simp add: int_text_def)
    have "\<not> is_space 45" by (simp add: is_space_def)
    then show ?thesis unfolding scan_integer_def z unfolding t using ds cf True by (simp add: Let_def)
  next
    case False
    then have t: "int_text v = c # cs" using c by (simp add: int_text_def)
    show ?thesis unfolding scan_integer_def z unfolding t using ds cf False by (simp add: Let_def)
  qed
qed

text \<open>The constant that a number becomes.\<close>

definition int_constant :: "int \<Rightarrow> numeric_value" where
  "int_constant v = (if v > 2 ^ 63 - 1 then Uint64 v else Int64 v)"

lemma visit_int_text:
  assumes "stops rest" "- (2 ^ 63) \<le> v" "v < 2 ^ 64"
  shows "visit_int_token (int_text v @ rest) = Inr (int_constant v)"
proof (cases "v < 0")
  case True
  then have "int_text v ! 0 = 45" "int_text v \<noteq> []" by (simp_all add: int_text_def)
  then have "(int_text v @ rest) ! 0 = 45 \<and> int_text v @ rest \<noteq> []" by (simp add: nth_append)
  then show ?thesis using True assms(2) scan_int_text [OF assms(1), of v]
    by (simp add: visit_int_token_def stoll_def int_constant_def)
next
  case False
  then have "int_text v = nat_text (nat v)" by (simp add: int_text_def)
  then have "(int_text v @ rest) ! 0 \<in> set (nat_text (nat v))" using nat_text_nonempty [of "nat v"] by (simp add: nth_append)
  then have "(int_text v @ rest) ! 0 \<noteq> 45" using nat_text_digits is_digit_facts by blast
  moreover have "\<not> nat v \<ge> 2 ^ 64" "v mod 2 ^ 64 = v" using False assms(3) by (simp_all add: nat_le_iff mod_pos_pos_trivial)
  ultimately show ?thesis using False scan_int_text [OF assms(1), of v]
    by (simp add: visit_int_token_def stoull_def int_constant_def)
qed

lemma split_no_bar:
  assumes "124 \<notin> set t"
  shows "string_view_split 124 t = [(t, length t)]"
proof -
  have d: "dropWhile (\<lambda>c. c \<noteq> 124) t = []" using assms by (auto simp: dropWhile_eq_Nil_conv)
  show ?thesis unfolding string_view_split.simps [of 124 t] d by simp
qed

lemma split_bar:
  assumes "124 \<notin> set t"
  shows "string_view_split 124 (t @ 124 # r) = (t @ 124 # r, length t) # string_view_split 124 r"
proof -
  have nb: "x \<noteq> 124" if "x \<in> set t" for x using assms that by auto
  have d: "dropWhile (\<lambda>c. c \<noteq> 124) (t @ 124 # r) = 124 # r" "takeWhile (\<lambda>c. c \<noteq> 124) (t @ 124 # r) = t"
    using dropWhile_append2 [of t "\<lambda>c. c \<noteq> 124" "124 # r", OF nb] takeWhile_append2 [of t "\<lambda>c. c \<noteq> 124" "124 # r", OF nb] by simp_all
  show ?thesis unfolding string_view_split.simps [of 124 "t @ 124 # r"] d by simp
qed

text \<open>The views of a joined text, and what they contain.\<close>

lemma split_pipe_join:
  "ts \<noteq> [] \<Longrightarrow> \<forall>t\<in>set ts. 124 \<notin> set t \<Longrightarrow>
    map view_text (string_view_split 124 (pipe_join ts)) = ts \<and> list_all2 (\<lambda>v t. \<exists>rest. fst v = t @ rest \<and> stops rest) (string_view_split 124 (pipe_join ts)) ts"
proof (induction ts rule: pipe_join.induct)
  case (2 t)
  then show ?case by (simp add: split_no_bar view_text_def stops_def)
next
  case (3 t u ts)
  then show ?case by (auto simp: split_bar view_text_def stops_def)
qed simp

lemma collect_visit:
  "list_all2 (\<lambda>v t. \<exists>rest. v = int_text t @ rest \<and> stops rest) vs ns \<Longrightarrow> \<forall>n\<in>set ns. - (2 ^ 63) \<le> n \<and> n < 2 ^ 64 \<Longrightarrow>
    collect visit_int_token vs = Inr (map int_constant ns)"
  by (induction vs ns rule: list_all2_induct) (auto simp: visit_int_text)

lemma collect_get_int64: "\<forall>n\<in>set ns. n < 2 ^ 63 \<Longrightarrow> collect get_int64 (map int_constant ns) = Inr ns"
  by (induction ns) (auto simp: int_constant_def)

lemma UINT64_constant:
  "- (2 ^ 63) \<le> n \<Longrightarrow> n < 2 ^ 64 \<Longrightarrow> GetNumericValue UINT64 (int_constant n) = (if 0 \<le> n then Inr n else Inl Std_runtime_error)"
  using GetNumericValue_eq [of UINT64 "int_constant n"] by (auto simp: int_constant_def int_type_defs split: if_splits)

lemma collect_uint64:
  "\<forall>n\<in>set ns. - (2 ^ 63) \<le> n \<and> n < 2 ^ 64 \<Longrightarrow>
    collect (GetNumericValue UINT64) (map int_constant ns) = (if \<forall>n\<in>set ns. 0 \<le> n then Inr ns else Inl Std_runtime_error)"
  by (induction ns) (auto simp: UINT64_constant)

lemma signed_count: "length (filter is_int64 (map int_constant ns)) = length (map int_constant ns) \<longleftrightarrow> (\<forall>n\<in>set ns. n < 2 ^ 63)"
proof -
  have c: "is_int64 (int_constant n) \<longleftrightarrow> n < 2 ^ 63" for n by (auto simp: int_constant_def)
  show ?thesis
  proof
    assume "length (filter is_int64 (map int_constant ns)) = length (map int_constant ns)"
    then have "\<forall>v\<in>set (map int_constant ns). is_int64 v" using length_filter_less by (metis less_irrefl)
    then show "\<forall>n\<in>set ns. n < 2 ^ 63" using c by auto
  next
    assume "\<forall>n\<in>set ns. n < 2 ^ 63"
    then have "\<forall>v\<in>set (map int_constant ns). is_int64 v" using c by auto
    then show "length (filter is_int64 (map int_constant ns)) = length (map int_constant ns)" by (simp add: filter_id_conv del: filter_map)
  qed
qed

lemma int_list_of_texts:
  assumes "list_all2 (\<lambda>v t. \<exists>rest. v = int_text t @ rest \<and> stops rest) vs ns" "\<forall>n\<in>set ns. - (2 ^ 63) \<le> n \<and> n < 2 ^ 64"
  shows "int_list_of vs = (if \<forall>n\<in>set ns. n < 2 ^ 63 then Inr (IntListConstant_int64 ns)
    else if \<forall>n\<in>set ns. 0 \<le> n then Inr (IntListConstant_uint64 ns) else Inl Std_runtime_error)"
  using collect_get_int64 [of ns] collect_uint64 [OF assms(2)]
  unfolding int_list_of_def collect_visit [OF assms] bindR_simps build_int_list_ptr_def signed_count by simp

lemma strip_quoted: "length t + 2 < 2 ^ 64 \<Longrightarrow> strip_quotes (34 # t @ [34]) = Inr t"
  using u64_sub_le [of 2 "length (34 # t @ [34])"] by (simp add: strip_quotes_def)

section \<open>Properties\<close>

text \<open>
  Claim C27. A quoted list of numbers separated by bars is read back exactly: as signed numbers when all
  fit, as unsigned numbers when one does not and none is negative; otherwise the list is refused.
\<close>

theorem visitInt_pipe_list_roundtrip:
  assumes "ns \<noteq> []" "\<forall>n\<in>set ns. - (2 ^ 63) \<le> n \<and> n < 2 ^ 64" "length (pipe_join (map int_text ns)) + 2 < 2 ^ 64"
  shows "visitInt_pipe_list (PIPE_INT_STR_tok (34 # pipe_join (map int_text ns) @ [34])) False =
    (if \<forall>n\<in>set ns. n < 2 ^ 63 then Inr (IntListConstant_int64 ns)
     else if \<forall>n\<in>set ns. 0 \<le> n then Inr (IntListConstant_uint64 ns) else Inl Std_runtime_error)"
proof -
  let ?views = "string_view_split 124 (pipe_join (map int_text ns))"
  have "list_all2 (\<lambda>v t. \<exists>rest. fst v = t @ rest \<and> stops rest) ?views (map int_text ns)"
    using split_pipe_join [of "map int_text ns"] assms(1) int_text_chars by fastforce
  then have "list_all2 (\<lambda>v t. \<exists>rest. v = int_text t @ rest \<and> stops rest) (map fst ?views) ns" by (simp add: list_all2_map1 list_all2_map2)
  from int_list_of_texts [OF this assms(2)] show ?thesis
    using strip_quoted [OF assms(3)] by (simp add: visitInt_pipe_list_def Let_def)
qed

theorem visitInt_pipe_list_roundtrip_witness:
  "visitInt_pipe_list (PIPE_INT_STR_tok (34 # pipe_join (map int_text [- 7, 42]) @ [34])) False = Inr (IntListConstant_int64 [- 7, 42]) \<and>
   pipe_join (map int_text [- 7, 42]) = text_bytes ''-7|42''"
proof -
  have t: "pipe_join (map int_text [- 7, 42]) = text_bytes ''-7|42''" by (simp add: int_text_def nat_text.simps text_bytes_def of_char_def)
  have l: "length (pipe_join (map int_text [- 7, 42])) + 2 < 2 ^ 64" unfolding t by (simp add: text_bytes_def)
  have r: "\<forall>n\<in>set [- 7, 42 :: int]. - (2 ^ 63) \<le> n \<and> n < 2 ^ 64" by simp
  have "\<forall>n\<in>set [- 7, 42 :: int]. n < 2 ^ 63" by simp
  then show ?thesis using visitInt_pipe_list_roundtrip [OF _ r l] t by (metis list.discI)
qed

text \<open>
  What can be wrong with an expression that the visitor yields when it has the schema: a negation, a comparison whose
  left side is arithmetic or a constant, a number in a comparison that the type of the field does not have; and, apart,
  a number in a list that the type of the field does not have.
\<close>

fun plain :: "(bytes \<rightharpoonup> attr_value_type) \<Rightarrow> expression \<Rightarrow> bool" where
  "plain ty (ComparisonExpression left op c) \<longleftrightarrow>
     (case left of FieldExpression f \<Rightarrow> (case c of NumericConstant v \<Rightarrow> accepts (the (ty f)) v | _ \<Rightarrow> True) | _ \<Rightarrow> False)"
| "plain ty (LogicalExpression l op r) \<longleftrightarrow> plain ty l \<and> plain ty r"
| "plain ty (NotExpression e) \<longleftrightarrow> False"
| "plain ty _ \<longleftrightarrow> True"

fun lists_fit :: "(bytes \<rightharpoonup> attr_value_type) \<Rightarrow> expression \<Rightarrow> bool" where
  "lists_fit ty (LogicalExpression l op r) \<longleftrightarrow> lists_fit ty l \<and> lists_fit ty r"
| "lists_fit ty (IntListExpression (FieldExpression f) n (IntListConstant_int64 vs)) \<longleftrightarrow> fits (the (ty f)) vs"
| "lists_fit ty (IntListExpression (FieldExpression f) n (IntListConstant_uint64 vs)) \<longleftrightarrow> fits (the (ty f)) vs"
| "lists_fit ty _ \<longleftrightarrow> True"

definition visitor_typed :: "(bytes \<rightharpoonup> attr_value_type) \<Rightarrow> expression \<Rightarrow> bool" where
  "visitor_typed ty e \<longleftrightarrow> constants_ok e \<and> ((\<forall>l\<in>set (expr_leaves e). leaf_accepted ty l) \<longleftrightarrow> plain ty e) \<and>
     (well_typed ty e \<longleftrightarrow> plain ty e \<and> lists_fit ty e)"

lemma not_accepted: "\<not> leaf_accepted ty (NotExpression e)"
  by (simp add: leaf_accepted_def)

lemmas visitor_leaf_defs = visitor_typed_def leaf_accepted_def unchecked_ints_def

lemma visit_int_token_ok: "visit_int_token s = Inr v \<Longrightarrow> numeric_ok v"
  by (auto simp: visit_int_token_def stoll_def stoull_def Let_def bindR_Inr_iff split: if_splits option.splits)

lemma visitNumeric_ok: "visitNumeric stod ctx = Inr e \<Longrightarrow> \<exists>v. e = NumericConstant v \<and> numeric_ok v"
  using visit_int_token_ok by (auto simp: visitNumeric_def bindR_Inr_iff split: numeric_ctx.splits)

lemma visitField_expr_ok:
  "visitField_expr stod (Some sc) ctx = Inr e \<Longrightarrow> constants_ok e \<and>
    (case e of FieldExpression f \<Rightarrow> map_of sc f \<noteq> None \<and> map_of sc f \<noteq> Some STRING | NumericConstant v \<Rightarrow> True | ArithmeticExpression l op r \<Rightarrow> True | _ \<Rightarrow> False)"
  by (induction ctx arbitrary: e)
    (auto simp: bindR_Inr_iff known_string_def is_string_type_def Schema_GetTypeOfField_def split: option.splits if_splits dest!: visitNumeric_ok)

lemma int_list_of_ok: "int_list_of ts = Inr e \<Longrightarrow> (\<exists>vs. e = IntListConstant_int64 vs) \<or> (\<exists>vs. e = IntListConstant_uint64 vs)"
  by (auto simp: int_list_of_def build_int_list_ptr_def bindR_Inr_iff split: if_splits)

lemma visitInt_list_ok:
  "visitInt_pipe_list ctx b = Inr e \<Longrightarrow> if b then \<exists>vs. e = StrListConstant vs else (\<exists>vs. e = IntListConstant_int64 vs) \<or> (\<exists>vs. e = IntListConstant_uint64 vs)"
  "visitInt_value_list ts b = Inr e \<Longrightarrow> if b then \<exists>vs. e = StrListConstant vs else (\<exists>vs. e = IntListConstant_int64 vs) \<or> (\<exists>vs. e = IntListConstant_uint64 vs)"
  by (auto simp: visitInt_pipe_list_def visitInt_value_list_def bindR_Inr_iff Let_def split: int_pipe_list_ctx.splits if_splits dest!: int_list_of_ok)

lemma visitStr_list_ok:
  "visitStr_pipe_list ctx1 = Inr e \<Longrightarrow> \<exists>vs. e = StrListConstant vs"
  "visitStr_value_list ctx2 = Inr e \<Longrightarrow> \<exists>vs. e = StrListConstant vs"
  by (auto simp: visitStr_pipe_list_def visitStr_value_list_def bindR_Inr_iff split: str_pipe_list_ctx.splits if_splits)

lemma known_string_eq:
  "known_string (Some sc) f = Inr b \<longleftrightarrow> (\<exists>T. map_of sc f = Some T \<and> b = (T = STRING))"
  "known_not_string (Some sc) f = Inr b \<longleftrightarrow> (\<exists>T. map_of sc f = Some T \<and> b = (T \<noteq> STRING))"
  by (auto simp: known_string_def known_not_string_def is_string_type_def Schema_GetTypeOfField_def bindR_Inr_iff split: option.splits)

lemma visitComparison_ok:
  "visitComparison stod (Some sc) ctx = Inr e \<Longrightarrow> visitor_typed (map_of sc) e"
proof (cases ctx)
  case (IntPipeListExpr f n c)
  moreover assume "visitComparison stod (Some sc) ctx = Inr e"
  ultimately obtain T right where "map_of sc f = Some T" "visitInt_pipe_list c (T = STRING) = Inr right"
    "e = (if T = STRING then StrListExpression (FieldExpression f) n right else IntListExpression (FieldExpression f) n right)"
    by (auto simp: bindR_Inr_iff known_string_eq)
  then show ?thesis using visitInt_list_ok(1) [of c "T = STRING" right] by (auto simp: visitor_leaf_defs split: if_splits)
next
  case (IntListExpr f n c)
  moreover assume "visitComparison stod (Some sc) ctx = Inr e"
  ultimately obtain T right where "map_of sc f = Some T" "visitInt_value_list c (T = STRING) = Inr right"
    "e = (if T = STRING then StrListExpression (FieldExpression f) n right else IntListExpression (FieldExpression f) n right)"
    by (auto simp: bindR_Inr_iff known_string_eq)
  then show ?thesis using visitInt_list_ok(2) [of c "T = STRING" right] by (auto simp: visitor_leaf_defs split: if_splits)
next
  case (NumericComparison field op c)
  moreover assume "visitComparison stod (Some sc) ctx = Inr e"
  ultimately obtain left right op' where "visitField_expr stod (Some sc) field = Inr left" "visitNumeric stod c = Inr right"
    "e = ComparisonExpression left op' right" by (auto simp: bindR_Inr_iff)
  then show ?thesis using visitField_expr_ok [of stod sc field left] visitNumeric_ok [of stod c right] by (cases left) (auto simp: visitor_leaf_defs)
qed (auto simp: bindR_Inr_iff known_string_eq visitor_leaf_defs split: if_splits dest!: visitStr_list_ok)

lemma visitExpr_ok:
  "visitExpr stod (Some sc) ctx = Inr e \<Longrightarrow> visitor_typed (map_of sc) e"
proof (induction ctx arbitrary: e)
  case (CompExpr c)
  then show ?case using visitComparison_ok [of stod sc c e] by simp
qed (auto simp: bindR_Inr_iff visitor_typed_def not_accepted)

text \<open>
  Claim C9. With the schema of the index the visitor types an expression, and what it leaves open is known exactly.
  Every constant it produces is a value of its variant. The executors accept the expression exactly when it has no
  negation, every comparison has a field on its left (no arithmetic, no constant), and every number of a comparison is
  an integer in the range of its field. The expression is well-typed exactly when, besides, all numbers of its lists are in the
  range of their fields: the executors accept the others too (see C39).
\<close>

theorem visitExpr_well_typed:
  assumes "visitExpr stod (Some (ai_field_type_map x)) ctx = Inr e" "ty = map_of (ai_field_type_map x)"
  shows "constants_ok e \<and> ((\<exists>ex. MakeInstance x e = Inr ex) \<longleftrightarrow> plain ty e) \<and> (well_typed ty e \<longleftrightarrow> plain ty e \<and> lists_fit ty e)"
proof -
  have "visitor_typed ty e" using visitExpr_ok [OF assms(1)] assms(2) by simp
  then show ?thesis using make_typed [OF assms(2), of e] by (auto simp: visitor_typed_def typed_result_def split: sum.splits)
qed

theorem visitExpr_well_typed_witness:
  "\<exists>e. visitExpr (\<lambda>_. Inr 0) (Some [([1], UINT8)]) (CompExpr (NumericComparison (FieldRef [1]) (text_bytes ''='') (INTEGER_tok (int_text 300)))) = Inr e \<and>
    \<not> (\<exists>ex. MakeInstance \<lparr>ai_field_type_map = [([1], UINT8)], ai_field_2_value_map = [([1], AttrValueMap_new :: fast_bitset attr_value_map)]\<rparr> e = Inr ex)"
proof -
  let ?x = "\<lparr>ai_field_type_map = [([1], UINT8)], ai_field_2_value_map = [([1], AttrValueMap_new :: fast_bitset attr_value_map)]\<rparr>"
  let ?e = "ComparisonExpression (FieldExpression [1]) EQ (NumericConstant (Int64 300))"
  have op: "trans_string_to_comparison_operator (text_bytes ''='') = Inr EQ" by (simp add: trans_string_to_comparison_operator_def text_bytes_def of_char_def)
  have "visit_int_token (int_text 300) = Inr (Int64 300)" using visit_int_text [of "[]" 300] by (simp add: stops_def int_constant_def)
  then have v: "visitExpr (\<lambda>_. Inr 0) (Some (ai_field_type_map ?x)) (CompExpr (NumericComparison (FieldRef [1]) (text_bytes ''='') (INTEGER_tok (int_text 300)))) = Inr ?e"
    by (simp add: known_string_def is_string_type_def Schema_GetTypeOfField_def visitNumeric_def op)
  have "\<not> plain (map_of (ai_field_type_map ?x)) ?e" by (simp add: int_type_defs)
  then show ?thesis using visitExpr_well_typed [OF v refl] v by auto
qed

end
