(* ===== verification/Spec2Isabelle.thy ===== *)
theory Spec2Isabelle
  imports NonContinuousIO IVFSearch HGraphRemove AttributeStream FilterVisitor
begin

text \<open>
  A model of the core of vsag, the C++ vector index library under \<open>src/upstream/vsag\<close>, and the theorems
  that make it correct. Paths below are relative to \<open>src/upstream/vsag\<close>. The other parts of the repository
  (a Go port, scripts, documents) are outside this development.

  \<^bold>\<open>The program.\<close> An index stores vectors under labels of the user and answers nearest-neighbour queries. It
  composes a label table (labels to dense identifiers), code stores (a quantized vector per identifier
  in a byte store), graph storages (a neighbour list per identifier), distance heaps, and searches over
  them. \<open>BruteForce\<close> scans all codes, \<open>IVF\<close> scans the codes of some buckets, and \<open>HGraph\<close> walks a hierarchy of
  graphs that it builds by searching for a new element and linking it to the selected neighbours.
  Everything can be written to a stream and read back.

  \<^bold>\<open>Theories\<close>, from the bottom:

  \<^item> \<open>Prelude\<close>: results and faults (\<open>src/vsag_exception.h\<close>, \<open>include/vsag/errors.h\<close>), loops that may fail, machine
    integers over the naturals, arrays.
  \<^item> \<open>Streams\<close>: \<open>src/storage/stream_writer\<close>, \<open>stream_reader\<close>. The locale \<open>byte_reader\<close> is the contract of a reader;
    it is interpreted for the plain, the buffered and the slice reader, and all round trips are proved in it.
  \<^item> \<open>FastBitset\<close>: \<open>src/impl/bitset/fast_bitset\<close>. The locales \<open>computable_bitset\<close> and \<open>complement_bitset\<close> state the
    interface; the bitset is a set of positions with a fill bit.
  \<^item> \<open>EliasFano\<close>: \<open>src/impl/elias_fano_encoder\<close>, the compressed neighbour list.
  \<^item> \<open>DuplicateTracker\<close>: \<open>src/datacell/dense_duplicate_tracker\<close>, \<open>sparse_duplicate_tracker\<close>; rings of equal
    elements. The locale \<open>duplicate_interface\<close> is interpreted for both.
  \<^item> \<open>CompressedGraph\<close>: \<open>src/datacell/graph_interface\<close>, \<open>compressed_graph_datacell\<close>, with the lock-free maximum on
    the number of nodes as a step relation.
  \<^item> \<open>LabelTable\<close>: \<open>src/impl/label_table\<close>; \<open>lt_rel\<close> relates a table to a list of labels and a set of deletion marks. A label
    may occur again behind an element that is marked; it names its latest position (\<open>latest\<close>).
  \<^item> \<open>BasicIO\<close>, \<open>NonContinuousIO\<close>: \<open>src/io\<close>; the locales \<open>byte_io\<close>, \<open>direct_io\<close>, \<open>loadable_io\<close> are the contract of a
    byte store, interpreted for the plain, the block and the non-continuous memory store.
  \<^item> \<open>Heaps\<close>: \<open>src/impl/heap\<close> with the heap algorithms of the standard library; the locales \<open>heap_top\<close>,
    \<open>dist_heap\<close>, \<open>topk_heap\<close> are interpreted for both implementations.
  \<^item> \<open>SparseGraph\<close>, \<open>GraphDataCell\<close>: \<open>src/impl/reverse_edge\<close>, \<open>src/datacell/sparse_graph_datacell\<close>, \<open>graph_datacell\<close>.
    The locales \<open>graph_cell\<close>, \<open>graph_rev\<close>, \<open>movable_graph\<close> are the contract of a graph storage (insertion, lookup,
    incoming edges, renaming, shrinking), interpreted for the sparse graph and for the flat graph over
    every byte store of \<open>direct_io\<close>.
  \<^item> \<open>FlattenDataCell\<close>: \<open>src/datacell/flatten_datacell\<close>, \<open>src/quantization/fp32_quantizer\<close>; the locale \<open>code_store\<close>.
  \<^item> \<open>BruteForce\<close>: \<open>src/algorithm/brute_force\<close>, over any \<open>code_store\<close>.
  \<^item> \<open>Pruning\<close>: \<open>src/impl/pruning_strategy\<close>, over any \<open>graph_cell\<close>.
  \<^item> \<open>Searcher\<close>: \<open>src/utils/visited_list\<close>, \<open>src/impl/searcher/basic_searcher\<close>, over any graph and code store.
  \<^item> \<open>IVFSearch\<close>: the bucket scan of \<open>src/algorithm/ivf.cpp\<close>, alone and with interleaved threads.
  \<^item> \<open>HGraph\<close>, \<open>HGraphRemove\<close>: \<open>src/algorithm/hgraph/hgraph_build.cpp\<close>, \<open>hgraph_search.cpp\<close>, \<open>hgraph_modify.cpp\<close>:
    linking an element into all its levels, proved in the locale \<open>growing_graph\<close>, and both kinds of removal, proved
    in \<open>growable_graph\<close>, which adds incoming edges and renaming; the sparse and the flat graph provide both.
  \<^item> \<open>Attributes\<close>, \<open>AttributeStream\<close>: \<open>src/impl/bitset/sparse_bitset\<close>, \<open>src/attr/multi_bitset_manager\<close>,
    \<open>attr_value_map\<close>, \<open>attr_type_schema\<close>, \<open>src/datacell/attribute_bucket_inverted_datacell\<close>: which elements of which
    bucket have which values, and its serialization. The locale \<open>attr_bitset\<close> is the contract of a bitset, interpreted
    for the fast one and, by a sublocale of \<open>roaring_bitmap\<close> (what the Roaring library documents), for the
    sparse one; \<open>stream_bitset\<close> and \<open>portable_bitmap\<close> add writing and reading.
  \<^item> \<open>Expressions\<close>, \<open>Executors\<close>, \<open>FilterVisitor\<close>: \<open>src/attr/expression.h\<close>, \<open>src/attr/executor\<close>, \<open>src/impl/filter\<close>,
    \<open>src/attr/expression_visitor.cpp\<close>: from the parse tree of a filter to the elements it accepts. The executors share
    bitsets through pointers, so they work on an explicit store.

  \<^bold>\<open>State and operations.\<close> A class is a record with the fields of the class in lower case with a prefix
  (\<open>lt_label_remap\<close> is \<open>label_remap_\<close> of \<open>LabelTable\<close>); a method is a definition \<open>Class_Method\<close> that takes and returns the
  record. Virtual methods that a component calls through an interface are arguments, or fields of a
  record of methods (\<open>searcher\<close>, \<open>graph_methods\<close>, \<open>code_methods\<close>). Everything that can fail returns a \<open>result\<close>:
  \<open>Inl (Throw e)\<close> is an exception, \<open>Inl UB\<close> undefined behaviour of C++ (an access out of bounds, a null
  pointer), \<open>Inl Diverges\<close> a loop that would not end. Theorems that an operation succeeds exclude all three.
  Hash maps are association lists in the order of iteration; where only sets matter the theorems are
  for every order. The C++ integers are naturals or integers with the wrap-around written out (\<open>u32\<close>, \<open>u64\<close>),
  or words where the code works on bits. A float distance is an integer that stands for its position
  in the order of floats; arithmetic on distances (the factor of the pruning, the radius bound) is a parameter.

  \<^bold>\<open>What is shown.\<close> Each component refines an abstract object under any sequence of its operations: a byte
  string, a set, a partition, a list of labels with marks, a map from nodes to lists with exactly the
  reversed edges. The searches are exact: the exhaustive one always, the bucket scan for every
  interleaving of its threads when at least ten records are kept, the graph search for nearest neighbours without
  a filter on identifiers when the width is not below the number of
  reachable elements; otherwise it ends and returns the nearest of what it visited, a greedy walk. The pruned
  neighbours are the greedy diverse selection. Adding to a hierarchical index without duplicate support and removing from
  one with reverse edges keep it linked, but for the entry point that the removal of the last element can lose.
  A well-typed filter expression accepts exactly the elements whose attributes satisfy it, and what the type checks of
  visitor and executors let through besides is determined.
  Serialization is a round trip. The theorems about errors show where the code does not do what it means to.

  \<^bold>\<open>Loops and bounds.\<close> Loops over containers are structural. The graph search is bounded by the size of the
  visited list, as every round visits a new node; the selection loop and the draining of a heap by
  the size of the heap; the walk around a ring of duplicates by the number of entries plus one. In all
  cases the theorems show that the bound is not met: the result is never \<open>Diverges\<close>.

  \<^bold>\<open>Not modelled.\<close> Float kernels and quantization other than the identity, training and clustering, as their
  correctness is numerical; stores on disk and the asynchronous ones, which are system calls; JSON, parameters,
  the factory and the base class of the indexes, which is dispatch; the generated lexer and parser of filters; the parallel searcher; the remaining
  indexes (Pyramid, SINDI, Warp, the hnswlib fork) and the vendored DiskANN; batch building,
  tuning and serialization of the hierarchical index; logging, timing, allocators and prefetching,
  which do not change results. Locks are left out where they make an operation atomic; the two places
  without them (the counter of a graph, the bound of the bucket scan) are modelled with interleavings.
  \<open>BruteForce::Add\<close> is modelled without its thread pool, which only permutes the identifiers. Memory is never
  exhausted in the model, and capacities are not negative.
\<close>

end
